(* ===== verification/Prelude.thy ===== *)
theory Prelude
  imports Main "HOL-Library.Word" "HOL-Library.Monad_Syntax"
begin

text \<open>
  Shared vocabulary of the development: assertions and byte memory as partial operations
  (\<open>None\<close> is a failed \<open>RT_ASSERT\<close>, which spins forever in \<open>rt_assert_handler\<close>, or an access
  outside an object), the fact collections the component theories extend, and generic lemmas
  on option binds, list blits and circular lists.
\<close>

named_theorems option_simps
named_theorems kernel_simps

type_synonym byte = "8 word"
type_synonym u32 = "32 word"

subsection \<open>Assertions\<close>

definition rt_assert :: "bool \<Rightarrow> unit option" where
  "rt_assert b = (if b then Some () else None)"

lemma rt_assert_True [simp]: "b \<Longrightarrow> rt_assert b = Some ()"
  by (simp add: rt_assert_def)

lemma rt_assert_eq_Some [option_simps]: "rt_assert b = Some u \<longleftrightarrow> b"
  by (simp add: rt_assert_def)

lemma bind_eq_Some [option_simps]:
  "Option.bind m f = Some y \<longleftrightarrow> (\<exists>x. m = Some x \<and> f x = Some y)"
  by (cases m) auto

lemma rt_assert_bind [option_simps]:
  "Option.bind (rt_assert b) f = Some y \<longleftrightarrow> b \<and> f () = Some y"
  by (simp add: rt_assert_def)

subsection \<open>Byte memory\<close>

text \<open>
  A C buffer is a list of cells. \<open>mem_read\<close> and \<open>mem_write\<close> are \<open>rt_memcpy\<close> from and to an
  offset of it; an access that leaves the buffer has no result.
\<close>

definition mem_read :: "'a list \<Rightarrow> nat \<Rightarrow> nat \<Rightarrow> 'a list option" where
  "mem_read buf off n =
     (if off + n \<le> length buf then Some (take n (drop off buf)) else None)"

definition mem_write :: "'a list \<Rightarrow> nat \<Rightarrow> 'a list \<Rightarrow> 'a list option" where
  "mem_write buf off src =
     (if off + length src \<le> length buf
      then Some (take off buf @ src @ drop (off + length src) buf) else None)"

lemma mem_read_Some [simp]:
  "off + n \<le> length buf \<Longrightarrow> mem_read buf off n = Some (take n (drop off buf))"
  by (simp add: mem_read_def)

lemma mem_write_Some [simp]:
  "off + length src \<le> length buf \<Longrightarrow>
   mem_write buf off src = Some (take off buf @ src @ drop (off + length src) buf)"
  by (simp add: mem_write_def)

lemma nth_blit:
  assumes "off + length src \<le> length buf" "i < length buf"
  shows "(take off buf @ src @ drop (off + length src) buf) ! i =
    (if off \<le> i \<and> i < off + length src then src ! (i - off) else buf ! i)"
  using assms by (auto simp: nth_append)

lemma length_blit [simp]:
  "off + length src \<le> length buf \<Longrightarrow>
   length (take off buf @ src @ drop (off + length src) buf) = length buf"
  by simp

lemma mem_writeE:
  assumes "length src = n" "off + n \<le> length buf"
  obtains buf' where "mem_write buf off src = Some buf'" "length buf' = length buf"
    "\<And>i. i < length buf \<Longrightarrow>
       buf' ! i = (if off \<le> i \<and> i < off + n then src ! (i - off) else buf ! i)"
proof (rule that)
  show "mem_write buf off src = Some (take off buf @ src @ drop (off + n) buf)"
    using assms by simp
  show "length (take off buf @ src @ drop (off + n) buf) = length buf" using assms by simp
  show "(take off buf @ src @ drop (off + n) buf) ! i =
      (if off \<le> i \<and> i < off + n then src ! (i - off) else buf ! i)" if "i < length buf" for i
    using nth_blit [of off src buf i] assms that by simp
qed

subsection \<open>Circular lists\<close>

text \<open>The \<open>n\<close> cells of a ring of \<open>m\<close> cells that start at \<open>i\<close>.\<close>

definition ring :: "'a list \<Rightarrow> nat \<Rightarrow> nat \<Rightarrow> nat \<Rightarrow> 'a list" where
  "ring buf m i n = map (\<lambda>k. buf ! ((i + k) mod m)) [0..<n]"

lemma length_ring [simp]: "length (ring buf m i n) = n"
  by (simp add: ring_def)

lemma ring_0 [simp]: "ring buf m i 0 = []"
  by (simp add: ring_def)

lemma nth_ring: "k < n \<Longrightarrow> ring buf m i n ! k = buf ! ((i + k) mod m)"
  by (simp add: ring_def)

lemma ring_cong:
  assumes "\<And>k. k < n \<Longrightarrow> buf' ! ((i + k) mod m) = buf ! ((i + k) mod m)"
  shows "ring buf' m i n = ring buf m i n"
  using assms by (simp add: ring_def)

lemma ring_start_mod: "ring buf m (i mod m) n = ring buf m i n"
  by (simp add: ring_def mod_add_left_eq)

lemma ring_append: "ring buf m i (a + b) = ring buf m i a @ ring buf m (i + a) b"
  by (rule nth_equalityI) (auto simp: nth_ring nth_append add.assoc)

lemma take_ring: "a \<le> n \<Longrightarrow> take a (ring buf m i n) = ring buf m i a"
  by (rule nth_equalityI) (auto simp: nth_ring)

lemma drop_ring: "drop a (ring buf m i n) = ring buf m (i + a) (n - a)"
  by (rule nth_equalityI) (auto simp: nth_ring add.assoc)

lemma ring_Suc: "ring buf m i (Suc n) = ring buf m i n @ [buf ! ((i + n) mod m)]"
  by (simp add: ring_def)

lemma ring_Cons: "0 < n \<Longrightarrow> ring buf m i n = buf ! (i mod m) # ring buf m (Suc i) (n - 1)"
  by (rule nth_equalityI) (auto simp: nth_ring nth_Cons split: nat.splits)

lemma ring_straight:
  "i + n \<le> m \<Longrightarrow> m \<le> length buf \<Longrightarrow> ring buf m i n = take n (drop i buf)"
proof (rule nth_equalityI)
  fix k assume h: "i + n \<le> m" "m \<le> length buf" and k: "k < length (ring buf m i n)"
  then have "i + k < m" by simp
  then show "ring buf m i n ! k = take n (drop i buf) ! k"
    using h k by (simp add: nth_ring)
qed auto

lemma ring_wrap:
  assumes "i \<le> m" "m \<le> length buf" "m - i \<le> n" "n \<le> m"
  shows "ring buf m i n = take (m - i) (drop i buf) @ take (n - (m - i)) buf"
proof -
  have "ring buf m i n = ring buf m i (m - i) @ ring buf m (i + (m - i)) (n - (m - i))"
    using ring_append [of buf m i "m - i" "n - (m - i)"] assms by simp
  also have "ring buf m (i + (m - i)) (n - (m - i)) = ring buf m 0 (n - (m - i))"
    using ring_start_mod [of buf m "i + (m - i)"] assms by simp
  finally show ?thesis using assms by (simp add: ring_straight)
qed

text \<open>Two positions of a ring that are less than one turn apart are different cells.\<close>

lemma mod_window_neq:
  fixes a b m :: nat
  assumes "a < b" "b < a + m"
  shows "a mod m \<noteq> b mod m"
proof
  assume "a mod m = b mod m"
  then have "(b - a) mod m = 0" using assms(1) by (metis less_imp_le mod_eq_dvd_iff_nat dvd_imp_mod_0)
  moreover have "b - a < m" using assms by simp
  ultimately show False using assms(1) by simp
qed

lemma ring_update_outside:
  assumes "j mod m < length buf" "i \<le> j" "j < i + m" "n \<le> j - i \<or> n = 0"
  shows "ring (buf[j mod m := x]) m i n = ring buf m i n"
proof (rule ring_cong)
  fix k assume "k < n"
  then have "i + k < j" "j < i + k + m" using assms by auto
  then have "(i + k) mod m \<noteq> j mod m" by (rule mod_window_neq)
  then show "buf[j mod m := x] ! ((i + k) mod m) = buf ! ((i + k) mod m)" by simp
qed

subsection \<open>Alignment\<close>

text \<open>
  \<open>RT_ALIGN\<close> and \<open>RT_ALIGN_DOWN\<close> of rtdef.h on 32-bit unsigned sizes, for a power of two
  \<open>align\<close>: masking with \<open>~(align - 1)\<close> drops the remainder, and the sum in \<open>RT_ALIGN\<close> wraps.
\<close>

definition RT_ALIGN_DOWN :: "nat \<Rightarrow> nat \<Rightarrow> nat" where
  "RT_ALIGN_DOWN n align = n - n mod align"

definition RT_ALIGN :: "nat \<Rightarrow> nat \<Rightarrow> nat" where
  "RT_ALIGN n align = RT_ALIGN_DOWN ((n + align - 1) mod 2 ^ 32) align"

abbreviation (input) RT_ALIGN_SIZE :: nat where
  "RT_ALIGN_SIZE \<equiv> 4"

lemma RT_ALIGN_DOWN_le: "RT_ALIGN_DOWN n a \<le> n"
  by (simp add: RT_ALIGN_DOWN_def)

lemma RT_ALIGN_DOWN_dvd: "a dvd RT_ALIGN_DOWN n a"
  by (simp add: RT_ALIGN_DOWN_def dvd_minus_mod)

lemma RT_ALIGN_DOWN_pos: "0 < a \<Longrightarrow> a \<le> n \<Longrightarrow> 0 < RT_ALIGN_DOWN n a"
  by (metis RT_ALIGN_DOWN_def minus_mod_eq_mult_div div_greater_zero_iff mult_is_0 not_gr_zero)

subsection \<open>Lists\<close>

lemma remove1_append_distinct:
  "distinct (xs @ x # ys) \<Longrightarrow> remove1 x (xs @ x # ys) = xs @ ys"
  by (simp add: remove1_append remove1_idem)

lemma distinct_remove1_notin [simp]: "distinct xs \<Longrightarrow> x \<notin> set (remove1 x xs)"
  by (simp add: set_remove1_eq)

lemma map_upt_shift: "map f [a..<a + n] = map (\<lambda>k. f (a + k)) [0..<n]"
  by (induction n) auto

end
