(* ===== verification/Fifo.thy ===== *)
theory Fifo
  imports Prelude
begin

text \<open>
  The interface of bounded first-in first-out buffers: the byte ring buffer, the mailbox and the
  message queue of the kernel provide it, and the facts that matter to their users are proved
  here once: whatever the order of puts and gets, what comes out is what went in, in order,
  with nothing lost and nothing twice. Items have a width that the buffer fixes when it is made
  (the bytes of a message); \<open>fits\<close> says which items have it.
\<close>

datatype 'a fifo_op = Put 'a | Get

locale bounded_fifo =
  fixes inv :: "'s \<Rightarrow> bool"
    and contents :: "'s \<Rightarrow> 'a list"
    and capacity :: "'s \<Rightarrow> nat"
    and fits :: "nat \<Rightarrow> 'a \<Rightarrow> bool"
    and width :: "'s \<Rightarrow> nat"
    and put :: "'a \<Rightarrow> 's \<Rightarrow> 's option"
    and get :: "'s \<Rightarrow> ('a \<times> 's) option"
  assumes bounded: "inv s \<Longrightarrow> length (contents s) \<le> capacity s"
    and put_room: "inv s \<Longrightarrow> length (contents s) < capacity s \<Longrightarrow> fits (width s) x \<Longrightarrow>
      \<exists>s'. put x s = Some s' \<and> inv s' \<and> contents s' = contents s @ [x] \<and> capacity s' = capacity s \<and> width s' = width s"
    and put_full: "inv s \<Longrightarrow> length (contents s) = capacity s \<Longrightarrow> put x s = None"
    and get_some: "inv s \<Longrightarrow> contents s = x # xs \<Longrightarrow>
      \<exists>s'. get s = Some (x, s') \<and> inv s' \<and> contents s' = xs \<and> capacity s' = capacity s \<and> width s' = width s"
    and get_none: "inv s \<Longrightarrow> contents s = [] \<Longrightarrow> get s = None"
begin

text \<open>
  A sequence of operations: the items that entered, the items that left, and the final state. A
  put into a full buffer and a get from an empty one leave the state alone.
\<close>

fun run :: "'a fifo_op list \<Rightarrow> 's \<Rightarrow> 'a list \<times> 'a list \<times> 's" where
  "run [] s = ([], [], s)"
| "run (Put x # ops) s =
     (case put x s of
        None \<Rightarrow> run ops s
      | Some s' \<Rightarrow> (case run ops s' of (entered, left, t) \<Rightarrow> (x # entered, left, t)))"
| "run (Get # ops) s =
     (case get s of
        None \<Rightarrow> run ops s
      | Some (x, s') \<Rightarrow> (case run ops s' of (entered, left, t) \<Rightarrow> (entered, x # left, t)))"

lemma put_cases:
  assumes "inv s" "fits (width s) x"
  obtains "put x s = None" "length (contents s) = capacity s"
  | s' where "put x s = Some s'" "inv s'" "contents s' = contents s @ [x]" "capacity s' = capacity s"
      "width s' = width s"
proof (cases "length (contents s) = capacity s")
  case True
  show thesis by (rule that(1) [OF put_full [OF assms(1) True] True])
next
  case False
  then show thesis using put_room [OF assms(1) _ assms(2)] bounded [OF assms(1)] that(2) by force
qed

lemma get_cases:
  assumes "inv s"
  obtains "get s = None" "contents s = []"
  | x s' where "get s = Some (x, s')" "inv s'" "contents s = x # contents s'" "capacity s' = capacity s"
      "width s' = width s"
proof (cases "contents s")
  case Nil
  show thesis by (rule that(1) [OF get_none [OF assms Nil] Nil])
next
  case (Cons x xs)
  then show thesis using get_some [OF assms Cons] that(2) by force
qed

fun op_fits :: "nat \<Rightarrow> 'a fifo_op \<Rightarrow> bool" where
  "op_fits n (Put x) = fits n x"
| "op_fits n Get = True"

definition all_fit :: "'a fifo_op list \<Rightarrow> 's \<Rightarrow> bool" where
  "all_fit ops s \<longleftrightarrow> list_all (op_fits (width s)) ops"

lemma all_fit_trivial: "(\<And>n x. fits n x) \<Longrightarrow> all_fit ops s"
proof -
  assume "\<And>n x. fits n x"
  then have "op_fits n oper" for n oper by (cases oper) simp_all
  then show ?thesis by (simp add: all_fit_def list_all_iff)
qed

theorem run_in_order:
  assumes "inv s" "run ops s = (entered, left, s')" "all_fit ops s"
  shows "inv s'" "contents s @ entered = left @ contents s'" "capacity s' = capacity s"
proof -
  have "inv s' \<and> contents s @ entered = left @ contents s' \<and> capacity s' = capacity s"
    using assms
  proof (induction ops arbitrary: s entered left)
    case Nil
    then show ?case by simp
  next
    case (Cons oper ops)
    show ?case
    proof (cases oper)
      case (Put x)
      have fit: "fits (width s) x" "all_fit ops s" using Cons.prems(3) Put by (simp_all add: all_fit_def)
      show ?thesis
      proof (rule put_cases [OF Cons.prems(1) fit(1)])
        assume "put x s = None" "length (contents s) = capacity s"
        then show ?thesis using Cons.IH [OF Cons.prems(1) _ fit(2)] Cons.prems(2) Put by simp
      next
        fix s1 assume s1: "put x s = Some s1" "inv s1" "contents s1 = contents s @ [x]" "capacity s1 = capacity s"
          "width s1 = width s"
        have fit1: "all_fit ops s1" using fit(2) s1(5) by (simp add: all_fit_def)
        obtain e' where r: "run ops s1 = (e', left, s')" "entered = x # e'"
          using Cons.prems(2) Put s1(1) by (auto split: prod.splits)
        from Cons.IH [OF s1(2) r(1) fit1] show ?thesis using s1(3,4) r(2) by simp
      qed
    next
      case Get
      have fit: "all_fit ops s" using Cons.prems(3) Get by (simp add: all_fit_def)
      show ?thesis
      proof (rule get_cases [OF Cons.prems(1)])
        assume "get s = None" "contents s = []"
        then show ?thesis using Cons.IH [OF Cons.prems(1) _ fit] Cons.prems(2) Get by simp
      next
        fix x s1 assume s1: "get s = Some (x, s1)" "inv s1" "contents s = x # contents s1" "capacity s1 = capacity s"
          "width s1 = width s"
        have fit1: "all_fit ops s1" using fit s1(5) by (simp add: all_fit_def)
        obtain l' where r: "run ops s1 = (entered, l', s')" "left = x # l'"
          using Cons.prems(2) Get s1(1) by (auto split: prod.splits)
        from Cons.IH [OF s1(2) r(1) fit1] show ?thesis using s1(3,4) r(2) by simp
      qed
    qed
  qed
  then show "inv s'" "contents s @ entered = left @ contents s'" "capacity s' = capacity s" by auto
qed

text \<open>From an empty buffer, what left is a prefix of what entered, at most the capacity behind.\<close>

corollary run_prefix:
  assumes "inv s" "contents s = []" "run ops s = (entered, left, s')" "all_fit ops s"
  shows "left = take (length left) entered" "length entered \<le> length left + capacity s"
proof -
  note R = run_in_order [OF assms(1,3,4)]
  have e: "entered = left @ contents s'" using R(2) assms(2) by simp
  show "left = take (length left) entered" by (simp add: e)
  show "length entered \<le> length left + capacity s" using bounded [OF R(1)] R(3) by (simp add: e)
qed

end

text \<open>A buffer that also lets an item jump the queue.\<close>

locale urgent_fifo = bounded_fifo inv contents capacity fits width put get
  for inv :: "'s \<Rightarrow> bool" and contents :: "'s \<Rightarrow> 'a list" and capacity fits width put get +
  fixes urgent :: "'a \<Rightarrow> 's \<Rightarrow> 's option"
  assumes urgent_room: "inv s \<Longrightarrow> length (contents s) < capacity s \<Longrightarrow> fits (width s) x \<Longrightarrow>
      \<exists>s'. urgent x s = Some s' \<and> inv s' \<and> contents s' = x # contents s \<and> capacity s' = capacity s \<and> width s' = width s"
    and urgent_full: "inv s \<Longrightarrow> length (contents s) = capacity s \<Longrightarrow> urgent x s = None"
begin

lemma urgent_next:
  assumes "inv s" "fits (width s) x" "urgent x s = Some s'"
  shows "\<exists>t. get s' = Some (x, t) \<and> inv t \<and> contents t = contents s"
proof -
  have "length (contents s) < capacity s"
    using urgent_full [OF assms(1)] assms(3) bounded [OF assms(1)] by (metis le_neq_implies_less option.distinct(1))
  then obtain u where "urgent x s = Some u" "inv u" "contents u = x # contents s"
    using urgent_room [OF assms(1) _ assms(2)] by blast
  then show ?thesis using assms(3) get_some [of s' x "contents s"] by auto
qed

end

end
