(* ===== verification/Ringbuffer.thy ===== *)
theory Ringbuffer
  imports Fifo
begin

text \<open>
  The byte ring buffer of \<open>components/drivers/ipc/ringbuffer.c\<close>: two indices of 15 bits with a
  mirror bit each, so that equal indices mean empty in the same mirror and full in different
  ones. Each operation is the code's function over a record with the pool as a byte list;
  \<open>rb_list\<close> reads the stored bytes off the ring, and every operation is shown to act on that
  list as a bounded queue does and to stay inside the pool.
\<close>

subsection \<open>Data\<close>

datatype rt_ringbuffer_state =
    RT_RINGBUFFER_EMPTY | RT_RINGBUFFER_FULL | RT_RINGBUFFER_HALFFULL

text \<open>
  The mirror fields are one bit wide, so \<open>~mirror\<close> is boolean negation; the index fields are
  15 bits wide, so a store into them is taken modulo \<open>2 ^ 15\<close>. \<open>buffer_size\<close> is a positive
  \<open>rt_int16_t\<close>. The differences \<open>buffer_size - index\<close> below are C \<open>int\<close>s compared with a
  non-negative length, which truncated subtraction decides the same way.
\<close>

record ringbuffer =
  buffer_ptr :: "byte list"
  read_mirror :: bool
  read_index :: nat
  write_mirror :: bool
  write_index :: nat
  buffer_size :: nat

definition u15 :: "nat \<Rightarrow> nat" where
  "u15 n = n mod 2 ^ 15"

definition u16 :: "nat \<Rightarrow> nat" where
  "u16 n = n mod 2 ^ 16"

lemma u15_id [simp]: "n < 32768 \<Longrightarrow> u15 n = n"
  by (simp add: u15_def)

lemma u16_id [simp]: "n < 65536 \<Longrightarrow> u16 n = n"
  by (simp add: u16_def)

subsection \<open>Operations\<close>

definition rt_ringbuffer_status :: "ringbuffer \<Rightarrow> rt_ringbuffer_state" where
  "rt_ringbuffer_status rb =
     (if read_index rb = write_index rb then
        if read_mirror rb = write_mirror rb then RT_RINGBUFFER_EMPTY else RT_RINGBUFFER_FULL
      else RT_RINGBUFFER_HALFFULL)"

definition rt_ringbuffer_init :: "byte list \<Rightarrow> nat \<Rightarrow> ringbuffer option" where
  "rt_ringbuffer_init pool sz = do {
     _ \<leftarrow> rt_assert (sz > 0);
     Some \<lparr>buffer_ptr = pool, read_mirror = False, read_index = 0,
           write_mirror = False, write_index = 0,
           buffer_size = RT_ALIGN_DOWN sz RT_ALIGN_SIZE\<rparr> }"

text \<open>The half-full length is computed in \<open>rt_size_t\<close>, 32 bits.\<close>

definition rt_ringbuffer_data_len :: "ringbuffer \<Rightarrow> nat" where
  "rt_ringbuffer_data_len rb =
     (case rt_ringbuffer_status rb of
        RT_RINGBUFFER_EMPTY \<Rightarrow> 0
      | RT_RINGBUFFER_FULL \<Rightarrow> buffer_size rb
      | RT_RINGBUFFER_HALFFULL \<Rightarrow>
          let wi = write_index rb; ri = read_index rb
          in if wi > ri then wi - ri
             else nat ((int (buffer_size rb) - (int ri - int wi)) mod 2 ^ 32))"

definition rt_ringbuffer_space_len :: "ringbuffer \<Rightarrow> nat" where
  "rt_ringbuffer_space_len rb =
     nat ((int (buffer_size rb) - int (rt_ringbuffer_data_len rb)) mod 2 ^ 32)"

definition rt_ringbuffer_get_size :: "ringbuffer \<Rightarrow> nat" where
  "rt_ringbuffer_get_size rb = buffer_size rb"

text \<open>
  The copy that \<open>put\<close> and \<open>put_force\<close> share: \<open>length\<close> bytes of \<open>ptr\<close> go to the write index, in
  two parts when they reach the end of the pool.
\<close>

definition rb_write :: "ringbuffer \<Rightarrow> byte list \<Rightarrow> nat \<Rightarrow> ringbuffer option" where
  "rb_write rb ptr len =
     (let n1 = buffer_size rb - write_index rb in
      if n1 > len then do {
        d \<leftarrow> mem_read ptr 0 len;
        buf \<leftarrow> mem_write (buffer_ptr rb) (write_index rb) d;
        Some (rb\<lparr>buffer_ptr := buf, write_index := u15 (write_index rb + len)\<rparr>)
      } else do {
        d1 \<leftarrow> mem_read ptr 0 n1;
        buf1 \<leftarrow> mem_write (buffer_ptr rb) (write_index rb) d1;
        d2 \<leftarrow> mem_read ptr n1 (len - n1);
        buf2 \<leftarrow> mem_write buf1 0 d2;
        Some (rb\<lparr>buffer_ptr := buf2, write_mirror := \<not> write_mirror rb,
                 write_index := u15 (len - n1)\<rparr>)
      })"

definition rt_ringbuffer_put ::
  "ringbuffer \<Rightarrow> byte list \<Rightarrow> nat \<Rightarrow> (nat \<times> ringbuffer) option" where
  "rt_ringbuffer_put rb ptr len =
     (let size = u16 (rt_ringbuffer_space_len rb) in
      if size = 0 then Some (0, rb)
      else
        let len = (if size < len then size else len) in do {
          rb' \<leftarrow> rb_write rb ptr len;
          Some (len, rb')
        })"

definition rt_ringbuffer_put_force ::
  "ringbuffer \<Rightarrow> byte list \<Rightarrow> nat \<Rightarrow> (nat \<times> ringbuffer) option" where
  "rt_ringbuffer_put_force rb ptr len0 =
     (let space_length = u16 (rt_ringbuffer_space_len rb);
          ptr = (if len0 > buffer_size rb then drop (len0 - buffer_size rb) ptr else ptr);
          len = (if len0 > buffer_size rb then buffer_size rb else len0) in do {
        rb' \<leftarrow> rb_write rb ptr len;
        if buffer_size rb - write_index rb > len then
          Some (len, if len > space_length then rb'\<lparr>read_index := write_index rb'\<rparr> else rb')
        else
          Some (len,
            if len > space_length then
              rb'\<lparr>read_mirror := (if write_index rb' \<le> read_index rb' then \<not> read_mirror rb'
                                   else read_mirror rb'),
                  read_index := write_index rb'\<rparr>
            else rb')
      })"

definition rt_ringbuffer_get :: "ringbuffer \<Rightarrow> nat \<Rightarrow> (byte list \<times> ringbuffer) option" where
  "rt_ringbuffer_get rb len =
     (let size = rt_ringbuffer_data_len rb in
      if size = 0 then Some ([], rb)
      else
        let len = (if size < len then u16 size else len);
            n1 = buffer_size rb - read_index rb in
        if n1 > len then do {
          d \<leftarrow> mem_read (buffer_ptr rb) (read_index rb) len;
          Some (d, rb\<lparr>read_index := u15 (read_index rb + len)\<rparr>)
        } else do {
          d1 \<leftarrow> mem_read (buffer_ptr rb) (read_index rb) n1;
          d2 \<leftarrow> mem_read (buffer_ptr rb) 0 (len - n1);
          Some (d1 @ d2, rb\<lparr>read_mirror := \<not> read_mirror rb, read_index := u15 (len - n1)\<rparr>)
        })"

text \<open>
  \<open>rt_ringbuffer_peak\<close> hands out a pointer into the pool (its offset here, \<open>None\<close> for
  \<open>RT_NULL\<close>) and the number of bytes that may be read through it.
\<close>

definition rt_ringbuffer_peak :: "ringbuffer \<Rightarrow> nat \<times> nat option \<times> ringbuffer" where
  "rt_ringbuffer_peak rb =
     (let size = rt_ringbuffer_data_len rb in
      if size = 0 then (0, None, rb)
      else if buffer_size rb - read_index rb > size then
        (size, Some (read_index rb), rb\<lparr>read_index := u15 (read_index rb + size)\<rparr>)
      else
        (buffer_size rb - read_index rb, Some (read_index rb),
         rb\<lparr>read_mirror := \<not> read_mirror rb, read_index := 0\<rparr>))"

definition rt_ringbuffer_putchar :: "ringbuffer \<Rightarrow> byte \<Rightarrow> (nat \<times> ringbuffer) option" where
  "rt_ringbuffer_putchar rb ch =
     (if rt_ringbuffer_space_len rb = 0 then Some (0, rb)
      else do {
        buf \<leftarrow> mem_write (buffer_ptr rb) (write_index rb) [ch];
        Some (1,
          if int (write_index rb) = int (buffer_size rb) - 1
          then rb\<lparr>buffer_ptr := buf, write_mirror := \<not> write_mirror rb, write_index := 0\<rparr>
          else rb\<lparr>buffer_ptr := buf, write_index := u15 (write_index rb + 1)\<rparr>)
      })"

definition rt_ringbuffer_putchar_force ::
  "ringbuffer \<Rightarrow> byte \<Rightarrow> (nat \<times> ringbuffer) option" where
  "rt_ringbuffer_putchar_force rb ch =
     (let old_state = rt_ringbuffer_status rb in do {
        buf \<leftarrow> mem_write (buffer_ptr rb) (write_index rb) [ch];
        Some (1,
          if int (write_index rb) = int (buffer_size rb) - 1 then
            let rb' = rb\<lparr>buffer_ptr := buf, write_mirror := \<not> write_mirror rb, write_index := 0\<rparr>
            in if old_state = RT_RINGBUFFER_FULL
               then rb'\<lparr>read_mirror := \<not> read_mirror rb', read_index := write_index rb'\<rparr>
               else rb'
          else
            let rb' = rb\<lparr>buffer_ptr := buf, write_index := u15 (write_index rb + 1)\<rparr>
            in if old_state = RT_RINGBUFFER_FULL
               then rb'\<lparr>read_index := write_index rb'\<rparr> else rb')
      })"

definition rt_ringbuffer_getchar :: "ringbuffer \<Rightarrow> (byte option \<times> ringbuffer) option" where
  "rt_ringbuffer_getchar rb =
     (if rt_ringbuffer_data_len rb = 0 then Some (None, rb)
      else do {
        ch \<leftarrow> mem_read (buffer_ptr rb) (read_index rb) 1;
        Some (Some (hd ch),
          if int (read_index rb) = int (buffer_size rb) - 1
          then rb\<lparr>read_mirror := \<not> read_mirror rb, read_index := 0\<rparr>
          else rb\<lparr>read_index := u15 (read_index rb + 1)\<rparr>)
      })"

definition rt_ringbuffer_reset :: "ringbuffer \<Rightarrow> ringbuffer" where
  "rt_ringbuffer_reset rb =
     rb\<lparr>read_mirror := False, read_index := 0, write_mirror := False, write_index := 0\<rparr>"

subsection \<open>Invariant and abstraction\<close>

definition rb_inv :: "ringbuffer \<Rightarrow> bool" where
  "rb_inv rb \<longleftrightarrow>
     0 < buffer_size rb \<and> buffer_size rb < 2 ^ 15 \<and> buffer_size rb \<le> length (buffer_ptr rb) \<and>
     read_index rb < buffer_size rb \<and> write_index rb < buffer_size rb \<and>
     (if read_mirror rb = write_mirror rb then read_index rb \<le> write_index rb
      else write_index rb \<le> read_index rb)"

definition rb_list :: "ringbuffer \<Rightarrow> byte list" where
  "rb_list rb =
     ring (buffer_ptr rb) (buffer_size rb) (read_index rb) (rt_ringbuffer_data_len rb)"

lemma rb_data_len:
  assumes "rb_inv rb"
  shows "rt_ringbuffer_data_len rb =
    (if read_mirror rb = write_mirror rb then write_index rb - read_index rb
     else buffer_size rb + write_index rb - read_index rb)"
proof -
  have "(int (buffer_size rb) - (int (read_index rb) - int (write_index rb))) mod 4294967296
      = int (buffer_size rb + write_index rb - read_index rb)"
    if "read_mirror rb \<noteq> write_mirror rb"
    using assms that by (subst mod_pos_pos_trivial) (auto simp: rb_inv_def)
  then show ?thesis
    using assms
    by (auto simp: rt_ringbuffer_data_len_def rt_ringbuffer_status_def rb_inv_def Let_def
             split: if_splits)
qed

lemma rb_data_len_le: "rb_inv rb \<Longrightarrow> rt_ringbuffer_data_len rb \<le> buffer_size rb"
  by (auto simp: rb_data_len rb_inv_def)

lemma rb_space_len:
  assumes "rb_inv rb"
  shows "rt_ringbuffer_space_len rb = buffer_size rb - rt_ringbuffer_data_len rb"
proof -
  have "(int (buffer_size rb) - int (rt_ringbuffer_data_len rb)) mod 4294967296
      = int (buffer_size rb - rt_ringbuffer_data_len rb)"
    using assms rb_data_len_le [OF assms]
    by (subst mod_pos_pos_trivial) (auto simp: rb_inv_def)
  then show ?thesis by (simp add: rt_ringbuffer_space_len_def)
qed

lemma length_rb_list [simp]: "length (rb_list rb) = rt_ringbuffer_data_len rb"
  by (simp add: rb_list_def)

text \<open>The write index is where the stored bytes end.\<close>

lemma rb_write_pos:
  assumes "rb_inv rb"
  shows "(read_index rb + rt_ringbuffer_data_len rb) mod buffer_size rb = write_index rb"
  using assms by (auto simp: rb_data_len rb_inv_def)

subsection \<open>The shared copy\<close>

text \<open>
  \<open>rb_write\<close> stores exactly \<open>len\<close> bytes from the write index on, around the end of the pool,
  leaves every other cell alone, and moves the write index by \<open>len\<close> places, flipping the
  mirror when it passes the end.
\<close>

lemma rb_write_spec:
  assumes inv: "rb_inv rb" and n: "n \<le> buffer_size rb" "n \<le> length xs"
  obtains buf where
    "rb_write rb xs n = Some (rb\<lparr>buffer_ptr := buf,
       write_mirror := (if write_index rb + n < buffer_size rb then write_mirror rb
                        else \<not> write_mirror rb),
       write_index := (write_index rb + n) mod buffer_size rb\<rparr>)"
    "length buf = length (buffer_ptr rb)"
    "\<And>k. k < buffer_size rb \<Longrightarrow> buf ! ((write_index rb + k) mod buffer_size rb) =
       (if k < n then xs ! k
        else buffer_ptr rb ! ((write_index rb + k) mod buffer_size rb))"
proof -
  let ?m = "buffer_size rb" and ?w = "write_index rb" and ?b = "buffer_ptr rb"
  have bounds: "0 < ?m" "?m < 32768" "?m \<le> length ?b" "?w < ?m"
    using inv by (auto simp: rb_inv_def)
  show ?thesis
  proof (cases "?w + n < ?m")
    case True
    have len: "length (take n xs) = n" using n by simp
    obtain buf where buf: "mem_write ?b ?w (take n xs) = Some buf" "length buf = length ?b"
      "\<And>j. j < length ?b \<Longrightarrow>
         buf ! j = (if ?w \<le> j \<and> j < ?w + n then take n xs ! (j - ?w) else ?b ! j)"
      by (rule mem_writeE [OF len, of ?w ?b]) (use True bounds in simp_all)
    show ?thesis
    proof (rule that [of buf])
      show "rb_write rb xs n = Some (rb\<lparr>buffer_ptr := buf,
          write_mirror := (if ?w + n < ?m then write_mirror rb else \<not> write_mirror rb),
          write_index := (?w + n) mod ?m\<rparr>)"
        using True bounds n buf by (simp add: rb_write_def Let_def)
      fix k assume k: "k < ?m"
      show "buf ! ((?w + k) mod ?m) = (if k < n then xs ! k else ?b ! ((?w + k) mod ?m))"
        using True k bounds buf by (cases "?w + k < ?m") (auto simp: mod_if)
    qed (rule buf(2))
  next
    case False
    let ?n1 = "?m - ?w"
    let ?d2 = "take (n - ?n1) (drop ?n1 xs)"
    have n1: "?n1 \<le> n" "n - ?n1 \<le> ?w" using False bounds n by auto
    have len: "length (take ?n1 xs) = ?n1" "length ?d2 = n - ?n1" using n n1 by auto
    obtain b1 where b1: "mem_write ?b ?w (take ?n1 xs) = Some b1" "length b1 = length ?b"
      "\<And>j. j < length ?b \<Longrightarrow>
         b1 ! j = (if ?w \<le> j \<and> j < ?w + ?n1 then take ?n1 xs ! (j - ?w) else ?b ! j)"
      by (rule mem_writeE [OF len(1), of ?w ?b]) (use bounds in simp_all)
    have ok: "0 + (n - ?n1) \<le> length b1" using bounds n1 b1(2) by linarith
    obtain buf where buf: "mem_write b1 0 ?d2 = Some buf" "length buf = length b1"
      "\<And>j. j < length b1 \<Longrightarrow>
         buf ! j = (if 0 \<le> j \<and> j < 0 + (n - ?n1) then ?d2 ! (j - 0) else b1 ! j)"
      by (rule mem_writeE [OF len(2) ok]) (rule that)
    have pos: "(?w + n) mod ?m = n - ?n1" using False bounds n by (auto simp: mod_if)
    show ?thesis
    proof (rule that [of buf])
      show "rb_write rb xs n = Some (rb\<lparr>buffer_ptr := buf,
          write_mirror := (if ?w + n < ?m then write_mirror rb else \<not> write_mirror rb),
          write_index := (?w + n) mod ?m\<rparr>)"
        using False bounds n n1 b1(1) buf(1) unfolding pos by (simp add: rb_write_def Let_def)
      show "length buf = length ?b" using b1(2) buf(2) by simp
      fix k assume k: "k < ?m"
      show "buf ! ((?w + k) mod ?m) = (if k < n then xs ! k else ?b ! ((?w + k) mod ?m))"
      proof (cases "?w + k < ?m")
        case True
        then have "(?w + k) mod ?m = ?w + k" "\<not> ?w + k < n - ?n1" using n1 by auto
        then show ?thesis
          using True n1 n bounds b1(2) b1(3) [of "?w + k"] buf(3) [of "?w + k"] by auto
      next
        case w: False
        have j: "(?w + k) mod ?m = k - ?n1" "k - ?n1 < ?w" using w k bounds by (auto simp: mod_if)
        have "k - ?n1 < n - ?n1 \<longleftrightarrow> k < n" "?n1 + (k - ?n1) = k" using w by auto
        then show ?thesis
          using j bounds n b1(2) b1(3) [of "k - ?n1"] buf(3) [of "k - ?n1"] by auto
      qed
    qed
  qed
qed

lemma rb_ring_keep:
  assumes "\<And>k. k < m \<Longrightarrow> buf ! ((w + k) mod m) = (if k < n then xs ! k else b ! ((w + k) mod m))"
    and "(i + l) mod m = w" "l + n \<le> m" "n \<le> length xs" "0 < m"
  shows "ring buf m i (l + n) = ring b m i l @ take n xs"
proof -
  have "ring buf m i l = ring b m i l"
  proof (rule ring_cong)
    fix k assume k: "k < l"
    then have "(i + k) mod m = ((i + l) + (m - (l - k))) mod m"
      using assms(3) by (auto intro!: arg_cong [where f = "\<lambda>x. x mod m"]
          simp: mod_add_self2 [of "i + k" m, symmetric] simp del: mod_add_self2)
    also have "\<dots> = (w + (m - (l - k))) mod m" using assms(2) by (metis mod_add_left_eq)
    finally have pos: "(i + k) mod m = (w + (m - (l - k))) mod m" .
    have "m - (l - k) < m" "\<not> m - (l - k) < n" using k assms(3) by auto
    with assms(1) [of "m - (l - k)"] show "buf ! ((i + k) mod m) = b ! ((i + k) mod m)"
      unfolding pos by simp
  qed
  moreover have "ring buf m (i + l) n = take n xs"
  proof (rule nth_equalityI)
    fix k assume "k < length (ring buf m (i + l) n)"
    then show "ring buf m (i + l) n ! k = take n xs ! k"
      using assms by (simp add: nth_ring) (metis add_lessD1 assms(2) le_add_diff_inverse less_le_trans
          mod_add_left_eq nat_add_left_cancel_less add.commute)
  qed (use assms in simp)
  ultimately show ?thesis by (simp add: ring_append)
qed


lemma rb_write_append:
  assumes inv: "rb_inv rb" and n: "n \<le> rt_ringbuffer_space_len rb" "n \<le> length xs"
  obtains rb' where "rb_write rb xs n = Some rb'" "rb_inv rb'"
    "rb_list rb' = rb_list rb @ take n xs" "buffer_size rb' = buffer_size rb"
proof -
  let ?m = "buffer_size rb" and ?w = "write_index rb" and ?l = "rt_ringbuffer_data_len rb"
  have n': "n \<le> ?m" "?l + n \<le> ?m"
    using n rb_space_len [OF inv] rb_data_len_le [OF inv] by auto
  obtain buf where w: "rb_write rb xs n = Some (rb\<lparr>buffer_ptr := buf,
       write_mirror := (if ?w + n < ?m then write_mirror rb else \<not> write_mirror rb),
       write_index := (?w + n) mod ?m\<rparr>)" (is "_ = Some ?rb'")
    and len: "length buf = length (buffer_ptr rb)"
    and cells: "\<And>k. k < ?m \<Longrightarrow> buf ! ((?w + k) mod ?m) =
       (if k < n then xs ! k else buffer_ptr rb ! ((?w + k) mod ?m))"
    using rb_write_spec [OF inv n'(1) n(2)] by blast
  have bounds: "0 < ?m" "?w < ?m" using inv by (auto simp: rb_inv_def)
  have pos: "(?w + n) mod ?m = (if ?w + n < ?m then ?w + n else ?w + n - ?m)"
    using n' bounds by (auto simp: mod_if)
  have inv': "rb_inv ?rb'"
    using inv n' len rb_data_len [OF inv] unfolding rb_inv_def
    by (auto simp: pos split: if_splits)
  have len': "rt_ringbuffer_data_len ?rb' = ?l + n"
    using n' bounds inv unfolding rb_data_len [OF inv'] rb_data_len [OF inv]
    by (auto simp: pos rb_inv_def split: if_splits)
  have "rb_list ?rb' = ring buf ?m (read_index rb) (?l + n)"
    unfolding rb_list_def len' by simp
  also have "\<dots> = rb_list rb @ take n xs"
    unfolding rb_list_def
    by (rule rb_ring_keep [OF cells rb_write_pos [OF inv] n'(2) n(2) bounds(1)])
  finally show ?thesis using that [OF w inv'] by simp
qed

subsection \<open>The operations act as a bounded queue\<close>

lemma rb_put_spec:
  assumes inv: "rb_inv rb" and len: "len \<le> length xs"
  obtains rb' where
    "rt_ringbuffer_put rb xs len = Some (min len (rt_ringbuffer_space_len rb), rb')"
    "rb_inv rb'" "buffer_size rb' = buffer_size rb"
    "rb_list rb' = rb_list rb @ take (min len (rt_ringbuffer_space_len rb)) xs"
proof -
  let ?s = "rt_ringbuffer_space_len rb"
  have s: "?s < 65536" "?s \<le> buffer_size rb"
    using inv rb_space_len [OF inv] by (auto simp: rb_inv_def)
  show ?thesis
  proof (cases "?s = 0")
    case True
    then show ?thesis using that [of rb] inv by (simp add: rt_ringbuffer_put_def)
  next
    case False
    obtain rb' where "rb_write rb xs (min len ?s) = Some rb'" "rb_inv rb'"
      "rb_list rb' = rb_list rb @ take (min len ?s) xs" "buffer_size rb' = buffer_size rb"
      by (rule rb_write_append [OF inv, of "min len ?s" xs]) (use len in auto)
    moreover from this have "rt_ringbuffer_put rb xs len = Some (min len ?s, rb')"
      using False s by (auto simp: rt_ringbuffer_put_def Let_def min_def split: if_splits)
    ultimately show ?thesis using that by blast
  qed
qed

lemma rb_get_spec:
  assumes inv: "rb_inv rb"
  obtains rb' where
    "rt_ringbuffer_get rb len = Some (take len (rb_list rb), rb')"
    "rb_inv rb'" "buffer_size rb' = buffer_size rb"
    "rb_list rb' = drop len (rb_list rb)"
proof -
  let ?m = "buffer_size rb" and ?r = "read_index rb" and ?l = "rt_ringbuffer_data_len rb"
  let ?b = "buffer_ptr rb"
  obtain n where n: "n = min len ?l" by blast
  let ?rb' = "rb\<lparr>read_mirror := (if ?r + n < ?m then read_mirror rb else \<not> read_mirror rb),
                read_index := (?r + n) mod ?m\<rparr>"
  have bounds: "0 < ?m" "?m < 32768" "?m \<le> length ?b" "?r < ?m" "?l \<le> ?m"
    using inv rb_data_len_le [OF inv] by (auto simp: rb_inv_def)
  show ?thesis
  proof (cases "?l = 0")
    case True
    then show ?thesis using that [of rb] inv
      by (simp add: rt_ringbuffer_get_def rb_list_def)
  next
    case False
    have pos: "(?r + n) mod ?m = (if ?r + n < ?m then ?r + n else ?r + n - ?m)"
      using bounds n by (auto simp: mod_if)
    have nl: "n \<le> ?l" using n by simp
    have "rb_inv ?rb' \<and> rt_ringbuffer_data_len ?rb' = ?l - n"
    proof (cases "read_mirror rb = write_mirror rb")
      case True
      then have l: "?l = write_index rb - ?r" "?r \<le> write_index rb" "write_index rb < ?m"
        using inv rb_data_len [OF inv] by (auto simp: rb_inv_def)
      then have "(?r + n) mod ?m = ?r + n" "?r + n \<le> write_index rb" using nl by auto
      then have inv': "rb_inv ?rb'" using inv True l by (auto simp: rb_inv_def)
      have "rt_ringbuffer_data_len ?rb' = ?l - n"
        unfolding rb_data_len [OF inv'] using True nl l by simp
      with inv' show ?thesis by blast
    next
      case False
      then have l: "?l = ?m + write_index rb - ?r" "write_index rb \<le> ?r"
        using inv rb_data_len [OF inv] by (auto simp: rb_inv_def)
      then have inv': "rb_inv ?rb'"
        using inv False nl pos by (cases "?r + n < ?m") (auto simp: rb_inv_def)
      have "rt_ringbuffer_data_len ?rb' = ?l - n"
        unfolding rb_data_len [OF inv'] using False nl pos l bounds by (cases "?r + n < ?m") auto
      with inv' show ?thesis by blast
    qed
    then have inv': "rb_inv ?rb'" and len': "rt_ringbuffer_data_len ?rb' = ?l - n" by auto
    have list': "rb_list ?rb' = drop len (rb_list rb)"
      unfolding rb_list_def len' drop_ring
      using ring_start_mod [of ?b ?m "?r + n"] by (auto simp: n min_def)
    have "take len (rb_list rb) = ring ?b ?m ?r n"
      unfolding rb_list_def by (cases "len \<le> ?l") (auto simp: n take_ring min_def)
    also have "\<dots> = (if ?r + n < ?m then take n (drop ?r ?b)
        else take (?m - ?r) (drop ?r ?b) @ take (n - (?m - ?r)) ?b)"
    proof (cases "?r + n < ?m")
      case True
      then show ?thesis using ring_straight [of ?r n ?m ?b] bounds by simp
    next
      case False
      then have "?m - ?r \<le> n" "n \<le> ?m" using nl bounds by auto
      then show ?thesis using False ring_wrap [of ?r ?m ?b n] bounds by simp
    qed
    finally have data: "take len (rb_list rb) = \<dots>" .
    have cut: "(if ?l < len then u16 ?l else len) = n" using n bounds by auto
    have "rt_ringbuffer_get rb len = Some (take len (rb_list rb), ?rb')"
      unfolding rt_ringbuffer_get_def Let_def cut data
      using False bounds nl pos by (cases "?r + n < ?m") auto
    then show ?thesis using that inv' list' by simp
  qed
qed


lemma rb_put_force_spec:
  assumes inv: "rb_inv rb" and len: "len \<le> length xs"
  obtains rb' where
    "rt_ringbuffer_put_force rb xs len = Some (min len (buffer_size rb), rb')"
    "rb_inv rb'" "buffer_size rb' = buffer_size rb"
    "rb_list rb' =
       drop (rt_ringbuffer_data_len rb + len - buffer_size rb) (rb_list rb @ take len xs)"
proof -
  let ?m = "buffer_size rb" and ?w = "write_index rb" and ?r = "read_index rb"
  let ?l = "rt_ringbuffer_data_len rb" and ?b = "buffer_ptr rb"
  obtain n ys where n: "n = min len ?m" and ys: "ys = (if len > ?m then drop (len - ?m) xs else xs)"
    by blast
  have bounds: "0 < ?m" "?m < 32768" "?w < ?m" "?r < ?m" "?l \<le> ?m"
    using inv rb_data_len_le [OF inv] by (auto simp: rb_inv_def)
  have space: "u16 (rt_ringbuffer_space_len rb) = ?m - ?l"
    using rb_space_len [OF inv] bounds by simp
  have n': "n \<le> ?m" "n \<le> length ys" using n ys len by auto
  have tail: "drop (?l + len - ?m) (rb_list rb @ take len xs) =
      drop (?l + n - ?m) (rb_list rb) @ take n ys"
    using n ys bounds len by (auto simp: drop_take)
  have force: "rt_ringbuffer_put_force rb xs len = do {
        rb' \<leftarrow> rb_write rb ys n;
        if ?m - ?w > n then
          Some (n, if n > ?m - ?l then rb'\<lparr>read_index := write_index rb'\<rparr> else rb')
        else
          Some (n, if n > ?m - ?l then
              rb'\<lparr>read_mirror := (if write_index rb' \<le> read_index rb' then \<not> read_mirror rb'
                                   else read_mirror rb'), read_index := write_index rb'\<rparr>
            else rb') }"
    unfolding rt_ringbuffer_put_force_def space Let_def using n ys by (auto simp: min_def)
  show ?thesis
  proof (cases "n \<le> ?m - ?l")
    case True
    obtain rb' where "rb_write rb ys n = Some rb'" "rb_inv rb'"
      "rb_list rb' = rb_list rb @ take n ys" "buffer_size rb' = ?m"
      by (rule rb_write_append [OF inv, of n ys]) (use True n' rb_space_len [OF inv] in auto)
    moreover have "?l + n - ?m = 0" using True bounds by simp
    ultimately show ?thesis using that [of rb'] True n unfolding tail force by auto
  next
    case False
    obtain buf where w: "rb_write rb ys n = Some (rb\<lparr>buffer_ptr := buf,
         write_mirror := (if ?w + n < ?m then write_mirror rb else \<not> write_mirror rb),
         write_index := (?w + n) mod ?m\<rparr>)" (is "_ = Some ?rb1")
      and lb: "length buf = length ?b"
      and cells: "\<And>k. k < ?m \<Longrightarrow> buf ! ((?w + k) mod ?m) =
         (if k < n then ys ! k else ?b ! ((?w + k) mod ?m))"
      using rb_write_spec [OF inv n'] by blast
    let ?rb' = "?rb1\<lparr>read_mirror := \<not> write_mirror ?rb1, read_index := write_index ?rb1\<rparr>"
    have pos: "(?w + n) mod ?m = (if ?w + n < ?m then ?w + n else ?w + n - ?m)"
      using n' bounds by (auto simp: mod_if)
    have mirrors: "read_mirror rb = write_mirror rb \<Longrightarrow> ?l = ?w - ?r \<and> ?r \<le> ?w"
      "read_mirror rb \<noteq> write_mirror rb \<Longrightarrow> ?l = ?m + ?w - ?r \<and> ?w \<le> ?r"
      using rb_data_len [OF inv] inv by (auto simp: rb_inv_def)
    have full: "rt_ringbuffer_put_force rb xs len = Some (n, ?rb')"
      unfolding force w
      using False n' bounds mirrors by (cases "read_mirror rb = write_mirror rb") (auto simp: pos)
    have inv': "rb_inv ?rb'" using inv lb bounds by (auto simp: rb_inv_def)
    have len': "rt_ringbuffer_data_len ?rb' = ?m" unfolding rb_data_len [OF inv'] by simp
    have "rb_list ?rb' = ring buf ?m (?w + n) (?m - n) @ ring buf ?m (?w + n + (?m - n)) n"
      using ring_append [of buf ?m "?w + n" "?m - n" n] ring_start_mod [of buf ?m "?w + n"] n'
      unfolding rb_list_def len' by simp
    also have "ring buf ?m (?w + n + (?m - n)) n = take n ys"
      using rb_ring_keep [of ?m buf ?w n ys ?b ?w 0] cells n' bounds
        ring_start_mod [of buf ?m "?w + ?m"] ring_start_mod [of buf ?m ?w] by simp
    also have "ring buf ?m (?w + n) (?m - n) = ring ?b ?m (?w + n) (?m - n)"
    proof (rule ring_cong)
      fix k assume "k < ?m - n"
      then show "buf ! ((?w + n + k) mod ?m) = ?b ! ((?w + n + k) mod ?m)"
        using cells [of "n + k"] by (simp add: add.assoc)
    qed
    also have "\<dots> = drop (?l + n - ?m) (rb_list rb)"
    proof -
      have "(?r + (?l + n - ?m)) mod ?m = (?r + (?l + n - ?m) + ?m) mod ?m" by simp
      also have "?r + (?l + n - ?m) + ?m = (?r + ?l) + n" using False by simp
      also have "(?r + ?l + n) mod ?m = (?w + n) mod ?m"
        using rb_write_pos [OF inv] by (metis mod_add_left_eq)
      finally have "ring ?b ?m (?r + (?l + n - ?m)) (?m - n) = ring ?b ?m (?w + n) (?m - n)"
        by (metis ring_start_mod)
      moreover have "?l - (?l + n - ?m) = ?m - n" using False n' bounds by simp
      ultimately show ?thesis unfolding rb_list_def drop_ring by simp
    qed
    finally show ?thesis using that [OF _ inv'] full n unfolding tail by simp
  qed
qed

text \<open>The byte versions are the block versions on one byte.\<close>

lemma last_index_iff: "0 < m \<Longrightarrow> int w = int m - 1 \<longleftrightarrow> m = Suc w"
  by auto

lemma rb_putchar_eq:
  assumes "rb_inv rb"
  shows "rt_ringbuffer_putchar rb ch = rt_ringbuffer_put rb [ch] 1"
  using assms rb_space_len [OF assms]
  by (cases "buffer_size rb = Suc (write_index rb)")
     (auto simp: rt_ringbuffer_putchar_def rt_ringbuffer_put_def rb_write_def Let_def rb_inv_def
        last_index_iff)

lemma rb_getchar_eq:
  assumes "rb_inv rb"
  shows "rt_ringbuffer_getchar rb =
    map_option (\<lambda>(d, rb'). (if d = [] then None else Some (hd d), rb')) (rt_ringbuffer_get rb 1)"
  using assms rb_data_len_le [OF assms]
  by (cases "buffer_size rb = Suc (read_index rb)")
     (auto simp: rt_ringbuffer_getchar_def rt_ringbuffer_get_def Let_def rb_inv_def
        last_index_iff)

lemma rb_putchar_force_eq:
  assumes "rb_inv rb"
  shows "rt_ringbuffer_putchar_force rb ch = rt_ringbuffer_put_force rb [ch] 1"
  using assms rb_space_len [OF assms] rb_data_len [OF assms]
  by (cases "buffer_size rb = Suc (write_index rb)")
     (auto simp: last_index_iff rt_ringbuffer_putchar_force_def rt_ringbuffer_put_force_def rb_write_def Let_def
      rb_inv_def rt_ringbuffer_status_def split: if_splits)

lemma rb_peak_spec:
  assumes inv: "rb_inv rb" and ne: "rb_list rb \<noteq> []"
  obtains n rb' where
    "rt_ringbuffer_peak rb = (n, Some (read_index rb), rb')"
    "n = min (rt_ringbuffer_data_len rb) (buffer_size rb - read_index rb)"
    "take n (drop (read_index rb) (buffer_ptr rb)) = take n (rb_list rb)"
    "rb_inv rb'" "rb_list rb' = drop n (rb_list rb)"
proof -
  let ?n = "min (rt_ringbuffer_data_len rb) (buffer_size rb - read_index rb)"
  have bounds: "0 < buffer_size rb" "buffer_size rb < 32768" "read_index rb < buffer_size rb"
    "buffer_size rb \<le> length (buffer_ptr rb)" "rt_ringbuffer_data_len rb \<noteq> 0"
    using inv ne length_0_conv [of "rb_list rb"] by (auto simp: rb_inv_def simp del: length_0_conv)
  obtain rb' where g: "rt_ringbuffer_get rb ?n = Some (take ?n (rb_list rb), rb')"
    "rb_inv rb'" "rb_list rb' = drop ?n (rb_list rb)"
    using rb_get_spec [OF inv] by metis
  have "rt_ringbuffer_peak rb = (?n, Some (read_index rb), rb')"
    using g(1) bounds
    by (auto simp: rt_ringbuffer_peak_def rt_ringbuffer_get_def Let_def min_def split: if_splits)
  moreover have "take ?n (drop (read_index rb) (buffer_ptr rb)) = take ?n (rb_list rb)"
    using bounds ring_straight [of "read_index rb" ?n "buffer_size rb" "buffer_ptr rb"]
    unfolding rb_list_def by (simp add: take_ring)
  ultimately show ?thesis using that g by blast
qed

lemma rb_reset_spec:
  "rb_inv rb \<Longrightarrow> rb_inv (rt_ringbuffer_reset rb) \<and> rb_list (rt_ringbuffer_reset rb) = []"
  by (auto simp: rb_inv_def rt_ringbuffer_reset_def rb_list_def rt_ringbuffer_data_len_def
      rt_ringbuffer_status_def)

lemma rb_init_spec:
  assumes "4 \<le> sz" "sz < 2 ^ 15" "sz \<le> length pool"
  obtains rb where "rt_ringbuffer_init pool sz = Some rb" "rb_inv rb" "rb_list rb = []"
    "buffer_size rb = RT_ALIGN_DOWN sz 4"
proof -
  have "RT_ALIGN_DOWN sz 4 \<le> sz" "0 < RT_ALIGN_DOWN sz 4"
    using assms RT_ALIGN_DOWN_pos [of 4 sz] RT_ALIGN_DOWN_le [of sz 4] by auto
  then show ?thesis
    using that assms
    by (auto simp: rt_ringbuffer_init_def rb_inv_def rb_list_def rt_ringbuffer_data_len_def
        rt_ringbuffer_status_def)
qed

subsection \<open>Creation\<close>

text \<open>
  \<open>rt_ringbuffer_create\<close> with the two results of \<open>rt_malloc\<close> as arguments: whether the object is
  there, and the memory for a pool of the given size.
\<close>

definition rt_ringbuffer_create ::
  "bool \<Rightarrow> (nat \<Rightarrow> byte list option) \<Rightarrow> nat \<Rightarrow> ringbuffer option option" where
  "rt_ringbuffer_create malloc_rb malloc_pool sz = do {
     _ \<leftarrow> rt_assert (sz > 0);
     let sz = RT_ALIGN_DOWN sz RT_ALIGN_SIZE;
     if \<not> malloc_rb then Some None
     else case malloc_pool sz of
         None \<Rightarrow> Some None
       | Some pool \<Rightarrow> map_option Some (rt_ringbuffer_init pool sz) }"

lemma rb_create_spec:
  assumes "4 \<le> sz" "sz < 2 ^ 15" "malloc_pool (RT_ALIGN_DOWN sz 4) = Some pool"
    "length pool = RT_ALIGN_DOWN sz 4"
  obtains rb where "rt_ringbuffer_create True malloc_pool sz = Some (Some rb)" "rb_inv rb"
    "rb_list rb = []" "buffer_size rb = RT_ALIGN_DOWN sz 4"
proof -
  let ?n = "RT_ALIGN_DOWN sz 4"
  have n: "?n \<le> sz" "0 < ?n" "4 dvd ?n"
    using assms(1) RT_ALIGN_DOWN_le RT_ALIGN_DOWN_pos [of 4 sz] RT_ALIGN_DOWN_dvd by auto
  then have "4 \<le> ?n" by (simp add: dvd_imp_le)
  then obtain rb where "rt_ringbuffer_init pool ?n = Some rb" "rb_inv rb" "rb_list rb = []"
    "buffer_size rb = RT_ALIGN_DOWN ?n 4"
    using rb_init_spec [of ?n pool] n(1) assms(2,4) by auto
  moreover have "RT_ALIGN_DOWN ?n 4 = ?n" using n(3) by (simp add: RT_ALIGN_DOWN_def)
  ultimately show thesis using that [of rb] assms(1,3) by (simp add: rt_ringbuffer_create_def)
qed

subsection \<open>The byte operations provide the buffer interface\<close>

definition rb_putc :: "byte \<Rightarrow> ringbuffer \<Rightarrow> ringbuffer option" where
  "rb_putc ch rb =
     (case rt_ringbuffer_putchar rb ch of Some (n, rb') \<Rightarrow> if n = 0 then None else Some rb' | None \<Rightarrow> None)"

definition rb_getc :: "ringbuffer \<Rightarrow> (byte \<times> ringbuffer) option" where
  "rb_getc rb =
     (case rt_ringbuffer_getchar rb of Some (Some ch, rb') \<Rightarrow> Some (ch, rb') | _ \<Rightarrow> None)"

lemma rb_putc_room:
  assumes "rb_inv rb" "rt_ringbuffer_data_len rb < buffer_size rb"
  shows "\<exists>rb'. rb_putc ch rb = Some rb' \<and> rb_inv rb' \<and> rb_list rb' = rb_list rb @ [ch] \<and>
    buffer_size rb' = buffer_size rb"
proof -
  have m: "min 1 (rt_ringbuffer_space_len rb) = 1" using assms rb_space_len [OF assms(1)] by simp
  have "1 \<le> length [ch]" by simp
  from rb_put_spec [OF assms(1) this] obtain rb' where
    "rt_ringbuffer_put rb [ch] 1 = Some (1, rb')" "rb_inv rb'" "buffer_size rb' = buffer_size rb"
    "rb_list rb' = rb_list rb @ [ch]"
    unfolding m by auto
  then show ?thesis by (simp add: rb_putc_def rb_putchar_eq [OF assms(1)])
qed

lemma rb_putc_full:
  assumes "rb_inv rb" "rt_ringbuffer_data_len rb = buffer_size rb"
  shows "rb_putc ch rb = None"
  using rb_space_len [OF assms(1)] assms(2) by (simp add: rb_putc_def rt_ringbuffer_putchar_def)

lemma rb_getc_some:
  assumes "rb_inv rb" "rb_list rb = ch # chs"
  shows "\<exists>rb'. rb_getc rb = Some (ch, rb') \<and> rb_inv rb' \<and> rb_list rb' = chs \<and>
    buffer_size rb' = buffer_size rb"
proof -
  obtain rb' where "rt_ringbuffer_get rb 1 = Some (take 1 (rb_list rb), rb')"
    "rb_inv rb'" "buffer_size rb' = buffer_size rb" "rb_list rb' = drop 1 (rb_list rb)"
    by (rule rb_get_spec [OF assms(1)])
  then show ?thesis using assms(2) by (simp add: rb_getc_def rb_getchar_eq [OF assms(1)])
qed

lemma rb_getc_none:
  assumes "rb_inv rb" "rb_list rb = []"
  shows "rb_getc rb = None"
  using assms(2) length_rb_list [of rb] by (simp add: rb_getc_def rt_ringbuffer_getchar_def)

interpretation rbq: bounded_fifo rb_inv rb_list buffer_size "\<lambda>_ _. True" "\<lambda>_. 0" rb_putc rb_getc
  by unfold_locales
    (simp_all add: rb_data_len_le rb_putc_room rb_putc_full rb_getc_some rb_getc_none)

end
