(* ===== verification/Rt_List.thy ===== *)
theory Rt_List
  imports Prelude
begin

text \<open>
  The intrusive doubly linked lists of \<open>include/rtservice.h\<close>, at pointer level: a store maps
  each node (a list head or the \<open>tlist\<close>, \<open>row\<close> or \<open>list\<close> member of an object) to its \<open>next\<close> and
  \<open>prev\<close> node, and each operation is the code's sequence of assignments. The second half
  shows that the pointer operations implement operations on a family of HOL lists, one per
  head, that share no node; the kernel theories are written over such families.
\<close>

subsection \<open>The pointer operations\<close>

record 'n links =
  lnext :: "'n \<Rightarrow> 'n"
  lprev :: "'n \<Rightarrow> 'n"

definition set_next :: "'n \<Rightarrow> 'n \<Rightarrow> 'n links \<Rightarrow> 'n links" where
  "set_next a b s = s\<lparr>lnext := (lnext s)(a := b)\<rparr>"

definition set_prev :: "'n \<Rightarrow> 'n \<Rightarrow> 'n links \<Rightarrow> 'n links" where
  "set_prev a b s = s\<lparr>lprev := (lprev s)(a := b)\<rparr>"

definition rt_list_init :: "'n \<Rightarrow> 'n links \<Rightarrow> 'n links" where
  "rt_list_init l s = set_next l l (set_prev l l s)"

definition rt_list_insert_after :: "'n \<Rightarrow> 'n \<Rightarrow> 'n links \<Rightarrow> 'n links" where
  "rt_list_insert_after l n s =
     (let s = set_prev (lnext s l) n s;
          s = set_next n (lnext s l) s;
          s = set_next l n s
      in set_prev n l s)"

definition rt_list_insert_before :: "'n \<Rightarrow> 'n \<Rightarrow> 'n links \<Rightarrow> 'n links" where
  "rt_list_insert_before l n s =
     (let s = set_next (lprev s l) n s;
          s = set_prev n (lprev s l) s;
          s = set_prev l n s
      in set_next n l s)"

definition rt_list_remove :: "'n \<Rightarrow> 'n links \<Rightarrow> 'n links" where
  "rt_list_remove n s =
     (let s = set_prev (lnext s n) (lprev s n) s;
          s = set_next (lprev s n) (lnext s n) s;
          s = set_prev n n s
      in set_next n n s)"

definition rt_list_isempty :: "'n \<Rightarrow> 'n links \<Rightarrow> bool" where
  "rt_list_isempty l s \<longleftrightarrow> lnext s l = l"

text \<open>The counting loop of \<open>rt_list_len\<close> does not return on a list that misses its head.\<close>

partial_function (option) rt_list_len_loop :: "'n \<Rightarrow> 'n links \<Rightarrow> 'n \<Rightarrow> nat \<Rightarrow> nat option" where
  "rt_list_len_loop l s p len =
     (if lnext s p \<noteq> l then rt_list_len_loop l s (lnext s p) (Suc len) else Some len)"

definition rt_list_len :: "'n \<Rightarrow> 'n links \<Rightarrow> nat option" where
  "rt_list_len l s = rt_list_len_loop l s l 0"

subsection \<open>Circular segments\<close>

fun lseg :: "'n links \<Rightarrow> 'n \<Rightarrow> 'n list \<Rightarrow> 'n \<Rightarrow> bool" where
  "lseg s x [] y \<longleftrightarrow> lnext s x = y \<and> lprev s y = x"
| "lseg s x (a # xs) y \<longleftrightarrow> lnext s x = a \<and> lprev s a = x \<and> lseg s a xs y"

definition dll :: "'n links \<Rightarrow> 'n \<Rightarrow> 'n list \<Rightarrow> bool" where
  "dll s l xs \<longleftrightarrow> distinct (l # xs) \<and> lseg s l xs l"

lemma lseg_append: "lseg s x (xs @ a # ys) y \<longleftrightarrow> lseg s x xs a \<and> lseg s a ys y"
  by (induction xs arbitrary: x) auto

lemma lseg_cong:
  assumes "\<And>n. n \<in> set (x # xs) \<Longrightarrow> lnext s' n = lnext s n"
    and "\<And>n. n \<in> set (xs @ [y]) \<Longrightarrow> lprev s' n = lprev s n"
  shows "lseg s' x xs y \<longleftrightarrow> lseg s x xs y"
  using assms by (induction xs arbitrary: x) auto

lemma lseg_next: "lseg s x xs y \<Longrightarrow> lnext s x = hd (xs @ [y])"
  by (cases xs) auto

lemma lseg_prev: "lseg s x xs y \<Longrightarrow> lprev s y = last (x # xs)"
  by (induction xs arbitrary: x) auto

lemma dll_rotate: "dll s l (xs @ a # ys) \<longleftrightarrow> dll s a (ys @ l # xs)"
  unfolding dll_def lseg_append by auto

lemma dll_frame:
  assumes "\<And>n. n \<in> set (l # xs) \<Longrightarrow> lnext s' n = lnext s n \<and> lprev s' n = lprev s n"
  shows "dll s' l xs \<longleftrightarrow> dll s l xs"
  unfolding dll_def using lseg_cong [of l xs s' s l] assms by auto

lemma dll_init: "dll (rt_list_init l s) l []"
  by (simp add: dll_def rt_list_init_def set_next_def set_prev_def)

lemma dll_isempty: "dll s l xs \<Longrightarrow> rt_list_isempty l s \<longleftrightarrow> xs = []"
  by (cases xs) (auto simp: dll_def rt_list_isempty_def)

lemma dll_first: "dll s l xs \<Longrightarrow> xs \<noteq> [] \<Longrightarrow> lnext s l = hd xs"
  using lseg_next [of s l xs l] by (auto simp: dll_def)

lemma dll_last: "dll s l xs \<Longrightarrow> xs \<noteq> [] \<Longrightarrow> lprev s l = last xs"
  using lseg_prev [of s l xs l] by (auto simp: dll_def)

lemma dll_insert_before:
  assumes d: "dll s l xs" and n: "n \<notin> set (l # xs)"
  shows "dll (rt_list_insert_before l n s) l (xs @ [n])"
proof (cases xs rule: rev_cases)
  case Nil
  then show ?thesis using d n
    by (auto simp: dll_def rt_list_insert_before_def set_next_def set_prev_def Let_def)
next
  case (snoc ys z)
  have z: "lprev s l = z" using d by (simp add: dll_def snoc lseg_append)
  let ?s' = "rt_list_insert_before l n s"
  have "lseg ?s' l ys z \<longleftrightarrow> lseg s l ys z"
    using d n z unfolding snoc
    by (intro lseg_cong)
      (auto simp: dll_def rt_list_insert_before_def set_next_def set_prev_def Let_def)
  moreover have "lnext ?s' z = n" "lprev ?s' n = z" "lnext ?s' n = l" "lprev ?s' l = n"
    using d n z unfolding snoc
    by (auto simp: dll_def rt_list_insert_before_def set_next_def set_prev_def Let_def)
  ultimately show ?thesis using d n by (auto simp: dll_def snoc lseg_append)
qed

lemma dll_insert_after:
  assumes d: "dll s l xs" and n: "n \<notin> set (l # xs)"
  shows "dll (rt_list_insert_after l n s) l (n # xs)"
proof (cases xs)
  case Nil
  then show ?thesis using d n
    by (auto simp: dll_def rt_list_insert_after_def set_next_def set_prev_def Let_def)
next
  case (Cons z ys)
  have z: "lnext s l = z" using d by (simp add: dll_def Cons)
  let ?s' = "rt_list_insert_after l n s"
  have "lseg ?s' z ys l \<longleftrightarrow> lseg s z ys l"
    using d n z unfolding Cons
    by (intro lseg_cong)
      (auto simp: dll_def rt_list_insert_after_def set_next_def set_prev_def Let_def)
  moreover have "lnext ?s' l = n" "lprev ?s' n = l" "lnext ?s' n = z" "lprev ?s' z = n"
    using d n z unfolding Cons
    by (auto simp: dll_def rt_list_insert_after_def set_next_def set_prev_def Let_def)
  ultimately show ?thesis using d n by (auto simp: dll_def Cons)
qed

lemma dll_insert_before_node:
  assumes d: "dll s l (xs @ a # ys)" and n: "n \<notin> set (l # xs @ a # ys)"
  shows "dll (rt_list_insert_before a n s) l (xs @ n # a # ys)"
proof -
  have "dll s a (ys @ l # xs)" using d by (rule dll_rotate [THEN iffD1])
  then have "dll (rt_list_insert_before a n s) a ((ys @ l # xs) @ [n])"
    by (rule dll_insert_before) (use n in auto)
  then show ?thesis
    using dll_rotate [of "rt_list_insert_before a n s" l "xs @ [n]" a ys] by simp
qed

lemma dll_remove_head:
  assumes "dll s n (y # ys)"
  shows "dll (rt_list_remove n s) n []" "dll (rt_list_remove n s) y ys"
proof -
  let ?s' = "rt_list_remove n s"
  have d: "distinct (n # y # ys)" "lseg s n (y # ys) n" using assms by (auto simp: dll_def)
  have nx: "lnext s n = y" using d by simp
  have pv: "lprev s n = last (y # ys)" using lseg_prev [OF d(2)] by simp
  show "dll ?s' n []"
    by (simp add: dll_def rt_list_remove_def set_next_def set_prev_def Let_def)
  show "dll ?s' y ys"
  proof (cases ys rule: rev_cases)
    case Nil
    then show ?thesis using d nx pv
      by (auto simp: dll_def rt_list_remove_def set_next_def set_prev_def Let_def)
  next
    case (snoc zs z)
    have "lseg s y zs z" using d(2) by (simp add: snoc lseg_append)
    moreover have "lseg ?s' y zs z \<longleftrightarrow> lseg s y zs z"
      using d nx pv unfolding snoc
      by (intro lseg_cong)
        (auto simp: rt_list_remove_def set_next_def set_prev_def Let_def)
    moreover have "lnext ?s' z = y" "lprev ?s' y = z"
      using d nx pv unfolding snoc
      by (auto simp: rt_list_remove_def set_next_def set_prev_def Let_def)
    ultimately show ?thesis using d by (simp add: dll_def snoc lseg_append)
  qed
qed

lemma dll_remove:
  assumes "dll s l (xs @ n # ys)"
  shows "dll (rt_list_remove n s) l (xs @ ys)" "dll (rt_list_remove n s) n []"
proof -
  have "dll s n (ys @ l # xs)" using assms by (rule dll_rotate [THEN iffD1])
  then have "dll (rt_list_remove n s) n [] \<and> dll (rt_list_remove n s) l (xs @ ys)"
  proof (cases ys)
    case Nil
    with \<open>dll s n (ys @ l # xs)\<close> show ?thesis using dll_remove_head [of s n l xs] by simp
  next
    case (Cons z zs)
    with \<open>dll s n (ys @ l # xs)\<close> have "dll s n (z # zs @ l # xs)" by simp
    from dll_remove_head [OF this] show ?thesis
      unfolding Cons by (metis dll_rotate)
  qed
  then show "dll (rt_list_remove n s) l (xs @ ys)" "dll (rt_list_remove n s) n []" by auto
qed

lemma rt_list_remove_unlinked: "dll s n [] \<Longrightarrow> dll (rt_list_remove n s) m xs \<longleftrightarrow> dll s m xs"
  by (rule dll_frame) (auto simp: dll_def rt_list_remove_def set_next_def set_prev_def Let_def)

lemma rt_list_len_dll:
  assumes "dll s l xs"
  shows "rt_list_len l s = Some (length xs)"
proof -
  have "lseg s p xs l \<Longrightarrow> l \<notin> set xs \<Longrightarrow> rt_list_len_loop l s p n = Some (n + length xs)" for p n
  proof (induction xs arbitrary: p n)
    case Nil
    then show ?case by (subst rt_list_len_loop.simps) simp
  next
    case (Cons a xs)
    then have "lnext s p = a" "a \<noteq> l" by auto
    with Cons show ?case by (subst rt_list_len_loop.simps) auto
  qed
  then show ?thesis using assms by (simp add: dll_def rt_list_len_def)
qed


subsection \<open>Families of lists\<close>

text \<open>
  A family gives each head the list of the nodes linked behind it. In C, inserting at a head's
  end or start, inserting before a linked node, and unlinking a node from whatever list it is
  in are \<open>rt_list_insert_before\<close>, \<open>rt_list_insert_after\<close>, \<open>rt_list_insert_before\<close> on the node
  and \<open>rt_list_remove\<close>.
\<close>

type_synonym ('h, 'n) lists = "'h \<Rightarrow> 'n list"

definition l_append :: "'h \<Rightarrow> 'n \<Rightarrow> ('h, 'n) lists \<Rightarrow> ('h, 'n) lists" where
  "l_append h n qs = qs(h := qs h @ [n])"

definition l_prepend :: "'h \<Rightarrow> 'n \<Rightarrow> ('h, 'n) lists \<Rightarrow> ('h, 'n) lists" where
  "l_prepend h n qs = qs(h := n # qs h)"

definition l_before :: "'h \<Rightarrow> 'n \<Rightarrow> 'n \<Rightarrow> ('h, 'n) lists \<Rightarrow> ('h, 'n) lists" where
  "l_before h a n qs =
     qs(h := takeWhile (\<lambda>x. x \<noteq> a) (qs h) @ n # dropWhile (\<lambda>x. x \<noteq> a) (qs h))"

definition l_remove :: "'n \<Rightarrow> ('h, 'n) lists \<Rightarrow> ('h, 'n) lists" where
  "l_remove n qs = (\<lambda>h. remove1 n (qs h))"

definition l_isempty :: "'h \<Rightarrow> ('h, 'n) lists \<Rightarrow> bool" where
  "l_isempty h qs \<longleftrightarrow> qs h = []"

definition unlinked :: "('h, 'n) lists \<Rightarrow> 'n \<Rightarrow> bool" where
  "unlinked qs n \<longleftrightarrow> (\<forall>h. n \<notin> set (qs h))"

definition wf_lists :: "('h, 'n) lists \<Rightarrow> bool" where
  "wf_lists qs \<longleftrightarrow>
     (\<forall>h. distinct (qs h)) \<and> (\<forall>h k n. n \<in> set (qs h) \<longrightarrow> n \<in> set (qs k) \<longrightarrow> h = k)"

lemma wf_listsD:
  "wf_lists qs \<Longrightarrow> distinct (qs h)"
  "wf_lists qs \<Longrightarrow> n \<in> set (qs h) \<Longrightarrow> n \<in> set (qs k) \<Longrightarrow> h = k"
  unfolding wf_lists_def by blast+

lemma set_l_append [simp]: "set (l_append h n qs k) = (if k = h then insert n (set (qs k)) else set (qs k))"
  by (auto simp: l_append_def)

lemma set_l_prepend [simp]: "set (l_prepend h n qs k) = (if k = h then insert n (set (qs k)) else set (qs k))"
  by (auto simp: l_prepend_def)

lemma set_l_before [simp]: "set (l_before h a n qs k) = (if k = h then insert n (set (qs k)) else set (qs k))"
proof -
  have "set (takeWhile P xs) \<union> set (dropWhile P xs) = set xs" for P and xs :: "'a list"
    by (metis set_append takeWhile_dropWhile_id)
  then show ?thesis by (auto simp: l_before_def)
qed

lemma set_l_remove: "wf_lists qs \<Longrightarrow> set (l_remove n qs k) = set (qs k) - {n}"
  by (simp add: l_remove_def wf_listsD(1) set_remove1_eq)

lemma l_remove_unlinked [simp]: "unlinked qs n \<Longrightarrow> l_remove n qs = qs"
  by (auto simp: unlinked_def l_remove_def remove1_idem)

lemma not_unlinkedI: "n \<in> set (qs h) \<Longrightarrow> \<not> unlinked qs n"
  by (auto simp: unlinked_def)

lemma unlinked_l_remove: "wf_lists qs \<Longrightarrow> unlinked (l_remove n qs) n"
  by (simp add: unlinked_def set_l_remove)

lemma l_remove_other: "n \<notin> set (qs k) \<Longrightarrow> l_remove n qs k = qs k"
  by (simp add: l_remove_def remove1_idem)

lemma wf_l_append: "wf_lists qs \<Longrightarrow> unlinked qs n \<Longrightarrow> wf_lists (l_append h n qs)"
  unfolding wf_lists_def unlinked_def by (auto simp: l_append_def split: if_splits)

lemma wf_l_prepend: "wf_lists qs \<Longrightarrow> unlinked qs n \<Longrightarrow> wf_lists (l_prepend h n qs)"
  unfolding wf_lists_def unlinked_def by (auto simp: l_prepend_def split: if_splits)

lemma wf_l_before:
  assumes "wf_lists qs" "unlinked qs n"
  shows "wf_lists (l_before h a n qs)"
proof -
  have "distinct (takeWhile P xs @ n # dropWhile P xs)"
    if "distinct xs" "n \<notin> set xs" for P and xs :: "'b list"
  proof -
    obtain us vs where "takeWhile P xs = us" "dropWhile P xs = vs" "xs = us @ vs"
      by (metis takeWhile_dropWhile_id)
    then show ?thesis using that by auto
  qed
  then have "distinct (l_before h a n qs k)" for k
    using assms by (auto simp: l_before_def unlinked_def wf_listsD(1))
  then show ?thesis
    using assms unfolding wf_lists_def unlinked_def by (auto split: if_splits)
qed

lemma wf_l_remove: "wf_lists qs \<Longrightarrow> wf_lists (l_remove n qs)"
  unfolding wf_lists_def by (auto simp: l_remove_def distinct_remove1 dest: notin_set_remove1)

subsection \<open>The pointer store implements a family\<close>

definition links_rep :: "('h + 'n) links \<Rightarrow> ('h, 'n) lists \<Rightarrow> bool" where
  "links_rep s qs \<longleftrightarrow>
     wf_lists qs \<and> (\<forall>h. dll s (Inl h) (map Inr (qs h))) \<and>
     (\<forall>n. unlinked qs n \<longrightarrow> dll s (Inr n) [])"

lemma links_repD:
  assumes "links_rep s qs"
  shows "wf_lists qs" "dll s (Inl h) (map Inr (qs h))" "unlinked qs n \<Longrightarrow> dll s (Inr n) []"
  using assms by (auto simp: links_rep_def)


text \<open>
  An operation that touches only the nodes of one list and one other node keeps every other
  list of the family.
\<close>

lemma links_rep_update:
  assumes rep: "links_rep s qs" and wf: "wf_lists qs'"
    and other: "\<And>k. k \<noteq> h \<Longrightarrow> qs' k = qs k"
    and frame: "\<And>m. m \<notin> insert (Inr n) (set (Inl h # map Inr (qs h))) \<Longrightarrow>
      lnext s' m = lnext s m \<and> lprev s' m = lprev s m"
    and this_list: "dll s' (Inl h) (map Inr (qs' h))"
    and sub: "set (qs h) - {n} \<subseteq> set (qs' h)"
    and n: "n \<in> set (qs h) \<or> unlinked qs n"
    and unl: "unlinked qs' n \<Longrightarrow> dll s' (Inr n) []"
  shows "links_rep s' qs'"
  unfolding links_rep_def
proof (intro conjI allI impI)
  fix k show "dll s' (Inl k) (map Inr (qs' k))"
  proof (cases "k = h")
    case False
    have "m \<notin> set (qs h)" "m \<noteq> n" if "m \<in> set (qs k)" for m
      using that n False wf_listsD(2) [OF links_repD(1) [OF rep]] by (auto simp: unlinked_def)
    then have "dll s' (Inl k) (map Inr (qs k)) \<longleftrightarrow> dll s (Inl k) (map Inr (qs k))"
      by (intro dll_frame frame) (use False in auto)
    then show ?thesis using other [OF False] links_repD(2) [OF rep] by simp
  qed (use this_list in simp)
next
  fix m assume m: "unlinked qs' m"
  show "dll s' (Inr m) []"
  proof (cases "m = n")
    case False
    have "unlinked qs m"
      unfolding unlinked_def
    proof
      fix k show "m \<notin> set (qs k)"
      proof -
        have "m \<notin> set (qs' k)" using m by (simp add: unlinked_def)
        then show ?thesis using sub other [of k] False by (cases "k = h") auto
      qed
    qed
    moreover from this have "dll s' (Inr m) [] \<longleftrightarrow> dll s (Inr m) []"
      by (intro dll_frame frame) (use False in \<open>auto simp: unlinked_def\<close>)
    ultimately show ?thesis using links_repD(3) [OF rep] by simp
  qed (use unl m in simp)
qed (rule wf)

lemma insert_before_frame:
  assumes "dll s l xs" "a \<in> set (l # xs)" "m \<notin> insert n (set (l # xs))"
  shows "lnext (rt_list_insert_before a n s) m = lnext s m \<and>
         lprev (rt_list_insert_before a n s) m = lprev s m"
proof -
  have "lprev s a \<in> set (l # xs)"
  proof (cases "a = l")
    case True
    then show ?thesis using lseg_prev [of s l xs l] assms(1) by (auto simp: dll_def)
  next
    case False
    then obtain us vs where xs: "xs = us @ a # vs" using assms(2) by (auto simp: in_set_conv_decomp)
    then have "lprev s a = last (l # us)"
      using assms(1) lseg_prev [of s l us a] by (simp add: dll_def lseg_append)
    then show ?thesis using xs by auto
  qed
  then have "lprev s a \<noteq> m" "a \<noteq> m" using assms(2,3) by auto
  then show ?thesis
    using assms(3) by (auto simp: rt_list_insert_before_def set_next_def set_prev_def Let_def)
qed

lemma insert_after_frame:
  assumes "dll s l xs" "m \<notin> insert n (set (l # xs))"
  shows "lnext (rt_list_insert_after l n s) m = lnext s m \<and>
         lprev (rt_list_insert_after l n s) m = lprev s m"
proof -
  have "lnext s l \<in> set (l # xs)"
    using assms(1) lseg_next [of s l xs l] by (cases xs) (auto simp: dll_def)
  then show ?thesis
    using assms(2) by (auto simp: rt_list_insert_after_def set_next_def set_prev_def Let_def)
qed

lemma remove_frame:
  assumes d: "dll s l xs" and n: "n \<in> set xs" and m: "m \<notin> set (l # xs)"
  shows "lnext (rt_list_remove n s) m = lnext s m \<and> lprev (rt_list_remove n s) m = lprev s m"
proof -
  obtain us vs where xs: "xs = us @ n # vs" using n by (auto simp: in_set_conv_decomp)
  have "lprev s n = last (l # us)"
    using d lseg_prev [of s l us n] by (simp add: dll_def lseg_append xs)
  moreover have "lnext s n = hd (vs @ [l])"
    using d lseg_next [of s n vs l] by (simp add: dll_def lseg_append xs)
  ultimately have "lprev s n \<in> set (l # xs)" "lnext s n \<in> set (l # xs)"
    using xs by (auto split: if_splits simp: hd_append)
  then show ?thesis
    using m n by (auto simp: rt_list_remove_def set_next_def set_prev_def Let_def)
qed

lemma links_rep_append:
  assumes "links_rep s qs" "unlinked qs n"
  shows "links_rep (rt_list_insert_before (Inl h) (Inr n) s) (l_append h n qs)"
proof (rule links_rep_update [OF assms(1)])
  show "wf_lists (l_append h n qs)" by (rule wf_l_append [OF links_repD(1) [OF assms(1)] assms(2)])
  have "Inr n \<notin> set (Inl h # map Inr (qs h))" using assms(2) by (auto simp: unlinked_def)
  with links_repD(2) [OF assms(1), of h]
  have "dll (rt_list_insert_before (Inl h) (Inr n) s) (Inl h) (map Inr (qs h) @ [Inr n])"
    by (rule dll_insert_before)
  then show "dll (rt_list_insert_before (Inl h) (Inr n) s) (Inl h) (map Inr (l_append h n qs h))"
    by (simp add: l_append_def)
  show "m \<notin> insert (Inr n) (set (Inl h # map Inr (qs h))) \<Longrightarrow>
      lnext (rt_list_insert_before (Inl h) (Inr n) s) m = lnext s m \<and>
      lprev (rt_list_insert_before (Inl h) (Inr n) s) m = lprev s m" for m
    by (rule insert_before_frame [OF links_repD(2) [OF assms(1)]]) auto
  show "l_append h n qs k = qs k" if "k \<noteq> h" for k using that by (simp add: l_append_def)
  show "set (qs h) - {n} \<subseteq> set (l_append h n qs h)" by auto
  have "\<not> unlinked (l_append h n qs) n" by (rule not_unlinkedI [of _ _ h]) simp
  then show "unlinked (l_append h n qs) n \<Longrightarrow>
      dll (rt_list_insert_before (Inl h) (Inr n) s) (Inr n) []" by simp
qed (use assms(2) in simp)

lemma links_rep_prepend:
  assumes "links_rep s qs" "unlinked qs n"
  shows "links_rep (rt_list_insert_after (Inl h) (Inr n) s) (l_prepend h n qs)"
proof (rule links_rep_update [OF assms(1)])
  show "wf_lists (l_prepend h n qs)" by (rule wf_l_prepend [OF links_repD(1) [OF assms(1)] assms(2)])
  have "Inr n \<notin> set (Inl h # map Inr (qs h))" using assms(2) by (auto simp: unlinked_def)
  with links_repD(2) [OF assms(1), of h]
  have "dll (rt_list_insert_after (Inl h) (Inr n) s) (Inl h) (Inr n # map Inr (qs h))"
    by (rule dll_insert_after)
  then show "dll (rt_list_insert_after (Inl h) (Inr n) s) (Inl h) (map Inr (l_prepend h n qs h))"
    by (simp add: l_prepend_def)
  show "m \<notin> insert (Inr n) (set (Inl h # map Inr (qs h))) \<Longrightarrow>
      lnext (rt_list_insert_after (Inl h) (Inr n) s) m = lnext s m \<and>
      lprev (rt_list_insert_after (Inl h) (Inr n) s) m = lprev s m" for m
    by (rule insert_after_frame [OF links_repD(2) [OF assms(1)]]) auto
  show "l_prepend h n qs k = qs k" if "k \<noteq> h" for k using that by (simp add: l_prepend_def)
  show "set (qs h) - {n} \<subseteq> set (l_prepend h n qs h)" by auto
  have "\<not> unlinked (l_prepend h n qs) n" by (rule not_unlinkedI [of _ _ h]) simp
  then show "unlinked (l_prepend h n qs) n \<Longrightarrow>
      dll (rt_list_insert_after (Inl h) (Inr n) s) (Inr n) []" by simp
qed (use assms(2) in simp)

lemma links_rep_before:
  assumes "links_rep s qs" "unlinked qs n" "a \<in> set (qs h)"
  shows "links_rep (rt_list_insert_before (Inr a) (Inr n) s) (l_before h a n qs)"
proof (rule links_rep_update [OF assms(1), where h = h and n = n])
  show "wf_lists (l_before h a n qs)" by (rule wf_l_before [OF links_repD(1) [OF assms(1)] assms(2)])
  obtain us vs where q: "qs h = us @ a # vs" "a \<notin> set us"
    using assms(3) by (meson split_list_first)
  have b: "l_before h a n qs h = us @ n # a # vs"
    using q by (auto simp: l_before_def takeWhile_append dropWhile_append)
  have "dll s (Inl h) (map Inr us @ Inr a # map Inr vs)"
    using links_repD(2) [OF assms(1), of h] q by simp
  moreover have "Inr n \<notin> set (Inl h # map Inr us @ Inr a # map Inr vs)"
    using assms(2) q by (auto simp: unlinked_def dest!: spec [of _ h])
  ultimately have "dll (rt_list_insert_before (Inr a) (Inr n) s) (Inl h)
      (map Inr us @ Inr n # Inr a # map Inr vs)"
    by (rule dll_insert_before_node)
  then show "dll (rt_list_insert_before (Inr a) (Inr n) s) (Inl h) (map Inr (l_before h a n qs h))"
    by (simp add: b)
  show "m \<notin> insert (Inr n) (set (Inl h # map Inr (qs h))) \<Longrightarrow>
      lnext (rt_list_insert_before (Inr a) (Inr n) s) m = lnext s m \<and>
      lprev (rt_list_insert_before (Inr a) (Inr n) s) m = lprev s m" for m
    by (rule insert_before_frame [OF links_repD(2) [OF assms(1)]]) (use assms(3) in auto)
  show "l_before h a n qs k = qs k" if "k \<noteq> h" for k using that by (simp add: l_before_def)
  show "set (qs h) - {n} \<subseteq> set (l_before h a n qs h)" by auto
  have "\<not> unlinked (l_before h a n qs) n" by (rule not_unlinkedI [of _ _ h]) simp
  then show "unlinked (l_before h a n qs) n \<Longrightarrow>
      dll (rt_list_insert_before (Inr a) (Inr n) s) (Inr n) []" by simp
qed (use assms(2) in simp)

lemma links_rep_remove:
  assumes rep: "links_rep s qs"
  shows "links_rep (rt_list_remove (Inr n) s) (l_remove n qs)"
proof (cases "unlinked qs n")
  case True
  have "dll (rt_list_remove (Inr n) s) m xs \<longleftrightarrow> dll s m xs" for m xs
    by (rule rt_list_remove_unlinked) (rule links_repD(3) [OF rep True])
  then show ?thesis using rep True by (simp add: links_rep_def)
next
  case False
  then obtain h where h: "n \<in> set (qs h)" by (auto simp: unlinked_def)
  note wf = links_repD(1) [OF rep]
  obtain us vs where q: "qs h = us @ n # vs" using h by (auto simp: in_set_conv_decomp)
  have r: "l_remove n qs h = us @ vs"
    using wf_listsD(1) [OF wf, of h] by (simp add: l_remove_def q remove1_append_distinct)
  have d: "dll s (Inl h) (map Inr us @ Inr n # map Inr vs)"
    using links_repD(2) [OF rep, of h] q by simp
  show ?thesis
  proof (rule links_rep_update [OF rep, where h = h and n = n])
    show "wf_lists (l_remove n qs)" by (rule wf_l_remove [OF wf])
    show "l_remove n qs k = qs k" if "k \<noteq> h" for k
      using that h wf_listsD(2) [OF wf] by (intro l_remove_other) blast
    show "dll (rt_list_remove (Inr n) s) (Inl h) (map Inr (l_remove n qs h))"
      using dll_remove(1) [OF d] by (simp add: r)
    show "dll (rt_list_remove (Inr n) s) (Inr n) []" by (rule dll_remove(2) [OF d])
    show "m \<notin> insert (Inr n) (set (Inl h # map Inr (qs h))) \<Longrightarrow>
        lnext (rt_list_remove (Inr n) s) m = lnext s m \<and>
        lprev (rt_list_remove (Inr n) s) m = lprev s m" for m
      by (rule remove_frame [OF links_repD(2) [OF rep, of h]]) (use h in auto)
  qed (use h q r in auto)
qed


subsection \<open>The interface of linked lists\<close>

text \<open>
  What the kernel relies on: a store represents a family of lists, and each operation acts on
  the family. The clients' lemmas are proved here once: draining a list in order (the loop of
  \<open>_ipc_list_resume_all\<close>) and moving the first node to the end (the scheduler's round robin).
\<close>

locale list_family =
  fixes rep :: "'s \<Rightarrow> ('h, 'n) lists \<Rightarrow> bool"
    and append :: "'h \<Rightarrow> 'n \<Rightarrow> 's \<Rightarrow> 's"
    and prepend :: "'h \<Rightarrow> 'n \<Rightarrow> 's \<Rightarrow> 's"
    and remove :: "'n \<Rightarrow> 's \<Rightarrow> 's"
    and isempty :: "'h \<Rightarrow> 's \<Rightarrow> bool"
    and first :: "'h \<Rightarrow> 's \<Rightarrow> 'n"
  assumes rep_wf: "rep s qs \<Longrightarrow> wf_lists qs"
    and rep_append: "rep s qs \<Longrightarrow> unlinked qs n \<Longrightarrow> rep (append h n s) (l_append h n qs)"
    and rep_prepend: "rep s qs \<Longrightarrow> unlinked qs n \<Longrightarrow> rep (prepend h n s) (l_prepend h n qs)"
    and rep_remove: "rep s qs \<Longrightarrow> rep (remove n s) (l_remove n qs)"
    and rep_isempty: "rep s qs \<Longrightarrow> isempty h s \<longleftrightarrow> qs h = []"
    and rep_first: "rep s qs \<Longrightarrow> qs h \<noteq> [] \<Longrightarrow> first h s = hd (qs h)"
begin

fun drain :: "nat \<Rightarrow> 'h \<Rightarrow> 's \<Rightarrow> ('n list \<times> 's) option" where
  "drain 0 h s = (if isempty h s then Some ([], s) else None)"
| "drain (Suc fuel) h s =
     (if isempty h s then Some ([], s)
      else map_option (\<lambda>(ns, s'). (first h s # ns, s')) (drain fuel h (remove (first h s) s)))"

lemma l_remove_hd:
  assumes "wf_lists qs" "qs h = n # ns"
  shows "l_remove n qs = qs(h := ns)"
proof
  fix k show "l_remove n qs k = (qs(h := ns)) k"
    using assms wf_listsD(2) [OF assms(1), of n h k]
    by (cases "k = h") (auto simp: l_remove_def intro!: remove1_idem)
qed

lemma drain_order:
  assumes "rep s qs" "length (qs h) \<le> fuel"
  shows "\<exists>s'. drain fuel h s = Some (qs h, s') \<and> rep s' (qs(h := []))"
  using assms
proof (induction fuel arbitrary: s qs)
  case 0
  then show ?case using rep_isempty [OF 0(1)] by (auto intro!: exI [of _ s] simp: fun_upd_idem)
next
  case (Suc fuel)
  show ?case
  proof (cases "qs h")
    case Nil
    then show ?thesis
      using rep_isempty [OF Suc.prems(1)] Suc.prems(1) by (auto intro!: exI [of _ s] simp: fun_upd_idem)
  next
    case (Cons n ns)
    have first: "first h s = n" using rep_first [OF Suc.prems(1)] Cons by force
    have "rep (remove n s) (qs(h := ns))"
      using rep_remove [OF Suc.prems(1), of n] l_remove_hd [of qs h n ns] Cons rep_wf [OF Suc.prems(1)]
      by simp
    moreover have "length ((qs(h := ns)) h) \<le> fuel" using Suc.prems(2) Cons by simp
    ultimately obtain s' where
      "drain fuel h (remove n s) = Some ((qs(h := ns)) h, s')" "rep s' ((qs(h := ns))(h := []))"
      using Suc.IH by blast
    then have "drain fuel h (remove n s) = Some (ns, s')" "rep s' (qs(h := []))"
      by (simp_all only: fun_upd_upd fun_upd_same)
    then show ?thesis
      using rep_isempty [OF Suc.prems(1)] Cons first by (simp del: fun_upd_apply)
  qed
qed

lemma rotate_first:
  assumes "rep s qs" "qs h \<noteq> []"
  shows "rep (append h (first h s) (remove (first h s) s)) (qs(h := rotate1 (qs h)))"
proof -
  obtain n ns where q: "qs h = n # ns" using assms(2) by (cases "qs h") auto
  have f: "first h s = n" using rep_first [OF assms] q by simp
  have r: "rep (remove n s) (qs(h := ns))"
    using rep_remove [OF assms(1), of n] l_remove_hd [of qs h n ns] q rep_wf [OF assms(1)] by simp
  moreover have "unlinked (qs(h := ns)) n"
    using unlinked_l_remove [OF rep_wf [OF assms(1)], of n] l_remove_hd [of qs h n ns] q
      rep_wf [OF assms(1)] by simp
  ultimately show ?thesis
    using rep_append [of "remove n s" "qs(h := ns)" n h] q f by (simp add: l_append_def)
qed

end

text \<open>\<open>rt_list_entry(head->next, ...)\<close> of a head whose list is not empty.\<close>

definition rt_list_first :: "'h \<Rightarrow> ('h + 'n) links \<Rightarrow> 'n" where
  "rt_list_first h s = projr (lnext s (Inl h))"

lemma rt_list_first_rep: "links_rep s qs \<Longrightarrow> qs h \<noteq> [] \<Longrightarrow> rt_list_first h s = hd (qs h)"
  using dll_first [OF links_repD(2) [of s qs h]] by (simp add: rt_list_first_def hd_map)

interpretation ptr: list_family links_rep
  "\<lambda>h n. rt_list_insert_before (Inl h) (Inr n)" "\<lambda>h n. rt_list_insert_after (Inl h) (Inr n)"
  "\<lambda>n. rt_list_remove (Inr n)" "\<lambda>h. rt_list_isempty (Inl h)" rt_list_first
proof unfold_locales
  show "links_rep s qs \<Longrightarrow> rt_list_isempty (Inl h) s \<longleftrightarrow> qs h = []" for s qs h
    using dll_isempty [OF links_repD(2) [of s qs h]] by simp
qed (fact links_repD(1) links_rep_append links_rep_prepend links_rep_remove rt_list_first_rep)+

text \<open>The families themselves are the other model of the interface, the one the kernel uses.\<close>

definition family_rep :: "('h, 'n) lists \<Rightarrow> ('h, 'n) lists \<Rightarrow> bool" where
  "family_rep s qs \<longleftrightarrow> s = qs \<and> wf_lists qs"

interpretation fam: list_family family_rep l_append l_prepend l_remove l_isempty "\<lambda>h s. hd (s h)"
  by unfold_locales
    (auto simp: family_rep_def wf_l_append wf_l_prepend wf_l_remove l_isempty_def)

lemmas l_remove_hd = fam.l_remove_hd

end
