(* ===== verification/Ffs.thy ===== *)
theory Ffs
  imports Prelude
begin

unbundle bit_operations_syntax

text \<open>
  \<open>__rt_ffs\<close>: the 1-based index of the lowest set bit of a 32-bit value, 0 for 0. The project sets
  \<open>RT_USING_CPU_FFS\<close>, so what it compiles is the version of \<open>libcpu/arm/cortex-m3/cpuport.c\<close>: the
  instructions RBIT, CLZ and ADDS, which are what \<open>__builtin_ffs\<close> is for GCC (\<open>rt_ffs\<close>). The
  other two are those of \<open>src/kservice.c\<close>, by a table of 256 bytes and by a perfect hash modulo 37. The
  interface \<open>find_first_set\<close> is what the scheduler relies on; all three satisfy it, and it has one
  solution.
\<close>

text \<open>RBIT reverses the bits of a register, CLZ counts the zeros above its highest one.\<close>

definition rbit :: "u32 \<Rightarrow> bool list" where
  "rbit r0 = map (bit r0) [0..<32]"

definition clz :: "bool list \<Rightarrow> nat" where
  "clz bits = length (takeWhile Not bits)"

definition rt_ffs :: "u32 \<Rightarrow> nat" where
  "rt_ffs value = (if value = 0 then 0 else clz (rbit value) + 1)"

definition lowest_bit_bitmap :: "nat list" where
  "lowest_bit_bitmap =
    [0, 0, 1, 0, 2, 0, 1, 0, 3, 0, 1, 0, 2, 0, 1, 0,
     4, 0, 1, 0, 2, 0, 1, 0, 3, 0, 1, 0, 2, 0, 1, 0,
     5, 0, 1, 0, 2, 0, 1, 0, 3, 0, 1, 0, 2, 0, 1, 0,
     4, 0, 1, 0, 2, 0, 1, 0, 3, 0, 1, 0, 2, 0, 1, 0,
     6, 0, 1, 0, 2, 0, 1, 0, 3, 0, 1, 0, 2, 0, 1, 0,
     4, 0, 1, 0, 2, 0, 1, 0, 3, 0, 1, 0, 2, 0, 1, 0,
     5, 0, 1, 0, 2, 0, 1, 0, 3, 0, 1, 0, 2, 0, 1, 0,
     4, 0, 1, 0, 2, 0, 1, 0, 3, 0, 1, 0, 2, 0, 1, 0,
     7, 0, 1, 0, 2, 0, 1, 0, 3, 0, 1, 0, 2, 0, 1, 0,
     4, 0, 1, 0, 2, 0, 1, 0, 3, 0, 1, 0, 2, 0, 1, 0,
     5, 0, 1, 0, 2, 0, 1, 0, 3, 0, 1, 0, 2, 0, 1, 0,
     4, 0, 1, 0, 2, 0, 1, 0, 3, 0, 1, 0, 2, 0, 1, 0,
     6, 0, 1, 0, 2, 0, 1, 0, 3, 0, 1, 0, 2, 0, 1, 0,
     4, 0, 1, 0, 2, 0, 1, 0, 3, 0, 1, 0, 2, 0, 1, 0,
     5, 0, 1, 0, 2, 0, 1, 0, 3, 0, 1, 0, 2, 0, 1, 0,
     4, 0, 1, 0, 2, 0, 1, 0, 3, 0, 1, 0, 2, 0, 1, 0]"

definition rt_ffs_table :: "u32 \<Rightarrow> nat" where
  "rt_ffs_table value =
     (if value = 0 then 0
      else if value AND 0xff \<noteq> 0 then
        lowest_bit_bitmap ! unat (value AND 0xff) + 1
      else if value AND 0xff00 \<noteq> 0 then
        lowest_bit_bitmap ! unat (drop_bit 8 (value AND 0xff00)) + 9
      else if value AND 0xff0000 \<noteq> 0 then
        lowest_bit_bitmap ! unat (drop_bit 16 (value AND 0xff0000)) + 17
      else
        lowest_bit_bitmap ! unat (drop_bit 24 (value AND 0xff000000)) + 25)"

definition tiny_lowest_bit_bitmap :: "nat list" where
  "tiny_lowest_bit_bitmap =
    [0, 1, 2, 27, 3, 24, 28, 32,
     4, 17, 25, 31, 29, 12, 32, 14,
     5, 8, 18, 32, 26, 23, 32, 16,
     30, 11, 13, 7, 32, 22, 15, 10,
     6, 21, 9, 20, 19]"

definition rt_ffs_tiny :: "u32 \<Rightarrow> nat" where
  "rt_ffs_tiny value =
     tiny_lowest_bit_bitmap ! (unat ((value AND (value - 1)) XOR value) mod 37)"

subsection \<open>The interface\<close>

locale find_first_set =
  fixes ffs :: "u32 \<Rightarrow> nat"
  assumes ffs_0: "ffs 0 = 0"
    and ffs_pos: "w \<noteq> 0 \<Longrightarrow> 0 < ffs w"
    and ffs_bit: "w \<noteq> 0 \<Longrightarrow> bit w (ffs w - 1)"
    and ffs_least: "j < ffs w - 1 \<Longrightarrow> \<not> bit w j"
begin

lemma ffs_eqI:
  assumes "bit w i" "\<And>j. j < i \<Longrightarrow> \<not> bit w j"
  shows "ffs w = Suc i"
proof -
  have w: "w \<noteq> 0" using assms(1) by auto
  have "\<not> ffs w - 1 < i" using ffs_bit [OF w] assms(2) by blast
  moreover have "\<not> i < ffs w - 1" using ffs_least assms(1) by blast
  ultimately show ?thesis using ffs_pos [OF w] by simp
qed

lemma ffs_le_32: "ffs w \<le> 32"
proof (cases "w = 0")
  case False
  then have "ffs w - 1 < 32" using ffs_bit [OF False] bit_imp_le_length by fastforce
  then show ?thesis by simp
qed (simp add: ffs_0)

lemma ffs_le_bit: "bit w j \<Longrightarrow> ffs w - 1 \<le> j"
  using ffs_least [of j w] by (meson not_le)

end

subsection \<open>The table version\<close>

text \<open>
  An entry \<open>e\<close> of the table at index \<open>i\<close> is right when \<open>i\<close> ends in \<open>2 ^ e\<close> in binary; the 255
  entries are checked by evaluation.
\<close>

fun table_ok_from :: "nat \<Rightarrow> nat list \<Rightarrow> bool" where
  "table_ok_from i [] \<longleftrightarrow> True"
| "table_ok_from i (e # es) \<longleftrightarrow> i mod 2 ^ Suc e = 2 ^ e \<and> table_ok_from (i + 1) es"

lemma table_ok_from_nth:
  "table_ok_from i es \<Longrightarrow> k < length es \<Longrightarrow> (i + k) mod 2 ^ Suc (es ! k) = 2 ^ (es ! k)"
proof (induction es arbitrary: i k)
  case (Cons e es)
  then show ?case using Cons.IH [of "i + 1" "k - 1"] by (cases k) auto
qed simp

lemma table_ok: "table_ok_from 1 (tl lowest_bit_bitmap)"
  by (simp add: lowest_bit_bitmap_def)

lemma length_table [simp]: "length lowest_bit_bitmap = 256"
  by (simp add: lowest_bit_bitmap_def)

lemma table_entry:
  assumes "0 < i" "i < 256"
  shows "bit i (lowest_bit_bitmap ! i)" "j < lowest_bit_bitmap ! i \<Longrightarrow> \<not> bit i j"
proof -
  let ?e = "lowest_bit_bitmap ! i"
  have "take_bit (Suc ?e) i = 2 ^ ?e"
    using table_ok_from_nth [OF table_ok, of "i - 1"] assms
    by (simp add: take_bit_eq_mod nth_tl)
  then have "bit (take_bit (Suc ?e) i) k \<longleftrightarrow> bit (2 ^ ?e :: nat) k" for k by simp
  then have b: "k < Suc ?e \<and> bit i k \<longleftrightarrow> k = ?e" for k
    by (simp add: bit_take_bit_iff bit_exp_iff)
  show "bit i ?e" using b [of ?e] by simp
  show "\<not> bit i j" if "j < ?e" using b [of j] that by auto
qed

lemma table_byte:
  fixes w :: u32
  assumes "take_bit 8 (drop_bit k w) \<noteq> 0"
  shows "bit w (k + lowest_bit_bitmap ! unat (take_bit 8 (drop_bit k w)))"
    and "j < lowest_bit_bitmap ! unat (take_bit 8 (drop_bit k w)) \<Longrightarrow> \<not> bit w (k + j)"
proof -
  let ?b = "take_bit 8 (drop_bit k w)"
  have "unat ?b < 2 ^ 8" by (subst unsigned_take_bit_eq) (rule take_bit_nat_less_exp)
  moreover have "0 < unat ?b" using assms by (simp add: unat_gt_0)
  ultimately have e: "bit (unat ?b) (lowest_bit_bitmap ! unat ?b)"
    "\<And>j. j < lowest_bit_bitmap ! unat ?b \<Longrightarrow> \<not> bit (unat ?b) j"
    using table_entry [of "unat ?b"] by auto
  have b: "bit (unat ?b) j \<longleftrightarrow> j < 8 \<and> bit w (k + j)" for j
    by (auto simp: bit_unsigned_iff bit_take_bit_iff bit_drop_bit_eq dest: bit_imp_le_length)
  show "bit w (k + lowest_bit_bitmap ! unat ?b)" using e(1) b by simp
  show "\<not> bit w (k + j)" if "j < lowest_bit_bitmap ! unat ?b"
  proof
    assume h: "bit w (k + j)"
    have "lowest_bit_bitmap ! unat ?b < 8" using e(1) b by simp
    then show False using e(2) [OF that] b h that by simp
  qed
qed

lemma masks:
  fixes w :: u32
  shows "w AND 0xff = take_bit 8 (drop_bit 0 w)"
    and "drop_bit 8 (w AND 0xff00) = take_bit 8 (drop_bit 8 w)"
    and "drop_bit 16 (w AND 0xff0000) = take_bit 8 (drop_bit 16 w)"
    and "drop_bit 24 (w AND 0xff000000) = take_bit 8 (drop_bit 24 w)"
    and "w AND 0xff00 = push_bit 8 (take_bit 8 (drop_bit 8 w))"
    and "w AND 0xff0000 = push_bit 16 (take_bit 8 (drop_bit 16 w))"
    and "w AND 0xff000000 = push_bit 24 (take_bit 8 (drop_bit 24 w))"
proof -
  have m: "(0xff :: u32) = mask 8" "(0xff00 :: u32) = push_bit 8 (mask 8)"
    "(0xff0000 :: u32) = push_bit 16 (mask 8)" "(0xff000000 :: u32) = push_bit 24 (mask 8)"
    by (simp_all add: mask_eq_exp_minus_1 push_bit_eq_mult)
  show "w AND 0xff = take_bit 8 (drop_bit 0 w)"
    "drop_bit 8 (w AND 0xff00) = take_bit 8 (drop_bit 8 w)"
    "drop_bit 16 (w AND 0xff0000) = take_bit 8 (drop_bit 16 w)"
    "drop_bit 24 (w AND 0xff000000) = take_bit 8 (drop_bit 24 w)"
    "w AND 0xff00 = push_bit 8 (take_bit 8 (drop_bit 8 w))"
    "w AND 0xff0000 = push_bit 16 (take_bit 8 (drop_bit 16 w))"
    "w AND 0xff000000 = push_bit 24 (take_bit 8 (drop_bit 24 w))"
    unfolding m
    by (auto simp: bit_eq_iff bit_simps)
qed


lemma byte_zero:
  fixes w :: u32
  assumes "take_bit 8 (drop_bit k w) = 0" "k \<le> j" "j < k + 8"
  shows "\<not> bit w j"
proof -
  have "\<not> bit (take_bit 8 (drop_bit k w)) (j - k)" by (simp add: assms(1))
  then show ?thesis using assms(2,3) by (simp add: bit_simps)
qed

lemma all_bytes_zero:
  fixes w :: u32
  assumes "take_bit 8 (drop_bit 0 w) = 0" "take_bit 8 (drop_bit 8 w) = 0"
    "take_bit 8 (drop_bit 16 w) = 0" "take_bit 8 (drop_bit 24 w) = 0"
  shows "w = 0"
proof (rule bit_word_eqI)
  fix j assume "j < LENGTH(32)"
  then consider "j < 8" | "8 \<le> j" "j < 16" | "16 \<le> j" "j < 24" | "24 \<le> j" "j < 32" by force
  then have "\<not> bit w j"
    by cases (use assms byte_zero [of 0 w j] byte_zero [of 8 w j] byte_zero [of 16 w j]
        byte_zero [of 24 w j] in auto)
  then show "bit w j = bit 0 j" by simp
qed

text \<open>One byte at a time: the table answers for the lowest byte that is not zero.\<close>

lemma rt_ffs_table_byte:
  fixes w :: u32
  assumes nz: "take_bit 8 (drop_bit k w) \<noteq> 0" and z: "\<And>j. j < k \<Longrightarrow> \<not> bit w j"
    and e: "rt_ffs_table w = lowest_bit_bitmap ! unat (take_bit 8 (drop_bit k w)) + k + 1"
  shows "0 < rt_ffs_table w \<and> bit w (rt_ffs_table w - 1) \<and> (\<forall>j < rt_ffs_table w - 1. \<not> bit w j)"
proof (intro conjI allI impI)
  show "bit w (rt_ffs_table w - 1)" using table_byte(1) [OF nz] e by (simp add: add.commute)
  fix j assume "j < rt_ffs_table w - 1"
  then show "\<not> bit w j"
    using table_byte(2) [OF nz, of "j - k"] z [of j] e by (cases "j < k") auto
qed (use e in simp)

lemma rt_ffs_table_spec:
  assumes "w \<noteq> 0"
  shows "0 < rt_ffs_table w \<and> bit w (rt_ffs_table w - 1) \<and> (\<forall>j < rt_ffs_table w - 1. \<not> bit w j)"
proof -
  let ?b = "\<lambda>k. take_bit 8 (drop_bit k w)"
  consider "?b 0 \<noteq> 0" | "?b 0 = 0" "?b 8 \<noteq> 0" | "?b 0 = 0" "?b 8 = 0" "?b 16 \<noteq> 0"
    | "?b 0 = 0" "?b 8 = 0" "?b 16 = 0" "?b 24 \<noteq> 0"
    using all_bytes_zero [of w] assms by blast
  then show ?thesis
  proof cases
    case 1
    then show ?thesis using assms by (intro rt_ffs_table_byte [of 0 w]) (auto simp: rt_ffs_table_def masks)
  next
    case 2
    have "\<not> bit w j" if "j < 8" for j using byte_zero [OF 2(1), of j] that by simp
    then show ?thesis
      using assms 2 masks(2) [of w]
      by (intro rt_ffs_table_byte [of 8 w]) (auto simp: rt_ffs_table_def masks)
  next
    case 3
    have "\<not> bit w j" if "j < 16" for j
      using byte_zero [OF 3(1), of j] byte_zero [OF 3(2), of j] that by fastforce
    then show ?thesis
      using assms 3 masks(3) [of w]
      by (intro rt_ffs_table_byte [of 16 w]) (auto simp: rt_ffs_table_def masks)
  next
    case 4
    have "\<not> bit w j" if "j < 24" for j
      using byte_zero [OF 4(1), of j] byte_zero [OF 4(2), of j] byte_zero [OF 4(3), of j] that
      by fastforce
    then show ?thesis
      using assms 4 masks(4) [of w]
      by (intro rt_ffs_table_byte [of 24 w]) (auto simp: rt_ffs_table_def masks)
  qed
qed

interpretation ffs_table: find_first_set rt_ffs_table
proof unfold_locales
  show zero: "rt_ffs_table 0 = 0" by (simp add: rt_ffs_table_def)
  show "\<not> bit w j" if "j < rt_ffs_table w - 1" for j w
    using rt_ffs_table_spec [of w] zero that by (cases "w = 0") auto
qed (use rt_ffs_table_spec in auto)

subsection \<open>The version of the port\<close>

lemma clz_rbit:
  assumes "w \<noteq> 0"
  shows "bit w (clz (rbit w))" "j < clz (rbit w) \<Longrightarrow> \<not> bit w j"
proof -
  let ?i = "rt_ffs_table w - 1"
  have i: "bit w ?i" "\<And>j. j < ?i \<Longrightarrow> \<not> bit w j" "?i < 32"
    using ffs_table.ffs_bit [OF assms] ffs_table.ffs_least ffs_table.ffs_le_32 [of w] ffs_table.ffs_pos [OF assms]
    by auto
  have "[0..<32] = [0..<?i] @ ?i # [Suc ?i..<32]"
    using i(3) upt_add_eq_append [of 0 ?i "32 - ?i"] by (simp add: upt_conv_Cons)
  then have "clz (rbit w) = ?i"
    using i(1,2) by (simp add: clz_def rbit_def takeWhile_append)
  then show "bit w (clz (rbit w))" "j < clz (rbit w) \<Longrightarrow> \<not> bit w j" using i by auto
qed

interpretation ffs: find_first_set rt_ffs
proof unfold_locales
  show "\<not> bit w j" if "j < rt_ffs w - 1" for j w
    using clz_rbit(2) [of w] that by (cases "w = 0") (auto simp: rt_ffs_def)
qed (use clz_rbit(1) in \<open>auto simp: rt_ffs_def\<close>)

lemma rt_ffs_table_eq: "rt_ffs_table w = rt_ffs w"
proof (cases "w = 0")
  case False
  show ?thesis
    using ffs_table.ffs_eqI [OF ffs.ffs_bit [OF False] ffs.ffs_least] ffs.ffs_pos [OF False] by simp
qed (simp add: ffs.ffs_0 ffs_table.ffs_0)

subsection \<open>The hashed version\<close>

text \<open>
  \<open>(v & (v - 1)) ^ v\<close> is the lowest set bit alone, and 2 has 36 different powers modulo 37, so
  the remainder of \<open>2 ^ i\<close> finds the entry \<open>i + 1\<close>.
\<close>

lemma isolate_lowest:
  fixes w :: u32
  assumes "bit w i" "\<And>j. j < i \<Longrightarrow> \<not> bit w j"
  shows "(w AND (w - 1)) XOR w = 2 ^ i"
proof -
  have i: "i < 32" using assms(1) bit_imp_le_length by fastforce
  have tb: "take_bit (Suc i) w = 2 ^ i"
  proof (rule bit_word_eqI)
    fix n
    show "bit (take_bit (Suc i) w) n = bit (2 ^ i :: u32) n"
      using assms i by (auto simp: bit_simps less_Suc_eq)
  qed
  obtain v where v: "v = w AND NOT (mask (Suc i))" by blast
  have w: "w = v OR 2 ^ i" unfolding v tb [symmetric]
    by (rule bit_word_eqI) (auto simp: bit_simps)
  have "v AND 2 ^ i = 0" unfolding v
    by (rule bit_word_eqI) (auto simp: bit_simps)
  then have "w = v + 2 ^ i" using w by (simp add: disjunctive_add_eq_or)
  then have "w - 1 = v + mask i" by (simp add: mask_eq_exp_minus_1)
  also have "\<dots> = v OR mask i"
  proof -
    have "v AND mask i = 0" unfolding v by (rule bit_word_eqI) (auto simp: bit_simps)
    then show ?thesis by (simp add: disjunctive_add_eq_or)
  qed
  finally have w1: "w - 1 = v OR mask i" .
  show ?thesis
  proof (rule bit_word_eqI)
    fix n assume n: "n < LENGTH(32)"
    have "bit v n \<longleftrightarrow> bit w n \<and> i < n" using n unfolding v by (auto simp: bit_simps less_Suc_eq_le)
    then show "bit ((w AND (w - 1)) XOR w) n = bit (2 ^ i :: u32) n"
      unfolding w1 using assms i n
      by (auto simp: bit_simps)
  qed
qed

lemma tiny_table: "list_all (\<lambda>i. tiny_lowest_bit_bitmap ! (2 ^ i mod 37) = i + 1) [2..<32]"
  by (simp add: tiny_lowest_bit_bitmap_def)

lemma tiny_entry:
  assumes "i < 32"
  shows "tiny_lowest_bit_bitmap ! (2 ^ i mod 37) = Suc i"
proof (cases "2 \<le> i")
  case True
  then have i: "i \<in> set [2..<32]" using assms by (simp only: set_upt atLeastLessThan_iff)
  have "\<forall>x\<in>set [2..<32]. tiny_lowest_bit_bitmap ! (2 ^ x mod 37) = x + 1"
    using tiny_table unfolding list_all_iff .
  from bspec [OF this i] show ?thesis by (simp only: Suc_eq_plus1)
next
  case False
  then have "i = 0 \<or> i = 1" by linarith
  then show ?thesis by (auto simp: tiny_lowest_bit_bitmap_def)
qed

lemma rt_ffs_tiny_eq: "rt_ffs_tiny w = rt_ffs w"
proof (cases "w = 0")
  case True
  then show ?thesis by (simp add: rt_ffs_tiny_def ffs.ffs_0 tiny_lowest_bit_bitmap_def)
next
  case False
  let ?i = "rt_ffs w - 1"
  have "(w AND (w - 1)) XOR w = 2 ^ ?i"
    using isolate_lowest [OF ffs.ffs_bit [OF False]] ffs.ffs_least by blast
  moreover have i: "?i < 32" using ffs.ffs_le_32 [of w] ffs.ffs_pos [OF False] by simp
  moreover have "unat (2 ^ ?i :: u32) = 2 ^ ?i"
  proof -
    have "(2 :: nat) ^ ?i < 2 ^ 32" using i by (intro power_strict_increasing) auto
    moreover have "(2 :: u32) ^ ?i = of_nat (2 ^ ?i)" by simp
    ultimately show ?thesis by (simp only: unat_of_nat) simp
  qed
  ultimately have "rt_ffs_tiny w = Suc ?i"
    using tiny_entry by (simp add: rt_ffs_tiny_def)
  then show ?thesis using ffs.ffs_pos [OF False] by simp
qed

interpretation tiny: find_first_set rt_ffs_tiny
  unfolding rt_ffs_tiny_eq [abs_def] by (rule ffs.find_first_set_axioms)

end
