(* ===== verification/Kernel_State.thy ===== *)
theory Kernel_State
  imports Rt_List Ffs
begin

text \<open>
  The kernel's data: thread control blocks and timers (\<open>include/rtdef.h\<close>), the IPC objects, the
  families of linked lists (\<open>thread->tlist\<close> behind ready queues, suspend lists and the defunct
  list; \<open>timer->row[0]\<close> behind the timer lists) and the globals of \<open>scheduler.c\<close>, \<open>clock.c\<close> and
  \<open>timer.c\<close>, as one state record that the operations pass along. Objects are named by numbers
  that stand for their addresses. The configuration is the project's \<open>rtconfig.h\<close>: one CPU,
  32 priorities, a one-level timer list, soft timers, no signals; hooks are not set.
\<close>

subsection \<open>Error codes\<close>

text \<open>\<open>rt_err_t\<close> is a \<open>long\<close>; the kernel returns the codes negated.\<close>

abbreviation (input) RT_EOK :: int where "RT_EOK \<equiv> 0"
abbreviation (input) RT_ERROR :: int where "RT_ERROR \<equiv> 1"
abbreviation (input) RT_ETIMEOUT :: int where "RT_ETIMEOUT \<equiv> 2"
abbreviation (input) RT_EFULL :: int where "RT_EFULL \<equiv> 3"
abbreviation (input) RT_EEMPTY :: int where "RT_EEMPTY \<equiv> 4"
abbreviation (input) RT_EINVAL :: int where "RT_EINVAL \<equiv> 10"

abbreviation (input) RT_WAITING_FOREVER :: int where "RT_WAITING_FOREVER \<equiv> -1"
abbreviation (input) RT_WAITING_NO :: int where "RT_WAITING_NO \<equiv> 0"

subsection \<open>Threads\<close>

text \<open>
  \<open>thread->stat\<close> is a byte: the state under \<open>RT_THREAD_STAT_MASK\<close> (0x07) and the bit
  \<open>RT_THREAD_STAT_YIELD\<close> (0x08). The record keeps the two as separate fields; \<open>stat_byte\<close> is the
  byte they stand for.
\<close>

datatype tstate =
    RT_THREAD_INIT | RT_THREAD_READY | RT_THREAD_SUSPEND | RT_THREAD_RUNNING | RT_THREAD_CLOSE

fun tstate_code :: "tstate \<Rightarrow> byte" where
  "tstate_code RT_THREAD_INIT = 0"
| "tstate_code RT_THREAD_READY = 1"
| "tstate_code RT_THREAD_SUSPEND = 2"
| "tstate_code RT_THREAD_RUNNING = 3"
| "tstate_code RT_THREAD_CLOSE = 4"

record thread =
  th_stat :: tstate
  th_yield :: bool
  th_error :: int
  current_priority :: nat
  number_mask :: u32
  event_set :: u32
  event_info :: byte
  th_init_tick :: u32
  remaining_tick :: u32
  stack_addr :: nat
  stack_size :: nat
  stack_ptr :: nat
  stack_guard :: byte

definition stat_byte :: "thread \<Rightarrow> byte" where
  "stat_byte t = tstate_code (th_stat t) OR (if th_yield t then 8 else 0)"

text \<open>
  The mask operations of the code are the field operations of the record: reading
  \<open>stat & MASK\<close>, testing \<open>stat & YIELD_MASK\<close>, writing \<open>S | (stat & ~MASK)\<close>, clearing and
  setting the yield bit.
\<close>

lemma stat_byte_ops:
  "stat_byte t AND 7 = tstate_code (th_stat t)"
  "stat_byte t AND 8 = 0 \<longleftrightarrow> \<not> th_yield t"
  "tstate_code s OR (stat_byte t AND NOT 7) = stat_byte (t\<lparr>th_stat := s\<rparr>)"
  "stat_byte t AND NOT 8 = stat_byte (t\<lparr>th_yield := False\<rparr>)"
  "stat_byte t OR 8 = stat_byte (t\<lparr>th_yield := True\<rparr>)"
  by (cases "th_stat t"; cases "th_yield t"; cases s; simp add: stat_byte_def)+

subsection \<open>Timers\<close>

datatype timeout_func = Thread_Timeout nat | Timer_Callback nat

datatype timer_id = Thread_Timer nat | User_Timer nat

text \<open>The bits ACTIVATED, PERIODIC and SOFT_TIMER of \<open>timer->parent.flag\<close> are three fields.\<close>

record timer =
  tm_activated :: bool
  tm_periodic :: bool
  tm_soft :: bool
  timeout_func :: timeout_func
  tm_init_tick :: u32
  timeout_tick :: u32

subsection \<open>IPC objects\<close>

datatype ipc_flag = RT_IPC_FLAG_FIFO | RT_IPC_FLAG_PRIO

record semaphore =
  sem_flag :: ipc_flag
  sem_value :: nat

record mutex =
  mutex_value :: nat
  original_priority :: nat
  mutex_hold :: nat
  mutex_owner :: "nat option"

record event =
  ev_flag :: ipc_flag
  ev_set :: u32

record mailbox =
  mb_flag :: ipc_flag
  mb_pool :: "u32 list"
  mb_size :: nat
  mb_entry :: nat
  mb_in_offset :: nat
  mb_out_offset :: nat

text \<open>
  A message block is \<open>sizeof(struct rt_mq_message)\<close> bytes for its \<open>next\<close> pointer and \<open>msg_size\<close> bytes of
  content; the blocks of a queue are numbered in the order of their addresses in \<open>msg_pool\<close>.
\<close>

record msgqueue =
  mq_flag :: ipc_flag
  mq_msg_size :: nat
  mq_max_msgs :: nat
  mq_entry :: nat
  mq_head :: "nat option"
  mq_tail :: "nat option"
  mq_free :: "nat option"
  mq_next :: "nat \<Rightarrow> nat option"
  mq_data :: "nat \<Rightarrow> byte list"

text \<open>
  The word in front of a block of a memory pool is a pointer: to the next free block or, while the
  block is in use, to the pool it belongs to. \<open>mp_words\<close> is the memory these words live in, by address.
\<close>

record mempool =
  start_address :: nat
  mp_size :: nat
  block_size :: nat
  block_list :: "nat option"
  block_total_count :: nat
  block_free_count :: nat

subsection \<open>The state\<close>

text \<open>
  Heads of thread lists: the ready queue of a priority, the suspend list of the object at an
  address, the list of suspended senders of a mailbox or message queue, the defunct list.
\<close>

datatype lhead = ReadyQ nat | SuspQ nat | SenderQ nat | DefunctQ

text \<open>
  Heads of timer lists: \<open>_timer_list\<close>, \<open>_soft_timer_list\<close> and the local list of
  \<open>rt_timer_check\<close> and of \<open>rt_soft_timer_check\<close>.
\<close>

datatype thead = HardTimers | SoftTimers | HardLocal | SoftLocal

datatype hw_switch = Switch nat nat | Switch_Interrupt nat nat

record kernel =
  threads :: "nat \<Rightarrow> thread"
  timers :: "timer_id \<Rightarrow> timer"
  lists :: "(lhead, nat) lists"
  timer_lists :: "(thead, timer_id) lists"
  ready_group :: u32
  current_thread :: "nat option"
  current_prio :: nat
  lock_nest :: int
  interrupt_nest :: nat
  rt_tick :: u32
  soft_timer_busy :: bool
  timer_thread :: nat
  sems :: "nat \<Rightarrow> semaphore"
  mutexes :: "nat \<Rightarrow> mutex"
  events :: "nat \<Rightarrow> event"
  mailboxes :: "nat \<Rightarrow> mailbox"
  mqueues :: "nat \<Rightarrow> msgqueue"
  mempools :: "nat \<Rightarrow> mempool"
  mp_words :: "nat \<Rightarrow> nat option"
  switches :: "hw_switch list"

definition upd_thread :: "nat \<Rightarrow> (thread \<Rightarrow> thread) \<Rightarrow> kernel \<Rightarrow> kernel" where
  "upd_thread t f k = k\<lparr>threads := (threads k)(t := f (threads k t))\<rparr>"

definition upd_timer :: "timer_id \<Rightarrow> (timer \<Rightarrow> timer) \<Rightarrow> kernel \<Rightarrow> kernel" where
  "upd_timer t f k = k\<lparr>timers := (timers k)(t := f (timers k t))\<rparr>"

text \<open>Frame facts: what the two updates leave alone.\<close>

lemma upd_thread_simps [simp]:
  "threads (upd_thread t f k) = (threads k)(t := f (threads k t))"
  "timers (upd_thread t f k) = timers k"
  "lists (upd_thread t f k) = lists k"
  "timer_lists (upd_thread t f k) = timer_lists k"
  "ready_group (upd_thread t f k) = ready_group k"
  "current_thread (upd_thread t f k) = current_thread k"
  "current_prio (upd_thread t f k) = current_prio k"
  "lock_nest (upd_thread t f k) = lock_nest k"
  "interrupt_nest (upd_thread t f k) = interrupt_nest k"
  "rt_tick (upd_thread t f k) = rt_tick k"
  "soft_timer_busy (upd_thread t f k) = soft_timer_busy k"
  "timer_thread (upd_thread t f k) = timer_thread k"
  "sems (upd_thread t f k) = sems k"
  "mutexes (upd_thread t f k) = mutexes k"
  "events (upd_thread t f k) = events k"
  "mailboxes (upd_thread t f k) = mailboxes k"
  "mqueues (upd_thread t f k) = mqueues k"
  "mempools (upd_thread t f k) = mempools k"
  "mp_words (upd_thread t f k) = mp_words k"
  "switches (upd_thread t f k) = switches k"
  by (simp_all add: upd_thread_def)

lemma upd_timer_simps [simp]:
  "timers (upd_timer t g k) = (timers k)(t := g (timers k t))"
  "threads (upd_timer t g k) = threads k"
  "lists (upd_timer t g k) = lists k"
  "timer_lists (upd_timer t g k) = timer_lists k"
  "ready_group (upd_timer t g k) = ready_group k"
  "current_thread (upd_timer t g k) = current_thread k"
  "current_prio (upd_timer t g k) = current_prio k"
  "lock_nest (upd_timer t g k) = lock_nest k"
  "interrupt_nest (upd_timer t g k) = interrupt_nest k"
  "rt_tick (upd_timer t g k) = rt_tick k"
  "soft_timer_busy (upd_timer t g k) = soft_timer_busy k"
  "timer_thread (upd_timer t g k) = timer_thread k"
  "sems (upd_timer t g k) = sems k"
  "mutexes (upd_timer t g k) = mutexes k"
  "events (upd_timer t g k) = events k"
  "mailboxes (upd_timer t g k) = mailboxes k"
  "mqueues (upd_timer t g k) = mqueues k"
  "mempools (upd_timer t g k) = mempools k"
  "mp_words (upd_timer t g k) = mp_words k"
  "switches (upd_timer t g k) = switches k"
  by (simp_all add: upd_timer_def)

subsection \<open>Calls that may block\<close>

text \<open>
  A blocking call returns, or has switched to another thread inside \<open>rt_schedule\<close>; what it does
  when its thread runs again is a function of its own.
\<close>

datatype 'a ret = Ret 'a | Blocked

end
