(* ===== verification/Scheduler.thy ===== *)
theory Scheduler
  imports Kernel_State
begin

unbundle bit_operations_syntax

text \<open>
  \<open>src/scheduler.c\<close> for one CPU: the bitmap of non-empty ready queues, the choice of the highest
  ready priority, \<open>rt_schedule\<close>, insertion and removal of threads, and the scheduler lock. The
  invariant \<open>sched_inv\<close> ties the bitmap, the queues and the threads' states together; it is
  stated with a set of exempt threads, those a caller has just unlinked and not yet given a
  new state, so that the operations compose.
\<close>

subsection \<open>Operations\<close>

text \<open>The running stack must hold its guard byte and the saved stack pointer, or the code spins.\<close>

definition scheduler_stack_check :: "thread \<Rightarrow> unit option" where
  "scheduler_stack_check t =
     rt_assert (\<not> (stack_guard t \<noteq> 0x23 \<or> stack_ptr t \<le> stack_addr t \<or>
                   stack_ptr t > stack_addr t + stack_size t))"

definition scheduler_get_highest_priority_thread :: "kernel \<Rightarrow> (nat \<times> nat) option" where
  "scheduler_get_highest_priority_thread k =
     (let highest_ready_priority = rt_ffs (ready_group k) - 1 in
      case lists k (ReadyQ highest_ready_priority) of
        [] \<Rightarrow> None
      | t # _ \<Rightarrow> Some (t, highest_ready_priority))"

definition rt_schedule_insert_thread :: "nat \<Rightarrow> kernel \<Rightarrow> kernel" where
  "rt_schedule_insert_thread t k =
     (if current_thread k = Some t then upd_thread t (\<lambda>h. h\<lparr>th_stat := RT_THREAD_RUNNING\<rparr>) k
      else
        let k = upd_thread t (\<lambda>h. h\<lparr>th_stat := RT_THREAD_READY\<rparr>) k;
            k = k\<lparr>lists := l_append (ReadyQ (current_priority (threads k t))) t (lists k)\<rparr>
        in k\<lparr>ready_group := ready_group k OR number_mask (threads k t)\<rparr>)"

definition rt_schedule_remove_thread :: "nat \<Rightarrow> kernel \<Rightarrow> kernel" where
  "rt_schedule_remove_thread t k =
     (let k = k\<lparr>lists := l_remove t (lists k)\<rparr> in
      if l_isempty (ReadyQ (current_priority (threads k t))) (lists k)
      then k\<lparr>ready_group := ready_group k AND NOT (number_mask (threads k t))\<rparr>
      else k)"

text \<open>
  \<open>rt_schedule\<close> records the context switch it asks the port for. The saved stack pointers and
  the switch itself are the port's; the thread that runs next is \<open>current_thread\<close>.
\<close>

definition rt_schedule :: "kernel \<Rightarrow> kernel option" where
  "rt_schedule k =
     (if lock_nest k = 0 \<and> ready_group k \<noteq> 0 then do {
        (highest, prio) \<leftarrow> scheduler_get_highest_priority_thread k;
        cur \<leftarrow> current_thread k;
        let running = th_stat (threads k cur) = RT_THREAD_RUNNING;
        let keep = running \<and>
          (current_priority (threads k cur) < prio \<or>
           current_priority (threads k cur) = prio \<and> \<not> th_yield (threads k cur));
        let to = (if keep then cur else highest);
        let need_insert_from_thread = (running \<and> \<not> keep);
        let k = (if running then upd_thread cur (\<lambda>h. h\<lparr>th_yield := False\<rparr>) k else k);
        if to \<noteq> cur then do {
          let k = k\<lparr>current_prio := prio mod 256, current_thread := Some to\<rparr>;
          let k = (if need_insert_from_thread then rt_schedule_insert_thread cur k else k);
          let k = rt_schedule_remove_thread to k;
          let k = upd_thread to (\<lambda>h. h\<lparr>th_stat := RT_THREAD_RUNNING\<rparr>) k;
          _ \<leftarrow> scheduler_stack_check (threads k to);
          Some (k\<lparr>switches := switches k @
            [if interrupt_nest k = 0 then Switch cur to else Switch_Interrupt cur to]\<rparr>)
        } else
          Some (upd_thread cur (\<lambda>h. h\<lparr>th_stat := RT_THREAD_RUNNING\<rparr>)
                 (rt_schedule_remove_thread cur k))
      } else Some k)"

definition rt_system_scheduler_init :: "kernel \<Rightarrow> kernel" where
  "rt_system_scheduler_init k =
     k\<lparr>lock_nest := 0,
       lists := (\<lambda>h. case h of ReadyQ p \<Rightarrow> if p < 32 then [] else lists k h | _ \<Rightarrow> lists k h),
       ready_group := 0\<rparr>"

definition rt_system_scheduler_start :: "kernel \<Rightarrow> kernel option" where
  "rt_system_scheduler_start k = do {
     (to, prio) \<leftarrow> scheduler_get_highest_priority_thread k;
     let k = k\<lparr>current_thread := Some to\<rparr>;
     let k = rt_schedule_remove_thread to k;
     Some (upd_thread to (\<lambda>h. h\<lparr>th_stat := RT_THREAD_RUNNING, th_yield := False\<rparr>) k) }"

text \<open>The lock counter is an \<open>rt_int16_t\<close>.\<close>

definition s16 :: "int \<Rightarrow> int" where
  "s16 n = (n + 2 ^ 15) mod 2 ^ 16 - 2 ^ 15"

definition rt_enter_critical :: "kernel \<Rightarrow> kernel" where
  "rt_enter_critical k = k\<lparr>lock_nest := s16 (lock_nest k + 1)\<rparr>"

definition rt_exit_critical :: "kernel \<Rightarrow> kernel option" where
  "rt_exit_critical k =
     (let k = k\<lparr>lock_nest := s16 (lock_nest k - 1)\<rparr> in
      if lock_nest k \<le> 0 then
        let k = k\<lparr>lock_nest := 0\<rparr> in
        if current_thread k \<noteq> None then rt_schedule k else Some k
      else Some k)"

definition rt_critical_level :: "kernel \<Rightarrow> nat" where
  "rt_critical_level k = nat (lock_nest k mod 2 ^ 16)"

subsection \<open>The invariant\<close>

definition started :: "thread \<Rightarrow> bool" where
  "started h \<longleftrightarrow> current_priority h < 32 \<and> number_mask h = push_bit (current_priority h) 1"

text \<open>A thread that was started and has not ended.\<close>

abbreviation live :: "thread \<Rightarrow> bool" where
  "live h \<equiv> th_stat h \<noteq> RT_THREAD_INIT \<and> th_stat h \<noteq> RT_THREAD_CLOSE"

text \<open>A thread that is linked anywhere has the state of that list.\<close>

fun list_stat :: "lhead \<Rightarrow> tstate" where
  "list_stat (ReadyQ p) = RT_THREAD_READY"
| "list_stat (SuspQ a) = RT_THREAD_SUSPEND"
| "list_stat (SenderQ a) = RT_THREAD_SUSPEND"
| "list_stat DefunctQ = RT_THREAD_CLOSE"

fun is_ready :: "lhead \<Rightarrow> bool" where
  "is_ready (ReadyQ p) = True"
| "is_ready (SuspQ a) = False"
| "is_ready (SenderQ a) = False"
| "is_ready DefunctQ = False"

lemma not_is_ready: "\<not> is_ready h \<longleftrightarrow> (\<forall>p. h \<noteq> ReadyQ p)"
  by (cases h) auto

definition sched_inv_x :: "nat set \<Rightarrow> kernel \<Rightarrow> bool" where
  "sched_inv_x X k \<longleftrightarrow>
     wf_lists (lists k) \<and>
     (\<forall>p < 32. bit (ready_group k) p \<longleftrightarrow> lists k (ReadyQ p) \<noteq> []) \<and>
     (\<forall>t. live (threads k t) \<longrightarrow> started (threads k t)) \<and>
     (\<forall>h. \<forall>t \<in> set (lists k h). th_stat (threads k t) = list_stat h) \<and>
     (\<forall>p. \<forall>t \<in> set (lists k (ReadyQ p)). current_priority (threads k t) = p) \<and>
     (\<forall>t. t \<notin> X \<longrightarrow> th_stat (threads k t) = RT_THREAD_READY \<longrightarrow>
        t \<in> set (lists k (ReadyQ (current_priority (threads k t))))) \<and>
     (\<forall>t. t \<notin> X \<longrightarrow> th_stat (threads k t) = RT_THREAD_RUNNING \<longrightarrow> current_thread k = Some t) \<and>
     (\<forall>t \<in> X. unlinked (lists k) t)"

abbreviation sched_inv :: "kernel \<Rightarrow> bool" where
  "sched_inv \<equiv> sched_inv_x {}"

lemma sched_invI:
  assumes "wf_lists (lists k)"
    "\<And>p. p < 32 \<Longrightarrow> bit (ready_group k) p \<longleftrightarrow> lists k (ReadyQ p) \<noteq> []"
    "\<And>t. live (threads k t) \<Longrightarrow> started (threads k t)"
    "\<And>h t. t \<in> set (lists k h) \<Longrightarrow> th_stat (threads k t) = list_stat h"
    "\<And>p t. t \<in> set (lists k (ReadyQ p)) \<Longrightarrow> current_priority (threads k t) = p"
    "\<And>t. t \<notin> X \<Longrightarrow> th_stat (threads k t) = RT_THREAD_READY \<Longrightarrow>
       t \<in> set (lists k (ReadyQ (current_priority (threads k t))))"
    "\<And>t. t \<notin> X \<Longrightarrow> th_stat (threads k t) = RT_THREAD_RUNNING \<Longrightarrow> current_thread k = Some t"
    "\<And>t. t \<in> X \<Longrightarrow> unlinked (lists k) t"
  shows "sched_inv_x X k"
  using assms unfolding sched_inv_x_def by blast

lemma sched_invD:
  assumes "sched_inv_x X k"
  shows "wf_lists (lists k)"
    "p < 32 \<Longrightarrow> bit (ready_group k) p \<longleftrightarrow> lists k (ReadyQ p) \<noteq> []"
    "live (threads k t) \<Longrightarrow> started (threads k t)"
    "t \<in> set (lists k h) \<Longrightarrow> th_stat (threads k t) = list_stat h"
    "t \<in> set (lists k (ReadyQ p)) \<Longrightarrow> current_priority (threads k t) = p"
    "t \<notin> X \<Longrightarrow> th_stat (threads k t) = RT_THREAD_READY \<Longrightarrow>
       t \<in> set (lists k (ReadyQ (current_priority (threads k t))))"
    "t \<notin> X \<Longrightarrow> th_stat (threads k t) = RT_THREAD_RUNNING \<Longrightarrow> current_thread k = Some t"
    "t \<in> X \<Longrightarrow> unlinked (lists k) t"
  using assms unfolding sched_inv_x_def by blast+

lemma running_unlinked:
  assumes "sched_inv_x X k"
    "th_stat (threads k t) = RT_THREAD_RUNNING \<or> th_stat (threads k t) = RT_THREAD_INIT"
  shows "unlinked (lists k) t"
  unfolding unlinked_def
proof
  fix h show "t \<notin> set (lists k h)"
    using sched_invD(4) [OF assms(1), of t h] assms(2) by (cases h) auto
qed

text \<open>Fields the invariant does not read.\<close>

lemma sched_inv_frame [simp]:
  "sched_inv_x X (k\<lparr>timers := a\<rparr>) = sched_inv_x X k"
  "sched_inv_x X (k\<lparr>timer_lists := b\<rparr>) = sched_inv_x X k"
  "sched_inv_x X (k\<lparr>current_prio := c\<rparr>) = sched_inv_x X k"
  "sched_inv_x X (k\<lparr>lock_nest := d\<rparr>) = sched_inv_x X k"
  "sched_inv_x X (k\<lparr>interrupt_nest := e\<rparr>) = sched_inv_x X k"
  "sched_inv_x X (k\<lparr>rt_tick := f\<rparr>) = sched_inv_x X k"
  "sched_inv_x X (k\<lparr>soft_timer_busy := g\<rparr>) = sched_inv_x X k"
  "sched_inv_x X (k\<lparr>sems := i\<rparr>) = sched_inv_x X k"
  "sched_inv_x X (k\<lparr>mutexes := j\<rparr>) = sched_inv_x X k"
  "sched_inv_x X (k\<lparr>events := l\<rparr>) = sched_inv_x X k"
  "sched_inv_x X (k\<lparr>mailboxes := m\<rparr>) = sched_inv_x X k"
  "sched_inv_x X (k\<lparr>mqueues := m1\<rparr>) = sched_inv_x X k"
  "sched_inv_x X (k\<lparr>mempools := m2\<rparr>) = sched_inv_x X k"
  "sched_inv_x X (k\<lparr>mp_words := m3\<rparr>) = sched_inv_x X k"
  "sched_inv_x X (k\<lparr>switches := n\<rparr>) = sched_inv_x X k"
  "sched_inv_x X (upd_timer t u k) = sched_inv_x X k"
  by (simp_all add: sched_inv_x_def)

lemma sched_inv_exempt:
  "sched_inv_x X k \<Longrightarrow> unlinked (lists k) t \<Longrightarrow> sched_inv_x (insert t X) k"
  unfolding sched_inv_x_def by blast

lemma sched_inv_drop:
  assumes "sched_inv_x X k" "th_stat (threads k t) \<noteq> RT_THREAD_READY"
    "th_stat (threads k t) = RT_THREAD_RUNNING \<Longrightarrow> current_thread k = Some t"
  shows "sched_inv_x (X - {t}) k"
  using assms unfolding sched_inv_x_def by blast

text \<open>An update of a thread that keeps what the scheduler reads of it.\<close>

lemma sched_inv_upd:
  assumes "sched_inv_x X k" "th_stat (f (threads k t)) = th_stat (threads k t)"
    "current_priority (f (threads k t)) = current_priority (threads k t)"
    "number_mask (f (threads k t)) = number_mask (threads k t)"
  shows "sched_inv_x X (upd_thread t f k)"
proof -
  have e: "th_stat (threads (upd_thread t f k) u) = th_stat (threads k u)"
    "current_priority (threads (upd_thread t f k) u) = current_priority (threads k u)"
    "number_mask (threads (upd_thread t f k) u) = number_mask (threads k u)" for u
    using assms by auto
  show ?thesis using assms(1) unfolding sched_inv_x_def started_def e by simp
qed

text \<open>An exempt thread may take any state.\<close>

lemma sched_inv_upd_exempt:
  assumes "sched_inv_x X k" "t \<in> X"
    "live (f (threads k t)) \<Longrightarrow> started (f (threads k t))"
  shows "sched_inv_x X (upd_thread t f k)"
proof (rule sched_invI)
  note I = sched_invD [OF assms(1)]
  have u: "t \<notin> set (lists k h)" for h using I(8) [OF assms(2)] by (simp add: unlinked_def)
  show "live (threads (upd_thread t f k) s) \<Longrightarrow>
      started (threads (upd_thread t f k) s)" for s
    using I(3) assms(3) by (cases "s = t") auto
  show "s \<in> set (lists (upd_thread t f k) h) \<Longrightarrow>
      th_stat (threads (upd_thread t f k) s) = list_stat h" for s h
    using I(4) [of s h] u [of h] by auto
  show "s \<in> set (lists (upd_thread t f k) (ReadyQ p)) \<Longrightarrow>
      current_priority (threads (upd_thread t f k) s) = p" for s p
    using I(5) [of s p] u [of "ReadyQ p"] by auto
  show "s \<notin> X \<Longrightarrow> th_stat (threads (upd_thread t f k) s) = RT_THREAD_READY \<Longrightarrow>
      s \<in> set (lists (upd_thread t f k) (ReadyQ (current_priority (threads (upd_thread t f k) s))))" for s
    using I(6) [of s] assms(2) by (cases "s = t") auto
  show "s \<notin> X \<Longrightarrow> th_stat (threads (upd_thread t f k) s) = RT_THREAD_RUNNING \<Longrightarrow>
      current_thread (upd_thread t f k) = Some s" for s
    using I(7) [of s] assms(2) by (cases "s = t") auto
qed (use sched_invD [OF assms(1)] in simp_all)

text \<open>Linking an exempt thread.\<close>

lemma sched_inv_link:
  assumes "sched_inv_x X k" "t \<in> X" "wf_lists ls"
    "\<And>g. g \<noteq> h \<Longrightarrow> ls g = lists k g" "set (ls h) = insert t (set (lists k h))"
    "\<And>p. h \<noteq> ReadyQ p" "th_stat (threads k t) = list_stat h"
  shows "sched_inv_x (X - {t}) (k\<lparr>lists := ls\<rparr>)"
proof (rule sched_invI)
  note I = sched_invD [OF assms(1)]
  have nr: "ls (ReadyQ p) = lists k (ReadyQ p)" for p using assms(4,6) by metis
  have st: "s \<in> set (ls g) \<Longrightarrow> s = t \<and> g = h \<or> s \<in> set (lists k g)" for s g
    using assms(4,5) by (cases "g = h") auto
  have ns: "th_stat (threads k t) \<noteq> RT_THREAD_READY" "th_stat (threads k t) \<noteq> RT_THREAD_RUNNING"
    using assms(6,7) by (cases h; simp)+
  show "s \<in> X - {t} \<Longrightarrow> unlinked (lists (k\<lparr>lists := ls\<rparr>)) s" for s
    unfolding unlinked_def using I(8) [of s] st [of s] by (auto simp: unlinked_def)
  show "s \<in> set (lists (k\<lparr>lists := ls\<rparr>) g) \<Longrightarrow>
      th_stat (threads (k\<lparr>lists := ls\<rparr>) s) = list_stat g" for s g
    using st [of s g] I(4) [of s g] assms(7) by auto
  show "s \<notin> X - {t} \<Longrightarrow> th_stat (threads (k\<lparr>lists := ls\<rparr>) s) = RT_THREAD_READY \<Longrightarrow>
      s \<in> set (lists (k\<lparr>lists := ls\<rparr>) (ReadyQ (current_priority (threads (k\<lparr>lists := ls\<rparr>) s))))" for s
    using I(6) [of s] ns nr by auto
  show "s \<notin> X - {t} \<Longrightarrow> th_stat (threads (k\<lparr>lists := ls\<rparr>) s) = RT_THREAD_RUNNING \<Longrightarrow>
      current_thread (k\<lparr>lists := ls\<rparr>) = Some s" for s
    using I(7) [of s] ns by auto
  show "p < 32 \<Longrightarrow> bit (ready_group (k\<lparr>lists := ls\<rparr>)) p \<longleftrightarrow>
      lists (k\<lparr>lists := ls\<rparr>) (ReadyQ p) \<noteq> []" for p
    using I(2) [of p] nr by simp
  show "s \<in> set (lists (k\<lparr>lists := ls\<rparr>) (ReadyQ p)) \<Longrightarrow>
      current_priority (threads (k\<lparr>lists := ls\<rparr>) s) = p" for p s
    using I(5) [of s p] nr by simp
qed (use sched_invD(3) [OF assms(1)] assms(3) in simp_all)

lemma sched_inv_link_append:
  assumes "sched_inv_x X k" "t \<in> X" "\<And>p. h \<noteq> ReadyQ p" "th_stat (threads k t) = list_stat h"
  shows "sched_inv_x (X - {t}) (k\<lparr>lists := l_append h t (lists k)\<rparr>)"
proof (rule sched_inv_link [OF assms(1,2) _ _ _ assms(3,4)])
  show "wf_lists (l_append h t (lists k))"
    by (rule wf_l_append [OF sched_invD(1,8) [OF assms(1)]]) (rule assms(2))
qed (auto simp: l_append_def)

lemma sched_inv_link_before:
  assumes "sched_inv_x X k" "t \<in> X" "\<And>p. h \<noteq> ReadyQ p" "th_stat (threads k t) = list_stat h"
  shows "sched_inv_x (X - {t}) (k\<lparr>lists := l_before h a t (lists k)\<rparr>)"
proof (rule sched_inv_link [OF assms(1,2) _ _ _ assms(3,4)])
  show "wf_lists (l_before h a t (lists k))"
    by (rule wf_l_before [OF sched_invD(1,8) [OF assms(1)]]) (rule assms(2))
  show "g \<noteq> h \<Longrightarrow> l_before h a t (lists k) g = lists k g" for g by (simp add: l_before_def)
qed auto

lemma sched_inv_link_prepend:
  assumes "sched_inv_x X k" "t \<in> X" "\<And>p. h \<noteq> ReadyQ p" "th_stat (threads k t) = list_stat h"
  shows "sched_inv_x (X - {t}) (k\<lparr>lists := l_prepend h t (lists k)\<rparr>)"
proof (rule sched_inv_link [OF assms(1,2) _ _ _ assms(3,4)])
  show "wf_lists (l_prepend h t (lists k))"
    by (rule wf_l_prepend [OF sched_invD(1,8) [OF assms(1)]]) (rule assms(2))
qed (auto simp: l_prepend_def)

subsection \<open>Insertion and removal\<close>

lemma mask_bit:
  assumes "started h"
  shows "bit (number_mask h) q \<longleftrightarrow> q = current_priority h"
  using assms by (auto simp: started_def bit_simps)

lemma remove_thread_simps [simp]:
  "threads (rt_schedule_remove_thread t k) = threads k"
  "lists (rt_schedule_remove_thread t k) = l_remove t (lists k)"
  "timers (rt_schedule_remove_thread t k) = timers k"
  "timer_lists (rt_schedule_remove_thread t k) = timer_lists k"
  "current_thread (rt_schedule_remove_thread t k) = current_thread k"
  "lock_nest (rt_schedule_remove_thread t k) = lock_nest k"
  "interrupt_nest (rt_schedule_remove_thread t k) = interrupt_nest k"
  "rt_tick (rt_schedule_remove_thread t k) = rt_tick k"
  "soft_timer_busy (rt_schedule_remove_thread t k) = soft_timer_busy k"
  "timer_thread (rt_schedule_remove_thread t k) = timer_thread k"
  "sems (rt_schedule_remove_thread t k) = sems k"
  "mutexes (rt_schedule_remove_thread t k) = mutexes k"
  "events (rt_schedule_remove_thread t k) = events k"
  "mailboxes (rt_schedule_remove_thread t k) = mailboxes k"
  "mqueues (rt_schedule_remove_thread t k) = mqueues k"
  "mempools (rt_schedule_remove_thread t k) = mempools k"
  "mp_words (rt_schedule_remove_thread t k) = mp_words k"
  "switches (rt_schedule_remove_thread t k) = switches k"
  by (simp_all add: rt_schedule_remove_thread_def Let_def)

lemma sched_inv_remove:
  assumes inv: "sched_inv_x X k" and t: "started (threads k t)"
  shows "sched_inv_x (insert t X) (rt_schedule_remove_thread t k)"
proof (rule sched_invI)
  note I = sched_invD [OF inv]
  let ?k = "rt_schedule_remove_thread t k" and ?p = "current_priority (threads k t)"
  have set_ls: "set (lists ?k h) = set (lists k h) - {t}" for h
    by (simp add: set_l_remove [OF I(1)])
  show "wf_lists (lists ?k)" by (simp add: wf_l_remove [OF I(1)])
  show "bit (ready_group ?k) p \<longleftrightarrow> lists ?k (ReadyQ p) \<noteq> []" if p: "p < 32" for p
  proof (cases "p = ?p")
    case True
    then show ?thesis
      using p I(2) [OF p] by (auto simp: rt_schedule_remove_thread_def Let_def l_isempty_def
          l_remove_def bit_and_iff bit_not_iff mask_bit [OF t])
  next
    case False
    then have "t \<notin> set (lists k (ReadyQ p))" using I(5) by blast
    then have "lists ?k (ReadyQ p) = lists k (ReadyQ p)" by (simp add: l_remove_other)
    moreover have "bit (ready_group ?k) p \<longleftrightarrow> bit (ready_group k) p"
      using p False by (simp add: rt_schedule_remove_thread_def Let_def bit_and_iff bit_not_iff
          mask_bit [OF t])
    ultimately show ?thesis using I(2) [OF p] by simp
  qed
  show "s \<notin> insert t X \<Longrightarrow> th_stat (threads ?k s) = RT_THREAD_READY \<Longrightarrow>
      s \<in> set (lists ?k (ReadyQ (current_priority (threads ?k s))))" for s
    using I(6) by (simp add: set_ls del: remove_thread_simps(2))
  show "s \<in> insert t X \<Longrightarrow> unlinked (lists ?k) s" for s
    using I(8) [of s] by (auto simp: unlinked_def set_ls simp del: remove_thread_simps(2))
  show "s \<in> set (lists ?k h) \<Longrightarrow> th_stat (threads ?k s) = list_stat h" for s h
    using I(4) [of s h] unfolding set_ls by simp
  show "s \<in> set (lists ?k (ReadyQ p)) \<Longrightarrow> current_priority (threads ?k s) = p" for s p
    using I(5) [of s p] unfolding set_ls by simp
qed (use sched_invD(3,7) [OF inv] in simp_all)

lemma insert_thread_simps [simp]:
  "timers (rt_schedule_insert_thread t k) = timers k"
  "timer_lists (rt_schedule_insert_thread t k) = timer_lists k"
  "current_thread (rt_schedule_insert_thread t k) = current_thread k"
  "lock_nest (rt_schedule_insert_thread t k) = lock_nest k"
  "interrupt_nest (rt_schedule_insert_thread t k) = interrupt_nest k"
  "rt_tick (rt_schedule_insert_thread t k) = rt_tick k"
  "soft_timer_busy (rt_schedule_insert_thread t k) = soft_timer_busy k"
  "timer_thread (rt_schedule_insert_thread t k) = timer_thread k"
  "sems (rt_schedule_insert_thread t k) = sems k"
  "mutexes (rt_schedule_insert_thread t k) = mutexes k"
  "events (rt_schedule_insert_thread t k) = events k"
  "mailboxes (rt_schedule_insert_thread t k) = mailboxes k"
  "mqueues (rt_schedule_insert_thread t k) = mqueues k"
  "mempools (rt_schedule_insert_thread t k) = mempools k"
  "mp_words (rt_schedule_insert_thread t k) = mp_words k"
  "switches (rt_schedule_insert_thread t k) = switches k"
  "threads (rt_schedule_insert_thread t k) = (threads k)(t := (threads k t)\<lparr>th_stat :=
     if current_thread k = Some t then RT_THREAD_RUNNING else RT_THREAD_READY\<rparr>)"
  "lists (rt_schedule_insert_thread t k) = (if current_thread k = Some t then lists k
     else l_append (ReadyQ (current_priority (threads k t))) t (lists k))"
  by (simp_all add: rt_schedule_insert_thread_def Let_def)

lemma started_stat [simp]: "started (h\<lparr>th_stat := s\<rparr>) = started h"
  by (simp add: started_def)

lemma sched_inv_insert:
  assumes inv: "sched_inv_x X k" and tX: "t \<in> X" and t: "started (threads k t)"
  shows "sched_inv_x (X - {t}) (rt_schedule_insert_thread t k)"
proof (cases "current_thread k = Some t")
  case True
  have "sched_inv_x (X - {t}) (upd_thread t (\<lambda>h. h\<lparr>th_stat := RT_THREAD_RUNNING\<rparr>) k)"
    by (rule sched_inv_drop [OF sched_inv_upd_exempt]) (use assms True in simp_all)
  then show ?thesis using True by (simp add: rt_schedule_insert_thread_def)
next
  case False
  let ?k = "rt_schedule_insert_thread t k" and ?p = "current_priority (threads k t)"
  note I = sched_invD [OF inv]
  have u: "t \<notin> set (lists k h)" for h using I(8) [OF tX] by (simp add: unlinked_def)
  have ls: "lists ?k = l_append (ReadyQ ?p) t (lists k)" using False by simp
  have st: "s \<in> set (lists ?k g) \<Longrightarrow> s = t \<and> g = ReadyQ ?p \<or> s \<noteq> t \<and> s \<in> set (lists k g)" for s g
    using u [of g] unfolding ls by (auto split: if_splits)
  show ?thesis
  proof (rule sched_invI)
    show "wf_lists (lists ?k)" unfolding ls by (rule wf_l_append [OF I(1) I(8) [OF tX]])
    show "bit (ready_group ?k) p \<longleftrightarrow> lists ?k (ReadyQ p) \<noteq> []" if p: "p < 32" for p
      using I(2) [OF p] False by (auto simp: rt_schedule_insert_thread_def Let_def l_append_def
          bit_or_iff mask_bit [OF t])
    show "s \<in> set (lists ?k h) \<Longrightarrow> th_stat (threads ?k s) = list_stat h" for s h
      using st [of s h] I(4) [of s h] False by auto
    show "s \<in> set (lists ?k (ReadyQ p)) \<Longrightarrow> current_priority (threads ?k s) = p" for s p
      using st [of s "ReadyQ p"] I(5) [of s p] by auto
    show "live (threads ?k s) \<Longrightarrow> started (threads ?k s)" for s
      using I(3) [of s] t by (cases "s = t") auto
    show "s \<notin> X - {t} \<Longrightarrow> th_stat (threads ?k s) = RT_THREAD_READY \<Longrightarrow>
        s \<in> set (lists ?k (ReadyQ (current_priority (threads ?k s))))" for s
      using I(6) [of s] unfolding ls by (cases "s = t") auto
    show "s \<notin> X - {t} \<Longrightarrow> th_stat (threads ?k s) = RT_THREAD_RUNNING \<Longrightarrow>
        current_thread ?k = Some s" for s
      using I(7) [of s] False by (cases "s = t") auto
    show "s \<in> X - {t} \<Longrightarrow> unlinked (lists ?k) s" for s
      using I(8) [of s] unfolding ls by (auto simp: unlinked_def)
  qed
qed

subsection \<open>The choice of the highest ready priority\<close>

lemma get_highest:
  assumes inv: "sched_inv_x X k" and rg: "ready_group k \<noteq> 0"
  obtains t ts p where "scheduler_get_highest_priority_thread k = Some (t, p)" "p < 32"
    "lists k (ReadyQ p) = t # ts" "\<And>q. q < p \<Longrightarrow> lists k (ReadyQ q) = []"
    "th_stat (threads k t) = RT_THREAD_READY" "current_priority (threads k t) = p"
proof -
  let ?p = "rt_ffs (ready_group k) - 1"
  note I = sched_invD [OF inv]
  have p: "?p < 32" using ffs.ffs_le_32 [of "ready_group k"] ffs.ffs_pos [OF rg] by simp
  have "lists k (ReadyQ ?p) \<noteq> []" using I(2) [OF p] ffs.ffs_bit [OF rg] by simp
  then obtain t ts where q: "lists k (ReadyQ ?p) = t # ts" by (cases "lists k (ReadyQ ?p)") auto
  show thesis
  proof (rule that)
    show "scheduler_get_highest_priority_thread k = Some (t, ?p)"
      using q by (simp add: scheduler_get_highest_priority_thread_def Let_def)
    show "lists k (ReadyQ q) = []" if "q < ?p" for q
      using I(2) [of q] p that ffs.ffs_least [OF that] by simp
    show "th_stat (threads k t) = RT_THREAD_READY" using I(4) [of t "ReadyQ ?p"] q by simp
    show "current_priority (threads k t) = ?p" using I(5) [of t ?p] q by simp
  qed (use p q in auto)
qed

lemma remove_thread_unlinked:
  assumes inv: "sched_inv_x X k" and t: "started (threads k t)" and u: "unlinked (lists k) t"
  shows "rt_schedule_remove_thread t k = k"
proof -
  let ?p = "current_priority (threads k t)"
  have "?p < 32" using t by (simp add: started_def)
  then have b: "lists k (ReadyQ ?p) = [] \<Longrightarrow> \<not> bit (ready_group k) ?p"
    using sched_invD(2) [OF inv] by blast
  have "lists k (ReadyQ ?p) = [] \<Longrightarrow> ready_group k AND NOT (number_mask (threads k t)) = ready_group k"
    by (rule bit_word_eqI) (use b in \<open>auto simp: bit_and_iff bit_not_iff mask_bit [OF t]\<close>)
  then show ?thesis using u by (simp add: rt_schedule_remove_thread_def Let_def l_isempty_def)
qed

definition stacks_ok :: "kernel \<Rightarrow> bool" where
  "stacks_ok k \<longleftrightarrow> (\<forall>t. live (threads k t) \<longrightarrow>
     scheduler_stack_check (threads k t) = Some ())"

lemma stack_check_cong [simp]:
  "scheduler_stack_check (h\<lparr>th_stat := s\<rparr>) = scheduler_stack_check h"
  "scheduler_stack_check (h\<lparr>th_yield := y\<rparr>) = scheduler_stack_check h"
  by (simp_all add: scheduler_stack_check_def)

text \<open>The thread that runs on: \<open>rt_schedule\<close> only clears its yield mark.\<close>

definition keeps_running :: "kernel \<Rightarrow> nat \<Rightarrow> nat \<Rightarrow> bool" where
  "keeps_running k c p \<longleftrightarrow> th_stat (threads k c) = RT_THREAD_RUNNING \<and>
     (current_priority (threads k c) < p \<or>
      current_priority (threads k c) = p \<and> \<not> th_yield (threads k c))"

lemma schedule_keep:
  assumes inv: "sched_inv k" and c: "current_thread k = Some c" and l: "lock_nest k = 0"
    and h: "scheduler_get_highest_priority_thread k = Some (t, p)" and rg: "ready_group k \<noteq> 0"
    and kr: "keeps_running k c p"
  shows "rt_schedule k = Some (upd_thread c (\<lambda>h. h\<lparr>th_yield := False, th_stat := RT_THREAD_RUNNING\<rparr>) k)"
    "sched_inv (upd_thread c (\<lambda>h. h\<lparr>th_yield := False, th_stat := RT_THREAD_RUNNING\<rparr>) k)"
proof -
  have r: "th_stat (threads k c) = RT_THREAD_RUNNING" using kr by (simp add: keeps_running_def)
  let ?k = "upd_thread c (\<lambda>h. h\<lparr>th_yield := False\<rparr>) k"
  have i: "sched_inv ?k" by (rule sched_inv_upd [OF inv]) simp_all
  have rm: "rt_schedule_remove_thread c ?k = ?k"
    using sched_invD(3) [OF i, of c] running_unlinked [OF i, of c] r
    by (intro remove_thread_unlinked [OF i]) auto
  show "rt_schedule k = Some (upd_thread c (\<lambda>h. h\<lparr>th_yield := False, th_stat := RT_THREAD_RUNNING\<rparr>) k)"
    using kr l rg h c r rm
    by (simp add: rt_schedule_def keeps_running_def)
  show "sched_inv (upd_thread c (\<lambda>h. h\<lparr>th_yield := False, th_stat := RT_THREAD_RUNNING\<rparr>) k)"
    by (rule sched_inv_upd [OF inv]) (simp_all add: r)
qed

lemma sched_inv_current:
  assumes "sched_inv_x X k" "\<And>s. th_stat (threads k s) = RT_THREAD_RUNNING \<Longrightarrow> s \<in> X"
  shows "sched_inv_x X (k\<lparr>current_thread := a\<rparr>)"
  using assms unfolding sched_inv_x_def by (auto simp del: imp_disjL)

lemma sched_inv_run:
  assumes inv: "sched_inv k" and t: "th_stat (threads k t) = RT_THREAD_READY"
    and c: "current_thread k = Some t"
  shows "sched_inv (upd_thread t (\<lambda>h. h\<lparr>th_stat := RT_THREAD_RUNNING\<rparr>) (rt_schedule_remove_thread t k))"
proof -
  have "started (threads k t)" using sched_invD(3) [OF inv, of t] t by simp
  then have "sched_inv_x {t} (upd_thread t (\<lambda>h. h\<lparr>th_stat := RT_THREAD_RUNNING\<rparr>)
      (rt_schedule_remove_thread t k))"
    using sched_inv_upd_exempt [OF sched_inv_remove [OF inv], of t] by simp
  from sched_inv_drop [OF this, of t] show ?thesis by (simp add: c)
qed

text \<open>The part of \<open>rt_schedule\<close> that hands the CPU from \<open>c\<close> to \<open>t\<close>.\<close>

definition hand_over :: "nat \<Rightarrow> nat \<Rightarrow> nat \<Rightarrow> kernel \<Rightarrow> kernel" where
  "hand_over c t p k =
     (let k' = k\<lparr>current_prio := p mod 256, current_thread := Some t\<rparr>;
          k' = (if th_stat (threads k c) = RT_THREAD_RUNNING then rt_schedule_insert_thread c k' else k')
      in upd_thread t (\<lambda>h. h\<lparr>th_stat := RT_THREAD_RUNNING\<rparr>) (rt_schedule_remove_thread t k'))"

lemma sched_inv_hand_over:
  assumes inv: "sched_inv k" and c: "current_thread k = Some c" and tc: "t \<noteq> c"
    and t: "th_stat (threads k t) = RT_THREAD_READY"
  shows "sched_inv (hand_over c t p k)"
proof -
  have i1: "sched_inv_x X (k\<lparr>current_prio := p mod 256\<rparr>)" if "sched_inv_x X k" for X
    using that by (simp only: sched_inv_frame)
  have only: "s = c" if "th_stat (threads (k\<lparr>current_prio := p mod 256\<rparr>) s) = RT_THREAD_RUNNING" for s
    using sched_invD(7) [OF inv, of s] c that by simp
  let ?k2 = "k\<lparr>current_prio := p mod 256, current_thread := Some t\<rparr>"
  show ?thesis
  proof (cases "th_stat (threads k c) = RT_THREAD_RUNNING")
    case True
    have "sched_inv_x {c} k"
      by (rule sched_inv_exempt [OF inv running_unlinked [OF inv]]) (simp add: True)
    from sched_inv_current [OF i1 [OF this]] only have i2: "sched_inv_x {c} ?k2" by blast
    have "started (threads ?k2 c)" using sched_invD(3) [OF i2, of c] True by simp
    from sched_inv_insert [OF i2 _ this] have i3: "sched_inv (rt_schedule_insert_thread c ?k2)" by simp
    show ?thesis
      using sched_inv_run [OF i3, of t] t tc True by (simp add: hand_over_def Let_def)
  next
    case False
    have "th_stat (threads (k\<lparr>current_prio := p mod 256\<rparr>) s) \<noteq> RT_THREAD_RUNNING" for s
      using only [of s] False by auto
    with sched_inv_current [OF i1 [OF inv]] have i2: "sched_inv ?k2" by blast
    show ?thesis
      using sched_inv_run [OF i2, of t] t False by (simp add: hand_over_def Let_def)
  qed
qed

lemma hand_over_simps:
  assumes "t \<noteq> c"
  shows "current_thread (hand_over c t p k) = Some t"
    "switches (hand_over c t p k) = switches k"
    "interrupt_nest (hand_over c t p k) = interrupt_nest k"
    "threads (hand_over c t p k) = (\<lambda>u. if u = t then (threads k t)\<lparr>th_stat := RT_THREAD_RUNNING\<rparr>
       else if u = c \<and> th_stat (threads k c) = RT_THREAD_RUNNING
       then (threads k c)\<lparr>th_stat := RT_THREAD_READY\<rparr> else threads k u)"
    "lists (hand_over c t p k) = l_remove t (if th_stat (threads k c) = RT_THREAD_RUNNING
       then l_append (ReadyQ (current_priority (threads k c))) c (lists k) else lists k)"
  using assms by (auto simp: hand_over_def Let_def)

lemma schedule_switch:
  assumes inv: "sched_inv k" and c: "current_thread k = Some c" and l: "lock_nest k = 0"
    and h: "scheduler_get_highest_priority_thread k = Some (t, p)" and rg: "ready_group k \<noteq> 0"
    and kr: "\<not> keeps_running k c p" and t: "th_stat (threads k t) = RT_THREAD_READY"
    and st: "scheduler_stack_check (threads k t) = Some ()"
  obtains k' where "rt_schedule k = Some k'" "sched_inv k'" "current_thread k' = Some t"
    "threads k' = (\<lambda>u. if u = t then (threads k t)\<lparr>th_stat := RT_THREAD_RUNNING\<rparr>
       else if u = c \<and> th_stat (threads k c) = RT_THREAD_RUNNING
       then (threads k c)\<lparr>th_yield := False, th_stat := RT_THREAD_READY\<rparr> else threads k u)"
    "switches k' = switches k @ (if t = c then [] else
       [if interrupt_nest k = 0 then Switch c t else Switch_Interrupt c t])"
    "lists k' = l_remove t (if th_stat (threads k c) = RT_THREAD_RUNNING
       then l_append (ReadyQ (current_priority (threads k c))) c (lists k) else lists k)"
proof (cases "t = c")
  case True
  let ?k = "upd_thread c (\<lambda>h. h\<lparr>th_stat := RT_THREAD_RUNNING\<rparr>) (rt_schedule_remove_thread c k)"
  have "th_stat (threads k c) \<noteq> RT_THREAD_RUNNING" using t True by simp
  moreover have "sched_inv ?k" using sched_inv_run [OF inv t] c True by simp
  ultimately show thesis
    using c l h rg kr t True
    by (intro that [of ?k]) (auto simp: rt_schedule_def keeps_running_def)
next
  case tc: False
  let ?run = "th_stat (threads k c) = RT_THREAD_RUNNING"
  obtain k1 where k1: "k1 = (if ?run then upd_thread c (\<lambda>h. h\<lparr>th_yield := False\<rparr>) k else k)"
    by simp
  have i1: "sched_inv k1" using inv sched_inv_upd [OF inv] by (simp add: k1)
  have f: "current_thread k1 = Some c" "switches k1 = switches k" "interrupt_nest k1 = interrupt_nest k"
    "threads k1 t = threads k t" "th_stat (threads k1 c) = th_stat (threads k c)"
    "current_priority (threads k1 c) = current_priority (threads k c)" "lists k1 = lists k"
    using c tc by (simp_all add: k1)
  let ?k = "hand_over c t p k1"
  let ?k5 = "?k\<lparr>switches := switches ?k @ [if interrupt_nest ?k = 0 then Switch c t else Switch_Interrupt c t]\<rparr>"
  show thesis
  proof (rule that [of ?k5])
    have nk: "(?run \<and> (current_priority (threads k c) < p \<or>
        current_priority (threads k c) = p \<and> \<not> th_yield (threads k c))) = False"
      using kr by (simp add: keeps_running_def)
    show "rt_schedule k = Some ?k5"
      unfolding rt_schedule_def Let_def c h bind.bind_lunit prod.case nk using l rg st tc
      by (cases ?run) (simp_all add: k1 hand_over_def Let_def)
    have "sched_inv ?k" using sched_inv_hand_over [OF i1 f(1) tc] t f(4) by simp
    then show "sched_inv ?k5" by (simp only: sched_inv_frame)
  qed (use tc in \<open>simp_all add: hand_over_simps f, simp add: fun_eq_iff k1\<close>)
qed

subsection \<open>What \<open>rt_schedule\<close> guarantees\<close>

text \<open>Only the scheduler's own part of the state changes, whatever the state is.\<close>

lemma rt_schedule_frame:
  assumes "rt_schedule k = Some k'"
  shows "timers k' = timers k" "timer_lists k' = timer_lists k" "lock_nest k' = lock_nest k"
    "interrupt_nest k' = interrupt_nest k" "rt_tick k' = rt_tick k"
    "soft_timer_busy k' = soft_timer_busy k" "timer_thread k' = timer_thread k"
    "sems k' = sems k" "mutexes k' = mutexes k" "events k' = events k" "mailboxes k' = mailboxes k"
    "mqueues k' = mqueues k" "mempools k' = mempools k" "mp_words k' = mp_words k"
  using assms
  by (auto simp: rt_schedule_def Let_def option_simps split: if_splits prod.splits)

lemma rt_schedule_noop: "lock_nest k \<noteq> 0 \<or> ready_group k = 0 \<Longrightarrow> rt_schedule k = Some k"
  by (auto simp: rt_schedule_def)

definition sched_ok :: "kernel \<Rightarrow> bool" where
  "sched_ok k \<longleftrightarrow> sched_inv k \<and> stacks_ok k \<and> current_thread k \<noteq> None"

text \<open>What changes in a thread when the CPU is handed over: its state and its yield mark.\<close>

definition same_tcb :: "thread \<Rightarrow> thread \<Rightarrow> bool" where
  "same_tcb h h' \<longleftrightarrow> (\<exists>y s. h' = h\<lparr>th_yield := y, th_stat := s\<rparr> \<and>
     (h' \<noteq> h \<longrightarrow> th_stat h \<in> {RT_THREAD_READY, RT_THREAD_RUNNING} \<and> s \<in> {RT_THREAD_READY, RT_THREAD_RUNNING}))"

lemma same_tcb_refl [simp]: "same_tcb h h"
  unfolding same_tcb_def by (rule exI [of _ "th_yield h"], rule exI [of _ "th_stat h"]) simp

lemma same_tcb_upd:
  assumes "th_stat h \<in> {RT_THREAD_READY, RT_THREAD_RUNNING}" "s \<in> {RT_THREAD_READY, RT_THREAD_RUNNING}"
  shows "same_tcb h (h\<lparr>th_stat := s\<rparr>)" "same_tcb h (h\<lparr>th_yield := y, th_stat := s\<rparr>)"
proof -
  show "same_tcb h (h\<lparr>th_yield := y, th_stat := s\<rparr>)" for y
    using assms unfolding same_tcb_def by blast
  from this [of "th_yield h"] show "same_tcb h (h\<lparr>th_stat := s\<rparr>)" by simp
qed

lemma same_tcbD:
  assumes "same_tcb h h'"
  shows "current_priority h' = current_priority h" "number_mask h' = number_mask h"
    "th_error h' = th_error h" "event_set h' = event_set h" "event_info h' = event_info h"
    "remaining_tick h' = remaining_tick h" "th_init_tick h' = th_init_tick h"
    "scheduler_stack_check h' = scheduler_stack_check h"
    "th_stat h \<notin> {RT_THREAD_READY, RT_THREAD_RUNNING} \<Longrightarrow> h' = h"
    "th_stat h' \<notin> {RT_THREAD_READY, RT_THREAD_RUNNING} \<Longrightarrow> h' = h"
proof -
  obtain y s where e: "h' = h\<lparr>th_yield := y, th_stat := s\<rparr>"
    and d: "h' \<noteq> h \<Longrightarrow> th_stat h \<in> {RT_THREAD_READY, RT_THREAD_RUNNING} \<and> s \<in> {RT_THREAD_READY, RT_THREAD_RUNNING}"
    using assms unfolding same_tcb_def by blast
  show "current_priority h' = current_priority h" "number_mask h' = number_mask h"
    "th_error h' = th_error h" "event_set h' = event_set h" "event_info h' = event_info h"
    "remaining_tick h' = remaining_tick h" "th_init_tick h' = th_init_tick h"
    "scheduler_stack_check h' = scheduler_stack_check h"
    by (simp_all add: e scheduler_stack_check_def)
  show "h' = h" if "th_stat h \<notin> {RT_THREAD_READY, RT_THREAD_RUNNING}" using d that by blast
  have "th_stat h' = s" by (simp add: e)
  then show "h' = h" if "th_stat h' \<notin> {RT_THREAD_READY, RT_THREAD_RUNNING}" using d that by blast
qed

lemma stacks_ok_same:
  assumes "stacks_ok k" "\<And>t. same_tcb (threads k t) (threads k' t)"
  shows "stacks_ok k'"
  unfolding stacks_ok_def
proof (intro allI impI)
  fix t assume "live (threads k' t)"
  then have "live (threads k t)" using same_tcbD(9) [OF assms(2) [of t]] by auto
  then show "scheduler_stack_check (threads k' t) = Some ()"
    using assms(1) same_tcbD(8) [OF assms(2) [of t]] by (simp add: stacks_ok_def)
qed

text \<open>
  Called with the scheduler unlocked and something ready to run, \<open>rt_schedule\<close> returns, keeps
  the invariant and leaves a running thread that no ready thread beats.
\<close>

lemma schedule_works:
  assumes ok: "sched_ok k" and l: "lock_nest k = 0" and rg: "ready_group k \<noteq> 0"
  obtains k' c where "rt_schedule k = Some k'" "sched_ok k'" "current_thread k' = Some c"
    "th_stat (threads k' c) = RT_THREAD_RUNNING"
    "\<And>t. th_stat (threads k' t) = RT_THREAD_READY \<Longrightarrow>
       current_priority (threads k' c) \<le> current_priority (threads k' t)"
    "\<And>t. same_tcb (threads k t) (threads k' t)"
proof -
  have inv: "sched_inv k" and st: "stacks_ok k" using ok by (auto simp: sched_ok_def)
  obtain c where c: "current_thread k = Some c" using ok by (auto simp: sched_ok_def)
  note I = sched_invD [OF inv]
  obtain t ts p where h: "scheduler_get_highest_priority_thread k = Some (t, p)" "p < 32"
      "lists k (ReadyQ p) = t # ts" "\<And>q. q < p \<Longrightarrow> lists k (ReadyQ q) = []"
      "th_stat (threads k t) = RT_THREAD_READY" "current_priority (threads k t) = p"
    by (rule get_highest [OF inv rg]) (rule that)
  have low: "p \<le> current_priority (threads k u)" if "th_stat (threads k u) = RT_THREAD_READY" for u
    using I(6) [of u] that h(4) by (metis empty_iff list.set(1) not_less)
  show thesis
  proof (cases "keeps_running k c p")
    case True
    let ?k = "upd_thread c (\<lambda>h. h\<lparr>th_yield := False, th_stat := RT_THREAD_RUNNING\<rparr>) k"
    note sk = schedule_keep [OF inv c l h(1) rg True]
    have run: "th_stat (threads k c) = RT_THREAD_RUNNING" "current_priority (threads k c) \<le> p"
      using True by (auto simp: keeps_running_def)
    have same: "same_tcb (threads k u) (threads ?k u)" for u
      using same_tcb_upd(2) [of "threads k c" RT_THREAD_RUNNING] run by simp
    show thesis
    proof (rule that [OF sk(1)])
      show "sched_ok ?k" using sk(2) c stacks_ok_same [OF st same] by (simp add: sched_ok_def)
      show "current_priority (threads ?k c) \<le> current_priority (threads ?k u)"
        if "th_stat (threads ?k u) = RT_THREAD_READY" for u
        using low [of u] that run by (auto split: if_splits)
    qed (use c same in simp_all)
  next
    case False
    have stt: "scheduler_stack_check (threads k t) = Some ()" using st h(5) by (simp add: stacks_ok_def)
    obtain k' where s: "rt_schedule k = Some k'" "sched_inv k'" "current_thread k' = Some t"
      "threads k' = (\<lambda>u. if u = t then (threads k t)\<lparr>th_stat := RT_THREAD_RUNNING\<rparr>
         else if u = c \<and> th_stat (threads k c) = RT_THREAD_RUNNING
         then (threads k c)\<lparr>th_yield := False, th_stat := RT_THREAD_READY\<rparr> else threads k u)"
      "switches k' = switches k @ (if t = c then [] else
         [if interrupt_nest k = 0 then Switch c t else Switch_Interrupt c t])"
      "lists k' = l_remove t (if th_stat (threads k c) = RT_THREAD_RUNNING
         then l_append (ReadyQ (current_priority (threads k c))) c (lists k) else lists k)"
      by (rule schedule_switch [OF inv c l h(1) rg False h(5) stt]) (rule that)
    have same: "same_tcb (threads k u) (threads k' u)" for u
      using h(5) same_tcb_upd by (simp add: s(4))
    have cp: "p \<le> current_priority (threads k c)" if "th_stat (threads k c) = RT_THREAD_RUNNING"
      using False that by (auto simp: keeps_running_def)
    show thesis
    proof (rule that [OF s(1) _ s(3)])
      show "sched_ok k'" using s(2,3) stacks_ok_same [OF st same] by (simp add: sched_ok_def)
      show "current_priority (threads k' t) \<le> current_priority (threads k' u)"
        if "th_stat (threads k' u) = RT_THREAD_READY" for u
        using low [of u] that cp h(6) by (auto simp: s(4) split: if_splits)
    qed (use same in \<open>simp_all add: s(4)\<close>)
  qed
qed

lemma schedule_ok:
  assumes "sched_ok k"
  obtains k' where "rt_schedule k = Some k'" "sched_ok k'"
    "\<And>t. same_tcb (threads k t) (threads k' t)"
proof (cases "lock_nest k = 0 \<and> ready_group k \<noteq> 0")
  case True
  then show thesis using schedule_works [OF assms] that by metis
next
  case False
  then show thesis using rt_schedule_noop [of k] assms that [of k] by auto
qed

text \<open>Scheduling moves threads between ready queues only.\<close>

lemma schedule_lists:
  assumes ok: "sched_ok k" and s: "rt_schedule k = Some k'" and h: "\<not> is_ready h"
  shows "lists k' h = lists k h"
proof (cases "lock_nest k = 0 \<and> ready_group k \<noteq> 0")
  case False
  then show ?thesis using rt_schedule_noop [of k] s by auto
next
  case True
  have inv: "sched_inv k" and st: "stacks_ok k" using ok by (auto simp: sched_ok_def)
  obtain c where c: "current_thread k = Some c" using ok by (auto simp: sched_ok_def)
  obtain t ts p where t: "scheduler_get_highest_priority_thread k = Some (t, p)" "p < 32"
      "lists k (ReadyQ p) = t # ts" "\<And>q. q < p \<Longrightarrow> lists k (ReadyQ q) = []"
      "th_stat (threads k t) = RT_THREAD_READY" "current_priority (threads k t) = p"
    by (rule get_highest [OF inv]) (use True in simp, rule that)
  show ?thesis
  proof (cases "keeps_running k c p")
    case kr: True
    then show ?thesis using schedule_keep(1) [OF inv c _ t(1) _ kr] True s by simp
  next
    case kr: False
    have stt: "scheduler_stack_check (threads k t) = Some ()" using st t(5) by (simp add: stacks_ok_def)
    have "t \<notin> set (lists k h)" using sched_invD(4) [OF inv, of t h] t(5) h by (cases h) auto
    moreover obtain k1 where "rt_schedule k = Some k1"
      "lists k1 = l_remove t (if th_stat (threads k c) = RT_THREAD_RUNNING
         then l_append (ReadyQ (current_priority (threads k c))) c (lists k) else lists k)"
      by (rule schedule_switch [OF inv c _ t(1) _ kr t(5) stt]) (use True in simp_all)
    moreover have "l_append (ReadyQ q) c (lists k) h = lists k h" for q
      using h by (auto simp: l_append_def)
    ultimately show ?thesis using s by (auto simp: l_remove_def remove1_idem)
  qed
qed

end
