(* ===== verification/Timer.thy ===== *)
theory Timer
  imports Scheduler
begin

text \<open>
  \<open>src/timer.c\<close> with its one-level list (\<open>RT_TIMER_SKIP_LIST_LEVEL\<close> is 1), hard and soft timers,
  and the two operations of \<open>src/thread.c\<close> it shares the thread timers with: suspending and
  resuming a thread. A timeout function is the kernel's \<open>_thread_timeout\<close> or a function of the
  application, which the definitions take as the parameter \<open>cb\<close>. Ticks are 32-bit words and
  differences wrap, as in C; \<open>RT_TICK_MAX / 2\<close> is \<open>0x7fffffff\<close>.
\<close>

subsection \<open>Timer objects\<close>

abbreviation (input) TICK_HALF :: u32 where "TICK_HALF \<equiv> 0x7fffffff"

abbreviation (input) flag_periodic :: "byte \<Rightarrow> bool" where "flag_periodic f \<equiv> bit f 1"
abbreviation (input) flag_soft :: "byte \<Rightarrow> bool" where "flag_soft f \<equiv> bit f 2"

definition timer_init_fields :: "timeout_func \<Rightarrow> u32 \<Rightarrow> byte \<Rightarrow> timer" where
  "timer_init_fields f time flag =
     \<lparr>tm_activated = False, tm_periodic = flag_periodic flag, tm_soft = flag_soft flag,
      timeout_func = f, tm_init_tick = time, timeout_tick = 0\<rparr>"

definition rt_timer_init :: "timer_id \<Rightarrow> timeout_func \<Rightarrow> u32 \<Rightarrow> byte \<Rightarrow> kernel \<Rightarrow> kernel option" where
  "rt_timer_init t f time flag k = do {
     _ \<leftarrow> rt_assert (time < TICK_HALF);
     Some (upd_timer t (\<lambda>_. timer_init_fields f time flag) k) }"

definition rt_timer_create ::
  "timer_id option \<Rightarrow> timeout_func \<Rightarrow> u32 \<Rightarrow> byte \<Rightarrow> kernel \<Rightarrow> (timer_id option \<times> kernel) option" where
  "rt_timer_create obj f time flag k = do {
     _ \<leftarrow> rt_assert (time < TICK_HALF);
     Some (case obj of
         None \<Rightarrow> (None, k)
       | Some t \<Rightarrow> (Some t, upd_timer t (\<lambda>_. timer_init_fields f time flag) k)) }"

definition timer_list_next_timeout :: "thead \<Rightarrow> kernel \<Rightarrow> int \<times> u32 option" where
  "timer_list_next_timeout h k =
     (case timer_lists k h of
        [] \<Rightarrow> (- RT_ERROR, None)
      | t # _ \<Rightarrow> (RT_EOK, Some (timeout_tick (timers k t))))"

definition rt_timer_next_timeout_tick :: "kernel \<Rightarrow> u32" where
  "rt_timer_next_timeout_tick k =
     (case snd (timer_list_next_timeout HardTimers k) of None \<Rightarrow> 0xffffffff | Some n \<Rightarrow> n)"

definition timer_remove :: "timer_id \<Rightarrow> kernel \<Rightarrow> kernel" where
  "timer_remove t k = k\<lparr>timer_lists := l_remove t (timer_lists k)\<rparr>"

definition timer_deactivate :: "timer_id \<Rightarrow> kernel \<Rightarrow> kernel" where
  "timer_deactivate t k = upd_timer t (\<lambda>m. m\<lparr>tm_activated := False\<rparr>) k"

definition rt_timer_detach :: "timer_id \<Rightarrow> kernel \<Rightarrow> kernel" where
  "rt_timer_detach t k = timer_deactivate t (timer_remove t k)"

definition rt_timer_delete :: "timer_id \<Rightarrow> kernel \<Rightarrow> kernel" where
  "rt_timer_delete t k = timer_deactivate t (timer_remove t k)"

definition rt_timer_stop :: "timer_id \<Rightarrow> kernel \<Rightarrow> int \<times> kernel" where
  "rt_timer_stop t k =
     (if \<not> tm_activated (timers k t) then (- RT_ERROR, k)
      else (RT_EOK, timer_deactivate t (timer_remove t k)))"

datatype timer_cmd = RT_TIMER_CTRL_SET_TIME u32 | RT_TIMER_CTRL_GET_TIME
  | RT_TIMER_CTRL_SET_ONESHOT | RT_TIMER_CTRL_SET_PERIODIC | RT_TIMER_CTRL_GET_STATE
  | RT_TIMER_CTRL_GET_REMAIN_TIME | RT_TIMER_CTRL_OTHER

text \<open>
  The second component is what is stored at \<open>arg\<close>. The case \<open>GET_STATE\<close> has no \<open>break\<close>: its value
  is overwritten by the next case.
\<close>

definition rt_timer_control :: "timer_id \<Rightarrow> timer_cmd \<Rightarrow> kernel \<Rightarrow> (int \<times> u32 option \<times> kernel) option" where
  "rt_timer_control t cmd k =
     (case cmd of
        RT_TIMER_CTRL_GET_TIME \<Rightarrow> Some (RT_EOK, Some (tm_init_tick (timers k t)), k)
      | RT_TIMER_CTRL_SET_TIME n \<Rightarrow> do {
          _ \<leftarrow> rt_assert (n < TICK_HALF);
          Some (RT_EOK, None, upd_timer t (\<lambda>m. m\<lparr>tm_init_tick := n\<rparr>) k) }
      | RT_TIMER_CTRL_SET_ONESHOT \<Rightarrow>
          Some (RT_EOK, None, upd_timer t (\<lambda>m. m\<lparr>tm_periodic := False\<rparr>) k)
      | RT_TIMER_CTRL_SET_PERIODIC \<Rightarrow>
          Some (RT_EOK, None, upd_timer t (\<lambda>m. m\<lparr>tm_periodic := True\<rparr>) k)
      | RT_TIMER_CTRL_GET_STATE \<Rightarrow>
          (let arg = (if tm_activated (timers k t) then 1 else 0 :: u32);
               arg = timeout_tick (timers k t)
           in Some (RT_EOK, Some arg, k))
      | RT_TIMER_CTRL_GET_REMAIN_TIME \<Rightarrow> Some (RT_EOK, Some (timeout_tick (timers k t)), k)
      | RT_TIMER_CTRL_OTHER \<Rightarrow> Some (RT_EOK, None, k))"

subsection \<open>Suspending and resuming threads (thread.c)\<close>

definition rt_thread_suspend :: "nat \<Rightarrow> kernel \<Rightarrow> (int \<times> kernel) option" where
  "rt_thread_suspend t k = do {
     _ \<leftarrow> rt_assert (current_thread k = Some t);
     if th_stat (threads k t) \<noteq> RT_THREAD_READY \<and> th_stat (threads k t) \<noteq> RT_THREAD_RUNNING
     then Some (- RT_ERROR, k)
     else
       let k = rt_schedule_remove_thread t k;
           k = upd_thread t (\<lambda>h. h\<lparr>th_stat := RT_THREAD_SUSPEND\<rparr>) k;
           k = snd (rt_timer_stop (Thread_Timer t) k)
       in Some (RT_EOK, k) }"

definition rt_thread_resume :: "nat \<Rightarrow> kernel \<Rightarrow> int \<times> kernel" where
  "rt_thread_resume t k =
     (if th_stat (threads k t) \<noteq> RT_THREAD_SUSPEND then (- RT_ERROR, k)
      else
        let k = k\<lparr>lists := l_remove t (lists k)\<rparr>;
            k = snd (rt_timer_stop (Thread_Timer t) k);
            k = rt_schedule_insert_thread t k
        in (RT_EOK, k))"

subsection \<open>Starting a timer\<close>

text \<open>
  The walk of \<open>rt_timer_start\<close> over the list: past timers with the same timeout, past timers that
  are not after the new one, and the insertion where it stops.
\<close>

fun timer_insert :: "(timer_id \<Rightarrow> u32) \<Rightarrow> timer_id \<Rightarrow> timer_id list \<Rightarrow> timer_id list" where
  "timer_insert tick n [] = [n]"
| "timer_insert tick n (t # ts) =
     (if tick t - tick n = 0 then t # timer_insert tick n ts
      else if tick t - tick n < TICK_HALF then n # t # ts
      else t # timer_insert tick n ts)"

definition timer_link :: "timer_id \<Rightarrow> kernel \<Rightarrow> kernel" where
  "timer_link t k =
     (let h = (if tm_soft (timers k t) then SoftTimers else HardTimers)
      in k\<lparr>timer_lists := (timer_lists k)
             (h := timer_insert (\<lambda>s. timeout_tick (timers k s)) t (timer_lists k h))\<rparr>)"

definition rt_timer_start :: "timer_id \<Rightarrow> kernel \<Rightarrow> (int \<times> kernel) option" where
  "rt_timer_start t k =
     (let k = timer_remove t k;
          k = timer_deactivate t k;
          k = upd_timer t (\<lambda>m. m\<lparr>timeout_tick := rt_tick k + tm_init_tick m\<rparr>) k;
          k = timer_link t k;
          k = upd_timer t (\<lambda>m. m\<lparr>tm_activated := True\<rparr>) k;
          need_schedule = (tm_soft (timers k t) \<and> \<not> soft_timer_busy k \<and>
            th_stat (threads k (timer_thread k)) = RT_THREAD_SUSPEND);
          k = (if need_schedule then snd (rt_thread_resume (timer_thread k) k) else k)
      in do {
        k \<leftarrow> (if need_schedule then rt_schedule k else Some k);
        Some (RT_EOK, k) })"

subsection \<open>Timeouts\<close>

definition thread_timeout :: "nat \<Rightarrow> kernel \<Rightarrow> kernel option" where
  "thread_timeout t k = do {
     _ \<leftarrow> rt_assert (th_stat (threads k t) = RT_THREAD_SUSPEND);
     let k = upd_thread t (\<lambda>h. h\<lparr>th_error := - RT_ETIMEOUT\<rparr>) k;
     let k = k\<lparr>lists := l_remove t (lists k)\<rparr>;
     let k = rt_schedule_insert_thread t k;
     rt_schedule k }"

definition call_timeout_func ::
  "(nat \<Rightarrow> kernel \<Rightarrow> kernel option) \<Rightarrow> timeout_func \<Rightarrow> kernel \<Rightarrow> kernel option" where
  "call_timeout_func cb f k =
     (case f of Thread_Timeout t \<Rightarrow> thread_timeout t k | Timer_Callback n \<Rightarrow> cb n k)"

text \<open>
  The loops of \<open>rt_timer_check\<close> and \<open>rt_soft_timer_check\<close>, with the number of rounds as fuel: a
  periodic timer of zero ticks keeps them busy forever.
\<close>

definition timer_expired :: "u32 \<Rightarrow> timer \<Rightarrow> bool" where
  "timer_expired current_tick m \<longleftrightarrow> current_tick - timeout_tick m < TICK_HALF"

definition timer_after_func :: "thead \<Rightarrow> timer_id \<Rightarrow> kernel \<Rightarrow> kernel option" where
  "timer_after_func local t k =
     (if l_isempty local (timer_lists k) then Some k
      else
        let k = timer_remove t k in
        if tm_periodic (timers k t) \<and> tm_activated (timers k t)
        then map_option snd (rt_timer_start t (timer_deactivate t k))
        else Some k)"

definition timer_before_func :: "thead \<Rightarrow> timer_id \<Rightarrow> kernel \<Rightarrow> kernel" where
  "timer_before_func local t k =
     (let k = timer_remove t k;
          k = (if \<not> tm_periodic (timers k t) then timer_deactivate t k else k)
      in k\<lparr>timer_lists := l_prepend local t (timer_lists k)\<rparr>)"

fun timer_check_loop ::
  "(nat \<Rightarrow> kernel \<Rightarrow> kernel option) \<Rightarrow> nat \<Rightarrow> u32 \<Rightarrow> kernel \<Rightarrow> kernel option" where
  "timer_check_loop cb 0 current_tick k = None"
| "timer_check_loop cb (Suc fuel) current_tick k =
     (case timer_lists k HardTimers of
        [] \<Rightarrow> Some k
      | t # _ \<Rightarrow>
          if timer_expired current_tick (timers k t) then do {
            let k = timer_before_func HardLocal t k;
            k \<leftarrow> call_timeout_func cb (timeout_func (timers k t)) k;
            let current_tick = rt_tick k;
            k \<leftarrow> timer_after_func HardLocal t k;
            timer_check_loop cb fuel current_tick k
          } else Some k)"

definition rt_timer_check ::
  "(nat \<Rightarrow> kernel \<Rightarrow> kernel option) \<Rightarrow> nat \<Rightarrow> kernel \<Rightarrow> kernel option" where
  "rt_timer_check cb fuel k = timer_check_loop cb fuel (rt_tick k) k"

fun rt_soft_timer_check ::
  "(nat \<Rightarrow> kernel \<Rightarrow> kernel option) \<Rightarrow> nat \<Rightarrow> kernel \<Rightarrow> kernel option" where
  "rt_soft_timer_check cb 0 k = None"
| "rt_soft_timer_check cb (Suc fuel) k =
     (case timer_lists k SoftTimers of
        [] \<Rightarrow> Some k
      | t # _ \<Rightarrow>
          if timer_expired (rt_tick k) (timers k t) then do {
            let k = timer_before_func SoftLocal t k;
            let k = k\<lparr>soft_timer_busy := True\<rparr>;
            k \<leftarrow> call_timeout_func cb (timeout_func (timers k t)) k;
            let k = k\<lparr>soft_timer_busy := False\<rparr>;
            k \<leftarrow> timer_after_func SoftLocal t k;
            rt_soft_timer_check cb fuel k
          } else Some k)"

definition rt_system_timer_init :: "kernel \<Rightarrow> kernel" where
  "rt_system_timer_init k = k\<lparr>timer_lists := (timer_lists k)(HardTimers := [])\<rparr>"

subsection \<open>What the timer operations leave alone\<close>

lemma timer_remove_simps [simp]:
  "threads (timer_remove t k) = threads k" "timers (timer_remove t k) = timers k"
  "lists (timer_remove t k) = lists k" "timer_lists (timer_remove t k) = l_remove t (timer_lists k)"
  "ready_group (timer_remove t k) = ready_group k" "current_thread (timer_remove t k) = current_thread k"
  "lock_nest (timer_remove t k) = lock_nest k" "interrupt_nest (timer_remove t k) = interrupt_nest k"
  "rt_tick (timer_remove t k) = rt_tick k" "soft_timer_busy (timer_remove t k) = soft_timer_busy k"
  "timer_thread (timer_remove t k) = timer_thread k" "sems (timer_remove t k) = sems k"
  "mutexes (timer_remove t k) = mutexes k" "events (timer_remove t k) = events k"
  "mailboxes (timer_remove t k) = mailboxes k"
  "mqueues (timer_remove t k) = mqueues k"
  "mempools (timer_remove t k) = mempools k"
  "mp_words (timer_remove t k) = mp_words k"
  "switches (timer_remove t k) = switches k"
  by (simp_all add: timer_remove_def)

lemma timer_stop_simps [simp]:
  "threads (snd (rt_timer_stop t k)) = threads k"
  "timers (snd (rt_timer_stop t k)) = (timers k)(t := (timers k t)\<lparr>tm_activated := False\<rparr>)"
  "lists (snd (rt_timer_stop t k)) = lists k"
  "timer_lists (snd (rt_timer_stop t k)) =
     (if tm_activated (timers k t) then l_remove t (timer_lists k) else timer_lists k)"
  "ready_group (snd (rt_timer_stop t k)) = ready_group k"
  "current_thread (snd (rt_timer_stop t k)) = current_thread k"
  "lock_nest (snd (rt_timer_stop t k)) = lock_nest k"
  "interrupt_nest (snd (rt_timer_stop t k)) = interrupt_nest k"
  "rt_tick (snd (rt_timer_stop t k)) = rt_tick k"
  "soft_timer_busy (snd (rt_timer_stop t k)) = soft_timer_busy k"
  "timer_thread (snd (rt_timer_stop t k)) = timer_thread k"
  "sems (snd (rt_timer_stop t k)) = sems k"
  "mutexes (snd (rt_timer_stop t k)) = mutexes k"
  "events (snd (rt_timer_stop t k)) = events k"
  "mailboxes (snd (rt_timer_stop t k)) = mailboxes k"
  "mqueues (snd (rt_timer_stop t k)) = mqueues k"
  "mempools (snd (rt_timer_stop t k)) = mempools k"
  "mp_words (snd (rt_timer_stop t k)) = mp_words k"
  "switches (snd (rt_timer_stop t k)) = switches k"
  by (auto simp: rt_timer_stop_def timer_deactivate_def fun_eq_iff)

lemma sched_inv_timer_ops [simp]:
  "sched_inv_x X (timer_remove t k) = sched_inv_x X k"
  "sched_inv_x X (timer_deactivate t k) = sched_inv_x X k"
  "sched_inv_x X (snd (rt_timer_stop t k)) = sched_inv_x X k"
  "sched_inv_x X (timer_link t k) = sched_inv_x X k"
  by (simp_all add: timer_remove_def timer_deactivate_def rt_timer_stop_def timer_link_def Let_def)

lemma set_timer_insert [simp]: "set (timer_insert tick n ts) = insert n (set ts)"
  by (induction ts) auto

lemma distinct_timer_insert: "distinct ts \<Longrightarrow> n \<notin> set ts \<Longrightarrow> distinct (timer_insert tick n ts)"
  by (induction ts) auto

subsection \<open>The order of a timer list\<close>

text \<open>
  Timeouts wrap, so a list is ordered as seen from a base tick: every timeout lies in the half
  turn after the base, and the distances from the base do not decrease along the list.
\<close>

definition ordered_from :: "u32 \<Rightarrow> (timer_id \<Rightarrow> u32) \<Rightarrow> timer_id list \<Rightarrow> bool" where
  "ordered_from b tick ts \<longleftrightarrow>
     (\<forall>t \<in> set ts. tick t - b < TICK_HALF) \<and> sorted_wrt (\<lambda>s t. tick s - b \<le> tick t - b) ts"

lemma tick_compare:
  fixes x y b :: u32
  assumes "x - b < TICK_HALF" "y - b < TICK_HALF"
  shows "x - y = 0 \<or> x - y < TICK_HALF \<longleftrightarrow> y - b \<le> x - b"
proof -
  have e: "x - y = (x - b) - (y - b)" by simp
  obtain m where m: "x - b = m" by blast
  obtain n where n: "y - b = n" by blast
  have un: "unat m < 2 ^ 31 - 1" "unat n < 2 ^ 31 - 1"
    using assms m n by (simp_all add: word_less_nat_alt)
  show ?thesis
  proof (cases "n \<le> m")
    case True
    then have "m - n \<le> m" by (simp add: word_le_nat_alt unat_sub)
    then have "m - n < TICK_HALF" using assms(1) m by simp
    then show ?thesis using True by (simp add: e m n)
  next
    case False
    then have "unat (m - n) = unat m + 2 ^ 32 - unat n"
      by (simp add: unat_sub_if_size word_le_nat_alt word_size)
    moreover have "unat m < unat n" using False by (simp add: word_le_nat_alt)
    ultimately have "\<not> unat (m - n) < 2 ^ 31 - 1" using un by simp
    then have "\<not> m - n < TICK_HALF" by (simp add: word_less_nat_alt)
    moreover have "m - n \<noteq> 0" using False by simp
    ultimately show ?thesis using False by (simp add: e m n)
  qed
qed

text \<open>
  A new timer goes before the first timer that times out after it: the list stays ordered, and
  among equal timeouts the one started first stays first.
\<close>

lemma timer_insert_split:
  assumes "ordered_from b tick ts" "tick n - b < TICK_HALF"
  obtains us vs where "ts = us @ vs" "timer_insert tick n ts = us @ n # vs"
    "\<forall>t \<in> set us. tick t - b \<le> tick n - b" "\<forall>t \<in> set vs. tick n - b < tick t - b"
  using assms
proof (induction ts arbitrary: thesis)
  case Nil
  then show thesis by (auto intro: Nil(1) [of "[]" "[]"])
next
  case (Cons t ts)
  have o: "ordered_from b tick ts" using Cons.prems(2) by (simp add: ordered_from_def)
  have tb: "tick t - b < TICK_HALF" using Cons.prems(2) by (simp add: ordered_from_def)
  note cmp = tick_compare [OF tb Cons.prems(3)]
  show thesis
  proof (cases "tick n - b < tick t - b")
    case True
    then have "tick t \<noteq> tick n" "tick t - tick n < TICK_HALF" using cmp by auto
    then have "timer_insert tick n (t # ts) = [] @ n # t # ts" by simp
    moreover have "\<forall>s \<in> set (t # ts). tick n - b < tick s - b"
      using True Cons.prems(2) by (auto simp: ordered_from_def)
    ultimately show thesis using Cons.prems(1) [of "[]" "t # ts"] by simp
  next
    case False
    then have le: "tick t - b \<le> tick n - b" by simp
    have step: "timer_insert tick n (t # ts) = t # timer_insert tick n ts"
    proof (cases "tick t - tick n = 0")
      case True
      then show ?thesis by simp
    next
      case ne: False
      have "\<not> tick t - tick n < TICK_HALF"
      proof
        assume "tick t - tick n < TICK_HALF"
        then have "tick n - b \<le> tick t - b" using cmp by blast
        then have "tick n - b = tick t - b" using le by simp
        then show False using ne by simp
      qed
      then show ?thesis using ne by simp
    qed
    obtain us vs where "ts = us @ vs" "timer_insert tick n ts = us @ n # vs"
      "\<forall>t \<in> set us. tick t - b \<le> tick n - b" "\<forall>t \<in> set vs. tick n - b < tick t - b"
      using Cons.IH [OF _ o Cons.prems(3)] by blast
    then show thesis using Cons.prems(1) [of "t # us" vs] step le by simp
  qed
qed

lemma timer_insert_ordered:
  assumes "ordered_from b tick ts" "tick n - b < TICK_HALF"
  shows "ordered_from b tick (timer_insert tick n ts)"
proof -
  obtain us vs where s: "ts = us @ vs" "timer_insert tick n ts = us @ n # vs"
    "\<forall>t \<in> set us. tick t - b \<le> tick n - b" "\<forall>t \<in> set vs. tick n - b < tick t - b"
    by (rule timer_insert_split [OF assms])
  then show ?thesis
    using assms by (auto simp: ordered_from_def sorted_wrt_append intro: less_imp_le)
qed

subsection \<open>The timer invariant\<close>

text \<open>
  Linked timers are activated and in the list of their kind; an activated timer is linked unless
  it is exempt (its timeout function is running); a thread's own timer is one-shot and hard, and
  is linked only while the thread is suspended.
\<close>

definition thread_timer_ok :: "kernel \<Rightarrow> nat \<Rightarrow> bool" where
  "thread_timer_ok k n \<longleftrightarrow> timeout_func (timers k (Thread_Timer n)) = Thread_Timeout n \<and>
     \<not> tm_periodic (timers k (Thread_Timer n)) \<and> \<not> tm_soft (timers k (Thread_Timer n))"

definition timer_inv_x :: "timer_id set \<Rightarrow> kernel \<Rightarrow> bool" where
  "timer_inv_x Y k \<longleftrightarrow>
     wf_lists (timer_lists k) \<and>
     (\<forall>t \<in> set (timer_lists k HardTimers). tm_activated (timers k t) \<and> \<not> tm_soft (timers k t)) \<and>
     (\<forall>t \<in> set (timer_lists k SoftTimers). tm_activated (timers k t) \<and> tm_soft (timers k t)) \<and>
     (\<forall>t. tm_activated (timers k t) \<longrightarrow> t \<notin> Y \<longrightarrow>
        t \<in> set (timer_lists k HardTimers) \<union> set (timer_lists k SoftTimers)) \<and>
     set (timer_lists k HardLocal) \<union> set (timer_lists k SoftLocal) \<subseteq> Y \<and>
     (\<forall>n. live (threads k n) \<longrightarrow> thread_timer_ok k n) \<and>
     (\<forall>n. Thread_Timer n \<in> set (timer_lists k HardTimers) \<union> set (timer_lists k SoftTimers) \<longrightarrow>
        th_stat (threads k n) = RT_THREAD_SUSPEND)"

abbreviation timer_inv :: "kernel \<Rightarrow> bool" where
  "timer_inv \<equiv> timer_inv_x {}"

lemma timer_invD:
  assumes "timer_inv_x Y k"
  shows "wf_lists (timer_lists k)"
    "t \<in> set (timer_lists k HardTimers) \<Longrightarrow> tm_activated (timers k t) \<and> \<not> tm_soft (timers k t)"
    "t \<in> set (timer_lists k SoftTimers) \<Longrightarrow> tm_activated (timers k t) \<and> tm_soft (timers k t)"
    "tm_activated (timers k t) \<Longrightarrow> t \<notin> Y \<Longrightarrow>
       t \<in> set (timer_lists k HardTimers) \<union> set (timer_lists k SoftTimers)"
    "t \<in> set (timer_lists k HardLocal) \<union> set (timer_lists k SoftLocal) \<Longrightarrow> t \<in> Y"
    "live (threads k n) \<Longrightarrow> thread_timer_ok k n"
    "Thread_Timer n \<in> set (timer_lists k HardTimers) \<union> set (timer_lists k SoftTimers) \<Longrightarrow>
       th_stat (threads k n) = RT_THREAD_SUSPEND"
  using assms unfolding timer_inv_x_def by blast+

lemma timer_invI:
  assumes "wf_lists (timer_lists k)"
    "\<And>t. t \<in> set (timer_lists k HardTimers) \<Longrightarrow> tm_activated (timers k t) \<and> \<not> tm_soft (timers k t)"
    "\<And>t. t \<in> set (timer_lists k SoftTimers) \<Longrightarrow> tm_activated (timers k t) \<and> tm_soft (timers k t)"
    "\<And>t. tm_activated (timers k t) \<Longrightarrow> t \<notin> Y \<Longrightarrow>
       t \<in> set (timer_lists k HardTimers) \<union> set (timer_lists k SoftTimers)"
    "\<And>t. t \<in> set (timer_lists k HardLocal) \<union> set (timer_lists k SoftLocal) \<Longrightarrow> t \<in> Y"
    "\<And>n. live (threads k n) \<Longrightarrow> thread_timer_ok k n"
    "\<And>n. Thread_Timer n \<in> set (timer_lists k HardTimers) \<union> set (timer_lists k SoftTimers) \<Longrightarrow>
       th_stat (threads k n) = RT_THREAD_SUSPEND"
  shows "timer_inv_x Y k"
  using assms unfolding timer_inv_x_def by blast

text \<open>The invariant reads of the threads only who is live and who is suspended.\<close>

lemma timer_inv_cong:
  assumes "timer_inv_x Y k" "timers k' = timers k" "timer_lists k' = timer_lists k"
    "\<And>n. live (threads k' n) \<Longrightarrow> live (threads k n)"
    "\<And>n. th_stat (threads k n) = RT_THREAD_SUSPEND \<Longrightarrow>
       Thread_Timer n \<in> set (timer_lists k HardTimers) \<union> set (timer_lists k SoftTimers) \<Longrightarrow>
       th_stat (threads k' n) = RT_THREAD_SUSPEND"
  shows "timer_inv_x Y k'"
  using assms unfolding timer_inv_x_def thread_timer_ok_def by auto

lemma timer_inv_frame [simp]:
  "timer_inv_x Y (k\<lparr>lists := a\<rparr>) = timer_inv_x Y k"
  "timer_inv_x Y (k\<lparr>ready_group := b\<rparr>) = timer_inv_x Y k"
  "timer_inv_x Y (k\<lparr>current_thread := c\<rparr>) = timer_inv_x Y k"
  "timer_inv_x Y (k\<lparr>current_prio := d\<rparr>) = timer_inv_x Y k"
  "timer_inv_x Y (k\<lparr>lock_nest := e\<rparr>) = timer_inv_x Y k"
  "timer_inv_x Y (k\<lparr>interrupt_nest := f\<rparr>) = timer_inv_x Y k"
  "timer_inv_x Y (k\<lparr>rt_tick := g\<rparr>) = timer_inv_x Y k"
  "timer_inv_x Y (k\<lparr>soft_timer_busy := h\<rparr>) = timer_inv_x Y k"
  "timer_inv_x Y (k\<lparr>sems := i\<rparr>) = timer_inv_x Y k"
  "timer_inv_x Y (k\<lparr>mutexes := j\<rparr>) = timer_inv_x Y k"
  "timer_inv_x Y (k\<lparr>events := l\<rparr>) = timer_inv_x Y k"
  "timer_inv_x Y (k\<lparr>mailboxes := m\<rparr>) = timer_inv_x Y k"
  "timer_inv_x Y (k\<lparr>mqueues := m1\<rparr>) = timer_inv_x Y k"
  "timer_inv_x Y (k\<lparr>mempools := m2\<rparr>) = timer_inv_x Y k"
  "timer_inv_x Y (k\<lparr>mp_words := m3\<rparr>) = timer_inv_x Y k"
  "timer_inv_x Y (k\<lparr>switches := n\<rparr>) = timer_inv_x Y k"
  "timer_inv_x Y (rt_schedule_remove_thread t k) = timer_inv_x Y k"
  by (simp_all add: timer_inv_x_def thread_timer_ok_def)

lemma timer_inv_upd_thread:
  assumes "timer_inv_x Y k" "th_stat (f (threads k t)) = th_stat (threads k t)"
  shows "timer_inv_x Y (upd_thread t f k)"
  by (rule timer_inv_cong [OF assms(1)]) (use assms(2) in \<open>auto split: if_splits\<close>)

lemma timer_inv_schedule:
  assumes "timer_inv_x Y k" "rt_schedule k = Some k'" "\<And>t. same_tcb (threads k t) (threads k' t)"
  shows "timer_inv_x Y k'"
proof (rule timer_inv_cong [OF assms(1) rt_schedule_frame(1,2) [OF assms(2)]])
  fix n
  note same = same_tcbD(9,10) [OF assms(3) [of n]]
  show "live (threads k' n) \<Longrightarrow> live (threads k n)" using same(1) by fastforce
  show "th_stat (threads k n) = RT_THREAD_SUSPEND \<Longrightarrow> th_stat (threads k' n) = RT_THREAD_SUSPEND"
    using same(1) by simp
qed

text \<open>Unlinking a timer, and marking it as not activated.\<close>

lemma timer_inv_detach:
  assumes "timer_inv_x Y k"
  shows "timer_inv_x (Y - {t}) (rt_timer_detach t k)" "unlinked (timer_lists (rt_timer_detach t k)) t"
proof -
  note I = timer_invD [OF assms]
  let ?k = "rt_timer_detach t k"
  have s: "set (timer_lists ?k h) = set (timer_lists k h) - {t}" for h
    by (simp add: rt_timer_detach_def timer_deactivate_def set_l_remove [OF I(1)])
  have tm: "timers ?k = (timers k)(t := (timers k t)\<lparr>tm_activated := False\<rparr>)"
    "threads ?k = threads k"
    by (simp_all add: rt_timer_detach_def timer_deactivate_def)
  show "timer_inv_x (Y - {t}) ?k"
  proof (rule timer_invI)
    show "wf_lists (timer_lists ?k)"
      by (simp add: rt_timer_detach_def timer_deactivate_def wf_l_remove [OF I(1)])
    show "live (threads ?k n) \<Longrightarrow> thread_timer_ok ?k n" for n
      using I(6) [of n] by (auto simp: tm thread_timer_ok_def)
  qed (use I(2-5,7) in \<open>auto simp: s tm split: if_splits\<close>)
  show "unlinked (timer_lists ?k) t" by (simp add: unlinked_def s)
qed

lemma timer_not_linked:
  assumes "timer_inv_x Y k" "\<not> tm_activated (timers k t)" "t \<notin> Y"
  shows "unlinked (timer_lists k) t"
  unfolding unlinked_def
proof
  fix h show "t \<notin> set (timer_lists k h)"
    using timer_invD(2,3,5) [OF assms(1), of t] assms(2,3) by (cases h) auto
qed

text \<open>Stopping an idle timer does nothing, so stopping and detaching are the same.\<close>

lemma timer_stop_detach:
  assumes "timer_inv_x Y k" "t \<notin> Y"
  shows "snd (rt_timer_stop t k) = rt_timer_detach t k"
proof (cases "tm_activated (timers k t)")
  case True
  then show ?thesis by (simp add: rt_timer_stop_def rt_timer_detach_def)
next
  case False
  have "timer_remove t k = k" using timer_not_linked [OF assms(1) False assms(2)]
    by (simp add: timer_remove_def)
  moreover have "timer_deactivate t k = k"
    using False by (simp add: timer_deactivate_def upd_timer_def fun_upd_idem)
  ultimately show ?thesis using False by (simp add: rt_timer_stop_def rt_timer_detach_def)
qed

lemma timer_inv_stop:
  assumes "timer_inv_x Y k" "t \<notin> Y"
  shows "timer_inv_x Y (snd (rt_timer_stop t k))" "unlinked (timer_lists (snd (rt_timer_stop t k))) t"
  using timer_inv_detach [OF assms(1), of t] assms(2) by (simp_all add: timer_stop_detach [OF assms])

subsection \<open>The kernel invariant\<close>

definition kinv_x :: "timer_id set \<Rightarrow> kernel \<Rightarrow> bool" where
  "kinv_x Y k \<longleftrightarrow> sched_ok k \<and> timer_inv_x Y k"

abbreviation kinv :: "kernel \<Rightarrow> bool" where
  "kinv \<equiv> kinv_x {}"

lemma kinvD:
  assumes "kinv_x Y k"
  shows "sched_ok k" "sched_inv k" "stacks_ok k" "timer_inv_x Y k" "current_thread k \<noteq> None"
  using assms by (auto simp: kinv_x_def sched_ok_def)

lemma kinvI:
  "sched_inv k \<Longrightarrow> stacks_ok k \<Longrightarrow> current_thread k \<noteq> None \<Longrightarrow> timer_inv_x Y k \<Longrightarrow> kinv_x Y k"
  by (simp add: kinv_x_def sched_ok_def)

lemma stacks_ok_threads: "stacks_ok k \<Longrightarrow> threads k' = threads k \<Longrightarrow> stacks_ok k'"
  by (simp add: stacks_ok_def)

lemma stacks_ok_upd:
  assumes "stacks_ok k" "live (f (threads k t)) \<Longrightarrow> scheduler_stack_check (f (threads k t)) = Some ()"
  shows "stacks_ok (upd_thread t f k)"
  using assms by (auto simp: stacks_ok_def)

lemma kinv_frame [simp]:
  "kinv_x Y (k\<lparr>current_prio := a\<rparr>) = kinv_x Y k"
  "kinv_x Y (k\<lparr>lock_nest := b\<rparr>) = kinv_x Y k"
  "kinv_x Y (k\<lparr>interrupt_nest := c\<rparr>) = kinv_x Y k"
  "kinv_x Y (k\<lparr>rt_tick := d\<rparr>) = kinv_x Y k"
  "kinv_x Y (k\<lparr>soft_timer_busy := e\<rparr>) = kinv_x Y k"
  "kinv_x Y (k\<lparr>sems := f\<rparr>) = kinv_x Y k"
  "kinv_x Y (k\<lparr>mutexes := g\<rparr>) = kinv_x Y k"
  "kinv_x Y (k\<lparr>events := h\<rparr>) = kinv_x Y k"
  "kinv_x Y (k\<lparr>mailboxes := i\<rparr>) = kinv_x Y k"
  "kinv_x Y (k\<lparr>mqueues := i1\<rparr>) = kinv_x Y k"
  "kinv_x Y (k\<lparr>mempools := i2\<rparr>) = kinv_x Y k"
  "kinv_x Y (k\<lparr>mp_words := i3\<rparr>) = kinv_x Y k"
  "kinv_x Y (k\<lparr>switches := j\<rparr>) = kinv_x Y k"
  by (simp_all add: kinv_x_def sched_ok_def stacks_ok_def)

text \<open>An update of a thread that keeps what the scheduler and the timers read of it.\<close>

lemma kinv_upd_thread:
  assumes "kinv_x Y k" "th_stat (f (threads k t)) = th_stat (threads k t)"
    "current_priority (f (threads k t)) = current_priority (threads k t)"
    "number_mask (f (threads k t)) = number_mask (threads k t)"
    "scheduler_stack_check (f (threads k t)) = scheduler_stack_check (threads k t)"
  shows "kinv_x Y (upd_thread t f k)"
proof (rule kinvI)
  note I = kinvD [OF assms(1)]
  show "sched_inv (upd_thread t f k)" by (rule sched_inv_upd [OF I(2)]) (use assms in simp_all)
  show "stacks_ok (upd_thread t f k)"
    by (rule stacks_ok_upd [OF I(3)]) (use assms I(3) in \<open>simp add: stacks_ok_def\<close>)
  show "timer_inv_x Y (upd_thread t f k)" by (rule timer_inv_upd_thread [OF I(4)]) (rule assms(2))
qed (use kinvD(5) [OF assms(1)] in simp)

lemma kinv_schedule:
  assumes "kinv_x Y k"
  obtains k' where "rt_schedule k = Some k'" "kinv_x Y k'" "\<And>t. same_tcb (threads k t) (threads k' t)"
    "\<And>h. \<not> is_ready h \<Longrightarrow> lists k' h = lists k h"
proof -
  obtain k' where s: "rt_schedule k = Some k'" "sched_ok k'" "\<And>t. same_tcb (threads k t) (threads k' t)"
    by (rule schedule_ok [OF kinvD(1) [OF assms]]) (rule that)
  show thesis
    by (rule that [OF s(1) _ s(3) schedule_lists [OF kinvD(1) [OF assms] s(1)]])
      (use s timer_inv_schedule [OF kinvD(4) [OF assms] s(1,3)] in \<open>simp_all add: kinv_x_def\<close>)
qed

text \<open>A thread that is not ready and not linked anywhere may be linked behind an object.\<close>

lemma kinv_lists:
  assumes "kinv_x Y k" "sched_inv (k\<lparr>lists := ls\<rparr>)"
  shows "kinv_x Y (k\<lparr>lists := ls\<rparr>)"
  using assms by (simp add: kinv_x_def sched_ok_def stacks_ok_def)

subsection \<open>Suspending and resuming\<close>

lemma sched_inv_unlink:
  assumes inv: "sched_inv_x X k" and t: "th_stat (threads k t) \<noteq> RT_THREAD_READY"
  shows "sched_inv_x (insert t X) (k\<lparr>lists := l_remove t (lists k)\<rparr>)"
proof (rule sched_invI)
  note I = sched_invD [OF inv]
  have nr: "l_remove t (lists k) (ReadyQ p) = lists k (ReadyQ p)" for p
    using I(4) [of t "ReadyQ p"] t by (intro l_remove_other) auto
  show "s \<notin> insert t X \<Longrightarrow> th_stat (threads (k\<lparr>lists := l_remove t (lists k)\<rparr>) s) = RT_THREAD_READY \<Longrightarrow>
      s \<in> set (lists (k\<lparr>lists := l_remove t (lists k)\<rparr>)
        (ReadyQ (current_priority (threads (k\<lparr>lists := l_remove t (lists k)\<rparr>) s))))" for s
    using I(6) [of s] by (simp add: nr)
  show "s \<in> insert t X \<Longrightarrow> unlinked (lists (k\<lparr>lists := l_remove t (lists k)\<rparr>)) s" for s
    using I(8) [of s] by (auto simp: unlinked_def set_l_remove [OF I(1)])
  show "p < 32 \<Longrightarrow> bit (ready_group (k\<lparr>lists := l_remove t (lists k)\<rparr>)) p \<longleftrightarrow>
      lists (k\<lparr>lists := l_remove t (lists k)\<rparr>) (ReadyQ p) \<noteq> []" for p
    using I(2) [of p] by (simp add: nr)
  show "s \<in> set (lists (k\<lparr>lists := l_remove t (lists k)\<rparr>) h) \<Longrightarrow>
      th_stat (threads (k\<lparr>lists := l_remove t (lists k)\<rparr>) s) = list_stat h" for s h
    using I(4) [of s h] by (simp add: set_l_remove [OF I(1)])
  show "s \<in> set (lists (k\<lparr>lists := l_remove t (lists k)\<rparr>) (ReadyQ p)) \<Longrightarrow>
      current_priority (threads (k\<lparr>lists := l_remove t (lists k)\<rparr>) s) = p" for s p
    using I(5) [of s p] by (simp add: nr)
qed (use wf_l_remove [OF sched_invD(1) [OF inv]] sched_invD(3,7) [OF inv] in simp_all)

text \<open>Suspending the running thread: it is not linked, so only its state and its timer change.\<close>

lemma rt_thread_suspend_running:
  assumes inv: "kinv_x Y k" and c: "current_thread k = Some t"
    and run: "th_stat (threads k t) = RT_THREAD_RUNNING" and tY: "Thread_Timer t \<notin> Y"
  defines "k' \<equiv> snd (rt_timer_stop (Thread_Timer t) (upd_thread t (\<lambda>h. h\<lparr>th_stat := RT_THREAD_SUSPEND\<rparr>) k))"
  shows "rt_thread_suspend t k = Some (RT_EOK, k')" "kinv_x Y k'"
    "unlinked (lists k') t" "unlinked (timer_lists k') (Thread_Timer t)"
proof -
  note I = kinvD [OF inv]
  have st: "started (threads k t)" using sched_invD(3) [OF I(2), of t] run by simp
  have u: "unlinked (lists k) t" by (rule running_unlinked [OF I(2)]) (simp add: run)
  have rm: "rt_schedule_remove_thread t k = k" by (rule remove_thread_unlinked [OF I(2) st u])
  show "rt_thread_suspend t k = Some (RT_EOK, k')"
    using c run by (simp add: rt_thread_suspend_def rm k'_def Let_def)
  let ?k = "upd_thread t (\<lambda>h. h\<lparr>th_stat := RT_THREAD_SUSPEND\<rparr>) k"
  have "sched_inv_x {t} ?k"
    by (rule sched_inv_upd_exempt [OF sched_inv_exempt [OF I(2) u]]) (simp_all add: st)
  from sched_inv_drop [OF this, of t] have s: "sched_inv ?k" by simp
  have ti: "timer_inv_x Y ?k"
    by (rule timer_inv_cong [OF I(4)]) (use run in \<open>auto split: if_splits\<close>)
  show "unlinked (lists k') t" using u by (simp add: k'_def)
  show "unlinked (timer_lists k') (Thread_Timer t)" unfolding k'_def by (rule timer_inv_stop [OF ti tY])
  show "kinv_x Y k'"
    unfolding k'_def
  proof (rule kinvI)
    show "sched_inv (snd (rt_timer_stop (Thread_Timer t) ?k))" using s by simp
    show "stacks_ok (snd (rt_timer_stop (Thread_Timer t) ?k))"
      by (rule stacks_ok_threads [OF stacks_ok_upd [OF I(3)]])
        (use I(3) run in \<open>auto simp: stacks_ok_def\<close>)
    show "timer_inv_x Y (snd (rt_timer_stop (Thread_Timer t) ?k))" by (rule timer_inv_stop [OF ti tY])
  qed (use I(5) in simp)
qed

lemma rt_thread_resume_parts:
  assumes s: "sched_inv k" and so: "stacks_ok k" and ti: "timer_inv_x Y k"
    and sus: "th_stat (threads k t) = RT_THREAD_SUSPEND" and tY: "Thread_Timer t \<notin> Y"
  shows "sched_inv (snd (rt_thread_resume t k))" "stacks_ok (snd (rt_thread_resume t k))"
    "timer_inv_x Y (snd (rt_thread_resume t k))"
proof -
  let ?k1 = "k\<lparr>lists := l_remove t (lists k)\<rparr>"
  let ?k2 = "snd (rt_timer_stop (Thread_Timer t) ?k1)"
  let ?k3 = "rt_schedule_insert_thread t ?k2"
  have e: "snd (rt_thread_resume t k) = ?k3" using sus by (simp add: rt_thread_resume_def Let_def)
  have st: "started (threads k t)" using sched_invD(3) [OF s, of t] sus by simp
  have "sched_inv_x {t} ?k1" by (rule sched_inv_unlink [OF s]) (simp add: sus)
  then have "sched_inv_x {t} ?k2" by simp
  from sched_inv_insert [OF this, of t] show "sched_inv (snd (rt_thread_resume t k))"
    using st unfolding e by simp
  have ti1: "timer_inv_x Y ?k1" using ti by simp
  note stop = timer_inv_stop [OF ti1 tY]
  show "timer_inv_x Y (snd (rt_thread_resume t k))" unfolding e
    by (rule timer_inv_cong [OF stop(1)]) (use stop(2) sus in \<open>auto simp: unlinked_def split: if_splits\<close>)
  have "stacks_ok (upd_thread t (\<lambda>h. h\<lparr>th_stat :=
      if current_thread k = Some t then RT_THREAD_RUNNING else RT_THREAD_READY\<rparr>) k)"
    by (rule stacks_ok_upd [OF so]) (use so sus in \<open>auto simp: stacks_ok_def\<close>)
  then show "stacks_ok (snd (rt_thread_resume t k))" unfolding e by (rule stacks_ok_threads) simp
qed

lemma rt_thread_resume_suspended:
  assumes inv: "kinv_x Y k" and sus: "th_stat (threads k t) = RT_THREAD_SUSPEND"
    and tY: "Thread_Timer t \<notin> Y"
  shows "fst (rt_thread_resume t k) = RT_EOK" "kinv_x Y (snd (rt_thread_resume t k))"
proof -
  note I = kinvD [OF inv]
  show "fst (rt_thread_resume t k) = RT_EOK" using sus by (simp add: rt_thread_resume_def Let_def)
  have "current_thread (snd (rt_thread_resume t k)) \<noteq> None"
    using I(5) sus by (simp add: rt_thread_resume_def Let_def)
  then show "kinv_x Y (snd (rt_thread_resume t k))"
    using rt_thread_resume_parts [OF I(2-4) sus tY] by (simp add: kinv_x_def sched_ok_def)
qed

lemma rt_thread_resume_other:
  "th_stat (threads k t) \<noteq> RT_THREAD_SUSPEND \<Longrightarrow> rt_thread_resume t k = (- RT_ERROR, k)"
  by (simp add: rt_thread_resume_def)

lemma rt_thread_resume_simps:
  assumes "th_stat (threads k t) = RT_THREAD_SUSPEND"
  shows "threads (snd (rt_thread_resume t k)) = (threads k)(t := (threads k t)\<lparr>th_stat :=
      if current_thread k = Some t then RT_THREAD_RUNNING else RT_THREAD_READY\<rparr>)"
    "lists (snd (rt_thread_resume t k)) = (if current_thread k = Some t then l_remove t (lists k)
      else l_append (ReadyQ (current_priority (threads k t))) t (l_remove t (lists k)))"
    "timers (snd (rt_thread_resume t k)) = (timers k)(Thread_Timer t :=
      (timers k (Thread_Timer t))\<lparr>tm_activated := False\<rparr>)"
  using assms by (auto simp: rt_thread_resume_def Let_def)

lemma rt_thread_resume_frame [simp]:
  "current_thread (snd (rt_thread_resume t k)) = current_thread k"
  "lock_nest (snd (rt_thread_resume t k)) = lock_nest k"
  "interrupt_nest (snd (rt_thread_resume t k)) = interrupt_nest k"
  "rt_tick (snd (rt_thread_resume t k)) = rt_tick k"
  "soft_timer_busy (snd (rt_thread_resume t k)) = soft_timer_busy k"
  "timer_thread (snd (rt_thread_resume t k)) = timer_thread k"
  "sems (snd (rt_thread_resume t k)) = sems k"
  "mutexes (snd (rt_thread_resume t k)) = mutexes k"
  "events (snd (rt_thread_resume t k)) = events k"
  "mailboxes (snd (rt_thread_resume t k)) = mailboxes k"
  "mqueues (snd (rt_thread_resume t k)) = mqueues k"
  "mempools (snd (rt_thread_resume t k)) = mempools k"
  "mp_words (snd (rt_thread_resume t k)) = mp_words k"
  "switches (snd (rt_thread_resume t k)) = switches k"
  by (simp_all add: rt_thread_resume_def Let_def)

subsection \<open>Starting timers\<close>

text \<open>The part of \<open>rt_timer_start\<close> before the timer thread is considered.\<close>

definition timer_arm :: "timer_id \<Rightarrow> kernel \<Rightarrow> kernel" where
  "timer_arm t k = upd_timer t (\<lambda>m. m\<lparr>tm_activated := True\<rparr>) (timer_link t
     (upd_timer t (\<lambda>m. m\<lparr>timeout_tick := rt_tick k + tm_init_tick m\<rparr>) (rt_timer_detach t k)))"

lemma rt_timer_start_hard:
  "\<not> tm_soft (timers k t) \<Longrightarrow> rt_timer_start t k = Some (RT_EOK, timer_arm t k)"
  by (simp add: rt_timer_start_def timer_arm_def rt_timer_detach_def timer_deactivate_def
      timer_link_def Let_def)

lemma timer_arm_simps [simp]:
  "threads (timer_arm t k) = threads k" "lists (timer_arm t k) = lists k"
  "ready_group (timer_arm t k) = ready_group k" "current_thread (timer_arm t k) = current_thread k"
  "lock_nest (timer_arm t k) = lock_nest k" "interrupt_nest (timer_arm t k) = interrupt_nest k"
  "rt_tick (timer_arm t k) = rt_tick k" "soft_timer_busy (timer_arm t k) = soft_timer_busy k"
  "timer_thread (timer_arm t k) = timer_thread k" "sems (timer_arm t k) = sems k"
  "mutexes (timer_arm t k) = mutexes k" "events (timer_arm t k) = events k"
  "mailboxes (timer_arm t k) = mailboxes k"
  "mqueues (timer_arm t k) = mqueues k"
  "mempools (timer_arm t k) = mempools k"
  "mp_words (timer_arm t k) = mp_words k"
  "switches (timer_arm t k) = switches k"
  "timers (timer_arm t k) = (timers k)(t := (timers k t)
     \<lparr>tm_activated := True, timeout_tick := rt_tick k + tm_init_tick (timers k t)\<rparr>)"
  by (auto simp: timer_arm_def rt_timer_detach_def timer_deactivate_def timer_link_def Let_def fun_eq_iff)

lemma timer_arm_lists:
  "timer_lists (timer_arm t k) = (l_remove t (timer_lists k))
     ((if tm_soft (timers k t) then SoftTimers else HardTimers) :=
      timer_insert (\<lambda>s. timeout_tick (timers (timer_arm t k) s)) t
        (l_remove t (timer_lists k) (if tm_soft (timers k t) then SoftTimers else HardTimers)))"
proof -
  have "timer_insert f t ts = timer_insert g t ts"
    if "\<And>s. s \<noteq> t \<Longrightarrow> f s = g s" "f t = g t" for f g :: "timer_id \<Rightarrow> u32" and ts
    using that by (induction ts) (auto, metis+)
  then show ?thesis
    by (simp add: timer_arm_def timer_link_def rt_timer_detach_def timer_deactivate_def Let_def)
      (intro conjI impI arg_cong2 [where f = "fun_upd _ _"] refl; fastforce)
qed

lemma timer_inv_arm:
  assumes inv: "timer_inv_x Y k"
    and th: "\<And>n. t = Thread_Timer n \<Longrightarrow> th_stat (threads k n) = RT_THREAD_SUSPEND"
  shows "timer_inv_x (Y - {t}) (timer_arm t k)"
proof (rule timer_invI)
  note I = timer_invD [OF inv]
  let ?h = "if tm_soft (timers k t) then SoftTimers else HardTimers"
  let ?k = "timer_arm t k"
  have s: "set (timer_lists ?k h) = (if h = ?h then insert t else id) (set (timer_lists k h) - {t})" for h
    unfolding timer_arm_lists by (simp add: set_l_remove [OF I(1)])
  have t_un: "t \<notin> set (l_remove t (timer_lists k) h)" for h by (simp add: set_l_remove [OF I(1)])
  show "wf_lists (timer_lists ?k)"
    unfolding wf_lists_def
  proof (intro conjI allI impI)
    show "distinct (timer_lists ?k h)" for h
      unfolding timer_arm_lists
      using wf_listsD(1) [OF wf_l_remove [OF I(1)], of t h] t_un [of h]
      by (auto intro: distinct_timer_insert)
    show "h = g" if "n \<in> set (timer_lists ?k h)" "n \<in> set (timer_lists ?k g)" for h g n
      using that wf_listsD(2) [OF I(1), of n h g] unfolding s by (auto split: if_splits)
  qed
  show "live (threads ?k n) \<Longrightarrow> thread_timer_ok ?k n" for n
    using I(6) [of n] by (auto simp: thread_timer_ok_def)
  show "Thread_Timer n \<in> set (timer_lists ?k HardTimers) \<union> set (timer_lists ?k SoftTimers) \<Longrightarrow>
      th_stat (threads ?k n) = RT_THREAD_SUSPEND" for n
    using I(7) [of n] th [of n] unfolding s by (auto split: if_splits)
  show "u \<in> set (timer_lists ?k HardTimers) \<Longrightarrow> tm_activated (timers ?k u) \<and> \<not> tm_soft (timers ?k u)" for u
    using I(2) [of u] unfolding s by (auto split: if_splits)
  show "u \<in> set (timer_lists ?k SoftTimers) \<Longrightarrow> tm_activated (timers ?k u) \<and> tm_soft (timers ?k u)" for u
    using I(3) [of u] unfolding s by (auto split: if_splits)
  show "tm_activated (timers ?k u) \<Longrightarrow> u \<notin> Y - {t} \<Longrightarrow>
      u \<in> set (timer_lists ?k HardTimers) \<union> set (timer_lists ?k SoftTimers)" for u
    using I(4) [of u] unfolding s by (cases "u = t") auto
  show "u \<in> set (timer_lists ?k HardLocal) \<union> set (timer_lists ?k SoftLocal) \<Longrightarrow> u \<in> Y - {t}" for u
    using I(5) [of u] unfolding s by (auto split: if_splits)
qed

lemma kinv_arm:
  assumes "kinv_x Y k"
    "\<And>n. t = Thread_Timer n \<Longrightarrow> th_stat (threads k n) = RT_THREAD_SUSPEND"
  shows "kinv_x (Y - {t}) (timer_arm t k)"
proof (rule kinvI)
  note I = kinvD [OF assms(1)]
  show "sched_inv (timer_arm t k)"
    using I(2) by (simp add: timer_arm_def rt_timer_detach_def)
  show "stacks_ok (timer_arm t k)" by (rule stacks_ok_threads [OF I(3)]) simp
  show "timer_inv_x (Y - {t}) (timer_arm t k)" by (rule timer_inv_arm [OF I(4) assms(2)])
  show "current_thread (timer_arm t k) \<noteq> None" using I(5) by simp
qed

lemma rt_timer_start_ok:
  assumes "kinv_x Y k" "\<And>n. t = Thread_Timer n \<Longrightarrow> th_stat (threads k n) = RT_THREAD_SUSPEND"
    "Thread_Timer (timer_thread k) \<notin> Y - {t}"
  obtains k' where "rt_timer_start t k = Some (RT_EOK, k')" "kinv_x (Y - {t}) k'"
proof (cases "tm_soft (timers k t) \<and> \<not> soft_timer_busy k \<and>
    th_stat (threads k (timer_thread k)) = RT_THREAD_SUSPEND")
  case True
  let ?k = "snd (rt_thread_resume (timer_thread k) (timer_arm t k))"
  have "kinv_x (Y - {t}) ?k"
    by (rule rt_thread_resume_suspended [OF kinv_arm [OF assms(1,2)]]) (use True assms(3) in simp_all)
  then obtain k' where k': "rt_schedule ?k = Some k'" "kinv_x (Y - {t}) k'"
    by (rule kinv_schedule) (rule that)
  then show thesis
    using True by (intro that [of k'])
      (simp_all add: rt_timer_start_def timer_arm_def rt_timer_detach_def timer_deactivate_def
        timer_link_def Let_def)
next
  case False
  have "rt_timer_start t k = Some (RT_EOK, timer_arm t k)"
    using False by (auto simp: rt_timer_start_def timer_arm_def rt_timer_detach_def
        timer_deactivate_def timer_link_def Let_def)
  then show thesis using kinv_arm [OF assms(1,2)] that by blast
qed

subsection \<open>The check of the hard timers\<close>

text \<open>
  Application functions enter as \<open>app_callback\<close>, which does nothing to the kernel; user timers
  carry such a function.
\<close>

definition app_callback :: "nat \<Rightarrow> kernel \<Rightarrow> kernel option" where
  "app_callback n k = Some k"

definition user_timers_ok :: "kernel \<Rightarrow> bool" where
  "user_timers_ok k \<longleftrightarrow> (\<forall>n. \<exists>m. timeout_func (timers k (User_Timer n)) = Timer_Callback m)"

text \<open>What scheduling changes of a thread: it stays awake, and a suspended thread stays as it is.\<close>

lemma same_tcb_trans: "same_tcb h h1 \<Longrightarrow> same_tcb h1 h2 \<Longrightarrow> same_tcb h h2"
proof (cases "h1 = h \<or> h2 = h1")
  case False
  assume "same_tcb h h1" "same_tcb h1 h2"
  then obtain y s y' s' where "h1 = h\<lparr>th_yield := y, th_stat := s\<rparr>" "h2 = h1\<lparr>th_yield := y', th_stat := s'\<rparr>"
    "th_stat h \<in> {RT_THREAD_READY, RT_THREAD_RUNNING}" "s' \<in> {RT_THREAD_READY, RT_THREAD_RUNNING}"
    using False unfolding same_tcb_def by auto
  then show "same_tcb h h2"
    unfolding same_tcb_def by (intro exI [of _ y'] exI [of _ s']) simp
qed auto

lemma same_tcb_suspend:
  assumes "same_tcb h h'"
  shows "th_stat h' = RT_THREAD_SUSPEND \<longleftrightarrow> th_stat h = RT_THREAD_SUSPEND"
proof
  assume s: "th_stat h' = RT_THREAD_SUSPEND"
  then have "h' = h" by (intro same_tcbD(10) [OF assms]) simp
  then show "th_stat h = RT_THREAD_SUSPEND" using s by simp
next
  assume s: "th_stat h = RT_THREAD_SUSPEND"
  then have "h' = h" by (intro same_tcbD(9) [OF assms]) simp
  then show "th_stat h' = RT_THREAD_SUSPEND" using s by simp
qed

lemma same_tcb_awake:
  assumes "same_tcb h h'"
  shows "th_stat h' \<in> {RT_THREAD_READY, RT_THREAD_RUNNING} \<longleftrightarrow> th_stat h \<in> {RT_THREAD_READY, RT_THREAD_RUNNING}"
proof (cases "h' = h")
  case False
  obtain y s where "h' = h\<lparr>th_yield := y, th_stat := s\<rparr>" "th_stat h \<in> {RT_THREAD_READY, RT_THREAD_RUNNING}"
    "s \<in> {RT_THREAD_READY, RT_THREAD_RUNNING}"
    using assms False unfolding same_tcb_def by blast
  then show ?thesis by simp
qed simp

lemma thread_timeout_ok:
  assumes inv: "kinv_x Y k" and sus: "th_stat (threads k n) = RT_THREAD_SUSPEND"
    and un: "Thread_Timer n \<notin> set (timer_lists k HardTimers) \<union> set (timer_lists k SoftTimers)"
  obtains k' where "thread_timeout n k = Some k'" "kinv_x Y k'" "timers k' = timers k"
    "timer_lists k' = timer_lists k" "rt_tick k' = rt_tick k" "lock_nest k' = lock_nest k"
    "th_error (threads k' n) = - RT_ETIMEOUT" "th_stat (threads k' n) \<in> {RT_THREAD_READY, RT_THREAD_RUNNING}"
    "\<And>u. u \<noteq> n \<Longrightarrow> same_tcb (threads k u) (threads k' u)"
proof -
  note I = kinvD [OF inv]
  let ?k1 = "upd_thread n (\<lambda>h. h\<lparr>th_error := - RT_ETIMEOUT\<rparr>) k"
  let ?k2 = "?k1\<lparr>lists := l_remove n (lists ?k1)\<rparr>"
  let ?k3 = "rt_schedule_insert_thread n ?k2"
  have i1: "kinv_x Y ?k1" by (rule kinv_upd_thread [OF inv]) (simp_all add: scheduler_stack_check_def)
  have st: "started (threads ?k1 n)" using sched_invD(3) [OF kinvD(2) [OF i1], of n] sus by simp
  have "sched_inv_x {n} ?k2" by (rule sched_inv_unlink [OF kinvD(2) [OF i1]]) (simp add: sus)
  from sched_inv_insert [OF this, of n] have s3: "sched_inv ?k3" using st by simp
  have "stacks_ok (upd_thread n (\<lambda>h. h\<lparr>th_stat :=
      if current_thread k = Some n then RT_THREAD_RUNNING else RT_THREAD_READY\<rparr>) ?k1)"
    by (rule stacks_ok_upd [OF kinvD(3) [OF i1]])
      (use I(3) sus in \<open>auto simp: stacks_ok_def scheduler_stack_check_def\<close>)
  then have so: "stacks_ok ?k3" by (rule stacks_ok_threads) simp
  have ti: "timer_inv_x Y ?k3"
    by (rule timer_inv_cong [OF I(4)]) (use sus un in \<open>auto split: if_splits\<close>)
  have i3: "kinv_x Y ?k3" using s3 so ti I(5) by (simp add: kinv_x_def sched_ok_def)
  obtain k' where k': "rt_schedule ?k3 = Some k'" "kinv_x Y k'" "\<And>t. same_tcb (threads ?k3 t) (threads k' t)"
    by (rule kinv_schedule [OF i3]) (rule that)
  show thesis
  proof (rule that [of k'])
    show "thread_timeout n k = Some k'" using sus k'(1) by (simp add: thread_timeout_def Let_def)
    show "th_error (threads k' n) = - RT_ETIMEOUT" using same_tcbD(3) [OF k'(3) [of n]] by simp
    have "th_stat (threads ?k3 n) \<in> {RT_THREAD_READY, RT_THREAD_RUNNING}" by simp
    then show "th_stat (threads k' n) \<in> {RT_THREAD_READY, RT_THREAD_RUNNING}"
      unfolding same_tcb_awake [OF k'(3)] .
    show "same_tcb (threads k u) (threads k' u)" if "u \<noteq> n" for u using k'(3) [of u] that by simp
  qed (use k'(2) rt_schedule_frame [OF k'(1)] in simp_all)
qed

text \<open>Where a timer goes once its function has run.\<close>

definition fired_timer :: "u32 \<Rightarrow> timer \<Rightarrow> timer" where
  "fired_timer now m =
     (if tm_periodic m then m\<lparr>tm_activated := True, timeout_tick := now + tm_init_tick m\<rparr>
      else m\<lparr>tm_activated := False\<rparr>)"

definition timer_round :: "(nat \<Rightarrow> kernel \<Rightarrow> kernel option) \<Rightarrow> timer_id \<Rightarrow> kernel \<Rightarrow> kernel option" where
  "timer_round cb t k =
     (let k = timer_before_func HardLocal t k in
      do { k \<leftarrow> call_timeout_func cb (timeout_func (timers k t)) k; timer_after_func HardLocal t k })"

lemma kinv_before_func:
  assumes inv: "kinv k" and t: "t \<in> set (timer_lists k HardTimers)"
  defines "k' \<equiv> timer_before_func HardLocal t k"
  shows "kinv_x {t} k'" "timer_lists k' = (l_remove t (timer_lists k))(HardLocal := [t])"
    "timers k' = (timers k)(t := if tm_periodic (timers k t) then timers k t
       else (timers k t)\<lparr>tm_activated := False\<rparr>)"
    "threads k' = threads k" "rt_tick k' = rt_tick k" "lock_nest k' = lock_nest k"
proof -
  note I = kinvD [OF inv] and T = timer_invD [OF kinvD(4) [OF inv]]
  have loc: "timer_lists k HardLocal = []" "timer_lists k SoftLocal = []"
    using T(5) by (auto simp: neq_Nil_conv) (metis list.set_intros(1) neq_Nil_conv)+
  show tl: "timer_lists k' = (l_remove t (timer_lists k))(HardLocal := [t])"
    and tm: "timers k' = (timers k)(t := if tm_periodic (timers k t) then timers k t
       else (timers k t)\<lparr>tm_activated := False\<rparr>)"
    and th: "threads k' = threads k" "rt_tick k' = rt_tick k" "lock_nest k' = lock_nest k"
    using loc by (simp_all add: k'_def timer_before_func_def Let_def timer_deactivate_def l_prepend_def
        l_remove_def)
  have oth: "sched_inv k' = sched_inv k" "current_thread k' = current_thread k"
    by (simp_all add: k'_def timer_before_func_def Let_def timer_deactivate_def)
  have s: "set (timer_lists k' h) = (if h = HardLocal then {t} else set (timer_lists k h) - {t})" for h
    unfolding tl using set_l_remove [OF T(1)] by simp
  have "timer_inv_x {t} k'"
  proof (rule timer_invI)
    show "wf_lists (timer_lists k')"
      unfolding wf_lists_def s
      using wf_listsD(1) [OF wf_l_remove [OF T(1)], of t] wf_listsD(2) [OF T(1)]
      by (auto simp: tl split: if_splits)
    show "live (threads k' n) \<Longrightarrow> thread_timer_ok k' n" for n
      using T(6) [of n] by (auto simp: thread_timer_ok_def tm th)
  qed (use T(2-5,7) loc in \<open>auto simp: s tm th split: if_splits\<close>)
  then show "kinv_x {t} k'"
    using I oth stacks_ok_threads [OF I(3) th(1)] by (simp add: kinv_x_def sched_ok_def)
qed

lemma detach_simps [simp]:
  "threads (rt_timer_detach t k) = threads k" "lists (rt_timer_detach t k) = lists k"
  "ready_group (rt_timer_detach t k) = ready_group k"
  "current_thread (rt_timer_detach t k) = current_thread k"
  "rt_tick (rt_timer_detach t k) = rt_tick k" "lock_nest (rt_timer_detach t k) = lock_nest k"
  "timer_lists (rt_timer_detach t k) = l_remove t (timer_lists k)"
  "timers (rt_timer_detach t k) = (timers k)(t := (timers k t)\<lparr>tm_activated := False\<rparr>)"
  "sched_inv_x X (rt_timer_detach t k) = sched_inv_x X k"
  by (simp_all add: rt_timer_detach_def timer_deactivate_def)

lemma kinv_detach: "kinv_x Y k \<Longrightarrow> kinv_x (Y - {t}) (rt_timer_detach t k)"
  using timer_inv_detach(1) [of Y k t] stacks_ok_threads [of k "rt_timer_detach t k"]
  by (simp add: kinv_x_def sched_ok_def)

lemma remove_detach:
  "\<not> tm_activated (timers k t) \<Longrightarrow> timer_remove t k = rt_timer_detach t k"
  by (simp add: rt_timer_detach_def timer_deactivate_def upd_timer_def fun_upd_idem)

lemma timer_round_ok:
  assumes inv: "kinv k" and us: "user_timers_ok k" and hd: "timer_lists k HardTimers = t # ts"
  obtains k' where "timer_round app_callback t k = Some k'" "kinv k'" "rt_tick k' = rt_tick k"
    "timers k' = (timers k)(t := fired_timer (rt_tick k) (timers k t))"
    "timer_lists k' HardTimers = (if tm_periodic (timers k t)
       then timer_insert (\<lambda>s. timeout_tick (timers k' s)) t ts else ts)"
    "\<And>n. t = Thread_Timer n \<Longrightarrow> th_error (threads k' n) = - RT_ETIMEOUT \<and>
       th_stat (threads k' n) \<in> {RT_THREAD_READY, RT_THREAD_RUNNING}"
    "\<And>u. t \<noteq> Thread_Timer u \<Longrightarrow> same_tcb (threads k u) (threads k' u)"
proof -
  note T = timer_invD [OF kinvD(4) [OF inv]]
  have th: "t \<in> set (timer_lists k HardTimers)" using hd by simp
  have act: "tm_activated (timers k t)" "\<not> tm_soft (timers k t)" using T(2) [OF th] by auto
  let ?k1 = "timer_before_func HardLocal t k"
  note B = kinv_before_func [OF inv th]
  have rem: "l_remove t (timer_lists k) HardTimers = ts" by (simp add: l_remove_def hd)
  have s1: "set (timer_lists ?k1 h) = (if h = HardLocal then {t} else set (timer_lists k h) - {t})" for h
    unfolding B(2) using set_l_remove [OF T(1)] by simp
  show thesis
  proof (cases t)
    case (Thread_Timer n)
    have sus: "th_stat (threads k n) = RT_THREAD_SUSPEND" using T(7) th Thread_Timer by blast
    then have ok: "thread_timer_ok k n" using T(6) [of n] by simp
    have np: "\<not> tm_periodic (timers k t)" and tf: "timeout_func (timers ?k1 t) = Thread_Timeout n"
      using ok unfolding thread_timer_ok_def Thread_Timer [symmetric] by (simp_all add: B(3))
    have p: "th_stat (threads ?k1 n) = RT_THREAD_SUSPEND" using sus by (simp only: B(4))
    have q: "Thread_Timer n \<notin> set (timer_lists ?k1 HardTimers) \<union> set (timer_lists ?k1 SoftTimers)"
      unfolding Thread_Timer [symmetric] s1 by simp
    obtain k2 where k2: "thread_timeout n ?k1 = Some k2" "kinv_x {t} k2" "timers k2 = timers ?k1"
      "timer_lists k2 = timer_lists ?k1" "rt_tick k2 = rt_tick ?k1" "lock_nest k2 = lock_nest ?k1"
      "th_error (threads k2 n) = - RT_ETIMEOUT" "th_stat (threads k2 n) \<in> {RT_THREAD_READY, RT_THREAD_RUNNING}"
      "\<And>u. u \<noteq> n \<Longrightarrow> same_tcb (threads ?k1 u) (threads k2 u)"
      by (rule thread_timeout_ok [OF B(1) p q]) (rule that)
    have na: "\<not> tm_activated (timers k2 t)" using np by (simp add: k2(3) B(3))
    have after: "timer_after_func HardLocal t k2 = Some (rt_timer_detach t k2)"
      using np na by (simp add: timer_after_func_def l_isempty_def k2(4) B(2) Let_def remove_detach)
    show thesis
    proof (rule that [of "rt_timer_detach t k2"])
      show "timer_round app_callback t k = Some (rt_timer_detach t k2)"
        by (simp add: timer_round_def call_timeout_func_def tf k2(1) after)
      show "kinv (rt_timer_detach t k2)" using kinv_detach [OF k2(2), of t] by simp
      show "timer_lists (rt_timer_detach t k2) HardTimers = (if tm_periodic (timers k t)
          then timer_insert (\<lambda>s. timeout_tick (timers (rt_timer_detach t k2) s)) t ts else ts)"
        using np wf_listsD(1) [OF T(1), of HardTimers] hd
        by (simp add: k2(4) B(2) rem) (simp add: l_remove_def remove1_idem hd)
      show "timers (rt_timer_detach t k2) = (timers k)(t := fired_timer (rt_tick k) (timers k t))"
        using np by (simp add: k2(3) B(3) fired_timer_def)
      show "rt_tick (rt_timer_detach t k2) = rt_tick k" by (simp add: k2(5) B(5))
      show "th_error (threads (rt_timer_detach t k2) m) = - RT_ETIMEOUT \<and>
          th_stat (threads (rt_timer_detach t k2) m) \<in> {RT_THREAD_READY, RT_THREAD_RUNNING}" if "t = Thread_Timer m" for m
      proof -
        have "m = n" using that Thread_Timer by simp
        then show ?thesis using k2(7,8) by simp
      qed
      show "same_tcb (threads k u) (threads (rt_timer_detach t k2) u)" if "t \<noteq> Thread_Timer u" for u
        using k2(9) [of u] that Thread_Timer unfolding B(4) by auto
    qed
  next
    case (User_Timer n)
    obtain m where tf: "timeout_func (timers ?k1 t) = Timer_Callback m"
    proof -
      obtain m where "timeout_func (timers k t) = Timer_Callback m"
        using us unfolding User_Timer user_timers_ok_def by blast
      then show thesis by (intro that [of m]) (simp add: B(3))
    qed
    let ?k2 = "if tm_periodic (timers k t) then timer_arm t (rt_timer_detach t ?k1) else rt_timer_detach t ?k1"
    have i0: "kinv (rt_timer_detach t ?k1)" using kinv_detach [OF B(1), of t] by simp
    have dd: "timer_deactivate t (timer_remove t ?k1) = rt_timer_detach t ?k1"
      by (simp add: rt_timer_detach_def)
    have after: "timer_after_func HardLocal t ?k1 = Some ?k2"
    proof (cases "tm_periodic (timers k t)")
      case True
      have "\<not> tm_soft (timers (rt_timer_detach t ?k1) t)" using act True by (simp add: B(3))
      from rt_timer_start_hard [OF this] show ?thesis
        using True act by (simp add: timer_after_func_def l_isempty_def B(2,3) Let_def dd)
    next
      case False
      then show ?thesis
        by (simp add: timer_after_func_def l_isempty_def B(2,3) Let_def remove_detach)
    qed
    have rem2: "l_remove t (l_remove t (timer_lists k)) HardTimers = ts"
      using wf_listsD(1) [OF T(1), of HardTimers] hd by (simp add: l_remove_def remove1_idem)
    have rem1: "l_remove t ((l_remove t (timer_lists k))(HardLocal := [t])) HardTimers = ts"
      using rem2 by (simp add: l_remove_def)
    have rem3: "l_remove t (l_remove t ((l_remove t (timer_lists k))(HardLocal := [t]))) HardTimers = ts"
      using wf_listsD(1) [OF T(1), of HardTimers] hd by (simp add: l_remove_def remove1_idem)
    show thesis
    proof (rule that [of ?k2])
      show "timer_round app_callback t k = Some ?k2"
        by (simp add: timer_round_def call_timeout_func_def tf app_callback_def after)
      show "kinv ?k2" using i0 kinv_arm [OF i0, of t] User_Timer by simp
      show "timer_lists ?k2 HardTimers = (if tm_periodic (timers k t)
          then timer_insert (\<lambda>s. timeout_tick (timers ?k2 s)) t ts else ts)"
        using act rem1 rem3 by (simp add: timer_arm_lists B(2,3))
      show "timers ?k2 = (timers k)(t := fired_timer (rt_tick k) (timers k t))"
        by (simp add: B(3,5) fired_timer_def)
      show "rt_tick ?k2 = rt_tick k" by (simp add: B(5))
      show "th_error (threads ?k2 m) = - RT_ETIMEOUT \<and> th_stat (threads ?k2 m) \<in> {RT_THREAD_READY, RT_THREAD_RUNNING}"
        if "t = Thread_Timer m" for m using that User_Timer by simp
      show "same_tcb (threads k u) (threads ?k2 u)" if "t \<noteq> Thread_Timer u" for u
        by (simp add: B(4))
    qed
  qed
qed

lemma rt_timer_start_tick: "rt_timer_start t k = Some (e, k') \<Longrightarrow> rt_tick k' = rt_tick k"
  by (auto simp: rt_timer_start_def Let_def option_simps timer_deactivate_def timer_link_def
      dest!: rt_schedule_frame(5) split: if_splits)

lemma after_func_tick: "timer_after_func local t k = Some k' \<Longrightarrow> rt_tick k' = rt_tick k"
  by (auto simp: timer_after_func_def Let_def timer_deactivate_def
      dest!: rt_timer_start_tick split: if_splits)

lemma check_loop_round:
  assumes "timer_lists k HardTimers = t # ts" "timer_expired now (timers k t)"
    "timer_round cb t k = Some k'"
  shows "timer_check_loop cb (Suc fuel) now k = timer_check_loop cb fuel (rt_tick k') k'"
  using assms after_func_tick by (auto simp: timer_round_def Let_def option_simps)

text \<open>
  A hard timer list as \<open>rt_timer_check\<close> meets it: ordered from a base tick, and no period reaches
  more than half a turn beyond the base.
\<close>

definition timers_fit :: "u32 \<Rightarrow> kernel \<Rightarrow> bool" where
  "timers_fit b k \<longleftrightarrow>
     ordered_from b (\<lambda>s. timeout_tick (timers k s)) (timer_lists k HardTimers) \<and>
     rt_tick k - b < TICK_HALF \<and>
     (\<forall>t \<in> set (timer_lists k HardTimers). tm_periodic (timers k t) \<longrightarrow>
        0 < tm_init_tick (timers k t) \<and> tm_init_tick (timers k t) < TICK_HALF \<and>
        rt_tick k - b + tm_init_tick (timers k t) < TICK_HALF)"

definition expired_timers :: "kernel \<Rightarrow> timer_id list" where
  "expired_timers k =
     filter (\<lambda>t. timer_expired (rt_tick k) (timers k t)) (timer_lists k HardTimers)"

lemma ordered_expired:
  assumes "timers_fit b k" "timer_lists k HardTimers = t # ts" "\<not> timer_expired (rt_tick k) (timers k t)"
  shows "expired_timers k = []"
proof -
  let ?to = "\<lambda>s. timeout_tick (timers k s)"
  have cmp: "timer_expired (rt_tick k) (timers k s) \<longleftrightarrow> ?to s - b \<le> rt_tick k - b"
    if "s \<in> set (t # ts)" for s
  proof -
    have "?to s - b < TICK_HALF" using assms(1,2) that by (auto simp: timers_fit_def ordered_from_def)
    from tick_compare [of "rt_tick k" b, OF _ this] assms(1)
    show ?thesis by (auto simp: timers_fit_def timer_expired_def)
  qed
  have "rt_tick k - b < ?to t - b" using cmp [of t] assms(3) by simp
  moreover have "?to t - b \<le> ?to s - b" if "s \<in> set ts" for s
    using assms(1,2) that by (auto simp: timers_fit_def ordered_from_def)
  ultimately have "\<not> timer_expired (rt_tick k) (timers k s)" if "s \<in> set (t # ts)" for s
    using cmp [OF that] that by force
  then show ?thesis by (auto simp: expired_timers_def assms(2))
qed

lemma fired_not_expired:
  assumes "tm_periodic m" "0 < tm_init_tick m" "tm_init_tick m < TICK_HALF"
  shows "\<not> timer_expired now (fired_timer now m)"
proof -
  obtain i where i: "tm_init_tick m = i" by blast
  have "unat (- i) = 2 ^ 32 - unat i"
    using assms(2) i unat_sub_if_size [of 0 i] by (simp add: word_size word_le_nat_alt word_less_nat_alt)
  then have "\<not> - i < TICK_HALF"
    using assms(2,3) i by (simp add: word_less_nat_alt)
  then show ?thesis using assms(1) i by (simp add: timer_expired_def fired_timer_def)
qed

lemma length_filter_timer_insert:
  "length (filter P (timer_insert tick t ts)) = length (filter P (t # ts))"
  by (induction ts) auto

lemma fired_round:
  assumes fit: "timers_fit b k" and wf: "wf_lists (timer_lists k)"
    and hd: "timer_lists k HardTimers = t # ts" and ex: "timer_expired (rt_tick k) (timers k t)"
    and tick: "rt_tick k' = rt_tick k"
    and tm: "timers k' = (timers k)(t := fired_timer (rt_tick k) (timers k t))"
    and tl: "timer_lists k' HardTimers = (if tm_periodic (timers k t)
       then timer_insert (\<lambda>s. timeout_tick (timers k' s)) t ts else ts)"
  shows "timers_fit b k'" "length (expired_timers k) = Suc (length (expired_timers k'))"
    "s \<in> set (expired_timers k) \<Longrightarrow> s = t \<or> s \<in> set (expired_timers k')"
    "s \<in> set (expired_timers k') \<Longrightarrow> s \<in> set (expired_timers k)"
proof -
  have nt: "t \<notin> set ts" using wf_listsD(1) [OF wf, of HardTimers] hd by simp
  have same: "s \<in> set ts \<Longrightarrow> timers k' s = timers k s" for s using nt by (auto simp: tm)
  have per: "0 < tm_init_tick (timers k t)" "tm_init_tick (timers k t) < TICK_HALF"
    "rt_tick k - b + tm_init_tick (timers k t) < TICK_HALF" if "tm_periodic (timers k t)"
    using fit that hd by (auto simp: timers_fit_def)
  have o: "ordered_from b (\<lambda>s. timeout_tick (timers k' s)) ts"
  proof -
    have "ordered_from b (\<lambda>s. timeout_tick (timers k s)) ts"
      using fit hd by (simp add: timers_fit_def ordered_from_def)
    then show ?thesis
      unfolding ordered_from_def using same by (auto intro: sorted_wrt_mono_rel [rotated])
  qed
  show "timers_fit b k'"
    unfolding timers_fit_def
  proof (intro conjI ballI impI)
    show "ordered_from b (\<lambda>s. timeout_tick (timers k' s)) (timer_lists k' HardTimers)"
    proof (cases "tm_periodic (timers k t)")
      case True
      have "timeout_tick (timers k' t) - b < TICK_HALF"
        using per(3) [OF True] True by (simp add: tm fired_timer_def algebra_simps)
      from timer_insert_ordered [OF o this] show ?thesis using True by (simp add: tl)
    qed (use o tl in simp)
    show "rt_tick k' - b < TICK_HALF" using fit tick by (simp add: timers_fit_def)
    fix s assume s: "s \<in> set (timer_lists k' HardTimers)" "tm_periodic (timers k' s)"
    then have "s \<in> set (timer_lists k HardTimers)" "tm_periodic (timers k s)"
      "tm_init_tick (timers k' s) = tm_init_tick (timers k s)"
      using hd tl tm by (auto simp: fired_timer_def split: if_splits)
    then show "0 < tm_init_tick (timers k' s)" "tm_init_tick (timers k' s) < TICK_HALF"
      "rt_tick k' - b + tm_init_tick (timers k' s) < TICK_HALF"
      using fit tick by (auto simp: timers_fit_def)
  qed
  have ft: "filter (\<lambda>s. timer_expired (rt_tick k') (timers k' s)) ts =
      filter (\<lambda>s. timer_expired (rt_tick k) (timers k s)) ts"
    by (rule filter_cong) (simp_all add: same tick)
  have "length (expired_timers k') = length (filter (\<lambda>s. timer_expired (rt_tick k') (timers k' s)) ts)"
    using fired_not_expired [of "timers k t" "rt_tick k"] per
    by (auto simp: expired_timers_def tl length_filter_timer_insert tm tick)
  then show "length (expired_timers k) = Suc (length (expired_timers k'))"
    using ex by (simp add: ft) (simp add: expired_timers_def hd)
  show "s \<in> set (expired_timers k) \<Longrightarrow> s = t \<or> s \<in> set (expired_timers k')"
    using same by (auto simp: expired_timers_def hd tl tick split: if_splits)
  show "s \<in> set (expired_timers k') \<Longrightarrow> s \<in> set (expired_timers k)"
    using same fired_not_expired [of "timers k t" "rt_tick k"] per nt
    by (auto simp: expired_timers_def hd tl tick tm split: if_splits)
qed

text \<open>What a timer is set to do; firing and starting it change none of this.\<close>

definition same_setting :: "timer \<Rightarrow> timer \<Rightarrow> bool" where
  "same_setting m m' \<longleftrightarrow> timeout_func m' = timeout_func m \<and> tm_periodic m' = tm_periodic m \<and>
     tm_soft m' = tm_soft m \<and> tm_init_tick m' = tm_init_tick m"

lemma same_setting_refl [simp]: "same_setting m m"
  by (simp add: same_setting_def)

text \<open>
  With more fuel than there are expired timers the check returns; no expired timer is left, the
  list is still ordered, every thread whose timer expired is awake with \<open>-RT_ETIMEOUT\<close>, and no other
  thread has been woken and no other timer has left the list.
\<close>

lemma timer_check_loop_ok:
  assumes "kinv k" "user_timers_ok k" "timers_fit b k" "length (expired_timers k) < fuel"
  shows "\<exists>k'. timer_check_loop app_callback fuel (rt_tick k) k = Some k' \<and> kinv k' \<and>
    rt_tick k' = rt_tick k \<and> timers_fit b k' \<and> expired_timers k' = [] \<and>
    (\<forall>n. Thread_Timer n \<in> set (expired_timers k) \<longrightarrow>
       th_error (threads k' n) = - RT_ETIMEOUT \<and> th_stat (threads k' n) \<in> {RT_THREAD_READY, RT_THREAD_RUNNING}) \<and>
    (\<forall>n. Thread_Timer n \<notin> set (expired_timers k) \<longrightarrow> same_tcb (threads k n) (threads k' n)) \<and>
    (\<forall>s \<in> set (timer_lists k HardTimers). s \<notin> set (expired_timers k) \<longrightarrow>
       s \<in> set (timer_lists k' HardTimers) \<and> timers k' s = timers k s) \<and>
    (\<forall>s. same_setting (timers k s) (timers k' s))"
  using assms
proof (induction fuel arbitrary: k)
  case 0
  then show ?case by simp
next
  case (Suc fuel)
  show ?case
  proof (cases "timer_lists k HardTimers")
    case Nil
    then have "expired_timers k = []" by (simp add: expired_timers_def)
    then show ?thesis using Suc.prems Nil by simp
  next
    case (Cons t ts)
    show ?thesis
    proof (cases "timer_expired (rt_tick k) (timers k t)")
      case False
      then show ?thesis using Suc.prems Cons ordered_expired [OF Suc.prems(3) Cons False] by simp
    next
      case True
      obtain k1 where r: "timer_round app_callback t k = Some k1" "kinv k1" "rt_tick k1 = rt_tick k"
        "timers k1 = (timers k)(t := fired_timer (rt_tick k) (timers k t))"
        "timer_lists k1 HardTimers = (if tm_periodic (timers k t)
           then timer_insert (\<lambda>s. timeout_tick (timers k1 s)) t ts else ts)"
        "\<And>n. t = Thread_Timer n \<Longrightarrow> th_error (threads k1 n) = - RT_ETIMEOUT \<and>
           th_stat (threads k1 n) \<in> {RT_THREAD_READY, RT_THREAD_RUNNING}"
        "\<And>u. t \<noteq> Thread_Timer u \<Longrightarrow> same_tcb (threads k u) (threads k1 u)"
        by (rule timer_round_ok [OF Suc.prems(1,2) Cons]) (rule that)
      note fr = fired_round [OF Suc.prems(3) timer_invD(1) [OF kinvD(4) [OF Suc.prems(1)]] Cons True r(3-5)]
      have us: "user_timers_ok k1"
        using Suc.prems(2) by (auto simp: user_timers_ok_def r(4) fired_timer_def)
      have "length (expired_timers k1) < fuel" using fr(2) Suc.prems(4) by simp
      from Suc.IH [OF r(2) us fr(1) this] obtain k2 where
        k2: "timer_check_loop app_callback fuel (rt_tick k1) k1 = Some k2" "kinv k2"
          "rt_tick k2 = rt_tick k1" "timers_fit b k2" "expired_timers k2 = []" and
        woken: "\<And>n. Thread_Timer n \<in> set (expired_timers k1) \<Longrightarrow>
          th_error (threads k2 n) = - RT_ETIMEOUT \<and> th_stat (threads k2 n) \<in> {RT_THREAD_READY, RT_THREAD_RUNNING}" and
        others: "\<And>n. Thread_Timer n \<notin> set (expired_timers k1) \<Longrightarrow> same_tcb (threads k1 n) (threads k2 n)" and
        kept: "\<And>s. s \<in> set (timer_lists k1 HardTimers) \<Longrightarrow> s \<notin> set (expired_timers k1) \<Longrightarrow>
          s \<in> set (timer_lists k2 HardTimers) \<and> timers k2 s = timers k1 s" and
        setting: "\<And>s. same_setting (timers k1 s) (timers k2 s)"
        by blast
      have texp: "t \<in> set (expired_timers k)" using True Cons by (simp add: expired_timers_def)
      have "th_error (threads k2 n) = - RT_ETIMEOUT \<and> th_stat (threads k2 n) \<in> {RT_THREAD_READY, RT_THREAD_RUNNING}"
        if "Thread_Timer n \<in> set (expired_timers k)" for n
      proof (cases "Thread_Timer n \<in> set (expired_timers k1)")
        case False
        then have "t = Thread_Timer n" using fr(3) [OF that] by blast
        from r(6) [OF this] have "th_error (threads k1 n) = - RT_ETIMEOUT" "th_stat (threads k1 n) \<in> {RT_THREAD_READY, RT_THREAD_RUNNING}"
          by blast+
        then show ?thesis
          using same_tcb_awake [OF others [OF False]] same_tcbD(3) [OF others [OF False]] by simp
      qed (rule woken)
      moreover have "same_tcb (threads k n) (threads k2 n)"
        if "Thread_Timer n \<notin> set (expired_timers k)" for n
      proof (rule same_tcb_trans)
        show "same_tcb (threads k n) (threads k1 n)" using that texp by (intro r(7)) auto
        show "same_tcb (threads k1 n) (threads k2 n)" using that fr(4) by (intro others) blast
      qed
      moreover have "s \<in> set (timer_lists k2 HardTimers) \<and> timers k2 s = timers k s"
        if "s \<in> set (timer_lists k HardTimers)" "s \<notin> set (expired_timers k)" for s
      proof -
        have "s \<noteq> t" using that(2) texp by blast
        then show ?thesis
          using kept [of s] that fr(4) [of s] by (cases "tm_periodic (timers k t)") (auto simp: Cons r(4,5))
      qed
      moreover have "same_setting (timers k s) (timers k2 s)" for s
        using setting [of s] by (auto simp: same_setting_def r(4) fired_timer_def split: if_splits)
      ultimately show ?thesis
        using k2 r(3) check_loop_round [OF Cons True r(1), of fuel] by (intro exI [of _ k2]) simp
    qed
  qed
qed

subsection \<open>Timers on time\<close>

text \<open>
  What every reachable state has of its timers: no timer is set to half a turn or more, the user
  timers call a function of the application and their periods are positive and below half a turn,
  and the hard list is ordered as seen from the present tick, so that none of its timers is overdue.
  All but the tick itself keeps this step by step.
\<close>

definition user_timer_ok :: "timer \<Rightarrow> bool" where
  "user_timer_ok m \<longleftrightarrow> (\<exists>c. timeout_func m = Timer_Callback c) \<and>
     (tm_periodic m \<longrightarrow> 0 < tm_init_tick m \<and> tm_init_tick m < TICK_HALF - 1)"

definition timers_set :: "kernel \<Rightarrow> bool" where
  "timers_set k \<longleftrightarrow> (\<forall>t. tm_init_tick (timers k t) < TICK_HALF) \<and>
     (\<forall>n. user_timer_ok (timers k (User_Timer n)))"

definition punctual :: "kernel \<Rightarrow> bool" where
  "punctual k \<longleftrightarrow> timers_set k \<and> distinct (timer_lists k HardTimers) \<and>
     ordered_from (rt_tick k) (\<lambda>s. timeout_tick (timers k s)) (timer_lists k HardTimers)"

lemma punctual_cong:
  assumes "timers k' = timers k" "timer_lists k' HardTimers = timer_lists k HardTimers" "rt_tick k' = rt_tick k"
  shows "punctual k' = punctual k"
  using assms by (simp add: punctual_def timers_set_def)

lemma punctual_frame [simp]:
  "punctual (k\<lparr>lists := a\<rparr>) = punctual k" "punctual (k\<lparr>ready_group := b\<rparr>) = punctual k"
  "punctual (k\<lparr>current_thread := c\<rparr>) = punctual k" "punctual (k\<lparr>current_prio := d\<rparr>) = punctual k"
  "punctual (k\<lparr>lock_nest := e\<rparr>) = punctual k" "punctual (k\<lparr>interrupt_nest := f\<rparr>) = punctual k"
  "punctual (k\<lparr>soft_timer_busy := h\<rparr>) = punctual k" "punctual (k\<lparr>sems := i\<rparr>) = punctual k"
  "punctual (k\<lparr>mutexes := j\<rparr>) = punctual k" "punctual (k\<lparr>events := l\<rparr>) = punctual k"
  "punctual (k\<lparr>mailboxes := m\<rparr>) = punctual k" "punctual (k\<lparr>mqueues := m1\<rparr>) = punctual k"
  "punctual (k\<lparr>mempools := m2\<rparr>) = punctual k" "punctual (k\<lparr>mp_words := m3\<rparr>) = punctual k"
  "punctual (k\<lparr>switches := n\<rparr>) = punctual k" "punctual (upd_thread t g k) = punctual k"
  "punctual (rt_schedule_remove_thread t k) = punctual k" "punctual (rt_schedule_insert_thread t k) = punctual k"
  by (rule punctual_cong; simp)+

lemma ordered_from_cong:
  assumes "ordered_from b f ts" "\<And>s. s \<in> set ts \<Longrightarrow> g s = f s"
  shows "ordered_from b g ts"
  using assms unfolding ordered_from_def by (auto intro: sorted_wrt_mono_rel [rotated])

lemma ordered_from_remove1: "ordered_from b f ts \<Longrightarrow> ordered_from b f (remove1 t ts)"
proof (induction ts)
  case (Cons s ts)
  then show ?case using set_remove1_subset [of t ts] by (auto simp: ordered_from_def)
qed simp

lemma punctual_remove: "punctual k \<Longrightarrow> punctual (timer_remove t k)"
  by (simp add: punctual_def timers_set_def l_remove_def ordered_from_remove1)

lemma punctual_set:
  assumes p: "punctual k" and "tm_init_tick (f (timers k t)) < TICK_HALF"
    "\<And>n. t = User_Timer n \<Longrightarrow> user_timer_ok (f (timers k t))"
    "t \<in> set (timer_lists k HardTimers) \<Longrightarrow> timeout_tick (f (timers k t)) = timeout_tick (timers k t)"
  shows "punctual (upd_timer t f k)"
proof -
  have "ordered_from (rt_tick k) (\<lambda>s. timeout_tick (timers (upd_timer t f k) s)) (timer_lists k HardTimers)"
    using p assms(4) by (auto simp: punctual_def elim!: ordered_from_cong)
  then show ?thesis using assms by (auto simp: punctual_def timers_set_def)
qed

lemma punctual_deactivate: "punctual k \<Longrightarrow> punctual (timer_deactivate t k)"
  unfolding timer_deactivate_def
  by (rule punctual_set) (simp_all add: punctual_def timers_set_def user_timer_ok_def)

lemma punctual_stop: "punctual k \<Longrightarrow> punctual (snd (rt_timer_stop t k))"
  by (simp add: rt_timer_stop_def punctual_remove punctual_deactivate)

lemma punctual_detach: "punctual k \<Longrightarrow> punctual (rt_timer_detach t k)"
  by (simp add: rt_timer_detach_def punctual_remove punctual_deactivate)

lemma punctual_resume: "punctual k \<Longrightarrow> punctual (snd (rt_thread_resume t k))"
  by (simp add: rt_thread_resume_def Let_def punctual_stop)

lemma punctual_schedule: "rt_schedule k = Some k' \<Longrightarrow> punctual k' = punctual k"
  by (rule punctual_cong) (simp_all add: rt_schedule_frame)

text \<open>A started timer goes to its place.\<close>

lemma punctual_arm:
  assumes p: "punctual k"
  shows "punctual (timer_arm t k)"
proof -
  let ?k = "timer_arm t k" and ?ts = "l_remove t (timer_lists k) HardTimers"
  let ?to = "\<lambda>s. timeout_tick (timers ?k s)"
  have n: "t \<notin> set ?ts" "distinct ?ts"
    using p by (simp_all add: punctual_def l_remove_def)
  have "ordered_from (rt_tick k) (\<lambda>s. timeout_tick (timers k s)) ?ts"
    using p by (simp add: punctual_def l_remove_def ordered_from_remove1)
  then have o: "ordered_from (rt_tick ?k) ?to ?ts"
    using n(1) by (auto elim!: ordered_from_cong)
  have i: "?to t - rt_tick ?k < TICK_HALF" using p by (simp add: punctual_def timers_set_def)
  have s: "timers_set ?k" using p by (auto simp: punctual_def timers_set_def user_timer_ok_def)
  show ?thesis
    unfolding punctual_def timer_arm_lists
    using s n o timer_insert_ordered [OF o i] by (simp add: distinct_timer_insert)
qed

lemma rt_timer_start_arm:
  "rt_timer_start t k =
     (let k = timer_arm t k;
          need_schedule = tm_soft (timers k t) \<and> \<not> soft_timer_busy k \<and>
            th_stat (threads k (timer_thread k)) = RT_THREAD_SUSPEND
      in map_option (Pair RT_EOK)
           (if need_schedule then rt_schedule (snd (rt_thread_resume (timer_thread k) k)) else Some k))"
  by (simp add: rt_timer_start_def timer_arm_def rt_timer_detach_def Let_def)
   (auto simp: timer_link_def Let_def timer_deactivate_def map_conv_bind_option comp_def)

lemma punctual_start:
  assumes "rt_timer_start t k = Some (r, k')" "punctual k"
  shows "punctual k'"
  using assms punctual_arm [OF assms(2), of t] punctual_resume [OF punctual_arm [OF assms(2), of t]]
  by (auto simp: rt_timer_start_arm Let_def punctual_schedule split: if_splits)

text \<open>
  The check at the next tick finds the list in order, and what it leaves is ordered from that tick.
\<close>

lemma punctual_fits:
  assumes inv: "kinv k" and p: "punctual k"
  shows "timers_fit (rt_tick k) (k\<lparr>rt_tick := rt_tick k + 1\<rparr>)" "user_timers_ok k"
proof -
  have "0 < tm_init_tick (timers k t) \<and> tm_init_tick (timers k t) < TICK_HALF - 1"
    if t: "t \<in> set (timer_lists k HardTimers)" "tm_periodic (timers k t)" for t
  proof (cases t)
    case (Thread_Timer n)
    then have "th_stat (threads k n) = RT_THREAD_SUSPEND"
      using timer_invD(7) [OF kinvD(4) [OF inv]] t(1) by blast
    then have "thread_timer_ok k n" using timer_invD(6) [OF kinvD(4) [OF inv], of n] by simp
    then show ?thesis using t(2) by (simp add: thread_timer_ok_def Thread_Timer)
  next
    case (User_Timer n)
    then show ?thesis using p t(2) by (simp add: punctual_def timers_set_def user_timer_ok_def)
  qed
  moreover have "n < TICK_HALF - 1 \<Longrightarrow> n < TICK_HALF \<and> 1 + n < TICK_HALF" for n :: u32
    by (simp add: word_less_nat_alt unat_word_ariths)
  ultimately show "timers_fit (rt_tick k) (k\<lparr>rt_tick := rt_tick k + 1\<rparr>)"
    using p by (simp add: timers_fit_def punctual_def)
  show "user_timers_ok k" using p by (simp add: punctual_def timers_set_def user_timer_ok_def user_timers_ok_def)
qed

lemma not_due_later:
  fixes b x :: u32
  assumes x: "x - b < TICK_HALF" and n: "\<not> (b + 1) - x < TICK_HALF"
  shows "unat (x - (b + 1)) = unat (x - b) - 1" "1 < unat (x - b)"
proof -
  obtain m where m: "x - b = m" by blast
  have e: "(b + 1) - x = 1 - m" "x - (b + 1) = m - 1" using m by (auto simp: algebra_simps)
  have "m \<noteq> 0" "m \<noteq> 1" using n unfolding e by auto
  then have "unat m \<noteq> unat (0 :: u32)" "unat m \<noteq> unat (1 :: u32)" by (blast dest: unsigned_word_eqI)+
  then show "1 < unat (x - b)" using m by (simp del: unat_eq_0)
  then show "unat (x - (b + 1)) = unat (x - b) - 1"
    unfolding e m by (subst unat_sub) (simp_all add: word_le_nat_alt)
qed

lemma due_next:
  fixes b x :: u32
  assumes x: "x - b < TICK_HALF"
  shows "(b + 1) - x < TICK_HALF \<longleftrightarrow> unat (x - b) \<le> 1"
proof
  obtain m where m: "x - b = m" by blast
  have e: "(b + 1) - x = 1 - m" using m by (auto simp: algebra_simps)
  show "(b + 1) - x < TICK_HALF" if l: "unat (x - b) \<le> 1"
  proof -
    have "unat m = unat (0 :: u32) \<or> unat m = unat (1 :: u32)" using l m by (simp del: unat_eq_0) linarith
    then have "m = 0 \<or> m = 1" by (blast dest: unsigned_word_eqI)
    then show ?thesis unfolding e by (elim disjE) simp_all
  qed
  show "unat (x - b) \<le> 1" if d: "(b + 1) - x < TICK_HALF"
  proof (rule ccontr)
    assume "\<not> unat (x - b) \<le> 1"
    then have "unat (1 - m) = 1 + 2 ^ 32 - unat m"
      using m unat_sub_if_size [of 1 m] by (simp add: word_size word_le_nat_alt)
    moreover have "unat m < 2 ^ 31 - 1" using x m by (simp add: word_less_nat_alt)
    ultimately show False using d unfolding e by (simp add: word_less_nat_alt)
  qed
qed

lemma ordered_next:
  assumes o: "ordered_from b f ts" and n: "\<And>t. t \<in> set ts \<Longrightarrow> \<not> (b + 1) - f t < TICK_HALF"
  shows "ordered_from (b + 1) f ts"
proof -
  have d: "unat (f t - (b + 1)) = unat (f t - b) - 1" "1 < unat (f t - b)" if "t \<in> set ts" for t
    using not_due_later [of "f t" b] o n [OF that] that by (auto simp: ordered_from_def)
  have "f t - (b + 1) < TICK_HALF" if "t \<in> set ts" for t
    using d [OF that] o that by (force simp: ordered_from_def word_less_nat_alt)
  moreover have "sorted_wrt (\<lambda>s t. f s - (b + 1) \<le> f t - (b + 1)) ts"
  proof (rule sorted_wrt_mono_rel)
    show "sorted_wrt (\<lambda>s t. f s - b \<le> f t - b) ts" using o by (simp add: ordered_from_def)
    show "f s - (b + 1) \<le> f t - (b + 1)" if "s \<in> set ts" "t \<in> set ts" "f s - b \<le> f t - b" for s t
      using that(3) d(1) [OF that(1)] d(1) [OF that(2)] by (simp add: word_le_nat_alt)
  qed
  ultimately show ?thesis by (simp add: ordered_from_def)
qed

lemma punctual_next:
  assumes fit: "timers_fit b k" and t: "rt_tick k = b + 1" and e: "expired_timers k = []"
    and d: "distinct (timer_lists k HardTimers)" and s: "timers_set k"
  shows "punctual k"
proof -
  have "\<not> (b + 1) - timeout_tick (timers k s) < TICK_HALF" if "s \<in> set (timer_lists k HardTimers)" for s
  proof -
    have "\<not> timer_expired (rt_tick k) (timers k s)"
      using e that by (simp add: expired_timers_def filter_empty_conv)
    then show ?thesis by (simp add: timer_expired_def t)
  qed
  then have "ordered_from (b + 1) (\<lambda>s. timeout_tick (timers k s)) (timer_lists k HardTimers)"
    using fit by (intro ordered_next) (simp_all add: timers_fit_def)
  then show ?thesis using d s t by (simp add: punctual_def)
qed

text \<open>
  The missing \<open>break\<close> of \<open>GET_STATE\<close>: what it stores is the timeout tick, whether the timer is active
  or not.
\<close>

lemma rt_timer_get_state_lost:
  "rt_timer_control t RT_TIMER_CTRL_GET_STATE k = rt_timer_control t RT_TIMER_CTRL_GET_REMAIN_TIME k"
  by (simp add: rt_timer_control_def)

end
