(* ===== verification/Thread.thy ===== *)
theory Thread
  imports Timer
begin

text \<open>
  \<open>src/thread.c\<close>, \<open>src/clock.c\<close>, \<open>src/irq.c\<close>, the defunct list and hooks of \<open>src/idle.c\<close>, and the
  timer thread of \<open>src/timer.c\<close>. A call that gives up the CPU is modelled up to the return of
  its \<open>rt_schedule\<close>; what it does once its thread runs again is the definition with the suffix
  \<open>_resume\<close>. Static and dynamic threads differ only in who owns their memory, so \<open>rt_thread_detach\<close>
  and \<open>rt_thread_delete\<close> act alike on the kernel state.
\<close>

subsection \<open>Creating threads\<close>

text \<open>
  The initial stack of the Cortex-M3 port: the frame that the first context switch pops, as
  the words \<open>r4\<close>-\<open>r11\<close>, \<open>r0\<close>-\<open>r3\<close>, \<open>r12\<close>, \<open>lr\<close>, \<open>pc\<close>, \<open>psr\<close>, and its address.
\<close>

definition rt_hw_stack_init :: "u32 \<Rightarrow> u32 \<Rightarrow> nat \<Rightarrow> u32 \<Rightarrow> nat \<times> u32 list" where
  "rt_hw_stack_init tentry parameter stack_address texit =
     (let stk = (stack_address + 4) mod 2 ^ 32;
          stk = RT_ALIGN_DOWN stk 8;
          frame = replicate 16 0xdeadbeef;
          frame = frame[8 := parameter, 9 := 0, 10 := 0, 11 := 0, 12 := 0, 13 := texit,
                        14 := tentry, 15 := 0x01000000]
      in ((stk + 2 ^ 32 - 4 * length frame) mod 2 ^ 32, frame))"

definition thread_init :: "nat \<Rightarrow> u32 \<Rightarrow> u32 \<Rightarrow> u32 \<Rightarrow> nat \<Rightarrow> nat \<Rightarrow> nat \<Rightarrow> u32 \<Rightarrow> kernel \<Rightarrow> (int \<times> kernel) option" where
  "thread_init t entry parameter texit stack_start stk_size priority tick k = do {
     let sp = fst (rt_hw_stack_init entry parameter ((stack_start + stk_size + 2 ^ 32 - 4) mod 2 ^ 32) texit);
     _ \<leftarrow> rt_assert (priority < 32);
     let k = upd_thread t (\<lambda>h. h\<lparr>
       th_stat := RT_THREAD_INIT, th_yield := False, th_error := RT_EOK,
       current_priority := priority, number_mask := 0, event_set := 0, event_info := 0,
       th_init_tick := tick, remaining_tick := tick,
       stack_addr := stack_start, stack_size := stk_size, stack_ptr := sp,
       stack_guard := (if 0 < stk_size then 0x23 else stack_guard h)\<rparr>) k;
     k \<leftarrow> rt_timer_init (Thread_Timer t) (Thread_Timeout t) 0 0 k;
     Some (RT_EOK, k) }"

definition rt_thread_init :: "nat \<Rightarrow> u32 \<Rightarrow> u32 \<Rightarrow> u32 \<Rightarrow> nat \<Rightarrow> nat \<Rightarrow> nat \<Rightarrow> u32 \<Rightarrow> kernel \<Rightarrow> (int \<times> kernel) option" where
  "rt_thread_init t entry parameter texit stack_start stk_size priority tick k = do {
     _ \<leftarrow> rt_assert (stack_start \<noteq> 0);
     thread_init t entry parameter texit stack_start stk_size priority tick k }"

text \<open>
  \<open>rt_thread_create\<close> takes the control block and the stack from the allocators, whose results are
  arguments; a failed allocation gives no thread.
\<close>

definition rt_thread_create ::
  "nat option \<Rightarrow> nat option \<Rightarrow> u32 \<Rightarrow> u32 \<Rightarrow> u32 \<Rightarrow> nat \<Rightarrow> nat \<Rightarrow> u32 \<Rightarrow> kernel \<Rightarrow> (nat option \<times> kernel) option" where
  "rt_thread_create obj stack entry parameter texit stk_size priority tick k =
     (case (obj, stack) of
        (Some t, Some stack_start) \<Rightarrow> do {
          (_, k) \<leftarrow> thread_init t entry parameter texit stack_start stk_size priority tick k;
          Some (Some t, k) }
      | _ \<Rightarrow> Some (None, k))"

definition rt_thread_self :: "kernel \<Rightarrow> nat option" where
  "rt_thread_self k = current_thread k"

definition rt_thread_startup :: "nat \<Rightarrow> kernel \<Rightarrow> (int \<times> kernel) option" where
  "rt_thread_startup t k = do {
     _ \<leftarrow> rt_assert (th_stat (threads k t) = RT_THREAD_INIT);
     let k = upd_thread t (\<lambda>h. h\<lparr>number_mask := push_bit (current_priority h) 1\<rparr>) k;
     let k = upd_thread t (\<lambda>h. h\<lparr>th_stat := RT_THREAD_SUSPEND, th_yield := False\<rparr>) k;
     let k = snd (rt_thread_resume t k);
     k \<leftarrow> (if rt_thread_self k \<noteq> None then rt_schedule k else Some k);
     Some (RT_EOK, k) }"

subsection \<open>Ending threads\<close>

definition rt_thread_defunct_enqueue :: "nat \<Rightarrow> kernel \<Rightarrow> kernel" where
  "rt_thread_defunct_enqueue t k = k\<lparr>lists := l_prepend DefunctQ t (lists k)\<rparr>"

definition rt_thread_defunct_dequeue :: "kernel \<Rightarrow> nat option \<times> kernel" where
  "rt_thread_defunct_dequeue k =
     (case lists k DefunctQ of
        [] \<Rightarrow> (None, k)
      | t # _ \<Rightarrow> (Some t, k\<lparr>lists := l_remove t (lists k)\<rparr>))"

text \<open>The steps shared by \<open>_thread_exit\<close>, \<open>rt_thread_detach\<close> and \<open>rt_thread_delete\<close>.\<close>

definition thread_close :: "nat \<Rightarrow> kernel \<Rightarrow> kernel" where
  "thread_close t k =
     (let k = rt_timer_detach (Thread_Timer t) k;
          k = upd_thread t (\<lambda>h. h\<lparr>th_stat := RT_THREAD_CLOSE, th_yield := False\<rparr>) k
      in rt_thread_defunct_enqueue t k)"

definition thread_exit :: "kernel \<Rightarrow> kernel option" where
  "thread_exit k = do {
     t \<leftarrow> rt_thread_self k;
     let k = rt_schedule_remove_thread t k;
     rt_schedule (thread_close t k) }"

definition rt_thread_detach :: "nat \<Rightarrow> kernel \<Rightarrow> int \<times> kernel" where
  "rt_thread_detach t k =
     (if th_stat (threads k t) = RT_THREAD_CLOSE then (RT_EOK, k)
      else
        let k = (if th_stat (threads k t) \<noteq> RT_THREAD_INIT then rt_schedule_remove_thread t k else k)
        in (RT_EOK, thread_close t k))"

definition rt_thread_delete :: "nat \<Rightarrow> kernel \<Rightarrow> int \<times> kernel" where
  "rt_thread_delete t k =
     (if th_stat (threads k t) = RT_THREAD_CLOSE then (RT_EOK, k)
      else
        let k = (if th_stat (threads k t) \<noteq> RT_THREAD_INIT then rt_schedule_remove_thread t k else k)
        in (RT_EOK, thread_close t k))"

text \<open>
  The idle thread takes closed threads off the list until it is empty and releases their
  memory; the result lists them in that order. \<open>fuel\<close> bounds the rounds.
\<close>

fun rt_defunct_execute :: "nat \<Rightarrow> kernel \<Rightarrow> (nat list \<times> kernel) option" where
  "rt_defunct_execute 0 k = None"
| "rt_defunct_execute (Suc fuel) k =
     (case rt_thread_defunct_dequeue k of
        (None, k) \<Rightarrow> Some ([], k)
      | (Some t, k) \<Rightarrow> map_option (\<lambda>(ts, k). (t # ts, k)) (rt_defunct_execute fuel k))"

subsection \<open>Yielding and sleeping\<close>

definition rt_thread_yield :: "kernel \<Rightarrow> kernel option" where
  "rt_thread_yield k = do {
     t \<leftarrow> rt_thread_self k;
     let k = upd_thread t (\<lambda>h. h\<lparr>remaining_tick := th_init_tick h, th_yield := True\<rparr>) k;
     rt_schedule k }"

text \<open>Setting the time of the thread's own timer and starting it.\<close>

definition thread_timer_start :: "nat \<Rightarrow> u32 \<Rightarrow> kernel \<Rightarrow> kernel option" where
  "thread_timer_start t tick k = do {
     (_, _, k) \<leftarrow> rt_timer_control (Thread_Timer t) (RT_TIMER_CTRL_SET_TIME tick) k;
     (_, k) \<leftarrow> rt_timer_start (Thread_Timer t) k;
     Some k }"

definition rt_thread_sleep :: "u32 \<Rightarrow> kernel \<Rightarrow> kernel option" where
  "rt_thread_sleep tick k = do {
     t \<leftarrow> rt_thread_self k;
     let k = upd_thread t (\<lambda>h. h\<lparr>th_error := RT_EOK\<rparr>) k;
     (_, k) \<leftarrow> rt_thread_suspend t k;
     k \<leftarrow> thread_timer_start t tick k;
     rt_schedule k }"

definition rt_thread_sleep_resume :: "nat \<Rightarrow> kernel \<Rightarrow> int \<times> kernel" where
  "rt_thread_sleep_resume t k =
     (let k = (if th_error (threads k t) = - RT_ETIMEOUT
               then upd_thread t (\<lambda>h. h\<lparr>th_error := RT_EOK\<rparr>) k else k)
      in (th_error (threads k t), k))"

definition rt_thread_delay :: "u32 \<Rightarrow> kernel \<Rightarrow> kernel option" where
  "rt_thread_delay tick k = rt_thread_sleep tick k"

definition rt_thread_delay_until :: "u32 \<Rightarrow> u32 \<Rightarrow> kernel \<Rightarrow> (int ret \<times> u32 \<times> kernel) option" where
  "rt_thread_delay_until tick inc_tick k = do {
     t \<leftarrow> rt_thread_self k;
     let k = upd_thread t (\<lambda>h. h\<lparr>th_error := RT_EOK\<rparr>) k;
     let cur_tick = rt_tick k;
     if cur_tick - tick < inc_tick then do {
       let tick = tick + inc_tick;
       let left_tick = tick - cur_tick;
       (_, k) \<leftarrow> rt_thread_suspend t k;
       k \<leftarrow> thread_timer_start t left_tick k;
       k \<leftarrow> rt_schedule k;
       Some (Blocked, tick, k)
     } else Some (Ret (th_error (threads k t)), cur_tick, k) }"

definition rt_tick_from_millisecond :: "int \<Rightarrow> u32" where
  "rt_tick_from_millisecond ms =
     (if ms < 0 then 0xffffffff
      else
        let tick = word_of_int (1000 * (ms div 1000))
        in tick + word_of_int ((1000 * (ms mod 1000) + 999) div 1000))"

definition rt_thread_mdelay :: "int \<Rightarrow> kernel \<Rightarrow> kernel option" where
  "rt_thread_mdelay ms k = rt_thread_sleep (rt_tick_from_millisecond ms) k"

subsection \<open>Controlling threads\<close>

datatype thread_cmd = RT_THREAD_CTRL_CHANGE_PRIORITY nat | RT_THREAD_CTRL_STARTUP
  | RT_THREAD_CTRL_CLOSE | RT_THREAD_CTRL_OTHER

definition set_priority :: "nat \<Rightarrow> thread \<Rightarrow> thread" where
  "set_priority p h = h\<lparr>current_priority := p, number_mask := push_bit p 1\<rparr>"

definition rt_thread_control :: "nat \<Rightarrow> thread_cmd \<Rightarrow> kernel \<Rightarrow> (int \<times> kernel) option" where
  "rt_thread_control t cmd k =
     (case cmd of
        RT_THREAD_CTRL_CHANGE_PRIORITY p \<Rightarrow>
          (if th_stat (threads k t) = RT_THREAD_READY
           then
             let k = rt_schedule_remove_thread t k;
                 k = upd_thread t (set_priority p) k;
                 k = rt_schedule_insert_thread t k
             in Some (RT_EOK, k)
           else Some (RT_EOK, upd_thread t (set_priority p) k))
      | RT_THREAD_CTRL_STARTUP \<Rightarrow> rt_thread_startup t k
      | RT_THREAD_CTRL_CLOSE \<Rightarrow> do {
          let (err, k) = rt_thread_detach t k;
          k \<leftarrow> rt_schedule k;
          Some (err, k) }
      | RT_THREAD_CTRL_OTHER \<Rightarrow> Some (RT_EOK, k))"

subsection \<open>The clock and interrupts\<close>

definition rt_tick_get :: "kernel \<Rightarrow> u32" where
  "rt_tick_get k = rt_tick k"

definition rt_tick_set :: "u32 \<Rightarrow> kernel \<Rightarrow> kernel" where
  "rt_tick_set tick k = k\<lparr>rt_tick := tick\<rparr>"

definition rt_tick_increase :: "(nat \<Rightarrow> kernel \<Rightarrow> kernel option) \<Rightarrow> nat \<Rightarrow> kernel \<Rightarrow> kernel option" where
  "rt_tick_increase cb fuel k = do {
     let k = k\<lparr>rt_tick := rt_tick k + 1\<rparr>;
     t \<leftarrow> rt_thread_self k;
     let k = upd_thread t (\<lambda>h. h\<lparr>remaining_tick := remaining_tick h - 1\<rparr>) k;
     k \<leftarrow> (if remaining_tick (threads k t) = 0
           then rt_schedule (upd_thread t (\<lambda>h. h\<lparr>remaining_tick := th_init_tick h, th_yield := True\<rparr>) k)
           else Some k);
     rt_timer_check cb fuel k }"

definition rt_tick_get_millisecond :: "kernel \<Rightarrow> u32" where
  "rt_tick_get_millisecond k = rt_tick_get k * (1000 div 1000)"

definition rt_interrupt_enter :: "kernel \<Rightarrow> kernel" where
  "rt_interrupt_enter k = k\<lparr>interrupt_nest := (interrupt_nest k + 1) mod 256\<rparr>"

definition rt_interrupt_leave :: "kernel \<Rightarrow> kernel" where
  "rt_interrupt_leave k = k\<lparr>interrupt_nest := (interrupt_nest k + 255) mod 256\<rparr>"

definition rt_interrupt_get_nest :: "kernel \<Rightarrow> nat" where
  "rt_interrupt_get_nest k = interrupt_nest k"

subsection \<open>The system's own threads\<close>

text \<open>One round of the timer thread: wait for the next soft timer, then check the soft timers.\<close>

definition timer_thread_wait :: "kernel \<Rightarrow> (unit ret \<times> kernel) option" where
  "timer_thread_wait k =
     (case timer_list_next_timeout SoftTimers k of
        (_, None) \<Rightarrow> do {
          t \<leftarrow> rt_thread_self k;
          (_, k) \<leftarrow> rt_thread_suspend t k;
          k \<leftarrow> rt_schedule k;
          Some (Blocked, k) }
      | (_, Some next_timeout) \<Rightarrow>
          let current_tick = rt_tick k in
          if next_timeout - current_tick < TICK_HALF then do {
            k \<leftarrow> rt_thread_delay (next_timeout - current_tick) k;
            Some (Blocked, k)
          } else Some (Ret (), k))"

definition rt_system_timer_thread_init :: "u32 \<Rightarrow> u32 \<Rightarrow> nat \<Rightarrow> kernel \<Rightarrow> (int \<times> kernel) option" where
  "rt_system_timer_thread_init entry texit stack k = do {
     let k = k\<lparr>timer_lists := (timer_lists k)(SoftTimers := [])\<rparr>;
     (_, k) \<leftarrow> rt_thread_init (timer_thread k) entry 0 texit stack 512 4 10 k;
     rt_thread_startup (timer_thread k) k }"

definition rt_thread_idle_init :: "nat \<Rightarrow> u32 \<Rightarrow> u32 \<Rightarrow> nat \<Rightarrow> nat \<Rightarrow> kernel \<Rightarrow> (int \<times> kernel) option" where
  "rt_thread_idle_init idle entry texit stack stk_size k = do {
     (_, k) \<leftarrow> rt_thread_init idle entry 0 texit stack stk_size 31 32 k;
     rt_thread_startup idle k }"

text \<open>The idle hooks: four slots; \<open>RT_ENOSYS\<close> is 6.\<close>

fun set_first :: "'a option \<Rightarrow> 'a option \<Rightarrow> 'a option list \<Rightarrow> 'a option list option" where
  "set_first old new [] = None"
| "set_first old new (s # ss) =
     (if s = old then Some (new # ss) else map_option (Cons s) (set_first old new ss))"

definition rt_thread_idle_sethook :: "'a \<Rightarrow> 'a option list \<Rightarrow> int \<times> 'a option list" where
  "rt_thread_idle_sethook hook slots =
     (case set_first None (Some hook) slots of
        None \<Rightarrow> (- RT_EFULL, slots) | Some slots' \<Rightarrow> (RT_EOK, slots'))"

definition rt_thread_idle_delhook :: "'a \<Rightarrow> 'a option list \<Rightarrow> int \<times> 'a option list" where
  "rt_thread_idle_delhook hook slots =
     (case set_first (Some hook) None slots of
        None \<Rightarrow> (- 6, slots) | Some slots' \<Rightarrow> (RT_EOK, slots'))"

definition idle_hook_calls :: "'a option list \<Rightarrow> 'a list" where
  "idle_hook_calls slots = List.map_filter id slots"

subsection \<open>Starting and ending threads keep the invariant\<close>

text \<open>A thread as \<open>rt_thread_init\<close> leaves it.\<close>

definition startable :: "kernel \<Rightarrow> nat \<Rightarrow> bool" where
  "startable k t \<longleftrightarrow> th_stat (threads k t) = RT_THREAD_INIT \<and> thread_timer_ok k t \<and>
     current_priority (threads k t) < 32 \<and> scheduler_stack_check (threads k t) = Some ()"

lemma RT_ALIGN_DOWN_gt: "0 < a \<Longrightarrow> n < RT_ALIGN_DOWN n a + a"
  using mod_less_divisor [of a n] unfolding RT_ALIGN_DOWN_def by linarith

text \<open>The control block that \<open>_thread_init\<close> leaves, with the stack pointer below the aligned top.\<close>

definition fresh_tcb :: "nat \<Rightarrow> u32 \<Rightarrow> nat \<Rightarrow> nat \<Rightarrow> thread" where
  "fresh_tcb priority tick stack_start stk_size = \<lparr>
     th_stat = RT_THREAD_INIT, th_yield = False, th_error = RT_EOK,
     current_priority = priority, number_mask = 0, event_set = 0, event_info = 0,
     th_init_tick = tick, remaining_tick = tick, stack_addr = stack_start, stack_size = stk_size,
     stack_ptr = RT_ALIGN_DOWN (stack_start + stk_size) 8 - 64, stack_guard = 0x23\<rparr>"

definition fresh_thread :: "nat \<Rightarrow> nat \<Rightarrow> u32 \<Rightarrow> nat \<Rightarrow> nat \<Rightarrow> kernel \<Rightarrow> kernel" where
  "fresh_thread t priority tick stack_start stk_size k =
     upd_timer (Thread_Timer t) (\<lambda>_. timer_init_fields (Thread_Timeout t) 0 0)
       (upd_thread t (\<lambda>_. fresh_tcb priority tick stack_start stk_size) k)"

text \<open>A stack of at least 80 bytes that lies in the address space takes the initial frame.\<close>

definition stack_fits :: "nat \<Rightarrow> nat \<Rightarrow> bool" where
  "stack_fits stack_start stk_size \<longleftrightarrow>
     0 < stack_start \<and> 80 \<le> stk_size \<and> stack_start + stk_size < 2 ^ 32"

lemma initial_stack_pointer:
  assumes "stack_fits stack_start stk_size"
  shows "fst (rt_hw_stack_init entry parameter ((stack_start + stk_size + 2 ^ 32 - 4) mod 2 ^ 32) texit) =
      RT_ALIGN_DOWN (stack_start + stk_size) 8 - 64"
    "stack_start < RT_ALIGN_DOWN (stack_start + stk_size) 8 - 64"
    "RT_ALIGN_DOWN (stack_start + stk_size) 8 - 64 \<le> stack_start + stk_size"
proof -
  let ?top = "stack_start + stk_size"
  note S = assms [unfolded stack_fits_def]
  have a: "?top < RT_ALIGN_DOWN ?top 8 + 8" "RT_ALIGN_DOWN ?top 8 \<le> ?top"
    using RT_ALIGN_DOWN_gt [of 8 ?top] RT_ALIGN_DOWN_le [of ?top 8] by auto
  have m1: "(?top + 2 ^ 32 - 4) mod 2 ^ 32 = ?top - 4"
  proof -
    have "?top + 2 ^ 32 - 4 = (?top - 4) + 2 ^ 32" using S by simp
    moreover have "?top - 4 < 2 ^ 32" using S by linarith
    ultimately show ?thesis by (simp only: mod_add_self2 mod_less)
  qed
  have m2: "(?top - 4 + 4) mod 2 ^ 32 = ?top" using S by simp
  have m3: "(RT_ALIGN_DOWN ?top 8 + 2 ^ 32 - 64) mod 2 ^ 32 = RT_ALIGN_DOWN ?top 8 - 64"
  proof -
    have "RT_ALIGN_DOWN ?top 8 + 2 ^ 32 - 64 = (RT_ALIGN_DOWN ?top 8 - 64) + 2 ^ 32" using a S by simp
    moreover have "RT_ALIGN_DOWN ?top 8 - 64 < 2 ^ 32" using a S by linarith
    ultimately show ?thesis by (simp only: mod_add_self2 mod_less)
  qed
  show "fst (rt_hw_stack_init entry parameter ((?top + 2 ^ 32 - 4) mod 2 ^ 32) texit) =
      RT_ALIGN_DOWN ?top 8 - 64"
    unfolding m1 rt_hw_stack_init_def Let_def m2 by (simp only: fst_conv length_list_update length_replicate)
      (simp add: m3 [simplified])
  show "stack_start < RT_ALIGN_DOWN ?top 8 - 64" "RT_ALIGN_DOWN ?top 8 - 64 \<le> ?top"
    using a S by linarith+
qed

lemma thread_init_fresh:
  assumes "priority < 32" "stack_fits stack_start stk_size"
  shows "thread_init t entry parameter texit stack_start stk_size priority tick k =
      Some (RT_EOK, fresh_thread t priority tick stack_start stk_size k)"
    "rt_thread_init t entry parameter texit stack_start stk_size priority tick k =
      Some (RT_EOK, fresh_thread t priority tick stack_start stk_size k)"
proof -
  have pos: "0 < stack_start" "0 < stk_size" using assms(2) by (simp_all add: stack_fits_def)
  have f: "(\<lambda>h. h\<lparr>
       th_stat := RT_THREAD_INIT, th_yield := False, th_error := RT_EOK,
       current_priority := priority, number_mask := 0, event_set := 0, event_info := 0,
       th_init_tick := tick, remaining_tick := tick, stack_addr := stack_start,
       stack_size := stk_size, stack_ptr := RT_ALIGN_DOWN (stack_start + stk_size) 8 - 64,
       stack_guard := (if 0 < stk_size then 0x23 else stack_guard h)\<rparr>) =
      (\<lambda>_. fresh_tcb priority tick stack_start stk_size)"
    using pos by (simp add: fresh_tcb_def fun_eq_iff)
  show "thread_init t entry parameter texit stack_start stk_size priority tick k =
      Some (RT_EOK, fresh_thread t priority tick stack_start stk_size k)"
    using assms(1) unfolding thread_init_def initial_stack_pointer(1) [OF assms(2)] Let_def f
    by (simp add: rt_timer_init_def fresh_thread_def)
  then show "rt_thread_init t entry parameter texit stack_start stk_size priority tick k =
      Some (RT_EOK, fresh_thread t priority tick stack_start stk_size k)"
    using pos by (simp add: rt_thread_init_def)
qed

lemma fresh_thread_simps [simp]:
  "threads (fresh_thread t p n a z k) = (threads k)(t := fresh_tcb p n a z)"
  "timers (fresh_thread t p n a z k) =
     (timers k)(Thread_Timer t := timer_init_fields (Thread_Timeout t) 0 0)"
  "lists (fresh_thread t p n a z k) = lists k" "timer_lists (fresh_thread t p n a z k) = timer_lists k"
  "current_thread (fresh_thread t p n a z k) = current_thread k"
  "lock_nest (fresh_thread t p n a z k) = lock_nest k"
  "timer_thread (fresh_thread t p n a z k) = timer_thread k"
  "ready_group (fresh_thread t p n a z k) = ready_group k"
  by (simp_all add: fresh_thread_def)

lemma fresh_startable:
  assumes "priority < 32" "stack_fits stack_start stk_size"
  shows "startable (fresh_thread t priority tick stack_start stk_size k) t"
  using assms(1) initial_stack_pointer [OF assms(2)]
  by (simp add: startable_def thread_timer_ok_def timer_init_fields_def fresh_tcb_def
      scheduler_stack_check_def)

text \<open>A thread that is not live can be initialised at any time.\<close>

lemma fresh_thread_ok:
  assumes s: "sched_inv k" and so: "stacks_ok k" and ti: "timer_inv k"
    and st: "th_stat (threads k t) = RT_THREAD_INIT"
  shows "sched_inv (fresh_thread t p n a z k)" "stacks_ok (fresh_thread t p n a z k)"
    "timer_inv (fresh_thread t p n a z k)"
proof -
  note T = timer_invD [OF ti]
  let ?k1 = "upd_thread t (\<lambda>_. fresh_tcb p n a z) k"
  let ?k = "fresh_thread t p n a z k"
  have u: "unlinked (lists k) t" by (rule running_unlinked [OF s]) (simp add: st)
  have "sched_inv_x {t} ?k1"
    by (rule sched_inv_upd_exempt [OF sched_inv_exempt [OF s u]]) (simp_all add: fresh_tcb_def)
  from sched_inv_drop [OF this, of t] have "sched_inv ?k1" by (simp add: fresh_tcb_def)
  then show "sched_inv ?k" by (simp add: fresh_thread_def upd_timer_def)
  have "stacks_ok ?k1" by (rule stacks_ok_upd [OF so]) (simp add: fresh_tcb_def)
  then show "stacks_ok ?k" by (rule stacks_ok_threads) simp
  have nl: "Thread_Timer t \<notin> set (timer_lists k HardTimers) \<union> set (timer_lists k SoftTimers)"
    using T(7) [of t] st by auto
  show "timer_inv ?k"
  proof (rule timer_invI)
    fix m
    show "m \<in> set (timer_lists ?k HardTimers) \<Longrightarrow> tm_activated (timers ?k m) \<and> \<not> tm_soft (timers ?k m)"
      "m \<in> set (timer_lists ?k SoftTimers) \<Longrightarrow> tm_activated (timers ?k m) \<and> tm_soft (timers ?k m)"
      using T(2,3) [of m] nl by auto
    show "tm_activated (timers ?k m) \<Longrightarrow> m \<notin> {} \<Longrightarrow>
        m \<in> set (timer_lists ?k HardTimers) \<union> set (timer_lists ?k SoftTimers)"
      using T(4) [of m] by (cases "m = Thread_Timer t") (simp_all add: timer_init_fields_def)
    show "m \<in> set (timer_lists ?k HardLocal) \<union> set (timer_lists ?k SoftLocal) \<Longrightarrow> m \<in> {}"
      using T(5) [of m] by simp
  next
    fix m
    show "live (threads ?k m) \<Longrightarrow> thread_timer_ok ?k m"
      using T(6) [of m] by (cases "m = t") (simp_all add: fresh_tcb_def thread_timer_ok_def)
    show "Thread_Timer m \<in> set (timer_lists ?k HardTimers) \<union> set (timer_lists ?k SoftTimers) \<Longrightarrow>
        th_stat (threads ?k m) = RT_THREAD_SUSPEND"
      using T(7) [of m] nl by (cases "m = t") auto
  qed (use T(1) in simp)
qed

text \<open>The first part of \<open>rt_thread_startup\<close> turns the thread into a suspended one behind no object.\<close>

definition startup_mark :: "nat \<Rightarrow> kernel \<Rightarrow> kernel" where
  "startup_mark t k = upd_thread t (\<lambda>h. h\<lparr>number_mask := push_bit (current_priority h) 1,
     th_stat := RT_THREAD_SUSPEND, th_yield := False\<rparr>) k"

lemma startup_mark_simps [simp]:
  "current_thread (startup_mark t k) = current_thread k"
  "threads (startup_mark t k) = (threads k)(t := (threads k t)\<lparr>
     number_mask := push_bit (current_priority (threads k t)) 1, th_stat := RT_THREAD_SUSPEND,
     th_yield := False\<rparr>)"
  "lists (startup_mark t k) = lists k" "timers (startup_mark t k) = timers k"
  "timer_lists (startup_mark t k) = timer_lists k" "lock_nest (startup_mark t k) = lock_nest k"
  "timer_thread (startup_mark t k) = timer_thread k"
  by (simp_all add: startup_mark_def)

lemma rt_thread_startup_unfold:
  assumes "startable k t"
  shows "rt_thread_startup t k =
    (let k = snd (rt_thread_resume t (startup_mark t k))
     in map_option (Pair RT_EOK) (if current_thread k \<noteq> None then rt_schedule k else Some k))"
proof -
  have e: "upd_thread t (\<lambda>h. h\<lparr>th_stat := RT_THREAD_SUSPEND, th_yield := False\<rparr>)
      (upd_thread t (\<lambda>h. h\<lparr>number_mask := push_bit (current_priority h) 1\<rparr>) k) = startup_mark t k"
    by (simp add: upd_thread_def startup_mark_def)
  show ?thesis
    using assms unfolding rt_thread_startup_def Let_def e
    by (simp add: startable_def rt_thread_self_def map_conv_bind_option comp_def)
qed

lemma startup_mark_ok:
  assumes s: "sched_inv k" and so: "stacks_ok k" and ti: "timer_inv k" and st: "startable k t"
  shows "sched_inv (startup_mark t k)" "stacks_ok (startup_mark t k)" "timer_inv (startup_mark t k)"
proof -
  note T = timer_invD [OF ti] and S = st [unfolded startable_def]
  have u: "unlinked (lists k) t" by (rule running_unlinked [OF s]) (simp add: S)
  have "sched_inv_x {t} (startup_mark t k)" unfolding startup_mark_def
    by (rule sched_inv_upd_exempt [OF sched_inv_exempt [OF s u]]) (use S in \<open>simp_all add: started_def\<close>)
  from sched_inv_drop [OF this, of t] show "sched_inv (startup_mark t k)" by simp
  show "stacks_ok (startup_mark t k)" unfolding startup_mark_def
    by (rule stacks_ok_upd [OF so]) (use S in \<open>simp add: scheduler_stack_check_def\<close>)
  show "timer_inv (startup_mark t k)"
  proof (rule timer_invI)
    fix n
    show "thread_timer_ok (startup_mark t k) n" if "live (threads (startup_mark t k) n)"
      using that T(6) [of n] S by (cases "n = t") (simp_all add: thread_timer_ok_def)
    show "th_stat (threads (startup_mark t k) n) = RT_THREAD_SUSPEND"
      if "Thread_Timer n \<in> set (timer_lists (startup_mark t k) HardTimers) \<union>
            set (timer_lists (startup_mark t k) SoftTimers)"
      using that T(7) [of n] by simp
    show "m \<in> set (timer_lists (startup_mark t k) HardLocal) \<union>
            set (timer_lists (startup_mark t k) SoftLocal) \<Longrightarrow> m \<in> {}" for m
      using T(5) [of m] by simp
  qed (use T(1-4) in simp_all)
qed

lemma rt_thread_startup_ok:
  assumes inv: "kinv k" and st: "startable k t"
  obtains k' where "rt_thread_startup t k = Some (RT_EOK, k')" "kinv k'"
    "th_stat (threads k' t) \<in> {RT_THREAD_READY, RT_THREAD_RUNNING}"
proof -
  note I = kinvD [OF inv]
  let ?k1 = "startup_mark t k"
  have i1: "kinv ?k1"
    using startup_mark_ok [OF I(2-4) st] I(5) by (simp add: kinv_x_def sched_ok_def)
  let ?k2 = "snd (rt_thread_resume t ?k1)"
  have sus: "th_stat (threads ?k1 t) = RT_THREAD_SUSPEND" by simp
  have i2: "kinv ?k2" using rt_thread_resume_suspended(2) [OF i1 sus] by simp
  obtain k' where k': "rt_schedule ?k2 = Some k'" "kinv k'" "\<And>u. same_tcb (threads ?k2 u) (threads k' u)"
    by (rule kinv_schedule [OF i2]) (rule that)
  have st2: "th_stat (threads ?k2 t) \<in> {RT_THREAD_READY, RT_THREAD_RUNNING}"
    unfolding rt_thread_resume_simps(1) [OF sus] by simp
  show thesis
  proof (rule that [of k'])
    show "rt_thread_startup t k = Some (RT_EOK, k')"
      using kinvD(5) [OF i2] k'(1) by (simp add: rt_thread_startup_unfold [OF st] Let_def)
    show "th_stat (threads k' t) \<in> {RT_THREAD_READY, RT_THREAD_RUNNING}"
    proof (rule ccontr)
      assume n: "th_stat (threads k' t) \<notin> {RT_THREAD_READY, RT_THREAD_RUNNING}"
      then have "threads k' t = threads ?k2 t" by (rule same_tcbD(10) [OF k'(3)])
      then show False using n st2 by (simp only: not_True_eq_False)
    qed
  qed (rule k'(2))
qed

text \<open>Closing a thread that is linked nowhere.\<close>

lemma kinv_thread_close:
  assumes inv: "sched_inv_x {t} k" and so: "stacks_ok k" and ti: "timer_inv k"
    and c: "current_thread k \<noteq> None"
  shows "kinv (thread_close t k)" "th_stat (threads (thread_close t k) t) = RT_THREAD_CLOSE"
    "lists (thread_close t k) DefunctQ = t # lists k DefunctQ"
proof -
  let ?k1 = "rt_timer_detach (Thread_Timer t) k"
  let ?k2 = "upd_thread t (\<lambda>h. h\<lparr>th_stat := RT_THREAD_CLOSE, th_yield := False\<rparr>) ?k1"
  have e: "thread_close t k = ?k2\<lparr>lists := l_prepend DefunctQ t (lists ?k2)\<rparr>"
    by (simp add: thread_close_def rt_thread_defunct_enqueue_def)
  have "sched_inv_x {t} ?k2"
    by (rule sched_inv_upd_exempt) (use inv in simp_all)
  from sched_inv_link_prepend [OF this, of t DefunctQ]
  have s: "sched_inv (thread_close t k)" unfolding e by simp
  have so1: "stacks_ok ?k1" by (rule stacks_ok_threads [OF so]) simp
  have "stacks_ok ?k2" by (rule stacks_ok_upd [OF so1]) simp
  then have so2: "stacks_ok (thread_close t k)" unfolding e by (rule stacks_ok_threads) simp
  have t1: "timer_inv ?k1" "unlinked (timer_lists ?k1) (Thread_Timer t)"
    using timer_inv_detach [OF ti, of "Thread_Timer t"] by simp_all
  have "timer_inv ?k2"
    by (rule timer_inv_cong [OF t1(1)])
      (use t1(2) in \<open>auto simp: unlinked_def simp del: detach_simps(7) split: if_splits\<close>)
  then have "timer_inv (thread_close t k)" unfolding e by simp
  then show "kinv (thread_close t k)" using s so2 c by (simp add: kinv_x_def sched_ok_def e)
  show "th_stat (threads (thread_close t k) t) = RT_THREAD_CLOSE"
    "lists (thread_close t k) DefunctQ = t # lists k DefunctQ"
    by (simp_all add: e l_prepend_def)
qed

lemma rt_thread_detach_ok:
  assumes inv: "kinv k"
  shows "fst (rt_thread_detach t k) = RT_EOK" "kinv (snd (rt_thread_detach t k))"
    "th_stat (threads (snd (rt_thread_detach t k)) t) = RT_THREAD_CLOSE"
proof -
  note I = kinvD [OF inv]
  show "fst (rt_thread_detach t k) = RT_EOK" by (simp add: rt_thread_detach_def)
  let ?k = "if th_stat (threads k t) \<noteq> RT_THREAD_INIT then rt_schedule_remove_thread t k else k"
  have "kinv (snd (rt_thread_detach t k)) \<and>
      th_stat (threads (snd (rt_thread_detach t k)) t) = RT_THREAD_CLOSE"
  proof (cases "th_stat (threads k t) = RT_THREAD_CLOSE")
    case True
    then show ?thesis using inv by (simp add: rt_thread_detach_def)
  next
    case False
    have "sched_inv_x {t} ?k"
    proof (cases "th_stat (threads k t) = RT_THREAD_INIT")
      case True
      then show ?thesis
        using sched_inv_exempt [OF I(2) running_unlinked [OF I(2), of t]] by simp
    next
      case f: False
      then show ?thesis
        using sched_inv_remove [OF I(2), of t] sched_invD(3) [OF I(2), of t] False by simp
    qed
    moreover have "stacks_ok ?k" by (rule stacks_ok_threads [OF I(3)]) simp
    moreover have "timer_inv ?k" using I(4) by simp
    moreover have "current_thread ?k \<noteq> None" using I(5) by simp
    ultimately show ?thesis
      using kinv_thread_close [of t ?k] False by (simp add: rt_thread_detach_def)
  qed
  then show "kinv (snd (rt_thread_detach t k))"
    "th_stat (threads (snd (rt_thread_detach t k)) t) = RT_THREAD_CLOSE" by auto
qed

lemma rt_thread_delete_detach: "rt_thread_delete t k = rt_thread_detach t k"
  by (simp add: rt_thread_delete_def rt_thread_detach_def)

lemma thread_exit_ok:
  assumes inv: "kinv k" and t: "current_thread k = Some t"
    and run: "th_stat (threads k t) = RT_THREAD_RUNNING"
  obtains k' where "thread_exit k = Some k'" "kinv k'" "th_stat (threads k' t) = RT_THREAD_CLOSE"
proof -
  note I = kinvD [OF inv]
  let ?k = "rt_schedule_remove_thread t k"
  have "sched_inv_x {t} ?k"
    using sched_inv_remove [OF I(2), of t] sched_invD(3) [OF I(2), of t] run by simp
  then have c: "kinv (thread_close t ?k)" "th_stat (threads (thread_close t ?k) t) = RT_THREAD_CLOSE"
    using kinv_thread_close [of t ?k] stacks_ok_threads [OF I(3), of ?k] I(4,5) by simp_all
  obtain k' where k': "rt_schedule (thread_close t ?k) = Some k'" "kinv k'"
    "\<And>u. same_tcb (threads (thread_close t ?k) u) (threads k' u)"
    by (rule kinv_schedule [OF c(1)]) (rule that)
  show thesis
  proof (rule that [OF _ k'(2)])
    show "thread_exit k = Some k'" using t k'(1) by (simp add: thread_exit_def rt_thread_self_def)
    show "th_stat (threads k' t) = RT_THREAD_CLOSE" using same_tcbD(9) [OF k'(3) [of t]] c(2) by simp
  qed
qed

text \<open>
  The idle thread's loop is the draining loop of the list interface: it empties the defunct
  list and releases the threads in list order.
\<close>

lemma rt_defunct_execute_drain:
  "rt_defunct_execute (Suc fuel) k =
     map_option (\<lambda>(ts, ls). (ts, k\<lparr>lists := ls\<rparr>)) (fam.drain fuel DefunctQ (lists k))"
proof (induction fuel arbitrary: k)
  case 0
  have "l_isempty DefunctQ (lists k) \<longleftrightarrow> lists k DefunctQ = []" by (simp add: l_isempty_def)
  then show ?case by (auto simp: rt_thread_defunct_dequeue_def split: list.splits)
next
  case (Suc fuel)
  have e: "l_isempty DefunctQ (lists k) \<longleftrightarrow> lists k DefunctQ = []" by (simp add: l_isempty_def)
  show ?case
  proof (cases "lists k DefunctQ")
    case Nil
    then show ?thesis using e by (simp add: rt_thread_defunct_dequeue_def)
  next
    case (Cons t ts)
    have "rt_defunct_execute (Suc (Suc fuel)) k = map_option (\<lambda>(ts, k). (t # ts, k))
        (rt_defunct_execute (Suc fuel) (k\<lparr>lists := l_remove t (lists k)\<rparr>))"
      by (subst rt_defunct_execute.simps(2))
        (simp add: rt_thread_defunct_dequeue_def Cons del: rt_defunct_execute.simps)
    then show ?thesis
      unfolding Suc.IH using e by (simp add: Cons option.map_comp o_def case_prod_beta)
  qed
qed

lemma rt_defunct_execute_ok:
  assumes "wf_lists (lists k)" "length (lists k DefunctQ) < fuel"
  shows "rt_defunct_execute fuel k =
    Some (lists k DefunctQ, k\<lparr>lists := (lists k)(DefunctQ := [])\<rparr>)"
proof -
  obtain f where f: "fuel = Suc f" using assms(2) by (cases fuel) auto
  obtain s' where "fam.drain f DefunctQ (lists k) = Some (lists k DefunctQ, s')"
    "family_rep s' ((lists k)(DefunctQ := []))"
    using fam.drain_order [of "lists k" "lists k" DefunctQ f] assms f by (auto simp: family_rep_def)
  then show ?thesis unfolding f rt_defunct_execute_drain by (simp add: family_rep_def)
qed

subsection \<open>Yielding, sleeping and priorities\<close>

lemma rt_thread_yield_ok:
  assumes inv: "kinv k"
  obtains k' where "rt_thread_yield k = Some k'" "kinv k'"
proof -
  obtain t where t: "current_thread k = Some t" using kinvD(5) [OF inv] by auto
  have i: "kinv (upd_thread t (\<lambda>h. h\<lparr>remaining_tick := th_init_tick h, th_yield := True\<rparr>) k)"
    by (rule kinv_upd_thread [OF inv]) (simp_all add: scheduler_stack_check_def)
  show thesis
    by (rule kinv_schedule [OF i], rule that) (simp_all add: rt_thread_yield_def rt_thread_self_def t)
qed

text \<open>
  Yielding passes the CPU to the first ready thread of the same priority, and the thread that
  yields goes to the end of that queue.
\<close>

lemma rt_thread_yield_rotates:
  assumes inv: "kinv k" and c: "current_thread k = Some c"
    and run: "th_stat (threads k c) = RT_THREAD_RUNNING" and l: "lock_nest k = 0"
    and p: "current_priority (threads k c) = p" and q: "lists k (ReadyQ p) = t # ts"
    and top: "\<And>r. r < p \<Longrightarrow> lists k (ReadyQ r) = []"
  obtains k' where "rt_thread_yield k = Some k'" "current_thread k' = Some t"
    "lists k' (ReadyQ p) = ts @ [c]"
proof -
  let ?k = "upd_thread c (\<lambda>h. h\<lparr>remaining_tick := th_init_tick h, th_yield := True\<rparr>) k"
  have i: "kinv ?k"
    by (rule kinv_upd_thread [OF inv]) (simp_all add: scheduler_stack_check_def)
  note I = kinvD [OF i] and S = sched_invD [OF kinvD(2) [OF i]]
  have p32: "p < 32" using S(3) [of c] run p by (simp add: started_def)
  have rg: "ready_group ?k \<noteq> 0" using S(2) [OF p32] q by (metis bit_0_eq bot_apply bot_bool_def list.distinct(1) upd_thread_simps(3))
  obtain u us r where h: "scheduler_get_highest_priority_thread ?k = Some (u, r)" "r < 32"
    "lists ?k (ReadyQ r) = u # us" "\<And>s. s < r \<Longrightarrow> lists ?k (ReadyQ s) = []"
    "th_stat (threads ?k u) = RT_THREAD_READY" "current_priority (threads ?k u) = r"
    by (rule get_highest [OF I(2) rg]) (rule that)
  have "r = p"
  proof (rule linorder_cases [of r p])
    assume "r < p" then show ?thesis using top [of r] h(3) by simp
  next
    assume "p < r" then show ?thesis using h(4) [of p] q by simp
  qed
  then have u: "u = t" "us = ts" using h(3) q by simp_all
  have tc: "t \<noteq> c" using h(5) run u by auto
  have nk: "\<not> keeps_running ?k c r" using \<open>r = p\<close> p by (simp add: keeps_running_def)
  have st: "scheduler_stack_check (threads ?k u) = Some ()"
    using I(3) h(5) by (simp add: stacks_ok_def)
  obtain k' where k': "rt_schedule ?k = Some k'" "sched_inv k'" "current_thread k' = Some u"
    "lists k' = l_remove u (if th_stat (threads ?k c) = RT_THREAD_RUNNING
       then l_append (ReadyQ (current_priority (threads ?k c))) c (lists ?k) else lists ?k)"
    by (rule schedule_switch [OF I(2) _ _ h(1) rg nk h(5) st]) (use c l in \<open>simp_all\<close>)
  have "lists k' (ReadyQ p) = ts @ [c]"
    using k'(4) u tc run p q by (simp add: l_remove_def l_append_def)
  then show thesis
    using that [of k'] k'(1,3) u c by (simp add: rt_thread_yield_def rt_thread_self_def)
qed

text \<open>The thread timer of a suspended thread, armed for \<open>n\<close> ticks.\<close>

definition timed :: "nat \<Rightarrow> u32 \<Rightarrow> kernel \<Rightarrow> kernel" where
  "timed t n k = timer_arm (Thread_Timer t) (upd_timer (Thread_Timer t) (\<lambda>m. m\<lparr>tm_init_tick := n\<rparr>) k)"

lemma timed_simps [simp]:
  "threads (timed t n k) = threads k" "lists (timed t n k) = lists k"
  "ready_group (timed t n k) = ready_group k" "current_thread (timed t n k) = current_thread k"
  "lock_nest (timed t n k) = lock_nest k" "interrupt_nest (timed t n k) = interrupt_nest k"
  "rt_tick (timed t n k) = rt_tick k" "soft_timer_busy (timed t n k) = soft_timer_busy k"
  "timer_thread (timed t n k) = timer_thread k" "sems (timed t n k) = sems k"
  "mutexes (timed t n k) = mutexes k" "events (timed t n k) = events k"
  "mailboxes (timed t n k) = mailboxes k"
  "mqueues (timed t n k) = mqueues k"
  "mempools (timed t n k) = mempools k"
  "mp_words (timed t n k) = mp_words k"
  "switches (timed t n k) = switches k"
  by (simp_all add: timed_def)

lemma thread_timer_start_timed:
  assumes inv: "kinv k" and sus: "th_stat (threads k t) = RT_THREAD_SUSPEND" and n: "n < TICK_HALF"
  shows "thread_timer_start t n k = Some (timed t n k)" "kinv (timed t n k)"
    "Thread_Timer t \<in> set (timer_lists (timed t n k) HardTimers)"
    "timeout_tick (timers (timed t n k) (Thread_Timer t)) = rt_tick k + n"
proof -
  note T = timer_invD [OF kinvD(4) [OF inv]] and I = kinvD [OF inv]
  have ns: "\<not> tm_soft (timers k (Thread_Timer t))"
    using T(6) [of t] sus by (simp add: thread_timer_ok_def)
  let ?k = "upd_timer (Thread_Timer t) (\<lambda>m. m\<lparr>tm_init_tick := n\<rparr>) k"
  show "thread_timer_start t n k = Some (timed t n k)"
    using n ns by (simp add: thread_timer_start_def rt_timer_control_def rt_timer_start_hard timed_def)
  have "timer_inv ?k"
  proof (rule timer_invI)
    show "live (threads ?k m) \<Longrightarrow> thread_timer_ok ?k m" for m
      using T(6) [of m] by (auto simp: thread_timer_ok_def)
    show "m \<in> set (timer_lists ?k HardLocal) \<union> set (timer_lists ?k SoftLocal) \<Longrightarrow> m \<in> {}" for m
      using T(5) [of m] by simp
    show "Thread_Timer m \<in> set (timer_lists ?k HardTimers) \<union> set (timer_lists ?k SoftTimers) \<Longrightarrow>
        th_stat (threads ?k m) = RT_THREAD_SUSPEND" for m
      using T(7) [of m] by simp
  qed (use T(1-4) in \<open>auto split: if_splits\<close>)
  then have "kinv ?k" using I stacks_ok_threads [OF I(3), of ?k] by (simp add: kinv_x_def sched_ok_def)
  from kinv_arm [OF this, of "Thread_Timer t"] show "kinv (timed t n k)"
    using sus by (simp add: timed_def)
  show "Thread_Timer t \<in> set (timer_lists (timed t n k) HardTimers)"
    using ns by (simp add: timed_def timer_arm_lists)
  show "timeout_tick (timers (timed t n k) (Thread_Timer t)) = rt_tick k + n"
    by (simp add: timed_def)
qed

text \<open>
  A sleeping thread is suspended, linked behind no object, with its timer set to the wake-up
  tick.
\<close>

lemma rt_thread_sleep_ok:
  assumes inv: "kinv k" and t: "current_thread k = Some t"
    and run: "th_stat (threads k t) = RT_THREAD_RUNNING" and n: "n < TICK_HALF"
  obtains k' where "rt_thread_sleep n k = Some k'" "kinv k'"
    "th_stat (threads k' t) = RT_THREAD_SUSPEND" "th_error (threads k' t) = RT_EOK"
    "Thread_Timer t \<in> set (timer_lists k' HardTimers)"
    "timeout_tick (timers k' (Thread_Timer t)) = rt_tick k + n" "rt_tick k' = rt_tick k"
proof -
  let ?k1 = "upd_thread t (\<lambda>h. h\<lparr>th_error := RT_EOK\<rparr>) k"
  have i1: "kinv ?k1" by (rule kinv_upd_thread [OF inv]) (simp_all add: scheduler_stack_check_def)
  let ?k2 = "snd (rt_timer_stop (Thread_Timer t) (upd_thread t (\<lambda>h. h\<lparr>th_stat := RT_THREAD_SUSPEND\<rparr>) ?k1))"
  have c1: "current_thread ?k1 = Some t" "th_stat (threads ?k1 t) = RT_THREAD_RUNNING"
    using t run by simp_all
  note sus = rt_thread_suspend_running [OF i1 c1, simplified]
  have s2: "th_stat (threads ?k2 t) = RT_THREAD_SUSPEND" by simp
  note arm = thread_timer_start_timed [OF sus(2) s2 n]
  obtain k' where k': "rt_schedule (timed t n ?k2) = Some k'" "kinv k'"
    "\<And>u. same_tcb (threads (timed t n ?k2) u) (threads k' u)"
    by (rule kinv_schedule [OF arm(2)]) (rule that)
  have same: "threads k' t = threads (timed t n ?k2) t" by (rule same_tcbD(9) [OF k'(3)]) simp
  show thesis
  proof (rule that [OF _ k'(2)])
    show "rt_thread_sleep n k = Some k'"
      using t sus(1) arm(1) k'(1) by (simp add: rt_thread_sleep_def rt_thread_self_def)
    show "Thread_Timer t \<in> set (timer_lists k' HardTimers)"
      using arm(3) by (simp only: rt_schedule_frame(2) [OF k'(1)])
    show "timeout_tick (timers k' (Thread_Timer t)) = rt_tick k + n"
      using arm(4) rt_schedule_frame(1) [OF k'(1)] by simp
    show "rt_tick k' = rt_tick k" by (simp add: rt_schedule_frame(5) [OF k'(1)])
  qed (simp_all add: same)
qed

lemma kinv_upd_thread_priority:
  assumes inv: "kinv k" and p: "p < 32" and nr: "th_stat (threads k t) \<noteq> RT_THREAD_READY"
  shows "kinv (upd_thread t (set_priority p) k)"
proof (rule kinvI)
  note I = kinvD [OF inv] and S = sched_invD [OF kinvD(2) [OF inv]]
  let ?k = "upd_thread t (set_priority p) k"
  have st: "th_stat (threads ?k u) = th_stat (threads k u)" for u by (simp add: set_priority_def)
  have nl: "t \<notin> set (lists k (ReadyQ q))" for q using S(4) [of t "ReadyQ q"] nr by auto
  show "sched_inv ?k"
  proof (rule sched_invI)
    show "live (threads ?k u) \<Longrightarrow> started (threads ?k u)" for u
      using S(3) [of u] p by (cases "u = t") (simp_all add: started_def set_priority_def)
    show "u \<in> set (lists ?k h) \<Longrightarrow> th_stat (threads ?k u) = list_stat h" for u h
      using S(4) [of u h] unfolding st by simp
    show "u \<in> set (lists ?k (ReadyQ q)) \<Longrightarrow> current_priority (threads ?k u) = q" for u q
      using S(5) [of u q] nl [of q] by (cases "u = t") auto
    show "u \<notin> {} \<Longrightarrow> th_stat (threads ?k u) = RT_THREAD_READY \<Longrightarrow>
        u \<in> set (lists ?k (ReadyQ (current_priority (threads ?k u))))" for u
      using S(6) [of u] nr by (cases "u = t") (auto simp: set_priority_def)
    show "u \<notin> {} \<Longrightarrow> th_stat (threads ?k u) = RT_THREAD_RUNNING \<Longrightarrow> current_thread ?k = Some u" for u
      using S(7) [of u] unfolding st by simp
  qed (use S(1,2) in simp_all)
  show "stacks_ok ?k"
    by (rule stacks_ok_upd [OF I(3)])
      (use I(3) in \<open>auto simp: stacks_ok_def set_priority_def scheduler_stack_check_def\<close>)
  show "timer_inv ?k" by (rule timer_inv_upd_thread [OF I(4)]) (simp add: set_priority_def)
  show "current_thread ?k \<noteq> None" using I(5) by simp
qed

text \<open>Changing a priority requeues a ready thread at the end of the queue of its new priority.\<close>

lemma rt_thread_change_priority_ok:
  assumes inv: "kinv k" and p: "p < 32"
  obtains k' where "rt_thread_control t (RT_THREAD_CTRL_CHANGE_PRIORITY p) k = Some (RT_EOK, k')"
    "kinv k'" "current_priority (threads k' t) = p"
    "th_stat (threads k t) = RT_THREAD_READY \<Longrightarrow> current_thread k \<noteq> Some t \<Longrightarrow>
       last (lists k' (ReadyQ p)) = t"
proof (cases "th_stat (threads k t) = RT_THREAD_READY")
  case False
  then show thesis
    using that [OF _ kinv_upd_thread_priority [OF inv p False]]
    by (simp add: rt_thread_control_def set_priority_def)
next
  case True
  note I = kinvD [OF inv] and S = sched_invD [OF kinvD(2) [OF inv]]
  let ?k1 = "rt_schedule_remove_thread t k"
  let ?k2 = "upd_thread t (set_priority p) ?k1"
  let ?k3 = "rt_schedule_insert_thread t ?k2"
  have st: "started (threads k t)" using S(3) [of t] True by simp
  have st2: "started (threads ?k2 t)" using p by (simp add: started_def set_priority_def)
  have "sched_inv_x {t} ?k2"
    by (rule sched_inv_upd_exempt [OF sched_inv_remove [OF I(2) st]]) (use st2 in simp_all)
  from sched_inv_insert [OF this, of t] st2 have s: "sched_inv ?k3" by simp
  let ?st = "if current_thread k = Some t then RT_THREAD_RUNNING else RT_THREAD_READY"
  have "stacks_ok (upd_thread t (\<lambda>h. (set_priority p h)\<lparr>th_stat := ?st\<rparr>) k)"
    by (rule stacks_ok_upd [OF I(3)])
      (use I(3) True in \<open>auto simp: stacks_ok_def set_priority_def scheduler_stack_check_def\<close>)
  then have so: "stacks_ok ?k3" by (rule stacks_ok_threads) simp
  have "timer_inv ?k3"
    by (rule timer_inv_cong [OF I(4)]) (use True in \<open>auto split: if_splits\<close>)
  then have "kinv ?k3" using s so I(5) by (simp add: kinv_x_def sched_ok_def)
  moreover have "rt_thread_control t (RT_THREAD_CTRL_CHANGE_PRIORITY p) k = Some (RT_EOK, ?k3)"
    using True by (simp add: rt_thread_control_def)
  moreover have "current_priority (threads ?k3 t) = p" by (simp add: set_priority_def)
  moreover have "last (lists ?k3 (ReadyQ p)) = t" if "current_thread k \<noteq> Some t"
    using that by (simp add: set_priority_def l_append_def)
  ultimately show thesis using that by blast
qed

subsection \<open>The tick\<close>

lemma timers_fit_cong:
  assumes "timers k' = timers k" "timer_lists k' = timer_lists k" "rt_tick k' = rt_tick k"
  shows "timers_fit b k' = timers_fit b k" "expired_timers k' = expired_timers k"
    "user_timers_ok k' = user_timers_ok k"
  using assms by (simp_all add: timers_fit_def expired_timers_def user_timers_ok_def)

text \<open>
  A tick from a punctual state: it returns, the timers due at it go off and only their threads wake,
  and the state it leaves is punctual again.
\<close>

lemma rt_tick_increase_ok:
  fixes k :: kernel
  defines "k0 \<equiv> k\<lparr>rt_tick := rt_tick k + 1\<rparr>"
  assumes inv: "kinv k" and p: "punctual k" and fuel: "length (timer_lists k HardTimers) < fuel"
  obtains k' where "rt_tick_increase app_callback fuel k = Some k'" "kinv k'" "punctual k'"
    "rt_tick k' = rt_tick k + 1"
    "\<And>n. Thread_Timer n \<in> set (expired_timers k0) \<Longrightarrow>
       th_error (threads k' n) = - RT_ETIMEOUT \<and> th_stat (threads k' n) \<in> {RT_THREAD_READY, RT_THREAD_RUNNING}"
    "\<And>n. Thread_Timer n \<notin> set (expired_timers k0) \<Longrightarrow> th_error (threads k' n) = th_error (threads k n) \<and>
       (th_stat (threads k' n) = RT_THREAD_SUSPEND \<longleftrightarrow> th_stat (threads k n) = RT_THREAD_SUSPEND)"
    "\<And>s. s \<in> set (timer_lists k HardTimers) \<Longrightarrow> s \<notin> set (expired_timers k0) \<Longrightarrow>
       s \<in> set (timer_lists k' HardTimers) \<and> timers k' s = timers k s"
proof -
  obtain c where c: "current_thread k = Some c" using kinvD(5) [OF inv] by auto
  let ?k1 = "upd_thread c (\<lambda>h. h\<lparr>remaining_tick := remaining_tick h - 1\<rparr>) k0"
  let ?k2 = "upd_thread c (\<lambda>h. h\<lparr>remaining_tick := th_init_tick h, th_yield := True\<rparr>) ?k1"
  have "kinv k0" using inv by (simp add: k0_def)
  then have i1: "kinv ?k1" by (rule kinv_upd_thread) (simp_all add: scheduler_stack_check_def)
  then have i2: "kinv ?k2" by (rule kinv_upd_thread) (simp_all add: scheduler_stack_check_def)
  obtain k3 where k3: "(if remaining_tick (threads ?k1 c) = 0 then rt_schedule ?k2 else Some ?k1) = Some k3"
    "kinv k3" "timers k3 = timers k0" "timer_lists k3 = timer_lists k0" "rt_tick k3 = rt_tick k0"
    "\<And>u. th_error (threads k3 u) = th_error (threads k u)"
    "\<And>u. th_stat (threads k3 u) = RT_THREAD_SUSPEND \<longleftrightarrow> th_stat (threads k u) = RT_THREAD_SUSPEND"
  proof (cases "remaining_tick (threads ?k1 c) = 0")
    case True
    obtain k3 where k3: "rt_schedule ?k2 = Some k3" "kinv k3"
      "\<And>u. same_tcb (threads ?k2 u) (threads k3 u)"
      by (rule kinv_schedule [OF i2]) (rule that)
    have "th_error (threads k3 u) = th_error (threads k u)"
      "th_stat (threads k3 u) = RT_THREAD_SUSPEND \<longleftrightarrow> th_stat (threads k u) = RT_THREAD_SUSPEND" for u
      using same_tcbD(3) [OF k3(3), of u] same_tcb_suspend [OF k3(3), of u] by (simp_all add: k0_def)
    with rt_schedule_frame(1,2,5) [OF k3(1)] show ?thesis
      using True k3(1,2) by (intro that [of k3]) simp_all
  next
    case False
    then show ?thesis using i1 by (intro that [of ?k1]) (simp_all add: k0_def)
  qed
  note cong = timers_fit_cong [OF k3(3-5)]
  note fits = punctual_fits [OF inv p]
  have us3: "user_timers_ok k3" using fits(2) unfolding cong by (simp add: user_timers_ok_def k0_def)
  have fit3: "timers_fit (rt_tick k) k3" using fits(1) unfolding cong k0_def .
  have "length (expired_timers k3) \<le> length (timer_lists k HardTimers)"
    unfolding cong by (simp add: expired_timers_def k0_def)
  then have f3: "length (expired_timers k3) < fuel" using fuel by simp
  obtain k' where k': "timer_check_loop app_callback fuel (rt_tick k3) k3 = Some k'" "kinv k'"
    "rt_tick k' = rt_tick k3" "timers_fit (rt_tick k) k'" "expired_timers k' = []" and
    woken: "\<And>n. Thread_Timer n \<in> set (expired_timers k3) \<Longrightarrow>
       th_error (threads k' n) = - RT_ETIMEOUT \<and> th_stat (threads k' n) \<in> {RT_THREAD_READY, RT_THREAD_RUNNING}" and
    others: "\<And>n. Thread_Timer n \<notin> set (expired_timers k3) \<Longrightarrow> same_tcb (threads k3 n) (threads k' n)" and
    kept: "\<And>s. s \<in> set (timer_lists k3 HardTimers) \<Longrightarrow> s \<notin> set (expired_timers k3) \<Longrightarrow>
       s \<in> set (timer_lists k' HardTimers) \<and> timers k' s = timers k3 s" and
    setting: "\<And>s. same_setting (timers k3 s) (timers k' s)"
    using timer_check_loop_ok [OF k3(2) us3 fit3 f3] by blast
  have tick: "rt_tick k' = rt_tick k + 1" using k'(3) k3(5) by (simp add: k0_def)
  have "timers_set k'"
    using p setting by (simp add: punctual_def timers_set_def user_timer_ok_def same_setting_def k3(3) k0_def)
  then have pun: "punctual k'"
    by (rule punctual_next [OF k'(4) tick k'(5) wf_listsD(1) [OF timer_invD(1) [OF kinvD(4) [OF k'(2)]]]])
  show thesis
  proof (rule that [OF _ k'(2) pun tick])
    show "rt_tick_increase app_callback fuel k = Some k'"
      using k3(1) k'(1) c
      unfolding rt_tick_increase_def k0_def [symmetric] Let_def rt_timer_check_def
      by (simp add: rt_thread_self_def k0_def)
    show "th_error (threads k' n) = th_error (threads k n) \<and>
       (th_stat (threads k' n) = RT_THREAD_SUSPEND \<longleftrightarrow> th_stat (threads k n) = RT_THREAD_SUSPEND)"
      if "Thread_Timer n \<notin> set (expired_timers k0)" for n
      using that same_tcbD(3) [OF others [of n]] same_tcb_suspend [OF others [of n]] k3(6,7) by (simp add: cong)
    show "s \<in> set (timer_lists k' HardTimers) \<and> timers k' s = timers k s"
      if "s \<in> set (timer_lists k HardTimers)" "s \<notin> set (expired_timers k0)" for s
      using kept [of s] that by (simp add: cong k3(3,4)) (simp add: k0_def)
  qed (use woken in \<open>simp_all add: cong\<close>)
qed

text \<open>At 1000 ticks per second a millisecond is a tick.\<close>

lemma rt_tick_from_millisecond_id:
  assumes "0 \<le> ms"
  shows "rt_tick_from_millisecond ms = word_of_int ms"
proof -
  have "(1000 * (ms mod 1000) + 999) div 1000 = ms mod 1000" by simp
  then have "rt_tick_from_millisecond ms = word_of_int (1000 * (ms div 1000)) + word_of_int (ms mod 1000)"
    using assms by (simp add: rt_tick_from_millisecond_def Let_def)
  also have "\<dots> = word_of_int (1000 * (ms div 1000) + ms mod 1000)"
    by (simp only: wi_hom_add)
  finally show ?thesis by (simp only: mult_div_mod_eq)
qed

end
