(* ===== verification/Smem.thy ===== *)
theory Smem
  imports Prelude
begin

text \<open>
  The small memory allocator of \<open>src/mem.c\<close>, the heap of the configuration. The heap is one run of
  blocks, each an item (pool word, offsets of the next and the previous item) and the bytes behind
  it; offsets count from \<open>heap_ptr\<close>. Allocation takes the first free block that is large enough and
  splits it, release merges it with its free neighbours. The theory shows that the heap is always
  such a run, with no two free neighbours, \<open>lfree\<close> at the first free block and \<open>used\<close> the total of the
  used ones, and that the operations act on the list of blocks as first fit with merging does.
\<close>

subsection \<open>Data\<close>

record smem_item =
  pool_ptr :: nat
  mnext :: nat
  mprev :: nat

text \<open>
  \<open>heap_self\<close> is the address of the \<open>struct rt_small_mem\<close>; \<open>heap_end\<close> and \<open>lfree\<close> are kept as offsets.
  \<open>cells\<close> are the bytes behind the items, by offset.
\<close>

record smem =
  heap_self :: nat
  heap_ptr :: nat
  heap_end :: nat
  lfree :: nat
  mem_size_aligned :: nat
  mem_used :: nat
  mem_max :: nat
  items :: "nat \<Rightarrow> smem_item"
  cells :: "nat \<Rightarrow> byte"

abbreviation (input) SIZEOF_STRUCT_MEM :: nat where "SIZEOF_STRUCT_MEM \<equiv> 12"
abbreviation (input) MIN_SIZE_ALIGNED :: nat where "MIN_SIZE_ALIGNED \<equiv> 12"
abbreviation (input) sizeof_small_mem :: nat where "sizeof_small_mem \<equiv> 56"

text \<open>Subtraction of 32-bit unsigned values. The sums of the code stay below \<open>2 ^ 32\<close> by its checks.\<close>

definition usub :: "nat \<Rightarrow> nat \<Rightarrow> nat" where
  "usub a b = nat ((int a - int b) mod 2 ^ 32)"

lemma usub_le [simp]: "b \<le> a \<Longrightarrow> a < 2 ^ 32 \<Longrightarrow> usub a b = a - b"
  by (simp add: usub_def flip: of_nat_diff)

definition MEM_FREED :: "smem \<Rightarrow> nat" where "MEM_FREED h = heap_self h - heap_self h mod 2"
definition MEM_USED :: "smem \<Rightarrow> nat" where "MEM_USED h = heap_self h - heap_self h mod 2 + 1"
definition MEM_ISUSED :: "smem_item \<Rightarrow> bool" where "MEM_ISUSED it \<longleftrightarrow> pool_ptr it mod 2 \<noteq> 0"
definition MEM_POOL :: "smem_item \<Rightarrow> nat" where "MEM_POOL it = pool_ptr it - pool_ptr it mod 2"

definition upd_item :: "nat \<Rightarrow> (smem_item \<Rightarrow> smem_item) \<Rightarrow> smem \<Rightarrow> smem" where
  "upd_item p f h = h\<lparr>items := (items h)(p := f (items h p))\<rparr>"

subsection \<open>Operations\<close>

text \<open>Merging the block at \<open>n\<close> into the one at \<open>p\<close> before it, which both halves of \<open>plug_holes\<close> do.\<close>

definition smem_merge :: "nat \<Rightarrow> nat \<Rightarrow> smem \<Rightarrow> smem" where
  "smem_merge p n h =
     (let h = (if lfree h = n then h\<lparr>lfree := p\<rparr> else h);
          h = upd_item n (\<lambda>i. i\<lparr>pool_ptr := 0\<rparr>) h;
          h = upd_item p (\<lambda>i. i\<lparr>mnext := mnext (items h n)\<rparr>) h
      in upd_item (mnext (items h n)) (\<lambda>i. i\<lparr>mprev := p\<rparr>) h)"

definition plug_holes :: "nat \<Rightarrow> smem \<Rightarrow> smem option" where
  "plug_holes p h = do {
     _ \<leftarrow> rt_assert (p < heap_end h);
     let n = mnext (items h p);
     let h = (if p \<noteq> n \<and> \<not> MEM_ISUSED (items h n) \<and> n \<noteq> heap_end h then smem_merge p n h else h);
     let q = mprev (items h p);
     Some (if q \<noteq> p \<and> \<not> MEM_ISUSED (items h q) then smem_merge q p h else h) }"

text \<open>\<open>RT_NULL\<close> is \<open>None\<close>; the content of the memory is the argument \<open>mem\<close>, by address.\<close>

definition rt_smem_init :: "nat \<Rightarrow> nat \<Rightarrow> (nat \<Rightarrow> byte) \<Rightarrow> smem option" where
  "rt_smem_init begin_addr sz mem =
     (let small_mem = RT_ALIGN begin_addr RT_ALIGN_SIZE;
          start_addr = (small_mem + sizeof_small_mem) mod 2 ^ 32;
          begin_align = RT_ALIGN start_addr RT_ALIGN_SIZE;
          end_align = RT_ALIGN_DOWN ((begin_addr + sz) mod 2 ^ 32) RT_ALIGN_SIZE
      in if end_align > 2 * SIZEOF_STRUCT_MEM \<and> end_align - 2 * SIZEOF_STRUCT_MEM \<ge> start_addr then
           let mem_size = usub (usub end_align begin_align) (2 * SIZEOF_STRUCT_MEM);
               h = \<lparr>heap_self = small_mem, heap_ptr = begin_align, heap_end = mem_size + SIZEOF_STRUCT_MEM,
                    lfree = 0, mem_size_aligned = mem_size, mem_used = 0, mem_max = 0,
                    items = (\<lambda>_. \<lparr>pool_ptr = 0, mnext = 0, mprev = 0\<rparr>), cells = (\<lambda>p. mem (begin_align + p))\<rparr>;
               h = upd_item 0 (\<lambda>_. \<lparr>pool_ptr = MEM_FREED h, mnext = mem_size + SIZEOF_STRUCT_MEM, mprev = 0\<rparr>) h
           in Some (upd_item (heap_end h) (\<lambda>_. \<lparr>pool_ptr = MEM_USED h, mnext = mem_size + SIZEOF_STRUCT_MEM,
                mprev = mem_size + SIZEOF_STRUCT_MEM\<rparr>) h)
         else None)"

text \<open>The search loop, which need not end when the heap is smaller than the smallest block.\<close>

partial_function (option) smem_find :: "smem \<Rightarrow> nat \<Rightarrow> nat \<Rightarrow> nat option option" where
  "smem_find h sz ptr =
     (if ptr \<le> usub (mem_size_aligned h) sz then
        if \<not> MEM_ISUSED (items h ptr) \<and> usub (mnext (items h ptr)) (ptr + SIZEOF_STRUCT_MEM) \<ge> sz
        then Some (Some ptr)
        else smem_find h sz (mnext (items h ptr))
      else Some None)"

partial_function (option) smem_next_free :: "smem \<Rightarrow> nat \<Rightarrow> nat option" where
  "smem_next_free h ptr =
     (if MEM_ISUSED (items h ptr) \<and> ptr \<noteq> heap_end h then smem_next_free h (mnext (items h ptr))
      else Some ptr)"

definition smem_account :: "nat \<Rightarrow> smem \<Rightarrow> smem" where
  "smem_account n h =
     (let h = h\<lparr>mem_used := (mem_used h + n) mod 2 ^ 32\<rparr>
      in if mem_max h < mem_used h then h\<lparr>mem_max := mem_used h\<rparr> else h)"

text \<open>The split of a free block, which \<open>rt_smem_realloc\<close> makes in the same way.\<close>

definition smem_split :: "nat \<Rightarrow> nat \<Rightarrow> smem \<Rightarrow> smem" where
  "smem_split p ptr2 h =
     (let n = mnext (items h p);
          h = upd_item ptr2 (\<lambda>_. \<lparr>pool_ptr = MEM_FREED h, mnext = n, mprev = p\<rparr>) h;
          h = upd_item p (\<lambda>i. i\<lparr>mnext := ptr2\<rparr>) h
      in if n \<noteq> mem_size_aligned h + SIZEOF_STRUCT_MEM then upd_item n (\<lambda>i. i\<lparr>mprev := ptr2\<rparr>) h else h)"

text \<open>The body of the search loop for the block at \<open>p\<close>, which is free and large enough.\<close>

definition smem_take :: "nat \<Rightarrow> nat \<Rightarrow> smem \<Rightarrow> (nat \<times> smem) option" where
  "smem_take p sz h = do {
     let h = (if usub (mnext (items h p)) (p + SIZEOF_STRUCT_MEM) \<ge> sz + SIZEOF_STRUCT_MEM + MIN_SIZE_ALIGNED
              then smem_account (sz + SIZEOF_STRUCT_MEM) (smem_split p (p + SIZEOF_STRUCT_MEM + sz) h)
              else smem_account (usub (mnext (items h p)) p) h);
     let h = upd_item p (\<lambda>i. i\<lparr>pool_ptr := MEM_USED h\<rparr>) h;
     h \<leftarrow> (if p = lfree h then do {
         q \<leftarrow> smem_next_free h (lfree h);
         let h = h\<lparr>lfree := q\<rparr>;
         _ \<leftarrow> rt_assert (lfree h = heap_end h \<or> \<not> MEM_ISUSED (items h (lfree h)));
         Some h } else Some h);
     _ \<leftarrow> rt_assert (p + SIZEOF_STRUCT_MEM + sz \<le> heap_end h);
     _ \<leftarrow> rt_assert ((heap_ptr h + p + SIZEOF_STRUCT_MEM) mod RT_ALIGN_SIZE = 0);
     _ \<leftarrow> rt_assert ((heap_ptr h + p) mod RT_ALIGN_SIZE = 0);
     Some (heap_ptr h + p + SIZEOF_STRUCT_MEM, h) }"

definition rt_smem_alloc :: "nat \<Rightarrow> smem \<Rightarrow> (nat option \<times> smem) option" where
  "rt_smem_alloc sz h =
     (if sz = 0 then Some (None, h)
      else
        let sz = RT_ALIGN sz RT_ALIGN_SIZE in
        if sz > mem_size_aligned h then Some (None, h)
        else
          let sz = (if sz < MIN_SIZE_ALIGNED then MIN_SIZE_ALIGNED else sz) in do {
            r \<leftarrow> smem_find h sz (lfree h);
            case r of
              None \<Rightarrow> Some (None, h)
            | Some p \<Rightarrow> do {
                (a, h) \<leftarrow> smem_take p sz h;
                Some (Some a, h) } })"

text \<open>
  The code finds the heap in the pool word of the item; here the heap is an argument and the word
  must name it. An address below the first block has its item outside the heap.
\<close>

definition rt_smem_free :: "nat option \<Rightarrow> smem \<Rightarrow> smem option" where
  "rt_smem_free rmem h =
     (case rmem of
        None \<Rightarrow> Some h
      | Some rmem \<Rightarrow> do {
          _ \<leftarrow> rt_assert (rmem mod RT_ALIGN_SIZE = 0);
          _ \<leftarrow> rt_assert (rmem \<ge> heap_ptr h + SIZEOF_STRUCT_MEM);
          let p = rmem - SIZEOF_STRUCT_MEM - heap_ptr h;
          _ \<leftarrow> rt_assert (MEM_POOL (items h p) = heap_self h);
          _ \<leftarrow> rt_assert (MEM_ISUSED (items h p));
          _ \<leftarrow> rt_assert (rmem < heap_ptr h + heap_end h);
          _ \<leftarrow> rt_assert (MEM_POOL (items h (mnext (items h p))) = heap_self h);
          let h = upd_item p (\<lambda>i. i\<lparr>pool_ptr := MEM_FREED h\<rparr>) h;
          let h = (if p < lfree h then h\<lparr>lfree := p\<rparr> else h);
          let h = h\<lparr>mem_used := usub (mem_used h) (usub (mnext (items h p)) p)\<rparr>;
          plug_holes p h })"

definition smem_copy :: "nat \<Rightarrow> nat \<Rightarrow> nat \<Rightarrow> smem \<Rightarrow> smem" where
  "smem_copy dst src n h =
     h\<lparr>cells := (\<lambda>p. if dst \<le> p \<and> p < dst + n then cells h (src + (p - dst)) else cells h p)\<rparr>"

definition rt_smem_realloc :: "nat option \<Rightarrow> nat \<Rightarrow> smem \<Rightarrow> (nat option \<times> smem) option" where
  "rt_smem_realloc rmem newsize h =
     (let newsize = RT_ALIGN newsize RT_ALIGN_SIZE in
      if newsize > mem_size_aligned h then Some (None, h)
      else if newsize = 0 then do { h \<leftarrow> rt_smem_free rmem h; Some (None, h) }
      else case rmem of
        None \<Rightarrow> rt_smem_alloc newsize h
      | Some a \<Rightarrow> do {
          _ \<leftarrow> rt_assert (a mod RT_ALIGN_SIZE = 0);
          _ \<leftarrow> rt_assert (a \<ge> heap_ptr h + SIZEOF_STRUCT_MEM);
          _ \<leftarrow> rt_assert (a < heap_ptr h + heap_end h);
          let p = a - SIZEOF_STRUCT_MEM - heap_ptr h;
          let sz = usub (usub (mnext (items h p)) p) SIZEOF_STRUCT_MEM;
          if sz = newsize then Some (Some a, h)
          else if newsize + SIZEOF_STRUCT_MEM + 12 < sz then do {
            let h = h\<lparr>mem_used := usub (mem_used h) (sz - newsize)\<rparr>;
            let ptr2 = p + SIZEOF_STRUCT_MEM + newsize;
            let h = smem_split p ptr2 h;
            let h = (if ptr2 < lfree h then h\<lparr>lfree := ptr2\<rparr> else h);
            h \<leftarrow> plug_holes ptr2 h;
            Some (Some a, h) }
          else do {
            (nmem, h) \<leftarrow> rt_smem_alloc newsize h;
            case nmem of
              None \<Rightarrow> Some (None, h)
            | Some b \<Rightarrow> do {
                let h = smem_copy (b - heap_ptr h) (a - heap_ptr h) (if sz < newsize then sz else newsize) h;
                h \<leftarrow> rt_smem_free (Some a) h;
                Some (Some b, h) } } })"

subsection \<open>Runs of blocks\<close>

text \<open>
  \<open>run it s q a bs\<close>: from offset \<open>a\<close> on, behind the block at \<open>q\<close>, the items describe blocks of the
  sizes (items included) and uses listed in \<open>bs\<close>, all of the heap \<open>s\<close>.
\<close>

type_synonym block = "nat \<times> bool"

definition pool_word :: "nat \<Rightarrow> bool \<Rightarrow> nat" where
  "pool_word s u = s - s mod 2 + (if u then 1 else 0)"

fun run :: "(nat \<Rightarrow> smem_item) \<Rightarrow> nat \<Rightarrow> nat \<Rightarrow> nat \<Rightarrow> block list \<Rightarrow> bool" where
  "run it s q a [] \<longleftrightarrow> True"
| "run it s q a ((n, u) # bs) \<longleftrightarrow>
     it a = \<lparr>pool_ptr = pool_word s u, mnext = a + n, mprev = q\<rparr> \<and> 12 \<le> n \<and> run it s a (a + n) bs"

definition extent :: "block list \<Rightarrow> nat" where
  "extent bs = sum_list (map fst bs)"

lemma extent_simps [simp]: "extent [] = 0" "extent (b # bs) = fst b + extent bs" "extent (xs @ ys) = extent xs + extent ys"
  by (simp_all add: extent_def)

fun last_offset :: "nat \<Rightarrow> nat \<Rightarrow> block list \<Rightarrow> nat" where
  "last_offset q a [] = q"
| "last_offset q a ((n, u) # bs) = last_offset a (a + n) bs"

lemma last_offset_snoc [simp]: "last_offset q a (xs @ [b]) = a + extent xs"
  by (induction xs arbitrary: q a; cases b) auto

fun offsets :: "nat \<Rightarrow> block list \<Rightarrow> nat list" where
  "offsets a [] = []"
| "offsets a ((n, u) # bs) = a # offsets (a + n) bs"

lemma run_append:
  "run it s q a (xs @ ys) \<longleftrightarrow> run it s q a xs \<and> run it s (last_offset q a xs) (a + extent xs) ys"
  by (induction xs arbitrary: q a) (auto simp: add.assoc)

lemma run_cong: "(\<And>p. p \<in> set (offsets a bs) \<Longrightarrow> it p = jt p) \<Longrightarrow> run it s q a bs \<longleftrightarrow> run jt s q a bs"
  by (induction it s q a bs rule: run.induct) auto

lemma offsets_bounds:
  assumes "run it s q a bs" "p \<in> set (offsets a bs)"
  shows "a \<le> p" "p + 12 \<le> a + extent bs"
proof -
  have "a \<le> p \<and> p + 12 \<le> a + extent bs"
    using assms by (induction it s q a bs rule: run.induct) fastforce+
  then show "a \<le> p" "p + 12 \<le> a + extent bs" by auto
qed

lemma run_upd_above: "run it s q a bs \<Longrightarrow> a + extent bs \<le> p \<Longrightarrow> run (it(p := i)) s q a bs"
  using offsets_bounds(2) [of it s q a bs p] run_cong [of a bs it "it(p := i)" s q] by fastforce

lemma run_upd_below: "run it s q a bs \<Longrightarrow> p < a \<Longrightarrow> run (it(p := i)) s q a bs"
  using offsets_bounds(1) [of it s q a bs p] run_cong [of a bs it "it(p := i)" s q] by fastforce

lemma run_reprev:
  assumes "run it s q a bs"
  shows "run (it(a := (it a)\<lparr>mprev := r\<rparr>)) s r a bs"
proof (cases bs)
  case (Cons b bs')
  obtain n u where b: "b = (n, u)" by fastforce
  have "run it s a (a + n) bs'" "12 \<le> n" using assms Cons b by simp_all
  then show ?thesis using assms Cons b run_upd_below [of it s a "a + n" bs' a] by simp
qed simp

text \<open>Splitting and merging, on the items.\<close>

lemma run_split:
  assumes r: "run it s q 0 (xs @ (n, u) # ys)" and k: "12 \<le> k" "k + 12 \<le> n"
  defines "p \<equiv> extent xs"
  defines "jt \<equiv> (it(p + k := \<lparr>pool_ptr = pool_word s False, mnext = p + n, mprev = p\<rparr>))
     (p := (it p)\<lparr>mnext := p + k\<rparr>)"
  shows "run (jt(p + n := (jt (p + n))\<lparr>mprev := p + k\<rparr>)) s q 0 (xs @ (k, u) # (n - k, False) # ys)"
    "ys = [] \<Longrightarrow> run jt s q 0 (xs @ (k, u) # (n - k, False) # ys)"
proof -
  have R: "run it s q 0 xs" "it p = \<lparr>pool_ptr = pool_word s u, mnext = p + n, mprev = last_offset q 0 xs\<rparr>"
    "run it s p (p + n) ys"
    using r by (simp_all add: run_append p_def)
  have xs: "run jt s q 0 xs" unfolding jt_def
    by (intro run_upd_above R(1)) (simp_all add: p_def)
  have hd: "jt p = \<lparr>pool_ptr = pool_word s u, mnext = p + k, mprev = last_offset q 0 xs\<rparr>"
    "jt (p + k) = \<lparr>pool_ptr = pool_word s False, mnext = p + n, mprev = p\<rparr>"
    using k by (simp_all add: jt_def R(2))
  have ys: "run jt s p (p + n) ys" unfolding jt_def using k by (intro run_upd_below R(3)) simp_all
  have kn: "p + k + (n - k) = p + n" "12 \<le> n - k" using k by simp_all
  show "ys = [] \<Longrightarrow> run jt s q 0 (xs @ (k, u) # (n - k, False) # ys)"
    using xs hd kn k by (simp add: run_append p_def [symmetric])
  let ?jt = "jt(p + n := (jt (p + n))\<lparr>mprev := p + k\<rparr>)"
  have "run ?jt s q 0 xs" by (rule run_upd_above [OF xs]) (simp add: p_def)
  moreover have "run ?jt s (p + k) (p + n) ys" by (rule run_reprev [OF ys])
  moreover have "?jt p = jt p" "?jt (p + k) = jt (p + k)" using k by simp_all
  ultimately show "run ?jt s q 0 (xs @ (k, u) # (n - k, False) # ys)"
    using hd kn k by (simp add: run_append p_def [symmetric] del: fun_upd_apply)
qed

lemma run_merge:
  assumes r: "run it s q 0 (xs @ (n, u) # (m, v) # ys)"
  defines "p \<equiv> extent xs"
  defines "jt \<equiv> (it(p + n := (it (p + n))\<lparr>pool_ptr := 0\<rparr>))(p := (it p)\<lparr>mnext := p + n + m\<rparr>)"
  shows "run (jt(p + n + m := (jt (p + n + m))\<lparr>mprev := p\<rparr>)) s q 0 (xs @ (n + m, u) # ys)"
proof -
  have R: "run it s q 0 xs" "it p = \<lparr>pool_ptr = pool_word s u, mnext = p + n, mprev = last_offset q 0 xs\<rparr>"
    "run it s (p + n) (p + n + m) ys" "12 \<le> n" "12 \<le> m"
    using r by (simp_all add: run_append p_def)
  let ?jt = "jt(p + n + m := (jt (p + n + m))\<lparr>mprev := p\<rparr>)"
  have "run jt s q 0 xs" unfolding jt_def
    by (intro run_upd_above R(1)) (simp_all add: p_def)
  then have xs: "run ?jt s q 0 xs" by (rule run_upd_above) (simp add: p_def)
  have "run jt s (p + n) (p + n + m) ys" unfolding jt_def using R(4,5) by (intro run_upd_below R(3)) simp_all
  then have ys: "run ?jt s p (p + n + m) ys" by (rule run_reprev)
  have "?jt p = \<lparr>pool_ptr = pool_word s u, mnext = p + (n + m), mprev = last_offset q 0 xs\<rparr>"
    using R(4) by (simp add: jt_def R(2))
  then show ?thesis
    using xs ys R(4) by (simp add: run_append p_def [symmetric] add.assoc del: fun_upd_apply)
qed

text \<open>Marking a block used or free.\<close>

lemma run_mark:
  assumes r: "run it s q 0 (xs @ (n, u) # ys)"
  defines "p \<equiv> extent xs"
  shows "run (it(p := (it p)\<lparr>pool_ptr := pool_word s v\<rparr>)) s q 0 (xs @ (n, v) # ys)"
proof -
  let ?i = "(it p)\<lparr>pool_ptr := pool_word s v\<rparr>"
  have R: "run it s q 0 xs" "it p = \<lparr>pool_ptr = pool_word s u, mnext = p + n, mprev = last_offset q 0 xs\<rparr>"
    "run it s p (p + n) ys" "12 \<le> n"
    using r by (simp_all add: run_append p_def)
  have "run (it(p := ?i)) s q 0 xs" by (rule run_upd_above [OF R(1)]) (simp add: p_def)
  moreover have "run (it(p := ?i)) s p (p + n) ys" by (rule run_upd_below [OF R(3)]) (use R(4) in simp)
  ultimately show ?thesis using R(2,4) by (simp add: run_append p_def [symmetric])
qed

subsection \<open>The heap as a list of blocks\<close>

fun first_free :: "nat \<Rightarrow> block list \<Rightarrow> nat" where
  "first_free a [] = a"
| "first_free a ((n, u) # bs) = (if u then first_free (a + n) bs else a)"

definition no_free_pair :: "block list \<Rightarrow> bool" where
  "no_free_pair bs \<longleftrightarrow> successively (\<lambda>b c. snd b \<or> snd c) bs"

definition used_bytes :: "block list \<Rightarrow> nat" where
  "used_bytes bs = sum_list (map fst (filter snd bs))"

lemma used_bytes_simps [simp]:
  "used_bytes [] = 0" "used_bytes (b # bs) = (if snd b then fst b else 0) + used_bytes bs"
  "used_bytes (xs @ ys) = used_bytes xs + used_bytes ys"
  by (simp_all add: used_bytes_def)

lemma used_le_extent: "used_bytes bs \<le> extent bs"
  by (induction bs) auto

lemma first_free_append:
  "first_free a (xs @ ys) = (if \<forall>b \<in> set xs. snd b then first_free (a + extent xs) ys else first_free a xs)"
  by (induction a xs rule: first_free.induct) (auto simp: add.assoc)

lemma first_free_le: "first_free a bs \<le> a + extent bs"
  by (induction a bs rule: first_free.induct) (auto simp: add.assoc)

text \<open>The parts of the representation that the operations change together, and those that stay.\<close>

definition smem_chain :: "smem \<Rightarrow> block list \<Rightarrow> bool" where
  "smem_chain h bs \<longleftrightarrow>
     run (items h) (heap_self h) 0 0 bs \<and> bs \<noteq> [] \<and> extent bs = heap_end h \<and>
     pool_ptr (items h (heap_end h)) = pool_word (heap_self h) True \<and>
     mnext (items h (heap_end h)) = heap_end h \<and> (\<forall>b \<in> set bs. 4 dvd fst b)"

definition smem_fixed :: "smem \<Rightarrow> bool" where
  "smem_fixed h \<longleftrightarrow>
     heap_end h = mem_size_aligned h + 12 \<and> 4 dvd mem_size_aligned h \<and> 4 dvd heap_ptr h \<and>
     4 dvd heap_self h \<and> heap_ptr h + heap_end h + 12 \<le> 2 ^ 32"

definition smem_rep :: "smem \<Rightarrow> block list \<Rightarrow> bool" where
  "smem_rep h bs \<longleftrightarrow>
     smem_chain h bs \<and> smem_fixed h \<and> no_free_pair bs \<and> lfree h = first_free 0 bs \<and>
     mem_used h = used_bytes bs \<and> mem_used h \<le> mem_max h \<and> (\<forall>b \<in> set bs. snd b \<longrightarrow> 12 < fst b)"

lemma smem_repD:
  assumes "smem_rep h bs"
  shows "smem_chain h bs" "smem_fixed h" "no_free_pair bs" "lfree h = first_free 0 bs"
    "mem_used h = used_bytes bs" "mem_used h \<le> mem_max h"
    "b \<in> set bs \<Longrightarrow> snd b \<Longrightarrow> 12 < fst b"
  using assms by (simp_all add: smem_rep_def)

lemma smem_chainD:
  assumes "smem_chain h bs"
  shows "run (items h) (heap_self h) 0 0 bs" "bs \<noteq> []" "extent bs = heap_end h"
    "pool_ptr (items h (heap_end h)) = pool_word (heap_self h) True"
    "mnext (items h (heap_end h)) = heap_end h" "b \<in> set bs \<Longrightarrow> 4 dvd fst b"
  using assms by (auto simp: smem_chain_def)

lemma pool_words:
  "MEM_USED h = pool_word (heap_self h) True" "MEM_FREED h = pool_word (heap_self h) False"
  "MEM_ISUSED \<lparr>pool_ptr = pool_word s u, mnext = n, mprev = q\<rparr> = u"
  "pool_word s u - pool_word s u mod 2 = s - s mod 2"
proof -
  show "MEM_USED h = pool_word (heap_self h) True" "MEM_FREED h = pool_word (heap_self h) False"
    by (simp_all add: MEM_USED_def MEM_FREED_def pool_word_def)
  obtain d where d: "s - s mod 2 = d" by blast
  have "d mod 2 = 0" unfolding d [symmetric] by (simp add: dvd_minus_mod)
  then have "(d + 1) mod 2 = 1" by presburger
  then show "MEM_ISUSED \<lparr>pool_ptr = pool_word s u, mnext = n, mprev = q\<rparr> = u"
    "pool_word s u - pool_word s u mod 2 = s - s mod 2"
    using \<open>d mod 2 = 0\<close> unfolding pool_word_def d by (simp_all add: MEM_ISUSED_def)
qed

text \<open>The item of a block in the middle of the list.\<close>

lemma chain_item:
  assumes "smem_chain h (xs @ (n, u) # ys)"
  shows "items h (extent xs) = \<lparr>pool_ptr = pool_word (heap_self h) u, mnext = extent xs + n,
      mprev = last_offset 0 0 xs\<rparr>" "12 \<le> n" "extent xs + n \<le> heap_end h" "extent xs < heap_end h"
    "MEM_ISUSED (items h (extent xs)) = u" "mnext (items h (extent xs)) = extent xs + n"
    "mprev (items h (extent xs)) = last_offset 0 0 xs" "4 dvd n"
proof -
  note C = smem_chainD [OF assms]
  show i: "items h (extent xs) = \<lparr>pool_ptr = pool_word (heap_self h) u, mnext = extent xs + n,
      mprev = last_offset 0 0 xs\<rparr>" and n: "12 \<le> n"
    using C(1) by (simp_all add: run_append)
  show "extent xs + n \<le> heap_end h" "extent xs < heap_end h" using C(3) n by simp_all
  show "MEM_ISUSED (items h (extent xs)) = u" "mnext (items h (extent xs)) = extent xs + n"
    "mprev (items h (extent xs)) = last_offset 0 0 xs" by (simp_all add: i pool_words(3))
  show "4 dvd n" using C(6) [of "(n, u)"] by simp
qed

lemma chain_extent_dvd: "smem_chain h (xs @ ys) \<Longrightarrow> 4 dvd extent xs"
proof -
  assume "smem_chain h (xs @ ys)"
  then have "\<forall>b \<in> set xs. 4 dvd fst b" by (simp add: smem_chain_def)
  then show ?thesis by (induction xs) auto
qed

lemma end_used:
  assumes "smem_chain h bs"
  shows "MEM_ISUSED (items h (heap_end h))"
  using smem_chainD(4) [OF assms] pool_words(3) [of "heap_self h" True]
  by (cases "items h (heap_end h)") (simp add: MEM_ISUSED_def)

text \<open>The offset behind a block is free only where the next block of the list is.\<close>

lemma next_used:
  assumes "smem_chain h (xs @ (n, u) # ys)"
  shows "MEM_ISUSED (items h (extent xs + n)) \<longleftrightarrow> (case ys of [] \<Rightarrow> True | (m, v) # zs \<Rightarrow> v)"
proof (cases ys)
  case Nil
  then show ?thesis using end_used [OF assms] smem_chainD(3) [OF assms] by simp
next
  case (Cons b zs)
  obtain m v where b: "b = (m, v)" by fastforce
  have "smem_chain h ((xs @ [(n, u)]) @ (m, v) # zs)" using assms Cons b by simp
  from chain_item(5) [OF this] show ?thesis using Cons b by simp
qed

lemma prev_used:
  assumes "smem_chain h (xs @ (l, v) # (n, u) # ys)"
  shows "mprev (items h (extent xs + l)) = extent xs" "MEM_ISUSED (items h (extent xs)) = v"
proof -
  have "smem_chain h ((xs @ [(l, v)]) @ (n, u) # ys)" using assms by simp
  from chain_item(7) [OF this] show "mprev (items h (extent xs + l)) = extent xs" by simp
  show "MEM_ISUSED (items h (extent xs)) = v" by (rule chain_item(5) [OF assms])
qed

subsection \<open>Merging\<close>

text \<open>What no operation changes.\<close>

definition same_heap :: "smem \<Rightarrow> smem \<Rightarrow> bool" where
  "same_heap h h' \<longleftrightarrow> heap_self h' = heap_self h \<and> heap_ptr h' = heap_ptr h \<and> heap_end h' = heap_end h \<and>
     mem_size_aligned h' = mem_size_aligned h"

lemma same_heap_refl [simp]: "same_heap h h"
  by (simp add: same_heap_def)

lemma same_heap_trans: "same_heap h h' \<Longrightarrow> same_heap h' h'' \<Longrightarrow> same_heap h h''"
  by (simp add: same_heap_def)

lemma same_heap_fixed: "same_heap h h' \<Longrightarrow> smem_fixed h' = smem_fixed h"
  by (simp add: same_heap_def smem_fixed_def)

lemma upd_item_simps [simp]:
  "items (upd_item p f h) = (items h)(p := f (items h p))" "heap_self (upd_item p f h) = heap_self h"
  "heap_ptr (upd_item p f h) = heap_ptr h" "heap_end (upd_item p f h) = heap_end h"
  "lfree (upd_item p f h) = lfree h" "mem_size_aligned (upd_item p f h) = mem_size_aligned h"
  "mem_used (upd_item p f h) = mem_used h" "mem_max (upd_item p f h) = mem_max h"
  "cells (upd_item p f h) = cells h"
  by (simp_all add: upd_item_def)

lemma smem_merge_chain:
  assumes c: "smem_chain h (xs @ (n, u) # (m, v) # ys)" and l: "lfree h \<noteq> extent xs + n"
  defines "h' \<equiv> smem_merge (extent xs) (extent xs + n) h"
  shows "smem_chain h' (xs @ (n + m, u) # ys)" "same_heap h h'" "lfree h' = lfree h"
    "mem_used h' = mem_used h" "mem_max h' = mem_max h" "cells h' = cells h"
proof -
  let ?p = "extent xs"
  note C = smem_chainD [OF c] and A = chain_item [OF c]
  have c1: "smem_chain h ((xs @ [(n, u)]) @ (m, v) # ys)" using c by simp
  note B = chain_item [OF this, simplified]
  have nx: "mnext (items h (?p + n)) = ?p + n + m" using B(6) by (simp add: add.assoc)
  let ?jt = "((items h)(?p + n := (items h (?p + n))\<lparr>pool_ptr := 0\<rparr>))
     (?p := (items h ?p)\<lparr>mnext := ?p + n + m\<rparr>)"
  have ne: "?p \<noteq> ?p + n" using A(2) by simp
  have it: "items h' = ?jt(?p + n + m := (?jt (?p + n + m))\<lparr>mprev := ?p\<rparr>)"
    using nx l ne by (simp add: h'_def smem_merge_def Let_def)
  show sh: "same_heap h h'" and "lfree h' = lfree h" "mem_used h' = mem_used h" "mem_max h' = mem_max h"
    "cells h' = cells h"
    using l by (simp_all add: h'_def smem_merge_def Let_def same_heap_def)
  have e: "heap_end h \<noteq> ?p" "heap_end h \<noteq> ?p + n" using A(4) B(4) by simp_all
  show "smem_chain h' (xs @ (n + m, u) # ys)"
    unfolding smem_chain_def
  proof (intro conjI)
    show "run (items h') (heap_self h') 0 0 (xs @ (n + m, u) # ys)"
      using run_merge [OF C(1)] sh unfolding it same_heap_def by simp
    show "pool_ptr (items h' (heap_end h')) = pool_word (heap_self h') True" "mnext (items h' (heap_end h')) = heap_end h'"
      using e C(4,5) sh unfolding it same_heap_def
      by (cases "heap_end h = ?p + n + m"; simp)+
    show "\<forall>b \<in> set (xs @ (n + m, u) # ys). 4 dvd fst b" using C(6) A(8) B(8) by fastforce
  qed (use C(3) sh in \<open>simp_all add: same_heap_def\<close>)
qed

text \<open>Freeing the block of \<open>n\<close> bytes between \<open>xs\<close> and \<open>ys\<close>.\<close>

definition coalesce :: "block list \<Rightarrow> nat \<Rightarrow> block list \<Rightarrow> block list" where
  "coalesce xs n ys =
     (let (n, ys) = (case ys of (m, v) # zs \<Rightarrow> if v then (n, ys) else (n + m, zs) | [] \<Rightarrow> (n, ys))
      in if xs \<noteq> [] \<and> \<not> snd (last xs) then butlast xs @ (fst (last xs) + n, False) # ys
         else xs @ (n, False) # ys)"

lemma plug_left:
  assumes c: "smem_chain h (xs @ (n, False) # ys)" and l: "lfree h = first_free 0 (xs @ (n, False) # ys)"
  defines "q \<equiv> mprev (items h (extent xs))"
  defines "h' \<equiv> (if q \<noteq> extent xs \<and> \<not> MEM_ISUSED (items h q) then smem_merge q (extent xs) h else h)"
  shows "smem_chain h' (if xs \<noteq> [] \<and> \<not> snd (last xs) then butlast xs @ (fst (last xs) + n, False) # ys
      else xs @ (n, False) # ys)" "same_heap h h'" "lfree h' = lfree h" "mem_used h' = mem_used h"
    "mem_max h' = mem_max h" "cells h' = cells h"
proof -
  have "smem_chain h' (if xs \<noteq> [] \<and> \<not> snd (last xs) then butlast xs @ (fst (last xs) + n, False) # ys
      else xs @ (n, False) # ys) \<and> same_heap h h' \<and> lfree h' = lfree h \<and> mem_used h' = mem_used h \<and>
    mem_max h' = mem_max h \<and> cells h' = cells h"
  proof (cases xs rule: rev_cases)
    case Nil
    then have "q = extent xs" using chain_item(7) [OF c] by (simp add: q_def)
    then show ?thesis using c Nil by (simp add: h'_def)
  next
    case (snoc ws b)
    obtain m v where b: "b = (m, v)" by fastforce
    have c2: "smem_chain h (ws @ (m, v) # (n, False) # ys)" using c snoc b by simp
    have q: "q = extent ws" "MEM_ISUSED (items h q) = v" "extent xs = extent ws + m"
      using prev_used [OF c2] by (simp_all add: q_def snoc b)
    have m: "12 \<le> m" by (rule chain_item(2) [OF c2])
    have qx: "q \<noteq> extent xs" using q m by simp
    show ?thesis
    proof (cases v)
      case True
      then show ?thesis using c q(2) snoc b by (simp add: h'_def)
    next
      case False
      have "first_free 0 (xs @ (n, False) # ys) \<le> extent ws"
        using first_free_le [of 0 ws] False by (simp add: snoc b first_free_append)
      then have "lfree h \<noteq> extent ws + m" using l m by simp
      note M = smem_merge_chain [OF c2 this]
      have h': "h' = smem_merge (extent ws) (extent ws + m) h"
        using False q qx by (simp add: h'_def)
      show ?thesis using M False unfolding h' by (simp add: snoc b)
    qed
  qed
  then show "smem_chain h' (if xs \<noteq> [] \<and> \<not> snd (last xs) then butlast xs @ (fst (last xs) + n, False) # ys
      else xs @ (n, False) # ys)" "same_heap h h'" "lfree h' = lfree h" "mem_used h' = mem_used h"
    "mem_max h' = mem_max h" "cells h' = cells h" by blast+
qed

lemma plug_holes_ok:
  assumes c: "smem_chain h (xs @ (n, False) # ys)" and l: "lfree h = first_free 0 (xs @ (n, False) # ys)"
  obtains h' where "plug_holes (extent xs) h = Some h'" "smem_chain h' (coalesce xs n ys)" "same_heap h h'"
    "lfree h' = lfree h" "mem_used h' = mem_used h" "mem_max h' = mem_max h" "cells h' = cells h"
proof -
  let ?p = "extent xs" and ?n = "mnext (items h (extent xs))"
  note A = chain_item [OF c]
  have pn: "?p \<noteq> ?n" "?n = ?p + n" using A(2,6) by simp_all
  let ?h1 = "if ?p \<noteq> ?n \<and> \<not> MEM_ISUSED (items h ?n) \<and> ?n \<noteq> heap_end h then smem_merge ?p ?n h else h"
  let ?ys = "case ys of (m, v) # zs \<Rightarrow> if v then ys else zs | [] \<Rightarrow> ys"
  let ?k = "case ys of (m, v) # zs \<Rightarrow> if v then n else n + m | [] \<Rightarrow> n"
  have ff: "first_free 0 (xs @ (k, False) # zs) = first_free 0 (xs @ (n, False) # ys)" for k zs
    by (simp add: first_free_append)
  have h1: "smem_chain ?h1 (xs @ (?k, False) # ?ys)" "same_heap h ?h1" "lfree ?h1 = lfree h"
    "mem_used ?h1 = mem_used h" "mem_max ?h1 = mem_max h" "cells ?h1 = cells h"
  proof -
    have "smem_chain ?h1 (xs @ (?k, False) # ?ys) \<and> same_heap h ?h1 \<and> lfree ?h1 = lfree h \<and>
      mem_used ?h1 = mem_used h \<and> mem_max ?h1 = mem_max h \<and> cells ?h1 = cells h"
    proof (cases ys)
      case Nil
      then have "?n = heap_end h" using pn(2) smem_chainD(3) [OF c] by simp
      then show ?thesis using c Nil by simp
    next
      case (Cons b zs)
      obtain m v where b: "b = (m, v)" by fastforce
      have u: "MEM_ISUSED (items h ?n) = v" using next_used [OF c] pn(2) Cons b by simp
      show ?thesis
      proof (cases v)
        case True
        then show ?thesis using u c Cons b by simp
      next
        case False
        have c2: "smem_chain h (xs @ (n, False) # (m, v) # zs)" using c Cons b by simp
        have c3: "smem_chain h ((xs @ [(n, False)]) @ (m, v) # zs)" using c2 by simp
        have e: "?n \<noteq> heap_end h" using chain_item(4) [OF c3] pn(2) by simp
        have "first_free 0 (xs @ (n, False) # ys) \<le> extent xs"
          using first_free_le [of 0 xs] by (simp add: first_free_append)
        then have "lfree h \<noteq> ?p + n" using l A(2) by simp
        note M = smem_merge_chain [OF c2 this]
        show ?thesis using M False u pn e Cons b by simp
      qed
    qed
    then show "smem_chain ?h1 (xs @ (?k, False) # ?ys)" "same_heap h ?h1" "lfree ?h1 = lfree h"
      "mem_used ?h1 = mem_used h" "mem_max ?h1 = mem_max h" "cells ?h1 = cells h" by blast+
  qed
  have l1: "lfree ?h1 = first_free 0 (xs @ (?k, False) # ?ys)" 
    by (rule h1(3) [THEN trans, OF l [THEN trans, OF ff [symmetric]]])
  note L = plug_left [OF h1(1) l1]
  let ?q = "mprev (items ?h1 ?p)"
  let ?h2 = "if ?q \<noteq> ?p \<and> \<not> MEM_ISUSED (items ?h1 ?q) then smem_merge ?q ?p ?h1 else ?h1"
  have "plug_holes ?p h = Some ?h2"
    unfolding plug_holes_def Let_def using A(4) by simp
  moreover have "coalesce xs n ys = (if xs \<noteq> [] \<and> \<not> snd (last xs)
      then butlast xs @ (fst (last xs) + ?k, False) # ?ys else xs @ (?k, False) # ?ys)"
    by (auto simp: coalesce_def split: list.splits)
  ultimately show thesis
    using L h1(2-6) same_heap_trans [OF h1(2) L(2)] by (intro that [of ?h2]) simp_all
qed

text \<open>On lists: merging keeps the extent and the used bytes and leaves no free pair.\<close>

lemma coalesce_facts:
  assumes "no_free_pair (xs @ (n, True) # ys)"
  shows "extent (coalesce xs n ys) = extent xs + n + extent ys"
    "used_bytes (coalesce xs n ys) = used_bytes xs + used_bytes ys" "no_free_pair (coalesce xs n ys)"
    "first_free 0 (coalesce xs n ys) = first_free 0 (xs @ (n, False) # ys)"
    "b \<in> set (coalesce xs n ys) \<Longrightarrow> snd b \<Longrightarrow> b \<in> set xs \<union> set ys"
proof -
  have p: "no_free_pair xs" "no_free_pair ys"
    using assms by (auto simp: no_free_pair_def successively_append_iff successively_Cons)
  obtain k zs where kz: "(case ys of (m, v) # zs \<Rightarrow> if v then (n, ys) else (n + m, zs) | [] \<Rightarrow> (n, ys)) = (k, zs)"
    by fastforce
  then have z: "no_free_pair zs" "zs \<noteq> [] \<longrightarrow> snd (hd zs)" "k + extent zs = n + extent ys" "used_bytes zs = used_bytes ys"
    "set zs \<subseteq> set ys"
    using p(2) by (auto simp: no_free_pair_def successively_Cons split: list.splits if_splits)
  have c: "coalesce xs n ys = (if xs \<noteq> [] \<and> \<not> snd (last xs) then butlast xs @ (fst (last xs) + k, False) # zs
      else xs @ (k, False) # zs)"
    by (simp add: coalesce_def kz)
  have ff: "first_free 0 (xs @ (i, False) # us) = first_free 0 (xs @ (j, False) # vs)" for i j us vs
    by (simp add: first_free_append)
  have "extent (coalesce xs n ys) = extent xs + n + extent ys \<and>
    used_bytes (coalesce xs n ys) = used_bytes xs + used_bytes ys \<and> no_free_pair (coalesce xs n ys) \<and>
    first_free 0 (coalesce xs n ys) = first_free 0 (xs @ (n, False) # ys) \<and>
    (\<forall>b \<in> set (coalesce xs n ys). snd b \<longrightarrow> b \<in> set xs \<union> set ys)"
  proof (cases "xs \<noteq> [] \<and> \<not> snd (last xs)")
    case False
    then have "no_free_pair (xs @ (k, False) # zs)"
      using p(1) z(1,2) by (auto simp: no_free_pair_def successively_append_iff successively_Cons)
    moreover have "coalesce xs n ys = xs @ (k, False) # zs" unfolding c by (rule if_not_P [OF False])
    ultimately show ?thesis using z(3,4,5) ff by auto
  next
    case True
    then obtain ws m where xs: "xs = ws @ [(m, False)]" by (metis append_butlast_last_id surjective_pairing)
    have "no_free_pair (ws @ (m + k, False) # zs)"
      using p(1) z(1,2) by (auto simp: xs no_free_pair_def successively_append_iff successively_Cons)
    moreover have c2: "coalesce xs n ys = ws @ (m + k, False) # zs" unfolding c by (simp add: xs)
    ultimately show ?thesis unfolding c2 using z(3,4,5) by (auto simp: xs first_free_append)
  qed
  then show "extent (coalesce xs n ys) = extent xs + n + extent ys"
    "used_bytes (coalesce xs n ys) = used_bytes xs + used_bytes ys" "no_free_pair (coalesce xs n ys)"
    "first_free 0 (coalesce xs n ys) = first_free 0 (xs @ (n, False) # ys)"
    "b \<in> set (coalesce xs n ys) \<Longrightarrow> snd b \<Longrightarrow> b \<in> set xs \<union> set ys" by auto
qed

subsection \<open>Release\<close>

lemma smem_mark_free:
  assumes c: "smem_chain h (xs @ (n, u) # ys)"
  shows "smem_chain (upd_item (extent xs) (\<lambda>i. i\<lparr>pool_ptr := pool_word (heap_self h) v\<rparr>) h) (xs @ (n, v) # ys)"
proof -
  note C = smem_chainD [OF c] and A = chain_item [OF c]
  have "heap_end h \<noteq> extent xs" using A(4) by simp
  then show ?thesis
    using run_mark [OF C(1), of v] C(3-6) A(8) by (auto simp: smem_chain_def)
qed

lemma first_free_mark:
  "first_free 0 (xs @ (n, False) # ys) = min (extent xs) (first_free 0 (xs @ (n, True) # ys))"
proof (cases "\<forall>b \<in> set xs. snd b")
  case True
  have "m \<le> first_free m bs" for m bs by (induction m bs rule: first_free.induct) auto
  then have "extent xs + n \<le> first_free (extent xs + n) ys" by blast
  then have "extent xs \<le> first_free (extent xs + n) ys" by linarith
  then show ?thesis using True by (simp add: first_free_append min_def)
next
  case False
  have "first_free 0 xs \<le> extent xs" using first_free_le [of 0 xs] by simp
  then show ?thesis using False by (auto simp: first_free_append min_def)
qed

theorem rt_smem_free_ok:
  assumes r: "smem_rep h (xs @ (n, True) # ys)"
  obtains h' where "rt_smem_free (Some (heap_ptr h + extent xs + 12)) h = Some h'"
    "smem_rep h' (coalesce xs n ys)" "same_heap h h'" "cells h' = cells h" "mem_max h' = mem_max h"
proof -
  note R = smem_repD [OF r]
  note C = smem_chainD [OF R(1)] and A = chain_item [OF R(1)]
  let ?p = "extent xs"
  let ?a = "heap_ptr h + ?p + 12"
  have F: "heap_end h = mem_size_aligned h + 12" "4 dvd heap_ptr h" "4 dvd heap_self h"
    "heap_ptr h + heap_end h + 12 \<le> 2 ^ 32"
    using R(2) by (simp_all add: smem_fixed_def)
  have even: "heap_self h mod 2 = 0" using F(3) by presburger
  have p: "?a - 12 - heap_ptr h = ?p" by simp
  have "4 dvd ?p" by (rule chain_extent_dvd [OF R(1)])
  then have al: "?a mod 4 = 0" using F(2) by presburger
  have pl: "MEM_POOL (items h ?p) = heap_self h"
    using pool_words(4) [of "heap_self h" True] even by (simp add: A(1) MEM_POOL_def)
  have next_pool: "MEM_POOL (items h (?p + n)) = heap_self h"
  proof (cases ys)
    case Nil
    then have "?p + n = heap_end h" using C(3) by simp
    then show ?thesis using C(4) pool_words(4) [of "heap_self h" True] even by (simp add: MEM_POOL_def)
  next
    case (Cons b zs)
    obtain m v where b: "b = (m, v)" by fastforce
    have "smem_chain h ((xs @ [(n, True)]) @ (m, v) # zs)" using R(1) Cons b by simp
    from chain_item(1) [OF this] show ?thesis
      using pool_words(4) [of "heap_self h" v] even by (simp add: MEM_POOL_def)
  qed
  let ?h1 = "upd_item ?p (\<lambda>i. i\<lparr>pool_ptr := pool_word (heap_self h) False\<rparr>) h"
  let ?h2 = "if ?p < lfree ?h1 then ?h1\<lparr>lfree := ?p\<rparr> else ?h1"
  let ?h3 = "?h2\<lparr>mem_used := usub (mem_used h) n\<rparr>"
  have c1: "smem_chain ?h1 (xs @ (n, False) # ys)" by (rule smem_mark_free [OF R(1)])
  have c3: "smem_chain ?h3 (xs @ (n, False) # ys)"
    using c1 by (simp add: smem_chain_def)
  have l3: "lfree ?h3 = first_free 0 (xs @ (n, False) # ys)"
    unfolding first_free_mark using R(4) by (simp add: min_def)
  obtain h' where h': "plug_holes ?p ?h3 = Some h'" "smem_chain h' (coalesce xs n ys)" "same_heap ?h3 h'"
    "lfree h' = lfree ?h3" "mem_used h' = mem_used ?h3" "mem_max h' = mem_max ?h3" "cells h' = cells ?h3"
    by (rule plug_holes_ok [OF c3 l3]) (rule that)
  have sh: "same_heap h ?h3" by (simp add: same_heap_def)
  note sh' = same_heap_trans [OF sh h'(3)]
  have "used_bytes (xs @ (n, True) # ys) \<le> extent (xs @ (n, True) # ys)" by (rule used_le_extent)
  also have "\<dots> < 2 ^ 32" using C(3) F(4) by simp
  finally have used: "mem_used h < 2 ^ 32" "n \<le> mem_used h" using R(5) by simp_all
  have n32: "usub (?p + n) ?p = n" using A(3) F(4) by simp
  show thesis
  proof (rule that)
    have bnd: "?a < heap_ptr h + heap_end h" using R(7) [of "(n, True)"] A(3) by simp
    show "rt_smem_free (Some ?a) h = Some h'"
      using al pl A(5,6) next_pool bnd n32 h'(1)
      by (cases "?p < lfree h") (simp_all add: rt_smem_free_def pool_words(2) Let_def)
    have "used_bytes (coalesce xs n ys) = usub (mem_used h) n"
      using coalesce_facts(2) [OF R(3)] used R(5) by simp
    then show "smem_rep h' (coalesce xs n ys)"
      using h'(2,4-6) R(2,6) l3 coalesce_facts(3,4) [OF R(3)] same_heap_fixed [OF sh'] used
        coalesce_facts(5) [OF R(3)] R(7)
      by (auto simp: smem_rep_def)
    show "same_heap h h'" by (rule sh')
  qed (use h'(6,7) in simp_all)
qed

subsection \<open>Allocation\<close>

fun first_fit :: "nat \<Rightarrow> nat \<Rightarrow> block list \<Rightarrow> nat option" where
  "first_fit sz a [] = None"
| "first_fit sz a ((n, u) # bs) = (if \<not> u \<and> sz + 12 \<le> n then Some a else first_fit sz (a + n) bs)"

lemma first_fit_None:
  assumes "a + extent bs \<le> ms + 12" "ms - sz < a" "sz \<le> ms"
  shows "first_fit sz a bs = None"
  using assms
proof (induction sz a bs rule: first_fit.induct)
  case (2 sz a n u bs)
  then have "\<not> sz + 12 \<le> n" by simp
  then show ?case using 2 by simp
qed simp

lemma first_fit_used:
  "\<forall>b \<in> set xs. snd b \<Longrightarrow> first_fit sz a (xs @ ys) = first_fit sz (a + extent xs) ys"
  by (induction sz a xs rule: first_fit.induct) (auto simp: add.assoc)

lemma first_fit_Some:
  assumes "first_fit sz a bs = Some p"
  obtains xs n ys where "bs = xs @ (n, False) # ys" "p = a + extent xs" "sz + 12 \<le> n"
proof -
  have "\<exists>xs n ys. bs = xs @ (n, False) # ys \<and> p = a + extent xs \<and> sz + 12 \<le> n"
    using assms
  proof (induction sz a bs rule: first_fit.induct)
    case (2 sz a n u bs)
    show ?case
    proof (cases "\<not> u \<and> sz + 12 \<le> n")
      case True
      then show ?thesis using 2(2) by (intro exI [of _ "[]"]) auto
    next
      case False
      then obtain xs m ys where "bs = xs @ (m, False) # ys" "p = a + n + extent xs" "sz + 12 \<le> m"
        using 2 by auto
      then show ?thesis by (intro exI [of _ "(n, u) # xs"]) auto
    qed
  qed simp
  then show thesis using that by blast
qed

lemma first_free_split:
  obtains xs ys where "bs = xs @ ys" "\<forall>b \<in> set xs. snd b" "first_free a bs = a + extent xs"
proof -
  have "\<exists>xs ys. bs = xs @ ys \<and> (\<forall>b \<in> set xs. snd b) \<and> first_free a bs = a + extent xs"
  proof (induction a bs rule: first_free.induct)
    case (2 a n u bs)
    show ?case
    proof (cases u)
      case True
      then obtain xs ys where "bs = xs @ ys" "\<forall>b \<in> set xs. snd b" "first_free (a + n) bs = a + n + extent xs"
        using 2 by auto
      then show ?thesis using True by (intro exI [of _ "(n, u) # xs"] exI [of _ ys]) auto
    qed (auto intro: exI [of _ "[]"])
  qed simp
  then show thesis using that by blast
qed

text \<open>The two loops end, and find what the list says.\<close>

lemma smem_find_ok:
  assumes "smem_chain h (xs @ ys)" "smem_fixed h" "sz \<le> mem_size_aligned h"
  shows "smem_find h sz (extent xs) = Some (first_fit sz (extent xs) ys)"
  using assms(1)
proof (induction ys arbitrary: xs)
  have F: "heap_end h = mem_size_aligned h + 12" "mem_size_aligned h < 2 ^ 32" "heap_end h + 12 \<le> 2 ^ 32"
    using assms(2) by (auto simp: smem_fixed_def)
  have lim: "usub (mem_size_aligned h) sz = mem_size_aligned h - sz" using assms(3) F(2) by simp
  {
    case Nil
    then have "extent xs = mem_size_aligned h + 12" using smem_chainD(3) [OF Nil] F(1) by simp
    then have "\<not> extent xs \<le> usub (mem_size_aligned h) sz" by (simp add: lim)
    then show ?case by (subst smem_find.simps) simp
  next
    case (Cons b ys)
    obtain n u where b: "b = (n, u)" by fastforce
    note c = Cons.prems [unfolded b]
    note A = chain_item [OF c]
    show ?case
    proof (cases "extent xs \<le> mem_size_aligned h - sz")
      case False
      have "extent xs + extent (b # ys) \<le> mem_size_aligned h + 12"
        using smem_chainD(3) [OF Cons.prems] F(1) by simp
      from first_fit_None [OF this _ assms(3)] False have "first_fit sz (extent xs) (b # ys) = None" by simp
      moreover have "smem_find h sz (extent xs) = Some None"
        using False by (subst smem_find.simps) (simp add: lim)
      ultimately show ?thesis by simp
    next
      case True
      have w: "usub (extent xs + n) (extent xs + 12) = n - 12" using A(2,3) F(3) by simp
      have "smem_chain h ((xs @ [(n, u)]) @ ys)" using c by simp
      from Cons.IH [OF this]
      have IH: "smem_find h sz (extent xs + n) = Some (first_fit sz (extent xs + n) ys)" by simp
      show ?thesis
        using True IH A(2) by (subst smem_find.simps) (auto simp: lim A(5,6) w b)
    qed
  }
qed

lemma smem_next_free_ok:
  assumes "smem_chain h (xs @ ys)"
  shows "smem_next_free h (extent xs) = Some (first_free (extent xs) ys)"
  using assms
proof (induction ys arbitrary: xs)
  case Nil
  then have "extent xs = heap_end h" using smem_chainD(3) [OF Nil] by simp
  then show ?case by (subst smem_next_free.simps) simp
next
  case (Cons b ys)
  obtain n u where b: "b = (n, u)" by fastforce
  note c = Cons.prems [unfolded b]
  note A = chain_item [OF c]
  have "smem_chain h ((xs @ [(n, u)]) @ ys)" using c by simp
  from Cons.IH [OF this] have IH: "smem_next_free h (extent xs + n) = Some (first_free (extent xs + n) ys)" by simp
  show ?case
    using IH A(4) by (subst smem_next_free.simps) (simp add: A(5,6) b)
qed

lemma smem_split_chain:
  assumes c: "smem_chain h (xs @ (n, u) # ys)" and f: "smem_fixed h"
    and k: "12 \<le> k" "k + 12 \<le> n" "4 dvd k"
  defines "h' \<equiv> smem_split (extent xs) (extent xs + k) h"
  shows "smem_chain h' (xs @ (k, u) # (n - k, False) # ys)" "same_heap h h'" "lfree h' = lfree h"
    "mem_used h' = mem_used h" "mem_max h' = mem_max h" "cells h' = cells h"
proof -
  let ?p = "extent xs"
  note C = smem_chainD [OF c] and A = chain_item [OF c]
  have E: "mem_size_aligned h + 12 = heap_end h" using f by (simp add: smem_fixed_def)
  let ?jt = "((items h)(?p + k := \<lparr>pool_ptr = pool_word (heap_self h) False, mnext = ?p + n, mprev = ?p\<rparr>))
     (?p := (items h ?p)\<lparr>mnext := ?p + k\<rparr>)"
  have pk: "?p \<noteq> ?p + k" using k(1) by simp
  have it: "items h' = (if ?p + n \<noteq> heap_end h then ?jt(?p + n := (?jt (?p + n))\<lparr>mprev := ?p + k\<rparr>) else ?jt)"
    using pk by (simp add: h'_def smem_split_def Let_def A(6) pool_words(2) E)
  show sh: "same_heap h h'" and "lfree h' = lfree h" "mem_used h' = mem_used h" "mem_max h' = mem_max h"
    "cells h' = cells h"
    by (simp_all add: h'_def smem_split_def Let_def same_heap_def)
  have "?p + n = heap_end h \<Longrightarrow> ys = []"
  proof -
    assume "?p + n = heap_end h"
    then have "extent ys = 0" using C(3) by simp
    then show "ys = []" using C(1) by (cases ys) (auto simp: run_append)
  qed
  then have r: "run (items h') (heap_self h') 0 0 (xs @ (k, u) # (n - k, False) # ys)"
    using run_split [OF C(1) k(1,2)] sh unfolding it same_heap_def by (cases "?p + n = heap_end h") simp_all
  have e: "heap_end h \<noteq> ?p" "heap_end h \<noteq> ?p + k" using A(2,3) k by simp_all
  have ends: "items h' (heap_end h) = items h (heap_end h)" using e unfolding it by simp
  have d: "4 dvd n - k" using A(8) k by (simp add: dvd_diff_nat)
  show "smem_chain h' (xs @ (k, u) # (n - k, False) # ys)"
    unfolding smem_chain_def
    using r sh C(3-6) ends k d by (auto simp: same_heap_def)
qed

definition cut :: "nat \<Rightarrow> nat \<Rightarrow> block list" where
  "cut sz n = (if sz + 36 \<le> n then [(sz + 12, True), (n - (sz + 12), False)] else [(n, True)])"

lemma extent_pos_first_free:
  assumes "\<exists>b \<in> set xs. \<not> snd b" "\<forall>b \<in> set xs. 0 < fst b"
  shows "first_free a xs < a + extent xs"
  using assms
proof (induction a xs rule: first_free.induct)
  case (2 a n u bs)
  then show ?case by (cases u) auto
qed simp

lemma smem_take_ok:
  assumes r: "smem_rep h (xs @ (n, False) # ys)" and sz: "12 \<le> sz" "4 dvd sz" "sz + 12 \<le> n"
  obtains h' where "smem_take (extent xs) sz h = Some (heap_ptr h + extent xs + 12, h')"
    "smem_rep h' (xs @ cut sz n @ ys)" "same_heap h h'" "cells h' = cells h"
proof -
  let ?p = "extent xs" and ?bs = "xs @ cut sz n @ ys"
  note R = smem_repD [OF r]
  note C = smem_chainD [OF R(1)] and A = chain_item [OF R(1)]
  have F: "heap_end h = mem_size_aligned h + 12" "4 dvd heap_ptr h" "heap_ptr h + heap_end h + 12 \<le> 2 ^ 32"
    using R(2) by (simp_all add: smem_fixed_def)
  have w: "usub (?p + n) (?p + 12) = n - 12" "usub (?p + n) ?p = n" using A(2,3) F(3) by simp_all
  let ?k = "if sz + 36 \<le> n then sz + 12 else n"
  let ?h1 = "if sz + 36 \<le> n then smem_split ?p (?p + 12 + sz) h else h"
  have s1: "smem_chain ?h1 (xs @ (?k, False) # tl (cut sz n) @ ys)" "same_heap h ?h1" "lfree ?h1 = lfree h"
    "mem_used ?h1 = mem_used h" "mem_max ?h1 = mem_max h" "cells ?h1 = cells h"
  proof -
    have "smem_chain ?h1 (xs @ (?k, False) # tl (cut sz n) @ ys) \<and> same_heap h ?h1 \<and> lfree ?h1 = lfree h \<and>
      mem_used ?h1 = mem_used h \<and> mem_max ?h1 = mem_max h \<and> cells ?h1 = cells h"
    proof (cases "sz + 36 \<le> n")
      case True
      have "12 \<le> sz + 12" "sz + 12 + 12 \<le> n" "4 dvd sz + 12" using True sz(2) by simp_all
      from smem_split_chain [OF R(1,2) this] True show ?thesis by (simp add: cut_def ac_simps)
    next
      case False
      then show ?thesis using R(1) by (simp add: cut_def)
    qed
    then show "smem_chain ?h1 (xs @ (?k, False) # tl (cut sz n) @ ys)" "same_heap h ?h1" "lfree ?h1 = lfree h"
      "mem_used ?h1 = mem_used h" "mem_max ?h1 = mem_max h" "cells ?h1 = cells h" by blast+
  qed
  let ?h2 = "smem_account ?k ?h1"
  have acc: "items ?h2 = items ?h1" "same_heap ?h1 ?h2" "lfree ?h2 = lfree ?h1" "cells ?h2 = cells ?h1"
    "heap_end ?h2 = heap_end ?h1" "heap_self ?h2 = heap_self ?h1"
    "mem_used ?h2 = (mem_used ?h1 + ?k) mod 2 ^ 32" "mem_used ?h2 \<le> mem_max ?h2"
    unfolding smem_account_def by (simp_all add: Let_def same_heap_def)
  have s2: "smem_chain ?h2 (xs @ (?k, False) # tl (cut sz n) @ ys)"
    using s1(1) unfolding smem_chain_def acc by simp
  let ?h3 = "upd_item ?p (\<lambda>i. i\<lparr>pool_ptr := pool_word (heap_self ?h2) True\<rparr>) ?h2"
  have bs: "xs @ (?k, True) # tl (cut sz n) @ ys = ?bs" by (simp add: cut_def)
  have s3: "smem_chain ?h3 ?bs" using smem_mark_free [OF s2, of True] unfolding bs .
  have l3: "lfree ?h3 = first_free 0 (xs @ (n, False) # ys)" using acc(3) s1(3) R(4) by simp
  have sh: "same_heap h ?h3"
    by (rule same_heap_trans [OF same_heap_trans [OF s1(2) acc(2)]]) (simp add: same_heap_def)
  let ?h4 = "?h3\<lparr>lfree := first_free 0 ?bs\<rparr>"
  have lf: "(if ?p = lfree ?h3 then do {
         q \<leftarrow> smem_next_free ?h3 (lfree ?h3);
         let h = ?h3\<lparr>lfree := q\<rparr>;
         _ \<leftarrow> rt_assert (lfree h = heap_end h \<or> \<not> MEM_ISUSED (items h (lfree h)));
         Some h } else Some ?h3) = Some ?h4"
  proof (cases "\<forall>b \<in> set xs. snd b")
    case True
    have q: "smem_next_free ?h3 ?p = Some (first_free ?p (cut sz n @ ys))" by (rule smem_next_free_ok [OF s3])
    have ff: "first_free 0 ?bs = first_free ?p (cut sz n @ ys)" "lfree ?h3 = ?p"
      using True l3 by (simp_all add: first_free_append)
    obtain us vs where uv: "?bs = us @ vs" "\<forall>b \<in> set us. snd b" "first_free 0 ?bs = 0 + extent us"
      by (rule first_free_split)
    have "first_free 0 ?bs = heap_end ?h3 \<or> \<not> MEM_ISUSED (items ?h3 (first_free 0 ?bs))"
    proof (cases vs)
      case Nil
      then show ?thesis using uv smem_chainD(3) [OF s3] by simp
    next
      case (Cons b vs')
      obtain m v where b: "b = (m, v)" by fastforce
      note c3 = s3 [unfolded uv(1) Cons b]
      have pos: "12 \<le> m" by (rule chain_item(2) [OF c3])
      have "\<not> v"
      proof
        assume v
        then have "first_free 0 ?bs = first_free (extent us + m) vs'"
          using uv(2) unfolding uv(1) Cons b by (simp add: first_free_append)
        moreover have "a \<le> first_free a cs" for a cs by (induction a cs rule: first_free.induct) auto
        ultimately have "extent us + m \<le> first_free 0 ?bs" by metis
        then show False using uv(3) pos by simp
      qed
      then show ?thesis using chain_item(5) [OF c3] uv(3) by simp
    qed
    then show ?thesis using q ff by (simp del: upd_item_simps(1))
  next
    case False
    then have ex: "\<exists>b \<in> set xs. \<not> snd b" by blast
    have "\<forall>b \<in> set xs. 0 < fst b"
    proof
      fix b assume "b \<in> set xs"
      then obtain us vs where "xs = us @ (fst b, snd b) # vs" by (metis in_set_conv_decomp surjective_pairing)
      then have "smem_chain h (us @ (fst b, snd b) # vs @ (n, False) # ys)" using R(1) by simp
      from chain_item(2) [OF this] show "0 < fst b" by simp
    qed
    from extent_pos_first_free [OF ex this, of 0] have "first_free 0 xs < ?p" by simp
    moreover have "lfree ?h3 = first_free 0 xs" "first_free 0 ?bs = first_free 0 xs"
      using False l3 by (auto simp: first_free_append)
    ultimately show ?thesis by simp
  qed
  have ub: "used_bytes ?bs = mem_used h + ?k" using R(5) by (simp add: cut_def)
  have "used_bytes ?bs \<le> extent ?bs" by (rule used_le_extent)
  also have "\<dots> < 2 ^ 32" using smem_chainD(3) [OF s3] sh F(3) by (simp add: same_heap_def)
  finally have u4: "mem_used ?h4 = used_bytes ?bs" using acc(7) s1(4) ub by simp
  have "4 dvd ?p" by (rule chain_extent_dvd [OF R(1)])
  then have al: "(heap_ptr h + ?p + 12) mod 4 = 0" "(heap_ptr h + ?p) mod 4 = 0" using F(2) by presburger+
  have nf: "no_free_pair ?bs"
    using R(3) by (auto simp: cut_def no_free_pair_def successively_append_iff successively_Cons)
  have used12: "12 < fst b" if "b \<in> set ?bs" "snd b" for b
    using that R(7) [of b] sz by (auto simp: cut_def split: if_splits)
  show thesis
  proof (rule that)
    have h: "heap_ptr ?h4 = heap_ptr h" "heap_end ?h4 = heap_end h" using sh by (simp_all add: same_heap_def)
    have g: "sz + 12 + 12 \<le> n - 12 \<longleftrightarrow> sz + 36 \<le> n" using A(2) by arith
    have h2: "(if usub (mnext (items h ?p)) (?p + 12) \<ge> sz + 12 + 12
        then smem_account (sz + 12) (smem_split ?p (?p + 12 + sz) h)
        else smem_account (usub (mnext (items h ?p)) ?p) h) = ?h2"
      unfolding A(6) w g by simp
    show "smem_take ?p sz h = Some (heap_ptr h + ?p + 12, ?h4)"
      unfolding smem_take_def h2 Let_def pool_words(1)
      using lf [unfolded Let_def] h al A(3) sz(3) by simp
    have c4: "smem_chain ?h4 ?bs" using s3 by (simp add: smem_chain_def)
    have sh4: "same_heap h ?h4" using sh by (simp add: same_heap_def)
    show "same_heap h ?h4" by (rule sh4)
    show "smem_rep ?h4 ?bs"
      using c4 same_heap_fixed [OF sh4] R(2) nf u4 acc(8) used12 by (auto simp: smem_rep_def)
    show "cells ?h4 = cells h" using acc(4) s1(6) by simp
  qed
qed

subsection \<open>The specification on lists\<close>

text \<open>
  What the caller asks for, in bytes behind an item; first fit with a split; and release, which marks
  the block and joins all neighbouring free blocks.
\<close>

definition request :: "nat \<Rightarrow> nat" where
  "request sz = max 12 (RT_ALIGN sz 4)"

fun spec_smem_alloc :: "nat \<Rightarrow> nat \<Rightarrow> block list \<Rightarrow> (nat \<times> block list) option" where
  "spec_smem_alloc sz a [] = None"
| "spec_smem_alloc sz a ((n, u) # bs) =
     (if \<not> u \<and> sz + 12 \<le> n then Some (a, cut sz n @ bs)
      else map_option (\<lambda>(p, cs). (p, (n, u) # cs)) (spec_smem_alloc sz (a + n) bs))"

fun join_free :: "block list \<Rightarrow> block list" where
  "join_free ((n, False) # (m, False) # bs) = join_free ((n + m, False) # bs)"
| "join_free (b # bs) = b # join_free bs"
| "join_free [] = []"

fun live :: "nat \<Rightarrow> block list \<Rightarrow> (nat \<times> nat) set" where
  "live a [] = {}"
| "live a ((n, u) # bs) = (if u then {(a, n)} else {}) \<union> live (a + n) bs"

lemma spec_smem_alloc_cases:
  obtains "first_fit sz a bs = None" "spec_smem_alloc sz a bs = None"
  | xs n ys where "bs = xs @ (n, False) # ys" "sz + 12 \<le> n" "first_fit sz a bs = Some (a + extent xs)"
      "spec_smem_alloc sz a bs = Some (a + extent xs, xs @ cut sz n @ ys)"
proof -
  have "first_fit sz a bs = None \<and> spec_smem_alloc sz a bs = None \<or>
    (\<exists>xs n ys. bs = xs @ (n, False) # ys \<and> sz + 12 \<le> n \<and> first_fit sz a bs = Some (a + extent xs) \<and>
      spec_smem_alloc sz a bs = Some (a + extent xs, xs @ cut sz n @ ys))"
  proof (induction sz a bs rule: first_fit.induct)
    case (2 sz a n u bs)
    show ?case
    proof (cases "\<not> u \<and> sz + 12 \<le> n")
      case True
      then show ?thesis by (intro disjI2 exI [of _ "[]"] exI [of _ n] exI [of _ bs]) simp
    next
      case False
      from 2 [OF False] show ?thesis
      proof (elim disjE exE)
        fix xs m ys
        assume "bs = xs @ (m, False) # ys \<and> sz + 12 \<le> m \<and> first_fit sz (a + n) bs = Some (a + n + extent xs) \<and>
          spec_smem_alloc sz (a + n) bs = Some (a + n + extent xs, xs @ cut sz m @ ys)"
        then show ?thesis using False
          by (intro disjI2 exI [of _ "(n, u) # xs"] exI [of _ m] exI [of _ ys]) (auto simp: add.assoc)
      qed (use False in auto)
    qed
  qed simp
  then show thesis using that by blast
qed

lemma live_append: "live a (xs @ ys) = live a xs \<union> live (a + extent xs) ys"
  by (induction a xs rule: live.induct) (auto simp: add.assoc)

lemma live_bounds: "(p, n) \<in> live a bs \<Longrightarrow> a \<le> p \<and> p + n \<le> a + extent bs"
  by (induction a bs rule: live.induct) (fastforce split: if_splits)+

lemma live_block:
  assumes "(p, n) \<in> live a bs"
  obtains xs ys where "bs = xs @ (n, True) # ys" "p = a + extent xs"
proof -
  have "\<exists>xs ys. bs = xs @ (n, True) # ys \<and> p = a + extent xs"
    using assms
  proof (induction a bs rule: live.induct)
    case (2 a m u bs)
    show ?case
    proof (cases "u \<and> p = a \<and> n = m")
      case True
      then show ?thesis by (intro exI [of _ "[]"] exI [of _ bs]) simp
    next
      case False
      then obtain xs ys where "bs = xs @ (n, True) # ys" "p = a + m + extent xs"
        using 2 by (auto split: if_splits)
      then show ?thesis by (intro exI [of _ "(m, u) # xs"] exI [of _ ys]) simp
    qed
  qed simp
  then show thesis using that by blast
qed

lemma live_apart: "(p, n) \<in> live a bs \<Longrightarrow> (q, m) \<in> live a bs \<Longrightarrow> p < q \<Longrightarrow> p + n \<le> q"
proof (induction a bs rule: live.induct)
  case (2 a k u bs)
  then show ?case using live_bounds [of _ _ "a + k" bs] by (fastforce split: if_splits)
qed simp

lemma live_split: "live a (xs @ (n, u) # ys) = live a xs \<union> (if u then {(a + extent xs, n)} else {}) \<union> live (a + extent xs + n) ys"
  by (simp add: live_append)

lemma live_remove:
  assumes "0 < n"
  shows "live 0 xs \<union> live (extent xs + n) ys = live 0 (xs @ (n, True) # ys) - {(extent xs, n)}"
  using live_bounds [of "extent xs" n 0 xs] live_bounds [of "extent xs" n "extent xs + n" ys] assms
  by (auto simp: live_split)

lemma join_free_id: "no_free_pair bs \<Longrightarrow> join_free bs = bs"
  by (induction bs rule: join_free.induct) (auto simp: no_free_pair_def successively_Cons)

lemma join_free_used: "join_free (xs @ (n, True) # ys) = join_free xs @ (n, True) # join_free ys"
  by (induction xs rule: join_free.induct) auto

lemma join_free_two: "no_free_pair xs \<Longrightarrow> xs \<noteq> [] \<Longrightarrow> \<not> snd (last xs) \<Longrightarrow>
   join_free (xs @ (n, False) # ys) = butlast xs @ join_free ((fst (last xs) + n, False) # ys)"
  by (induction xs rule: join_free.induct) (auto simp: no_free_pair_def successively_Cons split: if_splits)

lemma join_free_one: "no_free_pair xs \<Longrightarrow> xs = [] \<or> snd (last xs) \<Longrightarrow>
   join_free (xs @ (n, False) # ys) = xs @ join_free ((n, False) # ys)"
  by (induction xs rule: join_free.induct) (auto simp: no_free_pair_def successively_Cons split: if_splits)

lemma coalesce_join:
  assumes "no_free_pair (xs @ (n, True) # ys)"
  shows "coalesce xs n ys = join_free (xs @ (n, False) # ys)"
proof -
  have p: "no_free_pair xs" "no_free_pair ys"
    using assms by (auto simp: no_free_pair_def successively_append_iff successively_Cons)
  have right: "join_free ((m, False) # ys) =
    (case ys of (k, v) # zs \<Rightarrow> if v then (m, False) # ys else (m + k, False) # zs | [] \<Rightarrow> [(m, False)])" for m
  proof (cases ys)
    case (Cons b zs)
    obtain k v where b: "b = (k, v)" by fastforce
    have "no_free_pair ((m + k, False) # zs)" if "\<not> v"
      using p(2) that by (auto simp: Cons b no_free_pair_def successively_Cons)
    moreover have "no_free_pair ((m, False) # ys)" if v
      using p(2) that by (auto simp: Cons b no_free_pair_def successively_Cons)
    ultimately show ?thesis using join_free_id [of "(m + k, False) # zs"] join_free_id [of "(m, False) # ys"]
      by (auto simp: Cons b)
  qed simp
  show ?thesis
  proof (cases "xs \<noteq> [] \<and> \<not> snd (last xs)")
    case True
    then show ?thesis using join_free_two [OF p(1)] right by (auto simp: coalesce_def split: list.splits)
  next
    case False
    then have "xs = [] \<or> snd (last xs)" by blast
    from join_free_one [OF p(1) this] False show ?thesis
      unfolding coalesce_def by (auto simp: right split: list.splits)
  qed
qed

lemma live_Cons: "live a (b # bs) = (if snd b then {(a, fst b)} else {}) \<union> live (a + fst b) bs"
  by (cases b) simp

lemma live_join: "live a (join_free bs) = live a bs"
proof (induction bs arbitrary: a rule: join_free.induct)
  case (1 n m bs)
  show ?case using 1 [of a] by (simp add: add.assoc)
qed (simp_all add: live_Cons)

subsection \<open>The operations refine the specification\<close>

lemma RT_ALIGN_facts:
  assumes "n + 3 < 2 ^ 32"
  shows "n \<le> RT_ALIGN n 4" "4 dvd RT_ALIGN n 4" "RT_ALIGN n 4 \<le> n + 3"
  using assms RT_ALIGN_DOWN_dvd [of 4 "(n + 4 - 1) mod 2 ^ 32"]
  by (simp_all add: RT_ALIGN_def RT_ALIGN_DOWN_def)

lemma RT_ALIGN_dvd: "4 dvd RT_ALIGN n 4"
  by (simp add: RT_ALIGN_def RT_ALIGN_DOWN_dvd)

lemma request_facts: "12 \<le> request sz" "4 dvd request sz" "RT_ALIGN sz 4 \<le> request sz"
  by (auto simp: request_def max_def RT_ALIGN_dvd)

lemma first_fit_big: "extent bs < sz + 12 \<Longrightarrow> first_fit sz a bs = None"
  by (induction sz a bs rule: first_fit.induct) auto

lemma smem_find_first:
  assumes r: "smem_rep h bs" and sz: "sz \<le> mem_size_aligned h"
  shows "smem_find h sz (lfree h) = Some (first_fit sz 0 bs)"
proof -
  note R = smem_repD [OF r]
  obtain us vs where uv: "bs = us @ vs" "\<forall>b \<in> set us. snd b" "first_free 0 bs = 0 + extent us"
    by (rule first_free_split)
  have "smem_find h sz (extent us) = Some (first_fit sz (extent us) vs)"
    by (rule smem_find_ok [OF R(1) [unfolded uv(1)] R(2) sz])
  then show ?thesis using uv R(4) first_fit_used [OF uv(2), of sz 0 vs] by simp
qed

theorem rt_smem_alloc_refines:
  assumes r: "smem_rep h bs" and m: "12 \<le> mem_size_aligned h" and sz: "0 < sz" "sz + 3 < 2 ^ 32"
  shows "case spec_smem_alloc (request sz) 0 bs of
      None \<Rightarrow> rt_smem_alloc sz h = Some (None, h)
    | Some (p, cs) \<Rightarrow> (\<exists>h'. rt_smem_alloc sz h = Some (Some (heap_ptr h + p + 12), h') \<and>
        smem_rep h' cs \<and> same_heap h h' \<and> cells h' = cells h)"
proof -
  let ?sz = "request sz"
  note R = smem_repD [OF r]
  have ext: "extent bs = mem_size_aligned h + 12"
    using smem_chainD(3) [OF R(1)] R(2) by (simp add: smem_fixed_def)
  have pos: "0 < sz" "\<not> sz = 0" using sz by auto
  have rq: "(if RT_ALIGN sz 4 < 12 then 12 else RT_ALIGN sz 4) = ?sz" by (simp add: request_def max_def)
  show ?thesis
  proof (cases "RT_ALIGN sz 4 > mem_size_aligned h")
    case True
    then have "first_fit ?sz 0 bs = None" using request_facts(3) [of sz] ext by (intro first_fit_big) simp
    then have "spec_smem_alloc ?sz 0 bs = None" by (cases rule: spec_smem_alloc_cases [of ?sz 0 bs]) simp_all
    then show ?thesis using True pos by (simp add: rt_smem_alloc_def Let_def)
  next
    case False
    then have le: "?sz \<le> mem_size_aligned h" using m by (simp add: request_def)
    note find = smem_find_first [OF r le]
    have al: "rt_smem_alloc sz h = (case first_fit ?sz 0 bs of
        None \<Rightarrow> Some (None, h)
      | Some p \<Rightarrow> Option.bind (smem_take p ?sz h) (\<lambda>(a, h). Some (Some a, h)))"
      using False pos unfolding rt_smem_alloc_def Let_def rq by (simp add: find)
    show ?thesis
    proof (cases rule: spec_smem_alloc_cases [of ?sz 0 bs])
      case 1
      then show ?thesis using al by simp
    next
      case (2 xs n ys)
      note r2 = r [unfolded 2(1)]
      obtain h' where "smem_take (extent xs) ?sz h = Some (heap_ptr h + extent xs + 12, h')"
        "smem_rep h' (xs @ cut ?sz n @ ys)" "same_heap h h'" "cells h' = cells h"
        by (rule smem_take_ok [OF r2 request_facts(1,2) 2(2)]) (rule that)
      then show ?thesis using al 2(3,4) by simp
    qed
  qed
qed

theorem rt_smem_free_refines:
  assumes r: "smem_rep h (xs @ (n, True) # ys)"
  obtains h' where "rt_smem_free (Some (heap_ptr h + extent xs + 12)) h = Some h'"
    "smem_rep h' (join_free (xs @ (n, False) # ys))" "same_heap h h'" "cells h' = cells h"
proof -
  obtain h' where "rt_smem_free (Some (heap_ptr h + extent xs + 12)) h = Some h'"
    "smem_rep h' (coalesce xs n ys)" "same_heap h h'" "cells h' = cells h"
    by (rule rt_smem_free_ok [OF r]) (rule that)
  then show thesis using coalesce_join [OF smem_repD(3) [OF r]] by (intro that [of h']) simp_all
qed

text \<open>Releasing what was just allocated gives the old list back.\<close>

lemma no_free_pair_join:
  assumes "no_free_pair (xs @ (n, False) # ys)"
  shows "join_free (xs @ (k, False) # tl (cut sz n) @ ys) = xs @ (if sz + 36 \<le> n then k + (n - (sz + 12)) else k, False) # ys"
proof -
  let ?k = "if sz + 36 \<le> n then k + (n - (sz + 12)) else k"
  have p: "no_free_pair xs" "xs = [] \<or> snd (last xs)" "no_free_pair ((m, False) # ys)" for m
    using assms by (auto simp: no_free_pair_def successively_append_iff successively_Cons)
  have "join_free ((k, False) # tl (cut sz n) @ ys) = (?k, False) # ys"
    using join_free_id [OF p(3)] by (simp add: cut_def)
  then show ?thesis using join_free_one [OF p(1,2)] by simp
qed

theorem rt_smem_alloc_free:
  assumes r: "smem_rep h bs" and m: "12 \<le> mem_size_aligned h" and sz: "0 < sz" "sz + 3 < 2 ^ 32"
    and a: "rt_smem_alloc sz h = Some (Some a, h')"
  obtains h'' where "rt_smem_free (Some a) h' = Some h''" "smem_rep h'' bs" "same_heap h h''" "cells h'' = cells h"
proof (cases rule: spec_smem_alloc_cases [of "request sz" 0 bs])
  case 1
  then show thesis using rt_smem_alloc_refines [OF r m sz] a by simp
next
  case (2 xs n ys)
  let ?k = "if request sz + 36 \<le> n then request sz + 12 else n"
  have A: "a = heap_ptr h + extent xs + 12" "smem_rep h' (xs @ cut (request sz) n @ ys)" "same_heap h h'"
    "cells h' = cells h"
    using rt_smem_alloc_refines [OF r m sz] a 2(4) by auto
  have "xs @ cut (request sz) n @ ys = xs @ (?k, True) # tl (cut (request sz) n) @ ys" by (simp add: cut_def)
  then have r2: "smem_rep h' (xs @ (?k, True) # tl (cut (request sz) n) @ ys)"
    by (rule subst [where P = "smem_rep h'", OF _ A(2)])
  have "join_free (xs @ (?k, False) # tl (cut (request sz) n) @ ys) = bs"
    using no_free_pair_join [OF smem_repD(3) [OF r [unfolded 2(1)]]] by (simp add: 2(1))
  moreover obtain h'' where "rt_smem_free (Some (heap_ptr h' + extent xs + 12)) h' = Some h''"
    "smem_rep h'' (join_free (xs @ (?k, False) # tl (cut (request sz) n) @ ys))" "same_heap h' h''"
    "cells h'' = cells h'"
    by (rule rt_smem_free_refines [OF r2]) (rule that)
  ultimately show thesis using A same_heap_trans [OF A(3)] by (intro that [of h'']) (simp_all add: same_heap_def)
qed

subsection \<open>Initialisation\<close>

theorem rt_smem_init_ok:
  assumes b: "begin_addr + sz < 2 ^ 32" and s: "96 \<le> sz"
  obtains h where "rt_smem_init begin_addr sz mem = Some h"
    "smem_rep h [(mem_size_aligned h + 12, False)]" "mem_used h = 0"
    "begin_addr + 56 \<le> heap_ptr h" "heap_ptr h + mem_size_aligned h + 24 \<le> begin_addr + sz"
    "begin_addr + sz \<le> heap_ptr h + mem_size_aligned h + 30"
proof -
  obtain m e where m_def: "RT_ALIGN begin_addr 4 = m" and e_def: "RT_ALIGN_DOWN ((begin_addr + sz) mod 2 ^ 32) 4 = e"
    by blast
  have m: "begin_addr \<le> m" "4 dvd m" "m \<le> begin_addr + 3"
    using RT_ALIGN_facts [of begin_addr] b s unfolding m_def by simp_all
  have "e = begin_addr + sz - (begin_addr + sz) mod 4"
    using b unfolding e_def [symmetric] by (simp add: RT_ALIGN_DOWN_def)
  then have e: "e \<le> begin_addr + sz" "begin_addr + sz \<le> e + 3" "4 dvd e"
    by (simp_all add: dvd_minus_mod)
  have st: "(m + 56) mod 2 ^ 32 = m + 56" "RT_ALIGN (m + 56) 4 = m + 56"
  proof -
    show "(m + 56) mod 2 ^ 32 = m + 56" using m(3) b s by simp
    have "4 dvd m + 56" using m(2) by simp
    moreover have "m + 56 + 3 < 2 ^ 32" using m(3) b s by simp
    ultimately show "RT_ALIGN (m + 56) 4 = m + 56"
      using RT_ALIGN_facts [of "m + 56"] by presburger
  qed
  let ?sz = "e - (m + 56) - 24"
  have le: "m + 56 + 24 \<le> e" "e < 2 ^ 32" using m(3) e b s by simp_all
  then have c: "24 < e" "m + 56 \<le> e - 24" by simp_all
  have us: "usub (usub e (m + 56)) 24 = ?sz" using le by simp
  have d: "4 dvd ?sz" using e(3) m(2) le by (simp add: dvd_diff_nat)
  let ?i = "((\<lambda>_. \<lparr>pool_ptr = 0, mnext = 0, mprev = 0\<rparr>)(0 := \<lparr>pool_ptr = pool_word m False, mnext = ?sz + 12,
      mprev = 0\<rparr>)) (?sz + 12 := \<lparr>pool_ptr = pool_word m True, mnext = ?sz + 12, mprev = ?sz + 12\<rparr>)"
  let ?h = "\<lparr>heap_self = m, heap_ptr = m + 56, heap_end = ?sz + 12, lfree = 0, mem_size_aligned = ?sz,
      mem_used = 0, mem_max = 0, items = ?i, cells = (\<lambda>p. mem (m + 56 + p))\<rparr>"
  show thesis
  proof (rule that [of ?h])
    show "rt_smem_init begin_addr sz mem = Some ?h"
      using c unfolding rt_smem_init_def Let_def m_def e_def st pool_words(1,2) by (simp add: us upd_item_def pool_words(1,2))
    have "smem_fixed ?h" using d m(2) le by (simp add: smem_fixed_def)
    moreover have "smem_chain ?h [(?sz + 12, False)]" using d by (simp add: smem_chain_def)
    ultimately show "smem_rep ?h [(mem_size_aligned ?h + 12, False)]"
      by (simp add: smem_rep_def no_free_pair_def)
  qed (use m e le in simp_all)
qed

subsection \<open>Resizing\<close>

lemma rt_smem_alloc_cases:
  assumes "smem_rep h bs" "12 \<le> mem_size_aligned h" "0 < sz" "sz + 3 < 2 ^ 32"
  obtains "rt_smem_alloc sz h = Some (None, h)"
  | us m vs h' where "bs = us @ (m, False) # vs" "request sz + 12 \<le> m"
      "rt_smem_alloc sz h = Some (Some (heap_ptr h + extent us + 12), h')"
      "smem_rep h' (us @ cut (request sz) m @ vs)" "same_heap h h'" "cells h' = cells h"
proof (cases rule: spec_smem_alloc_cases [of "request sz" 0 bs])
  case 1
  then show thesis using rt_smem_alloc_refines [OF assms] that(1) by simp
next
  case (2 us m vs)
  then obtain h' where "rt_smem_alloc sz h = Some (Some (heap_ptr h + extent us + 12), h')"
    "smem_rep h' (us @ cut (request sz) m @ vs)" "same_heap h h'" "cells h' = cells h"
    using rt_smem_alloc_refines [OF assms] by auto
  then show thesis by (rule that(2) [OF 2(1,2)])
qed

lemma extent_cut: "sz + 12 \<le> m \<Longrightarrow> extent (cut sz m) = m"
  by (simp add: cut_def)

lemma live_cut:
  assumes "sz + 12 \<le> m"
  obtains l where "sz + 12 \<le> l" "live 0 (us @ cut sz m @ vs) = insert (extent us, l) (live 0 (us @ (m, False) # vs))"
  using assms that [of "if sz + 36 \<le> m then sz + 12 else m"]
  by (cases "sz + 36 \<le> m") (simp_all add: live_append cut_def)

lemma other_block:
  assumes "us @ (m, False) # vs = xs @ (n, True) # ys" "12 \<le> m" "12 \<le> n" "extent c = m"
  obtains xs' ys' where "us @ c @ vs = xs' @ (n, True) # ys'" "extent xs' = extent xs" "extent us \<noteq> extent xs"
proof -
  from assms(1) consider ws where "xs = us @ (m, False) # ws" "vs = ws @ (n, True) # ys"
    | ws where "us = xs @ (n, True) # ws" "ys = ws @ (m, False) # vs"
    by (auto simp: append_eq_append_conv2 Cons_eq_append_conv append_eq_Cons_conv)
  then show thesis
  proof cases
    case 1
    then show thesis using assms(2,4) by (intro that [of "us @ c @ ws" ys]) simp_all
  next
    case 2
    then show thesis using assms(3) by (intro that [of xs "ws @ c @ vs"]) simp_all
  qed
qed

lemma smem_rep_cells [simp]: "smem_rep (h\<lparr>cells := c\<rparr>) bs = smem_rep h bs"
  by (simp add: smem_rep_def smem_chain_def smem_fixed_def)

lemma smem_shrink:
  assumes r: "smem_rep h (xs @ (n, True) # ys)" and k: "4 dvd k" "12 < k" "k + 12 \<le> n"
  defines "h1 \<equiv> smem_split (extent xs) (extent xs + k) (h\<lparr>mem_used := usub (mem_used h) (n - k)\<rparr>)"
  defines "h2 \<equiv> (if extent xs + k < lfree h1 then h1\<lparr>lfree := extent xs + k\<rparr> else h1)"
  obtains h' where "plug_holes (extent xs + k) h2 = Some h'"
    "smem_rep h' (join_free (xs @ (k, True) # (n - k, False) # ys))" "same_heap h h'" "cells h' = cells h"
proof -
  note R = smem_repD [OF r]
  let ?h0 = "h\<lparr>mem_used := usub (mem_used h) (n - k)\<rparr>"
  let ?xs = "xs @ [(k, True)]"
  have c0: "smem_chain ?h0 (xs @ (n, True) # ys)" using R(1) by (simp add: smem_chain_def)
  have f0: "smem_fixed ?h0" using R(2) by (simp add: smem_fixed_def)
  have k12: "12 \<le> k" using k by simp
  note S = smem_split_chain [OF c0 f0 k12 k(3,1)]
  have c2: "smem_chain h2 (?xs @ (n - k, False) # ys)"
    using S(1) by (simp add: h2_def h1_def smem_chain_def)
  have sh: "same_heap h h2"
    using S(2) by (auto simp: h2_def h1_def same_heap_def)
  have l1: "lfree h1 = lfree h" using S(3) unfolding h1_def by simp
  have l2: "lfree h2 = first_free 0 (?xs @ (n - k, False) # ys)"
  proof -
    have "lfree h2 = min (extent xs + k) (first_free 0 (xs @ (n, True) # ys))"
      unfolding h2_def l1 R(4) by (simp add: l1 R(4) min_def)
    moreover have "first_free 0 (?xs @ (n - k, False) # ys) = min (extent ?xs) (first_free 0 (?xs @ (n - k, True) # ys))"
      by (rule first_free_mark)
    moreover have "first_free 0 (?xs @ (n - k, True) # ys) = first_free 0 (xs @ (n, True) # ys)"
      using k(3) by (simp add: first_free_append add.assoc)
    ultimately show ?thesis by simp
  qed
  obtain h' where h': "plug_holes (extent ?xs) h2 = Some h'" "smem_chain h' (coalesce ?xs (n - k) ys)" "same_heap h2 h'"
    "lfree h' = lfree h2" "mem_used h' = mem_used h2" "mem_max h' = mem_max h2" "cells h' = cells h2"
    by (rule plug_holes_ok [OF c2 l2]) (rule that)
  have nf: "no_free_pair (?xs @ (n - k, True) # ys)"
    using R(3) by (auto simp: no_free_pair_def successively_append_iff successively_Cons)
  note J = coalesce_join [OF nf] and Q = coalesce_facts [OF nf]
  have "used_bytes (xs @ (n, True) # ys) \<le> extent (xs @ (n, True) # ys)" by (rule used_le_extent)
  also have "\<dots> < 2 ^ 32" using smem_chainD(3) [OF R(1)] R(2) by (simp add: smem_fixed_def)
  finally have "mem_used h < 2 ^ 32" "n \<le> mem_used h" using R(5) by simp_all
  then have "usub (mem_used h) (n - k) = mem_used h - (n - k)" by simp
  then have u: "mem_used h' = used_bytes (coalesce ?xs (n - k) ys)" "mem_max h' = mem_max h" "mem_used h' \<le> mem_used h"
    using h'(5,6) S(4,5) R(5) k(3) Q(2) by (auto simp: h2_def h1_def)
  have "smem_rep h' (coalesce ?xs (n - k) ys)"
    unfolding smem_rep_def
  proof (intro conjI ballI impI)
    show "smem_fixed h'" using same_heap_fixed [OF same_heap_trans [OF sh h'(3)]] R(2) by simp
    show "lfree h' = first_free 0 (coalesce ?xs (n - k) ys)" using h'(4) l2 Q(4) by simp
    show "mem_used h' \<le> mem_max h'" using u R(6) by simp
    fix b assume "b \<in> set (coalesce ?xs (n - k) ys)" "snd b"
    from Q(5) [OF this] show "12 < fst b" using R(7) [of b] k(2) \<open>snd b\<close> by auto
  qed (rule h'(2) Q(3) u(1))+
  then show thesis
    using h'(1,7) J S(6) same_heap_trans [OF sh h'(3)]
    by (intro that [of h']) (simp_all add: h2_def h1_def)
qed

text \<open>
  A resize keeps the content up to the smaller size and every other live block with its content; when
  it fails the old block stays as it was.
\<close>

definition realloc_result :: "smem \<Rightarrow> block list \<Rightarrow> nat \<Rightarrow> nat \<Rightarrow> nat \<Rightarrow> nat option \<times> smem \<Rightarrow> bool" where
  "realloc_result h bs p n k r \<longleftrightarrow>
     (case r of
        (None, h') \<Rightarrow> h' = h
      | (Some b, h') \<Rightarrow> \<exists>q l cs.
          b = heap_ptr h + q + 12 \<and> k + 12 \<le> l \<and> smem_rep h' cs \<and> same_heap h h' \<and>
          live 0 cs = insert (q, l) (live 0 bs - {(p, n)}) \<and>
          (\<forall>i < min (n - 12) k. cells h' (q + 12 + i) = cells h (p + 12 + i)) \<and>
          (\<forall>(a, m) \<in> live 0 bs - {(p, n)}. \<forall>i. a + 12 \<le> i \<and> i < a + m \<longrightarrow> cells h' i = cells h i))"

lemma realloc_copy:
  assumes c: "cells h1 = cells h" and h': "cells h' = cells (smem_copy (q + 12) (p + 12) (min (n - 12) k) h1)"
    and L: "(q, l) \<in> live 0 bs'" "live 0 bs \<subseteq> live 0 bs'" and l: "k + 12 \<le> l"
    and ne: "\<And>a m. (a, m) \<in> live 0 bs - {(p, n)} \<Longrightarrow> a \<noteq> q"
  shows "\<forall>i < min (n - 12) k. cells h' (q + 12 + i) = cells h (p + 12 + i)"
    "\<forall>(a, m) \<in> live 0 bs - {(p, n)}. \<forall>i. a + 12 \<le> i \<and> i < a + m \<longrightarrow> cells h' i = cells h i"
proof -
  show "\<forall>i < min (n - 12) k. cells h' (q + 12 + i) = cells h (p + 12 + i)"
    by (simp add: h' c smem_copy_def)
  show "\<forall>(a, m) \<in> live 0 bs - {(p, n)}. \<forall>i. a + 12 \<le> i \<and> i < a + m \<longrightarrow> cells h' i = cells h i"
  proof -
    have "cells h' i = cells h i" if am: "(a, m) \<in> live 0 bs - {(p, n)}" "a + 12 \<le> i" "i < a + m" for a m i
    proof -
      have "(a, m) \<in> live 0 bs'" "a \<noteq> q" using am L(2) ne by blast+
      then have "i < q + 12 \<or> q + 12 + k \<le> i"
        using live_apart [of a m 0 bs' q l] live_apart [of q l 0 bs' a m] L(1) l am by linarith
      then show ?thesis by (auto simp: h' c smem_copy_def)
    qed
    then show ?thesis by auto
  qed
qed

lemma realloc_move:
  assumes r: "smem_rep h (xs @ (n, True) # ys)" and k: "12 \<le> mem_size_aligned h" "0 < k" "k + 3 < 2 ^ 32" "4 dvd k"
  defines "a \<equiv> heap_ptr h + extent xs + 12"
  shows "\<exists>r. do {
            (nmem, h) \<leftarrow> rt_smem_alloc k h;
            case nmem of
              None \<Rightarrow> Some (None, h)
            | Some b \<Rightarrow> do {
                let h = smem_copy (b - heap_ptr h) (a - heap_ptr h) (min (n - 12) k) h;
                h \<leftarrow> rt_smem_free (Some a) h;
                Some (Some b, h) } } = Some r \<and> realloc_result h (xs @ (n, True) # ys) (extent xs) n k r"
proof (cases rule: rt_smem_alloc_cases [OF r k(1-3)])
  case 1
  then show ?thesis by (intro exI [of _ "(None, h)"]) (simp add: realloc_result_def)
next
  case (2 us m vs h1)
  let ?bs = "us @ cut (request k) m @ vs" and ?old = "xs @ (n, True) # ys"
  have "RT_ALIGN k 4 \<ge> k" by (rule RT_ALIGN_facts(1) [OF k(3)])
  then have kr: "k \<le> request k" by (simp add: request_def)
  have n: "12 \<le> n" by (rule chain_item(2) [OF smem_repD(1) [OF r]])
  have m: "12 \<le> m" using 2(2) by simp
  obtain l where l: "request k + 12 \<le> l" "live 0 ?bs = insert (extent us, l) (live 0 (us @ (m, False) # vs))"
    by (rule live_cut [OF 2(2)]) (rule that)
  have old: "live 0 ?bs = insert (extent us, l) (live 0 ?old)" using l(2) 2(1) by simp
  obtain xs' ys' where x: "?bs = xs' @ (n, True) # ys'" "extent xs' = extent xs" "extent us \<noteq> extent xs"
    by (rule other_block [OF 2(1) [symmetric] m n extent_cut [OF 2(2)]]) (rule that)
  let ?h2 = "smem_copy (extent us + 12) (extent xs + 12) (min (n - 12) k) h1"
  have hp: "heap_ptr h1 = heap_ptr h" "heap_ptr ?h2 = heap_ptr h"
    using 2(5) by (simp_all add: same_heap_def smem_copy_def)
  have r2: "smem_rep ?h2 (xs' @ (n, True) # ys')" using 2(4) unfolding x(1) by (simp add: smem_copy_def)
  obtain h' where h': "rt_smem_free (Some (heap_ptr ?h2 + extent xs' + 12)) ?h2 = Some h'"
    "smem_rep h' (join_free (xs' @ (n, False) # ys'))" "same_heap ?h2 h'" "cells h' = cells ?h2"
    by (rule rt_smem_free_refines [OF r2]) (rule that)
  have "live 0 (join_free (xs' @ (n, False) # ys')) = live 0 (xs' @ (n, True) # ys') - {(extent xs, n)}"
    using live_remove [of n xs' ys'] n by (simp add: live_join live_split x(2))
  also have "\<dots> = insert (extent us, l) (live 0 ?old - {(extent xs, n)})"
    using x(3) old unfolding x(1) [symmetric] by auto
  finally have L: "live 0 (join_free (xs' @ (n, False) # ys')) = insert (extent us, l) (live 0 ?old - {(extent xs, n)})" .
  have sh: "same_heap h h'"
    using same_heap_trans [OF 2(5), of h'] h'(3) by (simp add: same_heap_def smem_copy_def)
  have kl: "k + 12 \<le> l" using kr l(1) by simp
  have ne: "a \<noteq> extent us" if "(a, j) \<in> live 0 ?old - {(extent xs, n)}" for a j
  proof
    assume a: "a = extent us"
    have "(extent us, j) \<in> live 0 us \<union> live (extent us + m) vs" "0 < j"
    proof -
      show "(extent us, j) \<in> live 0 us \<union> live (extent us + m) vs"
        using that 2(1) a by (simp add: live_split)
      have aj: "(a, j) \<in> live 0 ?old" using that by blast
      obtain ws zs where "?old = ws @ (j, True) # zs" using live_block [OF aj] by metis
      then show "0 < j" using chain_item(2) [of h ws j True zs] smem_repD(1) [OF r] by simp
    qed
    then show False using live_bounds [of "extent us" j 0 us] live_bounds [of "extent us" j "extent us + m" vs] m by auto
  qed
  have "(extent us, l) \<in> live 0 ?bs" "live 0 ?old \<subseteq> live 0 ?bs" using old by auto
  note C = realloc_copy [OF 2(6) h'(4) this kl ne]
  show ?thesis
  proof (intro exI conjI)
    show "do {
            (nmem, h) \<leftarrow> rt_smem_alloc k h;
            case nmem of
              None \<Rightarrow> Some (None, h)
            | Some b \<Rightarrow> do {
                let h = smem_copy (b - heap_ptr h) (a - heap_ptr h) (min (n - 12) k) h;
                h \<leftarrow> rt_smem_free (Some a) h;
                Some (Some b, h) } } = Some (Some (heap_ptr h + extent us + 12), h')"
      using h'(1) hp x(2) by (simp add: 2(3) Let_def a_def)
    show "realloc_result h ?old (extent xs) n k (Some (heap_ptr h + extent us + 12), h')"
      unfolding realloc_result_def prod.case option.case
      by (rule exI [of _ "extent us"], rule exI [of _ l], rule exI [of _ "join_free (xs' @ (n, False) # ys')"])
        (intro conjI refl kl h'(2) sh L C)
  qed
qed

theorem rt_smem_realloc_ok:
  assumes r: "smem_rep h (xs @ (n, True) # ys)"
    and sz: "12 \<le> mem_size_aligned h" "0 < sz" "sz + 3 < 2 ^ 32"
  shows "\<exists>res. rt_smem_realloc (Some (heap_ptr h + extent xs + 12)) sz h = Some res \<and>
    realloc_result h (xs @ (n, True) # ys) (extent xs) n (RT_ALIGN sz 4) res"
proof -
  note R = smem_repD [OF r]
  note A = chain_item [OF R(1)]
  let ?p = "extent xs" and ?k = "RT_ALIGN sz 4" and ?bs = "xs @ (n, True) # ys"
  let ?a = "heap_ptr h + ?p + 12"
  have F: "heap_end h = mem_size_aligned h + 12" "4 dvd heap_ptr h" "heap_ptr h + heap_end h + 12 \<le> 2 ^ 32"
    using R(2) by (simp_all add: smem_fixed_def)
  have n: "12 < n" using R(7) [of "(n, True)"] by simp
  have "4 dvd ?p" by (rule chain_extent_dvd [OF R(1)])
  then have al: "?a mod 4 = 0" using F(2) by presburger
  have k: "0 < ?k" "4 dvd ?k" using RT_ALIGN_facts [OF sz(3)] sz(2) by simp_all
  have size: "usub (usub (mnext (items h ?p)) ?p) 12 = n - 12" using A(3) F(3) n by (simp add: A(6))
  have "?p + n \<le> heap_end h" by (rule A(3))
  then have bnd: "?a < heap_ptr h + heap_end h" using n by simp
  have same: "live 0 ?bs = insert (?p, n) (live 0 ?bs - {(?p, n)})" by (auto simp: live_split)
  consider "?k > mem_size_aligned h" | "?k \<le> mem_size_aligned h" "n - 12 = ?k"
    | "?k \<le> mem_size_aligned h" "?k + 12 + 12 < n - 12"
    | "?k \<le> mem_size_aligned h" "n - 12 \<noteq> ?k" "\<not> ?k + 12 + 12 < n - 12" by linarith
  then show ?thesis
  proof cases
    case 1
    then show ?thesis
      by (intro exI [of _ "(None, h)"]) (simp add: rt_smem_realloc_def Let_def realloc_result_def)
  next
    case 2
    have "rt_smem_realloc (Some ?a) sz h = Some (Some ?a, h)"
      using 2 k al bnd size by (simp add: rt_smem_realloc_def Let_def)
    moreover have "realloc_result h ?bs ?p n ?k (Some ?a, h)"
      unfolding realloc_result_def prod.case option.case
      by (rule exI [of _ ?p], rule exI [of _ n], rule exI [of _ ?bs]) (use 2 n r same in auto)
    ultimately show ?thesis by blast
  next
    case 3
    have k1: "4 dvd ?k + 12" "12 < ?k + 12" "?k + 12 + 12 \<le> n" using k 3(2) by simp_all
    let ?h1 = "smem_split ?p (?p + (?k + 12)) (h\<lparr>mem_used := usub (mem_used h) (n - (?k + 12))\<rparr>)"
    let ?h2 = "if ?p + (?k + 12) < lfree ?h1 then ?h1\<lparr>lfree := ?p + (?k + 12)\<rparr> else ?h1"
    obtain h' where h': "plug_holes (?p + (?k + 12)) ?h2 = Some h'"
      "smem_rep h' (join_free (xs @ (?k + 12, True) # (n - (?k + 12), False) # ys))" "same_heap h h'" "cells h' = cells h"
      by (rule smem_shrink [OF r k1]) (rule that)
    have ptr2: "?p + 12 + ?k = ?p + (?k + 12)" "n - 12 - ?k = n - (?k + 12)" by simp_all
    have ne: "n - 12 \<noteq> ?k" using 3(2) by linarith
    have "rt_smem_realloc (Some ?a) sz h = Some (Some ?a, h')"
      unfolding rt_smem_realloc_def Let_def
      using 3 ne k(1) al bnd h'(1)
      by (cases "?p + (?k + 12) < lfree ?h1") (simp_all add: size ptr2 del: diff_diff_left)
    moreover have L: "live 0 (join_free (xs @ (?k + 12, True) # (n - (?k + 12), False) # ys)) =
        insert (?p, ?k + 12) (live 0 ?bs - {(?p, n)})"
      using live_remove [of n xs ys] n k1(3) by (auto simp: live_join live_split add.assoc)
    have "realloc_result h ?bs ?p n ?k (Some ?a, h')"
      unfolding realloc_result_def prod.case option.case h'(4)
      by (rule exI [of _ ?p], rule exI [of _ "?k + 12"],
          rule exI [of _ "join_free (xs @ (?k + 12, True) # (n - (?k + 12), False) # ys)"])
        (intro conjI refl order_refl h'(2,3) L; blast)
    ultimately show ?thesis by blast
  next
    case 4
    have ms: "?k + 3 < 2 ^ 32" using 4(1) F by simp
    have mn: "(if n - 12 < ?k then n - 12 else ?k) = min (n - 12) ?k" by (simp add: min_def)
    have c: "(mem_size_aligned h < ?k) = False" "(?k = 0) = False" "(?a mod 4 = 0) = True"
      "(heap_ptr h + 12 \<le> ?a) = True" "(?a < heap_ptr h + heap_end h) = True" "?a - 12 - heap_ptr h = ?p"
      "(n - 12 = ?k) = False" "(?k + 12 + 12 < n - 12) = False"
      using 4 k(1) al bnd by simp_all
    have eq: "rt_smem_realloc (Some ?a) sz h = do {
            (nmem, h) \<leftarrow> rt_smem_alloc ?k h;
            case nmem of
              None \<Rightarrow> Some (None, h)
            | Some b \<Rightarrow> do {
                let h = smem_copy (b - heap_ptr h) (?a - heap_ptr h) (min (n - 12) ?k) h;
                h \<leftarrow> rt_smem_free (Some ?a) h;
                Some (Some b, h) } }"
      unfolding rt_smem_realloc_def Let_def option.case c size mn
      by (simp only: if_True if_False rt_assert_True [OF TrueI] Option.bind.bind_lunit)
    show ?thesis unfolding eq by (rule realloc_move [OF r sz(1) k(1) ms k(2)])
  qed
qed

subsection \<open>Where the code does not do what its caller expects\<close>

text \<open>
  The rounding of a size wraps: a request of nearly \<open>2 ^ 32\<close> bytes gets a block of 12, and a resize
  to such a size releases the block.
\<close>

lemma RT_ALIGN_wraps: "2 ^ 32 - 3 \<le> sz \<Longrightarrow> sz < 2 ^ 32 \<Longrightarrow> RT_ALIGN sz 4 = 0"
proof -
  assume a: "2 ^ 32 - 3 \<le> sz" "sz < (2 :: nat) ^ 32"
  obtain d where d: "sz = 2 ^ 32 - 3 + d" using a(1) le_Suc_ex by blast
  then have "d < 3" using a(2) by simp
  have "sz + 4 - 1 = d + 2 ^ 32" using d by simp
  then have "(sz + 4 - 1) mod 2 ^ 32 = d" using \<open>d < 3\<close> by simp
  then show ?thesis using \<open>d < 3\<close> by (simp add: RT_ALIGN_def RT_ALIGN_DOWN_def)
qed

theorem rt_smem_realloc_release:
  assumes r: "smem_rep h (xs @ (n, True) # ys)" and sz: "sz = 0 \<or> 2 ^ 32 - 3 \<le> sz" "sz < 2 ^ 32"
  shows "\<exists>h'. rt_smem_realloc (Some (heap_ptr h + extent xs + 12)) sz h = Some (None, h') \<and>
    smem_rep h' (join_free (xs @ (n, False) # ys)) \<and> same_heap h h' \<and> cells h' = cells h"
proof -
  have "RT_ALIGN sz 4 = 0"
    using sz RT_ALIGN_wraps by (cases "sz = 0") (simp_all add: RT_ALIGN_def RT_ALIGN_DOWN_def)
  then have "rt_smem_realloc (Some (heap_ptr h + extent xs + 12)) sz h =
      map_option (Pair None) (rt_smem_free (Some (heap_ptr h + extent xs + 12)) h)"
    by (simp add: rt_smem_realloc_def Let_def map_conv_bind_option comp_def)
  moreover obtain h' where "rt_smem_free (Some (heap_ptr h + extent xs + 12)) h = Some h'"
    "smem_rep h' (join_free (xs @ (n, False) # ys))" "same_heap h h'" "cells h' = cells h"
    by (rule rt_smem_free_refines [OF r]) (rule that)
  ultimately show ?thesis by simp
qed

theorem rt_smem_alloc_wraps:
  assumes "2 ^ 32 - 3 \<le> sz" "sz < 2 ^ 32" "12 \<le> mem_size_aligned h"
  shows "rt_smem_alloc sz h = rt_smem_alloc 12 h"
proof -
  have "RT_ALIGN 12 4 = 12" by (simp add: RT_ALIGN_def RT_ALIGN_DOWN_def)
  moreover have "\<not> sz = 0" using assms(1) by simp
  ultimately show ?thesis
    unfolding rt_smem_alloc_def Let_def using RT_ALIGN_wraps [OF assms(1,2)] assms(3) by simp
qed

text \<open>A heap that has no room for the smallest block: the search runs in circles at its end.\<close>

lemma smem_find_loops:
  assumes r: "smem_rep h bs" and m: "mem_size_aligned h < 12"
    and p: "ptr = 0 \<or> ptr = heap_end h" and f: "smem_find h 12 ptr = Some res"
  shows False
proof -
  note R = smem_repD [OF r]
  have F: "heap_end h = mem_size_aligned h + 12" "heap_ptr h + heap_end h + 12 \<le> 2 ^ 32"
    using R(2) by (simp_all add: smem_fixed_def)
  obtain n u bs' where bs: "bs = (n, u) # bs'" using smem_chainD(2) [OF R(1)] by (cases bs) auto
  have i0: "mnext (items h 0) = n" "12 \<le> n"
    using smem_chainD(1) [OF R(1)] by (simp_all add: bs)
  have "bs' = []" using smem_chainD(1,3) [OF R(1)] m F(1) by (cases bs') (auto simp: bs)
  then have n: "n = heap_end h" using smem_chainD(3) [OF R(1)] by (simp add: bs)
  have e: "MEM_ISUSED (items h (heap_end h))" "mnext (items h (heap_end h)) = heap_end h"
    using end_used [OF R(1)] smem_chainD(5) [OF R(1)] by simp_all
  have lim: "ptr \<le> usub (mem_size_aligned h) 12" if "ptr = 0 \<or> ptr = heap_end h" for ptr
  proof -
    let ?m = "mem_size_aligned h"
    have "(int ?m - 12) mod 2 ^ 32 = (int ?m - 12 + 2 ^ 32) mod 2 ^ 32" by (rule mod_add_self2 [symmetric])
    also have "\<dots> = int ?m - 12 + 2 ^ 32" by (rule mod_pos_pos_trivial) (use m in simp_all)
    finally have "usub ?m 12 = 2 ^ 32 + ?m - 12" using m by (simp add: usub_def)
    then show ?thesis using that F m by auto
  qed
  have small: "\<not> usub n 12 \<ge> 12" using n F m i0 by simp
  have "(h' = h \<longrightarrow> sz = 12 \<longrightarrow> ptr = 0 \<or> ptr = heap_end h \<longrightarrow> False)"
    if "smem_find h' sz ptr = Some res" for h' sz ptr
    using that
  proof (rule smem_find.raw_induct [rotated])
    fix fd h' sz ptr res
    assume IH: "\<And>h' sz ptr res. fd h' sz ptr = Some res \<Longrightarrow> h' = h \<longrightarrow> sz = 12 \<longrightarrow> ptr = 0 \<or> ptr = heap_end h \<longrightarrow> False"
      and eq: "(if ptr \<le> usub (mem_size_aligned h') sz then
        if \<not> MEM_ISUSED (items h' ptr) \<and> usub (mnext (items h' ptr)) (ptr + 12) \<ge> sz
        then Some (Some ptr)
        else fd h' sz (mnext (items h' ptr))
      else Some None) = Some res"
    show "h' = h \<longrightarrow> sz = 12 \<longrightarrow> ptr = 0 \<or> ptr = heap_end h \<longrightarrow> False"
    proof (intro impI)
      assume h: "h' = h" "sz = 12" "ptr = 0 \<or> ptr = heap_end h"
      have "\<not> (\<not> MEM_ISUSED (items h ptr) \<and> usub (mnext (items h ptr)) (ptr + 12) \<ge> 12)"
        using h(3) small i0 e by auto
      then have "fd h 12 (mnext (items h ptr)) = Some res"
        using eq lim [OF h(3)] unfolding h(1,2) by (simp only: if_True if_False)
      moreover have "mnext (items h ptr) = heap_end h" using h(3) i0 e n by auto
      ultimately show False using IH by metis
    qed
  qed
  then show False using p f by blast
qed

theorem rt_smem_alloc_loops:
  assumes r: "smem_rep h bs" and m: "0 < sz" "RT_ALIGN sz 4 \<le> mem_size_aligned h" "mem_size_aligned h < 12"
  shows "smem_find h 12 (lfree h) = None" "rt_smem_alloc sz h = None"
proof -
  note R = smem_repD [OF r]
  obtain us vs where uv: "bs = us @ vs" "\<forall>b \<in> set us. snd b" "first_free 0 bs = 0 + extent us"
    by (rule first_free_split)
  have F: "heap_end h = mem_size_aligned h + 12" using R(2) by (simp add: smem_fixed_def)
  have "lfree h = 0 \<or> lfree h = heap_end h"
  proof (cases us)
    case (Cons b us')
    then have "12 \<le> fst b" "extent bs = heap_end h"
      using smem_chainD(1,3) [OF R(1)] uv(1) by (cases b; simp add: run_append)+
    moreover have "vs = []"
      using smem_chainD(1,3) [OF R(1)] uv(1) Cons F m(3) by (cases vs; cases b) (auto simp: run_append)
    ultimately show ?thesis using uv(1,3) R(4) by simp
  qed (use uv R(4) in simp)
  then show f: "smem_find h 12 (lfree h) = None"
    using smem_find_loops [OF r m(3)] by (cases "smem_find h 12 (lfree h)") auto
  have "\<not> sz = 0" "RT_ALIGN sz 4 < 12" using m by auto
  then show "rt_smem_alloc sz h = None"
    unfolding rt_smem_alloc_def Let_def using m(2) f by simp
qed

end
