(* ===== verification/Kmem.thy ===== *)
theory Kmem
  imports Prelude
begin

unbundle bit_operations_syntax

text \<open>
  The memory services of kservice.c, over a byte-addressed memory: \<open>None\<close> at an address
  outside every object, so that an access there has no result. The word-wise loops of \<open>rt_memset\<close>
  and \<open>rt_memcpy\<close> are shown to be the byte-wise ones, in every case, faults included;
  these are characterised by the bytes they write. \<open>long\<close> has four bytes in little-endian order. The configuration of the project has neither
  \<open>RT_KSERVICE_USING_STDLIB\<close> nor \<open>RT_KSERVICE_USING_TINY_SIZE\<close>.
\<close>

type_synonym mem = "nat \<rightharpoonup> byte"

definition store :: "nat \<Rightarrow> byte \<Rightarrow> mem \<Rightarrow> mem option" where
  "store a b m = (if m a = None then None else Some (m(a \<mapsto> b)))"

text \<open>A word in memory, lowest byte first.\<close>

definition word_byte :: "u32 \<Rightarrow> nat \<Rightarrow> byte" where
  "word_byte w i = ucast (drop_bit (8 * i) w)"

definition load_word :: "nat \<Rightarrow> mem \<Rightarrow> u32 option" where
  "load_word a m = do {
     b0 \<leftarrow> m a; b1 \<leftarrow> m (a + 1); b2 \<leftarrow> m (a + 2); b3 \<leftarrow> m (a + 3);
     Some (ucast b0 OR push_bit 8 (ucast b1) OR push_bit 16 (ucast b2) OR push_bit 24 (ucast b3)) }"

definition store_word :: "nat \<Rightarrow> u32 \<Rightarrow> mem \<Rightarrow> mem option" where
  "store_word a w m = do {
     m \<leftarrow> store a (word_byte w 0) m;
     m \<leftarrow> store (a + 1) (word_byte w 1) m;
     m \<leftarrow> store (a + 2) (word_byte w 2) m;
     store (a + 3) (word_byte w 3) m }"

subsection \<open>Filling and copying\<close>

text \<open>The byte-wise loops.\<close>

fun fill_up :: "nat \<Rightarrow> byte \<Rightarrow> nat \<Rightarrow> mem \<Rightarrow> mem option" where
  "fill_up a b 0 m = Some m"
| "fill_up a b (Suc n) m = do { m \<leftarrow> store a b m; fill_up (a + 1) b n m }"

fun copy_up :: "nat \<Rightarrow> nat \<Rightarrow> nat \<Rightarrow> mem \<Rightarrow> mem option" where
  "copy_up dst src 0 m = Some m"
| "copy_up dst src (Suc n) m = do {
     b \<leftarrow> m src; m \<leftarrow> store dst b m; copy_up (dst + 1) (src + 1) n m }"

text \<open>The loop of \<open>rt_memmove\<close> that starts behind the last byte.\<close>

fun copy_down :: "nat \<Rightarrow> nat \<Rightarrow> nat \<Rightarrow> mem \<Rightarrow> mem option" where
  "copy_down dst src 0 m = Some m"
| "copy_down dst src (Suc n) m = do {
     b \<leftarrow> m (src - 1); m \<leftarrow> store (dst - 1) b m; copy_down (dst - 1) (src - 1) n m }"

text \<open>The loops by four words and by one word return the address reached and the count left.\<close>

fun memset_quads :: "nat \<Rightarrow> u32 \<Rightarrow> nat \<Rightarrow> mem \<Rightarrow> (nat \<times> nat \<times> mem) option" where
  "memset_quads p buffer count m =
     (if count \<ge> 16 then do {
        m \<leftarrow> store_word p buffer m;
        m \<leftarrow> store_word (p + 4) buffer m;
        m \<leftarrow> store_word (p + 8) buffer m;
        m \<leftarrow> store_word (p + 12) buffer m;
        memset_quads (p + 16) buffer (count - 16) m }
      else Some (p, count, m))"

fun memset_words :: "nat \<Rightarrow> u32 \<Rightarrow> nat \<Rightarrow> mem \<Rightarrow> (nat \<times> nat \<times> mem) option" where
  "memset_words p buffer count m =
     (if count \<ge> 4 then do {
        m \<leftarrow> store_word p buffer m;
        memset_words (p + 4) buffer (count - 4) m }
      else Some (p, count, m))"

definition rt_memset :: "nat \<Rightarrow> u32 \<Rightarrow> nat \<Rightarrow> mem \<Rightarrow> mem option" where
  "rt_memset s c count m =
     (let d = c AND 0xff in
      if \<not> count < 4 \<and> s mod 4 = 0 then do {
        let buffer = push_bit 8 d OR d;
        let buffer = buffer OR push_bit 16 buffer;
        (p, count, m) \<leftarrow> memset_quads s buffer count m;
        (p, count, m) \<leftarrow> memset_words p buffer count m;
        fill_up p (ucast d) count m }
      else fill_up s (ucast d) count m)"

fun memcpy_quads :: "nat \<Rightarrow> nat \<Rightarrow> nat \<Rightarrow> mem \<Rightarrow> (nat \<times> nat \<times> nat \<times> mem) option" where
  "memcpy_quads dst src len m =
     (if len \<ge> 16 then do {
        w \<leftarrow> load_word src m; m \<leftarrow> store_word dst w m;
        w \<leftarrow> load_word (src + 4) m; m \<leftarrow> store_word (dst + 4) w m;
        w \<leftarrow> load_word (src + 8) m; m \<leftarrow> store_word (dst + 8) w m;
        w \<leftarrow> load_word (src + 12) m; m \<leftarrow> store_word (dst + 12) w m;
        memcpy_quads (dst + 16) (src + 16) (len - 16) m }
      else Some (dst, src, len, m))"

fun memcpy_words :: "nat \<Rightarrow> nat \<Rightarrow> nat \<Rightarrow> mem \<Rightarrow> (nat \<times> nat \<times> nat \<times> mem) option" where
  "memcpy_words dst src len m =
     (if len \<ge> 4 then do {
        w \<leftarrow> load_word src m; m \<leftarrow> store_word dst w m;
        memcpy_words (dst + 4) (src + 4) (len - 4) m }
      else Some (dst, src, len, m))"

definition rt_memcpy :: "nat \<Rightarrow> nat \<Rightarrow> nat \<Rightarrow> mem \<Rightarrow> mem option" where
  "rt_memcpy dst src count m =
     (if \<not> count < 16 \<and> src mod 4 = 0 \<and> dst mod 4 = 0 then do {
        (dst, src, len, m) \<leftarrow> memcpy_quads dst src count m;
        (dst, src, len, m) \<leftarrow> memcpy_words dst src len m;
        copy_up dst src len m }
      else copy_up dst src count m)"

definition rt_memmove :: "nat \<Rightarrow> nat \<Rightarrow> nat \<Rightarrow> mem \<Rightarrow> mem option" where
  "rt_memmove dest src n m =
     (if src < dest \<and> dest < src + n then copy_down (dest + n) (src + n) n m
      else copy_up dest src n m)"

declare memset_quads.simps [simp del] memset_words.simps [simp del]
  memcpy_quads.simps [simp del] memcpy_words.simps [simp del]

text \<open>A word written byte by byte.\<close>

lemma fill_up_add: "fill_up a b (i + n) m = do { m \<leftarrow> fill_up a b i m; fill_up (a + i) b n m }"
proof (induction i arbitrary: a m)
  case (Suc i)
  then show ?case by (cases "store a b m") simp_all
qed simp

lemma copy_up_add:
  "copy_up dst src (i + n) m = do { m \<leftarrow> copy_up dst src i m; copy_up (dst + i) (src + i) n m }"
proof (induction i arbitrary: dst src m)
  case (Suc i)
  show ?case
  proof (cases "m src")
    case (Some b)
    then show ?thesis using Suc by (cases "store dst b m") simp_all
  qed simp
qed simp

lemma fill_up_4: "fill_up a b 4 m = do {
    m \<leftarrow> store a b m; m \<leftarrow> store (a + 1) b m; m \<leftarrow> store (a + 2) b m; store (a + 3) b m }"
  by (auto simp: numeral_eq_Suc split: Option.bind_split)

lemma store_word_repeated:
  assumes "\<And>i. i < 4 \<Longrightarrow> word_byte w i = b"
  shows "store_word a w = fill_up a b 4"
  using assms by (simp add: store_word_def fill_up_4 fun_eq_iff)

lemma bit_word_byte: "bit (word_byte w i) n \<longleftrightarrow> n < 8 \<and> bit w (8 * i + n)"
  by (auto simp: word_byte_def bit_simps)

lemma memset_buffer:
  fixes c :: u32
  defines "d \<equiv> c AND 0xff"
  assumes "i < 4"
  shows "word_byte ((push_bit 8 d OR d) OR push_bit 16 (push_bit 8 d OR d)) i = ucast d"
proof (rule bit_word_eqI)
  have m: "bit d n \<longleftrightarrow> n < 8 \<and> bit c n" for n
  proof -
    have "(0xff :: u32) = mask 8" by (simp add: mask_eq_exp_minus_1)
    then show ?thesis unfolding d_def by (simp only: bit_and_iff bit_mask_iff) (auto dest: bit_imp_le_length)
  qed
  have i: "i = 0 \<or> i = 1 \<or> i = 2 \<or> i = 3" using assms(2) by auto
  fix n assume "n < LENGTH(8)"
  then show "bit (word_byte ((push_bit 8 d OR d) OR push_bit 16 (push_bit 8 d OR d)) i) n \<longleftrightarrow> bit (ucast d :: byte) n"
    using i by (auto simp: bit_word_byte bit_simps m)
qed

lemma memset_quads_bytes:
  assumes "\<And>i. i < 4 \<Longrightarrow> word_byte w i = b"
  shows "do { (p, n, m) \<leftarrow> memset_quads p w n m; fill_up p b n m } = fill_up p b n m"
  using assms
proof (induction p w n m rule: memset_quads.induct)
  case (1 p w n m)
  show ?case
  proof (cases "16 \<le> n")
    case False
    then show ?thesis by (simp add: memset_quads.simps)
  next
    case True
    have n: "n = 4 + (4 + (4 + (4 + (n - 16))))" using True by simp
    have W: "store_word a w = fill_up a b 4" for a by (rule store_word_repeated) (rule 1(2))
    have "fill_up p b n m = do {
        m \<leftarrow> store_word p w m; m \<leftarrow> store_word (p + 4) w m; m \<leftarrow> store_word (p + 8) w m;
        m \<leftarrow> store_word (p + 12) w m; fill_up (p + 16) b (n - 16) m }"
      by (subst n) (simp only: fill_up_add, simp add: W add.assoc)
    also have "\<dots> = do {
        m \<leftarrow> store_word p w m; m \<leftarrow> store_word (p + 4) w m; m \<leftarrow> store_word (p + 8) w m;
        m \<leftarrow> store_word (p + 12) w m;
        (p, n, m) \<leftarrow> memset_quads (p + 16) w (n - 16) m; fill_up p b n m }"
      using 1(1) [OF True _ _ _ _ 1(2)] by (intro Option.bind_cong) auto
    finally show ?thesis using True by (subst memset_quads.simps) (simp add: Option.bind_assoc)
  qed
qed

lemma memset_words_bytes:
  assumes "\<And>i. i < 4 \<Longrightarrow> word_byte w i = b"
  shows "do { (p, n, m) \<leftarrow> memset_words p w n m; fill_up p b n m } = fill_up p b n m"
  using assms
proof (induction p w n m rule: memset_words.induct)
  case (1 p w n m)
  show ?case
  proof (cases "4 \<le> n")
    case False
    then show ?thesis by (simp add: memset_words.simps)
  next
    case True
    have n: "n = 4 + (n - 4)" using True by simp
    have W: "store_word a w = fill_up a b 4" for a by (rule store_word_repeated) (rule 1(2))
    have "fill_up p b n m = do { m \<leftarrow> store_word p w m; fill_up (p + 4) b (n - 4) m }"
      by (subst n) (simp only: fill_up_add W)
    also have "\<dots> = do { m \<leftarrow> store_word p w m;
        (p, n, m) \<leftarrow> memset_words (p + 4) w (n - 4) m; fill_up p b n m }"
      using 1(1) [OF True _ 1(2)] by (intro Option.bind_cong) auto
    finally show ?thesis using True by (subst memset_words.simps) (simp add: Option.bind_assoc)
  qed
qed

theorem rt_memset_bytes: "rt_memset s c n m = fill_up s (ucast c) n m"
proof -
  let ?d = "c AND 0xff"
  let ?w = "(push_bit 8 ?d OR ?d) OR push_bit 16 (push_bit 8 ?d OR ?d)"
  have b: "i < 4 \<Longrightarrow> word_byte ?w i = ucast ?d" for i by (rule memset_buffer)
  have "(0xff :: u32) = mask 8" by (simp add: mask_eq_exp_minus_1)
  then have d: "(ucast ?d :: byte) = ucast c"
    by (intro bit_word_eqI) (simp only: bit_ucast_iff bit_and_iff bit_mask_iff, auto dest: bit_imp_le_length)
  have q: "do { (p, n, m) \<leftarrow> memset_quads p ?w n m; fill_up p (ucast c) n m } = fill_up p (ucast c) n m" for p n m
    by (rule memset_quads_bytes) (use b d in simp)
  have w: "do { (p, n, m) \<leftarrow> memset_words p ?w n m; fill_up p (ucast c) n m } = fill_up p (ucast c) n m" for p n m
    by (rule memset_words_bytes) (use b d in simp)
  have "do { (p, n, m) \<leftarrow> memset_quads s ?w n m; (p, n, m) \<leftarrow> memset_words p ?w n m; fill_up p (ucast c) n m } =
      do { (p, n, m) \<leftarrow> memset_quads s ?w n m; fill_up p (ucast c) n m }"
    by (intro Option.bind_cong) (auto simp only: w prod.case split: prod.split)
  then show ?thesis unfolding rt_memset_def Let_def d by (simp only: q if_cancel)
qed

text \<open>A word copied is its four bytes copied, for two aligned addresses.\<close>

lemma word_byte_load:
  "i < 4 \<Longrightarrow> word_byte (ucast b0 OR push_bit 8 (ucast b1) OR push_bit 16 (ucast b2) OR push_bit 24 (ucast b3)) i =
     [b0, b1, b2, b3] ! i" for b0 b1 b2 b3 :: byte
proof (rule bit_word_eqI)
  fix n assume i: "i < 4" and n: "n < LENGTH(8)"
  have "i = 0 \<or> i = 1 \<or> i = 2 \<or> i = 3" using i by auto
  then show "bit (word_byte (ucast b0 OR push_bit 8 (ucast b1) OR push_bit 16 (ucast b2) OR push_bit 24 (ucast b3)) i) n \<longleftrightarrow>
      bit ([b0, b1, b2, b3] ! i) n"
    using n by (elim disjE) (auto simp: bit_word_byte bit_simps dest: bit_imp_le_length)
qed

lemma store_same: "store a b m = Some m' \<Longrightarrow> a' \<noteq> a \<Longrightarrow> m' a' = m a'"
  by (auto simp: store_def split: if_splits)

lemma copy_word:
  assumes "src mod 4 = 0" "dst mod 4 = 0"
  shows "do { w \<leftarrow> load_word src m; store_word dst w m } = copy_up dst src 4 m"
proof -
  have d: "src + 1 \<noteq> dst" "src + 2 \<noteq> dst" "src + 3 \<noteq> dst" "src + 2 \<noteq> dst + 1" "src + 3 \<noteq> dst + 1" "src + 3 \<noteq> dst + 2"
    using assms by presburger+
  show ?thesis
  proof (cases "load_word src m")
    case (Some w)
    then obtain b0 b1 b2 b3 where b: "m src = Some b0" "m (src + 1) = Some b1" "m (src + 2) = Some b2" "m (src + 3) = Some b3"
      and w: "w = ucast b0 OR push_bit 8 (ucast b1) OR push_bit 16 (ucast b2) OR push_bit 24 (ucast b3)"
      by (auto simp: load_word_def option_simps)
    have wb: "word_byte w 0 = b0" "word_byte w 1 = b1" "word_byte w 2 = b2" "word_byte w 3 = b3"
      unfolding w using word_byte_load [of 0 b0 b1 b2 b3] word_byte_load [of 1 b0 b1 b2 b3]
        word_byte_load [of 2 b0 b1 b2 b3] word_byte_load [of 3 b0 b1 b2 b3] by simp_all
    have sw: "store_word dst w m = do {
        m \<leftarrow> store dst b0 m; m \<leftarrow> store (dst + 1) b1 m; m \<leftarrow> store (dst + 2) b2 m; store (dst + 3) b3 m }"
      unfolding store_word_def wb ..
    show ?thesis
      unfolding Some using b d
      by (auto simp: sw numeral_eq_Suc store_same split: Option.bind_split)
  next
    case None
    then show ?thesis using d
      by (auto simp: load_word_def numeral_eq_Suc store_same split: Option.bind_splits)
  qed
qed

lemma memcpy_quads_bytes:
  assumes "src mod 4 = 0" "dst mod 4 = 0"
  shows "do { (dst, src, n, m) \<leftarrow> memcpy_quads dst src n m; copy_up dst src n m } = copy_up dst src n m"
  using assms
proof (induction dst src n m rule: memcpy_quads.induct)
  case (1 dst src n m)
  show ?case
  proof (cases "16 \<le> n")
    case False
    then show ?thesis by (simp add: memcpy_quads.simps)
  next
    case True
    have n: "n = 4 + (4 + (4 + (4 + (n - 16))))" using True by simp
    have W: "do { w \<leftarrow> load_word (src + i) m; m \<leftarrow> store_word (dst + i) w m; f m } =
        do { m \<leftarrow> copy_up (dst + i) (src + i) 4 m; f m }" if "i mod 4 = 0" for i m f
      using copy_word [of "src + i" "dst + i" m] 1(2,3) that by (simp add: mod_add_eq [symmetric] flip: Option.bind_assoc)
    have a: "(src + 16) mod 4 = 0" "(dst + 16) mod 4 = 0" using 1(2,3) by presburger+
    have "do { (dst, src, n, m) \<leftarrow> memcpy_quads dst src n m; copy_up dst src n m } =
      do { w \<leftarrow> load_word (src + 0) m; m \<leftarrow> store_word (dst + 0) w m;
        w \<leftarrow> load_word (src + 4) m; m \<leftarrow> store_word (dst + 4) w m;
        w \<leftarrow> load_word (src + 8) m; m \<leftarrow> store_word (dst + 8) w m;
        w \<leftarrow> load_word (src + 12) m; m \<leftarrow> store_word (dst + 12) w m;
        (dst, src, n, m) \<leftarrow> memcpy_quads (dst + 16) (src + 16) (n - 16) m; copy_up dst src n m }"
      using True by (subst memcpy_quads.simps) (simp add: Option.bind_assoc)
    also have "\<dots> = do { w \<leftarrow> load_word (src + 0) m; m \<leftarrow> store_word (dst + 0) w m;
        w \<leftarrow> load_word (src + 4) m; m \<leftarrow> store_word (dst + 4) w m;
        w \<leftarrow> load_word (src + 8) m; m \<leftarrow> store_word (dst + 8) w m;
        w \<leftarrow> load_word (src + 12) m; m \<leftarrow> store_word (dst + 12) w m;
        copy_up (dst + 16) (src + 16) (n - 16) m }"
      using 1(1) [OF True _ _ _ _ _ _ _ _ a] by (intro Option.bind_cong refl) auto
    also have "\<dots> = copy_up dst src n m"
      by (subst (2) n) (simp only: W copy_up_add, simp add: add.assoc W [of 4] W [of 8] W [of 12] W [of 0, simplified])
    finally show ?thesis .
  qed
qed

lemma memcpy_words_bytes:
  assumes "src mod 4 = 0" "dst mod 4 = 0"
  shows "do { (dst, src, n, m) \<leftarrow> memcpy_words dst src n m; copy_up dst src n m } = copy_up dst src n m"
  using assms
proof (induction dst src n m rule: memcpy_words.induct)
  case (1 dst src n m)
  show ?case
  proof (cases "4 \<le> n")
    case False
    then show ?thesis by (simp add: memcpy_words.simps)
  next
    case True
    have n: "n = 4 + (n - 4)" using True by simp
    have a: "(src + 4) mod 4 = 0" "(dst + 4) mod 4 = 0" using 1(2,3) by presburger+
    have "do { (dst, src, n, m) \<leftarrow> memcpy_words dst src n m; copy_up dst src n m } =
      do { w \<leftarrow> load_word src m; m \<leftarrow> store_word dst w m;
        (dst, src, n, m) \<leftarrow> memcpy_words (dst + 4) (src + 4) (n - 4) m; copy_up dst src n m }"
      using True by (subst memcpy_words.simps) (simp add: Option.bind_assoc)
    also have "\<dots> = do { w \<leftarrow> load_word src m; m \<leftarrow> store_word dst w m; copy_up (dst + 4) (src + 4) (n - 4) m }"
      using 1(1) [OF True _ _ a] by (intro Option.bind_cong refl) auto
    also have "\<dots> = do { m \<leftarrow> copy_up dst src 4 m; copy_up (dst + 4) (src + 4) (n - 4) m }"
      using copy_word [OF 1(2,3), of m] by (simp flip: Option.bind_assoc)
    also have "\<dots> = copy_up dst src n m" by (subst (2) n) (simp only: copy_up_add)
    finally show ?thesis .
  qed
qed

lemma memcpy_quads_aligned:
  "memcpy_quads dst src n m = Some (d, s, k, m') \<Longrightarrow> d mod 4 = dst mod 4 \<and> s mod 4 = src mod 4"
proof (induction dst src n m rule: memcpy_quads.induct)
  case (1 dst src n m)
  show ?case
  proof (cases "16 \<le> n")
    case False
    then show ?thesis using 1(2) by (simp add: memcpy_quads.simps)
  next
    case True
    have "(dst + 16) mod 4 = dst mod 4" "(src + 16) mod 4 = src mod 4" by presburger+
    then show ?thesis
      using 1(1) [OF True] 1(2) True by (subst (asm) memcpy_quads.simps) (auto simp: option_simps)
  qed
qed

theorem rt_memcpy_bytes: "rt_memcpy dst src n m = copy_up dst src n m"
proof (cases "\<not> n < 16 \<and> src mod 4 = 0 \<and> dst mod 4 = 0")
  case False
  then show ?thesis unfolding rt_memcpy_def by (simp only: if_False)
next
  case True
  have "do { (dst, src, n, m) \<leftarrow> memcpy_quads dst src n m; (dst, src, n, m) \<leftarrow> memcpy_words dst src n m;
        copy_up dst src n m } = do { (dst, src, n, m) \<leftarrow> memcpy_quads dst src n m; copy_up dst src n m }"
  proof (intro Option.bind_cong refl)
    fix r assume "memcpy_quads dst src n m = Some r"
    then show "(case r of (dst, src, n, m) \<Rightarrow> do { (dst, src, n, m) \<leftarrow> memcpy_words dst src n m; copy_up dst src n m }) =
        (case r of (dst, src, n, m) \<Rightarrow> copy_up dst src n m)"
      using memcpy_quads_aligned memcpy_words_bytes True by (cases r) fastforce
  qed
  also have "\<dots> = copy_up dst src n m" by (rule memcpy_quads_bytes) (use True in simp_all)
  finally show ?thesis using True by (simp add: rt_memcpy_def)
qed

subsection \<open>What the byte loops do\<close>

definition mapped :: "mem \<Rightarrow> nat \<Rightarrow> nat \<Rightarrow> bool" where
  "mapped m a n \<longleftrightarrow> {a..<a + n} \<subseteq> dom m"

definition filled :: "nat \<Rightarrow> byte \<Rightarrow> nat \<Rightarrow> mem \<Rightarrow> mem" where
  "filled a b n m = (\<lambda>x. if a \<le> x \<and> x < a + n then Some b else m x)"

definition moved :: "nat \<Rightarrow> nat \<Rightarrow> nat \<Rightarrow> mem \<Rightarrow> mem" where
  "moved dst src n m = (\<lambda>x. if dst \<le> x \<and> x < dst + n then m (src + (x - dst)) else m x)"

lemma moved_0 [simp]: "moved dst src 0 m = m" "filled a b 0 m = m"
  by (auto simp: moved_def filled_def fun_eq_iff)

lemma mapped_Suc: "mapped m a (Suc n) \<longleftrightarrow> a \<in> dom m \<and> mapped m (Suc a) n"
proof -
  have "{a..<a + Suc n} = insert a {Suc a..<Suc a + n}" by auto
  then show ?thesis by (simp only: mapped_def insert_subset)
qed

lemma mapped_0 [simp]: "mapped m a 0"
  by (simp add: mapped_def)

lemma mappedD: "mapped m a n \<Longrightarrow> i < n \<Longrightarrow> \<exists>b. m (a + i) = Some b"
  unfolding mapped_def by (meson atLeastLessThan_iff domD le_add1 nat_add_left_cancel_less subsetD)

lemma store_dom: "a \<in> dom m \<Longrightarrow> store a b m = Some (m(a \<mapsto> b))" "store a b m = Some m' \<Longrightarrow> dom m' = dom m"
  by (auto simp: store_def split: if_splits)

lemma mapped_upd [simp]: "a \<in> dom m \<Longrightarrow> mapped (m(a \<mapsto> b)) x n = mapped m x n"
  by (simp add: mapped_def insert_absorb)

lemma fill_up_ok: "mapped m a n \<Longrightarrow> fill_up a b n m = Some (filled a b n m)"
proof (induction n arbitrary: a m)
  case (Suc n)
  have d: "a \<in> dom m" "mapped m (Suc a) n" using Suc.prems by (simp_all add: mapped_Suc)
  have "fill_up a b (Suc n) m = Some (filled (Suc a) b n (m(a \<mapsto> b)))"
    unfolding fill_up.simps store_dom(1) [OF d(1)] Option.bind.bind_lunit Suc_eq_plus1 [symmetric]
    by (rule Suc.IH) (simp only: mapped_upd [OF d(1)] d(2))
  also have "filled (Suc a) b n (m(a \<mapsto> b)) = filled a b (Suc n) m" by (auto simp: filled_def)
  finally show ?case .
qed simp

lemma copy_up_ok:
  assumes "mapped m src n" "mapped m dst n" "dst \<le> src \<or> src + n \<le> dst"
  shows "copy_up dst src n m = Some (moved dst src n m)"
  using assms
proof (induction n arbitrary: dst src m)
  case (Suc n)
  obtain b where b: "m src = Some b" using mappedD [OF Suc.prems(1), of 0] by auto
  have d: "dst \<in> dom m" using Suc.prems(2) by (simp add: mapped_Suc)
  have "copy_up dst src (Suc n) m = copy_up (Suc dst) (Suc src) n (m(dst \<mapsto> b))" using b d by (simp add: store_dom)
  also have "\<dots> = Some (moved (Suc dst) (Suc src) n (m(dst \<mapsto> b)))"
    by (rule Suc.IH) (use Suc.prems in \<open>simp_all only: mapped_upd [OF d] mapped_Suc, auto\<close>)
  also have "moved (Suc dst) (Suc src) n (m(dst \<mapsto> b)) = moved dst src (Suc n) m"
  proof (rule ext)
    fix x
    show "moved (Suc dst) (Suc src) n (m(dst \<mapsto> b)) x = moved dst src (Suc n) m x"
      using Suc.prems(3) b by (cases "x = dst") (auto simp: moved_def Suc_diff_Suc)
  qed
  finally show ?case .
qed simp

lemma mapped_snoc: "mapped m a (Suc n) \<longleftrightarrow> mapped m a n \<and> a + n \<in> dom m"
proof -
  have "{a..<a + Suc n} = insert (a + n) {a..<a + n}" by auto
  then show ?thesis unfolding mapped_def by auto
qed

lemma copy_down_ok:
  assumes "mapped m src n" "mapped m dst n" "src < dst"
  shows "copy_down (dst + n) (src + n) n m = Some (moved dst src n m)"
  using assms
proof (induction n arbitrary: m)
  case (Suc n)
  obtain b where b: "m (src + n) = Some b" using mappedD [OF Suc.prems(1), of n] by auto
  have d: "dst + n \<in> dom m" using Suc.prems(2) by (simp add: mapped_snoc)
  have "copy_down (dst + Suc n) (src + Suc n) (Suc n) m = copy_down (dst + n) (src + n) n (m(dst + n \<mapsto> b))"
    using b d by (simp add: store_dom)
  also have "\<dots> = Some (moved dst src n (m(dst + n \<mapsto> b)))"
    by (rule Suc.IH) (use Suc.prems in \<open>simp_all only: mapped_upd [OF d] mapped_snoc\<close>)
  also have "moved dst src n (m(dst + n \<mapsto> b)) = moved dst src (Suc n) m"
  proof (rule ext)
    fix x
    show "moved dst src n (m(dst + n \<mapsto> b)) x = moved dst src (Suc n) m x"
      using Suc.prems(3) b by (cases "x = dst + n") (auto simp: moved_def)
  qed
  finally show ?case .
qed simp

text \<open>\<open>rt_memmove\<close> is right for every overlap, \<open>rt_memcpy\<close> for a destination below the source or apart.\<close>

lemma rt_memmove_ok:
  assumes "mapped m src n" "mapped m dst n"
  shows "rt_memmove dst src n m = Some (moved dst src n m)"
  using copy_up_ok [OF assms] copy_down_ok [OF assms] by (auto simp: rt_memmove_def not_less)

lemma rt_memcpy_ok:
  assumes "mapped m src n" "mapped m dst n" "dst \<le> src \<or> src + n \<le> dst"
  shows "rt_memcpy dst src n m = Some (moved dst src n m)"
  using copy_up_ok [OF assms] by (simp add: rt_memcpy_bytes)

lemma rt_memset_ok: "mapped m a n \<Longrightarrow> rt_memset a c n m = Some (filled a (ucast c) n m)"
  by (simp add: rt_memset_bytes fill_up_ok)

end
