(* ===== verification/Ipc.thy ===== *)
theory Ipc
  imports Thread
begin

text \<open>
  What the objects of \<open>src/ipc.c\<close> share: the context checks of \<open>include/rtdebug.h\<close>, and the list
  of suspended threads with its two waiting orders (\<open>_ipc_list_suspend\<close>, \<open>_ipc_list_resume\<close>,
  \<open>_ipc_list_resume_all\<close>). The lemmas give every blocking call the same two facts: the thread is
  suspended behind its object in the right place, and the kernel invariant survives.
\<close>

subsection \<open>Context checks\<close>

definition RT_DEBUG_NOT_IN_INTERRUPT :: "kernel \<Rightarrow> unit option" where
  "RT_DEBUG_NOT_IN_INTERRUPT k = rt_assert (rt_interrupt_get_nest k = 0)"

definition RT_DEBUG_IN_THREAD_CONTEXT :: "kernel \<Rightarrow> unit option" where
  "RT_DEBUG_IN_THREAD_CONTEXT k = do {
     _ \<leftarrow> rt_assert (rt_thread_self k \<noteq> None);
     RT_DEBUG_NOT_IN_INTERRUPT k }"

definition RT_DEBUG_SCHEDULER_AVAILABLE :: "bool \<Rightarrow> kernel \<Rightarrow> unit option" where
  "RT_DEBUG_SCHEDULER_AVAILABLE need_check k =
     (if need_check then do {
        _ \<leftarrow> rt_assert (rt_critical_level k = 0);
        RT_DEBUG_IN_THREAD_CONTEXT k
      } else Some ())"

subsection \<open>Lists of suspended threads\<close>

definition ipc_object_init :: "lhead \<Rightarrow> kernel \<Rightarrow> kernel" where
  "ipc_object_init h k = k\<lparr>lists := (lists k)(h := [])\<rparr>"

lemma ipc_object_init_id: "lists k h = [] \<Longrightarrow> ipc_object_init h k = k"
  by (simp add: ipc_object_init_def fun_upd_idem)

text \<open>The loop of the priority order stops at the first thread of lower priority.\<close>

definition ipc_list_suspend :: "lhead \<Rightarrow> nat \<Rightarrow> ipc_flag \<Rightarrow> kernel \<Rightarrow> kernel option" where
  "ipc_list_suspend h t flag k = do {
     (_, k) \<leftarrow> rt_thread_suspend t k;
     Some (case flag of
         RT_IPC_FLAG_FIFO \<Rightarrow> k\<lparr>lists := l_append h t (lists k)\<rparr>
       | RT_IPC_FLAG_PRIO \<Rightarrow>
           (case List.find (\<lambda>s. current_priority (threads k t) < current_priority (threads k s)) (lists k h) of
              Some s \<Rightarrow> k\<lparr>lists := l_before h s t (lists k)\<rparr>
            | None \<Rightarrow> k\<lparr>lists := l_append h t (lists k)\<rparr>)) }"

definition ipc_list_resume :: "lhead \<Rightarrow> kernel \<Rightarrow> kernel option" where
  "ipc_list_resume h k =
     (case lists k h of [] \<Rightarrow> None | t # _ \<Rightarrow> Some (snd (rt_thread_resume t k)))"

text \<open>
  The loop of \<open>_ipc_list_resume_all\<close> ends after as many rounds as there are threads, or a round
  fails to resume its thread and it never ends.
\<close>

fun ipc_list_resume_all_loop :: "nat \<Rightarrow> lhead \<Rightarrow> kernel \<Rightarrow> kernel option" where
  "ipc_list_resume_all_loop 0 h k = None"
| "ipc_list_resume_all_loop (Suc fuel) h k =
     (case lists k h of
        [] \<Rightarrow> Some k
      | t # _ \<Rightarrow>
          let k = upd_thread t (\<lambda>x. x\<lparr>th_error := - RT_ERROR\<rparr>) k in
          ipc_list_resume_all_loop fuel h (snd (rt_thread_resume t k)))"

definition ipc_list_resume_all :: "lhead \<Rightarrow> kernel \<Rightarrow> kernel option" where
  "ipc_list_resume_all h k = ipc_list_resume_all_loop (Suc (length (lists k h))) h k"

subsection \<open>Suspending behind an object\<close>

text \<open>Where a thread of priority \<open>p t\<close> enters a waiting list.\<close>

definition wait_insert :: "ipc_flag \<Rightarrow> (nat \<Rightarrow> nat) \<Rightarrow> nat \<Rightarrow> nat list \<Rightarrow> nat list" where
  "wait_insert flag p t ts =
     (case flag of RT_IPC_FLAG_FIFO \<Rightarrow> ts @ [t]
      | RT_IPC_FLAG_PRIO \<Rightarrow> takeWhile (\<lambda>s. p s \<le> p t) ts @ t # dropWhile (\<lambda>s. p s \<le> p t) ts)"

lemma wait_insert_Nil: "wait_insert flag p t [] = [t]"
  by (cases flag) (simp_all add: wait_insert_def)

lemma find_before:
  assumes "List.find P xs = Some a"
  shows "takeWhile (\<lambda>x. x \<noteq> a) xs = takeWhile (\<lambda>x. \<not> P x) xs"
    "dropWhile (\<lambda>x. x \<noteq> a) xs = dropWhile (\<lambda>x. \<not> P x) xs"
proof -
  have "takeWhile (\<lambda>x. x \<noteq> a) xs = takeWhile (\<lambda>x. \<not> P x) xs \<and>
      dropWhile (\<lambda>x. x \<noteq> a) xs = dropWhile (\<lambda>x. \<not> P x) xs \<and> P a"
    using assms by (induction xs) (auto split: if_splits)
  then show "takeWhile (\<lambda>x. x \<noteq> a) xs = takeWhile (\<lambda>x. \<not> P x) xs"
    "dropWhile (\<lambda>x. x \<noteq> a) xs = dropWhile (\<lambda>x. \<not> P x) xs" by auto
qed

lemma set_wait_insert: "set (wait_insert flag p t ts) = insert t (set ts)"
proof -
  have "set (takeWhile P ts) \<union> set (dropWhile P ts) = set ts" for P
    by (metis set_append takeWhile_dropWhile_id)
  then show ?thesis by (cases flag) (auto simp: wait_insert_def)
qed

lemma wait_insert_cong:
  assumes "\<And>s. s \<in> insert t (set ts) \<Longrightarrow> p s = q s"
  shows "wait_insert flag p t ts = wait_insert flag q t ts"
proof -
  have "takeWhile (\<lambda>s. p s \<le> p t) ts = takeWhile (\<lambda>s. q s \<le> q t) ts"
    "dropWhile (\<lambda>s. p s \<le> p t) ts = dropWhile (\<lambda>s. q s \<le> q t) ts"
    using assms by (auto intro: takeWhile_cong dropWhile_cong)
  then show ?thesis by (simp add: wait_insert_def split: ipc_flag.split)
qed

text \<open>
  In priority order the list stays sorted, and a thread enters behind the threads of its own
  priority that wait already.
\<close>

lemma takeWhile_sorted_map:
  "sorted (map p ts) \<Longrightarrow> \<forall>s \<in> set (dropWhile (\<lambda>s. p s \<le> n) ts). n < (p s :: nat)"
proof (induction ts)
  case (Cons a ts)
  then show ?case by (cases "p a \<le> n") auto
qed simp

lemma sorted_wait_insert:
  assumes "sorted (map p ts)"
  shows "sorted (map p (wait_insert RT_IPC_FLAG_PRIO p t ts))"
proof -
  let ?P = "\<lambda>s. p s \<le> p t"
  have "sorted (map p (takeWhile ?P ts @ dropWhile ?P ts))" using assms by simp
  then have "sorted (map p (takeWhile ?P ts))" "sorted (map p (dropWhile ?P ts))"
    by (simp_all add: sorted_append del: takeWhile_dropWhile_id)
  moreover have "\<forall>s \<in> set (takeWhile ?P ts). p s \<le> p t" by (auto dest: set_takeWhileD)
  moreover have "\<forall>s \<in> set (dropWhile ?P ts). p t < p s" using takeWhile_sorted_map [OF assms] by blast
  ultimately show ?thesis
    by (fastforce simp: wait_insert_def sorted_append)
qed

lemma ipc_list_suspend_ok:
  assumes inv: "kinv k" and c: "current_thread k = Some t"
    and run: "th_stat (threads k t) = RT_THREAD_RUNNING"
    and hs: "list_stat h = RT_THREAD_SUSPEND"
  obtains k' where "ipc_list_suspend h t flag k = Some k'" "kinv k'"
    "threads k' = (threads k)(t := (threads k t)\<lparr>th_stat := RT_THREAD_SUSPEND\<rparr>)"
    "lists k' = (lists k)(h := wait_insert flag (\<lambda>s. current_priority (threads k s)) t (lists k h))"
    "current_thread k' = Some t" "ready_group k' = ready_group k" "lock_nest k' = lock_nest k"
    "interrupt_nest k' = interrupt_nest k" "rt_tick k' = rt_tick k" "sems k' = sems k"
    "mutexes k' = mutexes k" "events k' = events k" "mailboxes k' = mailboxes k"
    "mqueues k' = mqueues k" "mempools k' = mempools k" "mp_words k' = mp_words k"
proof -
  let ?s = "snd (rt_timer_stop (Thread_Timer t) (upd_thread t (\<lambda>x. x\<lparr>th_stat := RT_THREAD_SUSPEND\<rparr>) k))"
  note S = rt_thread_suspend_running [OF inv c run, simplified]
  let ?ls = "case flag of
      RT_IPC_FLAG_FIFO \<Rightarrow> l_append h t (lists k)
    | RT_IPC_FLAG_PRIO \<Rightarrow>
        (case List.find (\<lambda>s. current_priority (threads ?s t) < current_priority (threads ?s s)) (lists k h) of
           Some s \<Rightarrow> l_before h s t (lists k)
         | None \<Rightarrow> l_append h t (lists k))"
  have ls: "?ls = (lists k)(h := wait_insert flag (\<lambda>s. current_priority (threads k s)) t (lists k h))"
  proof (cases flag)
    case RT_IPC_FLAG_FIFO
    then show ?thesis by (simp add: l_append_def wait_insert_def)
  next
    case RT_IPC_FLAG_PRIO
    let ?P = "\<lambda>s. current_priority (threads k t) < current_priority (threads k s)"
    have f: "(\<lambda>s. current_priority (threads ?s t) < current_priority (threads ?s s)) = ?P"
      by (auto simp: fun_eq_iff)
    show ?thesis
    proof (cases "List.find ?P (lists k h)")
      case None
      then have "\<forall>s \<in> set (lists k h). current_priority (threads k s) \<le> current_priority (threads k t)"
        by (auto simp: find_None_iff not_less)
      then have tw: "takeWhile (\<lambda>s. current_priority (threads k s) \<le> current_priority (threads k t)) (lists k h)
          = lists k h" by (simp add: takeWhile_eq_all_conv)
      from this have dw:
        "dropWhile (\<lambda>s. current_priority (threads k s) \<le> current_priority (threads k t)) (lists k h) = []"
        by (metis append_self_conv takeWhile_dropWhile_id)
      show ?thesis
        unfolding RT_IPC_FLAG_PRIO f None wait_insert_def ipc_flag.case option.case tw dw
        by (simp add: l_append_def)
    next
      case (Some s)
      then show ?thesis
        using RT_IPC_FLAG_PRIO find_before [OF Some] f
        by (simp add: l_before_def wait_insert_def not_less)
    qed
  qed
  let ?k = "?s\<lparr>lists := ?ls\<rparr>"
  have h: "\<And>p. h \<noteq> ReadyQ p" using hs by auto
  have sus: "th_stat (threads ?s t) = list_stat h" using hs by simp
  have e: "sched_inv_x {t} ?s" by (rule sched_inv_exempt [OF kinvD(2) [OF S(2)]]) (use S(3) in simp)
  have "sched_inv ?k"
    using sched_inv_link_append [OF e _ h sus] sched_inv_link_before [OF e _ h sus]
    by (auto split: ipc_flag.splits option.splits)
  from kinv_lists [OF S(2) this] have inv': "kinv ?k" .
  show thesis
  proof (rule that [OF _ inv'])
    show "ipc_list_suspend h t flag k = Some ?k"
      by (auto simp: ipc_list_suspend_def S(1) split: ipc_flag.splits option.splits)
    show "lists ?k = (lists k)(h := wait_insert flag (\<lambda>s. current_priority (threads k s)) t (lists k h))"
      using ls by simp
  qed (use c in simp_all)
qed

subsection \<open>Resuming\<close>

lemma ipc_list_resume_ok:
  assumes inv: "kinv k" and q: "lists k h = t # ts" and h: "list_stat h = RT_THREAD_SUSPEND"
  obtains k' where "ipc_list_resume h k = Some k'" "kinv k'" "lists k' h = ts"
    "threads k' = (threads k)(t := (threads k t)\<lparr>th_stat :=
       if current_thread k = Some t then RT_THREAD_RUNNING else RT_THREAD_READY\<rparr>)"
    "\<And>g. g \<noteq> h \<Longrightarrow> \<not> is_ready g \<Longrightarrow> lists k' g = lists k g"
    "current_thread k' = current_thread k" "lock_nest k' = lock_nest k"
    "interrupt_nest k' = interrupt_nest k" "rt_tick k' = rt_tick k" "sems k' = sems k"
    "mutexes k' = mutexes k" "events k' = events k" "mailboxes k' = mailboxes k"
    "mqueues k' = mqueues k" "mempools k' = mempools k" "mp_words k' = mp_words k"
proof -
  note S = sched_invD [OF kinvD(2) [OF inv]]
  have sus: "th_stat (threads k t) = RT_THREAD_SUSPEND" using S(4) [of t h] q h by simp
  let ?k = "snd (rt_thread_resume t k)"
  have nr: "\<And>p. h \<noteq> ReadyQ p" using h by auto
  have rem: "l_remove t (lists k) = (lists k)(h := ts)" by (rule l_remove_hd [OF S(1) q])
  show thesis
  proof (rule that)
    show "ipc_list_resume h k = Some ?k" using q by (simp add: ipc_list_resume_def)
    show "kinv ?k" using rt_thread_resume_suspended(2) [OF inv sus] by simp
    show "lists ?k h = ts" using nr by (auto simp: rt_thread_resume_simps [OF sus] rem l_append_def)
    show "lists ?k g = lists k g" if "g \<noteq> h" "\<not> is_ready g" for g
      using that by (auto simp: rt_thread_resume_simps [OF sus] rem l_append_def)
  qed (simp_all add: rt_thread_resume_simps [OF sus])
qed

text \<open>Every waiting thread is resumed with the error \<open>-RT_ERROR\<close>.\<close>

lemma ipc_list_resume_all_loop_ok:
  assumes "kinv k" "length (lists k h) < fuel" "list_stat h = RT_THREAD_SUSPEND"
  shows "\<exists>k'. ipc_list_resume_all_loop fuel h k = Some k' \<and> kinv k' \<and> lists k' h = [] \<and>
    (\<forall>t \<in> set (lists k h). th_error (threads k' t) = - RT_ERROR \<and>
       th_stat (threads k' t) \<noteq> RT_THREAD_SUSPEND) \<and>
    (\<forall>t. t \<notin> set (lists k h) \<longrightarrow> threads k' t = threads k t) \<and>
    (\<forall>g. g \<noteq> h \<longrightarrow> \<not> is_ready g \<longrightarrow> lists k' g = lists k g) \<and>
    current_thread k' = current_thread k \<and> sems k' = sems k \<and> mutexes k' = mutexes k \<and>
    events k' = events k \<and> mailboxes k' = mailboxes k \<and>
    mqueues k' = mqueues k \<and> mempools k' = mempools k \<and> mp_words k' = mp_words k"
  using assms
proof (induction fuel arbitrary: k)
  case 0
  then show ?case by simp
next
  case (Suc fuel)
  show ?case
  proof (cases "lists k h")
    case Nil
    then show ?thesis using Suc.prems by simp
  next
    case (Cons t ts)
    let ?k1 = "upd_thread t (\<lambda>x. x\<lparr>th_error := - RT_ERROR\<rparr>) k"
    have i1: "kinv ?k1"
      by (rule kinv_upd_thread [OF Suc.prems(1)]) (simp_all add: scheduler_stack_check_def)
    have q1: "lists ?k1 h = t # ts" using Cons by simp
    obtain k2 where k2: "ipc_list_resume h ?k1 = Some k2" "kinv k2" "lists k2 h = ts"
      "threads k2 = (threads ?k1)(t := (threads ?k1 t)\<lparr>th_stat :=
         if current_thread ?k1 = Some t then RT_THREAD_RUNNING else RT_THREAD_READY\<rparr>)"
      "\<And>g. g \<noteq> h \<Longrightarrow> \<not> is_ready g \<Longrightarrow> lists k2 g = lists ?k1 g"
      "current_thread k2 = current_thread ?k1" "sems k2 = sems ?k1"
      "mutexes k2 = mutexes ?k1" "events k2 = events ?k1" "mailboxes k2 = mailboxes ?k1"
    "mqueues k2 = mqueues ?k1" "mempools k2 = mempools ?k1" "mp_words k2 = mp_words ?k1"
      by (rule ipc_list_resume_ok [OF i1 q1 Suc.prems(3)]) (rule that)
    have e: "ipc_list_resume_all_loop (Suc fuel) h k = ipc_list_resume_all_loop fuel h k2"
      using k2(1) Cons by (simp add: ipc_list_resume_def)
    have nt: "t \<notin> set ts"
      using wf_listsD(1) [OF sched_invD(1) [OF kinvD(2) [OF Suc.prems(1)]], of h] Cons by simp
    have "length (lists k2 h) < fuel" using Suc.prems(2) Cons k2(3) by simp
    from Suc.IH [OF k2(2) this Suc.prems(3)] obtain k3 where
      k3: "ipc_list_resume_all_loop fuel h k2 = Some k3" "kinv k3" "lists k3 h = []"
        "\<forall>u \<in> set ts. th_error (threads k3 u) = - RT_ERROR \<and> th_stat (threads k3 u) \<noteq> RT_THREAD_SUSPEND"
        "\<forall>u. u \<notin> set ts \<longrightarrow> threads k3 u = threads k2 u"
        "\<forall>g. g \<noteq> h \<longrightarrow> \<not> is_ready g \<longrightarrow> lists k3 g = lists k2 g"
        "current_thread k3 = current_thread k2" "sems k3 = sems k2" "mutexes k3 = mutexes k2"
        "events k3 = events k2" "mailboxes k3 = mailboxes k2"
    "mqueues k3 = mqueues k2" "mempools k3 = mempools k2" "mp_words k3 = mp_words k2"
      unfolding k2(3) by blast
    show ?thesis
    proof (intro exI conjI)
      show "ipc_list_resume_all_loop (Suc fuel) h k = Some k3" using e k3(1) by simp
      show "\<forall>u \<in> set (lists k h). th_error (threads k3 u) = - RT_ERROR \<and>
          th_stat (threads k3 u) \<noteq> RT_THREAD_SUSPEND"
        using k3(4,5) nt by (simp add: Cons k2(4))
      show "\<forall>u. u \<notin> set (lists k h) \<longrightarrow> threads k3 u = threads k u"
        using k3(5) by (simp add: Cons k2(4))
      show "\<forall>g. g \<noteq> h \<longrightarrow> \<not> is_ready g \<longrightarrow> lists k3 g = lists k g"
        using k3(6) k2(5) by simp
    qed (use k3 k2 in simp_all)
  qed
qed

lemma ipc_list_resume_all_ok:
  assumes "kinv k" "list_stat h = RT_THREAD_SUSPEND"
  obtains k' where "ipc_list_resume_all h k = Some k'" "kinv k'" "lists k' h = []"
    "\<And>t. t \<in> set (lists k h) \<Longrightarrow> th_error (threads k' t) = - RT_ERROR \<and>
       th_stat (threads k' t) \<noteq> RT_THREAD_SUSPEND"
    "\<And>t. t \<notin> set (lists k h) \<Longrightarrow> threads k' t = threads k t"
    "\<And>g. g \<noteq> h \<Longrightarrow> \<not> is_ready g \<Longrightarrow> lists k' g = lists k g"
    "current_thread k' = current_thread k" "sems k' = sems k" "mutexes k' = mutexes k"
    "events k' = events k" "mailboxes k' = mailboxes k"
    "mqueues k' = mqueues k" "mempools k' = mempools k" "mp_words k' = mp_words k"
  using ipc_list_resume_all_loop_ok [OF assms(1) _ assms(2), of "Suc (length (lists k h))"]
  unfolding ipc_list_resume_all_def by auto

subsection \<open>Blocking with a time limit\<close>

text \<open>
  The steps every blocking call makes before its \<open>rt_schedule\<close>: suspend behind the object and,
  for a positive time, start the thread's timer.
\<close>

definition ipc_suspend_timed :: "lhead \<Rightarrow> nat \<Rightarrow> ipc_flag \<Rightarrow> int \<Rightarrow> kernel \<Rightarrow> kernel option" where
  "ipc_suspend_timed h t flag time k = do {
     k \<leftarrow> ipc_list_suspend h t flag k;
     if time > 0 then thread_timer_start t (word_of_int time) k else Some k }"

text \<open>The last steps of a blocking call: a suspended thread's timer and the switch away from it.\<close>

lemma timed_schedule_ok:
  assumes inv: "kinv k0" and sus: "th_stat (threads k0 t) = RT_THREAD_SUSPEND" and time: "time < 2 ^ 31 - 1"
  obtains k1 k' where
    "(if time > 0 then thread_timer_start t (word_of_int time) k0 else Some k0) = Some k1"
    "rt_schedule k1 = Some k'" "kinv k'" "threads k' t = threads k0 t"
    "\<And>g. \<not> is_ready g \<Longrightarrow> lists k' g = lists k0 g" "\<And>u. same_tcb (threads k0 u) (threads k' u)"
    "0 < time \<Longrightarrow> Thread_Timer t \<in> set (timer_lists k' HardTimers) \<and>
       timeout_tick (timers k' (Thread_Timer t)) = rt_tick k0 + word_of_int time"
    "sems k' = sems k0" "mutexes k' = mutexes k0" "events k' = events k0" "mailboxes k' = mailboxes k0"
    "mqueues k' = mqueues k0" "mempools k' = mempools k0" "mp_words k' = mp_words k0"
    "rt_tick k' = rt_tick k0"
proof -
  let ?n = "word_of_int time :: u32"
  have n: "?n < TICK_HALF" if "0 < time"
    using that time by (simp add: word_less_nat_alt unat_eq_nat_uint uint_word_of_int nat_less_iff)
  let ?k1 = "if 0 < time then timed t ?n k0 else k0"
  note arm = thread_timer_start_timed [OF inv sus n]
  have k1: "(if time > 0 then thread_timer_start t ?n k0 else Some k0) = Some ?k1" "kinv ?k1"
    using inv arm(1,2) by simp_all
  have f1: "threads ?k1 = threads k0" "lists ?k1 = lists k0" "sems ?k1 = sems k0"
    "mutexes ?k1 = mutexes k0" "events ?k1 = events k0" "mailboxes ?k1 = mailboxes k0"
    "mqueues ?k1 = mqueues k0" "mempools ?k1 = mempools k0" "mp_words ?k1 = mp_words k0"
    "rt_tick ?k1 = rt_tick k0"
    by simp_all
  obtain k' where k': "rt_schedule ?k1 = Some k'" "kinv k'" "\<And>u. same_tcb (threads ?k1 u) (threads k' u)"
    "\<And>h. \<not> is_ready h \<Longrightarrow> lists k' h = lists ?k1 h"
    by (rule kinv_schedule [OF k1(2)]) (rule that)
  note fr = rt_schedule_frame [OF k'(1)]
  show thesis
  proof (rule that [OF k1(1) k'(1,2)])
    have "threads k' t = threads ?k1 t" by (rule same_tcbD(9) [OF k'(3)]) (simp add: f1 sus)
    then show "threads k' t = threads k0 t" by (simp only: f1)
    show "Thread_Timer t \<in> set (timer_lists k' HardTimers) \<and>
       timeout_tick (timers k' (Thread_Timer t)) = rt_tick k0 + word_of_int time" if "0 < time"
      using arm(3,4) [OF that] that by (simp add: fr(1,2))
    show "same_tcb (threads k0 u) (threads k' u)" for u using k'(3) [of u] by (simp only: f1)
  qed (use fr f1 k'(4) in simp_all)
qed

lemma ipc_block_ok:
  assumes inv: "kinv k" and c: "current_thread k = Some t"
    and run: "th_stat (threads k t) = RT_THREAD_RUNNING"
    and hs: "list_stat h = RT_THREAD_SUSPEND" and time: "time < 2 ^ 31 - 1"
  obtains k1 k' where "ipc_suspend_timed h t flag time k = Some k1" "rt_schedule k1 = Some k'"
    "kinv k'" "threads k' t = (threads k t)\<lparr>th_stat := RT_THREAD_SUSPEND\<rparr>"
    "lists k' h = wait_insert flag (\<lambda>s. current_priority (threads k s)) t (lists k h)"
    "\<And>g. g \<noteq> h \<Longrightarrow> \<not> is_ready g \<Longrightarrow> lists k' g = lists k g"
    "\<And>u. u \<noteq> t \<Longrightarrow> same_tcb (threads k u) (threads k' u)"
    "0 < time \<Longrightarrow> Thread_Timer t \<in> set (timer_lists k' HardTimers) \<and>
       timeout_tick (timers k' (Thread_Timer t)) = rt_tick k + word_of_int time"
    "sems k' = sems k" "mutexes k' = mutexes k" "events k' = events k" "mailboxes k' = mailboxes k"
    "mqueues k' = mqueues k" "mempools k' = mempools k" "mp_words k' = mp_words k"
    "rt_tick k' = rt_tick k"
proof -
  obtain k0 where k0: "ipc_list_suspend h t flag k = Some k0" "kinv k0"
    "threads k0 = (threads k)(t := (threads k t)\<lparr>th_stat := RT_THREAD_SUSPEND\<rparr>)"
    "lists k0 = (lists k)(h := wait_insert flag (\<lambda>s. current_priority (threads k s)) t (lists k h))"
    "rt_tick k0 = rt_tick k" "sems k0 = sems k"
    "mutexes k0 = mutexes k" "events k0 = events k" "mailboxes k0 = mailboxes k"
    "mqueues k0 = mqueues k" "mempools k0 = mempools k" "mp_words k0 = mp_words k"
    by (rule ipc_list_suspend_ok [OF inv c run hs]) (rule that)
  have sus: "th_stat (threads k0 t) = RT_THREAD_SUSPEND" by (simp add: k0(3))
  obtain k1 k' where k': "(if time > 0 then thread_timer_start t (word_of_int time) k0 else Some k0) = Some k1"
    "rt_schedule k1 = Some k'" "kinv k'" "threads k' t = threads k0 t"
    "\<And>g. \<not> is_ready g \<Longrightarrow> lists k' g = lists k0 g" "\<And>u. same_tcb (threads k0 u) (threads k' u)"
    "0 < time \<Longrightarrow> Thread_Timer t \<in> set (timer_lists k' HardTimers) \<and>
       timeout_tick (timers k' (Thread_Timer t)) = rt_tick k0 + word_of_int time"
    "sems k' = sems k0" "mutexes k' = mutexes k0" "events k' = events k0" "mailboxes k' = mailboxes k0"
    "mqueues k' = mqueues k0" "mempools k' = mempools k0" "mp_words k' = mp_words k0"
    "rt_tick k' = rt_tick k0"
    by (rule timed_schedule_ok [OF k0(2) sus time]) (rule that)
  have nr: "\<not> is_ready h" using hs by (cases h) auto
  show thesis
  proof (rule that [OF _ k'(2,3)])
    show "ipc_suspend_timed h t flag time k = Some k1" using k0(1) k'(1) by (simp add: ipc_suspend_timed_def)
    show "same_tcb (threads k u) (threads k' u)" if "u \<noteq> t" for u
      using k'(6) [of u] that unfolding k0(3) by simp
  qed (use k0 k' nr in simp_all)
qed

text \<open>The context checks hold in a thread with the scheduler unlocked.\<close>

definition in_thread :: "kernel \<Rightarrow> nat \<Rightarrow> bool" where
  "in_thread k t \<longleftrightarrow> current_thread k = Some t \<and> th_stat (threads k t) = RT_THREAD_RUNNING \<and>
     interrupt_nest k = 0 \<and> lock_nest k = 0"

lemma in_threadD:
  assumes "in_thread k t"
  shows "current_thread k = Some t" "th_stat (threads k t) = RT_THREAD_RUNNING"
    "interrupt_nest k = 0" "lock_nest k = 0" "RT_DEBUG_SCHEDULER_AVAILABLE b k = Some ()"
    "RT_DEBUG_IN_THREAD_CONTEXT k = Some ()" "RT_DEBUG_NOT_IN_INTERRUPT k = Some ()"
    "rt_thread_self k = Some t"
  using assms by (simp_all add: in_thread_def RT_DEBUG_SCHEDULER_AVAILABLE_def
      RT_DEBUG_IN_THREAD_CONTEXT_def RT_DEBUG_NOT_IN_INTERRUPT_def rt_interrupt_get_nest_def
      rt_critical_level_def rt_thread_self_def)

lemma kinv_upd_error:
  assumes "kinv k"
  shows "kinv (upd_thread t (\<lambda>h. h\<lparr>th_error := e\<rparr>) k)"
  by (rule kinv_upd_thread [OF assms]) (simp_all add: scheduler_stack_check_def)

subsection \<open>Waiting loops\<close>

text \<open>
  Mailboxes and message queues wait in a loop: a call returns, or sleeps with the time it has left
  and the tick at which it went to sleep.
\<close>

datatype 'a waiting_ret = Done 'a | Waiting int u32

text \<open>The end of a send: wake the first receiver, if there is one.\<close>

definition ipc_wake_one :: "lhead \<Rightarrow> kernel \<Rightarrow> kernel option" where
  "ipc_wake_one h k =
     (if \<not> l_isempty h (lists k) then do { k \<leftarrow> ipc_list_resume h k; rt_schedule k } else Some k)"

text \<open>The time left after a wake-up: \<open>timeout -= tick_delta\<close> in 32 bits, not below zero.\<close>

definition time_left :: "int \<Rightarrow> u32 \<Rightarrow> u32 \<Rightarrow> int" where
  "time_left timeout tick_delta now =
     (if timeout > 0 then max 0 (sint (word_of_int timeout - (now - tick_delta))) else timeout)"

text \<open>Waking the first waiting thread, which is the whole effect on the list.\<close>

lemma ipc_wake_one_ok:
  assumes inv: "kinv k" and h: "list_stat h = RT_THREAD_SUSPEND"
  obtains k' where "ipc_wake_one h k = Some k'" "kinv k'" "mailboxes k' = mailboxes k"
    "mqueues k' = mqueues k" "mempools k' = mempools k" "mp_words k' = mp_words k"
    "lists k' h = tl (lists k h)"
    "lists k h \<noteq> [] \<Longrightarrow> th_stat (threads k' (hd (lists k h))) \<noteq> RT_THREAD_SUSPEND"
    "\<And>u. th_error (threads k' u) = th_error (threads k u)"
    "\<And>g. g \<noteq> h \<Longrightarrow> \<not> is_ready g \<Longrightarrow> lists k' g = lists k g"
proof (cases "lists k h")
  case Nil
  then show thesis using inv by (intro that [of k]) (simp_all add: ipc_wake_one_def l_isempty_def)
next
  case (Cons t ts)
  obtain k1 where k1: "ipc_list_resume h k = Some k1" "kinv k1" "lists k1 h = ts"
    "threads k1 = (threads k)(t := (threads k t)\<lparr>th_stat :=
       if current_thread k = Some t then RT_THREAD_RUNNING else RT_THREAD_READY\<rparr>)"
    "\<And>g. g \<noteq> h \<Longrightarrow> \<not> is_ready g \<Longrightarrow> lists k1 g = lists k g" "mailboxes k1 = mailboxes k"
    "mqueues k1 = mqueues k" "mempools k1 = mempools k" "mp_words k1 = mp_words k"
    by (rule ipc_list_resume_ok [OF inv Cons h]) (rule that)
  obtain k' where k': "rt_schedule k1 = Some k'" "kinv k'" "\<And>u. same_tcb (threads k1 u) (threads k' u)"
    "\<And>h. \<not> is_ready h \<Longrightarrow> lists k' h = lists k1 h"
    by (rule kinv_schedule [OF k1(2)]) (rule that)
  have nr: "\<not> is_ready h" using h by (cases h) auto
  have st: "th_stat (threads k1 t) \<noteq> RT_THREAD_SUSPEND" by (simp add: k1(4))
  show thesis
  proof (rule that)
    show "ipc_wake_one h k = Some k'" using Cons k1(1) k'(1) by (simp add: ipc_wake_one_def l_isempty_def)
    show "th_stat (threads k' (hd (lists k h))) \<noteq> RT_THREAD_SUSPEND"
      using same_tcbD(10) [OF k'(3) [of t]] st Cons by fastforce
    show "th_error (threads k' u) = th_error (threads k u)" for u
      using same_tcbD(3) [OF k'(3) [of u]] by (simp add: k1(4))
  qed (use k' k1 Cons nr rt_schedule_frame [OF k'(1)] in simp_all)
qed

text \<open>The blocking branch of a round: the caller goes to sleep behind \<open>h\<close> with its error cleared.\<close>

lemma ipc_sleep_ok:
  assumes ki: "kinv k" and t: "in_thread k t" and time: "timeout < 2 ^ 31 - 1"
    and h: "list_stat h = RT_THREAD_SUSPEND"
  obtains k1 k' where
    "ipc_suspend_timed h t flag timeout (upd_thread t (\<lambda>h. h\<lparr>th_error := RT_EOK\<rparr>) k) = Some k1"
    "rt_schedule k1 = Some k'" "kinv k'" "mailboxes k' = mailboxes k" "mqueues k' = mqueues k"
    "th_stat (threads k' t) = RT_THREAD_SUSPEND" "th_error (threads k' t) = RT_EOK"
    "lists k' h = wait_insert flag (\<lambda>u. current_priority (threads k u)) t (lists k h)"
    "\<And>g. g \<noteq> h \<Longrightarrow> \<not> is_ready g \<Longrightarrow> lists k' g = lists k g"
proof -
  let ?k = "upd_thread t (\<lambda>h. h\<lparr>th_error := RT_EOK\<rparr>) k"
  have c: "current_thread ?k = Some t" "th_stat (threads ?k t) = RT_THREAD_RUNNING"
    using in_threadD [OF t] by simp_all
  obtain k1 k' where k': "ipc_suspend_timed h t flag timeout ?k = Some k1"
    "rt_schedule k1 = Some k'" "kinv k'" "threads k' t = (threads ?k t)\<lparr>th_stat := RT_THREAD_SUSPEND\<rparr>"
    "lists k' h = wait_insert flag (\<lambda>u. current_priority (threads ?k u)) t (lists ?k h)"
    "\<And>g. g \<noteq> h \<Longrightarrow> \<not> is_ready g \<Longrightarrow> lists k' g = lists ?k g"
    "mailboxes k' = mailboxes ?k" "mqueues k' = mqueues ?k"
    by (rule ipc_block_ok [OF kinv_upd_error [OF ki] c h time]) (rule that)
  have p: "(\<lambda>u. current_priority (threads ?k u)) = (\<lambda>u. current_priority (threads k u))"
    by (auto simp: fun_eq_iff)
  show thesis
  proof (rule that [OF k'(1-3)])
    show "lists k' h = wait_insert flag (\<lambda>u. current_priority (threads k u)) t (lists k h)"
      using k'(5) unfolding p by simp
  qed (use k' in simp_all)
qed

text \<open>The time left is what it should be as long as no more ticks pass than a signed word holds.\<close>

lemma sint_diff_exact:
  fixes d :: u32
  assumes "0 < n" "n < 2 ^ 31" "uint d < 2 ^ 31"
  shows "sint (word_of_int n - d) = n - uint d"
proof -
  have w: "word_of_int n - d = word_of_int (n - uint d)" by (metis wi_hom_sub word_of_int_uint)
  have "signed_take_bit 31 (n - uint d) = n - uint d"
  proof (rule signed_take_bit_int_eq_self)
    have "0 \<le> uint d" by (rule uint_ge_0)
    then show "- (2 ^ 31) \<le> n - uint d" "n - uint d < 2 ^ 31" using assms by linarith+
  qed
  then show ?thesis unfolding w signed_of_int by simp
qed

lemma time_left_exact:
  assumes "0 < timeout" "timeout < 2 ^ 31" "unat (now - start) < 2 ^ 31"
  shows "time_left timeout start now = max 0 (timeout - int (unat (now - start)))"
proof -
  obtain d where d: "now - start = d" by blast
  have "int (unat d) < 2 ^ 31" using assms(3) unfolding d by (metis of_nat_less_iff of_nat_numeral of_nat_power)
  then have "uint d < 2 ^ 31" by (simp only: uint_nat)
  from sint_diff_exact [OF assms(1,2) this] show ?thesis
    using assms(1) unfolding time_left_def d uint_nat by simp
qed

end
