(* ===== verification/Ipc_Sem.thy ===== *)
theory Ipc_Sem
  imports Ipc
begin

text \<open>
  The semaphores of \<open>src/ipc.c\<close>. The semaphore at address \<open>s\<close> keeps its value in \<open>sems\<close> and its
  waiting threads behind \<open>SuspQ s\<close>. Every operation is related to the counting semaphore it
  stands for: a value and a queue, of which one is empty.
\<close>

subsection \<open>Operations\<close>

abbreviation (input) RT_SEM_VALUE_MAX :: nat where "RT_SEM_VALUE_MAX \<equiv> 65535"

definition upd_sem :: "nat \<Rightarrow> (semaphore \<Rightarrow> semaphore) \<Rightarrow> kernel \<Rightarrow> kernel" where
  "upd_sem s f k = k\<lparr>sems := (sems k)(s := f (sems k s))\<rparr>"

definition rt_sem_init :: "nat \<Rightarrow> nat \<Rightarrow> ipc_flag \<Rightarrow> kernel \<Rightarrow> (int \<times> kernel) option" where
  "rt_sem_init s value flag k = do {
     _ \<leftarrow> rt_assert (value < 0x10000);
     let k = ipc_object_init (SuspQ s) k;
     Some (RT_EOK, upd_sem s (\<lambda>_. \<lparr>sem_flag = flag, sem_value = value mod 2 ^ 16\<rparr>) k) }"

text \<open>What \<open>rt_object_allocate\<close> returned is the argument \<open>obj\<close> of the create functions.\<close>

definition rt_sem_create :: "nat option \<Rightarrow> nat \<Rightarrow> ipc_flag \<Rightarrow> kernel \<Rightarrow> (nat option \<times> kernel) option" where
  "rt_sem_create obj value flag k = do {
     _ \<leftarrow> rt_assert (value < 0x10000);
     _ \<leftarrow> RT_DEBUG_NOT_IN_INTERRUPT k;
     Some (case obj of
         None \<Rightarrow> (None, k)
       | Some s \<Rightarrow> (Some s, upd_sem s (\<lambda>_. \<lparr>sem_flag = flag, sem_value = value mod 2 ^ 16\<rparr>)
           (ipc_object_init (SuspQ s) k))) }"

definition rt_sem_detach :: "nat \<Rightarrow> kernel \<Rightarrow> (int \<times> kernel) option" where
  "rt_sem_detach s k = do {
     k \<leftarrow> ipc_list_resume_all (SuspQ s) k;
     Some (RT_EOK, k) }"

definition rt_sem_delete :: "nat \<Rightarrow> kernel \<Rightarrow> (int \<times> kernel) option" where
  "rt_sem_delete s k = do {
     _ \<leftarrow> RT_DEBUG_NOT_IN_INTERRUPT k;
     k \<leftarrow> ipc_list_resume_all (SuspQ s) k;
     Some (RT_EOK, k) }"

definition rt_sem_take :: "nat \<Rightarrow> int \<Rightarrow> kernel \<Rightarrow> (int ret \<times> kernel) option" where
  "rt_sem_take s time k =
     (if sem_value (sems k s) > 0
      then Some (Ret RT_EOK, upd_sem s (\<lambda>x. x\<lparr>sem_value := sem_value x - 1\<rparr>) k)
      else if time = 0 then Some (Ret (- RT_ETIMEOUT), k)
      else do {
        _ \<leftarrow> RT_DEBUG_SCHEDULER_AVAILABLE True k;
        t \<leftarrow> rt_thread_self k;
        let k = upd_thread t (\<lambda>h. h\<lparr>th_error := RT_EOK\<rparr>) k;
        k \<leftarrow> ipc_suspend_timed (SuspQ s) t (sem_flag (sems k s)) time k;
        k \<leftarrow> rt_schedule k;
        Some (Blocked, k) })"

definition rt_sem_take_resume :: "nat \<Rightarrow> kernel \<Rightarrow> int" where
  "rt_sem_take_resume t k =
     (if th_error (threads k t) \<noteq> RT_EOK then th_error (threads k t) else RT_EOK)"

definition rt_sem_trytake :: "nat \<Rightarrow> kernel \<Rightarrow> (int ret \<times> kernel) option" where
  "rt_sem_trytake s k = rt_sem_take s RT_WAITING_NO k"

definition rt_sem_release :: "nat \<Rightarrow> kernel \<Rightarrow> (int \<times> kernel) option" where
  "rt_sem_release s k =
     (if \<not> l_isempty (SuspQ s) (lists k) then do {
        k \<leftarrow> ipc_list_resume (SuspQ s) k;
        k \<leftarrow> rt_schedule k;
        Some (RT_EOK, k)
      } else if sem_value (sems k s) < RT_SEM_VALUE_MAX
        then Some (RT_EOK, upd_sem s (\<lambda>x. x\<lparr>sem_value := sem_value x + 1\<rparr>) k)
      else Some (- RT_EFULL, k))"

datatype ipc_cmd = RT_IPC_CMD_RESET nat | RT_IPC_CMD_OTHER

definition rt_sem_control :: "nat \<Rightarrow> ipc_cmd \<Rightarrow> kernel \<Rightarrow> (int \<times> kernel) option" where
  "rt_sem_control s cmd k =
     (case cmd of
        RT_IPC_CMD_RESET value \<Rightarrow> do {
          k \<leftarrow> ipc_list_resume_all (SuspQ s) k;
          let k = upd_sem s (\<lambda>x. x\<lparr>sem_value := value mod 2 ^ 16\<rparr>) k;
          k \<leftarrow> rt_schedule k;
          Some (RT_EOK, k) }
      | RT_IPC_CMD_OTHER \<Rightarrow> Some (- RT_ERROR, k))"

lemma upd_sem_simps [simp]:
  "sems (upd_sem s f k) = (sems k)(s := f (sems k s))" "threads (upd_sem s f k) = threads k"
  "lists (upd_sem s f k) = lists k" "kinv_x Y (upd_sem s f k) = kinv_x Y k"
  "current_thread (upd_sem s f k) = current_thread k" "timers (upd_sem s f k) = timers k"
  "timer_lists (upd_sem s f k) = timer_lists k" "rt_tick (upd_sem s f k) = rt_tick k"
  by (simp_all add: upd_sem_def)

subsection \<open>The counting semaphore\<close>

text \<open>The abstract state: how many takes may still succeed at once, and who waits, in order.\<close>

record counting =
  count :: nat
  waiting :: "nat list"

definition sem_abs :: "nat \<Rightarrow> kernel \<Rightarrow> counting" where
  "sem_abs s k = \<lparr>count = sem_value (sems k s), waiting = lists k (SuspQ s)\<rparr>"

definition sem_inv :: "nat \<Rightarrow> kernel \<Rightarrow> bool" where
  "sem_inv s k \<longleftrightarrow> kinv k \<and> count (sem_abs s k) \<le> RT_SEM_VALUE_MAX \<and>
     (0 < count (sem_abs s k) \<longrightarrow> waiting (sem_abs s k) = [])"

definition spec_take :: "(nat list \<Rightarrow> nat list) \<Rightarrow> bool \<Rightarrow> counting \<Rightarrow> int ret \<times> counting" where
  "spec_take enqueue try c =
     (if 0 < count c then (Ret RT_EOK, c\<lparr>count := count c - 1\<rparr>)
      else if try then (Ret (- RT_ETIMEOUT), c)
      else (Blocked, c\<lparr>waiting := enqueue (waiting c)\<rparr>))"

definition spec_release :: "counting \<Rightarrow> int \<times> counting" where
  "spec_release c =
     (if waiting c \<noteq> [] then (RT_EOK, c\<lparr>waiting := tl (waiting c)\<rparr>)
      else if count c < RT_SEM_VALUE_MAX then (RT_EOK, c\<lparr>count := count c + 1\<rparr>)
      else (- RT_EFULL, c))"

text \<open>A take refines the abstract take, and a blocked taker is suspended with its timer set.\<close>

lemma rt_sem_take_refines:
  assumes inv: "sem_inv s k" and t: "in_thread k t" and time: "time < 2 ^ 31 - 1"
  obtains r k' where "rt_sem_take s time k = Some (r, k')" "sem_inv s k'"
    "(r, sem_abs s k') = spec_take
       (wait_insert (sem_flag (sems k s)) (\<lambda>u. current_priority (threads k u)) t) (time = 0) (sem_abs s k)"
    "r = Blocked \<Longrightarrow> th_stat (threads k' t) = RT_THREAD_SUSPEND \<and> th_error (threads k' t) = RT_EOK \<and>
       (0 < time \<longrightarrow> Thread_Timer t \<in> set (timer_lists k' HardTimers) \<and>
          timeout_tick (timers k' (Thread_Timer t)) = rt_tick k + word_of_int time)"
proof -
  note D = in_threadD [OF t]
  have ki: "kinv k" using inv by (simp add: sem_inv_def)
  show thesis
  proof (cases "0 < sem_value (sems k s) \<or> time = 0")
    case True
    then show thesis
      using inv by (intro that [of "if 0 < sem_value (sems k s) then Ret RT_EOK else Ret (- RT_ETIMEOUT)"
            "if 0 < sem_value (sems k s) then upd_sem s (\<lambda>x. x\<lparr>sem_value := sem_value x - 1\<rparr>) k else k"])
        (auto simp: rt_sem_take_def sem_inv_def sem_abs_def spec_take_def)
  next
    case False
    let ?k = "upd_thread t (\<lambda>h. h\<lparr>th_error := RT_EOK\<rparr>) k"
    have c: "current_thread ?k = Some t" "th_stat (threads ?k t) = RT_THREAD_RUNNING"
      using D by simp_all
    obtain k1 k' where k': "ipc_suspend_timed (SuspQ s) t (sem_flag (sems k s)) time ?k = Some k1"
      "rt_schedule k1 = Some k'" "kinv k'" "threads k' t = (threads ?k t)\<lparr>th_stat := RT_THREAD_SUSPEND\<rparr>"
      "lists k' (SuspQ s) = wait_insert (sem_flag (sems k s)) (\<lambda>u. current_priority (threads ?k u)) t
         (lists ?k (SuspQ s))"
      "0 < time \<Longrightarrow> Thread_Timer t \<in> set (timer_lists k' HardTimers) \<and>
         timeout_tick (timers k' (Thread_Timer t)) = rt_tick ?k + word_of_int time"
      "sems k' = sems ?k"
      by (rule ipc_block_ok [OF kinv_upd_error [OF ki] c list_stat.simps(2) time]) (rule that)
    have p: "(\<lambda>u. current_priority (threads ?k u)) = (\<lambda>u. current_priority (threads k u))"
      by (auto simp: fun_eq_iff)
    have q: "lists k' (SuspQ s) = wait_insert (sem_flag (sems k s)) (\<lambda>u. current_priority (threads k u)) t
        (lists k (SuspQ s))"
      using k'(5) unfolding p by simp
    show thesis
    proof (rule that [of Blocked k'])
      show "rt_sem_take s time k = Some (Blocked, k')"
        using False k'(1,2) by (simp add: rt_sem_take_def D)
      show "sem_inv s k'" using k'(3,7) False by (simp add: sem_inv_def sem_abs_def)
      show "(Blocked, sem_abs s k') = spec_take
         (wait_insert (sem_flag (sems k s)) (\<lambda>u. current_priority (threads k u)) t) (time = 0) (sem_abs s k)"
        using False k'(7) q by (simp add: sem_abs_def spec_take_def)
    qed (use k'(4,6) in simp_all)
  qed
qed

text \<open>
  A release refines the abstract release: the first waiting thread is made ready, with the
  value unchanged, or the value is counted up to its limit.
\<close>

lemma rt_sem_release_refines:
  assumes inv: "sem_inv s k"
  obtains r k' where "rt_sem_release s k = Some (r, k')" "sem_inv s k'"
    "(r, sem_abs s k') = spec_release (sem_abs s k)"
    "\<And>t ts. lists k (SuspQ s) = t # ts \<Longrightarrow> th_stat (threads k' t) \<noteq> RT_THREAD_SUSPEND \<and>
       th_error (threads k' t) = th_error (threads k t)"
    "\<And>s'. s' \<noteq> s \<Longrightarrow> sem_abs s' k' = sem_abs s' k"
proof -
  have ki: "kinv k" using inv by (simp add: sem_inv_def)
  show thesis
  proof (cases "lists k (SuspQ s)")
    case Nil
    then show thesis
      using inv by (intro that [of "if sem_value (sems k s) < RT_SEM_VALUE_MAX then RT_EOK else - RT_EFULL"
            "if sem_value (sems k s) < RT_SEM_VALUE_MAX
             then upd_sem s (\<lambda>x. x\<lparr>sem_value := sem_value x + 1\<rparr>) k else k"])
        (auto simp: rt_sem_release_def sem_inv_def sem_abs_def spec_release_def l_isempty_def)
  next
    case (Cons t ts)
    obtain k1 where k1: "ipc_list_resume (SuspQ s) k = Some k1" "kinv k1" "lists k1 (SuspQ s) = ts"
      "threads k1 = (threads k)(t := (threads k t)\<lparr>th_stat :=
         if current_thread k = Some t then RT_THREAD_RUNNING else RT_THREAD_READY\<rparr>)"
      "\<And>g. g \<noteq> SuspQ s \<Longrightarrow> \<not> is_ready g \<Longrightarrow> lists k1 g = lists k g" "sems k1 = sems k"
      by (rule ipc_list_resume_ok [OF ki Cons list_stat.simps(2)]) (rule that)
    obtain k' where k': "rt_schedule k1 = Some k'" "kinv k'" "\<And>u. same_tcb (threads k1 u) (threads k' u)"
      "\<And>h. \<not> is_ready h \<Longrightarrow> lists k' h = lists k1 h"
      by (rule kinv_schedule [OF k1(2)]) (rule that)
    have z: "sem_value (sems k s) = 0" using inv Cons by (simp add: sem_inv_def sem_abs_def)
    have st: "th_stat (threads k1 t) \<noteq> RT_THREAD_SUSPEND" by (simp add: k1(4))
    show thesis
    proof (rule that [of RT_EOK k'])
      show "rt_sem_release s k = Some (RT_EOK, k')"
        using Cons k1(1) k'(1) by (simp add: rt_sem_release_def l_isempty_def)
      show "sem_inv s k'" "(RT_EOK, sem_abs s k') = spec_release (sem_abs s k)"
        using k'(2,4) rt_schedule_frame(8) [OF k'(1)] k1(3,6) Cons z
        by (simp_all add: sem_inv_def sem_abs_def spec_release_def)
      show "sem_abs s' k' = sem_abs s' k" if "s' \<noteq> s" for s'
        using that k'(4) rt_schedule_frame(8) [OF k'(1)] k1(5,6) by (simp add: sem_abs_def)
      show "th_stat (threads k' u) \<noteq> RT_THREAD_SUSPEND \<and> th_error (threads k' u) = th_error (threads k u)"
        if "lists k (SuspQ s) = u # us" for u us
      proof -
        have "u = t" using that Cons by simp
        moreover have "th_stat (threads k' t) \<noteq> RT_THREAD_SUSPEND"
          using same_tcbD(10) [OF k'(3) [of t]] st by fastforce
        moreover have "th_error (threads k' t) = th_error (threads k t)"
          using same_tcbD(3) [OF k'(3) [of t]] by (simp add: k1(4))
        ultimately show ?thesis by simp
      qed
    qed
  qed
qed

text \<open>
  A reset wakes every waiting thread with \<open>-RT_ERROR\<close> and stores the new value modulo \<open>2^16\<close>.
\<close>

lemma rt_sem_reset_ok:
  assumes inv: "sem_inv s k"
  obtains k' where "rt_sem_control s (RT_IPC_CMD_RESET value) k = Some (RT_EOK, k')" "sem_inv s k'"
    "sem_abs s k' = \<lparr>count = value mod 2 ^ 16, waiting = []\<rparr>"
    "\<And>t. t \<in> set (lists k (SuspQ s)) \<Longrightarrow>
       rt_sem_take_resume t k' = - RT_ERROR \<and> th_stat (threads k' t) \<noteq> RT_THREAD_SUSPEND"
proof -
  have ki: "kinv k" using inv by (simp add: sem_inv_def)
  obtain k1 where k1: "ipc_list_resume_all (SuspQ s) k = Some k1" "kinv k1" "lists k1 (SuspQ s) = []"
    "\<And>t. t \<in> set (lists k (SuspQ s)) \<Longrightarrow> th_error (threads k1 t) = - RT_ERROR \<and>
       th_stat (threads k1 t) \<noteq> RT_THREAD_SUSPEND"
    by (rule ipc_list_resume_all_ok [OF ki list_stat.simps(2)]) (rule that)
  let ?k2 = "upd_sem s (\<lambda>x. x\<lparr>sem_value := value mod 2 ^ 16\<rparr>) k1"
  have i2: "kinv ?k2" using k1(2) by simp
  obtain k' where k': "rt_schedule ?k2 = Some k'" "kinv k'" "\<And>u. same_tcb (threads ?k2 u) (threads k' u)"
    "\<And>h. \<not> is_ready h \<Longrightarrow> lists k' h = lists ?k2 h"
    by (rule kinv_schedule [OF i2]) (rule that)
  have a: "sem_abs s k' = \<lparr>count = value mod 2 ^ 16, waiting = []\<rparr>"
    using k'(4) [of "SuspQ s"] k1(3) rt_schedule_frame(8) [OF k'(1)] by (simp add: sem_abs_def)
  show thesis
  proof (rule that [OF _ _ a])
    show "rt_sem_control s (RT_IPC_CMD_RESET value) k = Some (RT_EOK, k')"
      using k1(1) k'(1) by (simp add: rt_sem_control_def)
    have "value mod 65536 < 65536" by simp
    then have "value mod 2 ^ 16 \<le> 65535" by simp
    then show "sem_inv s k'" using k'(2) by (simp add: sem_inv_def a)
    show "rt_sem_take_resume t k' = - RT_ERROR \<and> th_stat (threads k' t) \<noteq> RT_THREAD_SUSPEND"
      if "t \<in> set (lists k (SuspQ s))" for t
      using k1(4) [OF that] same_tcbD(3) [OF k'(3) [of t]] same_tcbD(10) [OF k'(3) [of t]]
      by (fastforce simp: rt_sem_take_resume_def)
  qed
qed

end
