(* ===== verification/Ipc_Mutex.thy ===== *)
theory Ipc_Mutex
  imports Ipc_Sem
begin

text \<open>
  The mutexes of \<open>src/ipc.c\<close>: recursive locking with a hold count, waiting in priority order, and
  priority inheritance by the owner. The invariant says who owns the mutex and that no waiting
  thread has a higher priority than the owner runs at.
\<close>

subsection \<open>Operations\<close>

abbreviation (input) RT_MUTEX_HOLD_MAX :: nat where "RT_MUTEX_HOLD_MAX \<equiv> 255"
abbreviation (input) RT_MUTEX_VALUE_MAX :: nat where "RT_MUTEX_VALUE_MAX \<equiv> 65535"

definition upd_mutex :: "nat \<Rightarrow> (mutex \<Rightarrow> mutex) \<Rightarrow> kernel \<Rightarrow> kernel" where
  "upd_mutex m f k = k\<lparr>mutexes := (mutexes k)(m := f (mutexes k m))\<rparr>"

definition rt_mutex_init :: "nat \<Rightarrow> kernel \<Rightarrow> int \<times> kernel" where
  "rt_mutex_init m k =
     (RT_EOK, upd_mutex m (\<lambda>_. \<lparr>mutex_value = 1, original_priority = 255, mutex_hold = 0, mutex_owner = None\<rparr>)
        (ipc_object_init (SuspQ m) k))"

definition rt_mutex_create :: "nat option \<Rightarrow> kernel \<Rightarrow> (nat option \<times> kernel) option" where
  "rt_mutex_create obj k = do {
     _ \<leftarrow> RT_DEBUG_NOT_IN_INTERRUPT k;
     Some (case obj of
         None \<Rightarrow> (None, k)
       | Some m \<Rightarrow> (Some m, upd_mutex m (\<lambda>_. \<lparr>mutex_value = 1, original_priority = 255, mutex_hold = 0,
           mutex_owner = None\<rparr>) (ipc_object_init (SuspQ m) k))) }"

definition rt_mutex_detach :: "nat \<Rightarrow> kernel \<Rightarrow> (int \<times> kernel) option" where
  "rt_mutex_detach m k = do { k \<leftarrow> ipc_list_resume_all (SuspQ m) k; Some (RT_EOK, k) }"

definition rt_mutex_delete :: "nat \<Rightarrow> kernel \<Rightarrow> (int \<times> kernel) option" where
  "rt_mutex_delete m k = do {
     _ \<leftarrow> RT_DEBUG_NOT_IN_INTERRUPT k;
     k \<leftarrow> ipc_list_resume_all (SuspQ m) k;
     Some (RT_EOK, k) }"

definition change_priority :: "nat \<Rightarrow> nat \<Rightarrow> kernel \<Rightarrow> kernel option" where
  "change_priority t p k = map_option snd (rt_thread_control t (RT_THREAD_CTRL_CHANGE_PRIORITY p) k)"

definition rt_mutex_take :: "nat \<Rightarrow> int \<Rightarrow> kernel \<Rightarrow> (int ret \<times> kernel) option" where
  "rt_mutex_take m time k = do {
     _ \<leftarrow> RT_DEBUG_SCHEDULER_AVAILABLE True k;
     t \<leftarrow> rt_thread_self k;
     let k = upd_thread t (\<lambda>h. h\<lparr>th_error := RT_EOK\<rparr>) k;
     if mutex_owner (mutexes k m) = Some t then
       (if mutex_hold (mutexes k m) < RT_MUTEX_HOLD_MAX
        then Some (Ret RT_EOK, upd_mutex m (\<lambda>x. x\<lparr>mutex_hold := mutex_hold x + 1\<rparr>) k)
        else Some (Ret (- RT_EFULL), k))
     else if mutex_value (mutexes k m) > 0 then
       (let k = upd_mutex m (\<lambda>x. x\<lparr>mutex_value := mutex_value x - 1, mutex_owner := Some t,
                  original_priority := current_priority (threads k t)\<rparr>) k in
        if mutex_hold (mutexes k m) < RT_MUTEX_HOLD_MAX
        then Some (Ret RT_EOK, upd_mutex m (\<lambda>x. x\<lparr>mutex_hold := mutex_hold x + 1\<rparr>) k)
        else Some (Ret (- RT_EFULL), k))
     else if time = 0 then
       Some (Ret (- RT_ETIMEOUT), upd_thread t (\<lambda>h. h\<lparr>th_error := - RT_ETIMEOUT\<rparr>) k)
     else do {
       owner \<leftarrow> mutex_owner (mutexes k m);
       k \<leftarrow> (if current_priority (threads k t) < current_priority (threads k owner)
             then change_priority owner (current_priority (threads k t)) k else Some k);
       k \<leftarrow> ipc_suspend_timed (SuspQ m) t RT_IPC_FLAG_PRIO time k;
       k \<leftarrow> rt_schedule k;
       Some (Blocked, k) } }"

definition rt_mutex_take_resume :: "nat \<Rightarrow> kernel \<Rightarrow> int" where
  "rt_mutex_take_resume t k =
     (if th_error (threads k t) \<noteq> RT_EOK then th_error (threads k t) else RT_EOK)"

definition rt_mutex_trytake :: "nat \<Rightarrow> kernel \<Rightarrow> (int ret \<times> kernel) option" where
  "rt_mutex_trytake m k = rt_mutex_take m RT_WAITING_NO k"

definition rt_mutex_release :: "nat \<Rightarrow> kernel \<Rightarrow> (int \<times> kernel) option" where
  "rt_mutex_release m k = do {
     _ \<leftarrow> RT_DEBUG_IN_THREAD_CONTEXT k;
     t \<leftarrow> rt_thread_self k;
     if mutex_owner (mutexes k m) \<noteq> Some t then
       Some (- RT_ERROR, upd_thread t (\<lambda>h. h\<lparr>th_error := - RT_ERROR\<rparr>) k)
     else do {
       let k = upd_mutex m (\<lambda>x. x\<lparr>mutex_hold := (mutex_hold x + 255) mod 256\<rparr>) k;
       if mutex_hold (mutexes k m) = 0 then do {
         k \<leftarrow> (if original_priority (mutexes k m) \<noteq> current_priority (threads k t)
               then change_priority t (original_priority (mutexes k m)) k else Some k);
         if \<not> l_isempty (SuspQ m) (lists k) then do {
           let u = hd (lists k (SuspQ m));
           let k = upd_mutex m (\<lambda>x. x\<lparr>mutex_owner := Some u,
                     original_priority := current_priority (threads k u)\<rparr>) k;
           if mutex_hold (mutexes k m) < RT_MUTEX_HOLD_MAX then do {
             let k = upd_mutex m (\<lambda>x. x\<lparr>mutex_hold := mutex_hold x + 1\<rparr>) k;
             k \<leftarrow> ipc_list_resume (SuspQ m) k;
             k \<leftarrow> rt_schedule k;
             Some (RT_EOK, k)
           } else Some (- RT_EFULL, k)
         } else if mutex_value (mutexes k m) < RT_MUTEX_VALUE_MAX then
           Some (RT_EOK, upd_mutex m (\<lambda>x. x\<lparr>mutex_value := mutex_value x + 1,
             mutex_owner := None, original_priority := 255\<rparr>) k)
         else Some (- RT_EFULL, k)
       } else Some (RT_EOK, k) } }"

definition rt_mutex_control :: "nat \<Rightarrow> kernel \<Rightarrow> int \<times> kernel" where
  "rt_mutex_control m k = (- RT_ERROR, k)"

lemma upd_mutex_simps [simp]:
  "mutexes (upd_mutex m f k) = (mutexes k)(m := f (mutexes k m))"
  "threads (upd_mutex m f k) = threads k" "lists (upd_mutex m f k) = lists k"
  "kinv_x Y (upd_mutex m f k) = kinv_x Y k" "current_thread (upd_mutex m f k) = current_thread k"
  "timers (upd_mutex m f k) = timers k" "timer_lists (upd_mutex m f k) = timer_lists k"
  "rt_tick (upd_mutex m f k) = rt_tick k" "lock_nest (upd_mutex m f k) = lock_nest k"
  "interrupt_nest (upd_mutex m f k) = interrupt_nest k"
  by (simp_all add: upd_mutex_def)

subsection \<open>Changing a priority, with its frame\<close>

lemma change_priority_ok:
  assumes inv: "kinv k" and p: "p < 32"
  obtains k' where "change_priority t p k = Some k'" "kinv k'"
    "current_priority (threads k' t) = p" "th_error (threads k' t) = th_error (threads k t)"
    "th_stat (threads k t) = RT_THREAD_RUNNING \<Longrightarrow> th_stat (threads k' t) = RT_THREAD_RUNNING"
    "\<And>u. u \<noteq> t \<Longrightarrow> threads k' u = threads k u"
    "\<And>g. \<not> is_ready g \<Longrightarrow> lists k' g = lists k g" "mutexes k' = mutexes k"
    "current_thread k' = current_thread k" "rt_tick k' = rt_tick k"
proof -
  obtain k' where k': "rt_thread_control t (RT_THREAD_CTRL_CHANGE_PRIORITY p) k = Some (RT_EOK, k')"
    "kinv k'" "current_priority (threads k' t) = p"
    by (rule rt_thread_change_priority_ok [OF inv p, of t]) (rule that)
  have nl: "t \<notin> set (lists k g)" if "th_stat (threads k t) = RT_THREAD_READY" "\<not> is_ready g" for g
    using sched_invD(4) [OF kinvD(2) [OF inv], of t g] that by (cases g) auto
  have frame: "threads k' u = threads k u" if "u \<noteq> t" for u
    using k'(1) that by (auto simp: rt_thread_control_def Let_def split: if_splits)
  have fl: "lists k' g = lists k g" if "\<not> is_ready g" for g
    using k'(1) nl [OF _ that] that
    by (auto simp: rt_thread_control_def Let_def l_remove_def l_append_def remove1_idem split: if_splits)
  have oth: "th_error (threads k' t) = th_error (threads k t)" "mutexes k' = mutexes k"
    "current_thread k' = current_thread k" "rt_tick k' = rt_tick k"
    "th_stat (threads k t) = RT_THREAD_RUNNING \<Longrightarrow> th_stat (threads k' t) = RT_THREAD_RUNNING"
    using k'(1) by (auto simp: rt_thread_control_def Let_def set_priority_def split: if_splits)
  show thesis
    by (rule that [OF _ k'(2,3) oth(1,5) frame fl oth(2-4)]) (simp_all add: change_priority_def k'(1))
qed

subsection \<open>The recursive lock\<close>

record rlock =
  owner :: "nat option"
  holds :: nat
  waiters :: "nat list"

definition mutex_abs :: "nat \<Rightarrow> kernel \<Rightarrow> rlock" where
  "mutex_abs m k = \<lparr>owner = mutex_owner (mutexes k m), holds = mutex_hold (mutexes k m),
     waiters = lists k (SuspQ m)\<rparr>"

definition spec_lock :: "nat \<Rightarrow> (nat list \<Rightarrow> nat list) \<Rightarrow> bool \<Rightarrow> rlock \<Rightarrow> int ret \<times> rlock" where
  "spec_lock t enqueue try x =
     (if owner x = Some t then
        (if holds x < RT_MUTEX_HOLD_MAX then (Ret RT_EOK, x\<lparr>holds := holds x + 1\<rparr>)
         else (Ret (- RT_EFULL), x))
      else if owner x = None then (Ret RT_EOK, x\<lparr>owner := Some t, holds := 1\<rparr>)
      else if try then (Ret (- RT_ETIMEOUT), x)
      else (Blocked, x\<lparr>waiters := enqueue (waiters x)\<rparr>))"

definition spec_unlock :: "nat \<Rightarrow> rlock \<Rightarrow> int \<times> rlock" where
  "spec_unlock t x =
     (if owner x \<noteq> Some t then (- RT_ERROR, x)
      else if 1 < holds x then (RT_EOK, x\<lparr>holds := holds x - 1\<rparr>)
      else case waiters x of
          [] \<Rightarrow> (RT_EOK, x\<lparr>owner := None, holds := 0\<rparr>)
        | u # us \<Rightarrow> (RT_EOK, x\<lparr>owner := Some u, holds := 1, waiters := us\<rparr>))"

text \<open>
  The mutex is free or has one owner, who does not wait for it; the waiting threads are in
  priority order and none of them outranks the owner.
\<close>

definition mutex_free :: "nat \<Rightarrow> kernel \<Rightarrow> bool" where
  "mutex_free m k \<longleftrightarrow> mutex_owner (mutexes k m) = None \<and> mutex_value (mutexes k m) = 1 \<and>
     mutex_hold (mutexes k m) = 0 \<and> lists k (SuspQ m) = []"

definition mutex_owned :: "nat \<Rightarrow> nat \<Rightarrow> kernel \<Rightarrow> bool" where
  "mutex_owned m u k \<longleftrightarrow> mutex_owner (mutexes k m) = Some u \<and> mutex_value (mutexes k m) = 0 \<and>
     0 < mutex_hold (mutexes k m) \<and> mutex_hold (mutexes k m) \<le> RT_MUTEX_HOLD_MAX \<and>
     original_priority (mutexes k m) < 32 \<and> u \<notin> set (lists k (SuspQ m)) \<and>
     sorted (map (\<lambda>t. current_priority (threads k t)) (lists k (SuspQ m))) \<and>
     (\<forall>t \<in> set (lists k (SuspQ m)). current_priority (threads k u) \<le> current_priority (threads k t))"

definition mutex_inv :: "nat \<Rightarrow> kernel \<Rightarrow> bool" where
  "mutex_inv m k \<longleftrightarrow> kinv k \<and> (mutex_free m k \<or> (\<exists>u. mutex_owned m u k))"

lemma mutex_owned_upd_error [simp]:
  "mutex_owned m u (upd_thread t (\<lambda>h. h\<lparr>th_error := e\<rparr>) k) = mutex_owned m u k"
proof -
  have pr: "current_priority (threads (upd_thread t (\<lambda>h. h\<lparr>th_error := e\<rparr>) k) s) =
      current_priority (threads k s)" for s by simp
  show ?thesis unfolding mutex_owned_def pr by (simp add: upd_thread_def)
qed

lemma rt_mutex_take_refines:
  assumes inv: "mutex_inv m k" and t: "in_thread k t" and time: "time < 2 ^ 31 - 1"
  obtains r k' where "rt_mutex_take m time k = Some (r, k')" "mutex_inv m k'"
    "(r, mutex_abs m k') = spec_lock t
       (wait_insert RT_IPC_FLAG_PRIO (\<lambda>u. current_priority (threads k u)) t) (time = 0) (mutex_abs m k)"
proof -
  note D = in_threadD [OF t]
  have ki: "kinv k" using inv by (simp add: mutex_inv_def)
  let ?k1 = "upd_thread t (\<lambda>h. h\<lparr>th_error := RT_EOK\<rparr>) k"
  have i1: "kinv ?k1" by (rule kinv_upd_error [OF ki])
  have st: "current_priority (threads k t) < 32"
    using sched_invD(3) [OF kinvD(2) [OF ki], of t] D(2) by (simp add: started_def)
  consider (free) "mutex_free m k" | (own) "mutex_owned m t k"
    | (other) u where "mutex_owned m u k" "u \<noteq> t"
    using inv by (auto simp: mutex_inv_def)
  then show thesis
  proof cases
    case free
    let ?k2 = "upd_mutex m (\<lambda>x. x\<lparr>mutex_value := 0, mutex_owner := Some t,
      original_priority := current_priority (threads k t), mutex_hold := 1\<rparr>) ?k1"
    show thesis
    proof (rule that [of "Ret RT_EOK" ?k2])
      show "rt_mutex_take m time k = Some (Ret RT_EOK, ?k2)"
        using free by (simp add: rt_mutex_take_def D mutex_free_def) (simp add: upd_mutex_def)
      have "mutex_owned m t ?k2" using free st by (simp add: mutex_owned_def mutex_free_def)
      then show "mutex_inv m ?k2" using i1 by (auto simp: mutex_inv_def)
    qed (use free in \<open>simp add: mutex_abs_def spec_lock_def mutex_free_def\<close>)
  next
    case own
    let ?full = "\<not> mutex_hold (mutexes k m) < RT_MUTEX_HOLD_MAX"
    let ?k2 = "if ?full then ?k1 else upd_mutex m (\<lambda>x. x\<lparr>mutex_hold := mutex_hold x + 1\<rparr>) ?k1"
    show thesis
    proof (rule that [of "if ?full then Ret (- RT_EFULL) else Ret RT_EOK" ?k2])
      show "rt_mutex_take m time k = Some (if ?full then Ret (- RT_EFULL) else Ret RT_EOK, ?k2)"
        using own by (simp add: rt_mutex_take_def D mutex_owned_def)
      have "mutex_owned m t ?k1" using own by simp
      then have "mutex_owned m t ?k2" by (simp add: mutex_owned_def del: upd_thread_simps(1))
      then show "mutex_inv m ?k2" using i1 by (auto simp: mutex_inv_def)
    qed (use own in \<open>simp add: mutex_abs_def spec_lock_def mutex_owned_def\<close>)
  next
    case other
    note O = other(1) [unfolded mutex_owned_def]
    show thesis
    proof (cases "time = 0")
      case True
      let ?k2 = "upd_thread t (\<lambda>h. h\<lparr>th_error := - RT_ETIMEOUT\<rparr>) ?k1"
      show thesis
      proof (rule that [of "Ret (- RT_ETIMEOUT)" ?k2])
        show "rt_mutex_take m time k = Some (Ret (- RT_ETIMEOUT), ?k2)"
          using O True other(2) by (simp add: rt_mutex_take_def D)
        have "mutex_owned m u ?k2" using other(1) by simp
        then show "mutex_inv m ?k2" using kinv_upd_error [OF i1] by (auto simp: mutex_inv_def)
      qed (use O True other(2) in \<open>simp add: mutex_abs_def spec_lock_def\<close>)
    next
      case False
      obtain k2 where k2: "(if current_priority (threads ?k1 t) < current_priority (threads ?k1 u)
          then change_priority u (current_priority (threads ?k1 t)) ?k1 else Some ?k1) = Some k2" "kinv k2"
        "current_priority (threads k2 u) \<le> current_priority (threads k t)"
        "current_priority (threads k2 u) \<le> current_priority (threads k u)"
        "\<And>s. s \<noteq> u \<Longrightarrow> threads k2 s = threads ?k1 s"
        "\<And>g. \<not> is_ready g \<Longrightarrow> lists k2 g = lists k g" "mutexes k2 = mutexes k"
        "current_thread k2 = current_thread k"
      proof (cases "current_priority (threads ?k1 t) < current_priority (threads ?k1 u)")
        case True
        have p32: "current_priority (threads ?k1 t) < 32" using st by simp
        obtain k2 where "change_priority u (current_priority (threads ?k1 t)) ?k1 = Some k2" "kinv k2"
          "current_priority (threads k2 u) = current_priority (threads ?k1 t)"
          "\<And>s. s \<noteq> u \<Longrightarrow> threads k2 s = threads ?k1 s"
          "\<And>g. \<not> is_ready g \<Longrightarrow> lists k2 g = lists ?k1 g" "mutexes k2 = mutexes ?k1"
          "current_thread k2 = current_thread ?k1"
          by (rule change_priority_ok [OF i1 p32, of u]) (rule that)
        then show thesis using True other(2) by (intro that [of k2]) simp_all
      next
        case f: False
        then show thesis using i1 other(2) by (intro that [of ?k1]) simp_all
      qed
      have c2: "current_thread k2 = Some t" "th_stat (threads k2 t) = RT_THREAD_RUNNING"
        using k2(5) [of t] k2(8) D other(2) by simp_all
      obtain k3 k' where k': "ipc_suspend_timed (SuspQ m) t RT_IPC_FLAG_PRIO time k2 = Some k3"
        "rt_schedule k3 = Some k'" "kinv k'" "threads k' t = (threads k2 t)\<lparr>th_stat := RT_THREAD_SUSPEND\<rparr>"
        "lists k' (SuspQ m) = wait_insert RT_IPC_FLAG_PRIO (\<lambda>s. current_priority (threads k2 s)) t (lists k2 (SuspQ m))"
        "\<And>s. s \<noteq> t \<Longrightarrow> same_tcb (threads k2 s) (threads k' s)" "mutexes k' = mutexes k2"
        by (rule ipc_block_ok [OF k2(2) c2 list_stat.simps(2) time]) (rule that)
      have pk: "current_priority (threads k' s) = current_priority (threads k2 s)" for s
        using k'(4) same_tcbD(1) [OF k'(6), of s] by (cases "s = t") simp_all
      have p2: "current_priority (threads k2 s) = current_priority (threads k s)" if "s \<noteq> u" for s
        using k2(5) [OF that] by simp
      have q: "lists k' (SuspQ m) = wait_insert RT_IPC_FLAG_PRIO (\<lambda>s. current_priority (threads k s)) t
          (lists k (SuspQ m))"
        unfolding k'(5) k2(6) [of "SuspQ m", simplified]
      proof (rule wait_insert_cong)
        fix s assume "s \<in> insert t (set (lists k (SuspQ m)))"
        then have "s \<noteq> u" using O other(2) by auto
        then show "current_priority (threads k2 s) = current_priority (threads k s)" by (rule p2)
      qed
      have sq: "set (lists k' (SuspQ m)) = insert t (set (lists k (SuspQ m)))"
        unfolding q by (rule set_wait_insert)
      have pq: "current_priority (threads k' s) = current_priority (threads k s)"
        if "s \<in> set (lists k' (SuspQ m))" for s
        using that O other(2) p2 [of s] unfolding sq pk by auto
      have sorted: "sorted (map (\<lambda>s. current_priority (threads k' s)) (lists k' (SuspQ m)))"
      proof -
        have "map (\<lambda>s. current_priority (threads k' s)) (lists k' (SuspQ m)) =
            map (\<lambda>s. current_priority (threads k s)) (lists k' (SuspQ m))"
          using pq by simp
        then show ?thesis unfolding q using sorted_wait_insert O by metis
      qed
      have own: "mutex_owned m u k'"
        unfolding mutex_owned_def
      proof (intro conjI ballI)
        fix s assume s: "s \<in> set (lists k' (SuspQ m))"
        have "current_priority (threads k2 u) \<le> current_priority (threads k s)"
          using s k2(3,4) O unfolding sq by fastforce
        then show "current_priority (threads k' u) \<le> current_priority (threads k' s)"
          using pq [OF s] unfolding pk [of u] by simp
      qed (use O k2(7) k'(7) sq sorted other(2) in simp_all)
      show thesis
      proof (rule that [of Blocked k'])
        show "rt_mutex_take m time k = Some (Blocked, k')"
          using False O other(2) k2(1) k'(1,2) by (simp add: rt_mutex_take_def D)
        show "mutex_inv m k'" using own k'(3) by (auto simp: mutex_inv_def)
      qed (use False O other(2) k2(7) k'(7) q in \<open>simp add: mutex_abs_def spec_lock_def\<close>)
    qed
  qed
qed

text \<open>
  Releasing: the last release gives the owner its old priority back and hands the mutex to the
  first waiting thread, which becomes ready, or frees it.
\<close>

lemma rt_mutex_release_refines:
  assumes inv: "mutex_inv m k" and t: "in_thread k t"
  obtains r k' where "rt_mutex_release m k = Some (r, k')" "mutex_inv m k'"
    "(r, mutex_abs m k') = spec_unlock t (mutex_abs m k)"
    "mutex_owner (mutexes k m) = Some t \<Longrightarrow> mutex_hold (mutexes k m) = 1 \<Longrightarrow>
       current_priority (threads k' t) = original_priority (mutexes k m)"
proof -
  note D = in_threadD [OF t]
  have ki: "kinv k" using inv by (simp add: mutex_inv_def)
  show thesis
  proof (cases "mutex_owner (mutexes k m) = Some t")
    case False
    let ?k2 = "upd_thread t (\<lambda>h. h\<lparr>th_error := - RT_ERROR\<rparr>) k"
    have free: "mutex_free m ?k2 = mutex_free m k" by (simp add: mutex_free_def)
    have "mutex_inv m ?k2"
      using inv kinv_upd_error [OF ki] unfolding mutex_inv_def free mutex_owned_upd_error by blast
    then show thesis
      using False by (intro that [of "- RT_ERROR" ?k2])
        (simp_all add: rt_mutex_release_def D mutex_abs_def spec_unlock_def)
  next
    case own: True
    then have O: "mutex_owned m t k"
      using inv by (auto simp: mutex_inv_def mutex_free_def mutex_owned_def)
    note O' = O [unfolded mutex_owned_def]
    let ?k1 = "upd_mutex m (\<lambda>x. x\<lparr>mutex_hold := (mutex_hold x + 255) mod 256\<rparr>) k"
    have hold: "(mutex_hold (mutexes k m) + 255) mod 256 = mutex_hold (mutexes k m) - 1"
    proof -
      have "mutex_hold (mutexes k m) + 255 = (mutex_hold (mutexes k m) - 1) + 256" using O' by linarith
      moreover have "mutex_hold (mutexes k m) - 1 < 256" using O' by linarith
      ultimately show ?thesis by (simp only: mod_add_self2 mod_less)
    qed
    show thesis
    proof (cases "mutex_hold (mutexes k m) = 1")
      case False
      have "mutex_owned m t ?k1" using O' False hold by (auto simp: mutex_owned_def)
      then show thesis
        using own False O' hold ki by (intro that [of RT_EOK ?k1])
          (auto simp: rt_mutex_release_def D mutex_abs_def spec_unlock_def mutex_inv_def)
    next
      case True
      have i1: "kinv ?k1" using ki by simp
      obtain k2 where k2: "(if original_priority (mutexes ?k1 m) \<noteq> current_priority (threads ?k1 t)
          then change_priority t (original_priority (mutexes ?k1 m)) ?k1 else Some ?k1) = Some k2" "kinv k2"
        "current_priority (threads k2 t) = original_priority (mutexes k m)"
        "\<And>u. u \<noteq> t \<Longrightarrow> threads k2 u = threads k u"
        "\<And>g. \<not> is_ready g \<Longrightarrow> lists k2 g = lists k g" "mutexes k2 = mutexes ?k1"
        "current_thread k2 = current_thread k"
      proof (cases "original_priority (mutexes ?k1 m) \<noteq> current_priority (threads ?k1 t)")
        case ne: True
        have p32: "original_priority (mutexes ?k1 m) < 32" using O' by simp
        obtain k2 where "change_priority t (original_priority (mutexes ?k1 m)) ?k1 = Some k2" "kinv k2"
          "current_priority (threads k2 t) = original_priority (mutexes ?k1 m)"
          "\<And>u. u \<noteq> t \<Longrightarrow> threads k2 u = threads ?k1 u"
          "\<And>g. \<not> is_ready g \<Longrightarrow> lists k2 g = lists ?k1 g" "mutexes k2 = mutexes ?k1"
          "current_thread k2 = current_thread ?k1"
          by (rule change_priority_ok [OF i1 p32, of t]) (rule that)
        then show thesis using ne by (intro that [of k2]) simp_all
      next
        case f: False
        then show thesis using i1 by (intro that [of ?k1]) simp_all
      qed
      have q2: "lists k2 (SuspQ m) = lists k (SuspQ m)" using k2(5) by simp
      have h2: "mutex_hold (mutexes k2 m) = 0" "mutex_value (mutexes k2 m) = 0"
        using k2(6) True O' by simp_all
      show thesis
      proof (cases "lists k (SuspQ m)")
        case Nil
        let ?k3 = "upd_mutex m (\<lambda>x. x\<lparr>mutex_value := mutex_value x + 1, mutex_owner := None,
          original_priority := 255\<rparr>) k2"
        show thesis
        proof (rule that [of RT_EOK ?k3])
          show "rt_mutex_release m k = Some (RT_EOK, ?k3)"
            unfolding rt_mutex_release_def D rt_assert_def
            using own True k2(1) q2 Nil h2 by (simp add: D l_isempty_def)
          show "mutex_inv m ?k3" using k2(2) h2 q2 Nil by (simp add: mutex_inv_def mutex_free_def)
        qed (use own True Nil q2 h2 k2(3) in \<open>simp_all add: mutex_abs_def spec_unlock_def\<close>)
      next
        case (Cons u us)
        have uq: "u \<in> set (lists k (SuspQ m))" "u \<noteq> t" using Cons O' by auto
        have du: "u \<notin> set us" "distinct us"
          using wf_listsD(1) [OF sched_invD(1) [OF kinvD(2) [OF ki]], of "SuspQ m"] Cons by simp_all
        let ?k3 = "upd_mutex m (\<lambda>x. x\<lparr>mutex_owner := Some u,
          original_priority := current_priority (threads k2 u), mutex_hold := 1\<rparr>) k2"
        have q3: "lists ?k3 (SuspQ m) = u # us" "kinv ?k3" using q2 Cons k2(2) by simp_all
        obtain k4 where k4: "ipc_list_resume (SuspQ m) ?k3 = Some k4" "kinv k4" "lists k4 (SuspQ m) = us"
          "threads k4 = (threads ?k3)(u := (threads ?k3 u)\<lparr>th_stat :=
             if current_thread ?k3 = Some u then RT_THREAD_RUNNING else RT_THREAD_READY\<rparr>)"
          "mutexes k4 = mutexes ?k3"
          by (rule ipc_list_resume_ok [OF q3(2,1) list_stat.simps(2)]) (rule that)
        obtain k' where k': "rt_schedule k4 = Some k'" "kinv k'" "\<And>s. same_tcb (threads k4 s) (threads k' s)"
          "\<And>g. \<not> is_ready g \<Longrightarrow> lists k' g = lists k4 g"
          by (rule kinv_schedule [OF k4(2)]) (rule that)
        have q': "lists k' (SuspQ m) = us" using k'(4) [of "SuspQ m"] k4(3) by simp
        have m': "mutexes k' = mutexes ?k3" using rt_schedule_frame(9) [OF k'(1)] k4(5) by simp
        have pk: "current_priority (threads k' s) = current_priority (threads k2 s)" for s
          using same_tcbD(1) [OF k'(3) [of s]] by (simp add: k4(4))
        have pq: "current_priority (threads k' s) = current_priority (threads k s)" if "s \<noteq> t" for s
          using k2(4) [OF that] by (simp add: pk)
        have nt: "t \<notin> set us" using O' Cons by simp
        have srt: "sorted (map (\<lambda>s. current_priority (threads k s)) (u # us))" using O' Cons by simp
        have "original_priority (mutexes k' m) < 32"
          using sched_invD(3) [OF kinvD(2) [OF ki], of u] sched_invD(4) [OF kinvD(2) [OF ki] uq(1)]
            k2(4) [OF uq(2)] m' by (simp add: started_def)
        moreover have "sorted (map (\<lambda>s. current_priority (threads k' s)) us)"
        proof -
          have "map (\<lambda>s. current_priority (threads k' s)) us = map (\<lambda>s. current_priority (threads k s)) us"
          proof (intro map_cong refl)
            fix s assume "s \<in> set us"
            then have "s \<noteq> t" using nt by auto
            then show "current_priority (threads k' s) = current_priority (threads k s)" by (rule pq)
          qed
          moreover have "sorted (map (\<lambda>s. current_priority (threads k s)) us)" using srt by simp
          ultimately show ?thesis by (simp only:)
        qed
        moreover have "current_priority (threads k' u) \<le> current_priority (threads k' s)" if "s \<in> set us" for s
        proof -
          have "s \<noteq> t" using that nt by auto
          then show ?thesis using pq [OF uq(2)] pq [of s] srt that by simp
        qed
        ultimately have own': "mutex_owned m u k'"
          using m' q' du h2 by (simp add: mutex_owned_def)
        have e3: "upd_mutex m (\<lambda>x. x\<lparr>mutex_hold := Suc (mutex_hold x)\<rparr>) (upd_mutex m (\<lambda>x. x\<lparr>mutex_owner := Some u,
            original_priority := current_priority (threads k2 u)\<rparr>) k2) = ?k3"
          using h2 by (simp add: upd_mutex_def)
        show thesis
        proof (rule that [of RT_EOK k'])
          show "rt_mutex_release m k = Some (RT_EOK, k')"
            unfolding rt_mutex_release_def D rt_assert_def
            using own True k2(1) q2 Cons h2 k4(1) k'(1) by (simp add: D l_isempty_def e3)
          show "mutex_inv m k'" using own' k'(2) by (auto simp: mutex_inv_def)
          show "current_priority (threads k' t) = original_priority (mutexes k m)"
            by (simp only: pk k2(3))
        qed (use own True Cons q' m' in \<open>simp add: mutex_abs_def spec_unlock_def\<close>)
      qed
    qed
  qed
qed

subsection \<open>Ownership without the priorities\<close>

text \<open>
  A thread that holds two mutexes, or whose priority changes while it waits, breaks the priority part
  of \<open>mutex_owned\<close>: the code restores the priority the owner had when it took the mutex it releases,
  and does not move a waiting thread whose priority changes. The ownership part survives all calls.
\<close>

definition mutex_safe :: "nat \<Rightarrow> kernel \<Rightarrow> bool" where
  "mutex_safe m k \<longleftrightarrow> mutex_free m k \<or>
     (\<exists>u. mutex_owner (mutexes k m) = Some u \<and> mutex_value (mutexes k m) = 0 \<and>
        0 < mutex_hold (mutexes k m) \<and> mutex_hold (mutexes k m) \<le> RT_MUTEX_HOLD_MAX \<and>
        original_priority (mutexes k m) < 32 \<and> u \<notin> set (lists k (SuspQ m)))"

lemma mutex_safe_ownedI:
  "mutex_owner (mutexes k m) = Some u \<Longrightarrow> mutex_value (mutexes k m) = 0 \<Longrightarrow> 0 < mutex_hold (mutexes k m) \<Longrightarrow>
   mutex_hold (mutexes k m) \<le> RT_MUTEX_HOLD_MAX \<Longrightarrow> original_priority (mutexes k m) < 32 \<Longrightarrow>
   u \<notin> set (lists k (SuspQ m)) \<Longrightarrow> mutex_safe m k"
  by (auto simp: mutex_safe_def)

lemma mutex_inv_safe: "mutex_inv m k \<Longrightarrow> mutex_safe m k"
  by (auto simp: mutex_inv_def mutex_safe_def mutex_owned_def)

lemma mutex_safe_cong:
  "mutexes k' m = mutexes k m \<Longrightarrow> set (lists k' (SuspQ m)) \<subseteq> set (lists k (SuspQ m)) \<Longrightarrow>
   mutex_safe m k \<Longrightarrow> mutex_safe m k'"
  by (auto simp: mutex_safe_def mutex_free_def)

lemma maybe_change_priority:
  assumes inv: "kinv k" and p: "p < 32"
  obtains k' where "(if b then change_priority u p k else Some k) = Some k'" "kinv k'" "mutexes k' = mutexes k"
    "current_thread k' = current_thread k" "\<And>g. \<not> is_ready g \<Longrightarrow> lists k' g = lists k g"
    "\<And>s. s \<noteq> u \<Longrightarrow> threads k' s = threads k s"
    "th_stat (threads k u) = RT_THREAD_RUNNING \<Longrightarrow> th_stat (threads k' u) = RT_THREAD_RUNNING"
proof (cases b)
  case True
  obtain k' where "change_priority u p k = Some k'" "kinv k'" "mutexes k' = mutexes k"
    "current_thread k' = current_thread k" "\<And>g. \<not> is_ready g \<Longrightarrow> lists k' g = lists k g"
    "\<And>s. s \<noteq> u \<Longrightarrow> threads k' s = threads k s"
    "th_stat (threads k u) = RT_THREAD_RUNNING \<Longrightarrow> th_stat (threads k' u) = RT_THREAD_RUNNING"
    by (rule change_priority_ok [OF inv p, of u]) (rule that)
  then show thesis using True that by simp
next
  case False
  then show thesis using inv that by simp
qed

lemma rt_mutex_take_safe:
  assumes ki: "kinv k" and safe: "mutex_safe m k" and t: "in_thread k t" and time: "time < 2 ^ 31 - 1"
  obtains r k' where "rt_mutex_take m time k = Some (r, k')" "kinv k'" "mutex_safe m k'"
    "r = Ret RT_EOK \<longleftrightarrow> mutex_owner (mutexes k' m) = Some t \<and> mutex_hold (mutexes k' m) = mutex_hold (mutexes k m) + 1"
proof -
  note D = in_threadD [OF t]
  let ?k1 = "upd_thread t (\<lambda>h. h\<lparr>th_error := RT_EOK\<rparr>) k"
  have i1: "kinv ?k1" by (rule kinv_upd_error [OF ki])
  have st: "current_priority (threads k t) < 32"
    using sched_invD(3) [OF kinvD(2) [OF ki], of t] D(2) by (simp add: started_def)
  have s1: "mutex_safe m ?k1" by (rule mutex_safe_cong [OF _ _ safe]) simp_all
  consider (free) "mutex_free m k"
    | (own) "mutex_owner (mutexes k m) = Some t" "mutex_value (mutexes k m) = 0"
    | (other) u where "mutex_owner (mutexes k m) = Some u" "mutex_value (mutexes k m) = 0" "u \<noteq> t"
    using safe by (auto simp: mutex_safe_def)
  then show thesis
  proof cases
    case free
    let ?k2 = "upd_mutex m (\<lambda>x. x\<lparr>mutex_value := 0, mutex_owner := Some t,
      original_priority := current_priority (threads k t), mutex_hold := 1\<rparr>) ?k1"
    have "rt_mutex_take m time k = Some (Ret RT_EOK, ?k2)"
      using free by (simp add: rt_mutex_take_def D mutex_free_def) (simp add: upd_mutex_def)
    moreover have "mutex_safe m ?k2"
      by (rule mutex_safe_ownedI [of _ _ t]) (use free st in \<open>simp_all add: mutex_free_def\<close>)
    ultimately show thesis using i1 free by (intro that [of "Ret RT_EOK" ?k2]) (simp_all add: mutex_free_def)
  next
    case own
    note O = safe [unfolded mutex_safe_def]
    let ?full = "\<not> mutex_hold (mutexes k m) < RT_MUTEX_HOLD_MAX"
    show thesis
    proof (cases ?full)
      case True
      have "rt_mutex_take m time k = Some (Ret (- RT_EFULL), ?k1)"
        using own True by (simp add: rt_mutex_take_def D)
      then show thesis using i1 s1 by (intro that [of "Ret (- RT_EFULL)" ?k1]) simp_all
    next
      case False
      let ?k2 = "upd_mutex m (\<lambda>x. x\<lparr>mutex_hold := mutex_hold x + 1\<rparr>) ?k1"
      have "rt_mutex_take m time k = Some (Ret RT_EOK, ?k2)"
        using own False by (simp add: rt_mutex_take_def D)
      moreover have "mutex_safe m ?k2"
        by (rule mutex_safe_ownedI [of _ _ t]) (use own O False in \<open>auto simp: mutex_free_def\<close>)
      ultimately show thesis using i1 own by (intro that [of "Ret RT_EOK" ?k2]) simp_all
    qed
  next
    case other
    show thesis
    proof (cases "time = 0")
      case True
      let ?k2 = "upd_thread t (\<lambda>h. h\<lparr>th_error := - RT_ETIMEOUT\<rparr>) ?k1"
      have "rt_mutex_take m time k = Some (Ret (- RT_ETIMEOUT), ?k2)"
        using other True by (simp add: rt_mutex_take_def D)
      moreover have "mutex_safe m ?k2" by (rule mutex_safe_cong [OF _ _ s1]) simp_all
      ultimately show thesis
        using kinv_upd_error [OF i1] by (intro that [of "Ret (- RT_ETIMEOUT)" ?k2]) simp_all
    next
      case False
      have p: "current_priority (threads ?k1 t) < 32" using st by simp
      obtain k2 where k2: "(if current_priority (threads ?k1 t) < current_priority (threads ?k1 u)
          then change_priority u (current_priority (threads ?k1 t)) ?k1 else Some ?k1) = Some k2" "kinv k2"
        "mutexes k2 = mutexes ?k1" "current_thread k2 = current_thread ?k1"
        "\<And>g. \<not> is_ready g \<Longrightarrow> lists k2 g = lists ?k1 g" "\<And>s. s \<noteq> u \<Longrightarrow> threads k2 s = threads ?k1 s"
        by (rule maybe_change_priority [OF i1 p, of _ u]) (rule that)
      have c2: "current_thread k2 = Some t" "th_stat (threads k2 t) = RT_THREAD_RUNNING"
        using k2(4) k2(6) [of t] D other(3) by simp_all
      obtain k3 k' where k': "ipc_suspend_timed (SuspQ m) t RT_IPC_FLAG_PRIO time k2 = Some k3"
        "rt_schedule k3 = Some k'" "kinv k'"
        "lists k' (SuspQ m) = wait_insert RT_IPC_FLAG_PRIO (\<lambda>s. current_priority (threads k2 s)) t (lists k2 (SuspQ m))"
        "mutexes k' = mutexes k2"
        by (rule ipc_block_ok [OF k2(2) c2 list_stat.simps(2) time]) (rule that)
      have "rt_mutex_take m time k = Some (Blocked, k')"
        using False other k2(1) k'(1,2) by (simp add: rt_mutex_take_def D)
      moreover have "mutex_safe m k'"
        by (rule mutex_safe_ownedI [of _ _ u])
          (use safe other k2(3,5) k'(4,5) in \<open>auto simp: mutex_safe_def mutex_free_def set_wait_insert\<close>)
      ultimately show thesis using k'(3,5) k2(3) other by (intro that [of Blocked k']) simp_all
    qed
  qed
qed

lemma rt_mutex_release_safe:
  assumes ki: "kinv k" and safe: "mutex_safe m k" and t: "in_thread k t"
  obtains r k' where "rt_mutex_release m k = Some (r, k')" "kinv k'" "mutex_safe m k'"
    "mutex_owner (mutexes k m) \<noteq> Some t \<Longrightarrow> r = - RT_ERROR \<and> mutexes k' = mutexes k"
proof -
  note D = in_threadD [OF t]
  show thesis
  proof (cases "mutex_owner (mutexes k m) = Some t")
    case False
    let ?k2 = "upd_thread t (\<lambda>h. h\<lparr>th_error := - RT_ERROR\<rparr>) k"
    have "mutex_safe m ?k2" by (rule mutex_safe_cong [OF _ _ safe]) simp_all
    then show thesis
      using False kinv_upd_error [OF ki] by (intro that [of "- RT_ERROR" ?k2]) (simp_all add: rt_mutex_release_def D)
  next
    case own: True
    then have O: "mutex_value (mutexes k m) = 0" "0 < mutex_hold (mutexes k m)"
      "mutex_hold (mutexes k m) \<le> RT_MUTEX_HOLD_MAX" "original_priority (mutexes k m) < 32"
      "t \<notin> set (lists k (SuspQ m))"
      using safe by (auto simp: mutex_safe_def mutex_free_def)
    let ?k1 = "upd_mutex m (\<lambda>x. x\<lparr>mutex_hold := (mutex_hold x + 255) mod 256\<rparr>) k"
    have hold: "(mutex_hold (mutexes k m) + 255) mod 256 = mutex_hold (mutexes k m) - 1"
    proof -
      have "mutex_hold (mutexes k m) + 255 = (mutex_hold (mutexes k m) - 1) + 256" using O by linarith
      moreover have "mutex_hold (mutexes k m) - 1 < 256" using O by linarith
      ultimately show ?thesis by (simp only: mod_add_self2 mod_less)
    qed
    show thesis
    proof (cases "mutex_hold (mutexes k m) = 1")
      case False
      have "mutex_safe m ?k1"
        by (rule mutex_safe_ownedI [of _ _ t]) (use O own False hold in auto)
      then show thesis
        using own False O hold ki by (intro that [of RT_EOK ?k1]) (auto simp: rt_mutex_release_def D)
    next
      case True
      have i1: "kinv ?k1" using ki by simp
      have p: "original_priority (mutexes ?k1 m) < 32" using O by simp
      obtain k2 where k2: "(if original_priority (mutexes ?k1 m) \<noteq> current_priority (threads ?k1 t)
          then change_priority t (original_priority (mutexes ?k1 m)) ?k1 else Some ?k1) = Some k2" "kinv k2"
        "mutexes k2 = mutexes ?k1" "\<And>g. \<not> is_ready g \<Longrightarrow> lists k2 g = lists ?k1 g"
        by (rule maybe_change_priority [OF i1 p, of _ t]) (rule that)
      have q2: "lists k2 (SuspQ m) = lists k (SuspQ m)" using k2(4) by simp
      have h2: "mutex_hold (mutexes k2 m) = 0" "mutex_value (mutexes k2 m) = 0"
        using k2(3) True O by simp_all
      show thesis
      proof (cases "lists k (SuspQ m)")
        case Nil
        let ?k3 = "upd_mutex m (\<lambda>x. x\<lparr>mutex_value := mutex_value x + 1, mutex_owner := None,
          original_priority := 255\<rparr>) k2"
        have "rt_mutex_release m k = Some (RT_EOK, ?k3)"
          unfolding rt_mutex_release_def D rt_assert_def
          using own True k2(1) q2 Nil h2 by (simp add: D l_isempty_def)
        moreover have "mutex_safe m ?k3" using h2 q2 Nil by (simp add: mutex_safe_def mutex_free_def)
        ultimately show thesis using k2(2) own by (intro that [of RT_EOK ?k3]) simp_all
      next
        case (Cons u us)
        have du: "u \<notin> set us"
          using wf_listsD(1) [OF sched_invD(1) [OF kinvD(2) [OF ki]], of "SuspQ m"] Cons by simp
        let ?k3 = "upd_mutex m (\<lambda>x. x\<lparr>mutex_owner := Some u,
          original_priority := current_priority (threads k2 u), mutex_hold := 1\<rparr>) k2"
        have q3: "lists ?k3 (SuspQ m) = u # us" "kinv ?k3" using q2 Cons k2(2) by simp_all
        have "u \<in> set (lists k2 (SuspQ m))" using q2 Cons by simp
        then have "th_stat (threads k2 u) = RT_THREAD_SUSPEND"
          using sched_invD(4) [OF kinvD(2) [OF k2(2)], of u "SuspQ m"] by simp
        then have p3: "current_priority (threads k2 u) < 32"
          using sched_invD(3) [OF kinvD(2) [OF k2(2)], of u] by (simp add: started_def)
        obtain k4 where k4: "ipc_list_resume (SuspQ m) ?k3 = Some k4" "kinv k4" "lists k4 (SuspQ m) = us"
          "mutexes k4 = mutexes ?k3"
          by (rule ipc_list_resume_ok [OF q3(2,1) list_stat.simps(2)]) (rule that)
        obtain k' where k': "rt_schedule k4 = Some k'" "kinv k'" "\<And>g. \<not> is_ready g \<Longrightarrow> lists k' g = lists k4 g"
          by (rule kinv_schedule [OF k4(2)]) (rule that)
        have m': "mutexes k' = mutexes ?k3" using rt_schedule_frame(9) [OF k'(1)] k4(4) by simp
        have k3: "upd_mutex m (\<lambda>x. x\<lparr>mutex_hold := mutex_hold x + 1\<rparr>)
            (upd_mutex m (\<lambda>x. x\<lparr>mutex_owner := Some u, original_priority := current_priority (threads k2 u)\<rparr>) k2) = ?k3"
          using h2 by (simp add: upd_mutex_def)
        have "rt_mutex_release m k = Some (RT_EOK, k')"
          unfolding rt_mutex_release_def D rt_assert_def
          using own True k2(1) q2 Cons h2 k4(1) k'(1) k3 by (simp add: D l_isempty_def)
        moreover have "mutex_safe m k'"
          by (rule mutex_safe_ownedI [of _ _ u])
            (use m' k'(3) [of "SuspQ m"] k4(3) du h2 p3 in simp_all)
        ultimately show thesis using k'(2) own by (intro that [of RT_EOK k']) simp_all
      qed
    qed
  qed
qed

end
