(* ===== verification/Kheap.thy ===== *)
theory Kheap
  imports Smem Kmem Ipc_Mutex
begin

text \<open>
  The heap of the system (\<open>rt_malloc\<close> and its relatives in kservice.c): the small memory allocator
  behind a mutex. It is shown that a call with the lock free or held by its caller does what the allocator
  does and leaves the lock as it was, that a caller who finds the lock taken waits and touches
  nothing, and that the aligned blocks are aligned, inside the block allocated for them, and released with it.
\<close>

unbundle bit_operations_syntax

subsection \<open>The bytes of the heap as memory\<close>

definition heap_view :: "smem \<Rightarrow> mem" where
  "heap_view h = (\<lambda>a. if heap_ptr h \<le> a \<and> a < heap_ptr h + heap_end h then Some (cells h (a - heap_ptr h)) else None)"

definition heap_put :: "mem \<Rightarrow> smem \<Rightarrow> smem" where
  "heap_put m h = h\<lparr>cells := (\<lambda>p. case m (heap_ptr h + p) of Some b \<Rightarrow> b | None \<Rightarrow> cells h p)\<rparr>"

definition on_heap :: "(mem \<Rightarrow> mem option) \<Rightarrow> smem \<Rightarrow> smem option" where
  "on_heap f h = map_option (\<lambda>m. heap_put m h) (f (heap_view h))"

subsection \<open>The lock\<close>

text \<open>
  \<open>l\<close> is the static mutex of the heap. A call is cut where the mutex blocks; \<open>f\<close> is what it does
  with the allocator.
\<close>

definition heap_lock_init :: "nat \<Rightarrow> kernel \<Rightarrow> kernel" where
  "heap_lock_init l k = snd (rt_mutex_init l k)"

definition heap_lock :: "nat \<Rightarrow> kernel \<Rightarrow> (int ret \<times> kernel) option" where
  "heap_lock l k =
     (if rt_thread_self k \<noteq> None then rt_mutex_take l RT_WAITING_FOREVER k else Some (Ret RT_EOK, k))"

definition heap_unlock :: "nat \<Rightarrow> int \<Rightarrow> kernel \<Rightarrow> kernel option" where
  "heap_unlock l level k = do {
     _ \<leftarrow> rt_assert (level = RT_EOK);
     if rt_thread_self k \<noteq> None then map_option snd (rt_mutex_release l k) else Some k }"

type_synonym 'a heap_op = "smem \<Rightarrow> ('a \<times> smem) option"

definition heap_locked :: "nat \<Rightarrow> int \<Rightarrow> 'a heap_op \<Rightarrow> kernel \<Rightarrow> smem \<Rightarrow> ('a ret \<times> kernel \<times> smem) option" where
  "heap_locked l level f k h = do {
     (x, h) \<leftarrow> f h;
     k \<leftarrow> heap_unlock l level k;
     Some (Ret x, k, h) }"

definition heap_call :: "nat \<Rightarrow> 'a heap_op \<Rightarrow> kernel \<Rightarrow> smem \<Rightarrow> ('a ret \<times> kernel \<times> smem) option" where
  "heap_call l f k h = do {
     (r, k) \<leftarrow> heap_lock l k;
     case r of Blocked \<Rightarrow> Some (Blocked, k, h) | Ret level \<Rightarrow> heap_locked l level f k h }"

text \<open>A blocked call goes on when its thread \<open>t\<close> runs again.\<close>

definition heap_call_resume :: "nat \<Rightarrow> nat \<Rightarrow> 'a heap_op \<Rightarrow> kernel \<Rightarrow> smem \<Rightarrow> ('a ret \<times> kernel \<times> smem) option" where
  "heap_call_resume l t f k h = heap_locked l (rt_mutex_take_resume t k) f k h"

subsection \<open>Operations\<close>

definition rt_system_heap_init :: "nat \<Rightarrow> nat \<Rightarrow> nat \<Rightarrow> (nat \<Rightarrow> byte) \<Rightarrow> kernel \<Rightarrow> (smem option \<times> kernel) option" where
  "rt_system_heap_init l begin_addr end_addr mem k = do {
     let begin_align = RT_ALIGN begin_addr RT_ALIGN_SIZE;
     let end_align = RT_ALIGN_DOWN end_addr RT_ALIGN_SIZE;
     _ \<leftarrow> rt_assert (end_align > begin_align);
     Some (rt_smem_init begin_addr (end_align - begin_align) mem, heap_lock_init l k) }"

definition rt_malloc :: "nat \<Rightarrow> nat \<Rightarrow> kernel \<Rightarrow> smem \<Rightarrow> (nat option ret \<times> kernel \<times> smem) option" where
  "rt_malloc l sz = heap_call l (rt_smem_alloc sz)"

definition rt_realloc :: "nat \<Rightarrow> nat option \<Rightarrow> nat \<Rightarrow> kernel \<Rightarrow> smem \<Rightarrow> (nat option ret \<times> kernel \<times> smem) option" where
  "rt_realloc l rmem newsize = heap_call l (rt_smem_realloc rmem newsize)"

definition rt_free :: "nat \<Rightarrow> nat option \<Rightarrow> kernel \<Rightarrow> smem \<Rightarrow> (unit ret \<times> kernel \<times> smem) option" where
  "rt_free l rmem = heap_call l (\<lambda>h. map_option (Pair ()) (rt_smem_free rmem h))"

text \<open>Total, used and largest use.\<close>

definition rt_memory_info :: "nat \<Rightarrow> kernel \<Rightarrow> smem \<Rightarrow> ((nat \<times> nat \<times> nat) ret \<times> kernel \<times> smem) option" where
  "rt_memory_info l = heap_call l (\<lambda>h. Some ((mem_size_aligned h, mem_used h, mem_max h), h))"

text \<open>What \<open>rt_calloc\<close> and \<open>rt_malloc_align\<close> do with the result of \<open>rt_malloc\<close>, also of one that had to wait.\<close>

definition after_malloc ::
    "(nat \<Rightarrow> smem \<Rightarrow> (nat \<times> smem) option) \<Rightarrow> nat option ret \<times> kernel \<times> smem \<Rightarrow> (nat option ret \<times> kernel \<times> smem) option" where
  "after_malloc f x = (case x of
       (Ret (Some p), k, h) \<Rightarrow> do { (p, h) \<leftarrow> f p h; Some (Ret (Some p), k, h) }
     | _ \<Rightarrow> Some x)"

definition calloc_clear :: "nat \<Rightarrow> nat \<Rightarrow> smem \<Rightarrow> (nat \<times> smem) option" where
  "calloc_clear n p h = do { h \<leftarrow> on_heap (rt_memset p 0 n) h; Some (p, h) }"

definition rt_calloc :: "nat \<Rightarrow> nat \<Rightarrow> nat \<Rightarrow> kernel \<Rightarrow> smem \<Rightarrow> (nat option ret \<times> kernel \<times> smem) option" where
  "rt_calloc l cnt sz k h =
     (let n = (cnt * sz) mod 2 ^ 32
      in do { r \<leftarrow> rt_malloc l n k h; after_malloc (calloc_clear n) r })"

definition aligned_ptr :: "u32 \<Rightarrow> u32 \<Rightarrow> u32" where
  "aligned_ptr ptr align =
     (if ptr AND (align - 1) = 0 then ptr + align else (ptr + (align - 1)) AND NOT (align - 1))"

definition set_aligned :: "u32 \<Rightarrow> nat \<Rightarrow> smem \<Rightarrow> (nat \<times> smem) option" where
  "set_aligned align ptr h = do {
     let align_ptr = aligned_ptr (word_of_nat ptr) align;
     h \<leftarrow> on_heap (store_word (unat (align_ptr - 4)) (word_of_nat ptr)) h;
     Some (unat align_ptr, h) }"

definition rt_malloc_align :: "nat \<Rightarrow> u32 \<Rightarrow> u32 \<Rightarrow> kernel \<Rightarrow> smem \<Rightarrow> (nat option ret \<times> kernel \<times> smem) option" where
  "rt_malloc_align l sz align k h =
     (let align = (align + 3) AND NOT 3;
          align_size = ((sz + 3) AND NOT 3) + align
      in do { r \<leftarrow> rt_malloc l (unat align_size) k h; after_malloc (set_aligned align) r })"

definition rt_free_align :: "nat \<Rightarrow> nat \<Rightarrow> kernel \<Rightarrow> smem \<Rightarrow> (unit ret \<times> kernel \<times> smem) option" where
  "rt_free_align l ptr k h = do {
     real_ptr \<leftarrow> load_word (ptr - 4) (heap_view h);
     rt_free l (Some (unat real_ptr)) k h }"

subsection \<open>The view\<close>

lemma heap_put_view [simp]: "heap_put (heap_view h) h = h"
proof -
  have "(\<lambda>p. case heap_view h (heap_ptr h + p) of Some b \<Rightarrow> b | None \<Rightarrow> cells h p) = cells h"
    by (rule ext) (simp add: heap_view_def)
  then show ?thesis by (simp add: heap_put_def)
qed

lemma heap_view_put: "dom m = dom (heap_view h) \<Longrightarrow> heap_view (heap_put m h) = m"
proof (rule ext)
  fix a assume d: "dom m = dom (heap_view h)"
  have v: "heap_view h a = None \<longleftrightarrow> \<not> (heap_ptr h \<le> a \<and> a < heap_ptr h + heap_end h)" by (simp add: heap_view_def)
  have "m a = None \<longleftrightarrow> heap_view h a = None" using d by (metis domIff)
  then show "heap_view (heap_put m h) a = m a"
    unfolding v by (auto simp: heap_view_def heap_put_def split: option.split)
qed

lemma heap_view_same: "same_heap h h' \<Longrightarrow> cells h' = cells h \<Longrightarrow> heap_view h' = heap_view h"
  by (simp add: heap_view_def same_heap_def fun_eq_iff)

lemma dom_heap_view [simp]: "dom (heap_view h) = {heap_ptr h..<heap_ptr h + heap_end h}"
  by (auto simp: heap_view_def split: if_splits)

text \<open>The copy of \<open>rt_smem_realloc\<close> is \<open>rt_memcpy\<close> between two blocks.\<close>

lemma smem_copy_is_memcpy:
  assumes "dst + n \<le> heap_end h" "src + n \<le> heap_end h" "dst + n \<le> src \<or> src + n \<le> dst"
  shows "on_heap (rt_memcpy (heap_ptr h + dst) (heap_ptr h + src) n) h = Some (smem_copy dst src n h)"
proof -
  have "rt_memcpy (heap_ptr h + dst) (heap_ptr h + src) n (heap_view h) =
      Some (moved (heap_ptr h + dst) (heap_ptr h + src) n (heap_view h))"
    by (rule rt_memcpy_ok) (use assms in \<open>auto simp: mapped_def\<close>)
  moreover have "heap_put (moved (heap_ptr h + dst) (heap_ptr h + src) n (heap_view h)) h = smem_copy dst src n h"
  proof -
    have "(case moved (heap_ptr h + dst) (heap_ptr h + src) n (heap_view h) (heap_ptr h + p) of
        Some b \<Rightarrow> b | None \<Rightarrow> cells h p) = (if dst \<le> p \<and> p < dst + n then cells h (src + (p - dst)) else cells h p)" for p
      using assms by (auto simp: moved_def heap_view_def)
    then show ?thesis by (simp add: heap_put_def smem_copy_def)
  qed
  ultimately show ?thesis by (simp add: on_heap_def)
qed

text \<open>The allocator never looks at the bytes.\<close>

lemma smem_rep_put [simp]: "smem_rep (heap_put m h) bs = smem_rep h bs"
  by (simp add: heap_put_def)

subsection \<open>Calls behind the lock\<close>

text \<open>
  The caller may go on when nobody holds the lock, or when it does itself and can count up
  once more. Then the call is the allocator's, and the lock is what it was.
\<close>

definition lock_open :: "nat \<Rightarrow> nat \<Rightarrow> kernel \<Rightarrow> bool" where
  "lock_open l t k \<longleftrightarrow> mutex_owner (mutexes k l) = None \<or>
     mutex_owner (mutexes k l) = Some t \<and> mutex_hold (mutexes k l) < RT_MUTEX_HOLD_MAX"

definition lock_kept :: "nat \<Rightarrow> nat \<Rightarrow> kernel \<Rightarrow> kernel \<Rightarrow> bool" where
  "lock_kept l t k k' \<longleftrightarrow> mutex_inv l k' \<and> in_thread k' t \<and> mutex_abs l k' = mutex_abs l k \<and>
     lists k' = lists k \<and> (\<forall>m. m \<noteq> l \<longrightarrow> mutexes k' m = mutexes k m)"

lemma lock_kept_open: "lock_kept l t k k' \<Longrightarrow> lock_open l t k' = lock_open l t k"
  by (simp add: lock_kept_def lock_open_def mutex_abs_def)

lemma lock_kept_trans: "lock_kept l t k k' \<Longrightarrow> lock_kept l t k' k'' \<Longrightarrow> lock_kept l t k k''"
  by (simp add: lock_kept_def)

lemma heap_lock_unlock:
  assumes inv: "mutex_inv l k" and t: "in_thread k t" and op: "lock_open l t k"
  obtains k1 k2 where "heap_lock l k = Some (Ret RT_EOK, k1)" "heap_unlock l RT_EOK k1 = Some k2" "lock_kept l t k k2"
proof -
  note D = in_threadD [OF t]
  let ?k = "upd_thread t (\<lambda>h. h\<lparr>th_error := RT_EOK\<rparr>) k"
  have ki: "kinv ?k" using inv by (intro kinv_upd_error) (simp add: mutex_inv_def)
  have th: "in_thread ?k t" using t by (simp add: in_thread_def upd_thread_def)
  consider (free) "mutex_free l k" | (own) "mutex_owned l t k" "mutex_hold (mutexes k l) < RT_MUTEX_HOLD_MAX"
  proof (cases "mutex_free l k")
    case False
    then obtain u where u: "mutex_owned l u k" using inv by (auto simp: mutex_inv_def)
    then have "mutex_owner (mutexes k l) = Some u" by (simp add: mutex_owned_def)
    then have "u = t" "mutex_hold (mutexes k l) < RT_MUTEX_HOLD_MAX" using op by (auto simp: lock_open_def)
    then show thesis using u own by simp
  qed (rule free)
  then show thesis
  proof cases
    case free
    define k1 where "k1 = upd_mutex l (\<lambda>x. x\<lparr>mutex_value := 0, mutex_owner := Some t,
        original_priority := current_priority (threads k t), mutex_hold := 1\<rparr>) ?k"
    define k2 where "k2 = upd_mutex l (\<lambda>x. x\<lparr>mutex_value := 1, mutex_owner := None, original_priority := 255,
        mutex_hold := 0\<rparr>) k1"
    have take: "rt_mutex_take l RT_WAITING_FOREVER k = Some (Ret RT_EOK, k1)"
      using free by (simp add: rt_mutex_take_def D mutex_free_def Let_def k1_def upd_mutex_def)
    have "in_thread k1 t" using th by (simp add: in_thread_def k1_def)
    note D1 = in_threadD [OF this]
    have k1: "mutexes k1 l = \<lparr>mutex_value = 0, original_priority = current_priority (threads k t), mutex_hold = 1,
        mutex_owner = Some t\<rparr>" "lists k1 (SuspQ l) = []" "current_priority (threads k1 t) = current_priority (threads k t)"
      using free by (simp_all add: k1_def mutex_free_def)
    have "rt_mutex_release l k1 = Some (RT_EOK, k2)"
      by (simp add: rt_mutex_release_def D1 k1 Let_def l_isempty_def) (simp add: upd_mutex_def k1 k2_def)
    moreover have "lock_kept l t k k2"
      using free ki th by (simp add: lock_kept_def mutex_inv_def mutex_abs_def mutex_free_def in_thread_def k1_def k2_def)
    ultimately show thesis
      using D D1 take by (intro that [of k1 k2]) (simp_all add: heap_lock_def heap_unlock_def rt_assert_def)
  next
    case own
    let ?n = "mutex_hold (mutexes k l)"
    define k1 where "k1 = upd_mutex l (\<lambda>x. x\<lparr>mutex_hold := mutex_hold x + 1\<rparr>) ?k"
    define k2 where "k2 = upd_mutex l (\<lambda>x. x\<lparr>mutex_hold := ?n\<rparr>) k1"
    have n: "0 < ?n" "(?n + 256) mod 256 = ?n" using own by (simp_all add: mutex_owned_def)
    have take: "rt_mutex_take l RT_WAITING_FOREVER k = Some (Ret RT_EOK, k1)"
      using own by (simp add: rt_mutex_take_def D mutex_owned_def Let_def k1_def)
    have "in_thread k1 t" using th by (simp add: in_thread_def k1_def)
    note D1 = in_threadD [OF this]
    have k1: "mutexes k1 l = (mutexes k l)\<lparr>mutex_hold := ?n + 1\<rparr>" "mutex_owner (mutexes k l) = Some t"
      using own by (simp_all add: k1_def mutex_owned_def)
    have "rt_mutex_release l k1 = Some (RT_EOK, k2)"
      using n by (simp add: rt_mutex_release_def D1 k1 Let_def l_isempty_def) (simp add: upd_mutex_def k1 k2_def)
    moreover have "lock_kept l t k k2"
    proof -
      have "mutexes k2 l = mutexes k l" by (simp add: k1_def k2_def)
      moreover have "kinv k2" using ki by (simp add: k1_def k2_def)
      moreover have "lists k2 = lists k" "\<And>u. current_priority (threads k2 u) = current_priority (threads k u)"
        by (simp_all add: k1_def k2_def)
      moreover have "in_thread k2 t" using th by (simp add: in_thread_def k1_def k2_def)
      ultimately show ?thesis
        using own(1) by (auto simp: lock_kept_def mutex_inv_def mutex_abs_def mutex_owned_def k1_def k2_def)
    qed
    ultimately show thesis
      using D D1 take by (intro that [of k1 k2]) (simp_all add: heap_lock_def heap_unlock_def rt_assert_def)
  qed
qed

lemma heap_call_ok:
  assumes "mutex_inv l k" "in_thread k t" "lock_open l t k" "f h = Some (x, h')"
  obtains k' where "heap_call l f k h = Some (Ret x, k', h')" "lock_kept l t k k'"
proof -
  obtain k1 k2 where "heap_lock l k = Some (Ret RT_EOK, k1)" "heap_unlock l RT_EOK k1 = Some k2" "lock_kept l t k k2"
    by (rule heap_lock_unlock [OF assms(1-3)]) (rule that)
  then show thesis using assms(4) by (intro that [of k2]) (simp_all add: heap_call_def heap_locked_def)
qed

text \<open>A caller that finds the lock with another thread waits for it, and the heap is as it was.\<close>

lemma heap_call_waits:
  assumes "mutex_inv l k" "in_thread k t" "mutex_owner (mutexes k l) = Some u" "u \<noteq> t"
  obtains k' where "heap_call l f k h = Some (Blocked, k', h)" "mutex_inv l k'"
    "mutex_owner (mutexes k' l) = Some u" "t \<in> set (lists k' (SuspQ l))"
proof -
  have w: "RT_WAITING_FOREVER < 2 ^ 31 - 1" by simp
  obtain r k' where k': "rt_mutex_take l RT_WAITING_FOREVER k = Some (r, k')" "mutex_inv l k'"
    "(r, mutex_abs l k') = spec_lock t (wait_insert RT_IPC_FLAG_PRIO (\<lambda>u. current_priority (threads k u)) t)
       (RT_WAITING_FOREVER = 0) (mutex_abs l k)"
    by (rule rt_mutex_take_refines [OF assms(1,2) w]) (rule that)
  then have r: "r = Blocked" "mutex_owner (mutexes k' l) = Some u"
    "lists k' (SuspQ l) = wait_insert RT_IPC_FLAG_PRIO (\<lambda>u. current_priority (threads k u)) t (lists k (SuspQ l))"
    using assms(3,4) by (auto simp: spec_lock_def mutex_abs_def)
  then show thesis
    using k' in_threadD [OF assms(2)] by (intro that [of k']) (simp_all add: heap_call_def heap_lock_def set_wait_insert)
qed

text \<open>When the lock is handed over, the waiting call does its work and gives the lock on.\<close>

lemma heap_call_resume_ok:
  assumes "mutex_inv l k" "in_thread k t" "mutex_owner (mutexes k l) = Some t" "th_error (threads k t) = RT_EOK"
    "f h = Some (x, h')"
  obtains k' where "heap_call_resume l t f k h = Some (Ret x, k', h')" "mutex_inv l k'"
    "mutex_abs l k' = snd (spec_unlock t (mutex_abs l k))"
proof -
  obtain r k' where "rt_mutex_release l k = Some (r, k')" "mutex_inv l k'" "(r, mutex_abs l k') = spec_unlock t (mutex_abs l k)"
    by (rule rt_mutex_release_refines [OF assms(1,2)]) (rule that)
  then show thesis
    using in_threadD [OF assms(2)] assms(4,5)
    by (intro that [of k']) (simp_all add: heap_call_resume_def heap_locked_def heap_unlock_def rt_assert_def
        rt_mutex_take_resume_def, metis snd_conv)
qed

subsection \<open>Words in the heap\<close>

lemma load_store_word:
  assumes "mapped m a 4"
  obtains m' where "store_word a w m = Some m'" "dom m' = dom m" "load_word a m' = Some w"
    "\<And>x. x < a \<or> a + 4 \<le> x \<Longrightarrow> m' x = m x"
proof -
  let ?m = "m(a \<mapsto> word_byte w 0, a + 1 \<mapsto> word_byte w 1, a + 2 \<mapsto> word_byte w 2, a + 3 \<mapsto> word_byte w 3)"
  have d: "a \<in> dom m" "a + 1 \<in> dom m" "a + 2 \<in> dom m" "a + 3 \<in> dom m"
    using mappedD [OF assms, of 0] mappedD [OF assms, of 1] mappedD [OF assms, of 2] mappedD [OF assms, of 3] by auto
  have "store_word a w m = Some ?m" using d by (simp add: store_word_def store_def domIff)
  moreover have "dom ?m = dom m" using d by auto
  moreover have "load_word a ?m = Some w"
  proof -
    have b: "bit (push_bit k (ucast (word_byte w i) :: u32)) n \<longleftrightarrow> k \<le> n \<and> n < k + 8 \<and> bit w n"
      if "n < 32" "k = 8 * i" for i k n
      using that by (auto simp: bit_push_bit_iff bit_ucast_iff bit_word_byte)
    have "bit (push_bit 0 (ucast (word_byte w 0)) OR push_bit 8 (ucast (word_byte w 1)) OR
        push_bit 16 (ucast (word_byte w 2)) OR push_bit 24 (ucast (word_byte w 3)) :: u32) n = bit w n" if "n < 32" for n
      unfolding bit_or_iff using b [OF that, of 0 0] b [OF that, of 8 1] b [OF that, of 16 2] b [OF that, of 24 3] that
      by auto
    then have "ucast (word_byte w 0) OR push_bit 8 (ucast (word_byte w 1)) OR push_bit 16 (ucast (word_byte w 2)) OR
        push_bit 24 (ucast (word_byte w 3)) = w"
      by (intro bit_word_eqI) simp
    then show ?thesis by (simp add: load_word_def)
  qed
  ultimately show thesis by (rule that) auto
qed

lemma load_word_cong: "(\<And>x. a \<le> x \<Longrightarrow> x < a + 4 \<Longrightarrow> m' x = m x) \<Longrightarrow> load_word a m' = load_word a m"
  by (simp add: load_word_def)

text \<open>Aligning, in numbers.\<close>

lemma unat_and_mask: "unat (x AND mask j) = unat x mod 2 ^ j" for x :: u32
  unfolding take_bit_eq_mask [symmetric] unsigned_take_bit_eq by (simp add: take_bit_eq_mod)

lemma unat_and_not_mask: "unat (x AND NOT (mask j)) = unat x - unat x mod 2 ^ j" for x :: u32
proof -
  have "x AND mask j \<le> x" unfolding word_le_nat_alt unat_and_mask by simp
  moreover have "x AND NOT (mask j) = x - (x AND mask j)"
  proof -
    have "x - (x AND mask j) = x AND NOT (x AND mask j)" by (rule disjunctive_diff) (simp add: bit_and_iff)
    also have "\<dots> = x AND NOT (mask j)" by (rule bit_word_eqI) (auto simp: bit_and_iff bit_or_iff bit_not_iff)
    finally show ?thesis by simp
  qed
  ultimately show ?thesis by (simp only: unat_sub unat_and_mask)
qed

lemma unat_up4:
  assumes "unat x + 3 < 2 ^ 32"
  shows "unat ((x + 3) AND NOT 3 :: u32) = RT_ALIGN (unat x) 4"
proof -
  have "(3 :: u32) = mask 2" by (simp add: mask_eq_exp_minus_1)
  then have "unat ((x + 3) AND NOT 3) = unat (x + 3) - unat (x + 3) mod 2 ^ 2" by (simp only: unat_and_not_mask)
  moreover have "unat (x + 3) = unat x + 3" using assms by (simp add: unat_word_ariths)
  ultimately show ?thesis
    using assms by (simp add: RT_ALIGN_def RT_ALIGN_DOWN_def add.commute)
qed

lemma unat_pow2: "j < 32 \<Longrightarrow> unat (2 ^ j :: u32) = 2 ^ j"
proof -
  assume j: "j < 32"
  have "(2 :: nat) ^ j < 2 ^ 32" by (rule power_strict_increasing [OF j]) simp
  then have "unat (word_of_nat (2 ^ j) :: u32) = 2 ^ j" by (simp only: unat_of_nat) (simp add: take_bit_eq_mod)
  then show ?thesis by simp
qed

lemma dvd_4_less: "4 dvd r \<Longrightarrow> 4 dvd m \<Longrightarrow> r < m \<Longrightarrow> r + 4 \<le> m" for r m :: nat
  by presburger

lemma aligned_ptr_ok:
  fixes p :: u32
  assumes j: "2 \<le> j" "j < 32" and p: "4 dvd unat p" "unat p + 2 ^ j < 2 ^ 32"
  shows "unat (aligned_ptr p (2 ^ j)) mod 2 ^ j = 0" "unat p + 4 \<le> unat (aligned_ptr p (2 ^ j))"
    "unat (aligned_ptr p (2 ^ j)) \<le> unat p + 2 ^ j"
proof -
  let ?a = "2 ^ j :: u32" and ?r = "unat p mod 2 ^ j" and ?x = "unat (aligned_ptr p (2 ^ j))"
  have a: "?a - 1 = mask j" by (simp add: mask_eq_exp_minus_1)
  have ua: "unat ?a = 2 ^ j" by (rule unat_pow2 [OF j(2)])
  have "(4 :: nat) dvd 2 ^ j" using le_imp_power_dvd [OF j(1), of "2 :: nat"] by simp
  then have r4: "4 dvd ?r" "?r < 2 ^ j" "4 dvd (2 :: nat) ^ j" using p(1) by (simp_all add: dvd_mod)
  have "?x mod 2 ^ j = 0 \<and> unat p + 4 \<le> ?x \<and> ?x \<le> unat p + 2 ^ j"
  proof (cases "p AND mask j = 0")
    case True
    then have "?r = 0" using unat_and_mask [of p j] by simp
    moreover have "?x = unat p + 2 ^ j" using True a ua p(2) by (simp add: aligned_ptr_def unat_word_ariths)
    moreover have "(4 :: nat) \<le> 2 ^ j" using dvd_imp_le [OF r4(3)] by simp
    ultimately show ?thesis by (simp add: mod_add_self2)
  next
    case False
    then have r: "?r \<noteq> 0" using unat_and_mask [of p j] by (metis unat_eq_0)
    have m: "unat (mask j :: u32) = 2 ^ j - 1" using a ua by (metis unat_minus_one unat_0 power_not_zero zero_neq_numeral)
    have u: "unat (p + mask j) = unat p + (2 ^ j - 1)" using m p(2) by (simp add: unat_word_ariths)
    define y where "y = unat p + (2 ^ j - 1)"
    have x: "?x = y - y mod 2 ^ j" using False a u by (simp add: aligned_ptr_def unat_and_not_mask y_def)
    obtain q where q: "unat p - ?r = q * 2 ^ j" by (rule that [OF minus_mod_eq_div_mult])
    have le: "?r \<le> unat p" by simp
    have y: "y = (?r - 1) + (q + 1) * 2 ^ j" using r r4(2) q le unfolding y_def add_mult_distrib by linarith
    have "?r - 1 < 2 ^ j" using r4(2) by linarith
    then have "y mod 2 ^ j = ?r - 1" by (simp only: y mod_mult_self1 mod_less)
    then have x': "?x = (q + 1) * 2 ^ j" using x y by simp
    have "?r + 4 \<le> 2 ^ j" by (rule dvd_4_less [OF r4(1,3,2)])
    moreover have "?x mod 2 ^ j = 0" "?x = unat p - ?r + 2 ^ j" unfolding x' q by simp_all
    ultimately show ?thesis using le by linarith
  qed
  then show "?x mod 2 ^ j = 0" "unat p + 4 \<le> ?x" "?x \<le> unat p + 2 ^ j" by simp_all
qed

subsection \<open>The operations\<close>

text \<open>The allocation, from the list of blocks of the heap.\<close>

lemma rt_smem_alloc_block:
  assumes "smem_rep h bs" "12 \<le> mem_size_aligned h" "0 < n" "n + 3 < 2 ^ 32" "rt_smem_alloc n h = Some (Some p, h')"
  shows "\<exists>cs. smem_rep h' cs \<and> same_heap h h' \<and> cells h' = cells h \<and> 4 dvd p \<and> heap_ptr h + 12 \<le> p \<and>
    p + request n \<le> heap_ptr h + heap_end h"
proof (cases rule: spec_smem_alloc_cases [of "request n" 0 bs])
  case 1
  then show ?thesis using rt_smem_alloc_refines [OF assms(1-4)] assms(5) by simp
next
  case (2 xs m ys)
  note R = smem_repD [OF assms(1)]
  have A: "p = heap_ptr h + extent xs + 12" "smem_rep h' (xs @ cut (request n) m @ ys)" "same_heap h h'" "cells h' = cells h"
    using rt_smem_alloc_refines [OF assms(1-4)] assms(5) 2(4) by auto
  have "extent xs + m \<le> heap_end h" using smem_chainD(3) [OF R(1)] unfolding 2(1) by simp
  moreover have "4 dvd extent xs" by (rule chain_extent_dvd [OF R(1) [unfolded 2(1)]])
  ultimately show ?thesis using A 2(2) R(2) by (auto simp: smem_fixed_def)
qed

lemma rt_smem_alloc_total:
  assumes "smem_rep h bs" "12 \<le> mem_size_aligned h" "n + 3 < 2 ^ 32"
  obtains r h' where "rt_smem_alloc n h = Some (r, h')" "r = None \<Longrightarrow> h' = h"
proof (cases "n = 0")
  case True
  then show thesis by (intro that [of None h]) (simp_all add: rt_smem_alloc_def)
next
  case False
  then show thesis
    using rt_smem_alloc_refines [OF assms(1,2) _ assms(3)] that
    by (cases rule: spec_smem_alloc_cases [of "request n" 0 bs]) fastforce+
qed

text \<open>Nor does the release.\<close>

lemma upd_item_cells: "upd_item p f (h\<lparr>cells := c\<rparr>) = (upd_item p f h)\<lparr>cells := c\<rparr>"
  by (simp add: upd_item_def)

lemma smem_merge_cells: "smem_merge p n (h\<lparr>cells := c\<rparr>) = (smem_merge p n h)\<lparr>cells := c\<rparr>"
proof -
  let ?l = "\<lambda>h :: smem. if lfree h = n then h\<lparr>lfree := p\<rparr> else h"
  have "?l (h\<lparr>cells := c\<rparr>) = (?l h)\<lparr>cells := c\<rparr>" by simp
  then show ?thesis unfolding smem_merge_def Let_def by (simp only: upd_item_cells) simp
qed

lemma plug_holes_cells: "plug_holes p (h\<lparr>cells := c\<rparr>) = map_option (\<lambda>h. h\<lparr>cells := c\<rparr>) (plug_holes p h)"
proof -
  let ?n = "mnext (items h p)"
  define g where "g = (\<lambda>h :: smem. if p \<noteq> ?n \<and> \<not> MEM_ISUSED (items h ?n) \<and> ?n \<noteq> heap_end h then smem_merge p ?n h else h)"
  have g: "g (h\<lparr>cells := c\<rparr>) = (g h)\<lparr>cells := c\<rparr>" by (simp add: g_def smem_merge_cells)
  show ?thesis
    unfolding plug_holes_def Let_def
    by (simp add: g [unfolded g_def] smem_merge_cells rt_assert_def)
qed

lemma free_ignores_cells: "rt_smem_free r (h\<lparr>cells := c\<rparr>) = map_option (\<lambda>h. h\<lparr>cells := c\<rparr>) (rt_smem_free r h)"
proof (cases r)
  case (Some a)
  let ?p = "a - SIZEOF_STRUCT_MEM - heap_ptr h"
  define g1 where "g1 = (\<lambda>h :: smem. upd_item ?p (\<lambda>i. i\<lparr>pool_ptr := MEM_FREED h\<rparr>) h)"
  define g2 where "g2 = (\<lambda>h :: smem. if ?p < lfree h then h\<lparr>lfree := ?p\<rparr> else h)"
  define g3 where "g3 = (\<lambda>h :: smem. h\<lparr>mem_used := usub (mem_used h) (usub (mnext (items h ?p)) ?p)\<rparr>)"
  have g: "g3 (g2 (g1 (h\<lparr>cells := c\<rparr>))) = (g3 (g2 (g1 h)))\<lparr>cells := c\<rparr>"
    by (simp add: g1_def g2_def g3_def upd_item_def MEM_FREED_def)
  have f: "rt_smem_free r x = do {
      _ \<leftarrow> rt_assert (a mod RT_ALIGN_SIZE = 0);
      _ \<leftarrow> rt_assert (a \<ge> heap_ptr x + SIZEOF_STRUCT_MEM);
      _ \<leftarrow> rt_assert (MEM_POOL (items x ?p) = heap_self x);
      _ \<leftarrow> rt_assert (MEM_ISUSED (items x ?p));
      _ \<leftarrow> rt_assert (a < heap_ptr x + heap_end x);
      _ \<leftarrow> rt_assert (MEM_POOL (items x (mnext (items x ?p))) = heap_self x);
      plug_holes ?p (g3 (g2 (g1 x))) }" if "heap_ptr x = heap_ptr h" for x
    by (simp add: rt_smem_free_def Some Let_def that g1_def g2_def g3_def)
  show ?thesis by (simp add: f g plug_holes_cells rt_assert_def)
qed (simp add: rt_smem_free_def)

lemma rt_malloc_ok:
  assumes "mutex_inv l k" "in_thread k t" "lock_open l t k" "smem_rep h bs" "12 \<le> mem_size_aligned h" "n + 3 < 2 ^ 32"
  obtains r k' h' where "rt_smem_alloc n h = Some (r, h')" "rt_malloc l n k h = Some (Ret r, k', h')" "lock_kept l t k k'"
    "r = None \<Longrightarrow> h' = h"
proof -
  obtain r h' where r: "rt_smem_alloc n h = Some (r, h')" "r = None \<Longrightarrow> h' = h"
    by (rule rt_smem_alloc_total [OF assms(4-6)]) blast
  obtain k' where "heap_call l (rt_smem_alloc n) k h = Some (Ret r, k', h')" "lock_kept l t k k'"
    by (rule heap_call_ok [OF assms(1-3), of "rt_smem_alloc n", OF r(1)]) (rule that)
  then show thesis using r by (intro that [of r h' k']) (simp_all add: rt_malloc_def)
qed

lemma rt_free_ok:
  assumes "mutex_inv l k" "in_thread k t" "lock_open l t k" "rt_smem_free p h = Some h'"
  obtains k' where "rt_free l p k h = Some (Ret (), k', h')" "lock_kept l t k k'"
proof -
  have "map_option (Pair ()) (rt_smem_free p h) = Some ((), h')" by (simp add: assms(4))
  from heap_call_ok [OF assms(1-3), of "\<lambda>h. map_option (Pair ()) (rt_smem_free p h)", OF this]
  show thesis using that unfolding rt_free_def by blast
qed

text \<open>The allocator behind its lock: its specification, or a wait that touches nothing.\<close>

theorem rt_malloc_refines:
  assumes inv: "mutex_inv l k" "in_thread k t" "mutex_owner (mutexes k l) = Some t \<Longrightarrow> mutex_hold (mutexes k l) < RT_MUTEX_HOLD_MAX"
    and h: "smem_rep h bs" "12 \<le> mem_size_aligned h" "0 < n" "n + 3 < 2 ^ 32"
  shows "if lock_open l t k
    then \<exists>k' h'. rt_malloc l n k h =
           Some (Ret (map_option (\<lambda>(p, _). heap_ptr h + p + 12) (spec_smem_alloc (request n) 0 bs)), k', h') \<and>
         smem_rep h' (case spec_smem_alloc (request n) 0 bs of None \<Rightarrow> bs | Some (_, cs) \<Rightarrow> cs) \<and> lock_kept l t k k'
    else \<exists>k'. rt_malloc l n k h = Some (Blocked, k', h) \<and> mutex_inv l k' \<and> t \<in> set (lists k' (SuspQ l))"
proof (cases "lock_open l t k")
  case True
  obtain r k' h' where r: "rt_smem_alloc n h = Some (r, h')" "rt_malloc l n k h = Some (Ret r, k', h')" "lock_kept l t k k'"
    by (rule rt_malloc_ok [OF inv(1,2) True h(1,2,4)]) (rule that)
  have "r = map_option (\<lambda>(p, _). heap_ptr h + p + 12) (spec_smem_alloc (request n) 0 bs) \<and>
      smem_rep h' (case spec_smem_alloc (request n) 0 bs of None \<Rightarrow> bs | Some (_, cs) \<Rightarrow> cs)"
    using rt_smem_alloc_refines [OF h] r(1) h(1) by (auto split: option.splits prod.splits)
  then show ?thesis using True r(2,3) by auto
next
  case False
  then obtain u where "mutex_owner (mutexes k l) = Some u" "u \<noteq> t" using inv(3) by (auto simp: lock_open_def)
  from heap_call_waits [OF inv(1,2) this, of "rt_smem_alloc n" h] show ?thesis
    using False unfolding rt_malloc_def by (metis (no_types, lifting))
qed

text \<open>A cleared block is zero, and the other bytes are what they were.\<close>

theorem rt_calloc_ok:
  assumes "mutex_inv l k" "in_thread k t" "lock_open l t k" "smem_rep h bs" "12 \<le> mem_size_aligned h"
    and n: "cnt * sz + 3 < 2 ^ 32"
  shows "\<exists>k' h'. lock_kept l t k k' \<and>
    (rt_calloc l cnt sz k h = Some (Ret None, k', h) \<or>
     (\<exists>p. rt_calloc l cnt sz k h = Some (Ret (Some p), k', h') \<and>
        p + cnt * sz \<le> heap_ptr h + heap_end h \<and>
        (\<forall>a. heap_view h' a = (if p \<le> a \<and> a < p + cnt * sz then Some 0 else heap_view h a))))"
proof -
  have m: "cnt * sz mod 2 ^ 32 = cnt * sz" using n by simp
  obtain r k' h1 where r: "rt_smem_alloc (cnt * sz) h = Some (r, h1)" "rt_malloc l (cnt * sz) k h = Some (Ret r, k', h1)"
    "lock_kept l t k k'" "r = None \<Longrightarrow> h1 = h"
    by (rule rt_malloc_ok [OF assms(1-5) n]) (rule that)
  show ?thesis
  proof (cases r)
    case None
    then show ?thesis using r m by (intro exI conjI disjI1) (auto simp: rt_calloc_def after_malloc_def Let_def)
  next
    case (Some p)
    have pos: "0 < cnt * sz" using r(1) Some by (cases "cnt * sz = 0") (simp_all add: rt_smem_alloc_def)
    have A: "same_heap h h1" "cells h1 = cells h" "heap_ptr h + 12 \<le> p" "p + request (cnt * sz) \<le> heap_ptr h + heap_end h"
      using rt_smem_alloc_block [OF assms(4,5) pos n, of p h1] r(1) Some by auto
    have le: "cnt * sz \<le> request (cnt * sz)" using request_facts(3) [of "cnt * sz"] RT_ALIGN_facts(1) [OF n] by simp
    have v: "heap_view h1 = heap_view h" by (rule heap_view_same [OF A(1,2)])
    have "mapped (heap_view h1) p (cnt * sz)" using A le by (auto simp: mapped_def v)
    from rt_memset_ok [OF this, of 0]
    have f: "rt_memset p 0 (cnt * sz) (heap_view h1) = Some (filled p 0 (cnt * sz) (heap_view h1))" by simp
    let ?h' = "heap_put (filled p 0 (cnt * sz) (heap_view h1)) h1"
    have "dom (filled p 0 (cnt * sz) (heap_view h1)) = dom (heap_view h1)"
      using A le unfolding v by (auto simp: filled_def heap_view_def split: if_splits)
    then have "heap_view ?h' = filled p 0 (cnt * sz) (heap_view h)" by (simp only: heap_view_put) (simp add: v)
    moreover have "rt_calloc l cnt sz k h = Some (Ret (Some p), k', ?h')"
      using r(2) Some f m by (simp add: rt_calloc_def after_malloc_def calloc_clear_def on_heap_def Let_def)
    ultimately show ?thesis using r(3) A le by (intro exI conjI disjI2) (auto simp: filled_def)
  qed
qed

text \<open>
  An aligned block: a multiple of the alignment, behind the word that holds the real address, and
  inside the block that was allocated.
\<close>

definition aligned_block :: "smem \<Rightarrow> nat \<Rightarrow> nat \<Rightarrow> nat \<Rightarrow> smem \<Rightarrow> smem \<Rightarrow> bool" where
  "aligned_block h n p a h1 h2 \<longleftrightarrow>
     (\<exists>ptr. rt_smem_alloc n h = Some (Some ptr, h1) \<and> ptr + 4 \<le> a \<and> a + p \<le> ptr + n \<and>
        load_word (a - 4) (heap_view h2) = Some (word_of_nat ptr) \<and> ptr < 2 ^ 32) \<and>
     (\<exists>m. h2 = heap_put m h1 \<and> (\<forall>x. x < a - 4 \<or> a \<le> x \<longrightarrow> heap_view h2 x = heap_view h x))"

lemma RT_ALIGN_id: "4 dvd n \<Longrightarrow> n + 3 < 2 ^ 32 \<Longrightarrow> RT_ALIGN n 4 = n"
  using RT_ALIGN_facts [of n] by presburger

lemma rt_malloc_align_ok:
  assumes "mutex_inv l k" "in_thread k t" "lock_open l t k" "smem_rep h bs" "12 \<le> mem_size_aligned h"
    and j: "2 \<le> j" "j < 32" and sz: "0 < sz" "unat sz + 2 ^ j + 6 < 2 ^ 32"
  defines "n \<equiv> RT_ALIGN (unat sz) 4 + 2 ^ j"
  obtains k' where "lock_kept l t k k'" "rt_malloc_align l sz (2 ^ j) k h = Some (Ret None, k', h)"
      "rt_smem_alloc n h = Some (None, h)"
  | k' a h1 h2 where "lock_kept l t k k'" "rt_malloc_align l sz (2 ^ j) k h = Some (Ret (Some a), k', h2)"
      "a mod 2 ^ j = 0" "aligned_block h n (unat sz) a h1 h2"
proof -
  have s4: "unat sz \<le> RT_ALIGN (unat sz) 4" "4 dvd RT_ALIGN (unat sz) 4" "RT_ALIGN (unat sz) 4 \<le> unat sz + 3"
    using RT_ALIGN_facts [of "unat sz"] sz(2) by simp_all
  have n3: "n + 3 < 2 ^ 32" using sz(2) s4(3) unfolding n_def by simp
  have j4: "(4 :: nat) dvd 2 ^ j" using le_imp_power_dvd [OF j(1), of "2 :: nat"] by simp
  have pos: "0 < n" "0 < unat sz" using sz(1) by (simp_all add: n_def unat_gt_0)
  have al: "(2 ^ j + 3) AND NOT 3 = (2 ^ j :: u32)"
  proof -
    have u: "unat (2 ^ j :: u32) = 2 ^ j" by (rule unat_pow2 [OF j(2)])
    have "unat ((2 ^ j + 3) AND NOT 3 :: u32) = RT_ALIGN (2 ^ j) 4"
      using unat_up4 [of "2 ^ j"] sz(2) unfolding u by simp
    also have "\<dots> = 2 ^ j" by (rule RT_ALIGN_id [OF j4]) (use sz(2) in simp)
    finally show ?thesis using u by (metis word_unat_eq_iff)
  qed
  have up: "unat ((sz + 3) AND NOT 3) = RT_ALIGN (unat sz) 4" by (rule unat_up4) (use sz(2) in simp)
  have un: "unat (((sz + 3) AND NOT 3) + 2 ^ j) = n"
    using n3 unfolding n_def unat_word_ariths up unat_pow2 [OF j(2)] by simp
  obtain r k' h1 where r: "rt_smem_alloc n h = Some (r, h1)" "rt_malloc l n k h = Some (Ret r, k', h1)"
    "lock_kept l t k k'" "r = None \<Longrightarrow> h1 = h"
    by (rule rt_malloc_ok [OF assms(1-5) n3]) (rule that)
  note call = rt_malloc_align_def [of l sz "2 ^ j" k h, unfolded Let_def al un r(2)]
  show thesis
  proof (cases r)
    case None
    then show thesis using r(1,3,4) call by (intro that(1) [of k']) (simp_all add: after_malloc_def)
  next
    case (Some ptr)
    have A: "same_heap h h1" "cells h1 = cells h" "4 dvd ptr" "heap_ptr h + 12 \<le> ptr" "ptr + request n \<le> heap_ptr h + heap_end h"
      using rt_smem_alloc_block [OF assms(4,5) pos(1) n3, of ptr h1] r(1) Some by auto
    have v: "heap_view h1 = heap_view h" by (rule heap_view_same [OF A(1,2)])
    have "heap_ptr h + heap_end h + 12 \<le> 2 ^ 32" using smem_repD(2) [OF assms(4)] by (simp add: smem_fixed_def)
    moreover have "n \<le> request n" using request_facts(3) [of n] RT_ALIGN_facts(1) [OF n3] by simp
    ultimately have b: "ptr + n + 12 \<le> 2 ^ 32" "ptr + n \<le> heap_ptr h + heap_end h" using A(5) by simp_all
    have up: "unat (word_of_nat ptr :: u32) = ptr" using b(1) by (simp add: unat_of_nat take_bit_eq_mod)
    define a where "a = unat (aligned_ptr (word_of_nat ptr) (2 ^ j))"
    have jn: "2 ^ j + unat sz \<le> n" using s4(1) by (simp add: n_def)
    have a: "a mod 2 ^ j = 0" "ptr + 4 \<le> a" "a \<le> ptr + 2 ^ j"
      using aligned_ptr_ok [OF j, of "word_of_nat ptr"] A(3) b(1) jn pos(2) by (simp_all add: up a_def)
    have a4: "unat (aligned_ptr (word_of_nat ptr) (2 ^ j) - 4) = a - 4"
      using a(2) by (simp add: unat_sub word_le_nat_alt a_def)
    have "mapped (heap_view h1) (a - 4) 4"
      using A(4) a(2,3) b(2) jn unfolding mapped_def v dom_heap_view by auto
    then obtain m where m: "store_word (a - 4) (word_of_nat ptr) (heap_view h1) = Some m" "dom m = dom (heap_view h1)"
      "load_word (a - 4) m = Some (word_of_nat ptr)" "\<And>x. x < a - 4 \<or> a - 4 + 4 \<le> x \<Longrightarrow> m x = heap_view h1 x"
      by (rule load_store_word) (rule that)
    have vm: "heap_view (heap_put m h1) = m" by (rule heap_view_put [OF m(2)])
    have "set_aligned (2 ^ j) ptr h1 = Some (a, heap_put m h1)"
      using m(1) by (simp add: set_aligned_def Let_def a4 on_heap_def flip: a_def)
    then have "rt_malloc_align l sz (2 ^ j) k h = Some (Ret (Some a), k', heap_put m h1)"
      unfolding call Some by (simp add: after_malloc_def)
    moreover have "aligned_block h n (unat sz) a h1 (heap_put m h1)"
      using r(1) Some a(2,3) jn b m(3,4) unfolding aligned_block_def vm v by auto
    ultimately show thesis by (rule that(2) [OF r(3) _ a(1)])
  qed
qed

text \<open>
  Whatever the caller writes into the block, releasing it releases the block it lies in, and the heap
  has its old blocks again.
\<close>

theorem rt_malloc_free_align:
  assumes "mutex_inv l k" "in_thread k t" "lock_open l t k" "smem_rep h bs" "12 \<le> mem_size_aligned h"
    and j: "2 \<le> j" "j < 32" and sz: "0 < sz" "unat sz + 2 ^ j + 6 < 2 ^ 32"
    and a: "rt_malloc_align l sz (2 ^ j) k h = Some (Ret (Some a), k1, h1)"
    and c: "\<forall>p. \<not> (a \<le> heap_ptr h + p \<and> heap_ptr h + p < a + unat sz) \<longrightarrow> c p = cells h1 p"
  shows "\<exists>k2 h2. rt_free_align l a k1 (h1\<lparr>cells := c\<rparr>) = Some (Ret (), k2, h2) \<and> smem_rep h2 bs \<and> lock_kept l t k k2"
proof -
  let ?n = "RT_ALIGN (unat sz) 4 + 2 ^ j" and ?h = "h1\<lparr>cells := c\<rparr>"
  obtain h0 where k: "lock_kept l t k k1" and b: "aligned_block h ?n (unat sz) a h0 h1"
    by (rule rt_malloc_align_ok [OF assms(1-9)]) (use a in auto)
  obtain ptr m where p: "rt_smem_alloc ?n h = Some (Some ptr, h0)" "ptr + 4 \<le> a"
    "load_word (a - 4) (heap_view h1) = Some (word_of_nat ptr)" "ptr < 2 ^ 32" "h1 = heap_put m h0"
    using b by (auto simp: aligned_block_def)
  have n: "0 < ?n" "?n + 3 < 2 ^ 32" using RT_ALIGN_facts(3) [of "unat sz"] sz(2) by auto
  obtain h2 where h2: "rt_smem_free (Some ptr) h0 = Some h2" "smem_rep h2 bs"
    by (rule rt_smem_alloc_free [OF assms(4,5) n p(1)]) (rule that)
  have hp: "heap_ptr h1 = heap_ptr h" 
    using rt_smem_alloc_block [OF assms(4,5) n p(1)] by (auto simp: p(5) heap_put_def same_heap_def)
  have "load_word (a - 4) (heap_view ?h) = load_word (a - 4) (heap_view h1)"
    by (rule load_word_cong) (use c p(2) in \<open>auto simp: heap_view_def hp\<close>)
  then have w: "load_word (a - 4) (heap_view ?h) = Some (word_of_nat ptr)" using p(3) by simp
  have "?h = h0\<lparr>cells := c\<rparr>" by (simp add: p(5) heap_put_def)
  then have f: "rt_smem_free (Some ptr) ?h = Some (h2\<lparr>cells := c\<rparr>)" using h2(1) by (simp add: free_ignores_cells)
  have u: "unat (word_of_nat ptr :: u32) = ptr" using p(4) by (simp add: unat_of_nat take_bit_eq_mod)
  have k1: "mutex_inv l k1" "in_thread k1 t" "lock_open l t k1"
    using k assms(3) lock_kept_open [OF k] by (simp_all add: lock_kept_def)
  obtain k2 where "rt_free l (Some ptr) k1 ?h = Some (Ret (), k2, h2\<lparr>cells := c\<rparr>)" "lock_kept l t k1 k2"
    by (rule rt_free_ok [OF k1 f]) (rule that)
  then show ?thesis
    using h2(2) lock_kept_trans [OF k] w u by (intro exI [of _ k2] exI [of _ "h2\<lparr>cells := c\<rparr>"]) (simp add: rt_free_align_def)
qed

text \<open>A product that overflows is allocated modulo \<open>2 ^ 32\<close>: there is no check.\<close>

lemma rt_calloc_wraps: "cnt * sz mod 2 ^ 32 = n \<Longrightarrow> rt_calloc l cnt sz k h = rt_calloc l 1 n k h"
  by (auto simp: rt_calloc_def Let_def)

text \<open>The heap after the initialisation: one free block, and a free lock.\<close>

theorem rt_system_heap_init_ok:
  assumes "begin_addr + 102 \<le> end_addr" "end_addr < 2 ^ 32"
  obtains h where "rt_system_heap_init l begin_addr end_addr mem k = Some (Some h, heap_lock_init l k)"
    "smem_rep h [(mem_size_aligned h + 12, False)]" "begin_addr + 56 \<le> heap_ptr h"
    "heap_ptr h + mem_size_aligned h + 24 \<le> end_addr" "mutex_free l (heap_lock_init l k)"
proof -
  let ?b = "RT_ALIGN begin_addr 4" and ?e = "RT_ALIGN_DOWN end_addr 4"
  have b: "begin_addr \<le> ?b" "?b \<le> begin_addr + 3" using RT_ALIGN_facts [of begin_addr] assms by simp_all
  have e: "?e \<le> end_addr" "end_addr \<le> ?e + 3" using RT_ALIGN_DOWN_le RT_ALIGN_DOWN_gt [of 4 end_addr] by simp_all
  have s: "begin_addr + (?e - ?b) < 2 ^ 32" "96 \<le> ?e - ?b" "begin_addr + (?e - ?b) \<le> end_addr" using b e assms by linarith+
  obtain h where h: "rt_smem_init begin_addr (?e - ?b) mem = Some h" "smem_rep h [(mem_size_aligned h + 12, False)]"
    "begin_addr + 56 \<le> heap_ptr h" "heap_ptr h + mem_size_aligned h + 24 \<le> begin_addr + (?e - ?b)"
    by (rule rt_smem_init_ok [OF s(1,2)]) (rule that)
  have "mutex_free l (heap_lock_init l k)"
    by (simp add: mutex_free_def heap_lock_init_def rt_mutex_init_def ipc_object_init_def)
  then show thesis
    using h s by (intro that [of h]) (simp_all add: rt_system_heap_init_def rt_assert_def Let_def)
qed

end
