(* ===== verification/Boot.thy ===== *)
theory Boot
  imports Thread Kheap
begin

text \<open>
  The boot sequence of \<open>src/components.c\<close> from zeroed memory: \<open>rtthread_startup\<close> runs the board
  initialisation of \<open>drivers/board.c\<close>, sets up the timer
  system and the ready queues, creates the main thread, starts the timer thread and the idle
  thread and hands the CPU over. Of the board initialisation the model has the heap with its lock, the
  part that touches the state of the kernel; it leaves out the clocks and pins, the choice of the
  console device and the component initialisers of the linker section, and of the rest of the sequence the
  version that is printed. The addresses of the control blocks, the stacks and the heap, the entry
  points and the results of the two allocations are parameters. The result is that the first state in
  which a thread runs satisfies the kernel invariant, with its timers on time and the heap lock free.
\<close>

subsection \<open>The image\<close>

record image =
  main_tcb :: "nat option"
  main_stack :: "nat option"
  idle_tcb :: nat
  idle_stack :: nat
  timer_tcb :: nat
  timer_stack :: nat
  main_thread_entry :: u32
  idle_entry :: u32
  timer_entry :: u32
  exit_hook :: u32
  heap_mutex :: nat
  heap_begin :: nat
  heap_finish :: nat
  ram :: "nat \<Rightarrow> byte"

definition zero_thread :: thread where
  "zero_thread = \<lparr>th_stat = RT_THREAD_INIT, th_yield = False, th_error = 0, current_priority = 0,
     number_mask = 0, event_set = 0, event_info = 0, th_init_tick = 0, remaining_tick = 0,
     stack_addr = 0, stack_size = 0, stack_ptr = 0, stack_guard = 0\<rparr>"

definition zero_timer :: timer where
  "zero_timer = \<lparr>tm_activated = False, tm_periodic = False, tm_soft = False,
     timeout_func = Timer_Callback 0, tm_init_tick = 0, timeout_tick = 0\<rparr>"

text \<open>Memory before \<open>main\<close>: the zeroed statics, with the list heads of no object linked.\<close>

definition reset_kernel :: "image \<Rightarrow> kernel" where
  "reset_kernel im = \<lparr>threads = (\<lambda>_. zero_thread), timers = (\<lambda>_. zero_timer), lists = (\<lambda>_. []),
     timer_lists = (\<lambda>_. []), ready_group = 0, current_thread = None, current_prio = 0,
     lock_nest = 0, interrupt_nest = 0, rt_tick = 0, soft_timer_busy = False,
     timer_thread = timer_tcb im,
     sems = (\<lambda>_. \<lparr>sem_flag = RT_IPC_FLAG_FIFO, sem_value = 0\<rparr>),
     mutexes = (\<lambda>_. \<lparr>mutex_value = 0, original_priority = 0, mutex_hold = 0, mutex_owner = None\<rparr>),
     events = (\<lambda>_. \<lparr>ev_flag = RT_IPC_FLAG_FIFO, ev_set = 0\<rparr>),
     mailboxes = (\<lambda>_. \<lparr>mb_flag = RT_IPC_FLAG_FIFO, mb_pool = [], mb_size = 0, mb_entry = 0,
       mb_in_offset = 0, mb_out_offset = 0\<rparr>),
     mqueues = (\<lambda>_. \<lparr>mq_flag = RT_IPC_FLAG_FIFO, mq_msg_size = 0, mq_max_msgs = 0, mq_entry = 0,
       mq_head = None, mq_tail = None, mq_free = None, mq_next = (\<lambda>_. None), mq_data = (\<lambda>_. [])\<rparr>),
     mempools = (\<lambda>_. \<lparr>start_address = 0, mp_size = 0, block_size = 0, block_list = None,
       block_total_count = 0, block_free_count = 0\<rparr>),
     mp_words = (\<lambda>_. None),
     switches = []\<rparr>"

subsection \<open>The sequence\<close>

definition rt_application_init :: "image \<Rightarrow> kernel \<Rightarrow> kernel option" where
  "rt_application_init im k = do {
     (tid, k) \<leftarrow> rt_thread_create (main_tcb im) (main_stack im) (main_thread_entry im) 0 (exit_hook im)
       2048 10 20 k;
     t \<leftarrow> tid;
     (_, k) \<leftarrow> rt_thread_startup t k;
     Some k }"

definition rt_hw_board_init :: "image \<Rightarrow> kernel \<Rightarrow> (smem option \<times> kernel) option" where
  "rt_hw_board_init im k = rt_system_heap_init (heap_mutex im) (heap_begin im) (heap_finish im) (ram im) k"

definition rtthread_startup :: "image \<Rightarrow> kernel \<Rightarrow> kernel option" where
  "rtthread_startup im k = do {
     (_, k) \<leftarrow> rt_hw_board_init im k;
     let k = rt_system_timer_init k;
     let k = rt_system_scheduler_init k;
     k \<leftarrow> rt_application_init im k;
     (_, k) \<leftarrow> rt_system_timer_thread_init (timer_entry im) (exit_hook im) (timer_stack im) k;
     (_, k) \<leftarrow> rt_thread_idle_init (idle_tcb im) (idle_entry im) (exit_hook im) (idle_stack im) 256 k;
     rt_system_scheduler_start k }"

text \<open>The state in which the threads are created: the heap lock, the timer list and the ready queues are set up.\<close>

definition before_threads :: "image \<Rightarrow> kernel" where
  "before_threads im = rt_system_scheduler_init (rt_system_timer_init
     (heap_lock_init (heap_mutex im) (reset_kernel im)))"

subsection \<open>Each step keeps the invariant of the boot phase\<close>

definition booting :: "kernel \<Rightarrow> bool" where
  "booting k \<longleftrightarrow> sched_inv k \<and> stacks_ok k \<and> timer_inv k \<and> current_thread k = None \<and> lock_nest k = 0"

text \<open>The kernel after a thread of priority \<open>p\<close> has been initialised and started in this phase.\<close>

definition boot_thread :: "nat \<Rightarrow> nat \<Rightarrow> u32 \<Rightarrow> nat \<Rightarrow> nat \<Rightarrow> kernel \<Rightarrow> kernel" where
  "boot_thread t p n a z k = snd (rt_thread_resume t (startup_mark t (fresh_thread t p n a z k)))"

lemma boot_thread_ok:
  assumes b: "booting k" and t: "th_stat (threads k t) = RT_THREAD_INIT"
    and p: "p < 32" and z: "stack_fits a z"
  shows "rt_thread_startup t (fresh_thread t p n a z k) = Some (RT_EOK, boot_thread t p n a z k)"
    "booting (boot_thread t p n a z k)"
    "th_stat (threads (boot_thread t p n a z k) t) = RT_THREAD_READY"
    "current_priority (threads (boot_thread t p n a z k) t) = p"
    "u \<noteq> t \<Longrightarrow> threads (boot_thread t p n a z k) u = threads k u"
    "timer_thread (boot_thread t p n a z k) = timer_thread k"
    "timer_lists (boot_thread t p n a z k) = timer_lists k"
    "interrupt_nest (boot_thread t p n a z k) = interrupt_nest k"
proof -
  note B = b [unfolded booting_def]
  let ?k = "fresh_thread t p n a z k"
  note f = fresh_thread_ok [OF _ _ _ t, of p n a z]
  have st: "startable ?k t" by (rule fresh_startable [OF p z])
  have m: "sched_inv (startup_mark t ?k)" "stacks_ok (startup_mark t ?k)" "timer_inv (startup_mark t ?k)"
    using startup_mark_ok [OF _ _ _ st] f B by auto
  have sus: "th_stat (threads (startup_mark t ?k) t) = RT_THREAD_SUSPEND" by simp
  have c: "current_thread (startup_mark t ?k) = None" using B by simp
  note r = rt_thread_resume_parts [OF m sus]
  show "rt_thread_startup t ?k = Some (RT_EOK, boot_thread t p n a z k)"
    using c by (simp add: rt_thread_startup_unfold [OF st] boot_thread_def Let_def)
  show "booting (boot_thread t p n a z k)"
    using r B by (simp add: booting_def boot_thread_def)
  have th: "threads (boot_thread t p n a z k) = (threads (startup_mark t ?k))(t :=
      (threads (startup_mark t ?k) t)\<lparr>th_stat := RT_THREAD_READY\<rparr>)"
    unfolding boot_thread_def rt_thread_resume_simps(1) [OF sus] c by simp
  show "th_stat (threads (boot_thread t p n a z k) t) = RT_THREAD_READY"
    "current_priority (threads (boot_thread t p n a z k) t) = p"
    "u \<noteq> t \<Longrightarrow> threads (boot_thread t p n a z k) u = threads k u"
    unfolding th by (simp_all add: fresh_tcb_def)
  show "timer_thread (boot_thread t p n a z k) = timer_thread k" by (simp add: boot_thread_def)
  show "timer_lists (boot_thread t p n a z k) = timer_lists k"
    by (simp add: boot_thread_def rt_thread_resume_def rt_timer_stop_def timer_init_fields_def Let_def)
  show "interrupt_nest (boot_thread t p n a z k) = interrupt_nest k"
    by (simp add: boot_thread_def fresh_thread_def startup_mark_def)
qed

text \<open>What a boot step leaves alone: the objects, the clock, the user timers, the lists of waiting threads.\<close>

definition same_objects :: "kernel \<Rightarrow> kernel \<Rightarrow> bool" where
  "same_objects k k' \<longleftrightarrow> sems k' = sems k \<and> mutexes k' = mutexes k \<and> events k' = events k \<and>
     mailboxes k' = mailboxes k \<and>
     mqueues k' = mqueues k \<and>
     mempools k' = mempools k \<and>
     mp_words k' = mp_words k \<and> rt_tick k' = rt_tick k \<and> timer_lists k' = timer_lists k \<and>
     interrupt_nest k' = interrupt_nest k \<and>
     (\<forall>n. timers k' (User_Timer n) = timers k (User_Timer n)) \<and>
     (\<forall>h. \<not> is_ready h \<longrightarrow> lists k h = [] \<longrightarrow> lists k' h = []) \<and> (punctual k \<longrightarrow> punctual k')"

lemma same_objects_trans: "same_objects k k' \<Longrightarrow> same_objects k' k'' \<Longrightarrow> same_objects k k''"
  by (simp add: same_objects_def)

lemma boot_thread_objects:
  assumes "booting k" and t: "th_stat (threads k t) = RT_THREAD_INIT"
  shows "same_objects k (boot_thread t p n a z k)"
proof -
  let ?k = "startup_mark t (fresh_thread t p n a z k)"
  have sus: "th_stat (threads ?k t) = RT_THREAD_SUSPEND" by simp
  have "timer_lists (snd (rt_thread_resume t ?k)) = timer_lists k"
    by (simp add: rt_thread_resume_def rt_timer_stop_def timer_init_fields_def Let_def)
  moreover have "lists (snd (rt_thread_resume t ?k)) h = []" if "\<not> is_ready h" "lists k h = []" for h
    using that assms unfolding rt_thread_resume_simps(2) [OF sus]
    by (auto simp: booting_def l_append_def l_remove_def)
  moreover have "punctual (boot_thread t p n a z k)" if "punctual k"
  proof -
    have "Thread_Timer t \<notin> set (timer_lists k HardTimers)"
      using timer_invD(7) [of "{}" k t] assms by (auto simp: booting_def)
    then have "punctual (fresh_thread t p n a z k)"
      unfolding fresh_thread_def using that by (intro punctual_set) (simp_all add: timer_init_fields_def)
    then show ?thesis by (simp add: boot_thread_def startup_mark_def punctual_resume)
  qed
  ultimately show ?thesis
    by (simp add: same_objects_def boot_thread_def rt_thread_resume_simps(3) [OF sus])
      (simp add: fresh_thread_def startup_mark_def)
qed

lemma booting_start:
  assumes b: "booting k" and r: "th_stat (threads k u) = RT_THREAD_READY"
  obtains t k' where "rt_system_scheduler_start k = Some k'" "kinv k'" "current_thread k' = Some t"
    "th_stat (threads k t) = RT_THREAD_READY"
    "th_stat (threads k' t) = RT_THREAD_RUNNING" "lock_nest k' = 0"
    "\<And>v. th_stat (threads k v) = RT_THREAD_READY \<Longrightarrow>
       current_priority (threads k t) \<le> current_priority (threads k v)"
    "\<And>v. v \<noteq> t \<Longrightarrow> threads k' v = threads k v" "interrupt_nest k' = interrupt_nest k"
    "threads k' t = (threads k t)\<lparr>th_stat := RT_THREAD_RUNNING, th_yield := False\<rparr>"
    "same_objects k k'"
proof -
  note B = b [unfolded booting_def]
  have s: "sched_inv k" and ti: "timer_inv k" and so: "stacks_ok k" using B by auto
  note I = sched_invD [OF s]
  have live: "started (threads k v)" if "th_stat (threads k v) = RT_THREAD_READY" for v
    using I(3) [of v] that by simp
  have q: "lists k (ReadyQ (current_priority (threads k v))) \<noteq> []" "current_priority (threads k v) < 32"
    if "th_stat (threads k v) = RT_THREAD_READY" for v
    using I(6) [of v] live [OF that] that by (auto simp: started_def)
  have "bit (ready_group k) (current_priority (threads k u))" using I(2) [OF q(2) [OF r]] q(1) [OF r] by simp
  then have rg: "ready_group k \<noteq> 0" by auto
  obtain t ts p where h: "scheduler_get_highest_priority_thread k = Some (t, p)" "p < 32"
    "lists k (ReadyQ p) = t # ts" "\<And>q. q < p \<Longrightarrow> lists k (ReadyQ q) = []"
    "th_stat (threads k t) = RT_THREAD_READY" "current_priority (threads k t) = p"
    by (rule get_highest [OF s rg]) (rule that)
  let ?k1 = "k\<lparr>current_thread := Some t\<rparr>"
  let ?f = "\<lambda>h. h\<lparr>th_stat := RT_THREAD_RUNNING, th_yield := False\<rparr>"
  let ?k2 = "rt_schedule_remove_thread t ?k1"
  have nr: "th_stat (threads k v) \<noteq> RT_THREAD_RUNNING" for v
    using I(7) [of v] B by auto
  have s1: "sched_inv ?k1" by (rule sched_inv_current [OF s]) (simp add: nr)
  have st: "started (threads ?k1 t)" using live [OF h(5)] by simp
  have "sched_inv_x {t} (upd_thread t ?f ?k2)"
    using sched_inv_upd_exempt [OF sched_inv_remove [OF s1 st], of t ?f] st by (simp add: started_def)
  from sched_inv_drop [OF this, of t] have s2: "sched_inv (upd_thread t ?f ?k2)" by simp
  have "stacks_ok (upd_thread t ?f k)"
    by (rule stacks_ok_upd [OF so]) (use so h(5) in \<open>simp add: stacks_ok_def scheduler_stack_check_def\<close>)
  then have so2: "stacks_ok (upd_thread t ?f ?k2)" by (rule stacks_ok_threads) simp
  have ti2: "timer_inv (upd_thread t ?f ?k2)"
    by (rule timer_inv_cong [OF ti]) (use h(5) timer_invD(7) [OF ti, of t] in \<open>auto split: if_splits\<close>)
  show thesis
  proof (rule that)
    show "rt_system_scheduler_start k = Some (upd_thread t ?f ?k2)"
      by (simp add: rt_system_scheduler_start_def h(1))
    show "kinv (upd_thread t ?f ?k2)" by (rule kinvI [OF s2 so2 _ ti2]) simp
    show "current_priority (threads k t) \<le> current_priority (threads k v)"
      if "th_stat (threads k v) = RT_THREAD_READY" for v
      using h(4) [of "current_priority (threads k v)"] q(1) [OF that] h(6) by (simp add: not_less [symmetric]) blast
    show "same_objects k (upd_thread t ?f ?k2)"
      by (auto simp: same_objects_def l_remove_def)
  qed (use B h(5) in simp_all)
qed

text \<open>Addresses that do not clash, stacks inside the address space, and a heap with room for its headers.\<close>

definition image_ok :: "image \<Rightarrow> bool" where
  "image_ok im \<longleftrightarrow>
     (case (main_tcb im, main_stack im) of
        (Some m, Some a) \<Rightarrow> distinct [m, idle_tcb im, timer_tcb im] \<and> stack_fits a 2048
      | _ \<Rightarrow> False) \<and>
     stack_fits (idle_stack im) 256 \<and> stack_fits (timer_stack im) 512 \<and>
     heap_begin im + 102 \<le> heap_finish im \<and> heap_finish im < 2 ^ 32"

lemma before_threads_booting: "booting (before_threads im)" "punctual (before_threads im)"
proof -
  show "booting (before_threads im)"
    by (auto simp: booting_def before_threads_def heap_lock_init_def rt_mutex_init_def ipc_object_init_def
        upd_mutex_def reset_kernel_def rt_system_timer_init_def rt_system_scheduler_init_def
        sched_inv_x_def stacks_ok_def timer_inv_x_def wf_lists_def zero_thread_def zero_timer_def
        split: lhead.split)
  show "punctual (before_threads im)"
    by (simp add: punctual_def timers_set_def user_timer_ok_def ordered_from_def before_threads_def
        heap_lock_init_def rt_mutex_init_def ipc_object_init_def upd_mutex_def reset_kernel_def zero_timer_def
        rt_system_timer_init_def rt_system_scheduler_init_def)
qed

theorem rtthread_startup_ok:
  assumes "image_ok im"
  obtains k where "rtthread_startup im (reset_kernel im) = Some k" "kinv k"
    "current_thread k = Some (timer_tcb im)" "th_stat (threads k (timer_tcb im)) = RT_THREAD_RUNNING"
    "lock_nest k = 0" "interrupt_nest k = 0"
    "th_stat (threads k (the (main_tcb im))) = RT_THREAD_READY"
    "current_priority (threads k (the (main_tcb im))) = 10"
    "th_stat (threads k (idle_tcb im)) = RT_THREAD_READY"
    "current_priority (threads k (idle_tcb im)) = 31"
    "current_priority (threads k (timer_tcb im)) = 4"
    "same_objects (before_threads im) k"
    "\<And>u. u \<notin> {the (main_tcb im), idle_tcb im, timer_tcb im} \<Longrightarrow> th_stat (threads k u) = RT_THREAD_INIT"
proof -
  obtain h where heap: "rt_hw_board_init im (reset_kernel im) = Some (Some h, heap_lock_init (heap_mutex im) (reset_kernel im))"
    unfolding rt_hw_board_init_def
    by (rule rt_system_heap_init_ok [of "heap_begin im" "heap_finish im"]) (use assms in \<open>auto simp: image_ok_def\<close>)
  obtain m a where im: "main_tcb im = Some m" "main_stack im = Some a" "m \<noteq> idle_tcb im"
    "m \<noteq> timer_tcb im" "idle_tcb im \<noteq> timer_tcb im" "stack_fits a 2048"
    "stack_fits (idle_stack im) 256" "stack_fits (timer_stack im) 512"
    using assms by (auto simp: image_ok_def split: option.splits)
  let ?i = "idle_tcb im" and ?t = "timer_tcb im"
  let ?k0 = "before_threads im"
  have init: "th_stat (threads ?k0 u) = RT_THREAD_INIT" "timer_thread ?k0 = ?t"
    "timer_lists ?k0 h = []" "interrupt_nest ?k0 = 0" for u h
    by (simp_all add: before_threads_def heap_lock_init_def rt_mutex_init_def ipc_object_init_def upd_mutex_def
        reset_kernel_def rt_system_timer_init_def rt_system_scheduler_init_def zero_thread_def)
  let ?k1 = "boot_thread m 10 20 a 2048 ?k0"
  note b1 = boot_thread_ok [where p = 10 and n = 20 and t = m, OF before_threads_booting(1) [of im] init(1) _ im(6), simplified]
  have sa: "?k1\<lparr>timer_lists := (timer_lists ?k1)(SoftTimers := [])\<rparr> = ?k1"
    using b1(7) init(3) by (metis fun_upd_triv kernel.surjective kernel.update_convs(4))
  have i2: "th_stat (threads ?k1 ?t) = RT_THREAD_INIT" using b1(5) [of ?t] im(4) init(1) by simp
  let ?k2 = "boot_thread ?t 4 10 (timer_stack im) 512 ?k1"
  note b2 = boot_thread_ok [where p = 4 and n = 10, OF b1(2) i2 _ im(8), simplified]
  have i3: "th_stat (threads ?k2 ?i) = RT_THREAD_INIT"
    using b2(5) [of ?i] b1(5) [of ?i] im(3,5) init(1) by simp
  let ?k3 = "boot_thread ?i 31 32 (idle_stack im) 256 ?k2"
  note b3 = boot_thread_ok [where p = 31 and n = 32, OF b2(2) i3 _ im(7), simplified]
  have th3: "threads ?k3 m = threads ?k1 m" "threads ?k3 ?t = threads ?k2 ?t"
    using b3(5) b2(5) im(3,4,5) by metis+
  have other: "th_stat (threads ?k3 u) = RT_THREAD_INIT" if "u \<notin> {m, ?t, ?i}" for u
    using that b3(5) [of u] b2(5) [of u] b1(5) [of u] init(1) by simp
  have rt: "th_stat (threads ?k3 ?t) = RT_THREAD_READY" using th3(2) b2(3) by simp
  obtain t k where k: "rt_system_scheduler_start ?k3 = Some k" "kinv k" "current_thread k = Some t"
    "th_stat (threads ?k3 t) = RT_THREAD_READY" "th_stat (threads k t) = RT_THREAD_RUNNING" "lock_nest k = 0"
    "\<And>v. th_stat (threads ?k3 v) = RT_THREAD_READY \<Longrightarrow>
       current_priority (threads ?k3 t) \<le> current_priority (threads ?k3 v)"
    "\<And>v. v \<noteq> t \<Longrightarrow> threads k v = threads ?k3 v" "interrupt_nest k = interrupt_nest ?k3"
    "threads k t = (threads ?k3 t)\<lparr>th_stat := RT_THREAD_RUNNING, th_yield := False\<rparr>"
    "same_objects ?k3 k"
    by (rule booting_start [OF b3(2) rt]) (rule that)
  have pr: "current_priority (threads ?k3 ?t) = 4" "current_priority (threads ?k3 m) = 10"
    "current_priority (threads ?k3 ?i) = 31"
    using th3 b1(4) b2(4) b3(4) by simp_all
  have t: "t = ?t"
    using k(4) k(7) [OF rt] other [of t] pr by (cases "t = m"; cases "t = ?i") auto
  show thesis
  proof (rule that [OF _ k(2) k(3) [unfolded t]])
    show "rtthread_startup im (reset_kernel im) = Some k"
      unfolding rtthread_startup_def rt_application_init_def
      by (simp add: heap before_threads_def [symmetric] im(1,2) rt_thread_create_def thread_init_fresh im(6-8) b1(1) Let_def
          rt_system_timer_thread_init_def sa b1(6) init(2) b2(1) rt_thread_idle_init_def b3(1) k(1))
    show "th_stat (threads k ?t) = RT_THREAD_RUNNING" using k(5) t by simp
    show "th_stat (threads k (the (main_tcb im))) = RT_THREAD_READY"
      "current_priority (threads k (the (main_tcb im))) = 10"
      using k(8) [of m] t im(4) th3(1) b1(3,4) by (simp_all add: im(1))
    show "th_stat (threads k ?i) = RT_THREAD_READY" "current_priority (threads k ?i) = 31"
      using k(8) [of ?i] t im(5) b3(3,4) by simp_all
    show "current_priority (threads k ?t) = 4" using k(10) t pr by simp
    show "same_objects ?k0 k"
      by (rule same_objects_trans [OF same_objects_trans [OF same_objects_trans [OF
            boot_thread_objects [OF before_threads_booting(1) init(1)] boot_thread_objects [OF b1(2) i2]]
            boot_thread_objects [OF b2(2) i3]] k(11)])
    show "interrupt_nest k = 0" using k(9) b1(8) b2(8) b3(8) init(4) by simp
    show "th_stat (threads k u) = RT_THREAD_INIT" if "u \<notin> {the (main_tcb im), ?i, ?t}" for u
      using that k(8) [of u] t other [of u] im(1) by simp
  qed (rule k(6))
qed

subsection \<open>A board\<close>

text \<open>A memory map of the kind the linker produces, for evaluation.\<close>

definition board :: image where
  "board = \<lparr>main_tcb = Some 1, main_stack = Some 0x20001000, idle_tcb = 2, idle_stack = 0x20002000,
     timer_tcb = 3, timer_stack = 0x20003000, main_thread_entry = 0x08000101, idle_entry = 0x08000201,
     timer_entry = 0x08000301, exit_hook = 0x08000401,
     heap_mutex = 6, heap_begin = 0x20004000, heap_finish = 0x20010000, ram = (\<lambda>_. 0)\<rparr>"

definition booted :: kernel where
  "booted = the (rtthread_startup board (reset_kernel board))"

lemma board_ok: "image_ok board"
  by (simp add: image_ok_def board_def stack_fits_def)

lemma booted:
  "rtthread_startup board (reset_kernel board) = Some booted" "kinv booted" "current_thread booted = Some 3"
  "th_stat (threads booted 3) = RT_THREAD_RUNNING" "lock_nest booted = 0" "interrupt_nest booted = 0"
  "th_stat (threads booted 1) = RT_THREAD_READY" "current_priority (threads booted 1) = 10"
  "th_stat (threads booted 2) = RT_THREAD_READY" "current_priority (threads booted 2) = 31"
  "current_priority (threads booted 3) = 4"
  "sems booted s = \<lparr>sem_flag = RT_IPC_FLAG_FIFO, sem_value = 0\<rparr>"
  "mutexes booted 6 = \<lparr>mutex_value = 1, original_priority = 255, mutex_hold = 0, mutex_owner = None\<rparr>"
  "events booted s = \<lparr>ev_flag = RT_IPC_FLAG_FIFO, ev_set = 0\<rparr>"
  "rt_tick booted = 0" "timer_lists booted g = []" "timers booted (User_Timer n) = zero_timer"
  "\<not> is_ready h \<Longrightarrow> lists booted h = []"
  "u \<notin> {1, 2, 3} \<Longrightarrow> th_stat (threads booted u) = RT_THREAD_INIT" "punctual booted"
proof -
  let ?k0 = "before_threads board"
  obtain k where k: "rtthread_startup board (reset_kernel board) = Some k" "kinv k"
    "current_thread k = Some (timer_tcb board)" "th_stat (threads k (timer_tcb board)) = RT_THREAD_RUNNING"
    "lock_nest k = 0" "interrupt_nest k = 0"
    "th_stat (threads k (the (main_tcb board))) = RT_THREAD_READY"
    "current_priority (threads k (the (main_tcb board))) = 10"
    "th_stat (threads k (idle_tcb board)) = RT_THREAD_READY"
    "current_priority (threads k (idle_tcb board)) = 31"
    "current_priority (threads k (timer_tcb board)) = 4" "same_objects ?k0 k"
    "\<And>u. u \<notin> {the (main_tcb board), idle_tcb board, timer_tcb board} \<Longrightarrow>
       th_stat (threads k u) = RT_THREAD_INIT"
    by (rule rtthread_startup_ok [OF board_ok]) (rule that)
  have b: "booted = k" by (simp add: booted_def k(1))
  show "rtthread_startup board (reset_kernel board) = Some booted" "kinv booted" "current_thread booted = Some 3"
    "th_stat (threads booted 3) = RT_THREAD_RUNNING" "lock_nest booted = 0" "interrupt_nest booted = 0"
    "th_stat (threads booted 1) = RT_THREAD_READY" "current_priority (threads booted 1) = 10"
    "th_stat (threads booted 2) = RT_THREAD_READY" "current_priority (threads booted 2) = 31"
    "current_priority (threads booted 3) = 4"
    using k unfolding b by (simp_all add: board_def)
  show "sems booted s = \<lparr>sem_flag = RT_IPC_FLAG_FIFO, sem_value = 0\<rparr>"
    "mutexes booted 6 = \<lparr>mutex_value = 1, original_priority = 255, mutex_hold = 0, mutex_owner = None\<rparr>"
    "events booted s = \<lparr>ev_flag = RT_IPC_FLAG_FIFO, ev_set = 0\<rparr>"
    "rt_tick booted = 0" "timer_lists booted g = []" "timers booted (User_Timer n) = zero_timer"
    "\<not> is_ready h \<Longrightarrow> lists booted h = []"
    using k(12) unfolding b
    by (auto simp: same_objects_def before_threads_def heap_lock_init_def rt_mutex_init_def ipc_object_init_def
        upd_mutex_def board_def reset_kernel_def rt_system_timer_init_def rt_system_scheduler_init_def
        split: lhead.splits)
  show "punctual booted" using k(12) before_threads_booting(2) [of board] unfolding b by (simp add: same_objects_def)
  show "u \<notin> {1, 2, 3} \<Longrightarrow> th_stat (threads booted u) = RT_THREAD_INIT"
    using k(13) [of u] unfolding b by (simp add: board_def)
qed

lemma booted_ready:
  assumes "u \<in> set (lists booted (ReadyQ p))"
  shows "u = 1 \<and> p = 10 \<or> u = 2 \<and> p = 31"
proof -
  note S = kinvD(2) [OF booted(2)]
  have u: "th_stat (threads booted u) = RT_THREAD_READY" "current_priority (threads booted u) = p"
    using sched_invD(4) [OF S assms] sched_invD(5) [OF S assms] by simp_all
  then have "u \<in> {1, 2, 3}" using booted(19) [of u] by (cases "u \<in> {1, 2, 3}") (simp, fastforce)
  then show ?thesis using u booted(4,8,10) by force
qed

end
