(* ===== verification/Ipc_Event.thy ===== *)
theory Ipc_Event
  imports Ipc_Sem
begin

unbundle bit_operations_syntax

text \<open>
  The events of \<open>src/ipc.c\<close>: 32 flags, and threads that wait for all or for any of a set of them.
  A send walks the waiting list once, wakes the threads whose condition holds and may clear the
  flags they consumed, so that later threads of the same walk see fewer flags. The invariant
  says that no satisfied thread is left waiting.
\<close>

subsection \<open>Operations\<close>

abbreviation (input) EVENT_AND :: "byte \<Rightarrow> bool" where "EVENT_AND info \<equiv> bit info 0"
abbreviation (input) EVENT_OR :: "byte \<Rightarrow> bool" where "EVENT_OR info \<equiv> bit info 1"
abbreviation (input) EVENT_CLEAR :: "byte \<Rightarrow> bool" where "EVENT_CLEAR info \<equiv> bit info 2"

definition upd_event :: "nat \<Rightarrow> (event \<Rightarrow> event) \<Rightarrow> kernel \<Rightarrow> kernel" where
  "upd_event e f k = k\<lparr>events := (events k)(e := f (events k e))\<rparr>"

definition rt_event_init :: "nat \<Rightarrow> ipc_flag \<Rightarrow> kernel \<Rightarrow> int \<times> kernel" where
  "rt_event_init e flag k =
     (RT_EOK, upd_event e (\<lambda>_. \<lparr>ev_flag = flag, ev_set = 0\<rparr>) (ipc_object_init (SuspQ e) k))"

definition rt_event_create :: "nat option \<Rightarrow> ipc_flag \<Rightarrow> kernel \<Rightarrow> (nat option \<times> kernel) option" where
  "rt_event_create obj flag k = do {
     _ \<leftarrow> RT_DEBUG_NOT_IN_INTERRUPT k;
     Some (case obj of
         None \<Rightarrow> (None, k)
       | Some e \<Rightarrow> (Some e, upd_event e (\<lambda>_. \<lparr>ev_flag = flag, ev_set = 0\<rparr>) (ipc_object_init (SuspQ e) k))) }"

definition rt_event_detach :: "nat \<Rightarrow> kernel \<Rightarrow> (int \<times> kernel) option" where
  "rt_event_detach e k = do { k \<leftarrow> ipc_list_resume_all (SuspQ e) k; Some (RT_EOK, k) }"

definition rt_event_delete :: "nat \<Rightarrow> kernel \<Rightarrow> (int \<times> kernel) option" where
  "rt_event_delete e k = do {
     _ \<leftarrow> RT_DEBUG_NOT_IN_INTERRUPT k;
     k \<leftarrow> ipc_list_resume_all (SuspQ e) k;
     Some (RT_EOK, k) }"

text \<open>
  The walk over the nodes of the list, which reads \<open>n->next\<close> before it resumes the thread of \<open>n\<close>.
  A thread with neither flag makes the send return at once with \<open>-RT_EINVAL\<close>.
\<close>

fun event_send_loop :: "nat \<Rightarrow> nat list \<Rightarrow> bool \<Rightarrow> kernel \<Rightarrow> int \<times> bool \<times> kernel" where
  "event_send_loop e [] need_schedule k = (RT_EOK, need_schedule, k)"
| "event_send_loop e (t # ts) need_schedule k =
     (let info = event_info (threads k t);
          want = event_set (threads k t);
          flags = ev_set (events k e)
      in if EVENT_AND info \<or> EVENT_OR info then
           let ok = (if EVENT_AND info then want AND flags = want else want AND flags \<noteq> 0);
               k = (if \<not> EVENT_AND info \<and> ok
                    then upd_thread t (\<lambda>h. h\<lparr>event_set := want AND flags\<rparr>) k else k)
           in if ok then
                let k = (if EVENT_CLEAR info
                         then upd_event e (\<lambda>x. x\<lparr>ev_set := ev_set x AND NOT (event_set (threads k t))\<rparr>) k else k);
                    k = snd (rt_thread_resume t k)
                in event_send_loop e ts True k
              else event_send_loop e ts need_schedule k
         else (- RT_EINVAL, need_schedule, k))"

definition rt_event_send :: "nat \<Rightarrow> u32 \<Rightarrow> kernel \<Rightarrow> (int \<times> kernel) option" where
  "rt_event_send e flags k =
     (if flags = 0 then Some (- RT_ERROR, k)
      else
        let k = upd_event e (\<lambda>x. x\<lparr>ev_set := ev_set x OR flags\<rparr>) k;
            (err, need_schedule, k) = event_send_loop e (lists k (SuspQ e)) False k
        in if err \<noteq> RT_EOK then Some (err, k)
           else do {
             k \<leftarrow> (if need_schedule then rt_schedule k else Some k);
             Some (RT_EOK, k) })"

text \<open>The second component of a return is what is stored at \<open>recved\<close>.\<close>

definition rt_event_recv ::
  "nat \<Rightarrow> u32 \<Rightarrow> byte \<Rightarrow> int \<Rightarrow> kernel \<Rightarrow> ((int \<times> u32 option) ret \<times> kernel) option" where
  "rt_event_recv e flags opt timeout k = do {
     _ \<leftarrow> RT_DEBUG_SCHEDULER_AVAILABLE True k;
     if flags = 0 then Some (Ret (- RT_ERROR, None), k)
     else do {
       t \<leftarrow> rt_thread_self k;
       let k = upd_thread t (\<lambda>h. h\<lparr>th_error := RT_EOK\<rparr>) k;
       _ \<leftarrow> rt_assert (EVENT_AND opt \<or> EVENT_OR opt);
       let now = ev_set (events k e);
       let ok = (if EVENT_AND opt then now AND flags = flags else now AND flags \<noteq> 0);
       if ok then
         let k = upd_thread t (\<lambda>h. h\<lparr>event_set := now AND flags, event_info := opt\<rparr>) k;
             k = (if EVENT_CLEAR opt then upd_event e (\<lambda>x. x\<lparr>ev_set := ev_set x AND NOT flags\<rparr>) k else k)
         in Some (Ret (th_error (threads k t), Some (now AND flags)), k)
       else if timeout = 0 then
         Some (Ret (- RT_ETIMEOUT, None), upd_thread t (\<lambda>h. h\<lparr>th_error := - RT_ETIMEOUT\<rparr>) k)
       else do {
         let k = upd_thread t (\<lambda>h. h\<lparr>event_set := flags, event_info := opt\<rparr>) k;
         k \<leftarrow> ipc_suspend_timed (SuspQ e) t (ev_flag (events k e)) timeout k;
         k \<leftarrow> rt_schedule k;
         Some (Blocked, k) } } }"

definition rt_event_recv_resume :: "nat \<Rightarrow> kernel \<Rightarrow> int \<times> u32 option" where
  "rt_event_recv_resume t k =
     (if th_error (threads k t) \<noteq> RT_EOK then (th_error (threads k t), None)
      else (th_error (threads k t), Some (event_set (threads k t))))"

definition rt_event_control :: "nat \<Rightarrow> ipc_cmd \<Rightarrow> kernel \<Rightarrow> (int \<times> kernel) option" where
  "rt_event_control e cmd k =
     (case cmd of
        RT_IPC_CMD_RESET _ \<Rightarrow> do {
          k \<leftarrow> ipc_list_resume_all (SuspQ e) k;
          let k = upd_event e (\<lambda>x. x\<lparr>ev_set := 0\<rparr>) k;
          k \<leftarrow> rt_schedule k;
          Some (RT_EOK, k) }
      | RT_IPC_CMD_OTHER \<Rightarrow> Some (- RT_ERROR, k))"

lemma upd_event_simps [simp]:
  "events (upd_event e f k) = (events k)(e := f (events k e))"
  "threads (upd_event e f k) = threads k" "lists (upd_event e f k) = lists k"
  "kinv_x Y (upd_event e f k) = kinv_x Y k" "current_thread (upd_event e f k) = current_thread k"
  "timers (upd_event e f k) = timers k" "timer_lists (upd_event e f k) = timer_lists k"
  "rt_tick (upd_event e f k) = rt_tick k" "lock_nest (upd_event e f k) = lock_nest k"
  "interrupt_nest (upd_event e f k) = interrupt_nest k"
  by (simp_all add: upd_event_def)

subsection \<open>The walk as a function of what the threads wait for\<close>

definition satisfied :: "u32 \<Rightarrow> u32 \<Rightarrow> byte \<Rightarrow> bool" where
  "satisfied now want info \<longleftrightarrow> (if EVENT_AND info then want AND now = want else want AND now \<noteq> 0)"

text \<open>
  The specification of a walk: who is woken with which flags, who stays, and the flags left. A
  thread that waits for all flags receives its whole set, one that waits for any receives
  those that are there.
\<close>

fun wake_walk :: "(nat \<Rightarrow> u32 \<times> byte) \<Rightarrow> u32 \<Rightarrow> nat list \<Rightarrow> (nat \<times> u32) list \<times> nat list \<times> u32" where
  "wake_walk w now [] = ([], [], now)"
| "wake_walk w now (t # ts) =
     (let (want, info) = w t in
      if satisfied now want info then
        let got = (if EVENT_AND info then want else want AND now);
            (woken, stay, left) = wake_walk w (if EVENT_CLEAR info then now AND NOT got else now) ts
        in ((t, got) # woken, stay, left)
      else
        let (woken, stay, left) = wake_walk w now ts in (woken, t # stay, left))"

text \<open>Flags are only cleared during a walk, and a condition that fails keeps failing.\<close>

lemma and_sub:
  fixes l n x :: u32
  assumes "l AND (n AND x) = l"
  shows "l AND n = l"
proof -
  have "l AND n = (l AND (n AND x)) AND n" using assms by simp
  also have "\<dots> = l AND (n AND x)" by (rule bit_word_eqI) (auto simp: bit_and_iff)
  finally show ?thesis using assms by simp
qed

lemma wake_walk_left: "wake_walk w now ts = (woken, stay, left) \<Longrightarrow> left AND now = left"
proof (induction w now ts arbitrary: woken stay left rule: wake_walk.induct)
  case (2 w now t ts)
  obtain want info where w: "w t = (want, info)" by fastforce
  show ?case
  proof (cases "satisfied now want info")
    case True
    let ?got = "if EVENT_AND info then want else want AND now"
    let ?now = "if EVENT_CLEAR info then now AND NOT ?got else now"
    obtain wk st where r: "wake_walk w ?now ts = (wk, st, left)"
      using 2(3) True w by (auto simp: Let_def split: prod.splits)
    have "left AND ?now = left" by (rule 2(1) [OF w [symmetric] refl True refl r])
    then show ?thesis by (cases "EVENT_CLEAR info") (auto dest: and_sub)
  next
    case False
    then show ?thesis using 2 w by (auto simp: Let_def split: prod.splits)
  qed
qed simp

lemma satisfied_mono:
  assumes "left AND now = left" "satisfied left want info"
  shows "satisfied now want info"
proof (cases "EVENT_AND info")
  case True
  then have "want AND left = want" using assms(2) by (simp add: satisfied_def)
  then have "want AND (left AND now) = want" using assms(1) by simp
  moreover have "(want AND left) AND now = want AND (left AND now)" by (simp only: and.assoc)
  ultimately have "want AND now = want" using \<open>want AND left = want\<close> by simp
  then show ?thesis using True by (simp add: satisfied_def)
next
  case False
  then have "want AND left \<noteq> 0" using assms(2) by (simp add: satisfied_def)
  then have "want AND (left AND now) \<noteq> 0" using assms(1) by simp
  moreover have "want AND (left AND now) = (want AND now) AND left"
    by (rule bit_word_eqI) (auto simp: bit_and_iff)
  ultimately have "want AND now \<noteq> 0" by auto
  then show ?thesis using False by (simp add: satisfied_def)
qed

lemma wake_walk_stay:
  assumes "wake_walk w now ts = (woken, stay, left)" "t \<in> set stay"
  shows "t \<in> set ts" "\<not> satisfied left (fst (w t)) (snd (w t))"
proof -
  have "t \<in> set ts \<and> \<not> satisfied left (fst (w t)) (snd (w t))"
    using assms
  proof (induction w now ts arbitrary: woken stay left rule: wake_walk.induct)
    case (2 w now t' ts)
    obtain want info where w: "w t' = (want, info)" by fastforce
    show ?case
    proof (cases "satisfied now want info")
      case True
      then show ?thesis using 2 w by (auto simp: Let_def split: prod.splits)
    next
      case False
      obtain st where r: "wake_walk w now ts = (woken, st, left)" "stay = t' # st"
        using 2(3) False w by (auto simp: Let_def split: prod.splits)
      have "\<not> satisfied left want info"
        using satisfied_mono [OF wake_walk_left [OF r(1)]] False by blast
      then show ?thesis
        using 2(2) [OF w [symmetric] refl False r(1)] 2(4) r(2) w by auto
    qed
  qed simp
  then show "t \<in> set ts" "\<not> satisfied left (fst (w t)) (snd (w t))" by auto
qed

lemma wake_walk_cong:
  assumes "\<And>t. t \<in> set ts \<Longrightarrow> v t = w t"
  shows "wake_walk v now ts = wake_walk w now ts"
  using assms
proof (induction ts arbitrary: now)
  case (Cons t ts)
  then have "v t = w t" "\<And>n. wake_walk v n ts = wake_walk w n ts" by simp_all
  then show ?case by (cases "w t") simp
qed simp

lemma wake_walk_woken: "wake_walk w now ts = (woken, stay, left) \<Longrightarrow> fst ` set woken \<subseteq> set ts"
proof (induction ts arbitrary: now woken stay left)
  case (Cons t ts)
  obtain want info where w: "w t = (want, info)" by fastforce
  show ?case
  proof (cases "satisfied now want info")
    case True
    let ?got = "if EVENT_AND info then want else want AND now"
    obtain wk where r: "wake_walk w (if EVENT_CLEAR info then now AND NOT ?got else now) ts = (wk, stay, left)"
      "woken = (t, ?got) # wk"
      using Cons.prems True w by (auto simp: Let_def split: prod.splits)
    show ?thesis using Cons.IH [OF r(1)] r(2) by auto
  next
    case False
    obtain st where r: "wake_walk w now ts = (woken, st, left)"
      using Cons.prems False w by (auto simp: Let_def split: prod.splits)
    show ?thesis using Cons.IH [OF r] by auto
  qed
qed simp

subsection \<open>Sending\<close>

definition wants :: "kernel \<Rightarrow> nat \<Rightarrow> u32 \<times> byte" where
  "wants k t = (event_set (threads k t), event_info (threads k t))"

text \<open>
  The invariant: every waiting thread waits for all or for any of some flags, and the flags
  that are set do not satisfy it.
\<close>

definition event_inv :: "nat \<Rightarrow> kernel \<Rightarrow> bool" where
  "event_inv e k \<longleftrightarrow> kinv k \<and>
     (\<forall>t \<in> set (lists k (SuspQ e)).
        (EVENT_AND (event_info (threads k t)) \<or> EVENT_OR (event_info (threads k t))) \<and>
        \<not> satisfied (ev_set (events k e)) (event_set (threads k t)) (event_info (threads k t)))"

text \<open>One round that wakes its thread.\<close>

definition wake_one :: "nat \<Rightarrow> nat \<Rightarrow> kernel \<Rightarrow> kernel" where
  "wake_one e t k =
     (let info = event_info (threads k t);
          got = (if EVENT_AND info then event_set (threads k t)
                 else event_set (threads k t) AND ev_set (events k e));
          k = upd_thread t (\<lambda>h. h\<lparr>event_set := got\<rparr>) k;
          k = (if EVENT_CLEAR info then upd_event e (\<lambda>x. x\<lparr>ev_set := ev_set x AND NOT got\<rparr>) k else k)
      in snd (rt_thread_resume t k))"

lemma upd_thread_id: "f (threads k t) = threads k t \<Longrightarrow> upd_thread t f k = k"
  by (simp add: upd_thread_def fun_upd_idem)

lemma event_send_loop_step:
  assumes "EVENT_AND (event_info (threads k t)) \<or> EVENT_OR (event_info (threads k t))"
  shows "event_send_loop e (t # ts) b k =
    (if satisfied (ev_set (events k e)) (event_set (threads k t)) (event_info (threads k t))
     then event_send_loop e ts True (wake_one e t k) else event_send_loop e ts b k)"
proof (cases "EVENT_AND (event_info (threads k t))")
  case True
  have id: "upd_thread t (\<lambda>h. h\<lparr>event_set := event_set (threads k t)\<rparr>) k = k"
    by (rule upd_thread_id) simp
  show ?thesis using True by (simp add: satisfied_def wake_one_def id)
next
  case False
  then show ?thesis using assms by (simp add: satisfied_def wake_one_def Let_def)
qed

lemma wake_one_ok:
  fixes e :: nat
  assumes inv: "kinv k" and sus: "th_stat (threads k t) = RT_THREAD_SUSPEND"
  defines "got \<equiv> (if EVENT_AND (event_info (threads k t)) then event_set (threads k t)
       else event_set (threads k t) AND ev_set (events k e))"
  shows "kinv (wake_one e t k)" "lists (wake_one e t k) (SuspQ a) = remove1 t (lists k (SuspQ a))"
    "ev_set (events (wake_one e t k) e) = (if EVENT_CLEAR (event_info (threads k t))
       then ev_set (events k e) AND NOT got else ev_set (events k e))"
    "event_set (threads (wake_one e t k) t) = got"
    "th_stat (threads (wake_one e t k) t) \<noteq> RT_THREAD_SUSPEND"
    "th_error (threads (wake_one e t k) t) = th_error (threads k t)"
    "u \<noteq> t \<Longrightarrow> threads (wake_one e t k) u = threads k u"
    "current_thread (wake_one e t k) = current_thread k"
proof -
  let ?k1 = "upd_thread t (\<lambda>h. h\<lparr>event_set := got\<rparr>) k"
  let ?k2 = "if EVENT_CLEAR (event_info (threads k t))
    then upd_event e (\<lambda>x. x\<lparr>ev_set := ev_set x AND NOT got\<rparr>) ?k1 else ?k1"
  have e: "wake_one e t k = snd (rt_thread_resume t ?k2)"
    by (simp add: wake_one_def got_def Let_def)
  have "kinv ?k1" by (rule kinv_upd_thread [OF inv]) (simp_all add: scheduler_stack_check_def)
  then have i2: "kinv ?k2" by simp
  have s2: "th_stat (threads ?k2 t) = RT_THREAD_SUSPEND" using sus by simp
  note r = rt_thread_resume_simps [OF s2]
  show "kinv (wake_one e t k)" unfolding e by (rule rt_thread_resume_suspended(2) [OF i2 s2]) simp
  show "lists (wake_one e t k) (SuspQ a) = remove1 t (lists k (SuspQ a))"
    unfolding e r by (simp add: l_remove_def l_append_def)
  show "ev_set (events (wake_one e t k) e) = (if EVENT_CLEAR (event_info (threads k t))
       then ev_set (events k e) AND NOT got else ev_set (events k e))"
    unfolding e by simp
  show "event_set (threads (wake_one e t k) t) = got" unfolding e r by simp
  show "th_stat (threads (wake_one e t k) t) \<noteq> RT_THREAD_SUSPEND" unfolding e r by simp
  show "th_error (threads (wake_one e t k) t) = th_error (threads k t)" unfolding e r by simp
  show "u \<noteq> t \<Longrightarrow> threads (wake_one e t k) u = threads k u" unfolding e r by simp
  show "current_thread (wake_one e t k) = current_thread k" unfolding e by simp
qed

lemma event_send_loop_ok:
  assumes "kinv k" "lists k (SuspQ e) = rs @ ts"
    "\<forall>t \<in> set ts. EVENT_AND (event_info (threads k t)) \<or> EVENT_OR (event_info (threads k t))"
    "wake_walk (wants k) (ev_set (events k e)) ts = (woken, stay, left)"
  shows "\<exists>k'. event_send_loop e ts b k = (RT_EOK, b \<or> woken \<noteq> [], k') \<and> kinv k' \<and>
    lists k' (SuspQ e) = rs @ stay \<and> ev_set (events k' e) = left \<and>
    (\<forall>(t, got) \<in> set woken. event_set (threads k' t) = got \<and>
       th_stat (threads k' t) \<noteq> RT_THREAD_SUSPEND \<and> th_error (threads k' t) = th_error (threads k t)) \<and>
    (\<forall>t. t \<notin> fst ` set woken \<longrightarrow> threads k' t = threads k t)"
  using assms
proof (induction ts arbitrary: k rs b woken stay left)
  case Nil
  then show ?case by simp
next
  case (Cons t ts)
  let ?now = "ev_set (events k e)" and ?want = "event_set (threads k t)" and ?info = "event_info (threads k t)"
  have w: "wants k t = (?want, ?info)" by (simp add: wants_def)
  have fl: "EVENT_AND ?info \<or> EVENT_OR ?info" using Cons.prems(3) by simp
  have d: "distinct (rs @ t # ts)"
    using wf_listsD(1) [OF sched_invD(1) [OF kinvD(2) [OF Cons.prems(1)]], of "SuspQ e"] Cons.prems(2)
    by simp
  show ?case
  proof (cases "satisfied ?now ?want ?info")
    case False
    obtain st where r: "wake_walk (wants k) ?now ts = (woken, st, left)" "stay = t # st"
      using Cons.prems(4) False by (auto simp: w Let_def split: prod.splits)
    have "lists k (SuspQ e) = (rs @ [t]) @ ts" using Cons.prems(2) by simp
    from Cons.IH [OF Cons.prems(1) this _ r(1), of b] Cons.prems(3)
    show ?thesis unfolding event_send_loop_step [OF fl] using False r(2) by simp
  next
    case True
    let ?got = "if EVENT_AND ?info then ?want else ?want AND ?now"
    let ?left = "if EVENT_CLEAR ?info then ?now AND NOT ?got else ?now"
    obtain wk where r: "wake_walk (wants k) ?left ts = (wk, stay, left)" "woken = (t, ?got) # wk"
      using Cons.prems(4) True by (auto simp: w Let_def split: prod.splits)
    let ?k = "wake_one e t k"
    have sus: "th_stat (threads k t) = RT_THREAD_SUSPEND"
      using sched_invD(4) [OF kinvD(2) [OF Cons.prems(1)], of t "SuspQ e"] Cons.prems(2) by simp
    note W = wake_one_ok [OF Cons.prems(1) sus]
    have q: "lists ?k (SuspQ e) = rs @ ts"
      unfolding W(2) Cons.prems(2) using d by (simp add: remove1_append remove1_idem)
    have nt: "t \<notin> set ts" using d by simp
    have same: "threads ?k u = threads k u" if "u \<in> set ts" for u
      by (rule W(7)) (use that nt in auto)
    have "wake_walk (wants ?k) (ev_set (events ?k e)) ts = (wk, stay, left)"
      unfolding W(3) r(1) [symmetric] by (rule wake_walk_cong) (simp add: wants_def same)
    from Cons.IH [OF W(1) q _ this, of True] Cons.prems(3) same obtain k' where
      k': "event_send_loop e ts True ?k = (RT_EOK, True, k')" "kinv k'"
        "lists k' (SuspQ e) = rs @ stay" "ev_set (events k' e) = left"
        "\<forall>(u, got) \<in> set wk. event_set (threads k' u) = got \<and>
           th_stat (threads k' u) \<noteq> RT_THREAD_SUSPEND \<and> th_error (threads k' u) = th_error (threads ?k u)"
        "\<forall>u. u \<notin> fst ` set wk \<longrightarrow> threads k' u = threads ?k u"
      by auto
    have sub: "fst ` set wk \<subseteq> set ts" by (rule wake_walk_woken [OF r(1)])
    then have tk: "threads k' t = threads ?k t" using k'(6) nt by blast
    have "\<forall>(u, got) \<in> set woken. event_set (threads k' u) = got \<and>
        th_stat (threads k' u) \<noteq> RT_THREAD_SUSPEND \<and> th_error (threads k' u) = th_error (threads k u)"
    proof (rule ballI, clarify)
      fix u got assume "(u, got) \<in> set woken"
      then consider "u = t" "got = ?got" | "(u, got) \<in> set wk" using r(2) by auto
      then show "event_set (threads k' u) = got \<and> th_stat (threads k' u) \<noteq> RT_THREAD_SUSPEND \<and>
          th_error (threads k' u) = th_error (threads k u)"
      proof cases
        case 1
        then show ?thesis using tk W(4-6) by simp
      next
        case 2
        then have "u \<in> set ts" using sub by force
        then show ?thesis using k'(5) 2 same by fastforce
      qed
    qed
    moreover have "\<forall>u. u \<notin> fst ` set woken \<longrightarrow> threads k' u = threads k u"
      using k'(6) W(7) r(2) by simp
    ultimately show ?thesis
      unfolding event_send_loop_step [OF fl] using True k' r(2) by simp
  qed
qed

text \<open>
  A send wakes the threads of the walk with the flags they receive, in one pass, and leaves no
  satisfied thread waiting.
\<close>

lemma rt_event_send_ok:
  assumes inv: "event_inv e k" and f: "flags \<noteq> 0"
    and walk: "wake_walk (wants k) (ev_set (events k e) OR flags) (lists k (SuspQ e)) = (woken, stay, left)"
  obtains k' where "rt_event_send e flags k = Some (RT_EOK, k')" "event_inv e k'"
    "lists k' (SuspQ e) = stay" "ev_set (events k' e) = left"
    "\<And>t got. (t, got) \<in> set woken \<Longrightarrow> th_stat (threads k' t) \<noteq> RT_THREAD_SUSPEND \<and>
       (th_error (threads k t) = RT_EOK \<longrightarrow> rt_event_recv_resume t k' = (RT_EOK, Some got))"
proof -
  have ki: "kinv k" using inv by (simp add: event_inv_def)
  let ?k1 = "upd_event e (\<lambda>x. x\<lparr>ev_set := ev_set x OR flags\<rparr>) k"
  have i1: "kinv ?k1" and q1: "lists ?k1 (SuspQ e) = [] @ lists k (SuspQ e)" using ki by simp_all
  have w1: "wake_walk (wants ?k1) (ev_set (events ?k1 e)) (lists k (SuspQ e)) = (woken, stay, left)"
  proof -
    have "wants ?k1 = wants k" by (rule ext) (simp add: wants_def)
    then show ?thesis using walk by simp
  qed
  have "\<forall>t \<in> set (lists k (SuspQ e)). EVENT_AND (event_info (threads ?k1 t)) \<or> EVENT_OR (event_info (threads ?k1 t))"
    using inv by (simp add: event_inv_def)
  from event_send_loop_ok [OF i1 q1 this w1, of False] obtain k2 where
    k2: "event_send_loop e (lists k (SuspQ e)) False ?k1 = (RT_EOK, woken \<noteq> [], k2)" "kinv k2"
      "lists k2 (SuspQ e) = stay" "ev_set (events k2 e) = left"
      "\<forall>(t, got) \<in> set woken. event_set (threads k2 t) = got \<and>
         th_stat (threads k2 t) \<noteq> RT_THREAD_SUSPEND \<and> th_error (threads k2 t) = th_error (threads k t)"
      "\<forall>t. t \<notin> fst ` set woken \<longrightarrow> threads k2 t = threads k t"
    by auto
  obtain k' where k': "(if woken \<noteq> [] then rt_schedule k2 else Some k2) = Some k'" "kinv k'"
    "\<And>u. same_tcb (threads k2 u) (threads k' u)" "lists k' (SuspQ e) = lists k2 (SuspQ e)"
    "events k' = events k2"
  proof (cases "woken = []")
    case True
    then show thesis using k2(2) by (intro that [of k2]) simp_all
  next
    case False
    obtain k' where k': "rt_schedule k2 = Some k'" "kinv k'" "\<And>u. same_tcb (threads k2 u) (threads k' u)"
      "\<And>g. \<not> is_ready g \<Longrightarrow> lists k' g = lists k2 g"
      by (rule kinv_schedule [OF k2(2)]) (rule that)
    then show thesis using False rt_schedule_frame(10) [OF k'(1)] by (intro that [of k']) simp_all
  qed
  have keep: "event_set (threads k' t) = event_set (threads k2 t)"
    "event_info (threads k' t) = event_info (threads k2 t)" "th_error (threads k' t) = th_error (threads k2 t)" for t
    using same_tcbD(3-5) [OF k'(3) [of t]] by simp_all
  show thesis
  proof (rule that)
    show "rt_event_send e flags k = Some (RT_EOK, k')"
      using f k2(1) k'(1) by (simp add: rt_event_send_def Let_def)
    show "lists k' (SuspQ e) = stay" "ev_set (events k' e) = left" using k'(4,5) k2(3,4) by simp_all
    show "event_inv e k'"
      unfolding event_inv_def
    proof (intro conjI ballI k'(2))
      fix t assume "t \<in> set (lists k' (SuspQ e))"
      then have t: "t \<in> set stay" by (simp add: k'(4) k2(3))
      note st = wake_walk_stay [OF walk t]
      have "t \<notin> fst ` set woken"
      proof
        assume "t \<in> fst ` set woken"
        then have "th_stat (threads k2 t) \<noteq> RT_THREAD_SUSPEND" using k2(5) by fastforce
        then show False
          using sched_invD(4) [OF kinvD(2) [OF k2(2)], of t "SuspQ e"] t k2(3) by simp
      qed
      then have "threads k2 t = threads k t" using k2(6) by blast
      then show "EVENT_AND (event_info (threads k' t)) \<or> EVENT_OR (event_info (threads k' t))"
        "\<not> satisfied (ev_set (events k' e)) (event_set (threads k' t)) (event_info (threads k' t))"
        using st inv k'(5) k2(4) by (simp_all add: keep wants_def event_inv_def)
    qed
    show "th_stat (threads k' t) \<noteq> RT_THREAD_SUSPEND \<and>
       (th_error (threads k t) = RT_EOK \<longrightarrow> rt_event_recv_resume t k' = (RT_EOK, Some got))"
      if "(t, got) \<in> set woken" for t got
    proof -
      have "event_set (threads k2 t) = got" "th_stat (threads k2 t) \<noteq> RT_THREAD_SUSPEND"
        "th_error (threads k2 t) = th_error (threads k t)"
        using k2(5) that by auto
      then show ?thesis
        using same_tcbD(10) [OF k'(3) [of t]] by (fastforce simp: rt_event_recv_resume_def keep)
    qed
  qed
qed

subsection \<open>Receiving\<close>

text \<open>
  A receive returns the flags at once when its condition holds, times out at once when it may
  not wait, and otherwise waits, unsatisfied, with the invariant kept.
\<close>

lemma event_inv_recv_now:
  assumes "event_inv e k" "current_thread k = Some t" "th_stat (threads k t) = RT_THREAD_RUNNING"
    "kinv k'" "lists k' = lists k" "\<And>u. u \<noteq> t \<Longrightarrow> threads k' u = threads k u"
    "ev_set (events k' e) AND ev_set (events k e) = ev_set (events k' e)"
  shows "event_inv e k'"
  unfolding event_inv_def
proof (intro conjI ballI assms(4))
  have ki: "kinv k" using assms(1) by (simp add: event_inv_def)
  fix u assume "u \<in> set (lists k' (SuspQ e))"
  then have u: "u \<in> set (lists k (SuspQ e))" using assms(5) by simp
  then have "u \<noteq> t" using sched_invD(4) [OF kinvD(2) [OF ki] u] assms(3) by auto
  then have e: "threads k' u = threads k u" by (rule assms(6))
  show "EVENT_AND (event_info (threads k' u)) \<or> EVENT_OR (event_info (threads k' u))"
    using assms(1) u by (simp add: event_inv_def e)
  have "\<not> satisfied (ev_set (events k e)) (event_set (threads k u)) (event_info (threads k u))"
    using assms(1) u by (simp add: event_inv_def)
  then show "\<not> satisfied (ev_set (events k' e)) (event_set (threads k' u)) (event_info (threads k' u))"
    using satisfied_mono [OF assms(7)] by (auto simp: e)
qed

lemma upd_thread_upd: "upd_thread t f (upd_thread t g k) = upd_thread t (\<lambda>h. f (g h)) k"
  by (simp add: upd_thread_def)

lemma rt_event_recv_ok:
  assumes inv: "event_inv e k" and t: "in_thread k t" and f: "flags \<noteq> 0"
    and opt: "EVENT_AND opt \<or> EVENT_OR opt" and time: "timeout < 2 ^ 31 - 1"
  obtains r k' where "rt_event_recv e flags opt timeout k = Some (r, k')" "event_inv e k'"
    "satisfied (ev_set (events k e)) flags opt \<Longrightarrow>
       r = Ret (RT_EOK, Some (ev_set (events k e) AND flags)) \<and> lists k' = lists k \<and>
       ev_set (events k' e) = (if EVENT_CLEAR opt then ev_set (events k e) AND NOT flags
         else ev_set (events k e))"
    "\<not> satisfied (ev_set (events k e)) flags opt \<Longrightarrow> timeout = 0 \<Longrightarrow>
       r = Ret (- RT_ETIMEOUT, None) \<and> lists k' = lists k \<and> events k' = events k"
    "\<not> satisfied (ev_set (events k e)) flags opt \<Longrightarrow> timeout \<noteq> 0 \<Longrightarrow>
       r = Blocked \<and> th_stat (threads k' t) = RT_THREAD_SUSPEND \<and> events k' = events k \<and>
       lists k' (SuspQ e) = wait_insert (ev_flag (events k e)) (\<lambda>u. current_priority (threads k u)) t
         (lists k (SuspQ e))"
proof -
  note D = in_threadD [OF t]
  have ki: "kinv k" using inv by (simp add: event_inv_def)
  let ?now = "ev_set (events k e)"
  let ?k1 = "upd_thread t (\<lambda>h. h\<lparr>th_error := RT_EOK\<rparr>) k"
  note recv = rt_event_recv_def Let_def D upd_thread_upd satisfied_def and.commute [of flags]
  show thesis
  proof (cases "satisfied ?now flags opt")
    case True
    let ?f = "\<lambda>h. h\<lparr>th_error := RT_EOK, event_set := ?now AND flags, event_info := opt\<rparr>"
    let ?k2 = "upd_thread t ?f k"
    let ?k3 = "if EVENT_CLEAR opt then upd_event e (\<lambda>x. x\<lparr>ev_set := ev_set x AND NOT flags\<rparr>) ?k2 else ?k2"
    have "kinv ?k2" by (rule kinv_upd_thread [OF ki]) (simp_all add: scheduler_stack_check_def)
    then have i3: "kinv ?k3" by simp
    have e3: "events ?k2 = events k" by (simp add: upd_thread_def)
    show thesis
    proof (rule that [of "Ret (RT_EOK, Some (?now AND flags))" ?k3])
      show "rt_event_recv e flags opt timeout k = Some (Ret (RT_EOK, Some (?now AND flags)), ?k3)"
        using f opt True by (cases "EVENT_AND opt") (simp_all add: recv)
      show "event_inv e ?k3"
      proof (rule event_inv_recv_now [OF inv D(1,2) i3])
        show "ev_set (events ?k3 e) AND ev_set (events k e) = ev_set (events ?k3 e)"
          by (rule bit_word_eqI) (auto simp: e3 bit_and_iff)
      qed auto
    qed (use True e3 in auto)
  next
    case ns: False
    show thesis
    proof (cases "timeout = 0")
      case True
      let ?k2 = "upd_thread t (\<lambda>h. h\<lparr>th_error := - RT_ETIMEOUT\<rparr>) ?k1"
      have i2: "kinv ?k2" by (rule kinv_upd_error [OF kinv_upd_error [OF ki]])
      show thesis
      proof (rule that [of "Ret (- RT_ETIMEOUT, None)" ?k2])
        show "rt_event_recv e flags opt timeout k = Some (Ret (- RT_ETIMEOUT, None), ?k2)"
          using f opt ns True by (cases "EVENT_AND opt") (simp_all add: recv)
        show "event_inv e ?k2" by (rule event_inv_recv_now [OF inv D(1,2) i2]) simp_all
      qed (use ns True in simp_all)
    next
      case False
      let ?f = "\<lambda>h. h\<lparr>th_error := RT_EOK, event_set := flags, event_info := opt\<rparr>"
      let ?k2 = "upd_thread t ?f k"
      have i2: "kinv ?k2" by (rule kinv_upd_thread [OF ki]) (simp_all add: scheduler_stack_check_def)
      have c: "current_thread ?k2 = Some t" "th_stat (threads ?k2 t) = RT_THREAD_RUNNING"
        using D by simp_all
      obtain k3 k' where k': "ipc_suspend_timed (SuspQ e) t (ev_flag (events k e)) timeout ?k2 = Some k3"
        "rt_schedule k3 = Some k'" "kinv k'" "threads k' t = (threads ?k2 t)\<lparr>th_stat := RT_THREAD_SUSPEND\<rparr>"
        "lists k' (SuspQ e) = wait_insert (ev_flag (events k e)) (\<lambda>u. current_priority (threads ?k2 u)) t
           (lists ?k2 (SuspQ e))"
        "\<And>u. u \<noteq> t \<Longrightarrow> same_tcb (threads ?k2 u) (threads k' u)" "events k' = events ?k2"
        by (rule ipc_block_ok [OF i2 c list_stat.simps(2) time]) (rule that)
      have p: "(\<lambda>u. current_priority (threads ?k2 u)) = (\<lambda>u. current_priority (threads k u))"
        by (auto simp: fun_eq_iff)
      have q: "lists k' (SuspQ e) = wait_insert (ev_flag (events k e)) (\<lambda>u. current_priority (threads k u)) t
          (lists k (SuspQ e))"
        using k'(5) unfolding p by simp
      have ev: "events k' = events k" using k'(7) by simp
      show thesis
      proof (rule that [of Blocked k'])
        show "rt_event_recv e flags opt timeout k = Some (Blocked, k')"
          using f opt ns False k'(1,2) by (cases "EVENT_AND opt") (simp_all add: recv)
        show "event_inv e k'"
          unfolding event_inv_def
        proof (intro conjI ballI k'(3))
          fix u assume "u \<in> set (lists k' (SuspQ e))"
          then have u: "u = t \<or> u \<noteq> t \<and> u \<in> set (lists k (SuspQ e))" unfolding q set_wait_insert by auto
          have same: "event_info (threads k' u) = event_info (threads ?k2 u)"
            "event_set (threads k' u) = event_set (threads ?k2 u)"
            using k'(4) same_tcbD(4,5) [OF k'(6), of u] by (cases "u = t"; simp)+
          show "EVENT_AND (event_info (threads k' u)) \<or> EVENT_OR (event_info (threads k' u))"
            "\<not> satisfied (ev_set (events k' e)) (event_set (threads k' u)) (event_info (threads k' u))"
            using u inv opt ns unfolding same ev by (auto simp: event_inv_def)
        qed
      qed (use ns False k'(4) q ev in simp_all)
    qed
  qed
qed

text \<open>A reset clears the flags and ends every wait with an error.\<close>

lemma rt_event_reset_ok:
  assumes inv: "event_inv e k"
  obtains k' where "rt_event_control e (RT_IPC_CMD_RESET v) k = Some (RT_EOK, k')" "event_inv e k'"
    "ev_set (events k' e) = 0" "lists k' (SuspQ e) = []"
    "\<And>t. t \<in> set (lists k (SuspQ e)) \<Longrightarrow>
       rt_event_recv_resume t k' = (- RT_ERROR, None) \<and> th_stat (threads k' t) \<noteq> RT_THREAD_SUSPEND"
proof -
  have ki: "kinv k" using inv by (simp add: event_inv_def)
  obtain k1 where k1: "ipc_list_resume_all (SuspQ e) k = Some k1" "kinv k1" "lists k1 (SuspQ e) = []"
    "\<And>t. t \<in> set (lists k (SuspQ e)) \<Longrightarrow> th_error (threads k1 t) = - RT_ERROR \<and>
       th_stat (threads k1 t) \<noteq> RT_THREAD_SUSPEND"
    by (rule ipc_list_resume_all_ok [OF ki list_stat.simps(2)]) (rule that)
  let ?k2 = "upd_event e (\<lambda>x. x\<lparr>ev_set := 0\<rparr>) k1"
  have i2: "kinv ?k2" using k1(2) by simp
  obtain k' where k': "rt_schedule ?k2 = Some k'" "kinv k'" "\<And>u. same_tcb (threads ?k2 u) (threads k' u)"
    "\<And>h. \<not> is_ready h \<Longrightarrow> lists k' h = lists ?k2 h"
    by (rule kinv_schedule [OF i2]) (rule that)
  have ls: "lists k' (SuspQ e) = []" using k'(4) [of "SuspQ e"] k1(3) by simp
  show thesis
  proof (rule that [OF _ _ _ ls])
    show "rt_event_control e (RT_IPC_CMD_RESET v) k = Some (RT_EOK, k')"
      using k1(1) k'(1) by (simp add: rt_event_control_def)
    show "event_inv e k'" using k'(2) by (simp add: event_inv_def ls)
    show "ev_set (events k' e) = 0" using rt_schedule_frame(10) [OF k'(1)] by simp
    show "rt_event_recv_resume t k' = (- RT_ERROR, None) \<and> th_stat (threads k' t) \<noteq> RT_THREAD_SUSPEND"
      if "t \<in> set (lists k (SuspQ e))" for t
      using k1(4) [OF that] same_tcbD(3) [OF k'(3) [of t]] same_tcbD(10) [OF k'(3) [of t]]
      by (fastforce simp: rt_event_recv_resume_def)
  qed
qed

end
