(* ===== verification/Ipc_Mailbox.thy ===== *)
theory Ipc_Mailbox
  imports Ipc_Sem Fifo
begin

text \<open>
  The mailboxes of \<open>src/ipc.c\<close>: a ring of 32-bit words in \<open>mailboxes\<close>, receivers waiting behind
  \<open>SuspQ m\<close> and senders behind \<open>SenderQ m\<close>. The storage part of each operation is a function on
  the mailbox record, and provides the buffer interface; the operations wrap it in the
  waiting loop. A call that blocks returns the time it has left and the tick at which it
  went to sleep; \<open>mb_send_resume\<close> and \<open>mb_recv_resume\<close> are the rest of the loop body.
\<close>

subsection \<open>Storage\<close>

definition mb_store :: "u32 \<Rightarrow> mailbox \<Rightarrow> (int \<times> mailbox) option" where
  "mb_store value mb = do {
     _ \<leftarrow> rt_assert (mb_in_offset mb < length (mb_pool mb));
     let mb = mb\<lparr>mb_pool := (mb_pool mb)[mb_in_offset mb := value]\<rparr>;
     let mb = mb\<lparr>mb_in_offset := (mb_in_offset mb + 1) mod 2 ^ 16\<rparr>;
     let mb = (if mb_in_offset mb \<ge> mb_size mb then mb\<lparr>mb_in_offset := 0\<rparr> else mb);
     if mb_entry mb < 65535 then Some (RT_EOK, mb\<lparr>mb_entry := mb_entry mb + 1\<rparr>)
     else Some (- RT_EFULL, mb) }"

definition mb_fetch :: "mailbox \<Rightarrow> (u32 \<times> mailbox) option" where
  "mb_fetch mb = do {
     _ \<leftarrow> rt_assert (mb_out_offset mb < length (mb_pool mb));
     let value = mb_pool mb ! mb_out_offset mb;
     let mb = mb\<lparr>mb_out_offset := (mb_out_offset mb + 1) mod 2 ^ 16\<rparr>;
     let mb = (if mb_out_offset mb \<ge> mb_size mb then mb\<lparr>mb_out_offset := 0\<rparr> else mb);
     Some (value, if mb_entry mb > 0 then mb\<lparr>mb_entry := mb_entry mb - 1\<rparr> else mb) }"

definition mb_store_front :: "u32 \<Rightarrow> mailbox \<Rightarrow> mailbox option" where
  "mb_store_front value mb = do {
     let mb = (if mb_out_offset mb > 0 then mb\<lparr>mb_out_offset := mb_out_offset mb - 1\<rparr>
               else mb\<lparr>mb_out_offset := (mb_size mb + 65535) mod 2 ^ 16\<rparr>);
     _ \<leftarrow> rt_assert (mb_out_offset mb < length (mb_pool mb));
     let mb = mb\<lparr>mb_pool := (mb_pool mb)[mb_out_offset mb := value]\<rparr>;
     Some (mb\<lparr>mb_entry := (mb_entry mb + 1) mod 2 ^ 16\<rparr>) }"

subsection \<open>Operations\<close>

definition upd_mb :: "nat \<Rightarrow> (mailbox \<Rightarrow> mailbox) \<Rightarrow> kernel \<Rightarrow> kernel" where
  "upd_mb m f k = k\<lparr>mailboxes := (mailboxes k)(m := f (mailboxes k m))\<rparr>"

definition rt_mb_init :: "nat \<Rightarrow> u32 list \<Rightarrow> nat \<Rightarrow> ipc_flag \<Rightarrow> kernel \<Rightarrow> int \<times> kernel" where
  "rt_mb_init m msgpool sz flag k =
     (let k = ipc_object_init (SuspQ m) k;
          k = upd_mb m (\<lambda>_. \<lparr>mb_flag = flag, mb_pool = msgpool, mb_size = sz mod 2 ^ 16, mb_entry = 0,
                             mb_in_offset = 0, mb_out_offset = 0\<rparr>) k
      in (RT_EOK, ipc_object_init (SenderQ m) k))"

text \<open>The second allocation is the pool, of which the content is \<open>mem\<close>.\<close>

definition rt_mb_create ::
  "nat option \<Rightarrow> u32 list option \<Rightarrow> nat \<Rightarrow> ipc_flag \<Rightarrow> kernel \<Rightarrow> (nat option \<times> kernel) option" where
  "rt_mb_create obj mem sz flag k = do {
     _ \<leftarrow> RT_DEBUG_NOT_IN_INTERRUPT k;
     Some (case obj of
         None \<Rightarrow> (None, k)
       | Some m \<Rightarrow>
           let k = ipc_object_init (SuspQ m) k in
           case mem of
             None \<Rightarrow> (None, k)
           | Some msgpool \<Rightarrow>
               (Some m, ipc_object_init (SenderQ m)
                  (upd_mb m (\<lambda>_. \<lparr>mb_flag = flag, mb_pool = msgpool, mb_size = sz mod 2 ^ 16, mb_entry = 0,
                     mb_in_offset = 0, mb_out_offset = 0\<rparr>) k))) }"

definition rt_mb_detach :: "nat \<Rightarrow> kernel \<Rightarrow> (int \<times> kernel) option" where
  "rt_mb_detach m k = do {
     k \<leftarrow> ipc_list_resume_all (SuspQ m) k;
     k \<leftarrow> ipc_list_resume_all (SenderQ m) k;
     Some (RT_EOK, k) }"

definition rt_mb_delete :: "nat \<Rightarrow> kernel \<Rightarrow> (int \<times> kernel) option" where
  "rt_mb_delete m k = do {
     _ \<leftarrow> RT_DEBUG_NOT_IN_INTERRUPT k;
     k \<leftarrow> ipc_list_resume_all (SuspQ m) k;
     k \<leftarrow> ipc_list_resume_all (SenderQ m) k;
     Some (RT_EOK, k) }"

text \<open>One test of the loop condition, with what follows it up to the next \<open>rt_schedule\<close>.\<close>

definition mb_send_round :: "nat \<Rightarrow> u32 \<Rightarrow> int \<Rightarrow> kernel \<Rightarrow> (int waiting_ret \<times> kernel) option" where
  "mb_send_round m value timeout k =
     (if mb_entry (mailboxes k m) = mb_size (mailboxes k m) then do {
        t \<leftarrow> rt_thread_self k;
        let k = upd_thread t (\<lambda>h. h\<lparr>th_error := RT_EOK\<rparr>) k;
        if timeout = 0 then Some (Done (- RT_EFULL), k)
        else do {
          let tick_delta = (if timeout > 0 then rt_tick_get k else 0);
          k \<leftarrow> ipc_suspend_timed (SenderQ m) t (mb_flag (mailboxes k m)) timeout k;
          k \<leftarrow> rt_schedule k;
          Some (Waiting timeout tick_delta, k) }
      } else do {
        (err, mb) \<leftarrow> mb_store value (mailboxes k m);
        let k = upd_mb m (\<lambda>_. mb) k;
        if err \<noteq> RT_EOK then Some (Done err, k)
        else do {
          k \<leftarrow> ipc_wake_one (SuspQ m) k;
          Some (Done RT_EOK, k) } })"

definition rt_mb_send_wait :: "nat \<Rightarrow> u32 \<Rightarrow> int \<Rightarrow> kernel \<Rightarrow> (int waiting_ret \<times> kernel) option" where
  "rt_mb_send_wait m value timeout k = do {
     _ \<leftarrow> RT_DEBUG_SCHEDULER_AVAILABLE (timeout \<noteq> 0) k;
     if mb_entry (mailboxes k m) = mb_size (mailboxes k m) \<and> timeout = 0
     then Some (Done (- RT_EFULL), k)
     else mb_send_round m value timeout k }"

definition mb_send_resume ::
  "nat \<Rightarrow> u32 \<Rightarrow> int \<Rightarrow> u32 \<Rightarrow> kernel \<Rightarrow> (int waiting_ret \<times> kernel) option" where
  "mb_send_resume m value timeout tick_delta k = do {
     t \<leftarrow> rt_thread_self k;
     if th_error (threads k t) \<noteq> RT_EOK then Some (Done (th_error (threads k t)), k)
     else mb_send_round m value (time_left timeout tick_delta (rt_tick_get k)) k }"

definition rt_mb_send :: "nat \<Rightarrow> u32 \<Rightarrow> kernel \<Rightarrow> (int waiting_ret \<times> kernel) option" where
  "rt_mb_send m value k = rt_mb_send_wait m value 0 k"

definition rt_mb_urgent :: "nat \<Rightarrow> u32 \<Rightarrow> kernel \<Rightarrow> (int \<times> kernel) option" where
  "rt_mb_urgent m value k =
     (if mb_entry (mailboxes k m) = mb_size (mailboxes k m) then Some (- RT_EFULL, k)
      else do {
        mb \<leftarrow> mb_store_front value (mailboxes k m);
        let k = upd_mb m (\<lambda>_. mb) k;
        k \<leftarrow> ipc_wake_one (SuspQ m) k;
        Some (RT_EOK, k) })"

definition mb_recv_round :: "nat \<Rightarrow> int \<Rightarrow> kernel \<Rightarrow> ((int \<times> u32 option) waiting_ret \<times> kernel) option" where
  "mb_recv_round m timeout k =
     (if mb_entry (mailboxes k m) = 0 then do {
        t \<leftarrow> rt_thread_self k;
        let k = upd_thread t (\<lambda>h. h\<lparr>th_error := RT_EOK\<rparr>) k;
        if timeout = 0 then
          Some (Done (- RT_ETIMEOUT, None), upd_thread t (\<lambda>h. h\<lparr>th_error := - RT_ETIMEOUT\<rparr>) k)
        else do {
          let tick_delta = (if timeout > 0 then rt_tick_get k else 0);
          k \<leftarrow> ipc_suspend_timed (SuspQ m) t (mb_flag (mailboxes k m)) timeout k;
          k \<leftarrow> rt_schedule k;
          Some (Waiting timeout tick_delta, k) }
      } else do {
        (value, mb) \<leftarrow> mb_fetch (mailboxes k m);
        let k = upd_mb m (\<lambda>_. mb) k;
        k \<leftarrow> ipc_wake_one (SenderQ m) k;
        Some (Done (RT_EOK, Some value), k) })"

definition rt_mb_recv :: "nat \<Rightarrow> int \<Rightarrow> kernel \<Rightarrow> ((int \<times> u32 option) waiting_ret \<times> kernel) option" where
  "rt_mb_recv m timeout k = do {
     _ \<leftarrow> RT_DEBUG_SCHEDULER_AVAILABLE (timeout \<noteq> 0) k;
     if mb_entry (mailboxes k m) = 0 \<and> timeout = 0 then Some (Done (- RT_ETIMEOUT, None), k)
     else mb_recv_round m timeout k }"

definition mb_recv_resume ::
  "nat \<Rightarrow> int \<Rightarrow> u32 \<Rightarrow> kernel \<Rightarrow> ((int \<times> u32 option) waiting_ret \<times> kernel) option" where
  "mb_recv_resume m timeout tick_delta k = do {
     t \<leftarrow> rt_thread_self k;
     if th_error (threads k t) \<noteq> RT_EOK then Some (Done (th_error (threads k t), None), k)
     else mb_recv_round m (time_left timeout tick_delta (rt_tick_get k)) k }"

definition rt_mb_control :: "nat \<Rightarrow> ipc_cmd \<Rightarrow> kernel \<Rightarrow> (int \<times> kernel) option" where
  "rt_mb_control m cmd k =
     (case cmd of
        RT_IPC_CMD_RESET _ \<Rightarrow> do {
          k \<leftarrow> ipc_list_resume_all (SuspQ m) k;
          k \<leftarrow> ipc_list_resume_all (SenderQ m) k;
          let k = upd_mb m (\<lambda>x. x\<lparr>mb_entry := 0, mb_in_offset := 0, mb_out_offset := 0\<rparr>) k;
          k \<leftarrow> rt_schedule k;
          Some (RT_EOK, k) }
      | RT_IPC_CMD_OTHER \<Rightarrow> Some (- RT_ERROR, k))"

lemma upd_mb_simps [simp]:
  "mailboxes (upd_mb m f k) = (mailboxes k)(m := f (mailboxes k m))"
  "threads (upd_mb m f k) = threads k" "lists (upd_mb m f k) = lists k"
  "kinv_x Y (upd_mb m f k) = kinv_x Y k" "current_thread (upd_mb m f k) = current_thread k"
  "timers (upd_mb m f k) = timers k" "timer_lists (upd_mb m f k) = timer_lists k"
  "rt_tick (upd_mb m f k) = rt_tick k" "lock_nest (upd_mb m f k) = lock_nest k"
  "interrupt_nest (upd_mb m f k) = interrupt_nest k"
  by (simp_all add: upd_mb_def)

subsection \<open>The storage is a bounded queue\<close>

definition mb_ok :: "mailbox \<Rightarrow> bool" where
  "mb_ok mb \<longleftrightarrow> 0 < mb_size mb \<and> mb_size mb < 2 ^ 16 \<and> mb_size mb \<le> length (mb_pool mb) \<and>
     mb_entry mb \<le> mb_size mb \<and> mb_out_offset mb < mb_size mb \<and>
     mb_in_offset mb = (mb_out_offset mb + mb_entry mb) mod mb_size mb"

definition mb_list :: "mailbox \<Rightarrow> u32 list" where
  "mb_list mb = ring (mb_pool mb) (mb_size mb) (mb_out_offset mb) (mb_entry mb)"

lemma next_index:
  fixes i n :: nat
  assumes "i < n" "n < 2 ^ 16"
  shows "(if (i + 1) mod 2 ^ 16 \<ge> n then 0 else (i + 1) mod 2 ^ 16) = Suc i mod n"
proof (cases "Suc i = n")
  case True
  then show ?thesis using assms by simp
next
  case False
  then show ?thesis using assms by simp
qed

lemma mb_store_ok:
  assumes ok: "mb_ok mb" and room: "mb_entry mb < mb_size mb"
  obtains mb' where "mb_store x mb = Some (RT_EOK, mb')" "mb_ok mb'" "mb_list mb' = mb_list mb @ [x]"
    "mb_size mb' = mb_size mb" "mb_flag mb' = mb_flag mb" "mb_entry mb' = mb_entry mb + 1"
proof -
  let ?n = "mb_size mb" and ?i = "mb_in_offset mb" and ?o = "mb_out_offset mb" and ?e = "mb_entry mb"
  note O = ok [unfolded mb_ok_def]
  have i: "?i < ?n" using O by simp
  let ?mb = "mb\<lparr>mb_pool := (mb_pool mb)[?i := x], mb_in_offset := Suc ?i mod ?n, mb_entry := ?e + 1\<rparr>"
  have len: "?n \<le> length (mb_pool mb)" using O by blast
  have il: "?i < length (mb_pool mb)" "?n < 2 ^ 16" "?e < 65535"
    using less_le_trans [OF i len] O room by simp_all
  have st: "mb_store x mb = Some (RT_EOK, ?mb)"
    using il next_index [OF i il(2)] by (auto simp: mb_store_def Let_def split: if_splits)
  have nxt: "Suc ?i mod ?n = (?o + (?e + 1)) mod ?n" using O by (simp add: mod_Suc_eq)
  have "mb_ok ?mb" using O room nxt by (simp add: mb_ok_def)
  moreover have "mb_list ?mb = mb_list mb @ [x]"
  proof -
    have "ring ((mb_pool mb)[?i := x]) ?n ?o ?e = ring (mb_pool mb) ?n ?o ?e"
      using ring_update_outside [of "?o + ?e" ?n "mb_pool mb" ?o ?e x] O room i by simp
    moreover have "(mb_pool mb)[?i := x] ! ((?o + ?e) mod ?n) = x"
      using il(1) nth_list_update_eq [of ?i "mb_pool mb" x] O by metis
    ultimately show ?thesis by (simp add: mb_list_def ring_Suc)
  qed
  ultimately show thesis using that [OF st] by simp
qed

lemma mb_fetch_ok:
  assumes ok: "mb_ok mb" and ne: "mb_list mb = x # xs"
  obtains mb' where "mb_fetch mb = Some (x, mb')" "mb_ok mb'" "mb_list mb' = xs"
    "mb_size mb' = mb_size mb" "mb_flag mb' = mb_flag mb"
proof -
  let ?n = "mb_size mb" and ?o = "mb_out_offset mb" and ?e = "mb_entry mb"
  note O = ok [unfolded mb_ok_def]
  have e: "0 < ?e" using ne by (cases ?e) (simp_all add: mb_list_def)
  have c: "mb_pool mb ! (?o mod ?n) = x" "ring (mb_pool mb) ?n (Suc ?o) (?e - 1) = xs"
    using ne ring_Cons [OF e, of "mb_pool mb" ?n ?o] by (simp_all add: mb_list_def)
  let ?mb = "mb\<lparr>mb_out_offset := Suc ?o mod ?n, mb_entry := ?e - 1\<rparr>"
  have o: "?o < ?n" using O by simp
  have ol: "?o < length (mb_pool mb)" "?n < 2 ^ 16" "mb_pool mb ! ?o = x" using O o c(1) by simp_all
  have f: "mb_fetch mb = Some (x, ?mb)"
    using ol e next_index [OF o ol(2)] by (auto simp: mb_fetch_def Let_def split: if_splits)
  have "(Suc ?o mod ?n + (?e - 1)) mod ?n = (Suc ?o + (?e - 1)) mod ?n" by (simp only: mod_add_left_eq)
  then have "(Suc ?o mod ?n + (?e - 1)) mod ?n = (?o + ?e) mod ?n"
    using e by simp
  moreover have "?e - 1 \<le> ?n" using O by linarith
  ultimately have "mb_ok ?mb" using O by (simp add: mb_ok_def)
  moreover have "mb_list ?mb = xs" using c(2) by (simp add: mb_list_def ring_start_mod)
  ultimately show thesis using that [OF f] by simp
qed

lemma mb_store_front_ok:
  assumes ok: "mb_ok mb" and room: "mb_entry mb < mb_size mb"
  obtains mb' where "mb_store_front x mb = Some mb'" "mb_ok mb'" "mb_list mb' = x # mb_list mb"
    "mb_size mb' = mb_size mb" "mb_flag mb' = mb_flag mb"
proof -
  let ?n = "mb_size mb" and ?o = "mb_out_offset mb" and ?e = "mb_entry mb"
  note O = ok [unfolded mb_ok_def]
  let ?p = "if 0 < ?o then ?o - 1 else ?n - 1"
  let ?mb = "mb\<lparr>mb_out_offset := ?p, mb_pool := (mb_pool mb)[?p := x], mb_entry := ?e + 1\<rparr>"
  have wrap: "(?n + 65535) mod 2 ^ 16 = ?n - 1"
  proof -
    have "?n + 65535 = (?n - 1) + 2 ^ 16" using O by simp
    moreover have "?n - 1 < 2 ^ 16" using O by linarith
    ultimately show ?thesis by (simp only: mod_add_self2 mod_less)
  qed
  have p: "?p < ?n" "Suc ?p mod ?n = ?o" using O by (auto simp: mod_Suc)
  have "(?e + 1) mod 2 ^ 16 = ?e + 1" using O room by simp
  then have st: "mb_store_front x mb = Some ?mb"
    using O p wrap by (auto simp: mb_store_front_def Let_def)
  have "(?p + (?e + 1)) mod ?n = (Suc ?p mod ?n + ?e) mod ?n" by (simp add: mod_add_left_eq)
  then have "mb_ok ?mb" using O p room by (simp add: mb_ok_def)
  moreover have "mb_list ?mb = x # mb_list mb"
  proof -
    have "ring ((mb_pool mb)[?p := x]) ?n (Suc ?p) ?e = ring (mb_pool mb) ?n (Suc ?p) ?e"
    proof (rule ring_cong)
      fix k assume "k < ?e"
      then have "?p < Suc ?p + k" "Suc ?p + k < ?p + ?n" using room by auto
      then have "?p mod ?n \<noteq> (Suc ?p + k) mod ?n" by (rule mod_window_neq)
      then show "(mb_pool mb)[?p := x] ! ((Suc ?p + k) mod ?n) = mb_pool mb ! ((Suc ?p + k) mod ?n)"
        using p(1) by simp
    qed
    also have "ring (mb_pool mb) ?n (Suc ?p) ?e = mb_list mb"
      using ring_start_mod [of "mb_pool mb" ?n "Suc ?p" ?e] p(2) by (simp add: mb_list_def)
    finally have "ring ((mb_pool mb)[?p := x]) ?n (Suc ?p) ?e = mb_list mb" .
    moreover have "(mb_pool mb)[?p := x] ! (?p mod ?n) = x" using p(1) O by simp
    ultimately show ?thesis by (simp add: mb_list_def ring_Cons del: One_nat_def)
  qed
  ultimately show thesis using that [OF st] by simp
qed

definition mb_put :: "u32 \<Rightarrow> mailbox \<Rightarrow> mailbox option" where
  "mb_put x mb = (if mb_entry mb = mb_size mb then None else map_option snd (mb_store x mb))"

definition mb_get :: "mailbox \<Rightarrow> (u32 \<times> mailbox) option" where
  "mb_get mb = (if mb_entry mb = 0 then None else mb_fetch mb)"

definition mb_put_front :: "u32 \<Rightarrow> mailbox \<Rightarrow> mailbox option" where
  "mb_put_front x mb = (if mb_entry mb = mb_size mb then None else mb_store_front x mb)"

lemma length_mb_list [simp]: "length (mb_list mb) = mb_entry mb"
  by (simp add: mb_list_def)

interpretation mbq: urgent_fifo mb_ok mb_list mb_size "\<lambda>_ _. True" "\<lambda>_. 0" mb_put mb_get mb_put_front
proof unfold_locales
  fix s x xs
  show "mb_ok s \<Longrightarrow> length (mb_list s) \<le> mb_size s" by (simp add: mb_ok_def)
  show "\<exists>s'. mb_put x s = Some s' \<and> mb_ok s' \<and> mb_list s' = mb_list s @ [x] \<and> mb_size s' = mb_size s \<and> (0::nat) = 0"
    if s: "mb_ok s" "length (mb_list s) < mb_size s"
  proof -
    have r: "mb_entry s < mb_size s" using s(2) by simp
    show ?thesis by (rule mb_store_ok [OF s(1) r, of x]) (use r in \<open>simp add: mb_put_def\<close>)
  qed
  show "mb_ok s \<Longrightarrow> length (mb_list s) = mb_size s \<Longrightarrow> mb_put x s = None" by (simp add: mb_put_def)
  show "\<exists>s'. mb_get s = Some (x, s') \<and> mb_ok s' \<and> mb_list s' = xs \<and> mb_size s' = mb_size s \<and> (0::nat) = 0"
    if s: "mb_ok s" "mb_list s = x # xs"
  proof -
    have e: "mb_entry s \<noteq> 0" using s(2) length_mb_list [of s] by auto
    show ?thesis by (rule mb_fetch_ok [OF s]) (use e in \<open>simp add: mb_get_def\<close>)
  qed
  show "mb_ok s \<Longrightarrow> mb_list s = [] \<Longrightarrow> mb_get s = None"
    using length_mb_list [of s] by (simp add: mb_get_def)
  show "\<exists>s'. mb_put_front x s = Some s' \<and> mb_ok s' \<and> mb_list s' = x # mb_list s \<and> mb_size s' = mb_size s \<and> (0::nat) = 0"
    if s: "mb_ok s" "length (mb_list s) < mb_size s"
  proof -
    have r: "mb_entry s < mb_size s" using s(2) by simp
    show ?thesis by (rule mb_store_front_ok [OF s(1) r, of x]) (use r in \<open>simp add: mb_put_front_def\<close>)
  qed
  show "mb_ok s \<Longrightarrow> length (mb_list s) = mb_size s \<Longrightarrow> mb_put_front x s = None"
    by (simp add: mb_put_front_def)
qed

subsection \<open>The operations on the kernel\<close>

definition mb_inv :: "nat \<Rightarrow> kernel \<Rightarrow> bool" where
  "mb_inv m k \<longleftrightarrow> kinv k \<and> mb_ok (mailboxes k m)"

text \<open>A send into a mailbox with room appends the value and wakes the first receiver.\<close>

lemma mb_send_room:
  assumes inv: "mb_inv m k" and room: "mb_entry (mailboxes k m) < mb_size (mailboxes k m)"
  obtains k' where "mb_send_round m x timeout k = Some (Done RT_EOK, k')" "mb_inv m k'"
    "mb_list (mailboxes k' m) = mb_list (mailboxes k m) @ [x]"
    "mb_size (mailboxes k' m) = mb_size (mailboxes k m)"
    "lists k' (SuspQ m) = tl (lists k (SuspQ m))" "lists k' (SenderQ m) = lists k (SenderQ m)"
    "lists k (SuspQ m) \<noteq> [] \<Longrightarrow>
       th_stat (threads k' (hd (lists k (SuspQ m)))) \<noteq> RT_THREAD_SUSPEND"
proof -
  have ki: "kinv k" "mb_ok (mailboxes k m)" using inv by (simp_all add: mb_inv_def)
  obtain mb where mb: "mb_store x (mailboxes k m) = Some (RT_EOK, mb)" "mb_ok mb"
    "mb_list mb = mb_list (mailboxes k m) @ [x]" "mb_size mb = mb_size (mailboxes k m)"
    by (rule mb_store_ok [OF ki(2) room, of x]) (rule that)
  let ?k = "upd_mb m (\<lambda>_. mb) k"
  have i1: "kinv ?k" using ki(1) by simp
  obtain k' where k': "ipc_wake_one (SuspQ m) ?k = Some k'" "kinv k'" "mailboxes k' = mailboxes ?k"
    "lists k' (SuspQ m) = tl (lists ?k (SuspQ m))"
    "lists ?k (SuspQ m) \<noteq> [] \<Longrightarrow> th_stat (threads k' (hd (lists ?k (SuspQ m)))) \<noteq> RT_THREAD_SUSPEND"
    "\<And>g. g \<noteq> SuspQ m \<Longrightarrow> \<not> is_ready g \<Longrightarrow> lists k' g = lists ?k g"
    by (rule ipc_wake_one_ok [OF i1 list_stat.simps(2)]) (rule that)
  show thesis
    by (rule that [of k'])
      (use room mb k' in \<open>simp_all add: mb_send_round_def mb_inv_def\<close>)
qed

text \<open>A receive from a mailbox that holds something takes the oldest value and wakes the first sender.\<close>

lemma mb_recv_some:
  assumes inv: "mb_inv m k" and ne: "mb_list (mailboxes k m) = x # xs"
  obtains k' where "mb_recv_round m timeout k = Some (Done (RT_EOK, Some x), k')" "mb_inv m k'"
    "mb_list (mailboxes k' m) = xs" "mb_size (mailboxes k' m) = mb_size (mailboxes k m)"
    "lists k' (SenderQ m) = tl (lists k (SenderQ m))" "lists k' (SuspQ m) = lists k (SuspQ m)"
    "lists k (SenderQ m) \<noteq> [] \<Longrightarrow>
       th_stat (threads k' (hd (lists k (SenderQ m)))) \<noteq> RT_THREAD_SUSPEND"
proof -
  have ki: "kinv k" "mb_ok (mailboxes k m)" using inv by (simp_all add: mb_inv_def)
  obtain mb where mb: "mb_fetch (mailboxes k m) = Some (x, mb)" "mb_ok mb"
    "mb_list mb = xs" "mb_size mb = mb_size (mailboxes k m)"
    by (rule mb_fetch_ok [OF ki(2) ne]) (rule that)
  have e: "mb_entry (mailboxes k m) \<noteq> 0" using ne length_mb_list [of "mailboxes k m"] by auto
  let ?k = "upd_mb m (\<lambda>_. mb) k"
  have i1: "kinv ?k" using ki(1) by simp
  obtain k' where k': "ipc_wake_one (SenderQ m) ?k = Some k'" "kinv k'" "mailboxes k' = mailboxes ?k"
    "lists k' (SenderQ m) = tl (lists ?k (SenderQ m))"
    "lists ?k (SenderQ m) \<noteq> [] \<Longrightarrow> th_stat (threads k' (hd (lists ?k (SenderQ m)))) \<noteq> RT_THREAD_SUSPEND"
    "\<And>g. g \<noteq> SenderQ m \<Longrightarrow> \<not> is_ready g \<Longrightarrow> lists k' g = lists ?k g"
    by (rule ipc_wake_one_ok [OF i1 list_stat.simps(3)]) (rule that)
  show thesis
    by (rule that [of k'])
      (use e mb k' in \<open>simp_all add: mb_recv_round_def mb_inv_def\<close>)
qed

subsection \<open>The mailbox the operations implement\<close>

record box =
  letters :: "u32 list"
  receivers :: "nat list"
  senders :: "nat list"

definition mb_abs :: "nat \<Rightarrow> kernel \<Rightarrow> box" where
  "mb_abs m k = \<lparr>letters = mb_list (mailboxes k m), receivers = lists k (SuspQ m),
     senders = lists k (SenderQ m)\<rparr>"

definition spec_send ::
  "nat \<Rightarrow> (nat list \<Rightarrow> nat list) \<Rightarrow> u32 \<Rightarrow> int \<Rightarrow> u32 \<Rightarrow> box \<Rightarrow> int waiting_ret \<times> box" where
  "spec_send cap enqueue x timeout now b =
     (if length (letters b) < cap
      then (Done RT_EOK, b\<lparr>letters := letters b @ [x], receivers := tl (receivers b)\<rparr>)
      else if timeout = 0 then (Done (- RT_EFULL), b)
      else (Waiting timeout (if timeout > 0 then now else 0), b\<lparr>senders := enqueue (senders b)\<rparr>))"

definition spec_recv ::
  "(nat list \<Rightarrow> nat list) \<Rightarrow> int \<Rightarrow> u32 \<Rightarrow> box \<Rightarrow> (int \<times> u32 option) waiting_ret \<times> box" where
  "spec_recv enqueue timeout now b =
     (case letters b of
        x # xs \<Rightarrow> (Done (RT_EOK, Some x), b\<lparr>letters := xs, senders := tl (senders b)\<rparr>)
      | [] \<Rightarrow> if timeout = 0 then (Done (- RT_ETIMEOUT, None), b)
          else (Waiting timeout (if timeout > 0 then now else 0), b\<lparr>receivers := enqueue (receivers b)\<rparr>))"

lemma mb_abs_sel [simp]:
  "letters (mb_abs m k) = mb_list (mailboxes k m)" "receivers (mb_abs m k) = lists k (SuspQ m)"
  "senders (mb_abs m k) = lists k (SenderQ m)"
  by (simp_all add: mb_abs_def)

text \<open>A send refines the abstract send, whichever branch it takes.\<close>

lemma mb_send_round_refines:
  assumes inv: "mb_inv m k" and t: "in_thread k t" and time: "timeout < 2 ^ 31 - 1" "timeout \<noteq> 0"
  obtains r k' where "mb_send_round m x timeout k = Some (r, k')" "mb_inv m k'"
    "(r, mb_abs m k') = spec_send (mb_size (mailboxes k m))
       (wait_insert (mb_flag (mailboxes k m)) (\<lambda>u. current_priority (threads k u)) t)
       x timeout (rt_tick k) (mb_abs m k)"
    "r = Waiting timeout (if timeout > 0 then rt_tick k else 0) \<Longrightarrow>
       th_stat (threads k' t) = RT_THREAD_SUSPEND \<and> th_error (threads k' t) = RT_EOK"
proof (cases "mb_entry (mailboxes k m) < mb_size (mailboxes k m)")
  case True
  obtain k' where k': "mb_send_round m x timeout k = Some (Done RT_EOK, k')" "mb_inv m k'"
    "mb_list (mailboxes k' m) = mb_list (mailboxes k m) @ [x]"
    "lists k' (SuspQ m) = tl (lists k (SuspQ m))" "lists k' (SenderQ m) = lists k (SenderQ m)"
    by (rule mb_send_room [OF inv True]) (rule that)
  show thesis by (rule that [OF k'(1,2)]) (use True k' in \<open>simp_all add: spec_send_def mb_abs_def\<close>)
next
  case False
  then have full: "mb_entry (mailboxes k m) = mb_size (mailboxes k m)"
    using inv by (simp add: mb_inv_def mb_ok_def)
  have ki: "kinv k" "mb_ok (mailboxes k m)" using inv by (simp_all add: mb_inv_def)
  let ?f = "mb_flag (mailboxes k m)"
  obtain k1 k' where k': "ipc_suspend_timed (SenderQ m) t ?f timeout (upd_thread t (\<lambda>h. h\<lparr>th_error := RT_EOK\<rparr>) k) = Some k1"
    "rt_schedule k1 = Some k'" "kinv k'" "mailboxes k' = mailboxes k"
    "th_stat (threads k' t) = RT_THREAD_SUSPEND" "th_error (threads k' t) = RT_EOK"
    "lists k' (SenderQ m) = wait_insert ?f (\<lambda>u. current_priority (threads k u)) t (lists k (SenderQ m))"
    "\<And>g. g \<noteq> SenderQ m \<Longrightarrow> \<not> is_ready g \<Longrightarrow> lists k' g = lists k g"
    by (rule ipc_sleep_ok [OF ki(1) t time(1) list_stat.simps(3), where flag = ?f]) (rule that)
  have e: "mb_send_round m x timeout k = Some (Waiting timeout (if timeout > 0 then rt_tick k else 0), k')"
    using k'(1,2) full time(2) in_threadD(8) [OF t] by (simp add: mb_send_round_def rt_tick_get_def)
  have i': "mb_inv m k'" using k'(3,4) ki(2) by (simp add: mb_inv_def)
  show thesis by (rule that [OF e i']) (use full time(2) k' in \<open>simp_all add: spec_send_def mb_abs_def\<close>)
qed

lemma rt_mb_send_wait_refines:
  assumes inv: "mb_inv m k" and t: "in_thread k t" and time: "timeout < 2 ^ 31 - 1"
  obtains r k' where "rt_mb_send_wait m x timeout k = Some (r, k')" "mb_inv m k'"
    "(r, mb_abs m k') = spec_send (mb_size (mailboxes k m))
       (wait_insert (mb_flag (mailboxes k m)) (\<lambda>u. current_priority (threads k u)) t)
       x timeout (rt_tick k) (mb_abs m k)"
proof -
  have e: "rt_mb_send_wait m x timeout k =
      (if mb_entry (mailboxes k m) = mb_size (mailboxes k m) \<and> timeout = 0
       then Some (Done (- RT_EFULL), k) else mb_send_round m x timeout k)"
    using in_threadD(5) [OF t] by (simp add: rt_mb_send_wait_def)
  show thesis
  proof (cases "timeout = 0")
    case False
    show thesis
      by (rule mb_send_round_refines [OF inv t time False, of x]) (rule that, simp_all add: e False)
  next
    case True
    show thesis
    proof (cases "mb_entry (mailboxes k m) = mb_size (mailboxes k m)")
      case full: True
      have "rt_mb_send_wait m x timeout k = Some (Done (- RT_EFULL), k)"
        unfolding e using True full by simp
      then show thesis by (rule that) (use True full inv in \<open>simp_all add: spec_send_def\<close>)
    next
      case False
      then have room: "mb_entry (mailboxes k m) < mb_size (mailboxes k m)"
        using inv by (simp add: mb_inv_def mb_ok_def)
      obtain k' where k': "mb_send_round m x timeout k = Some (Done RT_EOK, k')" "mb_inv m k'"
        "mb_list (mailboxes k' m) = mb_list (mailboxes k m) @ [x]"
        "lists k' (SuspQ m) = tl (lists k (SuspQ m))" "lists k' (SenderQ m) = lists k (SenderQ m)"
        by (rule mb_send_room [OF inv room]) (rule that)
      show thesis by (rule that [of "Done RT_EOK" k'])
          (use False room k' in \<open>simp_all add: e spec_send_def mb_abs_def\<close>)
    qed
  qed
qed

lemma rt_mb_recv_refines:
  assumes inv: "mb_inv m k" and t: "in_thread k t" and time: "timeout < 2 ^ 31 - 1"
  obtains r k' where "rt_mb_recv m timeout k = Some (r, k')" "mb_inv m k'"
    "(r, mb_abs m k') = spec_recv
       (wait_insert (mb_flag (mailboxes k m)) (\<lambda>u. current_priority (threads k u)) t)
       timeout (rt_tick k) (mb_abs m k)"
proof -
  have e: "rt_mb_recv m timeout k =
      (if mb_entry (mailboxes k m) = 0 \<and> timeout = 0
       then Some (Done (- RT_ETIMEOUT, None), k) else mb_recv_round m timeout k)"
    using in_threadD(5) [OF t] by (simp add: rt_mb_recv_def)
  show thesis
  proof (cases "mb_list (mailboxes k m)")
    case (Cons x xs)
    then have ne: "mb_entry (mailboxes k m) \<noteq> 0" using length_mb_list [of "mailboxes k m"] by auto
    obtain k' where k': "mb_recv_round m timeout k = Some (Done (RT_EOK, Some x), k')" "mb_inv m k'"
      "mb_list (mailboxes k' m) = xs" "lists k' (SenderQ m) = tl (lists k (SenderQ m))"
      "lists k' (SuspQ m) = lists k (SuspQ m)"
      by (rule mb_recv_some [OF inv Cons]) (rule that)
    show thesis by (rule that [of "Done (RT_EOK, Some x)" k'])
        (use ne Cons k' in \<open>simp_all add: e spec_recv_def mb_abs_def\<close>)
  next
    case Nil
    then have z: "mb_entry (mailboxes k m) = 0" using length_mb_list [of "mailboxes k m"] by simp
    show thesis
    proof (cases "timeout = 0")
      case True
      have "rt_mb_recv m timeout k = Some (Done (- RT_ETIMEOUT, None), k)"
        unfolding e using True z by simp
      then show thesis by (rule that) (use True Nil inv in \<open>simp_all add: spec_recv_def\<close>)
    next
      case False
      have ki: "kinv k" "mb_ok (mailboxes k m)" using inv by (simp_all add: mb_inv_def)
      let ?f = "mb_flag (mailboxes k m)"
      obtain k1 k' where k': "ipc_suspend_timed (SuspQ m) t ?f timeout (upd_thread t (\<lambda>h. h\<lparr>th_error := RT_EOK\<rparr>) k) = Some k1"
        "rt_schedule k1 = Some k'" "kinv k'" "mailboxes k' = mailboxes k"
        "lists k' (SuspQ m) = wait_insert ?f (\<lambda>u. current_priority (threads k u)) t (lists k (SuspQ m))"
        "\<And>g. g \<noteq> SuspQ m \<Longrightarrow> \<not> is_ready g \<Longrightarrow> lists k' g = lists k g"
        by (rule ipc_sleep_ok [OF ki(1) t time list_stat.simps(2), where flag = ?f]) (rule that)
      have r: "rt_mb_recv m timeout k = Some (Waiting timeout (if timeout > 0 then rt_tick k else 0), k')"
        using k'(1,2) z False in_threadD(8) [OF t] by (simp add: e mb_recv_round_def rt_tick_get_def)
      have i': "mb_inv m k'" using k'(3,4) ki(2) by (simp add: mb_inv_def)
      show thesis by (rule that [OF r i']) (use Nil False k' in \<open>simp_all add: spec_recv_def mb_abs_def\<close>)
    qed
  qed
qed

text \<open>
  A resumed send or receive returns the error its waker stored, or goes round the loop again
  with the time that is left.
\<close>

lemma mb_send_resume_cases:
  assumes "in_thread k t"
  shows "th_error (threads k t) \<noteq> RT_EOK \<Longrightarrow>
      mb_send_resume m x timeout tick_delta k = Some (Done (th_error (threads k t)), k)"
    "th_error (threads k t) = RT_EOK \<Longrightarrow> mb_send_resume m x timeout tick_delta k =
      mb_send_round m x (time_left timeout tick_delta (rt_tick k)) k"
  using in_threadD(8) [OF assms] by (simp_all add: mb_send_resume_def rt_tick_get_def)

text \<open>An urgent value goes before all others; a full mailbox refuses it.\<close>

definition spec_urgent :: "nat \<Rightarrow> u32 \<Rightarrow> box \<Rightarrow> int \<times> box" where
  "spec_urgent cap x b =
     (if length (letters b) < cap
      then (RT_EOK, b\<lparr>letters := x # letters b, receivers := tl (receivers b)\<rparr>)
      else (- RT_EFULL, b))"

lemma rt_mb_urgent_refines:
  assumes inv: "mb_inv m k"
  obtains r k' where "rt_mb_urgent m x k = Some (r, k')" "mb_inv m k'"
    "(r, mb_abs m k') = spec_urgent (mb_size (mailboxes k m)) x (mb_abs m k)"
proof (cases "mb_entry (mailboxes k m) < mb_size (mailboxes k m)")
  case True
  have ki: "kinv k" "mb_ok (mailboxes k m)" using inv by (simp_all add: mb_inv_def)
  obtain mb where mb: "mb_store_front x (mailboxes k m) = Some mb" "mb_ok mb"
    "mb_list mb = x # mb_list (mailboxes k m)"
    by (rule mb_store_front_ok [OF ki(2) True, of x]) (rule that)
  let ?k = "upd_mb m (\<lambda>_. mb) k"
  have i1: "kinv ?k" using ki(1) by simp
  obtain k' where k': "ipc_wake_one (SuspQ m) ?k = Some k'" "kinv k'" "mailboxes k' = mailboxes ?k"
    "lists k' (SuspQ m) = tl (lists ?k (SuspQ m))"
    "\<And>g. g \<noteq> SuspQ m \<Longrightarrow> \<not> is_ready g \<Longrightarrow> lists k' g = lists ?k g"
    by (rule ipc_wake_one_ok [OF i1 list_stat.simps(2)]) (rule that)
  show thesis
    by (rule that [of RT_EOK k'])
      (use True mb k' in \<open>simp_all add: rt_mb_urgent_def mb_inv_def spec_urgent_def mb_abs_def\<close>)
next
  case False
  then have full: "mb_entry (mailboxes k m) = mb_size (mailboxes k m)"
    using inv by (simp add: mb_inv_def mb_ok_def)
  show thesis
    by (rule that [of "- RT_EFULL" k])
      (use full inv in \<open>simp_all add: rt_mb_urgent_def spec_urgent_def\<close>)
qed

text \<open>A reset empties the mailbox and both lists.\<close>

lemma rt_mb_reset_ok:
  assumes inv: "mb_inv m k"
  obtains k' where "rt_mb_control m (RT_IPC_CMD_RESET v) k = Some (RT_EOK, k')" "mb_inv m k'"
    "mb_abs m k' = \<lparr>letters = [], receivers = [], senders = []\<rparr>"
proof -
  have ki: "kinv k" "mb_ok (mailboxes k m)" using inv by (simp_all add: mb_inv_def)
  obtain k1 where k1: "ipc_list_resume_all (SuspQ m) k = Some k1" "kinv k1" "lists k1 (SuspQ m) = []"
    "mailboxes k1 = mailboxes k"
    by (rule ipc_list_resume_all_ok [OF ki(1) list_stat.simps(2)]) (rule that)
  obtain k2 where k2: "ipc_list_resume_all (SenderQ m) k1 = Some k2" "kinv k2" "lists k2 (SenderQ m) = []"
    "mailboxes k2 = mailboxes k1" "\<And>g. g \<noteq> SenderQ m \<Longrightarrow> \<not> is_ready g \<Longrightarrow> lists k2 g = lists k1 g"
    by (rule ipc_list_resume_all_ok [OF k1(2) list_stat.simps(3)]) (rule that)
  let ?k3 = "upd_mb m (\<lambda>x. x\<lparr>mb_entry := 0, mb_in_offset := 0, mb_out_offset := 0\<rparr>) k2"
  have "kinv ?k3" using k2(2) by simp
  then obtain k' where k': "rt_schedule ?k3 = Some k'" "kinv k'" "\<And>h. \<not> is_ready h \<Longrightarrow> lists k' h = lists ?k3 h"
    by (rule kinv_schedule) (rule that)
  have mb: "mailboxes k' m = (mailboxes k m)\<lparr>mb_entry := 0, mb_in_offset := 0, mb_out_offset := 0\<rparr>"
    using rt_schedule_frame(11) [OF k'(1)] k1(4) k2(4) by simp
  show thesis
  proof (rule that [of k'])
    show "rt_mb_control m (RT_IPC_CMD_RESET v) k = Some (RT_EOK, k')"
      using k1(1) k2(1) k'(1) by (simp add: rt_mb_control_def)
    show "mb_inv m k'" using k'(2) ki(2) by (simp add: mb_inv_def mb mb_ok_def)
  qed (use k1(3) k2(3,5) k'(3) in \<open>simp_all add: mb_abs_def mb mb_list_def ring_def\<close>)
qed

end
