(* ===== verification/Chain.thy ===== *)
theory Chain
  imports Prelude
begin

text \<open>
  Singly linked lists in a store: \<open>chain nxt p xs\<close> says that following \<open>nxt\<close> from \<open>p\<close> visits exactly
  the cells \<open>xs\<close> and ends. Message queues and memory pools keep their blocks in such lists;
  \<open>follow\<close> reads one off with a bound on its length.
\<close>

fun chain :: "('a \<Rightarrow> 'a option) \<Rightarrow> 'a option \<Rightarrow> 'a list \<Rightarrow> bool" where
  "chain nxt p [] \<longleftrightarrow> p = None"
| "chain nxt p (x # xs) \<longleftrightarrow> p = Some x \<and> chain nxt (nxt x) xs"

fun follow :: "('a \<Rightarrow> 'a option) \<Rightarrow> nat \<Rightarrow> 'a option \<Rightarrow> 'a list" where
  "follow nxt n None = []"
| "follow nxt 0 (Some x) = []"
| "follow nxt (Suc n) (Some x) = x # follow nxt n (nxt x)"

lemma chain_None [simp]: "chain nxt None xs \<longleftrightarrow> xs = []"
  by (cases xs) auto

lemma chain_Some: "chain nxt (Some x) xs \<longleftrightarrow> (\<exists>ys. xs = x # ys \<and> chain nxt (nxt x) ys)"
  by (cases xs) auto

lemma chain_upd [simp]: "x \<notin> set xs \<Longrightarrow> chain (nxt(x := v)) p xs \<longleftrightarrow> chain nxt p xs"
  by (induction xs arbitrary: p) auto

lemma chain_cong: "(\<And>x. x \<in> set xs \<Longrightarrow> f x = g x) \<Longrightarrow> chain f p xs \<longleftrightarrow> chain g p xs"
  by (induction xs arbitrary: p) auto

lemma chain_unique: "chain nxt p xs \<Longrightarrow> chain nxt p ys \<Longrightarrow> xs = ys"
  by (induction xs arbitrary: p ys) (auto simp: chain_Some)

lemma chain_append: "chain nxt p (xs @ y # ys) \<Longrightarrow> chain nxt (Some y) (y # ys)"
  by (induction xs arbitrary: p) auto

lemma chain_distinct: "chain nxt p xs \<Longrightarrow> distinct xs"
proof (induction xs arbitrary: p)
  case (Cons x xs)
  have "x \<notin> set xs"
  proof
    assume "x \<in> set xs"
    then obtain us vs where xs: "xs = us @ x # vs" by (auto simp: in_set_conv_decomp)
    have "chain nxt (nxt x) (us @ x # vs)" "chain nxt (nxt x) vs"
      using Cons.prems chain_append [of nxt p "x # us" x vs] by (simp_all add: xs)
    from chain_unique [OF this] show False by simp
  qed
  then show ?case using Cons by auto
qed simp

text \<open>Appending a cell behind the last one.\<close>

lemma chain_snoc:
  assumes "chain nxt p xs" "nxt y = None" "y \<notin> set xs" "xs \<noteq> []"
  shows "chain (nxt(last xs := Some y)) p (xs @ [y])"
  using assms
proof (induction xs arbitrary: p)
  case (Cons x xs)
  show ?case
  proof (cases xs)
    case Nil
    then show ?thesis using Cons.prems by auto
  next
    case (Cons a as)
    have "x \<notin> set xs" using chain_distinct [OF Cons.prems(1)] by simp
    moreover have "last xs \<in> set xs" using Cons by simp
    ultimately have "last xs \<noteq> x" by blast
    then show ?thesis using Cons.IH [of "nxt x"] Cons.prems Cons by auto
  qed
qed simp

lemma follow_chain: "chain nxt p xs \<Longrightarrow> length xs \<le> n \<Longrightarrow> follow nxt n p = xs"
proof (induction xs arbitrary: p n)
  case (Cons x xs)
  then show ?case by (cases n) auto
qed simp

lemma chain_nonempty: "chain nxt p xs \<Longrightarrow> (p = None \<longleftrightarrow> xs = [])"
  by (cases xs) auto

end
