(* ===== verification/Ipc_Mq.thy ===== *)
theory Ipc_Mq
  imports Ipc_Sem Fifo Chain
begin

text \<open>
  The message queues of \<open>src/ipc.c\<close>: messages are blocks that move between a free list and a queue,
  both singly linked; receivers wait behind \<open>SuspQ m\<close> and senders behind \<open>SenderQ m\<close>. A send takes
  its block in one critical section, fills it with interrupts enabled and queues it in a second
  one, a receive likewise; each such phase is a function on the queue record. The invariant
  carries the set of blocks that calls in progress hold, so the phases of several calls may
  interleave.
\<close>

subsection \<open>Phases\<close>

definition mq_take_free :: "msgqueue \<Rightarrow> (nat \<times> msgqueue) option" where
  "mq_take_free q = do {
     b \<leftarrow> mq_free q;
     Some (b, q\<lparr>mq_free := mq_next q b\<rparr>) }"

definition mq_clear_next :: "nat \<Rightarrow> msgqueue \<Rightarrow> msgqueue" where
  "mq_clear_next b q = q\<lparr>mq_next := (mq_next q)(b := None)\<rparr>"

definition mq_fill :: "nat \<Rightarrow> byte list \<Rightarrow> msgqueue \<Rightarrow> msgqueue option" where
  "mq_fill b src q = do {
     d \<leftarrow> mem_write (mq_data q b) 0 src;
     Some (q\<lparr>mq_data := (mq_data q)(b := d)\<rparr>) }"

definition mq_count_in :: "msgqueue \<Rightarrow> int \<times> msgqueue" where
  "mq_count_in q =
     (if mq_entry q < 65535 then (RT_EOK, q\<lparr>mq_entry := mq_entry q + 1\<rparr>) else (- RT_EFULL, q))"

definition mq_append :: "nat \<Rightarrow> msgqueue \<Rightarrow> int \<times> msgqueue" where
  "mq_append b q =
     (let q = (case mq_tail q of
                 None \<Rightarrow> q
               | Some t \<Rightarrow> q\<lparr>mq_next := (mq_next q)(t := Some b)\<rparr>);
          q = q\<lparr>mq_tail := Some b\<rparr>;
          q = (if mq_head q = None then q\<lparr>mq_head := Some b\<rparr> else q)
      in mq_count_in q)"

definition mq_prepend :: "nat \<Rightarrow> msgqueue \<Rightarrow> int \<times> msgqueue" where
  "mq_prepend b q =
     (let q = q\<lparr>mq_next := (mq_next q)(b := mq_head q)\<rparr>;
          q = q\<lparr>mq_head := Some b\<rparr>;
          q = (if mq_tail q = None then q\<lparr>mq_tail := Some b\<rparr> else q)
      in mq_count_in q)"

text \<open>Unlinking the head, which \<open>rt_mq_recv\<close> and the reset of \<open>rt_mq_control\<close> share.\<close>

definition mq_unlink_head :: "msgqueue \<Rightarrow> (nat \<times> msgqueue) option" where
  "mq_unlink_head q = do {
     b \<leftarrow> mq_head q;
     let q = q\<lparr>mq_head := mq_next q b\<rparr>;
     Some (b, if mq_tail q = Some b then q\<lparr>mq_tail := None\<rparr> else q) }"

definition mq_pop :: "msgqueue \<Rightarrow> (nat \<times> msgqueue) option" where
  "mq_pop q = do {
     (b, q) \<leftarrow> mq_unlink_head q;
     Some (b, if mq_entry q > 0 then q\<lparr>mq_entry := mq_entry q - 1\<rparr> else q) }"

definition mq_read :: "nat \<Rightarrow> nat \<Rightarrow> msgqueue \<Rightarrow> byte list option" where
  "mq_read b sz q = mem_read (mq_data q b) 0 (if sz > mq_msg_size q then mq_msg_size q else sz)"

definition mq_give :: "nat \<Rightarrow> msgqueue \<Rightarrow> msgqueue" where
  "mq_give b q = q\<lparr>mq_next := (mq_next q)(b := mq_free q), mq_free := Some b\<rparr>"

text \<open>The loop that puts every block of a new queue on the free list.\<close>

fun mq_build_free :: "nat \<Rightarrow> msgqueue \<Rightarrow> msgqueue" where
  "mq_build_free 0 q = q"
| "mq_build_free (Suc temp) q = mq_give temp (mq_build_free temp q)"

text \<open>The reset loop; its fuel is above the number of blocks, which it cannot exceed.\<close>

fun mq_reset_loop :: "nat \<Rightarrow> msgqueue \<Rightarrow> msgqueue option" where
  "mq_reset_loop 0 q = None"
| "mq_reset_loop (Suc fuel) q =
     (case mq_unlink_head q of
        None \<Rightarrow> Some q
      | Some (b, q) \<Rightarrow> mq_reset_loop fuel (mq_give b q))"

subsection \<open>Operations\<close>

definition upd_mq :: "nat \<Rightarrow> (msgqueue \<Rightarrow> msgqueue) \<Rightarrow> kernel \<Rightarrow> kernel" where
  "upd_mq m f k = k\<lparr>mqueues := (mqueues k)(m := f (mqueues k m))\<rparr>"

abbreviation (input) sizeof_mq_message :: nat where "sizeof_mq_message \<equiv> 4"

text \<open>A queue over the memory \<open>pool\<close>, with \<open>n\<close> blocks of \<open>sz\<close> bytes behind their pointers.\<close>

definition mq_blank :: "byte list \<Rightarrow> nat \<Rightarrow> nat \<Rightarrow> ipc_flag \<Rightarrow> msgqueue" where
  "mq_blank pool sz n flag =
     \<lparr>mq_flag = flag, mq_msg_size = sz, mq_max_msgs = n, mq_entry = 0, mq_head = None, mq_tail = None,
      mq_free = None, mq_next = (\<lambda>_. None),
      mq_data = (\<lambda>b. take sz (drop (b * (sz + sizeof_mq_message) + sizeof_mq_message) pool))\<rparr>"

definition rt_mq_init ::
  "nat \<Rightarrow> byte list \<Rightarrow> nat \<Rightarrow> nat \<Rightarrow> ipc_flag \<Rightarrow> kernel \<Rightarrow> int \<times> kernel" where
  "rt_mq_init m msgpool msg_size pool_size flag k =
     (let k = ipc_object_init (SuspQ m) k;
          sz = RT_ALIGN msg_size RT_ALIGN_SIZE mod 2 ^ 16;
          n = pool_size div (sz + sizeof_mq_message) mod 2 ^ 16;
          k = upd_mq m (\<lambda>_. mq_build_free n (mq_blank msgpool sz n flag)) k
      in (RT_EOK, ipc_object_init (SenderQ m) k))"

text \<open>The results of the two allocations are arguments.\<close>

definition rt_mq_create ::
  "nat option \<Rightarrow> byte list option \<Rightarrow> nat \<Rightarrow> nat \<Rightarrow> ipc_flag \<Rightarrow> kernel \<Rightarrow> (nat option \<times> kernel) option" where
  "rt_mq_create obj mem msg_size max_msgs flag k = do {
     _ \<leftarrow> RT_DEBUG_NOT_IN_INTERRUPT k;
     Some (case obj of
         None \<Rightarrow> (None, k)
       | Some m \<Rightarrow>
           let k = ipc_object_init (SuspQ m) k;
               sz = RT_ALIGN msg_size RT_ALIGN_SIZE mod 2 ^ 16;
               n = max_msgs mod 2 ^ 16
           in case mem of
                None \<Rightarrow> (None, k)
              | Some msgpool \<Rightarrow>
                  (Some m, ipc_object_init (SenderQ m)
                     (upd_mq m (\<lambda>_. mq_build_free n (mq_blank msgpool sz n flag)) k))) }"

definition rt_mq_detach :: "nat \<Rightarrow> kernel \<Rightarrow> (int \<times> kernel) option" where
  "rt_mq_detach m k = do {
     k \<leftarrow> ipc_list_resume_all (SuspQ m) k;
     k \<leftarrow> ipc_list_resume_all (SenderQ m) k;
     Some (RT_EOK, k) }"

definition rt_mq_delete :: "nat \<Rightarrow> kernel \<Rightarrow> (int \<times> kernel) option" where
  "rt_mq_delete m k = do {
     _ \<leftarrow> RT_DEBUG_NOT_IN_INTERRUPT k;
     k \<leftarrow> ipc_list_resume_all (SuspQ m) k;
     k \<leftarrow> ipc_list_resume_all (SenderQ m) k;
     Some (RT_EOK, k) }"

text \<open>One test of the loop condition, with what follows it up to the next \<open>rt_schedule\<close>.\<close>

definition mq_send_round :: "nat \<Rightarrow> byte list \<Rightarrow> int \<Rightarrow> kernel \<Rightarrow> (int waiting_ret \<times> kernel) option" where
  "mq_send_round m src timeout k =
     (case mq_take_free (mqueues k m) of
        None \<Rightarrow> do {
          t \<leftarrow> rt_thread_self k;
          let k = upd_thread t (\<lambda>h. h\<lparr>th_error := RT_EOK\<rparr>) k;
          if timeout = 0 then Some (Done (- RT_EFULL), k)
          else do {
            let tick_delta = (if timeout > 0 then rt_tick_get k else 0);
            k \<leftarrow> ipc_suspend_timed (SenderQ m) t (mq_flag (mqueues k m)) timeout k;
            k \<leftarrow> rt_schedule k;
            Some (Waiting timeout tick_delta, k) } }
      | Some (b, q) \<Rightarrow> do {
          q \<leftarrow> mq_fill b src (mq_clear_next b q);
          let (err, q) = mq_append b q;
          let k = upd_mq m (\<lambda>_. q) k;
          if err \<noteq> RT_EOK then Some (Done err, k)
          else do {
            k \<leftarrow> ipc_wake_one (SuspQ m) k;
            Some (Done RT_EOK, k) } })"

definition rt_mq_send_wait ::
  "nat \<Rightarrow> byte list \<Rightarrow> nat \<Rightarrow> int \<Rightarrow> kernel \<Rightarrow> (int waiting_ret \<times> kernel) option" where
  "rt_mq_send_wait m buffer sz timeout k = do {
     _ \<leftarrow> rt_assert (sz \<noteq> 0);
     _ \<leftarrow> RT_DEBUG_SCHEDULER_AVAILABLE (timeout \<noteq> 0) k;
     if sz > mq_msg_size (mqueues k m) then Some (Done (- RT_ERROR), k)
     else if mq_free (mqueues k m) = None \<and> timeout = 0 then Some (Done (- RT_EFULL), k)
     else do {
       src \<leftarrow> mem_read buffer 0 sz;
       mq_send_round m src timeout k } }"

definition mq_send_resume ::
  "nat \<Rightarrow> byte list \<Rightarrow> int \<Rightarrow> u32 \<Rightarrow> kernel \<Rightarrow> (int waiting_ret \<times> kernel) option" where
  "mq_send_resume m src timeout tick_delta k = do {
     t \<leftarrow> rt_thread_self k;
     if th_error (threads k t) \<noteq> RT_EOK then Some (Done (th_error (threads k t)), k)
     else mq_send_round m src (time_left timeout tick_delta (rt_tick_get k)) k }"

definition rt_mq_send :: "nat \<Rightarrow> byte list \<Rightarrow> nat \<Rightarrow> kernel \<Rightarrow> (int waiting_ret \<times> kernel) option" where
  "rt_mq_send m buffer sz k = rt_mq_send_wait m buffer sz 0 k"

definition rt_mq_urgent :: "nat \<Rightarrow> byte list \<Rightarrow> nat \<Rightarrow> kernel \<Rightarrow> (int \<times> kernel) option" where
  "rt_mq_urgent m buffer sz k = do {
     _ \<leftarrow> rt_assert (sz \<noteq> 0);
     if sz > mq_msg_size (mqueues k m) then Some (- RT_ERROR, k)
     else case mq_take_free (mqueues k m) of
       None \<Rightarrow> Some (- RT_EFULL, k)
     | Some (b, q) \<Rightarrow> do {
         src \<leftarrow> mem_read buffer 0 sz;
         q \<leftarrow> mq_fill b src q;
         let (err, q) = mq_prepend b q;
         let k = upd_mq m (\<lambda>_. q) k;
         if err \<noteq> RT_EOK then Some (err, k)
         else do {
           k \<leftarrow> ipc_wake_one (SuspQ m) k;
           Some (RT_EOK, k) } } }"

definition mq_recv_round ::
  "nat \<Rightarrow> nat \<Rightarrow> int \<Rightarrow> kernel \<Rightarrow> ((int \<times> byte list option) waiting_ret \<times> kernel) option" where
  "mq_recv_round m sz timeout k =
     (if mq_entry (mqueues k m) = 0 then do {
        t \<leftarrow> rt_thread_self k;
        let k = upd_thread t (\<lambda>h. h\<lparr>th_error := RT_EOK\<rparr>) k;
        if timeout = 0 then
          Some (Done (- RT_ETIMEOUT, None), upd_thread t (\<lambda>h. h\<lparr>th_error := - RT_ETIMEOUT\<rparr>) k)
        else do {
          let tick_delta = (if timeout > 0 then rt_tick_get k else 0);
          k \<leftarrow> ipc_suspend_timed (SuspQ m) t (mq_flag (mqueues k m)) timeout k;
          k \<leftarrow> rt_schedule k;
          Some (Waiting timeout tick_delta, k) }
      } else do {
        (b, q) \<leftarrow> mq_pop (mqueues k m);
        xs \<leftarrow> mq_read b sz q;
        let k = upd_mq m (\<lambda>_. mq_give b q) k;
        k \<leftarrow> ipc_wake_one (SenderQ m) k;
        Some (Done (RT_EOK, Some xs), k) })"

definition rt_mq_recv ::
  "nat \<Rightarrow> nat \<Rightarrow> int \<Rightarrow> kernel \<Rightarrow> ((int \<times> byte list option) waiting_ret \<times> kernel) option" where
  "rt_mq_recv m sz timeout k = do {
     _ \<leftarrow> rt_assert (sz \<noteq> 0);
     _ \<leftarrow> RT_DEBUG_SCHEDULER_AVAILABLE (timeout \<noteq> 0) k;
     if mq_entry (mqueues k m) = 0 \<and> timeout = 0 then Some (Done (- RT_ETIMEOUT, None), k)
     else mq_recv_round m sz timeout k }"

definition mq_recv_resume ::
  "nat \<Rightarrow> nat \<Rightarrow> int \<Rightarrow> u32 \<Rightarrow> kernel \<Rightarrow> ((int \<times> byte list option) waiting_ret \<times> kernel) option" where
  "mq_recv_resume m sz timeout tick_delta k = do {
     t \<leftarrow> rt_thread_self k;
     if th_error (threads k t) \<noteq> RT_EOK then Some (Done (th_error (threads k t), None), k)
     else mq_recv_round m sz (time_left timeout tick_delta (rt_tick_get k)) k }"

definition rt_mq_control :: "nat \<Rightarrow> ipc_cmd \<Rightarrow> kernel \<Rightarrow> (int \<times> kernel) option" where
  "rt_mq_control m cmd k =
     (case cmd of
        RT_IPC_CMD_RESET _ \<Rightarrow> do {
          k \<leftarrow> ipc_list_resume_all (SuspQ m) k;
          k \<leftarrow> ipc_list_resume_all (SenderQ m) k;
          q \<leftarrow> mq_reset_loop (Suc (mq_max_msgs (mqueues k m))) (mqueues k m);
          let k = upd_mq m (\<lambda>_. q\<lparr>mq_entry := 0\<rparr>) k;
          k \<leftarrow> rt_schedule k;
          Some (RT_EOK, k) }
      | RT_IPC_CMD_OTHER \<Rightarrow> Some (- RT_ERROR, k))"

lemma upd_mq_simps [simp]:
  "mqueues (upd_mq m f k) = (mqueues k)(m := f (mqueues k m))"
  "threads (upd_mq m f k) = threads k" "lists (upd_mq m f k) = lists k"
  "kinv_x Y (upd_mq m f k) = kinv_x Y k" "current_thread (upd_mq m f k) = current_thread k"
  "timers (upd_mq m f k) = timers k" "timer_lists (upd_mq m f k) = timer_lists k"
  "rt_tick (upd_mq m f k) = rt_tick k" "lock_nest (upd_mq m f k) = lock_nest k"
  "interrupt_nest (upd_mq m f k) = interrupt_nest k"
  by (simp_all add: upd_mq_def)

subsection \<open>The invariant of the blocks\<close>

text \<open>
  \<open>qs\<close> are the queued blocks, \<open>fs\<close> the free ones, and \<open>X\<close> those that calls in progress hold; every
  block is in exactly one of the three.
\<close>

definition mq_shape :: "nat set \<Rightarrow> msgqueue \<Rightarrow> nat list \<Rightarrow> nat list \<Rightarrow> bool" where
  "mq_shape X q qs fs \<longleftrightarrow>
     chain (mq_next q) (mq_head q) qs \<and> chain (mq_next q) (mq_free q) fs \<and>
     set qs \<inter> set fs = {} \<and> X \<inter> (set qs \<union> set fs) = {} \<and> set qs \<union> set fs \<union> X = {..<mq_max_msgs q} \<and>
     mq_tail q = (if qs = [] then None else Some (last qs)) \<and> mq_entry q = length qs \<and>
     mq_max_msgs q < 2 ^ 16 \<and> (\<forall>b < mq_max_msgs q. length (mq_data q b) = mq_msg_size q)"

definition mq_blocks :: "msgqueue \<Rightarrow> nat list" where
  "mq_blocks q = follow (mq_next q) (mq_entry q) (mq_head q)"

definition mq_frees :: "msgqueue \<Rightarrow> nat list" where
  "mq_frees q = follow (mq_next q) (mq_max_msgs q) (mq_free q)"

definition mq_ok_x :: "nat set \<Rightarrow> msgqueue \<Rightarrow> bool" where
  "mq_ok_x X q \<longleftrightarrow> mq_shape X q (mq_blocks q) (mq_frees q)"

abbreviation mq_ok :: "msgqueue \<Rightarrow> bool" where "mq_ok \<equiv> mq_ok_x {}"

definition mq_list :: "msgqueue \<Rightarrow> byte list list" where
  "mq_list q = map (mq_data q) (mq_blocks q)"

lemma mq_shapeD:
  assumes "mq_shape X q qs fs"
  shows "chain (mq_next q) (mq_head q) qs" "chain (mq_next q) (mq_free q) fs"
    "set qs \<inter> set fs = {}" "X \<inter> (set qs \<union> set fs) = {}" "set qs \<union> set fs \<union> X = {..<mq_max_msgs q}"
    "mq_tail q = (if qs = [] then None else Some (last qs))" "mq_entry q = length qs"
    "mq_max_msgs q < 2 ^ 16" "b < mq_max_msgs q \<Longrightarrow> length (mq_data q b) = mq_msg_size q"
    "distinct qs" "distinct fs"
  using assms chain_distinct unfolding mq_shape_def by blast+

lemma mq_shape_counts:
  assumes "mq_shape X q qs fs"
  shows "length qs + length fs + card X = mq_max_msgs q" "finite X"
proof -
  note S = mq_shapeD [OF assms]
  show f: "finite X" by (rule finite_subset [of _ "{..<mq_max_msgs q}"]) (use S(5) in auto)
  have "card (set qs \<union> set fs \<union> X) = card (set qs) + card (set fs) + card X"
    using S(3,4) f by (subst card_Un_disjoint; (subst card_Un_disjoint)?) auto
  then show "length qs + length fs + card X = mq_max_msgs q"
    using S(5) distinct_card [OF S(10)] distinct_card [OF S(11)] by simp
qed

lemma mq_shape_lists:
  assumes "mq_shape X q qs fs"
  shows "mq_blocks q = qs" "mq_frees q = fs" "mq_ok_x X q" "mq_list q = map (mq_data q) qs"
proof -
  note S = mq_shapeD [OF assms]
  show b: "mq_blocks q = qs" unfolding mq_blocks_def by (rule follow_chain [OF S(1)]) (simp add: S(7))
  show f: "mq_frees q = fs"
    unfolding mq_frees_def by (rule follow_chain [OF S(2)]) (use mq_shape_counts(1) [OF assms] in simp)
  show "mq_ok_x X q" using assms by (simp add: mq_ok_x_def b f)
  show "mq_list q = map (mq_data q) qs" by (simp add: mq_list_def b)
qed

lemma mq_okE:
  assumes "mq_ok_x X q"
  obtains qs fs where "mq_shape X q qs fs" "mq_blocks q = qs" "mq_list q = map (mq_data q) qs"
  using assms by (auto simp: mq_ok_x_def mq_list_def)

lemma mq_ok_length:
  assumes "mq_ok_x X q"
  shows "length (mq_list q) = mq_entry q" "mq_entry q + card X \<le> mq_max_msgs q"
  using assms mq_shapeD(7) mq_shape_counts(1) by (force elim: mq_okE)+

subsection \<open>The phases keep it\<close>

lemma mq_take_free_shape:
  assumes s: "mq_shape X q qs fs"
  shows "fs = [] \<Longrightarrow> mq_take_free q = None"
    "fs = b # fs' \<Longrightarrow> mq_take_free q = Some (b, q\<lparr>mq_free := mq_next q b\<rparr>) \<and>
       mq_shape (insert b X) (q\<lparr>mq_free := mq_next q b\<rparr>) qs fs'"
proof -
  note S = mq_shapeD [OF s]
  show "fs = [] \<Longrightarrow> mq_take_free q = None" using S(2) by (simp add: mq_take_free_def)
  assume fs: "fs = b # fs'"
  then have "b \<notin> set fs'" "mq_free q = Some b" "chain (mq_next q) (mq_next q b) fs'"
    using S(2,11) by simp_all
  then show "mq_take_free q = Some (b, q\<lparr>mq_free := mq_next q b\<rparr>) \<and>
      mq_shape (insert b X) (q\<lparr>mq_free := mq_next q b\<rparr>) qs fs'"
    using s fs by (auto simp: mq_take_free_def mq_shape_def)
qed

text \<open>A held block may be written freely.\<close>

lemma mq_held:
  assumes s: "mq_shape X q qs fs" and b: "b \<in> X"
  shows "b \<notin> set qs" "b \<notin> set fs" "b < mq_max_msgs q" "length (mq_data q b) = mq_msg_size q"
    "mq_entry q < 65535"
proof -
  note S = mq_shapeD [OF s]
  show "b \<notin> set qs" "b \<notin> set fs" using S(4) b by auto
  show l: "b < mq_max_msgs q" using S(5) b by auto
  show "length (mq_data q b) = mq_msg_size q" by (rule S(9) [OF l])
  have "0 < card X" using b mq_shape_counts(2) [OF s] card_gt_0_iff by blast
  then show "mq_entry q < 65535" using mq_shape_counts(1) [OF s] S(7,8) by simp
qed

lemma mq_clear_next_shape:
  assumes s: "mq_shape X q qs fs" and b: "b \<in> X"
  shows "mq_shape X (mq_clear_next b q) qs fs"
  using s mq_held(1,2) [OF s b] by (simp add: mq_shape_def mq_clear_next_def)

lemma mq_fill_shape:
  assumes s: "mq_shape X q qs fs" and b: "b \<in> X" and l: "length src \<le> mq_msg_size q"
  shows "mq_fill b src q =
      Some (q\<lparr>mq_data := (mq_data q)(b := src @ drop (length src) (mq_data q b))\<rparr>)"
    "mq_shape X (q\<lparr>mq_data := (mq_data q)(b := src @ drop (length src) (mq_data q b))\<rparr>) qs fs"
proof -
  note H = mq_held [OF s b]
  show "mq_fill b src q =
      Some (q\<lparr>mq_data := (mq_data q)(b := src @ drop (length src) (mq_data q b))\<rparr>)"
    using l H(4) by (simp add: mq_fill_def)
  show "mq_shape X (q\<lparr>mq_data := (mq_data q)(b := src @ drop (length src) (mq_data q b))\<rparr>) qs fs"
    using s l H(3,4) by (simp add: mq_shape_def)
qed

lemma mq_append_shape:
  assumes s: "mq_shape X q qs fs" and b: "b \<in> X" and n: "mq_next q b = None"
  obtains q' where "mq_append b q = (RT_EOK, q')" "mq_shape (X - {b}) q' (qs @ [b]) fs"
    "mq_data q' = mq_data q" "mq_max_msgs q' = mq_max_msgs q" "mq_msg_size q' = mq_msg_size q"
    "mq_flag q' = mq_flag q"
proof -
  note S = mq_shapeD [OF s] and H = mq_held [OF s b]
  have X: "(X - {b}) \<inter> (insert b (set qs) \<union> set fs) = {}" "insert b (set qs) \<union> set fs \<union> (X - {b}) = {..<mq_max_msgs q}"
    using S(4,5) b by auto
  have "qs = [] \<Longrightarrow> mq_head q = None" "qs \<noteq> [] \<Longrightarrow> mq_head q \<noteq> None"
    using chain_nonempty [OF S(1)] by simp_all
  moreover have "chain ((mq_next q)(last qs := Some b)) (mq_head q) (qs @ [b])" if "qs \<noteq> []"
    using chain_snoc [OF S(1) n H(1) that] .
  moreover have "last qs \<notin> set fs" if "qs \<noteq> []" using last_in_set [OF that] S(3) by blast
  ultimately show thesis
    using H(2,5) S X n
    by (intro that [of "snd (mq_append b q)"])
      (cases "qs = []"; auto simp: mq_append_def mq_count_in_def Let_def mq_shape_def)+
qed

lemma mq_prepend_shape:
  assumes s: "mq_shape X q qs fs" and b: "b \<in> X"
  obtains q' where "mq_prepend b q = (RT_EOK, q')" "mq_shape (X - {b}) q' (b # qs) fs"
    "mq_data q' = mq_data q" "mq_max_msgs q' = mq_max_msgs q" "mq_msg_size q' = mq_msg_size q"
    "mq_flag q' = mq_flag q"
proof -
  note S = mq_shapeD [OF s] and H = mq_held [OF s b]
  have X: "(X - {b}) \<inter> (insert b (set qs) \<union> set fs) = {}" "insert b (set qs) \<union> set fs \<union> (X - {b}) = {..<mq_max_msgs q}"
    using S(4,5) b by auto
  show thesis
    using H S X
    by (intro that [of "snd (mq_prepend b q)"])
      (cases "qs = []"; auto simp: mq_prepend_def mq_count_in_def Let_def mq_shape_def)+
qed

lemma mq_unlink_head_shape:
  assumes s: "mq_shape X q qs fs"
  shows "qs = [] \<Longrightarrow> mq_unlink_head q = None"
    "qs = b # qs' \<Longrightarrow> \<exists>q'. mq_unlink_head q = Some (b, q') \<and>
       mq_shape (insert b X) (q'\<lparr>mq_entry := length qs'\<rparr>) qs' fs \<and> mq_entry q' = Suc (length qs') \<and>
       mq_data q' = mq_data q \<and> mq_max_msgs q' = mq_max_msgs q \<and> mq_msg_size q' = mq_msg_size q \<and>
       mq_flag q' = mq_flag q"
proof -
  note S = mq_shapeD [OF s]
  show "qs = [] \<Longrightarrow> mq_unlink_head q = None" using S(1) by (simp add: mq_unlink_head_def)
  assume qs: "qs = b # qs'"
  have nb: "b \<notin> set qs'" using S(10) qs by simp
  have "last qs = b \<longleftrightarrow> qs' = []" using nb qs last_in_set [of qs'] by auto
  then show "\<exists>q'. mq_unlink_head q = Some (b, q') \<and>
       mq_shape (insert b X) (q'\<lparr>mq_entry := length qs'\<rparr>) qs' fs \<and> mq_entry q' = Suc (length qs') \<and>
       mq_data q' = mq_data q \<and> mq_max_msgs q' = mq_max_msgs q \<and> mq_msg_size q' = mq_msg_size q \<and>
       mq_flag q' = mq_flag q"
    using s qs nb by (auto simp: mq_unlink_head_def mq_shape_def)
qed

lemma mq_pop_shape:
  assumes s: "mq_shape X q (b # qs) fs"
  obtains q' where "mq_pop q = Some (b, q')" "mq_shape (insert b X) q' qs fs"
    "mq_data q' = mq_data q" "mq_max_msgs q' = mq_max_msgs q" "mq_msg_size q' = mq_msg_size q"
    "mq_flag q' = mq_flag q"
  using mq_unlink_head_shape(2) [OF s refl] that by (auto simp: mq_pop_def)

lemma mq_give_shape:
  assumes s: "mq_shape X q qs fs" and b: "b \<in> X"
  shows "mq_shape (X - {b}) (mq_give b q) qs (b # fs)"
proof -
  note S = mq_shapeD [OF s] and H = mq_held [OF s b]
  have "(X - {b}) \<inter> (set qs \<union> insert b (set fs)) = {}" "set qs \<union> insert b (set fs) \<union> (X - {b}) = {..<mq_max_msgs q}"
    using S(4,5) b by auto
  then show ?thesis using H S by (auto simp: mq_shape_def mq_give_def)
qed

subsection \<open>The storage is a bounded queue\<close>

definition mq_put :: "byte list \<Rightarrow> msgqueue \<Rightarrow> msgqueue option" where
  "mq_put x q = do {
     (b, q) \<leftarrow> mq_take_free q;
     q \<leftarrow> mq_fill b x (mq_clear_next b q);
     Some (snd (mq_append b q)) }"

definition mq_put_front :: "byte list \<Rightarrow> msgqueue \<Rightarrow> msgqueue option" where
  "mq_put_front x q = do {
     (b, q) \<leftarrow> mq_take_free q;
     q \<leftarrow> mq_fill b x q;
     Some (snd (mq_prepend b q)) }"

definition mq_get :: "msgqueue \<Rightarrow> (byte list \<times> msgqueue) option" where
  "mq_get q = do {
     (b, q) \<leftarrow> mq_pop q;
     xs \<leftarrow> mq_read b (mq_msg_size q) q;
     Some (xs, mq_give b q) }"

definition same_make :: "msgqueue \<Rightarrow> msgqueue \<Rightarrow> bool" where
  "same_make q q' \<longleftrightarrow> mq_max_msgs q' = mq_max_msgs q \<and> mq_msg_size q' = mq_msg_size q \<and> mq_flag q' = mq_flag q"

lemma mq_full_iff:
  assumes "mq_ok q"
  shows "mq_free q = None \<longleftrightarrow> mq_entry q = mq_max_msgs q"
proof (rule mq_okE [OF assms])
  fix qs fs assume s: "mq_shape {} q qs fs"
  show ?thesis
    using chain_nonempty [OF mq_shapeD(2) [OF s]] mq_shape_counts(1) [OF s] mq_shapeD(7) [OF s] by auto
qed

lemma mq_take_full:
  assumes "mq_ok q" "mq_entry q = mq_max_msgs q"
  shows "mq_take_free q = None"
  using mq_full_iff [OF assms(1)] assms(2) by (simp add: mq_take_free_def)

lemma mq_store_ok:
  assumes ok: "mq_ok q" and room: "mq_entry q < mq_max_msgs q" and l: "length x \<le> mq_msg_size q"
  obtains b q1 q2 q' rest where "mq_take_free q = Some (b, q1)"
    "mq_fill b x (mq_clear_next b q1) = Some q2" "mq_append b q2 = (RT_EOK, q')" "mq_ok q'"
    "mq_list q' = mq_list q @ [x @ rest]" "length x + length rest = mq_msg_size q" "same_make q q'"
proof (rule mq_okE [OF ok])
  fix qs fs assume s: "mq_shape {} q qs fs" and ls: "mq_list q = map (mq_data q) qs"
  have "fs \<noteq> []" using room mq_shape_counts(1) [OF s] mq_shapeD(7) [OF s] by auto
  then obtain b fs' where fs: "fs = b # fs'" by (cases fs) auto
  let ?q1 = "q\<lparr>mq_free := mq_next q b\<rparr>"
  note t = mq_take_free_shape(2) [OF s fs]
  have s1: "mq_shape {b} (mq_clear_next b ?q1) qs fs'"
    by (rule mq_clear_next_shape) (use t in auto)
  have bi: "b \<in> {b}" by simp
  have l1: "length x \<le> mq_msg_size (mq_clear_next b ?q1)" using l by (simp add: mq_clear_next_def)
  note F = mq_fill_shape [OF s1 bi l1]
  let ?rest = "drop (length x) (mq_data q b)"
  let ?q2 = "(mq_clear_next b ?q1)\<lparr>mq_data := (mq_data (mq_clear_next b ?q1))
       (b := x @ drop (length x) (mq_data (mq_clear_next b ?q1) b))\<rparr>"
  have n: "mq_next ?q2 b = None" by (simp add: mq_clear_next_def)
  obtain q' where q': "mq_append b ?q2 = (RT_EOK, q')" "mq_shape ({b} - {b}) q' (qs @ [b]) fs'"
    "mq_data q' = mq_data ?q2" "mq_max_msgs q' = mq_max_msgs ?q2" "mq_msg_size q' = mq_msg_size ?q2"
    "mq_flag q' = mq_flag ?q2"
    by (rule mq_append_shape [OF F(2) bi n]) (rule that)
  have sh: "mq_shape {} q' (qs @ [b]) fs'" using q'(2) by simp
  have nb: "b \<notin> set qs" "b < mq_max_msgs q" using mq_shapeD(3,5) [OF s] fs by auto
  show thesis
  proof (rule that [of b ?q1 ?q2 q' ?rest])
    show "mq_ok q'" by (rule mq_shape_lists(3) [OF sh])
    show "mq_list q' = mq_list q @ [x @ ?rest]"
      using nb(1) unfolding mq_shape_lists(4) [OF sh] ls q'(3) by (simp add: mq_clear_next_def)
    show "length x + length ?rest = mq_msg_size q" using l mq_shapeD(9) [OF s nb(2)] by simp
    show "same_make q q'" using q'(4-6) by (simp add: same_make_def mq_clear_next_def)
  qed (use t F(1) q'(1) in simp_all)
qed

lemma mq_store_front_ok:
  assumes ok: "mq_ok q" and room: "mq_entry q < mq_max_msgs q" and l: "length x \<le> mq_msg_size q"
  obtains b q1 q2 q' rest where "mq_take_free q = Some (b, q1)" "mq_fill b x q1 = Some q2"
    "mq_prepend b q2 = (RT_EOK, q')" "mq_ok q'" "mq_list q' = (x @ rest) # mq_list q"
    "length x + length rest = mq_msg_size q" "same_make q q'"
proof (rule mq_okE [OF ok])
  fix qs fs assume s: "mq_shape {} q qs fs" and ls: "mq_list q = map (mq_data q) qs"
  have "fs \<noteq> []" using room mq_shape_counts(1) [OF s] mq_shapeD(7) [OF s] by auto
  then obtain b fs' where fs: "fs = b # fs'" by (cases fs) auto
  let ?q1 = "q\<lparr>mq_free := mq_next q b\<rparr>"
  have t: "mq_take_free q = Some (b, ?q1)" "mq_shape {b} ?q1 qs fs'" "b \<in> {b}"
    using mq_take_free_shape(2) [OF s fs] by simp_all
  have l1: "length x \<le> mq_msg_size ?q1" using l by simp
  note F = mq_fill_shape [OF t(2,3) l1]
  let ?rest = "drop (length x) (mq_data q b)"
  let ?q2 = "?q1\<lparr>mq_data := (mq_data ?q1)(b := x @ drop (length x) (mq_data ?q1 b))\<rparr>"
  obtain q' where q': "mq_prepend b ?q2 = (RT_EOK, q')" "mq_shape ({b} - {b}) q' (b # qs) fs'"
    "mq_data q' = mq_data ?q2" "mq_max_msgs q' = mq_max_msgs ?q2" "mq_msg_size q' = mq_msg_size ?q2"
    "mq_flag q' = mq_flag ?q2"
    by (rule mq_prepend_shape [OF F(2) t(3)]) (rule that)
  have sh: "mq_shape {} q' (b # qs) fs'" using q'(2) by simp
  have nb: "b \<notin> set qs" "b < mq_max_msgs q" using mq_shapeD(3,5) [OF s] fs by auto
  show thesis
  proof (rule that [of b ?q1 ?q2 q' ?rest])
    show "mq_ok q'" by (rule mq_shape_lists(3) [OF sh])
    show "mq_list q' = (x @ ?rest) # mq_list q"
      using nb(1) unfolding mq_shape_lists(4) [OF sh] ls q'(3) by simp
    show "length x + length ?rest = mq_msg_size q" using l mq_shapeD(9) [OF s nb(2)] by simp
    show "same_make q q'" using q'(4-6) by (simp add: same_make_def)
  qed (use t F(1) q'(1) in simp_all)
qed

lemma mq_fetch_ok:
  assumes ok: "mq_ok q" and ne: "mq_list q = x # xs"
  obtains b q1 where "mq_pop q = Some (b, q1)" "mq_read b n q1 = Some (take n x)" "mq_ok (mq_give b q1)"
    "mq_list (mq_give b q1) = xs" "same_make q (mq_give b q1)" "mq_entry q \<noteq> 0" "mq_msg_size q1 = mq_msg_size q"
    "length x = mq_msg_size q"
proof (rule mq_okE [OF ok])
  fix qs fs assume s: "mq_shape {} q qs fs" and ls: "mq_list q = map (mq_data q) qs"
  obtain b qs' where qs: "qs = b # qs'" "x = mq_data q b" "xs = map (mq_data q) qs'"
    using ne ls by (cases qs) auto
  obtain q1 where q1: "mq_pop q = Some (b, q1)" "mq_shape {b} q1 qs' fs" "mq_data q1 = mq_data q"
    "mq_max_msgs q1 = mq_max_msgs q" "mq_msg_size q1 = mq_msg_size q" "mq_flag q1 = mq_flag q"
    by (rule mq_pop_shape [OF s [unfolded qs(1)]]) (rule that)
  have bi: "b \<in> {b}" by simp
  note g = mq_give_shape [OF q1(2) bi, simplified]
  have len: "length x = mq_msg_size q" using mq_held(4) [OF q1(2) bi] q1(3,5) qs(2) by simp
  show thesis
  proof (rule that [OF q1(1)])
    show "mq_read b n q1 = Some (take n x)" using len q1(3,5) qs(2) by (simp add: mq_read_def)
    show "mq_ok (mq_give b q1)" by (rule mq_shape_lists(3) [OF g])
    show "mq_list (mq_give b q1) = xs"
      using q1(3) qs(3) unfolding mq_shape_lists(4) [OF g] by (simp add: mq_give_def)
    show "same_make q (mq_give b q1)" using q1(4-6) by (simp add: same_make_def mq_give_def)
    show "mq_entry q \<noteq> 0" using mq_shapeD(7) [OF s] qs(1) by simp
  qed (use q1(5) len in simp_all)
qed

definition mq_fits :: "nat \<Rightarrow> byte list \<Rightarrow> bool" where
  "mq_fits n x \<longleftrightarrow> length x = n"

interpretation mqq: urgent_fifo mq_ok mq_list mq_max_msgs mq_fits mq_msg_size mq_put mq_get mq_put_front
proof unfold_locales
  fix q x xs
  show "mq_ok q \<Longrightarrow> length (mq_list q) \<le> mq_max_msgs q" using mq_ok_length [of "{}" q] by simp
  show "\<exists>q'. mq_put x q = Some q' \<and> mq_ok q' \<and> mq_list q' = mq_list q @ [x] \<and> mq_max_msgs q' = mq_max_msgs q \<and>
      mq_msg_size q' = mq_msg_size q"
    if q: "mq_ok q" "length (mq_list q) < mq_max_msgs q" "mq_fits (mq_msg_size q) x"
  proof -
    have r: "mq_entry q < mq_max_msgs q" "length x \<le> mq_msg_size q"
      using q mq_ok_length(1) [OF q(1)] by (simp_all add: mq_fits_def)
    show ?thesis
      by (rule mq_store_ok [OF q(1) r]) (use q(3) in \<open>simp add: mq_put_def mq_fits_def same_make_def\<close>)
  qed
  show "mq_ok q \<Longrightarrow> length (mq_list q) = mq_max_msgs q \<Longrightarrow> mq_put x q = None"
    using mq_take_full [of q] mq_ok_length(1) [of "{}" q] by (simp add: mq_put_def)
  show "\<exists>q'. mq_get q = Some (x, q') \<and> mq_ok q' \<and> mq_list q' = xs \<and> mq_max_msgs q' = mq_max_msgs q \<and>
      mq_msg_size q' = mq_msg_size q"
    if q: "mq_ok q" "mq_list q = x # xs"
    by (rule mq_fetch_ok [OF q, of "mq_msg_size q"]) (simp add: mq_get_def same_make_def)
  show "mq_ok q \<Longrightarrow> mq_list q = [] \<Longrightarrow> mq_get q = None"
  proof -
    assume q: "mq_ok q" "mq_list q = []"
    show "mq_get q = None"
    proof (rule mq_okE [OF q(1)])
      fix qs fs assume s: "mq_shape {} q qs fs" "mq_list q = map (mq_data q) qs"
      then show ?thesis
        using mq_unlink_head_shape(1) [OF s(1)] q(2) by (simp add: mq_get_def mq_pop_def)
    qed
  qed
  show "\<exists>q'. mq_put_front x q = Some q' \<and> mq_ok q' \<and> mq_list q' = x # mq_list q \<and>
      mq_max_msgs q' = mq_max_msgs q \<and> mq_msg_size q' = mq_msg_size q"
    if q: "mq_ok q" "length (mq_list q) < mq_max_msgs q" "mq_fits (mq_msg_size q) x"
  proof -
    have r: "mq_entry q < mq_max_msgs q" "length x \<le> mq_msg_size q"
      using q mq_ok_length(1) [OF q(1)] by (simp_all add: mq_fits_def)
    show ?thesis
      by (rule mq_store_front_ok [OF q(1) r]) (use q(3) in \<open>simp add: mq_put_front_def mq_fits_def same_make_def\<close>)
  qed
  show "mq_ok q \<Longrightarrow> length (mq_list q) = mq_max_msgs q \<Longrightarrow> mq_put_front x q = None"
    using mq_take_full [of q] mq_ok_length(1) [of "{}" q] by (simp add: mq_put_front_def)
qed

subsection \<open>Creation and reset\<close>

lemma mq_build_free_shape:
  assumes "n < 2 ^ 16" "n * (sz + sizeof_mq_message) \<le> length pool"
  shows "mq_shape {} (mq_build_free n (mq_blank pool sz n flag)) [] (rev [0..<n])"
proof -
  let ?q = "mq_blank pool sz n flag"
  have "mq_shape {..<n} ?q [] []"
  proof -
    have "length (mq_data ?q b) = sz" if "b < n" for b
    proof -
      have "Suc b * (sz + 4) \<le> n * (sz + 4)" using that by (intro mult_le_mono1) simp
      then show ?thesis using assms(2) by (simp add: mq_blank_def)
    qed
    then show ?thesis using assms(1) by (simp add: mq_shape_def mq_blank_def)
  qed
  then have "i \<le> n \<Longrightarrow> mq_shape {i..<n} (mq_build_free i ?q) [] (rev [0..<i])" for i
  proof (induction i)
    case 0
    then show ?case by (simp add: atLeast0LessThan)
  next
    case (Suc i)
    have i: "i \<in> {i..<n}" "{i..<n} - {i} = {Suc i..<n}" using Suc.prems by auto
    from mq_give_shape [OF Suc.IH i(1)] Suc.prems show ?case by (simp add: i(2))
  qed
  from this [of n] show ?thesis by simp
qed

lemma mq_build_free_fields [simp]:
  "mq_max_msgs (mq_build_free i q) = mq_max_msgs q" "mq_msg_size (mq_build_free i q) = mq_msg_size q"
  "mq_flag (mq_build_free i q) = mq_flag q"
  by (induction i) (simp_all add: mq_give_def)

lemma mq_reset_loop_ok:
  assumes "mq_shape {} (q\<lparr>mq_entry := length qs\<rparr>) qs fs" "length qs < fuel"
  shows "\<exists>q'. mq_reset_loop fuel q = Some q' \<and>
    mq_shape {} (q'\<lparr>mq_entry := 0\<rparr>) [] (rev qs @ fs) \<and> same_make q q'"
  using assms
proof (induction fuel arbitrary: q qs fs)
  case 0
  then show ?case by simp
next
  case (Suc fuel)
  have u: "mq_unlink_head (q\<lparr>mq_entry := n\<rparr>) = map_option (map_prod id (mq_entry_update (\<lambda>_. n))) (mq_unlink_head q)" for n
    by (cases "mq_head q") (simp_all add: mq_unlink_head_def Let_def)
  show ?case
  proof (cases qs)
    case Nil
    have n: "mq_unlink_head q = None"
      using mq_unlink_head_shape(1) [OF Suc.prems(1) Nil] by (simp add: u)
    then show ?thesis using Suc.prems(1) Nil by (intro exI [of _ q]) (simp add: same_make_def)
  next
    case (Cons b qs')
    obtain q1 where q1: "mq_unlink_head (q\<lparr>mq_entry := length qs\<rparr>) = Some (b, q1)"
      "mq_shape {b} (q1\<lparr>mq_entry := length qs'\<rparr>) qs' fs" "mq_max_msgs q1 = mq_max_msgs q"
      "mq_msg_size q1 = mq_msg_size q" "mq_flag q1 = mq_flag q"
      using mq_unlink_head_shape(2) [OF Suc.prems(1) Cons] by auto
    obtain q2 where q2: "mq_unlink_head q = Some (b, q2)" "q1 = q2\<lparr>mq_entry := length qs\<rparr>"
      using q1(1) unfolding u by auto
    have "mq_shape ({b} - {b}) (mq_give b (q1\<lparr>mq_entry := length qs'\<rparr>)) qs' (b # fs)"
      by (rule mq_give_shape [OF q1(2)]) simp
    then have s2: "mq_shape {} ((mq_give b q2)\<lparr>mq_entry := length qs'\<rparr>) qs' (b # fs)"
      by (simp add: q2(2) mq_give_def mq_shape_def)
    obtain q' where q': "mq_reset_loop fuel (mq_give b q2) = Some q'"
      "mq_shape {} (q'\<lparr>mq_entry := 0\<rparr>) [] (rev qs' @ b # fs)" "same_make (mq_give b q2) q'"
      using Suc.IH [OF s2] Suc.prems(2) Cons by auto
    show ?thesis
    proof (intro exI conjI)
      show "mq_reset_loop (Suc fuel) q = Some q'" using q2(1) q'(1) by simp
      show "mq_shape {} (q'\<lparr>mq_entry := 0\<rparr>) [] (rev qs @ fs)" using q'(2) Cons by simp
      show "same_make q q'" using q'(3) q1(3-5) q2(2) by (simp add: same_make_def mq_give_def)
    qed
  qed
qed

lemma mq_reset_ok:
  assumes "mq_ok q"
  obtains q' where "mq_reset_loop (Suc (mq_max_msgs q)) q = Some q'" "mq_ok (q'\<lparr>mq_entry := 0\<rparr>)"
    "mq_list (q'\<lparr>mq_entry := 0\<rparr>) = []" "same_make q q'"
proof (rule mq_okE [OF assms])
  fix qs fs assume s: "mq_shape {} q qs fs"
  have e: "q\<lparr>mq_entry := length qs\<rparr> = q" using mq_shapeD(7) [OF s] by simp
  have l: "length qs < Suc (mq_max_msgs q)" using mq_shape_counts(1) [OF s] by simp
  obtain q' where q': "mq_reset_loop (Suc (mq_max_msgs q)) q = Some q'"
    "mq_shape {} (q'\<lparr>mq_entry := 0\<rparr>) [] (rev qs @ fs)" "same_make q q'"
    using mq_reset_loop_ok [where q = q and qs = qs and fs = fs, unfolded e, OF s l] by blast
  show thesis by (rule that [OF q'(1) mq_shape_lists(3) [OF q'(2)] _ q'(3)])
      (use mq_shape_lists(4) [OF q'(2)] in simp)
qed

subsection \<open>Interleaved calls\<close>

text \<open>
  The critical sections of any number of sends and receives, in any order: \<open>X\<close> is the set of
  blocks that some call has taken and not yet linked again.
\<close>

inductive mq_phases :: "msgqueue \<Rightarrow> nat set \<Rightarrow> msgqueue \<Rightarrow> bool" for q0 where
  start: "mq_phases q0 {} q0"
| take_free: "mq_phases q0 X q \<Longrightarrow> mq_take_free q = Some (b, q') \<Longrightarrow> mq_phases q0 (insert b X) q'"
| clear: "mq_phases q0 X q \<Longrightarrow> b \<in> X \<Longrightarrow> mq_phases q0 X (mq_clear_next b q)"
| fill: "mq_phases q0 X q \<Longrightarrow> b \<in> X \<Longrightarrow> length src \<le> mq_msg_size q \<Longrightarrow> mq_fill b src q = Some q' \<Longrightarrow>
    mq_phases q0 X q'"
| append: "mq_phases q0 X q \<Longrightarrow> b \<in> X \<Longrightarrow> mq_next q b = None \<Longrightarrow> mq_append b q = (r, q') \<Longrightarrow>
    mq_phases q0 (X - {b}) q'"
| prepend: "mq_phases q0 X q \<Longrightarrow> b \<in> X \<Longrightarrow> mq_prepend b q = (r, q') \<Longrightarrow> mq_phases q0 (X - {b}) q'"
| pop: "mq_phases q0 X q \<Longrightarrow> mq_pop q = Some (b, q') \<Longrightarrow> mq_phases q0 (insert b X) q'"
| give: "mq_phases q0 X q \<Longrightarrow> b \<in> X \<Longrightarrow> mq_phases q0 (X - {b}) (mq_give b q)"

lemma mq_phases_ok:
  assumes "mq_phases q0 X q" "mq_ok q0"
  shows "mq_ok_x X q \<and> same_make q0 q"
  using assms
proof (induction rule: mq_phases.induct)
  case start
  then show ?case by (simp add: same_make_def)
next
  case (take_free X q b q')
  then obtain qs fs where s: "mq_shape X q qs fs" "same_make q0 q" by (blast elim: mq_okE)
  then obtain fs' where "fs = b # fs'"
    using mq_take_free_shape [OF s(1)] take_free.hyps(2) by (cases fs) auto
  then show ?case
    using mq_take_free_shape(2) [OF s(1)] mq_shape_lists(3) take_free.hyps(2) s(2)
    by (auto simp: same_make_def)
next
  case (clear X q b)
  then obtain qs fs where s: "mq_shape X q qs fs" "same_make q0 q" by (blast elim: mq_okE)
  then show ?case using mq_shape_lists(3) [OF mq_clear_next_shape [OF s(1) clear.hyps(2)]]
    by (simp add: same_make_def mq_clear_next_def)
next
  case (fill X q b src q')
  then obtain qs fs where s: "mq_shape X q qs fs" "same_make q0 q" by (blast elim: mq_okE)
  note F = mq_fill_shape [OF s(1) fill.hyps(2,3)]
  show ?case using mq_shape_lists(3) [OF F(2)] F(1) fill.hyps(4) s(2) by (auto simp: same_make_def)
next
  case (append X q b r q')
  then obtain qs fs where s: "mq_shape X q qs fs" "same_make q0 q" by (blast elim: mq_okE)
  show ?case
    by (rule mq_append_shape [OF s(1) append.hyps(2,3)])
      (use append.hyps(4) mq_shape_lists(3) s(2) in \<open>auto simp: same_make_def\<close>)
next
  case (prepend X q b r q')
  then obtain qs fs where s: "mq_shape X q qs fs" "same_make q0 q" by (blast elim: mq_okE)
  show ?case
    by (rule mq_prepend_shape [OF s(1) prepend.hyps(2)])
      (use prepend.hyps(3) mq_shape_lists(3) s(2) in \<open>auto simp: same_make_def\<close>)
next
  case (pop X q b q')
  then obtain qs fs where s: "mq_shape X q qs fs" "same_make q0 q" by (blast elim: mq_okE)
  have "qs \<noteq> []" using mq_unlink_head_shape(1) [OF s(1)] pop.hyps(2) by (auto simp: mq_pop_def)
  then obtain a qs' where qs: "qs = a # qs'" by (cases qs) auto
  show ?case
    by (rule mq_pop_shape [OF s(1) [unfolded qs]])
      (use pop.hyps(2) mq_shape_lists(3) s(2) in \<open>auto simp: same_make_def\<close>)
next
  case (give X q b)
  then obtain qs fs where s: "mq_shape X q qs fs" "same_make q0 q" by (blast elim: mq_okE)
  then show ?case using mq_shape_lists(3) [OF mq_give_shape [OF s(1) give.hyps(2)]]
    by (simp add: same_make_def mq_give_def)
qed

subsection \<open>The queue the operations implement\<close>

definition mq_inv :: "nat \<Rightarrow> kernel \<Rightarrow> bool" where
  "mq_inv m k \<longleftrightarrow> kinv k \<and> mq_ok (mqueues k m)"

record mq_box =
  messages :: "byte list list"
  mq_receivers :: "nat list"
  mq_senders :: "nat list"

definition mq_abs :: "nat \<Rightarrow> kernel \<Rightarrow> mq_box" where
  "mq_abs m k = \<lparr>messages = mq_list (mqueues k m), mq_receivers = lists k (SuspQ m),
     mq_senders = lists k (SenderQ m)\<rparr>"

text \<open>
  A message of \<open>width\<close> bytes ends in \<open>rest\<close>, the bytes an earlier message left in its block, where
  the sender gave fewer.
\<close>

definition spec_mq_send ::
  "nat \<Rightarrow> nat \<Rightarrow> (nat list \<Rightarrow> nat list) \<Rightarrow> byte list \<Rightarrow> byte list \<Rightarrow> int \<Rightarrow> u32 \<Rightarrow> mq_box \<Rightarrow>
   int waiting_ret \<times> mq_box" where
  "spec_mq_send cap width enqueue x rest timeout now b =
     (if length x > width then (Done (- RT_ERROR), b)
      else if length (messages b) < cap
      then (Done RT_EOK, b\<lparr>messages := messages b @ [x @ rest], mq_receivers := tl (mq_receivers b)\<rparr>)
      else if timeout = 0 then (Done (- RT_EFULL), b)
      else (Waiting timeout (if timeout > 0 then now else 0), b\<lparr>mq_senders := enqueue (mq_senders b)\<rparr>))"

definition spec_mq_urgent ::
  "nat \<Rightarrow> nat \<Rightarrow> byte list \<Rightarrow> byte list \<Rightarrow> mq_box \<Rightarrow> int \<times> mq_box" where
  "spec_mq_urgent cap width x rest b =
     (if length x > width then (- RT_ERROR, b)
      else if length (messages b) < cap
      then (RT_EOK, b\<lparr>messages := (x @ rest) # messages b, mq_receivers := tl (mq_receivers b)\<rparr>)
      else (- RT_EFULL, b))"

definition spec_mq_recv ::
  "nat \<Rightarrow> (nat list \<Rightarrow> nat list) \<Rightarrow> int \<Rightarrow> u32 \<Rightarrow> mq_box \<Rightarrow> (int \<times> byte list option) waiting_ret \<times> mq_box" where
  "spec_mq_recv sz enqueue timeout now b =
     (case messages b of
        x # xs \<Rightarrow> (Done (RT_EOK, Some (take sz x)), b\<lparr>messages := xs, mq_senders := tl (mq_senders b)\<rparr>)
      | [] \<Rightarrow> if timeout = 0 then (Done (- RT_ETIMEOUT, None), b)
          else (Waiting timeout (if timeout > 0 then now else 0), b\<lparr>mq_receivers := enqueue (mq_receivers b)\<rparr>))"

lemma mq_abs_sel [simp]:
  "messages (mq_abs m k) = mq_list (mqueues k m)" "mq_receivers (mq_abs m k) = lists k (SuspQ m)"
  "mq_senders (mq_abs m k) = lists k (SenderQ m)"
  by (simp_all add: mq_abs_def)

text \<open>The end of an operation that has changed the storage: wake the first thread of a list.\<close>

lemma mq_wake_ok:
  assumes inv: "kinv k" and q: "mq_ok q" and h: "list_stat h = RT_THREAD_SUSPEND"
  obtains k' where "ipc_wake_one h (upd_mq m (\<lambda>_. q) k) = Some k'" "mq_inv m k'" "mqueues k' m = q"
    "lists k' h = tl (lists k h)" "\<And>g. g \<noteq> h \<Longrightarrow> \<not> is_ready g \<Longrightarrow> lists k' g = lists k g"
proof -
  let ?k = "upd_mq m (\<lambda>_. q) k"
  have i1: "kinv ?k" using inv by simp
  obtain k' where k': "ipc_wake_one h ?k = Some k'" "kinv k'" "mqueues k' = mqueues ?k"
    "lists k' h = tl (lists ?k h)" "\<And>g. g \<noteq> h \<Longrightarrow> \<not> is_ready g \<Longrightarrow> lists k' g = lists ?k g"
    by (rule ipc_wake_one_ok [OF i1 h]) (rule that)
  show thesis by (rule that [OF k'(1)]) (use q k' in \<open>simp_all add: mq_inv_def\<close>)
qed

lemma mq_send_room:
  assumes inv: "mq_inv m k" and room: "mq_entry (mqueues k m) < mq_max_msgs (mqueues k m)"
    and l: "length x \<le> mq_msg_size (mqueues k m)"
  obtains k' rest where "mq_send_round m x timeout k = Some (Done RT_EOK, k')" "mq_inv m k'"
    "mq_list (mqueues k' m) = mq_list (mqueues k m) @ [x @ rest]"
    "length x + length rest = mq_msg_size (mqueues k m)" "same_make (mqueues k m) (mqueues k' m)"
    "lists k' (SuspQ m) = tl (lists k (SuspQ m))" "lists k' (SenderQ m) = lists k (SenderQ m)"
proof -
  have ki: "kinv k" "mq_ok (mqueues k m)" using inv by (simp_all add: mq_inv_def)
  obtain b q1 q2 q rest where q: "mq_take_free (mqueues k m) = Some (b, q1)"
    "mq_fill b x (mq_clear_next b q1) = Some q2" "mq_append b q2 = (RT_EOK, q)" "mq_ok q"
    "mq_list q = mq_list (mqueues k m) @ [x @ rest]" "length x + length rest = mq_msg_size (mqueues k m)"
    "same_make (mqueues k m) q"
    by (rule mq_store_ok [OF ki(2) room l]) (rule that)
  obtain k' where k': "ipc_wake_one (SuspQ m) (upd_mq m (\<lambda>_. q) k) = Some k'" "mq_inv m k'" "mqueues k' m = q"
    "lists k' (SuspQ m) = tl (lists k (SuspQ m))" "\<And>g. g \<noteq> SuspQ m \<Longrightarrow> \<not> is_ready g \<Longrightarrow> lists k' g = lists k g"
    by (rule mq_wake_ok [OF ki(1) q(4) list_stat.simps(2)]) (rule that)
  show thesis
    by (rule that [of k' rest]) (use q k' in \<open>simp_all add: mq_send_round_def\<close>)
qed

lemma mq_recv_some:
  assumes inv: "mq_inv m k" and ne: "mq_list (mqueues k m) = x # xs"
  obtains k' where "mq_recv_round m n timeout k = Some (Done (RT_EOK, Some (take n x)), k')" "mq_inv m k'"
    "mq_list (mqueues k' m) = xs" "same_make (mqueues k m) (mqueues k' m)"
    "lists k' (SenderQ m) = tl (lists k (SenderQ m))" "lists k' (SuspQ m) = lists k (SuspQ m)"
    "mq_entry (mqueues k m) \<noteq> 0"
proof -
  have ki: "kinv k" "mq_ok (mqueues k m)" using inv by (simp_all add: mq_inv_def)
  obtain b q1 where q: "mq_pop (mqueues k m) = Some (b, q1)" "mq_read b n q1 = Some (take n x)"
    "mq_ok (mq_give b q1)" "mq_list (mq_give b q1) = xs" "same_make (mqueues k m) (mq_give b q1)"
    "mq_entry (mqueues k m) \<noteq> 0"
    by (rule mq_fetch_ok [OF ki(2) ne]) (rule that)
  obtain k' where k': "ipc_wake_one (SenderQ m) (upd_mq m (\<lambda>_. mq_give b q1) k) = Some k'" "mq_inv m k'"
    "mqueues k' m = mq_give b q1" "lists k' (SenderQ m) = tl (lists k (SenderQ m))"
    "\<And>g. g \<noteq> SenderQ m \<Longrightarrow> \<not> is_ready g \<Longrightarrow> lists k' g = lists k g"
    by (rule mq_wake_ok [OF ki(1) q(3) list_stat.simps(3)]) (rule that)
  show thesis
    by (rule that [of k']) (use q k' in \<open>simp_all add: mq_recv_round_def\<close>)
qed

text \<open>The blocking branch.\<close>

lemma mq_block_ok:
  assumes inv: "mq_inv m k" and t: "in_thread k t" and time: "timeout < 2 ^ 31 - 1" "timeout \<noteq> 0"
    and h: "list_stat h = RT_THREAD_SUSPEND"
  obtains k1 k' where
    "ipc_suspend_timed h t flag timeout (upd_thread t (\<lambda>h. h\<lparr>th_error := RT_EOK\<rparr>) k) = Some k1"
    "rt_schedule k1 = Some k'" "mq_inv m k'" "mqueues k' = mqueues k"
    "lists k' h = wait_insert flag (\<lambda>u. current_priority (threads k u)) t (lists k h)"
    "\<And>g. g \<noteq> h \<Longrightarrow> \<not> is_ready g \<Longrightarrow> lists k' g = lists k g"
proof -
  have ki: "kinv k" "mq_ok (mqueues k m)" using inv by (simp_all add: mq_inv_def)
  obtain k1 k' where k': "ipc_suspend_timed h t flag timeout (upd_thread t (\<lambda>h. h\<lparr>th_error := RT_EOK\<rparr>) k) = Some k1"
    "rt_schedule k1 = Some k'" "kinv k'" "mqueues k' = mqueues k"
    "lists k' h = wait_insert flag (\<lambda>u. current_priority (threads k u)) t (lists k h)"
    "\<And>g. g \<noteq> h \<Longrightarrow> \<not> is_ready g \<Longrightarrow> lists k' g = lists k g"
    by (rule ipc_sleep_ok [OF ki(1) t time(1) h, where flag = flag]) (rule that)
  show thesis by (rule that [OF k'(1,2)]) (use k' ki(2) in \<open>simp_all add: mq_inv_def\<close>)
qed

lemma rt_mq_send_wait_refines:
  assumes inv: "mq_inv m k" and t: "in_thread k t" and time: "timeout < 2 ^ 31 - 1"
    and n: "0 < n" "n \<le> length buffer"
  obtains r k' rest where "rt_mq_send_wait m buffer n timeout k = Some (r, k')" "mq_inv m k'"
    "(r, mq_abs m k') = spec_mq_send (mq_max_msgs (mqueues k m)) (mq_msg_size (mqueues k m))
       (wait_insert (mq_flag (mqueues k m)) (\<lambda>u. current_priority (threads k u)) t)
       (take n buffer) rest timeout (rt_tick k) (mq_abs m k)"
    "n \<le> mq_msg_size (mqueues k m) \<Longrightarrow> n + length rest = mq_msg_size (mqueues k m)"
proof -
  let ?q = "mqueues k m" and ?x = "take n buffer"
  have ok: "mq_ok ?q" using inv by (simp add: mq_inv_def)
  note lm = mq_ok_length [OF ok, simplified]
  obtain pad :: "byte list" where pad: "length pad = mq_msg_size ?q - n" using Ex_list_of_length by blast
  have e: "rt_mq_send_wait m buffer n timeout k =
      (if n > mq_msg_size ?q then Some (Done (- RT_ERROR), k)
       else if mq_entry ?q = mq_max_msgs ?q \<and> timeout = 0 then Some (Done (- RT_EFULL), k)
       else mq_send_round m ?x timeout k)"
    using n in_threadD(5) [OF t] mq_full_iff [OF ok] by (simp add: rt_mq_send_wait_def)
  consider (big) "n > mq_msg_size ?q" | (room) "n \<le> mq_msg_size ?q" "mq_entry ?q < mq_max_msgs ?q"
    | (full) "n \<le> mq_msg_size ?q" "mq_entry ?q = mq_max_msgs ?q" "timeout = 0"
    | (wait) "n \<le> mq_msg_size ?q" "mq_entry ?q = mq_max_msgs ?q" "timeout \<noteq> 0"
    using lm(2) by linarith
  then show thesis
  proof cases
    case big
    show thesis by (rule that [of "Done (- RT_ERROR)" k]) (use big n inv in \<open>simp_all add: e spec_mq_send_def\<close>)
  next
    case room
    have l: "length ?x \<le> mq_msg_size ?q" using room(1) n by simp
    obtain k' rest where k': "mq_send_round m ?x timeout k = Some (Done RT_EOK, k')" "mq_inv m k'"
      "mq_list (mqueues k' m) = mq_list ?q @ [?x @ rest]" "length ?x + length rest = mq_msg_size ?q"
      "lists k' (SuspQ m) = tl (lists k (SuspQ m))" "lists k' (SenderQ m) = lists k (SenderQ m)"
      by (rule mq_send_room [OF inv room(2) l]) (rule that)
    show thesis
      by (rule that [of "Done RT_EOK" k' rest])
        (use room n k' lm(1) in \<open>simp_all add: e spec_mq_send_def mq_abs_def\<close>)
  next
    case full
    have "rt_mq_send_wait m buffer n timeout k = Some (Done (- RT_EFULL), k)"
      unfolding e using full by simp
    then show thesis
      by (rule that [where rest = pad]) (use full n inv lm(1) pad in \<open>simp_all add: spec_mq_send_def\<close>)
  next
    case wait
    let ?f = "mq_flag ?q"
    obtain k1 k' where k': "ipc_suspend_timed (SenderQ m) t ?f timeout (upd_thread t (\<lambda>h. h\<lparr>th_error := RT_EOK\<rparr>) k) = Some k1"
      "rt_schedule k1 = Some k'" "mq_inv m k'" "mqueues k' = mqueues k"
      "lists k' (SenderQ m) = wait_insert ?f (\<lambda>u. current_priority (threads k u)) t (lists k (SenderQ m))"
      "\<And>g. g \<noteq> SenderQ m \<Longrightarrow> \<not> is_ready g \<Longrightarrow> lists k' g = lists k g"
      by (rule mq_block_ok [OF inv t time wait(3) list_stat.simps(3), where flag = ?f]) (rule that)
    have r: "rt_mq_send_wait m buffer n timeout k = Some (Waiting timeout (if timeout > 0 then rt_tick k else 0), k')"
      using k'(1,2) wait in_threadD(8) [OF t] mq_take_full [OF ok wait(2)]
      by (simp add: e mq_send_round_def rt_tick_get_def)
    show thesis
      by (rule that [OF r k'(3), of pad]) (use wait n k' lm(1) pad in \<open>simp_all add: spec_mq_send_def mq_abs_def\<close>)
  qed
qed

lemma rt_mq_urgent_refines:
  assumes inv: "mq_inv m k" and n: "0 < n" "n \<le> length buffer"
  obtains r k' rest where "rt_mq_urgent m buffer n k = Some (r, k')" "mq_inv m k'"
    "(r, mq_abs m k') = spec_mq_urgent (mq_max_msgs (mqueues k m)) (mq_msg_size (mqueues k m))
       (take n buffer) rest (mq_abs m k)"
    "n \<le> mq_msg_size (mqueues k m) \<Longrightarrow> n + length rest = mq_msg_size (mqueues k m)"
proof -
  let ?q = "mqueues k m" and ?x = "take n buffer"
  have ok: "kinv k" "mq_ok ?q" using inv by (simp_all add: mq_inv_def)
  note lm = mq_ok_length [OF ok(2), simplified]
  obtain pad :: "byte list" where pad: "length pad = mq_msg_size ?q - n" using Ex_list_of_length by blast
  consider (big) "n > mq_msg_size ?q" | (room) "n \<le> mq_msg_size ?q" "mq_entry ?q < mq_max_msgs ?q"
    | (full) "n \<le> mq_msg_size ?q" "mq_entry ?q = mq_max_msgs ?q"
    using lm(2) by linarith
  then show thesis
  proof cases
    case big
    show thesis
      by (rule that [of "- RT_ERROR" k]) (use big n inv in \<open>simp_all add: rt_mq_urgent_def spec_mq_urgent_def\<close>)
  next
    case room
    have l: "length ?x \<le> mq_msg_size ?q" using room(1) n by simp
    obtain b q1 q2 q rest where q: "mq_take_free ?q = Some (b, q1)"
      "mq_fill b ?x q1 = Some q2" "mq_prepend b q2 = (RT_EOK, q)" "mq_ok q"
      "mq_list q = (?x @ rest) # mq_list ?q" "length ?x + length rest = mq_msg_size ?q"
      by (rule mq_store_front_ok [OF ok(2) room(2) l]) (rule that)
    obtain k' where k': "ipc_wake_one (SuspQ m) (upd_mq m (\<lambda>_. q) k) = Some k'" "mq_inv m k'" "mqueues k' m = q"
      "lists k' (SuspQ m) = tl (lists k (SuspQ m))" "\<And>g. g \<noteq> SuspQ m \<Longrightarrow> \<not> is_ready g \<Longrightarrow> lists k' g = lists k g"
      by (rule mq_wake_ok [OF ok(1) q(4) list_stat.simps(2)]) (rule that)
    show thesis
      by (rule that [of RT_EOK k' rest])
        (use room n q k' lm(1) in \<open>simp_all add: rt_mq_urgent_def spec_mq_urgent_def mq_abs_def\<close>)
  next
    case full
    have "rt_mq_urgent m buffer n k = Some (- RT_EFULL, k)"
      using full n mq_take_full [OF ok(2) full(2)] by (simp add: rt_mq_urgent_def)
    then show thesis
      by (rule that [where rest = pad]) (use full n inv lm(1) pad in \<open>simp_all add: spec_mq_urgent_def\<close>)
  qed
qed

lemma rt_mq_recv_refines:
  assumes inv: "mq_inv m k" and t: "in_thread k t" and time: "timeout < 2 ^ 31 - 1" and n: "0 < n"
  obtains r k' where "rt_mq_recv m n timeout k = Some (r, k')" "mq_inv m k'"
    "(r, mq_abs m k') = spec_mq_recv n
       (wait_insert (mq_flag (mqueues k m)) (\<lambda>u. current_priority (threads k u)) t)
       timeout (rt_tick k) (mq_abs m k)"
proof -
  let ?q = "mqueues k m"
  have ok: "mq_ok ?q" using inv by (simp add: mq_inv_def)
  note lm = mq_ok_length(1) [OF ok]
  have e: "rt_mq_recv m n timeout k =
      (if mq_entry ?q = 0 \<and> timeout = 0 then Some (Done (- RT_ETIMEOUT, None), k)
       else mq_recv_round m n timeout k)"
    using n in_threadD(5) [OF t] by (simp add: rt_mq_recv_def)
  show thesis
  proof (cases "mq_list ?q")
    case (Cons x xs)
    obtain k' where k': "mq_recv_round m n timeout k = Some (Done (RT_EOK, Some (take n x)), k')" "mq_inv m k'"
      "mq_list (mqueues k' m) = xs" "lists k' (SenderQ m) = tl (lists k (SenderQ m))"
      "lists k' (SuspQ m) = lists k (SuspQ m)" "mq_entry ?q \<noteq> 0"
      by (rule mq_recv_some [OF inv Cons]) (rule that)
    show thesis by (rule that [of "Done (RT_EOK, Some (take n x))" k'])
        (use Cons k' in \<open>simp_all add: e spec_mq_recv_def mq_abs_def\<close>)
  next
    case Nil
    then have z: "mq_entry ?q = 0" using lm by simp
    show thesis
    proof (cases "timeout = 0")
      case True
      have "rt_mq_recv m n timeout k = Some (Done (- RT_ETIMEOUT, None), k)"
        unfolding e using True z by simp
      then show thesis by (rule that) (use True Nil inv in \<open>simp_all add: spec_mq_recv_def\<close>)
    next
      case False
      let ?f = "mq_flag ?q"
      obtain k1 k' where k': "ipc_suspend_timed (SuspQ m) t ?f timeout (upd_thread t (\<lambda>h. h\<lparr>th_error := RT_EOK\<rparr>) k) = Some k1"
        "rt_schedule k1 = Some k'" "mq_inv m k'" "mqueues k' = mqueues k"
        "lists k' (SuspQ m) = wait_insert ?f (\<lambda>u. current_priority (threads k u)) t (lists k (SuspQ m))"
        "\<And>g. g \<noteq> SuspQ m \<Longrightarrow> \<not> is_ready g \<Longrightarrow> lists k' g = lists k g"
        by (rule mq_block_ok [OF inv t time False list_stat.simps(2), where flag = ?f]) (rule that)
      have r: "rt_mq_recv m n timeout k = Some (Waiting timeout (if timeout > 0 then rt_tick k else 0), k')"
        using k'(1,2) z False in_threadD(8) [OF t] by (simp add: e mq_recv_round_def rt_tick_get_def)
      show thesis by (rule that [OF r k'(3)]) (use Nil False k' in \<open>simp_all add: spec_mq_recv_def mq_abs_def\<close>)
    qed
  qed
qed

text \<open>A new queue is empty, and its capacity is what the pool holds.\<close>

lemma rt_mq_init_ok:
  assumes inv: "kinv k" and empty: "lists k (SuspQ m) = []" "lists k (SenderQ m) = []"
    and pool: "pool_size \<le> length pool" "0 < msg_size" "msg_size \<le> 2 ^ 16 - 4"
    and n: "pool_size div (RT_ALIGN msg_size 4 + 4) < 2 ^ 16"
  obtains k' where "rt_mq_init m pool msg_size pool_size flag k = (RT_EOK, k')" "mq_inv m k'"
    "mq_abs m k' = \<lparr>messages = [], mq_receivers = [], mq_senders = []\<rparr>"
    "mq_max_msgs (mqueues k' m) = pool_size div (RT_ALIGN msg_size 4 + 4)"
    "mq_msg_size (mqueues k' m) = RT_ALIGN msg_size 4" "msg_size \<le> mq_msg_size (mqueues k' m)"
    "mq_flag (mqueues k' m) = flag" "threads k' = threads k" "in_thread k' t = in_thread k t"
proof -
  let ?sz = "RT_ALIGN msg_size 4"
  let ?n = "pool_size div (?sz + 4)"
  have sz: "?sz < 2 ^ 16" "msg_size \<le> ?sz"
  proof -
    have "?sz = (msg_size + 3) - (msg_size + 3) mod 4"
      using pool(3) by (simp add: RT_ALIGN_def RT_ALIGN_DOWN_def add.commute)
    moreover have "(msg_size + 3) mod 4 < 4" by simp
    ultimately show "?sz < 2 ^ 16" "msg_size \<le> ?sz" using pool(2,3) by linarith+
  qed
  let ?q = "mq_build_free ?n (mq_blank pool ?sz ?n flag)"
  have "?n * (?sz + 4) \<le> pool_size" by (rule div_times_less_eq_dividend)
  then have "?n * (?sz + 4) \<le> length pool" using pool(1) by linarith
  note sh = mq_build_free_shape [OF n this, of flag]
  have k': "rt_mq_init m pool msg_size pool_size flag k = (RT_EOK, upd_mq m (\<lambda>_. ?q) k)"
    using sz(1) n empty by (simp add: rt_mq_init_def ipc_object_init_id Let_def)
  show thesis
    by (rule that [OF k'])
      (use inv sz mq_shape_lists(3,4) [OF sh] empty in
        \<open>simp_all add: mq_inv_def mq_abs_def mq_blank_def in_thread_def\<close>)
qed

lemma rt_mq_reset_ok:
  assumes inv: "mq_inv m k"
  obtains k' where "rt_mq_control m (RT_IPC_CMD_RESET v) k = Some (RT_EOK, k')" "mq_inv m k'"
    "mq_abs m k' = \<lparr>messages = [], mq_receivers = [], mq_senders = []\<rparr>"
    "same_make (mqueues k m) (mqueues k' m)"
proof -
  have ki: "kinv k" "mq_ok (mqueues k m)" using inv by (simp_all add: mq_inv_def)
  obtain k1 where k1: "ipc_list_resume_all (SuspQ m) k = Some k1" "kinv k1" "lists k1 (SuspQ m) = []"
    "mqueues k1 = mqueues k"
    by (rule ipc_list_resume_all_ok [OF ki(1) list_stat.simps(2)]) (rule that)
  obtain k2 where k2: "ipc_list_resume_all (SenderQ m) k1 = Some k2" "kinv k2" "lists k2 (SenderQ m) = []"
    "mqueues k2 = mqueues k1" "\<And>g. g \<noteq> SenderQ m \<Longrightarrow> \<not> is_ready g \<Longrightarrow> lists k2 g = lists k1 g"
    by (rule ipc_list_resume_all_ok [OF k1(2) list_stat.simps(3)]) (rule that)
  obtain q where q: "mq_reset_loop (Suc (mq_max_msgs (mqueues k m))) (mqueues k m) = Some q"
    "mq_ok (q\<lparr>mq_entry := 0\<rparr>)" "mq_list (q\<lparr>mq_entry := 0\<rparr>) = []" "same_make (mqueues k m) q"
    by (rule mq_reset_ok [OF ki(2)]) (rule that)
  let ?k3 = "upd_mq m (\<lambda>_. q\<lparr>mq_entry := 0\<rparr>) k2"
  have "kinv ?k3" using k2(2) by simp
  then obtain k' where k': "rt_schedule ?k3 = Some k'" "kinv k'" "\<And>h. \<not> is_ready h \<Longrightarrow> lists k' h = lists ?k3 h"
    by (rule kinv_schedule) (rule that)
  have qs: "mqueues k' m = q\<lparr>mq_entry := 0\<rparr>" using rt_schedule_frame(12) [OF k'(1)] by simp
  have ls: "lists k' (SuspQ m) = []" "lists k' (SenderQ m) = []"
    using k'(3) k1(3) k2(3,5) by simp_all
  show thesis
  proof (rule that)
    show "rt_mq_control m (RT_IPC_CMD_RESET v) k = Some (RT_EOK, k')"
      using k1(1,4) k2(1,4) q(1) k'(1) by (simp add: rt_mq_control_def del: mq_reset_loop.simps)
    show "mq_inv m k'" using k'(2) q(2) by (simp add: mq_inv_def qs)
  qed (use q(3,4) qs ls in \<open>simp_all add: mq_abs_def same_make_def\<close>)
qed

text \<open>What is sent to an empty queue is received, whole or as a prefix.\<close>

lemma rt_mq_send_recv:
  assumes inv: "mq_inv m k" and t: "in_thread k t" and e: "mq_list (mqueues k m) = []"
    and room: "0 < mq_max_msgs (mqueues k m)" "length x \<le> mq_msg_size (mqueues k m)" and x: "x \<noteq> []"
    and n: "0 < n" "n \<le> length x"
  obtains k1 k2 where "rt_mq_send m x (length x) k = Some (Done RT_EOK, k1)" "mq_inv m k1"
    "rt_mq_recv m n 0 k1 = Some (Done (RT_EOK, Some (take n x)), k2)"
proof -
  have "(0 :: int) < 2 ^ 31 - 1" by simp
  note T = this
  obtain r k1 rest where k1: "rt_mq_send_wait m x (length x) 0 k = Some (r, k1)" "mq_inv m k1"
    "(r, mq_abs m k1) = spec_mq_send (mq_max_msgs (mqueues k m)) (mq_msg_size (mqueues k m))
       (wait_insert (mq_flag (mqueues k m)) (\<lambda>u. current_priority (threads k u)) t)
       (take (length x) x) rest 0 (rt_tick k) (mq_abs m k)"
    by (rule rt_mq_send_wait_refines [OF inv t T, of "length x" x]) (use x in simp, simp, rule that)
  have r: "r = Done RT_EOK" "mq_list (mqueues k1 m) = [x @ rest]"
    using k1(3) e room by (simp_all add: spec_mq_send_def) (simp add: mq_abs_def)
  obtain k2 where k2: "mq_recv_round m n 0 k1 = Some (Done (RT_EOK, Some (take n (x @ rest))), k2)"
    "mq_entry (mqueues k1 m) \<noteq> 0"
    by (rule mq_recv_some [OF k1(2) r(2)]) (rule that)
  show thesis
  proof (rule that)
    show "rt_mq_send m x (length x) k = Some (Done RT_EOK, k1)" using k1(1) r(1) by (simp add: rt_mq_send_def)
    show "rt_mq_recv m n 0 k1 = Some (Done (RT_EOK, Some (take n x)), k2)"
      using k2 n by (simp add: rt_mq_recv_def RT_DEBUG_SCHEDULER_AVAILABLE_def)
  qed (rule k1(2))
qed

end
