(* ===== verification/Mempool.thy ===== *)
theory Mempool
  imports Ipc Chain
begin

text \<open>
  The memory pools of \<open>src/mempool.c\<close>: blocks of one size behind a word each, which links the free
  blocks and names the pool of a block in use. An allocation from an empty pool waits behind
  \<open>SuspQ p\<close>, newest first; a release wakes the thread at the front. The invariant ties the list, the
  count and the words together, and every operation is related to a stack of free blocks.
\<close>

subsection \<open>Operations\<close>

definition upd_mp :: "nat \<Rightarrow> (mempool \<Rightarrow> mempool) \<Rightarrow> kernel \<Rightarrow> kernel" where
  "upd_mp p f k = k\<lparr>mempools := (mempools k)(p := f (mempools k p))\<rparr>"

definition upd_word :: "nat \<Rightarrow> nat option \<Rightarrow> kernel \<Rightarrow> kernel" where
  "upd_word a w k = k\<lparr>mp_words := (mp_words k)(a := w)\<rparr>"

abbreviation (input) sizeof_pointer :: nat where "sizeof_pointer \<equiv> 4"

text \<open>The distance of the blocks, and the address of block \<open>i\<close>, in 32 bits.\<close>

definition mp_stride :: "nat \<Rightarrow> nat" where
  "mp_stride sz = (sz + sizeof_pointer) mod 2 ^ 32"

definition mp_addr :: "nat \<Rightarrow> nat \<Rightarrow> nat \<Rightarrow> nat" where
  "mp_addr start w i = (start + i * w) mod 2 ^ 32"

text \<open>The loop of \<open>rt_mp_init\<close> and \<open>rt_mp_create\<close> that links the blocks, and the end of the list.\<close>

fun mp_link_blocks :: "nat \<Rightarrow> nat \<Rightarrow> nat \<Rightarrow> kernel \<Rightarrow> kernel" where
  "mp_link_blocks start w 0 k = k"
| "mp_link_blocks start w (Suc offset) k =
     upd_word (mp_addr start w offset) (Some (mp_addr start w (Suc offset))) (mp_link_blocks start w offset k)"

definition mp_build :: "nat \<Rightarrow> nat \<Rightarrow> nat \<Rightarrow> nat \<Rightarrow> nat \<Rightarrow> nat \<Rightarrow> kernel \<Rightarrow> kernel" where
  "mp_build p start sz bsz w n k =
     (let k = upd_mp p (\<lambda>_. \<lparr>start_address = start, mp_size = sz, block_size = bsz, block_list = None,
                             block_total_count = n, block_free_count = n\<rparr>) k;
          k = ipc_object_init (SuspQ p) k;
          k = mp_link_blocks start w n k;
          k = upd_word (mp_addr start w ((n + (2 ^ 32 - 1)) mod 2 ^ 32)) None k
      in upd_mp p (\<lambda>mp. mp\<lparr>block_list := Some start\<rparr>) k)"

definition rt_mp_init :: "nat \<Rightarrow> nat \<Rightarrow> nat \<Rightarrow> nat \<Rightarrow> kernel \<Rightarrow> (int \<times> kernel) option" where
  "rt_mp_init p start sz bsz k = do {
     _ \<leftarrow> rt_assert (sz > 0 \<and> bsz > 0);
     let msize = RT_ALIGN_DOWN sz RT_ALIGN_SIZE;
     let bsz = RT_ALIGN bsz RT_ALIGN_SIZE;
     Some (RT_EOK, mp_build p start msize bsz (mp_stride bsz) (msize div mp_stride bsz) k) }"

text \<open>The results of the two allocations are arguments.\<close>

definition rt_mp_create ::
  "nat option \<Rightarrow> nat option \<Rightarrow> nat \<Rightarrow> nat \<Rightarrow> kernel \<Rightarrow> (nat option \<times> kernel) option" where
  "rt_mp_create obj mem block_count bsz k = do {
     _ \<leftarrow> RT_DEBUG_NOT_IN_INTERRUPT k;
     _ \<leftarrow> rt_assert (block_count > 0 \<and> bsz > 0);
     Some (case obj of
         None \<Rightarrow> (None, k)
       | Some p \<Rightarrow>
           (case mem of
              None \<Rightarrow> (None, k)
            | Some start \<Rightarrow>
                let bsz = RT_ALIGN bsz RT_ALIGN_SIZE in
                (Some p, mp_build p start (mp_stride bsz * block_count mod 2 ^ 32) bsz (mp_stride bsz)
                   block_count k))) }"

text \<open>The loop that empties the waiting list is the one of \<open>_ipc_list_resume_all\<close>.\<close>

definition rt_mp_detach :: "nat \<Rightarrow> kernel \<Rightarrow> (int \<times> kernel) option" where
  "rt_mp_detach p k = do {
     k \<leftarrow> ipc_list_resume_all (SuspQ p) k;
     Some (RT_EOK, k) }"

definition rt_mp_delete :: "nat \<Rightarrow> kernel \<Rightarrow> (int \<times> kernel) option" where
  "rt_mp_delete p k = do {
     _ \<leftarrow> RT_DEBUG_NOT_IN_INTERRUPT k;
     k \<leftarrow> ipc_list_resume_all (SuspQ p) k;
     Some (RT_EOK, k) }"

text \<open>\<open>__rt_errno\<close>, which interrupts write instead, is not part of the state.\<close>

definition rt_set_errno :: "int \<Rightarrow> kernel \<Rightarrow> kernel" where
  "rt_set_errno error k =
     (if rt_interrupt_get_nest k \<noteq> 0 then k
      else case rt_thread_self k of
        None \<Rightarrow> k
      | Some tid \<Rightarrow> upd_thread tid (\<lambda>h. h\<lparr>th_error := error\<rparr>) k)"

definition mp_suspend_timed :: "nat \<Rightarrow> nat \<Rightarrow> int \<Rightarrow> kernel \<Rightarrow> kernel option" where
  "mp_suspend_timed p t time k = do {
     (_, k) \<leftarrow> rt_thread_suspend t k;
     let k = k\<lparr>lists := l_prepend (SuspQ p) t (lists k)\<rparr>;
     if time > 0 then thread_timer_start t (word_of_int time) k else Some k }"

text \<open>One test of the loop condition, with what follows it up to the next \<open>rt_schedule\<close>.\<close>

definition mp_alloc_round :: "nat \<Rightarrow> int \<Rightarrow> kernel \<Rightarrow> (nat option waiting_ret \<times> kernel) option" where
  "mp_alloc_round p time k =
     (if block_free_count (mempools k p) = 0 then
        if time = 0 then Some (Done None, rt_set_errno (- RT_ETIMEOUT) k)
        else do {
          _ \<leftarrow> RT_DEBUG_NOT_IN_INTERRUPT k;
          t \<leftarrow> rt_thread_self k;
          let k = upd_thread t (\<lambda>h. h\<lparr>th_error := RT_EOK\<rparr>) k;
          let before_sleep = (if time > 0 then rt_tick_get k else 0);
          k \<leftarrow> mp_suspend_timed p t time k;
          k \<leftarrow> rt_schedule k;
          Some (Waiting time before_sleep, k) }
      else do {
        let k = upd_mp p (\<lambda>mp. mp\<lparr>block_free_count := block_free_count mp - 1\<rparr>) k;
        block_ptr \<leftarrow> block_list (mempools k p);
        let k = upd_mp p (\<lambda>mp. mp\<lparr>block_list := mp_words k block_ptr\<rparr>) k;
        let k = upd_word block_ptr (Some p) k;
        Some (Done (Some (block_ptr + sizeof_pointer)), k) })"

definition rt_mp_alloc :: "nat \<Rightarrow> int \<Rightarrow> kernel \<Rightarrow> (nat option waiting_ret \<times> kernel) option" where
  "rt_mp_alloc p time k = mp_alloc_round p time k"

definition mp_alloc_resume ::
  "nat \<Rightarrow> int \<Rightarrow> u32 \<Rightarrow> kernel \<Rightarrow> (nat option waiting_ret \<times> kernel) option" where
  "mp_alloc_resume p time before_sleep k = do {
     t \<leftarrow> rt_thread_self k;
     if th_error (threads k t) \<noteq> RT_EOK then Some (Done None, k)
     else mp_alloc_round p (time_left time before_sleep (rt_tick_get k)) k }"

definition rt_mp_free :: "nat option \<Rightarrow> kernel \<Rightarrow> kernel option" where
  "rt_mp_free block k =
     (case block of
        None \<Rightarrow> Some k
      | Some block \<Rightarrow> do {
          let block_ptr = block - sizeof_pointer;
          p \<leftarrow> mp_words k block_ptr;
          let k = upd_mp p (\<lambda>mp. mp\<lparr>block_free_count := (block_free_count mp + 1) mod 2 ^ 32\<rparr>) k;
          let k = upd_word block_ptr (block_list (mempools k p)) k;
          let k = upd_mp p (\<lambda>mp. mp\<lparr>block_list := Some block_ptr\<rparr>) k;
          if \<not> l_isempty (SuspQ p) (lists k) then do {
            let k = upd_thread (hd (lists k (SuspQ p))) (\<lambda>h. h\<lparr>th_error := RT_EOK\<rparr>) k;
            k \<leftarrow> ipc_list_resume (SuspQ p) k;
            rt_schedule k
          } else Some k })"

lemma upd_mp_simps [simp]:
  "mempools (upd_mp p f k) = (mempools k)(p := f (mempools k p))" "mp_words (upd_mp p f k) = mp_words k"
  "threads (upd_mp p f k) = threads k" "lists (upd_mp p f k) = lists k"
  "kinv_x Y (upd_mp p f k) = kinv_x Y k" "current_thread (upd_mp p f k) = current_thread k"
  "interrupt_nest (upd_mp p f k) = interrupt_nest k" "rt_tick (upd_mp p f k) = rt_tick k"
  "lock_nest (upd_mp p f k) = lock_nest k"
  by (simp_all add: upd_mp_def)

lemma upd_word_simps [simp]:
  "mp_words (upd_word a w k) = (mp_words k)(a := w)" "mempools (upd_word a w k) = mempools k"
  "threads (upd_word a w k) = threads k" "lists (upd_word a w k) = lists k"
  "kinv_x Y (upd_word a w k) = kinv_x Y k" "current_thread (upd_word a w k) = current_thread k"
  "interrupt_nest (upd_word a w k) = interrupt_nest k" "rt_tick (upd_word a w k) = rt_tick k"
  "lock_nest (upd_word a w k) = lock_nest k"
  by (simp_all add: upd_word_def)

subsection \<open>The invariant\<close>

definition mp_cells :: "mempool \<Rightarrow> nat set" where
  "mp_cells mp = (\<lambda>i. start_address mp + i * (block_size mp + 4)) ` {..<block_total_count mp}"

definition mp_frees :: "nat \<Rightarrow> kernel \<Rightarrow> nat list" where
  "mp_frees p k = follow (mp_words k) (block_free_count (mempools k p)) (block_list (mempools k p))"

definition mp_ok :: "nat \<Rightarrow> kernel \<Rightarrow> bool" where
  "mp_ok p k \<longleftrightarrow>
     chain (mp_words k) (block_list (mempools k p)) (mp_frees p k) \<and>
     length (mp_frees p k) = block_free_count (mempools k p) \<and>
     set (mp_frees p k) \<subseteq> mp_cells (mempools k p) \<and>
     (\<forall>a \<in> mp_cells (mempools k p) - set (mp_frees p k). mp_words k a = Some p) \<and>
     start_address (mempools k p) + block_total_count (mempools k p) * (block_size (mempools k p) + 4) \<le> 2 ^ 32"

definition mp_inv :: "nat \<Rightarrow> kernel \<Rightarrow> bool" where
  "mp_inv p k \<longleftrightarrow> kinv k \<and> mp_ok p k"

lemma mp_okI:
  assumes "chain (mp_words k) (block_list (mempools k p)) fs" "length fs = block_free_count (mempools k p)"
    "set fs \<subseteq> mp_cells (mempools k p)"
    "\<And>a. a \<in> mp_cells (mempools k p) \<Longrightarrow> a \<notin> set fs \<Longrightarrow> mp_words k a = Some p"
    "start_address (mempools k p) + block_total_count (mempools k p) * (block_size (mempools k p) + 4) \<le> 2 ^ 32"
  shows "mp_ok p k" "mp_frees p k = fs"
proof -
  show f: "mp_frees p k = fs" unfolding mp_frees_def by (rule follow_chain [OF assms(1)]) (simp add: assms(2))
  show "mp_ok p k" using assms by (simp add: mp_ok_def f)
qed

lemma mp_okD:
  assumes "mp_ok p k"
  shows "chain (mp_words k) (block_list (mempools k p)) (mp_frees p k)"
    "length (mp_frees p k) = block_free_count (mempools k p)"
    "set (mp_frees p k) \<subseteq> mp_cells (mempools k p)"
    "a \<in> mp_cells (mempools k p) \<Longrightarrow> a \<notin> set (mp_frees p k) \<Longrightarrow> mp_words k a = Some p"
    "start_address (mempools k p) + block_total_count (mempools k p) * (block_size (mempools k p) + 4) \<le> 2 ^ 32"
    "distinct (mp_frees p k)"
  using assms chain_distinct unfolding mp_ok_def by blast+

lemma mp_cells_finite [simp]: "finite (mp_cells mp)" "card (mp_cells mp) \<le> block_total_count mp"
  using card_image_le [of "{..<block_total_count mp}"] by (simp_all add: mp_cells_def)

text \<open>The invariant reads the pool, its words and nothing else.\<close>

lemma mp_ok_frame:
  assumes "mempools k' p = mempools k p" "\<And>a. a \<in> mp_cells (mempools k p) \<Longrightarrow> mp_words k' a = mp_words k a"
    and ok: "mp_ok p k"
  shows "mp_ok p k'" "mp_frees p k' = mp_frees p k"
proof -
  note O = mp_okD [OF ok]
  have "chain (mp_words k') (block_list (mempools k p)) (mp_frees p k)"
    using O(1,3) assms(2) chain_cong [of "mp_frees p k" "mp_words k'" "mp_words k"] by blast
  note I = mp_okI [of k' p "mp_frees p k", unfolded assms(1), OF this O(2,3) _ O(5)]
  show "mp_ok p k'" "mp_frees p k' = mp_frees p k" using I O(4) assms(2) by simp_all
qed

text \<open>Two cells of a pool are a stride apart, so their blocks do not overlap.\<close>

lemma mp_cells_apart:
  assumes "a \<in> mp_cells mp" "b \<in> mp_cells mp" "a < b"
  shows "a + (block_size mp + 4) \<le> b"
proof -
  let ?w = "block_size mp + 4"
  obtain i j where ij: "a = start_address mp + i * ?w" "b = start_address mp + j * ?w"
    using assms(1,2) by (auto simp: mp_cells_def)
  have "i < j" using assms(3) unfolding ij by simp
  then have "Suc i * ?w \<le> j * ?w" by (intro mult_le_mono1) simp
  then show ?thesis unfolding ij by simp
qed

lemma mp_total_small:
  assumes "mp_ok p k"
  shows "block_total_count (mempools k p) \<le> 2 ^ 30" "block_free_count (mempools k p) \<le> block_total_count (mempools k p)"
proof -
  let ?mp = "mempools k p"
  note O = mp_okD [OF assms]
  have "block_total_count ?mp * 4 \<le> block_total_count ?mp * (block_size ?mp + 4)" by simp
  then have "block_total_count ?mp * 4 \<le> 2 ^ 32" using O(5) by linarith
  then show "block_total_count ?mp \<le> 2 ^ 30" by simp
  have "block_free_count ?mp = card (set (mp_frees p k))" using distinct_card [OF O(6)] O(2) by simp
  also have "\<dots> \<le> card (mp_cells ?mp)" by (rule card_mono [OF mp_cells_finite(1) O(3)])
  also have "\<dots> \<le> block_total_count ?mp" by simp
  finally show "block_free_count ?mp \<le> block_total_count ?mp" .
qed

subsection \<open>Creation\<close>

lemma mp_link_blocks_simps [simp]:
  "mempools (mp_link_blocks start w n k) = mempools k" "threads (mp_link_blocks start w n k) = threads k"
  "lists (mp_link_blocks start w n k) = lists k" "kinv_x Y (mp_link_blocks start w n k) = kinv_x Y k"
  "current_thread (mp_link_blocks start w n k) = current_thread k"
  "interrupt_nest (mp_link_blocks start w n k) = interrupt_nest k"
  "lock_nest (mp_link_blocks start w n k) = lock_nest k"
  by (induction n) simp_all

lemma mp_link_blocks_words:
  assumes "start + n * w < 2 ^ 32" "0 < w" "i < n"
  shows "mp_words (mp_link_blocks start w n k) (start + i * w) = Some (start + Suc i * w)"
  using assms
proof (induction n)
  case (Suc n)
  have a: "mp_addr start w n = start + n * w" "mp_addr start w (Suc n) = start + Suc n * w"
    using Suc.prems(1) by (simp_all add: mp_addr_def)
  show ?case
  proof (cases "i = n")
    case True
    then show ?thesis by (simp add: a)
  next
    case False
    then have i: "i < n" using Suc.prems(3) by simp
    have "start + i * w \<noteq> start + n * w" using i Suc.prems(2) by simp
    moreover have "start + n * w < 2 ^ 32" using Suc.prems(1) by simp
    ultimately show ?thesis using Suc.IH [OF _ Suc.prems(2) i] by (simp add: a)
  qed
qed simp

lemma chain_steps:
  assumes "\<And>j. i \<le> j \<Longrightarrow> j < n \<Longrightarrow> nxt (f j) = (if Suc j < n then Some (f (Suc j)) else None)" "i < n"
  shows "chain nxt (Some (f i)) (map f [i..<n])"
  using assms
proof (induction "n - i" arbitrary: i)
  case (Suc d)
  show ?case
  proof (cases "Suc i < n")
    case True
    have "chain nxt (Some (f (Suc i))) (map f [Suc i..<n])"
      by (rule Suc.hyps(1)) (use Suc.hyps(2) Suc.prems(1) True in auto)
    then show ?thesis using Suc.prems True by (simp add: upt_conv_Cons)
  next
    case False
    then have n: "n = Suc i" using Suc.prems(2) by simp
    show ?thesis using Suc.prems(1) [of i] by (simp add: n)
  qed
qed simp

lemma mp_build_ok:
  fixes sz :: nat
  assumes n: "0 < n" and fit: "start + n * (bsz + 4) < 2 ^ 32" and inv: "kinv k"
    and e: "lists k (SuspQ p) = []"
  defines "k' \<equiv> mp_build p start sz bsz (bsz + 4) n k"
  shows "mp_inv p k'" "mp_frees p k' = map (\<lambda>i. start + i * (bsz + 4)) [0..<n]"
    "mempools k' p = \<lparr>start_address = start, mp_size = sz, block_size = bsz, block_list = Some start,
       block_total_count = n, block_free_count = n\<rparr>" "lists k' = lists k" "threads k' = threads k"
proof -
  let ?w = "bsz + 4" and ?a = "\<lambda>i. start + i * (bsz + 4)"
  let ?k1 = "upd_mp p (\<lambda>_. \<lparr>start_address = start, mp_size = sz, block_size = bsz, block_list = None,
     block_total_count = n, block_free_count = n\<rparr>) k"
  have i0: "ipc_object_init (SuspQ p) ?k1 = ?k1" using e by (simp add: ipc_object_init_def fun_upd_idem)
  have "n \<le> n * ?w" by simp
  then have "n < 2 ^ 32" using fit by linarith
  then have l: "(n + (2 ^ 32 - 1)) mod 2 ^ 32 = n - 1"
  proof -
    have "n + (2 ^ 32 - 1) = (n - 1) + 2 ^ 32" using n by simp
    moreover have "n - 1 < 2 ^ 32" using \<open>n < 2 ^ 32\<close> by simp
    ultimately show ?thesis by (simp only: mod_add_self2 mod_less)
  qed
  have "?a (n - 1) \<le> start + n * ?w" by simp
  then have "?a (n - 1) < 2 ^ 32" using fit by (rule le_less_trans)
  then have la: "mp_addr start ?w (n - 1) = ?a (n - 1)" unfolding mp_addr_def by (rule mod_less)
  let ?k2 = "upd_word (?a (n - 1)) None (mp_link_blocks start ?w n ?k1)"
  have k': "k' = upd_mp p (\<lambda>mp. mp\<lparr>block_list := Some start\<rparr>) ?k2"
    unfolding k'_def mp_build_def Let_def i0 l la ..
  show mp: "mempools k' p = \<lparr>start_address = start, mp_size = sz, block_size = bsz, block_list = Some start,
       block_total_count = n, block_free_count = n\<rparr>" "lists k' = lists k" "threads k' = threads k"
    by (simp_all add: k')
  have w: "mp_words k' (?a j) = (if Suc j < n then Some (?a (Suc j)) else None)" if "j < n" for j
  proof (cases "j = n - 1")
    case True
    then show ?thesis using n by (simp add: k')
  next
    case False
    then have "?a j \<noteq> ?a (n - 1)" "Suc j < n" using that by (simp_all only: add_left_cancel mult_cancel2) auto
    moreover have "0 < ?w" by simp
    ultimately show ?thesis using mp_link_blocks_words [OF fit _ that, of ?k1] by (simp add: k' del: mult_Suc)
  qed
  have c: "chain (mp_words k') (Some (?a 0)) (map ?a [0..<n])"
    by (rule chain_steps [OF w n]) simp
  have ch: "chain (mp_words k') (block_list (mempools k' p)) (map ?a [0..<n])" using c by (simp add: mp)
  have cells: "set (map ?a [0..<n]) = mp_cells (mempools k' p)"
    unfolding mp_cells_def mp by (simp add: atLeast0LessThan)
  note I = mp_okI [OF ch _ _ _ _, unfolded cells]
  show "mp_frees p k' = map ?a [0..<n]" by (rule I(2)) (use fit in \<open>simp_all add: mp\<close>)
  have "mp_ok p k'" by (rule I(1)) (use fit in \<open>simp_all add: mp\<close>)
  then show "mp_inv p k'" using inv by (simp add: mp_inv_def k')
qed

text \<open>The layout that \<open>rt_mp_init\<close> computes for memory that fits in the address space.\<close>

lemma mp_layout:
  assumes "0 < bsz" "bsz \<le> 2 ^ 32 - 8" "start + sz < 2 ^ 32"
  defines "b \<equiv> RT_ALIGN bsz 4"
  defines "n \<equiv> RT_ALIGN_DOWN sz 4 div (b + 4)"
  shows "mp_stride b = b + 4" "bsz \<le> b" "i < n \<Longrightarrow> start + i * (b + 4) < start + sz"
    "start + n * (b + 4) < 2 ^ 32" "n < 2 ^ 32"
proof -
  have "b = (bsz + 3) - (bsz + 3) mod 4" using assms(2) by (simp add: b_def RT_ALIGN_def RT_ALIGN_DOWN_def add.commute)
  moreover have "(bsz + 3) mod 4 < 4" by simp
  ultimately have b: "b < 2 ^ 32 - 4" "bsz \<le> b" using assms(1,2) by linarith+
  then show "mp_stride b = b + 4" "bsz \<le> b" by (simp_all add: mp_stride_def)
  have "n * (b + 4) \<le> RT_ALIGN_DOWN sz 4" unfolding n_def by (rule div_times_less_eq_dividend)
  then have n: "n * (b + 4) \<le> sz" using RT_ALIGN_DOWN_le [of sz 4] by linarith
  then show "start + n * (b + 4) < 2 ^ 32" using assms(3) by linarith
  have "n \<le> n * (b + 4)" by simp
  then show "n < 2 ^ 32" using n assms(3) by linarith
  show "start + i * (b + 4) < start + sz" if "i < n"
  proof -
    have "Suc i * (b + 4) \<le> n * (b + 4)" by (rule mult_le_mono1) (use that in simp)
    also note n
    finally show ?thesis by simp
  qed
qed

lemma rt_mp_init_ok:
  assumes "0 < sz" "0 < bsz" "bsz \<le> 2 ^ 32 - 8" "kinv k" "lists k (SuspQ p) = []"
    and n: "0 < RT_ALIGN_DOWN sz 4 div (RT_ALIGN bsz 4 + 4)" and fit: "start + sz < 2 ^ 32"
  obtains k' where "rt_mp_init p start sz bsz k = Some (RT_EOK, k')" "mp_inv p k'"
    "mp_frees p k' = map (\<lambda>i. start + i * (RT_ALIGN bsz 4 + 4)) [0..<RT_ALIGN_DOWN sz 4 div (RT_ALIGN bsz 4 + 4)]"
    "bsz \<le> block_size (mempools k' p)" "lists k' = lists k" "mp_cells (mempools k' p) \<subseteq> {start..<start + sz}"
proof -
  let ?b = "RT_ALIGN bsz 4" and ?s = "RT_ALIGN_DOWN sz 4"
  let ?n = "?s div (?b + 4)"
  note L = mp_layout [OF assms(2,3) fit]
  note B = mp_build_ok [OF n L(4) assms(4,5), of ?s]
  have "mp_cells (mempools (mp_build p start ?s ?b (?b + 4) ?n k) p) \<subseteq> {start..<start + sz}"
    unfolding B(3) mp_cells_def using L(3) by auto
  then show thesis
    by (intro that [of "mp_build p start ?s ?b (?b + 4) ?n k"])
      (use B L(1,2) assms(1,2) in \<open>simp_all add: rt_mp_init_def Let_def\<close>)
qed

text \<open>
  A pool too small for one block has its terminator written a stride before its memory, and the
  list of free blocks is not empty although its count is 0.
\<close>

lemma rt_mp_init_too_small:
  assumes "0 < sz" "0 < bsz" "bsz \<le> 2 ^ 32 - 8" "RT_ALIGN_DOWN sz 4 < RT_ALIGN bsz 4 + 4"
    and start: "RT_ALIGN bsz 4 + 4 \<le> start" "start < 2 ^ 32"
  obtains k' where "rt_mp_init p start sz bsz k = Some (RT_EOK, k')"
    "mp_words k' = (mp_words k)(start - (RT_ALIGN bsz 4 + 4) := None)"
    "block_free_count (mempools k' p) = 0" "block_list (mempools k' p) = Some start"
proof -
  let ?b = "RT_ALIGN bsz 4"
  have "?b = (bsz + 3) - (bsz + 3) mod 4" using assms(3) by (simp add: RT_ALIGN_def RT_ALIGN_DOWN_def add.commute)
  then have st: "mp_stride ?b = ?b + 4" using assms(2,3) by (simp add: mp_stride_def)
  have "start + (2 ^ 32 - 1) * (?b + 4) = (start - (?b + 4)) + 2 ^ 32 * (?b + 4)" using start by (simp add: algebra_simps)
  then have w: "mp_addr start (?b + 4) (2 ^ 32 - 1) = start - (?b + 4)"
    using start(2) unfolding mp_addr_def by (simp only: mod_mult_self2) simp
  show thesis
    by (rule that [of "mp_build p start (RT_ALIGN_DOWN sz 4) ?b (?b + 4) 0 k"])
      (use assms w st in \<open>simp_all add: rt_mp_init_def mp_build_def Let_def ipc_object_init_def\<close>)
qed

subsection \<open>The stack of free blocks the operations implement\<close>

record mp_stack =
  free_cells :: "nat list"
  mp_waiting :: "nat list"

definition mp_abs :: "nat \<Rightarrow> kernel \<Rightarrow> mp_stack" where
  "mp_abs p k = \<lparr>free_cells = mp_frees p k, mp_waiting = lists k (SuspQ p)\<rparr>"

definition spec_mp_alloc :: "nat \<Rightarrow> int \<Rightarrow> u32 \<Rightarrow> mp_stack \<Rightarrow> nat option waiting_ret \<times> mp_stack" where
  "spec_mp_alloc t time now s =
     (case free_cells s of
        a # as \<Rightarrow> (Done (Some (a + 4)), s\<lparr>free_cells := as\<rparr>)
      | [] \<Rightarrow> if time = 0 then (Done None, s)
          else (Waiting time (if time > 0 then now else 0), s\<lparr>mp_waiting := t # mp_waiting s\<rparr>))"

definition spec_mp_free :: "nat \<Rightarrow> mp_stack \<Rightarrow> mp_stack" where
  "spec_mp_free a s = s\<lparr>free_cells := a # free_cells s, mp_waiting := tl (mp_waiting s)\<rparr>"

lemma mp_abs_sel [simp]:
  "free_cells (mp_abs p k) = mp_frees p k" "mp_waiting (mp_abs p k) = lists k (SuspQ p)"
  by (simp_all add: mp_abs_def)

lemma mp_alloc_some:
  assumes inv: "mp_inv p k" and f: "mp_frees p k = a # as"
  obtains k' where "mp_alloc_round p time k = Some (Done (Some (a + 4)), k')" "mp_inv p k'"
    "mp_frees p k' = as" "lists k' = lists k" "threads k' = threads k"
    "mp_words k' = (mp_words k)(a := Some p)" "\<And>q. q \<noteq> p \<Longrightarrow> mempools k' q = mempools k q"
    "mp_cells (mempools k' p) = mp_cells (mempools k p)"
proof -
  have ki: "kinv k" "mp_ok p k" using inv by (simp_all add: mp_inv_def)
  note O = mp_okD [OF ki(2), unfolded f]
  let ?mp = "(mempools k p)\<lparr>block_free_count := length as, block_list := mp_words k a\<rparr>"
  let ?k = "upd_word a (Some p) (upd_mp p (\<lambda>_. ?mp) k)"
  have a: "block_list (mempools k p) = Some a" "block_free_count (mempools k p) = Suc (length as)"
    "chain (mp_words k) (mp_words k a) as" "a \<notin> set as"
    using O(1,2,6) by simp_all
  have "mp_alloc_round p time k = Some (Done (Some (a + 4)), ?k)"
    using a by (simp add: mp_alloc_round_def upd_mp_def upd_word_def)
  moreover have cells: "mp_cells (mempools ?k p) = mp_cells (mempools k p)" by (simp add: mp_cells_def)
  moreover have "chain (mp_words ?k) (block_list (mempools ?k p)) as" using a by simp
  note I = mp_okI [OF this _ _ _ _, unfolded cells]
  have "mp_frees p ?k = as" by (rule I(2)) (use O in auto)
  moreover have "mp_ok p ?k" by (rule I(1)) (use O in auto)
  then have "mp_inv p ?k" using ki(1) by (simp add: mp_inv_def)
  ultimately show thesis by (intro that [of ?k]) simp_all
qed

lemma mp_wait_ok:
  assumes inv: "mp_inv p k" and t: "in_thread k t" and time: "time < 2 ^ 31 - 1" "time \<noteq> 0"
    and f: "mp_frees p k = []"
  obtains k' where "mp_alloc_round p time k = Some (Waiting time (if time > 0 then rt_tick k else 0), k')"
    "mp_inv p k'" "mp_frees p k' = []" "lists k' (SuspQ p) = t # lists k (SuspQ p)"
    "th_stat (threads k' t) = RT_THREAD_SUSPEND" "mp_cells (mempools k' p) = mp_cells (mempools k p)"
proof -
  have ki: "kinv k" "mp_ok p k" using inv by (simp_all add: mp_inv_def)
  have z: "block_free_count (mempools k p) = 0" using mp_okD(2) [OF ki(2)] f by simp
  let ?ke = "upd_thread t (\<lambda>h. h\<lparr>th_error := RT_EOK\<rparr>) k"
  have e: "kinv ?ke" "current_thread ?ke = Some t" "th_stat (threads ?ke t) = RT_THREAD_RUNNING"
    using kinv_upd_error [OF ki(1)] in_threadD [OF t] by simp_all
  let ?s = "snd (rt_timer_stop (Thread_Timer t) (upd_thread t (\<lambda>x. x\<lparr>th_stat := RT_THREAD_SUSPEND\<rparr>) ?ke))"
  note S = rt_thread_suspend_running [OF e, simplified]
  let ?k0 = "?s\<lparr>lists := l_prepend (SuspQ p) t (lists ?s)\<rparr>"
  have ex: "sched_inv_x {t} ?s" by (rule sched_inv_exempt [OF kinvD(2) [OF S(2)]]) (use S(3) in simp)
  have "sched_inv_x ({t} - {t}) ?k0"
    by (rule sched_inv_link_prepend [OF ex]) simp_all
  then have "sched_inv ?k0" by simp
  from kinv_lists [OF S(2) this] have k0: "kinv ?k0" .
  have sus: "th_stat (threads ?k0 t) = RT_THREAD_SUSPEND" by simp
  obtain k1 k' where k': "(if time > 0 then thread_timer_start t (word_of_int time) ?k0 else Some ?k0) = Some k1"
    "rt_schedule k1 = Some k'" "kinv k'" "threads k' t = threads ?k0 t"
    "\<And>g. \<not> is_ready g \<Longrightarrow> lists k' g = lists ?k0 g" "mempools k' = mempools ?k0" "mp_words k' = mp_words ?k0"
    by (rule timed_schedule_ok [OF k0 sus time(1)]) (rule that)
  have m: "mempools k' = mempools k" "mp_words k' = mp_words k" using k'(6,7) by simp_all
  have su: "mp_suspend_timed p t time ?ke = Some k1" 
    unfolding mp_suspend_timed_def S(1) Let_def by (simp only: bind.bind_lunit prod.case k'(1))
  have al: "mp_alloc_round p time k = Some (Waiting time (if time > 0 then rt_tick k else 0), k')"
    using z time(2) in_threadD(7,8) [OF t] su k'(2) by (simp add: mp_alloc_round_def rt_tick_get_def)
  note F = mp_ok_frame [OF _ _ ki(2), of k', unfolded m]
  show thesis
  proof (rule that [OF al])
    show "mp_inv p k'" using k'(3) F(1) by (simp add: mp_inv_def)
    show "mp_frees p k' = []" using F(2) f by simp
    show "lists k' (SuspQ p) = t # lists k (SuspQ p)" using k'(5) [of "SuspQ p"] by (simp add: l_prepend_def)
    show "th_stat (threads k' t) = RT_THREAD_SUSPEND" using k'(4) by simp
    show "mp_cells (mempools k' p) = mp_cells (mempools k p)" by (simp add: m)
  qed
qed

lemma rt_mp_alloc_refines:
  assumes inv: "mp_inv p k" and t: "in_thread k t" and time: "time < 2 ^ 31 - 1"
  obtains r k' where "rt_mp_alloc p time k = Some (r, k')" "mp_inv p k'"
    "(r, mp_abs p k') = spec_mp_alloc t time (rt_tick k) (mp_abs p k)"
    "\<And>b. r = Done (Some b) \<Longrightarrow> b - 4 \<in> mp_cells (mempools k p) \<and> b - 4 \<in> set (mp_frees p k) \<and>
       b - 4 \<notin> set (mp_frees p k')"
    "mp_cells (mempools k' p) = mp_cells (mempools k p)"
proof (cases "mp_frees p k")
  case (Cons a as)
  have ok: "mp_ok p k" using inv by (simp add: mp_inv_def)
  obtain k' where k': "mp_alloc_round p time k = Some (Done (Some (a + 4)), k')" "mp_inv p k'"
    "mp_frees p k' = as" "lists k' = lists k" "mp_cells (mempools k' p) = mp_cells (mempools k p)"
    by (rule mp_alloc_some [OF inv Cons]) (rule that)
  show thesis
    by (rule that [of "Done (Some (a + 4))" k'])
      (use k' Cons mp_okD(3,6) [OF ok] in \<open>auto simp: rt_mp_alloc_def spec_mp_alloc_def mp_abs_def\<close>)
next
  case Nil
  have ki: "kinv k" "mp_ok p k" using inv by (simp_all add: mp_inv_def)
  have z: "block_free_count (mempools k p) = 0" using mp_okD(2) [OF ki(2)] Nil by simp
  show thesis
  proof (cases "time = 0")
    case True
    let ?k = "upd_thread t (\<lambda>h. h\<lparr>th_error := - RT_ETIMEOUT\<rparr>) k"
    have r: "rt_mp_alloc p time k = Some (Done None, ?k)"
      unfolding rt_mp_alloc_def mp_alloc_round_def rt_set_errno_def
      using True z in_threadD(3,8) [OF t] by (simp add: rt_interrupt_get_nest_def)
    have F: "mp_ok p ?k" "mp_frees p ?k = mp_frees p k" by (rule mp_ok_frame [OF _ _ ki(2)]; simp)+
    show thesis
      by (rule that [OF r])
        (use F True Nil kinv_upd_error [OF ki(1)] in \<open>simp_all add: mp_inv_def mp_abs_def spec_mp_alloc_def\<close>)
  next
    case False
    obtain k' where k': "mp_alloc_round p time k = Some (Waiting time (if time > 0 then rt_tick k else 0), k')"
      "mp_inv p k'" "mp_frees p k' = []" "lists k' (SuspQ p) = t # lists k (SuspQ p)"
      "mp_cells (mempools k' p) = mp_cells (mempools k p)"
      by (rule mp_wait_ok [OF inv t time False Nil]) (rule that)
    show thesis
      by (rule that [of "Waiting time (if time > 0 then rt_tick k else 0)" k'])
        (use k' False Nil in \<open>simp_all add: rt_mp_alloc_def spec_mp_alloc_def mp_abs_def\<close>)
  qed
qed

lemma rt_mp_free_refines:
  assumes inv: "mp_inv p k" and a: "a \<in> mp_cells (mempools k p)" "a \<notin> set (mp_frees p k)"
  obtains k' where "rt_mp_free (Some (a + 4)) k = Some k'" "mp_inv p k'"
    "mp_abs p k' = spec_mp_free a (mp_abs p k)"
    "\<And>t ts. lists k (SuspQ p) = t # ts \<Longrightarrow>
       th_stat (threads k' t) \<noteq> RT_THREAD_SUSPEND \<and> th_error (threads k' t) = RT_EOK"
    "\<And>b. b \<noteq> a \<Longrightarrow> mp_words k' b = mp_words k b" "\<And>q. q \<noteq> p \<Longrightarrow> mempools k' q = mempools k q"
    "mp_cells (mempools k' p) = mp_cells (mempools k p)"
proof -
  have ki: "kinv k" "mp_ok p k" using inv by (simp_all add: mp_inv_def)
  note O = mp_okD [OF ki(2)]
  let ?n = "block_free_count (mempools k p)"
  have n: "(?n + 1) mod 2 ^ 32 = Suc ?n" using mp_total_small [OF ki(2)] by simp
  let ?mp = "(mempools k p)\<lparr>block_free_count := Suc ?n, block_list := Some a\<rparr>"
  let ?k = "upd_mp p (\<lambda>_. ?mp) (upd_word a (block_list (mempools k p)) k)"
  have i: "kinv ?k" using ki(1) by simp
  have cells: "mp_cells (mempools ?k p) = mp_cells (mempools k p)" by (simp add: mp_cells_def)
  have "chain (mp_words ?k) (block_list (mempools ?k p)) (a # mp_frees p k)" using O(1) a(2) by simp
  note I = mp_okI [OF this _ _ _ _, unfolded cells]
  have fr: "mp_frees p ?k = a # mp_frees p k" by (rule I(2)) (use O a in auto)
  have ok: "mp_ok p ?k" by (rule I(1)) (use O a in auto)
  have w: "mp_words k a = Some p" by (rule O(4) [OF a])
  have e: "rt_mp_free (Some (a + 4)) k =
      (if \<not> l_isempty (SuspQ p) (lists k) then do {
         let k = upd_thread (hd (lists k (SuspQ p))) (\<lambda>h. h\<lparr>th_error := RT_EOK\<rparr>) ?k;
         k \<leftarrow> ipc_list_resume (SuspQ p) k;
         rt_schedule k } else Some ?k)"
    using w n by (simp add: rt_mp_free_def upd_mp_def upd_word_def)
  show thesis
  proof (cases "lists k (SuspQ p)")
    case Nil
    show thesis
      by (rule that [of ?k])
        (use Nil fr ok i e in \<open>simp_all add: l_isempty_def mp_inv_def mp_abs_def spec_mp_free_def mp_cells_def\<close>)
  next
    case (Cons t ts)
    let ?ke = "upd_thread t (\<lambda>h. h\<lparr>th_error := RT_EOK\<rparr>) ?k"
    have ie: "kinv ?ke" by (rule kinv_upd_error [OF i])
    have q: "lists ?ke (SuspQ p) = t # ts" using Cons by simp
    obtain k1 where k1: "ipc_list_resume (SuspQ p) ?ke = Some k1" "kinv k1" "lists k1 (SuspQ p) = ts"
      "threads k1 = (threads ?ke)(t := (threads ?ke t)\<lparr>th_stat :=
         if current_thread ?ke = Some t then RT_THREAD_RUNNING else RT_THREAD_READY\<rparr>)"
      "mempools k1 = mempools ?ke" "mp_words k1 = mp_words ?ke"
      by (rule ipc_list_resume_ok [OF ie q list_stat.simps(2)]) (rule that)
    obtain k' where k': "rt_schedule k1 = Some k'" "kinv k'" "\<And>u. same_tcb (threads k1 u) (threads k' u)"
      "\<And>h. \<not> is_ready h \<Longrightarrow> lists k' h = lists k1 h"
      by (rule kinv_schedule [OF k1(2)]) (rule that)
    have m: "mempools k' = mempools ?k" "mp_words k' = mp_words ?k"
      using rt_schedule_frame(13,14) [OF k'(1)] k1(5,6) by simp_all
    note F = mp_ok_frame [OF _ _ ok, of k', unfolded m, simplified]
    have tcb: "th_stat (threads k' t) \<noteq> RT_THREAD_SUSPEND" "th_error (threads k' t) = RT_EOK"
      using same_tcbD(3,10) [OF k'(3) [of t]] by (auto simp: k1(4) split: if_splits)
    show thesis
    proof (rule that)
      show "rt_mp_free (Some (a + 4)) k = Some k'"
        using Cons k1(1) k'(1) by (simp add: e l_isempty_def)
      show "mp_inv p k'" using k'(2) F(1) by (simp add: mp_inv_def)
      show "mp_abs p k' = spec_mp_free a (mp_abs p k)"
        using F(2) fr k'(4) [of "SuspQ p"] k1(3) Cons by (simp add: mp_abs_def spec_mp_free_def)
      show "th_stat (threads k' u) \<noteq> RT_THREAD_SUSPEND \<and> th_error (threads k' u) = RT_EOK"
        if "lists k (SuspQ p) = u # us" for u us using that Cons tcb by simp
    qed (simp_all add: m mp_cells_def)
  qed
qed

end
