(* ===== verification/Frame.thy ===== *)
theory Frame
  imports Boot Ipc_Mutex Ipc_Event Ipc_Mailbox Ipc_Mq Mempool "HOL-Library.Sublist"
begin

text \<open>
  What the calls leave alone. \<open>untouched X T A k k'\<close>: from \<open>k\<close> to \<open>k'\<close> no object has changed but those
  whose list of waiting threads is in \<open>X\<close>; the threads in a list outside \<open>X\<close> are those of \<open>k\<close> in their
  order, less some that stopped waiting; the
  event fields of threads outside \<open>T\<close> and the memory words outside \<open>A\<close> are the same. \<open>leaves\<close> adds that
  the timers are on time in \<open>k'\<close> if they are in \<open>k\<close>. Every call of the
  kernel satisfies this for the object it names, in any state, which the lemmas show by following
  its steps; the tick alone needs the invariant of the kernel for it.
\<close>

named_theorems leaves_steps
named_theorems leaves_calls

definition untouched :: "lhead set \<Rightarrow> nat set \<Rightarrow> nat set \<Rightarrow> kernel \<Rightarrow> kernel \<Rightarrow> bool" where
  "untouched X T A k k' \<longleftrightarrow>
     (\<forall>n. SuspQ n \<notin> X \<longrightarrow> sems k' n = sems k n \<and> mutexes k' n = mutexes k n \<and> events k' n = events k n \<and>
        mailboxes k' n = mailboxes k n \<and> mqueues k' n = mqueues k n \<and> mempools k' n = mempools k n \<and>
        subseq (lists k' (SuspQ n)) (lists k (SuspQ n))) \<and>
     (\<forall>n. SenderQ n \<notin> X \<longrightarrow> subseq (lists k' (SenderQ n)) (lists k (SenderQ n))) \<and>
     (\<forall>t. t \<notin> T \<longrightarrow> event_info (threads k' t) = event_info (threads k t) \<and>
        event_set (threads k' t) = event_set (threads k t)) \<and>
     (\<forall>a. a \<notin> A \<longrightarrow> mp_words k' a = mp_words k a)"

definition leaves :: "lhead set \<Rightarrow> nat set \<Rightarrow> nat set \<Rightarrow> kernel \<Rightarrow> kernel \<Rightarrow> bool" where
  "leaves X T A k k' \<longleftrightarrow> untouched X T A k k' \<and> (punctual k \<longrightarrow> punctual k')"

lemmas leaves_defs = leaves_def untouched_def

lemma leaves_refl [simp]: "leaves X T A k k"
  by (simp add: leaves_defs)

lemma leaves_mono: "leaves X T A k k' \<Longrightarrow> X \<subseteq> X' \<Longrightarrow> T \<subseteq> T' \<Longrightarrow> A \<subseteq> A' \<Longrightarrow> leaves X' T' A' k k'"
  unfolding leaves_defs by blast

lemma untouched_trans: "untouched X T A k k' \<Longrightarrow> untouched X T A k' k'' \<Longrightarrow> untouched X T A k k''"
  unfolding untouched_def by (auto intro: subseq_order.order_trans)

lemma leavesD:
  assumes "leaves X T A k k'"
  shows "SuspQ n \<notin> X \<Longrightarrow> sems k' n = sems k n" "SuspQ n \<notin> X \<Longrightarrow> mutexes k' n = mutexes k n"
    "SuspQ n \<notin> X \<Longrightarrow> events k' n = events k n" "SuspQ n \<notin> X \<Longrightarrow> mailboxes k' n = mailboxes k n"
    "SuspQ n \<notin> X \<Longrightarrow> mqueues k' n = mqueues k n" "SuspQ n \<notin> X \<Longrightarrow> mempools k' n = mempools k n"
    "SuspQ n \<notin> X \<Longrightarrow> subseq (lists k' (SuspQ n)) (lists k (SuspQ n))"
    "SenderQ n \<notin> X \<Longrightarrow> subseq (lists k' (SenderQ n)) (lists k (SenderQ n))"
    "t \<notin> T \<Longrightarrow> event_info (threads k' t) = event_info (threads k t)"
    "t \<notin> T \<Longrightarrow> event_set (threads k' t) = event_set (threads k t)"
    "a \<notin> A \<Longrightarrow> mp_words k' a = mp_words k a"
    "punctual k \<Longrightarrow> punctual k'" "untouched X T A k k'"
  using assms by (simp_all add: leaves_defs)

text \<open>Following a partial computation to its result, without touching its conditions.\<close>

lemma bindE: "Option.bind m f = Some y \<Longrightarrow> (\<And>x. m = Some x \<Longrightarrow> f x = Some y \<Longrightarrow> R) \<Longrightarrow> R"
  by (cases m) auto

lemma ifE: "(if b then x else y) = Some z \<Longrightarrow> (b \<Longrightarrow> x = Some z \<Longrightarrow> R) \<Longrightarrow>
   (\<not> b \<Longrightarrow> y = Some z \<Longrightarrow> R) \<Longrightarrow> R"
  by (auto split: if_splits)

lemma SomeE: "Some x = Some y \<Longrightarrow> (x = y \<Longrightarrow> R) \<Longrightarrow> R"
  by auto

lemma case_prodE: "(case x of (a, b) \<Rightarrow> f a b) = Some z \<Longrightarrow>
   (\<And>a b. x = (a, b) \<Longrightarrow> f a b = Some z \<Longrightarrow> R) \<Longrightarrow> R"
  by (cases x) auto

lemma case_optionE: "(case x of None \<Rightarrow> a | Some v \<Rightarrow> f v) = Some z \<Longrightarrow>
   (x = None \<Longrightarrow> a = Some z \<Longrightarrow> R) \<Longrightarrow> (\<And>v. x = Some v \<Longrightarrow> f v = Some z \<Longrightarrow> R) \<Longrightarrow> R"
  by (cases x) auto

lemmas result_elims = bindE ifE SomeE case_prodE case_optionE Pair_inject

subsection \<open>Single updates\<close>

lemma leaves_fields [simp]:
  "leaves X T A k0 (k\<lparr>ready_group := g\<rparr>) = leaves X T A k0 k"
  "leaves X T A k0 (k\<lparr>current_thread := c\<rparr>) = leaves X T A k0 k"
  "leaves X T A k0 (k\<lparr>current_prio := p, current_thread := c\<rparr>) = leaves X T A k0 k"
  "leaves X T A k0 (k\<lparr>current_prio := p\<rparr>) = leaves X T A k0 k"
  "leaves X T A k0 (k\<lparr>switches := w\<rparr>) = leaves X T A k0 k"
  "leaves X T A k0 (k\<lparr>lock_nest := l\<rparr>) = leaves X T A k0 k"
  "leaves X T A k0 (k\<lparr>interrupt_nest := i\<rparr>) = leaves X T A k0 k"
  by (simp_all add: leaves_defs)

lemma leaves_timers [leaves_steps]:
  assumes "leaves X T A k0 k"
  shows "leaves X T A k0 (timer_remove t k)" "leaves X T A k0 (timer_deactivate t k)"
    "leaves X T A k0 (rt_timer_detach t k)" "leaves X T A k0 (snd (rt_timer_stop t k))"
    "leaves X T A k0 (timer_arm t k)"
proof -
  have "untouched X T A k0 (timer_remove t k)" "untouched X T A k0 (timer_deactivate t k)"
    "untouched X T A k0 (rt_timer_detach t k)" "untouched X T A k0 (snd (rt_timer_stop t k))"
    "untouched X T A k0 (timer_arm t k)"
    using assms by (simp_all add: leaves_defs rt_timer_detach_def) (simp_all add: timer_deactivate_def)
  then show "leaves X T A k0 (timer_remove t k)" "leaves X T A k0 (timer_deactivate t k)"
    "leaves X T A k0 (rt_timer_detach t k)" "leaves X T A k0 (snd (rt_timer_stop t k))"
    "leaves X T A k0 (timer_arm t k)"
    using assms punctual_remove punctual_deactivate punctual_detach punctual_stop punctual_arm
    by (auto simp: leaves_def)
qed

lemma leaves_set_timer:
  assumes "leaves X T A k0 k" "punctual k \<Longrightarrow> punctual (upd_timer t f k)"
  shows "leaves X T A k0 (upd_timer t f k)"
  using assms by (simp add: leaves_defs)

lemma leaves_upd_thread [leaves_steps]:
  assumes "leaves X T A k0 k"
    "t \<in> T \<or> (event_info (f (threads k t)) = event_info (threads k t) \<and> event_set (f (threads k t)) = event_set (threads k t))"
  shows "leaves X T A k0 (upd_thread t f k)"
  using assms by (auto simp: leaves_defs)

lemma leaves_objects [leaves_steps]:
  assumes "leaves X T A k0 k" "SuspQ n \<in> X"
  shows "leaves X T A k0 (upd_sem n f1 k)" "leaves X T A k0 (upd_mutex n f2 k)"
    "leaves X T A k0 (upd_event n f3 k)" "leaves X T A k0 (upd_mb n f4 k)"
    "leaves X T A k0 (upd_mq n f5 k)" "leaves X T A k0 (upd_mp n f6 k)"
  using assms
  by (auto simp: leaves_defs upd_sem_def upd_mutex_def upd_event_def upd_mb_def upd_mq_def upd_mp_def)

lemma leaves_upd_word [leaves_steps]: "leaves X T A k0 k \<Longrightarrow> a \<in> A \<Longrightarrow> leaves X T A k0 (upd_word a w k)"
  by (auto simp: leaves_defs upd_word_def)

lemma subseq_remove1: "subseq xs ys \<Longrightarrow> subseq (remove1 t xs) ys"
proof -
  have "subseq (remove1 t xs) xs" by (induction xs) auto
  then show "subseq xs ys \<Longrightarrow> subseq (remove1 t xs) ys" by (rule subseq_order.order_trans)
qed

text \<open>The lists of threads that wait for an object.\<close>

fun waiting_head :: "lhead \<Rightarrow> bool" where
  "waiting_head (SuspQ n) = True"
| "waiting_head (SenderQ n) = True"
| "waiting_head _ = False"

lemma leaves_remove [leaves_steps]:
  assumes "leaves X T A k0 k" "lists k = q"
  shows "leaves X T A k0 (k\<lparr>lists := l_remove t q\<rparr>)"
  using assms by (auto simp: leaves_defs l_remove_def subseq_remove1)

lemma leaves_lists_upd [leaves_steps]:
  assumes "leaves X T A k0 k" "h \<in> X \<or> \<not> waiting_head h" "lists k = q"
  shows "leaves X T A k0 (k\<lparr>lists := l_append h t q\<rparr>)"
    "leaves X T A k0 (k\<lparr>lists := l_prepend h t q\<rparr>)"
    "leaves X T A k0 (k\<lparr>lists := l_before h s t q\<rparr>)"
    "leaves X T A k0 (ipc_object_init h k)"
  using assms
  by (cases h; auto simp: leaves_defs l_append_def l_prepend_def l_before_def ipc_object_init_def)+

subsection \<open>The scheduler, timers and threads\<close>

lemma leaves_schedule_remove [leaves_steps]:
  "leaves X T A k0 k \<Longrightarrow> leaves X T A k0 (rt_schedule_remove_thread t k)"
  by (simp add: rt_schedule_remove_thread_def Let_def leaves_remove)

lemma leaves_schedule_insert [leaves_steps]:
  assumes "leaves X T A k0 k"
  shows "leaves X T A k0 (rt_schedule_insert_thread t k)"
  using assms
  by (auto simp: rt_schedule_insert_thread_def Let_def intro!: leaves_steps)

lemma leaves_schedule [leaves_calls]:
  assumes "rt_schedule k = Some k'" "leaves X T A k0 k"
  shows "leaves X T A k0 k'"
  using assms
  by (auto simp: rt_schedule_def Let_def option_simps split: if_splits prod.splits intro!: leaves_steps)

lemma leaves_suspend [leaves_calls]:
  assumes "rt_thread_suspend t k = Some (r, k')" "leaves X T A k0 k"
  shows "leaves X T A k0 k'"
  using assms
  by (auto simp: rt_thread_suspend_def Let_def option_simps split: if_splits intro!: leaves_steps)

lemma leaves_resume [leaves_steps]:
  assumes "leaves X T A k0 k"
  shows "leaves X T A k0 (snd (rt_thread_resume t k))"
  using assms
  by (auto simp: rt_thread_resume_def Let_def intro!: leaves_steps)

lemma leaves_timer_start [leaves_calls]:
  assumes "rt_timer_start t k = Some (r, k')" "leaves X T A k0 k"
  shows "leaves X T A k0 k'"
  using assms
  by (auto simp: rt_timer_start_arm Let_def split: if_splits intro!: leaves_steps elim!: leaves_calls)

text \<open>A time is set within the limit the code asserts; a user timer also keeps a period that ends.\<close>

lemma leaves_timer_control:
  assumes "rt_timer_control t c k = Some (r, v, k')" "leaves X T A k0 k"
    "\<And>n. t = User_Timer n \<Longrightarrow> user_timer_ok (timers k' t)"
  shows "leaves X T A k0 k'"
proof -
  obtain f where f: "k' = upd_timer t f k \<or> k' = k" "timeout_tick (f (timers k t)) = timeout_tick (timers k t)"
    "tm_init_tick (f (timers k t)) = tm_init_tick (timers k t) \<or> tm_init_tick (f (timers k t)) < TICK_HALF"
  proof (cases c)
    case (RT_TIMER_CTRL_SET_TIME n)
    then show thesis using assms(1)
      by (intro that [of "\<lambda>m. m\<lparr>tm_init_tick := n\<rparr>"]) (auto simp: rt_timer_control_def option_simps)
  next
    case RT_TIMER_CTRL_SET_ONESHOT
    then show thesis using assms(1)
      by (intro that [of "\<lambda>m. m\<lparr>tm_periodic := False\<rparr>"]) (auto simp: rt_timer_control_def)
  next
    case RT_TIMER_CTRL_SET_PERIODIC
    then show thesis using assms(1)
      by (intro that [of "\<lambda>m. m\<lparr>tm_periodic := True\<rparr>"]) (auto simp: rt_timer_control_def)
  qed (use assms(1) in \<open>auto simp: rt_timer_control_def Let_def intro!: that [of id]\<close>)
  show ?thesis
    using f(1)
  proof
    assume k': "k' = upd_timer t f k"
    show ?thesis unfolding k'
    proof (rule leaves_set_timer [OF assms(2)], rule punctual_set)
      show "tm_init_tick (f (timers k t)) < TICK_HALF" if "punctual k"
        using f(3) that by (auto simp: punctual_def timers_set_def)
      show "user_timer_ok (f (timers k t))" if "t = User_Timer n" for n
        using assms(3) [OF that] by (simp add: k')
    qed (use f(2) in simp_all)
  qed (use assms(2) in simp)
qed

lemma leaves_thread_timer_start [leaves_calls]:
  assumes "thread_timer_start t n k = Some k'" "leaves X T A k0 k"
  shows "leaves X T A k0 k'"
  using assms
  by (auto simp: thread_timer_start_def option_simps elim!: leaves_timer_start leaves_timer_control)

lemma leaves_thread_timeout [leaves_calls]:
  assumes "thread_timeout t k = Some k'" "leaves X T A k0 k"
  shows "leaves X T A k0 k'"
  using assms
  by (auto simp: thread_timeout_def Let_def option_simps intro!: leaves_steps elim!: leaves_calls)

lemma leaves_timer_after_func [leaves_calls]:
  assumes "timer_after_func h t k = Some k'" "leaves X T A k0 k"
  shows "leaves X T A k0 k'"
  using assms
  by (auto simp: timer_after_func_def Let_def split: if_splits intro!: leaves_steps elim!: leaves_calls)

lemma leaves_timer_before_func [leaves_steps]:
  assumes "leaves X T A k0 k"
  shows "leaves X T A k0 (timer_before_func HardLocal t k)"
proof -
  have "leaves X T A k0 (k1\<lparr>timer_lists := l_prepend HardLocal t (timer_lists k1)\<rparr>)" if "leaves X T A k0 k1" for k1
    using that punctual_cong [of "k1\<lparr>timer_lists := l_prepend HardLocal t (timer_lists k1)\<rparr>" k1]
    by (simp add: leaves_defs l_prepend_def)
  then show ?thesis using assms by (simp add: timer_before_func_def Let_def leaves_steps)
qed

lemma untouched_timer_check_loop:
  assumes "timer_check_loop app_callback fuel now k = Some k'"
  shows "untouched X T A k k'"
  using assms
proof (induction fuel arbitrary: now k)
  case (Suc fuel)
  show ?case
  proof (cases "timer_lists k HardTimers")
    case Nil
    then show ?thesis using Suc.prems by (simp add: untouched_def)
  next
    case (Cons t ts)
    show ?thesis
    proof (cases "timer_expired now (timers k t)")
      case False
      then show ?thesis using Suc.prems Cons by (simp add: untouched_def)
    next
      case True
      let ?k1 = "timer_before_func HardLocal t k"
      obtain k2 k3 where k: "call_timeout_func app_callback (timeout_func (timers ?k1 t)) ?k1 = Some k2"
        "timer_after_func HardLocal t k2 = Some k3" "timer_check_loop app_callback fuel (rt_tick k2) k3 = Some k'"
        using Suc.prems(1) True Cons by (auto simp: Let_def option_simps)
      have "leaves X T A k ?k1" by (simp add: leaves_steps)
      then have "leaves X T A k k2"
        using k(1) by (auto simp: call_timeout_func_def app_callback_def split: timeout_func.splits elim!: leaves_calls)
      then have "leaves X T A k k3" using k(2) by (auto elim!: leaves_calls)
      then show ?thesis using untouched_trans [OF leavesD(13) Suc.IH [OF k(3)]] by blast
    qed
  qed
qed simp

lemma leaves_tick:
  assumes tick: "rt_tick_increase app_callback (Suc (length (timer_lists k HardTimers))) k = Some k'" and inv: "kinv k"
  shows "leaves X T A k k'"
proof -
  let ?fuel = "Suc (length (timer_lists k HardTimers))"
  obtain c where c: "current_thread k = Some c" using kinvD(5) [OF inv] by auto
  let ?k0 = "k\<lparr>rt_tick := rt_tick k + 1\<rparr>"
  let ?k1 = "upd_thread c (\<lambda>h. h\<lparr>remaining_tick := remaining_tick h - 1\<rparr>) ?k0"
  let ?k2 = "upd_thread c (\<lambda>h. h\<lparr>remaining_tick := th_init_tick h, th_yield := True\<rparr>) ?k1"
  obtain k3 where k3: "(if remaining_tick (threads ?k1 c) = 0 then rt_schedule ?k2 else Some ?k1) = Some k3"
    "timer_check_loop app_callback ?fuel (rt_tick k3) k3 = Some k'"
    using tick c unfolding rt_tick_increase_def rt_timer_check_def
    by (auto simp: Let_def option_simps rt_thread_self_def simp del: timer_check_loop.simps split: if_splits)
  have "leaves X T A ?k0 k3"
    using k3(1) by (auto split: if_splits intro!: leaves_steps elim!: leaves_calls)
  then have "untouched X T A ?k0 k'"
    using untouched_trans [OF leavesD(13) untouched_timer_check_loop [OF k3(2)]] by blast
  then have "untouched X T A k k'" by (simp add: untouched_def)
  moreover have "punctual k'" if "punctual k"
    by (rule rt_tick_increase_ok [OF inv that]) (use tick in auto)
  ultimately show ?thesis by (simp add: leaves_def)
qed

text \<open>Threads.\<close>

lemma leaves_thread_close [leaves_steps]: "leaves X T A k0 k \<Longrightarrow> leaves X T A k0 (thread_close t k)"
  by (auto simp: thread_close_def rt_thread_defunct_enqueue_def Let_def intro!: leaves_steps)

lemma leaves_thread_exit [leaves_calls]:
  assumes "thread_exit k = Some k'" "leaves X T A k0 k"
  shows "leaves X T A k0 k'"
  using assms by (auto simp: thread_exit_def Let_def option_simps intro!: leaves_steps elim!: leaves_calls)

lemma leaves_thread_detach [leaves_steps]:
  "leaves X T A k0 k \<Longrightarrow> leaves X T A k0 (snd (rt_thread_detach t k))"
  by (auto simp: rt_thread_detach_def Let_def intro!: leaves_steps)

text \<open>The timer of a thread is set up while it is in no list.\<close>

lemma leaves_thread_init:
  assumes "rt_thread_init t e p x a z pr n k = Some (r, k')" "leaves X T A k0 k" "t \<in> T"
    "Thread_Timer t \<notin> set (timer_lists k HardTimers)"
  shows "leaves X T A k0 k'"
  using assms
  by (auto simp: rt_thread_init_def thread_init_def rt_timer_init_def timer_init_fields_def Let_def option_simps
      intro!: leaves_steps leaves_set_timer punctual_set)

lemma leaves_thread_startup [leaves_calls]:
  assumes "rt_thread_startup t k = Some (r, k')" "leaves X T A k0 k"
  shows "leaves X T A k0 k'"
  using assms
  by (auto simp: rt_thread_startup_def Let_def option_simps split: if_splits intro!: leaves_steps elim!: leaves_calls)

lemma leaves_thread_yield [leaves_calls]:
  assumes "rt_thread_yield k = Some k'" "leaves X T A k0 k"
  shows "leaves X T A k0 k'"
  using assms by (auto simp: rt_thread_yield_def Let_def option_simps intro!: leaves_steps elim!: leaves_calls)

lemma leaves_thread_sleep [leaves_calls]:
  assumes "rt_thread_sleep n k = Some k'" "leaves X T A k0 k"
  shows "leaves X T A k0 k'"
  using assms by (auto simp: rt_thread_sleep_def Let_def option_simps intro!: leaves_steps elim!: leaves_calls)

lemma leaves_priority [leaves_calls]:
  assumes "rt_thread_control t (RT_THREAD_CTRL_CHANGE_PRIORITY p) k = Some (r, k')" "leaves X T A k0 k"
  shows "leaves X T A k0 k'"
  using assms
  by (auto simp: rt_thread_control_def set_priority_def Let_def split: if_splits intro!: leaves_steps)

lemma leaves_change_priority [leaves_calls]:
  assumes "change_priority t p k = Some k'" "leaves X T A k0 k"
  shows "leaves X T A k0 k'"
  using assms by (auto simp: change_priority_def elim!: leaves_calls)

lemma leaves_critical [leaves_steps]:
  assumes "leaves X T A k0 k"
  shows "leaves X T A k0 (rt_enter_critical k)" "leaves X T A k0 (rt_interrupt_enter k)"
    "leaves X T A k0 (rt_interrupt_leave k)"
  using assms by (simp_all add: rt_enter_critical_def rt_interrupt_enter_def rt_interrupt_leave_def)

lemma leaves_exit_critical [leaves_calls]:
  assumes "rt_exit_critical k = Some k'" "leaves X T A k0 k"
  shows "leaves X T A k0 k'"
  using assms by (auto simp: rt_exit_critical_def Let_def split: if_splits elim!: leaves_calls)

subsection \<open>Waiting behind an object\<close>

lemma leaves_ipc_suspend [leaves_calls]:
  assumes "ipc_suspend_timed h t flag time k = Some k'" "leaves X T A k0 k"
    "h \<in> X \<or> \<not> waiting_head h"
  shows "leaves X T A k0 k'"
  using assms
  by (auto simp: ipc_suspend_timed_def ipc_list_suspend_def Let_def option_simps
      split: if_splits ipc_flag.splits option.splits
      intro!: leaves_steps elim!: leaves_calls)

lemma leaves_ipc_resume [leaves_calls]:
  assumes "ipc_list_resume h k = Some k'" "leaves X T A k0 k"
  shows "leaves X T A k0 k'"
  using assms by (auto simp: ipc_list_resume_def split: list.splits intro!: leaves_steps)

lemma leaves_resume_all [leaves_calls]:
  assumes "ipc_list_resume_all h k = Some k'" "leaves X T A k0 k"
  shows "leaves X T A k0 k'"
proof -
  have "leaves X T A k0 k'" if "ipc_list_resume_all_loop fuel h k = Some k'" "leaves X T A k0 k" for fuel k
    using that
  proof (induction fuel arbitrary: k)
    case (Suc fuel)
    show ?case
    proof (cases "lists k h")
      case (Cons t ts)
      let ?k = "snd (rt_thread_resume t (upd_thread t (\<lambda>x. x\<lparr>th_error := - RT_ERROR\<rparr>) k))"
      have "leaves X T A k0 ?k" using Suc.prems(2) by (auto intro!: leaves_steps)
      then show ?thesis using Suc.IH [of ?k] Suc.prems(1) Cons by simp
    qed (use Suc.prems in simp)
  qed simp
  from this [OF assms(1) [unfolded ipc_list_resume_all_def] assms(2)] show ?thesis .
qed

lemma leaves_wake_one [leaves_calls]:
  assumes "ipc_wake_one h k = Some k'" "leaves X T A k0 k"
  shows "leaves X T A k0 k'"
  using assms by (auto simp: ipc_wake_one_def option_simps split: if_splits elim!: leaves_calls)

subsection \<open>Calls on objects\<close>

lemma leaves_sem_take [leaves_calls]:
  assumes "rt_sem_take n time k = Some (r, k')" "leaves X T A k0 k" "SuspQ n \<in> X"
  shows "leaves X T A k0 k'"
  using assms
  by (auto simp: rt_sem_take_def Let_def option_simps split: if_splits intro!: leaves_steps elim!: leaves_calls)

lemma leaves_sem_release [leaves_calls]:
  assumes "rt_sem_release n k = Some (r, k')" "leaves X T A k0 k" "SuspQ n \<in> X"
  shows "leaves X T A k0 k'"
  using assms
  by (auto simp: rt_sem_release_def Let_def option_simps split: if_splits intro!: leaves_steps elim!: leaves_calls)

lemma leaves_sem_control [leaves_calls]:
  assumes "rt_sem_control n c k = Some (r, k')" "leaves X T A k0 k" "SuspQ n \<in> X"
  shows "leaves X T A k0 k'"
  using assms
  by (auto simp: rt_sem_control_def Let_def option_simps split: if_splits ipc_cmd.splits intro!: leaves_steps elim!: leaves_calls)

lemma leaves_sem_init [leaves_calls]:
  assumes "rt_sem_init n v flag k = Some (r, k')" "leaves X T A k0 k" "SuspQ n \<in> X"
  shows "leaves X T A k0 k'"
  using assms
  by (auto simp: rt_sem_init_def Let_def option_simps split: if_splits intro!: leaves_steps elim!: leaves_calls)

lemma leaves_sem_detach [leaves_calls]:
  assumes "rt_sem_detach n k = Some (r, k')" "leaves X T A k0 k" "SuspQ n \<in> X"
  shows "leaves X T A k0 k'"
  using assms
  by (auto simp: rt_sem_detach_def Let_def option_simps split: if_splits intro!: leaves_steps elim!: leaves_calls)

lemma leaves_mutex_take [leaves_calls]:
  assumes "rt_mutex_take n time k = Some (r, k')" "leaves X T A k0 k" "SuspQ n \<in> X"
  shows "leaves X T A k0 k'"
  using assms unfolding rt_mutex_take_def Let_def
  by (elim result_elims; hypsubst?) (auto intro!: leaves_steps elim!: leaves_calls)

lemma leaves_mutex_release [leaves_calls]:
  assumes "rt_mutex_release n k = Some (r, k')" "leaves X T A k0 k" "SuspQ n \<in> X"
  shows "leaves X T A k0 k'"
  using assms unfolding rt_mutex_release_def Let_def
  by (elim result_elims; hypsubst?) (auto intro!: leaves_steps elim!: leaves_calls)

lemma leaves_mutex_detach [leaves_calls]:
  assumes "rt_mutex_detach n k = Some (r, k')" "leaves X T A k0 k" "SuspQ n \<in> X"
  shows "leaves X T A k0 k'"
  using assms
  by (auto simp: rt_mutex_detach_def Let_def option_simps split: if_splits intro!: leaves_steps elim!: leaves_calls)

lemma leaves_event_detach [leaves_calls]:
  assumes "rt_event_detach n k = Some (r, k')" "leaves X T A k0 k" "SuspQ n \<in> X"
  shows "leaves X T A k0 k'"
  using assms
  by (auto simp: rt_event_detach_def Let_def option_simps split: if_splits intro!: leaves_steps elim!: leaves_calls)

lemma leaves_mb_detach [leaves_calls]:
  assumes "rt_mb_detach n k = Some (r, k')" "leaves X T A k0 k" "SuspQ n \<in> X" "SenderQ n \<in> X"
  shows "leaves X T A k0 k'"
  using assms
  by (auto simp: rt_mb_detach_def Let_def option_simps split: if_splits intro!: leaves_steps elim!: leaves_calls)

lemma leaves_mq_detach [leaves_calls]:
  assumes "rt_mq_detach n k = Some (r, k')" "leaves X T A k0 k" "SuspQ n \<in> X" "SenderQ n \<in> X"
  shows "leaves X T A k0 k'"
  using assms
  by (auto simp: rt_mq_detach_def Let_def option_simps split: if_splits intro!: leaves_steps elim!: leaves_calls)

lemma leaves_mp_detach [leaves_calls]:
  assumes "rt_mp_detach n k = Some (r, k')" "leaves X T A k0 k" "SuspQ n \<in> X"
  shows "leaves X T A k0 k'"
  using assms
  by (auto simp: rt_mp_detach_def Let_def option_simps split: if_splits intro!: leaves_steps elim!: leaves_calls)

lemma leaves_inits [leaves_steps]:
  assumes "leaves X T A k0 k" "SuspQ n \<in> X"
  shows "leaves X T A k0 (snd (rt_mutex_init n k))" "leaves X T A k0 (snd (rt_event_init n flag k))"
    "SenderQ n \<in> X \<Longrightarrow> leaves X T A k0 (snd (rt_mb_init n pool sz flag k))" "SenderQ n \<in> X \<Longrightarrow> leaves X T A k0 (snd (rt_mq_init n mem sz c flag k))"
  using assms
  by (auto simp: rt_mutex_init_def rt_event_init_def rt_mb_init_def rt_mq_init_def Let_def intro!: leaves_steps)

lemma leaves_event_send_loop:
  assumes "event_send_loop e ts b k = (r, b', k')" "leaves X T A k0 k" "SuspQ e \<in> X" "set ts \<subseteq> T"
  shows "leaves X T A k0 k'"
  using assms
proof (induction ts arbitrary: b k)
  case (Cons t ts)
  let ?want = "event_set (threads k t)" and ?info = "event_info (threads k t)" and ?flags = "ev_set (events k e)"
  let ?ok = "if EVENT_AND ?info then ?want AND ?flags = ?want else ?want AND ?flags \<noteq> 0"
  let ?k1 = "if \<not> EVENT_AND ?info \<and> ?ok then upd_thread t (\<lambda>h. h\<lparr>event_set := ?want AND ?flags\<rparr>) k else k"
  let ?k2 = "if EVENT_CLEAR ?info
      then upd_event e (\<lambda>x. x\<lparr>ev_set := ev_set x AND NOT (event_set (threads ?k1 t))\<rparr>) ?k1 else ?k1"
  have l: "leaves X T A k0 ?k1" using Cons.prems(2,4) by (auto intro!: leaves_steps)
  have "leaves X T A k0 ?k2"
  proof (cases "EVENT_CLEAR ?info")
    case True
    show ?thesis unfolding if_P [OF True] by (rule leaves_objects(3) [OF l Cons.prems(3)])
  next
    case False
    show ?thesis unfolding if_not_P [OF False] by (rule l)
  qed
  then have l2: "leaves X T A k0 (snd (rt_thread_resume t ?k2))" by (rule leaves_resume)
  show ?case
  proof (cases "EVENT_AND ?info \<or> EVENT_OR ?info")
    case False
    then show ?thesis using Cons.prems(1,2) by simp
  next
    case flag: True
    show ?thesis
    proof (cases ?ok)
      case True
      have "event_send_loop e ts True (snd (rt_thread_resume t ?k2)) = (r, b', k')"
        using Cons.prems(1) flag True unfolding event_send_loop.simps Let_def by (simp only: if_True if_P)
      then show ?thesis using Cons.IH l2 Cons.prems(3,4) by simp
    next
      case False
      have "event_send_loop e ts b ?k1 = (r, b', k')"
        using Cons.prems(1) flag False unfolding event_send_loop.simps Let_def by (simp only: if_False if_P)
      then show ?thesis using Cons.IH l Cons.prems(3,4) by simp
    qed
  qed
qed simp

lemma leaves_event_send [leaves_calls]:
  assumes "rt_event_send n flags k = Some (r, k')" "leaves X T A k0 k" "SuspQ n \<in> X" "set (lists k (SuspQ n)) \<subseteq> T"
  shows "leaves X T A k0 k'"
proof -
  let ?k = "upd_event n (\<lambda>x. x\<lparr>ev_set := ev_set x OR flags\<rparr>) k"
  obtain err b k1 where l: "event_send_loop n (lists ?k (SuspQ n)) False ?k = (err, b, k1)"
    by (cases "event_send_loop n (lists ?k (SuspQ n)) False ?k")
  have "set (lists ?k (SuspQ n)) \<subseteq> T" using assms(4) by simp
  then have "leaves X T A k0 k1"
    using leaves_event_send_loop [OF l] assms(2,3) by (simp add: leaves_steps)
  then show ?thesis
    using assms(1,2) l unfolding rt_event_send_def Let_def
    by (elim result_elims; hypsubst?) (auto elim!: leaves_calls split: if_splits)
qed

lemma leaves_own:
  assumes "leaves X T A k0 k"
  shows "t \<in> T \<Longrightarrow> leaves X T A k0 (upd_thread t f k)" "leaves X T A k0 (upd_thread t (\<lambda>h. h\<lparr>th_error := e\<rparr>) k)"
    "ipc_suspend_timed (SuspQ n) t flag time k = Some k' \<Longrightarrow> SuspQ n \<in> X \<Longrightarrow> leaves X T A k0 k'"
    "SuspQ n \<in> X \<Longrightarrow> leaves X T A k0 (if b then upd_event n g k else k)"
  using assms by (auto intro!: leaves_steps elim!: leaves_calls)

lemma leaves_event_recv [leaves_calls]:
  assumes "rt_event_recv n flags opt time k = Some (r, k')" "leaves X T A k0 k" "SuspQ n \<in> X"
    "\<And>t. current_thread k = Some t \<Longrightarrow> t \<in> T"
  shows "leaves X T A k0 k'"
  using assms unfolding rt_event_recv_def Let_def rt_thread_self_def
  by (elim result_elims; hypsubst?)
    (assumption | rule leaves_own(2,4) | rule leaves_own(1) | rule assms(4) | erule leaves_schedule
      | erule leaves_own(3) [rotated])+

lemma leaves_mb_send_round [leaves_calls]:
  assumes "mb_send_round n x time k = Some (r, k')" "leaves X T A k0 k" "SuspQ n \<in> X" "SenderQ n \<in> X"
  shows "leaves X T A k0 k'"
  using assms unfolding mb_send_round_def Let_def
  by (elim result_elims; hypsubst?) (auto intro!: leaves_steps elim!: leaves_calls)

lemma leaves_mb_send [leaves_calls]:
  assumes "rt_mb_send_wait n x time k = Some (r, k')" "leaves X T A k0 k" "SuspQ n \<in> X" "SenderQ n \<in> X"
  shows "leaves X T A k0 k'"
  using assms unfolding rt_mb_send_wait_def Let_def
  by (elim result_elims; hypsubst?) (auto intro!: leaves_steps elim!: leaves_calls)

lemma leaves_mb_recv_round [leaves_calls]:
  assumes "mb_recv_round n time k = Some (r, k')" "leaves X T A k0 k" "SuspQ n \<in> X" "SenderQ n \<in> X"
  shows "leaves X T A k0 k'"
  using assms unfolding mb_recv_round_def Let_def
  by (elim result_elims; hypsubst?) (auto intro!: leaves_steps elim!: leaves_calls)

lemma leaves_mb_recv [leaves_calls]:
  assumes "rt_mb_recv n time k = Some (r, k')" "leaves X T A k0 k" "SuspQ n \<in> X" "SenderQ n \<in> X"
  shows "leaves X T A k0 k'"
  using assms unfolding rt_mb_recv_def Let_def
  by (elim result_elims; hypsubst?) (auto intro!: leaves_steps elim!: leaves_calls)

lemma leaves_mb_urgent [leaves_calls]:
  assumes "rt_mb_urgent n x k = Some (r, k')" "leaves X T A k0 k" "SuspQ n \<in> X" "SenderQ n \<in> X"
  shows "leaves X T A k0 k'"
  using assms unfolding rt_mb_urgent_def Let_def
  by (elim result_elims; hypsubst?) (auto intro!: leaves_steps elim!: leaves_calls)

lemma leaves_mq_send_round [leaves_calls]:
  assumes "mq_send_round n x time k = Some (r, k')" "leaves X T A k0 k" "SuspQ n \<in> X" "SenderQ n \<in> X"
  shows "leaves X T A k0 k'"
  using assms unfolding mq_send_round_def Let_def
  by (elim result_elims; hypsubst?) (auto intro!: leaves_steps elim!: leaves_calls)

lemma leaves_mq_send [leaves_calls]:
  assumes "rt_mq_send_wait n buf sz time k = Some (r, k')" "leaves X T A k0 k" "SuspQ n \<in> X" "SenderQ n \<in> X"
  shows "leaves X T A k0 k'"
  using assms unfolding rt_mq_send_wait_def Let_def
  by (elim result_elims; hypsubst?) (auto intro!: leaves_steps elim!: leaves_calls)

lemma leaves_mq_urgent [leaves_calls]:
  assumes "rt_mq_urgent n buf sz k = Some (r, k')" "leaves X T A k0 k" "SuspQ n \<in> X" "SenderQ n \<in> X"
  shows "leaves X T A k0 k'"
  using assms unfolding rt_mq_urgent_def Let_def
  by (elim result_elims; hypsubst?) (auto intro!: leaves_steps elim!: leaves_calls)

lemma leaves_mq_recv_round [leaves_calls]:
  assumes "mq_recv_round n sz time k = Some (r, k')" "leaves X T A k0 k" "SuspQ n \<in> X" "SenderQ n \<in> X"
  shows "leaves X T A k0 k'"
  using assms unfolding mq_recv_round_def Let_def
  by (elim result_elims; hypsubst?) (auto intro!: leaves_steps elim!: leaves_calls)

lemma leaves_mq_recv [leaves_calls]:
  assumes "rt_mq_recv n sz time k = Some (r, k')" "leaves X T A k0 k" "SuspQ n \<in> X" "SenderQ n \<in> X"
  shows "leaves X T A k0 k'"
  using assms unfolding rt_mq_recv_def Let_def
  by (elim result_elims; hypsubst?) (auto intro!: leaves_steps elim!: leaves_calls)

lemma leaves_mq_control [leaves_calls]:
  assumes "rt_mq_control n c k = Some (r, k')" "leaves X T A k0 k" "SuspQ n \<in> X" "SenderQ n \<in> X"
  shows "leaves X T A k0 k'"
  using assms unfolding rt_mq_control_def Let_def
  by (cases c; simp only: ipc_cmd.case; elim result_elims; hypsubst?) (auto intro!: leaves_steps elim!: leaves_calls)

lemma leaves_mb_control [leaves_calls]:
  assumes "rt_mb_control n c k = Some (r, k')" "leaves X T A k0 k" "SuspQ n \<in> X" "SenderQ n \<in> X"
  shows "leaves X T A k0 k'"
  using assms unfolding rt_mb_control_def Let_def
  by (cases c; simp only: ipc_cmd.case; elim result_elims; hypsubst?) (auto intro!: leaves_steps elim!: leaves_calls)

lemma leaves_event_control [leaves_calls]:
  assumes "rt_event_control n c k = Some (r, k')" "leaves X T A k0 k" "SuspQ n \<in> X"
  shows "leaves X T A k0 k'"
  using assms unfolding rt_event_control_def Let_def
  by (cases c; simp only: ipc_cmd.case; elim result_elims; hypsubst?) (auto intro!: leaves_steps elim!: leaves_calls)

text \<open>Memory pools also write the words of their blocks.\<close>

lemma leaves_mp_suspend [leaves_calls]:
  assumes "mp_suspend_timed n t time k = Some k'" "leaves X T A k0 k" "SuspQ n \<in> X"
  shows "leaves X T A k0 k'"
  using assms unfolding mp_suspend_timed_def Let_def
  by (elim result_elims; hypsubst?) (auto intro!: leaves_steps elim!: leaves_calls)

lemma leaves_set_errno [leaves_steps]: "leaves X T A k0 k \<Longrightarrow> leaves X T A k0 (rt_set_errno e k)"
  by (auto simp: rt_set_errno_def intro!: leaves_steps split: option.split)

lemma leaves_mp_alloc [leaves_calls]:
  assumes "rt_mp_alloc n time k = Some (r, k')" "leaves X T A k0 k" "SuspQ n \<in> X"
    "\<And>a. block_list (mempools k n) = Some a \<Longrightarrow> block_free_count (mempools k n) \<noteq> 0 \<Longrightarrow> a \<in> A"
  shows "leaves X T A k0 k'"
  using assms unfolding rt_mp_alloc_def mp_alloc_round_def Let_def
  by (elim result_elims; hypsubst?) (auto intro!: leaves_steps elim!: leaves_calls)

lemma leaves_mp_free [leaves_calls]:
  assumes "rt_mp_free (Some (a + 4)) k = Some k'" "leaves X T A k0 k" "mp_words k a = Some n" "SuspQ n \<in> X" "a \<in> A"
  shows "leaves X T A k0 k'"
  using assms unfolding rt_mp_free_def Let_def option.case
  by (elim result_elims; hypsubst?) (auto intro!: leaves_steps elim!: leaves_calls)

lemma leaves_mp_build:
  assumes "leaves X T A k0 k" "SuspQ n \<in> X" "0 < c" "c < 2 ^ 32" "\<And>i. i < c \<Longrightarrow> mp_addr start w i \<in> A"
  shows "leaves X T A k0 (mp_build n start sz bsz w c k)"
proof -
  have l: "leaves X T A k0 (mp_link_blocks start w i k)" if "leaves X T A k0 k" "i \<le> c" for i k
    using that by (induction i) (simp_all add: leaves_upd_word assms(5))
  have "c + (2 ^ 32 - 1) = (c - 1) + 2 ^ 32" using assms(3) by simp
  moreover have "c - 1 < 2 ^ 32" using assms(4) by simp
  ultimately have e: "(c + (2 ^ 32 - 1)) mod 2 ^ 32 = c - 1" by (simp only: mod_add_self2 mod_less)
  have "leaves X T A k0 (mp_link_blocks start w c (ipc_object_init (SuspQ n) (upd_mp n f k)))" for f
    by (rule l) (use assms in \<open>auto intro!: leaves_steps\<close>)
  then show ?thesis
    unfolding mp_build_def Let_def e using assms by (auto intro!: leaves_steps)
qed

lemma leaves_mp_init:
  assumes c: "rt_mp_init p start sz bsz k = Some (r, k')" and l: "leaves X T A k0 k" "SuspQ p \<in> X"
    and sz: "bsz \<le> 2 ^ 32 - 8" "start + sz < 2 ^ 32" "{start..<start + sz} \<subseteq> A"
    and n: "0 < RT_ALIGN_DOWN sz 4 div (RT_ALIGN bsz 4 + 4)"
  shows "leaves X T A k0 k'"
proof -
  let ?b = "RT_ALIGN bsz 4" and ?s = "RT_ALIGN_DOWN sz 4"
  have "0 < bsz" using c by (auto simp: rt_mp_init_def rt_assert_def split: if_splits)
  note L = mp_layout [OF this sz(1,2)]
  have "k' = mp_build p start ?s ?b (?b + 4) (?s div (?b + 4)) k"
    using c L(1) by (auto simp: rt_mp_init_def Let_def rt_assert_def split: if_splits)
  moreover have "mp_addr start (?b + 4) i \<in> A" if "i < ?s div (?b + 4)" for i
  proof -
    have "start + i * (?b + 4) < 2 ^ 32" using L(3) [OF that] sz(2) by linarith
    then have "mp_addr start (?b + 4) i = start + i * (?b + 4)" unfolding mp_addr_def by (rule mod_less)
    then show ?thesis using L(3) [OF that] sz(3) by auto
  qed
  ultimately show ?thesis using leaves_mp_build [OF l n L(5)] by simp
qed

end
