(* ===== verification/Objects.thy ===== *)
theory Objects
  imports Frame
begin

text \<open>
  The objects of the kernel together. A table gives each object number its class, as the \<open>type\<close> field
  of the code's \<open>struct rt_object\<close> does; the invariant of the whole kernel is its own invariant, that its
  timers are on time, the invariant of every object in the table, and that the memory of the pools does not
  overlap. What a class has to provide for
  that is the locale \<open>object_class\<close>: its invariant survives whatever a call does elsewhere. Then a
  call keeps the invariants of all objects as soon as it keeps that of the object it names.
\<close>

datatype rt_object_class =
    RT_Object_Class_Semaphore | RT_Object_Class_Mutex | RT_Object_Class_Event
  | RT_Object_Class_MailBox | RT_Object_Class_MessageQueue | RT_Object_Class_MemPool

type_synonym object_table = "nat \<Rightarrow> rt_object_class option"

subsection \<open>What a class of objects promises\<close>

text \<open>
  \<open>readers\<close> are the threads whose event fields the invariant of an object reads, \<open>words\<close> the memory
  words it reads.
\<close>

locale object_class =
  fixes inv :: "nat \<Rightarrow> kernel \<Rightarrow> bool"
    and readers :: "nat \<Rightarrow> kernel \<Rightarrow> nat set"
    and words :: "nat \<Rightarrow> kernel \<Rightarrow> nat set"
  assumes inv_kernel: "inv n k \<Longrightarrow> kinv k"
    and inv_frame: "inv n k \<Longrightarrow> kinv k' \<Longrightarrow> leaves X T A k k' \<Longrightarrow> SuspQ n \<notin> X \<Longrightarrow> SenderQ n \<notin> X \<Longrightarrow>
      readers n k \<inter> T = {} \<Longrightarrow> words n k \<inter> A = {} \<Longrightarrow> inv n k'"
begin

lemma inv_quiet: "inv n k \<Longrightarrow> kinv k' \<Longrightarrow> leaves {} {} {} k k' \<Longrightarrow> inv n k'"
  by (erule (2) inv_frame) simp_all

lemma inv_other: "inv n k \<Longrightarrow> kinv k' \<Longrightarrow> leaves {SuspQ m, SenderQ m} {} {} k k' \<Longrightarrow> m \<noteq> n \<Longrightarrow> inv n k'"
  by (erule (2) inv_frame) simp_all

end

definition mutex_kept :: "nat \<Rightarrow> kernel \<Rightarrow> bool" where
  "mutex_kept m k \<longleftrightarrow> kinv k \<and> mutex_safe m k"

lemma subseq_set: "subseq xs ys \<Longrightarrow> set xs \<subseteq> set ys"
  by (auto elim: list_emb_set)

interpretation sem_class: object_class sem_inv "\<lambda>_ _. {}" "\<lambda>_ _. {}"
  by unfold_locales (auto simp: sem_inv_def sem_abs_def leavesD dest: leavesD(7))

interpretation mutex_class: object_class mutex_kept "\<lambda>_ _. {}" "\<lambda>_ _. {}"
proof unfold_locales
  fix n k k' X T A
  assume "mutex_kept n k" "kinv k'" and l: "leaves X T A k k'" "SuspQ n \<notin> X"
  then show "mutex_kept n k'"
    using mutex_safe_cong [OF leavesD(2) [OF l] subseq_set [OF leavesD(7) [OF l]]]
    by (simp add: mutex_kept_def)
qed (simp add: mutex_kept_def)

interpretation event_class: object_class event_inv "\<lambda>e k. set (lists k (SuspQ e))" "\<lambda>_ _. {}"
proof unfold_locales
  fix n k k' X T A
  assume e: "event_inv n k" "kinv k'" and l: "leaves X T A k k'" "SuspQ n \<notin> X"
    and r: "set (lists k (SuspQ n)) \<inter> T = {}"
  have s: "set (lists k' (SuspQ n)) \<subseteq> set (lists k (SuspQ n))" by (rule subseq_set [OF leavesD(7) [OF l]])
  have "event_info (threads k' t) = event_info (threads k t)" "event_set (threads k' t) = event_set (threads k t)"
    if "t \<in> set (lists k' (SuspQ n))" for t
    using that s r leavesD(9,10) [OF l(1), of t] by blast+
  then show "event_inv n k'" using e s leavesD(3) [OF l] unfolding event_inv_def by auto
qed (simp_all add: event_inv_def)

interpretation mb_class: object_class mb_inv "\<lambda>_ _. {}" "\<lambda>_ _. {}"
  by unfold_locales (simp_all add: mb_inv_def leavesD)

interpretation mq_class: object_class mq_inv "\<lambda>_ _. {}" "\<lambda>_ _. {}"
  by unfold_locales (simp_all add: mq_inv_def leavesD)

interpretation mp_class: object_class mp_inv "\<lambda>_ _. {}" "\<lambda>p k. mp_cells (mempools k p)"
proof unfold_locales
  fix n k k' X T A
  assume p: "mp_inv n k" "kinv k'" and l: "leaves X T A k k'" "SuspQ n \<notin> X"
    and r: "mp_cells (mempools k n) \<inter> A = {}"
  have "mp_words k' a = mp_words k a" if "a \<in> mp_cells (mempools k n)" for a
    using leavesD(11) [OF l(1)] that r by blast
  then show "mp_inv n k'"
    using mp_ok_frame(1) [OF leavesD(6) [OF l]] p by (simp add: mp_inv_def)
qed (simp_all add: mp_inv_def)

subsection \<open>All objects\<close>

fun obj_inv :: "rt_object_class \<Rightarrow> nat \<Rightarrow> kernel \<Rightarrow> bool" where
  "obj_inv RT_Object_Class_Semaphore n k = sem_inv n k"
| "obj_inv RT_Object_Class_Mutex n k = mutex_kept n k"
| "obj_inv RT_Object_Class_Event n k = event_inv n k"
| "obj_inv RT_Object_Class_MailBox n k = mb_inv n k"
| "obj_inv RT_Object_Class_MessageQueue n k = mq_inv n k"
| "obj_inv RT_Object_Class_MemPool n k = mp_inv n k"

definition has_senders :: "rt_object_class option \<Rightarrow> bool" where
  "has_senders c \<longleftrightarrow> c = Some RT_Object_Class_MailBox \<or> c = Some RT_Object_Class_MessageQueue"

text \<open>The slot of an object: its invariant, and no list of senders where its class has none.\<close>

definition slot_inv :: "rt_object_class option \<Rightarrow> nat \<Rightarrow> kernel \<Rightarrow> bool" where
  "slot_inv c n k \<longleftrightarrow>
     (case c of None \<Rightarrow> lists k (SuspQ n) = [] | Some cl \<Rightarrow> obj_inv cl n k) \<and>
     (has_senders c \<or> lists k (SenderQ n) = [])"

definition pools_apart :: "object_table \<Rightarrow> kernel \<Rightarrow> bool" where
  "pools_apart tab k \<longleftrightarrow>
     (\<forall>p q. p \<noteq> q \<longrightarrow> tab p = Some RT_Object_Class_MemPool \<longrightarrow> tab q = Some RT_Object_Class_MemPool \<longrightarrow>
        mp_cells (mempools k p) \<inter> mp_cells (mempools k q) = {})"

definition sys_inv :: "object_table \<Rightarrow> kernel \<Rightarrow> bool" where
  "sys_inv tab k \<longleftrightarrow> kinv k \<and> punctual k \<and> (\<forall>n. slot_inv (tab n) n k) \<and> pools_apart tab k"

lemma sys_invD:
  assumes "sys_inv tab k"
  shows "kinv k" "slot_inv (tab n) n k" "tab n = Some c \<Longrightarrow> obj_inv c n k"
    "tab n = None \<Longrightarrow> lists k (SuspQ n) = [] \<and> lists k (SenderQ n) = []"
    "p \<noteq> q \<Longrightarrow> tab p = Some RT_Object_Class_MemPool \<Longrightarrow> tab q = Some RT_Object_Class_MemPool \<Longrightarrow>
       mp_cells (mempools k p) \<inter> mp_cells (mempools k q) = {}"
    "\<not> has_senders (tab n) \<Longrightarrow> lists k (SenderQ n) = []" "punctual k"
proof -
  have s: "slot_inv (tab n) n k" for n using assms by (simp add: sys_inv_def)
  show "kinv k" "slot_inv (tab n) n k" "punctual k" using assms s by (simp_all add: sys_inv_def)
  show "tab n = Some c \<Longrightarrow> obj_inv c n k" using s [of n] by (simp add: slot_inv_def)
  show "tab n = None \<Longrightarrow> lists k (SuspQ n) = [] \<and> lists k (SenderQ n) = []"
    using s [of n] by (simp add: slot_inv_def has_senders_def)
  show "\<not> has_senders (tab n) \<Longrightarrow> lists k (SenderQ n) = []" using s [of n] by (simp add: slot_inv_def)
  show "p \<noteq> q \<Longrightarrow> tab p = Some RT_Object_Class_MemPool \<Longrightarrow> tab q = Some RT_Object_Class_MemPool \<Longrightarrow>
       mp_cells (mempools k p) \<inter> mp_cells (mempools k q) = {}"
    using assms unfolding sys_inv_def pools_apart_def by blast
qed

text \<open>A slot survives what a call does to other objects.\<close>

lemma slot_frame:
  assumes s: "slot_inv c n k" and ki: "kinv k'" and l: "leaves X T A k k'" "SuspQ n \<notin> X" "SenderQ n \<notin> X"
    and t: "set (lists k (SuspQ n)) \<inter> T = {}"
    and a: "c = Some RT_Object_Class_MemPool \<Longrightarrow> mp_cells (mempools k n) \<inter> A = {}"
  shows "slot_inv c n k'"
proof -
  have q: "lists k (SenderQ n) = [] \<Longrightarrow> lists k' (SenderQ n) = []"
    using leavesD(8) [OF l(1,3)] by auto
  show ?thesis
  proof (cases c)
    case None
    then show ?thesis using s q leavesD(7) [OF l(1,2)] by (auto simp: slot_inv_def)
  next
    case (Some cl)
    have "obj_inv cl n k" using s Some by (simp add: slot_inv_def)
    then have "obj_inv cl n k'"
      using sem_class.inv_frame [OF _ ki l] mutex_class.inv_frame [OF _ ki l]
        event_class.inv_frame [OF _ ki l t] mb_class.inv_frame [OF _ ki l]
        mq_class.inv_frame [OF _ ki l] mp_class.inv_frame [OF _ ki l _ a] Some
      by (cases cl) simp_all
    then show ?thesis using s q Some by (auto simp: slot_inv_def)
  qed
qed

text \<open>
  The invariant after a call on object \<open>n\<close>: its slot now holds what the table says, and the call wrote
  no event field of a thread that waits elsewhere and no word of another pool.
\<close>

lemma sys_step:
  assumes inv: "sys_inv tab k" and l: "leaves {SuspQ n, SenderQ n} T A k k'" and s: "slot_inv c n k'" and ki: "kinv k'"
    and t: "\<And>m. m \<noteq> n \<Longrightarrow> set (lists k (SuspQ m)) \<inter> T = {}"
    and a: "\<And>m. m \<noteq> n \<Longrightarrow> tab m = Some RT_Object_Class_MemPool \<Longrightarrow> mp_cells (mempools k m) \<inter> A = {}"
    and d: "\<And>m. c = Some RT_Object_Class_MemPool \<Longrightarrow> m \<noteq> n \<Longrightarrow> tab m = Some RT_Object_Class_MemPool \<Longrightarrow>
      mp_cells (mempools k m) \<inter> mp_cells (mempools k' n) = {}"
  shows "sys_inv (tab(n := c)) k'"
proof -
  have "slot_inv (tab m) m k'" if "m \<noteq> n" for m
    using slot_frame [OF sys_invD(2) [OF inv] ki l _ _ t [OF that] a] that by simp
  moreover have m: "mempools k' m = mempools k m" if "m \<noteq> n" for m
    using leavesD(6) [OF l, of m] that by simp
  have "pools_apart (tab(n := c)) k'"
    using d sys_invD(5) [OF inv] unfolding pools_apart_def
    by (metis (no_types, opaque_lifting) fun_upd_apply inf_commute m)
  ultimately show ?thesis using s ki leavesD(12) [OF l sys_invD(7) [OF inv]] by (simp add: sys_inv_def)
qed

text \<open>A call that names no object.\<close>

lemma sys_quiet:
  assumes inv: "sys_inv tab k" and l: "leaves {} T {} k k'" and ki: "kinv k'"
    and t: "\<And>m. set (lists k (SuspQ m)) \<inter> T = {}"
  shows "sys_inv tab k'"
proof -
  have "slot_inv (tab n) n k'" for n by (rule slot_frame [OF sys_invD(2) [OF inv] ki l _ _ t]) simp_all
  moreover have "mempools k' m = mempools k m" for m using leavesD(6) [OF l] by simp
  ultimately show ?thesis
    using inv ki leavesD(12) [OF l sys_invD(7) [OF inv]] by (simp add: sys_inv_def pools_apart_def)
qed

text \<open>The invariant of the object a call names is enough for that of the system.\<close>

lemma obj_inv_kernel: "obj_inv c n k \<Longrightarrow> kinv k"
  by (cases c) (simp_all add: sem_class.inv_kernel mutex_class.inv_kernel event_class.inv_kernel
      mb_class.inv_kernel mq_class.inv_kernel mp_class.inv_kernel)

lemma sys_object:
  assumes inv: "sys_inv tab k" and n: "tab n = Some c" and l: "leaves X T A k k'" "obj_inv c n k'"
    and x: "X = {SuspQ n} \<or> has_senders (Some c) \<and> X = {SuspQ n, SenderQ n}"
    and t: "\<And>m. m \<noteq> n \<Longrightarrow> set (lists k (SuspQ m)) \<inter> T = {}"
    and a: "A = {} \<or> c = RT_Object_Class_MemPool \<and> A \<subseteq> mp_cells (mempools k n)"
    and d: "c = RT_Object_Class_MemPool \<Longrightarrow> mp_cells (mempools k' n) = mp_cells (mempools k n)"
  shows "sys_inv tab k'"
proof -
  have q: "has_senders (Some c) \<or> lists k' (SenderQ n) = []"
    using x leavesD(8) [OF l(1), of n] sys_invD(6) [OF inv, of n] n by auto
  have "slot_inv (Some c) n k'" using l(2) q by (simp add: slot_inv_def)
  moreover have "leaves {SuspQ n, SenderQ n} T A k k'" by (rule leaves_mono [OF l(1)]) (use x in auto)
  moreover have "mp_cells (mempools k m) \<inter> A = {}" if "m \<noteq> n" "tab m = Some RT_Object_Class_MemPool" for m
    using a
  proof (elim disjE conjE)
    assume "c = RT_Object_Class_MemPool" and s: "A \<subseteq> mp_cells (mempools k n)"
    then have "mp_cells (mempools k m) \<inter> mp_cells (mempools k n) = {}" using sys_invD(5) [OF inv that] n by simp
    then show ?thesis using s by blast
  qed simp
  moreover have "mp_cells (mempools k m) \<inter> mp_cells (mempools k' n) = {}"
    if "Some c = Some RT_Object_Class_MemPool" "m \<noteq> n" "tab m = Some RT_Object_Class_MemPool" for m
    using d sys_invD(5) [OF inv that(2,3)] that(1) n by simp
  ultimately have "sys_inv (tab(n := Some c)) k'"
    by (intro sys_step [OF inv _ _ obj_inv_kernel [OF l(2)] t])
  then show ?thesis using n by (simp add: fun_upd_idem)
qed

lemma sys_plain:
  assumes "sys_inv tab k" "tab n = Some c" "obj_inv c n k'" "c \<noteq> RT_Object_Class_MemPool"
  shows "leaves {SuspQ n} {} {} k k' \<Longrightarrow> sys_inv tab k'"
    "leaves {SuspQ n, SenderQ n} {} {} k k' \<Longrightarrow> has_senders (Some c) \<Longrightarrow> sys_inv tab k'"
  using sys_object [OF assms(1,2) _ assms(3)] assms(4) by simp_all

lemma sys_initial:
  assumes inv: "sys_inv tab k" and n: "tab n = None" and l: "leaves X {} A k k'" "obj_inv c n k'"
    and x: "X = {SuspQ n} \<or> has_senders (Some c) \<and> X = {SuspQ n, SenderQ n}"
    and a: "c \<noteq> RT_Object_Class_MemPool \<and> A = {} \<or>
      (\<forall>m. tab m = Some RT_Object_Class_MemPool \<longrightarrow> mp_cells (mempools k m) \<inter> (A \<union> mp_cells (mempools k' n)) = {})"
  shows "sys_inv (tab(n := Some c)) k'"
proof -
  have q: "has_senders (Some c) \<or> lists k' (SenderQ n) = []"
    using x leavesD(8) [OF l(1), of n] sys_invD(6) [OF inv, of n] n by (auto simp: has_senders_def)
  have "slot_inv (Some c) n k'" using l(2) q by (simp add: slot_inv_def)
  moreover have "leaves {SuspQ n, SenderQ n} {} A k k'" by (rule leaves_mono [OF l(1)]) (use x in auto)
  moreover have "mp_cells (mempools k m) \<inter> A = {}" if "tab m = Some RT_Object_Class_MemPool" for m
    using a that by (elim disjE) auto
  moreover have "mp_cells (mempools k m) \<inter> mp_cells (mempools k' n) = {}"
    if "c = RT_Object_Class_MemPool" "tab m = Some RT_Object_Class_MemPool" for m
    using a that by (elim disjE) auto
  ultimately show ?thesis by (intro sys_step [OF inv _ _ obj_inv_kernel [OF l(2)]]) auto
qed

lemma sys_detached:
  assumes inv: "sys_inv tab k" and l: "leaves {SuspQ n, SenderQ n} {} {} k k'" and ki: "kinv k'"
    and e: "lists k' (SuspQ n) = []" "lists k' (SenderQ n) = []"
  shows "sys_inv (tab(n := None)) k'"
  using sys_step [OF inv l _ ki, of None] e by (simp add: slot_inv_def)

text \<open>The threads whose event fields a call may write wait for no other object.\<close>

lemma waits_once:
  assumes "kinv k" "m \<noteq> n"
  shows "set (lists k (SuspQ m)) \<inter> set (lists k (SuspQ n)) = {}"
  using wf_listsD(2) [OF sched_invD(1) [OF kinvD(2) [OF assms(1)]]] assms(2) by blast

lemma awake_waits_not:
  assumes "kinv k" "th_stat (threads k t) \<noteq> RT_THREAD_SUSPEND"
  shows "set (lists k (SuspQ m)) \<inter> {t} = {}"
  using sched_invD(4) [OF kinvD(2) [OF assms(1)], of t "SuspQ m"] assms(2) by auto

end
