(* ===== verification/System.thy ===== *)
theory System
  imports Objects
begin

text \<open>
  The kernel as a transition system: from the state the boot sequence leaves, any sequence of
  system calls of the running thread and of tick interrupts. A call is admissible where the
  code's own assertions and the caller's obligations hold: the object it names has the class the
  call is for (the \<open>RT_ASSERT\<close>s on \<open>rt_object_get_type\<close>), a thread makes it, with
  the scheduler unlocked where it blocks. An object gets its class when it is initialised and loses it
  when it is detached. A user timer is set up while it is not running, and its period, if it has one,
  is positive and below half a turn of the clock, as the code does not check. The functions of the user
  timers are \<open>app_callback\<close>: they leave the kernel alone. Every admissible call returns and keeps the
  invariant of the kernel, its timers and all its objects, so they hold in every reachable state, and
  the tick returns in every reachable state.
\<close>

subsection \<open>Calls\<close>

datatype syscall =
    Sys_tick
  | Sys_irq_enter | Sys_irq_leave
  | Sys_yield | Sys_sleep u32 | Sys_exit
  | Sys_thread_init nat nat u32 nat nat | Sys_startup nat | Sys_detach nat | Sys_priority nat nat
  | Sys_enter_critical | Sys_exit_critical
  | Sys_timer_init nat nat u32 byte | Sys_timer_control nat timer_cmd
  | Sys_timer_start nat | Sys_timer_stop nat
  | Sys_sem_take nat int | Sys_sem_release nat | Sys_sem_reset nat nat | Sys_sem_detach nat
  | Sys_mutex_take nat int | Sys_mutex_release nat | Sys_mutex_detach nat
  | Sys_event_send nat u32 | Sys_event_recv nat u32 byte int
  | Sys_event_reset nat | Sys_event_detach nat
  | Sys_mb_send nat u32 int | Sys_mb_recv nat int | Sys_mb_urgent nat u32
  | Sys_mb_reset nat | Sys_mb_detach nat
  | Sys_mq_send nat "byte list" nat int | Sys_mq_urgent nat "byte list" nat | Sys_mq_recv nat nat int
  | Sys_mq_reset nat | Sys_mq_detach nat
  | Sys_mp_alloc nat int | Sys_mp_free nat nat | Sys_mp_detach nat
  | Sys_sem_init nat nat ipc_flag | Sys_mutex_init nat | Sys_event_init nat ipc_flag
  | Sys_mb_init nat "u32 list" nat ipc_flag | Sys_mq_init nat "byte list" nat nat ipc_flag
  | Sys_mp_init nat nat nat nat

fun do_call :: "syscall \<Rightarrow> kernel \<Rightarrow> kernel option" where
  "do_call Sys_tick k = rt_tick_increase app_callback (Suc (length (timer_lists k HardTimers))) k"
| "do_call Sys_irq_enter k = Some (rt_interrupt_enter k)"
| "do_call Sys_irq_leave k = Some (rt_interrupt_leave k)"
| "do_call Sys_yield k = rt_thread_yield k"
| "do_call (Sys_sleep n) k = rt_thread_sleep n k"
| "do_call Sys_exit k = thread_exit k"
| "do_call (Sys_thread_init t p n a z) k = map_option snd (rt_thread_init t 0 0 0 a z p n k)"
| "do_call (Sys_startup t) k = map_option snd (rt_thread_startup t k)"
| "do_call (Sys_detach t) k = Some (snd (rt_thread_detach t k))"
| "do_call (Sys_priority t p) k =
     map_option snd (rt_thread_control t (RT_THREAD_CTRL_CHANGE_PRIORITY p) k)"
| "do_call Sys_enter_critical k = Some (rt_enter_critical k)"
| "do_call Sys_exit_critical k = rt_exit_critical k"
| "do_call (Sys_timer_init n f time flag) k = rt_timer_init (User_Timer n) (Timer_Callback f) time flag k"
| "do_call (Sys_timer_control n cmd) k = map_option (snd \<circ> snd) (rt_timer_control (User_Timer n) cmd k)"
| "do_call (Sys_timer_start n) k = map_option snd (rt_timer_start (User_Timer n) k)"
| "do_call (Sys_timer_stop n) k = Some (snd (rt_timer_stop (User_Timer n) k))"
| "do_call (Sys_sem_take s time) k = map_option snd (rt_sem_take s time k)"
| "do_call (Sys_sem_release s) k = map_option snd (rt_sem_release s k)"
| "do_call (Sys_sem_reset s v) k = map_option snd (rt_sem_control s (RT_IPC_CMD_RESET v) k)"
| "do_call (Sys_sem_detach s) k = map_option snd (rt_sem_detach s k)"
| "do_call (Sys_mutex_take m time) k = map_option snd (rt_mutex_take m time k)"
| "do_call (Sys_mutex_release m) k = map_option snd (rt_mutex_release m k)"
| "do_call (Sys_mutex_detach m) k = map_option snd (rt_mutex_detach m k)"
| "do_call (Sys_event_send e flags) k = map_option snd (rt_event_send e flags k)"
| "do_call (Sys_event_recv e flags opt time) k = map_option snd (rt_event_recv e flags opt time k)"
| "do_call (Sys_event_reset e) k = map_option snd (rt_event_control e (RT_IPC_CMD_RESET 0) k)"
| "do_call (Sys_event_detach e) k = map_option snd (rt_event_detach e k)"
| "do_call (Sys_mb_send m x time) k = map_option snd (rt_mb_send_wait m x time k)"
| "do_call (Sys_mb_recv m time) k = map_option snd (rt_mb_recv m time k)"
| "do_call (Sys_mb_urgent m x) k = map_option snd (rt_mb_urgent m x k)"
| "do_call (Sys_mb_reset m) k = map_option snd (rt_mb_control m (RT_IPC_CMD_RESET 0) k)"
| "do_call (Sys_mb_detach m) k = map_option snd (rt_mb_detach m k)"
| "do_call (Sys_mq_send m buffer sz time) k = map_option snd (rt_mq_send_wait m buffer sz time k)"
| "do_call (Sys_mq_urgent m buffer sz) k = map_option snd (rt_mq_urgent m buffer sz k)"
| "do_call (Sys_mq_recv m sz time) k = map_option snd (rt_mq_recv m sz time k)"
| "do_call (Sys_mq_reset m) k = map_option snd (rt_mq_control m (RT_IPC_CMD_RESET 0) k)"
| "do_call (Sys_mq_detach m) k = map_option snd (rt_mq_detach m k)"
| "do_call (Sys_mp_alloc p time) k = map_option snd (rt_mp_alloc p time k)"
| "do_call (Sys_mp_free p a) k = rt_mp_free (Some (a + 4)) k"
| "do_call (Sys_mp_detach p) k = map_option snd (rt_mp_detach p k)"
| "do_call (Sys_sem_init s v flag) k = map_option snd (rt_sem_init s v flag k)"
| "do_call (Sys_mutex_init m) k = Some (snd (rt_mutex_init m k))"
| "do_call (Sys_event_init e flag) k = Some (snd (rt_event_init e flag k))"
| "do_call (Sys_mb_init m pool sz flag) k = Some (snd (rt_mb_init m pool sz flag k))"
| "do_call (Sys_mq_init m pool sz n flag) k = Some (snd (rt_mq_init m pool sz n flag k))"
| "do_call (Sys_mp_init p start sz bsz) k = map_option snd (rt_mp_init p start sz bsz k)"

definition caller_runs :: "kernel \<Rightarrow> bool" where
  "caller_runs k \<longleftrightarrow> (case current_thread k of None \<Rightarrow> False | Some t \<Rightarrow> in_thread k t)"

definition time_ok :: "int \<Rightarrow> bool" where
  "time_ok time \<longleftrightarrow> time < 2 ^ 31 - 1"

text \<open>What a command makes of a timer.\<close>

fun control_timer :: "timer_cmd \<Rightarrow> timer \<Rightarrow> timer" where
  "control_timer (RT_TIMER_CTRL_SET_TIME n) m = m\<lparr>tm_init_tick := n\<rparr>"
| "control_timer RT_TIMER_CTRL_SET_ONESHOT m = m\<lparr>tm_periodic := False\<rparr>"
| "control_timer RT_TIMER_CTRL_SET_PERIODIC m = m\<lparr>tm_periodic := True\<rparr>"
| "control_timer _ m = m"

text \<open>The classes after a call: \<open>rt_object_init\<close> sets the type of an object, \<open>rt_object_detach\<close> clears it.\<close>

fun retable :: "syscall \<Rightarrow> object_table \<Rightarrow> object_table" where
  "retable (Sys_sem_init s v flag) tab = tab(s \<mapsto> RT_Object_Class_Semaphore)"
| "retable (Sys_mutex_init m) tab = tab(m \<mapsto> RT_Object_Class_Mutex)"
| "retable (Sys_event_init e flag) tab = tab(e \<mapsto> RT_Object_Class_Event)"
| "retable (Sys_mb_init m pool sz flag) tab = tab(m \<mapsto> RT_Object_Class_MailBox)"
| "retable (Sys_mq_init m pool sz n flag) tab = tab(m \<mapsto> RT_Object_Class_MessageQueue)"
| "retable (Sys_mp_init p start sz bsz) tab = tab(p \<mapsto> RT_Object_Class_MemPool)"
| "retable (Sys_sem_detach s) tab = tab(s := None)"
| "retable (Sys_mutex_detach m) tab = tab(m := None)"
| "retable (Sys_event_detach e) tab = tab(e := None)"
| "retable (Sys_mb_detach m) tab = tab(m := None)"
| "retable (Sys_mq_detach m) tab = tab(m := None)"
| "retable (Sys_mp_detach p) tab = tab(p := None)"
| "retable _ tab = tab"

fun admissible :: "syscall \<Rightarrow> object_table \<Rightarrow> kernel \<Rightarrow> bool" where
  "admissible Sys_tick tab k \<longleftrightarrow> True"
| "admissible (Sys_timer_init n f time flag) tab k \<longleftrightarrow> \<not> tm_activated (timers k (User_Timer n)) \<and>
     time < TICK_HALF \<and> user_timer_ok (timer_init_fields (Timer_Callback f) time flag)"
| "admissible (Sys_timer_control n cmd) tab k \<longleftrightarrow>
     tm_init_tick (control_timer cmd (timers k (User_Timer n))) < TICK_HALF \<and>
     user_timer_ok (control_timer cmd (timers k (User_Timer n)))"
| "admissible (Sys_sleep n) tab k \<longleftrightarrow> caller_runs k \<and> n < TICK_HALF"
| "admissible Sys_exit tab k \<longleftrightarrow> caller_runs k"
| "admissible (Sys_thread_init t p n a z) tab k \<longleftrightarrow>
     th_stat (threads k t) = RT_THREAD_INIT \<and> p < 32 \<and> stack_fits a z"
| "admissible (Sys_startup t) tab k \<longleftrightarrow> startable k t"
| "admissible (Sys_priority t p) tab k \<longleftrightarrow> p < 32"
| "admissible (Sys_sem_take s time) tab k \<longleftrightarrow>
     tab s = Some RT_Object_Class_Semaphore \<and> caller_runs k \<and> time_ok time"
| "admissible (Sys_sem_release s) tab k \<longleftrightarrow>
     tab s = Some RT_Object_Class_Semaphore"
| "admissible (Sys_sem_reset s v) tab k \<longleftrightarrow>
     tab s = Some RT_Object_Class_Semaphore"
| "admissible (Sys_sem_detach s) tab k \<longleftrightarrow>
     tab s = Some RT_Object_Class_Semaphore"
| "admissible (Sys_mutex_take m time) tab k \<longleftrightarrow>
     tab m = Some RT_Object_Class_Mutex \<and> caller_runs k \<and> time_ok time"
| "admissible (Sys_mutex_release m) tab k \<longleftrightarrow>
     tab m = Some RT_Object_Class_Mutex \<and> caller_runs k"
| "admissible (Sys_mutex_detach m) tab k \<longleftrightarrow> tab m = Some RT_Object_Class_Mutex"
| "admissible (Sys_event_send e flags) tab k \<longleftrightarrow>
     tab e = Some RT_Object_Class_Event"
| "admissible (Sys_event_recv e flags opt time) tab k \<longleftrightarrow>
     tab e = Some RT_Object_Class_Event \<and> caller_runs k \<and> flags \<noteq> 0 \<and> (bit opt 0 \<or> bit opt 1) \<and> time_ok time"
| "admissible (Sys_event_reset e) tab k \<longleftrightarrow> tab e = Some RT_Object_Class_Event"
| "admissible (Sys_event_detach e) tab k \<longleftrightarrow> tab e = Some RT_Object_Class_Event"
| "admissible (Sys_mb_send m x time) tab k \<longleftrightarrow>
     tab m = Some RT_Object_Class_MailBox \<and> caller_runs k \<and> time_ok time"
| "admissible (Sys_mb_recv m time) tab k \<longleftrightarrow>
     tab m = Some RT_Object_Class_MailBox \<and> caller_runs k \<and> time_ok time"
| "admissible (Sys_mb_urgent m x) tab k \<longleftrightarrow>
     tab m = Some RT_Object_Class_MailBox"
| "admissible (Sys_mb_reset m) tab k \<longleftrightarrow> tab m = Some RT_Object_Class_MailBox"
| "admissible (Sys_mb_detach m) tab k \<longleftrightarrow> tab m = Some RT_Object_Class_MailBox"
| "admissible (Sys_mq_send m buffer sz time) tab k \<longleftrightarrow>
     tab m = Some RT_Object_Class_MessageQueue \<and> caller_runs k \<and> time_ok time \<and> 0 < sz \<and> sz \<le> length buffer"
| "admissible (Sys_mq_urgent m buffer sz) tab k \<longleftrightarrow>
     tab m = Some RT_Object_Class_MessageQueue \<and> 0 < sz \<and> sz \<le> length buffer"
| "admissible (Sys_mq_recv m sz time) tab k \<longleftrightarrow>
     tab m = Some RT_Object_Class_MessageQueue \<and> caller_runs k \<and> time_ok time \<and> 0 < sz"
| "admissible (Sys_mq_reset m) tab k \<longleftrightarrow>
     tab m = Some RT_Object_Class_MessageQueue"
| "admissible (Sys_mq_detach m) tab k \<longleftrightarrow>
     tab m = Some RT_Object_Class_MessageQueue"
| "admissible (Sys_mp_alloc p time) tab k \<longleftrightarrow>
     tab p = Some RT_Object_Class_MemPool \<and> caller_runs k \<and> time_ok time"
| "admissible (Sys_mp_free p a) tab k \<longleftrightarrow>
     tab p = Some RT_Object_Class_MemPool \<and> a \<in> mp_cells (mempools k p) \<and> a \<notin> set (mp_frees p k)"
| "admissible (Sys_mp_detach p) tab k \<longleftrightarrow> tab p = Some RT_Object_Class_MemPool"
| "admissible (Sys_sem_init s v flag) tab k \<longleftrightarrow> tab s = None \<and> v < 0x10000"
| "admissible (Sys_mutex_init m) tab k \<longleftrightarrow> tab m = None"
| "admissible (Sys_event_init e flag) tab k \<longleftrightarrow> tab e = None"
| "admissible (Sys_mb_init m pool sz flag) tab k \<longleftrightarrow>
     tab m = None \<and> 0 < sz \<and> sz < 2 ^ 16 \<and> sz \<le> length pool"
| "admissible (Sys_mq_init m pool sz n flag) tab k \<longleftrightarrow> tab m = None \<and> n \<le> length pool \<and> 0 < sz \<and> sz \<le> 2 ^ 16 - 4 \<and>
     n div (RT_ALIGN sz 4 + 4) < 2 ^ 16"
| "admissible (Sys_mp_init p start sz bsz) tab k \<longleftrightarrow> tab p = None \<and> 0 < sz \<and> 0 < bsz \<and> bsz \<le> 2 ^ 32 - 8 \<and> start + sz < 2 ^ 32 \<and>
     0 < RT_ALIGN_DOWN sz 4 div (RT_ALIGN bsz 4 + 4) \<and>
     (\<forall>q. tab q = Some RT_Object_Class_MemPool \<longrightarrow> mp_cells (mempools k q) \<inter> {start..<start + sz} = {})"
| "admissible _ tab k \<longleftrightarrow> True"

text \<open>The runs of the system, each with the calls made and the objects in use after it.\<close>

inductive runs :: "kernel \<Rightarrow> syscall list \<Rightarrow> object_table \<Rightarrow> kernel \<Rightarrow> bool" for k0 where
  start: "runs k0 [] (\<lambda>_. None) k0"
| call: "runs k0 cs tab k \<Longrightarrow> admissible c tab k \<Longrightarrow> do_call c k = Some k' \<Longrightarrow>
    runs k0 (cs @ [c]) (retable c tab) k'"

inductive_cases runs_NilE: "runs k0 [] tab k"
inductive_cases runs_snocE: "runs k0 (cs @ [c]) tab k"

subsection \<open>Every admissible call keeps the invariant\<close>

lemma caller_runsE:
  assumes "caller_runs k"
  obtains t where "in_thread k t" "current_thread k = Some t" "th_stat (threads k t) = RT_THREAD_RUNNING"
  using assms by (auto simp: caller_runs_def in_thread_def split: option.splits)

text \<open>The calls that return, with what holds then.\<close>

definition returns :: "object_table \<Rightarrow> ('a \<times> kernel) option \<Rightarrow> bool" where
  "returns tab m \<longleftrightarrow> (\<exists>r k'. m = Some (r, k') \<and> sys_inv tab k')"

lemma returnsI: "m = Some (r, k') \<Longrightarrow> sys_inv tab k' \<Longrightarrow> returns tab m"
  by (auto simp: returns_def)

definition keeps :: "object_table \<Rightarrow> kernel option \<Rightarrow> bool" where
  "keeps tab m \<longleftrightarrow> (\<exists>k'. m = Some k' \<and> sys_inv tab k')"

lemma keeps_simps [simp]: "keeps tab (map_option snd m) = returns tab m" "keeps tab (Some k) = sys_inv tab k"
  by (auto simp: returns_def keeps_def)

lemma keepsI: "m = Some k' \<Longrightarrow> sys_inv tab k' \<Longrightarrow> keeps tab m"
  by (simp add: keeps_def)

text \<open>Semaphores.\<close>

lemma sem_calls:
  assumes inv: "sys_inv tab k" and s: "tab s = Some RT_Object_Class_Semaphore"
  shows "caller_runs k \<Longrightarrow> time_ok time \<Longrightarrow> returns tab (rt_sem_take s time k)"
    "returns tab (rt_sem_release s k)" "returns tab (rt_sem_control s (RT_IPC_CMD_RESET v) k)"
proof -
  have i: "sem_inv s k" using sys_invD(3) [OF inv s] by simp
  have step: "sem_inv s k' \<Longrightarrow> leaves {SuspQ s} {} {} k k' \<Longrightarrow> sys_inv tab k'" for k'
    by (rule sys_plain(1) [OF inv s]) simp_all
  show "caller_runs k \<Longrightarrow> time_ok time \<Longrightarrow> returns tab (rt_sem_take s time k)"
    by (elim caller_runsE, rule rt_sem_take_refines [OF i, of _ time])
      (auto simp: time_ok_def intro!: returnsI step elim!: leaves_calls)
  show "returns tab (rt_sem_release s k)"
    by (rule rt_sem_release_refines [OF i]) (auto intro!: returnsI step elim!: leaves_calls)
  show "returns tab (rt_sem_control s (RT_IPC_CMD_RESET v) k)"
    by (rule rt_sem_reset_ok [OF i]) (auto intro!: returnsI step elim!: leaves_calls)
qed

lemma mutex_calls:
  assumes inv: "sys_inv tab k" and m: "tab m = Some RT_Object_Class_Mutex" and run: "caller_runs k"
  shows "time_ok time \<Longrightarrow> returns tab (rt_mutex_take m time k)" "returns tab (rt_mutex_release m k)"
proof -
  have i: "kinv k" "mutex_safe m k" using sys_invD(3) [OF inv m] by (simp_all add: mutex_kept_def)
  have step: "kinv k' \<Longrightarrow> mutex_safe m k' \<Longrightarrow> leaves {SuspQ m} {} {} k k' \<Longrightarrow> sys_inv tab k'" for k'
    by (rule sys_plain(1) [OF inv m]) (simp_all add: mutex_kept_def)
  obtain t where t: "in_thread k t" by (rule caller_runsE [OF run])
  show "time_ok time \<Longrightarrow> returns tab (rt_mutex_take m time k)"
    by (rule rt_mutex_take_safe [OF i t, of time]) (auto simp: time_ok_def intro!: returnsI step elim!: leaves_calls)
  show "returns tab (rt_mutex_release m k)"
    by (rule rt_mutex_release_safe [OF i t]) (auto intro!: returnsI step elim!: leaves_calls)
qed

lemma event_calls:
  assumes inv: "sys_inv tab k" and e: "tab e = Some RT_Object_Class_Event"
  shows "returns tab (rt_event_send e flags k)" "returns tab (rt_event_control e (RT_IPC_CMD_RESET v) k)"
    "caller_runs k \<Longrightarrow> flags \<noteq> 0 \<Longrightarrow> bit opt 0 \<or> bit opt 1 \<Longrightarrow> time_ok time \<Longrightarrow>
       returns tab (rt_event_recv e flags opt time k)"
proof -
  have i: "event_inv e k" using sys_invD(3) [OF inv e] by simp
  have ki: "kinv k" by (rule sys_invD(1) [OF inv])
  have step: "event_inv e k' \<Longrightarrow> leaves {SuspQ e} T {} k k' \<Longrightarrow>
      (\<And>m. m \<noteq> e \<Longrightarrow> set (lists k (SuspQ m)) \<inter> T = {}) \<Longrightarrow> sys_inv tab k'" for T k'
    by (rule sys_object [where X = "{SuspQ e}" and T = T and A = "{}", OF inv e]) simp_all
  show "returns tab (rt_event_send e flags k)"
  proof (cases "flags = 0")
    case True
    then show ?thesis using inv by (simp add: rt_event_send_def returns_def)
  next
    case False
    obtain woken stay left where
      "wake_walk (wants k) (ev_set (events k e) OR flags) (lists k (SuspQ e)) = (woken, stay, left)"
      by (cases "wake_walk (wants k) (ev_set (events k e) OR flags) (lists k (SuspQ e))")
    then obtain k' where k': "rt_event_send e flags k = Some (RT_EOK, k')" "event_inv e k'"
      using rt_event_send_ok [OF i False] by blast
    have "leaves {SuspQ e} (set (lists k (SuspQ e))) {} k k'"
      by (rule leaves_event_send [OF k'(1)]) simp_all
    then show ?thesis using returnsI [OF k'(1) step [OF k'(2)]] waits_once [OF ki] by blast
  qed
  show "returns tab (rt_event_control e (RT_IPC_CMD_RESET v) k)"
    by (rule rt_event_reset_ok [OF i, of v])
      (auto intro!: returnsI sys_plain(1) [OF inv e] elim!: leaves_calls)
  show "returns tab (rt_event_recv e flags opt time k)"
    if a: "caller_runs k" "flags \<noteq> 0" "bit opt 0 \<or> bit opt 1" "time_ok time"
  proof -
    obtain t where t: "in_thread k t" by (rule caller_runsE [OF a(1)])
    have time: "time < 2 ^ 31 - 1" using a(4) by (simp add: time_ok_def)
    obtain r k' where k': "rt_event_recv e flags opt time k = Some (r, k')" "event_inv e k'"
      by (rule rt_event_recv_ok [OF i t a(2,3) time]) (rule that)
    have "leaves {SuspQ e} {t} {} k k'"
      by (rule leaves_event_recv [OF k'(1)]) (use in_threadD(1) [OF t] in simp_all)
    moreover have "set (lists k (SuspQ m)) \<inter> {t} = {}" for m
      by (rule awake_waits_not [OF ki]) (use in_threadD(2) [OF t] in simp)
    ultimately show ?thesis using returnsI [OF k'(1) step [OF k'(2)]] by blast
  qed
qed

lemma mailbox_calls:
  assumes inv: "sys_inv tab k" and m: "tab m = Some RT_Object_Class_MailBox"
  shows "caller_runs k \<Longrightarrow> time_ok time \<Longrightarrow> returns tab (rt_mb_send_wait m x time k)"
    "caller_runs k \<Longrightarrow> time_ok time \<Longrightarrow> returns tab (rt_mb_recv m time k)"
    "returns tab (rt_mb_urgent m x k)" "returns tab (rt_mb_control m (RT_IPC_CMD_RESET v) k)"
proof -
  have i: "mb_inv m k" using sys_invD(3) [OF inv m] by simp
  have step: "mb_inv m k' \<Longrightarrow> leaves {SuspQ m, SenderQ m} {} {} k k' \<Longrightarrow> sys_inv tab k'" for k'
    by (rule sys_plain(2) [OF inv m]) (simp_all add: has_senders_def)
  show "returns tab (rt_mb_send_wait m x time k)" if a: "caller_runs k" "time_ok time"
  proof -
    obtain t where t: "in_thread k t" by (rule caller_runsE [OF a(1)])
    have time: "time < 2 ^ 31 - 1" using a(2) by (simp add: time_ok_def)
    show ?thesis
      by (rule rt_mb_send_wait_refines [OF i t time, of x]) (auto intro!: returnsI step elim!: leaves_calls)
  qed
  show "returns tab (rt_mb_recv m time k)" if a: "caller_runs k" "time_ok time"
  proof -
    obtain t where t: "in_thread k t" by (rule caller_runsE [OF a(1)])
    have time: "time < 2 ^ 31 - 1" using a(2) by (simp add: time_ok_def)
    show ?thesis by (rule rt_mb_recv_refines [OF i t time]) (auto intro!: returnsI step elim!: leaves_calls)
  qed
  show "returns tab (rt_mb_urgent m x k)"
    by (rule rt_mb_urgent_refines [OF i, of x]) (auto intro!: returnsI step elim!: leaves_calls)
  show "returns tab (rt_mb_control m (RT_IPC_CMD_RESET v) k)"
    by (rule rt_mb_reset_ok [OF i, of v]) (auto intro!: returnsI step elim!: leaves_calls)
qed

lemma mq_calls:
  assumes inv: "sys_inv tab k" and m: "tab m = Some RT_Object_Class_MessageQueue"
  shows "caller_runs k \<Longrightarrow> time_ok time \<Longrightarrow> 0 < n \<Longrightarrow> n \<le> length buffer \<Longrightarrow>
      returns tab (rt_mq_send_wait m buffer n time k)"
    "0 < n \<Longrightarrow> n \<le> length buffer \<Longrightarrow> returns tab (rt_mq_urgent m buffer n k)"
    "caller_runs k \<Longrightarrow> time_ok time \<Longrightarrow> 0 < n \<Longrightarrow> returns tab (rt_mq_recv m n time k)"
    "returns tab (rt_mq_control m (RT_IPC_CMD_RESET v) k)"
proof -
  have i: "mq_inv m k" using sys_invD(3) [OF inv m] by simp
  have step: "mq_inv m k' \<Longrightarrow> leaves {SuspQ m, SenderQ m} {} {} k k' \<Longrightarrow> sys_inv tab k'" for k'
    by (rule sys_plain(2) [OF inv m]) (simp_all add: has_senders_def)
  show "returns tab (rt_mq_send_wait m buffer n time k)"
    if a: "caller_runs k" "time_ok time" "0 < n" "n \<le> length buffer"
  proof -
    obtain t where t: "in_thread k t" by (rule caller_runsE [OF a(1)])
    have time: "time < 2 ^ 31 - 1" using a(2) by (simp add: time_ok_def)
    show ?thesis
      by (rule rt_mq_send_wait_refines [OF i t time a(3,4)]) (auto intro!: returnsI step elim!: leaves_calls)
  qed
  show "0 < n \<Longrightarrow> n \<le> length buffer \<Longrightarrow> returns tab (rt_mq_urgent m buffer n k)"
    by (rule rt_mq_urgent_refines [OF i]) (auto intro!: returnsI step elim!: leaves_calls)
  show "returns tab (rt_mq_recv m n time k)" if a: "caller_runs k" "time_ok time" "0 < n"
  proof -
    obtain t where t: "in_thread k t" by (rule caller_runsE [OF a(1)])
    have time: "time < 2 ^ 31 - 1" using a(2) by (simp add: time_ok_def)
    show ?thesis by (rule rt_mq_recv_refines [OF i t time a(3)]) (auto intro!: returnsI step elim!: leaves_calls)
  qed
  show "returns tab (rt_mq_control m (RT_IPC_CMD_RESET v) k)"
    by (rule rt_mq_reset_ok [OF i, of v]) (auto intro!: returnsI step elim!: leaves_calls)
qed

lemma mp_calls:
  assumes inv: "sys_inv tab k" and p: "tab p = Some RT_Object_Class_MemPool"
  shows "caller_runs k \<Longrightarrow> time_ok time \<Longrightarrow> returns tab (rt_mp_alloc p time k)"
    "a \<in> mp_cells (mempools k p) \<Longrightarrow> a \<notin> set (mp_frees p k) \<Longrightarrow> keeps tab (rt_mp_free (Some (a + 4)) k)"
proof -
  have i: "mp_inv p k" using sys_invD(3) [OF inv p] by simp
  note O = mp_okD [OF i [unfolded mp_inv_def, THEN conjunct2]]
  have step: "mp_inv p k' \<Longrightarrow> leaves {SuspQ p} {} (mp_cells (mempools k p)) k k' \<Longrightarrow>
      mp_cells (mempools k' p) = mp_cells (mempools k p) \<Longrightarrow> sys_inv tab k'" for k'
    by (rule sys_object [where X = "{SuspQ p}" and T = "{}" and A = "mp_cells (mempools k p)", OF inv p]) simp_all
  show "returns tab (rt_mp_alloc p time k)" if c: "caller_runs k" "time_ok time"
  proof -
    obtain t where t: "in_thread k t" by (rule caller_runsE [OF c(1)])
    have time: "time < 2 ^ 31 - 1" using c(2) by (simp add: time_ok_def)
    obtain r k' where k': "rt_mp_alloc p time k = Some (r, k')" "mp_inv p k'"
      "mp_cells (mempools k' p) = mp_cells (mempools k p)"
      by (rule rt_mp_alloc_refines [OF i t time]) (rule that)
    have "leaves {SuspQ p} {} (mp_cells (mempools k p)) k k'"
    proof (rule leaves_mp_alloc [OF k'(1)])
      fix b assume b: "block_list (mempools k p) = Some b" "block_free_count (mempools k p) \<noteq> 0"
      then have "b \<in> set (mp_frees p k)" using O(1,2) by (cases "mp_frees p k") auto
      then show "b \<in> mp_cells (mempools k p)" using O(3) by blast
    qed simp_all
    then show ?thesis by (intro returnsI [OF k'(1)] step k'(2,3))
  qed
  show "keeps tab (rt_mp_free (Some (a + 4)) k)"
    if a: "a \<in> mp_cells (mempools k p)" "a \<notin> set (mp_frees p k)"
  proof -
    obtain k' where k': "rt_mp_free (Some (a + 4)) k = Some k'" "mp_inv p k'"
      "mp_cells (mempools k' p) = mp_cells (mempools k p)"
      by (rule rt_mp_free_refines [OF i a]) (rule that)
    have "leaves {SuspQ p} {} (mp_cells (mempools k p)) k k'"
      by (rule leaves_mp_free [OF k'(1) _ O(4) [OF a]]) (use a in simp_all)
    then show ?thesis by (intro keepsI [OF k'(1)] step k'(2,3))
  qed
qed

text \<open>Initialising an object no class has claimed.\<close>

lemma init_calls:
  assumes inv: "sys_inv tab k" and n: "tab n = None"
  shows "v < 0x10000 \<Longrightarrow> returns (tab(n \<mapsto> RT_Object_Class_Semaphore)) (rt_sem_init n v flag k)"
    "sys_inv (tab(n \<mapsto> RT_Object_Class_Mutex)) (snd (rt_mutex_init n k))"
    "sys_inv (tab(n \<mapsto> RT_Object_Class_Event)) (snd (rt_event_init n flag k))"
    "0 < sz \<Longrightarrow> sz < 2 ^ 16 \<Longrightarrow> sz \<le> length pool \<Longrightarrow>
       sys_inv (tab(n \<mapsto> RT_Object_Class_MailBox)) (snd (rt_mb_init n pool sz flag k))"
    "psz \<le> length mem \<Longrightarrow> 0 < msz \<Longrightarrow> msz \<le> 2 ^ 16 - 4 \<Longrightarrow> psz div (RT_ALIGN msz 4 + 4) < 2 ^ 16 \<Longrightarrow>
       sys_inv (tab(n \<mapsto> RT_Object_Class_MessageQueue)) (snd (rt_mq_init n mem msz psz flag k))"
proof -
  have ki: "kinv k" by (rule sys_invD(1) [OF inv])
  have e: "lists k (SuspQ n) = []" "lists k (SenderQ n) = []" using sys_invD(4) [OF inv n] by simp_all
  note i = ipc_object_init_id [OF e(1)] ipc_object_init_id [OF e(2)]
  have one: "leaves {SuspQ n} {} {} k k' \<Longrightarrow> obj_inv c n k' \<Longrightarrow> c \<noteq> RT_Object_Class_MemPool \<Longrightarrow>
      sys_inv (tab(n \<mapsto> c)) k'" for c k'
    by (rule sys_initial [where X = "{SuspQ n}" and A = "{}", OF inv n]) simp_all
  have both: "leaves {SuspQ n, SenderQ n} {} {} k k' \<Longrightarrow> obj_inv c n k' \<Longrightarrow> has_senders (Some c) \<Longrightarrow>
      c \<noteq> RT_Object_Class_MemPool \<Longrightarrow> sys_inv (tab(n \<mapsto> c)) k'" for c k'
    by (rule sys_initial [where X = "{SuspQ n, SenderQ n}" and A = "{}", OF inv n]) simp_all
  show "returns (tab(n \<mapsto> RT_Object_Class_Semaphore)) (rt_sem_init n v flag k)" if "v < 0x10000"
  proof -
    let ?k = "upd_sem n (\<lambda>_. \<lparr>sem_flag = flag, sem_value = v mod 2 ^ 16\<rparr>) k"
    have c: "rt_sem_init n v flag k = Some (RT_EOK, ?k)" using that by (simp add: rt_sem_init_def i)
    have "leaves {SuspQ n} {} {} k ?k" by (rule leaves_objects) simp_all
    then show ?thesis
      by (intro returnsI [OF c] one) (use that ki e in \<open>simp_all add: sem_inv_def sem_abs_def\<close>)
  qed
  show "sys_inv (tab(n \<mapsto> RT_Object_Class_Mutex)) (snd (rt_mutex_init n k))"
    by (rule one [OF leaves_inits(1)])
      (use ki e in \<open>simp_all add: rt_mutex_init_def i mutex_kept_def mutex_safe_def mutex_free_def\<close>)
  show "sys_inv (tab(n \<mapsto> RT_Object_Class_Event)) (snd (rt_event_init n flag k))"
    by (rule one [OF leaves_inits(2)]) (use ki e in \<open>simp_all add: rt_event_init_def i event_inv_def\<close>)
  show "sys_inv (tab(n \<mapsto> RT_Object_Class_MailBox)) (snd (rt_mb_init n pool sz flag k))"
    if "0 < sz" "sz < 2 ^ 16" "sz \<le> length pool"
  proof (rule both [OF leaves_inits(3)])
    have a: "ipc_object_init (SenderQ n) (upd_mb n f k) = upd_mb n f k" for f
      using e by (simp add: ipc_object_init_def fun_upd_idem)
    show "obj_inv RT_Object_Class_MailBox n (snd (rt_mb_init n pool sz flag k))"
      using ki that by (simp add: rt_mb_init_def i a mb_inv_def mb_ok_def)
  qed (simp_all add: has_senders_def)
  show "sys_inv (tab(n \<mapsto> RT_Object_Class_MessageQueue)) (snd (rt_mq_init n mem msz psz flag k))"
    if "psz \<le> length mem" "0 < msz" "msz \<le> 2 ^ 16 - 4" "psz div (RT_ALIGN msz 4 + 4) < 2 ^ 16"
  proof (rule both [OF leaves_inits(4)])
    show "obj_inv RT_Object_Class_MessageQueue n (snd (rt_mq_init n mem msz psz flag k))"
      by (rule rt_mq_init_ok [OF ki e that, of flag]) simp
  qed (simp_all add: has_senders_def)
qed

lemma mp_init_call:
  assumes inv: "sys_inv tab k" and n: "tab p = None" and sz: "0 < sz" "0 < bsz" "bsz \<le> 2 ^ 32 - 8" "start + sz < 2 ^ 32"
    and m: "0 < RT_ALIGN_DOWN sz 4 div (RT_ALIGN bsz 4 + 4)"
    and apart: "\<And>q. tab q = Some RT_Object_Class_MemPool \<Longrightarrow> mp_cells (mempools k q) \<inter> {start..<start + sz} = {}"
  shows "returns (tab(p \<mapsto> RT_Object_Class_MemPool)) (rt_mp_init p start sz bsz k)"
proof -
  have e: "lists k (SuspQ p) = []" using sys_invD(4) [OF inv n] by simp
  obtain k' where k': "rt_mp_init p start sz bsz k = Some (RT_EOK, k')" "mp_inv p k'"
    "mp_cells (mempools k' p) \<subseteq> {start..<start + sz}"
    by (rule rt_mp_init_ok [OF sz(1-3) sys_invD(1) [OF inv] e m sz(4)]) (rule that)
  have l: "leaves {SuspQ p} {} {start..<start + sz} k k'"
    by (rule leaves_mp_init [OF k'(1) leaves_refl _ sz(3,4) subset_refl m]) simp
  have "mp_cells (mempools k q) \<inter> ({start..<start + sz} \<union> mp_cells (mempools k' p)) = {}"
    if "tab q = Some RT_Object_Class_MemPool" for q
    using apart [OF that] k'(3) by blast
  then have "sys_inv (tab(p \<mapsto> RT_Object_Class_MemPool)) k'"
    by (intro sys_initial [OF inv n l]) (use k'(2) in simp_all)
  then show ?thesis by (rule returnsI [OF k'(1)])
qed

text \<open>Detaching an object ends every wait for it.\<close>

lemma detach_calls:
  assumes inv: "sys_inv tab k"
  shows "tab n = Some RT_Object_Class_Semaphore \<Longrightarrow> returns (tab(n := None)) (rt_sem_detach n k)"
    "tab n = Some RT_Object_Class_Mutex \<Longrightarrow> returns (tab(n := None)) (rt_mutex_detach n k)"
    "tab n = Some RT_Object_Class_Event \<Longrightarrow> returns (tab(n := None)) (rt_event_detach n k)"
    "tab n = Some RT_Object_Class_MemPool \<Longrightarrow> returns (tab(n := None)) (rt_mp_detach n k)"
    "returns (tab(n := None)) (rt_mb_detach n k)" "returns (tab(n := None)) (rt_mq_detach n k)"
proof -
  obtain k1 where k1: "ipc_list_resume_all (SuspQ n) k = Some k1" "kinv k1" "lists k1 (SuspQ n) = []"
    by (rule ipc_list_resume_all_ok [OF sys_invD(1) [OF inv] list_stat.simps(2)]) (rule that)
  obtain k2 where k2: "ipc_list_resume_all (SenderQ n) k1 = Some k2" "kinv k2" "lists k2 (SenderQ n) = []"
    "\<And>g. g \<noteq> SenderQ n \<Longrightarrow> \<not> is_ready g \<Longrightarrow> lists k2 g = lists k1 g"
    by (rule ipc_list_resume_all_ok [OF k1(2) list_stat.simps(3)]) (rule that)
  have l1: "leaves X T A k k1" for X T A by (rule leaves_resume_all [OF k1(1)]) simp
  have l2: "leaves X T A k k2" for X T A by (rule leaves_resume_all [OF k2(1) l1])
  have "sys_inv (tab(n := None)) k1" if "\<not> has_senders (tab n)"
  proof (rule sys_detached [OF inv l1 k1(2,3)])
    show "lists k1 (SenderQ n) = []"
      using sys_invD(6) [OF inv that] leavesD(8) [OF l1, of n "{}"] by auto
  qed
  then show "tab n = Some RT_Object_Class_Semaphore \<Longrightarrow> returns (tab(n := None)) (rt_sem_detach n k)"
    "tab n = Some RT_Object_Class_Mutex \<Longrightarrow> returns (tab(n := None)) (rt_mutex_detach n k)"
    "tab n = Some RT_Object_Class_Event \<Longrightarrow> returns (tab(n := None)) (rt_event_detach n k)"
    "tab n = Some RT_Object_Class_MemPool \<Longrightarrow> returns (tab(n := None)) (rt_mp_detach n k)"
    by (simp_all add: rt_sem_detach_def rt_mutex_detach_def rt_event_detach_def rt_mp_detach_def k1(1)
        has_senders_def returns_def)
  have "sys_inv (tab(n := None)) k2"
    by (rule sys_detached [OF inv l2 k2(2) _ k2(3)]) (use k2(4) k1(3) in simp)
  then show "returns (tab(n := None)) (rt_mb_detach n k)" "returns (tab(n := None)) (rt_mq_detach n k)"
    by (simp_all add: rt_mb_detach_def rt_mq_detach_def k1(1) k2(1) returns_def)
qed

text \<open>Calls that name no object.\<close>

lemma thread_calls:
  assumes inv: "sys_inv tab k"
  shows "caller_runs k \<Longrightarrow> n < TICK_HALF \<Longrightarrow> keeps tab (rt_thread_sleep n k)"
    "caller_runs k \<Longrightarrow> keeps tab (thread_exit k)"
    "keeps tab (rt_thread_yield k)"
    "th_stat (threads k t) = RT_THREAD_INIT \<Longrightarrow> p < 32 \<Longrightarrow> stack_fits a z \<Longrightarrow>
       returns tab (rt_thread_init t 0 0 0 a z p n k)"
    "startable k t \<Longrightarrow> returns tab (rt_thread_startup t k)"
    "p < 32 \<Longrightarrow> returns tab (rt_thread_control t (RT_THREAD_CTRL_CHANGE_PRIORITY p) k)"
    "keeps tab (rt_exit_critical k)" "sys_inv tab (snd (rt_thread_detach t k))"
proof -
  have ki: "kinv k" by (rule sys_invD(1) [OF inv])
  note I = kinvD [OF ki]
  have step: "kinv k' \<Longrightarrow> leaves {} {} {} k k' \<Longrightarrow> sys_inv tab k'" for k'
    by (rule sys_quiet [where T = "{}", OF inv]) simp_all
  show "caller_runs k \<Longrightarrow> n < TICK_HALF \<Longrightarrow> keeps tab (rt_thread_sleep n k)"
    by (elim caller_runsE, rule rt_thread_sleep_ok [OF ki]) (auto intro!: keepsI step elim!: leaves_calls)
  show "caller_runs k \<Longrightarrow> keeps tab (thread_exit k)"
    by (elim caller_runsE, rule thread_exit_ok [OF ki]) (auto intro!: keepsI step elim!: leaves_calls)
  show "keeps tab (rt_thread_yield k)"
    by (rule rt_thread_yield_ok [OF ki]) (auto intro!: keepsI step elim!: leaves_calls)
  show "returns tab (rt_thread_init t 0 0 0 a z p n k)"
    if c: "th_stat (threads k t) = RT_THREAD_INIT" "p < 32" "stack_fits a z"
  proof -
    have "kinv (fresh_thread t p n a z k)"
      using c fresh_thread_ok [OF I(2-4), of t p n a z] I(5) by (auto intro!: kinvI)
    then obtain r k' where k': "rt_thread_init t 0 0 0 a z p n k = Some (r, k')" "kinv k'"
      using c by (auto simp: thread_init_fresh)
    have "Thread_Timer t \<notin> set (timer_lists k HardTimers)"
      using timer_invD(7) [OF I(4), of t] c(1) by auto
    then have "leaves {} {t} {} k k'" by (intro leaves_thread_init [OF k'(1)]) simp_all
    moreover have "set (lists k (SuspQ m)) \<inter> {t} = {}" for m by (rule awake_waits_not [OF ki]) (simp add: c(1))
    ultimately show ?thesis by (intro returnsI [OF k'(1)] sys_quiet [OF inv _ k'(2)])
  qed
  show "startable k t \<Longrightarrow> returns tab (rt_thread_startup t k)"
    by (rule rt_thread_startup_ok [OF ki]) (auto intro!: returnsI step elim!: leaves_calls)
  show "p < 32 \<Longrightarrow> returns tab (rt_thread_control t (RT_THREAD_CTRL_CHANGE_PRIORITY p) k)"
    by (rule rt_thread_change_priority_ok [OF ki]) (auto intro!: returnsI step elim!: leaves_calls)
  show "sys_inv tab (snd (rt_thread_detach t k))"
    by (intro step rt_thread_detach_ok(2) [OF ki] leaves_thread_detach) simp
  have i0: "kinv (k\<lparr>lock_nest := 0\<rparr>)" using ki by simp
  obtain k0 where k0: "rt_schedule (k\<lparr>lock_nest := 0\<rparr>) = Some k0" "kinv k0"
    by (rule kinv_schedule [OF i0]) (rule that)
  have "\<exists>k'. rt_exit_critical k = Some k' \<and> kinv k'"
    using ki k0 I(5) by (cases "s16 (lock_nest k - 1) \<le> 0") (auto simp: rt_exit_critical_def Let_def)
  then show "keeps tab (rt_exit_critical k)" by (auto intro!: keepsI step elim!: leaves_calls)
qed

text \<open>A timer that is not running, or that keeps its function, may be set.\<close>

lemma kinv_set_user_timer:
  assumes inv: "kinv k" and s: "tm_activated (f (timers k (User_Timer n))) = tm_activated (timers k (User_Timer n))"
    "tm_activated (timers k (User_Timer n)) \<Longrightarrow> tm_soft (f (timers k (User_Timer n))) = tm_soft (timers k (User_Timer n))"
  shows "kinv (upd_timer (User_Timer n) f k)"
proof -
  note I = kinvD [OF inv]
  have "timer_inv (upd_timer (User_Timer n) f k)"
  proof (rule timer_invI)
    show "live (threads (upd_timer (User_Timer n) f k) m) \<Longrightarrow> thread_timer_ok (upd_timer (User_Timer n) f k) m" for m
      using timer_invD(6) [OF I(4), of m] by (simp add: thread_timer_ok_def)
    show "t \<in> set (timer_lists (upd_timer (User_Timer n) f k) HardLocal) \<union>
        set (timer_lists (upd_timer (User_Timer n) f k) SoftLocal) \<Longrightarrow> t \<in> {}" for t
      using timer_invD(5) [OF I(4), of t] by simp
    show "Thread_Timer m \<in> set (timer_lists (upd_timer (User_Timer n) f k) HardTimers) \<union>
        set (timer_lists (upd_timer (User_Timer n) f k) SoftTimers) \<Longrightarrow>
        th_stat (threads (upd_timer (User_Timer n) f k) m) = RT_THREAD_SUSPEND" for m
      using timer_invD(7) [OF I(4), of m] by simp
  qed (use timer_invD(1-4) [OF I(4)] s in \<open>auto split: if_splits\<close>)
  then show ?thesis using I stacks_ok_threads [OF I(3)] by (simp add: kinv_x_def sched_ok_def)
qed

lemma timer_calls:
  assumes inv: "sys_inv tab k"
  shows "returns tab (rt_timer_start (User_Timer n) k)" "sys_inv tab (snd (rt_timer_stop (User_Timer n) k))"
    "admissible (Sys_timer_init n f time flag) tab k \<Longrightarrow>
       keeps tab (rt_timer_init (User_Timer n) (Timer_Callback f) time flag k)"
    "admissible (Sys_timer_control n cmd) tab k \<Longrightarrow>
       keeps tab (map_option (snd \<circ> snd) (rt_timer_control (User_Timer n) cmd k))"
proof -
  have ki: "kinv k" by (rule sys_invD(1) [OF inv])
  have step: "kinv k' \<Longrightarrow> leaves {} {} {} k k' \<Longrightarrow> sys_inv tab k'" for k'
    by (rule sys_quiet [where T = "{}", OF inv]) simp_all
  show "returns tab (rt_timer_start (User_Timer n) k)"
    by (rule rt_timer_start_ok [OF ki, of "User_Timer n"]) (auto intro!: returnsI step elim!: leaves_calls)
  have "kinv (snd (rt_timer_stop (User_Timer n) k))"
    using ki kinv_detach [OF ki, of "User_Timer n"] by (simp add: rt_timer_stop_def rt_timer_detach_def)
  then show "sys_inv tab (snd (rt_timer_stop (User_Timer n) k))" by (rule step) (simp add: leaves_steps)
  show "keeps tab (rt_timer_init (User_Timer n) (Timer_Callback f) time flag k)"
    if a: "admissible (Sys_timer_init n f time flag) tab k"
  proof (rule keepsI)
    let ?f = "\<lambda>_. timer_init_fields (Timer_Callback f) time flag"
    show "rt_timer_init (User_Timer n) (Timer_Callback f) time flag k = Some (upd_timer (User_Timer n) ?f k)"
      using a by (simp add: rt_timer_init_def)
    have off: "User_Timer n \<notin> set (timer_lists k HardTimers)"
      using a timer_invD(2) [OF kinvD(4) [OF ki], of "User_Timer n"] by auto
    show "sys_inv tab (upd_timer (User_Timer n) ?f k)"
    proof (rule step)
      show "kinv (upd_timer (User_Timer n) ?f k)"
        by (rule kinv_set_user_timer [OF ki]) (use a in \<open>simp_all add: timer_init_fields_def\<close>)
      show "leaves {} {} {} k (upd_timer (User_Timer n) ?f k)"
        by (rule leaves_set_timer [OF leaves_refl], rule punctual_set)
          (use a off in \<open>simp_all add: timer_init_fields_def\<close>)
    qed
  qed
  show "keeps tab (map_option (snd \<circ> snd) (rt_timer_control (User_Timer n) cmd k))"
    if a: "admissible (Sys_timer_control n cmd) tab k"
  proof -
    let ?t = "User_Timer n" and ?k = "upd_timer (User_Timer n) (control_timer cmd) k"
    have c: "\<exists>r v. rt_timer_control ?t cmd k = Some (r, v, ?k)"
      using a by (cases cmd) (auto simp: rt_timer_control_def Let_def fun_upd_idem upd_timer_def)
    have same: "tm_activated (control_timer cmd m) = tm_activated m" "tm_soft (control_timer cmd m) = tm_soft m"
      "timeout_tick (control_timer cmd m) = timeout_tick m" for m
      by (cases cmd; simp)+
    have "kinv ?k" by (rule kinv_set_user_timer [OF ki]) (simp_all add: same)
    moreover have "leaves {} {} {} k ?k"
      by (rule leaves_set_timer [OF leaves_refl], rule punctual_set) (use a same in simp_all)
    ultimately show ?thesis using c step by (auto intro!: keepsI)
  qed
qed

text \<open>The tick.\<close>

lemma tick_call:
  assumes inv: "sys_inv tab k"
  shows "keeps tab (do_call Sys_tick k)"
proof -
  obtain k' where k': "do_call Sys_tick k = Some k'" "kinv k'"
    by (rule rt_tick_increase_ok [OF sys_invD(1,7) [OF inv] lessI]) simp
  have "leaves {} {} {} k k'" using leaves_tick [OF _ sys_invD(1) [OF inv]] k'(1) by simp
  then have "sys_inv tab k'" by (rule sys_quiet [where T = "{}", OF inv _ k'(2)]) simp
  then show ?thesis by (rule keepsI [OF k'(1)])
qed

lemma context_calls:
  assumes inv: "sys_inv tab k"
  shows "sys_inv tab (rt_enter_critical k)" "sys_inv tab (rt_interrupt_enter k)" "sys_inv tab (rt_interrupt_leave k)"
proof -
  have step: "kinv k' \<Longrightarrow> leaves {} {} {} k k' \<Longrightarrow> sys_inv tab k'" for k'
    by (rule sys_quiet [where T = "{}", OF inv]) simp_all
  show "sys_inv tab (rt_enter_critical k)" "sys_inv tab (rt_interrupt_enter k)" "sys_inv tab (rt_interrupt_leave k)"
    using sys_invD(1) [OF inv]
    by (auto intro!: step leaves_critical simp: rt_enter_critical_def rt_interrupt_enter_def rt_interrupt_leave_def)
qed

lemmas call_cases =
  sem_calls mutex_calls event_calls mailbox_calls mq_calls mp_calls init_calls mp_init_call detach_calls
  thread_calls timer_calls(1,2) context_calls

theorem call_returns:
  assumes inv: "sys_inv tab k" and adm: "admissible c tab k"
  shows "keeps (retable c tab) (do_call c k)"
proof (cases c)
  case Sys_tick
  then show ?thesis using tick_call [OF inv] by simp
next
  case (Sys_timer_init n f time flag)
  then show ?thesis using adm timer_calls(3) [OF inv] by simp
next
  case (Sys_timer_control n cmd)
  then show ?thesis using adm timer_calls(4) [OF inv] by simp
next
  case (Sys_mp_free p a)
  then show ?thesis using adm mp_calls(2) [OF inv, of p a] by simp
next
  case (Sys_mp_init p start sz bsz)
  then show ?thesis using adm mp_init_call [OF inv, of p sz bsz start] by simp
qed (use adm in \<open>simp_all add: call_cases inv\<close>)

theorem call_keeps:
  assumes inv: "sys_inv tab k" and adm: "admissible c tab k" and call: "do_call c k = Some k'"
  shows "sys_inv (retable c tab) k'"
  using call_returns [OF inv adm] call by (simp add: keeps_def)

theorem runs_keep:
  assumes "runs k0 cs tab k" "sys_inv (\<lambda>_. None) k0"
  shows "sys_inv tab k"
  using assms by induction (auto intro: call_keeps)

text \<open>The boot sequence leaves a state that uses no object.\<close>

lemma booted_empty:
  assumes im: "image_ok im" and k0: "rtthread_startup im (reset_kernel im) = Some k0"
  shows "sys_inv (\<lambda>_. None) k0"
proof (rule rtthread_startup_ok [OF im])
  fix k
  assume k: "rtthread_startup im (reset_kernel im) = Some k" "kinv k" "same_objects (before_threads im) k"
  have "lists k (SuspQ n) = []" "lists k (SenderQ n) = []" for n
    using k(3) by (simp_all add: same_objects_def before_threads_def heap_lock_init_def rt_mutex_init_def
        ipc_object_init_def upd_mutex_def reset_kernel_def rt_system_timer_init_def rt_system_scheduler_init_def)
  moreover have "punctual k" using k(3) before_threads_booting(2) [of im] by (simp add: same_objects_def)
  ultimately show ?thesis using k k0 by (simp add: sys_inv_def slot_inv_def pools_apart_def)
qed

end
