(* ===== verification/Ticking.thy ===== *)
theory Ticking
  imports System
begin

text \<open>
  Time in the reachable states. A tick returns in each of them and wakes exactly the threads whose
  timers are due at it, so a thread that sleeps \<open>n\<close> ticks sleeps through \<open>n - 1\<close> of them and is awake
  after the next. The order of the timer list and the limits of the timers are not hypotheses here: every
  run keeps them (\<open>sys_inv\<close>).
\<close>

text \<open>The ticks a timer still has to run.\<close>

definition ticks_left :: "timer_id \<Rightarrow> kernel \<Rightarrow> nat" where
  "ticks_left t k = unat (timeout_tick (timers k t) - rt_tick k)"

text \<open>\<open>n\<close> tick interrupts in a row.\<close>

primrec ticks :: "nat \<Rightarrow> kernel \<Rightarrow> kernel option" where
  "ticks 0 k = Some k"
| "ticks (Suc n) k = do { k \<leftarrow> do_call Sys_tick k; ticks n k }"

lemma linked_left:
  assumes "punctual k" "t \<in> set (timer_lists k HardTimers)"
  shows "timeout_tick (timers k t) - rt_tick k < TICK_HALF"
  using assms by (auto simp: punctual_def ordered_from_def)

text \<open>A linked timer is expired at the next tick when at most one tick is left.\<close>

lemma expired_next:
  assumes p: "punctual k"
  shows "t \<in> set (expired_timers (k\<lparr>rt_tick := rt_tick k + 1\<rparr>)) \<longleftrightarrow>
    t \<in> set (timer_lists k HardTimers) \<and> ticks_left t k \<le> 1"
  using due_next [OF linked_left [OF p]] by (auto simp: expired_timers_def timer_expired_def ticks_left_def)

lemma left_next:
  assumes p: "punctual k" and t: "t \<in> set (timer_lists k HardTimers)" "1 < ticks_left t k"
    and k': "timers k' t = timers k t" "rt_tick k' = rt_tick k + 1"
  shows "ticks_left t k' = ticks_left t k - 1"
  using not_due_later(1) [OF linked_left [OF p t(1)]] due_next [OF linked_left [OF p t(1)]] t(2)
  by (simp add: ticks_left_def k')

theorem tick_ok:
  assumes inv: "kinv k" and p: "punctual k"
  obtains k' where "do_call Sys_tick k = Some k'" "kinv k'" "punctual k'" "rt_tick k' = rt_tick k + 1"
    "\<And>t. Thread_Timer t \<in> set (timer_lists k HardTimers) \<Longrightarrow> ticks_left (Thread_Timer t) k \<le> 1 \<Longrightarrow>
       th_stat (threads k' t) \<in> {RT_THREAD_READY, RT_THREAD_RUNNING} \<and> th_error (threads k' t) = - RT_ETIMEOUT"
    "\<And>t. Thread_Timer t \<in> set (timer_lists k HardTimers) \<Longrightarrow> 1 < ticks_left (Thread_Timer t) k \<Longrightarrow>
       Thread_Timer t \<in> set (timer_lists k' HardTimers) \<and>
       ticks_left (Thread_Timer t) k' = ticks_left (Thread_Timer t) k - 1 \<and>
       th_stat (threads k' t) = RT_THREAD_SUSPEND \<and> th_error (threads k' t) = th_error (threads k t)"
    "\<And>t. Thread_Timer t \<notin> set (timer_lists k HardTimers) \<Longrightarrow> th_error (threads k' t) = th_error (threads k t) \<and>
       (th_stat (threads k' t) = RT_THREAD_SUSPEND \<longleftrightarrow> th_stat (threads k t) = RT_THREAD_SUSPEND)"
proof -
  obtain k' where k': "rt_tick_increase app_callback (Suc (length (timer_lists k HardTimers))) k = Some k'"
    "kinv k'" "punctual k'" "rt_tick k' = rt_tick k + 1" and
    woken: "\<And>n. Thread_Timer n \<in> set (expired_timers (k\<lparr>rt_tick := rt_tick k + 1\<rparr>)) \<Longrightarrow>
       th_error (threads k' n) = - RT_ETIMEOUT \<and> th_stat (threads k' n) \<in> {RT_THREAD_READY, RT_THREAD_RUNNING}" and
    others: "\<And>n. Thread_Timer n \<notin> set (expired_timers (k\<lparr>rt_tick := rt_tick k + 1\<rparr>)) \<Longrightarrow>
       th_error (threads k' n) = th_error (threads k n) \<and>
       (th_stat (threads k' n) = RT_THREAD_SUSPEND \<longleftrightarrow> th_stat (threads k n) = RT_THREAD_SUSPEND)" and
    kept: "\<And>s. s \<in> set (timer_lists k HardTimers) \<Longrightarrow> s \<notin> set (expired_timers (k\<lparr>rt_tick := rt_tick k + 1\<rparr>)) \<Longrightarrow>
       s \<in> set (timer_lists k' HardTimers) \<and> timers k' s = timers k s"
    by (rule rt_tick_increase_ok [OF inv p lessI]) (rule that)
  show thesis
  proof (rule that [OF _ k'(2-4)])
    show "do_call Sys_tick k = Some k'" using k'(1) by simp
    fix t
    show "th_stat (threads k' t) \<in> {RT_THREAD_READY, RT_THREAD_RUNNING} \<and> th_error (threads k' t) = - RT_ETIMEOUT"
      if "Thread_Timer t \<in> set (timer_lists k HardTimers)" "ticks_left (Thread_Timer t) k \<le> 1"
      using woken [of t] that expired_next [OF p] by blast
    show "th_error (threads k' t) = th_error (threads k t) \<and>
       (th_stat (threads k' t) = RT_THREAD_SUSPEND \<longleftrightarrow> th_stat (threads k t) = RT_THREAD_SUSPEND)"
      if "Thread_Timer t \<notin> set (timer_lists k HardTimers)"
      using others [of t] that expired_next [OF p] by blast
    assume t: "Thread_Timer t \<in> set (timer_lists k HardTimers)" "1 < ticks_left (Thread_Timer t) k"
    then have n: "Thread_Timer t \<notin> set (expired_timers (k\<lparr>rt_tick := rt_tick k + 1\<rparr>))"
      unfolding expired_next [OF p] by simp
    have "th_stat (threads k t) = RT_THREAD_SUSPEND" using timer_invD(7) [OF kinvD(4) [OF inv]] t(1) by blast
    then show "Thread_Timer t \<in> set (timer_lists k' HardTimers) \<and>
       ticks_left (Thread_Timer t) k' = ticks_left (Thread_Timer t) k - 1 \<and>
       th_stat (threads k' t) = RT_THREAD_SUSPEND \<and> th_error (threads k' t) = th_error (threads k t)"
      using kept [OF t(1) n] others [OF n] left_next [OF p t _ k'(4)] by blast
  qed
qed

text \<open>A thread whose timer has \<open>n\<close> ticks left sleeps through the first \<open>n - 1\<close> of them, and the last wakes it.\<close>

lemma ticks_wake:
  assumes "kinv k" "punctual k" "Thread_Timer t \<in> set (timer_lists k HardTimers)"
    "0 < ticks_left (Thread_Timer t) k"
  shows "(\<forall>i < ticks_left (Thread_Timer t) k. \<exists>ki. ticks i k = Some ki \<and> th_stat (threads ki t) = RT_THREAD_SUSPEND) \<and>
    (\<exists>kn. ticks (ticks_left (Thread_Timer t) k) k = Some kn \<and> kinv kn \<and>
       th_stat (threads kn t) \<in> {RT_THREAD_READY, RT_THREAD_RUNNING} \<and> th_error (threads kn t) = - RT_ETIMEOUT)"
  using assms
proof (induction "ticks_left (Thread_Timer t) k" arbitrary: k)
  case 0
  then show ?case by simp
next
  case (Suc n)
  note left = Suc.hyps(2) [symmetric]
  have sus: "th_stat (threads k t) = RT_THREAD_SUSPEND"
    using timer_invD(7) [OF kinvD(4) [OF Suc.prems(1)]] Suc.prems(3) by blast
  obtain k' where k': "do_call Sys_tick k = Some k'" "kinv k'" "punctual k'" and
    due: "Suc n \<le> 1 \<Longrightarrow> th_stat (threads k' t) \<in> {RT_THREAD_READY, RT_THREAD_RUNNING} \<and>
       th_error (threads k' t) = - RT_ETIMEOUT" and
    later: "1 < Suc n \<Longrightarrow> Thread_Timer t \<in> set (timer_lists k' HardTimers) \<and> ticks_left (Thread_Timer t) k' = n"
    using tick_ok [OF Suc.prems(1,2)] Suc.prems(3) left by (metis diff_Suc_1)
  show ?case
  proof (cases "n = 0")
    case True
    then show ?thesis unfolding left using due k'(1,2) sus by simp
  next
    case False
    then have l: "Thread_Timer t \<in> set (timer_lists k' HardTimers)" "n = ticks_left (Thread_Timer t) k'"
      using later by simp_all
    have IH: "(\<forall>i < n. \<exists>ki. ticks i k' = Some ki \<and> th_stat (threads ki t) = RT_THREAD_SUSPEND) \<and>
      (\<exists>kn. ticks n k' = Some kn \<and> kinv kn \<and>
         th_stat (threads kn t) \<in> {RT_THREAD_READY, RT_THREAD_RUNNING} \<and> th_error (threads kn t) = - RT_ETIMEOUT)"
      using Suc.hyps(1) [OF l(2) k'(2,3) l(1)] False l(2) by simp
    have "\<exists>ki. ticks i k = Some ki \<and> th_stat (threads ki t) = RT_THREAD_SUSPEND" if "i < Suc n" for i
    proof (cases i)
      case (Suc j)
      then show ?thesis using IH that k'(1) by simp
    qed (simp add: sus)
    then show ?thesis unfolding left using IH k'(1) by simp
  qed
qed

text \<open>In a reachable state.\<close>

lemma reachable_on_time:
  assumes "image_ok im" "rtthread_startup im (reset_kernel im) = Some k0" "runs k0 cs tab k"
  shows "kinv k" "punctual k"
  using sys_invD(1,7) [OF runs_keep [OF assms(3) booted_empty [OF assms(1,2)]]] by simp_all

lemma sleep_then_ticks:
  assumes inv: "kinv k" and p: "punctual k" and run: "caller_runs k" and c: "current_thread k = Some t"
    and n: "0 < n" "n < TICK_HALF"
  shows "\<exists>k1. do_call (Sys_sleep n) k = Some k1 \<and>
    (\<forall>i < unat n. \<exists>ki. ticks i k1 = Some ki \<and> th_stat (threads ki t) = RT_THREAD_SUSPEND) \<and>
    (\<exists>kn. ticks (unat n) k1 = Some kn \<and> kinv kn \<and>
       th_stat (threads kn t) \<in> {RT_THREAD_READY, RT_THREAD_RUNNING} \<and> th_error (threads kn t) = - RT_ETIMEOUT)"
proof -
  have r: "th_stat (threads k t) = RT_THREAD_RUNNING" using caller_runsE [OF run] c by auto
  obtain k1 where k1: "rt_thread_sleep n k = Some k1" "kinv k1"
    "Thread_Timer t \<in> set (timer_lists k1 HardTimers)"
    "timeout_tick (timers k1 (Thread_Timer t)) = rt_tick k + n" "rt_tick k1 = rt_tick k"
    by (rule rt_thread_sleep_ok [OF inv c r n(2)]) (rule that)
  have "punctual k1" using leavesD(12) [OF leaves_thread_sleep [OF k1(1) leaves_refl] p] .
  moreover have l: "ticks_left (Thread_Timer t) k1 = unat n" by (simp add: ticks_left_def k1(4,5))
  moreover have "0 < unat n" using n(1) by (simp add: word_less_nat_alt)
  ultimately show ?thesis using ticks_wake [OF k1(2) _ k1(3)] k1(1) by (simp only: l) simp
qed

end
