(* ===== verification/Rover.thy ===== *)
theory Rover
  imports Complex_Main Ipc_Sem "HOL-Library.Log_Nat"
begin

text \<open>
  The rover's own threads, in \<open>applications/\<close>: the command decoder of \<open>commu.c\<close>, the beacon of
  \<open>infrared.c\<close>, the speed conversion of \<open>motor.c\<close>, the range report of \<open>sr04.c\<close> and the pulse filter
  of \<open>encoder.c\<close>. The globals of these files are one record around the kernel state; each
  function is one turn of the loop of its thread, or the callback it registers. What the device
  framework delivers (a byte, a count, a sample) is an argument; what a thread writes to a
  device is returned.
\<close>

subsection \<open>State\<close>

record rover =
  kern :: kernel
  sem_decoder :: nat
  sem_motorctrl :: nat
  sem_infrared :: nat
  RecCmd_Step :: nat
  rx_index :: nat
  Rx_buffer :: "byte list"
  sp_data :: "byte list"
  stop_flag :: byte
  revc_data :: byte
  distance :: "16 word"
  send_data :: byte
  pulse2 :: nat
  pulse3 :: nat

definition with_kernel :: "(kernel \<Rightarrow> ('a \<times> kernel) option) \<Rightarrow> rover \<Rightarrow> ('a \<times> rover) option" where
  "with_kernel f r = do { (a, k) \<leftarrow> f (kern r); Some (a, r\<lparr>kern := k\<rparr>) }"

subsection \<open>The command decoder\<close>

definition rx_callback :: "rover \<Rightarrow> (int \<times> rover) option" where
  "rx_callback r = do {
     (_, r) \<leftarrow> with_kernel (rt_sem_release (sem_decoder r)) r;
     Some (RT_EOK, r) }"

text \<open>The \<open>switch\<close> on \<open>RecCmd_Step\<close>, for one received byte.\<close>

definition commu_decoder_byte :: "byte \<Rightarrow> rover \<Rightarrow> rover option" where
  "commu_decoder_byte b r =
     (if RecCmd_Step r = 0 then Some (if b = 0xAA then r\<lparr>RecCmd_Step := 1\<rparr> else r)
      else if RecCmd_Step r = 1 then
        if b = 0x55 then Some (r\<lparr>RecCmd_Step := 2\<rparr>)
        else if b = 0x01 then do {
          (_, r) \<leftarrow> with_kernel (rt_sem_release (sem_infrared r)) r;
          Some (r\<lparr>stop_flag := 1, RecCmd_Step := 0\<rparr>) }
        else Some (r\<lparr>RecCmd_Step := 0\<rparr>)
      else if RecCmd_Step r = 2 then do {
        _ \<leftarrow> rt_assert (rx_index r < length (Rx_buffer r));
        let r = r\<lparr>Rx_buffer := (Rx_buffer r)[rx_index r := b]\<rparr>;
        let r = r\<lparr>rx_index := (rx_index r + 1) mod 2 ^ 8\<rparr>;
        if rx_index r = 4 then do {
          xs \<leftarrow> mem_read (Rx_buffer r) 0 4;
          sp \<leftarrow> mem_write (sp_data r) 0 xs;
          (_, r) \<leftarrow> with_kernel (rt_sem_release (sem_motorctrl r)) (r\<lparr>sp_data := sp\<rparr>);
          Some (r\<lparr>RecCmd_Step := 0, rx_index := 0\<rparr>)
        } else Some r
      } else Some r)"

text \<open>A turn of the thread: a byte when the device has one, else a wait for the callback.\<close>

definition commu_decoder_th :: "byte option \<Rightarrow> rover \<Rightarrow> (int ret \<times> rover) option" where
  "commu_decoder_th rd r =
     (case rd of
        Some b \<Rightarrow> map_option (Pair (Ret RT_EOK)) (commu_decoder_byte b r)
      | None \<Rightarrow> with_kernel (rt_sem_take (sem_decoder r) RT_WAITING_FOREVER) r)"

fun commu_decoder_bytes :: "byte list \<Rightarrow> rover \<Rightarrow> rover option" where
  "commu_decoder_bytes [] r = Some r"
| "commu_decoder_bytes (b # bs) r = do { r \<leftarrow> commu_decoder_byte b r; commu_decoder_bytes bs r }"

subsection \<open>The infrared beacon\<close>

definition infrared_rx_callback :: "byte option \<Rightarrow> rover \<Rightarrow> int \<times> rover" where
  "infrared_rx_callback rd r =
     (let r = (case rd of Some b \<Rightarrow> r\<lparr>revc_data := b\<rparr> | None \<Rightarrow> r);
          r = (if revc_data r = 0x22 then r\<lparr>stop_flag := 0\<rparr> else r)
      in (RT_EOK, r))"

definition send_code :: "byte list" where
  "send_code = [0xfa, 0xf1, 0x22, 0x33, 0x44]"

text \<open>The thread first waits for the decoder to meet a stop command.\<close>

definition infrared_th_wait :: "rover \<Rightarrow> (int ret \<times> rover) option" where
  "infrared_th_wait r = with_kernel (rt_sem_take (sem_infrared r) RT_WAITING_FOREVER) r"

text \<open>A turn of the loop: with the flag up the code is sent and the thread sleeps, else it spins.\<close>

definition infrared_th :: "rover \<Rightarrow> (byte list \<times> rover) option" where
  "infrared_th r =
     (if stop_flag r \<noteq> 0 then do {
        k \<leftarrow> rt_thread_mdelay 5000 (kern r);
        Some (send_code, r\<lparr>kern := k\<rparr>) }
      else Some ([], r))"

subsection \<open>The range report\<close>

definition sr04_th :: "u32 \<Rightarrow> rover \<Rightarrow> (byte list \<times> rover) option" where
  "sr04_th proximity r = do {
     let r = r\<lparr>distance := ucast proximity\<rparr>;
     let r = r\<lparr>send_data := ucast (distance r div 10)\<rparr>;
     let out = (if stop_flag r \<noteq> 0 then [0] else [send_data r]);
     k \<leftarrow> rt_thread_mdelay 100 (kern r);
     Some (out, r\<lparr>kern := k\<rparr>) }"

subsection \<open>Floating point\<close>

text \<open>
  A non-negative value rounded to \<open>p\<close> binary digits, to nearest, ties to even: \<open>p = 24\<close> for
  \<open>float\<close> and \<open>p = 53\<close> for \<open>double\<close>. \<open>bin_exp\<close> is the exponent of the first digit, for values of at least
  \<open>2 ^ -64\<close>; the values here are 0 or at least 1/100 and below \<open>2 ^ 22\<close>, far from
  the ends of both formats.
\<close>

definition bin_exp :: "rat \<Rightarrow> int" where
  "bin_exp x = int (floorlog 2 (nat \<lfloor>x * 2 ^ 64\<rfloor>)) - 65"

definition round_half_even :: "rat \<Rightarrow> int" where
  "round_half_even q =
     (let f = \<lfloor>q\<rfloor>; d = q - of_int f
      in if d < 1 / 2 \<or> (d = 1 / 2 \<and> even f) then f else f + 1)"

definition pow2 :: "int \<Rightarrow> rat" where
  "pow2 e = (if e \<ge> 0 then 2 ^ nat e else 1 / 2 ^ nat (- e))"

definition round_sig :: "nat \<Rightarrow> rat \<Rightarrow> rat" where
  "round_sig p x =
     (if x = 0 then 0
      else let u = pow2 (bin_exp x - (int p - 1)) in of_int (round_half_even (x / u)) * u)"

abbreviation to_float :: "rat \<Rightarrow> rat" where "to_float \<equiv> round_sig 24"
abbreviation to_double :: "rat \<Rightarrow> rat" where "to_double \<equiv> round_sig 53"

subsection \<open>The motor thread\<close>

definition motor_speed :: "byte \<Rightarrow> byte \<Rightarrow> rat" where
  "motor_speed a b =
     to_float (to_double (of_nat (unat a) + to_double (of_nat (unat b) / 100)))"

definition motor_pulse :: "byte \<Rightarrow> byte \<Rightarrow> nat" where
  "motor_pulse a b = nat \<lfloor>to_float (motor_speed a b * 10000)\<rfloor>"

text \<open>The four channels as \<open>rt_pwm_set\<close> gets them: channel, period and pulse in nanoseconds.\<close>

definition motor_outputs :: "rover \<Rightarrow> (nat \<times> nat \<times> nat) list" where
  "motor_outputs r = [(1, 1000000, 0), (2, 1000000, pulse2 r), (3, 1000000, pulse3 r), (4, 1000000, 0)]"

text \<open>A turn of the loop up to the wait for the decoder, and what follows it.\<close>

definition motor_ctrl_th :: "rover \<Rightarrow> ((nat \<times> nat \<times> nat) list \<times> int ret \<times> rover) option" where
  "motor_ctrl_th r = do {
     (res, r') \<leftarrow> with_kernel (rt_sem_take (sem_motorctrl r) RT_WAITING_FOREVER) r;
     Some (motor_outputs r, res, r') }"

definition motor_ctrl_resume :: "rover \<Rightarrow> rover option" where
  "motor_ctrl_resume r = do {
     _ \<leftarrow> rt_assert (4 \<le> length (sp_data r));
     Some (r\<lparr>pulse2 := motor_pulse (sp_data r ! 2) (sp_data r ! 3),
             pulse3 := motor_pulse (sp_data r ! 0) (sp_data r ! 1)\<rparr>) }"

subsection \<open>The encoder\<close>

definition encoder_count_ok :: "int \<Rightarrow> bool" where
  "encoder_count_ok c \<longleftrightarrow> \<not> (c \<le> - 1040 div 2 \<or> c \<ge> 1040 div 2)"

text \<open>
  The turn of \<open>encoder_th\<close> on the counts of the two wheels, after its sleep: what is printed, if
  both counts are plausible. The speeds it computes go nowhere.
\<close>

definition encoder_th :: "int \<Rightarrow> int \<Rightarrow> (int \<times> int) option" where
  "encoder_th count_l count_r =
     (if \<not> encoder_count_ok count_l then None
      else if \<not> encoder_count_ok count_r then None
      else Some (count_l, count_r))"

subsection \<open>The language of the decoder\<close>

datatype command = Stop | Speed "byte list"

text \<open>
  The commands in a byte stream: \<open>AA 01\<close> is a stop, \<open>AA 55\<close> and four bytes set the speed. A byte
  that opens no command is skipped, and so are \<open>AA\<close> and a byte after it that fits neither form.
\<close>

fun decode :: "byte list \<Rightarrow> command list" where
  "decode [] = []"
| "decode (b # bs) =
     (if b \<noteq> 0xAA then decode bs
      else case bs of
        [] \<Rightarrow> []
      | c # cs \<Rightarrow>
          if c = 0x55 then (if length cs < 4 then [] else Speed (take 4 cs) # decode (drop 4 cs))
          else if c = 0x01 then Stop # decode cs
          else decode cs)"

text \<open>What the other threads see of the decoder, and what a command does to it.\<close>

record view =
  v_speed :: "byte list"
  v_stop :: byte
  v_motor :: counting
  v_infrared :: counting

definition rover_view :: "rover \<Rightarrow> view" where
  "rover_view r = \<lparr>v_speed = sp_data r, v_stop = stop_flag r,
     v_motor = sem_abs (sem_motorctrl r) (kern r), v_infrared = sem_abs (sem_infrared r) (kern r)\<rparr>"

fun obey :: "command \<Rightarrow> view \<Rightarrow> view" where
  "obey Stop v = v\<lparr>v_stop := 1, v_infrared := snd (spec_release (v_infrared v))\<rparr>"
| "obey (Speed xs) v = v\<lparr>v_speed := xs, v_motor := snd (spec_release (v_motor v))\<rparr>"

definition decoder_ok :: "rover \<Rightarrow> bool" where
  "decoder_ok r \<longleftrightarrow> RecCmd_Step r \<le> 2 \<and> rx_index r < 4 \<and> (RecCmd_Step r \<noteq> 2 \<longrightarrow> rx_index r = 0) \<and>
     length (Rx_buffer r) = 4 \<and> length (sp_data r) = 4 \<and> sem_motorctrl r \<noteq> sem_infrared r \<and>
     sem_inv (sem_motorctrl r) (kern r) \<and> sem_inv (sem_infrared r) (kern r)"

text \<open>The bytes of a command that has begun.\<close>

definition pending :: "rover \<Rightarrow> byte list" where
  "pending r = (if RecCmd_Step r = 0 then [] else if RecCmd_Step r = 1 then [0xAA]
     else 0xAA # 0x55 # take (rx_index r) (Rx_buffer r))"

lemma with_kernel_release:
  assumes "sem_inv s (kern r)"
  obtains a k' where "with_kernel (rt_sem_release s) r = Some (a, r\<lparr>kern := k'\<rparr>)"
    "sem_abs s k' = snd (spec_release (sem_abs s (kern r)))"
    "\<And>s'. s' \<noteq> s \<Longrightarrow> sem_abs s' k' = sem_abs s' (kern r)"
    "\<And>s'. sem_inv s' (kern r) \<Longrightarrow> sem_inv s' k'"
proof -
  obtain a k' where k': "rt_sem_release s (kern r) = Some (a, k')" "sem_inv s k'"
    "(a, sem_abs s k') = spec_release (sem_abs s (kern r))"
    "\<And>s'. s' \<noteq> s \<Longrightarrow> sem_abs s' k' = sem_abs s' (kern r)"
    by (rule rt_sem_release_refines [OF assms]) (rule that)
  show thesis
  proof (rule that)
    show "with_kernel (rt_sem_release s) r = Some (a, r\<lparr>kern := k'\<rparr>)" using k'(1) by (simp add: with_kernel_def)
    show "sem_abs s k' = snd (spec_release (sem_abs s (kern r)))" using k'(3) by (metis snd_conv)
    show "sem_inv s' k'" if "sem_inv s' (kern r)" for s'
      using that k'(2,4) by (cases "s' = s") (auto simp: sem_inv_def)
  qed (use k' in simp_all)
qed

text \<open>One byte: a command is obeyed when its last byte arrives, else it stays pending.\<close>

lemma commu_decoder_byte_step:
  assumes ok: "decoder_ok r"
  obtains r' cs where "commu_decoder_byte b r = Some r'" "decoder_ok r'"
    "rover_view r' = fold obey cs (rover_view r)"
    "\<And>bs. decode (pending r @ b # bs) = cs @ decode (pending r' @ bs)"
proof -
  note O = ok [unfolded decoder_ok_def]
  consider (idle) "RecCmd_Step r = 0" | (head) "RecCmd_Step r = 1" | (body) "RecCmd_Step r = 2"
    using O by linarith
  then show thesis
  proof cases
    case idle
    show thesis
      by (rule that [of "if b = 0xAA then r\<lparr>RecCmd_Step := 1\<rparr> else r" "[]"])
        (use idle O in \<open>auto simp: commu_decoder_byte_def decoder_ok_def rover_view_def pending_def\<close>)
  next
    case head
    show thesis
    proof (cases "b = 0x01")
      case False
      show thesis
        by (rule that [of "r\<lparr>RecCmd_Step := if b = 0x55 then 2 else 0\<rparr>" "[]"])
          (use head False O in \<open>auto simp: commu_decoder_byte_def decoder_ok_def rover_view_def pending_def\<close>)
    next
      case True
      have inv: "sem_inv (sem_infrared r) (kern r)" using O by blast
      obtain a k' where k': "with_kernel (rt_sem_release (sem_infrared r)) r = Some (a, r\<lparr>kern := k'\<rparr>)"
        "sem_abs (sem_infrared r) k' = snd (spec_release (sem_abs (sem_infrared r) (kern r)))"
        "\<And>s'. s' \<noteq> sem_infrared r \<Longrightarrow> sem_abs s' k' = sem_abs s' (kern r)"
        "\<And>s'. sem_inv s' (kern r) \<Longrightarrow> sem_inv s' k'"
        by (rule with_kernel_release [OF inv]) (rule that)
      show thesis
        by (rule that [of "r\<lparr>kern := k', stop_flag := 1, RecCmd_Step := 0\<rparr>" "[Stop]"])
          (use head True O k' in \<open>simp_all add: commu_decoder_byte_def decoder_ok_def rover_view_def pending_def\<close>)
    qed
  next
    case body
    let ?i = "rx_index r" and ?buf = "(Rx_buffer r)[rx_index r := b]"
    have i: "?i < length (Rx_buffer r)" "length ?buf = 4" using O by simp_all
    have pre: "take (Suc ?i) ?buf = take ?i (Rx_buffer r) @ [b]"
      using i(1) by (simp add: take_Suc_conv_app_nth)
    show thesis
    proof (cases "?i = 3")
      case False
      then have i4: "Suc ?i < 4" using O by linarith
      show thesis
        by (rule that [of "r\<lparr>Rx_buffer := ?buf, rx_index := Suc ?i\<rparr>" "[]"])
          (use body False O i i4 pre in
            \<open>simp_all add: commu_decoder_byte_def decoder_ok_def rover_view_def pending_def\<close>)
    next
      case True
      let ?r = "r\<lparr>Rx_buffer := ?buf, rx_index := 4, sp_data := ?buf\<rparr>"
      have all: "?buf = take 3 (Rx_buffer r) @ [b]" using pre i True by simp
      have inv: "sem_inv (sem_motorctrl r) (kern ?r)" using O by simp
      obtain a k' where k': "with_kernel (rt_sem_release (sem_motorctrl r)) ?r = Some (a, ?r\<lparr>kern := k'\<rparr>)"
        "sem_abs (sem_motorctrl r) k' = snd (spec_release (sem_abs (sem_motorctrl r) (kern ?r)))"
        "\<And>s'. s' \<noteq> sem_motorctrl r \<Longrightarrow> sem_abs s' k' = sem_abs s' (kern ?r)"
        "\<And>s'. sem_inv s' (kern ?r) \<Longrightarrow> sem_inv s' k'"
        by (rule with_kernel_release [OF inv]) (rule that)
      show thesis
      proof (rule that [of "?r\<lparr>kern := k', RecCmd_Step := 0, rx_index := 0\<rparr>" "[Speed ?buf]"])
        show "commu_decoder_byte b r = Some (?r\<lparr>kern := k', RecCmd_Step := 0, rx_index := 0\<rparr>)"
          using body True O i k'(1) by (simp add: commu_decoder_byte_def)
        show "decode (pending r @ b # bs) =
            [Speed ?buf] @ decode (pending (?r\<lparr>kern := k', RecCmd_Step := 0, rx_index := 0\<rparr>) @ bs)" for bs
          using body True O i(2) unfolding all by (simp add: pending_def)
      qed (use body O i k' in \<open>simp_all add: decoder_ok_def rover_view_def\<close>)
    qed
  qed
qed

lemma decode_pending: "decoder_ok r \<Longrightarrow> decode (pending r) = []"
  by (auto simp: pending_def decoder_ok_def)

theorem commu_decoder_bytes_obey:
  assumes "decoder_ok r"
  shows "\<exists>r'. commu_decoder_bytes bs r = Some r' \<and> decoder_ok r' \<and>
    rover_view r' = fold obey (decode (pending r @ bs)) (rover_view r)"
  using assms
proof (induction bs arbitrary: r)
  case Nil
  then show ?case by (simp add: decode_pending)
next
  case (Cons b bs)
  obtain r1 cs where r1: "commu_decoder_byte b r = Some r1" "decoder_ok r1"
    "rover_view r1 = fold obey cs (rover_view r)"
    "\<And>bs. decode (pending r @ b # bs) = cs @ decode (pending r1 @ bs)"
    by (rule commu_decoder_byte_step [OF Cons.prems, of b]) (rule that)
  from Cons.IH [OF r1(2)] r1 show ?case by auto
qed

subsection \<open>Rounding\<close>

lemma pow2_diff: "pow2 (int a - int b) = 2 ^ a / 2 ^ b"
proof (cases "b \<le> a")
  case True
  then have "(2::rat) ^ a = 2 ^ (a - b) * 2 ^ b" by (simp flip: power_add)
  then show ?thesis using True by (simp add: pow2_def nat_diff_distrib flip: of_nat_diff)
next
  case False
  then have "(2::rat) ^ b = 2 ^ (b - a) * 2 ^ a" by (simp flip: power_add)
  then show ?thesis using False by (simp add: pow2_def nat_diff_distrib flip: of_nat_diff)
qed

lemma round_half_even_near: "\<bar>of_int (round_half_even q) - q\<bar> \<le> 1 / 2"
proof -
  have "of_int \<lfloor>q\<rfloor> \<le> q" "q < of_int \<lfloor>q\<rfloor> + 1" by linarith+
  then show ?thesis by (auto simp: round_half_even_def Let_def)
qed

lemma abs_diff_mult: "0 < (u :: rat) \<Longrightarrow> \<bar>a * u - q * u\<bar> = \<bar>a - q\<bar> * u"
  by (simp add: abs_mult flip: left_diff_distrib)

lemma round_sig_unfold:
  assumes k: "2 ^ k \<le> x * 2 ^ 64" "x * 2 ^ 64 < 2 ^ Suc k" and p: "0 < p"
  shows "round_sig p x = of_int (round_half_even (x / (2 ^ k / 2 ^ (63 + p)))) * (2 ^ k / 2 ^ (63 + p))"
proof -
  let ?z = "\<lfloor>x * 2 ^ 64\<rfloor>"
  have z: "2 ^ k \<le> ?z" "?z < 2 ^ Suc k"
    using k by (simp_all add: le_floor_iff floor_less_iff)
  have z0: "0 \<le> ?z" by (rule order_trans [OF _ z(1)]) simp
  have n: "2 ^ k \<le> nat ?z" "nat ?z < 2 ^ Suc k" using z z0 by (simp_all add: le_nat_iff nat_less_iff)
  have "floorlog 2 (nat ?z) \<le> Suc k" by (rule floorlog_leI [OF n(2)]) simp_all
  moreover have "Suc k \<le> floorlog 2 (nat ?z)" by (rule floorlog_geI) (use n(1) in simp_all)
  ultimately have "bin_exp x = int k - 64" by (simp add: bin_exp_def)
  then have "bin_exp x - (int p - 1) = int k - int (63 + p)" by simp
  then have "pow2 (bin_exp x - (int p - 1)) = 2 ^ k / 2 ^ (63 + p)" by (simp only: pow2_diff)
  moreover have "x \<noteq> 0"
  proof -
    have "0 < (2::rat) ^ k" by simp
    from less_le_trans [OF this k(1)] show ?thesis by auto
  qed
  ultimately show ?thesis unfolding round_sig_def Let_def by simp
qed

lemma round_sig_near:
  assumes x: "1 / 2 ^ 64 \<le> x" and p: "0 < p"
  shows "\<bar>round_sig p x - x\<bar> \<le> x / 2 ^ p"
proof -
  let ?n = "nat \<lfloor>x * 2 ^ 64\<rfloor>"
  have "1 / 2 ^ 64 * 2 ^ 64 \<le> x * 2 ^ 64" by (rule mult_right_mono [OF x]) simp
  then have n: "1 \<le> \<lfloor>x * 2 ^ 64\<rfloor>" by simp
  have b: "2 ^ (floorlog 2 ?n - 1) \<le> ?n" "?n < 2 ^ floorlog 2 ?n"
    using floorlog_bounds [of ?n 2] n by simp_all
  obtain k where k: "floorlog 2 ?n = Suc k" using b(2) n by (cases "floorlog 2 ?n") auto
  have kn: "2 ^ k \<le> \<lfloor>x * 2 ^ 64\<rfloor>" "\<lfloor>x * 2 ^ 64\<rfloor> < 2 ^ Suc k"
    using b n unfolding k by (simp_all add: le_nat_iff nat_less_iff)
  have kx: "2 ^ k \<le> x * 2 ^ 64" "x * 2 ^ 64 < 2 ^ Suc k"
    using kn by (simp_all add: le_floor_iff floor_less_iff)
  let ?u = "(2::rat) ^ k / 2 ^ (63 + p)"
  have u0: "0 < ?u" by simp
  let ?q = "x / ?u"
  have "x = ?q * ?u" using u0 by simp
  then have "\<bar>round_sig p x - x\<bar> = \<bar>of_int (round_half_even ?q) * ?u - ?q * ?u\<bar>"
    by (simp only: round_sig_unfold [OF kx p])
  also have "\<dots> = \<bar>of_int (round_half_even ?q) - ?q\<bar> * ?u" by (rule abs_diff_mult [OF u0])
  also have "\<dots> \<le> 1 / 2 * ?u" by (rule mult_right_mono [OF round_half_even_near less_imp_le [OF u0]])
  also have "\<dots> = 2 ^ k / 2 ^ 64 / 2 ^ p" by (simp add: power_add)
  also have "\<dots> \<le> x / 2 ^ p"
  proof (rule divide_right_mono)
    show "2 ^ k / 2 ^ 64 \<le> x" using kx(1) by (simp only: divide_le_eq) simp
  qed simp
  finally show ?thesis .
qed

lemma round_sig_rel:
  assumes x: "x = 0 \<or> 1 / 2 ^ 64 \<le> x" and p: "0 < p"
  shows "x - x / 2 ^ p \<le> round_sig p x" "round_sig p x \<le> x + x / 2 ^ p" "x / 2 \<le> round_sig p x"
proof -
  have "(0::rat) \<le> 1 / 2 ^ 64" by simp
  then have x0: "0 \<le> x" using x by linarith
  have "x / 2 ^ p \<le> x / 2 ^ 1"
    by (rule divide_left_mono [OF power_increasing x0]) (use p in simp_all)
  then have half: "x / 2 ^ p \<le> x / 2" by simp
  have "\<bar>round_sig p x - x\<bar> \<le> x / 2 ^ p"
    using x round_sig_near [OF _ p, of x] by (auto simp: round_sig_def)
  then show "x - x / 2 ^ p \<le> round_sig p x" "round_sig p x \<le> x + x / 2 ^ p" "x / 2 \<le> round_sig p x"
    using half by linarith+
qed

text \<open>
  The pulse is the decimal value times 10000, or one less: the roundings of the float
  arithmetic can end just below the value, and the conversion to \<open>int\<close> cuts off.
\<close>

lemma motor_pulse_near:
  shows "motor_pulse a b \<le> 10000 * unat a + 100 * unat b"
    "10000 * unat a + 100 * unat b \<le> motor_pulse a b + 1"
proof -
  define A :: rat where "A = of_nat (unat a)"
  define B :: rat where "B = of_nat (unat b) / 100"
  have le: "unat c \<le> 255" for c :: byte
  proof -
    have "unat c < 2 ^ LENGTH(8)" by (rule unsigned_less)
    then show ?thesis by simp
  qed
  have A: "A = 0 \<or> 1 \<le> A" "A \<le> 255"
    using le [of a] by (cases "unat a"; simp add: A_def)+
  have B: "B = 0 \<or> 1 / 100 \<le> B" "B \<le> 255 / 100"
    using le [of b] by (cases "unat b"; simp add: B_def)+
  let ?s1 = "to_double B"
  let ?s2 = "to_double (A + ?s1)"
  let ?s3 = "to_float ?s2"
  let ?m = "to_float (?s3 * 10000)"
  have s1: "B - B / 2 ^ 53 \<le> ?s1" "?s1 \<le> B + B / 2 ^ 53"
    by (rule round_sig_rel; use B in force)+
  have x2: "A + ?s1 = 0 \<or> 1 / 1000 \<le> A + ?s1" using A B s1 by auto
  have s2: "(A + ?s1) - (A + ?s1) / 2 ^ 53 \<le> ?s2" "?s2 \<le> (A + ?s1) + (A + ?s1) / 2 ^ 53"
    "(A + ?s1) / 2 \<le> ?s2"
    by (rule round_sig_rel; use x2 in force)+
  have x3: "?s2 = 0 \<or> 1 / 2000 \<le> ?s2" using x2
  proof
    assume "A + ?s1 = 0" then show ?thesis using s2 by simp
  next
    assume "1 / 1000 \<le> A + ?s1"
    then have "1 / 2000 \<le> (A + ?s1) / 2" by simp
    from order_trans [OF this s2(3)] have "1 / 2000 \<le> ?s2" .
    then show ?thesis ..
  qed
  have s3: "?s2 - ?s2 / 2 ^ 24 \<le> ?s3" "?s3 \<le> ?s2 + ?s2 / 2 ^ 24" "?s2 / 2 \<le> ?s3"
    by (rule round_sig_rel; use x3 in force)+
  have x4: "?s3 * 10000 = 0 \<or> 1 \<le> ?s3 * 10000"
    using x3
  proof
    assume "?s2 = 0" then show ?thesis using s3 by simp
  next
    assume "1 / 2000 \<le> ?s2"
    then have "1 / 10000 \<le> ?s2 / 2" by simp
    from order_trans [OF this s3(3)] have "1 \<le> ?s3 * 10000" by simp
    then show ?thesis ..
  qed
  have m: "?s3 * 10000 - ?s3 * 10000 / 2 ^ 24 \<le> ?m" "?m \<le> ?s3 * 10000 + ?s3 * 10000 / 2 ^ 24"
    by (rule round_sig_rel; use x4 in force)+
  have m: "10000 * (A + B) - 1 < ?m" "?m < 10000 * (A + B) + 1"
    using m s3 s2 s1 A B by (simp_all add: field_simps)
  let ?N = "10000 * unat a + 100 * unat b"
  have N: "10000 * (A + B) = of_int (int ?N)" by (simp add: A_def B_def)
  have "int ?N - 1 \<le> \<lfloor>?m\<rfloor>" "\<lfloor>?m\<rfloor> \<le> int ?N" using m unfolding N by linarith+
  moreover have "motor_pulse a b = nat \<lfloor>?m\<rfloor>"
    by (simp only: motor_pulse_def motor_speed_def A_def B_def)
  ultimately show "motor_pulse a b \<le> ?N" "?N \<le> motor_pulse a b + 1" by linarith+
qed

text \<open>The lower case occurs: 0.39 gives 3899.\<close>

lemma floor_fraction: "\<lfloor>numeral a / numeral b :: rat\<rfloor> = numeral a div numeral b"
  by (metis floor_divide_of_int_eq of_int_numeral)

lemma motor_pulse_cut: "motor_pulse 0 39 = 3899"
proof -
  have f: "round_half_even (39 / 100 / (2 ^ 62 / 2 ^ 116)) = 7025615418697974"
    "round_half_even (3512807709348987 / 9007199254740992 / (2 ^ 62 / 2 ^ 116)) = 7025615418697974"
    "round_half_even (3512807709348987 / 9007199254740992 / (2 ^ 62 / 2 ^ 87)) = 13086228"
    "round_half_even (2044723125 / 524288 / (2 ^ 75 / 2 ^ 87)) = 15974399"
    by (simp_all add: round_half_even_def Let_def floor_fraction)
  have r: "to_double (39 / 100) = 3512807709348987 / 9007199254740992"
    by (subst round_sig_unfold [of 62]) (simp_all add: f [simplified])
  have r': "to_double (3512807709348987 / 9007199254740992) = 3512807709348987 / 9007199254740992"
    by (subst round_sig_unfold [of 62]) (simp_all add: f [simplified])
  have r'': "to_float (3512807709348987 / 9007199254740992) = 3271557 / 8388608"
    by (subst round_sig_unfold [of 62]) (simp_all add: f [simplified])
  have "motor_speed 0 39 = 3271557 / 8388608" by (simp add: motor_speed_def r r' r'' del: eq_divide_eq_numeral1)
  moreover have "to_float (2044723125 / 524288) = 15974399 / 4096"
    by (subst round_sig_unfold [of 75]) (simp_all add: f [simplified])
  moreover have "(3271557 / 8388608 * 10000 :: rat) = 2044723125 / 524288" by simp
  ultimately have "motor_pulse 0 39 = nat \<lfloor>15974399 / 4096 :: rat\<rfloor>" by (simp only: motor_pulse_def)
  then show ?thesis by (simp add: floor_fraction)
qed

subsection \<open>Stopping and reporting\<close>

text \<open>
  The report is the distance in the next larger unit while that fits a byte; from 2560 on
  it wraps, and 2560 itself is reported like a stop.
\<close>

lemma sr04_th_report:
  assumes "sr04_th p r = Some (out, r')"
  shows "out = [if stop_flag r \<noteq> 0 then 0 else word_of_nat (unat p mod 2 ^ 16 div 10)]"
    "stop_flag r' = stop_flag r"
proof -
  have u: "unat (ucast p :: 16 word) = unat p mod 2 ^ 16"
    by (simp add: unsigned_ucast_eq take_bit_eq_mod)
  have "(ucast ((ucast p :: 16 word) div 10) :: byte) = word_of_nat (unat ((ucast p :: 16 word) div 10))"
    by simp
  also have "\<dots> = word_of_nat (unat p mod 2 ^ 16 div 10)" unfolding unat_div u by simp
  finally have w: "(ucast ((ucast p :: 16 word) div 10) :: byte) = word_of_nat (unat p mod 2 ^ 16 div 10)" .
  show "out = [if stop_flag r \<noteq> 0 then 0 else word_of_nat (unat p mod 2 ^ 16 div 10)]"
    "stop_flag r' = stop_flag r"
    using assms unfolding w [symmetric] by (auto simp: sr04_th_def Let_def option_simps)
qed

lemma sr04_wraps: "(word_of_nat (2560 div 10) :: byte) = 0" "(word_of_nat (2559 div 10) :: byte) = 255"
  by simp_all

end
