(* ===== verification/Kstring.thy ===== *)
theory Kstring
  imports Kmem "HOL-Library.List_Lexorder" "HOL-Library.Sublist"
begin

text \<open>
  The comparisons and string services of kservice.c, over the memory of \<open>Kmem\<close>. \<open>char\<close> is unsigned, as
  the ARM ABI has it. A loop that looks for a terminator is a partial function: it has no result
  when it leaves the mapped memory.
\<close>

subsection \<open>Definitions\<close>

fun memcmp_loop :: "nat \<Rightarrow> nat \<Rightarrow> nat \<Rightarrow> mem \<Rightarrow> int option" where
  "memcmp_loop su1 su2 0 m = Some 0"
| "memcmp_loop su1 su2 (Suc count) m = do {
     x \<leftarrow> m su1; y \<leftarrow> m su2;
     let res = int (unat x) - int (unat y);
     if res \<noteq> 0 then Some res else memcmp_loop (su1 + 1) (su2 + 1) count m }"

definition rt_memcmp :: "nat \<Rightarrow> nat \<Rightarrow> nat \<Rightarrow> mem \<Rightarrow> int option" where
  "rt_memcmp cs ct count m = memcmp_loop cs ct count m"

partial_function (option) strlen_loop :: "nat \<Rightarrow> mem \<Rightarrow> nat option" where
  "strlen_loop sc m = do { b \<leftarrow> m sc; if b \<noteq> 0 then strlen_loop (sc + 1) m else Some sc }"

definition rt_strlen :: "nat \<Rightarrow> mem \<Rightarrow> nat option" where
  "rt_strlen s m = do { sc \<leftarrow> strlen_loop s m; Some (sc - s) }"

text \<open>The character is read before the length is tested.\<close>

function strnlen_loop :: "nat \<Rightarrow> nat \<Rightarrow> nat \<Rightarrow> mem \<Rightarrow> nat option" where
  "strnlen_loop sc s maxlen m = do {
     b \<leftarrow> m sc;
     if b \<noteq> 0 \<and> sc - s < maxlen then strnlen_loop (sc + 1) s maxlen m else Some (sc - s) }"
  by pat_completeness auto
termination by (relation "measure (\<lambda>(sc, s, maxlen, m). (s + maxlen) - sc)") auto

definition rt_strnlen :: "nat \<Rightarrow> nat \<Rightarrow> mem \<Rightarrow> nat option" where
  "rt_strnlen s maxlen m = strnlen_loop s s maxlen m"

partial_function (option) strcmp_loop :: "nat \<Rightarrow> nat \<Rightarrow> mem \<Rightarrow> int option" where
  "strcmp_loop cs ct m = do {
     x \<leftarrow> m cs;
     if x = 0 then do { y \<leftarrow> m ct; Some (int (unat x) - int (unat y)) }
     else do {
       y \<leftarrow> m ct;
       if x = y then strcmp_loop (cs + 1) (ct + 1) m else Some (int (unat x) - int (unat y)) } }"

definition rt_strcmp :: "nat \<Rightarrow> nat \<Rightarrow> mem \<Rightarrow> int option" where
  "rt_strcmp cs ct m = strcmp_loop cs ct m"

text \<open>The difference is kept in a \<open>signed char\<close>.\<close>

definition signed_char :: "int \<Rightarrow> int" where
  "signed_char i = sint (word_of_int i :: byte)"

fun strncmp_loop :: "nat \<Rightarrow> nat \<Rightarrow> nat \<Rightarrow> int \<Rightarrow> mem \<Rightarrow> int option" where
  "strncmp_loop cs ct 0 res m = Some res"
| "strncmp_loop cs ct (Suc count) res m = do {
     x \<leftarrow> m cs; y \<leftarrow> m ct;
     let res = signed_char (int (unat x) - int (unat y));
     if res \<noteq> 0 then Some res
     else if x = 0 then Some res
     else strncmp_loop (cs + 1) (ct + 1) count res m }"

definition rt_strncmp :: "nat \<Rightarrow> nat \<Rightarrow> nat \<Rightarrow> mem \<Rightarrow> int option" where
  "rt_strncmp cs ct count m = strncmp_loop cs ct count 0 m"

definition to_lower :: "int \<Rightarrow> int" where
  "to_lower c = (if c \<ge> 65 \<and> c \<le> 90 then c + (97 - 65) else c)"

partial_function (option) strcasecmp_loop :: "nat \<Rightarrow> nat \<Rightarrow> mem \<Rightarrow> int option" where
  "strcasecmp_loop a b m = do {
     x \<leftarrow> m a; y \<leftarrow> m b;
     let ca = to_lower (int (unat x)); let cb = to_lower (int (unat y));
     if ca = cb \<and> ca \<noteq> 0 then strcasecmp_loop (a + 1) (b + 1) m else Some (ca - cb) }"

definition rt_strcasecmp :: "nat \<Rightarrow> nat \<Rightarrow> mem \<Rightarrow> int option" where
  "rt_strcasecmp a b m = strcasecmp_loop a b m"

partial_function (option) strcpy_loop :: "nat \<Rightarrow> nat \<Rightarrow> mem \<Rightarrow> mem option" where
  "strcpy_loop dst src m = do {
     b \<leftarrow> m src;
     if b \<noteq> 0 then do { m \<leftarrow> store dst b m; strcpy_loop (dst + 1) (src + 1) m }
     else store dst 0 m }"

definition rt_strcpy :: "nat \<Rightarrow> nat \<Rightarrow> mem \<Rightarrow> mem option" where
  "rt_strcpy dst src m = strcpy_loop dst src m"

text \<open>After the terminator the rest of the destination is filled with zeros.\<close>

fun strncpy_loop :: "nat \<Rightarrow> nat \<Rightarrow> nat \<Rightarrow> mem \<Rightarrow> mem option" where
  "strncpy_loop d s 0 m = Some m"
| "strncpy_loop d s (Suc n) m = do {
     b \<leftarrow> m s; m \<leftarrow> store d b m;
     if b = 0 then fill_up (d + 1) 0 n m else strncpy_loop (d + 1) (s + 1) n m }"

definition rt_strncpy :: "nat \<Rightarrow> nat \<Rightarrow> nat \<Rightarrow> mem \<Rightarrow> mem option" where
  "rt_strncpy dst src n m = (if n \<noteq> 0 then strncpy_loop dst src n m else Some m)"

function strstr_loop :: "nat \<Rightarrow> nat \<Rightarrow> int \<Rightarrow> int \<Rightarrow> mem \<Rightarrow> nat option option" where
  "strstr_loop s1 s2 l1 l2 m =
     (if l1 \<ge> l2 then do {
        r \<leftarrow> rt_memcmp s1 s2 (nat l2) m;
        if r = 0 then Some (Some s1) else strstr_loop (s1 + 1) s2 (l1 - 1) l2 m }
      else Some None)"
  by pat_completeness auto
termination by (relation "measure (\<lambda>(s1, s2, l1, l2, m). nat (l1 - l2 + 1))") auto

definition rt_strstr :: "nat \<Rightarrow> nat \<Rightarrow> mem \<Rightarrow> nat option option" where
  "rt_strstr s1 s2 m = do {
     l2 \<leftarrow> rt_strlen s2 m;
     if l2 = 0 then Some (Some s1)
     else do { l1 \<leftarrow> rt_strlen s1 m; strstr_loop s1 s2 (int l1) (int l2) m } }"

text \<open>The result of the allocator is an argument.\<close>

definition rt_strdup :: "nat option \<Rightarrow> nat \<Rightarrow> mem \<Rightarrow> (nat option \<times> mem) option" where
  "rt_strdup tmp s m = do {
     l \<leftarrow> rt_strlen s m;
     case tmp of
       None \<Rightarrow> Some (None, m)
     | Some t \<Rightarrow> do { m \<leftarrow> rt_memcpy t s (l + 1) m; Some (Some t, m) } }"

declare strnlen_loop.simps [simp del] strstr_loop.simps [simp del]

subsection \<open>Strings in memory\<close>

fun cstr :: "mem \<Rightarrow> nat \<Rightarrow> byte list \<Rightarrow> bool" where
  "cstr m a [] = (m a = Some 0)"
| "cstr m a (b # bs) = (m a = Some b \<and> b \<noteq> 0 \<and> cstr m (a + 1) bs)"

fun bytes :: "mem \<Rightarrow> nat \<Rightarrow> byte list \<Rightarrow> bool" where
  "bytes m a [] = True"
| "bytes m a (b # bs) = (m a = Some b \<and> bytes m (a + 1) bs)"

lemma cstr_bytes: "cstr m a s \<longleftrightarrow> bytes m a (s @ [0]) \<and> 0 \<notin> set s"
  by (induction m a s rule: cstr.induct) auto

lemma bytes_append: "bytes m a (xs @ ys) \<longleftrightarrow> bytes m a xs \<and> bytes m (a + length xs) ys"
  by (induction xs arbitrary: a) auto

lemma bytes_nth: "bytes m a bs \<longleftrightarrow> (\<forall>i < length bs. m (a + i) = Some (bs ! i))"
proof (induction bs arbitrary: a)
  case (Cons b bs)
  then show ?case by (auto simp: less_Suc_eq_0_disj)
qed simp

lemma bytes_mapped: "bytes m a bs \<Longrightarrow> mapped m a (length bs)"
  by (induction bs arbitrary: a) (auto simp: mapped_Suc)

lemma bytes_unique: "bytes m a xs \<Longrightarrow> bytes m a ys \<Longrightarrow> length xs = length ys \<Longrightarrow> xs = ys"
  by (induction xs ys arbitrary: a rule: list_induct2') auto

lemma bytes_take: "bytes m a bs \<Longrightarrow> bytes m a (take n bs)"
  by (simp add: bytes_nth)

lemma bytes_drop: "bytes m a bs \<Longrightarrow> n \<le> length bs \<Longrightarrow> bytes m (a + n) (drop n bs)"
  by (simp add: bytes_nth add.assoc)

text \<open>A copy moves the bytes.\<close>

lemma bytes_moved: "bytes m src bs \<Longrightarrow> bytes (moved dst src (length bs) m) dst bs"
  by (simp add: bytes_nth moved_def)

subsection \<open>Lengths\<close>

lemma strlen_loop_cstr: "cstr m a s \<Longrightarrow> strlen_loop a m = Some (a + length s)"
  by (induction m a s rule: cstr.induct) (subst strlen_loop.simps, simp)+

lemma rt_strlen_ok: "cstr m a s \<Longrightarrow> rt_strlen a m = Some (length s)"
  by (simp add: rt_strlen_def strlen_loop_cstr)

lemma strnlen_loop_cstr:
  "bytes m sc s \<Longrightarrow> 0 \<notin> set s \<Longrightarrow> a \<le> sc \<Longrightarrow> sc - a + length s \<le> n \<Longrightarrow>
   m (sc + length s) = Some b \<Longrightarrow> b = 0 \<or> sc - a + length s = n \<Longrightarrow>
   strnlen_loop sc a n m = Some (sc - a + length s)"
proof (induction s arbitrary: sc)
  case Nil
  then show ?case by (subst strnlen_loop.simps) auto
next
  case (Cons x s)
  have "strnlen_loop sc a n m = strnlen_loop (sc + 1) a n m"
    using Cons.prems by (subst strnlen_loop.simps) auto
  also have "\<dots> = Some (sc + 1 - a + length s)" by (rule Cons.IH) (use Cons.prems in auto)
  finally show ?case using Cons.prems(3) by simp
qed

text \<open>The length up to the bound, where the byte at the bound may be read too.\<close>

lemma rt_strnlen_ok: "cstr m a s \<Longrightarrow> rt_strnlen a n m = Some (min (length s) n)"
proof -
  assume s: "cstr m a s"
  then have b: "bytes m a s" "m (a + length s) = Some 0" "0 \<notin> set s"
    by (simp_all add: cstr_bytes bytes_append)
  show ?thesis
  proof (cases "length s \<le> n")
    case True
    then show ?thesis using strnlen_loop_cstr [of m a s a n 0] b by (simp add: rt_strnlen_def)
  next
    case False
    then obtain x where "m (a + n) = Some x" using b(1) by (simp add: bytes_nth)
    moreover have "0 \<notin> set (take n s)" using b(3) by (auto dest: in_set_takeD)
    ultimately show ?thesis
      using strnlen_loop_cstr [of m a "take n s" a n x] bytes_take [OF b(1), of n] False
      by (simp add: rt_strnlen_def)
  qed
qed

text \<open>With \<open>n\<close> bytes mapped and none of them zero, the byte behind them is read as well.\<close>

lemma rt_strnlen_reads_past:
  assumes "bytes m a s" "0 \<notin> set s" "m (a + length s) = None"
  shows "rt_strnlen a (length s) m = None"
proof -
  have "strnlen_loop sc a n m = None"
    if "bytes m sc s" "0 \<notin> set s" "m (sc + length s) = None" "a \<le> sc" "n = sc - a + length s" for sc n s
    using that
  proof (induction s arbitrary: sc)
    case Nil
    then show ?case by (subst strnlen_loop.simps) simp
  next
    case (Cons x s)
    have "strnlen_loop (sc + 1) a n m = None" by (rule Cons.IH) (use Cons.prems in auto)
    then show ?case using Cons.prems by (subst strnlen_loop.simps) auto
  qed
  from this [OF assms order_refl, of "length s"] show ?thesis by (simp add: rt_strnlen_def)
qed

subsection \<open>Comparisons\<close>

lemma byte_diff: "int (unat x) - int (unat y) = 0 \<longleftrightarrow> x = y" "int (unat x) - int (unat y) < 0 \<longleftrightarrow> x < y"
  for x y :: byte
  by (simp_all add: word_less_def word_uint_eq_iff)

lemma memcmp_loop_ok:
  assumes "bytes m a xs" "bytes m b ys" "length xs = length ys"
  shows "\<exists>r. memcmp_loop a b (length xs) m = Some r \<and> (r = 0 \<longleftrightarrow> xs = ys) \<and> (r < 0 \<longleftrightarrow> xs < ys)"
  using assms(3,1,2)
proof (induction xs ys arbitrary: a b rule: list_induct2)
  case (Cons x xs y ys)
  show ?case
  proof (cases "x = y")
    case True
    then show ?thesis using Cons by simp
  next
    case False
    then show ?thesis using Cons.prems byte_diff [of x y] by (simp add: Let_def)
  qed
qed simp

text \<open>The sign of \<open>rt_memcmp\<close> is the lexicographic order of the bytes.\<close>

lemma rt_memcmp_ok:
  assumes "bytes m a xs" "bytes m b ys" "length xs = length ys"
  obtains r where "rt_memcmp a b (length xs) m = Some r" "r = 0 \<longleftrightarrow> xs = ys" "r < 0 \<longleftrightarrow> xs < ys"
  using memcmp_loop_ok [OF assms] by (auto simp: rt_memcmp_def)

lemma rt_strcmp_ok:
  assumes "cstr m a s" "cstr m b t"
  obtains r where "rt_strcmp a b m = Some r" "r = 0 \<longleftrightarrow> s = t" "r < 0 \<longleftrightarrow> s < t"
proof -
  have "\<exists>r. strcmp_loop a b m = Some r \<and> (r = 0 \<longleftrightarrow> s = t) \<and> (r < 0 \<longleftrightarrow> s < t)"
    using assms
  proof (induction s t arbitrary: a b rule: list_induct2')
    case 1
    then show ?case by (subst strcmp_loop.simps) simp
  next
    case (2 x xs)
    then show ?case using byte_diff [of x 0] by (subst strcmp_loop.simps) (auto simp: word_uint_eq_iff)
  next
    case (3 y ys)
    then show ?case using byte_diff [of 0 y] by (subst strcmp_loop.simps) (auto simp: word_gt_0)
  next
    case (4 x xs y ys)
    show ?case
    proof (cases "x = y")
      case True
      have "strcmp_loop a b m = strcmp_loop (a + 1) (b + 1) m"
        using 4(2,3) True by (subst strcmp_loop.simps) simp
      then show ?thesis using 4(1) [of "a + 1" "b + 1"] 4(2,3) True by simp
    next
      case False
      then show ?thesis using 4(2,3) byte_diff [of x y] by (subst strcmp_loop.simps) simp
    qed
  qed
  then show thesis using that by (auto simp: rt_strcmp_def)
qed

text \<open>The narrow result of \<open>rt_strncmp\<close> is zero only for equal bytes, but its sign may be wrong.\<close>

lemma signed_char_zero: "signed_char (int (unat x) - int (unat y)) = 0 \<longleftrightarrow> x = y" for x y :: byte
proof -
  have "word_of_int (int (unat x) - int (unat y)) = x - y" by simp
  moreover have "sint (x - y) = 0 \<longleftrightarrow> x - y = 0" by (rule signed_eq_0_iff)
  ultimately show ?thesis by (simp add: signed_char_def)
qed

lemma rt_strncmp_zero:
  assumes "cstr m a s" "cstr m b t"
  obtains r where "rt_strncmp a b n m = Some r" "r = 0 \<longleftrightarrow> take n s = take n t"
proof -
  have "\<exists>r. strncmp_loop a b n 0 m = Some r \<and> (r = 0 \<longleftrightarrow> take n s = take n t)"
    using assms
  proof (induction n arbitrary: a b s t)
    case (Suc n)
    note z = signed_char_zero
    show ?case
    proof (cases s)
      case Nil
      note s = this
      show ?thesis
      proof (cases t)
        case Nil
        then show ?thesis using Suc.prems s by (simp add: signed_char_def)
      next
        case (Cons y ys)
        then show ?thesis using Suc.prems s z [of 0 y] by (auto simp: Let_def)
      qed
    next
      case (Cons x xs)
      note s = this
      show ?thesis
      proof (cases t)
        case Nil
        then show ?thesis using Suc.prems s z [of x 0] by (auto simp: Let_def)
      next
        case (Cons y ys)
        show ?thesis
        proof (cases "x = y")
          case True
          then show ?thesis
            using Suc.IH [of "a + 1" xs "b + 1" ys] Suc.prems s Cons z [of x y] by (simp add: Let_def signed_char_def)
        next
          case False
          then show ?thesis using Suc.prems s Cons z [of x y] by (simp add: Let_def)
        qed
      qed
    qed
  qed simp
  then show thesis using that by (auto simp: rt_strncmp_def)
qed

lemma rt_strncmp_wrong_sign:
  assumes "cstr m a [0x80]" "cstr m b []"
  shows "rt_strncmp a b 1 m = Some (- 128) \<and> ([] :: byte list) < [0x80]"
  using assms by (simp add: rt_strncmp_def signed_char_def Let_def)

definition lower :: "byte \<Rightarrow> byte" where
  "lower b = (if 65 \<le> b \<and> b \<le> 90 then b + 32 else b)"

lemma to_lower_byte: "to_lower (int (unat b)) = int (unat (lower b))"
proof (cases "65 \<le> b \<and> b \<le> 90")
  case True
  then have "unat b \<le> 90" by (simp add: word_le_nat_alt)
  then have "unat (b + 32) = unat b + 32" by (simp add: unat_word_ariths)
  moreover have "65 \<le> uint b" "uint b \<le> 90" using True by (simp_all add: word_le_def)
  ultimately show ?thesis using True by (simp add: to_lower_def lower_def)
next
  case False
  then have "\<not> (65 \<le> uint b \<and> uint b \<le> 90)" by (simp add: word_le_def)
  then show ?thesis using False by (auto simp: to_lower_def lower_def)
qed

lemma lower_eq_0 [simp]: "lower b = 0 \<longleftrightarrow> b = 0"
proof (cases "65 \<le> b \<and> b \<le> 90")
  case True
  then have "unat b \<le> 90" by (simp add: word_le_nat_alt)
  then have "unat (b + 32) = unat b + 32" by (simp add: unat_word_ariths)
  then have "b + 32 \<noteq> 0" by (metis add_is_0 unat_0 zero_neq_numeral)
  then show ?thesis using True by (auto simp: lower_def)
qed (auto simp: lower_def)

lemma lower_0 [simp]: "lower 0 = 0"
  by (simp add: lower_def)

lemma strcasecmp_step:
  assumes "m a = Some x" "m b = Some y"
  shows "strcasecmp_loop a b m =
    (if lower x = lower y \<and> x \<noteq> 0 then strcasecmp_loop (a + 1) (b + 1) m
     else Some (int (unat (lower x)) - int (unat (lower y))))"
proof -
  have t: "to_lower (uint c) = uint (lower c)" for c using to_lower_byte [of c] by simp
  have "uint (lower x) = 0 \<longleftrightarrow> x = 0" using lower_eq_0 [of x] by (metis uint_0_iff)
  then show ?thesis
    using assms by (subst strcasecmp_loop.simps) (simp add: t Let_def flip: word_uint_eq_iff)
qed

text \<open>\<open>rt_strcasecmp\<close> compares the strings in lower case.\<close>

lemma rt_strcasecmp_ok:
  assumes "cstr m a s" "cstr m b t"
  obtains r where "rt_strcasecmp a b m = Some r" "r = 0 \<longleftrightarrow> map lower s = map lower t"
    "r < 0 \<longleftrightarrow> map lower s < map lower t"
proof -
  have "\<exists>r. strcasecmp_loop a b m = Some r \<and> (r = 0 \<longleftrightarrow> map lower s = map lower t) \<and>
      (r < 0 \<longleftrightarrow> map lower s < map lower t)"
    using assms
  proof (induction s t arbitrary: a b rule: list_induct2')
    case 1
    then show ?case using strcasecmp_step [of m a 0 b 0] by simp
  next
    case (2 x xs)
    then show ?case using strcasecmp_step [of m a x b 0] byte_diff [of "lower x" "lower 0"] by auto
  next
    case (3 y ys)
    then show ?case using strcasecmp_step [of m a 0 b y] byte_diff [of "lower 0" "lower y"]
      by (auto simp: word_gt_0 order_le_less)
  next
    case (4 x xs y ys)
    show ?case
    proof (cases "lower x = lower y")
      case True
      then show ?thesis
        using strcasecmp_step [of m a x b y] 4(1) [of "a + 1" "b + 1"] 4(2,3) by simp
    next
      case False
      then show ?thesis using strcasecmp_step [of m a x b y] 4(2,3) byte_diff [of "lower x" "lower y"] by simp
    qed
  qed
  then show thesis using that by (auto simp: rt_strcasecmp_def)
qed

subsection \<open>Copies and search\<close>

text \<open>What \<open>rt_strncpy\<close> writes: the string cut at the bound, and zeros.\<close>

definition padded :: "nat \<Rightarrow> byte list \<Rightarrow> byte list" where
  "padded n s = take n s @ replicate (n - length s) 0"

lemma length_padded [simp]: "length (padded n s) = n"
  by (simp add: padded_def)

definition written :: "nat \<Rightarrow> byte list \<Rightarrow> mem \<Rightarrow> mem" where
  "written a bs m = (\<lambda>x. if a \<le> x \<and> x < a + length bs then Some (bs ! (x - a)) else m x)"

lemma written_Nil [simp]: "written a [] m = m"
  by (auto simp: written_def fun_eq_iff)

lemma written_Cons: "written a (b # bs) m = written (Suc a) bs (m(a \<mapsto> b))"
proof (rule ext)
  fix x
  show "written a (b # bs) m x = written (Suc a) bs (m(a \<mapsto> b)) x"
    by (cases "x = a") (auto simp: written_def nth_Cons' Suc_diff_Suc)
qed

lemma written_bytes: "bytes (written a bs m) a bs"
  by (simp add: bytes_nth written_def)

lemma written_elsewhere: "bytes m a' xs \<Longrightarrow> a' + length xs \<le> a \<or> a + length bs \<le> a' \<Longrightarrow> bytes (written a bs m) a' xs"
  by (auto simp: bytes_nth written_def)

lemma filled_written: "filled a 0 n m = written a (replicate n 0) m"
  by (auto simp: filled_def written_def fun_eq_iff)

lemma cstr_upd: "cstr m a s \<Longrightarrow> x < a \<or> a + length s < x \<Longrightarrow> cstr (m(x \<mapsto> b)) a s"
  by (induction s arbitrary: a) auto

lemma strncpy_loop_ok:
  assumes "cstr m src s" "mapped m dst n" "dst + n \<le> src \<or> src + length s < dst"
  shows "strncpy_loop dst src n m = Some (written dst (padded n s) m)"
  using assms
proof (induction n arbitrary: dst src s m)
  case (Suc n)
  have d: "dst \<in> dom m" "mapped m (Suc dst) n" using Suc.prems(2) by (simp_all add: mapped_Suc)
  note st = store_dom(1) [OF d(1)]
  show ?case
  proof (cases s)
    case Nil
    have "fill_up (Suc dst) 0 n (m(dst \<mapsto> 0)) = Some (filled (Suc dst) 0 n (m(dst \<mapsto> 0)))"
      by (rule fill_up_ok) (simp only: mapped_upd [OF d(1)] d(2))
    then show ?thesis
      using Suc.prems(1) Nil by (simp add: st padded_def written_Cons filled_written)
  next
    case (Cons b s')
    have s': "m src = Some b" "b \<noteq> 0" "cstr m (src + 1) s'" using Suc.prems(1) Cons by simp_all
    have "cstr (m(dst \<mapsto> b)) (src + 1) s'"
      by (rule cstr_upd [OF s'(3)]) (use Suc.prems(3) Cons in auto)
    then have "strncpy_loop (dst + 1) (src + 1) n (m(dst \<mapsto> b)) =
        Some (written (dst + 1) (padded n s') (m(dst \<mapsto> b)))"
    proof (rule Suc.IH)
      show "mapped (m(dst \<mapsto> b)) (dst + 1) n" using d(2) by (simp only: mapped_upd [OF d(1)] Suc_eq_plus1)
    qed (use Suc.prems(3) Cons in auto)
    then show ?thesis using s' Cons by (simp add: st padded_def written_Cons)
  qed
qed (simp add: padded_def)

lemma rt_strncpy_ok:
  assumes "cstr m src s" "mapped m dst n" "dst + n \<le> src \<or> src + length s < dst"
  shows "rt_strncpy dst src n m = Some (written dst (padded n s) m)"
  using strncpy_loop_ok [OF assms] by (auto simp: rt_strncpy_def padded_def)

lemma rt_strcpy_ok:
  assumes "cstr m src s" "mapped m dst (length s + 1)" "dst + length s < src \<or> src + length s < dst"
  shows "rt_strcpy dst src m = Some (written dst (s @ [0]) m)"
proof -
  have "strcpy_loop dst src m = Some (written dst (s @ [0]) m)"
    using assms
  proof (induction s arbitrary: dst src m)
    case Nil
    then show ?case
      by (subst strcpy_loop.simps) (simp add: mapped_Suc store_dom written_Cons)
  next
    case (Cons b s)
    have d: "dst \<in> dom m" "mapped m (dst + 1) (length s + 1)" using Cons.prems(2) by (simp_all add: mapped_Suc)
    have s: "m src = Some b" "b \<noteq> 0" "cstr m (src + 1) s" using Cons.prems(1) by simp_all
    have "cstr (m(dst \<mapsto> b)) (src + 1) s" by (rule cstr_upd [OF s(3)]) (use Cons.prems(3) in auto)
    then have "strcpy_loop (dst + 1) (src + 1) (m(dst \<mapsto> b)) = Some (written (dst + 1) (s @ [0]) (m(dst \<mapsto> b)))"
    proof (rule Cons.IH)
      show "mapped (m(dst \<mapsto> b)) (dst + 1) (length s + 1)" using d(2) by (simp only: mapped_upd [OF d(1)])
    qed (use Cons.prems(3) in auto)
    then show ?case
      using s by (subst strcpy_loop.simps) (simp add: store_dom(1) [OF d(1)] written_Cons)
  qed
  then show ?thesis by (simp add: rt_strcpy_def)
qed

lemma rt_strdup_ok:
  assumes "cstr m a s" "mapped m t (length s + 1)" "t + length s < a \<or> a + length s < t"
  obtains m' where "rt_strdup (Some t) a m = Some (Some t, m')" "cstr m' t s" "cstr m' a s"
proof -
  have b: "bytes m a (s @ [0])" "0 \<notin> set s" using assms(1) by (simp_all add: cstr_bytes)
  have "mapped m a (length s + 1)" using bytes_mapped [OF b(1)] by simp
  then have "copy_up t a (length s + 1) m = Some (moved t a (length s + 1) m)"
    by (rule copy_up_ok) (use assms(2,3) in auto)
  moreover have "bytes (moved t a (length s + 1) m) t (s @ [0])" using bytes_moved [OF b(1)] by simp
  moreover have "bytes (moved t a (length s + 1) m) a (s @ [0])"
    using b(1) assms(3) by (auto simp: bytes_nth moved_def)
  ultimately show thesis
    by (intro that [of "moved t a (length s + 1) m"])
      (simp_all add: rt_strdup_def rt_strlen_ok [OF assms(1)] rt_memcpy_bytes cstr_bytes b(2) del: copy_up.simps)
qed

text \<open>\<open>rt_strstr\<close> returns the first occurrence.\<close>

lemma strstr_loop_ok:
  assumes "bytes m a s" "bytes m b t" "t \<noteq> []"
  shows "\<exists>r. strstr_loop a b (int (length s)) (int (length t)) m = Some r \<and>
    (case r of None \<Rightarrow> \<not> sublist t s
     | Some p \<Rightarrow> \<exists>i. p = a + i \<and> prefix t (drop i s) \<and> (\<forall>j < i. \<not> prefix t (drop j s)))"
  using assms(1)
proof (induction s arbitrary: a)
  case Nil
  have "\<not> int (length t) \<le> 0" using assms(3) by simp
  then show ?case using assms(3) by (subst strstr_loop.simps) simp
next
  case (Cons x s)
  let ?n = "length t"
  show ?case
  proof (cases "?n \<le> length (x # s)")
    case False
    then have "\<not> sublist t (x # s)" by (metis sublist_length_le)
    then show ?thesis using False by (subst strstr_loop.simps) auto
  next
    case True
    have "bytes m a (take ?n (x # s))" using bytes_take Cons.prems by blast
    moreover have len: "length (take ?n (x # s)) = ?n" using True by simp
    ultimately obtain r where r: "rt_memcmp a b ?n m = Some r" "r = 0 \<longleftrightarrow> take ?n (x # s) = t"
      using rt_memcmp_ok [of m a "take ?n (x # s)" b t] assms(2) by metis
    have pre: "prefix t (x # s) \<longleftrightarrow> r = 0"
      unfolding r(2) by (metis append_eq_conv_conj prefix_def take_is_prefix)
    show ?thesis
    proof (cases "r = 0")
      case z: True
      then have "strstr_loop a b (int (length (x # s))) (int ?n) m = Some (Some a)"
        using r(1) True by (subst strstr_loop.simps) simp
      then show ?thesis using pre z by (intro exI [of _ "Some a"]) (auto intro: exI [of _ 0])
    next
      case False
      have e: "strstr_loop a b (int (length (x # s))) (int ?n) m = strstr_loop (a + 1) b (int (length s)) (int ?n) m"
        using r(1) True False by (subst strstr_loop.simps) simp
      have np: "\<not> prefix t (x # s)" using pre False by simp
      obtain q where q: "strstr_loop (a + 1) b (int (length s)) (int ?n) m = Some q"
        "case q of None \<Rightarrow> \<not> sublist t s
         | Some p \<Rightarrow> \<exists>i. p = a + 1 + i \<and> prefix t (drop i s) \<and> (\<forall>j < i. \<not> prefix t (drop j s))"
        using Cons.IH [of "a + 1"] Cons.prems by auto
      show ?thesis
      proof (cases q)
        case None
        then show ?thesis using q e np by (auto simp: sublist_Cons_right)
      next
        case (Some p)
        then obtain i where i: "p = a + 1 + i" "prefix t (drop i s)" "\<forall>j < i. \<not> prefix t (drop j s)" using q(2) by auto
        have "\<not> prefix t (drop j (x # s))" if "j < Suc i" for j using that i(3) np by (cases j) auto
        then have "\<exists>i. p = a + i \<and> prefix t (drop i (x # s)) \<and> (\<forall>j < i. \<not> prefix t (drop j (x # s)))"
          using i(1,2) by (intro exI [of _ "Suc i"]) auto
        then show ?thesis using q(1) e Some by (intro exI [of _ "Some p"]) simp
      qed
    qed
  qed
qed

lemma rt_strstr_ok:
  assumes "cstr m a s" "cstr m b t"
  obtains "rt_strstr a b m = Some None" "\<not> sublist t s"
  | i where "rt_strstr a b m = Some (Some (a + i))" "prefix t (drop i s)" "\<And>j. j < i \<Longrightarrow> \<not> prefix t (drop j s)"
proof (cases "t = []")
  case True
  then show thesis using that(2) [of 0] rt_strlen_ok [OF assms(2)] by (simp add: rt_strstr_def)
next
  case False
  have "bytes m a s" "bytes m b t" using assms by (simp_all add: cstr_bytes bytes_append)
  from strstr_loop_ok [OF this False] obtain r
    where r: "strstr_loop a b (int (length s)) (int (length t)) m = Some r"
    "case r of None \<Rightarrow> \<not> sublist t s
     | Some p \<Rightarrow> \<exists>i. p = a + i \<and> prefix t (drop i s) \<and> (\<forall>j < i. \<not> prefix t (drop j s))" by auto
  have "rt_strstr a b m = Some r"
    using False r(1) rt_strlen_ok [OF assms(1)] rt_strlen_ok [OF assms(2)] by (simp add: rt_strstr_def)
  then show thesis using that r(2) by (cases r) auto
qed

end
