(* ===== verification/Kprintf.thy ===== *)
theory Kprintf
  imports Kstring
begin

text \<open>
  Formatted output, \<open>rt_vsnprintf\<close> of kservice.c, without \<open>long long\<close> and without the \<open>#\<close> forms, as the
  project configures it. A format is the list of its characters, whose end the code sees as a
  zero; the arguments are a list that \<open>va_arg\<close> consumes, and one of another type has no result. Output
  goes to memory through the test that every store of the code makes. It is shown that the text
  produced does not depend on the buffer, so that the buffer holds as much of it as fits, and what
  \<open>print_number\<close> writes on every combination of its flags.
\<close>

subsection \<open>Output\<close>

type_synonym outp = "nat \<times> mem"

text \<open>
  \<open>if (str < end) *str = c; ++ str;\<close>. A text that runs past the end of the address space has no
  result.
\<close>

definition putc :: "nat \<Rightarrow> byte \<Rightarrow> outp \<Rightarrow> outp option" where
  "putc e c st = (case st of (str, m) \<Rightarrow> do {
     m \<leftarrow> (if str < e then store str c m else Some m);
     if str + 1 < 2 ^ 32 then Some (str + 1, m) else None })"

fun puts :: "nat \<Rightarrow> byte list \<Rightarrow> outp \<Rightarrow> outp option" where
  "puts e [] st = Some st"
| "puts e (c # cs) st = do { st \<leftarrow> putc e c st; puts e cs st }"

text \<open>\<open>while (size-- > 0)\<close>, \<open>while (--width > 0)\<close> and \<open>while (len < width--)\<close>, with the count they leave.\<close>

function pad_loop :: "nat \<Rightarrow> byte \<Rightarrow> int \<Rightarrow> outp \<Rightarrow> (int \<times> outp) option" where
  "pad_loop e c sz st =
     (if sz > 0 then do { st \<leftarrow> putc e c st; pad_loop e c (sz - 1) st } else Some (sz - 1, st))"
  by pat_completeness auto
termination by (relation "measure (\<lambda>(e, c, sz, st). nat sz)") auto

function pre_pad_loop :: "nat \<Rightarrow> int \<Rightarrow> outp \<Rightarrow> (int \<times> outp) option" where
  "pre_pad_loop e width st =
     (if width - 1 > 0 then do { st \<leftarrow> putc e 32 st; pre_pad_loop e (width - 1) st } else Some (width - 1, st))"
  by pat_completeness auto
termination by (relation "measure (\<lambda>(e, width, st). nat width)") auto

function str_pad_loop :: "nat \<Rightarrow> int \<Rightarrow> int \<Rightarrow> outp \<Rightarrow> (int \<times> outp) option" where
  "str_pad_loop e len width st =
     (if len < width then do { st \<leftarrow> putc e 32 st; str_pad_loop e len (width - 1) st } else Some (width - 1, st))"
  by pat_completeness auto
termination by (relation "measure (\<lambda>(e, len, width, st). nat (width - len))") auto

declare pad_loop.simps [simp del] pre_pad_loop.simps [simp del] str_pad_loop.simps [simp del]

subsection \<open>Numbers\<close>

text \<open>The bits of the flags: zero padding 0, signed 1, plus 2, space 3, left 4, special 5, large 6.\<close>

definition divide :: "u32 \<Rightarrow> nat \<Rightarrow> nat \<times> u32" where
  "divide n base = (if base = 10 then (unat (n mod 10), n div 10) else (unat (n mod 16), n div 16))"

definition small_digits :: "byte list" where
  "small_digits = [48, 49, 50, 51, 52, 53, 54, 55, 56, 57, 97, 98, 99, 100, 101, 102]"

definition large_digits :: "byte list" where
  "large_digits = [48, 49, 50, 51, 52, 53, 54, 55, 56, 57, 65, 66, 67, 68, 69, 70]"

text \<open>The digits, last first, in an array of sixteen characters.\<close>

function digit_loop :: "byte list \<Rightarrow> nat \<Rightarrow> u32 \<Rightarrow> byte list \<Rightarrow> byte list option" where
  "digit_loop digits base num tmp =
     (if num = 0 then Some tmp
      else if length tmp < 16 then
        (case divide num base of (r, q) \<Rightarrow> digit_loop digits base q (tmp @ [digits ! r]))
      else None)"
  by pat_completeness auto
termination
proof (relation "measure (\<lambda>(digits, base, num, tmp). unat num)", goal_cases)
  case (2 digits base num tmp r q)
  then have "unat num div 16 < unat num" "unat num div 10 < unat num" by (simp_all add: unat_gt_0)
  then show ?case using 2 by (auto simp: divide_def unat_div split: if_splits)
qed simp

declare digit_loop.simps [simp del]

text \<open>\<open>while (i < precision--)\<close> and \<open>while (i-- > 0 && precision_bak != 0)\<close>.\<close>

function zero_loop :: "nat \<Rightarrow> int \<Rightarrow> int \<Rightarrow> outp \<Rightarrow> outp option" where
  "zero_loop e i precision st =
     (if i < precision then do { st \<leftarrow> putc e 48 st; zero_loop e i (precision - 1) st } else Some st)"
  by pat_completeness auto
termination by (relation "measure (\<lambda>(e, i, precision, st). nat (precision - i))") auto

declare zero_loop.simps [simp del]

fun tmp_loop :: "nat \<Rightarrow> byte list \<Rightarrow> nat \<Rightarrow> int \<Rightarrow> outp \<Rightarrow> outp option" where
  "tmp_loop e tmp 0 precision_bak st = Some st"
| "tmp_loop e tmp (Suc i) precision_bak st =
     (if precision_bak \<noteq> 0 then do { st \<leftarrow> putc e (tmp ! i) st; tmp_loop e tmp i precision_bak st } else Some st)"

definition print_number :: "nat \<Rightarrow> u32 \<Rightarrow> nat \<Rightarrow> int \<Rightarrow> int \<Rightarrow> byte \<Rightarrow> outp \<Rightarrow> outp option" where
  "print_number e num base s precision type st = do {
     let precision_bak = precision;
     let sz = s;
     let digits = (if bit type 6 then large_digits else small_digits);
     let type = (if bit type 4 then unset_bit 0 type else type);
     let c = (if bit type 0 then 48 else 32 :: byte);
     let (sign, num) =
       (if bit type 1 then
          (if sint num < 0 then (45 :: byte, - num)
           else if bit type 2 then (43, num)
           else if bit type 3 then (32, num) else (0, num))
        else (0, num));
     tmp \<leftarrow> (if num = 0 then Some [48] else digit_loop digits base num []);
     let i = int (length tmp);
     let precision = (if i > precision then i else precision);
     let sz = sz - precision;
     (sz, st) \<leftarrow>
       (if \<not> (bit type 0 \<or> bit type 4) then
          pad_loop e 32 (if sign \<noteq> 0 \<and> sz > 0 then sz - 1 else sz) st
        else Some (sz, st));
     (sz, st) \<leftarrow> (if sign \<noteq> 0 then do { st \<leftarrow> putc e sign st; Some (sz - 1, st) } else Some (sz, st));
     (sz, st) \<leftarrow> (if \<not> bit type 4 then pad_loop e c sz st else Some (sz, st));
     st \<leftarrow> zero_loop e i precision st;
     st \<leftarrow> tmp_loop e tmp (length tmp) precision_bak st;
     (_, st) \<leftarrow> pad_loop e 32 sz st;
     Some st }"

subsection \<open>Conversion specifications\<close>

datatype arg = Arg_Int u32 | Arg_Str "byte list option" | Arg_Ptr u32

fun va_int :: "arg list \<Rightarrow> (u32 \<times> arg list) option" where
  "va_int (Arg_Int n # args) = Some (n, args)"
| "va_int _ = None"

fun va_str :: "arg list \<Rightarrow> (byte list option \<times> arg list) option" where
  "va_str (Arg_Str s # args) = Some (s, args)"
| "va_str _ = None"

fun va_ptr :: "arg list \<Rightarrow> (u32 \<times> arg list) option" where
  "va_ptr (Arg_Ptr n # args) = Some (n, args)"
| "va_ptr _ = None"

definition ISDIGIT :: "byte \<Rightarrow> bool" where
  "ISDIGIT c \<longleftrightarrow> unat (c - 48) < 10"

text \<open>The character the format pointer is at.\<close>

fun cur :: "byte list \<Rightarrow> byte" where
  "cur [] = 0"
| "cur (c # cs) = c"

text \<open>A number too large for an \<open>int\<close> has no result.\<close>

fun skip_atoi :: "int \<Rightarrow> byte list \<Rightarrow> (int \<times> byte list) option" where
  "skip_atoi i [] = Some (i, [])"
| "skip_atoi i (c # cs) =
     (if ISDIGIT c then
        (if i * 10 + int (unat c) < 2 ^ 31 then skip_atoi (i * 10 + int (unat c) - 48) cs else None)
      else Some (i, c # cs))"

fun flags_loop :: "byte list \<Rightarrow> byte \<Rightarrow> byte \<times> byte list" where
  "flags_loop [] flags = (flags, [])"
| "flags_loop (c # cs) flags =
     (if c = 45 then flags_loop cs (set_bit 4 flags)
      else if c = 43 then flags_loop cs (set_bit 2 flags)
      else if c = 32 then flags_loop cs (set_bit 3 flags)
      else if c = 35 then flags_loop cs (set_bit 5 flags)
      else if c = 48 then flags_loop cs (set_bit 0 flags)
      else (flags, c # cs))"

definition get_width :: "byte list \<Rightarrow> byte \<Rightarrow> arg list \<Rightarrow> (int \<times> byte \<times> byte list \<times> arg list) option" where
  "get_width fmt flags args =
     (if ISDIGIT (cur fmt) then do { (w, fmt) \<leftarrow> skip_atoi 0 fmt; Some (w, flags, fmt, args) }
      else if cur fmt = 42 then do {
        (n, args) \<leftarrow> va_int args;
        if sint n < 0 then
          (if sint n = - (2 ^ 31) then None else Some (- sint n, set_bit 4 flags, tl fmt, args))
        else Some (sint n, flags, tl fmt, args) }
      else Some (- 1, flags, fmt, args))"

definition get_precision :: "byte list \<Rightarrow> arg list \<Rightarrow> (int \<times> byte list \<times> arg list) option" where
  "get_precision fmt args =
     (if cur fmt = 46 then do {
        let fmt = tl fmt;
        (p, fmt, args) \<leftarrow>
          (if ISDIGIT (cur fmt) then do { (p, fmt) \<leftarrow> skip_atoi 0 fmt; Some (p, fmt, args) }
           else if cur fmt = 42 then do { (n, args) \<leftarrow> va_int args; Some (sint n, tl fmt, args) }
           else Some (- 1, fmt, args));
        Some (if p < 0 then 0 else p, fmt, args) }
      else Some (- 1, fmt, args))"

record conversion =
  cv_flags :: byte
  cv_width :: int
  cv_precision :: int
  cv_qualifier :: byte

definition parse_spec :: "byte list \<Rightarrow> arg list \<Rightarrow> (conversion \<times> byte list \<times> arg list) option" where
  "parse_spec fmt args = do {
     let (flags, fmt) = flags_loop fmt 0;
     (width, flags, fmt, args) \<leftarrow> get_width fmt flags args;
     (precision, fmt, args) \<leftarrow> get_precision fmt args;
     let (qualifier, fmt) = (if cur fmt = 104 \<or> cur fmt = 108 then (cur fmt, tl fmt) else (0, fmt));
     Some (\<lparr>cv_flags = flags, cv_width = width, cv_precision = precision, cv_qualifier = qualifier\<rparr>, fmt, args) }"

definition emit_char :: "nat \<Rightarrow> conversion \<Rightarrow> byte \<Rightarrow> outp \<Rightarrow> outp option" where
  "emit_char e cv c st = do {
     (width, st) \<leftarrow> (if \<not> bit (cv_flags cv) 4 then pre_pad_loop e (cv_width cv) st else Some (cv_width cv, st));
     st \<leftarrow> putc e c st;
     (_, st) \<leftarrow> pre_pad_loop e width st;
     Some st }"

fun s_len :: "int \<Rightarrow> int \<Rightarrow> byte list \<Rightarrow> int" where
  "s_len width len [] = len"
| "s_len width len (c # s) = (if len \<noteq> width then s_len width (len + 1) s else len)"

definition null_text :: "byte list" where
  "null_text = [40, 78, 85, 76, 76, 41]"

definition emit_str :: "nat \<Rightarrow> conversion \<Rightarrow> byte list option \<Rightarrow> outp \<Rightarrow> outp option" where
  "emit_str e cv s st = do {
     let s = (case s of None \<Rightarrow> null_text | Some s \<Rightarrow> s);
     let len = s_len (cv_width cv) 0 s;
     let len = (if cv_precision cv > 0 \<and> len > cv_precision cv then cv_precision cv else len);
     (width, st) \<leftarrow> (if \<not> bit (cv_flags cv) 4 then str_pad_loop e len (cv_width cv) st else Some (cv_width cv, st));
     st \<leftarrow> puts e (take (nat len) s) st;
     (_, st) \<leftarrow> str_pad_loop e len width st;
     Some st }"

definition emit_int :: "nat \<Rightarrow> conversion \<Rightarrow> nat \<Rightarrow> byte \<Rightarrow> u32 \<Rightarrow> outp \<Rightarrow> outp option" where
  "emit_int e cv base flags n st =
     (let num = (if cv_qualifier cv = 104 then
                   (let h = ucast n :: 16 word in if bit flags 1 then scast h else ucast h)
                 else n)
      in print_number e num base (cv_width cv) (cv_precision cv) flags st)"

definition convert :: "nat \<Rightarrow> conversion \<Rightarrow> byte \<Rightarrow> arg list \<Rightarrow> outp \<Rightarrow> (arg list \<times> outp) option" where
  "convert e cv c args st =
     (if c = 99 then do {
        (n, args) \<leftarrow> va_int args; st \<leftarrow> emit_char e cv (ucast n) st; Some (args, st) }
      else if c = 115 then do { (s, args) \<leftarrow> va_str args; st \<leftarrow> emit_str e cv s st; Some (args, st) }
      else if c = 112 then do {
        (n, args) \<leftarrow> va_ptr args;
        let (width, flags) =
          (if cv_width cv = - 1 then (8, set_bit 0 (cv_flags cv)) else (cv_width cv, cv_flags cv));
        st \<leftarrow> print_number e n 16 width (cv_precision cv) flags st;
        Some (args, st) }
      else if c = 37 then do { st \<leftarrow> putc e 37 st; Some (args, st) }
      else if c = 111 then do {
        (n, args) \<leftarrow> va_int args; st \<leftarrow> emit_int e cv 8 (cv_flags cv) n st; Some (args, st) }
      else if c = 88 then do {
        (n, args) \<leftarrow> va_int args; st \<leftarrow> emit_int e cv 16 (set_bit 6 (cv_flags cv)) n st; Some (args, st) }
      else if c = 120 then do {
        (n, args) \<leftarrow> va_int args; st \<leftarrow> emit_int e cv 16 (cv_flags cv) n st; Some (args, st) }
      else if c = 100 \<or> c = 105 then do {
        (n, args) \<leftarrow> va_int args; st \<leftarrow> emit_int e cv 10 (set_bit 1 (cv_flags cv)) n st; Some (args, st) }
      else if c = 117 then do {
        (n, args) \<leftarrow> va_int args; st \<leftarrow> emit_int e cv 10 (cv_flags cv) n st; Some (args, st) }
      else do {
        st \<leftarrow> putc e 37 st;
        st \<leftarrow> (if c \<noteq> 0 then putc e c st else Some st);
        Some (args, st) })"

lemma skip_atoi_length: "skip_atoi i fmt = Some (j, fmt') \<Longrightarrow> length fmt' \<le> length fmt"
proof (induction i fmt rule: skip_atoi.induct)
  case (2 i c cs)
  then show ?case
    by (cases "ISDIGIT c"; cases "i * 10 + int (unat c) < 2 ^ 31") auto
qed simp

lemma flags_loop_length: "flags_loop fmt flags = (flags', fmt') \<Longrightarrow> length fmt' \<le> length fmt"
proof (induction fmt flags rule: flags_loop.induct)
  case (2 c cs flags)
  then show ?case unfolding flags_loop.simps by (auto split: if_splits intro: le_SucI)
qed simp

lemma parse_spec_length:
  assumes "parse_spec fmt args = Some (cv, fmt', args')"
  shows "length fmt' \<le> length fmt"
proof -
  obtain flags f1 where f1: "flags_loop fmt 0 = (flags, f1)" by (cases "flags_loop fmt 0")
  obtain w fl f2 a2 where f2: "get_width f1 flags args = Some (w, fl, f2, a2)"
    and "\<exists>p f3 a3. get_precision f2 a2 = Some (p, f3, a3) \<and> (fmt' = f3 \<or> fmt' = tl f3)"
    using assms f1 by (auto simp: parse_spec_def Let_def option_simps split: if_splits)
  then obtain p f3 a3 where f3: "get_precision f2 a2 = Some (p, f3, a3)" "fmt' = f3 \<or> fmt' = tl f3" by blast
  have "length f2 \<le> length f1"
    using f2 by (auto simp: get_width_def option_simps split: if_splits dest: skip_atoi_length)
  moreover have "length f3 \<le> length f2"
    using f3(1) by (auto simp: get_precision_def Let_def option_simps split: if_splits dest!: skip_atoi_length)
  ultimately show ?thesis using flags_loop_length [OF f1] f3(2) by auto
qed

function vsn_loop :: "nat \<Rightarrow> byte list \<Rightarrow> arg list \<Rightarrow> outp \<Rightarrow> outp option" where
  "vsn_loop e [] args st = Some st"
| "vsn_loop e (c # cs) args st =
     (if c \<noteq> 37 then do { st \<leftarrow> putc e c st; vsn_loop e cs args st }
      else do {
        (cv, fmt, args) \<leftarrow> parse_spec cs args;
        (args, st) \<leftarrow> convert e cv (cur fmt) args st;
        vsn_loop e (tl fmt) args st })"
  by pat_completeness auto
termination
  by (relation "measure (\<lambda>(e, fmt, args, st). length fmt)")
    (auto dest!: parse_spec_length intro: le_imp_less_Suc order.trans)

text \<open>
  The result is \<open>str - buf\<close> as an \<open>int\<close>: the length of the whole text, whatever part of it fits, and
  negative when that is \<open>2 ^ 31\<close> or more.
\<close>

definition c_int :: "int \<Rightarrow> int" where
  "c_int n = (n + 2 ^ 31) mod 2 ^ 32 - 2 ^ 31"

definition rt_vsnprintf :: "nat \<Rightarrow> nat \<Rightarrow> byte list \<Rightarrow> arg list \<Rightarrow> mem \<Rightarrow> (int \<times> mem) option" where
  "rt_vsnprintf buf sz fmt args m = do {
     let e = (buf + sz) mod 2 ^ 32;
     let (e, sz) = (if e < buf then (2 ^ 32 - 1, 2 ^ 32 - 1 - buf) else (e, sz));
     (str, m) \<leftarrow> vsn_loop e fmt args (buf, m);
     m \<leftarrow> (if sz > 0 then (if str < e then store str 0 m else store (e - 1) 0 m) else Some m);
     Some (c_int (int str - int buf), m) }"

definition rt_snprintf :: "nat \<Rightarrow> nat \<Rightarrow> byte list \<Rightarrow> arg list \<Rightarrow> mem \<Rightarrow> (int \<times> mem) option" where
  "rt_snprintf buf sz fmt args m = rt_vsnprintf buf sz fmt args m"

definition rt_vsprintf :: "nat \<Rightarrow> byte list \<Rightarrow> arg list \<Rightarrow> mem \<Rightarrow> (int \<times> mem) option" where
  "rt_vsprintf buf fmt args m = rt_vsnprintf buf (2 ^ 32 - 1) fmt args m"

definition rt_sprintf :: "nat \<Rightarrow> byte list \<Rightarrow> arg list \<Rightarrow> mem \<Rightarrow> (int \<times> mem) option" where
  "rt_sprintf buf fmt args m = rt_vsprintf buf fmt args m"

text \<open>
  The result with the bytes \<open>rt_kprintf\<close> hands to the console device, where \<open>log_buf\<close> is its static
  buffer of 256 characters; the \<open>int\<close> it gets goes to an unsigned \<open>rt_size_t\<close>.
\<close>

definition RT_CONSOLEBUF_SIZE :: nat where "RT_CONSOLEBUF_SIZE = 256"

definition rt_kprintf :: "nat \<Rightarrow> byte list \<Rightarrow> arg list \<Rightarrow> mem \<Rightarrow> (nat \<times> byte option list \<times> mem) option" where
  "rt_kprintf log_buf fmt args m = do {
     (n, m) \<leftarrow> rt_vsnprintf log_buf (RT_CONSOLEBUF_SIZE - 1) fmt args m;
     let n = nat (n mod 2 ^ 32);
     let n = (if n > RT_CONSOLEBUF_SIZE - 1 then RT_CONSOLEBUF_SIZE - 1 else n);
     Some (n, map (\<lambda>i. m (log_buf + i)) [0..<n], m) }"

subsection \<open>The text of a conversion\<close>

fun to_digits :: "nat \<Rightarrow> nat \<Rightarrow> nat list" where
  "to_digits b n = (if n = 0 \<or> b < 2 then [] else to_digits b (n div b) @ [n mod b])"

declare to_digits.simps [simp del]

definition number_sign :: "byte \<Rightarrow> u32 \<Rightarrow> byte list" where
  "number_sign type num =
     (if \<not> bit type 1 then [] else if sint num < 0 then [45] else if bit type 2 then [43]
      else if bit type 3 then [32] else [])"

definition number_value :: "byte \<Rightarrow> u32 \<Rightarrow> nat" where
  "number_value type num = (if bit type 1 \<and> sint num < 0 then unat (- num) else unat num)"

definition number_digits :: "nat \<Rightarrow> byte \<Rightarrow> nat \<Rightarrow> byte list" where
  "number_digits base type n =
     map ((!) (if bit type 6 then large_digits else small_digits))
       (if n = 0 then [0] else to_digits (if base = 10 then 10 else 16) n)"

definition number_text :: "nat \<Rightarrow> int \<Rightarrow> int \<Rightarrow> byte \<Rightarrow> u32 \<Rightarrow> byte list" where
  "number_text base width precision type num =
     (let sg = number_sign type num;
          ds = number_digits base type (number_value type num);
          zs = replicate (nat (precision - int (length ds))) 48;
          body = (if precision \<noteq> 0 then ds else []);
          k = nat (width - max (int (length ds)) precision - int (length sg))
      in if bit type 4 then sg @ zs @ body @ replicate k 32
         else if bit type 0 then sg @ replicate k 48 @ zs @ body
         else replicate k 32 @ sg @ zs @ body)"

definition char_text :: "conversion \<Rightarrow> byte \<Rightarrow> byte list" where
  "char_text cv c =
     (let pad = replicate (nat (cv_width cv - 1)) 32 in if bit (cv_flags cv) 4 then c # pad else pad @ [c])"

definition str_text :: "conversion \<Rightarrow> byte list option \<Rightarrow> byte list" where
  "str_text cv s =
     (let s = (case s of None \<Rightarrow> null_text | Some s \<Rightarrow> s);
          s = (if 0 \<le> cv_width cv then take (nat (cv_width cv)) s else s);
          s = (if 0 < cv_precision cv then take (nat (cv_precision cv)) s else s);
          pad = replicate (nat (cv_width cv) - length s) 32
      in if bit (cv_flags cv) 4 then s @ pad else pad @ s)"

definition int_text :: "conversion \<Rightarrow> nat \<Rightarrow> byte \<Rightarrow> u32 \<Rightarrow> byte list" where
  "int_text cv base flags n =
     number_text base (cv_width cv) (cv_precision cv) flags
       (if cv_qualifier cv = 104 then
          (if bit flags 1 then scast (ucast n :: 16 word) else ucast (ucast n :: 16 word)) else n)"

definition conv_text :: "conversion \<Rightarrow> byte \<Rightarrow> arg list \<Rightarrow> (arg list \<times> byte list) option" where
  "conv_text cv c args =
     (if c = 99 then map_option (\<lambda>(n, args). (args, char_text cv (ucast n))) (va_int args)
      else if c = 115 then map_option (\<lambda>(s, args). (args, str_text cv s)) (va_str args)
      else if c = 112 then map_option (\<lambda>(n, args). (args,
        if cv_width cv = - 1 then number_text 16 8 (cv_precision cv) (set_bit 0 (cv_flags cv)) n
        else number_text 16 (cv_width cv) (cv_precision cv) (cv_flags cv) n)) (va_ptr args)
      else if c = 37 then Some (args, [37])
      else if c = 111 then map_option (\<lambda>(n, args). (args, int_text cv 8 (cv_flags cv) n)) (va_int args)
      else if c = 88 then map_option (\<lambda>(n, args). (args, int_text cv 16 (set_bit 6 (cv_flags cv)) n)) (va_int args)
      else if c = 120 then map_option (\<lambda>(n, args). (args, int_text cv 16 (cv_flags cv) n)) (va_int args)
      else if c = 100 \<or> c = 105 then
        map_option (\<lambda>(n, args). (args, int_text cv 10 (set_bit 1 (cv_flags cv)) n)) (va_int args)
      else if c = 117 then map_option (\<lambda>(n, args). (args, int_text cv 10 (cv_flags cv) n)) (va_int args)
      else Some (args, if c \<noteq> 0 then [37, c] else [37]))"

function format_text :: "byte list \<Rightarrow> arg list \<Rightarrow> byte list option" where
  "format_text [] args = Some []"
| "format_text (c # cs) args =
     (if c \<noteq> 37 then map_option ((#) c) (format_text cs args)
      else do {
        (cv, fmt, args) \<leftarrow> parse_spec cs args;
        (args, t) \<leftarrow> conv_text cv (cur fmt) args;
        map_option ((@) t) (format_text (tl fmt) args) })"
  by pat_completeness auto
termination
  by (relation "measure (\<lambda>(fmt, args). length fmt)")
    (auto dest!: parse_spec_length intro: le_imp_less_Suc order.trans)

subsection \<open>The loops write their text\<close>

lemma puts_append: "puts e (xs @ ys) st = do { st \<leftarrow> puts e xs st; puts e ys st }"
proof (induction xs arbitrary: st)
  case (Cons x xs)
  then show ?case by (cases "putc e x st") simp_all
qed simp

lemma puts_single: "puts e [c] st = putc e c st"
  by (cases "putc e c st") simp_all

lemma puts_Nil: "puts e [] = Some"
  by (rule ext) simp

lemma pad_loop_puts:
  "pad_loop e c sz st = do { st \<leftarrow> puts e (replicate (nat sz) c) st; Some (min sz 0 - 1, st) }"
proof (induction e c sz st rule: pad_loop.induct)
  case (1 e c sz st)
  show ?case
  proof (cases "sz > 0")
    case True
    then have "nat sz = Suc (nat (sz - 1))" by simp
    then show ?thesis using 1 True by (cases "putc e c st") (simp_all add: pad_loop.simps [of e c sz])
  next
    case False
    then show ?thesis by (simp add: pad_loop.simps [of e c sz])
  qed
qed

lemma pre_pad_loop_puts:
  "pre_pad_loop e w st = do { st \<leftarrow> puts e (replicate (nat (w - 1)) 32) st; Some (min (w - 1) 0, st) }"
proof (induction e w st rule: pre_pad_loop.induct)
  case (1 e w st)
  show ?case
  proof (cases "w - 1 > 0")
    case True
    then have "nat (w - 1) = Suc (nat (w - 1 - 1))" by simp
    then show ?thesis using 1 True by (cases "putc e 32 st") (simp_all add: pre_pad_loop.simps [of e w])
  next
    case False
    then show ?thesis by (simp add: pre_pad_loop.simps [of e w])
  qed
qed

lemma str_pad_loop_puts:
  "str_pad_loop e len w st = do { st \<leftarrow> puts e (replicate (nat (w - len)) 32) st; Some (min w len - 1, st) }"
proof (induction e len w st rule: str_pad_loop.induct)
  case (1 e len w st)
  show ?case
  proof (cases "len < w")
    case True
    then have "nat (w - len) = Suc (nat (w - 1 - len))" by simp
    then show ?thesis using 1 True by (cases "putc e 32 st") (simp_all add: str_pad_loop.simps [of e len w])
  next
    case False
    then show ?thesis by (simp add: str_pad_loop.simps [of e len w])
  qed
qed

lemma zero_loop_puts: "zero_loop e i p st = puts e (replicate (nat (p - i)) 48) st"
proof (induction e i p st rule: zero_loop.induct)
  case (1 e i p st)
  show ?case
  proof (cases "i < p")
    case True
    then have "nat (p - i) = Suc (nat (p - 1 - i))" by simp
    then show ?thesis using 1 True by (cases "putc e 48 st") (simp_all add: zero_loop.simps [of e i p])
  next
    case False
    then show ?thesis by (simp add: zero_loop.simps [of e i p])
  qed
qed

lemma tmp_loop_puts:
  "i \<le> length tmp \<Longrightarrow> tmp_loop e tmp i p st = puts e (if p \<noteq> 0 then rev (take i tmp) else []) st"
proof (induction i arbitrary: st)
  case (Suc i)
  then show ?case by (cases "putc e (tmp ! i) st") (simp_all add: take_Suc_conv_app_nth)
qed simp

text \<open>The digit array never overflows: a 32-bit number has at most ten digits.\<close>

lemma length_to_digits: "n < b ^ k \<Longrightarrow> length (to_digits b n) \<le> k"
proof (induction b n arbitrary: k rule: to_digits.induct)
  case (1 b n)
  show ?case
  proof (cases "n = 0 \<or> b < 2")
    case True
    then show ?thesis by (simp add: to_digits.simps [of b n])
  next
    case False
    then obtain j where k: "k = Suc j" using 1(2) by (cases k) auto
    have "n div b < b ^ j" using 1(2) False unfolding k by (simp add: div_less_iff_less_mult mult.commute)
    then show ?thesis using 1(1) [OF False] False k by (simp add: to_digits.simps [of b n])
  qed
qed

lemma to_digits_bounded: "d \<in> set (to_digits b n) \<Longrightarrow> d < b"
proof (induction b n rule: to_digits.induct)
  case (1 b n)
  then show ?case by (cases "n = 0 \<or> b < 2") (auto simp: to_digits.simps [of b n])
qed

lemma to_digits_0 [simp]: "to_digits b 0 = []"
  by (simp add: to_digits.simps)

lemma to_digits_pos: "2 \<le> b \<Longrightarrow> 0 < n \<Longrightarrow> to_digits b n = to_digits b (n div b) @ [n mod b]"
  by (subst to_digits.simps) simp

text \<open>The digits are those of the number, without a leading zero.\<close>

lemma to_digits_value: "2 \<le> b \<Longrightarrow> foldl (\<lambda>v d. v * b + d) 0 (to_digits b n) = n"
proof (induction b n rule: to_digits.induct)
  case (1 b n)
  then show ?case by (cases "n = 0") (simp_all add: to_digits_pos)
qed

lemma to_digits_nonempty: "2 \<le> b \<Longrightarrow> to_digits b n = [] \<longleftrightarrow> n = 0"
  by (cases "n = 0") (simp_all add: to_digits_pos)

lemma to_digits_hd: "2 \<le> b \<Longrightarrow> 0 < n \<Longrightarrow> hd (to_digits b n) \<noteq> 0"
proof (induction b n rule: to_digits.induct)
  case (1 b n)
  show ?case
  proof (cases "n div b = 0")
    case True
    then have "n mod b = n" using 1(2) by (simp add: div_eq_0_iff)
    then show ?thesis using 1(2,3) True by (simp add: to_digits_pos)
  next
    case False
    then have "hd (to_digits b (n div b)) \<noteq> 0" using 1 by simp
    then show ?thesis using 1(2,3) False by (simp add: to_digits_pos [of b n] to_digits_nonempty hd_append)
  qed
qed

lemma digit_loop_text:
  defines "b base \<equiv> if base = 10 then 10 else (16 :: nat)"
  assumes "length tmp + length (to_digits (b base) (unat num)) \<le> 16"
  shows "digit_loop ds base num tmp = Some (tmp @ rev (map ((!) ds) (to_digits (b base) (unat num))))"
  using assms(2)
proof (induction ds base num tmp rule: digit_loop.induct)
  case (1 ds base num tmp)
  show ?case
  proof (cases "num = 0")
    case True
    then show ?thesis by (simp add: digit_loop.simps to_digits.simps)
  next
    case False
    then have u: "unat num \<noteq> 0" by (simp add: unat_eq_0)
    have b: "2 \<le> b base" by (simp add: b_def)
    let ?q = "unat num div b base" and ?r = "unat num mod b base"
    have d: "to_digits (b base) (unat num) = to_digits (b base) ?q @ [?r]"
      using u b by (subst to_digits.simps) simp
    let ?w = "if base = 10 then num div 10 else num div 16"
    have q: "divide num base = (?r, ?w)" "unat ?w = ?q"
      by (simp_all add: divide_def b_def unat_mod unat_div)
    define q where "q = ?w"
    note q = q [folded q_def]
    have l: "length tmp < 16" using 1(2) unfolding d by simp
    have "digit_loop ds base num tmp = digit_loop ds base q (tmp @ [ds ! ?r])"
      using False l q(1) by (subst digit_loop.simps) simp
    also have "\<dots> = Some ((tmp @ [ds ! ?r]) @ rev (map ((!) ds) (to_digits (b base) (unat q))))"
      by (rule 1(1) [OF False l q(1) [symmetric]]) (use 1(2) d q(2) in simp)
    finally show ?thesis by (simp add: d q(2))
  qed
qed

lemma print_number_digits:
  fixes num :: u32
  assumes that: "ds ! 0 = 48"
  shows "(if num = 0 then Some [48] else digit_loop ds base num []) =
    Some (rev (map ((!) ds) (if unat num = 0 then [0] else to_digits (if base = 10 then 10 else 16) (unat num))))"
proof (cases "num = 0")
  case True
  then show ?thesis using that by simp
next
  case False
  have n: "unat num < 10 ^ 10"
  proof -
    have "unat num < 2 ^ 32" using unsigned_less [of num, where ?'a = nat] by simp
    also have "(2 :: nat) ^ 32 < 10 ^ 10" by simp
    finally show ?thesis .
  qed
  have "(10 :: nat) ^ 10 \<le> 16 ^ 10" by simp
  then have "length (to_digits (if base = 10 then 10 else 16) (unat num)) \<le> 10"
    using length_to_digits [of "unat num" 10 10] length_to_digits [of "unat num" 16 10] n by simp
  then show ?thesis
    using False digit_loop_text [of "[]" base num ds] by (simp add: unat_eq_0)
qed

text \<open>What \<open>print_number\<close> writes, on every combination of flags.\<close>

theorem print_number_puts:
  "print_number e num base width precision type st = puts e (number_text base width precision type num) st"
proof -
  let ?ds = "if bit type 6 then large_digits else small_digits"
  let ?sg = "number_sign type num" and ?v = "number_value type num"
  let ?digits = "number_digits base type ?v"
  define sn where "sn = (if bit type 1 then
      (if sint num < 0 then (45 :: byte, - num)
       else if bit type 2 then (43, num) else if bit type 3 then (32, num) else (0, num)) else (0, num))"
  obtain sign n where sn': "sn = (sign, n)" by (cases sn)
  have sg: "?sg = (if sign \<noteq> 0 then [sign] else [])" "unat n = ?v"
    using sn' by (auto simp: sn_def number_sign_def number_value_def split: if_splits)
  have "?ds ! 0 = 48" by (simp add: large_digits_def small_digits_def)
  from print_number_digits [OF this, of n base]
  have d: "(if n = 0 then Some [48] else digit_loop ?ds base n []) = Some (rev ?digits)"
    by (simp only: sg(2) number_digits_def)
  define t where "t = (if bit type 4 then unset_bit 0 type else type)"
  have t: "bit t 4 = bit type 4" "bit t 0 \<longleftrightarrow> bit type 0 \<and> \<not> bit type 4" "bit t 1 = bit type 1"
    "bit t 2 = bit type 2" "bit t 3 = bit type 3"
    by (auto simp: t_def bit_unset_bit_iff)
  let ?i = "int (length ?digits)"
  let ?size = "width - max ?i precision"
  let ?sign = "\<lambda>size st. if sign \<noteq> 0 then do { st \<leftarrow> putc e sign st; Some (size - 1, st) } else Some (size, st)"
  have sgn: "?sign size st = do { st \<leftarrow> puts e ?sg st; Some (size - int (length ?sg), st) }" for size st
    by (simp add: sg(1) puts_single)
  have mx: "(if ?i > precision then ?i else precision) = max ?i precision" by simp
  have zs: "zero_loop e ?i (max ?i precision) st = puts e (replicate (nat (precision - ?i)) 48) st" for st
    by (simp add: zero_loop_puts max_def)
  have tm: "tmp_loop e (rev ?digits) (length (rev ?digits)) precision st = puts e (if precision \<noteq> 0 then ?digits else []) st" for st
    by (simp add: tmp_loop_puts)
  have e: "print_number e num base width precision type st = do {
     (size, st) \<leftarrow>
       (if \<not> (bit t 0 \<or> bit t 4) then pad_loop e 32 (if sign \<noteq> 0 \<and> ?size > 0 then ?size - 1 else ?size) st
        else Some (?size, st));
     (size, st) \<leftarrow> ?sign size st;
     (size, st) \<leftarrow> (if \<not> bit t 4 then pad_loop e (if bit t 0 then 48 else 32) size st else Some (size, st));
     st \<leftarrow> zero_loop e ?i (max ?i precision) st;
     st \<leftarrow> tmp_loop e (rev ?digits) (length (rev ?digits)) precision st;
     (_, st) \<leftarrow> pad_loop e 32 size st;
     Some st }"
    unfolding print_number_def Let_def t_def [symmetric] t(3-5) sn_def [symmetric] sn' prod.case d
      Option.bind.bind_lunit length_rev mx ..
  let ?k = "nat (?size - int (length ?sg))"
  have none: "nat (min x 0 - 1) = 0" "nat (min x 0 - 1 - y) = 0" if "0 \<le> y" for x y :: int using that by auto
  consider (left) "bit type 4" | (zero) "\<not> bit type 4" "bit type 0" | (plain) "\<not> bit type 4" "\<not> bit type 0" by blast
  then show ?thesis
  proof cases
    case left
    then show ?thesis
      unfolding e t(1,2) sgn zs tm
      by (simp add: pad_loop_puts number_text_def Let_def puts_append Option.bind_assoc)
  next
    case zero
    then show ?thesis
      unfolding e t(1,2) sgn zs tm
      by (simp add: pad_loop_puts number_text_def Let_def puts_append Option.bind_assoc none puts_Nil)
  next
    case plain
    have k: "nat (if sign \<noteq> 0 \<and> ?size > 0 then ?size - 1 else ?size) = ?k" by (auto simp: sg(1))
    from plain show ?thesis
      unfolding e t(1,2) sgn zs tm pad_loop_puts k
      by (simp add: number_text_def Let_def puts_append Option.bind_assoc none puts_Nil)
  qed
qed

lemma s_len_min: "(w < 0 \<or> len \<le> w) \<Longrightarrow> 0 \<le> len \<Longrightarrow>
    s_len w len s = (if 0 \<le> w then min w (len + int (length s)) else len + int (length s))"
  by (induction w len s rule: s_len.induct) auto

lemma emit_char_puts: "emit_char e cv c st = puts e (char_text cv c) st"
proof (cases "bit (cv_flags cv) 4")
  case True
  then show ?thesis
    by (cases "putc e c st") (simp_all add: emit_char_def char_text_def Let_def pre_pad_loop_puts)
next
  case False
  have "nat (min (cv_width cv - 1) 0 - 1) = 0" by simp
  then show ?thesis
    using False by (simp add: emit_char_def char_text_def Let_def pre_pad_loop_puts puts_append puts_single
        puts_Nil Option.bind_assoc)
qed

lemma emit_str_puts: "emit_str e cv s st = puts e (str_text cv s) st"
proof -
  let ?s = "case s of None \<Rightarrow> null_text | Some s \<Rightarrow> s"
  let ?w = "cv_width cv" and ?p = "cv_precision cv"
  let ?s1 = "if 0 \<le> ?w then take (nat ?w) ?s else ?s"
  let ?s2 = "if 0 < ?p then take (nat ?p) ?s1 else ?s1"
  have l1: "s_len ?w 0 ?s = int (length ?s1)" by (subst s_len_min) auto
  have l2: "(if ?p > 0 \<and> int (length ?s1) > ?p then ?p else int (length ?s1)) = int (length ?s2)" by auto
  have tk: "take (length ?s2) ?s = ?s2" by (auto simp: min_def)
  have pd: "nat (?w - int (length ?s2)) = nat ?w - length ?s2" by simp
  have none: "nat (min ?w (int (length ?s2)) - 1 - int (length ?s2)) = 0" by simp
  have e: "emit_str e cv s st = do {
     (width, st) \<leftarrow> (if \<not> bit (cv_flags cv) 4 then str_pad_loop e (int (length ?s2)) ?w st else Some (?w, st));
     st \<leftarrow> puts e ?s2 st;
     (_, st) \<leftarrow> str_pad_loop e (int (length ?s2)) width st;
     Some st }"
    unfolding emit_str_def Let_def l1 l2 nat_int tk ..
  have t: "str_text cv s = (if bit (cv_flags cv) 4 then ?s2 @ replicate (nat ?w - length ?s2) 32
      else replicate (nat ?w - length ?s2) 32 @ ?s2)"
    unfolding str_text_def Let_def ..
  show ?thesis
    unfolding e t str_pad_loop_puts pd
    by (cases "bit (cv_flags cv) 4") (simp_all add: puts_append Option.bind_assoc none puts_Nil pd del: nat_minus_as_int)
qed

lemma emit_int_puts: "emit_int e cv base flags n st = puts e (int_text cv base flags n) st"
  by (simp add: emit_int_def int_text_def print_number_puts Let_def)

lemma convert_puts:
  "convert e cv c args st =
     do { (args, t) \<leftarrow> conv_text cv c args; st \<leftarrow> puts e t st; Some (args, st) }"
proof -
  have opt: "do { (n, as) \<leftarrow> m; st \<leftarrow> puts e (f n) st; Some (as, st) } =
      do { (as, t) \<leftarrow> map_option (\<lambda>(n, as). (as, f n)) m; st \<leftarrow> puts e t st; Some (as, st) }"
    for m :: "('x \<times> arg list) option" and f
    by (cases m) auto
  show ?thesis
    unfolding convert_def conv_text_def emit_char_puts emit_str_puts emit_int_puts print_number_puts Let_def
    by (auto simp: opt puts_single Option.bind_assoc split: prod.split)
qed

subsection \<open>The whole format\<close>

text \<open>The text does not depend on the buffer.\<close>

lemma vsn_loop_puts: "vsn_loop e fmt args st = do { t \<leftarrow> format_text fmt args; puts e t st }"
proof (induction e fmt args st rule: vsn_loop.induct)
  case (2 e c cs args st)
  show ?case
  proof (cases "c = 37")
    case False
    then show ?thesis
      using 2(1) by (cases "putc e c st"; cases "format_text cs args") simp_all
  next
    case True
    show ?thesis
    proof (cases "parse_spec cs args")
      case None
      then show ?thesis using True by simp
    next
      case (Some r)
      obtain cv fmt as where r: "r = (cv, fmt, as)" by (cases r)
      show ?thesis
      proof (cases "conv_text cv (cur fmt) as")
        case None
        then show ?thesis using True Some r by (simp add: convert_puts)
      next
        case (Some q)
        obtain as' t where q: "q = (as', t)" by (cases q)
        note s = \<open>parse_spec cs args = Some r\<close> [unfolded r]
        note conv = convert_puts [of e cv "cur fmt" as st, unfolded Some q]
        show ?thesis
        proof (cases "puts e t st")
          case None
          then show ?thesis
            using True s conv Some q by (cases "format_text (tl fmt) as'") (simp_all add: puts_append)
        next
          case (Some st')
          then have "convert e cv (cur fmt) as st = Some (as', st')" using conv by simp
          moreover have "vsn_loop e (tl fmt) as' st' = do { t \<leftarrow> format_text (tl fmt) as'; puts e t st' }"
            using 2(2) [OF _ s refl refl] True calculation by simp
          ultimately show ?thesis
            using True s \<open>conv_text cv (cur fmt) as = Some q\<close> q Some
            by (cases "format_text (tl fmt) as'") (simp_all add: puts_append)
        qed
      qed
    qed
  qed
qed simp

text \<open>In a mapped buffer every output succeeds, and writes what fits.\<close>

lemma putc_ok:
  "mapped m str (min (e - str) 1) \<Longrightarrow> str + 1 < 2 ^ 32 \<Longrightarrow> putc e c (str, m) = Some (str + 1, written str (take (e - str) [c]) m)"
proof (cases "str < e")
  case True
  assume m: "mapped m str (min (e - str) 1)" and b: "str + 1 < 2 ^ 32"
  have "str \<in> dom m" using True m by (auto simp: mapped_def)
  moreover obtain k where "e - str = Suc k" using True by (cases "e - str") auto
  ultimately show ?thesis using True b by (simp add: putc_def store_dom written_Cons)
qed (simp add: putc_def)

lemma mapped_written: "mapped m a (length bs) \<Longrightarrow> mapped (written a bs m) x n = mapped m x n"
  by (auto simp: mapped_def written_def dom_def subset_iff split: if_splits)

lemma mapped_prefix: "mapped m a n \<Longrightarrow> k \<le> n \<Longrightarrow> mapped m a k"
  by (auto simp: mapped_def subset_iff)

lemma mapped_suffix: "mapped m a n \<Longrightarrow> mapped m (a + k) (n - k)"
  unfolding mapped_def by (rule order.trans [rotated]) auto

lemma written_append: "written a (xs @ ys) m = written (a + length xs) ys (written a xs m)"
proof (induction xs arbitrary: a m)
  case (Cons x xs)
  show ?case using Cons [of "Suc a" "m(a \<mapsto> x)"] by (simp add: written_Cons del: fun_upd_apply)
qed simp

lemma puts_ok:
  "mapped m str (min (e - str) (length t)) \<Longrightarrow> str + length t < 2 ^ 32 \<Longrightarrow>
    puts e t (str, m) = Some (str + length t, written str (take (e - str) t) m)"
proof (induction t arbitrary: str m)
  case (Cons c t)
  let ?m = "written str (take (e - str) [c]) m" and ?l = "min (e - str) (length (c # t))"
  have m0: "mapped m str (min (e - str) 1)" by (rule mapped_prefix [OF Cons.prems(1)]) simp
  then have h: "mapped m str (length (take (e - str) [c]))" by (simp add: min.commute)
  have "min (e - Suc str) (length t) = ?l - 1" by auto
  then have "mapped m (Suc str) (min (e - Suc str) (length t))" using mapped_suffix [OF Cons.prems(1), of 1] by simp
  then have "mapped ?m (Suc str) (min (e - Suc str) (length t))" by (simp only: mapped_written [OF h])
  then have "puts e t (Suc str, ?m) = Some (Suc str + length t, written (Suc str) (take (e - Suc str) t) ?m)"
    by (rule Cons.IH) (use Cons.prems(2) in simp)
  moreover have "puts e (c # t) (str, m) = puts e t (Suc str, ?m)" using putc_ok [OF m0] Cons.prems(2) by simp
  moreover have "written (Suc str) (take (e - Suc str) t) ?m = written str (take (e - str) (c # t)) m"
  proof (cases "e - str")
    case (Suc k)
    then show ?thesis by (simp add: written_Cons) (metis Suc_diff_Suc Suc_inject diff_is_0_eq' nat.distinct(1) not_less)
  qed simp
  ultimately show ?case by simp
qed simp

lemma puts_past_end: "str < 2 ^ 32 \<Longrightarrow> \<not> str + length t < 2 ^ 32 \<Longrightarrow> puts e t (str, m) = None"
proof (induction t arbitrary: str m)
  case (Cons c t)
  then show ?case by (cases "Suc str < 2 ^ 32") (auto simp: putc_def option_simps bind_eq_None_conv)
qed simp

text \<open>
  The buffer ends up with as much of the text as fits before the terminator, nothing outside it is
  written, and the result is the length of the whole text.
\<close>

lemma c_int_small: "0 \<le> n \<Longrightarrow> n < 2 ^ 31 \<Longrightarrow> c_int n = n"
  by (simp add: c_int_def)

lemma c_int_length:
  assumes "n < 2 ^ 32"
  shows "c_int (int n) = (if n < 2 ^ 31 then int n else int n - 2 ^ 32)"
proof (cases "n < 2 ^ 31")
  case False
  then have "int n + 2 ^ 31 = (int n - 2 ^ 31) + 2 ^ 32" "0 \<le> int n - 2 ^ 31" "int n - 2 ^ 31 < 2 ^ 32"
    using assms by simp_all
  then have "(int n + 2 ^ 31) mod 2 ^ 32 = int n - 2 ^ 31" by (metis mod_add_self2 mod_pos_pos_trivial)
  then show ?thesis using False by (simp add: c_int_def)
qed (simp add: c_int_def)

lemma c_int_mod: "c_int n mod 2 ^ 32 = n mod 2 ^ 32"
  by (simp add: c_int_def mod_simps)

theorem rt_vsnprintf_ok:
  assumes m: "mapped m buf sz" and sz: "0 < sz" "buf + sz < 2 ^ 32"
    and t: "format_text fmt args = Some t" "buf + length t < 2 ^ 32"
  shows "rt_vsnprintf buf sz fmt args m = Some (c_int (int (length t)), written buf (take (sz - 1) t @ [0]) m)"
proof -
  let ?e = "buf + sz" and ?m = "written buf (take sz t) m"
  have e: "(buf + sz) mod 2 ^ 32 = ?e" using sz(2) by simp
  have "mapped m buf (min (?e - buf) (length t))" by (rule mapped_prefix [OF m]) simp
  from puts_ok [OF this t(2)]
  have v: "vsn_loop ?e fmt args (buf, m) = Some (buf + length t, ?m)" by (simp add: vsn_loop_puts t(1))
  have mt: "mapped ?m x n = mapped m x n" for x n
    by (rule mapped_written) (rule mapped_prefix [OF m], simp)
  have r: "rt_vsnprintf buf sz fmt args m = do {
      m \<leftarrow> (if buf + length t < ?e then store (buf + length t) 0 ?m else store (?e - 1) 0 ?m);
      Some (c_int (int (length t)), m) }"
    unfolding rt_vsnprintf_def e using sz(1) by (simp add: Let_def v)
  show ?thesis
  proof (cases "length t < sz")
    case True
    have "buf + length t \<in> dom m" by (rule subsetD [OF m [unfolded mapped_def]]) (use True in simp)
    then have "mapped ?m (buf + length t) 1" unfolding mt by (simp add: mapped_def)
    then have "buf + length t \<in> dom ?m" by (simp add: mapped_def)
    then have "store (buf + length t) 0 ?m = Some (?m(buf + length t \<mapsto> 0))" by (rule store_dom)
    moreover have "?m(buf + length t \<mapsto> 0) = written buf (take (sz - 1) t @ [0]) m"
      using True by (simp add: written_append written_Cons del: fun_upd_apply)
    ultimately show ?thesis using True unfolding r by simp
  next
    case False
    have "buf + sz - 1 \<in> dom m" by (rule subsetD [OF m [unfolded mapped_def]]) (use sz(1) in simp)
    then have "mapped ?m (buf + sz - 1) 1" unfolding mt by (simp add: mapped_def)
    then have "buf + sz - 1 \<in> dom ?m" by (simp add: mapped_def)
    then have "store (buf + sz - 1) 0 ?m = Some (?m(buf + sz - 1 \<mapsto> 0))" by (rule store_dom)
    moreover have "written buf (take (sz - 1) t @ [0]) m = ?m(buf + sz - 1 \<mapsto> 0)"
    proof (rule ext)
      fix x
      show "written buf (take (sz - 1) t @ [0]) m x = (?m(buf + sz - 1 \<mapsto> 0)) x"
        using False sz(1) by (cases "x = buf + sz - 1") (auto simp: written_def nth_append)
    qed
    ultimately show ?thesis using False unfolding r by simp
  qed
qed

text \<open>\<open>rt_sprintf\<close> bounds the buffer by the end of the address space only.\<close>

lemma rt_sprintf_ok:
  assumes m: "mapped m buf (length t + 1)" and b: "0 < buf" "buf + length t + 1 < 2 ^ 32"
    and t: "format_text fmt args = Some t"
  shows "rt_sprintf buf fmt args m = Some (c_int (int (length t)), written buf (t @ [0]) m)"
proof -
  let ?e = "2 ^ 32 - 1 :: nat" and ?m = "written buf t m"
  have "(buf + (2 ^ 32 - 1)) mod 2 ^ 32 = (buf - 1) mod (2 ^ 32 :: nat)"
    using b by (simp add: mod_if)
  then have e: "(buf + (2 ^ 32 - 1)) mod 2 ^ 32 = buf - 1" using b by simp
  have "mapped m buf (min (?e - buf) (length t))" by (rule mapped_prefix [OF m]) simp
  from puts_ok [OF this] b have v: "vsn_loop ?e fmt args (buf, m) = Some (buf + length t, ?m)"
    using b by (simp add: vsn_loop_puts t)
  have "mapped ?m (buf + length t) 1"
    using mapped_suffix [OF m, of "length t"] mapped_prefix [OF m, of "length t"] by (simp add: mapped_written)
  then have "store (buf + length t) 0 ?m = Some (?m(buf + length t \<mapsto> 0))"
    by (intro store_dom) (simp add: mapped_def)
  moreover have "?m(buf + length t \<mapsto> 0) = written buf (t @ [0]) m"
    by (simp add: written_append written_Cons del: fun_upd_apply)
  moreover have "(if (buf + (2 ^ 32 - 1)) mod 2 ^ 32 < buf then (?e, ?e - buf)
      else ((buf + (2 ^ 32 - 1)) mod 2 ^ 32, 2 ^ 32 - 1)) = (?e, ?e - buf)"
    unfolding e using b by simp
  ultimately show ?thesis
    using b unfolding rt_sprintf_def rt_vsprintf_def rt_vsnprintf_def Let_def by (simp only: prod.case v) simp
qed

text \<open>
  \<open>rt_kprintf\<close> gives its buffer as one character shorter than it is, and the device the length of the
  text up to that size. A text that does not fit loses one character more than it must, for a zero.
\<close>

theorem rt_kprintf_ok:
  assumes m: "mapped m log_buf RT_CONSOLEBUF_SIZE" and b: "log_buf + RT_CONSOLEBUF_SIZE < 2 ^ 32"
    and t: "format_text fmt args = Some t" "log_buf + length t < 2 ^ 32"
  shows "\<exists>m'. rt_kprintf log_buf fmt args m =
    Some (min (length t) 255, map Some (if length t < 255 then t else take 254 t @ [0]), m')"
proof -
  let ?m = "written log_buf (take 254 t @ [0]) m" and ?n = "min (length t) 255"
  have "mapped m log_buf 255" using m unfolding RT_CONSOLEBUF_SIZE_def by (rule mapped_prefix) simp
  from rt_vsnprintf_ok [OF this _ _ t] b
  have v: "rt_vsnprintf log_buf (RT_CONSOLEBUF_SIZE - 1) fmt args m = Some (c_int (int (length t)), ?m)"
    by (simp add: RT_CONSOLEBUF_SIZE_def)
  have n: "nat (c_int (int (length t)) mod 2 ^ 32) = length t" using t(2) unfolding c_int_mod by simp
  have "map (\<lambda>i. ?m (log_buf + i)) [0..<?n] = map Some (if length t < 255 then t else take 254 t @ [0])"
    by (rule nth_equalityI) (auto simp: written_def nth_append min_def split: if_splits)
  moreover have "(if length t > RT_CONSOLEBUF_SIZE - 1 then RT_CONSOLEBUF_SIZE - 1 else length t) = ?n"
    by (simp add: RT_CONSOLEBUF_SIZE_def)
  ultimately have "rt_kprintf log_buf fmt args m =
      Some (?n, map Some (if length t < 255 then t else take 254 t @ [0]), ?m)"
    unfolding rt_kprintf_def v bind.simps prod.case n Let_def by (simp only:)
  then show ?thesis by blast
qed

lemma rt_vsnprintf_fails: "format_text fmt args = None \<Longrightarrow> rt_vsnprintf buf sz fmt args m = None"
  by (simp add: rt_vsnprintf_def vsn_loop_puts Let_def)

text \<open>A format without a percent sign is copied.\<close>

lemma format_text_plain: "37 \<notin> set fmt \<Longrightarrow> format_text fmt args = Some fmt"
  by (induction fmt) auto

text \<open>Reading back the digits of a number.\<close>

definition decimal :: "nat \<Rightarrow> byte list" where
  "decimal n = map (\<lambda>d. word_of_nat (48 + d)) (if n = 0 then [0] else to_digits 10 n)"

lemma digit_byte:
  fixes d :: nat
  assumes "d < 10"
  shows "ISDIGIT (word_of_nat (48 + d))" "unat (word_of_nat (48 + d) :: byte) = 48 + d"
    "small_digits ! d = word_of_nat (48 + d)"
proof -
  from assms have "d = 0 \<or> d = 1 \<or> d = 2 \<or> d = 3 \<or> d = 4 \<or> d = 5 \<or> d = 6 \<or> d = 7 \<or> d = 8 \<or> d = 9" by presburger
  then show "ISDIGIT (word_of_nat (48 + d))" "unat (word_of_nat (48 + d) :: byte) = 48 + d"
    "small_digits ! d = word_of_nat (48 + d)"
    by (elim disjE; simp add: ISDIGIT_def small_digits_def)+
qed

lemma skip_atoi_digits:
  assumes "\<forall>d \<in> set ds. d < 10" "\<not> ISDIGIT (cur rest)" "foldl (\<lambda>v d. v * 10 + d) i ds < 2 ^ 31 - 48"
  shows "skip_atoi (int i) (map (\<lambda>d. word_of_nat (48 + d)) ds @ rest) =
    Some (int (foldl (\<lambda>v d. v * 10 + d) i ds), rest)"
  using assms
proof (induction ds arbitrary: i)
  case Nil
  then show ?case by (cases rest) simp_all
next
  case (Cons d ds)
  have "i \<le> foldl (\<lambda>v d. v * 10 + d) i xs" for i :: nat and xs :: "nat list"
  proof (induction xs arbitrary: i)
    case (Cons x xs)
    have "i \<le> i * 10 + x" by simp
    then show ?case using Cons [of "i * 10 + x"] by simp
  qed simp
  from this [of "i * 10 + d" ds] have b: "i * 10 + d < 2 ^ 31 - 48" using Cons.prems(3) by simp
  have d: "ISDIGIT (word_of_nat (48 + d))" "unat (word_of_nat (48 + d) :: byte) = 48 + d"
    using digit_byte [of d] Cons.prems(1) by simp_all
  have v: "int i * 10 + int (48 + d) - 48 = int (i * 10 + d)" by simp
  have "skip_atoi (int i) (map (\<lambda>d. word_of_nat (48 + d)) (d # ds) @ rest) =
      skip_atoi (int (i * 10 + d)) (map (\<lambda>d. word_of_nat (48 + d)) ds @ rest)"
    using d b unfolding list.map append_Cons skip_atoi.simps d(2) v by simp
  also have "\<dots> = Some (int (foldl (\<lambda>v d. v * 10 + d) (i * 10 + d) ds), rest)"
    by (rule Cons.IH) (use Cons.prems in auto)
  finally show ?case by simp
qed

text \<open>\<open>skip_atoi\<close> inverts printing, up to the numbers it can add a digit to without overflow.\<close>

theorem skip_atoi_decimal:
  assumes "n < 2 ^ 31 - 48" "\<not> ISDIGIT (cur rest)"
  shows "skip_atoi 0 (decimal n @ rest) = Some (int n, rest)"
proof -
  let ?ds = "if n = 0 then [0] else to_digits 10 n"
  have "foldl (\<lambda>v d. v * 10 + d) 0 ?ds = n" using to_digits_value [of 10 n] by simp
  moreover have "\<forall>d \<in> set ?ds. d < 10" using to_digits_bounded by auto
  ultimately show ?thesis
    using skip_atoi_digits [of ?ds rest 0] assms unfolding decimal_def by (simp del: map_map)
qed

text \<open>\<open>%d\<close> prints the sign and the decimal digits of the value.\<close>

lemma format_d: "format_text [37, 100] [Arg_Int n] =
    Some ((if sint n < 0 then [45] else []) @ decimal (nat \<bar>sint n\<bar>))"
proof -
  have "number_digits 10 2 k = decimal k" for k
    using to_digits_bounded [of _ 10 k] digit_byte(3)
    by (auto simp: number_digits_def decimal_def)
  moreover have "number_value 2 n = nat \<bar>sint n\<bar>"
  proof (cases "sint n < 0")
    case True
    have "- n = word_of_int (- sint n)" by simp
    then have "uint (- n) = uint (word_of_int (- sint n) :: u32)" by (rule arg_cong)
    also have "\<dots> = (- sint n) mod 2 ^ 32" by (simp only: uint_word_of_int) simp
    also have "\<dots> = - sint n" using True sint_greater_eq [of n] by simp
    finally have "unat (- n) = nat (- sint n)" by (metis nat_uint_eq)
    then show ?thesis using True by (simp add: number_value_def)
  next
    case False
    have "uint n = uint (word_of_int (sint n) :: u32)" by simp
    also have "\<dots> = sint n mod 2 ^ 32" by (simp only: uint_word_of_int) simp
    also have "\<dots> = sint n" using False sint_less [of n] by simp
    finally have "unat n = nat (sint n)" by (metis nat_uint_eq)
    then show ?thesis using False by (simp add: number_value_def)
  qed
  moreover have "parse_spec [100] [Arg_Int n] =
      Some (\<lparr>cv_flags = 0, cv_width = - 1, cv_precision = - 1, cv_qualifier = 0\<rparr>, [100], [Arg_Int n])"
    by (simp add: parse_spec_def get_width_def get_precision_def ISDIGIT_def)
  moreover have "number_text 10 (- 1) (- 1) 2 n =
      number_sign 2 n @ number_digits 10 2 (number_value 2 n)"
    by (simp add: number_text_def Let_def)
  moreover have "number_sign 2 n = (if sint n < 0 then [45] else [])" by (simp add: number_sign_def)
  moreover have "set_bit 1 0 = (2 :: byte)" by (simp add: set_bit_eq_or)
  ultimately show ?thesis by (simp add: conv_text_def int_text_def)
qed

text \<open>So that reading what \<open>%d\<close> printed for a natural number gives the number back.\<close>

theorem format_then_atoi:
  assumes n: "n < 2 ^ 31 - 48" and r: "\<not> ISDIGIT (cur rest)"
  shows "\<exists>t. format_text [37, 100] [Arg_Int (word_of_nat n)] = Some t \<and> skip_atoi 0 (t @ rest) = Some (int n, rest)"
proof -
  have u: "uint (word_of_nat n :: u32) = int n" using n by (simp add: unsigned_of_nat take_bit_eq_mod)
  have "sint (word_of_nat n :: u32) = int n"
    unfolding sint_uint u using n by (simp add: signed_take_bit_eq_if_positive bit_iff_odd take_bit_eq_mod)
  then show ?thesis using format_d [of "word_of_nat n"] skip_atoi_decimal [OF assms] by simp
qed

text \<open>The base of \<open>%o\<close> is eight for the caller, and sixteen for \<open>divide\<close>.\<close>

lemma octal_is_hex: "conv_text cv 111 args = conv_text cv 120 args"
proof -
  have "number_text 8 w p f n = number_text 16 w p f n" for w p f n
    by (simp add: number_text_def number_digits_def)
  then show ?thesis by (simp add: conv_text_def int_text_def)
qed

text \<open>No conversion with the precision zero prints a digit.\<close>

lemma number_text_precision_0: "number_text base w 0 f n = (let k = replicate (nat (w - int (length
      (number_digits base f (number_value f n))) - int (length (number_sign f n)))) in
    if bit f 4 then number_sign f n @ k 32
    else if bit f 0 then number_sign f n @ k 48 else k 32 @ number_sign f n)"
  by (simp add: number_text_def Let_def max_def)

text \<open>The width of \<open>%s\<close> clips the string.\<close>

lemma length_str_text:
  assumes "0 \<le> cv_width cv"
  shows "length (str_text cv s) = nat (cv_width cv)"
  using assms by (simp add: str_text_def Let_def min_def)

subsection \<open>The types of the arguments\<close>

text \<open>
  A format names the types of the arguments it consumes. When the arguments have those types, the
  text exists: no conversion reads an argument of another type, or one that is not there.
\<close>

datatype arg_type = T_Int | T_Width | T_Str | T_Ptr

fun has_type :: "arg \<Rightarrow> arg_type \<Rightarrow> bool" where
  "has_type (Arg_Int n) T_Int = True"
| "has_type (Arg_Int n) T_Width = (sint n \<noteq> - (2 ^ 31))"
| "has_type (Arg_Str s) T_Str = True"
| "has_type (Arg_Ptr n) T_Ptr = True"
| "has_type _ _ = False"

fun typed :: "arg_type list \<Rightarrow> arg list \<Rightarrow> bool" where
  "typed [] args = True"
| "typed (t # ts) (a # args) = (has_type a t \<and> typed ts args)"
| "typed _ [] = False"

definition width_types :: "byte list \<Rightarrow> (arg_type list \<times> byte list) option" where
  "width_types fmt =
     (if ISDIGIT (cur fmt) then do { (_, fmt) \<leftarrow> skip_atoi 0 fmt; Some ([], fmt) }
      else if cur fmt = 42 then Some ([T_Width], tl fmt) else Some ([], fmt))"

definition precision_types :: "byte list \<Rightarrow> (arg_type list \<times> byte list) option" where
  "precision_types fmt =
     (if cur fmt \<noteq> 46 then Some ([], fmt)
      else if ISDIGIT (cur (tl fmt)) then do { (_, fmt) \<leftarrow> skip_atoi 0 (tl fmt); Some ([], fmt) }
      else if cur (tl fmt) = 42 then Some ([T_Int], tl (tl fmt)) else Some ([], tl fmt))"

definition spec_types :: "byte list \<Rightarrow> (arg_type list \<times> byte list) option" where
  "spec_types cs = do {
     (ws, fmt) \<leftarrow> width_types (snd (flags_loop cs 0));
     (ps, fmt) \<leftarrow> precision_types fmt;
     Some (ws @ ps, if cur fmt = 104 \<or> cur fmt = 108 then tl fmt else fmt) }"

definition conv_types :: "byte \<Rightarrow> arg_type list" where
  "conv_types c =
     (if c = 115 then [T_Str] else if c = 112 then [T_Ptr]
      else if c \<in> {99, 111, 88, 120, 100, 105, 117} then [T_Int] else [])"

lemma spec_types_length:
  assumes "spec_types cs = Some (ts, fmt)"
  shows "length fmt \<le> length cs"
proof -
  obtain ws f1 ps f2 where f: "width_types (snd (flags_loop cs 0)) = Some (ws, f1)" "precision_types f1 = Some (ps, f2)"
    "fmt = (if cur f2 = 104 \<or> cur f2 = 108 then tl f2 else f2)"
    using assms by (auto simp: spec_types_def option_simps)
  have "length f1 \<le> length (snd (flags_loop cs 0))"
    using f(1) by (auto simp: width_types_def option_simps split: if_splits dest: skip_atoi_length)
  moreover have "length f2 \<le> length f1"
    using f(2) by (auto simp: precision_types_def option_simps split: if_splits dest!: skip_atoi_length)
  moreover have "length (snd (flags_loop cs 0)) \<le> length cs"
    using flags_loop_length by (metis prod.collapse)
  ultimately show ?thesis using f(3) by auto
qed

function format_types :: "byte list \<Rightarrow> arg_type list option" where
  "format_types [] = Some []"
| "format_types (c # cs) =
     (if c \<noteq> 37 then format_types cs
      else do {
        (ts, fmt) \<leftarrow> spec_types cs;
        us \<leftarrow> format_types (tl fmt);
        Some (ts @ conv_types (cur fmt) @ us) })"
  by pat_completeness auto
termination
  by (relation "measure length") (auto dest!: spec_types_length intro: le_imp_less_Suc order.trans)

lemma typed_Cons: "typed (t # ts) args \<longleftrightarrow> (\<exists>a as. args = a # as \<and> has_type a t \<and> typed ts as)"
  by (cases args) auto

lemma has_type_cases:
  "has_type a T_Int \<longleftrightarrow> (\<exists>n. a = Arg_Int n)" "has_type a T_Width \<longleftrightarrow> (\<exists>n. a = Arg_Int n \<and> sint n \<noteq> - (2 ^ 31))"
  "has_type a T_Str \<longleftrightarrow> (\<exists>s. a = Arg_Str s)" "has_type a T_Ptr \<longleftrightarrow> (\<exists>n. a = Arg_Ptr n)"
  by (cases a; simp)+

lemma width_typed:
  "width_types fmt = Some (ts, fmt') \<Longrightarrow> typed (ts @ us) args \<Longrightarrow>
    \<exists>w fl' args'. get_width fmt fl args = Some (w, fl', fmt', args') \<and> typed us args'"
  by (auto simp: width_types_def get_width_def typed_Cons has_type_cases split: if_splits Option.bind_split_asm)

lemma precision_typed:
  "precision_types fmt = Some (ts, fmt') \<Longrightarrow> typed (ts @ us) args \<Longrightarrow>
    \<exists>p args'. get_precision fmt args = Some (p, fmt', args') \<and> typed us args'"
  by (auto simp: precision_types_def get_precision_def Let_def typed_Cons has_type_cases split: if_splits Option.bind_split_asm)

lemma spec_typed:
  assumes "spec_types cs = Some (ts, fmt)" "typed (ts @ us) args"
  shows "\<exists>cv args'. parse_spec cs args = Some (cv, fmt, args') \<and> typed us args'"
proof -
  obtain fl f0 where f0: "flags_loop cs 0 = (fl, f0)" by (cases "flags_loop cs 0")
  obtain ws f1 ps f2 where f: "width_types f0 = Some (ws, f1)" "precision_types f1 = Some (ps, f2)"
    "fmt = (if cur f2 = 104 \<or> cur f2 = 108 then tl f2 else f2)" "ts = ws @ ps"
    using assms(1) f0 by (auto simp: spec_types_def option_simps)
  obtain w fl' a1 where w: "get_width f0 fl args = Some (w, fl', f1, a1)" "typed (ps @ us) a1"
    using width_typed [OF f(1), of "ps @ us" args fl] assms(2) f(4) by auto
  obtain p a2 where p: "get_precision f1 a1 = Some (p, f2, a2)" "typed us a2"
    using precision_typed [OF f(2) w(2)] by blast
  show ?thesis using f0 w(1) p f(3) by (auto simp: parse_spec_def Let_def)
qed

lemma conv_typed:
  "typed (conv_types c @ us) args \<Longrightarrow> \<exists>t args'. conv_text cv c args = Some (args', t) \<and> typed us args'"
  by (cases "cv_width cv = - 1") (auto simp: conv_types_def conv_text_def typed_Cons has_type_cases split: if_splits)

lemma format_typed: "format_types fmt = Some ts \<Longrightarrow> typed ts args \<Longrightarrow> \<exists>t. format_text fmt args = Some t"
proof (induction fmt arbitrary: ts args rule: format_types.induct)
  case (2 c cs)
  show ?case
  proof (cases "c = 37")
    case False
    then show ?thesis using 2(1) [of ts args] 2(3,4) by auto
  next
    case True
    obtain ss fmt us where s: "spec_types cs = Some (ss, fmt)" "format_types (tl fmt) = Some us"
      "ts = ss @ conv_types (cur fmt) @ us"
      using 2(3) True by (auto simp: option_simps)
    obtain cv a1 where p: "parse_spec cs args = Some (cv, fmt, a1)" "typed (conv_types (cur fmt) @ us) a1"
      using spec_typed [OF s(1), of "conv_types (cur fmt) @ us" args] 2(4) s(3) by auto
    obtain t a2 where c: "conv_text cv (cur fmt) a1 = Some (a2, t)" "typed us a2"
      using conv_typed [OF p(2)] by blast
    obtain t' where "format_text (tl fmt) a2 = Some t'"
      using 2(2) [OF _ s(1) refl s(2) c(2)] True by auto
    then show ?thesis using True p(1) c(1) by simp
  qed
qed simp

text \<open>With arguments of the types the format names, printing into a mapped buffer always returns.\<close>

theorem rt_vsnprintf_typed:
  assumes "format_types fmt = Some ts" "typed ts args"
    and "mapped m buf sz" "0 < sz" "buf + sz < 2 ^ 32"
  shows "\<exists>t. format_text fmt args = Some t \<and>
    (if buf + length t < 2 ^ 32
     then \<exists>m'. rt_vsnprintf buf sz fmt args m = Some (c_int (int (length t)), m') \<and> dom m' = dom m
     else rt_vsnprintf buf sz fmt args m = None)"
proof -
  obtain t where t: "format_text fmt args = Some t" using format_typed [OF assms(1,2)] by blast
  have "mapped m buf (length (take (sz - 1) t @ [0]))" by (rule mapped_prefix [OF assms(3)]) (use assms(4) in simp)
  then have "dom (written buf (take (sz - 1) t @ [0]) m) = dom m"
    by (auto simp: written_def mapped_def subset_iff split: if_splits)
  moreover have "rt_vsnprintf buf sz fmt args m = None" if "\<not> buf + length t < 2 ^ 32"
    using puts_past_end [of buf t] that assms(5) by (simp add: rt_vsnprintf_def vsn_loop_puts t Let_def)
  ultimately show ?thesis using rt_vsnprintf_ok [OF assms(3-5) t] t by auto
qed

end
