(* ===== verification/Kobject.thy ===== *)
theory Kobject
  imports Kstring Ipc
begin

text \<open>
  The object container (object.c): every kernel object has a name, a type and a place in the list
  of its class. Names are in memory, at the start of the object, and are written and compared with
  \<open>rt_strncpy\<close> and \<open>rt_strncmp\<close>. It is shown that the lists of the classes stay apart and hold exactly
  the objects registered, and that a search finds the latest object of a class whose name
  agrees in the first eight characters.
\<close>

unbundle bit_operations_syntax

subsection \<open>Data\<close>

text \<open>
  The rows of \<open>_object_container\<close> in the configuration: the type of each class. \<open>object_list\<close> are the
  lists of the rows, \<open>object_size\<close> the sizes of the structs, which the compiler fixes.
\<close>

definition container_types :: "byte list" where
  "container_types = [0x01, 0x02, 0x03, 0x04, 0x05, 0x06, 0x08, 0x09, 0x0a, 0x0c]"

abbreviation (input) RT_Object_Class_Static :: byte where "RT_Object_Class_Static \<equiv> 0x80"
abbreviation (input) RT_Object_Class_Device :: byte where "RT_Object_Class_Device \<equiv> 0x09"
abbreviation (input) RT_NAME_MAX :: nat where "RT_NAME_MAX \<equiv> 8"

record container =
  c_mem :: mem
  obj_type :: "nat \<Rightarrow> byte"
  obj_flag :: "nat \<Rightarrow> byte"
  object_list :: "nat \<Rightarrow> nat list"
  object_size :: "nat \<Rightarrow> nat"

fun find_row :: "byte \<Rightarrow> byte list \<Rightarrow> nat \<Rightarrow> nat option" where
  "find_row type [] i = None"
| "find_row type (t # ts) i = (if t = type then Some i else find_row type ts (i + 1))"

definition rt_object_get_information :: "byte \<Rightarrow> nat option" where
  "rt_object_get_information type = find_row type container_types 0"

subsection \<open>Operations\<close>

fun list_count :: "nat list \<Rightarrow> nat \<Rightarrow> nat" where
  "list_count [] n = n"
| "list_count (ob # obs) n = list_count obs (n + 1)"

definition rt_object_get_length :: "byte \<Rightarrow> container \<Rightarrow> nat" where
  "rt_object_get_length type c =
     (case rt_object_get_information type of None \<Rightarrow> 0 | Some i \<Rightarrow> list_count (object_list c i) 0)"

text \<open>The pointers stored, for a buffer of \<open>maxlen\<close>; the code returns their number.\<close>

fun list_pointers :: "nat list \<Rightarrow> nat list \<Rightarrow> int \<Rightarrow> nat list" where
  "list_pointers [] ps maxlen = ps"
| "list_pointers (ob # obs) ps maxlen =
     (let ps = ps @ [ob] in if int (length ps) \<ge> maxlen then ps else list_pointers obs ps maxlen)"

definition rt_object_get_pointers :: "byte \<Rightarrow> int \<Rightarrow> container \<Rightarrow> nat list" where
  "rt_object_get_pointers type maxlen c =
     (if maxlen \<le> 0 then []
      else case rt_object_get_information type of None \<Rightarrow> [] | Some i \<Rightarrow> list_pointers (object_list c i) [] maxlen)"

text \<open>\<open>rt_list_insert_after\<close> at the head of a row, and \<open>rt_list_remove\<close>, which takes an object out of its list.\<close>

definition link_object :: "nat \<Rightarrow> nat \<Rightarrow> container \<Rightarrow> container" where
  "link_object i ob c = c\<lparr>object_list := (object_list c)(i := ob # object_list c i)\<rparr>"

definition unlink_object :: "nat \<Rightarrow> container \<Rightarrow> container" where
  "unlink_object ob c = c\<lparr>object_list := (\<lambda>i. remove1 ob (object_list c i))\<rparr>"

fun check_absent :: "nat \<Rightarrow> nat list \<Rightarrow> unit option" where
  "check_absent ob [] = Some ()"
| "check_absent ob (x # xs) = do { _ \<leftarrow> rt_assert (x \<noteq> ob); check_absent ob xs }"

definition set_name :: "nat \<Rightarrow> nat \<Rightarrow> container \<Rightarrow> container option" where
  "set_name ob name c = do { m \<leftarrow> rt_strncpy ob name RT_NAME_MAX (c_mem c); Some (c\<lparr>c_mem := m\<rparr>) }"

definition rt_object_init :: "nat \<Rightarrow> byte \<Rightarrow> nat \<Rightarrow> container \<Rightarrow> kernel \<Rightarrow> (container \<times> kernel) option" where
  "rt_object_init ob type name c k = do {
     i \<leftarrow> rt_object_get_information type;
     let k = rt_enter_critical k;
     _ \<leftarrow> check_absent ob (object_list c i);
     k \<leftarrow> rt_exit_critical k;
     let c = c\<lparr>obj_type := (obj_type c)(ob := type OR RT_Object_Class_Static)\<rparr>;
     c \<leftarrow> set_name ob name c;
     Some (link_object i ob c, k) }"

definition rt_object_detach :: "nat \<Rightarrow> container \<Rightarrow> container" where
  "rt_object_detach ob c = unlink_object ob (c\<lparr>obj_type := (obj_type c)(ob := 0)\<rparr>)"

text \<open>\<open>res\<close> is what the allocator returns for the size of the class.\<close>

definition rt_object_allocate ::
    "byte \<Rightarrow> nat \<Rightarrow> nat option \<Rightarrow> container \<Rightarrow> kernel \<Rightarrow> (nat option \<times> container) option" where
  "rt_object_allocate type name res c k = do {
     _ \<leftarrow> RT_DEBUG_NOT_IN_INTERRUPT k;
     i \<leftarrow> rt_object_get_information type;
     case res of
       None \<Rightarrow> Some (None, c)
     | Some ob \<Rightarrow> do {
         m \<leftarrow> rt_memset ob 0 (object_size c i) (c_mem c);
         let c = c\<lparr>c_mem := m, obj_type := (obj_type c)(ob := type), obj_flag := (obj_flag c)(ob := 0)\<rparr>;
         c \<leftarrow> set_name ob name c;
         Some (Some ob, link_object i ob c) } }"

text \<open>The result is the object whose memory is freed.\<close>

definition rt_object_delete :: "nat \<Rightarrow> container \<Rightarrow> (nat \<times> container) option" where
  "rt_object_delete ob c = do {
     _ \<leftarrow> rt_assert (obj_type c ob AND RT_Object_Class_Static = 0);
     Some (ob, unlink_object ob (c\<lparr>obj_type := (obj_type c)(ob := 0)\<rparr>)) }"

definition rt_object_is_systemobject :: "nat \<Rightarrow> container \<Rightarrow> bool" where
  "rt_object_is_systemobject ob c \<longleftrightarrow> obj_type c ob AND RT_Object_Class_Static \<noteq> 0"

definition rt_object_get_type :: "nat \<Rightarrow> container \<Rightarrow> byte" where
  "rt_object_get_type ob c = obj_type c ob AND NOT RT_Object_Class_Static"

fun find_name :: "nat \<Rightarrow> nat list \<Rightarrow> mem \<Rightarrow> nat option option" where
  "find_name name [] m = Some None"
| "find_name name (ob # obs) m = do {
     r \<leftarrow> rt_strncmp ob name RT_NAME_MAX m;
     if r = 0 then Some (Some ob) else find_name name obs m }"

definition rt_object_find :: "nat option \<Rightarrow> byte \<Rightarrow> container \<Rightarrow> kernel \<Rightarrow> (nat option \<times> kernel) option" where
  "rt_object_find name type c k =
     (case (name, rt_object_get_information type) of
        (Some name, Some i) \<Rightarrow> do {
          _ \<leftarrow> RT_DEBUG_NOT_IN_INTERRUPT k;
          let k = rt_enter_critical k;
          r \<leftarrow> find_name name (object_list c i) (c_mem c);
          k \<leftarrow> rt_exit_critical k;
          Some (r, k) }
      | _ \<Rightarrow> Some (None, k))"

subsection \<open>Rows\<close>

lemma find_row_Some: "find_row type ts i = Some j \<Longrightarrow> i \<le> j \<and> j - i < length ts \<and> ts ! (j - i) = type"
proof (induction ts arbitrary: i)
  case (Cons t ts)
  show ?case
  proof (cases "t = type")
    case False
    then have f: "find_row type ts (i + 1) = Some j" using Cons.prems by simp
    have "i + 1 \<le> j" using Cons.IH [OF f] by simp
    then have "j - i = Suc (j - (i + 1))" by arith
    then show ?thesis using Cons.IH [OF f] by simp
  qed (use Cons.prems in simp)
qed simp

lemma informationD: "rt_object_get_information type = Some i \<Longrightarrow> i < length container_types \<and> container_types ! i = type"
  using find_row_Some [of type container_types 0 i] by (simp add: rt_object_get_information_def)

lemma information_inj:
  "rt_object_get_information s = Some i \<Longrightarrow> rt_object_get_information t = Some i \<Longrightarrow> s = t"
  using informationD by metis

text \<open>The types of the classes leave the bit of static objects free.\<close>

lemma class_types:
  assumes "rt_object_get_information type = Some i"
  shows "type AND RT_Object_Class_Static = 0" "type AND NOT RT_Object_Class_Static = type" "type \<noteq> 0"
    "(type OR RT_Object_Class_Static) AND NOT RT_Object_Class_Static = type"
    "(type OR RT_Object_Class_Static) AND RT_Object_Class_Static \<noteq> 0"
proof -
  have "type \<in> set container_types" using informationD [OF assms] nth_mem by metis
  then show "type AND RT_Object_Class_Static = 0" "type AND NOT RT_Object_Class_Static = type" "type \<noteq> 0"
    "(type OR RT_Object_Class_Static) AND NOT RT_Object_Class_Static = type"
    "(type OR RT_Object_Class_Static) AND RT_Object_Class_Static \<noteq> 0"
    by (auto simp: container_types_def)
qed

lemma list_count_length: "list_count obs n = n + length obs"
  by (induction obs arbitrary: n) auto

lemma list_pointers_take:
  "int (length ps) < maxlen \<Longrightarrow> list_pointers obs ps maxlen = ps @ take (nat maxlen - length ps) obs"
proof (induction obs arbitrary: ps)
  case (Cons ob obs)
  show ?case
  proof (cases "int (length ps) + 1 \<ge> maxlen")
    case True
    then have "nat maxlen - length ps = Suc 0" using Cons.prems by simp
    then show ?thesis using True by simp
  next
    case False
    then have "nat maxlen - length ps = Suc (nat maxlen - length (ps @ [ob]))" using Cons.prems by simp
    then show ?thesis using Cons.IH [of "ps @ [ob]"] False by simp
  qed
qed simp

lemma check_absent_iff: "check_absent ob obs = Some () \<longleftrightarrow> ob \<notin> set obs"
  by (induction obs) (auto simp: rt_assert_def)

subsection \<open>The invariant\<close>

text \<open>
  Objects are in one row each, the row of their type, once. They have names, apart from each
  other in memory.
\<close>

definition type_fits :: "nat \<Rightarrow> byte \<Rightarrow> bool" where
  "type_fits i type \<longleftrightarrow> i < length container_types \<and>
     (type = container_types ! i \<or> type = container_types ! i OR RT_Object_Class_Static)"

definition registered :: "container \<Rightarrow> nat set" where
  "registered c = (\<Union>i < length container_types. set (object_list c i))"

definition apart :: "nat set \<Rightarrow> bool" where
  "apart obs \<longleftrightarrow> (\<forall>a \<in> obs. \<forall>b \<in> obs. a \<noteq> b \<longrightarrow> a + RT_NAME_MAX \<le> b \<or> b + RT_NAME_MAX \<le> a)"

text \<open>The name \<open>s\<close>, cut at eight characters and filled up with zeros.\<close>

definition has_name :: "container \<Rightarrow> nat \<Rightarrow> byte list \<Rightarrow> bool" where
  "has_name c ob s \<longleftrightarrow> 0 \<notin> set s \<and> bytes (c_mem c) ob (padded RT_NAME_MAX s)"

definition container_inv :: "container \<Rightarrow> bool" where
  "container_inv c \<longleftrightarrow>
     (\<forall>i < length container_types. distinct (object_list c i)) \<and>
     (\<forall>i < length container_types. \<forall>ob \<in> set (object_list c i). type_fits i (obj_type c ob)) \<and>
     (\<forall>ob \<in> registered c. \<exists>s. has_name c ob s) \<and> apart (registered c)"

lemma type_fits_row:
  assumes "type_fits i t" "type_fits j t"
  shows "i = j"
proof -
  have ne: "container_types ! i \<noteq> container_types ! j OR RT_Object_Class_Static" if "i < length container_types" "j < length container_types" for i j
  proof -
    have "\<forall>x \<in> set container_types. \<forall>y \<in> set container_types. x \<noteq> y OR RT_Object_Class_Static"
      by (simp add: container_types_def)
    then show ?thesis using that by simp
  qed
  have st: "x = y" if "x OR RT_Object_Class_Static = y OR RT_Object_Class_Static" "x \<in> set container_types" "y \<in> set container_types" for x y
  proof -
    have "\<forall>x \<in> set container_types. \<forall>y \<in> set container_types. x OR RT_Object_Class_Static = y OR RT_Object_Class_Static \<longrightarrow> x = y"
      by (simp add: container_types_def)
    then show ?thesis using that by blast
  qed
  have "container_types ! i = container_types ! j"
    using assms ne st unfolding type_fits_def by (metis nth_mem)
  moreover have "distinct container_types" by (simp add: container_types_def)
  ultimately show ?thesis using assms by (simp add: type_fits_def nth_eq_iff_index_eq)
qed

lemma rows_apart:
  assumes "container_inv c" "ob \<in> set (object_list c i)" "ob \<in> set (object_list c j)"
    "i < length container_types" "j < length container_types"
  shows "i = j"
  using assms type_fits_row unfolding container_inv_def by blast

subsection \<open>Names\<close>

lemma padded_simps: "padded (Suc n) [] = 0 # padded n []" "padded (Suc n) (x # xs) = x # padded n xs"
  by (simp_all add: padded_def)

lemma padded_eq: "0 \<notin> set s \<Longrightarrow> 0 \<notin> set t \<Longrightarrow> padded n s = padded n t \<longleftrightarrow> take n s = take n t"
proof (induction n arbitrary: s t)
  case (Suc n)
  then show ?case by (cases s; cases t) (auto simp: padded_simps)
qed (simp add: padded_def)

lemma strncmp_padded:
  assumes "bytes m a (padded n s)" "0 \<notin> set s" "cstr m b t"
  obtains r where "rt_strncmp a b n m = Some r" "r = 0 \<longleftrightarrow> take n s = take n t"
proof -
  have "\<exists>r. strncmp_loop a b n 0 m = Some r \<and> (r = 0 \<longleftrightarrow> take n s = take n t)"
    using assms
  proof (induction n arbitrary: a b s t)
    case (Suc n)
    note z = signed_char_zero
    show ?case
    proof (cases s)
      case Nil
      then have "m a = Some 0" using Suc.prems(1) by (simp add: padded_simps)
      then show ?thesis
        using Suc.prems(3) Nil z [of 0 "hd t"] by (cases t) (auto simp: Let_def signed_char_def)
    next
      case (Cons x xs)
      note s = this
      then have x: "m a = Some x" "bytes m (a + 1) (padded n xs)" "x \<noteq> 0" "0 \<notin> set xs"
        using Suc.prems(1,2) by (auto simp: padded_simps)
      show ?thesis
      proof (cases t)
        case Nil
        then show ?thesis using Suc.prems(3) s x z [of x 0] by (auto simp: Let_def)
      next
        case (Cons y ys)
        show ?thesis
        proof (cases "x = y")
          case True
          then show ?thesis
            using Suc.IH [OF x(2,4), of "b + 1" ys] Suc.prems(3) s x Cons by (simp add: Let_def signed_char_def)
        next
          case False
          then show ?thesis using Suc.prems(3) s x Cons z [of x y] by (simp add: Let_def)
        qed
      qed
    qed
  qed simp
  then show thesis using that by (auto simp: rt_strncmp_def)
qed

text \<open>A search, from the names the objects have.\<close>

lemma find_name_ok:
  assumes "\<forall>ob \<in> set obs. has_name c ob (nm ob)" "cstr (c_mem c) name s"
  shows "find_name name obs (c_mem c) = Some (find (\<lambda>ob. take RT_NAME_MAX (nm ob) = take RT_NAME_MAX s) obs)"
  using assms(1)
proof (induction obs)
  case (Cons ob obs)
  have "has_name c ob (nm ob)" using Cons.prems by simp
  then obtain r where "rt_strncmp ob name RT_NAME_MAX (c_mem c) = Some r"
    "r = 0 \<longleftrightarrow> take RT_NAME_MAX (nm ob) = take RT_NAME_MAX s"
    using strncmp_padded assms(2) unfolding has_name_def by metis
  then show ?case using Cons by simp
qed simp

text \<open>Writing a name, apart from the others.\<close>

lemma set_name_ok:
  assumes "cstr (c_mem c) name s" "mapped (c_mem c) ob RT_NAME_MAX" "ob + RT_NAME_MAX \<le> name \<or> name + length s < ob"
  obtains c' where "set_name ob name c = Some c'" "has_name c' ob s" "c' = c\<lparr>c_mem := written ob (padded RT_NAME_MAX s) (c_mem c)\<rparr>"
    "\<And>x t. x + RT_NAME_MAX \<le> ob \<or> ob + RT_NAME_MAX \<le> x \<Longrightarrow> has_name c x t \<Longrightarrow> has_name c' x t"
proof -
  let ?c = "c\<lparr>c_mem := written ob (padded RT_NAME_MAX s) (c_mem c)\<rparr>"
  have a: "set_name ob name c = Some ?c" by (simp add: set_name_def rt_strncpy_ok [OF assms])
  have b: "has_name ?c ob s" using assms(1) by (simp add: has_name_def cstr_bytes written_bytes)
  have n: "has_name ?c x t" if "x + RT_NAME_MAX \<le> ob \<or> ob + RT_NAME_MAX \<le> x" "has_name c x t" for x t
    using that written_elsewhere [of "c_mem c" x "padded RT_NAME_MAX t" ob "padded RT_NAME_MAX s"]
    by (auto simp: has_name_def)
  show thesis by (rule that [OF a b refl n])
qed

subsection \<open>The operations\<close>

lemma registered_link [simp]: "i < length container_types \<Longrightarrow> registered (link_object i ob c) = insert ob (registered c)"
  by (auto simp: registered_def link_object_def split: if_splits)

lemma registered_cong [simp]:
  "registered (c\<lparr>c_mem := m\<rparr>) = registered c" "registered (c\<lparr>obj_type := f\<rparr>) = registered c"
  "registered (c\<lparr>obj_flag := g\<rparr>) = registered c"
  by (simp_all add: registered_def)

text \<open>A new object joins its class, with its name, and the others are as they were.\<close>

lemma container_inv_link:
  assumes inv: "container_inv c" and row: "rt_object_get_information type = Some i"
    and ob: "ob \<notin> registered c" "apart (insert ob (registered c))"
    and t: "t = type \<or> t = type OR RT_Object_Class_Static"
    and c': "object_list c' = object_list c" "obj_type c' = (obj_type c)(ob := t)" "has_name c' ob s"
      "\<And>x u. x \<in> registered c \<Longrightarrow> has_name c x u \<Longrightarrow> has_name c' x u"
  shows "container_inv (link_object i ob c')"
proof -
  have i: "i < length container_types" "container_types ! i = type" using informationD [OF row] by simp_all
  have r: "registered c' = registered c" using c'(1) by (simp add: registered_def)
  have "\<exists>s. has_name (link_object i ob c') x s" if "x \<in> insert ob (registered c)" for x
    using that inv c'(3,4) unfolding container_inv_def has_name_def link_object_def by fastforce
  moreover have "type_fits j (obj_type c' x)" if "x \<in> set (object_list (link_object i ob c') j)" "j < length container_types" for x j
  proof (cases "x = ob")
    case True
    then have "j = i" using that ob(1) c'(1) by (auto simp: link_object_def registered_def split: if_splits)
    then show ?thesis using True i t c'(2) by (auto simp: type_fits_def)
  next
    case False
    then have "x \<in> set (object_list c j)" using that(1) c'(1) by (auto simp: link_object_def split: if_splits)
    then show ?thesis using False that(2) inv c'(2) by (simp add: container_inv_def)
  qed
  moreover have "distinct (object_list (link_object i ob c') j)" if "j < length container_types" for j
    using that inv ob(1) c'(1) by (auto simp: link_object_def container_inv_def registered_def)
  ultimately show ?thesis
    using ob(2) i(1) r by (simp add: container_inv_def) (simp add: link_object_def)
qed

lemma not_in_row: "ob \<notin> registered c \<Longrightarrow> rt_object_get_information type = Some i \<Longrightarrow> ob \<notin> set (object_list c i)"
  using informationD [of type i] by (auto simp: registered_def)

lemma check_absent_row:
  "ob \<notin> registered c \<Longrightarrow> rt_object_get_information type = Some i \<Longrightarrow> check_absent ob (object_list c i) = Some ()"
  using not_in_row check_absent_iff by blast

lemma apart_insert: "apart (insert ob obs) \<Longrightarrow> x \<in> obs \<Longrightarrow> ob \<notin> obs \<Longrightarrow> x + RT_NAME_MAX \<le> ob \<or> ob + RT_NAME_MAX \<le> x"
  by (auto simp: apart_def)

lemma rt_object_init_ok:
  assumes inv: "container_inv c" and row: "rt_object_get_information type = Some i"
    and ob: "ob \<notin> registered c" "apart (insert ob (registered c))" "mapped (c_mem c) ob RT_NAME_MAX"
    and s: "cstr (c_mem c) name s" "ob + RT_NAME_MAX \<le> name \<or> name + length s < ob"
    and k: "rt_exit_critical (rt_enter_critical k) = Some k'"
  obtains c' where "rt_object_init ob type name c k = Some (c', k')" "container_inv c'"
    "object_list c' = (object_list c)(i := ob # object_list c i)" "has_name c' ob s"
    "obj_type c' = (obj_type c)(ob := type OR RT_Object_Class_Static)"
    "\<And>x u. x \<in> registered c \<Longrightarrow> has_name c x u \<Longrightarrow> has_name c' x u"
proof -
  let ?c = "c\<lparr>obj_type := (obj_type c)(ob := type OR RT_Object_Class_Static)\<rparr>"
  obtain c1 where c1: "set_name ob name ?c = Some c1" "has_name c1 ob s"
    "c1 = ?c\<lparr>c_mem := written ob (padded RT_NAME_MAX s) (c_mem ?c)\<rparr>"
    "\<And>x t. x + RT_NAME_MAX \<le> ob \<or> ob + RT_NAME_MAX \<le> x \<Longrightarrow> has_name ?c x t \<Longrightarrow> has_name c1 x t"
    by (rule set_name_ok [of ?c name s ob]) (use ob(3) s in simp_all)
  have keep: "has_name c1 x u" if "x \<in> registered c" "has_name c x u" for x u
    using c1(4) [of x u] apart_insert [OF ob(2) that(1) ob(1)] that(2) by (simp add: has_name_def)
  have "container_inv (link_object i ob c1)"
    by (rule container_inv_link [OF inv row ob(1,2) _ _ _ c1(2) keep]) (simp_all add: c1(3))
  moreover have "rt_object_init ob type name c k = Some (link_object i ob c1, k')"
    using row k c1(1) check_absent_row [OF ob(1) row] by (simp add: rt_object_init_def Let_def)
  ultimately show thesis
    using c1(2) keep by (intro that [of "link_object i ob c1"]) (simp_all add: link_object_def has_name_def c1(3))
qed

text \<open>A search returns the first object of its class whose name agrees, the latest registered.\<close>

lemma rt_object_find_ok:
  assumes inv: "container_inv c" and row: "rt_object_get_information type = Some i"
    and nm: "\<forall>ob \<in> set (object_list c i). has_name c ob (nm ob)"
    and s: "cstr (c_mem c) name s" and k: "interrupt_nest k = 0" "rt_exit_critical (rt_enter_critical k) = Some k'"
  shows "rt_object_find (Some name) type c k =
    Some (find (\<lambda>ob. take RT_NAME_MAX (nm ob) = take RT_NAME_MAX s) (object_list c i), k')"
  using row k find_name_ok [OF nm s]
  by (simp add: rt_object_find_def RT_DEBUG_NOT_IN_INTERRUPT_def rt_interrupt_get_nest_def rt_assert_def)

text \<open>An object that leaves is in no list, and registering it and detaching it changes no list.\<close>

lemma registered_unlink:
  assumes "container_inv c"
  shows "registered (unlink_object ob c) = registered c - {ob}"
  using assms by (auto simp: registered_def unlink_object_def container_inv_def)

lemma container_inv_detach:
  assumes inv: "container_inv c"
  shows "container_inv (rt_object_detach ob c)" "registered (rt_object_detach ob c) = registered c - {ob}"
    "has_name (rt_object_detach ob c) x s = has_name c x s"
proof -
  have r: "registered (rt_object_detach ob c) = registered c - {ob}"
    using inv by (auto simp: registered_def rt_object_detach_def unlink_object_def container_inv_def)
  have n: "has_name (rt_object_detach ob c) x s = has_name c x s" for x s
    by (simp add: has_name_def rt_object_detach_def unlink_object_def)
  have "type_fits i (obj_type (rt_object_detach ob c) x)"
    if "x \<in> set (object_list (rt_object_detach ob c) i)" "i < length container_types" for x i
  proof -
    have "x \<in> set (object_list c i)" "x \<noteq> ob"
      using that inv by (auto simp: rt_object_detach_def unlink_object_def container_inv_def dest: notin_set_remove1)
    then show ?thesis using inv that(2) by (simp add: container_inv_def rt_object_detach_def unlink_object_def)
  qed
  moreover have "distinct (object_list (rt_object_detach ob c) i)" if "i < length container_types" for i
    using inv that by (simp add: container_inv_def rt_object_detach_def unlink_object_def)
  moreover have "apart (registered c - {ob})" using inv by (auto simp: container_inv_def apart_def)
  ultimately show "container_inv (rt_object_detach ob c)" using inv by (auto simp: container_inv_def r n)
  show "registered (rt_object_detach ob c) = registered c - {ob}" "has_name (rt_object_detach ob c) x s = has_name c x s"
    by (rule r, rule n)
qed

lemma rt_object_delete_detach:
  "obj_type c ob AND RT_Object_Class_Static = 0 \<Longrightarrow> rt_object_delete ob c = Some (ob, rt_object_detach ob c)"
  by (simp add: rt_object_delete_def rt_object_detach_def rt_assert_def)

lemma rt_object_delete_static: "rt_object_is_systemobject ob c \<Longrightarrow> rt_object_delete ob c = None"
  by (simp add: rt_object_delete_def rt_object_is_systemobject_def rt_assert_def)

text \<open>An allocated object is cleared, apart from its name, and dynamic.\<close>

lemma rt_object_allocate_ok:
  assumes inv: "container_inv c" and row: "rt_object_get_information type = Some i" and k: "interrupt_nest k = 0"
    and ob: "ob \<notin> registered c" "apart (insert ob (registered c))" "mapped (c_mem c) ob (object_size c i)"
      "RT_NAME_MAX \<le> object_size c i" "\<forall>x \<in> registered c. x + RT_NAME_MAX \<le> ob \<or> ob + object_size c i \<le> x"
    and s: "cstr (c_mem c) name s" "ob + object_size c i \<le> name \<or> name + length s < ob"
  obtains c' where "rt_object_allocate type name (Some ob) c k = Some (Some ob, c')" "container_inv c'"
    "object_list c' = (object_list c)(i := ob # object_list c i)" "has_name c' ob s" "obj_type c' ob = type"
    "obj_flag c' ob = 0" "\<And>x. ob + RT_NAME_MAX \<le> x \<Longrightarrow> x < ob + object_size c i \<Longrightarrow> c_mem c' x = Some 0"
    "\<And>x u. x \<in> registered c \<Longrightarrow> has_name c x u \<Longrightarrow> has_name c' x u"
proof -
  let ?n = "object_size c i"
  let ?m = "filled ob 0 ?n (c_mem c)"
  let ?c = "c\<lparr>c_mem := ?m, obj_type := (obj_type c)(ob := type), obj_flag := (obj_flag c)(ob := 0)\<rparr>"
  have m: "rt_memset ob 0 ?n (c_mem c) = Some ?m" using rt_memset_ok [OF ob(3), of 0] by simp
  have f: "bytes ?m x t" if "bytes (c_mem c) x t" "x + length t \<le> ob \<or> ob + ?n \<le> x" for x t
    using that by (auto simp: bytes_nth filled_def)
  have mp: "mapped ?m ob RT_NAME_MAX" using ob(4) by (auto simp: mapped_def filled_def dom_def)
  have st: "cstr ?m name s" using f [of name "s @ [0]"] s by (auto simp: cstr_bytes)
  obtain c1 where c1: "set_name ob name ?c = Some c1" "has_name c1 ob s"
    "c1 = ?c\<lparr>c_mem := written ob (padded RT_NAME_MAX s) (c_mem ?c)\<rparr>"
    "\<And>x t. x + RT_NAME_MAX \<le> ob \<or> ob + RT_NAME_MAX \<le> x \<Longrightarrow> has_name ?c x t \<Longrightarrow> has_name c1 x t"
    by (rule set_name_ok [of ?c name s ob]) (use mp st s(2) ob(4) in auto)
  have keep: "has_name c1 x u" if "x \<in> registered c" "has_name c x u" for x u
  proof (rule c1(4))
    show "x + RT_NAME_MAX \<le> ob \<or> ob + RT_NAME_MAX \<le> x" by (rule apart_insert [OF ob(2) that(1) ob(1)])
    show "has_name ?c x u" using f [of x "padded RT_NAME_MAX u"] that ob(5) by (auto simp: has_name_def)
  qed
  have "container_inv (link_object i ob c1)"
    by (rule container_inv_link [OF inv row ob(1,2) _ _ _ c1(2) keep, of type]) (simp_all add: c1(3))
  moreover have "rt_object_allocate type name (Some ob) c k = Some (Some ob, link_object i ob c1)"
    using row k m c1(1)
    by (simp add: rt_object_allocate_def RT_DEBUG_NOT_IN_INTERRUPT_def rt_interrupt_get_nest_def rt_assert_def Let_def)
  ultimately show thesis
    using c1(2) keep
    by (intro that [of "link_object i ob c1"]) (simp_all add: link_object_def has_name_def c1(3) written_def filled_def)
qed

text \<open>What is registered can be found by its name, and goes without a trace.\<close>

theorem rt_object_find_registered:
  assumes inv: "container_inv c" and row: "rt_object_get_information type = Some i"
    and ob: "ob \<notin> registered c" "apart (insert ob (registered c))" "mapped (c_mem c) ob RT_NAME_MAX"
    and s: "cstr (c_mem c) name s" "ob + RT_NAME_MAX \<le> name \<or> name + length s < ob"
    and k: "rt_exit_critical (rt_enter_critical k) = Some k'" "interrupt_nest k' = 0"
      "rt_exit_critical (rt_enter_critical k') = Some k''"
  shows "\<exists>c'. rt_object_init ob type name c k = Some (c', k') \<and> container_inv c' \<and>
    (\<forall>key u. cstr (c_mem c') key u \<and> take RT_NAME_MAX u = take RT_NAME_MAX s \<longrightarrow>
       rt_object_find (Some key) type c' k' = Some (Some ob, k'')) \<and>
    (\<forall>j < length container_types. object_list (rt_object_detach ob c') j = object_list c j)"
proof -
  obtain c' where c': "rt_object_init ob type name c k = Some (c', k')" "container_inv c'"
    "object_list c' = (object_list c)(i := ob # object_list c i)" "has_name c' ob s"
    by (rule rt_object_init_ok [OF inv row ob s k(1)]) (rule that)
  have i: "i < length container_types" using informationD [OF row] by simp
  have "\<exists>u. has_name c' x u" if "x \<in> set (object_list c' i)" for x
    using c'(2) that i unfolding container_inv_def registered_def by blast
  then have "\<forall>x \<in> set (object_list c' i). \<exists>u. has_name c' x u \<and> (x = ob \<longrightarrow> u = s)" using c'(4) by metis
  then obtain nm where nm: "\<forall>x \<in> set (object_list c' i). has_name c' x (nm x) \<and> (x = ob \<longrightarrow> nm x = s)"
    by (metis (no_types))
  have "rt_object_find (Some key) type c' k' = Some (Some ob, k'')"
    if "cstr (c_mem c') key u" "take RT_NAME_MAX u = take RT_NAME_MAX s" for key u
    using rt_object_find_ok [OF c'(2) row _ that(1) k(2,3), of nm] nm that(2) c'(3) by simp
  moreover have "object_list (rt_object_detach ob c') j = object_list c j" if "j < length container_types" for j
    using c'(3) ob(1) that by (auto simp: rt_object_detach_def unlink_object_def registered_def remove1_idem)
  ultimately show ?thesis using c'(1,2) by blast
qed

end
