(* ===== verification/Kdevice.thy ===== *)
theory Kdevice
  imports Kobject Mempool
begin

text \<open>
  The device framework (device.c): registration by name in the object container, opening and closing
  with a reference count, and the calls that go to the driver. A driver is a record of functions
  on the device, each of which may be missing. A locale states what the framework expects of
  a driver; under it an open device is marked open exactly while it has references.
\<close>

unbundle bit_operations_syntax

subsection \<open>Data\<close>

text \<open>
  \<open>rx_indicate\<close> and \<open>tx_complete\<close> name the callbacks that are set. \<open>drv\<close> is the state of the driver behind
  the device.
\<close>

record 'd dev =
  dev_type :: nat
  dev_flag :: "16 word"
  dev_open_flag :: "16 word"
  dev_ref :: nat
  rx_indicate :: "nat option"
  tx_complete :: "nat option"
  drv :: 'd

text \<open>A write is done, or its thread waits and is to go on with the rest.\<close>

datatype write_ret = Written nat | Waits "byte list"

text \<open>
  A function of a driver may be missing. It gives no result where it fails an assertion or does not
  end; it may block in a call of the kernel.
\<close>

type_synonym ('d, 'r) dev_call = "'d dev \<Rightarrow> kernel \<Rightarrow> ('r \<times> 'd dev \<times> kernel) option"

record ('d, 'c) dev_ops =
  op_init :: "('d, int) dev_call option"
  op_open :: "(16 word \<Rightarrow> ('d, int) dev_call) option"
  op_close :: "('d, int) dev_call option"
  op_read :: "(int \<Rightarrow> nat \<Rightarrow> ('d, byte list) dev_call) option"
  op_write :: "(int \<Rightarrow> byte list \<Rightarrow> ('d, write_ret) dev_call) option"
  op_control :: "(nat \<Rightarrow> 'c \<Rightarrow> ('d, int) dev_call) option"

abbreviation (input) RT_ENOSYS :: int where "RT_ENOSYS \<equiv> 6"
abbreviation (input) RT_EBUSY :: int where "RT_EBUSY \<equiv> 7"
abbreviation (input) RT_EIO :: int where "RT_EIO \<equiv> 8"
abbreviation (input) RT_DEVICE_FLAG_STANDALONE :: "16 word" where "RT_DEVICE_FLAG_STANDALONE \<equiv> 0x008"
abbreviation (input) RT_DEVICE_FLAG_ACTIVATED :: "16 word" where "RT_DEVICE_FLAG_ACTIVATED \<equiv> 0x010"
abbreviation (input) RT_DEVICE_OFLAG_CLOSE :: "16 word" where "RT_DEVICE_OFLAG_CLOSE \<equiv> 0x000"
abbreviation (input) RT_DEVICE_OFLAG_OPEN :: "16 word" where "RT_DEVICE_OFLAG_OPEN \<equiv> 0x008"
abbreviation (input) RT_DEVICE_OFLAG_MASK :: "16 word" where "RT_DEVICE_OFLAG_MASK \<equiv> 0xf0f"

subsection \<open>Registration\<close>

text \<open>\<open>ob\<close> is the device as an object; \<open>None\<close> is \<open>RT_NULL\<close>.\<close>

definition rt_device_find :: "nat option \<Rightarrow> container \<Rightarrow> kernel \<Rightarrow> (nat option \<times> kernel) option" where
  "rt_device_find name c k = rt_object_find name RT_Object_Class_Device c k"

definition rt_device_register ::
    "nat option \<Rightarrow> 'd dev \<Rightarrow> nat \<Rightarrow> 16 word \<Rightarrow> container \<Rightarrow> kernel \<Rightarrow> (int \<times> 'd dev \<times> container \<times> kernel) option" where
  "rt_device_register ob d name flags c k =
     (case ob of
        None \<Rightarrow> Some (- RT_ERROR, d, c, k)
      | Some ob \<Rightarrow> do {
          (r, k) \<leftarrow> rt_device_find (Some name) c k;
          if r \<noteq> None then Some (- RT_ERROR, d, c, k)
          else do {
            (c, k) \<leftarrow> rt_object_init ob RT_Object_Class_Device name c k;
            Some (RT_EOK, d\<lparr>dev_flag := flags, dev_ref := 0, dev_open_flag := 0\<rparr>, c, k) } })"

definition is_device :: "nat \<Rightarrow> container \<Rightarrow> unit option" where
  "is_device ob c = rt_assert (rt_object_get_type ob c = RT_Object_Class_Device)"

definition rt_device_unregister :: "nat \<Rightarrow> container \<Rightarrow> (int \<times> container) option" where
  "rt_device_unregister ob c = do {
     _ \<leftarrow> is_device ob c;
     _ \<leftarrow> rt_assert (rt_object_is_systemobject ob c);
     Some (RT_EOK, rt_object_detach ob c) }"

text \<open>\<open>z\<close> is what the attached memory holds, \<open>sz\<close> the size of \<open>struct rt_device\<close>.\<close>

definition rt_device_create :: "nat \<Rightarrow> nat \<Rightarrow> nat \<Rightarrow> (nat \<Rightarrow> nat option) \<Rightarrow> 'd \<Rightarrow> (nat \<times> 'd dev) option" where
  "rt_device_create type sz attach_size malloc z =
     (let sz = RT_ALIGN sz 4; attach_size = RT_ALIGN attach_size 4 in
      case malloc (sz + attach_size) of
        None \<Rightarrow> None
      | Some ob \<Rightarrow> Some (ob, \<lparr>dev_type = type, dev_flag = 0, dev_open_flag = 0, dev_ref = 0, rx_indicate = None,
          tx_complete = None, drv = z\<rparr>))"

text \<open>The result is the memory that is freed.\<close>

definition rt_device_destroy :: "nat \<Rightarrow> container \<Rightarrow> (nat \<times> container) option" where
  "rt_device_destroy ob c = do {
     _ \<leftarrow> is_device ob c;
     _ \<leftarrow> rt_assert (\<not> rt_object_is_systemobject ob c);
     Some (ob, rt_object_detach ob c) }"

subsection \<open>Opening and closing\<close>

definition rt_device_init :: "('d, 'c) dev_ops \<Rightarrow> ('d, int) dev_call" where
  "rt_device_init ops d k =
     (case op_init ops of
        None \<Rightarrow> Some (RT_EOK, d, k)
      | Some device_init \<Rightarrow>
          if dev_flag d AND RT_DEVICE_FLAG_ACTIVATED = 0 then do {
            (result, d, k) \<leftarrow> device_init d k;
            if result \<noteq> RT_EOK then Some (result, d, k)
            else Some (result, d\<lparr>dev_flag := dev_flag d OR RT_DEVICE_FLAG_ACTIVATED\<rparr>, k) }
          else Some (RT_EOK, d, k))"

text \<open>\<open>rt_device_open\<close> initialises the device when that has not been done.\<close>

definition open_activate :: "('d, 'c) dev_ops \<Rightarrow> ('d, int) dev_call" where
  "open_activate ops d k =
     (if dev_flag d AND RT_DEVICE_FLAG_ACTIVATED = 0 then do {
        (result, d, k) \<leftarrow> (case op_init ops of None \<Rightarrow> Some (RT_EOK, d, k) | Some device_init \<Rightarrow> device_init d k);
        if result \<noteq> RT_EOK then Some (result, d, k)
        else Some (RT_EOK, d\<lparr>dev_flag := dev_flag d OR RT_DEVICE_FLAG_ACTIVATED\<rparr>, k) }
      else Some (RT_EOK, d, k))"

text \<open>A successful open is counted, in eight bits.\<close>

definition open_count :: "'d dev \<Rightarrow> 'd dev option" where
  "open_count d = do {
     let d = d\<lparr>dev_open_flag := dev_open_flag d OR RT_DEVICE_OFLAG_OPEN, dev_ref := (dev_ref d + 1) mod 2 ^ 8\<rparr>;
     _ \<leftarrow> rt_assert (dev_ref d \<noteq> 0);
     Some d }"

definition rt_device_open :: "('d, 'c) dev_ops \<Rightarrow> container \<Rightarrow> nat \<Rightarrow> 16 word \<Rightarrow> ('d, int) dev_call" where
  "rt_device_open ops c ob oflag d k = do {
     _ \<leftarrow> is_device ob c;
     (result, d, k) \<leftarrow> open_activate ops d k;
     if result \<noteq> RT_EOK then Some (result, d, k)
     else if dev_flag d AND RT_DEVICE_FLAG_STANDALONE \<noteq> 0 \<and> dev_open_flag d AND RT_DEVICE_OFLAG_OPEN \<noteq> 0
     then Some (- RT_EBUSY, d, k)
     else do {
       (result, d, k) \<leftarrow> (case op_open ops of
            Some device_open \<Rightarrow> device_open oflag d k
          | None \<Rightarrow> Some (RT_EOK, d\<lparr>dev_open_flag := oflag AND RT_DEVICE_OFLAG_MASK\<rparr>, k));
       if result = RT_EOK \<or> result = - RT_ENOSYS then do { d \<leftarrow> open_count d; Some (result, d, k) }
       else Some (result, d, k) } }"

definition rt_device_close :: "('d, 'c) dev_ops \<Rightarrow> container \<Rightarrow> nat \<Rightarrow> ('d, int) dev_call" where
  "rt_device_close ops c ob d k = do {
     _ \<leftarrow> is_device ob c;
     if dev_ref d = 0 then Some (- RT_ERROR, d, k)
     else do {
       let d = d\<lparr>dev_ref := dev_ref d - 1\<rparr>;
       if dev_ref d \<noteq> 0 then Some (RT_EOK, d, k)
       else do {
         (result, d, k) \<leftarrow> (case op_close ops of Some device_close \<Rightarrow> device_close d k | None \<Rightarrow> Some (RT_EOK, d, k));
         if result = RT_EOK \<or> result = - RT_ENOSYS
         then Some (result, d\<lparr>dev_open_flag := RT_DEVICE_OFLAG_CLOSE\<rparr>, k) else Some (result, d, k) } } }"

subsection \<open>Input, output and control\<close>

definition rt_device_read :: "('d, 'c) dev_ops \<Rightarrow> container \<Rightarrow> nat \<Rightarrow> int \<Rightarrow> nat \<Rightarrow> ('d, byte list) dev_call" where
  "rt_device_read ops c ob pos sz d k = do {
     _ \<leftarrow> is_device ob c;
     if dev_ref d = 0 then Some ([], d, rt_set_errno (- RT_ERROR) k)
     else case op_read ops of
         Some device_read \<Rightarrow> device_read pos sz d k
       | None \<Rightarrow> Some ([], d, rt_set_errno (- RT_ENOSYS) k) }"

definition rt_device_write :: "('d, 'c) dev_ops \<Rightarrow> container \<Rightarrow> nat \<Rightarrow> int \<Rightarrow> byte list \<Rightarrow> ('d, write_ret) dev_call" where
  "rt_device_write ops c ob pos bs d k = do {
     _ \<leftarrow> is_device ob c;
     if dev_ref d = 0 then Some (Written 0, d, rt_set_errno (- RT_ERROR) k)
     else case op_write ops of
         Some device_write \<Rightarrow> device_write pos bs d k
       | None \<Rightarrow> Some (Written 0, d, rt_set_errno (- RT_ENOSYS) k) }"

definition rt_device_control :: "('d, 'c) dev_ops \<Rightarrow> container \<Rightarrow> nat \<Rightarrow> nat \<Rightarrow> 'c \<Rightarrow> ('d, int) dev_call" where
  "rt_device_control ops c ob cmd a d k = do {
     _ \<leftarrow> is_device ob c;
     case op_control ops of Some device_control \<Rightarrow> device_control cmd a d k | None \<Rightarrow> Some (- RT_ENOSYS, d, k) }"

definition rt_device_set_rx_indicate :: "container \<Rightarrow> nat \<Rightarrow> nat option \<Rightarrow> 'd dev \<Rightarrow> (int \<times> 'd dev) option" where
  "rt_device_set_rx_indicate c ob f d = do { _ \<leftarrow> is_device ob c; Some (RT_EOK, d\<lparr>rx_indicate := f\<rparr>) }"

definition rt_device_set_tx_complete :: "container \<Rightarrow> nat \<Rightarrow> nat option \<Rightarrow> 'd dev \<Rightarrow> (int \<times> 'd dev) option" where
  "rt_device_set_tx_complete c ob f d = do { _ \<leftarrow> is_device ob c; Some (RT_EOK, d\<lparr>tx_complete := f\<rparr>) }"

subsection \<open>What a driver promises\<close>

lemma and_flag: "x AND 0x010 = 0 \<longleftrightarrow> \<not> bit x 4" "x AND 0x008 = 0 \<longleftrightarrow> \<not> bit x 3" for x :: "16 word"
  using and_exp_eq_0_iff_not_bit [of x 4] and_exp_eq_0_iff_not_bit [of x 3] by simp_all

lemma bit_flag [simp]: "bit (0x010 :: 16 word) 4" "bit (0x008 :: 16 word) 3"
  by simp_all

definition dev_success :: "int \<Rightarrow> bool" where
  "dev_success r \<longleftrightarrow> r = RT_EOK \<or> r = - RT_ENOSYS"

text \<open>A device in order: it is marked open exactly while it has references, and initialised then.\<close>

definition dev_ok :: "('d \<Rightarrow> bool) \<Rightarrow> ('d dev \<Rightarrow> bool) \<Rightarrow> 'd dev \<Rightarrow> bool" where
  "dev_ok sane serves d \<longleftrightarrow> dev_ref d < 2 ^ 8 \<and> sane (drv d) \<and>
     (if dev_ref d = 0 then dev_open_flag d = 0
      else bit (dev_open_flag d) 3 \<and> bit (dev_flag d) 4 \<and> serves d)"

text \<open>A caller of the framework opens, closes and reads.\<close>

datatype dev_use = Use_open "16 word" | Use_close | Use_read nat

fun dev_do :: "('d, 'c) dev_ops \<Rightarrow> container \<Rightarrow> nat \<Rightarrow> dev_use \<Rightarrow> ('d, int) dev_call" where
  "dev_do ops c ob (Use_open oflag) d k = rt_device_open ops c ob oflag d k"
| "dev_do ops c ob Use_close d k = rt_device_close ops c ob d k"
| "dev_do ops c ob (Use_read n) d k = do { (bs, d, k) \<leftarrow> rt_device_read ops c ob 0 n d k; Some (int (length bs), d, k) }"

fun dev_run :: "('d, 'c) dev_ops \<Rightarrow> container \<Rightarrow> nat \<Rightarrow> dev_use list \<Rightarrow> ('d, int list) dev_call" where
  "dev_run ops c ob [] d k = Some ([], d, k)"
| "dev_run ops c ob (u # us) d k = do {
     (r, d, k) \<leftarrow> dev_do ops c ob u d k;
     (rs, d, k) \<leftarrow> dev_run ops c ob us d k;
     Some (r # rs, d, k) }"

text \<open>The references that successful opens and closes leave.\<close>

fun held :: "(dev_use \<times> int) list \<Rightarrow> nat \<Rightarrow> nat" where
  "held [] n = n"
| "held ((Use_open _, r) # us) n = held us (if dev_success r then n + 1 else n)"
| "held ((Use_close, r) # us) n = held us (n - 1)"
| "held ((Use_read _, r) # us) n = held us n"

text \<open>
  What the framework asks of a driver: it leaves the count and the marks of the framework alone,
  changes nothing when it refuses to open, closes without failing, and delivers at most what was
  asked for. \<open>sane\<close> always holds of its state; \<open>serves\<close> holds while the device is open; \<open>good\<close> is what
  it keeps of the kernel.
\<close>

locale driver =
  fixes ops :: "('d, 'c) dev_ops"
    and sane :: "'d \<Rightarrow> bool"
    and serves :: "'d dev \<Rightarrow> bool"
    and good :: "kernel \<Rightarrow> bool"
  assumes init_law: "op_init ops = Some device_init \<Longrightarrow> sane (drv d) \<Longrightarrow> good k \<Longrightarrow>
      \<exists>r d' k'. device_init d k = Some (r, d', k') \<and> dev_ref d' = dev_ref d \<and>
        dev_open_flag d' = dev_open_flag d \<and> sane (drv d') \<and> good k' \<and> r \<noteq> - RT_ENOSYS"
    and open_law: "op_open ops = Some device_open \<Longrightarrow> sane (drv d) \<Longrightarrow> (dev_ref d \<noteq> 0 \<longrightarrow> serves d) \<Longrightarrow> good k \<Longrightarrow>
      \<exists>r d' k'. device_open oflag d k = Some (r, d', k') \<and> dev_ref d' = dev_ref d \<and> dev_flag d' = dev_flag d \<and>
        sane (drv d') \<and> good k' \<and> (if dev_success r then serves d' else d' = d)"
    and open_default: "op_open ops = None \<Longrightarrow> serves d"
    and close_law: "op_close ops = Some device_close \<Longrightarrow> sane (drv d) \<Longrightarrow> serves d \<Longrightarrow> dev_ref d = 0 \<Longrightarrow> good k \<Longrightarrow>
      \<exists>d' k'. device_close d k = Some (RT_EOK, d', k') \<and> dev_ref d' = 0 \<and> sane (drv d') \<and> good k'"
    and read_law: "op_read ops = Some device_read \<Longrightarrow> sane (drv d) \<Longrightarrow> serves d \<Longrightarrow> good k \<Longrightarrow>
      \<exists>bs d' k'. device_read pos n d k = Some (bs, d', k') \<and> length bs \<le> n \<and> serves d' \<and> dev_ref d' = dev_ref d \<and>
        dev_flag d' = dev_flag d \<and> dev_open_flag d' = dev_open_flag d \<and> sane (drv d') \<and> good k'"
    and serves_mark: "serves (d\<lparr>dev_open_flag := dev_open_flag d OR RT_DEVICE_OFLAG_OPEN\<rparr>) = serves d"
    and serves_ref: "serves (d\<lparr>dev_ref := m\<rparr>) = serves d"
    and errno_law: "good k \<Longrightarrow> good (rt_set_errno e k)"
begin

lemma activate_ok:
  assumes "dev_ok sane serves d" "good k"
  obtains r d' k' where "open_activate ops d k = Some (r, d', k')" "dev_ref d' = dev_ref d" "good k'"
    "dev_ok sane serves d'" "r = RT_EOK \<Longrightarrow> bit (dev_flag d') 4" "r \<noteq> - RT_ENOSYS"
proof (cases "bit (dev_flag d) 4")
  case True
  then show thesis using assms by (intro that [of RT_EOK d k]) (simp_all add: open_activate_def and_flag)
next
  case False
  then have ref: "dev_ref d = 0" "dev_open_flag d = 0" "sane (drv d)" using assms(1) by (auto simp: dev_ok_def split: if_splits)
  obtain r d1 k1 where d1: "(case op_init ops of None \<Rightarrow> Some (RT_EOK, d, k) | Some f \<Rightarrow> f d k) = Some (r, d1, k1)"
    "dev_ref d1 = 0" "dev_open_flag d1 = 0" "sane (drv d1)" "good k1" "r \<noteq> - RT_ENOSYS"
    using init_law [of _ d k] ref assms(2) by (cases "op_init ops") fastforce+
  show thesis
  proof (cases "r = RT_EOK")
    case True
    show thesis
      using d1 True False ref
      by (intro that [of RT_EOK "d1\<lparr>dev_flag := dev_flag d1 OR RT_DEVICE_FLAG_ACTIVATED\<rparr>" k1])
        (simp_all add: open_activate_def and_flag dev_ok_def bit_or_iff)
  next
    case False
    show thesis
      using d1 False \<open>\<not> bit (dev_flag d) 4\<close> ref
      by (intro that [of r d1 k1]) (simp_all add: open_activate_def and_flag dev_ok_def)
  qed
qed

lemma open_count_ok:
  assumes "dev_ref d < 255" "serves d" "sane (drv d)" "bit (dev_flag d) 4"
  obtains d' where "open_count d = Some d'" "dev_ok sane serves d'" "dev_ref d' = dev_ref d + 1"
proof -
  let ?d = "d\<lparr>dev_open_flag := dev_open_flag d OR RT_DEVICE_OFLAG_OPEN, dev_ref := dev_ref d + 1\<rparr>"
  have m: "Suc (dev_ref d) mod 256 = Suc (dev_ref d)" using assms(1) by simp
  have "serves ?d" using serves_mark [of d] serves_ref [of _ "d\<lparr>dev_open_flag := dev_open_flag d OR RT_DEVICE_OFLAG_OPEN\<rparr>"] assms(2)
    by simp
  then have "dev_ok sane serves ?d" using assms by (simp add: dev_ok_def bit_or_iff)
  then show thesis by (intro that [of ?d]) (use m assms(1) in \<open>simp_all add: open_count_def rt_assert_def Let_def\<close>)
qed

text \<open>
  Opening keeps a device in order. It counts a reference exactly when it succeeds, and fails its
  assertion only when the eight bits of the count are used up.
\<close>

lemma open_counts:
  assumes "dev_ok sane serves d" "rt_object_get_type ob c = RT_Object_Class_Device" "dev_ref d < 255" "good k"
  obtains r d' k' where "rt_device_open ops c ob oflag d k = Some (r, d', k')" "dev_ok sane serves d'" "good k'"
    "dev_ref d' = dev_ref d + (if dev_success r then 1 else 0)"
proof -
  have dv: "is_device ob c = Some ()" using assms(2) by (simp add: is_device_def rt_assert_def)
  obtain r d1 k1 where d1: "open_activate ops d k = Some (r, d1, k1)" "dev_ref d1 = dev_ref d" "good k1" "dev_ok sane serves d1"
    "r = RT_EOK \<Longrightarrow> bit (dev_flag d1) 4" "r \<noteq> - RT_ENOSYS"
    by (rule activate_ok [OF assms(1,4)]) (rule that)
  consider "r \<noteq> RT_EOK" | "r = RT_EOK" "bit (dev_flag d1) 3" "bit (dev_open_flag d1) 3"
    | (call) "r = RT_EOK" "\<not> (bit (dev_flag d1) 3 \<and> bit (dev_open_flag d1) 3)" by blast
  then show thesis
  proof cases
    case 1
    then show thesis using d1 dv by (intro that [of r d1 k1]) (simp_all add: rt_device_open_def dev_success_def)
  next
    case 2
    then show thesis using d1 dv
      by (intro that [of "- RT_EBUSY" d1 k1]) (simp_all add: rt_device_open_def and_flag dev_success_def)
  next
    case call
    have s: "sane (drv d1)" "dev_ref d1 \<noteq> 0 \<longrightarrow> serves d1" using d1(4) by (auto simp: dev_ok_def split: if_splits)
    obtain q d2 k2 where d2: "(case op_open ops of Some f \<Rightarrow> f oflag d1 k1
        | None \<Rightarrow> Some (RT_EOK, d1\<lparr>dev_open_flag := oflag AND RT_DEVICE_OFLAG_MASK\<rparr>, k1)) = Some (q, d2, k2)"
      "dev_ref d2 = dev_ref d" "dev_flag d2 = dev_flag d1" "sane (drv d2)" "good k2" "if dev_success q then serves d2 else d2 = d1"
      using open_law [of _ d1 k1 oflag] open_default s d1(2,3) by (cases "op_open ops") (fastforce simp: dev_success_def)+
    show thesis
    proof (cases "dev_success q")
      case True
      obtain d3 where "open_count d2 = Some d3" "dev_ok sane serves d3" "dev_ref d3 = dev_ref d2 + 1"
        by (rule open_count_ok [of d2]) (use assms(3) d2 True d1(5) call(1) in simp_all)
      then show thesis using call dv d1(1) d2 True
        by (intro that [of q d3 k2]) (auto simp: rt_device_open_def and_flag dev_success_def)
    next
      case False
      then show thesis using call dv d1(1,4) d2
        by (intro that [of q d2 k2]) (auto simp: rt_device_open_def and_flag dev_success_def)
    qed
  qed
qed

text \<open>Closing gives one reference back; the last one closes the driver.\<close>

lemma close_counts:
  assumes "dev_ok sane serves d" "rt_object_get_type ob c = RT_Object_Class_Device" "good k"
  obtains r d' k' where "rt_device_close ops c ob d k = Some (r, d', k')" "dev_ok sane serves d'" "good k'"
    "dev_ref d' = dev_ref d - 1" "r = (if dev_ref d = 0 then - RT_ERROR else RT_EOK)"
proof -
  have dv: "is_device ob c = Some ()" using assms(2) by (simp add: is_device_def rt_assert_def)
  let ?d = "d\<lparr>dev_ref := dev_ref d - 1\<rparr>"
  consider "dev_ref d = 0" | "1 < dev_ref d" | (last) "dev_ref d = 1" by linarith
  then show thesis
  proof cases
    case 1
    then show thesis using assms dv by (intro that [of "- RT_ERROR" d k]) (simp_all add: rt_device_close_def)
  next
    case 2
    then show thesis using assms dv serves_ref [of "dev_ref d - 1" d]
      by (intro that [of RT_EOK ?d k]) (auto simp: rt_device_close_def dev_ok_def)
  next
    case last
    let ?e = "d\<lparr>dev_ref := 0\<rparr>"
    have s: "sane (drv ?e)" "serves ?e" "dev_ref ?e = 0"
      using assms(1) last serves_ref [of 0 d] by (simp_all add: dev_ok_def)
    obtain d2 k2 where d2: "(case op_close ops of Some f \<Rightarrow> f ?e k | None \<Rightarrow> Some (RT_EOK, ?e, k)) = Some (RT_EOK, d2, k2)"
      "dev_ref d2 = 0" "sane (drv d2)" "good k2"
      using close_law [of _ ?e k] s assms(3) by (cases "op_close ops") fastforce+
    then show thesis using last dv
      by (intro that [of RT_EOK "d2\<lparr>dev_open_flag := RT_DEVICE_OFLAG_CLOSE\<rparr>" k2]) (simp_all add: rt_device_close_def dev_ok_def Let_def)
  qed
qed

lemma read_keeps:
  assumes "dev_ok sane serves d" "rt_object_get_type ob c = RT_Object_Class_Device" "good k"
  obtains bs d' k' where "rt_device_read ops c ob pos n d k = Some (bs, d', k')" "dev_ok sane serves d'" "good k'"
    "dev_ref d' = dev_ref d" "length bs \<le> n"
proof -
  have dv: "is_device ob c = Some ()" using assms(2) by (simp add: is_device_def rt_assert_def)
  show thesis
  proof (cases "dev_ref d = 0 \<or> op_read ops = None")
    case True
    then show thesis using assms dv
      by (intro that [of "[]" d "rt_set_errno (if dev_ref d = 0 then - RT_ERROR else - RT_ENOSYS) k"])
        (auto simp: rt_device_read_def errno_law)
  next
    case False
    then obtain f where f: "op_read ops = Some f" by auto
    have s: "sane (drv d)" "serves d" using assms(1) False by (simp_all add: dev_ok_def)
    obtain bs d' k' where "f pos n d k = Some (bs, d', k')" "length bs \<le> n" "serves d'" "dev_ref d' = dev_ref d"
      "dev_flag d' = dev_flag d" "dev_open_flag d' = dev_open_flag d" "sane (drv d')" "good k'"
      using read_law [OF f s assms(3), of pos n] by blast
    then show thesis using f False dv assms(1)
      by (intro that [of bs d' k']) (auto simp: rt_device_read_def dev_ok_def split: if_splits)
  qed
qed

text \<open>
  Any sequence of uses returns, as long as the count does not overflow, and the count is the number
  of references that are held.
\<close>

theorem run_counts:
  assumes "dev_ok sane serves d" "rt_object_get_type ob c = RT_Object_Class_Device" "good k"
    "dev_ref d + length us \<le> 255"
  shows "\<exists>rs d' k'. dev_run ops c ob us d k = Some (rs, d', k') \<and> dev_ok sane serves d' \<and> good k' \<and>
    length rs = length us \<and> dev_ref d' = held (zip us rs) (dev_ref d)"
  using assms(1,3,4)
proof (induction us arbitrary: d k)
  case Nil
  then show ?case by simp
next
  case (Cons u us)
  have l: "dev_ref d < 255" using Cons.prems(3) by simp
  obtain r d1 k1 where d1: "dev_do ops c ob u d k = Some (r, d1, k1)" "dev_ok sane serves d1" "good k1"
    "dev_ref d1 \<le> dev_ref d + 1" "\<And>xs. held ((u, r) # xs) (dev_ref d) = held xs (dev_ref d1)"
  proof (cases u)
    case (Use_open oflag)
    obtain r d' k' where "rt_device_open ops c ob oflag d k = Some (r, d', k')" "dev_ok sane serves d'" "good k'"
      "dev_ref d' = dev_ref d + (if dev_success r then 1 else 0)"
      by (rule open_counts [OF Cons.prems(1) assms(2) l Cons.prems(2)]) (rule that)
    then show thesis by (intro that [of r d' k']) (simp_all add: Use_open)
  next
    case Use_close
    obtain r d' k' where "rt_device_close ops c ob d k = Some (r, d', k')" "dev_ok sane serves d'" "good k'"
      "dev_ref d' = dev_ref d - 1"
      by (rule close_counts [OF Cons.prems(1) assms(2) Cons.prems(2)]) (rule that)
    then show thesis by (intro that [of r d' k']) (simp_all add: Use_close)
  next
    case (Use_read n)
    obtain bs d' k' where "rt_device_read ops c ob 0 n d k = Some (bs, d', k')" "dev_ok sane serves d'" "good k'"
      "dev_ref d' = dev_ref d"
      by (rule read_keeps [OF Cons.prems(1) assms(2) Cons.prems(2)]) (rule that)
    then show thesis by (intro that [of "int (length bs)" d' k']) (simp_all add: Use_read)
  qed
  have "dev_ref d1 + length us \<le> 255" using d1(4) Cons.prems(3) by simp
  from Cons.IH [OF d1(2,3) this] obtain rs d' k' where "dev_run ops c ob us d1 k1 = Some (rs, d', k')"
    "dev_ok sane serves d'" "good k'" "length rs = length us" "dev_ref d' = held (zip us rs) (dev_ref d1)" by blast
  then show ?case using d1(1,5) by simp
qed

end

end
