(* ===== verification/Completion.thy ===== *)
theory Completion
  imports Ipc
begin

text \<open>
  Completions (components/drivers/ipc/completion.c): one thread waits until another, or an interrupt
  handler, signals that something is done. It is shown that a completion is a flag with one
  waiting thread, that a signal reaches a thread that waits, and which signals are lost.
\<close>

subsection \<open>Operations\<close>

text \<open>\<open>comp_list\<close> names the list of suspended threads.\<close>

record completion =
  comp_flag :: u32
  comp_list :: nat

abbreviation (input) RT_COMPLETED :: u32 where "RT_COMPLETED \<equiv> 1"
abbreviation (input) RT_UNCOMPLETED :: u32 where "RT_UNCOMPLETED \<equiv> 0"

definition rt_completion_init :: "completion \<Rightarrow> kernel \<Rightarrow> completion \<times> kernel" where
  "rt_completion_init c k = (c\<lparr>comp_flag := RT_UNCOMPLETED\<rparr>, ipc_object_init (SuspQ (comp_list c)) k)"

definition rt_completion_wait :: "int \<Rightarrow> completion \<Rightarrow> kernel \<Rightarrow> (int ret \<times> completion \<times> kernel) option" where
  "rt_completion_wait timeout c k = do {
     _ \<leftarrow> RT_DEBUG_SCHEDULER_AVAILABLE (timeout \<noteq> 0) k;
     if comp_flag c \<noteq> RT_COMPLETED then do {
       _ \<leftarrow> rt_assert (l_isempty (SuspQ (comp_list c)) (lists k));
       if timeout = 0 then Some (Ret (- RT_ETIMEOUT), c, k)
       else do {
         t \<leftarrow> rt_thread_self k;
         let k = upd_thread t (\<lambda>h. h\<lparr>th_error := RT_EOK\<rparr>) k;
         k \<leftarrow> ipc_suspend_timed (SuspQ (comp_list c)) t RT_IPC_FLAG_FIFO timeout k;
         k \<leftarrow> rt_schedule k;
         Some (Blocked, c, k) } }
     else Some (Ret RT_EOK, c\<lparr>comp_flag := RT_UNCOMPLETED\<rparr>, k) }"

definition rt_completion_wait_resume :: "nat \<Rightarrow> completion \<Rightarrow> kernel \<Rightarrow> int \<times> completion" where
  "rt_completion_wait_resume t c k = (th_error (threads k t), c\<lparr>comp_flag := RT_UNCOMPLETED\<rparr>)"

definition rt_completion_done :: "completion \<Rightarrow> kernel \<Rightarrow> (completion \<times> kernel) option" where
  "rt_completion_done c k =
     (if comp_flag c = RT_COMPLETED then Some (c, k)
      else
        let c = c\<lparr>comp_flag := RT_COMPLETED\<rparr> in
        if \<not> l_isempty (SuspQ (comp_list c)) (lists k) then do {
          k \<leftarrow> ipc_list_resume (SuspQ (comp_list c)) k;
          k \<leftarrow> rt_schedule k;
          Some (c, k) }
        else Some (c, k))"

subsection \<open>A flag and a waiting thread\<close>

record signal =
  raised :: bool
  waiter :: "nat option"

definition comp_abs :: "completion \<Rightarrow> kernel \<Rightarrow> signal" where
  "comp_abs c k = \<lparr>raised = (comp_flag c = RT_COMPLETED),
     waiter = (case lists k (SuspQ (comp_list c)) of [] \<Rightarrow> None | t # _ \<Rightarrow> Some t)\<rparr>"

definition comp_inv :: "completion \<Rightarrow> kernel \<Rightarrow> bool" where
  "comp_inv c k \<longleftrightarrow> kinv k \<and> length (lists k (SuspQ (comp_list c))) \<le> 1 \<and>
     (comp_flag c = RT_COMPLETED \<longrightarrow> lists k (SuspQ (comp_list c)) = [])"

definition spec_wait :: "nat \<Rightarrow> bool \<Rightarrow> signal \<Rightarrow> int ret \<times> signal" where
  "spec_wait t try s =
     (if raised s then (Ret RT_EOK, s\<lparr>raised := False\<rparr>)
      else if try then (Ret (- RT_ETIMEOUT), s)
      else (Blocked, s\<lparr>waiter := Some t\<rparr>))"

definition spec_done :: "signal \<Rightarrow> signal" where
  "spec_done s = s\<lparr>raised := True, waiter := None\<rparr>"

lemma comp_inv_init:
  assumes "kinv k" "lists k (SuspQ (comp_list c)) = []"
  shows "rt_completion_init c k = (c\<lparr>comp_flag := RT_UNCOMPLETED\<rparr>, k)" "comp_inv (c\<lparr>comp_flag := RT_UNCOMPLETED\<rparr>) k"
  using assms by (simp_all add: rt_completion_init_def ipc_object_init_id comp_inv_def)

text \<open>A wait needs the completion to itself.\<close>

lemma rt_completion_wait_refines:
  assumes inv: "comp_inv c k" and t: "in_thread k t" and time: "timeout < 2 ^ 31 - 1"
    and free: "waiter (comp_abs c k) = None"
  obtains r c' k' where "rt_completion_wait timeout c k = Some (r, c', k')" "comp_inv c' k'" "comp_list c' = comp_list c"
    "(r, comp_abs c' k') = spec_wait t (timeout = 0) (comp_abs c k)"
    "r = Blocked \<Longrightarrow> th_stat (threads k' t) = RT_THREAD_SUSPEND \<and> th_error (threads k' t) = RT_EOK"
proof -
  note D = in_threadD [OF t]
  have ki: "kinv k" using inv by (simp add: comp_inv_def)
  have e: "lists k (SuspQ (comp_list c)) = []" using free by (simp add: comp_abs_def split: list.splits)
  show thesis
  proof (cases "comp_flag c = RT_COMPLETED \<or> timeout = 0")
    case True
    then show thesis
      using inv e by (intro that [of "if comp_flag c = RT_COMPLETED then Ret RT_EOK else Ret (- RT_ETIMEOUT)"
            "if comp_flag c = RT_COMPLETED then c\<lparr>comp_flag := RT_UNCOMPLETED\<rparr> else c" k])
        (auto simp: rt_completion_wait_def comp_inv_def comp_abs_def spec_wait_def l_isempty_def D
            split: if_splits)
  next
    case False
    let ?k = "upd_thread t (\<lambda>h. h\<lparr>th_error := RT_EOK\<rparr>) k" and ?q = "SuspQ (comp_list c)"
    have c: "current_thread ?k = Some t" "th_stat (threads ?k t) = RT_THREAD_RUNNING" using D by simp_all
    obtain k1 k' where k': "ipc_suspend_timed ?q t RT_IPC_FLAG_FIFO timeout ?k = Some k1"
      "rt_schedule k1 = Some k'" "kinv k'" "threads k' t = (threads ?k t)\<lparr>th_stat := RT_THREAD_SUSPEND\<rparr>"
      "lists k' ?q = wait_insert RT_IPC_FLAG_FIFO (\<lambda>u. current_priority (threads ?k u)) t (lists ?k ?q)"
      by (rule ipc_block_ok [OF kinv_upd_error [OF ki] c list_stat.simps(2) time]) (rule that)
    have q: "lists k' ?q = [t]" using k'(5) e by (simp add: wait_insert_Nil)
    show thesis
      using False k'(1,2,3,4) q e by (intro that [of Blocked c k'])
        (simp_all add: rt_completion_wait_def D l_isempty_def comp_inv_def comp_abs_def spec_wait_def)
  qed
qed

text \<open>A signal wakes the thread that waits, or stays until one comes.\<close>

lemma rt_completion_done_refines:
  assumes inv: "comp_inv c k"
  obtains c' k' where "rt_completion_done c k = Some (c', k')" "comp_inv c' k'" "comp_list c' = comp_list c"
    "comp_abs c' k' = spec_done (comp_abs c k)"
    "\<And>t. waiter (comp_abs c k) = Some t \<Longrightarrow> th_stat (threads k' t) \<noteq> RT_THREAD_SUSPEND \<and>
       th_error (threads k' t) = th_error (threads k t)"
proof -
  let ?q = "SuspQ (comp_list c)"
  have ki: "kinv k" using inv by (simp add: comp_inv_def)
  show thesis
  proof (cases "lists k ?q")
    case Nil
    then show thesis
      using inv by (intro that [of "c\<lparr>comp_flag := RT_COMPLETED\<rparr>" k])
        (auto simp: rt_completion_done_def comp_inv_def comp_abs_def spec_done_def l_isempty_def Let_def)
  next
    case (Cons t ts)
    then have f: "comp_flag c \<noteq> RT_COMPLETED" "ts = []" using inv by (auto simp: comp_inv_def)
    obtain k1 where k1: "ipc_list_resume ?q k = Some k1" "kinv k1" "lists k1 ?q = ts"
      "threads k1 = (threads k)(t := (threads k t)\<lparr>th_stat :=
         if current_thread k = Some t then RT_THREAD_RUNNING else RT_THREAD_READY\<rparr>)"
      by (rule ipc_list_resume_ok [OF ki Cons list_stat.simps(2)]) (rule that)
    obtain k' where k': "rt_schedule k1 = Some k'" "kinv k'" "\<And>u. same_tcb (threads k1 u) (threads k' u)"
      "\<And>h. \<not> is_ready h \<Longrightarrow> lists k' h = lists k1 h"
      by (rule kinv_schedule [OF k1(2)]) (rule that)
    have st: "th_stat (threads k1 t) \<noteq> RT_THREAD_SUSPEND" by (simp add: k1(4))
    have "th_stat (threads k' t) \<noteq> RT_THREAD_SUSPEND" using same_tcbD(10) [OF k'(3) [of t]] st by fastforce
    moreover have "th_error (threads k' t) = th_error (threads k t)"
      using same_tcbD(3) [OF k'(3) [of t]] by (simp add: k1(4))
    ultimately show thesis
      using f Cons k1(1,3) k'(1,2,4) by (intro that [of "c\<lparr>comp_flag := RT_COMPLETED\<rparr>" k'])
        (auto simp: rt_completion_done_def comp_inv_def comp_abs_def spec_done_def l_isempty_def Let_def)
  qed
qed

text \<open>
  A thread that waits without a limit and is signalled returns with success, whatever the
  system does until it runs again, as long as its error number is left alone.
\<close>

theorem signal_reaches_waiter:
  assumes "comp_inv c k" "in_thread k t" "waiter (comp_abs c k) = None"
    "rt_completion_wait RT_WAITING_FOREVER c k = Some (Blocked, c1, k1)"
    "comp_inv c1 k2" "waiter (comp_abs c1 k2) = Some t" "th_error (threads k2 t) = th_error (threads k1 t)"
  obtains c3 k3 where "rt_completion_done c1 k2 = Some (c3, k3)" "th_stat (threads k3 t) \<noteq> RT_THREAD_SUSPEND"
    "rt_completion_wait_resume t c3 k3 = (RT_EOK, c3\<lparr>comp_flag := RT_UNCOMPLETED\<rparr>)"
proof -
  have time: "RT_WAITING_FOREVER < (2 :: int) ^ 31 - 1" by simp
  have "th_error (threads k1 t) = RT_EOK"
    by (rule rt_completion_wait_refines [OF assms(1,2) time assms(3)]) (use assms(4) in auto)
  moreover obtain c3 k3 where "rt_completion_done c1 k2 = Some (c3, k3)"
    "th_stat (threads k3 t) \<noteq> RT_THREAD_SUSPEND" "th_error (threads k3 t) = th_error (threads k2 t)"
    by (rule rt_completion_done_refines [OF assms(5)]) (use assms(6) that in auto)
  ultimately show thesis using that assms(7) by (simp add: rt_completion_wait_resume_def)
qed

text \<open>
  A signal that comes after the time of the waiting thread has run out and before the thread runs
  is lost: the wait fails and takes the flag away. And one signal can satisfy two waits: a
  second thread may take the flag before the first has run.
\<close>

lemma late_signal_lost:
  assumes "comp_inv c k" "comp_flag c \<noteq> RT_COMPLETED" "lists k (SuspQ (comp_list c)) = []"
    "th_error (threads k t) = - RT_ETIMEOUT"
  shows "\<exists>c'. rt_completion_done c k = Some (c', k) \<and> comp_flag c' = RT_COMPLETED \<and>
    rt_completion_wait_resume t c' k = (- RT_ETIMEOUT, c'\<lparr>comp_flag := RT_UNCOMPLETED\<rparr>)"
  using assms by (simp add: rt_completion_done_def l_isempty_def Let_def rt_completion_wait_resume_def)

lemma one_signal_two_waits:
  assumes "comp_inv c k" "waiter (comp_abs c k) = Some t" "th_error (threads k t) = RT_EOK"
    "rt_completion_done c k = Some (c', k')" "in_thread k' u"
  shows "\<exists>c''. rt_completion_wait timeout c' k' = Some (Ret RT_EOK, c'', k') \<and>
    fst (rt_completion_wait_resume t c'' k') = RT_EOK"
proof -
  have c': "raised (comp_abs c' k') = True" "th_error (threads k' t) = RT_EOK"
    by (rule rt_completion_done_refines [OF assms(1)], use assms(2,3,4) in \<open>simp add: spec_done_def\<close>)+
  then have "comp_flag c' = RT_COMPLETED" by (simp add: comp_abs_def)
  then show ?thesis using in_threadD(5) [OF assms(5)] c'(2)
    by (simp add: rt_completion_wait_def rt_completion_wait_resume_def)
qed

end
