(* ===== verification/Serial.thy ===== *)
theory Serial
  imports Kdevice Completion
begin

text \<open>
  The serial driver (components/drivers/serial/serial.c) between the device framework and a
  UART: polling and interrupt driven input and output (DMA and the POSIX layer are not configured).
  What the driver asks of the hardware is a locale, and the driver in turn is a driver in
  the sense of the framework. It is shown that the receive buffer holds the latest bytes that
  arrived, in order, that reading takes the oldest ones, and that output ends.
\<close>

unbundle bit_operations_syntax

subsection \<open>Data\<close>

record serial_configure =
  baud_rate :: u32
  data_bits :: nat
  stop_bits :: nat
  parity :: nat
  bit_order :: nat
  invert :: nat
  bufsz :: nat
  flowcontrol :: nat
  reserved :: nat

record rx_fifo =
  rx_buffer :: "byte list"
  put_index :: nat
  get_index :: nat
  is_full :: bool

text \<open>\<open>hw\<close> is the state of the hardware behind the operations of the UART.\<close>

record 'h serial =
  ser_config :: serial_configure
  serial_rx :: "rx_fifo option"
  serial_tx :: "completion option"
  hw :: 'h

text \<open>\<open>configure\<close> may be missing. The result of \<open>control\<close> is not used. \<open>getc\<close> returns \<open>-1\<close> without a byte.\<close>

record 'h uart_ops =
  uart_configure :: "(serial_configure \<Rightarrow> 'h \<Rightarrow> int \<times> 'h) option"
  uart_control :: "nat \<Rightarrow> 16 word \<Rightarrow> 'h \<Rightarrow> 'h"
  uart_putc :: "byte \<Rightarrow> 'h \<Rightarrow> int \<times> 'h"
  uart_getc :: "'h \<Rightarrow> int \<times> 'h"

abbreviation (input) RT_DEVICE_FLAG_SUSPENDED :: "16 word" where "RT_DEVICE_FLAG_SUSPENDED \<equiv> 0x020"
abbreviation (input) RT_DEVICE_FLAG_STREAM :: "16 word" where "RT_DEVICE_FLAG_STREAM \<equiv> 0x040"
abbreviation (input) RT_DEVICE_FLAG_INT_RX :: "16 word" where "RT_DEVICE_FLAG_INT_RX \<equiv> 0x100"
abbreviation (input) RT_DEVICE_FLAG_DMA_RX :: "16 word" where "RT_DEVICE_FLAG_DMA_RX \<equiv> 0x200"
abbreviation (input) RT_DEVICE_FLAG_INT_TX :: "16 word" where "RT_DEVICE_FLAG_INT_TX \<equiv> 0x400"
abbreviation (input) RT_DEVICE_FLAG_DMA_TX :: "16 word" where "RT_DEVICE_FLAG_DMA_TX \<equiv> 0x800"
abbreviation (input) RT_DEVICE_CTRL_RESUME :: nat where "RT_DEVICE_CTRL_RESUME \<equiv> 0x01"
abbreviation (input) RT_DEVICE_CTRL_SUSPEND :: nat where "RT_DEVICE_CTRL_SUSPEND \<equiv> 0x02"
abbreviation (input) RT_DEVICE_CTRL_CONFIG :: nat where "RT_DEVICE_CTRL_CONFIG \<equiv> 0x03"
abbreviation (input) RT_DEVICE_CTRL_CLOSE :: nat where "RT_DEVICE_CTRL_CLOSE \<equiv> 0x04"
abbreviation (input) RT_DEVICE_CTRL_SET_INT :: nat where "RT_DEVICE_CTRL_SET_INT \<equiv> 0x10"
abbreviation (input) RT_DEVICE_CTRL_CLR_INT :: nat where "RT_DEVICE_CTRL_CLR_INT \<equiv> 0x11"

subsection \<open>Polling\<close>

text \<open>\<open>stream\<close> is the flag \<open>RT_DEVICE_FLAG_STREAM\<close> of the open device.\<close>

fun poll_rx_loop :: "'h uart_ops \<Rightarrow> bool \<Rightarrow> nat \<Rightarrow> 'h \<Rightarrow> byte list \<times> 'h" where
  "poll_rx_loop u stream 0 h = ([], h)"
| "poll_rx_loop u stream (Suc n) h =
     (let (ch, h) = uart_getc u h in
      if ch = -1 then ([], h)
      else if stream \<and> ch = 10 then ([word_of_int ch], h)
      else let (bs, h) = poll_rx_loop u stream n h in (word_of_int ch # bs, h))"

fun poll_tx_loop :: "'h uart_ops \<Rightarrow> bool \<Rightarrow> byte list \<Rightarrow> 'h \<Rightarrow> 'h" where
  "poll_tx_loop u stream [] h = h"
| "poll_tx_loop u stream (b # bs) h =
     (let h = (if b = 10 \<and> stream then snd (uart_putc u 13 h) else h) in
      poll_tx_loop u stream bs (snd (uart_putc u b h)))"

definition streaming :: "'d dev \<Rightarrow> bool" where
  "streaming d \<longleftrightarrow> dev_open_flag d AND RT_DEVICE_FLAG_STREAM \<noteq> 0"

definition serial_poll_rx :: "'h uart_ops \<Rightarrow> nat \<Rightarrow> 'h serial dev \<Rightarrow> byte list \<times> 'h serial dev" where
  "serial_poll_rx u n d =
     (let (bs, h) = poll_rx_loop u (streaming d) n (hw (drv d)) in (bs, d\<lparr>drv := (drv d)\<lparr>hw := h\<rparr>\<rparr>))"

definition serial_poll_tx :: "'h uart_ops \<Rightarrow> byte list \<Rightarrow> 'h serial dev \<Rightarrow> nat \<times> 'h serial dev" where
  "serial_poll_tx u data d =
     (length data, d\<lparr>drv := (drv d)\<lparr>hw := poll_tx_loop u (streaming d) data (hw (drv d))\<rparr>\<rparr>)"

subsection \<open>The receive buffer\<close>

text \<open>A byte goes in with interrupts disabled; when the buffer is full the oldest byte goes.\<close>

definition fifo_put :: "nat \<Rightarrow> byte \<Rightarrow> rx_fifo \<Rightarrow> rx_fifo option" where
  "fifo_put m ch f = do {
     buf \<leftarrow> mem_write (rx_buffer f) (put_index f) [ch];
     let f = f\<lparr>rx_buffer := buf, put_index := (put_index f + 1) mod 2 ^ 16\<rparr>;
     let f = (if put_index f \<ge> m then f\<lparr>put_index := 0\<rparr> else f);
     Some (if put_index f = get_index f then
             let f = f\<lparr>get_index := (get_index f + 1) mod 2 ^ 16, is_full := True\<rparr> in
             if get_index f \<ge> m then f\<lparr>get_index := 0\<rparr> else f
           else f) }"

definition fifo_get :: "nat \<Rightarrow> rx_fifo \<Rightarrow> (byte option \<times> rx_fifo) option" where
  "fifo_get m f =
     (if get_index f = put_index f \<and> \<not> is_full f then Some (None, f)
      else do {
        ch \<leftarrow> mem_read (rx_buffer f) (get_index f) 1;
        let f = f\<lparr>get_index := (get_index f + 1) mod 2 ^ 16\<rparr>;
        let f = (if get_index f \<ge> m then f\<lparr>get_index := 0\<rparr> else f);
        let f = (if is_full f then f\<lparr>is_full := False\<rparr> else f);
        Some (Some (hd ch), f) })"

fun int_rx_loop :: "nat \<Rightarrow> nat \<Rightarrow> rx_fifo \<Rightarrow> (byte list \<times> rx_fifo) option" where
  "int_rx_loop m 0 f = Some ([], f)"
| "int_rx_loop m (Suc n) f = do {
     (ch, f) \<leftarrow> fifo_get m f;
     case ch of
       None \<Rightarrow> Some ([], f)
     | Some ch \<Rightarrow> do { (bs, f) \<leftarrow> int_rx_loop m n f; Some (ch # bs, f) } }"

definition serial_int_rx :: "nat \<Rightarrow> 'h serial dev \<Rightarrow> (byte list \<times> 'h serial dev) option" where
  "serial_int_rx n d = do {
     f \<leftarrow> serial_rx (drv d);
     (bs, f) \<leftarrow> int_rx_loop (bufsz (ser_config (drv d))) n f;
     Some (bs, d\<lparr>drv := (drv d)\<lparr>serial_rx := Some f\<rparr>\<rparr>) }"

subsection \<open>Interrupt driven output\<close>

text \<open>
  One round of the loop of \<open>_serial_int_tx\<close> for its first byte: it is accepted, or the thread waits for the
  completion and the round starts again, with the carriage return.
\<close>

definition int_tx_byte :: "'h uart_ops \<Rightarrow> bool \<Rightarrow> byte \<Rightarrow> 'h \<Rightarrow> bool \<times> 'h" where
  "int_tx_byte u stream b h =
     (let (r, h) = (if b = 10 \<and> stream then uart_putc u 13 h else (0, h)) in
      if r = -1 then (False, h)
      else let (r, h) = uart_putc u b h in (r \<noteq> -1, h))"

text \<open>
  The loop runs until all is sent or a wait blocks, and results in what is left to send. A wait that
  returns at once has taken the flag of the completion away, so the next one blocks.
\<close>

function int_tx_loop ::
    "'h uart_ops \<Rightarrow> bool \<Rightarrow> byte list \<Rightarrow> 'h \<Rightarrow> completion \<Rightarrow> kernel \<Rightarrow> (byte list \<times> 'h \<times> completion \<times> kernel) option" where
  "int_tx_loop u stream [] h c k = Some ([], h, c, k)"
| "int_tx_loop u stream (b # bs) h c k =
     (case int_tx_byte u stream b h of
        (True, h) \<Rightarrow> int_tx_loop u stream bs h c k
      | (False, h) \<Rightarrow>
          (case rt_completion_wait RT_WAITING_FOREVER c k of
             None \<Rightarrow> None
           | Some (Blocked, c, k) \<Rightarrow> Some (b # bs, h, c, k)
           | Some (Ret _, c, k) \<Rightarrow> int_tx_loop u stream (b # bs) h c k))"
  by pat_completeness auto

lemma wait_takes_flag:
  "rt_completion_wait RT_WAITING_FOREVER c k = Some (Ret r, c', k') \<Longrightarrow> comp_flag c = RT_COMPLETED \<and> comp_flag c' = RT_UNCOMPLETED"
  by (auto simp: rt_completion_wait_def option_simps split: if_splits)

termination int_tx_loop
  by (relation "measures [\<lambda>(_, _, bs, _). length bs, \<lambda>(_, _, _, _, c, _). of_bool (comp_flag c = RT_COMPLETED)]")
    (auto dest!: wait_takes_flag)

definition serial_int_tx :: "'h uart_ops \<Rightarrow> byte list \<Rightarrow> ('h serial, write_ret) dev_call" where
  "serial_int_tx u data d k = do {
     c \<leftarrow> serial_tx (drv d);
     (rest, h, c, k) \<leftarrow> int_tx_loop u (streaming d) data (hw (drv d)) c k;
     Some (if rest = [] then Written (length data) else Waits rest,
       d\<lparr>drv := (drv d)\<lparr>serial_tx := Some c, hw := h\<rparr>\<rparr>, k) }"

text \<open>When the thread \<open>t\<close> is woken, the wait takes the flag away and the loop goes on with the rest.\<close>

definition serial_int_tx_resume :: "'h uart_ops \<Rightarrow> nat \<Rightarrow> byte list \<Rightarrow> nat \<Rightarrow> ('h serial, write_ret) dev_call" where
  "serial_int_tx_resume u t rest n d k = do {
     c \<leftarrow> serial_tx (drv d);
     let c = snd (rt_completion_wait_resume t c k);
     (rest, h, c, k) \<leftarrow> int_tx_loop u (streaming d) rest (hw (drv d)) c k;
     Some (if rest = [] then Written n else Waits rest,
       d\<lparr>drv := (drv d)\<lparr>serial_tx := Some c, hw := h\<rparr>\<rparr>, k) }"

subsection \<open>The device interface\<close>

definition rt_serial_init :: "'h uart_ops \<Rightarrow> ('h serial, int) dev_call" where
  "rt_serial_init u d k =
     (let s = (drv d)\<lparr>serial_rx := None, serial_tx := None\<rparr> in
      case uart_configure u of
        None \<Rightarrow> Some (RT_EOK, d\<lparr>drv := s\<rparr>, k)
      | Some configure \<Rightarrow>
          let (result, h) = configure (ser_config s) (hw s) in Some (result, d\<lparr>drv := s\<lparr>hw := h\<rparr>\<rparr>, k))"

definition set_int :: "'h uart_ops \<Rightarrow> nat \<Rightarrow> 16 word \<Rightarrow> 'h serial dev \<Rightarrow> 'h serial dev" where
  "set_int u cmd flag d = d\<lparr>drv := (drv d)\<lparr>hw := uart_control u cmd flag (hw (drv d))\<rparr>\<rparr>"

text \<open>\<open>rx\<close> and \<open>tx\<close> are what \<open>rt_malloc\<close> returns for the two structures; \<open>tx\<close> names the list of the completion.\<close>

definition open_rx :: "'h uart_ops \<Rightarrow> nat option \<Rightarrow> 16 word \<Rightarrow> 'h serial dev \<Rightarrow> 'h serial dev option" where
  "open_rx u rx oflag d =
     (if serial_rx (drv d) = None then
        if oflag AND RT_DEVICE_FLAG_INT_RX \<noteq> 0 then do {
          _ \<leftarrow> rt_assert (rx \<noteq> None);
          let f = \<lparr>rx_buffer = replicate (bufsz (ser_config (drv d))) 0, put_index = 0, get_index = 0, is_full = False\<rparr>;
          let d = d\<lparr>drv := (drv d)\<lparr>serial_rx := Some f\<rparr>, dev_open_flag := dev_open_flag d OR RT_DEVICE_FLAG_INT_RX\<rparr>;
          Some (set_int u RT_DEVICE_CTRL_SET_INT RT_DEVICE_FLAG_INT_RX d) }
        else Some d
      else Some (if oflag AND RT_DEVICE_FLAG_INT_RX \<noteq> 0
                 then d\<lparr>dev_open_flag := dev_open_flag d OR RT_DEVICE_FLAG_INT_RX\<rparr> else d))"

definition open_tx :: "'h uart_ops \<Rightarrow> nat option \<Rightarrow> 16 word \<Rightarrow> 'h serial dev \<Rightarrow> kernel \<Rightarrow> ('h serial dev \<times> kernel) option" where
  "open_tx u tx oflag d k =
     (if serial_tx (drv d) = None then
        if oflag AND RT_DEVICE_FLAG_INT_TX \<noteq> 0 then do {
          q \<leftarrow> tx;
          let (c, k) = rt_completion_init \<lparr>comp_flag = 0, comp_list = q\<rparr> k;
          let d = d\<lparr>drv := (drv d)\<lparr>serial_tx := Some c\<rparr>, dev_open_flag := dev_open_flag d OR RT_DEVICE_FLAG_INT_TX\<rparr>;
          Some (set_int u RT_DEVICE_CTRL_SET_INT RT_DEVICE_FLAG_INT_TX d, k) }
        else Some (d, k)
      else Some (if oflag AND RT_DEVICE_FLAG_INT_TX \<noteq> 0
                 then d\<lparr>dev_open_flag := dev_open_flag d OR RT_DEVICE_FLAG_INT_TX\<rparr> else d, k))"

definition open_refused :: "16 word \<Rightarrow> 16 word \<Rightarrow> bool" where
  "open_refused oflag flag \<longleftrightarrow>
     oflag AND RT_DEVICE_FLAG_DMA_RX \<noteq> 0 \<and> flag AND RT_DEVICE_FLAG_DMA_RX = 0 \<or>
     oflag AND RT_DEVICE_FLAG_DMA_TX \<noteq> 0 \<and> flag AND RT_DEVICE_FLAG_DMA_TX = 0 \<or>
     oflag AND RT_DEVICE_FLAG_INT_RX \<noteq> 0 \<and> flag AND RT_DEVICE_FLAG_INT_RX = 0 \<or>
     oflag AND RT_DEVICE_FLAG_INT_TX \<noteq> 0 \<and> flag AND RT_DEVICE_FLAG_INT_TX = 0"

definition rt_serial_open :: "'h uart_ops \<Rightarrow> nat option \<Rightarrow> nat option \<Rightarrow> 16 word \<Rightarrow> ('h serial, int) dev_call" where
  "rt_serial_open u rx tx oflag d k =
     (if open_refused oflag (dev_flag d) then Some (- RT_EIO, d, k)
      else do {
        let stream_flag = (if oflag AND RT_DEVICE_FLAG_STREAM \<noteq> 0 \<or> dev_open_flag d AND RT_DEVICE_FLAG_STREAM \<noteq> 0
                           then RT_DEVICE_FLAG_STREAM else 0);
        let d = d\<lparr>dev_open_flag := oflag AND 0xff\<rparr>;
        d \<leftarrow> open_rx u rx oflag d;
        (d, k) \<leftarrow> open_tx u tx oflag d k;
        Some (RT_EOK, d\<lparr>dev_open_flag := dev_open_flag d OR stream_flag\<rparr>, k) })"

definition close_rx :: "'h uart_ops \<Rightarrow> 'h serial dev \<Rightarrow> 'h serial dev option" where
  "close_rx u d =
     (if dev_open_flag d AND RT_DEVICE_FLAG_INT_RX \<noteq> 0 then do {
        let d = set_int u RT_DEVICE_CTRL_CLR_INT RT_DEVICE_FLAG_INT_RX d;
        let d = d\<lparr>dev_open_flag := dev_open_flag d AND NOT RT_DEVICE_FLAG_INT_RX\<rparr>;
        _ \<leftarrow> rt_assert (serial_rx (drv d) \<noteq> None);
        Some (d\<lparr>drv := (drv d)\<lparr>serial_rx := None\<rparr>\<rparr>) }
      else Some d)"

definition close_tx :: "'h uart_ops \<Rightarrow> 'h serial dev \<Rightarrow> 'h serial dev option" where
  "close_tx u d =
     (if dev_open_flag d AND RT_DEVICE_FLAG_INT_TX \<noteq> 0 then do {
        let d = set_int u RT_DEVICE_CTRL_CLR_INT RT_DEVICE_FLAG_INT_TX d;
        let d = d\<lparr>dev_open_flag := dev_open_flag d AND NOT RT_DEVICE_FLAG_INT_TX\<rparr>;
        _ \<leftarrow> rt_assert (serial_tx (drv d) \<noteq> None);
        Some (d\<lparr>drv := (drv d)\<lparr>serial_tx := None\<rparr>\<rparr>) }
      else Some d)"

definition rt_serial_close :: "'h uart_ops \<Rightarrow> ('h serial, int) dev_call" where
  "rt_serial_close u d k =
     (if dev_ref d > 1 then Some (RT_EOK, d, k)
      else do {
        d \<leftarrow> close_rx u d;
        d \<leftarrow> close_tx u d;
        let d = set_int u RT_DEVICE_CTRL_CLOSE 0 d;
        Some (RT_EOK, d\<lparr>dev_flag := dev_flag d AND NOT RT_DEVICE_FLAG_ACTIVATED\<rparr>, k) })"

definition rt_serial_read :: "'h uart_ops \<Rightarrow> int \<Rightarrow> nat \<Rightarrow> ('h serial, byte list) dev_call" where
  "rt_serial_read u pos sz d k =
     (if sz = 0 then Some ([], d, k)
      else if dev_open_flag d AND RT_DEVICE_FLAG_INT_RX \<noteq> 0 then do {
        (bs, d) \<leftarrow> serial_int_rx sz d;
        Some (bs, d, k) }
      else let (bs, d) = serial_poll_rx u sz d in Some (bs, d, k))"

definition rt_serial_write :: "'h uart_ops \<Rightarrow> int \<Rightarrow> byte list \<Rightarrow> ('h serial, write_ret) dev_call" where
  "rt_serial_write u pos data d k =
     (if data = [] then Some (Written 0, d, k)
      else if dev_open_flag d AND RT_DEVICE_FLAG_INT_TX \<noteq> 0 then serial_int_tx u data d k
      else let (n, d) = serial_poll_tx u data d in Some (Written n, d, k))"

text \<open>\<open>RT_EBUSY\<close> is returned with the wrong sign. The argument \<open>None\<close> is a null pointer.\<close>

definition rt_serial_control :: "'h uart_ops \<Rightarrow> nat \<Rightarrow> serial_configure option \<Rightarrow> ('h serial, int) dev_call" where
  "rt_serial_control u cmd arg d k =
     (if cmd = RT_DEVICE_CTRL_SUSPEND then Some (RT_EOK, d\<lparr>dev_flag := dev_flag d OR RT_DEVICE_FLAG_SUSPENDED\<rparr>, k)
      else if cmd = RT_DEVICE_CTRL_RESUME then Some (RT_EOK, d\<lparr>dev_flag := dev_flag d AND NOT RT_DEVICE_FLAG_SUSPENDED\<rparr>, k)
      else if cmd = RT_DEVICE_CTRL_CONFIG then
        (case arg of
           None \<Rightarrow> Some (RT_EOK, d, k)
         | Some cfg \<Rightarrow>
             if bufsz cfg \<noteq> bufsz (ser_config (drv d)) \<and> dev_ref d \<noteq> 0 then Some (RT_EBUSY, d, k)
             else do {
               let d = d\<lparr>drv := (drv d)\<lparr>ser_config := cfg\<rparr>\<rparr>;
               if dev_ref d \<noteq> 0 then do {
                 configure \<leftarrow> uart_configure u;
                 Some (RT_EOK, d\<lparr>drv := (drv d)\<lparr>hw := snd (configure cfg (hw (drv d)))\<rparr>\<rparr>, k) }
               else Some (RT_EOK, d, k) })
      else Some (RT_EOK, d, k))"

definition serial_ops :: "'h uart_ops \<Rightarrow> nat option \<Rightarrow> nat option \<Rightarrow> ('h serial, serial_configure option) dev_ops" where
  "serial_ops u rx tx = \<lparr>op_init = Some (rt_serial_init u), op_open = Some (rt_serial_open u rx tx),
     op_close = Some (rt_serial_close u), op_read = Some (rt_serial_read u), op_write = Some (rt_serial_write u),
     op_control = Some (rt_serial_control u)\<rparr>"

definition rt_hw_serial_register ::
    "nat \<Rightarrow> 'h serial dev \<Rightarrow> nat \<Rightarrow> u32 \<Rightarrow> container \<Rightarrow> kernel \<Rightarrow> (int \<times> 'h serial dev \<times> container \<times> kernel) option" where
  "rt_hw_serial_register ob d name flag c k =
     rt_device_register (Some ob) (d\<lparr>dev_type := 0, rx_indicate := None, tx_complete := None\<rparr>) name (ucast flag) c k"

subsection \<open>The interrupt handler\<close>

text \<open>The loop over the bytes of the UART ends when it has no more.\<close>

partial_function (option) isr_rx_loop :: "'h uart_ops \<Rightarrow> nat \<Rightarrow> rx_fifo \<Rightarrow> 'h \<Rightarrow> (rx_fifo \<times> 'h) option" where
  "isr_rx_loop u m f h =
     (let (ch, h) = uart_getc u h in
      if ch = -1 then Some (f, h)
      else Option.bind (fifo_put m (word_of_int ch) f) (\<lambda>f. isr_rx_loop u m f h))"

definition rx_length :: "nat \<Rightarrow> rx_fifo \<Rightarrow> nat" where
  "rx_length m f =
     (if put_index f \<ge> get_index f then put_index f - get_index f else m - (get_index f - put_index f))"

datatype serial_event = RX_IND | TX_DONE

text \<open>The last act of the handler is to call \<open>rx_indicate\<close>: which function, and with what length.\<close>

definition rt_hw_serial_isr ::
    "'h uart_ops \<Rightarrow> serial_event \<Rightarrow> 'h serial dev \<Rightarrow> kernel \<Rightarrow> ((nat \<times> nat) option \<times> 'h serial dev \<times> kernel) option" where
  "rt_hw_serial_isr u event d k =
     (case event of
        RX_IND \<Rightarrow> do {
          f \<leftarrow> serial_rx (drv d);
          (f, h) \<leftarrow> isr_rx_loop u (bufsz (ser_config (drv d))) f (hw (drv d));
          let d = d\<lparr>drv := (drv d)\<lparr>serial_rx := Some f, hw := h\<rparr>\<rparr>;
          let n = rx_length (bufsz (ser_config (drv d))) f;
          Some (case rx_indicate d of None \<Rightarrow> None | Some cb \<Rightarrow> if n \<noteq> 0 then Some (cb, n) else None, d, k) }
      | TX_DONE \<Rightarrow> do {
          c \<leftarrow> serial_tx (drv d);
          (c, k) \<leftarrow> rt_completion_done c k;
          Some (None, d\<lparr>drv := (drv d)\<lparr>serial_tx := Some c\<rparr>\<rparr>, k) })"

subsection \<open>The receive buffer holds the latest bytes\<close>

definition fifo_ok :: "nat \<Rightarrow> rx_fifo \<Rightarrow> bool" where
  "fifo_ok m f \<longleftrightarrow> 2 \<le> m \<and> m < 2 ^ 16 \<and> length (rx_buffer f) = m \<and> put_index f < m \<and> get_index f < m \<and>
     (is_full f \<longrightarrow> Suc (put_index f) mod m = get_index f)"

definition fifo_bytes :: "nat \<Rightarrow> rx_fifo \<Rightarrow> byte list" where
  "fifo_bytes m f = ring (rx_buffer f) m (get_index f) (rx_length m f)"

definition latest :: "nat \<Rightarrow> 'a list \<Rightarrow> 'a list" where
  "latest n xs = drop (length xs - n) xs"

lemma latest_simps [simp]: "length (latest n xs) = min n (length xs)" "length xs \<le> n \<Longrightarrow> latest n xs = xs"
  by (simp_all add: latest_def)

lemma latest_append: "latest n (latest n xs @ ys) = latest n (xs @ ys)"
proof (cases "length xs \<le> n")
  case False
  then obtain k where "length xs = n + k" using nat_le_iff_add [of n "length xs"] by auto
  then show ?thesis by (simp add: latest_def add.commute)
qed simp

lemma latest_snoc: "length xs \<le> n \<Longrightarrow> 0 < n \<Longrightarrow> latest n (xs @ [x]) = (if length xs = n then tl xs else xs) @ [x]"
  by (cases xs) (auto simp: latest_def drop_Suc)

lemma step_index: "i < m \<Longrightarrow> m < 2 ^ 16 \<Longrightarrow> (if (i + 1) mod 2 ^ 16 \<ge> m then 0 else (i + 1) mod 2 ^ 16) = Suc i mod m"
  for m :: nat
  by (auto simp: mod_Suc)

lemma rx_length_mod: "fifo_ok m f \<Longrightarrow> rx_length m f = (put_index f + m - get_index f) mod m"
  by (auto simp: rx_length_def fifo_ok_def mod_if)

lemma rx_length_less: "fifo_ok m f \<Longrightarrow> rx_length m f < m"
  by (auto simp: rx_length_def fifo_ok_def)

lemma length_fifo_bytes [simp]: "length (fifo_bytes m f) = rx_length m f"
  by (simp add: fifo_bytes_def)

lemma put_index_mod: "fifo_ok m f \<Longrightarrow> (get_index f + rx_length m f) mod m = put_index f"
  by (auto simp: rx_length_def fifo_ok_def mod_if)

text \<open>When the indices meet after a byte went in, the buffer held all but one cell before.\<close>

lemma full_iff: "fifo_ok m f \<Longrightarrow> Suc (put_index f) mod m = get_index f \<longleftrightarrow> rx_length m f = m - 1"
  by (auto simp: rx_length_def fifo_ok_def mod_Suc)

lemma fifo_put_ok:
  assumes ok: "fifo_ok m f"
  obtains f' where "fifo_put m ch f = Some f'" "fifo_ok m f'" "fifo_bytes m f' = latest (m - 1) (fifo_bytes m f @ [ch])"
proof -
  note F = ok [unfolded fifo_ok_def]
  let ?n = "rx_length m f" and ?buf = "(rx_buffer f)[put_index f := ch]"
  have w: "mem_write (rx_buffer f) (put_index f) [ch] = Some ?buf"
    using F by (simp add: upd_conv_take_nth_drop)
  have keep: "ring ?buf m (get_index f) ?n = fifo_bytes m f"
    using ring_update_outside [of "get_index f + ?n" m "rx_buffer f" "get_index f" ?n ch] put_index_mod [OF ok] rx_length_less [OF ok] F
    by (simp add: fifo_bytes_def)
  have app: "ring ?buf m (get_index f) (Suc ?n) = fifo_bytes m f @ [ch]"
    using F by (simp add: ring_Suc keep put_index_mod [OF ok])
  show thesis
  proof (cases "Suc (put_index f) mod m = get_index f")
    case True
    let ?f = "f\<lparr>rx_buffer := ?buf, put_index := get_index f, get_index := Suc (get_index f) mod m, is_full := True\<rparr>"
    have n: "?n = m - 1" using full_iff [OF ok] True by simp
    have okf: "fifo_ok m ?f" using F by (simp add: fifo_ok_def)
    have "rx_length m ?f = m - 1" using full_iff [OF okf] by simp
    then have "fifo_bytes m ?f = ring ?buf m (Suc (get_index f)) (m - 1)" by (simp add: fifo_bytes_def ring_start_mod)
    also have "\<dots> = tl (ring ?buf m (get_index f) m)" using ring_Cons [of m ?buf m "get_index f"] F by simp
    also have "\<dots> = tl (fifo_bytes m f @ [ch])" using app n F by simp
    also have "\<dots> = latest (m - 1) (fifo_bytes m f @ [ch])"
      using latest_snoc [of "fifo_bytes m f" "m - 1" ch] n F by (cases "fifo_bytes m f") (auto simp flip: length_fifo_bytes)
    finally have c: "fifo_bytes m ?f = latest (m - 1) (fifo_bytes m f @ [ch])" .
    show thesis
      by (rule that [OF _ okf c]) (use w True F step_index [of "put_index f" m] step_index [of "get_index f" m] in
        \<open>auto simp: fifo_put_def Let_def split: if_splits\<close>)
  next
    case False
    let ?f = "f\<lparr>rx_buffer := ?buf, put_index := Suc (put_index f) mod m\<rparr>"
    have n: "?n < m - 1" using full_iff [OF ok] False rx_length_less [OF ok] by linarith
    have nf: "\<not> is_full f" using F False by auto
    have okf: "fifo_ok m ?f" using F nf by (simp add: fifo_ok_def)
    have "rx_length m ?f = Suc ?n" using F n by (auto simp: rx_length_def mod_Suc split: if_splits)
    then have "fifo_bytes m ?f = fifo_bytes m f @ [ch]" using app by (simp add: fifo_bytes_def [of m ?f])
    then have c: "fifo_bytes m ?f = latest (m - 1) (fifo_bytes m f @ [ch])" using n by simp
    show thesis
      by (rule that [OF _ okf c]) (use w False F step_index [of "put_index f" m] in
        \<open>auto simp: fifo_put_def Let_def split: if_splits\<close>)
  qed
qed

lemma fifo_get_ok:
  assumes ok: "fifo_ok m f"
  obtains "fifo_bytes m f = []" "fifo_get m f = Some (None, f)"
  | ch f' where "fifo_get m f = Some (Some ch, f')" "fifo_ok m f'" "fifo_bytes m f = ch # fifo_bytes m f'"
proof (cases "get_index f = put_index f")
  case True
  then have "\<not> is_full f" using ok by (auto simp: fifo_ok_def mod_Suc split: if_splits)
  then show thesis using True by (intro that(1)) (simp_all add: fifo_get_def fifo_bytes_def rx_length_def)
next
  case False
  note F = ok [unfolded fifo_ok_def]
  let ?f = "f\<lparr>get_index := Suc (get_index f) mod m, is_full := False\<rparr>"
  have n: "0 < rx_length m f" using False F by (auto simp: rx_length_def)
  have okf: "fifo_ok m ?f" using F by (simp add: fifo_ok_def)
  have l: "rx_length m ?f = rx_length m f - 1" using False F by (auto simp: rx_length_def mod_Suc split: if_splits)
  have b: "fifo_bytes m f = rx_buffer f ! get_index f # fifo_bytes m ?f"
    using ring_Cons [OF n, of "rx_buffer f" m "get_index f"] F l by (simp add: fifo_bytes_def ring_start_mod)
  have r: "mem_read (rx_buffer f) (get_index f) 1 = Some (take 1 (drop (get_index f) (rx_buffer f)))" using F by simp
  have h: "hd (take 1 (drop (get_index f) (rx_buffer f))) = rx_buffer f ! get_index f" using F by (simp add: hd_drop_conv_nth)
  show thesis
    by (rule that(2) [OF _ okf b]) (use r h False F step_index [of "get_index f" m] in
      \<open>auto simp: fifo_get_def Let_def split: if_splits\<close>)
qed

text \<open>Reading takes the oldest bytes.\<close>

lemma int_rx_loop_ok:
  assumes "fifo_ok m f"
  shows "\<exists>f'. int_rx_loop m n f = Some (take n (fifo_bytes m f), f') \<and> fifo_ok m f' \<and>
    fifo_bytes m f' = drop n (fifo_bytes m f)"
  using assms
proof (induction n arbitrary: f)
  case 0
  then show ?case by simp
next
  case (Suc n)
  show ?case
  proof (rule fifo_get_ok [OF Suc.prems])
    assume "fifo_bytes m f = []" "fifo_get m f = Some (None, f)"
    then show ?thesis using Suc.prems by simp
  next
    fix ch f1 assume f1: "fifo_get m f = Some (Some ch, f1)" "fifo_ok m f1" "fifo_bytes m f = ch # fifo_bytes m f1"
    from Suc.IH [OF f1(2)] f1 show ?thesis by auto
  qed
qed

subsection \<open>Opening twice\<close>

text \<open>
  An open device that is opened again without \<open>RT_DEVICE_FLAG_INT_RX\<close> is read by polling from then on, although its
  receive buffer is there and the interrupt handler goes on filling it; closing it leaves the buffer.
\<close>

lemma reopen_polls:
  assumes "serial_rx (drv d) = Some f" "serial_tx (drv d) = None"
  shows "\<exists>d'. rt_serial_open u rx tx 0 d k = Some (RT_EOK, d', k) \<and> dev_open_flag d' AND RT_DEVICE_FLAG_INT_RX = 0 \<and>
    drv d' = drv d \<and> rt_serial_read u pos (Suc n) d' k = (let (bs, d'') = serial_poll_rx u (Suc n) d' in Some (bs, d'', k)) \<and>
    (\<exists>d''. rt_serial_close u (d'\<lparr>dev_ref := 0\<rparr>) k = Some (RT_EOK, d'', k) \<and> serial_rx (drv d'') = Some f)"
  using assms
  by (simp add: rt_serial_open_def open_refused_def open_rx_def open_tx_def rt_serial_read_def rt_serial_close_def close_rx_def
      close_tx_def set_int_def)

subsection \<open>What the driver asks of the hardware\<close>

text \<open>
  \<open>incoming\<close> are the bytes the UART still holds, \<open>sent\<close> those it has accepted. A configuration may fail, but
  not with the number that the framework takes for a success.
\<close>

locale uart =
  fixes u :: "'h uart_ops"
    and incoming :: "'h \<Rightarrow> byte list"
    and sent :: "'h \<Rightarrow> byte list"
  assumes configure_law: "uart_configure u = Some configure \<Longrightarrow> fst (configure cfg h) \<noteq> - RT_ENOSYS"
    and getc_empty: "incoming h = [] \<Longrightarrow> \<exists>h'. uart_getc u h = (-1, h') \<and> incoming h' = [] \<and> sent h' = sent h"
    and getc_byte: "incoming h = b # bs \<Longrightarrow> \<exists>h'. uart_getc u h = (uint b, h') \<and> incoming h' = bs \<and> sent h' = sent h"
    and putc_sends: "\<exists>r h'. uart_putc u b h = (r, h') \<and> incoming h' = incoming h \<and>
      sent h' = (if r = -1 then sent h else sent h @ [b])"

definition port_sane :: "'h serial \<Rightarrow> bool" where
  "port_sane s \<longleftrightarrow> 2 \<le> bufsz (ser_config s) \<and> bufsz (ser_config s) < 2 ^ 16 \<and>
     (\<forall>f. serial_rx s = Some f \<longrightarrow> fifo_ok (bufsz (ser_config s)) f)"

definition port_serves :: "'h serial dev \<Rightarrow> bool" where
  "port_serves d \<longleftrightarrow> (bit (dev_open_flag d) 8 \<longrightarrow> serial_rx (drv d) \<noteq> None) \<and>
     (bit (dev_open_flag d) 10 \<longrightarrow> serial_tx (drv d) \<noteq> None)"

definition free_queue :: "nat \<Rightarrow> kernel \<Rightarrow> bool" where
  "free_queue q k \<longleftrightarrow> kinv k \<and> lists k (SuspQ q) = []"

lemma and_mode: "x AND 0x100 = 0 \<longleftrightarrow> \<not> bit x 8" "x AND 0x400 = 0 \<longleftrightarrow> \<not> bit x 10" "x AND 0x040 = 0 \<longleftrightarrow> \<not> bit x 6"
  for x :: "16 word"
  using and_exp_eq_0_iff_not_bit [of x 8] and_exp_eq_0_iff_not_bit [of x 10] and_exp_eq_0_iff_not_bit [of x 6] by simp_all

lemma mode_bits [simp]:
  "bit (0x100 :: 16 word) n \<longleftrightarrow> n = 8" "bit (0x400 :: 16 word) n \<longleftrightarrow> n = 10"
  "bit (0x040 :: 16 word) n \<longleftrightarrow> n = 6" "bit (0x008 :: 16 word) n \<longleftrightarrow> n = 3" "bit (0x010 :: 16 word) n \<longleftrightarrow> n = 4"
proof -
  have p: "bit (2 ^ m :: 16 word) n \<longleftrightarrow> n = m" if "m < 16" for m using that by (auto simp: bit_exp_iff)
  show "bit (0x100 :: 16 word) n \<longleftrightarrow> n = 8" "bit (0x400 :: 16 word) n \<longleftrightarrow> n = 10"
    "bit (0x040 :: 16 word) n \<longleftrightarrow> n = 6" "bit (0x008 :: 16 word) n \<longleftrightarrow> n = 3" "bit (0x010 :: 16 word) n \<longleftrightarrow> n = 4"
    using p [of 8] p [of 10] p [of 6] p [of 3] p [of 4] by simp_all
qed

lemma low_bits: "bit (0xff :: 16 word) n \<longleftrightarrow> n < 8"
proof -
  have "(0xff :: 16 word) = mask 8" by (simp add: mask_eq_exp_minus_1)
  then show ?thesis by (simp only: bit_mask_iff) auto
qed

lemma free_queue_errno: "free_queue q k \<Longrightarrow> free_queue q (rt_set_errno e k)"
  by (auto simp: free_queue_def rt_set_errno_def kinv_upd_error split: option.splits)

lemma new_fifo: "2 \<le> m \<Longrightarrow> m < 2 ^ 16 \<Longrightarrow> fifo_ok m \<lparr>rx_buffer = replicate m 0, put_index = 0, get_index = 0, is_full = False\<rparr>"
  by (simp add: fifo_ok_def)

lemma open_rx_ok:
  assumes "port_sane (drv d)"
  obtains d' where "open_rx u (Some a) oflag d = Some d'" "port_sane (drv d')" "dev_flag d' = dev_flag d" "dev_ref d' = dev_ref d"
    "bit oflag 8 \<Longrightarrow> serial_rx (drv d') \<noteq> None" "serial_tx (drv d') = serial_tx (drv d)"
    "dev_open_flag d' = dev_open_flag d OR (if bit oflag 8 then RT_DEVICE_FLAG_INT_RX else 0)"
    "serial_rx (drv d) \<noteq> None \<Longrightarrow> serial_rx (drv d') = serial_rx (drv d)"
proof -
  have "\<exists>d'. open_rx u (Some a) oflag d = Some d' \<and> port_sane (drv d') \<and> dev_flag d' = dev_flag d \<and> dev_ref d' = dev_ref d \<and>
      (bit oflag 8 \<longrightarrow> serial_rx (drv d') \<noteq> None) \<and> serial_tx (drv d') = serial_tx (drv d) \<and>
      dev_open_flag d' = dev_open_flag d OR (if bit oflag 8 then RT_DEVICE_FLAG_INT_RX else 0) \<and>
      (serial_rx (drv d) \<noteq> None \<longrightarrow> serial_rx (drv d') = serial_rx (drv d))"
    using assms by (auto simp: open_rx_def and_mode set_int_def Let_def port_sane_def new_fifo)
  then show thesis using that by blast
qed

lemma open_tx_ok:
  assumes "port_sane (drv d)" "free_queue q k"
  obtains d' where "open_tx u (Some q) oflag d k = Some (d', k)" "port_sane (drv d')" "dev_flag d' = dev_flag d" "dev_ref d' = dev_ref d"
    "bit oflag 10 \<Longrightarrow> serial_tx (drv d') \<noteq> None" "serial_rx (drv d') = serial_rx (drv d)"
    "dev_open_flag d' = dev_open_flag d OR (if bit oflag 10 then RT_DEVICE_FLAG_INT_TX else 0)"
proof -
  have "\<exists>d'. open_tx u (Some q) oflag d k = Some (d', k) \<and> port_sane (drv d') \<and> dev_flag d' = dev_flag d \<and> dev_ref d' = dev_ref d \<and>
      (bit oflag 10 \<longrightarrow> serial_tx (drv d') \<noteq> None) \<and> serial_rx (drv d') = serial_rx (drv d) \<and>
      dev_open_flag d' = dev_open_flag d OR (if bit oflag 10 then RT_DEVICE_FLAG_INT_TX else 0)"
    using assms by (auto simp: open_tx_def and_mode set_int_def Let_def port_sane_def free_queue_def comp_inv_init)
  then show thesis using that by blast
qed

text \<open>The serial driver is a driver, whatever the UART, as long as the memory it asks for is there.\<close>

lemma serial_open_law:
  assumes "port_sane (drv d)" "dev_ref d \<noteq> 0 \<longrightarrow> port_serves d" "free_queue q k"
  shows "\<exists>r d' k'. rt_serial_open u (Some a) (Some q) oflag d k = Some (r, d', k') \<and> dev_ref d' = dev_ref d \<and> dev_flag d' = dev_flag d \<and>
    port_sane (drv d') \<and> free_queue q k' \<and> (if dev_success r then port_serves d' else d' = d)"
proof (cases "open_refused oflag (dev_flag d)")
  case True
  then show ?thesis using assms by (simp add: rt_serial_open_def dev_success_def)
next
  case False
  let ?d = "d\<lparr>dev_open_flag := oflag AND 0xff\<rparr>"
  let ?s = "if bit oflag 6 \<or> bit (dev_open_flag d) 6 then RT_DEVICE_FLAG_STREAM else 0"
  obtain d1 where d1: "open_rx u (Some a) oflag ?d = Some d1" "port_sane (drv d1)" "dev_flag d1 = dev_flag d" "dev_ref d1 = dev_ref d"
    "bit oflag 8 \<Longrightarrow> serial_rx (drv d1) \<noteq> None"
    "dev_open_flag d1 = (oflag AND 0xff) OR (if bit oflag 8 then RT_DEVICE_FLAG_INT_RX else 0)"
    by (rule open_rx_ok [of ?d u a oflag]) (use assms(1) that in auto)
  obtain d2 where d2: "open_tx u (Some q) oflag d1 k = Some (d2, k)" "port_sane (drv d2)" "dev_flag d2 = dev_flag d1" "dev_ref d2 = dev_ref d1"
    "bit oflag 10 \<Longrightarrow> serial_tx (drv d2) \<noteq> None" "serial_rx (drv d2) = serial_rx (drv d1)"
    "dev_open_flag d2 = dev_open_flag d1 OR (if bit oflag 10 then RT_DEVICE_FLAG_INT_TX else 0)"
    by (rule open_tx_ok [OF d1(2) assms(3), of u oflag]) (rule that)
  have "rt_serial_open u (Some a) (Some q) oflag d k = Some (RT_EOK, d2\<lparr>dev_open_flag := dev_open_flag d2 OR ?s\<rparr>, k)"
    using False d1(1) d2(1) by (simp add: rt_serial_open_def and_mode)
  moreover have "port_serves (d2\<lparr>dev_open_flag := dev_open_flag d2 OR ?s\<rparr>)"
    using d1(5,6) d2(5,6,7) by (auto simp: port_serves_def bit_or_iff bit_and_iff low_bits)
  ultimately show ?thesis using d1 d2 assms(3) by (auto simp: dev_success_def)
qed

lemma serial_close_law:
  assumes "port_sane (drv d)" "port_serves d" "dev_ref d = 0"
  shows "\<exists>d'. rt_serial_close u d k = Some (RT_EOK, d', k) \<and> dev_ref d' = 0 \<and> port_sane (drv d')"
proof -
  obtain d1 where d1: "close_rx u d = Some d1" "port_sane (drv d1)" "dev_ref d1 = 0" "serial_tx (drv d1) = serial_tx (drv d)"
    "bit (dev_open_flag d1) 10 = bit (dev_open_flag d) 10"
  proof -
    have "\<exists>d1. close_rx u d = Some d1 \<and> port_sane (drv d1) \<and> dev_ref d1 = 0 \<and> serial_tx (drv d1) = serial_tx (drv d) \<and>
        bit (dev_open_flag d1) 10 = bit (dev_open_flag d) 10"
      using assms by (auto simp: close_rx_def and_mode set_int_def Let_def port_sane_def port_serves_def bit_and_iff bit_not_iff)
    then show thesis using that by blast
  qed
  obtain d2 where d2: "close_tx u d1 = Some d2" "port_sane (drv d2)" "dev_ref d2 = 0"
  proof -
    have "\<exists>d2. close_tx u d1 = Some d2 \<and> port_sane (drv d2) \<and> dev_ref d2 = 0"
      using assms(2) d1 by (auto simp: close_tx_def and_mode set_int_def Let_def port_sane_def port_serves_def)
    then show thesis using that by blast
  qed
  show ?thesis using assms(3) d1 d2 by (simp add: rt_serial_close_def set_int_def port_sane_def)
qed

lemma poll_rx_length: "length (fst (poll_rx_loop u stream n h)) \<le> n"
proof (induction n arbitrary: h)
  case (Suc n)
  have "length bs \<le> n" if "poll_rx_loop u stream n h1 = (bs, h2)" for h1 bs h2 using Suc.IH [of h1] that by simp
  then show ?case by (auto simp: Let_def split: prod.splits)
qed simp

lemma serial_int_rx_ok:
  assumes "port_sane (drv d)" "serial_rx (drv d) = Some f"
  shows "\<exists>f'. serial_int_rx n d = Some (take n (fifo_bytes (bufsz (ser_config (drv d))) f), d\<lparr>drv := (drv d)\<lparr>serial_rx := Some f'\<rparr>\<rparr>) \<and>
    fifo_ok (bufsz (ser_config (drv d))) f' \<and>
    fifo_bytes (bufsz (ser_config (drv d))) f' = drop n (fifo_bytes (bufsz (ser_config (drv d))) f)"
proof -
  have "fifo_ok (bufsz (ser_config (drv d))) f" using assms by (simp add: port_sane_def)
  from int_rx_loop_ok [OF this, of n] show ?thesis using assms(2) by (auto simp: serial_int_rx_def)
qed

lemma serial_read_law:
  assumes "port_sane (drv d)" "port_serves d"
  shows "\<exists>bs d'. rt_serial_read u pos n d k = Some (bs, d', k) \<and> length bs \<le> n \<and> port_serves d' \<and> dev_ref d' = dev_ref d \<and>
    dev_flag d' = dev_flag d \<and> dev_open_flag d' = dev_open_flag d \<and> port_sane (drv d')"
proof (cases "n = 0 \<or> \<not> bit (dev_open_flag d) 8")
  case True
  have p: "length bs \<le> n" if "poll_rx_loop u (streaming d) n h = (bs, h')" for bs h h' using poll_rx_length [of u "streaming d" n h] that by simp
  show ?thesis
    using True assms p by (auto simp: rt_serial_read_def and_mode serial_poll_rx_def port_serves_def port_sane_def split: prod.splits)
next
  case False
  then obtain f where f: "serial_rx (drv d) = Some f" using assms(2) by (auto simp: port_serves_def)
  from serial_int_rx_ok [OF assms(1) f, of n] show ?thesis
    using False assms by (auto simp: rt_serial_read_def and_mode port_serves_def port_sane_def)
qed

context uart
begin

lemma serial_init_law:
  assumes "port_sane (drv d)"
  shows "\<exists>r d'. rt_serial_init u d k = Some (r, d', k) \<and> dev_ref d' = dev_ref d \<and> dev_open_flag d' = dev_open_flag d \<and>
    port_sane (drv d') \<and> r \<noteq> - RT_ENOSYS"
proof (cases "uart_configure u")
  case None
  then show ?thesis using assms by (simp add: rt_serial_init_def port_sane_def)
next
  case (Some f)
  from configure_law [OF Some, of "ser_config (drv d)" "hw (drv d)"] show ?thesis
    using Some assms by (auto simp: rt_serial_init_def port_sane_def Let_def split: prod.splits)
qed

end

sublocale uart \<subseteq> serial: driver "serial_ops u (Some a) (Some q)" port_sane port_serves "free_queue q" for a q
proof
  show "\<exists>r d' k'. device_init d k = Some (r, d', k') \<and> dev_ref d' = dev_ref d \<and> dev_open_flag d' = dev_open_flag d \<and>
      port_sane (drv d') \<and> free_queue q k' \<and> r \<noteq> - RT_ENOSYS"
    if "op_init (serial_ops u (Some a) (Some q)) = Some device_init" "port_sane (drv d)" "free_queue q k" for device_init d k
    using serial_init_law [OF that(2), of k] that(1,3) by (auto simp: serial_ops_def)
  show "\<exists>r d' k'. device_open oflag d k = Some (r, d', k') \<and> dev_ref d' = dev_ref d \<and> dev_flag d' = dev_flag d \<and>
      port_sane (drv d') \<and> free_queue q k' \<and> (if dev_success r then port_serves d' else d' = d)"
    if "op_open (serial_ops u (Some a) (Some q)) = Some device_open" "port_sane (drv d)" "dev_ref d \<noteq> 0 \<longrightarrow> port_serves d" "free_queue q k"
    for device_open d k oflag
    using serial_open_law [OF that(2-4), of u a oflag] that(1) by (simp add: serial_ops_def)
  show "port_serves d" if "op_open (serial_ops u (Some a) (Some q)) = None" for d using that by (simp add: serial_ops_def)
  show "\<exists>d' k'. device_close d k = Some (RT_EOK, d', k') \<and> dev_ref d' = 0 \<and> port_sane (drv d') \<and> free_queue q k'"
    if "op_close (serial_ops u (Some a) (Some q)) = Some device_close" "port_sane (drv d)" "port_serves d" "dev_ref d = 0" "free_queue q k"
    for device_close d k
    using serial_close_law [OF that(2-4), of u k] that(1,5) by (auto simp: serial_ops_def)
  show "\<exists>bs d' k'. device_read pos n d k = Some (bs, d', k') \<and> length bs \<le> n \<and> port_serves d' \<and> dev_ref d' = dev_ref d \<and>
      dev_flag d' = dev_flag d \<and> dev_open_flag d' = dev_open_flag d \<and> port_sane (drv d') \<and> free_queue q k'"
    if "op_read (serial_ops u (Some a) (Some q)) = Some device_read" "port_sane (drv d)" "port_serves d" "free_queue q k"
    for device_read d k pos n
    using serial_read_law [OF that(2,3), of u pos n k] that(1,4) by (auto simp: serial_ops_def)
  show "port_serves (d\<lparr>dev_open_flag := dev_open_flag d OR 0x008\<rparr>) = port_serves d" for d :: "'a serial dev"
    by (simp add: port_serves_def bit_or_iff)
  show "port_serves (d\<lparr>dev_ref := m\<rparr>) = port_serves d" for d :: "'a serial dev" and m by (simp add: port_serves_def)
qed (rule free_queue_errno)

context uart
begin

text \<open>The handler moves every byte the UART holds to the buffer, which keeps the latest.\<close>

lemma isr_rx_loop_ok:
  assumes "fifo_ok m f"
  shows "\<exists>f' h'. isr_rx_loop u m f h = Some (f', h') \<and> fifo_ok m f' \<and> incoming h' = [] \<and> sent h' = sent h \<and>
    fifo_bytes m f' = latest (m - 1) (fifo_bytes m f @ incoming h)"
  using assms
proof (induction "incoming h" arbitrary: f h)
  case Nil
  then have e: "incoming h = []" by simp
  have l: "rx_length m f \<le> m - 1" using rx_length_less [OF Nil.prems] by simp
  show ?case using getc_empty [OF e] e Nil.prems l by (subst isr_rx_loop.simps) auto
next
  case (Cons b bs)
  obtain h1 where h1: "uart_getc u h = (uint b, h1)" "incoming h1 = bs" "sent h1 = sent h"
    using getc_byte Cons.hyps(2) by metis
  obtain f1 where f1: "fifo_put m b f = Some f1" "fifo_ok m f1" "fifo_bytes m f1 = latest (m - 1) (fifo_bytes m f @ [b])"
    by (rule fifo_put_ok [OF Cons.prems]) (rule that)
  have n: "uint b \<noteq> -1" using uint_ge_0 [of b] by linarith
  from Cons.hyps(1) [of h1 f1] h1(2) f1(2) obtain f' h' where f': "isr_rx_loop u m f1 h1 = Some (f', h')" "fifo_ok m f'"
    "incoming h' = []" "sent h' = sent h1" "fifo_bytes m f' = latest (m - 1) (fifo_bytes m f1 @ incoming h1)" by auto
  have "isr_rx_loop u m f h = Some (f', h')" using h1(1) f1(1) f'(1) n by (subst isr_rx_loop.simps) simp
  then show ?case using f' f1(3) h1 Cons.hyps(2) [symmetric] latest_append [of "m - 1" "fifo_bytes m f @ [b]" bs] by auto
qed

text \<open>A newline on a stream is sent after a carriage return.\<close>

lemma poll_tx_accepted:
  assumes "\<And>b h. fst (uart_putc u b h) \<noteq> -1"
  shows "sent (poll_tx_loop u stream bs h) = sent h @ concat (map (\<lambda>b. if b = 10 \<and> stream then [13, b] else [b]) bs)"
proof (induction bs arbitrary: h)
  case (Cons b bs)
  have p: "sent (snd (uart_putc u x g)) = sent g @ [x]" for x g
    using putc_sends [of x g] assms [of x g] by auto
  show ?case using Cons.IH by (simp add: Let_def p)
qed simp

end

end
