(* ===== verification/Usart.thy ===== *)
theory Usart
  imports Serial
begin

text \<open>
  The UART of the board (drivers/drv_usart.c) on the USART of an STM32F1: the operations that the serial
  driver calls, over the status and data registers, and its interrupt handler. It is shown that they
  are what the serial driver asks for.
\<close>

unbundle bit_operations_syntax

subsection \<open>Registers\<close>

text \<open>
  The status register, what the data register holds for a reader, whether the receive interrupt is enabled in
  the USART and in the interrupt controller, the settings, and the bytes that went out.
\<close>

record uart_init =
  BaudRate :: u32
  WordLength9 :: bool
  StopBits2 :: bool
  Parity :: nat

record usart =
  sr :: "16 word"
  dr :: "16 word"
  rxneie :: bool
  nvic :: bool
  settings :: uart_init
  line_out :: "byte list"

abbreviation (input) UART_FLAG_PE :: "16 word" where "UART_FLAG_PE \<equiv> 0x001"
abbreviation (input) UART_FLAG_FE :: "16 word" where "UART_FLAG_FE \<equiv> 0x002"
abbreviation (input) UART_FLAG_NE :: "16 word" where "UART_FLAG_NE \<equiv> 0x004"
abbreviation (input) UART_FLAG_ORE :: "16 word" where "UART_FLAG_ORE \<equiv> 0x008"
abbreviation (input) UART_FLAG_RXNE :: "16 word" where "UART_FLAG_RXNE \<equiv> 0x020"
abbreviation (input) UART_FLAG_TC :: "16 word" where "UART_FLAG_TC \<equiv> 0x040"
abbreviation (input) UART_FLAG_TXE :: "16 word" where "UART_FLAG_TXE \<equiv> 0x080"
abbreviation (input) UART_FLAG_LBD :: "16 word" where "UART_FLAG_LBD \<equiv> 0x100"
abbreviation (input) UART_FLAG_CTS :: "16 word" where "UART_FLAG_CTS \<equiv> 0x200"

definition get_flag :: "16 word \<Rightarrow> usart \<Rightarrow> bool" where
  "get_flag f h \<longleftrightarrow> sr h AND f \<noteq> 0"

text \<open>
  A write of \<open>~f\<close> to the status register clears of the flags \<open>f\<close> those that software can clear:
  \<open>RXNE\<close>, \<open>TC\<close>, \<open>LBD\<close> and \<open>CTS\<close>. Reading the status and then the data clears \<open>RXNE\<close>, \<open>IDLE\<close> and the errors.
\<close>

definition clear_flag :: "16 word \<Rightarrow> usart \<Rightarrow> usart" where
  "clear_flag f h = h\<lparr>sr := sr h AND NOT (f AND 0x360)\<rparr>"

definition read_dr :: "usart \<Rightarrow> 16 word \<times> usart" where
  "read_dr h = (dr h, h\<lparr>sr := sr h AND NOT 0x03f\<rparr>)"

text \<open>A character goes out, and the flags say when it has gone.\<close>

definition write_dr :: "byte \<Rightarrow> usart \<Rightarrow> usart" where
  "write_dr c h = h\<lparr>line_out := line_out h @ [c], sr := sr h OR UART_FLAG_TC OR UART_FLAG_TXE\<rparr>"

text \<open>A character comes in; while the last one has not been read it is lost.\<close>

definition usart_receive :: "byte \<Rightarrow> usart \<Rightarrow> usart" where
  "usart_receive b h =
     (if get_flag UART_FLAG_RXNE h then h\<lparr>sr := sr h OR UART_FLAG_ORE\<rparr>
      else h\<lparr>dr := ucast b, sr := sr h OR UART_FLAG_RXNE\<rparr>)"

subsection \<open>Operations\<close>

text \<open>\<open>hal_init\<close> is whether \<open>HAL_UART_Init\<close> succeeds with these settings. Clock and pins are set up before.\<close>

definition stm32_settings :: "serial_configure \<Rightarrow> uart_init" where
  "stm32_settings cfg = \<lparr>BaudRate = baud_rate cfg, WordLength9 = (data_bits cfg = 9),
     StopBits2 = (stop_bits cfg = 1), Parity = (if parity cfg = 1 then 1 else if parity cfg = 2 then 2 else 0)\<rparr>"

definition stm32_configure :: "(uart_init \<Rightarrow> bool) \<Rightarrow> serial_configure \<Rightarrow> usart \<Rightarrow> int \<times> usart" where
  "stm32_configure hal_init cfg h =
     (let h = h\<lparr>settings := stm32_settings cfg\<rparr> in
      if \<not> hal_init (settings h) then (- RT_ERROR, h) else (RT_EOK, h))"

definition stm32_control :: "nat \<Rightarrow> 16 word \<Rightarrow> usart \<Rightarrow> usart" where
  "stm32_control cmd arg h =
     (if cmd = RT_DEVICE_CTRL_CLR_INT then h\<lparr>nvic := False, rxneie := False\<rparr>
      else if cmd = RT_DEVICE_CTRL_SET_INT then h\<lparr>nvic := True, rxneie := True\<rparr>
      else h)"

definition stm32_putc :: "byte \<Rightarrow> usart \<Rightarrow> int \<times> usart" where
  "stm32_putc c h = (1, write_dr c (clear_flag UART_FLAG_TC h))"

definition stm32_getc :: "usart \<Rightarrow> int \<times> usart" where
  "stm32_getc h =
     (if get_flag UART_FLAG_RXNE h then let (x, h) = read_dr h in (uint (x AND 0xff), h) else (-1, h))"

definition stm32_uart_ops :: "(uart_init \<Rightarrow> bool) \<Rightarrow> usart uart_ops" where
  "stm32_uart_ops hal_init = \<lparr>uart_configure = Some (stm32_configure hal_init), uart_control = stm32_control,
     uart_putc = stm32_putc, uart_getc = stm32_getc\<rparr>"

subsection \<open>The interrupt handler\<close>

definition clear_if :: "16 word \<Rightarrow> (usart \<Rightarrow> usart) \<Rightarrow> usart \<Rightarrow> usart" where
  "clear_if f clear h = (if get_flag f h then clear h else h)"

definition clear_all :: "usart \<Rightarrow> usart" where
  "clear_all h =
     (let h = fold (\<lambda>f. clear_if f (\<lambda>h. snd (read_dr h))) [UART_FLAG_ORE, UART_FLAG_NE, UART_FLAG_FE, UART_FLAG_PE] h
      in fold (\<lambda>f. clear_if f (clear_flag f))
           [UART_FLAG_LBD, UART_FLAG_CTS, UART_FLAG_TXE, UART_FLAG_TC, UART_FLAG_RXNE] h)"

definition uart_isr ::
    "usart uart_ops \<Rightarrow> usart serial dev \<Rightarrow> kernel \<Rightarrow> ((nat \<times> nat) option \<times> usart serial dev \<times> kernel) option" where
  "uart_isr u d k =
     (if get_flag UART_FLAG_RXNE (hw (drv d)) \<and> rxneie (hw (drv d)) then rt_hw_serial_isr u RX_IND d k
      else Some (None, d\<lparr>drv := (drv d)\<lparr>hw := clear_all (hw (drv d))\<rparr>\<rparr>, k))"

text \<open>Registration of the UARTs at boot, with the default configuration.\<close>

definition RT_SERIAL_CONFIG_DEFAULT :: serial_configure where
  "RT_SERIAL_CONFIG_DEFAULT = \<lparr>baud_rate = 115200, data_bits = 8, stop_bits = 0, parity = 0, bit_order = 0,
     invert = 0, bufsz = 64, flowcontrol = 0, reserved = 0\<rparr>"

fun rt_hw_usart_init ::
    "(nat \<times> nat) list \<Rightarrow> (nat \<Rightarrow> usart serial dev) \<Rightarrow> container \<Rightarrow> kernel \<Rightarrow>
     ((nat \<Rightarrow> usart serial dev) \<times> container \<times> kernel) option" where
  "rt_hw_usart_init [] uarts c k = Some (uarts, c, k)"
| "rt_hw_usart_init ((ob, name) # xs) uarts c k = do {
     let d = (uarts ob)\<lparr>drv := (drv (uarts ob))\<lparr>ser_config := RT_SERIAL_CONFIG_DEFAULT\<rparr>\<rparr>;
     (result, d, c, k) \<leftarrow> rt_hw_serial_register ob d name 0x503 c k;
     _ \<leftarrow> rt_assert (result = RT_EOK);
     rt_hw_usart_init xs (uarts(ob := d)) c k }"

subsection \<open>It is a UART\<close>

definition usart_incoming :: "usart \<Rightarrow> byte list" where
  "usart_incoming h = (if get_flag UART_FLAG_RXNE h then [ucast (dr h)] else [])"

lemma and_rxne: "x AND 0x020 = 0 \<longleftrightarrow> \<not> bit x 5" for x :: "16 word"
  using and_exp_eq_0_iff_not_bit [of x 5] by simp

lemma low_byte: "uint (x AND 0xff) = uint (ucast x :: byte)" for x :: "16 word"
proof -
  have "(0xff :: 16 word) = mask 8" by (simp add: mask_eq_exp_minus_1)
  then have "x AND 0xff = take_bit 8 x" by (simp add: take_bit_eq_mask)
  then have "uint (x AND 0xff) = take_bit 8 (uint x)" by (simp add: unsigned_take_bit_eq)
  then show ?thesis by (simp add: unsigned_ucast_eq)
qed

interpretation stm32: uart "stm32_uart_ops hal_init" usart_incoming line_out for hal_init
proof
  show "fst (configure cfg h) \<noteq> - RT_ENOSYS" if "uart_configure (stm32_uart_ops hal_init) = Some configure" for configure cfg h
    using that by (auto simp: stm32_uart_ops_def stm32_configure_def Let_def split: if_splits)
  show "\<exists>h'. uart_getc (stm32_uart_ops hal_init) h = (-1, h') \<and> usart_incoming h' = [] \<and> line_out h' = line_out h"
    if "usart_incoming h = []" for h
    using that by (auto simp: stm32_uart_ops_def stm32_getc_def usart_incoming_def split: if_splits)
  show "\<exists>h'. uart_getc (stm32_uart_ops hal_init) h = (uint b, h') \<and> usart_incoming h' = bs \<and> line_out h' = line_out h"
    if "usart_incoming h = b # bs" for h b bs
  proof -
    have g: "get_flag UART_FLAG_RXNE h" "b = ucast (dr h)" "bs = []" using that by (simp_all add: usart_incoming_def split: if_splits)
    have "bit (0x03f :: 16 word) 5" by simp
    then show ?thesis using g low_byte
      by (simp add: stm32_uart_ops_def stm32_getc_def read_dr_def usart_incoming_def get_flag_def and_rxne bit_and_iff bit_not_iff)
  qed
  show "\<exists>r h'. uart_putc (stm32_uart_ops hal_init) b h = (r, h') \<and> usart_incoming h' = usart_incoming h \<and>
      line_out h' = (if r = -1 then line_out h else line_out h @ [b])" for b h
    by (simp add: stm32_uart_ops_def stm32_putc_def write_dr_def clear_flag_def usart_incoming_def get_flag_def and_rxne
        bit_and_iff bit_not_iff bit_or_iff)
qed

subsection \<open>Bytes one after another\<close>

text \<open>Each byte comes in and raises an interrupt.\<close>

fun receive_bytes :: "(uart_init \<Rightarrow> bool) \<Rightarrow> byte list \<Rightarrow> usart serial dev \<Rightarrow> kernel \<Rightarrow> (usart serial dev \<times> kernel) option" where
  "receive_bytes hal_init [] d k = Some (d, k)"
| "receive_bytes hal_init (b # bs) d k = do {
     (_, d, k) \<leftarrow> uart_isr (stm32_uart_ops hal_init) (d\<lparr>drv := (drv d)\<lparr>hw := usart_receive b (hw (drv d))\<rparr>\<rparr>) k;
     receive_bytes hal_init bs d k }"

lemma receive_one:
  assumes f: "fifo_ok m f" and h: "\<not> get_flag UART_FLAG_RXNE h"
  obtains f' h' where "isr_rx_loop (stm32_uart_ops hal_init) m f (usart_receive b h) = Some (f', h')" "fifo_ok m f'"
    "fifo_bytes m f' = latest (m - 1) (fifo_bytes m f @ [b])" "\<not> get_flag UART_FLAG_RXNE h'" "rxneie h' = rxneie h"
proof -
  let ?h = "usart_receive b h"
  have bit5: "bit (0x020 :: 16 word) 5" "bit (0x03f :: 16 word) 5" by simp_all
  have g: "get_flag UART_FLAG_RXNE ?h" "usart_incoming ?h = [b]" "rxneie ?h = rxneie h"
    using h bit5 by (simp_all add: usart_receive_def get_flag_def and_rxne bit_or_iff usart_incoming_def ucast_up_ucast_id is_up)
  let ?h1 = "snd (read_dr ?h)"
  have h1: "\<not> get_flag UART_FLAG_RXNE ?h1" "rxneie ?h1 = rxneie h"
    using g bit5 by (simp_all add: read_dr_def get_flag_def and_rxne bit_and_iff bit_not_iff)
  have c: "uart_getc (stm32_uart_ops hal_init) ?h = (uint b, ?h1)" "uart_getc (stm32_uart_ops hal_init) ?h1 = (-1, ?h1)"
    using g h1 by (simp_all add: stm32_uart_ops_def stm32_getc_def read_dr_def low_byte usart_incoming_def)
  obtain f' where f': "fifo_put m b f = Some f'" "fifo_ok m f'" "fifo_bytes m f' = latest (m - 1) (fifo_bytes m f @ [b])"
    by (rule fifo_put_ok [OF f]) (rule that)
  have n: "uint b \<noteq> -1" using uint_ge_0 [of b] by linarith
  have "isr_rx_loop (stm32_uart_ops hal_init) m f' ?h1 = Some (f', ?h1)" by (subst isr_rx_loop.simps) (simp add: c(2))
  then have "isr_rx_loop (stm32_uart_ops hal_init) m f ?h = Some (f', ?h1)"
    using n f'(1) by (subst isr_rx_loop.simps) (simp add: c(1))
  then show thesis using f' h1 by (intro that [of f' ?h1]) simp_all
qed

theorem receive_bytes_ok:
  assumes "port_sane (drv d)" "serial_rx (drv d) = Some f" "\<not> get_flag UART_FLAG_RXNE (hw (drv d))" "rxneie (hw (drv d))"
  shows "\<exists>d' f'. receive_bytes hal_init bs d k = Some (d', k) \<and> port_sane (drv d') \<and> serial_rx (drv d') = Some f' \<and>
    ser_config (drv d') = ser_config (drv d) \<and> dev_open_flag d' = dev_open_flag d \<and>
    fifo_bytes (bufsz (ser_config (drv d))) f' = latest (bufsz (ser_config (drv d)) - 1) (fifo_bytes (bufsz (ser_config (drv d))) f @ bs)"
  using assms
proof (induction bs arbitrary: d f)
  case Nil
  then have "fifo_ok (bufsz (ser_config (drv d))) f" by (simp add: port_sane_def)
  then have "rx_length (bufsz (ser_config (drv d))) f \<le> bufsz (ser_config (drv d)) - 1" using rx_length_less by fastforce
  then show ?case using Nil by simp
next
  case (Cons b bs)
  let ?m = "bufsz (ser_config (drv d))" and ?d = "d\<lparr>drv := (drv d)\<lparr>hw := usart_receive b (hw (drv d))\<rparr>\<rparr>"
  have ok: "fifo_ok ?m f" using Cons.prems by (simp add: port_sane_def)
  obtain f1 h1 where f1: "isr_rx_loop (stm32_uart_ops hal_init) ?m f (usart_receive b (hw (drv d))) = Some (f1, h1)" "fifo_ok ?m f1"
    "fifo_bytes ?m f1 = latest (?m - 1) (fifo_bytes ?m f @ [b])" "\<not> get_flag UART_FLAG_RXNE h1" "rxneie h1 = rxneie (hw (drv d))"
    by (rule receive_one [OF ok Cons.prems(3)]) (rule that)
  let ?d1 = "d\<lparr>drv := (drv d)\<lparr>serial_rx := Some f1, hw := h1\<rparr>\<rparr>"
  have bit5: "bit (0x020 :: 16 word) 5" by simp
  have "get_flag UART_FLAG_RXNE (usart_receive b (hw (drv d)))" "rxneie (usart_receive b (hw (drv d)))"
    using Cons.prems(4) bit5 by (simp_all add: usart_receive_def get_flag_def and_rxne bit_or_iff)
  then obtain call where isr: "uart_isr (stm32_uart_ops hal_init) ?d k = Some (call, ?d1, k)"
    using f1(1) Cons.prems(2) by (simp add: uart_isr_def rt_hw_serial_isr_def Let_def)
  have p1: "port_sane (drv ?d1)" "serial_rx (drv ?d1) = Some f1" "\<not> get_flag UART_FLAG_RXNE (hw (drv ?d1))" "rxneie (hw (drv ?d1))"
    using Cons.prems f1 by (simp_all add: port_sane_def)
  from Cons.IH [OF p1] show ?case
    using isr f1(3) latest_append [of "?m - 1" "fifo_bytes ?m f @ [b]" bs] by auto
qed

end
