(* ===== verification/Line.thy ===== *)
theory Line
  imports Usart Rover "HOL-Library.Sublist"
begin

text \<open>
  The serial line of the rover: the USART, its interrupt handler, the receive buffer of the serial driver, the
  callback of the decoder (commu.c) and the thread that reads. These parts run at different times, so they
  are steps of a transition system. It is shown that the thread never sleeps while there are
  bytes to read, and that it obeys the commands in the bytes that arrived, in order.
\<close>

unbundle bit_operations_syntax

subsection \<open>State\<close>

text \<open>Where the decoder thread is: about to read, about to wait for the callback, or behind that wait.\<close>

datatype place = Reading | Taking | Asleep

record line =
  rov :: rover
  port :: "usart serial dev"
  place :: place

text \<open>What stays the same: the UART, the container that holds the device \<open>ob\<close>, and the thread \<open>tid\<close>.\<close>

record uart_setup =
  hal :: "uart_init \<Rightarrow> bool"
  objs :: container
  ob :: nat
  rx_obj :: nat
  tx_obj :: nat
  tid :: nat

definition ops_of :: "uart_setup \<Rightarrow> (usart serial, serial_configure option) dev_ops" where
  "ops_of B = serial_ops (stm32_uart_ops (hal B)) (Some (rx_obj B)) (Some (tx_obj B))"

subsection \<open>Steps\<close>

text \<open>The callback the decoder installs, by its number.\<close>

abbreviation (input) RX_CALLBACK :: nat where "RX_CALLBACK \<equiv> 1"

definition indicate :: "(nat \<times> nat) option \<Rightarrow> rover \<Rightarrow> rover option" where
  "indicate call r =
     (case call of
        None \<Rightarrow> Some r
      | Some (f, n) \<Rightarrow> if f = RX_CALLBACK then map_option snd (rx_callback r) else None)"

definition USART3_IRQHandler :: "uart_setup \<Rightarrow> line \<Rightarrow> line option" where
  "USART3_IRQHandler B l = do {
     let k = rt_interrupt_enter (kern (rov l));
     (call, d, k) \<leftarrow> uart_isr (stm32_uart_ops (hal B)) (port l) k;
     r \<leftarrow> indicate call ((rov l)\<lparr>kern := k\<rparr>);
     Some (l\<lparr>rov := r\<lparr>kern := rt_interrupt_leave (kern r)\<rparr>, port := d\<rparr>) }"

text \<open>
  The start of \<open>commu_decoder_th\<close>: find and configure the device, open it for interrupt driven input, and install the
  callback. The results of these calls are not looked at; a device that was not found is a null pointer.
\<close>

definition uart_config :: serial_configure where
  "uart_config = \<lparr>baud_rate = 115200, data_bits = 8, stop_bits = 0, parity = 0, bit_order = 0, invert = 0,
     bufsz = 64, flowcontrol = 0, reserved = 0\<rparr>"

definition commu_decoder_start :: "uart_setup \<Rightarrow> nat \<Rightarrow> line \<Rightarrow> line option" where
  "commu_decoder_start B name l = do {
     (dv, k) \<leftarrow> rt_device_find (Some name) (objs B) (kern (rov l));
     _ \<leftarrow> rt_assert (dv = Some (ob B));
     (_, d, k) \<leftarrow> rt_device_control (ops_of B) (objs B) (ob B) RT_DEVICE_CTRL_CONFIG (Some uart_config) (port l) k;
     (_, d, k) \<leftarrow> rt_device_open (ops_of B) (objs B) (ob B) RT_DEVICE_FLAG_INT_RX d k;
     (_, d) \<leftarrow> rt_device_set_rx_indicate (objs B) (ob B) (Some RX_CALLBACK) d;
     Some (l\<lparr>rov := (rov l)\<lparr>kern := k\<rparr>, port := d, place := Reading\<rparr>) }"

text \<open>The test of the inner loop: a byte goes to the decoder, else the thread is about to wait.\<close>

definition decoder_read :: "uart_setup \<Rightarrow> line \<Rightarrow> (byte option \<times> line) option" where
  "decoder_read B l = do {
     (bs, d, k) \<leftarrow> rt_device_read (ops_of B) (objs B) (ob B) 0 1 (port l) (kern (rov l));
     let l = l\<lparr>rov := (rov l)\<lparr>kern := k\<rparr>, port := d\<rparr>;
     if length bs \<noteq> 1 then Some (None, l\<lparr>place := Taking\<rparr>)
     else do { r \<leftarrow> commu_decoder_byte (hd bs) (rov l); Some (Some (hd bs), l\<lparr>rov := r\<rparr>) } }"

definition decoder_take :: "line \<Rightarrow> line option" where
  "decoder_take l = do {
     (r, rv) \<leftarrow> with_kernel (rt_sem_take (sem_decoder (rov l)) RT_WAITING_FOREVER) (rov l);
     Some (l\<lparr>rov := rv, place := (case r of Ret _ \<Rightarrow> Reading | Blocked \<Rightarrow> Asleep)\<rparr>) }"

definition fifo_of :: "line \<Rightarrow> byte list" where
  "fifo_of l = (case serial_rx (drv (port l)) of None \<Rightarrow> [] | Some f \<Rightarrow> fifo_bytes (bufsz (ser_config (drv (port l)))) f)"

definition held_back :: "line \<Rightarrow> byte list" where
  "held_back l = usart_incoming (hw (drv (port l)))"

text \<open>
  The rest of the system: any change of the kernel that keeps the semaphores in order and the one of the
  decoder as it is, of what other threads of the rover own, and of the sending side of the USART.
\<close>

definition decoder_sem :: "line \<Rightarrow> counting" where
  "decoder_sem l = sem_abs (sem_decoder (rov l)) (kern (rov l))"

definition elsewhere :: "line \<Rightarrow> line \<Rightarrow> bool" where
  "elsewhere l l' \<longleftrightarrow> (\<exists>k stop h. l' = l\<lparr>rov := (rov l)\<lparr>kern := k, stop_flag := stop\<rparr>, port := (port l)\<lparr>drv := (drv (port l))\<lparr>hw := h\<rparr>\<rparr>\<rparr> \<and>
     (\<forall>s \<in> {sem_decoder (rov l), sem_motorctrl (rov l), sem_infrared (rov l)}. sem_inv s k) \<and>
     decoder_sem l' = decoder_sem l \<and> held_back l' = held_back l \<and> rxneie h = rxneie (hw (drv (port l))) \<and>
     nvic h = nvic (hw (drv (port l))))"

datatype line_event = Arrive byte | Interrupt | Got byte | Found_none | Took | Woke | Elsewhere

text \<open>The interrupt is taken when a byte is there and it is enabled; thread steps need the CPU.\<close>

inductive line_step :: "uart_setup \<Rightarrow> line \<Rightarrow> line_event \<Rightarrow> line \<Rightarrow> bool" for B where
  arrive: "line_step B l (Arrive b) (l\<lparr>port := (port l)\<lparr>drv := (drv (port l))\<lparr>hw := usart_receive b (hw (drv (port l)))\<rparr>\<rparr>\<rparr>)"
| interrupt: "held_back l \<noteq> [] \<Longrightarrow> rxneie (hw (drv (port l))) \<Longrightarrow> nvic (hw (drv (port l))) \<Longrightarrow>
    USART3_IRQHandler B l = Some l' \<Longrightarrow> line_step B l Interrupt l'"
| got: "place l = Reading \<Longrightarrow> in_thread (kern (rov l)) (tid B) \<Longrightarrow> decoder_read B l = Some (Some b, l') \<Longrightarrow>
    line_step B l (Got b) l'"
| none: "place l = Reading \<Longrightarrow> in_thread (kern (rov l)) (tid B) \<Longrightarrow> decoder_read B l = Some (None, l') \<Longrightarrow>
    line_step B l Found_none l'"
| took: "place l = Taking \<Longrightarrow> in_thread (kern (rov l)) (tid B) \<Longrightarrow> decoder_take l = Some l' \<Longrightarrow> line_step B l Took l'"
| woke: "place l = Asleep \<Longrightarrow> in_thread (kern (rov l)) (tid B) \<Longrightarrow> line_step B l Woke (l\<lparr>place := Reading\<rparr>)"
| elsewhere: "elsewhere l l' \<Longrightarrow> line_step B l Elsewhere l'"

inductive_cases line_stepE: "line_step B l e l'"

text \<open>A step that loses a byte: in the USART, which still holds one, or in the full receive buffer.\<close>

fun loses :: "line \<Rightarrow> line_event \<Rightarrow> bool" where
  "loses l (Arrive b) \<longleftrightarrow> held_back l \<noteq> []"
| "loses l Interrupt \<longleftrightarrow> length (fifo_of l) = bufsz (ser_config (drv (port l))) - 1"
| "loses l _ \<longleftrightarrow> False"

inductive line_run :: "uart_setup \<Rightarrow> line \<Rightarrow> line_event list \<Rightarrow> bool \<Rightarrow> line \<Rightarrow> bool" for B l0 where
  start: "line_run B l0 [] False l0"
| step: "line_run B l0 es lossy l \<Longrightarrow> line_step B l e l' \<Longrightarrow> line_run B l0 (es @ [e]) (lossy \<or> loses l e) l'"

fun arrivals :: "line_event list \<Rightarrow> byte list" where
  "arrivals [] = []"
| "arrivals (Arrive b # es) = b # arrivals es"
| "arrivals (_ # es) = arrivals es"

fun gots :: "line_event list \<Rightarrow> byte list" where
  "gots [] = []"
| "gots (Got b # es) = b # gots es"
| "gots (_ # es) = gots es"

fun last_speed :: "byte list \<Rightarrow> command list \<Rightarrow> byte list" where
  "last_speed xs [] = xs"
| "last_speed xs (Stop # cs) = last_speed xs cs"
| "last_speed xs (Speed ys # cs) = last_speed ys cs"

subsection \<open>Invariant\<close>

definition port_ok :: "uart_setup \<Rightarrow> line \<Rightarrow> bool" where
  "port_ok B l \<longleftrightarrow> is_device (ob B) (objs B) = Some () \<and> port_sane (drv (port l)) \<and> dev_ref (port l) \<noteq> 0 \<and>
     bit (dev_open_flag (port l)) 8 \<and> serial_rx (drv (port l)) \<noteq> None \<and> rx_indicate (port l) = Some RX_CALLBACK"

definition rover_ok :: "line \<Rightarrow> bool" where
  "rover_ok l \<longleftrightarrow> decoder_ok (rov l) \<and> sem_inv (sem_decoder (rov l)) (kern (rov l)) \<and>
     sem_decoder (rov l) \<noteq> sem_motorctrl (rov l) \<and> sem_decoder (rov l) \<noteq> sem_infrared (rov l)"

definition awake_ok :: "uart_setup \<Rightarrow> line \<Rightarrow> bool" where
  "awake_ok B l \<longleftrightarrow> (waiting (decoder_sem l) = [] \<or>
       waiting (decoder_sem l) = [tid B] \<and> place l = Asleep \<and> fifo_of l = []) \<and>
     (place l = Taking \<and> fifo_of l \<noteq> [] \<longrightarrow> 0 < count (decoder_sem l))"

definition line_inv :: "uart_setup \<Rightarrow> line \<Rightarrow> bool" where
  "line_inv B l \<longleftrightarrow> port_ok B l \<and> rover_ok l \<and> awake_ok B l"

subsection \<open>The steps keep the invariant\<close>

lemma nest_keeps [simp]:
  "sem_inv s (rt_interrupt_enter k) = sem_inv s k" "sem_inv s (rt_interrupt_leave k) = sem_inv s k"
  "sem_abs s (rt_interrupt_enter k) = sem_abs s k" "sem_abs s (rt_interrupt_leave k) = sem_abs s k"
  by (simp_all add: sem_inv_def sem_abs_def rt_interrupt_enter_def rt_interrupt_leave_def)

lemma rt_sem_release_others:
  assumes "sem_inv s0 (kern r)" "with_kernel (rt_sem_release s0) r = Some (a, r')"
  shows "\<exists>k. r' = r\<lparr>kern := k\<rparr> \<and> (\<forall>s. s \<noteq> s0 \<longrightarrow> sem_abs s k = sem_abs s (kern r)) \<and>
    (\<forall>s. sem_inv s (kern r) \<longrightarrow> sem_inv s k)"
  by (rule with_kernel_release [OF assms(1)]) (use assms(2) in auto)

text \<open>What a byte does not touch.\<close>

lemma commu_decoder_byte_others:
  assumes "decoder_ok r" "commu_decoder_byte b r = Some r'"
  shows "sem_decoder r' = sem_decoder r" "sem_motorctrl r' = sem_motorctrl r" "sem_infrared r' = sem_infrared r"
    "s \<noteq> sem_motorctrl r \<Longrightarrow> s \<noteq> sem_infrared r \<Longrightarrow> sem_abs s (kern r') = sem_abs s (kern r)"
    "sem_inv s (kern r) \<Longrightarrow> sem_inv s (kern r')"
proof -
  note D = assms(1) [unfolded decoder_ok_def]
  let ?same = "sem_decoder r' = sem_decoder r \<and> sem_motorctrl r' = sem_motorctrl r \<and> sem_infrared r' = sem_infrared r \<and>
      (s \<noteq> sem_motorctrl r \<longrightarrow> s \<noteq> sem_infrared r \<longrightarrow> sem_abs s (kern r') = sem_abs s (kern r)) \<and>
      (sem_inv s (kern r) \<longrightarrow> sem_inv s (kern r'))"
  consider (idle) "RecCmd_Step r = 0" | (head) "RecCmd_Step r = 1" | (body) "RecCmd_Step r = 2"
    using D by linarith
  then have ?same
  proof cases
    case idle
    then show ?thesis using assms(2) by (auto simp: commu_decoder_byte_def split: if_splits)
  next
    case head
    show ?thesis
    proof (cases "b = 0x01")
      case True
      then obtain a r1 where r1: "with_kernel (rt_sem_release (sem_infrared r)) r = Some (a, r1)"
        "r' = r1\<lparr>stop_flag := 1, RecCmd_Step := 0\<rparr>"
        using head assms(2) by (auto simp: commu_decoder_byte_def option_simps)
      have "sem_inv (sem_infrared r) (kern r)" using D by blast
      from rt_sem_release_others [OF this r1(1)] show ?thesis by (auto simp: r1(2))
    next
      case False
      then show ?thesis using head assms(2) by (auto simp: commu_decoder_byte_def split: if_splits)
    qed
  next
    case body
    show ?thesis
    proof (cases "rx_index r = 3")
      case False
      then show ?thesis using body assms(2) D by (auto simp: commu_decoder_byte_def option_simps Let_def)
    next
      case True
      let ?r = "r\<lparr>Rx_buffer := (Rx_buffer r)[rx_index r := b], rx_index := 4, sp_data := (Rx_buffer r)[rx_index r := b]\<rparr>"
      obtain a r1 where r1: "with_kernel (rt_sem_release (sem_motorctrl r)) ?r = Some (a, r1)"
        "r' = r1\<lparr>RecCmd_Step := 0, rx_index := 0\<rparr>"
        using body True assms(2) D by (auto simp: commu_decoder_byte_def option_simps Let_def)
      have "sem_inv (sem_motorctrl r) (kern ?r)" using D by simp
      from rt_sem_release_others [OF this r1(1)] show ?thesis by (auto simp: r1(2))
    qed
  qed
  then show "sem_decoder r' = sem_decoder r" "sem_motorctrl r' = sem_motorctrl r" "sem_infrared r' = sem_infrared r"
    "s \<noteq> sem_motorctrl r \<Longrightarrow> s \<noteq> sem_infrared r \<Longrightarrow> sem_abs s (kern r') = sem_abs s (kern r)"
    "sem_inv s (kern r) \<Longrightarrow> sem_inv s (kern r')" by blast+
qed

text \<open>The callback releases the semaphore of the decoder: its thread is woken, or finds the semaphore raised.\<close>

lemma rx_callback_ok:
  assumes "sem_inv (sem_decoder r) (kern r)"
  obtains k where "rx_callback r = Some (RT_EOK, r\<lparr>kern := k\<rparr>)"
    "sem_abs (sem_decoder r) k = snd (spec_release (sem_abs (sem_decoder r) (kern r)))"
    "\<And>s. s \<noteq> sem_decoder r \<Longrightarrow> sem_abs s k = sem_abs s (kern r)" "\<And>s. sem_inv s (kern r) \<Longrightarrow> sem_inv s k"
proof -
  obtain a k where "with_kernel (rt_sem_release (sem_decoder r)) r = Some (a, r\<lparr>kern := k\<rparr>)"
    "sem_abs (sem_decoder r) k = snd (spec_release (sem_abs (sem_decoder r) (kern r)))"
    "\<And>s. s \<noteq> sem_decoder r \<Longrightarrow> sem_abs s k = sem_abs s (kern r)" "\<And>s. sem_inv s (kern r) \<Longrightarrow> sem_inv s k"
    by (rule with_kernel_release [OF assms]) (rule that)
  then show thesis by (intro that [of k]) (simp_all add: rx_callback_def)
qed

lemma isr_moves_bytes:
  assumes ok: "port_ok B l" and h: "held_back l \<noteq> []" "rxneie (hw (drv (port l)))"
  obtains d n where "uart_isr (stm32_uart_ops (hal B)) (port l) k = Some (Some (RX_CALLBACK, n), d, k)"
    "port_ok B (l\<lparr>port := d\<rparr>)" "usart_incoming (hw (drv d)) = []"
    "fifo_of (l\<lparr>port := d\<rparr>) = latest (bufsz (ser_config (drv (port l))) - 1) (fifo_of l @ held_back l)"
proof -
  let ?m = "bufsz (ser_config (drv (port l)))" and ?u = "stm32_uart_ops (hal B)"
  obtain f where f: "serial_rx (drv (port l)) = Some f" "fifo_ok ?m f" "2 \<le> ?m" "?m < 2 ^ 16"
    using ok by (auto simp: port_ok_def port_sane_def)
  obtain f' h' where r: "isr_rx_loop ?u ?m f (hw (drv (port l))) = Some (f', h')" "fifo_ok ?m f'" "usart_incoming h' = []"
    "fifo_bytes ?m f' = latest (?m - 1) (fifo_bytes ?m f @ held_back l)"
    using stm32.isr_rx_loop_ok [OF f(2), of "hal B" "hw (drv (port l))"] by (auto simp: held_back_def)
  have n: "rx_length ?m f' \<noteq> 0" using arg_cong [OF r(4), of length] f(3) h(1) by (cases "held_back l") auto
  have g: "get_flag UART_FLAG_RXNE (hw (drv (port l)))" using h(1) by (simp add: held_back_def usart_incoming_def split: if_splits)
  show thesis
    using ok f r n g h(2)
    by (intro that [of "rx_length ?m f'" "(port l)\<lparr>drv := (drv (port l))\<lparr>serial_rx := Some f', hw := h'\<rparr>\<rparr>"])
      (simp_all add: uart_isr_def rt_hw_serial_isr_def port_ok_def port_sane_def fifo_of_def)
qed

lemma interrupt_ok:
  assumes inv: "line_inv B l" and h: "held_back l \<noteq> []" "rxneie (hw (drv (port l)))"
  obtains l' where "USART3_IRQHandler B l = Some l'" "line_inv B l'" "held_back l' = []"
    "fifo_of l' = latest (bufsz (ser_config (drv (port l))) - 1) (fifo_of l @ held_back l)"
    "pending (rov l') = pending (rov l)" "sp_data (rov l') = sp_data (rov l)"
proof -
  note I = inv [unfolded line_inv_def]
  let ?k = "rt_interrupt_enter (kern (rov l))" and ?s = "sem_decoder (rov l)"
  obtain d n where d: "uart_isr (stm32_uart_ops (hal B)) (port l) ?k = Some (Some (RX_CALLBACK, n), d, ?k)"
    "port_ok B (l\<lparr>port := d\<rparr>)" "usart_incoming (hw (drv d)) = []"
    "fifo_of (l\<lparr>port := d\<rparr>) = latest (bufsz (ser_config (drv (port l))) - 1) (fifo_of l @ held_back l)"
    by (rule isr_moves_bytes [OF _ h, where k = ?k]) (use I that in blast)+
  have si: "sem_inv (sem_decoder ((rov l)\<lparr>kern := ?k\<rparr>)) (kern ((rov l)\<lparr>kern := ?k\<rparr>))" using I by (simp add: rover_ok_def)
  obtain k where k: "rx_callback ((rov l)\<lparr>kern := ?k\<rparr>) = Some (RT_EOK, (rov l)\<lparr>kern := k\<rparr>)"
    "sem_abs ?s k = snd (spec_release (decoder_sem l))" "\<And>s. s \<noteq> ?s \<Longrightarrow> sem_abs s k = sem_abs s (kern (rov l))"
    "\<And>s. sem_inv s (kern (rov l)) \<Longrightarrow> sem_inv s k"
    by (rule rx_callback_ok [OF si]) (use that in \<open>simp add: decoder_sem_def\<close>)
  let ?l = "l\<lparr>rov := (rov l)\<lparr>kern := rt_interrupt_leave k\<rparr>, port := d\<rparr>"
  have irq: "USART3_IRQHandler B l = Some ?l" using d(1) k(1) by (simp add: USART3_IRQHandler_def indicate_def)
  have po: "port_ok B ?l" using d(2) by (simp add: port_ok_def)
  have ro: "rover_ok ?l" using I k(3,4) by (simp add: rover_ok_def decoder_ok_def)
  have w: "decoder_sem ?l = snd (spec_release (decoder_sem l))" using k(2) by (simp add: decoder_sem_def)
  have aw: "awake_ok B ?l"
    using I unfolding awake_ok_def w by (auto simp: spec_release_def awake_ok_def)
  have "fifo_of ?l = fifo_of (l\<lparr>port := d\<rparr>)" by (simp add: fifo_of_def cong: option.case_cong)
  then show thesis
    using irq po ro aw d(3,4) by (intro that [of ?l]) (simp_all add: line_inv_def held_back_def pending_def)
qed

lemma speed_of_obey: "v_speed (fold obey cs v) = last_speed (v_speed v) cs"
  by (induction cs arbitrary: v rule: list.induct) (simp, rename_tac c cs v, case_tac c, simp_all)

text \<open>The thread takes the oldest byte of the buffer and decodes it, or finds the buffer empty.\<close>

lemma read_port:
  assumes "port_ok B l"
  obtains d where "rt_device_read (ops_of B) (objs B) (ob B) 0 1 (port l) k = Some (take 1 (fifo_of l), d, k)"
    "port_ok B (l\<lparr>port := d\<rparr>)" "fifo_of (l\<lparr>port := d\<rparr>) = drop 1 (fifo_of l)" "hw (drv d) = hw (drv (port l))"
proof -
  obtain f where f: "serial_rx (drv (port l)) = Some f" "port_sane (drv (port l))" using assms by (auto simp: port_ok_def)
  obtain f' where "serial_int_rx 1 (port l) = Some (take 1 (fifo_of l), (port l)\<lparr>drv := (drv (port l))\<lparr>serial_rx := Some f'\<rparr>\<rparr>)"
    "fifo_ok (bufsz (ser_config (drv (port l)))) f'" "fifo_bytes (bufsz (ser_config (drv (port l)))) f' = drop 1 (fifo_of l)"
    using serial_int_rx_ok [OF f(2,1), of 1] f(1) by (auto simp: fifo_of_def)
  then show thesis
    using assms f by (intro that [of "(port l)\<lparr>drv := (drv (port l))\<lparr>serial_rx := Some f'\<rparr>\<rparr>"])
      (simp_all add: rt_device_read_def ops_of_def serial_ops_def rt_serial_read_def and_mode port_ok_def port_sane_def fifo_of_def)
qed

lemma decoder_read_ok:
  assumes inv: "line_inv B l" and at: "place l = Reading"
  obtains (empty) l' where "fifo_of l = []" "decoder_read B l = Some (None, l')" "line_inv B l'" "fifo_of l' = []"
      "held_back l' = held_back l" "pending (rov l') = pending (rov l)" "sp_data (rov l') = sp_data (rov l)"
  | (byte) b l' cs where "decoder_read B l = Some (Some b, l')" "line_inv B l'" "fifo_of l = b # fifo_of l'"
      "held_back l' = held_back l" "\<And>bs. decode (pending (rov l) @ b # bs) = cs @ decode (pending (rov l') @ bs)"
      "sp_data (rov l') = last_speed (sp_data (rov l)) cs"
proof -
  note I = inv [unfolded line_inv_def]
  obtain d where d: "rt_device_read (ops_of B) (objs B) (ob B) 0 1 (port l) (kern (rov l)) = Some (take 1 (fifo_of l), d, kern (rov l))"
    "port_ok B (l\<lparr>port := d\<rparr>)" "fifo_of (l\<lparr>port := d\<rparr>) = drop 1 (fifo_of l)" "hw (drv d) = hw (drv (port l))"
    by (rule read_port [of B l]) (use I that in blast)+
  have w: "waiting (decoder_sem l) = []" using I at by (auto simp: awake_ok_def)
  show thesis
  proof (cases "fifo_of l")
    case Nil
    let ?l = "l\<lparr>port := d, place := Taking\<rparr>"
    have fo: "fifo_of ?l = []" using d(3) Nil by (simp add: fifo_of_def cong: option.case_cong)
    have aw: "awake_ok B ?l" using w fo by (simp add: awake_ok_def decoder_sem_def)
    have "line_inv B ?l" using I d(2) aw by (simp add: line_inv_def port_ok_def rover_ok_def)
    then show thesis using Nil d(1,4) fo by (intro empty [of ?l]) (simp_all add: decoder_read_def Let_def held_back_def)
  next
    case (Cons b bs)
    have ok: "decoder_ok (rov l)" using I by (simp add: rover_ok_def)
    obtain r cs where r: "commu_decoder_byte b (rov l) = Some r" "decoder_ok r" "rover_view r = fold obey cs (rover_view (rov l))"
      "\<And>bs. decode (pending (rov l) @ b # bs) = cs @ decode (pending r @ bs)"
      by (rule commu_decoder_byte_step [OF ok, of b]) (rule that)
    note others = commu_decoder_byte_others [OF ok r(1)]
    let ?l = "l\<lparr>rov := r, port := d\<rparr>"
    have fo: "fifo_of ?l = bs" using d(3) Cons by (simp add: fifo_of_def cong: option.case_cong)
    have ro: "rover_ok ?l" using I r(2) others by (simp add: rover_ok_def)
    have ds: "decoder_sem ?l = decoder_sem l" using others I by (simp add: decoder_sem_def rover_ok_def)
    have aw: "awake_ok B ?l" unfolding awake_ok_def ds using w at by simp
    have sp: "sp_data r = last_speed (sp_data (rov l)) cs"
      using arg_cong [OF r(3), of v_speed] by (simp add: speed_of_obey rover_view_def)
    have "line_inv B ?l" using I d(2) ro aw by (simp add: line_inv_def port_ok_def)
    then show thesis using Cons d(1,4) fo r(1,4) sp
      by (intro byte [of b ?l cs]) (simp_all add: decoder_read_def Let_def held_back_def)
  qed
qed

lemma rt_sem_take_others:
  assumes inv: "sem_inv s k" and t: "in_thread k t" and time: "time < 2 ^ 31 - 1"
    and take: "rt_sem_take s time k = Some (r, k')" and other: "s' \<noteq> s"
  shows "sem_abs s' k' = sem_abs s' k" "sem_inv s' k \<Longrightarrow> sem_inv s' k'"
proof -
  note D = in_threadD [OF t]
  have ki: "kinv k" using inv by (simp add: sem_inv_def)
  have "kinv k' \<and> sem_abs s' k' = sem_abs s' k"
  proof (cases "0 < sem_value (sems k s) \<or> time = 0")
    case True
    then show ?thesis using take other ki by (auto simp: rt_sem_take_def sem_abs_def split: if_splits)
  next
    case False
    let ?k = "upd_thread t (\<lambda>h. h\<lparr>th_error := RT_EOK\<rparr>) k"
    have c: "current_thread ?k = Some t" "th_stat (threads ?k t) = RT_THREAD_RUNNING" using D by simp_all
    obtain k1 k2 where k2: "ipc_suspend_timed (SuspQ s) t (sem_flag (sems k s)) time ?k = Some k1" "rt_schedule k1 = Some k2"
      "kinv k2" "\<And>g. g \<noteq> SuspQ s \<Longrightarrow> \<not> is_ready g \<Longrightarrow> lists k2 g = lists ?k g" "sems k2 = sems ?k"
      by (rule ipc_block_ok [OF kinv_upd_error [OF ki] c list_stat.simps(2) time]) (rule that)
    have "k' = k2" using take False k2(1,2) by (simp add: rt_sem_take_def D)
    then show ?thesis using k2(3-5) other by (simp add: sem_abs_def)
  qed
  then show "sem_abs s' k' = sem_abs s' k" "sem_inv s' k \<Longrightarrow> sem_inv s' k'" by (simp_all add: sem_inv_def)
qed

lemma decoder_take_ok:
  assumes inv: "line_inv B l" and at: "place l = Taking" "in_thread (kern (rov l)) (tid B)"
  obtains l' where "decoder_take l = Some l'" "line_inv B l'" "fifo_of l' = fifo_of l" "held_back l' = held_back l"
    "pending (rov l') = pending (rov l)" "sp_data (rov l') = sp_data (rov l)"
    "waiting (decoder_sem l') = (if count (decoder_sem l) = 0 then [tid B] else [])"
proof -
  note I = inv [unfolded line_inv_def]
  let ?s = "sem_decoder (rov l)"
  have si: "sem_inv ?s (kern (rov l))" using I by (simp add: rover_ok_def)
  have time: "RT_WAITING_FOREVER < (2 :: int) ^ 31 - 1" by simp
  have w: "waiting (decoder_sem l) = []" using I at by (auto simp: awake_ok_def)
  obtain r k where k: "rt_sem_take ?s RT_WAITING_FOREVER (kern (rov l)) = Some (r, k)" "sem_inv ?s k"
    "(r, sem_abs ?s k) = spec_take (wait_insert (sem_flag (sems (kern (rov l)) ?s)) (\<lambda>u. current_priority (threads (kern (rov l)) u)) (tid B))
       False (decoder_sem l)"
    by (rule rt_sem_take_refines [OF si at(2) time]) (use that in \<open>simp add: decoder_sem_def\<close>)
  have others: "sem_abs s k = sem_abs s (kern (rov l)) \<and> (sem_inv s (kern (rov l)) \<longrightarrow> sem_inv s k)" if "s \<noteq> ?s" for s
    using rt_sem_take_others [OF si at(2) time k(1) that] by blast
  let ?l = "l\<lparr>rov := (rov l)\<lparr>kern := k\<rparr>, place := (case r of Ret _ \<Rightarrow> Reading | Blocked \<Rightarrow> Asleep)\<rparr>"
  have fo: "fifo_of ?l = fifo_of l" by (simp add: fifo_of_def cong: option.case_cong)
  have ds: "decoder_sem ?l = sem_abs ?s k" by (simp add: decoder_sem_def)
  have aw: "awake_ok B ?l"
    using k(3) I w at unfolding awake_ok_def ds fo by (auto simp: spec_take_def awake_ok_def wait_insert_Nil split: if_splits)
  have ro: "rover_ok ?l" using I k(2) others by (auto simp: rover_ok_def decoder_ok_def)
  have wt: "waiting (decoder_sem ?l) = (if count (decoder_sem l) = 0 then [tid B] else [])"
    using k(3) w unfolding ds by (auto simp: spec_take_def wait_insert_Nil split: if_splits)
  show thesis
    using k(1) I aw ro fo wt by (intro that [of ?l])
      (simp_all add: decoder_take_def with_kernel_def line_inv_def port_ok_def held_back_def pending_def)
qed

lemma arrive_ok:
  fixes b :: byte
  assumes "line_inv B l"
  defines "l' \<equiv> l\<lparr>port := (port l)\<lparr>drv := (drv (port l))\<lparr>hw := usart_receive b (hw (drv (port l)))\<rparr>\<rparr>\<rparr>"
  shows "line_inv B l'" "fifo_of l' = fifo_of l" "held_back l' = (if held_back l = [] then [b] else held_back l)" "rov l' = rov l"
proof -
  show f: "fifo_of l' = fifo_of l" by (simp add: l'_def fifo_of_def cong: option.case_cong)
  show "line_inv B l'"
    using assms(1) f by (simp add: line_inv_def port_ok_def rover_ok_def awake_ok_def decoder_sem_def port_sane_def l'_def)
  have b: "bit (0x020 :: 16 word) 5" "ucast (ucast b :: 16 word) = b" by (simp_all add: ucast_up_ucast_id is_up)
  show "held_back l' = (if held_back l = [] then [b] else held_back l)"
    using b by (auto simp: l'_def held_back_def usart_incoming_def usart_receive_def get_flag_def and_rxne bit_or_iff)
  show "rov l' = rov l" by (simp add: l'_def)
qed

lemma elsewhere_ok:
  assumes "line_inv B l" "elsewhere l l'"
  shows "line_inv B l'" "fifo_of l' = fifo_of l" "held_back l' = held_back l" "pending (rov l') = pending (rov l)"
    "sp_data (rov l') = sp_data (rov l)"
proof -
  obtain k stop h where l': "l' = l\<lparr>rov := (rov l)\<lparr>kern := k, stop_flag := stop\<rparr>, port := (port l)\<lparr>drv := (drv (port l))\<lparr>hw := h\<rparr>\<rparr>\<rparr>"
    and e: "\<forall>s \<in> {sem_decoder (rov l), sem_motorctrl (rov l), sem_infrared (rov l)}. sem_inv s k"
      "decoder_sem l' = decoder_sem l" "held_back l' = held_back l"
    using assms(2) unfolding elsewhere_def by blast
  have f: "fifo_of l' = fifo_of l" by (simp add: l' fifo_of_def cong: option.case_cong)
  have r: "rover_ok l'" using assms(1) e(1) by (simp add: line_inv_def rover_ok_def decoder_ok_def l')
  have a: "awake_ok B l'" using assms(1) unfolding line_inv_def awake_ok_def e(2) f by (simp add: l')
  have p: "port_ok B l'" using assms(1) by (simp add: line_inv_def port_ok_def port_sane_def l')
  show "line_inv B l'" using r a p by (simp add: line_inv_def)
  show "fifo_of l' = fifo_of l" "held_back l' = held_back l" by (rule f) (rule e(3))
  show "pending (rov l') = pending (rov l)" "sp_data (rov l') = sp_data (rov l)" by (simp_all add: l' pending_def)
qed

subsection \<open>Runs\<close>

definition in_line :: "line \<Rightarrow> byte list" where
  "in_line l = fifo_of l @ held_back l"

definition decoded :: "line \<Rightarrow> byte list \<Rightarrow> line \<Rightarrow> bool" where
  "decoded l bs l' \<longleftrightarrow> (\<exists>cs. (\<forall>xs. decode (pending (rov l) @ bs @ xs) = cs @ decode (pending (rov l') @ xs)) \<and>
     sp_data (rov l') = last_speed (sp_data (rov l)) cs)"

lemma last_speed_append: "last_speed xs (cs @ ds) = last_speed (last_speed xs cs) ds"
  by (induction xs cs rule: last_speed.induct) simp_all

lemma decoded_refl: "pending (rov l') = pending (rov l) \<Longrightarrow> sp_data (rov l') = sp_data (rov l) \<Longrightarrow> decoded l [] l'"
  unfolding decoded_def by (rule exI [of _ "[]"]) simp

lemma decoded_trans: "decoded l bs l' \<Longrightarrow> decoded l' cs l'' \<Longrightarrow> decoded l (bs @ cs) l''"
  unfolding decoded_def by (elim exE conjE, rename_tac xs ys, rule_tac x = "xs @ ys" in exI) (simp add: last_speed_append)

lemma latest_subseq: "subseq (latest n xs) xs"
  unfolding latest_def by (intro suffix_imp_subseq suffix_drop)

lemma line_step_ok:
  assumes inv: "line_inv B l" and step: "line_step B l e l'"
  shows "line_inv B l'" "decoded l (gots [e]) l'" "subseq (gots [e] @ in_line l') (in_line l @ arrivals [e])"
    "\<not> loses l e \<Longrightarrow> gots [e] @ in_line l' = in_line l @ arrivals [e]"
proof -
  have "line_inv B l' \<and> decoded l (gots [e]) l' \<and> subseq (gots [e] @ in_line l') (in_line l @ arrivals [e]) \<and>
      (\<not> loses l e \<longrightarrow> gots [e] @ in_line l' = in_line l @ arrivals [e])"
    using step
  proof cases
    case (arrive b)
    note A = arrive_ok [OF inv, of b]
    show ?thesis
      using A unfolding arrive by (auto simp: in_line_def intro!: decoded_refl)
  next
    case interrupt
    let ?m = "bufsz (ser_config (drv (port l)))"
    obtain l1 where l1: "USART3_IRQHandler B l = Some l1" "line_inv B l1" "held_back l1 = []"
      "fifo_of l1 = latest (?m - 1) (fifo_of l @ held_back l)" "pending (rov l1) = pending (rov l)" "sp_data (rov l1) = sp_data (rov l)"
      by (rule interrupt_ok [OF inv interrupt(2,3)]) (rule that)
    have e: "l' = l1" using l1(1) interrupt(5) by simp
    have "fifo_of l @ held_back l = latest (?m - 1) (fifo_of l @ held_back l)" if "length (fifo_of l) \<noteq> ?m - 1"
    proof -
      have "length (fifo_of l) < ?m" using inv
        by (auto simp: line_inv_def port_ok_def port_sane_def fifo_of_def rx_length_less split: option.splits)
      moreover have "length (held_back l) \<le> 1" by (simp add: held_back_def usart_incoming_def)
      ultimately show ?thesis using that by simp
    qed
    then show ?thesis using l1 latest_subseq [of "?m - 1" "fifo_of l @ held_back l"]
      unfolding e interrupt(1) by (auto simp: in_line_def intro!: decoded_refl)
  next
    case (got b)
    from inv got(2) show ?thesis
    proof (cases rule: decoder_read_ok)
      case (byte b1 l1 cs)
      have e: "l' = l1" "b = b1" using byte(1) got(4) by simp_all
      have "decoded l [b] l'" unfolding decoded_def e using byte(5,6) by (intro exI [of _ cs]) simp
      then show ?thesis using byte(2-4) unfolding got(1) e by (simp add: in_line_def)
    qed (use got(4) in simp)
  next
    case none
    from inv none(2) show ?thesis
    proof (cases rule: decoder_read_ok)
      case (empty l1)
      have e: "l' = l1" using empty(2) none(4) by simp
      show ?thesis using empty unfolding none(1) e by (auto simp: in_line_def intro!: decoded_refl)
    qed (use none(4) in simp)
  next
    case took
    obtain l1 where l1: "decoder_take l = Some l1" "line_inv B l1" "fifo_of l1 = fifo_of l" "held_back l1 = held_back l"
      "pending (rov l1) = pending (rov l)" "sp_data (rov l1) = sp_data (rov l)"
      by (rule decoder_take_ok [OF inv took(2,3)]) (rule that)
    have e: "l' = l1" using l1(1) took(4) by simp
    show ?thesis using l1 unfolding took(1) e by (auto simp: in_line_def intro!: decoded_refl)
  next
    case woke
    have f: "fifo_of l' = fifo_of l" unfolding woke by (simp add: fifo_of_def cong: option.case_cong)
    have ki: "kinv (kern (rov l))" using inv by (simp add: line_inv_def rover_ok_def sem_inv_def)
    have "waiting (decoder_sem l) \<noteq> [tid B]"
      using sched_invD(4) [OF kinvD(2) [OF ki], of "tid B" "SuspQ (sem_decoder (rov l))"] in_threadD(2) [OF woke(4)]
      by (auto simp: decoder_sem_def sem_abs_def)
    then have "waiting (decoder_sem l) = []" using inv by (auto simp: line_inv_def awake_ok_def)
    then have "line_inv B l'" using inv by (simp add: line_inv_def awake_ok_def port_ok_def rover_ok_def decoder_sem_def woke)
    then show ?thesis using f unfolding woke(1) by (auto simp: in_line_def held_back_def pending_def woke(2) intro!: decoded_refl)
  next
    case elsewhere
    note E = elsewhere_ok [OF inv elsewhere(2)]
    show ?thesis using E unfolding elsewhere(1) by (auto simp: in_line_def intro!: decoded_refl)
  qed
  then show "line_inv B l'" "decoded l (gots [e]) l'" "subseq (gots [e] @ in_line l') (in_line l @ arrivals [e])"
    "\<not> loses l e \<Longrightarrow> gots [e] @ in_line l' = in_line l @ arrivals [e]" by blast+
qed

lemma gots_append: "gots (es @ fs) = gots es @ gots fs"
  by (induction es rule: gots.induct) simp_all

lemma arrivals_append: "arrivals (es @ fs) = arrivals es @ arrivals fs"
  by (induction es rule: arrivals.induct) simp_all

theorem line_run_ok:
  assumes run: "line_run B l0 es lossy l" and inv: "line_inv B l0"
  shows "line_inv B l" "decoded l0 (gots es) l" "subseq (gots es @ in_line l) (in_line l0 @ arrivals es)"
    "\<not> lossy \<Longrightarrow> gots es @ in_line l = in_line l0 @ arrivals es"
proof -
  have "line_inv B l \<and> decoded l0 (gots es) l \<and> subseq (gots es @ in_line l) (in_line l0 @ arrivals es) \<and>
      (\<not> lossy \<longrightarrow> gots es @ in_line l = in_line l0 @ arrivals es)"
    using run
  proof induction
    case start
    then show ?case using inv by (simp add: decoded_refl)
  next
    case (step es lossy l e l')
    then have I: "line_inv B l" "decoded l0 (gots es) l" "subseq (gots es @ in_line l) (in_line l0 @ arrivals es)" by auto
    note S = line_step_ok [OF I(1) step.hyps(2)]
    have a: "subseq (gots es @ gots [e] @ in_line l') (gots es @ in_line l @ arrivals [e])"
      by (rule list_emb_append_mono [OF subseq_order.refl S(3)])
    have "subseq ((gots es @ in_line l) @ arrivals [e]) ((in_line l0 @ arrivals es) @ arrivals [e])"
      by (rule list_emb_append_mono [OF I(3) subseq_order.refl])
    then have "subseq (gots es @ in_line l @ arrivals [e]) ((in_line l0 @ arrivals es) @ arrivals [e])" by simp
    from subseq_order.trans [OF a this] have "subseq (gots (es @ [e]) @ in_line l') (in_line l0 @ arrivals (es @ [e]))"
      by (simp add: gots_append arrivals_append)
    moreover have "gots (es @ [e]) @ in_line l' = in_line l0 @ arrivals (es @ [e])" if "\<not> (lossy \<or> loses l e)"
    proof -
      have "gots (es @ [e]) @ in_line l' = gots es @ in_line l @ arrivals [e]" using S(4) that by (simp add: gots_append)
      also have "\<dots> = (in_line l0 @ arrivals es) @ arrivals [e]" using step.IH that by simp
      finally show ?thesis by (simp add: arrivals_append)
    qed
    ultimately show ?case using S(1) decoded_trans [OF I(2) S(2)] by (simp add: gots_append)
  qed
  then show "line_inv B l" "decoded l0 (gots es) l" "subseq (gots es @ in_line l) (in_line l0 @ arrivals es)"
    "\<not> lossy \<Longrightarrow> gots es @ in_line l = in_line l0 @ arrivals es" by blast+
qed

text \<open>
  While the decoder thread waits there is nothing to read. If nothing was lost either and the USART
  holds nothing, the speed set is that of the last command in all bytes that arrived.
\<close>

theorem sleeping_decoder:
  assumes inv: "line_inv B l0" and run: "line_run B l0 es lossy l" and asleep: "waiting (decoder_sem l) \<noteq> []"
  shows "fifo_of l = []" "\<not> lossy \<Longrightarrow> held_back l = [] \<Longrightarrow>
    sp_data (rov l) = last_speed (sp_data (rov l0)) (decode (pending (rov l0) @ in_line l0 @ arrivals es))"
proof -
  note R = line_run_ok [OF run inv]
  show f: "fifo_of l = []" using R(1) asleep by (auto simp: line_inv_def awake_ok_def)
  assume l: "\<not> lossy" "held_back l = []"
  then have g: "gots es = in_line l0 @ arrivals es" using R(4) f by (simp add: in_line_def)
  obtain cs where cs: "\<And>xs. decode (pending (rov l0) @ gots es @ xs) = cs @ decode (pending (rov l) @ xs)"
    "sp_data (rov l) = last_speed (sp_data (rov l0)) cs" using R(2) unfolding decoded_def by blast
  have "decode (pending (rov l)) = []" using R(1) by (simp add: line_inv_def rover_ok_def decode_pending)
  then show "sp_data (rov l) = last_speed (sp_data (rov l0)) (decode (pending (rov l0) @ in_line l0 @ arrivals es))"
    using cs(1) [of "[]"] cs(2) by (simp add: g)
qed

text \<open>Every step that is due can be taken: no part fails an assertion or spins.\<close>

theorem line_goes_on:
  assumes inv: "line_inv B l"
  shows "held_back l \<noteq> [] \<Longrightarrow> rxneie (hw (drv (port l))) \<Longrightarrow> USART3_IRQHandler B l \<noteq> None"
    "in_thread (kern (rov l)) (tid B) \<Longrightarrow> \<exists>e l'. e \<in> {Found_none, Took, Woke} \<union> range Got \<and> line_step B l e l'"
proof -
  show "USART3_IRQHandler B l \<noteq> None" if "held_back l \<noteq> []" "rxneie (hw (drv (port l)))"
    by (rule interrupt_ok [OF inv that]) simp
  assume t: "in_thread (kern (rov l)) (tid B)"
  show "\<exists>e l'. e \<in> {Found_none, Took, Woke} \<union> range Got \<and> line_step B l e l'"
  proof (cases "place l")
    case Reading
    from inv this show ?thesis
      by (cases rule: decoder_read_ok) (use Reading t in \<open>blast intro: line_step.intros\<close>)+
  next
    case Taking
    show ?thesis by (rule decoder_take_ok [OF inv Taking t]) (use Taking t in \<open>blast intro: line_step.intros\<close>)
  next
    case Asleep
    then show ?thesis using t by (blast intro: line_step.intros)
  qed
qed

subsection \<open>The start of the decoder\<close>

text \<open>
  From a registered device nobody has opened, the decoder thread reaches the state its loop relies on: the
  receive interrupt is enabled, the buffer is empty, the callback installed.
\<close>

theorem commu_decoder_start_ok:
  assumes find: "rt_device_find (Some name) (objs B) (kern (rov l)) = Some (Some (ob B), k)"
    and dev: "rt_object_get_type (ob B) (objs B) = RT_Object_Class_Device"
    and fresh: "dev_ref (port l) = 0" "dev_open_flag (port l) = 0" "\<not> bit (dev_flag (port l)) 4" "bit (dev_flag (port l)) 8"
    and init: "hal B (stm32_settings uart_config)"
    and rover: "rover_ok (l\<lparr>rov := (rov l)\<lparr>kern := k\<rparr>\<rparr>)" "waiting (sem_abs (sem_decoder (rov l)) k) = []"
  shows "\<exists>l'. commu_decoder_start B name l = Some l' \<and> line_inv B l' \<and> in_line l' = held_back l \<and>
    rxneie (hw (drv (port l'))) \<and> nvic (hw (drv (port l'))) \<and> rov l' = (rov l)\<lparr>kern := k\<rparr>"
proof -
  let ?s = "(drv (port l))\<lparr>ser_config := uart_config, serial_rx := None, serial_tx := None\<rparr>"
  let ?h = "(hw ?s)\<lparr>settings := stm32_settings uart_config, nvic := True, rxneie := True\<rparr>"
  let ?f = "\<lparr>rx_buffer = replicate 64 0, put_index = 0, get_index = 0, is_full = False\<rparr>"
  have dv: "is_device (ob B) (objs B) = Some ()" using dev by (simp add: is_device_def)
  have cfg: "rt_device_control (ops_of B) (objs B) (ob B) 0x03 (Some uart_config) (port l) k =
      Some (0, (port l)\<lparr>drv := (drv (port l))\<lparr>ser_config := uart_config\<rparr>\<rparr>, k)"
    using fresh(1) by (simp add: rt_device_control_def dv ops_of_def serial_ops_def rt_serial_control_def)
  have fl: "\<not> open_refused 0x100 (dev_flag (port l) OR 0x010)"
    using fresh(4) by (simp add: open_refused_def and_mode bit_or_iff)
  let ?d0 = "(port l)\<lparr>drv := (drv (port l))\<lparr>ser_config := uart_config\<rparr>\<rparr>"
  let ?d1 = "(port l)\<lparr>drv := ?s\<lparr>hw := (hw ?s)\<lparr>settings := stm32_settings uart_config\<rparr>\<rparr>, dev_flag := dev_flag (port l) OR 0x010\<rparr>"
  have act: "open_activate (ops_of B) ?d0 k = Some (0, ?d1, k)"
    using fresh(3) init by (simp add: open_activate_def and_flag ops_of_def serial_ops_def rt_serial_init_def
        stm32_uart_ops_def stm32_configure_def Let_def)
  have opn: "rt_serial_open (stm32_uart_ops (hal B)) (Some (rx_obj B)) (Some (tx_obj B)) 0x100 ?d1 k =
      Some (0, ?d1\<lparr>drv := ?s\<lparr>serial_rx := Some ?f, hw := ?h\<rparr>, dev_open_flag := 0x100\<rparr>, k)"
    using fl fresh(2) by (simp add: rt_serial_open_def open_rx_def open_tx_def set_int_def stm32_uart_ops_def stm32_control_def
        uart_config_def)
  have opnd: "rt_device_open (ops_of B) (objs B) (ob B) 0x100 ?d0 k =
      Some (0, ?d1\<lparr>drv := ?s\<lparr>serial_rx := Some ?f, hw := ?h\<rparr>, dev_open_flag := 0x108, dev_ref := 1\<rparr>, k)"
    using act opn fresh(1,2) by (simp add: rt_device_open_def dv ops_of_def serial_ops_def open_count_def)
  let ?l = "l\<lparr>rov := (rov l)\<lparr>kern := k\<rparr>, place := Reading, port := ?d1\<lparr>drv := ?s\<lparr>serial_rx := Some ?f, hw := ?h\<rparr>,
      dev_open_flag := 0x108, dev_ref := 1, rx_indicate := Some 1\<rparr>\<rparr>"
  have start: "commu_decoder_start B name l = Some ?l"
    using find cfg opnd by (simp add: commu_decoder_start_def rt_device_set_rx_indicate_def dv)
  have fo: "fifo_of ?l = []" by (simp add: fifo_of_def fifo_bytes_def rx_length_def uart_config_def)
  have po: "port_ok B ?l" by (simp add: port_ok_def dv port_sane_def new_fifo uart_config_def)
  have ro: "rover_ok ?l" using rover(1) by (simp add: rover_ok_def)
  have "awake_ok B ?l" using rover(2) by (simp add: awake_ok_def decoder_sem_def)
  with po ro have "line_inv B ?l" by (simp add: line_inv_def)
  moreover have "in_line ?l = held_back l" using fo by (simp add: in_line_def held_back_def usart_incoming_def get_flag_def)
  ultimately show ?thesis using start by (intro exI [of _ ?l]) simp
qed

end
