(* ===== verification/Msh.thy ===== *)
theory Msh
  imports Kprintf "HOL-Library.Sublist"
begin

text \<open>
  The command interpreter of the shell (msh.c): splitting a line into arguments, looking up a command,
  running it, and completing a name. It works in place on the line the shell has read, a list of
  bytes; a read or write outside it has no result. It is shown that a command gets as arguments what a
  tokenizer of the text gives, and that completion extends the line to the longest common prefix of
  the names it can become.
\<close>

subsection \<open>Memory and console\<close>

definition deref :: "byte list \<Rightarrow> nat \<Rightarrow> byte option" where
  "deref b i = (if i < length b then Some (b ! i) else None)"

text \<open>The string a pointer into the line denotes.\<close>

definition cstring :: "byte list \<Rightarrow> nat \<Rightarrow> byte list option" where
  "cstring b i = (if 0 \<in> set (drop i b) then Some (takeWhile (\<lambda>c. c \<noteq> 0) (drop i b)) else None)"

definition ascii :: "string \<Rightarrow> byte list" where
  "ascii s = map of_char s"

text \<open>What \<open>rt_kprintf\<close> gives the console, behind what it has got before.\<close>

definition console_bytes :: "byte list \<Rightarrow> byte list" where
  "console_bytes t = (if length t < 255 then t else take 254 t @ [0])"

definition kprintf :: "byte list \<Rightarrow> arg list \<Rightarrow> byte list \<Rightarrow> byte list option" where
  "kprintf fmt args con = map_option (\<lambda>t. con @ console_bytes t) (format_text fmt args)"

subsection \<open>The command table\<close>

record finsh_syscall =
  sc_name :: "byte list"
  sc_desc :: "byte list"
  sc_func :: nat

abbreviation (input) FINSH_ARG_MAX :: nat where "FINSH_ARG_MAX \<equiv> 10"

fun help_loop :: "finsh_syscall list \<Rightarrow> byte list \<Rightarrow> byte list option" where
  "help_loop [] con = Some con"
| "help_loop (e # tab) con = do {
     con \<leftarrow> kprintf (ascii ''%-16s - %s'' @ [10]) [Arg_Str (Some (sc_name e)), Arg_Str (Some (sc_desc e))] con;
     help_loop tab con }"

definition msh_help :: "finsh_syscall list \<Rightarrow> byte list \<Rightarrow> byte list option" where
  "msh_help tab con = do {
     con \<leftarrow> kprintf (ascii ''RT-Thread shell commands:'' @ [10]) [] con;
     con \<leftarrow> help_loop tab con;
     kprintf [10] [] con }"

text \<open>\<open>strncmp (a + i, b + j, n) == 0\<close>\<close>

fun strncmp_eq :: "byte list \<Rightarrow> nat \<Rightarrow> byte list \<Rightarrow> nat \<Rightarrow> nat \<Rightarrow> bool option" where
  "strncmp_eq a i b j 0 = Some True"
| "strncmp_eq a i b j (Suc n) = do {
     x \<leftarrow> deref a i; y \<leftarrow> deref b j;
     if x \<noteq> y then Some False else if x = 0 then Some True else strncmp_eq a (Suc i) b (Suc j) n }"

text \<open>The names in the table are strings: a zero follows them.\<close>

fun msh_get_cmd :: "finsh_syscall list \<Rightarrow> byte list \<Rightarrow> nat \<Rightarrow> nat \<Rightarrow> nat option option" where
  "msh_get_cmd [] b cmd sz = Some None"
| "msh_get_cmd (e # tab) b cmd sz = do {
     same \<leftarrow> strncmp_eq (sc_name e @ [0]) 0 b cmd sz;
     if same then do {
       c \<leftarrow> deref (sc_name e @ [0]) sz;
       if c = 0 then Some (Some (sc_func e)) else msh_get_cmd tab b cmd sz }
     else msh_get_cmd tab b cmd sz }"

subsection \<open>Splitting a line\<close>

text \<open>The pointer of the code is \<open>cmd + position\<close> throughout.\<close>

definition blank :: "byte \<Rightarrow> bool" where
  "blank c \<longleftrightarrow> c = 32 \<or> c = 9"

function strip_loop :: "byte list \<Rightarrow> nat \<Rightarrow> nat \<Rightarrow> nat \<Rightarrow> (nat \<times> byte list) option" where
  "strip_loop b cmd len pos = do {
     c \<leftarrow> deref b (cmd + pos);
     if blank c \<and> pos < len then strip_loop (b[cmd + pos := 0]) cmd len (pos + 1) else Some (pos, b) }"
  by pat_completeness auto
termination by (relation "measure (\<lambda>(b, cmd, len, pos). len - pos)") auto

function word_loop :: "byte list \<Rightarrow> nat \<Rightarrow> nat \<Rightarrow> nat \<Rightarrow> nat option" where
  "word_loop b cmd len pos = do {
     c \<leftarrow> deref b (cmd + pos);
     if \<not> blank c \<and> pos < len then word_loop b cmd len (pos + 1) else Some pos }"
  by pat_completeness auto
termination by (relation "measure (\<lambda>(b, cmd, len, pos). len - pos)") auto

function string_loop :: "byte list \<Rightarrow> nat \<Rightarrow> nat \<Rightarrow> nat \<Rightarrow> nat option" where
  "string_loop b cmd len pos = do {
     c \<leftarrow> deref b (cmd + pos);
     if c \<noteq> 34 \<and> pos < len then
       (if c = 92 then do {
          d \<leftarrow> deref b (cmd + pos + 1);
          string_loop b cmd len (if d = 34 then pos + 2 else pos + 1) }
        else string_loop b cmd len (pos + 1))
     else Some pos }"
  by pat_completeness auto
termination by (relation "measure (\<lambda>(b, cmd, len, pos). len - pos)") auto

fun print_args :: "byte list \<Rightarrow> nat list \<Rightarrow> byte list \<Rightarrow> byte list option" where
  "print_args b [] con = Some con"
| "print_args b (p # argv) con = do {
     s \<leftarrow> cstring b p;
     con \<leftarrow> kprintf (ascii ''%s '') [Arg_Str (Some s)] con;
     print_args b argv con }"

definition too_many :: "byte list \<Rightarrow> nat list \<Rightarrow> byte list \<Rightarrow> byte list option" where
  "too_many b argv con = do {
     con \<leftarrow> kprintf (ascii ''Too many args ! We only Use:'' @ [10]) [] con;
     con \<leftarrow> print_args b argv con;
     kprintf [10] [] con }"

function split_loop ::
    "byte list \<Rightarrow> nat \<Rightarrow> nat \<Rightarrow> nat \<Rightarrow> nat list \<Rightarrow> byte list \<Rightarrow> (nat list \<times> byte list \<times> byte list) option" where
  "split_loop b cmd len pos argv con =
     (if \<not> pos < len then Some (argv, b, con)
      else do {
        (pos, b) \<leftarrow> strip_loop b cmd len pos;
        if length argv \<ge> FINSH_ARG_MAX then do { con \<leftarrow> too_many b argv con; Some (argv, b, con) }
        else if pos \<ge> len then Some (argv, b, con)
        else do {
          c \<leftarrow> deref b (cmd + pos);
          if c = 34 then do {
            let pos = pos + 1;
            let argv = argv @ [cmd + pos];
            pos \<leftarrow> string_loop b cmd len pos;
            if pos \<ge> len then Some (argv, b, con)
            else split_loop (b[cmd + pos := 0]) cmd len (pos + 1) argv con }
          else do {
            let argv = argv @ [cmd + pos];
            pos \<leftarrow> word_loop b cmd len pos;
            if pos \<ge> len then Some (argv, b, con) else split_loop b cmd len pos argv con } } })"
  by pat_completeness auto
termination by (relation "measure (\<lambda>(b, cmd, len, pos, argv, con). FINSH_ARG_MAX - length argv)") auto

definition msh_split :: "byte list \<Rightarrow> nat \<Rightarrow> nat \<Rightarrow> byte list \<Rightarrow> (nat list \<times> byte list \<times> byte list) option" where
  "msh_split b cmd len con = split_loop b cmd len 0 [] con"

declare strip_loop.simps [simp del] word_loop.simps [simp del] string_loop.simps [simp del] split_loop.simps [simp del]

subsection \<open>Running a command\<close>

text \<open>
  A command is code elsewhere: \<open>run f args w\<close> is its result, what it prints, and what it makes of the rest
  of the system \<open>w\<close>. It is handed the strings its pointers denote.
\<close>

type_synonym 'w commands = "nat \<Rightarrow> byte list list \<Rightarrow> 'w \<Rightarrow> int \<times> byte list \<times> 'w"

definition arg_strings :: "byte list \<Rightarrow> nat list \<Rightarrow> byte list list option" where
  "arg_strings b argv = those (map (cstring b) argv)"

text \<open>The result \<open>None\<close> in front stands for the return value \<open>-RT_ERROR\<close>.\<close>

definition msh_exec_cmd :: "'w commands \<Rightarrow> finsh_syscall list \<Rightarrow> byte list \<Rightarrow> nat \<Rightarrow> nat \<Rightarrow> byte list \<Rightarrow> 'w \<Rightarrow>
    (int option \<times> byte list \<times> byte list \<times> 'w) option" where
  "msh_exec_cmd run tab b cmd len con w = do {
     cmd0_size \<leftarrow> word_loop b cmd len 0;
     if cmd0_size = 0 then Some (None, b, con, w)
     else do {
       f \<leftarrow> msh_get_cmd tab b cmd cmd0_size;
       case f of
         None \<Rightarrow> Some (None, b, con, w)
       | Some f \<Rightarrow> do {
           (argv, b, con) \<leftarrow> msh_split b cmd len con;
           if argv = [] then Some (None, b, con, w)
           else do {
             args \<leftarrow> arg_strings b argv;
             let (ret, txt, w) = run f args w;
             Some (Some ret, b, con @ txt, w) } } } }"

fun trim_loop :: "byte list \<Rightarrow> nat \<Rightarrow> nat \<Rightarrow> (nat \<times> nat) option" where
  "trim_loop b cmd 0 = Some (cmd, 0)"
| "trim_loop b cmd (Suc len) = do {
     c \<leftarrow> deref b cmd;
     if blank c then trim_loop b (cmd + 1) len else Some (cmd, Suc len) }"

function space_loop :: "byte list \<Rightarrow> nat \<Rightarrow> nat option" where
  "space_loop b i = do {
     c \<leftarrow> deref b i;
     if c \<noteq> 32 \<and> c \<noteq> 0 then space_loop b (i + 1) else Some i }"
  by pat_completeness auto
termination by (relation "measure (\<lambda>(b, i). length b - i)") (auto simp: deref_def split: if_splits)

declare space_loop.simps [simp del]

definition msh_exec :: "'w commands \<Rightarrow> finsh_syscall list \<Rightarrow> byte list \<Rightarrow> nat \<Rightarrow> byte list \<Rightarrow> 'w \<Rightarrow>
    (int \<times> byte list \<times> byte list \<times> 'w) option" where
  "msh_exec run tab b len con w = do {
     (cmd, len) \<leftarrow> trim_loop b 0 len;
     if len = 0 then Some (0, b, con, w)
     else do {
       (r, b, con, w) \<leftarrow> msh_exec_cmd run tab b cmd len con w;
       case r of
         Some cmd_ret \<Rightarrow> Some (cmd_ret, b, con, w)
       | None \<Rightarrow> do {
           tcmd \<leftarrow> space_loop b cmd;
           let b = b[tcmd := 0];
           s \<leftarrow> cstring b cmd;
           con \<leftarrow> kprintf (ascii ''%s: command not found.'' @ [10]) [Arg_Str (Some s)] con;
           Some (- 1, b, con, w) } } }"

subsection \<open>Completing a name\<close>

fun str_common :: "byte list \<Rightarrow> byte list \<Rightarrow> nat" where
  "str_common (x # xs) (y # ys) = (if x = y then Suc (str_common xs ys) else 0)"
| "str_common _ _ = 0"

fun complete_loop :: "finsh_syscall list \<Rightarrow> byte list \<Rightarrow> nat \<Rightarrow> nat \<Rightarrow> byte list option \<Rightarrow> byte list \<Rightarrow>
    (nat \<times> byte list option \<times> byte list) option" where
  "complete_loop [] b n min_length name_ptr con = Some (min_length, name_ptr, con)"
| "complete_loop (e # tab) b n min_length name_ptr con = do {
     same \<leftarrow> strncmp_eq b 0 (sc_name e @ [0]) 0 n;
     if same then do {
       let (name_ptr, min_length) =
         (if min_length = 0 then (sc_name e, length (sc_name e)) else (the name_ptr, min_length));
       let len = str_common name_ptr (sc_name e);
       let min_length = (if len < min_length then len else min_length);
       con \<leftarrow> kprintf (ascii ''%s'' @ [10]) [Arg_Str (Some (sc_name e))] con;
       complete_loop tab b n min_length (Some name_ptr) con }
     else complete_loop tab b n min_length name_ptr con }"

definition msh_auto_complete :: "finsh_syscall list \<Rightarrow> byte list \<Rightarrow> byte list \<Rightarrow> (byte list \<times> byte list) option" where
  "msh_auto_complete tab b con = do {
     c \<leftarrow> deref b 0;
     if c = 0 then do { con \<leftarrow> msh_help tab con; Some (b, con) }
     else do {
       prefix \<leftarrow> cstring b 0;
       (min_length, name_ptr, con) \<leftarrow> complete_loop tab b (length prefix) 0 None con;
       case name_ptr of
         None \<Rightarrow> Some (b, con)
       | Some name \<Rightarrow> do { b \<leftarrow> mem_write b 0 (padded min_length name); Some (b, con) } } }"

subsection \<open>Texts\<close>

lemma parse_spec_plain:
  "parse_spec (115 # r) args = Some (\<lparr>cv_flags = 0, cv_width = - 1, cv_precision = - 1, cv_qualifier = 0\<rparr>, 115 # r, args)"
  "parse_spec (99 # r) args = Some (\<lparr>cv_flags = 0, cv_width = - 1, cv_precision = - 1, cv_qualifier = 0\<rparr>, 99 # r, args)"
  by (simp_all add: parse_spec_def get_width_def get_precision_def ISDIGIT_def)

lemma format_s: "format_text (37 # 115 # r) (Arg_Str (Some s) # args) = map_option ((@) s) (format_text r args)"
  by (simp add: parse_spec_plain conv_text_def str_text_def)

lemma format_c: "format_text (37 # 99 # r) (Arg_Int n # args) = map_option ((#) (ucast n)) (format_text r args)"
  by (simp add: parse_spec_plain conv_text_def char_text_def append_Cons [abs_def])

lemma format_literal: "c \<noteq> 37 \<Longrightarrow> format_text (c # r) args = map_option ((#) c) (format_text r args)"
  by simp

lemma kprintf_texts:
  "kprintf (ascii ''%s '') [Arg_Str (Some s)] con = Some (con @ console_bytes (s @ [32]))"
  "kprintf (ascii ''%s'' @ [10]) [Arg_Str (Some s)] con = Some (con @ console_bytes (s @ [10]))"
  "kprintf (ascii ''%s: command not found.'' @ [10]) [Arg_Str (Some s)] con =
     Some (con @ console_bytes (s @ ascii '': command not found.'' @ [10]))"
  by (simp_all add: kprintf_def ascii_def format_s format_c format_literal del: format_text.simps(2))

lemma kprintf_plain: "37 \<notin> set t \<Longrightarrow> kprintf t args con = Some (con @ console_bytes t)"
  by (simp add: kprintf_def format_text_plain)

lemma print_args_ok:
  assumes "\<forall>p \<in> set argv. cstring b p \<noteq> None"
  shows "\<exists>t. print_args b argv con = Some (con @ t)"
  using assms
proof (induction argv arbitrary: con)
  case (Cons p argv)
  then obtain s where "cstring b p = Some s" by auto
  moreover obtain t where "print_args b argv (con @ console_bytes (s @ [32])) = Some ((con @ console_bytes (s @ [32])) @ t)"
    using Cons by fastforce
  ultimately show ?case by (simp add: kprintf_texts)
qed simp

text \<open>A text that leaves the cursor at the start of a line.\<close>

definition ends_line :: "byte list \<Rightarrow> bool" where
  "ends_line t \<longleftrightarrow> t = [] \<or> last t = 10"

lemma ends_line_Nil [simp]: "ends_line []"
  by (simp add: ends_line_def)

lemma too_many_ok:
  assumes "\<forall>p \<in> set argv. cstring b p \<noteq> None"
  shows "\<exists>t. too_many b argv con = Some (con @ t) \<and> ends_line t"
proof -
  let ?head = "ascii ''Too many args ! We only Use:'' @ [10]"
  obtain t where "print_args b argv (con @ console_bytes ?head) = Some (con @ console_bytes ?head @ t)"
    using print_args_ok [OF assms, of "con @ console_bytes ?head"] by auto
  moreover have "kprintf ?head [] con = Some (con @ console_bytes ?head)"
    by (rule kprintf_plain) (simp add: ascii_def)
  ultimately show ?thesis by (simp add: too_many_def kprintf_plain console_bytes_def [of "[10]"] ends_line_def)
qed

subsection \<open>The arguments of a text\<close>

text \<open>The text up to the closing quote, and what follows it; a quote behind a backslash does not close.\<close>

fun quoted :: "byte list \<Rightarrow> byte list \<times> byte list" where
  "quoted [] = ([], [])"
| "quoted (c # s) =
     (if c = 34 then ([], s)
      else if c = 92 \<and> s \<noteq> [] \<and> hd s = 34 then (let (q, r) = quoted (tl s) in (c # 34 # q, r))
      else (let (q, r) = quoted s in (c # q, r)))"

lemma quoted_length: "length (snd (quoted s)) \<le> length s"
proof (induction s rule: quoted.induct)
  case (2 c s)
  then show ?case by (auto simp: split_beta Let_def intro: le_SucI order.trans)
qed simp

definition word :: "byte list \<Rightarrow> byte list" where
  "word s = takeWhile (\<lambda>c. \<not> blank c) s"

function toks :: "byte list \<Rightarrow> byte list list" where
  "toks s =
     (case dropWhile blank s of
        [] \<Rightarrow> []
      | c # r \<Rightarrow> if c = 34 then fst (quoted r) # toks (snd (quoted r))
                else word (c # r) # toks (dropWhile (\<lambda>c. \<not> blank c) (c # r)))"
  by pat_completeness auto
termination
proof (relation "measure length", goal_cases)
  case (2 s c r)
  then have "length (c # r) \<le> length s" by (metis length_dropWhile_le)
  then show ?case using quoted_length [of r] by simp
next
  case (3 s c r)
  then have "length (c # r) \<le> length s" by (metis length_dropWhile_le)
  moreover have "\<not> blank c" using 3 by (metis hd_dropWhile list.distinct(1) list.sel(1))
  moreover have "length (dropWhile (\<lambda>c. \<not> blank c) r) \<le> length r" by (rule length_dropWhile_le)
  ultimately show ?case by simp
qed simp

declare toks.simps [simp del]

subsection \<open>The loops of the splitter\<close>

lemma deref_append [simp]: "deref (pre @ c # r) (length pre) = Some c"
  by (simp add: deref_def)

lemma deref_here: "i = length pre \<Longrightarrow> deref (pre @ c # r) i = Some c"
  by simp

lemma strip_loop_ok:
  assumes "cmd + pos = length pre" "len = pos + length s"
  shows "strip_loop (pre @ s @ x # post) cmd len pos =
    Some (pos + length (takeWhile blank s),
      pre @ replicate (length (takeWhile blank s)) 0 @ dropWhile blank s @ x # post)"
  using assms
proof (induction s arbitrary: pre pos)
  case Nil
  then show ?case by (subst strip_loop.simps) simp
next
  case (Cons c s)
  have "strip_loop ((pre @ [0]) @ s @ x # post) cmd len (pos + 1) = Some (pos + 1 + length (takeWhile blank s),
      (pre @ [0]) @ replicate (length (takeWhile blank s)) 0 @ dropWhile blank s @ x # post)"
    by (rule Cons.IH) (use Cons.prems in simp_all)
  then show ?case using Cons.prems by (subst strip_loop.simps) (simp add: deref_here)
qed

lemma word_loop_ok:
  assumes "cmd + pos = length pre" "len = pos + length s"
  shows "word_loop (pre @ s @ x # post) cmd len pos = Some (pos + length (word s))"
  using assms
proof (induction s arbitrary: pre pos)
  case Nil
  then show ?case by (subst word_loop.simps) (simp add: word_def)
next
  case (Cons c s)
  have "word_loop ((pre @ [c]) @ s @ x # post) cmd len (pos + 1) = Some (pos + 1 + length (word s))"
    by (rule Cons.IH) (use Cons.prems in simp_all)
  then show ?case using Cons.prems by (subst word_loop.simps) (simp add: deref_here word_def)
qed

lemma string_loop_ok:
  assumes "cmd + pos = length pre" "len = pos + length s" "x \<noteq> 34"
  shows "string_loop (pre @ s @ x # post) cmd len pos = Some (pos + length (fst (quoted s)))"
  using assms
proof (induction s arbitrary: pre pos rule: quoted.induct)
  case 1
  then show ?case by (subst string_loop.simps) (simp add: deref_here)
next
  case (2 c s)
  consider (close) "c = 34" | (esc) s' where "c = 92" "s = 34 # s'" | (other) "c \<noteq> 34" "\<not> (c = 92 \<and> s \<noteq> [] \<and> hd s = 34)"
    by (metis list.collapse)
  then show ?case
  proof cases
    case close
    then show ?thesis using 2 by (subst string_loop.simps) (simp add: deref_here)
  next
    case esc
    have "string_loop ((pre @ [c, 34]) @ s' @ x # post) cmd len (pos + 2) = Some (pos + 2 + length (fst (quoted s')))"
      using 2(1) [of "pos + 2" "pre @ [c, 34]"] 2(3-5) esc by simp
    moreover have "deref (pre @ c # 34 # s' @ x # post) (Suc (length pre)) = Some 34"
      by (simp add: deref_def nth_append)
    ultimately show ?thesis using 2(3,4) esc by (subst string_loop.simps) (simp add: split_beta)
  next
    case other
    have i: "string_loop ((pre @ [c]) @ s @ x # post) cmd len (pos + 1) = Some (pos + 1 + length (fst (quoted s)))"
      using 2(2) [of "pos + 1" "pre @ [c]"] 2(3-5) other by auto
    have d: "deref (pre @ c # s @ x # post) (Suc (length pre)) = Some (hd (s @ [x]))"
      by (cases s) (simp_all add: deref_def nth_append)
    have "hd (s @ [x]) \<noteq> 34" if "c = 92" using that other 2(5) by (cases s) auto
    then show ?thesis using i d other(1) 2(3,4)
      by (subst string_loop.simps) (cases "c = 92 \<and> s \<noteq> [] \<and> hd s = 34", use other in \<open>auto simp: split_beta\<close>)
  qed
qed

text \<open>A quoted text ends at its closing quote or with the line.\<close>

lemma quoted_parts:
  "(fst (quoted s) = s \<and> snd (quoted s) = []) \<or> s = fst (quoted s) @ 34 # snd (quoted s)"
proof (induction s rule: quoted.induct)
  case (2 c s)
  consider "c = 34" | s' where "c = 92" "s = 34 # s'" | "c \<noteq> 34" "\<not> (c = 92 \<and> s \<noteq> [] \<and> hd s = 34)"
    by (metis list.collapse)
  then show ?case using 2 by cases (auto simp: split_beta Let_def)
qed simp

subsection \<open>Splitting gives the arguments\<close>

lemma cstring_at: "0 \<notin> set w \<Longrightarrow> i = length p \<Longrightarrow> cstring (p @ w @ 0 # r) i = Some w"
  by (auto simp: cstring_def takeWhile_append)

lemma cstring_before: "i \<le> length p \<Longrightarrow> \<exists>s. cstring (p @ 0 # r) i = Some s"
  by (simp add: cstring_def)

text \<open>What the rest \<open>s\<close> of the line behind \<open>pre\<close> contributes, with \<open>n\<close> arguments found before.\<close>

definition splits :: "byte list \<Rightarrow> byte list \<Rightarrow> byte list \<Rightarrow> nat list \<Rightarrow> byte list \<Rightarrow> (nat list \<times> byte list \<times> byte list) option \<Rightarrow> bool" where
  "splits pre s post argv con res \<longleftrightarrow> (\<exists>new s' t. res = Some (argv @ new, pre @ s' @ 0 # post, con @ t) \<and>
     length s' = length s \<and> (s \<noteq> [] \<and> blank (hd s) \<longrightarrow> hd s' = 0) \<and>
     map (cstring (pre @ s' @ 0 # post)) new = map Some (take (10 - length argv) (toks s)) \<and>
     (length argv + length (toks s) < 10 \<longrightarrow> t = []) \<and> ends_line t)"

lemma splitsI:
  assumes "res = Some (argv @ new, pre @ s' @ 0 # post, con @ t)" "length s' = length s"
    "s \<noteq> [] \<Longrightarrow> blank (hd s) \<Longrightarrow> hd s' = 0"
    "map (cstring (pre @ s' @ 0 # post)) new = map Some (take (10 - length argv) (toks s))"
    "length argv + length (toks s) < 10 \<Longrightarrow> t = []" "ends_line t"
  shows "splits pre s post argv con res"
  using assms unfolding splits_def by blast

lemma strip_parts:
  obtains k d where "s = takeWhile blank s @ d" "k = length (takeWhile blank s)" "dropWhile blank s = d"
    "length s = k + length d" "s \<noteq> [] \<Longrightarrow> blank (hd s) \<Longrightarrow> 0 < k"
proof (rule that [OF takeWhile_dropWhile_id [symmetric] refl refl])
  show "length s = length (takeWhile blank s) + length (dropWhile blank s)"
    by (metis length_append takeWhile_dropWhile_id)
qed (cases s, auto)

text \<open>An argument is found, and the rest is split.\<close>

lemma splits_Cons:
  assumes "splits (pre @ replicate k 0 @ q @ w @ e) r post (argv @ [length pre + k + length q]) con res"
    "length argv < 10" "0 \<notin> set w" "toks s = w # toks r" "length s = k + length q + length w + length e + length r"
    "s \<noteq> [] \<Longrightarrow> blank (hd s) \<Longrightarrow> 0 < k"
    "e = [0] \<or> e = [] \<and> (r \<noteq> [] \<longrightarrow> blank (hd r))"
  shows "splits pre s post argv con res"
proof -
  obtain new s' t where R: "res = Some ((argv @ [length pre + k + length q]) @ new, (pre @ replicate k 0 @ q @ w @ e) @ s' @ 0 # post, con @ t)"
    "length s' = length r" "r \<noteq> [] \<and> blank (hd r) \<longrightarrow> hd s' = 0"
    "map (cstring ((pre @ replicate k 0 @ q @ w @ e) @ s' @ 0 # post)) new = map Some (take (10 - (length argv + 1)) (toks r))"
    "length argv + 1 + length (toks r) < 10 \<longrightarrow> t = []" "ends_line t"
    using assms(1) unfolding splits_def by auto
  have "\<exists>z. e @ s' @ 0 # post = 0 # z"
  proof (cases "e = [0]")
    case False
    then show ?thesis using assms(7) R(2,3) by (cases s'; cases r) auto
  qed simp
  then obtain z where z: "e @ s' @ 0 # post = 0 # z" by blast
  have "cstring ((pre @ replicate k 0 @ q) @ w @ 0 # z) (length pre + k + length q) = Some w"
    by (rule cstring_at) (use assms(3) in auto)
  then have c: "cstring (pre @ (replicate k 0 @ q @ w @ e @ s') @ 0 # post) (length pre + k + length q) = Some w"
    using z by simp
  show ?thesis
  proof (rule splitsI)
    show "res = Some (argv @ (length pre + k + length q) # new, pre @ (replicate k 0 @ q @ w @ e @ s') @ 0 # post, con @ t)"
      using R(1) by simp
    show "length (replicate k 0 @ q @ w @ e @ s') = length s" using assms(5) R(2) by simp
    show "hd (replicate k 0 @ q @ w @ e @ s') = 0" if "s \<noteq> []" "blank (hd s)" using assms(6) [OF that] by (cases k) auto
    have "10 - length argv = Suc (10 - (length argv + 1))" using assms(2) by simp
    then show "map (cstring (pre @ (replicate k 0 @ q @ w @ e @ s') @ 0 # post)) ((length pre + k + length q) # new) =
        map Some (take (10 - length argv) (toks s))"
      using c R(4) assms(4) by simp
    show "t = []" if "length argv + length (toks s) < 10" using that R(5) assms(4) by simp
    show "ends_line t" by (rule R(6))
  qed
qed

lemma splits_Nil: "splits pre [] post argv con (Some (argv, pre @ 0 # post, con))"
  by (rule splitsI [where new = "[]" and s' = "[]" and t = "[]"]) (simp_all add: toks.simps)

lemma blank_quote [simp]: "\<not> blank 34"
  by (simp add: blank_def)

lemma strip_split:
  assumes "cmd + pos = length pre" "len = pos + length s" "k = length (takeWhile blank s)" "dropWhile blank s = d"
  shows "strip_loop (pre @ s @ 0 # post) cmd len pos = Some (pos + k, pre @ (replicate k 0 @ d) @ 0 # post)"
  using strip_loop_ok [OF assms(1,2), of 0 post] assms(3,4) by simp

lemma split_quote:
  assumes at_pos: "cmd + pos = length pre" "len = pos + length s" "0 \<notin> set s" "length argv < 10"
      "\<forall>p \<in> set argv. p \<le> length pre + length s"
    and d: "s = takeWhile blank s @ d" "k = length (takeWhile blank s)" "dropWhile blank s = d"
      "length s = k + length d" "s \<noteq> [] \<Longrightarrow> blank (hd s) \<Longrightarrow> 0 < k"
    and head: "d = 34 # r"
    and qr: "quoted r = (q, r')"
    and ih: "\<And>pre pos argv con. cmd + pos = length pre \<Longrightarrow> len = pos + length r' \<Longrightarrow> 0 \<notin> set r' \<Longrightarrow> length argv \<le> 10 \<Longrightarrow>
      \<forall>p \<in> set argv. p \<le> length pre + length r' \<Longrightarrow>
      splits pre r' post argv con (split_loop (pre @ r' @ 0 # post) cmd len pos argv con)"
  shows "splits pre s post argv con (split_loop (pre @ s @ 0 # post) cmd len pos argv con)"
proof -
  let ?b = "pre @ (replicate k 0 @ d) @ 0 # post"
  note step = split_loop.simps [of "pre @ s @ 0 # post" cmd len pos argv con]
  note strip = strip_split [OF at_pos(1,2) d(2,3), of post]
  have nz: "0 \<notin> set d" using at_pos(3) d(1) by (metis Un_iff set_append)
  let ?pre = "pre @ replicate k 0 @ [34]"
  let ?mid = "\<lambda>e. pre @ replicate k 0 @ [34] @ q @ e" and ?argv = "argv @ [length pre + k + length [34 :: byte]]"
  have str: "string_loop (?pre @ r @ 0 # post) cmd len (pos + k + 1) = Some (pos + k + 1 + length q)"
    using string_loop_ok [of cmd "pos + k + 1" ?pre len r 0 post] qr at_pos(1,2) d(4) head by simp
  have tk: "toks s = q # toks r'" using d(3) head qr by (simp add: toks.simps [of s])
  have at: "deref ?b (cmd + (pos + k)) = Some 34"
    using deref_here [of "cmd + (pos + k)" "pre @ replicate k 0" 34 "r @ 0 # post"] at_pos(1) head by simp
  have len: "length argv < 10" "pos + k < len" using at_pos(2,4) d(4) head by simp_all
  from quoted_parts [of r, unfolded qr fst_conv snd_conv] show ?thesis
  proof
    assume r: "q = r \<and> r' = []"
    have "splits pre s post argv con (Some (?argv, ?mid [] @ 0 # post, con))"
      by (rule splits_Cons [OF splits_Nil len(1) _ tk [unfolded r [THEN conjunct2]]])
        (use r d(4,5) nz head in simp_all)
    moreover have "split_loop (pre @ s @ 0 # post) cmd len pos argv con =
        Some (?argv, ?mid [] @ 0 # post, con)"
      using at_pos(1,2) strip at str len r d(4) head by (subst step) (simp add: head)
    ultimately show ?thesis by simp
  next
    assume r: "r = q @ 34 # r'"
    have nzq: "0 \<notin> set q" "0 \<notin> set r'" using nz head r by (metis UnCI set_append set_subset_Cons subsetD list.set_intros(2))+
    have l: "length r = length q + 1 + length r'" using arg_cong [OF r, of length] by simp
    let ?res = "split_loop (?mid [0] @ r' @ 0 # post) cmd len (pos + k + 1 + length q + 1) ?argv con"
    have "splits (?mid [0]) r' post ?argv con ?res"
      by (rule ih)
        (use at_pos(1,2,5) len nzq l d(4) head in auto)
    then have "splits pre s post argv con ?res"
      by (rule splits_Cons [OF _ len(1) nzq(1) tk]) (use l d(4,5) head in simp_all)
    moreover have "split_loop (pre @ s @ 0 # post) cmd len pos argv con = ?res"
    proof -
      have u: "(?b)[cmd + (pos + k + 1 + length q) := 0] = ?mid [0] @ r' @ 0 # post"
      proof -
        have "?b = (?pre @ q) @ 34 # r' @ 0 # post" using head r by (metis append.assoc append_Cons append_Nil)
        moreover have "cmd + (pos + k + 1 + length q) = length (?pre @ q)" using at_pos(1) by simp
        ultimately show ?thesis by (simp only: list_update_length) simp
      qed
      have "?b = ?pre @ r @ 0 # post" using head by simp
      then have str': "string_loop ?b cmd len (pos + k + 1) = Some (pos + k + 1 + length q)" using str by simp
      have "\<not> len \<le> pos + k + 1 + length q" using at_pos(2) d(4) head l by simp
      then show ?thesis using strip at str' len u by (subst step) (simp add: add.assoc at_pos(1) [symmetric])
    qed
    ultimately show ?thesis by simp
  qed
qed

lemma split_word:
  assumes at_pos: "cmd + pos = length pre" "len = pos + length s" "0 \<notin> set s" "length argv < 10"
      "\<forall>p \<in> set argv. p \<le> length pre + length s"
    and d: "s = takeWhile blank s @ d" "k = length (takeWhile blank s)" "dropWhile blank s = d"
      "length s = k + length d" "s \<noteq> [] \<Longrightarrow> blank (hd s) \<Longrightarrow> 0 < k"
    and head: "d = c # r" "c \<noteq> 34"
    and ih: "\<And>pre pos argv con. cmd + pos = length pre \<Longrightarrow> len = pos + length (dropWhile (\<lambda>c. \<not> blank c) d) \<Longrightarrow> 0 \<notin> set (dropWhile (\<lambda>c. \<not> blank c) d) \<Longrightarrow> length argv \<le> 10 \<Longrightarrow>
      \<forall>p \<in> set argv. p \<le> length pre + length (dropWhile (\<lambda>c. \<not> blank c) d) \<Longrightarrow>
      splits pre (dropWhile (\<lambda>c. \<not> blank c) d) post argv con (split_loop (pre @ (dropWhile (\<lambda>c. \<not> blank c) d) @ 0 # post) cmd len pos argv con)"
  shows "splits pre s post argv con (split_loop (pre @ s @ 0 # post) cmd len pos argv con)"
proof -
  let ?b = "pre @ (replicate k 0 @ d) @ 0 # post"
  note step = split_loop.simps [of "pre @ s @ 0 # post" cmd len pos argv con]
  note strip = strip_split [OF at_pos(1,2) d(2,3), of post]
  have nz: "0 \<notin> set d" using at_pos(3) d(1) by (metis Un_iff set_append)
  let ?pre = "pre @ replicate k 0" and ?w = "word d" and ?r = "dropWhile (\<lambda>c. \<not> blank c) d"
  have w: "d = ?w @ ?r" by (simp add: word_def)
  have l: "length d = length ?w + length ?r" using arg_cong [OF w, of length] by simp
  have nzw: "0 \<notin> set ?w" "0 \<notin> set ?r" using nz w by (metis UnCI set_append)+
  have wrd: "word_loop ?b cmd len (pos + k) = Some (pos + k + length ?w)"
    using word_loop_ok [of cmd "pos + k" ?pre len d 0 post] at_pos(1,2) d(4) by simp
  have tk: "toks s = ?w # toks ?r" using d(3) head by (simp add: toks.simps [of s])
  have at: "deref ?b (cmd + (pos + k)) = Some c"
    using deref_here [of "cmd + (pos + k)" ?pre c "r @ 0 # post"] at_pos(1) head(1) by simp
  have len: "length argv < 10" "pos + k < len" using at_pos(2,4) d(4) head by simp_all
  let ?argv = "argv @ [length pre + k + length ([] :: byte list)]"
  have rest: "splits pre s post argv con res" if "splits (pre @ replicate k 0 @ [] @ ?w @ []) ?r post ?argv con res" for res
    by (rule splits_Cons [OF that len(1) nzw(1) tk]) (use l d(4,5) hd_dropWhile [of "\<lambda>c. \<not> blank c" d] in auto)
  show ?thesis
  proof (cases "?r = []")
    case True
    then have wd: "?w = d" using w by (metis append_Nil2)
    have "splits (pre @ replicate k 0 @ [] @ ?w @ []) [] post ?argv con (Some (?argv, (pre @ replicate k 0 @ [] @ ?w @ []) @ 0 # post, con))"
      by (rule splits_Nil)
    then have "splits pre s post argv con (Some (?argv, (pre @ replicate k 0 @ [] @ ?w @ []) @ 0 # post, con))"
      by (intro rest) (simp only: True)
    moreover have "split_loop (pre @ s @ 0 # post) cmd len pos argv con = Some (?argv, (pre @ replicate k 0 @ [] @ ?w @ []) @ 0 # post, con)"
      using at_pos(2) strip at wrd len d(4) head(2) wd by (subst step) (simp add: add.assoc at_pos(1) [symmetric])
    ultimately show ?thesis by simp
  next
    case False
    let ?res = "split_loop ((pre @ replicate k 0 @ [] @ ?w @ []) @ ?r @ 0 # post) cmd len (pos + k + length ?w) ?argv con"
    have "splits (pre @ replicate k 0 @ [] @ ?w @ []) ?r post ?argv con ?res"
    proof (rule ih)
      show "cmd + (pos + k + length ?w) = length (pre @ replicate k 0 @ [] @ ?w @ [])" using at_pos(1) by simp
      show "len = pos + k + length ?w + length ?r" using at_pos(2) d(4) l by simp
      show "\<forall>p \<in> set ?argv. p \<le> length (pre @ replicate k 0 @ [] @ ?w @ []) + length ?r"
        using at_pos(5) d(4) l by (auto simp: trans_le_add1)
    qed (use len nzw in simp_all)
    then have "splits pre s post argv con ?res" by (rule rest)
    moreover have "split_loop (pre @ s @ 0 # post) cmd len pos argv con = ?res"
    proof -
      have w': "?w @ ?r @ z = d @ z" for z using w by (metis append.assoc)
      have "\<not> len \<le> pos + k + length ?w" using at_pos(2) d(4) l False by simp
      then show ?thesis using strip at wrd len head(2) by (subst step) (simp add: add.assoc w' at_pos(1) [symmetric])
    qed
    ultimately show ?thesis by simp
  qed
qed

lemma split_loop_ok:
  assumes "cmd + pos = length pre" "len = pos + length s" "0 \<notin> set s" "length argv \<le> 10"
    "\<forall>p \<in> set argv. p \<le> length pre + length s"
  shows "splits pre s post argv con (split_loop (pre @ s @ 0 # post) cmd len pos argv con)"
  using assms
proof (induction s arbitrary: pre pos argv con rule: toks.induct)
  case (1 s)
  obtain k d where d: "s = takeWhile blank s @ d" "k = length (takeWhile blank s)" "dropWhile blank s = d"
    "length s = k + length d" "s \<noteq> [] \<Longrightarrow> blank (hd s) \<Longrightarrow> 0 < k"
    by (rule strip_parts [of s]) (rule that)
  let ?b = "pre @ (replicate k 0 @ d) @ 0 # post"
  note step = split_loop.simps [of "pre @ s @ 0 # post" cmd len pos argv con]
  note strip = strip_split [OF 1(3,4) d(2,3), of post]
  consider (empty) "s = []" | (full) "s \<noteq> []" "10 \<le> length argv" | (blanks) "s \<noteq> []" "length argv < 10" "d = []"
    | (quote) r where "s \<noteq> []" "length argv < 10" "d = 34 # r"
    | (plain) c r where "s \<noteq> []" "length argv < 10" "d = c # r" "c \<noteq> 34"
    by (metis leI list.exhaust)
  then show ?case
  proof cases
    case empty
    then show ?thesis using 1(4) by (subst step) (simp add: splits_Nil)
  next
    case full
    have "\<forall>p \<in> set argv. cstring ?b p \<noteq> None"
      using cstring_before [of _ "pre @ replicate k 0 @ d" post] 1(7) d(4) by fastforce
    then obtain t where "too_many ?b argv con = Some (con @ t)" "ends_line t" using too_many_ok by blast
    then show ?thesis using full 1(4,6) strip d(4,5)
      by (subst step, intro splitsI [where new = "[]" and s' = "replicate k 0 @ d" and t = t])
        (auto simp: hd_append)
  next
    case blanks
    then have "toks s = []" unfolding toks.simps [of s] d(3) by simp
    with blanks show ?thesis using 1(4) strip d(4,5)
      by (subst step, intro splitsI [where new = "[]" and s' = "replicate k 0 @ d" and t = "[]"])
        auto
  next
    case (quote r)
    obtain q r' where qr: "quoted r = (q, r')" by force
    show ?thesis
      by (rule split_quote [OF 1(3,4,5) quote(2) 1(7) d quote(3) qr])
        (assumption+, rule 1(1) [OF d(3) [unfolded quote(3)] refl, unfolded qr snd_conv], assumption+)
  next
    case (plain c r)
    show ?thesis
      by (rule split_word [OF 1(3,4,5) plain(2) 1(7) d plain(3,4)])
        (assumption+, rule 1(2) [OF d(3) [unfolded plain(3)] plain(4), folded plain(3)], assumption+)
  qed
qed

lemma those_map_Some [simp]: "those (map Some xs) = Some xs"
  by (induction xs) auto

lemma msh_split_ok:
  assumes "0 \<notin> set s"
  obtains argv s' t where "msh_split (pre @ s @ 0 # post) (length pre) (length s) con = Some (argv, pre @ s' @ 0 # post, con @ t)"
    "length s' = length s" "arg_strings (pre @ s' @ 0 # post) argv = Some (take FINSH_ARG_MAX (toks s))"
    "length (toks s) < FINSH_ARG_MAX \<Longrightarrow> t = []" "ends_line t"
proof -
  have "splits pre s post [] con (split_loop (pre @ s @ 0 # post) (length pre) (length s) 0 [] con)"
    by (rule split_loop_ok) (use assms in simp_all)
  then obtain new s' t where r: "split_loop (pre @ s @ 0 # post) (length pre) (length s) 0 [] con = Some (new, pre @ s' @ 0 # post, con @ t)"
    "length s' = length s" "map (cstring (pre @ s' @ 0 # post)) new = map Some (take 10 (toks s))"
    "length (toks s) < 10 \<longrightarrow> t = []" "ends_line t"
    unfolding splits_def by auto
  show thesis
    by (rule that [of new s' t]) (use r in \<open>simp_all add: msh_split_def arg_strings_def\<close>)
qed

text \<open>Ten arguments are not too many, but with a blank behind them the warning is printed.\<close>

lemma ten_arguments_warned:
  "length (toks (ascii ''1 2 3 4 5 6 7 8 9 0 '')) = 10"
  "map_option (\<lambda>(argv, b, con). (length argv, con = [])) (msh_split (ascii ''1 2 3 4 5 6 7 8 9 0 '' @ [0]) 0 20 []) = Some (10, False)"
  by code_simp+

subsection \<open>Looking up and running a command\<close>

lemma strncmp_eq_prefix:
  assumes "0 \<notin> set n" "0 \<notin> set w"
  shows "strncmp_eq (p @ n @ [0]) (length p) (pre @ w @ z) (length pre) (length w) = Some (prefix w n)"
  using assms
proof (induction w arbitrary: n p pre)
  case (Cons c w)
  show ?case
  proof (cases n)
    case Nil
    then show ?thesis using Cons.prems by simp
  next
    case (Cons d n')
    have "strncmp_eq ((p @ [d]) @ n' @ [0]) (length (p @ [d])) ((pre @ [c]) @ w @ z) (length (pre @ [c])) (length w) = Some (prefix w n')"
      by (rule Cons.IH) (use Cons.prems Cons in simp_all)
    then show ?thesis using Cons.prems Cons by auto
  qed
qed simp

lemma strncmp_eq_swap: "strncmp_eq a i b j n = strncmp_eq b j a i n"
  by (induction a i b j n rule: strncmp_eq.induct) (auto simp: deref_def)

definition table_ok :: "finsh_syscall list \<Rightarrow> bool" where
  "table_ok tab \<longleftrightarrow> (\<forall>e \<in> set tab. 0 \<notin> set (sc_name e))"

lemma table_ok_Cons [simp]: "table_ok (e # tab) \<longleftrightarrow> 0 \<notin> set (sc_name e) \<and> table_ok tab"
  by (simp add: table_ok_def)

lemma msh_get_cmd_ok:
  assumes "table_ok tab" "0 \<notin> set w"
  shows "msh_get_cmd tab (pre @ w @ z) (length pre) (length w) = Some (map_option sc_func (find (\<lambda>e. sc_name e = w) tab))"
  using assms(1)
proof (induction tab)
  case (Cons e tab)
  have "strncmp_eq (sc_name e @ [0]) 0 (pre @ w @ z) (length pre) (length w) = Some (prefix w (sc_name e))"
    using strncmp_eq_prefix [of "sc_name e" w "[]"] Cons.prems assms(2) by simp
  moreover have "deref (sc_name e @ [0]) (length w) = Some (if sc_name e = w then 0 else sc_name e ! length w)"
    "sc_name e = w \<or> sc_name e ! length w \<noteq> 0" if "prefix w (sc_name e)"
    using that Cons.prems by (auto simp: deref_def nth_append elim!: prefixE) (metis append_Nil2 in_set_conv_nth
      length_greater_0_conv nth_Cons_0 list.set_intros(1) neq_Nil_conv)
  ultimately show ?case using Cons by (auto simp: prefix_order.eq_iff)
qed simp

lemma trim_loop_ok:
  "trim_loop (pre @ s @ z) (length pre) (length s) = Some (length pre + length (takeWhile blank s), length (dropWhile blank s))"
proof (induction s arbitrary: pre)
  case (Cons c s)
  show ?case using Cons [of "pre @ [c]"] by simp
qed simp

lemma space_loop_ok:
  assumes "0 \<notin> set s"
  shows "space_loop (pre @ s @ 0 # post) (length pre) = Some (length pre + length (takeWhile (\<lambda>c. c \<noteq> 32) s))"
  using assms
proof (induction s arbitrary: pre)
  case Nil
  then show ?case by (subst space_loop.simps) simp
next
  case (Cons c s)
  then show ?case using Cons.IH [of "pre @ [c]"] by (subst space_loop.simps) auto
qed

lemma first_word_cut:
  assumes "0 \<notin> set s"
  shows "cstring ((pre @ s @ 0 # post)[length pre + length (takeWhile (\<lambda>c. c \<noteq> 32) s) := 0]) (length pre) =
    Some (takeWhile (\<lambda>c. c \<noteq> 32) s)"
proof -
  let ?u = "takeWhile (\<lambda>c. c \<noteq> 32) s"
  obtain x y where xy: "dropWhile (\<lambda>c. c \<noteq> 32) s @ 0 # post = x # y" by (cases "dropWhile (\<lambda>c. c \<noteq> 32) s") auto
  have "?u @ dropWhile (\<lambda>c. c \<noteq> 32) s @ 0 # post = s @ 0 # post" by (metis append.assoc takeWhile_dropWhile_id)
  then have "pre @ s @ 0 # post = (pre @ ?u) @ x # y" using xy by simp
  moreover have "((pre @ ?u) @ x # y)[length (pre @ ?u) := 0] = pre @ ?u @ 0 # y" by (simp only: list_update_length) simp
  moreover have "0 \<notin> set ?u" using assms by (auto dest: set_takeWhileD)
  ultimately show ?thesis using cstring_at [of ?u "length pre" pre y] by simp
qed

text \<open>What a line asks for.\<close>

datatype meaning = Nothing | Unknown "byte list" | Call nat "byte list list"

definition meaning_of :: "finsh_syscall list \<Rightarrow> byte list \<Rightarrow> meaning" where
  "meaning_of tab s =
     (case dropWhile blank s of
        [] \<Rightarrow> Nothing
      | c # r \<Rightarrow> (case find (\<lambda>e. sc_name e = word (c # r)) tab of
            None \<Rightarrow> Unknown (takeWhile (\<lambda>c. c \<noteq> 32) (c # r))
          | Some e \<Rightarrow> Call (sc_func e) (take FINSH_ARG_MAX (toks s))))"

fun outcome :: "'w commands \<Rightarrow> meaning \<Rightarrow> byte list \<Rightarrow> 'w \<Rightarrow> int \<times> byte list \<times> 'w" where
  "outcome run Nothing warning w = (0, [], w)"
| "outcome run (Unknown u) warning w = (- 1, console_bytes (u @ ascii '': command not found.'' @ [10]), w)"
| "outcome run (Call f args) warning w = (let (ret, txt, w) = run f args w in (ret, warning @ txt, w))"

lemma word_of_head: "\<not> blank c \<Longrightarrow> word (c # r) \<noteq> []"
  by (simp add: word_def)

lemma toks_stripped: "toks (dropWhile blank s) = toks s"
  by (simp add: toks.simps [of s] toks.simps [of "dropWhile blank s"] dropWhile_idem)

lemma toks_nonempty: "dropWhile blank s \<noteq> [] \<Longrightarrow> toks s \<noteq> []"
  by (auto simp: toks.simps [of s] split: list.splits)

lemma msh_exec_cmd_ok:
  assumes "table_ok tab" "0 \<notin> set d" "d \<noteq> []" "\<not> blank (hd d)"
  obtains b t where "length b = length (pre @ d @ 0 # post)" "length (toks d) < FINSH_ARG_MAX \<Longrightarrow> t = []" "ends_line t"
    "msh_exec_cmd run tab (pre @ d @ 0 # post) (length pre) (length d) con w = Some
      (case find (\<lambda>e. sc_name e = word d) tab of
         None \<Rightarrow> (None, pre @ d @ 0 # post, con, w)
       | Some e \<Rightarrow> (case run (sc_func e) (take FINSH_ARG_MAX (toks d)) w of (ret, txt, w) \<Rightarrow> (Some ret, b, con @ t @ txt, w)))"
proof -
  let ?r = "dropWhile (\<lambda>c. \<not> blank c) d"
  obtain argv s' t where sp: "msh_split (pre @ d @ 0 # post) (length pre) (length d) con = Some (argv, pre @ s' @ 0 # post, con @ t)"
    "length s' = length d" "arg_strings (pre @ s' @ 0 # post) argv = Some (take FINSH_ARG_MAX (toks d))"
    "length (toks d) < FINSH_ARG_MAX \<Longrightarrow> t = []" "ends_line t"
    by (rule msh_split_ok [OF assms(2)]) (rule that)
  have w: "word d @ ?r = d" by (simp add: word_def)
  have nz: "0 \<notin> set (word d)" using assms(2) w by (metis UnCI set_append)
  have "word_loop (pre @ d @ 0 # post) (length pre) (length d) 0 = Some (0 + length (word d))"
    by (rule word_loop_ok) simp_all
  moreover have "msh_get_cmd tab (pre @ word d @ ?r @ 0 # post) (length pre) (length (word d)) =
      Some (map_option sc_func (find (\<lambda>e. sc_name e = word d) tab))"
    by (rule msh_get_cmd_ok [OF assms(1) nz])
  moreover have "word d \<noteq> []" using assms(3,4) by (cases d) (simp_all add: word_of_head)
  moreover have "argv \<noteq> []" using sp(3) toks_nonempty [of d] assms(3,4) by (cases d) (auto simp: arg_strings_def)
  moreover have "word d @ ?r @ z = d @ z" for z using w by (metis append.assoc)
  ultimately have "msh_exec_cmd run tab (pre @ d @ 0 # post) (length pre) (length d) con w = Some
      (case find (\<lambda>e. sc_name e = word d) tab of
         None \<Rightarrow> (None, pre @ d @ 0 # post, con, w)
       | Some e \<Rightarrow> (case run (sc_func e) (take FINSH_ARG_MAX (toks d)) w of (ret, txt, w) \<Rightarrow> (Some ret, pre @ s' @ 0 # post, con @ t @ txt, w)))"
    using sp(1,3) by (simp add: msh_exec_cmd_def split: option.splits prod.splits)
  then show thesis by (intro that [of "pre @ s' @ 0 # post" t]) (use sp(2,4,5) in simp_all)
qed

lemma msh_exec_ok:
  assumes "table_ok tab" "0 \<notin> set s"
  obtains b t where "length b = length (s @ 0 # post)" "length (toks s) < FINSH_ARG_MAX \<Longrightarrow> t = []" "ends_line t"
    "msh_exec run tab (s @ 0 # post) (length s) con w =
       Some (case outcome run (meaning_of tab s) t w of (ret, txt, w) \<Rightarrow> (ret, b, con @ txt, w))"
proof -
  let ?bl = "takeWhile blank s" and ?d = "dropWhile blank s"
  have s: "s @ z = ?bl @ ?d @ z" for z by (simp flip: append.assoc)
  have trim: "trim_loop (s @ 0 # post) 0 (length s) = Some (length ?bl, length ?d)"
    using trim_loop_ok [of "[]" s] by simp
  have nz: "0 \<notin> set ?d" using assms(2) by (meson set_dropWhileD)
  show thesis
  proof (cases ?d)
    case Nil
    then have "meaning_of tab s = Nothing" unfolding meaning_of_def Nil by simp
    then show ?thesis
      by (intro that [of "s @ 0 # post" "[]"]) (use trim Nil in \<open>simp_all add: msh_exec_def\<close>)
  next
    case (Cons c r)
    have nb: "\<not> blank (hd ?d)" using Cons by (metis hd_dropWhile list.distinct(1))
    obtain b t where bt: "length b = length (?bl @ ?d @ 0 # post)" "length (toks ?d) < FINSH_ARG_MAX \<Longrightarrow> t = []" "ends_line t"
      "msh_exec_cmd run tab (?bl @ ?d @ 0 # post) (length ?bl) (length ?d) con w = Some
        (case find (\<lambda>e. sc_name e = word ?d) tab of
           None \<Rightarrow> (None, ?bl @ ?d @ 0 # post, con, w)
         | Some e \<Rightarrow> (case run (sc_func e) (take FINSH_ARG_MAX (toks ?d)) w of (ret, txt, w) \<Rightarrow> (Some ret, b, con @ t @ txt, w)))"
      by (rule msh_exec_cmd_ok [OF assms(1) nz _ nb]) (use Cons in simp, rule that)
    show ?thesis
    proof (cases "find (\<lambda>e. sc_name e = word ?d) tab")
      case None
      let ?u = "takeWhile (\<lambda>c. c \<noteq> 32) ?d"
      have "msh_exec run tab (s @ 0 # post) (length s) con w =
          Some (- 1, (s @ 0 # post)[length ?bl + length ?u := 0], con @ console_bytes (?u @ ascii '': command not found.'' @ [10]), w)"
        using trim bt(4) None Cons space_loop_ok [OF nz, of ?bl post] first_word_cut [OF nz, of ?bl post]
        by (simp add: msh_exec_def s kprintf_texts)
      then show ?thesis
        by (intro that [of "(s @ 0 # post)[length ?bl + length ?u := 0]" "[]"]) (use None Cons in \<open>simp_all add: meaning_of_def\<close>)
    next
      case (Some e)
      have "msh_exec run tab (s @ 0 # post) (length s) con w =
          Some (case run (sc_func e) (take FINSH_ARG_MAX (toks ?d)) w of (ret, txt, w) \<Rightarrow> (ret, b, con @ t @ txt, w))"
        using trim bt(4) Some Cons by (simp add: msh_exec_def s split: prod.splits)
      moreover have "meaning_of tab s = Call (sc_func e) (take FINSH_ARG_MAX (toks s))"
        using Some unfolding meaning_of_def Cons by simp
      moreover have "length b = length (s @ 0 # post)" using bt(1) by (simp only: s)
      ultimately show ?thesis
        by (intro that [of b t]) (use bt(2,3) in \<open>simp_all add: toks_stripped split: prod.splits\<close>)
    qed
  qed
qed

subsection \<open>Completion is the longest common prefix\<close>

definition matches :: "finsh_syscall list \<Rightarrow> byte list \<Rightarrow> byte list list" where
  "matches tab p = filter (prefix p) (map sc_name tab)"

fun common_prefix :: "byte list list \<Rightarrow> byte list" where
  "common_prefix [] = []"
| "common_prefix [x] = x"
| "common_prefix (x # xs) = longest_common_prefix x (common_prefix xs)"

definition completed :: "finsh_syscall list \<Rightarrow> byte list \<Rightarrow> byte list" where
  "completed tab p = (if matches tab p = [] then p else common_prefix (matches tab p))"

lemma prefix_take_iff: "prefix q (take k p) \<longleftrightarrow> prefix q p \<and> length q \<le> k"
proof
  assume q: "prefix q (take k p)"
  then have "prefix q p" using take_is_prefix prefix_order.trans by blast
  moreover have "length q \<le> k" using prefix_length_le [OF q] by simp
  ultimately show "prefix q p \<and> length q \<le> k" ..
qed (auto simp: prefix_def)

lemma prefix_longest_common_prefix: "prefix q (longest_common_prefix x y) \<longleftrightarrow> prefix q x \<and> prefix q y"
  by (meson longest_common_prefix_prefix1 longest_common_prefix_prefix2 longest_common_prefix_max_prefix prefix_order.trans)

lemma str_common_prefix: "prefix q p \<Longrightarrow> length q \<le> str_common p e \<longleftrightarrow> prefix q e"
proof (induction p e arbitrary: q rule: str_common.induct)
  case (1 x xs y ys)
  then show ?case by (cases q) auto
qed (auto simp: prefix_def)

text \<open>The greatest among the lists that are a prefix of all of \<open>S\<close>.\<close>

definition is_common :: "byte list set \<Rightarrow> byte list \<Rightarrow> bool" where
  "is_common S c \<longleftrightarrow> (\<forall>q. prefix q c \<longleftrightarrow> (\<forall>n \<in> S. prefix q n))"

lemma is_common_unique: "is_common S c \<Longrightarrow> is_common S c' \<Longrightarrow> c = c'"
  unfolding is_common_def by (meson prefix_order.antisym prefix_order.refl)

lemma common_prefix_ok: "S \<noteq> [] \<Longrightarrow> is_common (set S) (common_prefix S)"
  by (induction S rule: common_prefix.induct) (simp_all add: is_common_def prefix_longest_common_prefix)

text \<open>What the loop knows of the names \<open>S\<close> it has found.\<close>

definition found :: "byte list list \<Rightarrow> nat \<Rightarrow> byte list option \<Rightarrow> bool" where
  "found S m ptr \<longleftrightarrow> (if S = [] then m = 0 \<and> ptr = None
     else \<exists>p. ptr = Some p \<and> 0 < m \<and> m \<le> length p \<and> is_common (set S) (take m p))"

lemma found_next:
  assumes "found S m ptr" "\<forall>n \<in> set S. prefix pf n" "prefix pf e" "pf \<noteq> []"
  shows "found (S @ [e]) (min (if m = 0 then length e else m) (str_common (if m = 0 then e else the ptr) e))
    (Some (if m = 0 then e else the ptr))"
proof (cases "S = []")
  case True
  have "length q \<le> str_common e e" if "prefix q e" for q using str_common_prefix [OF that] that by simp
  then have s: "length e \<le> str_common e e" by blast
  have "0 < length e" using assms(3,4) by (auto simp: prefix_def)
  then show ?thesis using True assms(1) s by (simp add: found_def is_common_def min_def)
next
  case False
  then obtain p where p: "ptr = Some p" "0 < m" "m \<le> length p" "is_common (set S) (take m p)"
    using assms(1) by (auto simp: found_def)
  let ?m = "min m (str_common p e)"
  have c: "prefix q (take m p) \<longleftrightarrow> (\<forall>n \<in> set S. prefix q n)" for q using p(4) by (simp add: is_common_def)
  then have "prefix pf (take m p)" using assms(2) by blast
  then have "length pf \<le> str_common p e" using assms(3) by (simp add: prefix_take_iff str_common_prefix)
  then have "0 < ?m" using p(2) assms(4) by (cases pf) auto
  moreover have "is_common (set (S @ [e])) (take ?m p)"
    unfolding is_common_def
  proof
    fix q
    show "prefix q (take ?m p) \<longleftrightarrow> (\<forall>n \<in> set (S @ [e]). prefix q n)"
      using c [of q] str_common_prefix [of q p e] by (auto simp: prefix_take_iff)
  qed
  ultimately show ?thesis using p by (simp add: found_def)
qed

definition listing :: "byte list list \<Rightarrow> byte list" where
  "listing ns = concat (map (\<lambda>n. console_bytes (n @ [10])) ns)"

lemma complete_loop_ok:
  assumes "table_ok tab" "0 \<notin> set pf" "pf \<noteq> []" "found S m ptr" "\<forall>n \<in> set S. prefix pf n"
  shows "\<exists>m' ptr'. complete_loop tab (pf @ 0 # post) (length pf) m ptr con = Some (m', ptr', con @ listing (matches tab pf)) \<and>
    found (S @ matches tab pf) m' ptr'"
  using assms
proof (induction tab arbitrary: S m ptr con)
  case Nil
  then show ?case by (simp add: matches_def listing_def)
next
  case (Cons e tab)
  have st: "strncmp_eq (pf @ 0 # post) 0 (sc_name e @ [0]) 0 (length pf) = Some (prefix pf (sc_name e))"
    using strncmp_eq_prefix [of "sc_name e" pf "[]" "[]" "0 # post"] Cons.prems by (subst strncmp_eq_swap) simp
  show ?case
  proof (cases "prefix pf (sc_name e)")
    case True
    let ?p = "if m = 0 then sc_name e else the ptr" and ?l = "if m = 0 then length (sc_name e) else m"
    let ?m = "min ?l (str_common ?p (sc_name e))"
    have f: "found (S @ [sc_name e]) ?m (Some ?p)" by (rule found_next) (use Cons.prems True in auto)
    have "\<forall>n \<in> set (S @ [sc_name e]). prefix pf n" "table_ok tab" using Cons.prems(1,5) True by auto
    from Cons.IH [OF this(2) Cons.prems(2,3) f this(1)]
    obtain m' ptr' where r: "complete_loop tab (pf @ 0 # post) (length pf) ?m (Some ?p) (con @ console_bytes (sc_name e @ [10])) =
        Some (m', ptr', (con @ console_bytes (sc_name e @ [10])) @ listing (matches tab pf))"
      "found ((S @ [sc_name e]) @ matches tab pf) m' ptr'"
      by blast
    have "complete_loop (e # tab) (pf @ 0 # post) (length pf) m ptr con =
        complete_loop tab (pf @ 0 # post) (length pf) ?m (Some ?p) (con @ console_bytes (sc_name e @ [10]))"
      using st True by (simp add: kprintf_texts min_def)
    then show ?thesis using r True by (auto simp: matches_def listing_def)
  next
    case False
    then show ?thesis using Cons.IH [OF _ Cons.prems(2-5)] Cons.prems st by (simp add: matches_def)
  qed
qed

text \<open>The name of a line of the list of commands is clipped to sixteen characters.\<close>

lemma format_s16:
  "format_text (37 # 45 # 49 # 54 # 115 # r) (Arg_Str (Some n) # args) =
     map_option ((@) (take 16 n @ replicate (16 - length (take 16 n)) 32)) (format_text r args)"
proof -
  have "parse_spec (45 # 49 # 54 # 115 # r) args =
      Some (\<lparr>cv_flags = 16, cv_width = 16, cv_precision = - 1, cv_qualifier = 0\<rparr>, 115 # r, args)" for args
    by (simp add: parse_spec_def get_width_def get_precision_def ISDIGIT_def set_bit_eq_or)
  moreover have "bit (16 :: byte) 4" by simp
  ultimately show ?thesis by (subst format_text.simps) (simp add: conv_text_def str_text_def)
qed

lemma format_help:
  "format_text (ascii ''%-16s - %s'' @ [10]) [Arg_Str (Some n), Arg_Str (Some d)] =
     Some (take 16 n @ replicate (16 - length (take 16 n)) 32 @ ascii '' - '' @ d @ [10])"
  by (simp add: ascii_def format_s16 format_s format_literal del: format_text.simps(2))

definition help_text :: "finsh_syscall list \<Rightarrow> byte list" where
  "help_text tab = console_bytes (ascii ''RT-Thread shell commands:'' @ [10]) @
     concat (map (\<lambda>e. console_bytes (take 16 (sc_name e) @ replicate (16 - length (take 16 (sc_name e))) 32 @ ascii '' - '' @
       sc_desc e @ [10])) tab) @ console_bytes [10]"

lemma msh_help_ok: "msh_help tab con = Some (con @ help_text tab)"
proof -
  have "help_loop tab con = Some (con @ concat (map (\<lambda>e. console_bytes (take 16 (sc_name e) @
      replicate (16 - length (take 16 (sc_name e))) 32 @ ascii '' - '' @ sc_desc e @ [10])) tab))" for con
    by (induction tab arbitrary: con) (simp_all add: kprintf_def format_help)
  moreover have "37 \<notin> set (ascii ''RT-Thread shell commands:'' @ [10])" by (simp add: ascii_def)
  ultimately show ?thesis by (simp add: msh_help_def help_text_def kprintf_plain)
qed

lemma completed_prefix: "prefix p (completed tab p)"
proof (cases "matches tab p = []")
  case False
  then have "is_common (set (matches tab p)) (completed tab p)" by (simp add: completed_def common_prefix_ok)
  moreover have "\<forall>n \<in> set (matches tab p). prefix p n" by (auto simp: matches_def)
  ultimately show ?thesis by (simp add: is_common_def)
qed (simp add: completed_def)

lemma completed_chars: "c \<in> set (completed tab p) \<Longrightarrow> c \<in> set p \<or> (\<exists>e \<in> set tab. c \<in> set (sc_name e))"
proof (cases "matches tab p")
  case (Cons n ns)
  assume c: "c \<in> set (completed tab p)"
  have "is_common (set (matches tab p)) (completed tab p)" using Cons common_prefix_ok [of "n # ns"] by (simp add: completed_def)
  then have "prefix (completed tab p) n" using Cons by (simp add: is_common_def) blast
  then have "c \<in> set n" using c set_mono_prefix by blast
  moreover have "n \<in> set (map sc_name tab)" using Cons by (metis filter_is_subset list.set_intros(1) matches_def subsetD)
  ultimately show ?thesis by auto
qed (simp add: completed_def)

lemma completed_nonzero: "table_ok tab \<Longrightarrow> 0 \<notin> set p \<Longrightarrow> 0 \<notin> set (completed tab p)"
  using completed_chars by (fastforce simp: table_ok_def)

lemma msh_auto_complete_ok:
  assumes "table_ok tab" "0 \<notin> set pf" "pf \<noteq> [] \<Longrightarrow> length (completed tab pf) \<le> length (pf @ 0 # post)"
  shows "msh_auto_complete tab (pf @ 0 # post) con =
    (if pf = [] then Some (0 # post, con @ help_text tab)
     else Some (completed tab pf @ drop (length (completed tab pf)) (pf @ 0 # post), con @ listing (matches tab pf)))"
proof (cases pf)
  case Nil
  then show ?thesis by (simp add: msh_auto_complete_def msh_help_ok deref_def)
next
  case (Cons c r)
  then have "pf \<noteq> []" by simp
  obtain m ptr where mp: "complete_loop tab (pf @ 0 # post) (length pf) 0 None con = Some (m, ptr, con @ listing (matches tab pf))"
    "found (matches tab pf) m ptr"
    using complete_loop_ok [OF assms(1,2) \<open>pf \<noteq> []\<close>, of "[]" 0 None post con] by (auto simp: found_def)
  have s: "cstring (pf @ 0 # post) 0 = Some pf" using cstring_at [of pf 0 "[]"] assms(2) by simp
  have d: "deref (pf @ 0 # post) 0 = Some c" "c \<noteq> 0" using Cons assms(2) by (auto simp: deref_def)
  show ?thesis
  proof (cases "matches tab pf = []")
    case True
    then show ?thesis using mp s d \<open>pf \<noteq> []\<close> by (simp add: msh_auto_complete_def found_def completed_def)
  next
    case False
    then obtain p where p: "ptr = Some p" "m \<le> length p" "is_common (set (matches tab pf)) (take m p)"
      using mp(2) by (auto simp: found_def)
    have "completed tab pf = take m p"
      using False is_common_unique [OF common_prefix_ok [OF False] p(3)] by (simp add: completed_def)
    then show ?thesis using mp(1) s d p(1,2) assms(3) \<open>pf \<noteq> []\<close>
      by (simp add: msh_auto_complete_def padded_def)
  qed
qed

end
