(* ===== verification/Shell.thy ===== *)
theory Shell
  imports Msh
begin

text \<open>
  The shell (shell.c): what one key does to the line, the history and the console. It is shown that,
  while a line has less than 80 characters, the shell is an editor of a text with a cursor that runs what
  the entered line asks for; and what goes wrong with a line of 80 characters.
\<close>

subsection \<open>State\<close>

abbreviation (input) FINSH_CMD_SIZE :: nat where "FINSH_CMD_SIZE \<equiv> 80"
abbreviation (input) FINSH_HISTORY_LINES :: nat where "FINSH_HISTORY_LINES \<equiv> 5"

datatype input_stat = WAIT_NORMAL | WAIT_SPEC_KEY | WAIT_FUNC_KEY

record finsh_shell =
  stat :: input_stat
  echo_mode :: bool
  prompt_mode :: bool
  current_history :: nat
  history_count :: nat
  cmd_history :: "byte list list"
  line :: "byte list"
  line_position :: nat
  line_curpos :: nat

text \<open>The shell with the prompt that was set, what the console has got, and the rest of the system.\<close>

record 'w tty = finsh_shell +
  finsh_prompt_custom :: "byte list option"
  con :: "byte list"
  world :: 'w

definition printf :: "byte list \<Rightarrow> arg list \<Rightarrow> 'w tty \<Rightarrow> 'w tty option" where
  "printf fmt args st = map_option (\<lambda>c. st\<lparr>con := c\<rparr>) (kprintf fmt args (con st))"

text \<open>The memory \<open>rt_calloc\<close> gives for the shell is zero.\<close>

definition finsh_zero :: "'w \<Rightarrow> 'w tty" where
  "finsh_zero w = \<lparr>stat = WAIT_NORMAL, echo_mode = False, prompt_mode = False, current_history = 0, history_count = 0,
     cmd_history = replicate FINSH_HISTORY_LINES (replicate FINSH_CMD_SIZE 0), line = replicate (FINSH_CMD_SIZE + 1) 0,
     line_position = 0, line_curpos = 0, finsh_prompt_custom = None, con = [], world = w\<rparr>"

subsection \<open>Modes and the prompt\<close>

text \<open>\<open>mem\<close> says whether the allocation succeeds.\<close>

definition finsh_set_prompt :: "bool \<Rightarrow> byte list option \<Rightarrow> 'w tty \<Rightarrow> int \<times> 'w tty" where
  "finsh_set_prompt mem prompt st = (0, st\<lparr>finsh_prompt_custom := (if mem then prompt else None)\<rparr>)"

definition finsh_get_prompt :: "'w tty \<Rightarrow> byte list" where
  "finsh_get_prompt st =
     (if \<not> prompt_mode st then []
      else case finsh_prompt_custom st of
          Some p \<Rightarrow> take RT_CONSOLEBUF_SIZE p
        | None \<Rightarrow> ascii ''msh '' @ ascii ''>'')"

definition finsh_get_prompt_mode :: "'w tty \<Rightarrow> u32" where
  "finsh_get_prompt_mode st = of_bool (prompt_mode st)"

text \<open>The modes are bit fields of one bit.\<close>

definition finsh_set_prompt_mode :: "u32 \<Rightarrow> 'w tty \<Rightarrow> 'w tty" where
  "finsh_set_prompt_mode m st = st\<lparr>prompt_mode := bit m 0\<rparr>"

definition finsh_set_echo :: "u32 \<Rightarrow> 'w tty \<Rightarrow> 'w tty" where
  "finsh_set_echo e st = st\<lparr>echo_mode := bit e 0\<rparr>"

definition finsh_get_echo :: "'w tty \<Rightarrow> u32" where
  "finsh_get_echo st = of_bool (echo_mode st)"

subsection \<open>History\<close>

definition shell_handle_history :: "'w tty \<Rightarrow> 'w tty option" where
  "shell_handle_history st = do {
     st \<leftarrow> printf [27, 91, 50, 75, 13] [] st;
     s \<leftarrow> cstring (line st) 0;
     printf (ascii ''%s%s'') [Arg_Str (Some (finsh_get_prompt st)), Arg_Str (Some s)] st }"

definition history_row :: "nat \<Rightarrow> 'w tty \<Rightarrow> byte list option" where
  "history_row i st = (if i < length (cmd_history st) then Some (cmd_history st ! i) else None)"

text \<open>A row is zeroed, and the line is copied into it up to \<open>line_position\<close>.\<close>

definition fill_row :: "nat \<Rightarrow> 'w tty \<Rightarrow> 'w tty option" where
  "fill_row i st = do {
     _ \<leftarrow> history_row i st;
     src \<leftarrow> mem_read (line st) 0 (line_position st);
     row \<leftarrow> mem_write (replicate FINSH_CMD_SIZE 0) 0 src;
     Some (st\<lparr>cmd_history := (cmd_history st)[i := row]\<rparr>) }"

definition move_history :: "'w tty \<Rightarrow> 'w tty" where
  "move_history st = st\<lparr>cmd_history := foldl (\<lambda>h i. h[i := h ! (i + 1)]) (cmd_history st) [0..<FINSH_HISTORY_LINES - 1]\<rparr>"

definition shell_push_history :: "'w tty \<Rightarrow> 'w tty option" where
  "shell_push_history st = do {
     st \<leftarrow>
       (if line_position st \<noteq> 0 then
          (if history_count st \<ge> FINSH_HISTORY_LINES then do {
             last \<leftarrow> history_row (FINSH_HISTORY_LINES - 1) st;
             if last \<noteq> take FINSH_CMD_SIZE (line st) then do {
               st \<leftarrow> fill_row (FINSH_HISTORY_LINES - 1) (move_history st);
               Some (st\<lparr>history_count := FINSH_HISTORY_LINES\<rparr>) }
             else Some st }
           else do {
             differs \<leftarrow> (if history_count st = 0 then Some True
                else do { last \<leftarrow> history_row (history_count st - 1) st; Some (last \<noteq> take FINSH_CMD_SIZE (line st)) });
             if differs then do {
               st \<leftarrow> fill_row (history_count st) (st\<lparr>current_history := history_count st\<rparr>);
               Some (st\<lparr>history_count := history_count st + 1\<rparr>) }
             else Some st })
        else Some st);
     Some (st\<lparr>current_history := history_count st\<rparr>) }"

text \<open>The position of a line is the length of the string in it.\<close>

definition set_position :: "'w tty \<Rightarrow> 'w tty option" where
  "set_position st = do {
     s \<leftarrow> cstring (line st) 0;
     Some (st\<lparr>line_position := length s mod 2 ^ 16, line_curpos := length s mod 2 ^ 16\<rparr>) }"

definition recall :: "'w tty \<Rightarrow> 'w tty option" where
  "recall st = do {
     row \<leftarrow> history_row (current_history st) st;
     l \<leftarrow> mem_write (line st) 0 row;
     st \<leftarrow> set_position (st\<lparr>line := l\<rparr>);
     shell_handle_history st }"

subsection \<open>Keys\<close>

fun backs :: "nat \<Rightarrow> 'w tty \<Rightarrow> 'w tty option" where
  "backs 0 st = Some st"
| "backs (Suc n) st = do { st \<leftarrow> printf [8] [] st; backs n st }"

definition up_key :: "'w tty \<Rightarrow> 'w tty option" where
  "up_key st =
     (if current_history st > 0 then recall (st\<lparr>current_history := current_history st - 1\<rparr>)
      else Some (st\<lparr>current_history := 0\<rparr>))"

text \<open>The comparison is one of integers: without a history the bound is -1.\<close>

definition down_key :: "'w tty \<Rightarrow> 'w tty option" where
  "down_key st =
     (if int (current_history st) < int (history_count st) - 1 then recall (st\<lparr>current_history := current_history st + 1\<rparr>)
      else if history_count st \<noteq> 0 then recall (st\<lparr>current_history := history_count st - 1\<rparr>)
      else Some st)"

definition left_key :: "'w tty \<Rightarrow> 'w tty option" where
  "left_key st =
     (if line_curpos st \<noteq> 0 then do { st \<leftarrow> printf [8] [] st; Some (st\<lparr>line_curpos := line_curpos st - 1\<rparr>) }
      else Some st)"

definition right_key :: "'w tty \<Rightarrow> 'w tty option" where
  "right_key st =
     (if line_curpos st < line_position st then do {
        c \<leftarrow> deref (line st) (line_curpos st);
        st \<leftarrow> printf (ascii ''%c'') [Arg_Int (ucast c)] st;
        Some (st\<lparr>line_curpos := line_curpos st + 1\<rparr>) }
      else Some st)"

definition shell_auto_complete :: "finsh_syscall list \<Rightarrow> 'w tty \<Rightarrow> 'w tty option" where
  "shell_auto_complete tab st = do {
     st \<leftarrow> printf [10] [] st;
     (l, c) \<leftarrow> msh_auto_complete tab (line st) (con st);
     s \<leftarrow> cstring l 0;
     printf (ascii ''%s%s'') [Arg_Str (Some (finsh_get_prompt st)), Arg_Str (Some s)] (st\<lparr>line := l, con := c\<rparr>) }"

definition tab_key :: "finsh_syscall list \<Rightarrow> 'w tty \<Rightarrow> 'w tty option" where
  "tab_key tab st = do {
     st \<leftarrow> backs (line_curpos st) st;
     st \<leftarrow> shell_auto_complete tab st;
     set_position st }"

definition backspace_key :: "'w tty \<Rightarrow> 'w tty option" where
  "backspace_key st =
     (if line_curpos st = 0 then Some st
      else do {
        let st = st\<lparr>line_position := (line_position st + 2 ^ 16 - 1) mod 2 ^ 16, line_curpos := line_curpos st - 1\<rparr>;
        if line_position st > line_curpos st then do {
          src \<leftarrow> mem_read (line st) (line_curpos st + 1) (line_position st - line_curpos st);
          l \<leftarrow> mem_write (line st) (line_curpos st) src;
          l \<leftarrow> mem_write l (line_position st) [0];
          s \<leftarrow> cstring l (line_curpos st);
          st \<leftarrow> printf ([8] @ ascii ''%s  '' @ [8]) [Arg_Str (Some s)] (st\<lparr>line := l\<rparr>);
          backs (line_position st + 1 - line_curpos st) st }
        else do {
          st \<leftarrow> printf [8, 32, 8] [] st;
          l \<leftarrow> mem_write (line st) (line_position st) [0];
          Some (st\<lparr>line := l\<rparr>) } })"

definition enter_key :: "'w commands \<Rightarrow> finsh_syscall list \<Rightarrow> 'w tty \<Rightarrow> 'w tty option" where
  "enter_key run tab st = do {
     st \<leftarrow> shell_push_history st;
     st \<leftarrow> (if echo_mode st then printf [10] [] st else Some st);
     (_, l, c, w) \<leftarrow> msh_exec run tab (line st) (line_position st) (con st) (world st);
     let st = st\<lparr>con := c, world := w\<rparr>;
     st \<leftarrow> printf (finsh_get_prompt st) [] st;
     Some (st\<lparr>line := replicate (length l) 0, line_position := 0, line_curpos := 0\<rparr>) }"

definition char_key :: "byte \<Rightarrow> 'w tty \<Rightarrow> 'w tty option" where
  "char_key ch st = do {
     let st = (if line_position st \<ge> FINSH_CMD_SIZE then st\<lparr>line_position := 0\<rparr> else st);
     st \<leftarrow>
       (if line_curpos st < line_position st then do {
          src \<leftarrow> mem_read (line st) (line_curpos st) (line_position st - line_curpos st);
          l \<leftarrow> mem_write (line st) (line_curpos st + 1) src;
          l \<leftarrow> mem_write l (line_curpos st) [ch];
          let st = st\<lparr>line := l\<rparr>;
          st \<leftarrow> (if echo_mode st then do { s \<leftarrow> cstring l (line_curpos st); printf (ascii ''%s'') [Arg_Str (Some s)] st } else Some st);
          backs (line_position st - line_curpos st) st }
        else do {
          l \<leftarrow> mem_write (line st) (line_position st) [ch];
          let st = st\<lparr>line := l\<rparr>;
          if echo_mode st then printf (ascii ''%c'') [Arg_Int (ucast ch)] st else Some st });
     let st = st\<lparr>line_position := (line_position st + 1) mod 2 ^ 16, line_curpos := (line_curpos st + 1) mod 2 ^ 16\<rparr>;
     Some (if line_position st \<ge> FINSH_CMD_SIZE then st\<lparr>line_position := 0, line_curpos := 0\<rparr> else st) }"

definition plain_key :: "'w commands \<Rightarrow> finsh_syscall list \<Rightarrow> byte \<Rightarrow> 'w tty \<Rightarrow> 'w tty option" where
  "plain_key run tab ch st =
     (if ch = 0 \<or> ch = 0xFF then Some st
      else if ch = 9 then tab_key tab st
      else if ch = 0x7f \<or> ch = 8 then backspace_key st
      else if ch = 13 \<or> ch = 10 then enter_key run tab st
      else char_key ch st)"

text \<open>One round of the loop of \<open>finsh_thread_entry\<close>, for the character \<open>finsh_getchar\<close> returned.\<close>

definition shell_key :: "'w commands \<Rightarrow> finsh_syscall list \<Rightarrow> byte \<Rightarrow> 'w tty \<Rightarrow> 'w tty option" where
  "shell_key run tab ch st =
     (if ch = 0x1b then Some (st\<lparr>stat := WAIT_SPEC_KEY\<rparr>)
      else if stat st = WAIT_SPEC_KEY then
        (if ch = 0x5b then Some (st\<lparr>stat := WAIT_FUNC_KEY\<rparr>)
         else plain_key run tab ch (st\<lparr>stat := WAIT_NORMAL\<rparr>))
      else if stat st = WAIT_FUNC_KEY then
        (let st = st\<lparr>stat := WAIT_NORMAL\<rparr> in
         if ch = 0x41 then up_key st
         else if ch = 0x42 then down_key st
         else if ch = 0x44 then left_key st
         else if ch = 0x43 then right_key st
         else plain_key run tab ch st)
      else plain_key run tab ch st)"

text \<open>
  The thread before its loop, without the choice of its device, which \<open>Tshell\<close> adds
  (\<open>finsh_thread_open\<close>), and the loop over the characters it gets.
\<close>

definition finsh_thread_start :: "'w tty \<Rightarrow> 'w tty option" where
  "finsh_thread_start st = (let st = st\<lparr>echo_mode := True\<rparr> in printf (finsh_get_prompt st) [] st)"

fun finsh_thread_loop :: "'w commands \<Rightarrow> finsh_syscall list \<Rightarrow> byte list \<Rightarrow> 'w tty \<Rightarrow> 'w tty option" where
  "finsh_thread_loop run tab [] st = Some st"
| "finsh_thread_loop run tab (ch # chs) st = do { st \<leftarrow> shell_key run tab ch st; finsh_thread_loop run tab chs st }"

end
