(* ===== verification/Editor.thy ===== *)
theory Editor
  imports Shell
begin

text \<open>
  What the shell promises: a text with a cursor, a history of at most five texts, and the effect of the
  entered lines on the rest of the system. The keys of \<open>Shell\<close> implement this editor as long as the text
  has less than 80 characters.
\<close>

subsection \<open>The editor\<close>

record 'w editor =
  left :: "byte list"
  right :: "byte list"
  past :: "byte list list"
  at :: nat
  mode :: input_stat
  rest :: 'w

definition text_of :: "'w editor \<Rightarrow> byte list" where
  "text_of ed = left ed @ right ed"

lemma text_of_simps [simp]:
  "text_of (ed\<lparr>past := p\<rparr>) = text_of ed" "text_of (ed\<lparr>at := i\<rparr>) = text_of ed" "text_of (ed\<lparr>rest := w\<rparr>) = text_of ed"
  "text_of (ed\<lparr>mode := m\<rparr>) = text_of ed" "text_of (ed\<lparr>right := r\<rparr>) = left ed @ r" "text_of (ed\<lparr>left := l\<rparr>) = l @ right ed"
  by (simp_all add: text_of_def)

definition set_text :: "byte list \<Rightarrow> 'w editor \<Rightarrow> 'w editor" where
  "set_text t ed = ed\<lparr>left := t, right := []\<rparr>"

definition remember :: "byte list \<Rightarrow> byte list list \<Rightarrow> byte list list" where
  "remember t p = (if t = [] \<or> p \<noteq> [] \<and> last p = t then p else drop (length p - 4) p @ [t])"

definition go_to :: "nat \<Rightarrow> 'w editor \<Rightarrow> 'w editor" where
  "go_to i ed = set_text (past ed ! i) (ed\<lparr>at := i\<rparr>)"

definition ed_up :: "'w editor \<Rightarrow> 'w editor" where
  "ed_up ed = (if at ed = 0 then ed else go_to (at ed - 1) ed)"

definition ed_down :: "'w editor \<Rightarrow> 'w editor" where
  "ed_down ed = (if past ed = [] then ed else go_to (min (at ed + 1) (length (past ed) - 1)) ed)"

definition ed_left :: "'w editor \<Rightarrow> 'w editor" where
  "ed_left ed = (if left ed = [] then ed else ed\<lparr>left := butlast (left ed), right := last (left ed) # right ed\<rparr>)"

definition ed_right :: "'w editor \<Rightarrow> 'w editor" where
  "ed_right ed = (case right ed of [] \<Rightarrow> ed | c # r \<Rightarrow> ed\<lparr>left := left ed @ [c], right := r\<rparr>)"

definition ed_tab :: "finsh_syscall list \<Rightarrow> 'w editor \<Rightarrow> 'w editor" where
  "ed_tab tab ed = set_text (if text_of ed = [] then [] else completed tab (text_of ed)) ed"

definition ed_backspace :: "'w editor \<Rightarrow> 'w editor" where
  "ed_backspace ed = ed\<lparr>left := butlast (left ed)\<rparr>"

definition ed_enter :: "'w commands \<Rightarrow> finsh_syscall list \<Rightarrow> 'w editor \<Rightarrow> 'w editor" where
  "ed_enter run tab ed =
     (let p = remember (text_of ed) (past ed); (_, _, w) = outcome run (meaning_of tab (text_of ed)) [] (rest ed)
      in ed\<lparr>left := [], right := [], past := p, at := length p, rest := w\<rparr>)"

definition ed_plain :: "'w commands \<Rightarrow> finsh_syscall list \<Rightarrow> byte \<Rightarrow> 'w editor \<Rightarrow> 'w editor" where
  "ed_plain run tab ch ed =
     (if ch = 0 \<or> ch = 0xFF then ed
      else if ch = 9 then ed_tab tab ed
      else if ch = 0x7f \<or> ch = 8 then ed_backspace ed
      else if ch = 13 \<or> ch = 10 then ed_enter run tab ed
      else ed\<lparr>left := left ed @ [ch]\<rparr>)"

definition ed_key :: "'w commands \<Rightarrow> finsh_syscall list \<Rightarrow> byte \<Rightarrow> 'w editor \<Rightarrow> 'w editor" where
  "ed_key run tab ch ed =
     (if ch = 0x1b then ed\<lparr>mode := WAIT_SPEC_KEY\<rparr>
      else if mode ed = WAIT_SPEC_KEY then
        (if ch = 0x5b then ed\<lparr>mode := WAIT_FUNC_KEY\<rparr> else ed_plain run tab ch (ed\<lparr>mode := WAIT_NORMAL\<rparr>))
      else if mode ed = WAIT_FUNC_KEY then
        (let ed = ed\<lparr>mode := WAIT_NORMAL\<rparr> in
         if ch = 0x41 then ed_up ed else if ch = 0x42 then ed_down ed
         else if ch = 0x44 then ed_left ed else if ch = 0x43 then ed_right ed
         else ed_plain run tab ch ed)
      else ed_plain run tab ch ed)"

fun ed_run :: "'w commands \<Rightarrow> finsh_syscall list \<Rightarrow> byte list \<Rightarrow> 'w editor \<Rightarrow> 'w editor" where
  "ed_run run tab [] ed = ed"
| "ed_run run tab (ch # chs) ed = ed_run run tab chs (ed_key run tab ch ed)"

text \<open>The text stays short.\<close>

fun fits :: "'w commands \<Rightarrow> finsh_syscall list \<Rightarrow> byte list \<Rightarrow> 'w editor \<Rightarrow> bool" where
  "fits run tab [] ed \<longleftrightarrow> True"
| "fits run tab (ch # chs) ed \<longleftrightarrow>
     length (text_of (ed_key run tab ch ed)) < FINSH_CMD_SIZE \<and> fits run tab chs (ed_key run tab ch ed)"

subsection \<open>What the shell stores\<close>

definition zpad :: "nat \<Rightarrow> byte list \<Rightarrow> byte list" where
  "zpad n t = t @ replicate (n - length t) 0"

lemma length_zpad [simp]: "length t \<le> n \<Longrightarrow> length (zpad n t) = n"
  by (simp add: zpad_def)

definition line_text :: "byte list \<Rightarrow> bool" where
  "line_text t \<longleftrightarrow> length t < FINSH_CMD_SIZE \<and> 0 \<notin> set t"

definition rows :: "byte list list \<Rightarrow> byte list list" where
  "rows p = map (zpad FINSH_CMD_SIZE) p @ replicate (FINSH_HISTORY_LINES - length p) (replicate FINSH_CMD_SIZE 0)"

definition holds_line :: "'w tty \<Rightarrow> 'w editor \<Rightarrow> bool" where
  "holds_line st ed \<longleftrightarrow> line_text (text_of ed) \<and> line st = zpad (FINSH_CMD_SIZE + 1) (text_of ed) \<and>
     line_position st = length (text_of ed) \<and> line_curpos st = length (left ed)"

definition holds_history :: "'w tty \<Rightarrow> 'w editor \<Rightarrow> bool" where
  "holds_history st ed \<longleftrightarrow> length (past ed) \<le> FINSH_HISTORY_LINES \<and> list_all line_text (past ed) \<and>
     cmd_history st = rows (past ed) \<and> history_count st = length (past ed) \<and> current_history st = at ed \<and>
     at ed \<le> length (past ed)"

definition shell_holds :: "'w tty \<Rightarrow> 'w editor \<Rightarrow> bool" where
  "shell_holds st ed \<longleftrightarrow> holds_line st ed \<and> holds_history st ed \<and> stat st = mode ed \<and> world st = rest ed \<and>
     37 \<notin> set (finsh_get_prompt st)"

subsection \<open>Console\<close>

definition say :: "byte list \<Rightarrow> 'w tty \<Rightarrow> 'w tty" where
  "say t st = st\<lparr>con := con st @ t\<rparr>"

lemma printf_plain: "37 \<notin> set t \<Longrightarrow> printf t args st = Some (say (console_bytes t) st)"
  by (simp add: printf_def kprintf_plain say_def)

lemma printf_bs: "printf [8] [] st = Some (say [8] st)"
  by (simp add: printf_plain console_bytes_def)

lemma backs_ok: "backs n st = Some (say (replicate n 8) st)"
proof (induction n arbitrary: st)
  case 0
  then show ?case by (simp add: say_def)
next
  case (Suc n)
  then show ?case by (simp add: printf_bs) (simp add: say_def)
qed

lemma printf_texts:
  "printf (ascii ''%s%s'') [Arg_Str (Some a), Arg_Str (Some b)] st = Some (say (console_bytes (a @ b)) st)"
  "printf (ascii ''%s'') [Arg_Str (Some a)] st = Some (say (console_bytes a) st)"
  "printf (ascii ''%c'') [Arg_Int n] st = Some (say (console_bytes [ucast n]) st)"
  "printf (8 # ascii ''%s  '' @ [8]) [Arg_Str (Some a)] st = Some (say (console_bytes (8 # a @ [32, 32, 8])) st)"
  by (simp_all add: printf_def kprintf_def ascii_def format_s format_c format_literal say_def del: format_text.simps(2))

lemma printf_char: "printf (ascii ''%c'') [Arg_Int (ucast c)] st = Some (say (console_bytes [c]) st)" for c :: byte
proof -
  have "ucast (ucast c :: u32) = c" by (rule ucast_up_ucast_id) (simp add: is_up)
  then show ?thesis by (simp add: printf_texts)
qed

lemma say_simps [simp]:
  "stat (say t st) = stat st" "echo_mode (say t st) = echo_mode st" "prompt_mode (say t st) = prompt_mode st"
  "current_history (say t st) = current_history st" "history_count (say t st) = history_count st"
  "cmd_history (say t st) = cmd_history st" "line (say t st) = line st" "line_position (say t st) = line_position st"
  "line_curpos (say t st) = line_curpos st" "finsh_prompt_custom (say t st) = finsh_prompt_custom st"
  "con (say t st) = con st @ t" "world (say t st) = world st" "finsh_get_prompt (say t st) = finsh_get_prompt st"
  "say u (say t st) = say (t @ u) st" "say [] st = st"
  by (simp_all add: say_def finsh_get_prompt_def)

lemma prompt_simps [simp]:
  "finsh_get_prompt (st\<lparr>con := c\<rparr>) = finsh_get_prompt st" "finsh_get_prompt (st\<lparr>line := l\<rparr>) = finsh_get_prompt st"
  "finsh_get_prompt (st\<lparr>line_position := n\<rparr>) = finsh_get_prompt st"
  "finsh_get_prompt (st\<lparr>line_curpos := n\<rparr>) = finsh_get_prompt st"
  "finsh_get_prompt (st\<lparr>stat := s\<rparr>) = finsh_get_prompt st" "finsh_get_prompt (st\<lparr>world := w\<rparr>) = finsh_get_prompt st"
  "finsh_get_prompt (st\<lparr>echo_mode := e\<rparr>) = finsh_get_prompt st"
  "finsh_get_prompt (st\<lparr>current_history := n\<rparr>) = finsh_get_prompt st"
  "finsh_get_prompt (st\<lparr>history_count := n\<rparr>) = finsh_get_prompt st"
  "finsh_get_prompt (st\<lparr>cmd_history := h\<rparr>) = finsh_get_prompt st"
  by (simp_all add: finsh_get_prompt_def)

subsection \<open>Moving a part of the line\<close>

lemma read_at: "i = length a \<Longrightarrow> n = length m \<Longrightarrow> mem_read (a @ m @ z) i n = Some m"
  by simp

lemma write_at: "i = length a \<Longrightarrow> length src = length m \<Longrightarrow> mem_write (a @ m @ z) i src = Some (a @ src @ z)"
  by simp

lemma open_gap:
  assumes "0 < k"
  shows "\<exists>b. mem_write (l @ r @ replicate k 0) (length l + 1) r = Some b \<and>
    mem_write b (length l) [ch] = Some (l @ [ch] @ r @ replicate (k - 1) 0)"
proof -
  obtain j where k: "k = Suc j" using assms by (cases k) auto
  obtain x m where xm: "r @ replicate k 0 = x # m @ replicate j 0" "length m = length r"
  proof (cases r)
    case Nil
    then show thesis by (intro that [of 0 "[]"]) (simp_all add: k)
  next
    case (Cons y r')
    then show thesis by (intro that [of y "r' @ [0]"]) (simp_all add: k)
  qed
  have "mem_write ((l @ [x]) @ m @ replicate j 0) (length l + 1) r = Some ((l @ [x]) @ r @ replicate j 0)"
    by (rule write_at) (use xm(2) in simp_all)
  moreover have "mem_write (l @ [x] @ r @ replicate j 0) (length l) [ch] = Some (l @ [ch] @ r @ replicate j 0)"
    by (rule write_at) simp_all
  ultimately show ?thesis using xm(1) k by auto
qed

lemma close_gap:
  "\<exists>b. mem_write (l @ [c] @ r @ z) (length l) r = Some b \<and> mem_write b (length l + length r) [0] = Some (l @ r @ [0] @ z)"
proof -
  obtain m x where mx: "[c] @ r = m @ [x]" "length m = length r" by (metis append_Cons append_Nil append_butlast_last_id length_append_singleton length_Cons list.distinct(1) nat.inject)
  have "mem_write (l @ m @ [x] @ z) (length l) r = Some (l @ r @ [x] @ z)" by (rule write_at) (use mx(2) in simp_all)
  moreover have "mem_write ((l @ r) @ [x] @ z) (length l + length r) [0] = Some ((l @ r) @ [0] @ z)" by (rule write_at) simp_all
  moreover have "l @ [c] @ r @ z = l @ m @ [x] @ z" using mx(1) by (metis append.assoc)
  ultimately show ?thesis by auto
qed

lemma zpad_string: "0 \<notin> set t \<Longrightarrow> length t < n \<Longrightarrow> cstring (zpad n (a @ t)) (length a) = Some t" if "length (a @ t) < n" for a t
  using that cstring_at [of t "length a" a "replicate (n - length (a @ t) - 1) 0"]
  by (simp add: zpad_def) (metis Suc_diff_Suc diff_diff_left replicate_Suc)

subsection \<open>What each key does\<close>

lemma holds_lineD:
  assumes "holds_line st ed"
  shows "line st = left ed @ right ed @ replicate (81 - length (text_of ed)) 0" "length (left ed) + length (right ed) < 80"
    "0 \<notin> set (left ed)" "0 \<notin> set (right ed)" "line_position st = length (left ed) + length (right ed)"
    "line_curpos st = length (left ed)"
  using assms by (auto simp: holds_line_def line_text_def text_of_def zpad_def)

text \<open>What is shown of a typed character, with echo.\<close>

definition echoed :: "byte \<Rightarrow> byte list \<Rightarrow> bool \<Rightarrow> byte list" where
  "echoed ch r echo = (if echo then console_bytes (ch # r) else []) @ replicate (length r) 8"

lemma char_key_ok:
  assumes "holds_line st ed" "ch \<noteq> 0" "length (text_of ed) < 79"
  shows "char_key ch st = Some (say (echoed ch (right ed) (echo_mode st))
    (st\<lparr>line := zpad 81 (left ed @ [ch] @ right ed), line_position := length (text_of ed) + 1, line_curpos := length (left ed) + 1\<rparr>))"
proof -
  note L = holds_lineD [OF assms(1)]
  let ?l = "left ed" and ?r = "right ed" and ?k = "81 - length (text_of ed)"
  have k: "0 < ?k" and len: "length ?l + length ?r < 79" using assms(3) by (simp_all add: text_of_def)
  have z: "?l @ [ch] @ ?r @ replicate (?k - 1) 0 = zpad 81 (?l @ [ch] @ ?r)"
    by (simp add: zpad_def text_of_def)
  obtain b where b: "mem_write (line st) (length ?l + 1) ?r = Some b" "mem_write b (length ?l) [ch] = Some (zpad 81 (?l @ [ch] @ ?r))"
    using open_gap [OF k, of ?l ?r ch] L(1) z by auto
  have rd: "mem_read (line st) (length ?l) (length ?r) = Some ?r" unfolding L(1) by (rule read_at) simp_all
  have s: "cstring (zpad 81 (?l @ [ch] @ ?r)) (length ?l) = Some (ch # ?r)"
    using zpad_string [of ?l "[ch] @ ?r" 81] L(4) assms(2) len by simp
  show ?thesis
  proof (cases "?r = []")
    case True
    then have "mem_write (line st) (length ?l) [ch] = Some (zpad 81 (?l @ [ch] @ ?r))"
      using b by (auto simp: mem_write_def split: if_splits)
    then show ?thesis using True L(5,6) len
      by (simp add: char_key_def echoed_def printf_char text_of_def say_def)
  next
    case False
    then show ?thesis using rd b s L(5,6) len
      by (simp add: char_key_def echoed_def printf_texts text_of_def backs_ok say_def)
  qed
qed

lemma holds_line_text: "holds_line st ed \<Longrightarrow> cstring (line st) 0 = Some (text_of ed)"
  using zpad_string [of "[]" "text_of ed" 81] by (simp add: holds_line_def line_text_def)

lemma snoc_cases: "l \<noteq> [] \<Longrightarrow> \<exists>l' c. l = l' @ [c]"
  by (metis append_butlast_last_id)

text \<open>What is shown of a backspace.\<close>

definition rubbed :: "byte list \<Rightarrow> byte list" where
  "rubbed r = (if r = [] then console_bytes [8, 32, 8]
     else console_bytes (8 # r @ [32, 32, 8]) @ replicate (length r + 1) 8)"

lemma backspace_key_ok:
  assumes "holds_line st ed"
  shows "backspace_key st = Some (if left ed = [] then st else say (rubbed (right ed))
    (st\<lparr>line := zpad 81 (butlast (left ed) @ right ed), line_position := length (text_of ed) - 1, line_curpos := length (left ed) - 1\<rparr>))"
proof (cases "left ed = []")
  case True
  then show ?thesis using assms by (simp add: backspace_key_def holds_line_def)
next
  case False
  then obtain l c where lc: "left ed = l @ [c]" using snoc_cases by blast
  note L = holds_lineD [OF assms]
  let ?r = "right ed" and ?k = "81 - length (text_of ed)"
  have len: "length l + length ?r < 79" using L(2) lc by simp
  have z: "l @ ?r @ [0] @ replicate ?k 0 = zpad 81 (l @ ?r)"
  proof -
    have "81 - length (l @ ?r) = Suc ?k" using len lc by (simp add: text_of_def)
    then show ?thesis by (simp add: zpad_def)
  qed
  have line: "line st = l @ [c] @ ?r @ replicate ?k 0" using L(1) lc by simp
  obtain b where b: "mem_write (line st) (length l) ?r = Some b" "mem_write b (length l + length ?r) [0] = Some (zpad 81 (l @ ?r))"
    using close_gap [of l c ?r "replicate ?k 0"] line z by auto
  have "line st = (l @ [c]) @ ?r @ replicate ?k 0" using line by simp
  then have rd: "mem_read (line st) (length l + 1) (length ?r) = Some ?r" by (simp only:) (rule read_at, simp_all)
  have pos: "(line_position st + 65535) mod 65536 = length l + length ?r" using L(5) lc len by simp
  show ?thesis
  proof (cases "?r = []")
    case True
    then have "mem_write (line st) (length l) [0] = Some (zpad 81 l)"
      using b by (auto simp: mem_write_def split: if_splits)
    then show ?thesis using True L(5,6) len lc pos
      by (simp add: backspace_key_def rubbed_def printf_plain text_of_def say_def)
  next
    case False
    have s: "cstring (zpad 81 (l @ ?r)) (length l) = Some ?r" using zpad_string [of l ?r 81] L(4) len by simp
    show ?thesis using False rd b s L(5,6) len lc pos
      by (simp add: backspace_key_def rubbed_def printf_texts text_of_def backs_ok say_def)
  qed
qed

lemma left_key_ok:
  assumes "holds_line st ed"
  shows "left_key st = Some (if left ed = [] then st else say [8] (st\<lparr>line_curpos := length (left ed) - 1\<rparr>))"
  using holds_lineD(6) [OF assms] by (auto simp: left_key_def printf_bs say_def)

lemma right_key_ok:
  assumes "holds_line st ed"
  shows "right_key st = Some (case right ed of [] \<Rightarrow> st | c # r \<Rightarrow> say (console_bytes [c]) (st\<lparr>line_curpos := length (left ed) + 1\<rparr>))"
proof (cases "right ed")
  case Nil
  then show ?thesis using holds_lineD(5,6) [OF assms] by (simp add: right_key_def)
next
  case (Cons c r)
  then have "deref (line st) (line_curpos st) = Some c" using holds_lineD(1,6) [OF assms] by simp
  then show ?thesis using Cons holds_lineD(5,6) [OF assms] by (simp add: right_key_def printf_char say_def)
qed

lemma set_position_ok: "cstring (line st) 0 = Some t \<Longrightarrow> length t < 80 \<Longrightarrow>
  set_position st = Some (st\<lparr>line_position := length t, line_curpos := length t\<rparr>)"
  by (simp add: set_position_def)

text \<open>The line is replaced by another text.\<close>

lemma zpad_zero: "length t \<le> n \<Longrightarrow> zpad (Suc n) t = t @ 0 # replicate (n - length t) 0"
  by (simp add: zpad_def Suc_diff_le)

lemma zpad_over: "prefix t c \<Longrightarrow> length c \<le> n \<Longrightarrow> c @ drop (length c) (zpad n t) = zpad n c"
  by (auto simp: zpad_def prefix_def)

definition tab_text :: "finsh_syscall list \<Rightarrow> byte list \<Rightarrow> byte list" where
  "tab_text tab t = (if t = [] then help_text tab else listing (matches tab t))"

lemma tab_key_ok:
  assumes "holds_line st ed" "table_ok tab" "length (text_of (ed_tab tab ed)) < 80"
  defines "c \<equiv> text_of (ed_tab tab ed)"
  shows "tab_key tab st = Some (say (replicate (length (left ed)) 8 @ console_bytes [10] @ tab_text tab (text_of ed) @
      console_bytes (finsh_get_prompt st @ c)) (st\<lparr>line := zpad 81 c, line_position := length c, line_curpos := length c\<rparr>))"
proof -
  let ?t = "text_of ed"
  have T: "line_text ?t" "line st = zpad (Suc 80) ?t" "line_curpos st = length (left ed)" using assms(1) by (simp_all add: holds_line_def)
  have t: "length ?t < 80" "0 \<notin> set ?t" using T(1) by (simp_all add: line_text_def)
  have c: "c = (if ?t = [] then [] else completed tab ?t)" by (simp add: c_def ed_tab_def set_text_def text_of_def)
  have l: "line st = ?t @ 0 # replicate (80 - length ?t) 0" using T(2) t zpad_zero [of ?t 80] by simp
  have ac: "msh_auto_complete tab (line st) cn = Some (zpad 81 c, cn @ tab_text tab ?t)" for cn
  proof (cases "?t = []")
    case True
    then show ?thesis using msh_auto_complete_ok [OF assms(2) t(2), of "replicate (80 - length ?t) 0" cn] l c T(2)
      by (simp add: tab_text_def)
  next
    case False
    have "c @ drop (length c) (zpad 81 ?t) = zpad 81 c"
      by (rule zpad_over) (use False c completed_prefix assms(3) c_def in auto)
    then show ?thesis using msh_auto_complete_ok [OF assms(2) t(2), of "replicate (80 - length ?t) 0" cn] l c False T(2) assms(3) c_def
      by (simp add: tab_text_def)
  qed
  have "0 \<notin> set c" using c completed_nonzero [OF assms(2) t(2)] by simp
  then have s: "cstring (zpad 81 c) 0 = Some c" using zpad_string [of "[]" c 81] assms(3) c_def by simp
  show ?thesis using T(3) ac s assms(3) c_def
    by (simp add: tab_key_def backs_ok shell_auto_complete_def printf_plain printf_texts set_position_ok say_def)
qed

subsection \<open>The history\<close>

lemma zpad_inject: "line_text a \<Longrightarrow> line_text b \<Longrightarrow> zpad 80 a = zpad 80 b \<longleftrightarrow> a = b"
proof
  assume "line_text a" "line_text b" "zpad 80 a = zpad 80 b"
  then show "a = b" using zpad_string [of "[]" a 80] zpad_string [of "[]" b 80] by (simp add: line_text_def)
qed simp

lemma rows_nth: "i < length p \<Longrightarrow> rows p ! i = zpad 80 (p ! i)"
  by (simp add: rows_def nth_append)

lemma length_rows: "length p \<le> 5 \<Longrightarrow> length (rows p) = 5"
  by (simp add: rows_def)

lemma history_row_ok: "cmd_history st = rows p \<Longrightarrow> i < length p \<Longrightarrow> length p \<le> 5 \<Longrightarrow> history_row i st = Some (zpad 80 (p ! i))"
  by (simp add: history_row_def length_rows rows_nth)

definition shown_line :: "byte list \<Rightarrow> byte list \<Rightarrow> byte list" where
  "shown_line prompt t = console_bytes [27, 91, 50, 75, 13] @ console_bytes (prompt @ t)"

lemma recall_ok:
  assumes "line st = zpad 81 t0" "length t0 < 80" "cmd_history st = rows p" "current_history st < length p" "length p \<le> 5"
    "list_all line_text p"
  defines "t \<equiv> p ! current_history st"
  shows "recall st = Some (say (shown_line (finsh_get_prompt st) t)
    (st\<lparr>line := zpad 81 t, line_position := length t, line_curpos := length t\<rparr>))"
proof -
  have t: "length t < 80" "0 \<notin> set t" using assms(4,6) by (auto simp: t_def list_all_length line_text_def)
  have "drop 80 (zpad 81 t0) = [0]" using assms(2) by (simp add: zpad_def)
  moreover have "zpad 80 t @ [0] = zpad 81 t" using t(1) by (simp add: zpad_def replicate_append_same flip: replicate_Suc)
  ultimately have "mem_write (line st) 0 (zpad 80 t) = Some (zpad 81 t)" using assms(1,2) t(1) by (simp add: mem_write_def)
  moreover have "cstring (zpad 81 t) 0 = Some t" using zpad_string [of "[]" t 81] t by simp
  moreover have "history_row (current_history st) st = Some (zpad 80 t)" using history_row_ok [OF assms(3-5)] by (simp add: t_def)
  ultimately show ?thesis using t(1)
    by (simp add: recall_def set_position_ok shell_handle_history_def printf_plain printf_texts shown_line_def say_def)
qed

lemma fill_row_ok:
  assumes "line st = zpad 81 t" "line_position st = length t" "length t < 80" "i < length (cmd_history st)"
  shows "fill_row i st = Some (st\<lparr>cmd_history := (cmd_history st)[i := zpad 80 t]\<rparr>)"
proof -
  have "mem_read (line st) 0 (length t) = Some t" using assms(1,3) by (simp add: zpad_def)
  moreover have "mem_write (replicate 80 0) 0 t = Some (zpad 80 t)" using assms(3) by (simp add: mem_write_def zpad_def)
  ultimately show ?thesis using assms by (simp add: fill_row_def history_row_def)
qed

lemma move_rows:
  assumes "length p = 5"
  shows "foldl (\<lambda>h i. h[i := h ! (i + 1)]) (rows p) [0..<4] = rows (drop 1 p @ [last p])"
    "(rows (drop 1 p @ [last p]))[4 := zpad 80 t] = rows (drop 1 p @ [t])"
proof -
  obtain a b c d e where "p = [a, b, c, d, e]"
    using assms by (auto simp: length_Suc_conv eval_nat_numeral)
  then show "foldl (\<lambda>h i. h[i := h ! (i + 1)]) (rows p) [0..<4] = rows (drop 1 p @ [last p])"
    "(rows (drop 1 p @ [last p]))[4 := zpad 80 t] = rows (drop 1 p @ [t])" by (simp_all add: rows_def upt_rec)
qed

lemma add_row: "length p < 5 \<Longrightarrow> (rows p)[length p := zpad 80 t] = rows (p @ [t])"
  by (simp add: rows_def list_update_append) (simp add: Suc_diff_Suc [symmetric])

lemma shell_push_history_ok:
  assumes "holds_line st ed" "holds_history st ed"
  defines "p \<equiv> remember (text_of ed) (past ed)"
  shows "shell_push_history st = Some (st\<lparr>cmd_history := rows p, history_count := length p, current_history := length p\<rparr>)"
proof -
  let ?t = "text_of ed" and ?p = "past ed"
  have T: "line_text ?t" "line st = zpad 81 ?t" "line_position st = length ?t" "length ?t < 80"
    using assms(1) by (simp_all add: holds_line_def line_text_def)
  have H: "length ?p \<le> 5" "list_all line_text ?p" "cmd_history st = rows ?p" "history_count st = length ?p"
    using assms(2) by (simp_all add: holds_history_def)
  have take: "take 80 (line st) = zpad 80 ?t" using T(2,4) by (simp add: zpad_def)
  have last: "history_row (length ?p - 1) st = Some (zpad 80 (last ?p))" if "?p \<noteq> []"
    using history_row_ok [OF H(3) _ H(1), of "length ?p - 1"] that by (simp add: last_conv_nth)
  have same: "zpad 80 (last ?p) \<noteq> take 80 (line st) \<longleftrightarrow> last ?p \<noteq> ?t" if "?p \<noteq> []"
    using zpad_inject [of "last ?p" ?t] T(1) H(2) that take by (simp add: list_all_iff)
  consider (keep) "?t = [] \<or> ?p \<noteq> [] \<and> last ?p = ?t" | (full) "?t \<noteq> []" "last ?p \<noteq> ?t" "length ?p = 5"
    | (add) "?t \<noteq> []" "?p = [] \<or> last ?p \<noteq> ?t" "length ?p < 5"
    using H(1) by fastforce
  then show ?thesis
  proof cases
    case keep
    then have p: "p = ?p" by (simp add: p_def remember_def)
    have "shell_push_history st = Some (st\<lparr>current_history := history_count st\<rparr>)"
      using keep T(3) H(1,4) last same by (cases "?p = []") (auto simp: shell_push_history_def)
    then show ?thesis using p H(3,4) by simp
  next
    case full
    then have p: "p = drop 1 ?p @ [?t]" "?p \<noteq> []" by (auto simp: p_def remember_def)
    have "fill_row 4 (move_history st) = Some (st\<lparr>cmd_history := rows p\<rparr>)"
      using fill_row_ok [of "move_history st" ?t 4] T(2-4) H(1,3) full(3) move_rows [OF full(3)] p(1)
      by (simp add: move_history_def length_rows)
    moreover have "length p = 5" using p(1) full(3) by simp
    ultimately show ?thesis using T(3) full H(4) last [OF p(2)] same [OF p(2)] by (simp add: shell_push_history_def)
  next
    case add
    then have p: "p = ?p @ [?t]" by (auto simp: p_def remember_def)
    have "fill_row (length ?p) (st\<lparr>current_history := length ?p\<rparr>) = Some (st\<lparr>current_history := length ?p, cmd_history := rows p\<rparr>)"
      using fill_row_ok [of "st\<lparr>current_history := length ?p\<rparr>" ?t "length ?p"] T(2-4) H(3) add(3) add_row [OF add(3), of ?t] p
      by (simp add: length_rows)
    then show ?thesis using T(3) add H(4) last same p by (cases "?p = []") (simp_all add: shell_push_history_def)
  qed
qed

subsection \<open>The shell implements the editor\<close>

lemma enter_key_ok:
  assumes "holds_line st ed" "holds_history st ed" "table_ok tab" "37 \<notin> set (finsh_get_prompt st)"
  defines "p \<equiv> remember (text_of ed) (past ed)"
  obtains warning where "length (toks (text_of ed)) < FINSH_ARG_MAX \<Longrightarrow> warning = []" "ends_line warning"
    "enter_key run tab st = Some (case outcome run (meaning_of tab (text_of ed)) warning (world st) of (_, txt, w) \<Rightarrow>
       say ((if echo_mode st then console_bytes [10] else []) @ txt @ console_bytes (finsh_get_prompt st))
         (st\<lparr>cmd_history := rows p, history_count := length p, current_history := length p, line := zpad 81 [],
            line_position := 0, line_curpos := 0, world := w\<rparr>))"
proof -
  let ?t = "text_of ed"
  have T: "length ?t < 80" "0 \<notin> set ?t" "line st = zpad (Suc 80) ?t" "line_position st = length ?t"
    using assms(1) by (simp_all add: holds_line_def line_text_def)
  have l: "line st = ?t @ 0 # replicate (80 - length ?t) 0" using T(1,3) zpad_zero [of ?t 80] by simp
  let ?cn = "con st @ (if echo_mode st then console_bytes [10] else [])"
  obtain b t where ex: "length b = length (?t @ 0 # replicate (80 - length ?t) 0)" "length (toks ?t) < FINSH_ARG_MAX \<Longrightarrow> t = []" "ends_line t"
    "msh_exec run tab (?t @ 0 # replicate (80 - length ?t) 0) (length ?t) ?cn (world st) =
       Some (case outcome run (meaning_of tab ?t) t (world st) of (ret, txt, w) \<Rightarrow> (ret, b, ?cn @ txt, w))"
    by (rule msh_exec_ok [OF assms(3) T(2)]) (rule that)
  have push: "shell_push_history st = Some (st\<lparr>cmd_history := rows p, history_count := length p, current_history := length p\<rparr>)"
    unfolding p_def by (rule shell_push_history_ok [OF assms(1,2)])
  have "length b = 81" using ex(1) T(1) by simp
  moreover have "zpad 81 [] = replicate 81 0" by (simp add: zpad_def)
  ultimately have "enter_key run tab st = Some (case outcome run (meaning_of tab ?t) t (world st) of (_, txt, w) \<Rightarrow>
       say ((if echo_mode st then console_bytes [10] else []) @ txt @ console_bytes (finsh_get_prompt st))
         (st\<lparr>cmd_history := rows p, history_count := length p, current_history := length p, line := zpad 81 [],
            line_position := 0, line_curpos := 0, world := w\<rparr>))"
    using push ex(4) l T(4) assms(4)
    by (cases "echo_mode st") (simp_all add: enter_key_def printf_plain say_def split: prod.splits)
  then show thesis using that ex(2,3) by blast
qed

lemma past_remember:
  "length p \<le> 5 \<Longrightarrow> length (remember t p) \<le> 5"
  "list_all line_text p \<Longrightarrow> line_text t \<Longrightarrow> list_all line_text (remember t p)"
  by (auto simp: remember_def list_all_iff dest: in_set_dropD)

lemma outcome_world: "snd (snd (outcome run m u w)) = snd (snd (outcome run m v w))"
  by (cases m) (simp_all add: Let_def split_beta)

text \<open>The text is replaced.\<close>

lemma shell_holds_text:
  assumes "shell_holds st ed" "line_text (l @ r)"
  shows "shell_holds (say t (st\<lparr>line := zpad 81 (l @ r), line_position := length (l @ r), line_curpos := length l\<rparr>)) (ed\<lparr>left := l, right := r\<rparr>)"
  using assms by (simp add: shell_holds_def holds_line_def holds_history_def text_of_def)

lemma text_bound:
  assumes "shell_holds st ed"
  shows "length (left ed) + length (right ed) < 80" "0 \<notin> set (left ed)" "0 \<notin> set (right ed)" "line_text (text_of ed)"
  using assms by (auto simp: shell_holds_def holds_line_def line_text_def text_of_def)

lemma char_key_holds:
  assumes "shell_holds st ed" "ch \<noteq> 0" "length (text_of ed) < 79"
  shows "\<exists>st'. char_key ch st = Some st' \<and> shell_holds st' (ed\<lparr>left := left ed @ [ch]\<rparr>)"
proof -
  have "holds_line st ed" using assms(1) by (simp add: shell_holds_def)
  from char_key_ok [OF this assms(2,3)] show ?thesis
    using shell_holds_text [OF assms(1), of "left ed @ [ch]" "right ed"] text_bound [OF assms(1)] assms(2,3)
    by (simp add: line_text_def text_of_def)
qed

lemma backspace_key_holds:
  assumes "shell_holds st ed"
  shows "\<exists>st'. backspace_key st = Some st' \<and> shell_holds st' (ed_backspace ed)"
proof (cases "left ed = []")
  case True
  then have "ed_backspace ed = ed" by (cases ed) (simp add: ed_backspace_def)
  then show ?thesis using True backspace_key_ok [of st ed] assms by (simp add: shell_holds_def)
next
  case False
  then obtain l c where "left ed = l @ [c]" using snoc_cases by blast
  moreover have "holds_line st ed" using assms by (simp add: shell_holds_def)
  ultimately show ?thesis
    using backspace_key_ok [of st ed] shell_holds_text [OF assms, of l "right ed"] text_bound [OF assms]
    by (auto simp: line_text_def text_of_def ed_backspace_def)
qed

lemma tab_key_holds:
  assumes "shell_holds st ed" "table_ok tab" "length (text_of (ed_tab tab ed)) < 80"
  shows "\<exists>st'. tab_key tab st = Some st' \<and> shell_holds st' (ed_tab tab ed)"
proof -
  let ?c = "text_of (ed_tab tab ed)"
  have h: "holds_line st ed" using assms(1) by (simp add: shell_holds_def)
  have c: "ed_tab tab ed = ed\<lparr>left := ?c, right := []\<rparr>" by (simp add: ed_tab_def set_text_def text_of_def)
  have "0 \<notin> set ?c" using completed_nonzero [OF assms(2)] text_bound(4) [OF assms(1)]
    by (simp add: ed_tab_def set_text_def line_text_def)
  then have "line_text (?c @ [])" using assms(3) by (simp add: line_text_def)
  from shell_holds_text [OF assms(1) this] show ?thesis
    using tab_key_ok [OF h assms(2,3)] c by simp
qed

lemma enter_key_holds:
  assumes "shell_holds st ed" "table_ok tab"
  shows "\<exists>st'. enter_key run tab st = Some st' \<and> shell_holds st' (ed_enter run tab ed)"
proof -
  have h: "holds_line st ed" "holds_history st ed" "37 \<notin> set (finsh_get_prompt st)" "world st = rest ed"
    using assms(1) by (simp_all add: shell_holds_def)
  let ?o = "\<lambda>u. outcome run (meaning_of tab (text_of ed)) u (rest ed)"
  obtain u where u: "enter_key run tab st = Some (case ?o u of (_, txt, w) \<Rightarrow>
       say ((if echo_mode st then console_bytes [10] else []) @ txt @ console_bytes (finsh_get_prompt st))
         (st\<lparr>cmd_history := rows (remember (text_of ed) (past ed)), history_count := length (remember (text_of ed) (past ed)),
            current_history := length (remember (text_of ed) (past ed)), line := zpad 81 [], line_position := 0, line_curpos := 0, world := w\<rparr>))"
    using enter_key_ok [OF h(1,2) assms(2) h(3)] h(4) by metis
  obtain r1 x1 w where o1: "?o u = (r1, x1, w)" by (metis prod_cases3)
  obtain r2 x2 where o2: "?o [] = (r2, x2, w)" using outcome_world [of run _ u "rest ed" "[]"] o1 by (metis prod.collapse snd_conv)
  have "list_all line_text (past ed)" "length (past ed) \<le> 5" using h(2) by (simp_all add: holds_history_def)
  then show ?thesis using u o1 o2 assms(1) past_remember text_bound(4) [OF assms(1)]
    by (simp add: ed_enter_def Let_def shell_holds_def holds_line_def holds_history_def line_text_def [of "[]"])
qed

lemma go_to_holds:
  assumes "shell_holds st ed" "i < length (past ed)"
  shows "\<exists>st'. recall (st\<lparr>current_history := i\<rparr>) = Some st' \<and> shell_holds st' (go_to i ed)"
proof -
  have H: "line st = zpad 81 (text_of ed)" "cmd_history st = rows (past ed)" "length (past ed) \<le> 5" "list_all line_text (past ed)"
    "length (text_of ed) < 80"
    using assms(1) by (simp_all add: shell_holds_def holds_line_def holds_history_def line_text_def)
  have h: "shell_holds (st\<lparr>current_history := i\<rparr>) (ed\<lparr>at := i\<rparr>)"
    using assms by (simp add: shell_holds_def holds_line_def holds_history_def)
  have "line_text (past ed ! i @ [])" using H(4) assms(2) by (simp add: list_all_length)
  from shell_holds_text [OF h this] show ?thesis
    using recall_ok [of "st\<lparr>current_history := i\<rparr>" "text_of ed" "past ed"] H assms(2) by (simp add: go_to_def set_text_def)
qed

lemma up_key_holds:
  assumes "shell_holds st ed"
  shows "\<exists>st'. up_key st = Some st' \<and> shell_holds st' (ed_up ed)"
proof (cases "at ed = 0")
  case True
  then show ?thesis using assms by (simp add: up_key_def ed_up_def shell_holds_def holds_line_def holds_history_def)
next
  case False
  moreover have "current_history st = at ed" "at ed \<le> length (past ed)" using assms by (simp_all add: shell_holds_def holds_history_def)
  ultimately show ?thesis using go_to_holds [OF assms, of "at ed - 1"] by (simp add: up_key_def ed_up_def)
qed

lemma down_key_holds:
  assumes "shell_holds st ed"
  shows "\<exists>st'. down_key st = Some st' \<and> shell_holds st' (ed_down ed)"
proof -
  have H: "history_count st = length (past ed)" "current_history st = at ed" "at ed \<le> length (past ed)"
    using assms by (simp_all add: shell_holds_def holds_history_def)
  consider "past ed = []" | "at ed < length (past ed) - 1" | "past ed \<noteq> []" "length (past ed) - 1 \<le> at ed" by linarith
  then show ?thesis
  proof cases
    case 1
    then show ?thesis using assms H by (simp add: down_key_def ed_down_def)
  next
    case 2
    then have "ed_down ed = go_to (at ed + 1) ed" by (auto simp: ed_down_def min_def)
    moreover have "int (at ed) < int (length (past ed)) - 1" using 2 by linarith
    ultimately show ?thesis using 2 H go_to_holds [OF assms, of "at ed + 1"] by (simp add: down_key_def)
  next
    case 3
    then have "ed_down ed = go_to (length (past ed) - 1) ed" by (auto simp: ed_down_def min_def)
    moreover have "\<not> int (at ed) < int (length (past ed)) - 1" using 3 by linarith
    ultimately show ?thesis using 3 H go_to_holds [OF assms, of "length (past ed) - 1"] by (simp add: down_key_def)
  qed
qed

lemma left_key_holds:
  assumes "shell_holds st ed"
  shows "\<exists>st'. left_key st = Some st' \<and> shell_holds st' (ed_left ed)"
proof (cases "left ed = []")
  case False
  then obtain l c where lc: "left ed = l @ [c]" using snoc_cases by blast
  have "holds_line st ed" using assms by (simp add: shell_holds_def)
  then show ?thesis using left_key_ok [of st ed] assms lc
    by (auto simp: ed_left_def shell_holds_def holds_line_def holds_history_def text_of_def)
qed (use left_key_ok [of st ed] assms in \<open>auto simp: ed_left_def shell_holds_def\<close>)

lemma right_key_holds:
  assumes "shell_holds st ed"
  shows "\<exists>st'. right_key st = Some st' \<and> shell_holds st' (ed_right ed)"
proof -
  have "holds_line st ed" using assms by (simp add: shell_holds_def)
  from right_key_ok [OF this] show ?thesis using assms
    by (cases "right ed") (auto simp: ed_right_def shell_holds_def holds_line_def holds_history_def text_of_def)
qed

lemma mode_holds: "shell_holds st ed \<Longrightarrow> shell_holds (st\<lparr>stat := m\<rparr>) (ed\<lparr>mode := m\<rparr>)"
  by (simp add: shell_holds_def holds_line_def holds_history_def)

lemma plain_key_holds:
  assumes "shell_holds st ed" "table_ok tab" "length (text_of (ed_plain run tab ch ed)) < 80"
  shows "\<exists>st'. plain_key run tab ch st = Some st' \<and> shell_holds st' (ed_plain run tab ch ed)"
proof -
  have "length (text_of ed) < 79 \<or> ch \<in> {0, 0xFF, 9, 0x7f, 8, 13, 10}" 
    using assms(3) by (auto simp: ed_plain_def text_of_def split: if_splits)
  then show ?thesis using assms char_key_holds [OF assms(1), of ch] tab_key_holds [OF assms(1,2)] backspace_key_holds [OF assms(1)]
      enter_key_holds [OF assms(1,2), of run]
    by (auto simp: plain_key_def ed_plain_def)
qed

theorem shell_key_holds:
  assumes "shell_holds st ed" "table_ok tab" "length (text_of (ed_key run tab ch ed)) < 80"
  shows "\<exists>st'. shell_key run tab ch st = Some st' \<and> shell_holds st' (ed_key run tab ch ed)"
proof -
  have m: "stat st = mode ed" using assms(1) by (simp add: shell_holds_def)
  have n: "shell_holds (st\<lparr>stat := WAIT_NORMAL\<rparr>) (ed\<lparr>mode := WAIT_NORMAL\<rparr>)" by (rule mode_holds [OF assms(1)])
  show ?thesis
  proof (cases "ch = 0x1b")
    case True
    then show ?thesis using mode_holds [OF assms(1)] by (simp add: shell_key_def ed_key_def)
  next
    case False
    then show ?thesis
      using m assms mode_holds [OF assms(1)] plain_key_holds [OF assms(1,2), of run ch] plain_key_holds [OF n assms(2), of run ch]
        up_key_holds [OF n] down_key_holds [OF n] left_key_holds [OF n] right_key_holds [OF n]
      by (cases "mode ed") (auto simp: shell_key_def ed_key_def Let_def split: if_splits)
  qed
qed

theorem finsh_thread_loop_ok:
  assumes "shell_holds st ed" "table_ok tab" "fits run tab chs ed"
  shows "\<exists>st'. finsh_thread_loop run tab chs st = Some st' \<and> shell_holds st' (ed_run run tab chs ed)"
  using assms
proof (induction chs arbitrary: st ed)
  case (Cons ch chs)
  then obtain st1 where "shell_key run tab ch st = Some st1" "shell_holds st1 (ed_key run tab ch ed)"
    using shell_key_holds [of st ed tab run ch] by auto
  then show ?case using Cons.IH [of st1 "ed_key run tab ch ed"] Cons.prems by simp
qed simp

definition ed_start :: "'w \<Rightarrow> 'w editor" where
  "ed_start w = \<lparr>left = [], right = [], past = [], at = 0, mode = WAIT_NORMAL, rest = w\<rparr>"

lemma finsh_thread_start_ok:
  "\<exists>st. finsh_thread_start (finsh_set_prompt_mode 1 (finsh_zero w)) = Some st \<and> shell_holds st (ed_start w) \<and> echo_mode st \<and>
     con st = ascii ''msh >'' \<and> finsh_get_prompt st = ascii ''msh >''"
  by (simp add: finsh_thread_start_def finsh_set_prompt_mode_def finsh_zero_def finsh_get_prompt_def printf_plain ascii_def console_bytes_def say_def
      shell_holds_def holds_line_def holds_history_def ed_start_def text_of_def line_text_def zpad_def rows_def Let_def)

text \<open>The prompt is printed as a format: a percent sign in it asks for an argument that is not there.\<close>

lemma prompt_is_format:
  assumes "prompt_mode st"
  shows "printf (finsh_get_prompt (snd (finsh_set_prompt True (Some (ascii ''%d'')) st))) [] st = None"
  using assms by (simp add: finsh_set_prompt_def finsh_get_prompt_def RT_CONSOLEBUF_SIZE_def printf_def kprintf_def ascii_def
      parse_spec_def get_width_def get_precision_def ISDIGIT_def conv_text_def)

end
