(* ===== verification/Screen.thy ===== *)
theory Screen
  imports Editor
begin

text \<open>
  What a terminal shows of the bytes the shell prints. Most keys only redraw a part of the row. It is shown
  that nevertheless the row always is the prompt and the text, with the cursor where the next character
  goes.
\<close>

subsection \<open>A terminal\<close>

text \<open>
  The row of the cursor. A new line starts an empty row; a backspace moves the cursor, a carriage return moves it
  to the start, the sequence \<open>ESC [ 2 K\<close> erases the row; \<open>esc\<close> is how much of it has come.
\<close>

record screen =
  row :: "byte list"
  col :: nat
  esc :: nat

definition printable :: "byte \<Rightarrow> bool" where
  "printable c \<longleftrightarrow> 32 \<le> c \<and> c < 127"

definition put :: "byte \<Rightarrow> screen \<Rightarrow> screen" where
  "put c s = s\<lparr>row := take (col s) (row s) @ replicate (col s - length (row s)) 32 @ [c] @ drop (col s + 1) (row s), col := col s + 1\<rparr>"

definition screen_byte :: "byte \<Rightarrow> screen \<Rightarrow> screen" where
  "screen_byte c s =
     (if c = 10 then \<lparr>row = [], col = 0, esc = 0\<rparr>
      else if c = 27 then s\<lparr>esc := 1\<rparr>
      else if esc s = 1 then s\<lparr>esc := (if c = 91 then 2 else 0)\<rparr>
      else if esc s = 2 then s\<lparr>esc := (if c = 50 then 3 else 0)\<rparr>
      else if esc s = 3 then (if c = 75 then s\<lparr>row := [], esc := 0\<rparr> else s\<lparr>esc := 0\<rparr>)
      else if c = 13 then s\<lparr>col := 0\<rparr>
      else if c = 8 then s\<lparr>col := col s - 1\<rparr>
      else if printable c then put c s
      else s)"

definition show_bytes :: "byte list \<Rightarrow> screen \<Rightarrow> screen" where
  "show_bytes t s = fold screen_byte t s"

definition screen_of :: "byte list \<Rightarrow> screen" where
  "screen_of t = show_bytes t \<lparr>row = [], col = 0, esc = 0\<rparr>"

subsection \<open>Pieces of output\<close>

lemma show_append: "show_bytes (a @ b) s = show_bytes b (show_bytes a s)"
  by (simp add: show_bytes_def)

lemma show_Nil [simp]: "show_bytes [] s = s"
  by (simp add: show_bytes_def)

lemma screen_of_append: "screen_of (a @ b) = show_bytes b (screen_of a)"
  by (simp add: screen_of_def show_append)

lemma printable_put: "printable c \<Longrightarrow> esc s = 0 \<Longrightarrow> screen_byte c s = put c s"
  by (auto simp: screen_byte_def printable_def)

lemma show_Cons: "show_bytes (c # t) s = show_bytes t (screen_byte c s)"
  by (simp add: show_bytes_def)

lemma show_text_at:
  "list_all printable t \<Longrightarrow> show_bytes t \<lparr>row = a @ b, col = length a, esc = 0\<rparr> =
     \<lparr>row = a @ t @ drop (length t) b, col = length a + length t, esc = 0\<rparr>"
proof (induction t arbitrary: a b)
  case (Cons c t)
  have "screen_byte c \<lparr>row = a @ b, col = length a, esc = 0\<rparr> = \<lparr>row = (a @ [c]) @ drop 1 b, col = length (a @ [c]), esc = 0\<rparr>"
    using Cons.prems by (simp add: printable_put put_def)
  then show ?case using Cons.prems Cons.IH [of "a @ [c]" "drop 1 b"] by (simp add: show_Cons)
qed simp

lemma show_text:
  assumes "list_all printable t" "n \<le> length x"
  shows "show_bytes t \<lparr>row = x, col = n, esc = 0\<rparr> = \<lparr>row = take n x @ t @ drop (n + length t) x, col = n + length t, esc = 0\<rparr>"
  using show_text_at [OF assms(1), of "take n x" "drop n x"] assms(2) by (simp add: add.commute)

lemma show_blank: "n \<le> length x \<Longrightarrow>
  screen_byte 32 \<lparr>row = x, col = n, esc = 0\<rparr> = \<lparr>row = take n x @ [32] @ drop (n + 1) x, col = n + 1, esc = 0\<rparr>"
  using show_text [of "[32]" n x] by (simp add: printable_def show_Cons)

lemma show_bs: "screen_byte 8 \<lparr>row = x, col = n, esc = 0\<rparr> = \<lparr>row = x, col = n - 1, esc = 0\<rparr>"
  by (simp add: screen_byte_def)

lemma show_backs: "show_bytes (replicate n 8) \<lparr>row = r, col = c, esc = 0\<rparr> = \<lparr>row = r, col = c - n, esc = 0\<rparr>"
  by (induction n arbitrary: c) (simp_all add: show_Cons show_bs)

lemmas show_rules = show_Cons show_append show_text show_backs show_blank show_bs

lemma show_newline: "t \<noteq> [] \<Longrightarrow> last t = 10 \<Longrightarrow> show_bytes t s = \<lparr>row = [], col = 0, esc = 0\<rparr>"
  by (cases t rule: rev_cases) (simp_all add: show_append show_Cons screen_byte_def)

lemma show_ends_line:
  "ends_line t \<Longrightarrow> show_bytes t \<lparr>row = [], col = 0, esc = 0\<rparr> = \<lparr>row = [], col = 0, esc = 0\<rparr>"
  by (cases "t = []") (simp_all add: ends_line_def show_newline)

lemma show_erase: "show_bytes [27, 91, 50, 75, 13] \<lparr>row = r, col = c, esc = 0\<rparr> = \<lparr>row = [], col = 0, esc = 0\<rparr>"
  by (simp add: show_bytes_def screen_byte_def)

subsection \<open>The row shows the text\<close>

text \<open>A row with the prompt \<open>p\<close>, the text \<open>l @ r\<close>, and the cursor between its parts; blanks may follow.\<close>

definition row_of :: "byte list \<Rightarrow> byte list \<Rightarrow> byte list \<Rightarrow> nat \<Rightarrow> screen" where
  "row_of p l r k = \<lparr>row = p @ l @ r @ replicate k 32, col = length p + length l, esc = 0\<rparr>"

lemma row_typed:
  assumes "list_all printable (c # r)" "length r < 200"
  shows "show_bytes (echoed c r True) (row_of p l r k) = row_of p (l @ [c]) r (k - 1)"
proof -
  have "show_bytes (c # r) (row_of p l r k) = \<lparr>row = p @ l @ c # r @ replicate (k - 1) 32,
      col = length p + length l + length r + 1, esc = 0\<rparr>"
    unfolding row_of_def using assms(1) by (subst show_text) simp_all
  then show ?thesis using assms(2)
    by (simp add: echoed_def console_bytes_def row_of_def show_append show_backs flip: append_Cons)
qed

lemma row_rubbed:
  assumes "list_all printable r" "length r < 200"
  shows "show_bytes (rubbed r) (row_of p (l @ [c]) r k) = row_of p l r (if r = [] then k + 1 else max (k + 1) 2)"
proof (cases "r = []")
  case True
  then show ?thesis by (simp add: rubbed_def console_bytes_def row_of_def show_rules)
next
  case False
  have "show_bytes (8 # r @ [32, 32, 8]) (row_of p (l @ [c]) r k) = \<lparr>row = p @ l @ r @ replicate (max (k + 1) 2) 32,
      col = length p + length l + length r + 1, esc = 0\<rparr>"
    unfolding row_of_def using assms(1) by (cases k) (simp_all add: show_rules)
  moreover have rub: "rubbed r = (8 # r @ [32, 32, 8]) @ replicate (length r + 1) 8"
    using False assms(2) by (simp add: rubbed_def console_bytes_def)
  ultimately show ?thesis using False unfolding rub show_append by (simp add: row_of_def show_backs show_Cons show_bs)
qed

definition displays :: "'w tty \<Rightarrow> 'w editor \<Rightarrow> bool" where
  "displays st ed \<longleftrightarrow> shell_holds st ed \<and> echo_mode st \<and> list_all printable (finsh_get_prompt st) \<and>
     length (finsh_get_prompt st) \<le> 150 \<and> list_all printable (text_of ed) \<and> list_all (list_all printable) (past ed) \<and>
     (\<exists>k. screen_of (con st) = row_of (finsh_get_prompt st) (left ed) (right ed) k)"

lemma displays_next:
  assumes "displays st ed" "shell_holds st' ed'" "echo_mode st' = echo_mode st" "finsh_get_prompt st' = finsh_get_prompt st"
    "con st' = con st @ t" "list_all printable (text_of ed')" "list_all (list_all printable) (past ed')"
    "\<And>k. \<exists>k'. show_bytes t (row_of (finsh_get_prompt st) (left ed) (right ed) k) = row_of (finsh_get_prompt st) (left ed') (right ed') k'"
  shows "displays st' ed'"
  using assms unfolding displays_def by (auto simp: screen_of_append)

lemma short_console: "length t < 255 \<Longrightarrow> console_bytes t = t"
  by (simp add: console_bytes_def)

lemma displaysD:
  assumes "displays st ed"
  shows "shell_holds st ed" "holds_line st ed" "length (left ed) + length (right ed) < 80" "echo_mode st"
    "list_all printable (left ed)" "list_all printable (right ed)" "list_all (list_all printable) (past ed)"
    "length (finsh_get_prompt st) \<le> 150" "list_all printable (finsh_get_prompt st)" "list_all printable (text_of ed)"
  using assms text_bound(1) [of st ed] by (simp_all add: displays_def shell_holds_def text_of_def)

lemma char_key_displays:
  assumes "displays st ed" "printable ch" "length (text_of ed) < 79"
  shows "\<exists>st'. char_key ch st = Some st' \<and> displays st' (ed\<lparr>left := left ed @ [ch]\<rparr>)"
proof -
  note D = displaysD [OF assms(1)]
  have "ch \<noteq> 0" using assms(2) by (auto simp: printable_def)
  then obtain st' where st': "char_key ch st = Some st'" "shell_holds st' (ed\<lparr>left := left ed @ [ch]\<rparr>)"
    using char_key_holds [OF D(1) _ assms(3)] by blast
  have "displays st' (ed\<lparr>left := left ed @ [ch]\<rparr>)"
    by (rule displays_next [OF assms(1) st'(2), of "echoed ch (right ed) True"])
      (use st'(1) char_key_ok [OF D(2) \<open>ch \<noteq> 0\<close> assms(3)] D assms(2) row_typed [of ch "right ed"] in \<open>auto simp: text_of_def\<close>)
  then show ?thesis using st'(1) by simp
qed

lemma backspace_key_displays:
  assumes "displays st ed"
  shows "\<exists>st'. backspace_key st = Some st' \<and> displays st' (ed_backspace ed)"
proof (cases "left ed = []")
  case True
  then have "ed_backspace ed = ed" by (cases ed) (simp add: ed_backspace_def)
  then show ?thesis using True backspace_key_ok [OF displaysD(2) [OF assms]] assms by simp
next
  case False
  then obtain l c where lc: "left ed = l @ [c]" using snoc_cases by blast
  note D = displaysD [OF assms]
  obtain st' where st': "backspace_key st = Some st'" "shell_holds st' (ed_backspace ed)"
    using backspace_key_holds [OF D(1)] by blast
  have "displays st' (ed_backspace ed)"
    by (rule displays_next [OF assms st'(2), of "rubbed (right ed)"])
      (use st'(1) backspace_key_ok [OF D(2)] D lc row_rubbed [of "right ed"] in \<open>auto simp: text_of_def ed_backspace_def\<close>)
  then show ?thesis using st'(1) by simp
qed

lemma left_key_displays:
  assumes "displays st ed"
  shows "\<exists>st'. left_key st = Some st' \<and> displays st' (ed_left ed)"
proof (cases "left ed = []")
  case True
  then show ?thesis using left_key_ok [OF displaysD(2) [OF assms]] assms by (simp add: ed_left_def)
next
  case False
  then obtain l c where lc: "left ed = l @ [c]" using snoc_cases by blast
  note D = displaysD [OF assms]
  obtain st' where st': "left_key st = Some st'" "shell_holds st' (ed_left ed)"
    using left_key_holds [OF D(1)] by blast
  have "show_bytes [8] (row_of P (l @ [c]) r k) = row_of P l (c # r) k" for P r k
    by (simp add: row_of_def show_rules)
  then have "displays st' (ed_left ed)"
    by (intro displays_next [OF assms st'(2), of "[8]"])
      (use st'(1) left_key_ok [OF D(2)] D lc in \<open>auto simp: text_of_def ed_left_def\<close>)
  then show ?thesis using st'(1) by simp
qed

lemma right_key_displays:
  assumes "displays st ed"
  shows "\<exists>st'. right_key st = Some st' \<and> displays st' (ed_right ed)"
proof (cases "right ed")
  case Nil
  then show ?thesis using right_key_ok [OF displaysD(2) [OF assms]] assms by (simp add: ed_right_def)
next
  case (Cons c r)
  note D = displaysD [OF assms]
  obtain st' where st': "right_key st = Some st'" "shell_holds st' (ed_right ed)"
    using right_key_holds [OF D(1)] by blast
  have "show_bytes [c] (row_of P l (c # r) k) = row_of P (l @ [c]) r k" if "printable c" for P l k
    unfolding row_of_def using that by (subst show_text) simp_all
  then have "displays st' (ed_right ed)"
    by (intro displays_next [OF assms st'(2), of "[c]"])
      (use st'(1) right_key_ok [OF D(2)] D Cons in \<open>auto simp: text_of_def ed_right_def short_console\<close>)
  then show ?thesis using st'(1) by simp
qed

lemma show_line:
  assumes "list_all printable (p @ t)"
  shows "show_bytes (p @ t) \<lparr>row = [], col = 0, esc = 0\<rparr> = row_of p t [] 0"
  using show_text [OF assms, of 0 "[]"] by (simp add: row_of_def)

lemma go_to_displays:
  assumes "displays st ed" "i < length (past ed)"
  shows "\<exists>st'. recall (st\<lparr>current_history := i\<rparr>) = Some st' \<and> displays st' (go_to i ed)"
proof -
  note D = displaysD [OF assms(1)]
  let ?t = "past ed ! i"
  have H: "line st = zpad 81 (text_of ed)" "length (text_of ed) < 80" "cmd_history st = rows (past ed)" "length (past ed) \<le> 5"
    "list_all line_text (past ed)"
    using D(1) by (simp_all add: shell_holds_def holds_line_def holds_history_def line_text_def)
  have t: "list_all printable ?t" "length ?t < 80" using D(7) H(5) assms(2) by (simp_all add: list_all_length line_text_def)
  obtain st' where st': "recall (st\<lparr>current_history := i\<rparr>) = Some st'" "shell_holds st' (go_to i ed)"
    using go_to_holds [OF D(1) assms(2)] by blast
  have "show_bytes (shown_line P ?t) (row_of P l r k) = row_of P ?t [] 0" if "P = finsh_get_prompt st" for P l r k
  proof -
    have "console_bytes (P @ ?t) = P @ ?t" by (rule short_console) (use that D(8) t(2) in simp)
    moreover have "console_bytes [27, 91, 50, 75, 13] = [27, 91, 50, 75, 13]" by (simp add: console_bytes_def)
    ultimately show ?thesis using that D(9) t(1)
      by (simp only: shown_line_def show_append row_of_def show_erase show_line [unfolded show_append] list_all_append)
  qed
  then have "displays st' (go_to i ed)"
    by (intro displays_next [OF assms(1) st'(2), of "shown_line (finsh_get_prompt st) ?t"])
      (use st'(1) recall_ok [of "st\<lparr>current_history := i\<rparr>" "text_of ed" "past ed"] H assms(2) D t in
        \<open>auto simp: go_to_def set_text_def\<close>)
  then show ?thesis using st'(1) by simp
qed

lemma up_key_displays:
  assumes "displays st ed"
  shows "\<exists>st'. up_key st = Some st' \<and> displays st' (ed_up ed)"
proof -
  have H: "current_history st = at ed" "at ed \<le> length (past ed)"
    using displaysD(1) [OF assms] by (simp_all add: shell_holds_def holds_history_def)
  show ?thesis
  proof (cases "at ed = 0")
    case True
    then have "up_key st = Some st" using H by (simp add: up_key_def)
    then show ?thesis using assms True by (simp add: ed_up_def)
  next
    case False
    then show ?thesis using H go_to_displays [OF assms, of "at ed - 1"] by (simp add: up_key_def ed_up_def)
  qed
qed

lemma down_key_displays:
  assumes "displays st ed"
  shows "\<exists>st'. down_key st = Some st' \<and> displays st' (ed_down ed)"
proof -
  have H: "history_count st = length (past ed)" "current_history st = at ed" "at ed \<le> length (past ed)"
    using displaysD(1) [OF assms] by (simp_all add: shell_holds_def holds_history_def)
  consider "past ed = []" | "at ed < length (past ed) - 1" | "past ed \<noteq> []" "length (past ed) - 1 \<le> at ed" by linarith
  then show ?thesis
  proof cases
    case 1
    then show ?thesis using assms H by (simp add: down_key_def ed_down_def)
  next
    case 2
    then have "ed_down ed = go_to (at ed + 1) ed" by (auto simp: ed_down_def min_def)
    moreover have "int (at ed) < int (length (past ed)) - 1" using 2 by linarith
    ultimately show ?thesis using 2 H go_to_displays [OF assms, of "at ed + 1"] by (simp add: down_key_def)
  next
    case 3
    then have "ed_down ed = go_to (length (past ed) - 1) ed" by (auto simp: ed_down_def min_def)
    moreover have "\<not> int (at ed) < int (length (past ed)) - 1" using 3 by linarith
    ultimately show ?thesis using 3 H go_to_displays [OF assms, of "length (past ed) - 1"] by (simp add: down_key_def)
  qed
qed

text \<open>The names can be shown, and what commands print ends a line.\<close>

definition table_shown :: "finsh_syscall list \<Rightarrow> bool" where
  "table_shown tab \<longleftrightarrow> (\<forall>e \<in> set tab. list_all printable (sc_name e) \<and> length (sc_name e) < 200)"

definition whole_lines :: "'w commands \<Rightarrow> bool" where
  "whole_lines run \<longleftrightarrow> (\<forall>f args w. ends_line (fst (snd (run f args w))))"

lemma ends_line_append: "ends_line a \<Longrightarrow> ends_line b \<Longrightarrow> ends_line (a @ b)"
  by (cases "b = []") (auto simp: ends_line_def)

lemma ends_line_tab_text:
  assumes "table_shown tab"
  shows "ends_line (tab_text tab t)"
proof -
  have "ends_line (listing ns)" if "\<forall>n \<in> set ns. length n < 200" for ns
    using that
  proof (induction ns)
    case (Cons n ns)
    have "ends_line ((n @ [10]) @ listing ns)" by (rule ends_line_append) (use Cons in \<open>simp_all add: ends_line_def\<close>)
    moreover have "listing (n # ns) = (n @ [10]) @ listing ns" using Cons.prems by (simp add: listing_def short_console)
    ultimately show ?case by simp
  qed (simp add: listing_def)
  moreover have "\<forall>n \<in> set (matches tab t). length n < 200" using assms by (auto simp: matches_def table_shown_def)
  moreover have "ends_line (help_text tab)" by (simp add: ends_line_def help_text_def console_bytes_def [of "[10]"])
  ultimately show ?thesis by (simp add: tab_text_def)
qed

lemma tab_key_displays:
  assumes "displays st ed" "table_ok tab" "table_shown tab" "length (text_of (ed_tab tab ed)) < 80"
  shows "\<exists>st'. tab_key tab st = Some st' \<and> displays st' (ed_tab tab ed)"
proof -
  note D = displaysD [OF assms(1)]
  let ?c = "text_of (ed_tab tab ed)" and ?x = "tab_text tab (text_of ed)" and ?P = "finsh_get_prompt st"
  obtain st' where st': "tab_key tab st = Some st'" "shell_holds st' (ed_tab tab ed)"
    using tab_key_holds [OF D(1) assms(2,4)] by blast
  have c: "left (ed_tab tab ed) = ?c" "right (ed_tab tab ed) = []" "past (ed_tab tab ed) = past ed"
    by (simp_all add: ed_tab_def set_text_def)
  have "list_all printable ?c" using D(10) assms(3) completed_chars [of _ tab "text_of ed"]
    by (fastforce simp: ed_tab_def set_text_def list_all_iff table_shown_def)
  moreover have "show_bytes (replicate (length l) 8 @ console_bytes [10] @ ?x @ console_bytes (?P @ ?c)) (row_of ?P l r k) = row_of ?P ?c [] 0" for l r k
  proof -
    have n: "show_bytes (console_bytes [10]) s = \<lparr>row = [], col = 0, esc = 0\<rparr>" for s by (simp add: console_bytes_def show_newline)
    have "console_bytes (?P @ ?c) = ?P @ ?c" by (rule short_console) (use D(8) assms(4) in simp)
    moreover have "list_all printable (?P @ ?c)" using D(9) \<open>list_all printable ?c\<close> by simp
    ultimately show ?thesis by (simp only: show_append [of "replicate (length l) 8"] show_append [of "console_bytes [10]"]
          show_append [of ?x] n show_ends_line [OF ends_line_tab_text [OF assms(3)]] show_line)
  qed
  ultimately have "displays st' (ed_tab tab ed)"
    by (intro displays_next [OF assms(1) st'(2), of "replicate (length (left ed)) 8 @ console_bytes [10] @ ?x @ console_bytes (?P @ ?c)"])
      (use st'(1) tab_key_ok [OF D(2) assms(2,4)] D(4,7) c(3) in \<open>auto simp: c(1,2)\<close>)
  then show ?thesis using st'(1) by simp
qed

lemma ends_line_outcome:
  assumes "whole_lines run" "ends_line u" "length t < 80"
  shows "ends_line (fst (snd (outcome run (meaning_of tab t) u w)))"
proof (cases "meaning_of tab t")
  case (Unknown v)
  have "length (takeWhile (\<lambda>c. c \<noteq> 32) (dropWhile blank t)) \<le> length t"
    by (meson length_dropWhile_le length_takeWhile_le order_trans)
  then have "length v < 80" using Unknown assms(3) by (auto simp: meaning_of_def split: list.splits option.splits)
  then show ?thesis using Unknown by (simp add: console_bytes_def ascii_def ends_line_def)
next
  case (Call f args)
  then show ?thesis using assms(1,2) by (auto simp: whole_lines_def Let_def split_beta intro: ends_line_append)
qed simp

lemma enter_key_displays:
  assumes "displays st ed" "table_ok tab" "whole_lines run"
  shows "\<exists>st'. enter_key run tab st = Some st' \<and> displays st' (ed_enter run tab ed)"
proof -
  note D = displaysD [OF assms(1)]
  let ?t = "text_of ed" and ?P = "finsh_get_prompt st"
  have h: "holds_history st ed" "37 \<notin> set ?P" "length ?t < 80"
    using D(1) by (simp_all add: shell_holds_def holds_line_def line_text_def)
  obtain st' where st': "enter_key run tab st = Some st'" "shell_holds st' (ed_enter run tab ed)"
    using enter_key_holds [OF D(1) assms(2)] by blast
  obtain u where u: "ends_line u" "enter_key run tab st = Some (case outcome run (meaning_of tab ?t) u (world st) of (_, t, w) \<Rightarrow>
       say ((if echo_mode st then console_bytes [10] else []) @ t @ console_bytes ?P)
         (st\<lparr>cmd_history := rows (remember ?t (past ed)), history_count := length (remember ?t (past ed)),
            current_history := length (remember ?t (past ed)), line := zpad 81 [], line_position := 0, line_curpos := 0, world := w\<rparr>))"
    using enter_key_ok [OF D(2) h(1) assms(2) h(2), of run] by blast
  obtain r1 x w where o1: "outcome run (meaning_of tab ?t) u (world st) = (r1, x, w)" by (metis prod_cases3)
  have x: "ends_line x" using ends_line_outcome [OF assms(3) u(1) h(3), of tab "world st"] o1 by simp
  have n: "show_bytes (console_bytes [10]) s = \<lparr>row = [], col = 0, esc = 0\<rparr>" for s by (simp add: console_bytes_def show_newline)
  have "show_bytes (console_bytes [10] @ x @ console_bytes ?P) s = row_of ?P [] [] 0" for s
  proof -
    have "console_bytes ?P = ?P" by (rule short_console) (use D(8) in simp)
    then show ?thesis using show_line [of ?P "[]"] D(9) by (simp add: show_append n show_ends_line [OF x])
  qed
  moreover obtain p a b where e: "ed_enter run tab ed = ed\<lparr>left := [], right := [], past := remember ?t (past ed), at := a, rest := b\<rparr>"
    by (simp add: ed_enter_def Let_def split_beta)
  moreover have "list_all (list_all printable) (remember ?t (past ed))"
    using D(7,10) by (auto simp: remember_def list_all_iff dest: in_set_dropD)
  ultimately have "displays st' (ed_enter run tab ed)"
    by (intro displays_next [OF assms(1) st'(2), of "console_bytes [10] @ x @ console_bytes ?P"])
      (use st'(1) u(2) o1 D(4) in auto)
  then show ?thesis using st'(1) by simp
qed

lemma mode_displays: "displays st ed \<Longrightarrow> displays (st\<lparr>stat := m\<rparr>) (ed\<lparr>mode := m\<rparr>)"
  by (simp add: displays_def mode_holds)

definition key_shown :: "byte \<Rightarrow> bool" where
  "key_shown c \<longleftrightarrow> printable c \<or> c \<in> {0, 0xFF, 9, 0x7f, 8, 13, 10, 0x1b}"

lemma plain_key_displays:
  assumes "displays st ed" "table_ok tab" "table_shown tab" "whole_lines run" "key_shown ch" "ch \<noteq> 0x1b"
    "length (text_of (ed_plain run tab ch ed)) < 80"
  shows "\<exists>st'. plain_key run tab ch st = Some st' \<and> displays st' (ed_plain run tab ch ed)"
proof -
  have "length (text_of ed) < 79 \<and> printable ch \<or> ch \<in> {0, 0xFF, 9, 0x7f, 8, 13, 10}"
    using assms(5-7) by (auto simp: ed_plain_def text_of_def key_shown_def split: if_splits)
  then show ?thesis using assms char_key_displays [OF assms(1), of ch] tab_key_displays [OF assms(1-3)]
      backspace_key_displays [OF assms(1)] enter_key_displays [OF assms(1,2,4)]
    by (auto simp: plain_key_def ed_plain_def)
qed

lemma shell_key_displays:
  assumes "displays st ed" "table_ok tab" "table_shown tab" "whole_lines run" "key_shown ch"
    "length (text_of (ed_key run tab ch ed)) < 80"
  shows "\<exists>st'. shell_key run tab ch st = Some st' \<and> displays st' (ed_key run tab ch ed)"
proof -
  have m: "stat st = mode ed" using displaysD(1) [OF assms(1)] by (simp add: shell_holds_def)
  have n: "displays (st\<lparr>stat := WAIT_NORMAL\<rparr>) (ed\<lparr>mode := WAIT_NORMAL\<rparr>)" by (rule mode_displays [OF assms(1)])
  show ?thesis
  proof (cases "ch = 0x1b")
    case True
    then show ?thesis using mode_displays [OF assms(1)] by (simp add: shell_key_def ed_key_def)
  next
    case False
    then show ?thesis
      using m assms mode_displays [OF assms(1)] plain_key_displays [OF assms(1-5)] plain_key_displays [OF n assms(2-5)]
        up_key_displays [OF n] down_key_displays [OF n] left_key_displays [OF n] right_key_displays [OF n]
      by (cases "mode ed") (auto simp: shell_key_def ed_key_def Let_def split: if_splits)
  qed
qed

theorem finsh_thread_loop_displays:
  assumes "displays st ed" "table_ok tab" "table_shown tab" "whole_lines run" "list_all key_shown chs" "fits run tab chs ed"
  shows "\<exists>st'. finsh_thread_loop run tab chs st = Some st' \<and> displays st' (ed_run run tab chs ed)"
  using assms
proof (induction chs arbitrary: st ed)
  case (Cons ch chs)
  then obtain st1 where "shell_key run tab ch st = Some st1" "displays st1 (ed_key run tab ch ed)"
    using shell_key_displays [of st ed tab run ch] by auto
  then show ?case using Cons.IH [of st1 "ed_key run tab ch ed"] Cons.prems by simp
qed simp

lemma finsh_thread_start_displays:
  "\<exists>st. finsh_thread_start (finsh_set_prompt_mode 1 (finsh_zero w)) = Some st \<and> displays st (ed_start w)"
proof -
  obtain st where st: "finsh_thread_start (finsh_set_prompt_mode 1 (finsh_zero w)) = Some st" "shell_holds st (ed_start w)" "echo_mode st"
    "con st = ascii ''msh >''" "finsh_get_prompt st = ascii ''msh >''"
    using finsh_thread_start_ok [of w] by (elim exE conjE) (rule that)
  have p: "list_all printable (ascii ''msh >'')" by (simp add: ascii_def printable_def)
  have "screen_of (con st) = row_of (finsh_get_prompt st) (left (ed_start w)) (right (ed_start w)) 0"
    using show_line [of "ascii ''msh >''" "[]"] p st(4,5) by (simp add: screen_of_def ed_start_def)
  moreover have "length (finsh_get_prompt st) \<le> 150" unfolding st(5) by (simp add: ascii_def)
  moreover have "text_of (ed_start w) = []" "past (ed_start w) = []" by (simp_all add: ed_start_def text_of_def)
  ultimately have "displays st (ed_start w)" unfolding displays_def using st(2,3) p st(5) by (intro conjI) (simp_all, rule exI [of _ 0], rule refl)
  then show ?thesis using st(1) by blast
qed

end
