(* ===== verification/Full_Line.thy ===== *)
theory Full_Line
  imports Editor
begin

text \<open>
  A line of 80 characters. The shell sets the position back to zero, to discard the line, but keeps its
  characters; the comments say "clear command line". So the next command gets a last argument that runs into
  the old characters, and after the tab key the position and the cursor disagree, until a backspace moves
  memory outside the line.
\<close>

subsection \<open>The state after eighty characters\<close>

text \<open>A key that types a character.\<close>

definition types :: "byte \<Rightarrow> bool" where
  "types c \<longleftrightarrow> c \<notin> {0, 0xFF, 9, 0x7f, 8, 13, 10, 0x1b}"

lemma types_key: "types c \<Longrightarrow> stat st = WAIT_NORMAL \<Longrightarrow> shell_key run tab c st = char_key c st"
  by (simp add: types_def shell_key_def plain_key_def)

lemma types_ed: "types c \<Longrightarrow> mode ed = WAIT_NORMAL \<Longrightarrow> ed_key run tab c ed = ed\<lparr>left := left ed @ [c]\<rparr>"
  by (simp add: types_def ed_key_def ed_plain_def)

lemma type_run:
  assumes "list_all types s" "mode ed = WAIT_NORMAL" "length (text_of ed) + length s < 80"
  shows "fits run tab s ed \<and> ed_run run tab s ed = ed\<lparr>left := left ed @ s\<rparr>"
  using assms
proof (induction s arbitrary: ed)
  case (Cons c s)
  then show ?case using Cons.IH [of "ed\<lparr>left := left ed @ [c]\<rparr>"] types_ed [of c ed run tab] by (simp add: text_of_def)
qed simp

lemma finsh_thread_loop_append:
  "finsh_thread_loop run tab (a @ b) st = do { st \<leftarrow> finsh_thread_loop run tab a st; finsh_thread_loop run tab b st }"
proof (induction a arbitrary: st)
  case (Cons c a)
  then show ?case by (cases "shell_key run tab c st") simp_all
qed simp

text \<open>A character at the end of the line.\<close>

lemma char_key_end:
  assumes "p = (if 80 \<le> line_position st then 0 else line_position st)" "p \<le> line_curpos st" "line_curpos st < 65535"
    "mem_write (line st) p [c] = Some l"
  shows "char_key c st = Some (say (if echo_mode st then console_bytes [c] else [])
    (st\<lparr>line := l, line_position := (if p = 79 then 0 else p + 1), line_curpos := (if p = 79 then 0 else line_curpos st + 1)\<rparr>))"
  using assms by (cases "echo_mode st") (auto simp: char_key_def printf_char say_def Let_def split: if_splits)

text \<open>The position is back at zero, the characters are still there.\<close>

definition overfull :: "byte list \<Rightarrow> 'w tty \<Rightarrow> bool" where
  "overfull s st \<longleftrightarrow> stat st = WAIT_NORMAL \<and> line st = s @ [0] \<and> line_position st = 0 \<and> line_curpos st = 0 \<and>
     length (cmd_history st) = FINSH_HISTORY_LINES \<and> history_count st \<le> FINSH_HISTORY_LINES \<and> 37 \<notin> set (finsh_get_prompt st)"

lemma full_line:
  assumes "shell_holds st ed" "text_of ed = []" "mode ed = WAIT_NORMAL" "table_ok tab" "list_all types s" "length s = 80"
  shows "\<exists>st'. finsh_thread_loop run tab s st = Some st' \<and> overfull s st' \<and> world st' = world st"
proof -
  obtain s' c where s: "s = s' @ [c]" "length s' = 79" using assms(6) by (cases s rule: rev_cases) auto
  have f: "fits run tab s' ed" "ed_run run tab s' ed = ed\<lparr>left := left ed @ s'\<rparr>"
    using type_run [of s' ed] assms(2,3,5) s by simp_all
  obtain st1 where st1: "finsh_thread_loop run tab s' st = Some st1" "shell_holds st1 (ed\<lparr>left := left ed @ s'\<rparr>)"
    using finsh_thread_loop_ok [OF assms(1,4) f(1)] f(2) by auto
  have e: "left ed = []" "right ed = []" using assms(2) by (simp_all add: text_of_def)
  have h: "line st1 = zpad 81 s'" "line_position st1 = 79" "line_curpos st1 = 79" "stat st1 = WAIT_NORMAL" "world st1 = world st"
      "37 \<notin> set (finsh_get_prompt st1)" "length (cmd_history st1) = 5" "history_count st1 \<le> 5"
    using st1(2) assms(1,3) s(2) e by (simp_all add: shell_holds_def holds_line_def holds_history_def text_of_def length_rows)
  have "zpad 81 s' = s' @ [0] @ [0]" using s(2) by (simp add: zpad_def numeral_eq_Suc)
  then have w: "mem_write (line st1) 79 [c] = Some (s @ [0])" using write_at [of 79 s' "[c]" "[0]" "[0]"] h(1) s by simp
  have "shell_key run tab c st1 = char_key c st1" using types_key [of c st1] assms(5) s(1) h(4) by simp
  moreover have "\<exists>st'. char_key c st1 = Some st' \<and> overfull s st' \<and> world st' = world st"
    using char_key_end [of 79 st1 c "s @ [0]"] w h by (simp add: overfull_def)
  ultimately show ?thesis using st1(1) s(1) by (auto simp: finsh_thread_loop_append)
qed

subsection \<open>Memory outside the line\<close>

theorem overfull_corrupts:
  assumes "overfull s st" "list_all types s" "length s = 80" "table_ok tab" "matches tab s = []" "types c"
  shows "\<exists>st'. finsh_thread_loop run tab [9, c, 8] st = Some st' \<and> line_position st' = 0 \<and> line_curpos st' = 80 \<and>
    shell_key run tab 8 st' = None"
proof -
  note O = assms(1) [unfolded overfull_def]
  have nz: "0 \<notin> set s" using assms(2) by (auto simp: list_all_iff types_def)
  have ne: "s \<noteq> []" using assms(3) by auto
  have ln: "line st = s @ [0]" using O by simp
  have cm: "completed tab s = s" using assms(5) by (simp add: completed_def)
  have ac: "msh_auto_complete tab (line st) cn = Some (s @ [0], cn @ listing [])" for cn
    using msh_auto_complete_ok [OF assms(4) nz, of "[]" cn] cm ne ln by (simp add: assms(5))
  have cs: "cstring (s @ [0]) 0 = Some s" using cstring_at [of s 0 "[]" "[]"] nz by simp
  obtain st1 where st1: "shell_key run tab 9 st = Some st1" "line st1 = s @ [0]" "line_position st1 = 80" "line_curpos st1 = 80"
    "stat st1 = WAIT_NORMAL"
    using O ac cs assms(3)
    by (simp add: shell_key_def plain_key_def tab_key_def backs_ok shell_auto_complete_def printf_plain printf_texts set_position_def)
  obtain x s' where s: "s = x # s'" using ne by (cases s) auto
  obtain st2 where st2: "shell_key run tab c st1 = Some st2" "line st2 = c # s' @ [0]" "line_position st2 = 1" "line_curpos st2 = 81"
    "stat st2 = WAIT_NORMAL"
    using types_key [OF assms(6) st1(5), of run tab] char_key_end [of 0 st1 c "c # s' @ [0]"] st1 s by (simp add: mem_write_def)
  obtain st3 where st3: "shell_key run tab 8 st2 = Some st3" "line st3 = 0 # s' @ [0]" "line_position st3 = 0" "line_curpos st3 = 80"
    "stat st3 = WAIT_NORMAL"
    using st2 s by (simp add: shell_key_def plain_key_def backspace_key_def printf_plain mem_write_def)
  have "shell_key run tab 8 st3 = None"
    using st3 s assms(3) by (simp add: shell_key_def plain_key_def backspace_key_def mem_read_def)
  then show ?thesis using st1 st2 st3 by auto
qed

subsection \<open>Old characters in an argument\<close>

text \<open>What is typed next is written over the old characters.\<close>

lemma type_over:
  assumes "list_all types w" "stat st = WAIT_NORMAL" "line st = a @ t" "line_position st = length a" "line_curpos st = length a"
    "length a + length w < 80" "length w \<le> length t"
  shows "\<exists>st'. finsh_thread_loop run tab w st = Some st' \<and> stat st' = WAIT_NORMAL \<and> line st' = a @ w @ drop (length w) t \<and>
    line_position st' = length (a @ w) \<and> line_curpos st' = length (a @ w) \<and> cmd_history st' = cmd_history st \<and>
    history_count st' = history_count st \<and> finsh_get_prompt st' = finsh_get_prompt st \<and> world st' = world st"
  using assms
proof (induction w arbitrary: st a t)
  case (Cons c w)
  then obtain x t' where t: "t = x # t'" by (cases t) auto
  have "mem_write (line st) (length a) [c] = Some ((a @ [c]) @ t')" using write_at [of "length a" a "[c]" "[x]" t'] Cons.prems(3) t by simp
  then have "shell_key run tab c st = Some (say (if echo_mode st then console_bytes [c] else [])
      (st\<lparr>line := (a @ [c]) @ t', line_position := length (a @ [c]), line_curpos := length (a @ [c])\<rparr>))"
    using Cons.prems types_key [of c st run tab] char_key_end [of "length a" st c "(a @ [c]) @ t'"] by simp
  then show ?case using Cons.prems t
      Cons.IH [of "say (if echo_mode st then console_bytes [c] else [])
        (st\<lparr>line := (a @ [c]) @ t', line_position := length (a @ [c]), line_curpos := length (a @ [c])\<rparr>)" "a @ [c]" t'] by simp
qed simp

lemma fill_row_total:
  assumes "i < length (cmd_history st)" "line_position st \<le> 80" "80 \<le> length (line st)"
  shows "fill_row i st = Some (st\<lparr>cmd_history := (cmd_history st)[i := take (line_position st) (line st) @ replicate (80 - line_position st) 0]\<rparr>)"
  using assms by (simp add: fill_row_def history_row_def mem_write_def)

lemma length_moved: "length (foldl (\<lambda>h i. h[i := h ! Suc i]) h ns) = length h"
  by (induction ns arbitrary: h) simp_all

lemma push_total:
  assumes "length (cmd_history st) = 5" "history_count st \<le> 5" "line_position st < 80" "80 \<le> length (line st)"
  shows "\<exists>st'. shell_push_history st = Some st' \<and> line st' = line st \<and> line_position st' = line_position st \<and>
    world st' = world st \<and> con st' = con st \<and> echo_mode st' = echo_mode st \<and> finsh_get_prompt st' = finsh_get_prompt st"
proof (cases "history_count st = 5")
  case True
  then show ?thesis using assms
    by (auto simp: shell_push_history_def history_row_def move_history_def fill_row_total length_moved)
next
  case False
  then show ?thesis using assms
    by (cases "history_count st = 0") (auto simp: shell_push_history_def history_row_def fill_row_total)
qed

text \<open>
  The argument of a command typed after a full line is the command followed by the rest of the full line.
\<close>

theorem overfull_argument:
  assumes "overfull s st" "list_all types s" "length s = 80" "table_ok tab" "list_all types w" "length w < 80"
    "w = c # w'" "c \<noteq> 34" "\<forall>x \<in> set w. \<not> blank x" "find (\<lambda>e. sc_name e = w) tab = Some e"
  shows "\<exists>st'. finsh_thread_loop run tab (w @ [13]) st = Some st' \<and>
    world st' = snd (snd (run (sc_func e) [w @ drop (length w) s] (world st)))"
proof -
  note O = assms(1) [unfolded overfull_def]
  obtain x z where xz: "drop (length w) s = x # z" "drop (length w) (s @ [0]) = x # z @ [0]"
    using assms(3,6) by (cases "drop (length w) s") auto
  have nz: "0 \<notin> set s" "0 \<notin> set w" using assms(2,5) by (auto simp: list_all_iff types_def)
  let ?b = "w @ x # z @ [0]"
  have "length (x # z) = 80 - length w" using xz(1) assms(3) by (metis length_drop)
  then have b: "length ?b = 81" "?b = (w @ drop (length w) s) @ [0]" using xz(1) assms(6) by simp_all
  obtain st1 where st1: "finsh_thread_loop run tab w st = Some st1" "stat st1 = WAIT_NORMAL" "line st1 = ?b"
    "line_position st1 = length w" "cmd_history st1 = cmd_history st" "history_count st1 = history_count st"
    "finsh_get_prompt st1 = finsh_get_prompt st" "world st1 = world st"
    using type_over [OF assms(5), of st "[]" "s @ [0]" run tab] O assms(3,6) xz(2) by auto
  obtain st2 where st2: "shell_push_history st1 = Some st2" "line st2 = ?b" "line_position st2 = length w" "world st2 = world st"
    "finsh_get_prompt st2 = finsh_get_prompt st"
    using push_total [of st1] st1 O assms(6) b(1) by auto
  have ws: "word w = w" using assms(9) by (simp add: word_def takeWhile_eq_all_conv)
  have wl: "word_loop ?b 0 (length w) 0 = Some (length w)"
    using word_loop_ok [of 0 0 "[]" "length w" w x "z @ [0]"] ws by simp
  have "0 \<notin> set (w @ x # z)" using nz xz(1) by (metis Un_iff in_set_dropD set_append)
  then have cs: "cstring ?b 0 = Some (w @ drop (length w) s)"
    using cstring_at [of "w @ x # z" 0 "[]" "[]"] xz(1) by simp
  have sp: "msh_split ?b 0 (length w) cn = Some ([0], ?b, cn)" for cn
  proof -
    have "strip_loop ?b 0 (length w) 0 = Some (0, ?b)" using assms(7,9) by (subst strip_loop.simps) (simp add: deref_def)
    then show ?thesis using wl assms(7,8) by (simp add: msh_split_def split_loop.simps [of _ _ _ 0] deref_def)
  qed
  have gc: "msh_get_cmd tab ?b 0 (length w) = Some (Some (sc_func e))"
    using msh_get_cmd_ok [OF assms(4) nz(2), of "[]"] assms(10) by simp
  obtain ret tx u where r: "run (sc_func e) [w @ drop (length w) s] (world st) = (ret, tx, u)" by (metis prod_cases3)
  have "msh_exec_cmd run tab ?b 0 (length w) cn (world st) = Some (Some ret, ?b, cn @ tx, u)" for cn
    using wl gc sp cs r assms(7) by (simp add: msh_exec_cmd_def arg_strings_def)
  moreover have "trim_loop ?b 0 (length w) = Some (0, length w)" using assms(7,9) by (simp add: deref_def)
  ultimately have ex: "msh_exec run tab ?b (length w) cn (world st) = Some (ret, ?b, cn @ tx, u)" for cn
    using assms(7) by (simp add: msh_exec_def)
  have "\<exists>st'. enter_key run tab st1 = Some st' \<and> world st' = u"
    using st2 ex O by (cases "echo_mode st2") (simp_all add: enter_key_def printf_plain)
  moreover have "shell_key run tab 13 st1 = enter_key run tab st1" using st1(2) by (simp add: shell_key_def plain_key_def)
  ultimately show ?thesis using st1(1) r by (auto simp: finsh_thread_loop_append)
qed

end
