(* ===== verification/Tshell.thy ===== *)
theory Tshell
  imports Editor Kdevice Ipc_Sem
begin

text \<open>
  The thread of the shell and its device (shell.c), with the console of the kernel (kservice.c): how the shell is
  created, how it takes characters from the device, and how it changes the device. It is shown that
  the change keeps both devices in order, counts their references, and starts an empty line.
\<close>

subsection \<open>State\<close>

text \<open>
  The rest of the system, as the shell sees it: the kernel, the devices by their objects, the device and the semaphore
  of the shell, and the console.
\<close>

record 'd machine =
  mach_kernel :: kernel
  mach_devs :: "nat \<Rightarrow> 'd dev"
  shell_device :: "nat option"
  rx_sem :: nat
  console_device :: "nat option"

definition upd_world :: "('w \<Rightarrow> 'w) \<Rightarrow> 'w tty \<Rightarrow> 'w tty" where
  "upd_world f st = st\<lparr>world := f (world st)\<rparr>"

text \<open>A call of the device framework on one device.\<close>

definition on_device :: "nat \<Rightarrow> ('d, 'r) dev_call \<Rightarrow> 'd machine \<Rightarrow> ('r \<times> 'd machine) option" where
  "on_device dev f M = do {
     (r, d, k) \<leftarrow> f (mach_devs M dev) (mach_kernel M);
     Some (r, M\<lparr>mach_kernel := k, mach_devs := (mach_devs M)(dev := d)\<rparr>) }"

definition set_indicate :: "container \<Rightarrow> nat \<Rightarrow> nat option \<Rightarrow> 'd machine \<Rightarrow> 'd machine option" where
  "set_indicate c dev f M = do {
     (_, d) \<leftarrow> rt_device_set_rx_indicate c dev f (mach_devs M dev);
     Some (M\<lparr>mach_devs := (mach_devs M)(dev := d)\<rparr>) }"

definition find_device :: "container \<Rightarrow> nat \<Rightarrow> 'd machine \<Rightarrow> (nat option \<times> 'd machine) option" where
  "find_device c name M = do {
     (dev, k) \<leftarrow> rt_device_find (Some name) c (mach_kernel M);
     Some (dev, M\<lparr>mach_kernel := k\<rparr>) }"

subsection \<open>The console\<close>

abbreviation (input) OFLAG_CONSOLE :: "16 word" where "OFLAG_CONSOLE \<equiv> 0x003 OR 0x040"
abbreviation (input) OFLAG_SHELL :: "16 word" where "OFLAG_SHELL \<equiv> 0x003 OR 0x100 OR 0x040"

definition rt_console_get_device :: "'d machine \<Rightarrow> nat option" where
  "rt_console_get_device M = console_device M"

definition rt_console_set_device ::
    "(nat \<Rightarrow> ('d, 'c) dev_ops) \<Rightarrow> container \<Rightarrow> nat \<Rightarrow> 'd machine \<Rightarrow> (nat option \<times> 'd machine) option" where
  "rt_console_set_device ops c name M = do {
     let old_device = console_device M;
     (new_device, M) \<leftarrow> find_device c name M;
     if new_device = old_device then Some (None, M)
     else case new_device of
         None \<Rightarrow> Some (old_device, M)
       | Some dev \<Rightarrow> do {
           M \<leftarrow> (case console_device M of
                None \<Rightarrow> Some M
              | Some old \<Rightarrow> map_option snd (on_device old (rt_device_close (ops old) c old) M));
           (_, M) \<leftarrow> on_device dev (rt_device_open (ops dev) c dev OFLAG_CONSOLE) M;
           Some (old_device, M\<lparr>console_device := Some dev\<rparr>) } }"

subsection \<open>The device of the shell\<close>

text \<open>The callback, and the number it is installed by.\<close>

definition finsh_rx_ind :: "'d machine \<Rightarrow> (int \<times> 'd machine) option" where
  "finsh_rx_ind M = do {
     (_, k) \<leftarrow> rt_sem_release (rx_sem M) (mach_kernel M);
     Some (RT_EOK, M\<lparr>mach_kernel := k\<rparr>) }"

abbreviation (input) FINSH_RX_IND :: nat where "FINSH_RX_IND \<equiv> 2"

text \<open>The old device is closed, and the line is cleared.\<close>

definition leave_device :: "(nat \<Rightarrow> ('d, 'c) dev_ops) \<Rightarrow> container \<Rightarrow> 'd machine \<Rightarrow> 'd machine option" where
  "leave_device ops c M =
     (case shell_device M of
        None \<Rightarrow> Some M
      | Some old \<Rightarrow> do {
          (_, M) \<leftarrow> on_device old (rt_device_close (ops old) c old) M;
          set_indicate c old None M })"

text \<open>\<open>s\<close> is the string at \<open>name\<close>.\<close>

definition finsh_set_device ::
    "(nat \<Rightarrow> ('d, 'c) dev_ops) \<Rightarrow> container \<Rightarrow> nat \<Rightarrow> byte list \<Rightarrow> 'd machine tty \<Rightarrow> 'd machine tty option" where
  "finsh_set_device ops c name s st = do {
     (dev, M) \<leftarrow> find_device c name (world st);
     let st = st\<lparr>world := M\<rparr>;
     case dev of
       None \<Rightarrow> printf (ascii ''finsh: can not find device: %s'' @ [10]) [Arg_Str (Some s)] st
     | Some dev \<Rightarrow>
         if Some dev = shell_device M then Some st
         else do {
           (r, M) \<leftarrow> on_device dev (rt_device_open (ops dev) c dev OFLAG_SHELL) M;
           let st = st\<lparr>world := M\<rparr>;
           if r = RT_EOK then do {
             M \<leftarrow> leave_device ops c M;
             let st = st\<lparr>line := replicate (length (line st)) 0, line_position := 0, line_curpos := 0\<rparr>;
             M \<leftarrow> set_indicate c dev (Some FINSH_RX_IND) (M\<lparr>shell_device := Some dev\<rparr>);
             Some (st\<lparr>world := M\<rparr>) }
           else Some st } }"

text \<open>The object of the device, whose name is asked for; without a device a null pointer is read.\<close>

definition finsh_get_device :: "'d machine tty \<Rightarrow> nat option" where
  "finsh_get_device st = shell_device (world st)"

text \<open>
  \<open>finsh_getchar\<close> reads, and waits for the callback when there is nothing; it is cut where the thread
  sleeps. \<open>Try dev\<close> is the test of its loop for the device it knows, \<open>Sleeps dev\<close> the sleep.
\<close>

datatype getchar = Key byte | Eof | Try nat | Sleeps nat

definition finsh_getchar :: "'d machine \<Rightarrow> getchar" where
  "finsh_getchar M = (case shell_device M of None \<Rightarrow> Eof | Some dev \<Rightarrow> Try dev)"

text \<open>After the wait: the device may have been changed.\<close>

definition getchar_resume :: "nat \<Rightarrow> 'd machine \<Rightarrow> getchar" where
  "getchar_resume dev M =
     (if shell_device M \<noteq> Some dev then (case shell_device M of None \<Rightarrow> Eof | Some d \<Rightarrow> Try d) else Try dev)"

definition getchar_try :: "(nat \<Rightarrow> ('d, 'c) dev_ops) \<Rightarrow> container \<Rightarrow> nat \<Rightarrow> 'd machine \<Rightarrow> (getchar \<times> 'd machine) option" where
  "getchar_try ops c dev M = do {
     (bs, M) \<leftarrow> on_device dev (rt_device_read (ops dev) c dev (- 1) 1) M;
     if length bs = 1 then Some (Key (hd bs), M)
     else do {
       (r, k) \<leftarrow> rt_sem_take (rx_sem M) RT_WAITING_FOREVER (mach_kernel M);
       let M = M\<lparr>mach_kernel := k\<rparr>;
       Some (case r of Ret _ \<Rightarrow> getchar_resume dev M | Blocked \<Rightarrow> Sleeps dev, M) } }"

subsection \<open>Creating the shell\<close>

text \<open>
  \<open>w\<close> is the rest of the system when \<open>rt_calloc\<close> succeeds, \<open>tid\<close> and \<open>stack\<close> are what the allocations of
  \<open>rt_thread_create\<close> return, \<open>entry\<close> and \<open>texit\<close> addresses of code.
\<close>

definition finsh_system_init ::
    "bool \<Rightarrow> nat option \<Rightarrow> nat option \<Rightarrow> u32 \<Rightarrow> u32 \<Rightarrow> byte list \<Rightarrow> 'd machine \<Rightarrow> (int \<times> 'd machine tty option \<times> byte list) option" where
  "finsh_system_init mem obj stack entry texit out M =
     (if \<not> mem then do { out \<leftarrow> kprintf (ascii ''no memory for shell'' @ [10]) [] out; Some (- 1, None, out) }
      else do {
        (tid, k) \<leftarrow> rt_thread_create obj stack entry 0 texit 4096 20 10 (mach_kernel M);
        (_, k) \<leftarrow> rt_sem_init (rx_sem M) 0 RT_IPC_FLAG_FIFO k;
        let st = finsh_set_prompt_mode 1 (finsh_zero M);
        k \<leftarrow> (case tid of None \<Rightarrow> Some k | Some t \<Rightarrow> map_option snd (rt_thread_startup t k));
        Some (0, Some (st\<lparr>world := M\<lparr>mach_kernel := k\<rparr>, con := out\<rparr>), out) })"

text \<open>The start of \<open>finsh_thread_entry\<close>; \<open>name\<close> and \<open>s\<close> are the address and the string of the name of the console.\<close>

definition finsh_thread_open ::
    "(nat \<Rightarrow> ('d, 'c) dev_ops) \<Rightarrow> container \<Rightarrow> (nat \<Rightarrow> nat \<times> byte list) \<Rightarrow> 'd machine tty \<Rightarrow> 'd machine tty option" where
  "finsh_thread_open ops c name st = do {
     let st = st\<lparr>echo_mode := True\<rparr>;
     st \<leftarrow> (if shell_device (world st) = None
            then (case rt_console_get_device (world st) of
                None \<Rightarrow> Some st
              | Some console \<Rightarrow> finsh_set_device ops c (fst (name console)) (snd (name console)) st)
            else Some st);
     printf (finsh_get_prompt st) [] st }"

subsection \<open>Changing the device\<close>

text \<open>All devices are in order, and in a state the kernel is good for.\<close>

definition devs_ok :: "(nat \<Rightarrow> 'd \<Rightarrow> bool) \<Rightarrow> (nat \<Rightarrow> 'd dev \<Rightarrow> bool) \<Rightarrow> 'd machine \<Rightarrow> bool" where
  "devs_ok sane serves M \<longleftrightarrow> (\<forall>d. dev_ok (sane d) (serves d) (mach_devs M d))"

lemma set_indicate_ok:
  assumes "devs_ok sane serves M" "rt_object_get_type dev c = RT_Object_Class_Device"
    "\<And>d x f. serves d (x\<lparr>rx_indicate := f\<rparr>) = serves d x"
  shows "set_indicate c dev f M = Some (M\<lparr>mach_devs := (mach_devs M)(dev := (mach_devs M dev)\<lparr>rx_indicate := f\<rparr>)\<rparr>)"
    "devs_ok sane serves (M\<lparr>mach_devs := (mach_devs M)(dev := (mach_devs M dev)\<lparr>rx_indicate := f\<rparr>)\<rparr>)"
  using assms by (simp_all add: set_indicate_def rt_device_set_rx_indicate_def is_device_def devs_ok_def dev_ok_def)

lemma open_device_ok:
  assumes "driver (ops dev) (sane dev) (serves dev) good" "devs_ok sane serves M" "good (mach_kernel M)"
    "rt_object_get_type dev c = RT_Object_Class_Device" "dev_ref (mach_devs M dev) < 255"
  obtains r d k where "on_device dev (rt_device_open (ops dev) c dev oflag) M =
      Some (r, M\<lparr>mach_kernel := k, mach_devs := (mach_devs M)(dev := d)\<rparr>)" "good k"
    "devs_ok sane serves (M\<lparr>mach_kernel := k, mach_devs := (mach_devs M)(dev := d)\<rparr>)"
    "dev_ref d = dev_ref (mach_devs M dev) + (if dev_success r then 1 else 0)"
proof -
  have o: "dev_ok (sane dev) (serves dev) (mach_devs M dev)" using assms(2) by (simp add: devs_ok_def)
  obtain r d k where d: "rt_device_open (ops dev) c dev oflag (mach_devs M dev) (mach_kernel M) = Some (r, d, k)"
    "dev_ok (sane dev) (serves dev) d" "good k" "dev_ref d = dev_ref (mach_devs M dev) + (if dev_success r then 1 else 0)"
    by (rule driver.open_counts [OF assms(1) o assms(4,5,3)]) (rule that)
  show thesis by (rule that [of r d k]) (use d assms(2) in \<open>simp_all add: on_device_def devs_ok_def\<close>)
qed

lemma leave_device_ok:
  assumes "\<And>d. driver (ops d) (sane d) (serves d) good" "devs_ok sane serves M" "good (mach_kernel M)"
    "\<And>d. shell_device M = Some d \<Longrightarrow> rt_object_get_type d c = RT_Object_Class_Device"
    "\<And>d x f. serves d (x\<lparr>rx_indicate := f\<rparr>) = serves d x"
  obtains M' where "leave_device ops c M = Some M'" "devs_ok sane serves M'" "good (mach_kernel M')"
    "\<And>d. shell_device M \<noteq> Some d \<Longrightarrow> mach_devs M' d = mach_devs M d"
    "\<And>d. shell_device M = Some d \<Longrightarrow> dev_ref (mach_devs M' d) = dev_ref (mach_devs M d) - 1 \<and> rx_indicate (mach_devs M' d) = None"
proof (cases "shell_device M")
  case None
  then show thesis by (intro that [of M]) (use assms(2,3) in \<open>simp_all add: leave_device_def\<close>)
next
  case (Some old)
  note ty = assms(4) [OF Some]
  have o: "dev_ok (sane old) (serves old) (mach_devs M old)" using assms(2) by (simp add: devs_ok_def)
  obtain r d k where d: "rt_device_close (ops old) c old (mach_devs M old) (mach_kernel M) = Some (r, d, k)"
    "dev_ok (sane old) (serves old) d" "good k" "dev_ref d = dev_ref (mach_devs M old) - 1"
    by (rule driver.close_counts [OF assms(1) o ty assms(3)]) (rule that)
  let ?M = "M\<lparr>mach_kernel := k, mach_devs := (mach_devs M)(old := d)\<rparr>"
  have "devs_ok sane serves ?M" using assms(2) d(2) by (simp add: devs_ok_def)
  note s = set_indicate_ok [OF this ty assms(5), of None]
  have "leave_device ops c M = Some (?M\<lparr>mach_devs := (mach_devs ?M)(old := (mach_devs ?M old)\<lparr>rx_indicate := None\<rparr>)\<rparr>)"
    using Some d(1) s(1) by (simp add: leave_device_def on_device_def)
  then show thesis by (rule that [OF _ s(2)]) (use Some d in auto)
qed

text \<open>
  When the new device opens, the shell has one reference on it and one less on the old one, which no
  longer calls it, and the line is empty; else nothing of the shell changes.
\<close>

theorem finsh_set_device_ok:
  assumes "\<And>d. driver (ops d) (sane d) (serves d) good" "\<And>d x f. serves d (x\<lparr>rx_indicate := f\<rparr>) = serves d x"
    and found: "find_device c name (world st) = Some (Some dev, M)" "shell_device M \<noteq> Some dev"
    and M: "devs_ok sane serves M" "good (mach_kernel M)" "dev_ref (mach_devs M dev) < 255"
      "rt_object_get_type dev c = RT_Object_Class_Device"
      "\<And>d. shell_device M = Some d \<Longrightarrow> rt_object_get_type d c = RT_Object_Class_Device"
  obtains st' where "finsh_set_device ops c name s st = Some st'" "devs_ok sane serves (world st')" "good (mach_kernel (world st'))"
    "(\<exists>M'. shell_device M' = shell_device M \<and> st' = st\<lparr>world := M'\<rparr>) \<or>
     (\<exists>M'. shell_device M' = Some dev \<and> rx_indicate (mach_devs M' dev) = Some FINSH_RX_IND \<and>
        dev_ref (mach_devs M' dev) = dev_ref (mach_devs M dev) + 1 \<and>
        (\<forall>d. shell_device M = Some d \<longrightarrow> dev_ref (mach_devs M' d) = dev_ref (mach_devs M d) - 1 \<and> rx_indicate (mach_devs M' d) = None) \<and>
        st' = st\<lparr>world := M', line := replicate (length (line st)) 0, line_position := 0, line_curpos := 0\<rparr>)"
proof -
  obtain r d k where o: "on_device dev (rt_device_open (ops dev) c dev OFLAG_SHELL) M =
      Some (r, M\<lparr>mach_kernel := k, mach_devs := (mach_devs M)(dev := d)\<rparr>)" "good k"
    "devs_ok sane serves (M\<lparr>mach_kernel := k, mach_devs := (mach_devs M)(dev := d)\<rparr>)"
    "dev_ref d = dev_ref (mach_devs M dev) + (if dev_success r then 1 else 0)"
    by (rule open_device_ok [where ops = ops and dev = dev and sane = sane and serves = serves and good = good, OF assms(1) M(1,2,4,3)]) (rule that)
  let ?M = "M\<lparr>mach_kernel := k, mach_devs := (mach_devs M)(dev := d)\<rparr>"
  show thesis
  proof (cases "r = RT_EOK")
    case False
    then have "finsh_set_device ops c name s st = Some (st\<lparr>world := ?M\<rparr>)"
      using found not_sym [OF found(2)] o(1) by (simp add: finsh_set_device_def)
    then show thesis by (rule that [OF _ _ _ disjI1 [OF exI [of _ ?M]]]) (use o in simp_all)
  next
    case True
    obtain M1 where L: "leave_device ops c ?M = Some M1" "devs_ok sane serves M1" "good (mach_kernel M1)"
      "\<And>d. shell_device ?M \<noteq> Some d \<Longrightarrow> mach_devs M1 d = mach_devs ?M d"
      "\<And>d. shell_device ?M = Some d \<Longrightarrow> dev_ref (mach_devs M1 d) = dev_ref (mach_devs ?M d) - 1 \<and> rx_indicate (mach_devs M1 d) = None"
      by (rule leave_device_ok [where ops = ops and sane = sane and serves = serves and good = good and M = ?M and c = c, OF assms(1) o(3) _ _ assms(2)]) (use o(2) M(5) in auto)
    let ?N = "M1\<lparr>shell_device := Some dev\<rparr>"
    let ?N' = "?N\<lparr>mach_devs := (mach_devs ?N)(dev := (mach_devs ?N dev)\<lparr>rx_indicate := Some FINSH_RX_IND\<rparr>)\<rparr>"
    have "devs_ok sane serves ?N" using L(2) by (simp add: devs_ok_def)
    note s = set_indicate_ok [OF this M(4) assms(2), of "Some FINSH_RX_IND"]
    have "finsh_set_device ops c name s st = Some (st\<lparr>world := ?N', line := replicate (length (line st)) 0, line_position := 0, line_curpos := 0\<rparr>)"
      using found not_sym [OF found(2)] o(1) True L(1) s(1) by (simp add: finsh_set_device_def)
    moreover have "dev_ref (mach_devs ?N' dev) = dev_ref (mach_devs M dev) + 1"
      using L(4) [of dev] found(2) o(4) True by (simp add: dev_success_def)
    moreover have "dev_ref (mach_devs ?N' e) = dev_ref (mach_devs M e) - 1 \<and> rx_indicate (mach_devs ?N' e) = None"
      if "shell_device M = Some e" for e using L(5) [of e] that found(2) by auto
    ultimately show thesis by (intro that [OF _ _ _ disjI2 [OF exI [of _ ?N']]]) (use s(2) L(3) in simp_all)
  qed
qed

text \<open>Without a device the shell gets the end of its input at once, again and again.\<close>

lemma no_device_no_wait: "shell_device M = None \<Longrightarrow> finsh_getchar M = Eof"
  by (simp add: finsh_getchar_def)

text \<open>With a device, or without a console, the thread starts as \<open>Shell\<close> has it.\<close>

lemma finsh_thread_open_plain:
  "shell_device (world st) \<noteq> None \<or> console_device (world st) = None \<Longrightarrow> finsh_thread_open ops c name st = finsh_thread_start st"
  by (auto simp: finsh_thread_open_def finsh_thread_start_def rt_console_get_device_def Let_def)

end
