(* ===== verification/Spec2Isabelle.thy ===== *)
theory Spec2Isabelle
  imports Ringbuffer System Ticking Rover Smem Kprintf Kheap Line Screen Full_Line Tshell
begin

text \<open>
  A model of the software of a rover: its own threads (\<open>src/RT-Thread/applications\<close>) and the RT-Thread
  4.1.0 kernel they run on (\<open>src/RT-Thread/rt-thread/src\<close>), as \<open>src/RT-Thread/rtconfig.h\<close> configures
  it: one 32-bit CPU, 32 priorities, 1000 ticks per second, software timers, the small memory heap,
  assertions on.

  \<^bold>\<open>Parts.\<close> A command decoder reads bytes of a serial line and hands frames to the motor thread
  through a semaphore and a shared buffer, or stops the rover and wakes the infrared beacon; a range
  sensor and two wheel encoders report over the same line. The threads only meet in kernel objects:
  the scheduler switches them, the tick wakes sleepers and ends time slices, semaphores, mutexes,
  events, mailboxes, message queues and memory pools block and resume them.

  \<^bold>\<open>Theories and code.\<close>
  \<^item> \<open>Prelude\<close>: failure of assertions, bounded memory access, rings, alignment; \<open>Chain\<close>: singly
    linked lists in a store; \<open>Fifo\<close>: the interface of bounded queues and what their users may rely
    on, interpreted by \<open>Ringbuffer\<close>, \<open>Ipc_Mailbox\<close> and \<open>Ipc_Mq\<close>.
  \<^item> \<open>Rt_List\<close> (\<open>include/rtservice.h\<close>): the intrusive lists at pointer level, and their refinement
    to the families of lists all other theories use; \<open>Ffs\<close>: \<open>__rt_ffs\<close>, as the project compiles it
    (\<open>rbit\<close> and \<open>clz\<close>, \<open>libcpu/arm/cortex-m3/cpuport.c\<close>), and the two versions with tables of \<open>kservice.c\<close>,
    which give the same.
  \<^item> \<open>Kernel_State\<close> (\<open>include/rtdef.h\<close>): thread control blocks, timers, object records and the record
    \<open>kernel\<close>, whose fields are the static variables of the kernel sources and maps from addresses
    (or numbers that stand for them) to objects.
  \<^item> \<open>Scheduler\<close> (\<open>scheduler.c\<close>), \<open>Timer\<close> (\<open>timer.c\<close>), \<open>Thread\<close> (\<open>thread.c\<close>, \<open>clock.c\<close>, \<open>irq.c\<close>,
    \<open>idle.c\<close>, \<open>cpuport.c\<close>), \<open>Boot\<close> (\<open>components.c\<close>, and of \<open>drivers/board.c\<close> the initialisation of the heap).
  \<^item> \<open>Ipc\<close>, \<open>Ipc_Sem\<close>, \<open>Ipc_Mutex\<close>, \<open>Ipc_Event\<close>, \<open>Ipc_Mailbox\<close>, \<open>Ipc_Mq\<close> (\<open>ipc.c\<close>), \<open>Mempool\<close>
    (\<open>mempool.c\<close>), \<open>Smem\<close> (\<open>mem.c\<close>).
  \<^item> \<open>Frame\<close>: what each call leaves alone; \<open>Objects\<close>: the table of object classes and the interface a
    class has to provide so that its invariant survives the calls on other objects; \<open>System\<close>: all of
    this as one transition system of system calls and ticks; \<open>Ticking\<close>: what ticks do in its reachable states.
  \<^item> \<open>Kmem\<close>, \<open>Kstring\<close>, \<open>Kprintf\<close> (\<open>kservice.c\<close>): memory and string functions and formatted output, over
    a byte-addressed memory; \<open>Kheap\<close> (\<open>kservice.c\<close>): the heap of the system, \<open>Smem\<close> behind a mutex of
    \<open>Ipc_Mutex\<close>, with \<open>Kmem\<close> for the bytes in its blocks.
  \<^item> \<open>Kobject\<close> (\<open>object.c\<close>): the lists of named objects, with the names in memory; \<open>Kdevice\<close> (\<open>device.c\<close>):
    devices with reference counts and the locale \<open>driver\<close>, what the framework asks of a driver; \<open>Completion\<close>
    (\<open>components/drivers/ipc/completion.c\<close>).
  \<^item> \<open>Serial\<close> (\<open>components/drivers/serial/serial.c\<close>): the serial driver and the locale \<open>uart\<close>, what it asks of
    the hardware; a \<open>uart\<close> gives a \<open>driver\<close>. \<open>Usart\<close> (\<open>drivers/drv_usart.c\<close>): the UART of the board, an
    interpretation of \<open>uart\<close>.
  \<^item> \<open>Line\<close>: USART, interrupt handler, receive buffer, callback and decoder thread as one transition
    system.
  \<^item> \<open>Ringbuffer\<close> (\<open>components/drivers/ipc/ringbuffer.c\<close>), \<open>Rover\<close> (\<open>commu.c\<close>, \<open>motor.c\<close>,
    \<open>infrared.c\<close>, \<open>sr04.c\<close>, \<open>encoder.c\<close>).

  \<^item> \<open>Msh\<close> (\<open>components/finsh/msh.c\<close>): the command table, splitting a line in place, running and completing
    it; \<open>Shell\<close> (\<open>components/finsh/shell.c\<close>): the keys, the line and the history, over the record \<open>tty\<close>, the
    structure \<open>finsh_shell\<close> with what the console has got; \<open>Editor\<close>: the editor of a text with a cursor that
    it implements; \<open>Full_Line\<close>: lines of 80 characters; \<open>Screen\<close>: what a terminal shows; \<open>Tshell\<close>
    (\<open>shell.c\<close>, console of \<open>kservice.c\<close>): the thread of the shell and its device.

  \<^bold>\<open>Conventions.\<close> Each C function is a definition of its name. The kernel state is passed
  explicitly; the result is an option, \<open>None\<close> where an assertion fails or memory is accessed out of
  bounds, or where a loop does not end. Error codes are returned as the code's negative numbers. A
  function that blocks is cut where it calls the scheduler: its first part returns \<open>Blocked\<close> or
  \<open>Waiting\<close>, and what the code does when the thread runs again is a second definition (\<open>_resume\<close>).
  Interrupts are disabled inside each part, so a part is one step. Ticks and masks are machine words;
  counters of 8, 15, 16 and 32 bits are naturals with the wrap-around written out, and the lengths that the
  functions for formatted output return are integers reduced to 32 bits with sign (\<open>c_int\<close>). Where the code
  allocates, the result of the allocator is an argument. The function of a user timer is an argument of the check
  (\<open>cb\<close>); where the timers run as part of the system it is \<open>app_callback\<close>, which leaves the kernel as it is: the
  project starts no user timer, so that the results about ticks assume this of functions it might add.

  \<^bold>\<open>What is shown.\<close> \<open>kinv\<close> is the kernel invariant: the ready bitmap and queues agree with the thread
  states, each linked thread is in the list its state names and in no other, timers are linked where
  their flags say, stacks are intact. \<open>punctual\<close> is what the check of the timers needs: the list of
  the hard timers is in the order of expiry, none of them is overdue, and periods are from 1 to 2^31-3 ticks,
  which the code does not check and the model asks of those who initialise or set a timer. The boot sequence establishes both, and every
  call and tick keeps them together with the invariants of all objects in use (\<open>sys_inv\<close>; \<open>Boot\<close>, \<open>System\<close>), so
  that in a reachable state every admissible call returns, ticks included. For the scheduler the lemmas say which
  thread runs; for timers, that a check fires exactly the expired ones and ends, and that a sleeping thread
  is woken by the tick it asked for (\<open>Ticking\<close>); for each object, that the operations refine a
  small specification on every branch (\<open>sem_abs\<close>, \<open>mutex_abs\<close>, \<open>mb_abs\<close>, \<open>mq_abs\<close>, \<open>mp_abs\<close> with
  \<open>spec_...\<close>), and for events which threads a send wakes. \<open>Smem\<close> relates the heap, a run of items, to
  a list of blocks, and shows first fit with splitting, release with merging, and that resizing keeps
  content. \<open>Kmem\<close> reduces the loops over words to loops over bytes; \<open>Kprintf\<close> shows that the text of a
  format does not depend on the buffer (\<open>format_text\<close>), so that the buffer holds what fits of it, and which
  arguments a format needs; \<open>Kheap\<close> shows that a call behind the lock is the allocator's, and where
  aligned blocks lie. \<open>Rover\<close> relates the decoder to a parser of the byte stream and bounds the rounding of the
  motor speeds. \<open>Kobject\<close> shows that a registered object is found by its name; \<open>Kdevice\<close> that a device is marked
  open exactly while it has references; \<open>Serial\<close> that the receive buffer holds the latest bytes in order;
  \<open>Line\<close> that the decoder never sleeps while there are bytes to read, and that what it obeys are the
  commands in the bytes that arrived. There the other threads are any change of the kernel that keeps the
  semaphores in order and the one of the decoder as it is (\<open>elsewhere\<close>). \<open>Msh\<close> shows that a line is split
  into the tokens of its text and runs the command its first word names; \<open>Editor\<close> that the shell is an editor
  while lines stay below 80 characters, \<open>Full_Line\<close> that it is not beyond; \<open>Screen\<close> that a terminal that
  obeys backspace, carriage return, line feed and the erase-line sequence shows the line; \<open>Tshell\<close> that changing
  the device counts references and starts an empty line. What a command does is a parameter, \<open>run\<close>: from
  its arguments and the rest of the system it gives a result, what it prints, and the system.

  \<^bold>\<open>Loops and fuel.\<close> The timer loop gets one unit of fuel more than there are timers in its list, and
  each round takes one out, so it never runs dry (\<open>timer_check_loop_ok\<close>); the loops that resume all
  waiting threads, reclaim defunct threads and empty a message queue get the length of their list
  plus one. The two searches of \<open>mem.c\<close> are partial functions with proofs that they return on every
  heap with room for one block, and do not on a smaller one (\<open>rt_smem_alloc_loops\<close>).

  The loop of the serial interrupt handler runs until the UART has no byte, a partial function that is shown to
  return for every UART.

  \<^bold>\<open>Not modelled.\<close> The kernel objects of \<open>ipc.c\<close>, \<open>thread.c\<close> and \<open>timer.c\<close> are not entered into the object
  container; the services that do so name an object by its address only. The drivers of sensor, pulse encoders and
  PWM (what they deliver is an argument), DMA, the set-up of clocks and pins, the commands of the shell
  (\<open>cmd.c\<close>, which prints the lists of objects), its authentication and file commands, hooks that the
  project does not set, SMP code and allocators that are not configured, vendor libraries. The
  arithmetic of the encoder thread in floating point is modelled for the motor speeds only.
\<close>

section \<open>The booted board\<close>

text \<open>
  The witnesses below apply the properties to the state \<open>booted\<close> that the boot sequence leaves on
  an example memory map: the timer thread 3 runs, the main thread 1 and the idle thread 2 are
  ready, and no object is in use.
\<close>

lemma booted_in_thread: "in_thread booted 3"
  by (simp add: in_thread_def booted)

lemma booted_caller: "caller_runs booted"
  by (simp add: caller_runs_def booted booted_in_thread)

lemma booted_sem: "sem_inv s booted"
  by (simp add: sem_inv_def sem_abs_def booted)

lemma booted_event: "event_inv e booted"
  by (simp add: event_inv_def booted)

definition booted_mutex :: kernel where
  "booted_mutex = snd (rt_mutex_init 7 booted)"

definition booted_mailbox :: kernel where
  "booted_mailbox = snd (rt_mb_init 8 [0, 0] 2 RT_IPC_FLAG_FIFO booted)"

lemma booted_object_init: "\<not> is_ready h \<Longrightarrow> ipc_object_init h booted = booted"
  by (simp add: ipc_object_init_def fun_upd_idem booted)

lemma booted_mutex: "mutex_inv 7 booted_mutex" "in_thread booted_mutex 3"
  using booted_in_thread
  by (simp_all add: booted_mutex_def rt_mutex_init_def booted_object_init mutex_inv_def
      mutex_free_def booted in_thread_def)

lemma booted_mailbox_eq:
  "booted_mailbox = upd_mb 8 (\<lambda>_. \<lparr>mb_flag = RT_IPC_FLAG_FIFO, mb_pool = [0, 0], mb_size = 2, mb_entry = 0,
     mb_in_offset = 0, mb_out_offset = 0\<rparr>) booted"
proof -
  have "ipc_object_init (SenderQ 8) (upd_mb 8 f booted) = upd_mb 8 f (ipc_object_init (SenderQ 8) booted)" for f
    by (simp add: ipc_object_init_def upd_mb_def)
  then show ?thesis by (simp add: booted_mailbox_def rt_mb_init_def booted_object_init)
qed

lemma booted_mailbox: "mb_inv 8 booted_mailbox" "in_thread booted_mailbox 3"
  using booted_in_thread by (simp_all add: booted_mailbox_eq mb_inv_def mb_ok_def booted in_thread_def)

lemma booted_mb:
  "mailboxes booted_mailbox 8 = \<lparr>mb_flag = RT_IPC_FLAG_FIFO, mb_pool = [0, 0], mb_size = 2, mb_entry = 0,
     mb_in_offset = 0, mb_out_offset = 0\<rparr>"
  "mb_list (mailboxes booted_mailbox 8) = []"
  "mb_abs 8 booted_mailbox = \<lparr>letters = [], receivers = [], senders = []\<rparr>"
  by (simp_all add: booted_mailbox_eq mb_abs_def mb_list_def ring_def booted)

lemma distinct_singleton_set:
  assumes "a \<in> set xs" "distinct xs" "set xs \<subseteq> {a}"
  shows "xs = [a]"
proof (cases xs)
  case (Cons b ys)
  then show ?thesis using assms by (cases ys) auto
qed (use assms in simp)

text \<open>A message queue of two messages of four bytes, a pool of two blocks, and a heap of about 1 KiB.\<close>

lemma booted_mq:
  obtains k where "mq_inv 9 k" "in_thread k 3" "mq_abs 9 k = \<lparr>messages = [], mq_receivers = [], mq_senders = []\<rparr>"
    "mq_max_msgs (mqueues k 9) = 2" "mq_msg_size (mqueues k 9) = 4"
proof -
  have a: "RT_ALIGN 4 4 = 4" by (simp add: RT_ALIGN_def RT_ALIGN_DOWN_def)
  have e: "lists booted (SuspQ 9) = []" "lists booted (SenderQ 9) = []" by (simp_all add: booted)
  have p: "16 \<le> length (replicate 16 (0 :: byte))" "(0 :: nat) < 4" "(4 :: nat) \<le> 2 ^ 16 - 4"
    "16 div (RT_ALIGN 4 4 + 4) < 2 ^ 16"
    by (simp_all add: a)
  obtain k where "mq_inv 9 k" "mq_abs 9 k = \<lparr>messages = [], mq_receivers = [], mq_senders = []\<rparr>"
    "mq_max_msgs (mqueues k 9) = 16 div (RT_ALIGN 4 4 + 4)" "mq_msg_size (mqueues k 9) = RT_ALIGN 4 4"
    "in_thread k 3 = in_thread booted 3"
    by (rule rt_mq_init_ok [OF booted(2) e p, where t = 3]) (rule that)
  then show thesis using booted_in_thread by (intro that) (simp_all add: a)
qed

lemma booted_mp:
  obtains k where "mp_inv 5 k" "in_thread k 3" "mp_frees 5 k = [1000, 1012]"
proof -
  have a: "RT_ALIGN 8 4 = 8" "RT_ALIGN_DOWN 24 4 = 24" by (simp_all add: RT_ALIGN_def RT_ALIGN_DOWN_def)
  let ?k = "mp_build 5 1000 24 8 12 2 booted"
  have B: "mp_inv 5 ?k" "mp_frees 5 ?k = map (\<lambda>i. 1000 + i * (8 + 4)) [0..<2]" "threads ?k = threads booted"
    using mp_build_ok [of 2 1000 8 booted 5 24] booted(2,18) by simp_all
  have "in_thread ?k 3"
    using booted_in_thread by (simp add: in_thread_def mp_build_def Let_def ipc_object_init_def)
  then show thesis using that B by (simp add: upt_rec)
qed

lemma example_heap:
  obtains h where "rt_smem_init 1000 1024 (\<lambda>_. 0) = Some h" "smem_rep h [(mem_size_aligned h + 12, False)]"
    "900 \<le> mem_size_aligned h"
proof -
  have p: "1000 + 1024 < (2 :: nat) ^ 32" "96 \<le> (1024 :: nat)" by simp_all
  obtain h where h: "rt_smem_init 1000 1024 (\<lambda>_. 0) = Some h" "smem_rep h [(mem_size_aligned h + 12, False)]"
    "1000 + 1024 \<le> heap_ptr h + mem_size_aligned h + 30" "heap_ptr h = 1056"
    by (rule rt_smem_init_ok [OF p]) (simp add: rt_smem_init_def RT_ALIGN_def RT_ALIGN_DOWN_def Let_def, force)
  then show thesis using that by simp
qed

lemma example_request: "request 100 = 100"
  by (simp add: request_def RT_ALIGN_def RT_ALIGN_DOWN_def)

lemma example_block:
  obtains h m where "smem_rep h ([] @ (112, True) # [(m, False)])" "12 \<le> mem_size_aligned h"
proof (rule example_heap)
  fix h assume h: "smem_rep h [(mem_size_aligned h + 12, False)]" "900 \<le> mem_size_aligned h"
  have p: "12 \<le> mem_size_aligned h" "(0 :: nat) < 100" "(100 :: nat) + 3 < 2 ^ 32" using h(2) by simp_all
  have s: "spec_smem_alloc (request 100) 0 [(mem_size_aligned h + 12, False)] =
      Some (0, [(112, True), (mem_size_aligned h - 100, False)])"
    using h(2) by (simp add: example_request cut_def)
  obtain h' where "smem_rep h' [(112, True), (mem_size_aligned h - 100, False)]" "same_heap h h'"
    using rt_smem_alloc_refines [OF h(1) p] unfolding s by auto
  then show thesis using p(1) by (intro that [of h']) (simp_all add: same_heap_def)
qed

text \<open>
  The serial line of an example: the decoder is thread 3, its device the object 100, open for
  interrupt driven input, with nothing received.
\<close>

definition example_rover :: rover where
  "example_rover = \<lparr>kern = booted, sem_decoder = 0, sem_motorctrl = 1, sem_infrared = 2, RecCmd_Step = 0, rx_index = 0,
     Rx_buffer = [0, 0, 0, 0], sp_data = [0, 0, 0, 0], stop_flag = 0, revc_data = 0, distance = 0,
     send_data = 0, pulse2 = 0, pulse3 = 0\<rparr>"

definition fresh_port :: "usart serial dev" where
  "fresh_port = \<lparr>dev_type = 0, dev_flag = 0x503, dev_open_flag = 0, dev_ref = 0, rx_indicate = None, tx_complete = None,
     drv = \<lparr>ser_config = uart_config, serial_rx = None, serial_tx = None,
       hw = \<lparr>sr = 0, dr = 0, rxneie = False, nvic = False, settings = stm32_settings uart_config, line_out = []\<rparr>\<rparr>\<rparr>"

definition example_setup :: uart_setup where
  "example_setup = \<lparr>hal = \<lambda>_. True, objs = \<lparr>c_mem = \<lambda>_. None, obj_type = \<lambda>_. 0x89, obj_flag = \<lambda>_. 0,
     object_list = \<lambda>_. [], object_size = \<lambda>_. 0\<rparr>, ob = 100, rx_obj = 1, tx_obj = 2, tid = 3\<rparr>"

definition example_line :: line where
  "example_line = \<lparr>rov = example_rover, port = fresh_port\<lparr>dev_flag := 0x513, dev_open_flag := 0x108, dev_ref := 1,
     rx_indicate := Some 1, drv := (drv fresh_port)\<lparr>serial_rx := Some \<lparr>rx_buffer = replicate 64 0, put_index = 0,
       get_index = 0, is_full = False\<rparr>, hw := (hw (drv fresh_port))\<lparr>rxneie := True, nvic := True\<rparr>\<rparr>\<rparr>, place = Reading\<rparr>"

lemma example_line_facts:
  "line_inv example_setup example_line" "place example_line = Reading" "count (decoder_sem example_line) = 0"
  "in_thread (kern (rov example_line)) (tid example_setup)" "fifo_of example_line = []" "held_back example_line = []"
proof -
  show f: "fifo_of example_line = []"
    by (simp add: example_line_def fresh_port_def fifo_of_def fifo_bytes_def rx_length_def)
  have p: "port_ok example_setup example_line"
    by (simp add: example_line_def fresh_port_def example_setup_def port_ok_def is_device_def rt_object_get_type_def port_sane_def
        uart_config_def new_fifo)
  have r: "rover_ok example_line"
    by (simp add: example_line_def example_rover_def rover_ok_def decoder_ok_def booted_sem)
  show "line_inv example_setup example_line"
    using p r f by (simp add: line_inv_def awake_ok_def) (simp add: example_line_def example_rover_def decoder_sem_def sem_abs_def booted)
  show "place example_line = Reading" "count (decoder_sem example_line) = 0" "held_back example_line = []"
    by (simp_all add: example_line_def example_rover_def fresh_port_def decoder_sem_def sem_abs_def booted held_back_def
        usart_incoming_def get_flag_def)
  show "in_thread (kern (rov example_line)) (tid example_setup)"
    by (simp add: example_line_def example_rover_def example_setup_def booted_in_thread)
qed

lemma example_reads:
  obtains l1 where "decoder_read example_setup example_line = Some (None, l1)" "line_inv example_setup l1" "place l1 = Taking"
    "kern (rov l1) = booted" "decoder_sem l1 = decoder_sem example_line" "held_back l1 = []"
  using example_line_facts(1,2)
proof (cases rule: decoder_read_ok)
  case (empty l1)
  have p: "port_ok example_setup example_line" using example_line_facts(1) by (simp add: line_inv_def)
  obtain d where "rt_device_read (ops_of example_setup) (objs example_setup) (ob example_setup) 0 1 (port example_line) booted =
      Some (take 1 (fifo_of example_line), d, booted)"
    by (rule read_port [OF p]) (rule that)
  then have "l1 = example_line\<lparr>port := d, place := Taking\<rparr>"
    using empty(1,2) by (simp add: decoder_read_def example_line_def example_rover_def)
  then show thesis using that empty example_line_facts(6)
    by (simp add: decoder_sem_def example_line_def example_rover_def)
next
  case (byte b l1 cs)
  then show thesis using example_line_facts(5) by simp
qed

text \<open>A container without objects, and one with a device of the empty name.\<close>

definition empty_container :: container where
  "empty_container = \<lparr>c_mem = \<lambda>x. if 100 \<le> x \<and> x < 300 then Some 0 else None, obj_type = \<lambda>_. 0, obj_flag = \<lambda>_. 0,
     object_list = \<lambda>_. [], object_size = \<lambda>_. 0\<rparr>"

lemma example_lock:
  "rt_exit_critical (rt_enter_critical (booted\<lparr>lock_nest := 1\<rparr>)) = Some (booted\<lparr>lock_nest := 1\<rparr>)"
  "interrupt_nest (booted\<lparr>lock_nest := 1\<rparr>) = 0"
  by (simp_all add: rt_exit_critical_def rt_enter_critical_def s16_def booted)

lemma empty_container_facts:
  "container_inv empty_container" "rt_object_get_information RT_Object_Class_Device = Some 7"
  "100 \<notin> registered empty_container" "apart (insert 100 (registered empty_container))"
  "mapped (c_mem empty_container) 100 RT_NAME_MAX" "cstr (c_mem empty_container) 200 []"
  by (auto simp: empty_container_def registered_def container_inv_def apart_def mapped_def
      rt_object_get_information_def container_types_def dom_def)

lemma example_named:
  obtains c where "rt_object_find (Some 100) RT_Object_Class_Device c (booted\<lparr>lock_nest := 1\<rparr>) = Some (Some 100, booted\<lparr>lock_nest := 1\<rparr>)"
    "rt_object_get_type 100 c = RT_Object_Class_Device"
proof -
  note E = empty_container_facts
  have a: "100 + RT_NAME_MAX \<le> (200 :: nat) \<or> 200 + length ([] :: byte list) < 100" by simp
  obtain c where c: "rt_object_init 100 RT_Object_Class_Device 200 empty_container (booted\<lparr>lock_nest := 1\<rparr>) = Some (c, booted\<lparr>lock_nest := 1\<rparr>)"
    "has_name c 100 []" "obj_type c = (obj_type empty_container)(100 := RT_Object_Class_Device OR RT_Object_Class_Static)"
    by (rule rt_object_init_ok [OF E a example_lock(1)]) (rule that)
  have "cstr (c_mem c) 100 []" using c(2) by (simp add: has_name_def padded_simps(1) numeral_eq_Suc)
  then have "rt_object_find (Some 100) RT_Object_Class_Device c (booted\<lparr>lock_nest := 1\<rparr>) = Some (Some 100, booted\<lparr>lock_nest := 1\<rparr>)"
    using rt_object_find_registered [OF E a example_lock(1,2,1)] c(1) by (metis (no_types, lifting) option.inject prod.inject)
  then show thesis using that [of c] c(3) by (simp add: rt_object_get_type_def)
qed

text \<open>A table of commands for the witnesses of the shell, and a command that only logs its call.\<close>

definition example_table :: "finsh_syscall list" where
  "example_table = map (\<lambda>(n, f). \<lparr>sc_name = ascii n, sc_desc = [], sc_func = f\<rparr>)
     [(''ps'', 7), (''list_timer'', 8), (''list_thread'', 9), (''help'', 1)]"

definition log_command :: "(nat \<times> byte list list) list commands" where
  "log_command f args w = (0, [], w @ [(f, args)])"

section \<open>Properties\<close>

text \<open>C1: From the state the boot sequence leaves, every sequence of admissible system calls and ticks keeps the invariant of the kernel (the ready bitmap and queues agree with the thread states, every linked thread and timer is in the list of its state, stacks are intact, the current thread exists) and of every object in use: semaphores, mutexes, events, mailboxes, message queues and memory pools. In every state so reached every admissible call, and every tick interrupt, returns.\<close>

theorem boot_then_invariant:
  assumes "image_ok im" "rtthread_startup im (reset_kernel im) = Some k0" "runs k0 cs tab k"
  shows "kinv k \<and> (\<forall>n c. tab n = Some c \<longrightarrow> obj_inv c n k) \<and> pools_apart tab k \<and>
    (\<forall>c. admissible c tab k \<longrightarrow> (\<exists>k'. do_call c k = Some k'))"
proof -
  have i: "sys_inv tab k" using runs_keep [OF assms(3)] booted_empty [OF assms(1,2)] by blast
  have "\<exists>k'. do_call c k = Some k'" if "admissible c tab k" for c
    using call_returns [OF i that] by (auto simp: keeps_def)
  moreover have "pools_apart tab k" using i by (simp add: sys_inv_def)
  ultimately show ?thesis using sys_invD(1,3) [OF i] by blast
qed

theorem boot_then_invariant_witness:
  "\<exists>tab k. runs booted [Sys_enter_critical, Sys_sem_init 0 1 RT_IPC_FLAG_FIFO, Sys_sem_release 0] tab k \<and>
     tab 0 = Some RT_Object_Class_Semaphore \<and> sem_inv 0 k"
proof -
  let ?k1 = "rt_enter_critical booted" and ?c = "Sys_sem_init 0 1 RT_IPC_FLAG_FIFO"
  let ?tab = "[0 \<mapsto> RT_Object_Class_Semaphore]"
  have a: "runs booted ([] @ [Sys_enter_critical]) (\<lambda>_. None) ?k1"
    using runs.call [OF runs.start, of Sys_enter_critical] by simp
  have "admissible ?c (\<lambda>_. None) ?k1" by simp
  moreover obtain k2 where k2: "do_call ?c ?k1 = Some k2"
    using boot_then_invariant [OF board_ok booted(1) a] \<open>admissible ?c (\<lambda>_. None) ?k1\<close> by blast
  ultimately have b: "runs booted (([] @ [Sys_enter_critical]) @ [?c]) ?tab k2"
    using runs.call [OF a _ k2] by simp
  have r: "admissible (Sys_sem_release 0) ?tab k2" by simp
  then obtain k3 where k3: "do_call (Sys_sem_release 0) k2 = Some k3"
    using boot_then_invariant [OF board_ok booted(1) b] by blast
  have c: "runs booted ((([] @ [Sys_enter_critical]) @ [?c]) @ [Sys_sem_release 0]) ?tab k3"
    using runs.call [OF b r k3] by simp
  have "\<forall>n cl. ?tab n = Some cl \<longrightarrow> obj_inv cl n k3" using boot_then_invariant [OF board_ok booted(1) c] by blast
  then have "obj_inv RT_Object_Class_Semaphore 0 k3" by (meson fun_upd_same)
  then show ?thesis using c by (intro exI [of _ ?tab] exI [of _ k3]) simp
qed

text \<open>C2: In every reachable state at most one thread is running, and it is the current one; a ready thread is in the ready queue of its priority, with the bit of that priority set; no thread is in two lists.\<close>

theorem reachable_thread_states:
  assumes "image_ok im" "rtthread_startup im (reset_kernel im) = Some k0" "runs k0 cs tab k"
  shows "(\<forall>t. th_stat (threads k t) = RT_THREAD_RUNNING \<longrightarrow> current_thread k = Some t) \<and>
    (\<forall>t. th_stat (threads k t) = RT_THREAD_READY \<longrightarrow>
       t \<in> set (lists k (ReadyQ (current_priority (threads k t)))) \<and>
       bit (ready_group k) (current_priority (threads k t))) \<and>
    (\<forall>t h g. t \<in> set (lists k h) \<longrightarrow> t \<in> set (lists k g) \<longrightarrow> h = g)"
proof -
  have "kinv k" using runs_keep [OF assms(3)] booted_empty [OF assms(1,2)] sys_invD(1) by blast
  note S = sched_invD [OF kinvD(2) [OF this]]
  have p: "current_priority (threads k t) < 32" if "th_stat (threads k t) = RT_THREAD_READY" for t
    using S(3) [of t] that by (simp add: started_def)
  show ?thesis using S(2,6,7) wf_listsD(2) [OF S(1)] p by (auto dest: length_pos_if_in_set)
qed

theorem reachable_thread_states_witness:
  "runs booted [Sys_enter_critical] (\<lambda>_. None) (rt_enter_critical booted) \<and>
   1 \<in> set (lists (rt_enter_critical booted) (ReadyQ 10))"
proof -
  have a: "runs booted ([] @ [Sys_enter_critical]) (\<lambda>_. None) (rt_enter_critical booted)"
    using runs.call [OF runs.start, of Sys_enter_critical] by simp
  have "th_stat (threads (rt_enter_critical booted) 1) = RT_THREAD_READY"
    "current_priority (threads (rt_enter_critical booted) 1) = 10"
    using booted(7,8) by (simp_all add: rt_enter_critical_def)
  then show ?thesis using reachable_thread_states [OF board_ok booted(1) a] a by (metis append_Nil)
qed

text \<open>C3: With the scheduler unlocked and a thread ready, rt_schedule returns with a running current thread that no ready thread outranks; thread control blocks keep everything but their state and yield mark.\<close>

theorem schedule_runs_highest:
  assumes "sched_ok k" "lock_nest k = 0" "ready_group k \<noteq> 0"
  shows "\<exists>k' c. rt_schedule k = Some k' \<and> sched_ok k' \<and> current_thread k' = Some c \<and>
    th_stat (threads k' c) = RT_THREAD_RUNNING \<and>
    (\<forall>t. th_stat (threads k' t) = RT_THREAD_READY \<longrightarrow>
       current_priority (threads k' c) \<le> current_priority (threads k' t)) \<and>
    (\<forall>t. same_tcb (threads k t) (threads k' t))"
  by (rule schedule_works [OF assms]) blast

theorem schedule_runs_highest_witness:
  "\<exists>k' c. rt_schedule booted = Some k' \<and> current_thread k' = Some c \<and>
     current_priority (threads k' c) \<le> 10"
proof -
  have i: "sched_ok booted" using booted(2) by (simp add: kinv_x_def)
  have "1 \<in> set (lists booted (ReadyQ 10))"
    using sched_invD(6) [OF kinvD(2) [OF booted(2)], of 1] booted(7,8) by simp
  then have "bit (ready_group booted) 10"
    using sched_invD(2) [OF kinvD(2) [OF booted(2)], of 10] by auto
  then have "ready_group booted \<noteq> 0" by auto
  from schedule_runs_highest [OF i booted(5) this] obtain k' c where
    k': "rt_schedule booted = Some k'" "current_thread k' = Some c"
      "\<And>t. th_stat (threads k' t) = RT_THREAD_READY \<Longrightarrow>
         current_priority (threads k' c) \<le> current_priority (threads k' t)"
      "same_tcb (threads booted 1) (threads k' 1)" "th_stat (threads k' c) = RT_THREAD_RUNNING" "sched_ok k'"
    by blast
  have p: "current_priority (threads k' 1) = 10" using same_tcbD(1) [OF k'(4)] booted(8) by simp
  have "th_stat (threads k' 1) \<in> {RT_THREAD_READY, RT_THREAD_RUNNING}"
    using same_tcbD(10) [OF k'(4)] by (metis booted(7) insertCI)
  then have "current_priority (threads k' c) \<le> 10"
    using k'(3) [of 1] p sched_invD(7) [of "{}" k' 1] k'(2,6) by (auto simp: sched_ok_def)
  then show ?thesis using k'(1,2) by blast
qed

text \<open>C4: However bytes, interrupts, the decoder thread and the rest of the system interleave: while the decoder thread waits for its semaphore the receive buffer is empty, so no wakeup is lost. If besides no byte was lost in the USART or the full buffer and the USART holds none, the speed set is the one of the last speed command in all the bytes that arrived.\<close>

theorem sleeping_decoder_is_done:
  assumes "line_inv B l0" "line_run B l0 es lossy l" "waiting (decoder_sem l) \<noteq> []"
  shows "fifo_of l = [] \<and> (\<not> lossy \<and> held_back l = [] \<longrightarrow>
    sp_data (rov l) = last_speed (sp_data (rov l0)) (decode (pending (rov l0) @ in_line l0 @ arrivals es)))"
  using sleeping_decoder [OF assms] by blast

theorem sleeping_decoder_is_done_witness:
  "\<exists>l. line_run example_setup example_line [Found_none, Took, Arrive 7] False l \<and> waiting (decoder_sem l) = [3] \<and> fifo_of l = []"
proof -
  obtain l1 where l1: "decoder_read example_setup example_line = Some (None, l1)" "line_inv example_setup l1" "place l1 = Taking"
    "kern (rov l1) = booted" "decoder_sem l1 = decoder_sem example_line" "held_back l1 = []"
    by (rule example_reads)
  have t: "in_thread (kern (rov l1)) (tid example_setup)" by (simp add: l1(4) example_setup_def booted_in_thread)
  obtain l2 where l2: "decoder_take l1 = Some l2" "held_back l2 = held_back l1" "waiting (decoder_sem l2) = [3]"
  proof (rule decoder_take_ok [OF l1(2,3) t])
    fix l2 assume "decoder_take l1 = Some l2" "held_back l2 = held_back l1"
      "waiting (decoder_sem l2) = (if count (decoder_sem l1) = 0 then [tid example_setup] else [])"
    then show thesis using that l1(5) example_line_facts(3) by (simp add: example_setup_def)
  qed
  have r1: "line_run example_setup example_line ([] @ [Found_none]) (False \<or> loses example_line Found_none) l1"
    by (rule line_run.step [OF line_run.start line_step.none]) (use l1 example_line_facts(2,4) in simp_all)
  have r2: "line_run example_setup example_line (([] @ [Found_none]) @ [Took]) ((False \<or> loses example_line Found_none) \<or> loses l1 Took) l2"
    by (rule line_run.step [OF r1 line_step.took]) (use l1 l2 t in simp_all)
  note r3 = line_run.step [OF r2 line_step.arrive [where b = 7]]
  define l where "l = l2\<lparr>port := (port l2)\<lparr>drv := (drv (port l2))\<lparr>hw := usart_receive 7 (hw (drv (port l2)))\<rparr>\<rparr>\<rparr>"
  have r: "line_run example_setup example_line [Found_none, Took, Arrive 7] False l"
    using r3 l1(6) l2(2) by (simp add: l_def)
  moreover have w: "waiting (decoder_sem l) = [3]" using l2(3) by (simp add: l_def decoder_sem_def)
  moreover have "fifo_of l = []" using sleeping_decoder_is_done [OF example_line_facts(1) r] w by simp
  ultimately show ?thesis by blast
qed

text \<open>C5: In every state the line can reach, the interrupt handler returns when a byte raises it, and the decoder thread, whenever it has the CPU, completes its next step: it reads, finds nothing, waits, or goes on after a wait.\<close>

theorem line_takes_every_step:
  assumes "line_inv B l0" "line_run B l0 es lossy l"
  shows "(held_back l \<noteq> [] \<and> rxneie (hw (drv (port l))) \<longrightarrow> (\<exists>l'. USART3_IRQHandler B l = Some l' \<and> line_inv B l' \<and> held_back l' = [])) \<and>
    (in_thread (kern (rov l)) (tid B) \<longrightarrow>
      (\<exists>e l'. e \<in> {Found_none, Took, Woke} \<union> range Got \<and> line_step B l e l' \<and> line_inv B l'))"
proof -
  have inv: "line_inv B l" by (rule line_run_ok(1) [OF assms(2,1)])
  show ?thesis
    using line_goes_on(2) [OF inv] line_step_ok(1) [OF inv] interrupt_ok [OF inv] by (metis (no_types))
qed

theorem line_takes_every_step_witness:
  "\<exists>e l'. line_step example_setup example_line e l' \<and> line_inv example_setup l'"
  using line_takes_every_step [OF example_line_facts(1) line_run.start] example_line_facts(4) by blast

text \<open>C6: rt_sem_take is the abstract counting take: it decrements, fails with -RT_ETIMEOUT when not allowed to wait, or suspends the caller behind the semaphore in the order of its flag with its timer set; the invariant (no waiter while the value is positive) is kept.\<close>

theorem sem_take_refines:
  assumes "sem_inv s k" "in_thread k t" "time < 2 ^ 31 - 1"
  shows "\<exists>r k'. rt_sem_take s time k = Some (r, k') \<and> sem_inv s k' \<and>
    (r, sem_abs s k') = spec_take
      (wait_insert (sem_flag (sems k s)) (\<lambda>u. current_priority (threads k u)) t) (time = 0) (sem_abs s k) \<and>
    (r = Blocked \<longrightarrow> th_stat (threads k' t) = RT_THREAD_SUSPEND \<and>
       (0 < time \<longrightarrow> Thread_Timer t \<in> set (timer_lists k' HardTimers) \<and>
          timeout_tick (timers k' (Thread_Timer t)) = rt_tick k + word_of_int time))"
  by (rule rt_sem_take_refines [OF assms]) blast

theorem sem_take_refines_witness:
  "\<exists>k'. rt_sem_take 0 5 booted = Some (Blocked, k') \<and> lists k' (SuspQ 0) = [3] \<and>
     timeout_tick (timers k' (Thread_Timer 3)) = 5"
proof -
  have "(5::int) < 2 ^ 31 - 1" by simp
  from sem_take_refines [OF booted_sem booted_in_thread this, of 0] show ?thesis
    by (auto simp: spec_take_def sem_abs_def booted wait_insert_def)
qed

text \<open>C7: rt_sem_release is the abstract release: it makes the first waiting thread ready and leaves the value, or counts up to 65535, or fails with -RT_EFULL.\<close>

theorem sem_release_refines:
  assumes "sem_inv s k"
  shows "\<exists>r k'. rt_sem_release s k = Some (r, k') \<and> sem_inv s k' \<and>
    (r, sem_abs s k') = spec_release (sem_abs s k) \<and>
    (\<forall>t ts. lists k (SuspQ s) = t # ts \<longrightarrow> th_stat (threads k' t) \<noteq> RT_THREAD_SUSPEND) \<and>
    (\<forall>s'. s' \<noteq> s \<longrightarrow> sem_abs s' k' = sem_abs s' k)"
  by (rule rt_sem_release_refines [OF assms]) blast

theorem sem_release_refines_witness:
  "\<exists>k'. rt_sem_release 0 booted = Some (0, k') \<and> sem_value (sems k' 0) = 1"
  using sem_release_refines [OF booted_sem, of 0]
  by (auto simp: spec_release_def sem_abs_def booted)

text \<open>C8: From the start of the shell thread, on any sequence of keys that keeps the line below 80 characters, the shell neither accesses memory outside its buffers nor fails: it holds the line, cursor, history and escape state of the abstract editor, and the system is what the entered lines made of it.\<close>

theorem shell_is_editor:
  assumes "table_ok tab" "fits cmds tab keys (ed_start w)"
  shows "\<exists>st0 st. finsh_thread_start (finsh_set_prompt_mode 1 (finsh_zero w)) = Some st0 \<and>
    finsh_thread_loop cmds tab keys st0 = Some st \<and> shell_holds st (ed_run cmds tab keys (ed_start w))"
  using finsh_thread_start_ok [of w] finsh_thread_loop_ok [OF _ assms] by blast

theorem shell_is_editor_witness:
  "\<exists>st0 st. finsh_thread_start (finsh_set_prompt_mode 1 (finsh_zero [])) = Some st0 \<and>
    finsh_thread_loop log_command example_table (ascii ''pz'' @ [8] @ ascii ''s  '' @ [34] @ ascii ''a b'' @ [34, 13]) st0 = Some st \<and>
    world st = [(7, [ascii ''ps'', ascii ''a b''])]"
proof -
  let ?keys = "ascii ''pz'' @ [8] @ ascii ''s  '' @ [34] @ ascii ''a b'' @ [34, 13]"
  have "table_ok example_table" by code_simp
  moreover have "fits log_command example_table ?keys (ed_start [])" by code_simp
  moreover have "rest (ed_run log_command example_table ?keys (ed_start [])) = [(7, [ascii ''ps'', ascii ''a b''])]" by code_simp
  ultimately show ?thesis using shell_is_editor [of example_table log_command ?keys "[]"] by (auto simp: shell_holds_def)
qed

text \<open>C9: In such a session, with printable characters and commands that print whole lines, a terminal that gets the bytes the shell prints always shows the prompt and the text in its row, followed by blanks at most, with its cursor where the next character goes, although most keys redraw only a part of the row.\<close>

theorem screen_shows_text:
  assumes "table_ok tab" "table_shown tab" "whole_lines cmds" "list_all key_shown keys" "fits cmds tab keys (ed_start w)"
  defines "ed \<equiv> ed_run cmds tab keys (ed_start w)"
  shows "\<exists>st0 st k. finsh_thread_start (finsh_set_prompt_mode 1 (finsh_zero w)) = Some st0 \<and>
    finsh_thread_loop cmds tab keys st0 = Some st \<and>
    screen_of (con st) = \<lparr>row = finsh_get_prompt st @ left ed @ right ed @ replicate k 32,
      col = length (finsh_get_prompt st) + length (left ed), esc = 0\<rparr>"
proof -
  obtain st0 where "finsh_thread_start (finsh_set_prompt_mode 1 (finsh_zero w)) = Some st0" "displays st0 (ed_start w)"
    using finsh_thread_start_displays [of w] by blast
  moreover from this(2) obtain st where "finsh_thread_loop cmds tab keys st0 = Some st" "displays st ed"
    using finsh_thread_loop_displays [OF _ assms(1-5)] unfolding ed_def by blast
  ultimately show ?thesis unfolding displays_def row_of_def by blast
qed

theorem screen_shows_text_witness:
  "\<exists>st0 st k. finsh_thread_start (finsh_set_prompt_mode 1 (finsh_zero [])) = Some st0 \<and>
    finsh_thread_loop log_command example_table (ascii ''ps'' @ [13] @ ascii ''hp'' @ [27, 91, 68] @ ascii ''el'') st0 = Some st \<and>
    screen_of (con st) = \<lparr>row = finsh_get_prompt st @ ascii ''hel'' @ ascii ''p'' @ replicate k 32,
      col = length (finsh_get_prompt st) + 3, esc = 0\<rparr>"
proof -
  let ?keys = "ascii ''ps'' @ [13] @ ascii ''hp'' @ [27, 91, 68] @ ascii ''el''"
  have "table_ok example_table" "table_shown example_table" by code_simp+
  moreover have "whole_lines log_command" by (simp add: whole_lines_def log_command_def)
  moreover have "list_all key_shown ?keys" "fits log_command example_table ?keys (ed_start [])" by code_simp+
  moreover have "left (ed_run log_command example_table ?keys (ed_start [])) = ascii ''hel''"
    "right (ed_run log_command example_table ?keys (ed_start [])) = ascii ''p''" by code_simp+
  moreover have "length (ascii ''hel'') = 3" by (simp add: ascii_def)
  ultimately show ?thesis using screen_shows_text [of example_table log_command ?keys "[]"] by simp
qed

text \<open>C10: rt_mutex_take is the abstract recursive lock: a free mutex is taken, the owner counts up to 255, another thread waits in priority order or fails with -RT_ETIMEOUT; priority inheritance keeps the invariant that no waiting thread outranks the owner.\<close>

theorem mutex_take_refines:
  assumes "mutex_inv m k" "in_thread k t" "time < 2 ^ 31 - 1"
  shows "\<exists>r k'. rt_mutex_take m time k = Some (r, k') \<and> mutex_inv m k' \<and>
    (r, mutex_abs m k') = spec_lock t
      (wait_insert RT_IPC_FLAG_PRIO (\<lambda>u. current_priority (threads k u)) t) (time = 0) (mutex_abs m k)"
  by (rule rt_mutex_take_refines [OF assms]) blast

theorem mutex_take_refines_witness:
  "\<exists>k'. rt_mutex_take 7 0 booted_mutex = Some (Ret 0, k') \<and> mutex_owner (mutexes k' 7) = Some 3"
proof -
  have "(0::int) < 2 ^ 31 - 1" by simp
  from mutex_take_refines [OF booted_mutex this] show ?thesis
    by (auto simp: spec_lock_def mutex_abs_def booted_mutex_def rt_mutex_init_def)
qed

text \<open>C11: rt_mutex_release is the abstract unlock: only the owner may release, the last release hands the mutex to the first waiting thread or frees it, and gives the owner its original priority back.\<close>

theorem mutex_release_refines:
  assumes "mutex_inv m k" "in_thread k t"
  shows "\<exists>r k'. rt_mutex_release m k = Some (r, k') \<and> mutex_inv m k' \<and>
    (r, mutex_abs m k') = spec_unlock t (mutex_abs m k) \<and>
    (mutex_owner (mutexes k m) = Some t \<longrightarrow> mutex_hold (mutexes k m) = 1 \<longrightarrow>
       current_priority (threads k' t) = original_priority (mutexes k m))"
  by (rule rt_mutex_release_refines [OF assms]) blast

theorem mutex_release_refines_witness:
  "\<exists>k'. rt_mutex_release 7 booted_mutex = Some (- 1, k')"
  using mutex_release_refines [OF booted_mutex]
  by (auto simp: spec_unlock_def mutex_abs_def booted_mutex_def rt_mutex_init_def)

text \<open>C12: rt_event_send wakes, in list order, exactly the waiting threads that the accumulated flags satisfy, hands each its flags, clears what the woken threads ask to clear, and leaves no satisfied thread waiting.\<close>

theorem event_send_wakes_satisfied:
  assumes "event_inv e k" "flags \<noteq> 0"
    "wake_walk (wants k) (ev_set (events k e) OR flags) (lists k (SuspQ e)) = (woken, stay, remain)"
  shows "\<exists>k'. rt_event_send e flags k = Some (RT_EOK, k') \<and> event_inv e k' \<and>
    lists k' (SuspQ e) = stay \<and> ev_set (events k' e) = remain \<and>
    (\<forall>(t, got) \<in> set woken. th_stat (threads k' t) \<noteq> RT_THREAD_SUSPEND \<and>
       (th_error (threads k t) = RT_EOK \<longrightarrow> rt_event_recv_resume t k' = (RT_EOK, Some got)))"
  by (rule rt_event_send_ok [OF assms]) blast

theorem event_send_wakes_satisfied_witness:
  "\<exists>k'. rt_event_send 0 5 booted = Some (0, k') \<and> ev_set (events k' 0) = 5"
  using event_send_wakes_satisfied [OF booted_event, of 5 0 "[]" "[]" 5] by (auto simp: booted)

text \<open>C13: rt_mb_send_wait is the abstract send: with room the value is appended and the first receiver woken, a full mailbox fails with -RT_EFULL or suspends the sender in the second waiting list.\<close>

theorem mailbox_send_refines:
  assumes "mb_inv m k" "in_thread k t" "timeout < 2 ^ 31 - 1"
  shows "\<exists>r k'. rt_mb_send_wait m x timeout k = Some (r, k') \<and> mb_inv m k' \<and>
    (r, mb_abs m k') = spec_send (mb_size (mailboxes k m))
      (wait_insert (mb_flag (mailboxes k m)) (\<lambda>u. current_priority (threads k u)) t)
      x timeout (rt_tick k) (mb_abs m k)"
  by (rule rt_mb_send_wait_refines [OF assms, of x]) blast

theorem mailbox_send_refines_witness:
  "\<exists>k'. rt_mb_send_wait 8 42 0 booted_mailbox = Some (Done 0, k') \<and> mb_list (mailboxes k' 8) = [42]"
proof -
  have "(0::int) < 2 ^ 31 - 1" by simp
  from mailbox_send_refines [OF booted_mailbox this, of 42] show ?thesis
    by (auto simp: spec_send_def booted_mb) (simp add: mb_abs_def)
qed

text \<open>C14: rt_mb_recv is the abstract receive: it takes the oldest value and wakes the first sender, an empty mailbox fails with -RT_ETIMEOUT or suspends the receiver.\<close>

theorem mailbox_recv_refines:
  assumes "mb_inv m k" "in_thread k t" "timeout < 2 ^ 31 - 1"
  shows "\<exists>r k'. rt_mb_recv m timeout k = Some (r, k') \<and> mb_inv m k' \<and>
    (r, mb_abs m k') = spec_recv
      (wait_insert (mb_flag (mailboxes k m)) (\<lambda>u. current_priority (threads k u)) t)
      timeout (rt_tick k) (mb_abs m k)"
  by (rule rt_mb_recv_refines [OF assms]) blast

theorem mailbox_recv_refines_witness:
  "\<exists>k'. rt_mb_recv 8 0 booted_mailbox = Some (Done (- 2, None), k')"
proof -
  have "(0::int) < 2 ^ 31 - 1" by simp
  from mailbox_recv_refines [OF booted_mailbox this] show ?thesis
    by (auto simp: spec_recv_def booted_mb)
qed

text \<open>C15: rt_mq_send_wait acts on the queue of messages as the specification says on every branch: too long a message is refused; with room the message is appended and the first receiver woken; a full queue refuses at once or puts the caller among the senders. It never fails an assertion and keeps the kernel and the block lists well formed.\<close>

theorem mq_send_refines:
  assumes "mq_inv m k" "in_thread k t" "timeout < 2 ^ 31 - 1" "0 < n" "n \<le> length buffer"
  shows "\<exists>r k' others. rt_mq_send_wait m buffer n timeout k = Some (r, k') \<and> mq_inv m k' \<and>
    (r, mq_abs m k') = spec_mq_send (mq_max_msgs (mqueues k m)) (mq_msg_size (mqueues k m))
       (wait_insert (mq_flag (mqueues k m)) (\<lambda>u. current_priority (threads k u)) t)
       (take n buffer) others timeout (rt_tick k) (mq_abs m k) \<and>
    (n \<le> mq_msg_size (mqueues k m) \<longrightarrow> n + length others = mq_msg_size (mqueues k m))"
  by (rule rt_mq_send_wait_refines [OF assms]) blast

theorem mq_send_refines_witness:
  "\<exists>k k' others. rt_mq_send_wait 9 [1, 2, 3] 3 0 k = Some (Done RT_EOK, k') \<and>
     mq_abs 9 k' = \<lparr>messages = [[1, 2, 3] @ others], mq_receivers = [], mq_senders = []\<rparr> \<and> length others = 1"
proof (rule booted_mq)
  fix k assume k: "mq_inv 9 k" "in_thread k 3" "mq_abs 9 k = \<lparr>messages = [], mq_receivers = [], mq_senders = []\<rparr>"
    "mq_max_msgs (mqueues k 9) = 2" "mq_msg_size (mqueues k 9) = 4"
  have "(0 :: int) < 2 ^ 31 - 1" "(0 :: nat) < 3" "(3 :: nat) \<le> length [1, 2, 3 :: byte]" by simp_all
  from mq_send_refines [OF k(1,2) this] show ?thesis unfolding k(3-5) spec_mq_send_def by auto
qed

text \<open>C16: rt_mq_recv takes the oldest message off the queue, delivers it up to the size of the buffer and wakes the first waiting sender; with no message it times out at once or puts the caller among the receivers.\<close>

theorem mq_recv_refines:
  assumes "mq_inv m k" "in_thread k t" "timeout < 2 ^ 31 - 1" "0 < n"
  shows "\<exists>r k'. rt_mq_recv m n timeout k = Some (r, k') \<and> mq_inv m k' \<and>
    (r, mq_abs m k') = spec_mq_recv n
       (wait_insert (mq_flag (mqueues k m)) (\<lambda>u. current_priority (threads k u)) t)
       timeout (rt_tick k) (mq_abs m k)"
  by (rule rt_mq_recv_refines [OF assms]) blast

theorem mq_recv_refines_witness:
  "\<exists>k k'. rt_mq_recv 9 4 100 k = Some (Waiting 100 (rt_tick k), k') \<and> 
     mq_abs 9 k' = \<lparr>messages = [], mq_receivers = [3], mq_senders = []\<rparr>"
proof (rule booted_mq)
  fix k assume k: "mq_inv 9 k" "in_thread k 3" "mq_abs 9 k = \<lparr>messages = [], mq_receivers = [], mq_senders = []\<rparr>"
  have "(100 :: int) < 2 ^ 31 - 1" "(0 :: nat) < 4" by simp_all
  from mq_recv_refines [OF k(1,2) this] show ?thesis
    unfolding k(3) spec_mq_recv_def by (auto simp: wait_insert_Nil)
qed

text \<open>C17: However the critical sections of any number of sends and receives interleave, every block of a message queue is in exactly one place: queued once, free once, or held by one call; and the count of entries is the length of the queue.\<close>

theorem mq_interleaved_blocks:
  assumes "mq_phases q0 X q" "mq_ok q0"
  shows "distinct (mq_blocks q) \<and> distinct (mq_frees q) \<and> set (mq_blocks q) \<inter> set (mq_frees q) = {} \<and>
    X \<inter> (set (mq_blocks q) \<union> set (mq_frees q)) = {} \<and>
    set (mq_blocks q) \<union> set (mq_frees q) \<union> X = {..<mq_max_msgs q} \<and> mq_entry q = length (mq_blocks q)"
proof -
  have "mq_shape X q (mq_blocks q) (mq_frees q)"
    using mq_phases_ok [OF assms] by (simp add: mq_ok_x_def)
  from mq_shapeD(3-5,7,10,11) [OF this] show ?thesis by simp
qed

theorem mq_interleaved_blocks_witness:
  "\<exists>q0 b q. mq_take_free q0 = Some (b, q) \<and> mq_phases q0 {b} q \<and> b \<notin> set (mq_frees q)"
proof (rule booted_mq)
  fix k assume k: "mq_inv 9 k" "mq_abs 9 k = \<lparr>messages = [], mq_receivers = [], mq_senders = []\<rparr>"
    "mq_max_msgs (mqueues k 9) = 2"
  let ?q = "mqueues k 9"
  have ok: "mq_ok ?q" using k(1) by (simp add: mq_inv_def)
  have e: "mq_entry ?q = 0" using mq_ok_length(1) [OF ok] k(2) mq_abs_sel(1) [of 9 k] by simp
  have "mq_entry ?q \<noteq> mq_max_msgs ?q" using e k(3) by simp
  then obtain b q where t: "mq_take_free ?q = Some (b, q)"
    using mq_full_iff [OF ok] by (auto simp: mq_take_free_def split: option.splits)
  have "mq_phases ?q (insert b {}) q" by (rule mq_phases.take_free [OF mq_phases.start t])
  with mq_interleaved_blocks [OF this ok] t show ?thesis by blast
qed

text \<open>C18: On a heap of at least 12 bytes and for a size from 1 to 2^32-4 (beyond that its alignment wraps to 0), rt_smem_alloc takes the first free block of the heap that is large enough, splits off what is left when it can hold a smallest block, and returns no memory when no block is large enough; the search ends, no assertion fails, and the heap stays a run of blocks with no two free neighbours, with its first free block and used bytes recorded.\<close>

theorem smem_alloc_refines:
  assumes "smem_rep h bs" "12 \<le> mem_size_aligned h" "0 < sz" "sz + 3 < 2 ^ 32"
  shows "case spec_smem_alloc (request sz) 0 bs of
      None \<Rightarrow> rt_smem_alloc sz h = Some (None, h)
    | Some (p, cs) \<Rightarrow> (\<exists>h'. rt_smem_alloc sz h = Some (Some (heap_ptr h + p + 12), h') \<and>
        smem_rep h' cs \<and> same_heap h h' \<and> cells h' = cells h)"
  by (rule rt_smem_alloc_refines [OF assms])

theorem smem_alloc_refines_witness:
  "\<exists>h h' m. rt_smem_alloc 100 h = Some (Some (heap_ptr h + 12), h') \<and> smem_rep h' [(112, True), (m, False)]"
proof (rule example_heap)
  fix h assume h: "smem_rep h [(mem_size_aligned h + 12, False)]" "900 \<le> mem_size_aligned h"
  have p: "12 \<le> mem_size_aligned h" "(0 :: nat) < 100" "(100 :: nat) + 3 < 2 ^ 32" using h(2) by simp_all
  have s: "spec_smem_alloc (request 100) 0 [(mem_size_aligned h + 12, False)] =
      Some (0, [(112, True), (mem_size_aligned h - 100, False)])"
    using h(2) by (simp add: example_request cut_def)
  from smem_alloc_refines [OF h(1) p] show ?thesis unfolding s by auto
qed

text \<open>C19: On a heap of at least 12 bytes and for sizes from 1 to 2^32-4, by a caller that holds the heap lock fewer than 255 times, rt_malloc acts as the specification of the allocator says and leaves the heap lock as it was when the lock is free or held by the caller; when another thread holds the lock, the caller waits for it and the heap is untouched.\<close>

theorem malloc_behind_lock:
  assumes "mutex_inv l k" "in_thread k t" "mutex_owner (mutexes k l) = Some t \<Longrightarrow> mutex_hold (mutexes k l) < 255"
    "smem_rep h bs" "12 \<le> mem_size_aligned h" "0 < n" "n + 3 < 2 ^ 32"
  shows "if lock_open l t k
    then \<exists>k' h'. rt_malloc l n k h =
           Some (Ret (map_option (\<lambda>(p, _). heap_ptr h + p + 12) (spec_smem_alloc (request n) 0 bs)), k', h') \<and>
         smem_rep h' (case spec_smem_alloc (request n) 0 bs of None \<Rightarrow> bs | Some (_, cs) \<Rightarrow> cs) \<and> lock_kept l t k k'
    else \<exists>k'. rt_malloc l n k h = Some (Blocked, k', h) \<and> mutex_inv l k' \<and> t \<in> set (lists k' (SuspQ l))"
  by (rule rt_malloc_refines [OF assms])

theorem malloc_behind_lock_witness:
  "\<exists>h a k' h' m. rt_malloc 7 100 booted_mutex h = Some (Ret (Some a), k', h') \<and> smem_rep h' [(112, True), (m, False)]"
proof (rule example_heap)
  fix h assume h: "smem_rep h [(mem_size_aligned h + 12, False)]" "900 \<le> mem_size_aligned h"
  have p: "12 \<le> mem_size_aligned h" "(0 :: nat) < 100" "(100 :: nat) + 3 < 2 ^ 32" using h(2) by simp_all
  have o: "mutex_owner (mutexes booted_mutex 7) = None" by (simp add: booted_mutex_def rt_mutex_init_def)
  then have l: "lock_open 7 3 booted_mutex" by (simp add: lock_open_def)
  have "mutex_owner (mutexes booted_mutex 7) = Some 3 \<Longrightarrow> mutex_hold (mutexes booted_mutex 7) < 255" using o by simp
  from malloc_behind_lock [OF booted_mutex this h(1) p] show ?thesis
    using l h(2) by (fastforce simp: example_request cut_def)
qed

text \<open>C20: rt_smem_free of a used block marks it free and joins all neighbouring free blocks, whatever their arrangement; no assertion fails and the bytes of all blocks are kept.\<close>

theorem smem_free_refines:
  assumes "smem_rep h (xs @ (n, True) # ys)"
  shows "\<exists>h'. rt_smem_free (Some (heap_ptr h + extent xs + 12)) h = Some h' \<and>
    smem_rep h' (join_free (xs @ (n, False) # ys)) \<and> same_heap h h' \<and> cells h' = cells h"
  by (rule rt_smem_free_refines [OF assms]) blast

theorem smem_free_refines_witness:
  "\<exists>h h' m. rt_smem_free (Some (heap_ptr h + 12)) h = Some h' \<and> smem_rep h' [(112 + m, False)]"
proof (rule example_block)
  fix h m assume "smem_rep h ([] @ (112, True) # [(m, False)])"
  from smem_free_refines [OF this] show ?thesis by auto
qed

text \<open>C21: An aligned block is released whole: whatever the caller wrote into the block rt_malloc_align gave it, rt_free_align finds the real block and the heap has its old blocks again.\<close>

theorem malloc_free_align:
  assumes "mutex_inv l k" "in_thread k t" "lock_open l t k" "smem_rep h bs" "12 \<le> mem_size_aligned h"
    "2 \<le> j" "j < 32" "0 < sz" "unat sz + 2 ^ j + 6 < 2 ^ 32"
    "rt_malloc_align l sz (2 ^ j) k h = Some (Ret (Some a), k1, h1)"
    "\<forall>p. \<not> (a \<le> heap_ptr h + p \<and> heap_ptr h + p < a + unat sz) \<longrightarrow> c p = cells h1 p"
  shows "\<exists>k2 h2. rt_free_align l a k1 (h1\<lparr>cells := c\<rparr>) = Some (Ret (), k2, h2) \<and> smem_rep h2 bs \<and> lock_kept l t k k2"
  by (rule rt_malloc_free_align [OF assms])

theorem malloc_free_align_witness:
  "\<exists>h a k1 h1 k2 h2. rt_malloc_align 7 20 (2 ^ 5) booted_mutex h = Some (Ret (Some a), k1, h1) \<and> a mod 32 = 0 \<and>
     rt_free_align 7 a k1 h1 = Some (Ret (), k2, h2) \<and> smem_rep h2 [(mem_size_aligned h + 12, False)]"
proof (rule example_heap)
  fix h assume h: "smem_rep h [(mem_size_aligned h + 12, False)]" "900 \<le> mem_size_aligned h"
  have p: "12 \<le> mem_size_aligned h" "2 \<le> (5 :: nat)" "(5 :: nat) < 32" "0 < (20 :: u32)" "unat (20 :: u32) + 2 ^ 5 + 6 < 2 ^ 32"
    using h(2) by simp_all
  have l: "lock_open 7 3 booted_mutex" by (simp add: lock_open_def booted_mutex_def rt_mutex_init_def)
  show ?thesis
  proof (rule rt_malloc_align_ok [OF booted_mutex l h(1) p])
    assume "rt_smem_alloc (RT_ALIGN (unat (20 :: u32)) 4 + 2 ^ 5) h = Some (None, h)"
    moreover have n: "RT_ALIGN (unat (20 :: u32)) 4 + 2 ^ 5 = 52" by (simp add: RT_ALIGN_def RT_ALIGN_DOWN_def)
    moreover have "request 52 = 52" by (simp add: request_def RT_ALIGN_def RT_ALIGN_DOWN_def)
    ultimately show ?thesis using rt_smem_alloc_refines [OF h(1) p(1), of 52] h(2) by simp
  next
    fix k1 a h0 h1
    assume a: "rt_malloc_align 7 20 (2 ^ 5) booted_mutex h = Some (Ret (Some a), k1, h1)" "a mod 2 ^ 5 = 0"
    have "\<forall>q. \<not> (a \<le> heap_ptr h + q \<and> heap_ptr h + q < a + unat (20 :: u32)) \<longrightarrow> cells h1 q = cells h1 q" by simp
    from malloc_free_align [OF booted_mutex l h(1) p a(1) this] obtain k2 h2 where
      "rt_free_align 7 a k1 h1 = Some (Ret (), k2, h2)" "smem_rep h2 [(mem_size_aligned h + 12, False)]" by auto
    then show ?thesis using a
      by (intro exI [of _ h] exI [of _ a] exI [of _ k1] exI [of _ h1] exI [of _ k2] exI [of _ h2]) simp
  qed
qed

text \<open>C22: rt_smem_realloc of a used block, for every 32-bit size, in a heap of at least 12 bytes. Size 0, and the sizes 2^32-3 to 2^32-1 whose alignment wraps to 0, release the block (its content is given up, nothing else changes but that it joins the free blocks beside it) and return NULL. Every other size loses no data: either the call returns NULL and the heap is unchanged, or the block it returns is large enough, holds the old content up to the smaller of both sizes, and every other live block is still there with its content.\<close>

theorem smem_realloc_keeps:
  assumes "smem_rep h (xs @ (n, True) # ys)" "12 \<le> mem_size_aligned h" "sz < 2 ^ 32"
  shows "if sz = 0 \<or> 2 ^ 32 - 3 \<le> sz
    then \<exists>h'. rt_smem_realloc (Some (heap_ptr h + extent xs + 12)) sz h = Some (None, h') \<and>
      smem_rep h' (join_free (xs @ (n, False) # ys)) \<and> same_heap h h' \<and> cells h' = cells h
    else \<exists>res. rt_smem_realloc (Some (heap_ptr h + extent xs + 12)) sz h = Some res \<and>
      realloc_result h (xs @ (n, True) # ys) (extent xs) n (RT_ALIGN sz 4) res"
  using rt_smem_realloc_release [OF assms(1), of sz] rt_smem_realloc_ok [OF assms(1,2), of sz] assms(3) by auto

theorem smem_realloc_keeps_witness:
  "\<exists>h m res h'. rt_smem_realloc (Some (heap_ptr h + 12)) 200 h = Some res \<and>
     realloc_result h [(112, True), (m, False)] 0 112 200 res \<and>
     rt_smem_realloc (Some (heap_ptr h + 12)) (2 ^ 32 - 1) h = Some (None, h') \<and> smem_rep h' [(112 + m, False)]"
proof (rule example_block)
  fix h m assume h: "smem_rep h ([] @ (112, True) # [(m, False)])" "12 \<le> mem_size_aligned h"
  have a: "RT_ALIGN 200 4 = 200" by (simp add: RT_ALIGN_def RT_ALIGN_DOWN_def)
  have "(200 :: nat) < 2 ^ 32" "(2 ^ 32 - 1 :: nat) < 2 ^ 32" by simp_all
  from this [THEN smem_realloc_keeps [OF h]] show ?thesis unfolding a by (fastforce simp: a)
qed

text \<open>C23: rt_mp_alloc pops a free block of the pool, which no caller holds; with none it returns at once or suspends the caller at the front of the waiting list. The list of free blocks, its count and the owner word of every block in use stay right.\<close>

theorem mp_alloc_refines:
  assumes "mp_inv p k" "in_thread k t" "time < 2 ^ 31 - 1"
  shows "\<exists>r k'. rt_mp_alloc p time k = Some (r, k') \<and> mp_inv p k' \<and>
    (r, mp_abs p k') = spec_mp_alloc t time (rt_tick k) (mp_abs p k) \<and>
    (\<forall>b. r = Done (Some b) \<longrightarrow> b - 4 \<in> mp_cells (mempools k p) \<and> b - 4 \<in> set (mp_frees p k) \<and>
       b - 4 \<notin> set (mp_frees p k'))"
  by (rule rt_mp_alloc_refines [OF assms]) blast

theorem mp_alloc_refines_witness:
  "\<exists>k k'. rt_mp_alloc 5 0 k = Some (Done (Some 1004), k') \<and> mp_frees 5 k' = [1012]"
proof (rule booted_mp)
  fix k assume k: "mp_inv 5 k" "in_thread k 3" "mp_frees 5 k = [1000, 1012]"
  have "(0 :: int) < 2 ^ 31 - 1" by simp
  from mp_alloc_refines [OF k(1,2) this] obtain r k' where
    "rt_mp_alloc 5 0 k = Some (r, k')" "(r, mp_abs 5 k') = spec_mp_alloc 3 0 (rt_tick k) (mp_abs 5 k)" by blast
  moreover from this(2) have "r = Done (Some 1004)" "free_cells (mp_abs 5 k') = [1012]"
    using k(3) unfolding spec_mp_alloc_def by (simp_all del: mp_abs_sel(1) add: mp_abs_sel(1) [of 5 k])
  ultimately show ?thesis by (auto simp: mp_abs_sel)
qed

text \<open>C24: rt_mp_free of a block in use pushes it on the free list of its pool, leaves every other pool and block word alone, and wakes the first waiting thread with no error.\<close>

theorem mp_free_refines:
  assumes "mp_inv p k" "a \<in> mp_cells (mempools k p)" "a \<notin> set (mp_frees p k)"
  shows "\<exists>k'. rt_mp_free (Some (a + 4)) k = Some k' \<and> mp_inv p k' \<and> mp_abs p k' = spec_mp_free a (mp_abs p k) \<and>
    (\<forall>t ts. lists k (SuspQ p) = t # ts \<longrightarrow>
       th_stat (threads k' t) \<noteq> RT_THREAD_SUSPEND \<and> th_error (threads k' t) = RT_EOK) \<and>
    (\<forall>b. b \<noteq> a \<longrightarrow> mp_words k' b = mp_words k b) \<and> (\<forall>q. q \<noteq> p \<longrightarrow> mempools k' q = mempools k q)"
  by (rule rt_mp_free_refines [OF assms]) blast

theorem mp_free_refines_witness:
  "\<exists>k k'. rt_mp_free (Some 1004) k = Some k' \<and> mp_frees 5 k' = [1000, 1012]"
proof (rule booted_mp)
  fix k assume k: "mp_inv 5 k" "in_thread k 3" "mp_frees 5 k = [1000, 1012]"
  have c: "1000 \<in> mp_cells (mempools k 5)" using k mp_okD(3) [of 5 k] by (auto simp: mp_inv_def)
  obtain k1 where k1: "mp_inv 5 k1" "mp_frees 5 k1 = [1012]" "mp_cells (mempools k1 5) = mp_cells (mempools k 5)"
    by (rule mp_alloc_some [OF k(1,3)]) (rule that)
  have "1000 \<in> mp_cells (mempools k1 5)" "1000 \<notin> set (mp_frees 5 k1)" using c k1 by simp_all
  from mp_free_refines [OF k1(1) this] obtain k2 where
    "rt_mp_free (Some (1000 + 4)) k1 = Some k2" "mp_abs 5 k2 = spec_mp_free 1000 (mp_abs 5 k1)" by blast
  moreover from this(2) have "free_cells (mp_abs 5 k2) = 1000 # free_cells (mp_abs 5 k1)"
    by (simp add: spec_mp_free_def del: mp_abs_sel)
  then have "mp_frees 5 k2 = [1000, 1012]" using k1(2) by simp
  ultimately show ?thesis by auto
qed

text \<open>C25: The byte-wise command decoder of the rover does exactly what the commands in the byte stream say: each speed frame replaces the speed data and releases the motor semaphore, each stop raises the flag and releases the infrared semaphore, and everything else is skipped.\<close>

theorem decoder_obeys_stream:
  assumes "decoder_ok r"
  shows "\<exists>r'. commu_decoder_bytes bs r = Some r' \<and> decoder_ok r' \<and>
    rover_view r' = fold obey (decode (pending r @ bs)) (rover_view r)"
  by (rule commu_decoder_bytes_obey [OF assms])

theorem decoder_obeys_stream_witness:
  "\<exists>r'. commu_decoder_bytes [0xAA, 0x55, 1, 2, 3, 4, 0x17, 0xAA, 0x01]
      \<lparr>kern = booted, sem_decoder = 0, sem_motorctrl = 1, sem_infrared = 2, RecCmd_Step = 0, rx_index = 0,
       Rx_buffer = [0, 0, 0, 0], sp_data = [0, 0, 0, 0], stop_flag = 0, revc_data = 0, distance = 0,
       send_data = 0, pulse2 = 0, pulse3 = 0\<rparr> = Some r' \<and>
    sp_data r' = [1, 2, 3, 4] \<and> stop_flag r' = 1 \<and> count (sem_abs (sem_motorctrl r') (kern r')) = 1"
proof -
  let ?r = "\<lparr>kern = booted, sem_decoder = 0, sem_motorctrl = 1, sem_infrared = 2, RecCmd_Step = 0, rx_index = 0,
       Rx_buffer = [0, 0, 0, 0], sp_data = [0, 0, 0, 0], stop_flag = 0, revc_data = 0, distance = 0,
       send_data = 0, pulse2 = 0, pulse3 = 0\<rparr>"
  let ?bs = "[0xAA, 0x55, 1, 2, 3, 4, 0x17, 0xAA, 0x01]"
  have ok: "decoder_ok ?r" by (simp add: decoder_ok_def booted_sem)
  have d: "decode (pending ?r @ ?bs) = [Speed [1, 2, 3, 4], Stop]" by (simp add: pending_def)
  have v: "rover_view ?r = \<lparr>v_speed = [0, 0, 0, 0], v_stop = 0, v_motor = \<lparr>count = 0, waiting = []\<rparr>,
      v_infrared = \<lparr>count = 0, waiting = []\<rparr>\<rparr>"
    by (simp add: rover_view_def sem_abs_def booted)
  obtain r' where "commu_decoder_bytes ?bs ?r = Some r'"
    "rover_view r' = \<lparr>v_speed = [1, 2, 3, 4], v_stop = 1, v_motor = \<lparr>count = 1, waiting = []\<rparr>,
      v_infrared = \<lparr>count = 1, waiting = []\<rparr>\<rparr>"
    using decoder_obeys_stream [OF ok, of ?bs] unfolding d v by (auto simp: spec_release_def)
  then show ?thesis by (auto simp: rover_view_def)
qed

text \<open>C26: From a registered device that nobody has opened, the decoder thread finds, configures and opens it and installs its callback: the receive interrupt is enabled, the buffer is empty, and the line is in the state its loop relies on.\<close>

theorem decoder_starts:
  assumes "rt_device_find (Some name) (objs B) (kern (rov l)) = Some (Some (ob B), k)"
    "rt_object_get_type (ob B) (objs B) = RT_Object_Class_Device"
    "dev_ref (port l) = 0" "dev_open_flag (port l) = 0" "\<not> bit (dev_flag (port l)) 4" "bit (dev_flag (port l)) 8"
    "hal B (stm32_settings uart_config)"
    "rover_ok (l\<lparr>rov := (rov l)\<lparr>kern := k\<rparr>\<rparr>)" "waiting (sem_abs (sem_decoder (rov l)) k) = []"
  shows "\<exists>l'. commu_decoder_start B name l = Some l' \<and> line_inv B l' \<and> in_line l' = held_back l \<and>
    rxneie (hw (drv (port l'))) \<and> nvic (hw (drv (port l'))) \<and> rov l' = (rov l)\<lparr>kern := k\<rparr>"
  by (rule commu_decoder_start_ok [OF assms])

theorem decoder_starts_witness:
  "\<exists>B l l'. commu_decoder_start B 100 l = Some l' \<and> line_inv B l' \<and> dev_ref (port l) = 0"
proof (rule example_named)
  fix c assume c: "rt_object_find (Some 100) RT_Object_Class_Device c (booted\<lparr>lock_nest := 1\<rparr>) = Some (Some 100, booted\<lparr>lock_nest := 1\<rparr>)"
    "rt_object_get_type 100 c = RT_Object_Class_Device"
  let ?k = "booted\<lparr>lock_nest := 1\<rparr>"
  let ?l = "\<lparr>rov = example_rover\<lparr>kern := ?k\<rparr>, port = fresh_port, place = Reading\<rparr>" and ?B = "example_setup\<lparr>objs := c\<rparr>"
  have p: "rt_device_find (Some 100) (objs ?B) (kern (rov ?l)) = Some (Some (ob ?B), ?k)"
    "rt_object_get_type (ob ?B) (objs ?B) = RT_Object_Class_Device"
    "dev_ref (port ?l) = 0" "dev_open_flag (port ?l) = 0" "\<not> bit (dev_flag (port ?l)) 4" "bit (dev_flag (port ?l)) 8"
    "hal ?B (stm32_settings uart_config)"
    "rover_ok (?l\<lparr>rov := (rov ?l)\<lparr>kern := ?k\<rparr>\<rparr>)" "waiting (sem_abs (sem_decoder (rov ?l)) ?k) = []"
    using c booted(2)
    by (simp_all add: rt_device_find_def example_setup_def fresh_port_def rover_ok_def decoder_ok_def example_rover_def sem_inv_def
        sem_abs_def booted)
  from decoder_starts [OF p] show ?thesis using p(3) by blast
qed

text \<open>C27: Bytes that arrive one after another, each with its interrupt, are read in the order in which they arrived; of more than the buffer holds, one less than its size, the latest stay.\<close>

theorem serial_keeps_latest:
  assumes "port_sane (drv d)" "serial_rx (drv d) = Some f" "\<not> get_flag UART_FLAG_RXNE (hw (drv d))" "rxneie (hw (drv d))"
    "bit (dev_open_flag d) 8" "bufsz (ser_config (drv d)) = m"
  shows "\<exists>d1 d2. receive_bytes hi bs d k = Some (d1, k) \<and>
    rt_serial_read (stm32_uart_ops hi) pos n d1 k = Some (take n (latest (m - 1) (fifo_bytes m f @ bs)), d2, k)"
proof -
  obtain d1 f1 where d1: "receive_bytes hi bs d k = Some (d1, k)" "port_sane (drv d1)" "serial_rx (drv d1) = Some f1"
    "ser_config (drv d1) = ser_config (drv d)" "dev_open_flag d1 = dev_open_flag d"
    "fifo_bytes m f1 = latest (m - 1) (fifo_bytes m f @ bs)"
    using receive_bytes_ok [OF assms(1-4), of hi bs k] assms(6) by auto
  then show ?thesis
    using serial_int_rx_ok [OF d1(2,3), of n] assms(5,6) by (cases "n = 0") (auto simp: rt_serial_read_def and_mode)
qed

theorem serial_keeps_latest_witness:
  "\<exists>d1 d2. receive_bytes (\<lambda>_. True) [1, 2, 3] (port example_line) booted = Some (d1, booted) \<and>
    rt_serial_read (stm32_uart_ops (\<lambda>_. True)) 0 2 d1 booted = Some ([1, 2], d2, booted)"
proof -
  let ?d = "port example_line" and ?f = "\<lparr>rx_buffer = replicate 64 0, put_index = 0, get_index = 0, is_full = False\<rparr>"
  have p: "port_sane (drv ?d)" "serial_rx (drv ?d) = Some ?f" "\<not> get_flag UART_FLAG_RXNE (hw (drv ?d))" "rxneie (hw (drv ?d))"
    "bit (dev_open_flag ?d) 8" "bufsz (ser_config (drv ?d)) = 64"
    by (simp_all add: example_line_def fresh_port_def uart_config_def port_sane_def new_fifo get_flag_def)
  from serial_keeps_latest [OF p, of "\<lambda>_. True" "[1, 2, 3]" booted 0 2] show ?thesis
    by (simp add: fifo_bytes_def rx_length_def)
qed

text \<open>C28: An object that is registered under a name is found by every name that agrees with it in the first eight characters, before all older objects of its class, and leaves the lists as they were when it is detached.\<close>

theorem object_found_by_name:
  assumes "container_inv c" "rt_object_get_information type = Some i"
    "b \<notin> registered c" "apart (insert b (registered c))" "mapped (c_mem c) b RT_NAME_MAX"
    "cstr (c_mem c) name s" "b + RT_NAME_MAX \<le> name \<or> name + length s < b"
    "rt_exit_critical (rt_enter_critical k) = Some k'" "interrupt_nest k' = 0"
    "rt_exit_critical (rt_enter_critical k') = Some k''"
  shows "\<exists>c'. rt_object_init b type name c k = Some (c', k') \<and> container_inv c' \<and>
    (\<forall>key u. cstr (c_mem c') key u \<and> take RT_NAME_MAX u = take RT_NAME_MAX s \<longrightarrow>
       rt_object_find (Some key) type c' k' = Some (Some b, k'')) \<and>
    (\<forall>j < length container_types. object_list (rt_object_detach b c') j = object_list c j)"
  by (rule rt_object_find_registered [OF assms])

theorem object_found_by_name_witness:
  "\<exists>c'. rt_object_init 100 RT_Object_Class_Device 200 empty_container (booted\<lparr>lock_nest := 1\<rparr>) = Some (c', booted\<lparr>lock_nest := 1\<rparr>) \<and>
     object_list (rt_object_detach 100 c') 7 = []"
proof -
  note E = example_lock
  have p: "container_inv empty_container" "rt_object_get_information RT_Object_Class_Device = Some 7"
    "100 \<notin> registered empty_container" "apart (insert 100 (registered empty_container))"
    "mapped (c_mem empty_container) 100 RT_NAME_MAX" "cstr (c_mem empty_container) 200 []"
    "100 + RT_NAME_MAX \<le> (200 :: nat) \<or> 200 + length ([] :: byte list) < 100"
    by (rule empty_container_facts)+ simp
  from object_found_by_name [OF p E(1,2,1)] show ?thesis by (auto simp: empty_container_def container_types_def)
qed

text \<open>C29: Resetting a semaphore resumes every waiting thread, whose rt_sem_take then returns -RT_ERROR, and stores the new value modulo 2^16.\<close>

theorem sem_reset_wakes_all:
  assumes "sem_inv s k"
  shows "\<exists>k'. rt_sem_control s (RT_IPC_CMD_RESET v) k = Some (RT_EOK, k') \<and> sem_inv s k' \<and>
    sem_abs s k' = \<lparr>count = v mod 2 ^ 16, waiting = []\<rparr> \<and>
    (\<forall>t \<in> set (lists k (SuspQ s)).
       rt_sem_take_resume t k' = - RT_ERROR \<and> th_stat (threads k' t) \<noteq> RT_THREAD_SUSPEND)"
  by (rule rt_sem_reset_ok [OF assms, of v]) blast

theorem sem_reset_wakes_all_witness:
  "\<exists>k1 k2. rt_sem_take 0 5 booted = Some (Blocked, k1) \<and>
     rt_sem_control 0 (RT_IPC_CMD_RESET 65538) k1 = Some (0, k2) \<and> sem_value (sems k2 0) = 2 \<and>
     rt_sem_take_resume 3 k2 = - 1"
proof -
  have t: "(5::int) < 2 ^ 31 - 1" by simp
  obtain r k1 where k1: "rt_sem_take 0 5 booted = Some (r, k1)" "sem_inv 0 k1"
    "(r, sem_abs 0 k1) = spec_take
      (wait_insert (sem_flag (sems booted 0)) (\<lambda>u. current_priority (threads booted u)) 3) (5 = (0 :: int)) (sem_abs 0 booted)"
    by (rule rt_sem_take_refines [OF booted_sem [of 0] booted_in_thread t]) (rule that)
  then have "r = Blocked" "lists k1 (SuspQ 0) = [3]"
    by (simp_all add: spec_take_def sem_abs_def booted wait_insert_def)
  then show ?thesis using k1(1) sem_reset_wakes_all [OF k1(2), of 65538] by (auto simp: sem_abs_def)
qed

text \<open>C30: A thread that waits on a completion without a limit is made ready by the signal, and its wait returns success and takes the flag away, whatever the system did in between as long as its error number was left alone.\<close>

theorem completion_reaches_waiter:
  assumes "comp_inv c k" "in_thread k t" "waiter (comp_abs c k) = None"
    "rt_completion_wait RT_WAITING_FOREVER c k = Some (Blocked, c1, k1)"
    "comp_inv c1 k2" "waiter (comp_abs c1 k2) = Some t" "th_error (threads k2 t) = th_error (threads k1 t)"
  shows "\<exists>c3 k3. rt_completion_done c1 k2 = Some (c3, k3) \<and> th_stat (threads k3 t) \<noteq> RT_THREAD_SUSPEND \<and>
    rt_completion_wait_resume t c3 k3 = (RT_EOK, c3\<lparr>comp_flag := 0\<rparr>)"
  by (rule signal_reaches_waiter [OF assms]) blast

theorem completion_reaches_waiter_witness:
  "\<exists>c1 k1 c3 k3. rt_completion_wait RT_WAITING_FOREVER \<lparr>comp_flag = 0, comp_list = 7\<rparr> booted = Some (Blocked, c1, k1) \<and>
     rt_completion_done c1 k1 = Some (c3, k3) \<and> th_stat (threads k3 3) \<noteq> RT_THREAD_SUSPEND"
proof -
  let ?c = "\<lparr>comp_flag = 0, comp_list = 7\<rparr>"
  have p: "comp_inv ?c booted" "RT_WAITING_FOREVER < (2 :: int) ^ 31 - 1" "waiter (comp_abs ?c booted) = None"
    by (simp_all add: comp_inv_def comp_abs_def booted)
  obtain r c1 k1 where w: "rt_completion_wait RT_WAITING_FOREVER ?c booted = Some (r, c1, k1)" "comp_inv c1 k1"
    "(r, comp_abs c1 k1) = spec_wait 3 (RT_WAITING_FOREVER = 0) (comp_abs ?c booted)"
    by (rule rt_completion_wait_refines [OF p(1) booted_in_thread p(2,3)]) (rule that)
  have b: "r = Blocked" "waiter (comp_abs c1 k1) = Some 3" using w(3) by (simp_all add: spec_wait_def comp_abs_def)
  from completion_reaches_waiter [OF p(1) booted_in_thread p(3) w(1) [unfolded b(1)] w(2) b(2) refl] show ?thesis
    using w(1) b(1) by blast
qed

text \<open>C31: The pointer assignments of the intrusive lists implement append, prepend, ordered insertion and removal on a family of lists that share no node.\<close>

theorem list_pointers_refine:
  assumes "links_rep s qs"
  shows "(unlinked qs n \<longrightarrow>
      links_rep (rt_list_insert_before (Inl h) (Inr n) s) (l_append h n qs) \<and>
      links_rep (rt_list_insert_after (Inl h) (Inr n) s) (l_prepend h n qs) \<and>
      (a \<in> set (qs h) \<longrightarrow> links_rep (rt_list_insert_before (Inr a) (Inr n) s) (l_before h a n qs))) \<and>
    links_rep (rt_list_remove (Inr n) s) (l_remove n qs) \<and>
    (rt_list_isempty (Inl h) s \<longleftrightarrow> qs h = [])"
  using assms links_rep_append links_rep_prepend links_rep_before links_rep_remove
    dll_isempty [OF links_repD(2) [OF assms, of h]] by (intro conjI impI) simp_all

theorem list_pointers_refine_witness:
  "links_rep (rt_list_insert_before (Inl ()) (Inr (5 :: nat)) \<lparr>lnext = id, lprev = id\<rparr>) (l_append () 5 (\<lambda>_. []))"
proof -
  have e: "links_rep \<lparr>lnext = id, lprev = id :: unit + nat \<Rightarrow> _\<rparr> (\<lambda>_. [])"
    by (simp add: links_rep_def wf_lists_def dll_def)
  have "unlinked (\<lambda>_ :: unit. []) (5 :: nat)" by (simp add: unlinked_def)
  then show ?thesis using list_pointers_refine [OF e, of 5 "()"] by blast
qed

text \<open>C32: In every state reached from the boot by admissible calls, a thread that calls rt_thread_sleep(n), 0 < n < 2^31-1, is suspended through the next n-1 tick interrupts, all of which return, and is ready or running, with -RT_ETIMEOUT, after the n-th, when nothing but ticks happens in between. That the timer list is in order and the periods are positive and below half a turn of the clock is part of the invariant of the reachable states, not a hypothesis; other timers may be running and may be periodic. The functions of user timers are assumed to leave the kernel alone.\<close>

theorem sleep_then_wakes:
  assumes "image_ok im" "rtthread_startup im (reset_kernel im) = Some k0" "runs k0 cs tab k"
    "caller_runs k" "current_thread k = Some t" "0 < n" "n < 0x7fffffff"
  shows "\<exists>k1. rt_thread_sleep n k = Some k1 \<and>
    (\<forall>i < unat n. \<exists>ki. ticks i k1 = Some ki \<and> th_stat (threads ki t) = RT_THREAD_SUSPEND) \<and>
    (\<exists>kn. ticks (unat n) k1 = Some kn \<and> kinv kn \<and>
       th_stat (threads kn t) \<in> {RT_THREAD_READY, RT_THREAD_RUNNING} \<and> th_error (threads kn t) = - RT_ETIMEOUT)"
  using sleep_then_ticks [OF reachable_on_time [OF assms(1-3)] assms(4-7)] by simp

theorem sleep_then_wakes_witness:
  "\<exists>k1 k2 k3 k4. rt_thread_sleep 3 booted = Some k1 \<and> do_call Sys_tick k1 = Some k2 \<and> do_call Sys_tick k2 = Some k3 \<and>
     th_stat (threads k3 3) = RT_THREAD_SUSPEND \<and> do_call Sys_tick k3 = Some k4 \<and>
     th_stat (threads k4 3) \<in> {RT_THREAD_READY, RT_THREAD_RUNNING} \<and> th_error (threads k4 3) = - RT_ETIMEOUT"
proof -
  have n: "(0 :: u32) < 3" "(3 :: u32) < 0x7fffffff" by simp_all
  have lt: "2 < unat (3 :: u32)" "unat (3 :: u32) = 3" by simp_all
  obtain k1 k3 k4 where k: "rt_thread_sleep 3 booted = Some k1" "ticks 2 k1 = Some k3" "ticks 3 k1 = Some k4"
    "th_stat (threads k3 3) = RT_THREAD_SUSPEND" "th_stat (threads k4 3) \<in> {RT_THREAD_READY, RT_THREAD_RUNNING}"
    "th_error (threads k4 3) = - RT_ETIMEOUT"
    using sleep_then_wakes [OF board_ok booted(1) runs.start booted_caller booted(3) n] lt by metis
  obtain k2 where k2: "do_call Sys_tick k1 = Some k2" "do_call Sys_tick k2 = Some k3"
    using k(2) by (auto simp: numeral_2_eq_2 bind_eq_Some_conv simp del: do_call.simps)
  have "do_call Sys_tick k3 = Some k4"
    using k(3) k2 by (simp add: numeral_3_eq_3 del: do_call.simps)
  then show ?thesis using k(1,4-6) k2 by blast
qed

text \<open>C33: In every state reached from the boot by admissible calls and ticks, a tick interrupt returns (its check of the hard timers ends within one round per timer), advances the clock by one modulo 2^32 and keeps the invariant. It wakes exactly the threads whose timers have at most one tick left, with -RT_ETIMEOUT; every other thread stays suspended or awake with its error number as it was, and every other linked thread timer stays linked with one tick less. The order of the timer list and the bounds of the periods (1 to 2^31-3 ticks; the code checks none, and a period of 0 would keep it in the loop) are part of the invariant that every admissible call keeps; the functions of user timers are assumed to leave the kernel alone.\<close>

theorem tick_advances:
  assumes "image_ok im" "rtthread_startup im (reset_kernel im) = Some k0" "runs k0 cs tab k"
  shows "\<exists>k'. rt_tick_increase app_callback (Suc (length (timer_lists k HardTimers))) k = Some k' \<and> kinv k' \<and>
    rt_tick k' = rt_tick k + 1 \<and>
    (\<forall>t. if Thread_Timer t \<in> set (timer_lists k HardTimers) \<and> ticks_left (Thread_Timer t) k \<le> 1
      then th_stat (threads k' t) \<in> {RT_THREAD_READY, RT_THREAD_RUNNING} \<and> th_error (threads k' t) = - RT_ETIMEOUT
      else (th_stat (threads k' t) = RT_THREAD_SUSPEND \<longleftrightarrow> th_stat (threads k t) = RT_THREAD_SUSPEND) \<and>
        th_error (threads k' t) = th_error (threads k t) \<and>
        (Thread_Timer t \<in> set (timer_lists k HardTimers) \<longrightarrow> Thread_Timer t \<in> set (timer_lists k' HardTimers) \<and>
           ticks_left (Thread_Timer t) k' = ticks_left (Thread_Timer t) k - 1))"
proof -
  note R = reachable_on_time [OF assms]
  obtain k' where k': "do_call Sys_tick k = Some k'" "kinv k'" "rt_tick k' = rt_tick k + 1" and
    due: "\<And>t. Thread_Timer t \<in> set (timer_lists k HardTimers) \<Longrightarrow> ticks_left (Thread_Timer t) k \<le> 1 \<Longrightarrow>
       th_stat (threads k' t) \<in> {RT_THREAD_READY, RT_THREAD_RUNNING} \<and> th_error (threads k' t) = - RT_ETIMEOUT" and
    later: "\<And>t. Thread_Timer t \<in> set (timer_lists k HardTimers) \<Longrightarrow> 1 < ticks_left (Thread_Timer t) k \<Longrightarrow>
       Thread_Timer t \<in> set (timer_lists k' HardTimers) \<and>
       ticks_left (Thread_Timer t) k' = ticks_left (Thread_Timer t) k - 1 \<and>
       th_stat (threads k' t) = RT_THREAD_SUSPEND \<and> th_error (threads k' t) = th_error (threads k t)" and
    others: "\<And>t. Thread_Timer t \<notin> set (timer_lists k HardTimers) \<Longrightarrow> th_error (threads k' t) = th_error (threads k t) \<and>
       (th_stat (threads k' t) = RT_THREAD_SUSPEND \<longleftrightarrow> th_stat (threads k t) = RT_THREAD_SUSPEND)"
    by (rule tick_ok [OF R]) (rule that)
  have sus: "th_stat (threads k t) = RT_THREAD_SUSPEND" if "Thread_Timer t \<in> set (timer_lists k HardTimers)" for t
    using timer_invD(7) [OF kinvD(4) [OF R(1)]] that by blast
  show ?thesis
  proof (intro exI conjI allI)
    show "rt_tick_increase app_callback (Suc (length (timer_lists k HardTimers))) k = Some k'" using k'(1) by simp
    fix t
    show "if Thread_Timer t \<in> set (timer_lists k HardTimers) \<and> ticks_left (Thread_Timer t) k \<le> 1
      then th_stat (threads k' t) \<in> {RT_THREAD_READY, RT_THREAD_RUNNING} \<and> th_error (threads k' t) = - RT_ETIMEOUT
      else (th_stat (threads k' t) = RT_THREAD_SUSPEND \<longleftrightarrow> th_stat (threads k t) = RT_THREAD_SUSPEND) \<and>
        th_error (threads k' t) = th_error (threads k t) \<and>
        (Thread_Timer t \<in> set (timer_lists k HardTimers) \<longrightarrow> Thread_Timer t \<in> set (timer_lists k' HardTimers) \<and>
           ticks_left (Thread_Timer t) k' = ticks_left (Thread_Timer t) k - 1)"
      using due [of t] later [of t] others [of t] sus [of t] not_less by metis
  qed (rule k')+
qed

theorem tick_advances_witness:
  "\<exists>k1 k2. runs booted [Sys_sleep 1] (\<lambda>_. None) k1 \<and> Thread_Timer 3 \<in> set (timer_lists k1 HardTimers) \<and>
     th_stat (threads k1 3) = RT_THREAD_SUSPEND \<and> rt_tick_increase app_callback (Suc (length (timer_lists k1 HardTimers))) k1 = Some k2 \<and>
     th_stat (threads k2 3) \<in> {RT_THREAD_READY, RT_THREAD_RUNNING} \<and> th_error (threads k2 3) = - 2"
proof -
  obtain k1 where k1: "rt_thread_sleep 1 booted = Some k1" "Thread_Timer 3 \<in> set (timer_lists k1 HardTimers)"
    "th_stat (threads k1 3) = RT_THREAD_SUSPEND" "timeout_tick (timers k1 (Thread_Timer 3)) = rt_tick booted + 1" "rt_tick k1 = rt_tick booted"
    by (rule rt_thread_sleep_ok [OF booted(2-4), of 1]) simp_all
  have "runs booted ([] @ [Sys_sleep 1]) (retable (Sys_sleep 1) (\<lambda>_. None)) k1"
    by (rule runs.call [OF runs.start]) (simp_all add: booted_caller k1(1))
  then have r: "runs booted [Sys_sleep 1] (\<lambda>_. None) k1" by simp
  have "ticks_left (Thread_Timer 3) k1 \<le> 1" by (simp add: ticks_left_def k1(4,5))
  then show ?thesis using tick_advances [OF board_ok booted(1) r] r k1(2,3) by (auto dest!: spec [of _ 3])
qed



text \<open>C35: The pulse width the motor thread computes from an integer and a hundredths byte is the decimal value times 10000, or one less, for every pair of bytes.\<close>

theorem motor_pulse_bound:
  "motor_pulse a b \<le> 10000 * unat a + 100 * unat b \<and>
   10000 * unat a + 100 * unat b \<le> motor_pulse a b + 1"
  using motor_pulse_near [of a b] by blast





text \<open>C38: Splitting a line in place, by writing zeros over blanks and closing quotes, gives as argument strings the first ten tokens of the text, as a tokenizer over the text defines them; bytes around the line keep their values, and nothing is printed for fewer than ten.\<close>

theorem split_gives_tokens:
  assumes "0 \<notin> set s"
  shows "\<exists>argv s' t. msh_split (pre @ s @ 0 # post) (length pre) (length s) out = Some (argv, pre @ s' @ 0 # post, out @ t) \<and>
    length s' = length s \<and> arg_strings (pre @ s' @ 0 # post) argv = Some (take 10 (toks s)) \<and> (length (toks s) < 10 \<longrightarrow> t = [])"
  by (rule msh_split_ok [OF assms, of pre post out]) blast

theorem split_gives_tokens_witness:
  "\<exists>argv s' t. msh_split (ascii ''list  dev'' @ [0]) 0 9 [] = Some (argv, s' @ [0], t) \<and> length s' = 9 \<and>
    arg_strings (s' @ [0]) argv = Some [ascii ''list'', ascii ''dev''] \<and> t = []"
proof -
  have "0 \<notin> set (ascii ''list  dev'')" "length (ascii ''list  dev'') = 9" by (simp_all add: ascii_def)
  moreover have "toks (ascii ''list  dev'') = [ascii ''list'', ascii ''dev'']" by code_simp
  ultimately show ?thesis using split_gives_tokens [of "ascii ''list  dev''" "[]" "[]" "[]"] by auto
qed

text \<open>C39: Completion of a line that is a prefix of some command names writes the longest common prefix of these names over the line, and lists them; without such a name the line stays as it is.\<close>

theorem completion_is_common_prefix:
  assumes "table_ok tab" "0 \<notin> set p" "p \<noteq> []" "length (completed tab p) \<le> length (p @ 0 # post)"
  shows "msh_auto_complete tab (p @ 0 # post) out =
      Some (completed tab p @ drop (length (completed tab p)) (p @ 0 # post), out @ listing (matches tab p)) \<and>
    (if matches tab p = [] then completed tab p = p
     else \<forall>q. prefix q (completed tab p) \<longleftrightarrow> (\<forall>e \<in> set tab. prefix p (sc_name e) \<longrightarrow> prefix q (sc_name e)))"
proof
  show "msh_auto_complete tab (p @ 0 # post) out =
      Some (completed tab p @ drop (length (completed tab p)) (p @ 0 # post), out @ listing (matches tab p))"
    using msh_auto_complete_ok [OF assms(1,2,4), of out] assms(3) by simp
  show "if matches tab p = [] then completed tab p = p
     else \<forall>q. prefix q (completed tab p) \<longleftrightarrow> (\<forall>e \<in> set tab. prefix p (sc_name e) \<longrightarrow> prefix q (sc_name e))"
    using common_prefix_ok [of "matches tab p"] by (auto simp: completed_def is_common_def matches_def)
qed

theorem completion_is_common_prefix_witness:
  "msh_auto_complete example_table (ascii ''l'' @ 0 # replicate 9 0) [] =
     Some (ascii ''list_t'' @ replicate 5 0, listing [ascii ''list_timer'', ascii ''list_thread''])"
proof -
  have a: "ascii ''l'' \<noteq> []" "0 \<notin> set (ascii ''l'')" by (simp_all add: ascii_def)
  have c: "table_ok example_table" "completed example_table (ascii ''l'') = ascii ''list_t''"
    "matches example_table (ascii ''l'') = [ascii ''list_timer'', ascii ''list_thread'']" by code_simp+
  show ?thesis
    using completion_is_common_prefix [OF c(1) a(2,1), of "replicate 9 0" "[]"] c(2,3) by (simp add: ascii_def eval_nat_numeral)
qed

text \<open>C40: The bound of 80 is sharp. Eighty characters typed into an empty line (any but the bytes the shell treats as keys: 0, 0xFF, tab, both backspaces 8 and 0x7F, return, line feed and escape) set the position and the cursor back to 0 but leave the characters in the line, although the comments there say that the line is discarded and cleared. If no command starts with these characters, the tab key, one more character and a backspace then bring the shell to position 0 with the cursor at 80, where one more backspace moves memory outside the 81 bytes of the line (the model has no result).\<close>

theorem full_line_corrupts:
  assumes "table_ok tab" "list_all types s" "length s = 80" "matches tab s = []" "types c"
  shows "\<exists>st0 st1 st. finsh_thread_start (finsh_set_prompt_mode 1 (finsh_zero w)) = Some st0 \<and>
    finsh_thread_loop cmds tab s st0 = Some st1 \<and>
    line_position st1 = 0 \<and> line_curpos st1 = 0 \<and> line st1 = s @ [0] \<and>
    finsh_thread_loop cmds tab [9, c, 8] st1 = Some st \<and> line_position st = 0 \<and> line_curpos st = 80 \<and>
    shell_key cmds tab 8 st = None"
proof -
  obtain st0 where st0: "finsh_thread_start (finsh_set_prompt_mode 1 (finsh_zero w)) = Some st0" "shell_holds st0 (ed_start w)"
    using finsh_thread_start_ok [of w] by blast
  have e: "text_of (ed_start w) = []" "mode (ed_start w) = WAIT_NORMAL" by (simp_all add: ed_start_def text_of_def)
  obtain st1 where st1: "finsh_thread_loop cmds tab s st0 = Some st1" "overfull s st1"
    using full_line [OF st0(2) e assms(1-3)] by blast
  obtain st where "finsh_thread_loop cmds tab [9, c, 8] st1 = Some st" "line_position st = 0" "line_curpos st = 80"
    "shell_key cmds tab 8 st = None"
    using overfull_corrupts [OF st1(2) assms(2,3,1,4,5)] by blast
  then show ?thesis using st0(1) st1 by (fastforce simp: overfull_def)
qed

theorem full_line_corrupts_witness:
  "\<exists>st0 st1. finsh_thread_start (finsh_set_prompt_mode 1 (finsh_zero [])) = Some st0 \<and>
    finsh_thread_loop log_command example_table (replicate 80 120) st0 = Some st1 \<and> line st1 = replicate 80 120 @ [0] \<and>
    finsh_thread_loop log_command example_table [9, 120, 8, 8] st1 = None"
proof -
  have t: "table_ok example_table" "types 120" by code_simp+
  have m: "matches example_table (replicate 80 120) = []" by code_simp
  have l: "list_all types (replicate 80 120)" using t(2) by (simp add: list_all_iff)
  obtain st0 st1 st where st: "finsh_thread_start (finsh_set_prompt_mode 1 (finsh_zero [])) = Some st0"
    "finsh_thread_loop log_command example_table (replicate 80 120) st0 = Some st1" "line st1 = replicate 80 120 @ [0]"
    "finsh_thread_loop log_command example_table [9, 120, 8] st1 = Some st" "shell_key log_command example_table 8 st = None"
    using full_line_corrupts [OF t(1) l _ m t(2), of "[]" log_command] by auto
  have "finsh_thread_loop log_command example_table ([9, 120, 8] @ [8]) st1 = None"
    using st(4,5) by (simp only: finsh_thread_loop_append) simp
  then show ?thesis using st(1-3) by auto
qed

section \<open>Further facts\<close>

text \<open>rt_event_recv returns the matching flags and clears them on request, or fails with -RT_ETIMEOUT, or suspends the caller behind the event.\<close>

theorem event_recv_result:
  assumes "event_inv e k" "in_thread k t" "flags \<noteq> 0" "bit opt 0 \<or> bit opt 1" "timeout < 2 ^ 31 - 1"
  shows "\<exists>r k'. rt_event_recv e flags opt timeout k = Some (r, k') \<and> event_inv e k' \<and>
    (if satisfied (ev_set (events k e)) flags opt then
       r = Ret (RT_EOK, Some (ev_set (events k e) AND flags)) \<and>
       ev_set (events k' e) = (if bit opt 2 then ev_set (events k e) AND NOT flags else ev_set (events k e))
     else if timeout = 0 then r = Ret (- RT_ETIMEOUT, None) \<and> events k' = events k
     else r = Blocked \<and> th_stat (threads k' t) = RT_THREAD_SUSPEND \<and> t \<in> set (lists k' (SuspQ e)))"
proof (rule rt_event_recv_ok [OF assms])
  fix r k'
  assume "rt_event_recv e flags opt timeout k = Some (r, k')" "event_inv e k'"
    and now: "satisfied (ev_set (events k e)) flags opt \<Longrightarrow>
       r = Ret (RT_EOK, Some (ev_set (events k e) AND flags)) \<and> lists k' = lists k \<and>
       ev_set (events k' e) = (if EVENT_CLEAR opt then ev_set (events k e) AND NOT flags
         else ev_set (events k e))"
    and poll: "\<not> satisfied (ev_set (events k e)) flags opt \<Longrightarrow> timeout = 0 \<Longrightarrow>
       r = Ret (- RT_ETIMEOUT, None) \<and> lists k' = lists k \<and> events k' = events k"
    and wait: "\<not> satisfied (ev_set (events k e)) flags opt \<Longrightarrow> timeout \<noteq> 0 \<Longrightarrow>
       r = Blocked \<and> th_stat (threads k' t) = RT_THREAD_SUSPEND \<and> events k' = events k \<and>
       lists k' (SuspQ e) = wait_insert (ev_flag (events k e)) (\<lambda>u. current_priority (threads k u)) t
         (lists k (SuspQ e))"
  then show ?thesis
    by (cases "satisfied (ev_set (events k e)) flags opt"; cases "timeout = 0")
      (use now poll wait in \<open>auto simp: set_wait_insert\<close>)
qed

text \<open>Releasing a block just allocated gives the heap back its old blocks, through the split of rt_smem_alloc and the merging of rt_smem_free.\<close>

theorem smem_alloc_free:
  assumes "smem_rep h bs" "12 \<le> mem_size_aligned h" "0 < sz" "sz + 3 < 2 ^ 32"
    "rt_smem_alloc sz h = Some (Some a, h')"
  shows "\<exists>h''. rt_smem_free (Some a) h' = Some h'' \<and> smem_rep h'' bs \<and> same_heap h h'' \<and> cells h'' = cells h"
  by (rule rt_smem_alloc_free [OF assms]) blast

text \<open>Any sequence of up to 255 opens, closes and reads of the serial device, with any flags, returns; its reference count is the number of references successful opens and closes leave, and it is marked open exactly while it has one.\<close>

theorem serial_sessions:
  assumes "port_sane (drv d)" "dev_ref d = 0" "dev_open_flag d = 0" "free_queue q k"
    "rt_object_get_type b c = RT_Object_Class_Device" "length us \<le> 255"
  shows "\<exists>rs d' k'. dev_run (serial_ops (stm32_uart_ops hi) (Some a) (Some q)) c b us d k = Some (rs, d', k') \<and>
    length rs = length us \<and> dev_ref d' = held (zip us rs) 0 \<and> (bit (dev_open_flag d') 3 \<longleftrightarrow> dev_ref d' \<noteq> 0)"
proof -
  have "dev_ok port_sane port_serves d" using assms(1-3) by (simp add: dev_ok_def)
  moreover have "dev_ref d + length us \<le> 255" using assms(2,6) by simp
  ultimately obtain rs d' k' where "dev_run (serial_ops (stm32_uart_ops hi) (Some a) (Some q)) c b us d k = Some (rs, d', k')"
    "dev_ok port_sane port_serves d'" "length rs = length us" "dev_ref d' = held (zip us rs) (dev_ref d)"
    using stm32.serial.run_counts [OF _ assms(5,4), of d us hi a] by blast
  then show ?thesis using assms(2) by (auto simp: dev_ok_def split: if_splits)
qed

text \<open>The word-wise rt_memset and rt_memcpy do what the byte-wise loops do, for every address, alignment and size, overlapping or not, and fault exactly when these do.\<close>

theorem memory_loops:
  "rt_memset s c n m = fill_up s (ucast c) n m \<and> rt_memcpy dst src n m = copy_up dst src n m"
  by (simp add: rt_memset_bytes rt_memcpy_bytes)

text \<open>rt_thread_sleep suspends the caller, clears its error and starts its timer so that it expires exactly n ticks from now (n below half the clock).\<close>

theorem sleep_sets_timer:
  assumes "kinv k" "current_thread k = Some t" "th_stat (threads k t) = RT_THREAD_RUNNING" "n < 0x7fffffff"
  shows "\<exists>k'. rt_thread_sleep n k = Some k' \<and> kinv k' \<and> th_stat (threads k' t) = RT_THREAD_SUSPEND \<and>
    Thread_Timer t \<in> set (timer_lists k' HardTimers) \<and>
    timeout_tick (timers k' (Thread_Timer t)) = rt_tick k + n"
  by (rule rt_thread_sleep_ok [OF assms]) blast

text \<open>When the caller has the highest ready priority, rt_thread_yield gives the CPU to the next thread of that priority and puts the caller at the end of the queue.\<close>

theorem yield_is_round_robin:
  assumes "kinv k" "current_thread k = Some c" "th_stat (threads k c) = RT_THREAD_RUNNING" "lock_nest k = 0"
    and "current_priority (threads k c) = p" "lists k (ReadyQ p) = t # ts"
    and "\<And>r. r < p \<Longrightarrow> lists k (ReadyQ r) = []"
  shows "\<exists>k'. rt_thread_yield k = Some k' \<and> current_thread k' = Some t \<and> lists k' (ReadyQ p) = ts @ [c]"
  by (rule rt_thread_yield_rotates [OF assms(1-6)]) (use assms(7) in blast)+

text \<open>Bytes leave a ring buffer in the order they entered, none lost and none twice, whatever the sequence of puts and gets on a freshly initialised buffer, and at most its size stays behind.\<close>

theorem ringbuffer_fifo:
  assumes "4 \<le> sz" "sz < 2 ^ 15" "sz \<le> length pool"
    and "rt_ringbuffer_init pool sz = Some rb" "rbq.run ops rb = (entered, taken, rb')"
  shows "taken = take (length taken) entered \<and> length entered \<le> length taken + RT_ALIGN_DOWN sz 4"
proof (rule rb_init_spec [OF assms(1-3)])
  fix rb1
  assume "rt_ringbuffer_init pool sz = Some rb1" "rb_inv rb1" "rb_list rb1 = []"
    "buffer_size rb1 = RT_ALIGN_DOWN sz 4"
  then show ?thesis using assms(4,5) rbq.run_prefix [of rb1 ops entered taken rb'] rbq.all_fit_trivial by simp
qed

text \<open>What is put into a ring buffer with room is what a get returns when the buffer was empty.\<close>

theorem ringbuffer_put_get:
  assumes "rb_inv rb" "rb_list rb = []" "length xs \<le> buffer_size rb"
  shows "\<exists>rb1 rb2. rt_ringbuffer_put rb xs (length xs) = Some (length xs, rb1) \<and>
    rt_ringbuffer_get rb1 (length xs) = Some (xs, rb2) \<and> rb_inv rb2 \<and> rb_list rb2 = []"
proof (rule rb_put_spec [OF assms(1) order_refl, of xs])
  fix rb1
  assume p: "rt_ringbuffer_put rb xs (length xs) =
      Some (min (length xs) (rt_ringbuffer_space_len rb), rb1)" "rb_inv rb1"
    "rb_list rb1 = rb_list rb @ take (min (length xs) (rt_ringbuffer_space_len rb)) xs"
  have m: "min (length xs) (rt_ringbuffer_space_len rb) = length xs"
    using assms rb_space_len [OF assms(1)] length_rb_list [of rb] by simp
  show ?thesis
    by (rule rb_get_spec [OF p(2), of "length xs"]) (use p assms(2) m in auto)
qed

text \<open>A forced put keeps the newest bytes: the buffer holds the last buffer_size bytes of what it held and what was put, and reports min len buffer_size.\<close>

theorem ringbuffer_put_force:
  assumes "rb_inv rb" "len \<le> length xs"
  shows "\<exists>rb'. rt_ringbuffer_put_force rb xs len = Some (min len (buffer_size rb), rb') \<and> rb_inv rb' \<and>
    rb_list rb' = drop (length (rb_list rb) + len - buffer_size rb) (rb_list rb @ take len xs)"
  using assms by (rule rb_put_force_spec) auto

text \<open>The idle thread reclaims every defunct thread, in the order they ended, and leaves the defunct list empty; the loop ends after one round per thread.\<close>

theorem defunct_threads_reclaimed:
  assumes "kinv k" "length (lists k DefunctQ) < fuel"
  shows "rt_defunct_execute fuel k = Some (lists k DefunctQ, k\<lparr>lists := (lists k)(DefunctQ := [])\<rparr>)"
  by (rule rt_defunct_execute_ok [OF sched_invD(1) [OF kinvD(2) [OF assms(1)]] assms(2)])

text \<open>Starting a timer keeps its list ordered by expiry relative to the current base tick, and a timer enters behind those with the same expiry.\<close>

theorem timer_list_stays_ordered:
  assumes "ordered_from b tick ts" "tick n - b < 0x7fffffff"
  shows "ordered_from b tick (timer_insert tick n ts) \<and>
    (\<exists>us vs. ts = us @ vs \<and> timer_insert tick n ts = us @ n # vs \<and>
       (\<forall>t \<in> set us. tick t - b \<le> tick n - b) \<and> (\<forall>t \<in> set vs. tick n - b < tick t - b))"
  using timer_insert_ordered [OF assms] timer_insert_split [OF assms] by metis

text \<open>Values leave a mailbox in the order they were sent, none lost and none twice, whatever the sequence of stores and fetches.\<close>

theorem mailbox_in_order:
  assumes "mb_ok mb" "mbq.run ops mb = (entered, remain, mb')"
  shows "mb_ok mb' \<and> mb_list mb @ entered = remain @ mb_list mb'"
  using mbq.run_in_order [OF assms mbq.all_fit_trivial] by simp

text \<open>A value sent with rt_mb_urgent is the next one received, and what was in the mailbox follows in its old order.\<close>

theorem mailbox_urgent_first:
  assumes "mb_ok mb" "mb_entry mb < mb_size mb"
  shows "\<exists>mb1 mb2. mb_store_front x mb = Some mb1 \<and> mb_fetch mb1 = Some (x, mb2) \<and> mb_list mb2 = mb_list mb"
proof (rule mb_store_front_ok [OF assms, of x])
  fix mb1
  assume s: "mb_store_front x mb = Some mb1" "mb_ok mb1" "mb_list mb1 = x # mb_list mb"
  show ?thesis by (rule mb_fetch_ok [OF s(2,3)]) (use s(1) in auto)
qed

text \<open>When a blocked mailbox call goes round its loop again, the time it has left is its timeout less the ticks that passed, clamped at zero, across wrap-around of the tick counter.\<close>

theorem remaining_wait_time:
  assumes "0 < timeout" "timeout < 2 ^ 31" "unat (now - start) < 2 ^ 31"
  shows "time_left timeout start now = max 0 (timeout - int (unat (now - start)))"
  by (rule time_left_exact [OF assms])

text \<open>rt_memmove copies the old content of the source, whatever the overlap of source and destination, and leaves all other bytes alone.\<close>

theorem memmove_overlap:
  assumes "mapped m src n" "mapped m dst n"
  shows "rt_memmove dst src n m =
    Some (\<lambda>x. if dst \<le> x \<and> x < dst + n then m (src + (x - dst)) else m x)"
  by (simp add: rt_memmove_ok [OF assms] moved_def)

text \<open>What %d prints for a natural number, skip_atoi reads back as that number, up to the numbers it can add a digit to.\<close>

theorem print_then_atoi:
  assumes "n < 2 ^ 31 - 48" "\<not> ISDIGIT (cur others)"
  shows "\<exists>t. format_text [37, 100] [Arg_Int (word_of_nat n)] = Some t \<and> skip_atoi 0 (t @ others) = Some (int n, others)"
  by (rule format_then_atoi [OF assms])

text \<open>rt_kprintf gives the console device the text when it has less than 255 characters, else its first 254 and a zero byte.\<close>

theorem kprintf_console:
  assumes "mapped m log_buf RT_CONSOLEBUF_SIZE" "log_buf + RT_CONSOLEBUF_SIZE < 2 ^ 32"
    "format_text fmt args = Some t" "log_buf + length t < 2 ^ 32"
  shows "\<exists>m'. rt_kprintf log_buf fmt args m =
    Some (min (length t) 255, map Some (if length t < 255 then t else take 254 t @ [0]), m')"
  by (rule rt_kprintf_ok [OF assms])

text \<open>The range thread reports the distance divided by ten as one byte, or the stop code 0 while the flag is up; the byte wraps, so that a distance of 2560 is reported as 0.\<close>

theorem range_report:
  assumes "sr04_th p r = Some (out, r')"
  shows "out = [if stop_flag r \<noteq> 0 then 0 else word_of_nat (unat p mod 2 ^ 16 div 10)] \<and>
    (unat p = 2560 \<longrightarrow> out = [0])"
  using sr04_th_report [OF assms] by simp

text \<open>The __rt_ffs of the port returns one more than the index of the lowest set bit.\<close>

theorem ffs_finds_lowest_bit:
  assumes "w \<noteq> 0"
  shows "0 < rt_ffs w \<and> bit w (rt_ffs w - 1) \<and> (\<forall>j < rt_ffs w - 1. \<not> bit w j)"
  using ffs.ffs_pos [OF assms] ffs.ffs_bit [OF assms] ffs.ffs_least by blast

text \<open>The three versions of __rt_ffs, by instructions, by a table and by a hash modulo 37, compute the same function on all 32-bit words.\<close>

theorem ffs_variants_agree: "rt_ffs_table w = rt_ffs w \<and> rt_ffs_tiny w = rt_ffs w"
  by (simp add: rt_ffs_table_eq rt_ffs_tiny_eq)

end
